(* ===== verification/Goedb_Prelude.thy ===== *)
theory Goedb_Prelude
  imports Main "HOL-Library.Word" "HOL-Library.Monad_Syntax"
begin

text \<open>
  The shared vocabulary of the development: the machine types, the constants of
  \<^verbatim>\<open>include/constants.h\<close>, the callbacks of \<^verbatim>\<open>src/data-struct/cbs.c\<close> and the generic
  lemmas the components use.

  Conventions of the model.
  \<^item> Every guard of the program that fails ends in \<^verbatim>\<open>exit(EXIT_FAILURE)\<close>, and a dereference of
    a \<^verbatim>\<open>NULL\<close> or freed pointer is undefined behaviour. Both are the value \<open>None\<close> of an
    \<open>option\<close> result: \<open>Some r\<close> says that the call returns \<open>r\<close> and that every memory
    access on the way was valid.
  \<^item> An \<^verbatim>\<open>unsigned long\<close> is a natural number below \<open>2 ^ 64\<close>; operations of the program that
    can leave this range write the reduction modulo \<open>2 ^ 64\<close> out.
  \<^item> A C buffer is a function from offsets to cells, so that \<^verbatim>\<open>memcpy\<close> and \<^verbatim>\<open>memset\<close> are
    pointwise updates.
  \<^item> \<^verbatim>\<open>malloc\<close>, \<^verbatim>\<open>calloc\<close> and the calls into the operating system succeed unless the
    model determines that they cannot.
\<close>

unbundle bit_operations_syntax

section \<open>Machine types\<close>

type_synonym byte = "8 word"
type_synonym ulong = nat
type_synonym addr = nat
type_synonym buffer = "nat \<Rightarrow> byte"

text \<open>The number of values of a 64 bit unsigned integer.\<close>

definition ULONG_RANGE :: nat where
  "ULONG_RANGE = 2 ^ 64"

definition ULONG_MAX :: ulong where
  "ULONG_MAX = 2 ^ 64 - 1"

definition LONG_MAX :: nat where
  "LONG_MAX = 2 ^ 63 - 1"

definition CHAR_BIT :: nat where
  "CHAR_BIT = 8"

definition UCHAR_MAX :: nat where
  "UCHAR_MAX = 255"

section \<open>constants.h\<close>

definition UNINITIALIZED_LONG :: ulong where
  "UNINITIALIZED_LONG = 0xFFFFFFFFFFFFF666"

text \<open>
  \<^verbatim>\<open>0x1.FFFFFFFFFF666p-1\<close> as the 64 bit pattern of the IEEE 754 double: the sign bit 0, the
  biased exponent \<open>0x3FE\<close> and the 52 bit fraction \<open>0xFFFFFFFFFF666\<close>.
\<close>

type_synonym double_bits = nat

definition UNINITIALIZED_WEIGHT :: double_bits where
  "UNINITIALIZED_WEIGHT = 0x3FEFFFFFFFFFF666"

text \<open>
  The page size is \<^verbatim>\<open>sysconf(_SC_PAGESIZE)\<close>, 4096 on the platforms the program is built for
  (record identifiers keep the slot of a record in their low byte, so a page has to have
  \<open>256\<close> slots of \<open>16\<close> bytes).
\<close>

definition PAGE_SIZE :: nat where
  "PAGE_SIZE = 4096"

definition MAX_PAGE_NO :: nat where
  "MAX_PAGE_NO = LONG_MAX div PAGE_SIZE"

definition SLOT_SIZE :: nat where
  "SLOT_SIZE = 16"

definition SLOTS_PER_PAGE :: nat where
  "SLOTS_PER_PAGE = PAGE_SIZE div SLOT_SIZE"

definition CACHE_N_PAGES :: nat where
  "CACHE_N_PAGES = PAGE_SIZE * 100 div PAGE_SIZE"

text \<open>
  \<^verbatim>\<open>EVICT_LRU_K\<close> is \<^verbatim>\<open>1 + (size_t)(CACHE_N_PAGES * 0.1F)\<close>. The product \<^verbatim>\<open>100 * 0.1F\<close> is
  rounded to the float \<open>10\<close>.
\<close>

definition EVICT_LRU_K :: nat where
  "EVICT_LRU_K = 1 + CACHE_N_PAGES div 10"

lemmas size_defs = PAGE_SIZE_def SLOT_SIZE_def SLOTS_PER_PAGE_def CHAR_BIT_def UCHAR_MAX_def

lemma PAGE_SIZE_pos [simp]: "0 < PAGE_SIZE"
  by (simp add: PAGE_SIZE_def)

lemma PAGE_SIZE_neq_0 [simp]: "PAGE_SIZE \<noteq> 0"
  by (simp add: PAGE_SIZE_def)

lemma SLOTS_PER_PAGE_eq: "SLOTS_PER_PAGE = 256"
  by (simp add: size_defs)

lemma EVICT_LRU_K_eq: "EVICT_LRU_K = 11"
  by (simp add: EVICT_LRU_K_def CACHE_N_PAGES_def)

section \<open>cbs.c\<close>

text \<open>The hash of an \<^verbatim>\<open>unsigned long\<close>: \<^verbatim>\<open>(h ^ in) * prime\<close> in \<^verbatim>\<open>size_t\<close> arithmetic.\<close>

definition fnv_hash_ul :: "ulong \<Rightarrow> nat \<Rightarrow> nat" where
  "fnv_hash_ul k seed = ((seed XOR k) * 0xFDCFB7) mod ULONG_RANGE"

definition unsigned_long_eq :: "ulong \<Rightarrow> ulong \<Rightarrow> bool" where
  "unsigned_long_eq a b \<longleftrightarrow> a = b"

text \<open>The comparator handed to \<^verbatim>\<open>qsort\<close>.\<close>

definition ul_cmp :: "ulong \<Rightarrow> ulong \<Rightarrow> int" where
  "ul_cmp a b = (if a < b then -1 else if a = b then 0 else 1)"

section \<open>Rules shared by the components\<close>

text \<open>
  \<open>exits\<close> collects the equations that run the \<open>option\<close> monad; \<open>runs\<close> the rules that
  invert a successful run.
\<close>

named_theorems exits
named_theorems runs

lemmas [exits] = Option.bind.simps bind_eq_None_conv
lemmas [runs] = bind_eq_Some_conv

lemma map_nth_upt [simp]: "map ((!) xs) [0..<length xs] = xs"
  by (rule map_nth)

lemma map_option_eq_map_Some_iff: "map f ps = map Some xs \<longleftrightarrow>
    length ps = length xs \<and> (\<forall>i < length xs. f (ps ! i) = Some (xs ! i))"
  by (auto simp: list_eq_iff_nth_eq)

lemma in_set_tlD: "x \<in> set (tl xs) \<Longrightarrow> x \<in> set xs"
  by (cases xs) auto

lemma disjoint_last: "as \<noteq> [] \<Longrightarrow> set as \<inter> B = {} \<Longrightarrow> last as \<notin> B"
  using last_in_set by (metis disjoint_iff)

lemma disjoint_hd: "bs \<noteq> [] \<Longrightarrow> A \<inter> set bs = {} \<Longrightarrow> hd bs \<notin> A"
  using hd_in_set by (metis disjoint_iff)

lemma take_drop_Suc_nth:
  "i < length xs \<Longrightarrow> take i xs @ xs ! i # drop (Suc i) xs = xs"
  by (simp add: id_take_nth_drop [symmetric])

lemma nths_cong_below:
  "(\<And>j. j < length xs \<Longrightarrow> j \<in> A \<longleftrightarrow> j \<in> B) \<Longrightarrow> nths xs A = nths xs B"
  unfolding nths_def by (rule arg_cong [where f = "map fst"], rule filter_cong) (auto simp: set_zip)

lemma wrap_sub: "b \<le> a \<Longrightarrow> a < r \<Longrightarrow> (a + r - b) mod r = a - (b :: nat)"
  by (metis Nat.add_diff_assoc2 diff_le_self mod_add_self2 mod_less order_le_less_trans)

text \<open>The linear searches of the containers: the index of the first element that satisfies \<open>P\<close>.\<close>

fun find_index_from :: "('a \<Rightarrow> bool) \<Rightarrow> nat \<Rightarrow> 'a list \<Rightarrow> nat option" where
  "find_index_from P i [] = None"
| "find_index_from P i (x # xs) = (if P x then Some i else find_index_from P (Suc i) xs)"

definition find_index :: "('a \<Rightarrow> bool) \<Rightarrow> 'a list \<Rightarrow> nat option" where
  "find_index P xs = find_index_from P 0 xs"

lemma find_index_from_None: "find_index_from P i xs = None \<longleftrightarrow> (\<forall>x \<in> set xs. \<not> P x)"
  by (induction P i xs rule: find_index_from.induct) auto

lemma find_index_from_Some: "find_index_from P i xs = Some k \<Longrightarrow>
    i \<le> k \<and> k < i + length xs \<and> P (xs ! (k - i)) \<and> (\<forall>j < k - i. \<not> P (xs ! j))"
proof (induction P i xs arbitrary: k rule: find_index_from.induct)
  case (2 P i x xs)
  show ?case
  proof (cases "P x")
    case False
    with 2 have IH: "Suc i \<le> k \<and> k < Suc i + length xs \<and> P (xs ! (k - Suc i)) \<and>
        (\<forall>j < k - Suc i. \<not> P (xs ! j))" by simp
    then have "k - i = Suc (k - Suc i)" by arith
    with IH False show ?thesis by (auto simp: less_Suc_eq_0_disj)
  qed (use 2 in simp)
qed simp

lemma find_index_None: "find_index P xs = None \<longleftrightarrow> (\<forall>x \<in> set xs. \<not> P x)"
  by (simp add: find_index_def find_index_from_None)

lemma find_index_Some:
  "find_index P xs = Some k \<Longrightarrow> k < length xs \<and> P (xs ! k) \<and> (\<forall>j < k. \<not> P (xs ! j))"
  using find_index_from_Some [of P 0 xs k] by (simp add: find_index_def)

lemma find_index_distinct:
  assumes "distinct xs" "k < length xs"
  shows "find_index (\<lambda>e. e = xs ! k) xs = Some k"
proof (cases "find_index (\<lambda>e. e = xs ! k) xs")
  case None
  then show ?thesis using assms(2) nth_mem [of k xs] by (auto simp: find_index_None)
next
  case (Some j)
  from find_index_Some [OF this] assms Some show ?thesis using nth_eq_iff_index_eq [of xs j k] by simp
qed

text \<open>A \<^verbatim>\<open>for\<close> loop over a list of values whose body may exit.\<close>

fun for_each :: "('s \<Rightarrow> 'x \<Rightarrow> 's option) \<Rightarrow> 's \<Rightarrow> 'x list \<Rightarrow> 's option" where
  "for_each f s [] = Some s"
| "for_each f s (x # xs) = do { s \<leftarrow> f s x; for_each f s xs }"

lemma for_each_append:
  "for_each f s (xs @ ys) = do { s \<leftarrow> for_each f s xs; for_each f s ys }"
  by (induction f s xs rule: for_each.induct) (auto split: Option.bind_splits)

lemma for_each_inv:
  assumes "for_each f s xs = Some s'" "P s"
    and "\<And>s x s'. P s \<Longrightarrow> x \<in> set xs \<Longrightarrow> f s x = Some s' \<Longrightarrow> P s'"
  shows "P s'"
  using assms
proof (induction xs arbitrary: s)
  case (Cons x xs)
  from Cons.prems(1) obtain t where t: "f s x = Some t" "for_each f t xs = Some s'"
    by (auto simp: bind_eq_Some_conv)
  have "P t" using Cons.prems(3) [OF Cons.prems(2) _ t(1)] by simp
  then show ?case
    by (rule Cons.IH [OF t(2)]) (rule Cons.prems(3), auto)
qed simp

end
