(* ===== verification/Container_Specs.thy ===== *)
theory Container_Specs
  imports Goedb_Prelude
begin

text \<open>
  The contracts the containers of \<^verbatim>\<open>include/data-struct\<close> promise to the rest of the program,
  as locales, and the lemmas their clients need, proved once from the contracts. The linked
  lists and the array lists are \<open>list_container\<close>s, the hash tables are \<open>dict\<close>s.
\<close>

section \<open>Sequences\<close>

locale list_container =
  fixes inv :: "'l \<Rightarrow> bool"
    and elems :: "'l \<Rightarrow> 'a list"
    and size_of :: "'l \<Rightarrow> nat"
    and app :: "'l \<Rightarrow> 'a \<Rightarrow> 'l option"
    and rem :: "'l \<Rightarrow> nat \<Rightarrow> 'l option"
    and get :: "'l \<Rightarrow> nat \<Rightarrow> 'a option"
  assumes size_law: "inv l \<Longrightarrow> size_of l = length (elems l)"
    and append_law: "inv l \<Longrightarrow> \<exists>l'. app l x = Some l' \<and> inv l' \<and> elems l' = elems l @ [x]"
    and remove_law: "inv l \<Longrightarrow> i < length (elems l) \<Longrightarrow>
      \<exists>l'. rem l i = Some l' \<and> inv l' \<and> elems l' = take i (elems l) @ drop (Suc i) (elems l)"
    and remove_exit: "inv l \<Longrightarrow> length (elems l) \<le> i \<Longrightarrow> rem l i = None"
    and get_law: "inv l \<Longrightarrow> get l i = (if i < length (elems l) then Some (elems l ! i) else None)"
begin

lemma append_SomeD: "inv l \<Longrightarrow> app l x = Some l' \<Longrightarrow> inv l' \<and> elems l' = elems l @ [x]"
  using append_law [of l x] by auto

lemma remove_SomeD: "inv l \<Longrightarrow> rem l i = Some l' \<Longrightarrow>
    i < length (elems l) \<and> inv l' \<and> elems l' = take i (elems l) @ drop (Suc i) (elems l)"
  using remove_law [of l i] remove_exit [of l i] by (cases "i < length (elems l)") auto

text \<open>Appending in a loop.\<close>

lemma append_all:
  "inv l \<Longrightarrow> \<exists>l'. for_each app l xs = Some l' \<and> inv l' \<and> elems l' = elems l @ xs"
proof (induction xs arbitrary: l)
  case (Cons x xs)
  obtain l1 where l1: "app l x = Some l1" "inv l1" "elems l1 = elems l @ [x]"
    using append_law [OF Cons.prems] by blast
  with Cons.IH [OF l1(2)] show ?case by auto
qed simp

text \<open>
  Removing several positions from the back to the front, as \<^verbatim>\<open>evict\<close> does, removes exactly
  the elements at these positions.
\<close>

lemma remove_descending:
  assumes "inv l" "sorted_wrt (<) is" "\<forall>i \<in> set is. i < length (elems l)"
  shows "\<exists>l'. for_each rem l (rev is) = Some l' \<and> inv l' \<and>
    elems l' = nths (elems l) (- set is)"
  using assms
proof (induction "is" arbitrary: l rule: rev_induct)
  case Nil
  then show ?case by (simp add: nths_all)
next
  case (snoc i "is")
  obtain l1 where l1: "rem l i = Some l1" "inv l1"
    "elems l1 = take i (elems l) @ drop (Suc i) (elems l)"
    using remove_law [of l i] snoc.prems by auto
  have below: "\<forall>j \<in> set is. j < i" using snoc.prems(2) by (auto simp: sorted_wrt_append)
  then have len: "\<forall>j \<in> set is. j < length (elems l1)" using l1(3) snoc.prems(3) by auto
  obtain l2 where l2: "for_each rem l1 (rev is) = Some l2" "inv l2"
    "elems l2 = nths (elems l1) (- set is)"
    using snoc.IH [OF l1(2) _ len] snoc.prems(2) by (auto simp: sorted_wrt_append)
  have i: "i < length (elems l)" using snoc.prems(3) by simp
  have "nths (elems l) (- set (is @ [i])) =
      nths (take i (elems l) @ elems l ! i # drop (Suc i) (elems l)) (- set (is @ [i]))"
    using i by (simp add: take_drop_Suc_nth)
  also have "\<dots> = nths (take i (elems l)) (- set is) @ drop (Suc i) (elems l)"
  proof -
    have "nths (take i (elems l)) (- set (is @ [i])) = nths (take i (elems l)) (- set is)"
      by (rule nths_cong_below) auto
    moreover have "nths (drop (Suc i) (elems l)) {j. Suc j \<in> {j. j + i \<in> - set (is @ [i])}} =
        drop (Suc i) (elems l)"
      by (rule nths_all) (use below in auto)
    ultimately show ?thesis using i by (simp add: nths_append nths_Cons)
  qed
  also have "\<dots> = nths (elems l1) (- set is)"
  proof -
    have "nths (drop (Suc i) (elems l)) {j. j + i \<in> - set is} = drop (Suc i) (elems l)"
      by (rule nths_all) (use below in auto)
    then show ?thesis using i by (simp add: l1(3) nths_append)
  qed
  finally show ?case using l1(1) l2 by auto
qed

end

section \<open>Dictionaries\<close>

locale dict =
  fixes inv :: "'d \<Rightarrow> bool"
    and abs :: "'d \<Rightarrow> 'k \<rightharpoonup> 'v"
    and size_of :: "'d \<Rightarrow> nat"
    and ins :: "'d \<Rightarrow> 'k \<Rightarrow> 'v \<Rightarrow> 'd option"
    and del :: "'d \<Rightarrow> 'k \<Rightarrow> 'd option"
    and get :: "'d \<Rightarrow> 'k \<Rightarrow> 'v option option"
    and entries :: "'d \<Rightarrow> ('k \<times> 'v) list"
  assumes size_law: "inv d \<Longrightarrow> size_of d = card (dom (abs d))"
    and get_law: "inv d \<Longrightarrow> get d k = Some (abs d k)"
    and insert_law: "inv d \<Longrightarrow> \<exists>d'. ins d k v = Some d' \<and> inv d' \<and> abs d' = (abs d)(k \<mapsto> v)"
    and remove_law: "inv d \<Longrightarrow> k \<in> dom (abs d) \<Longrightarrow>
      \<exists>d'. del d k = Some d' \<and> inv d' \<and> abs d' = (abs d)(k := None)"
    and remove_exit: "inv d \<Longrightarrow> k \<notin> dom (abs d) \<Longrightarrow> del d k = None"
    and entries_law: "inv d \<Longrightarrow> map_of (entries d) = abs d \<and> distinct (map fst (entries d))"
begin

lemma insert_SomeD: "inv d \<Longrightarrow> ins d k v = Some d' \<Longrightarrow> inv d' \<and> abs d' = (abs d)(k \<mapsto> v)"
  using insert_law [of d k v] by auto

lemma remove_SomeD: "inv d \<Longrightarrow> del d k = Some d' \<Longrightarrow>
    k \<in> dom (abs d) \<and> inv d' \<and> abs d' = (abs d)(k := None)"
  using remove_law [of d k] remove_exit [of d k] by (cases "k \<in> dom (abs d)") auto

lemma get_Some_iff: "inv d \<Longrightarrow> get d k = Some r \<longleftrightarrow> r = abs d k"
  using get_law [of d k] by auto

lemma entries_dom: "inv d \<Longrightarrow> fst ` set (entries d) = dom (abs d)"
  using entries_law [of d] by (metis dom_map_of_conv_image_fst)

lemma entries_length: "inv d \<Longrightarrow> length (entries d) = size_of d"
  using entries_law [of d] entries_dom [of d] size_law [of d]
  by (metis distinct_card length_map list.set_map)

text \<open>Filling a dictionary in a loop, and removing what a loop lists.\<close>

lemma insert_all:
  "inv d \<Longrightarrow> \<exists>d'. for_each (\<lambda>d (k, v). ins d k v) d kvs = Some d' \<and> inv d' \<and>
     abs d' = abs d ++ map_of (rev kvs)"
proof (induction kvs arbitrary: d)
  case (Cons kv kvs)
  obtain k v where kv: "kv = (k, v)" by (cases kv)
  obtain d1 where "ins d k v = Some d1" "inv d1" "abs d1 = (abs d)(k \<mapsto> v)"
    using insert_law [OF Cons.prems] by blast
  moreover have "(abs d)(k \<mapsto> v) ++ map_of (rev kvs) = abs d ++ map_of (rev (kv # kvs))"
    by (rule ext) (auto simp: kv map_add_def split: option.splits)
  ultimately show ?case using Cons.IH [of d1] kv
    by (metis (no_types, lifting) bind.simps(2) case_prod_conv for_each.simps(2))
qed simp

lemma remove_all:
  "inv d \<Longrightarrow> distinct ks \<Longrightarrow> set ks \<subseteq> dom (abs d) \<Longrightarrow>
     \<exists>d'. for_each del d ks = Some d' \<and> inv d' \<and> abs d' = abs d |` (- set ks)"
proof (induction ks arbitrary: d)
  case (Cons k ks)
  obtain d1 where d1: "del d k = Some d1" "inv d1" "abs d1 = (abs d)(k := None)"
    using remove_law [OF Cons.prems(1), of k] Cons.prems(3) by auto
  have "set ks \<subseteq> dom (abs d1)" using Cons.prems(2,3) d1(3) by auto
  with Cons.IH [OF d1(2)] Cons.prems(2) obtain d2 where
    "for_each del d1 ks = Some d2" "inv d2" "abs d2 = abs d1 |` (- set ks)" by auto
  then show ?case using d1 by (auto simp: restrict_map_def fun_eq_iff)
qed (simp add: restrict_map_def)

end

end
