(* ===== verification/Linked_List.thy ===== *)
theory Linked_List
  imports Container_Specs
begin

text \<open>
  The doubly linked lists of \<^verbatim>\<open>include/data-struct/linked_list.h\<close>: the macros that generate
  \<^verbatim>\<open>llist_ul\<close>, \<^verbatim>\<open>queue_ul\<close>, \<^verbatim>\<open>stack_ul\<close> and \<^verbatim>\<open>linked_list_relationship\<close>. The list is
  modelled with its pointers: each list owns a heap of nodes, split by field. All instances
  pass \<^verbatim>\<open>NULL\<close> for the copy and free callbacks of the elements, so the model has the equality
  callback only.

  The section on representation states which list of elements a heap of nodes stands for; the
  section on the operations proves that each operation returns (no invalid access) and what it
  does to that list. The last section is about \<^verbatim>\<open>QUEUE_MOVE_BACK\<close>, whose two ends are
  exchanged in the code.
\<close>

section \<open>The structs and their heap\<close>

text \<open>
  \<open>ll_elt\<close>, \<open>ll_nxt\<close> and \<open>ll_prv\<close> are the fields \<^verbatim>\<open>element\<close>, \<^verbatim>\<open>next\<close> and
  \<^verbatim>\<open>prev\<close> of the nodes; a node is allocated iff it is in the domain of \<open>ll_elt\<close>.
  \<open>ll_brk\<close> is the next address the allocator hands out.
\<close>

record 'a llist =
  ll_elt :: "addr \<rightharpoonup> 'a"
  ll_nxt :: "addr \<Rightarrow> addr option"
  ll_prv :: "addr \<Rightarrow> addr option"
  ll_brk :: addr
  ll_head :: "addr option"
  ll_tail :: "addr option"
  ll_len :: nat
  ll_eq :: "'a \<Rightarrow> 'a \<Rightarrow> bool"

definition ll_create :: "('a \<Rightarrow> 'a \<Rightarrow> bool) \<Rightarrow> 'a llist" where
  "ll_create eq = \<lparr>ll_elt = Map.empty, ll_nxt = (\<lambda>_. None), ll_prv = (\<lambda>_. None), ll_brk = 0,
     ll_head = None, ll_tail = None, ll_len = 0, ll_eq = eq\<rparr>"

definition ll_ul_create :: "ulong llist" where
  "ll_ul_create = ll_create unsigned_long_eq"

definition ll_size :: "'a llist \<Rightarrow> nat" where
  "ll_size l = ll_len l"

text \<open>Node accesses: a dereference of \<^verbatim>\<open>NULL\<close> or of a freed node has no result.\<close>

definition deref :: "'a llist \<Rightarrow> addr option \<Rightarrow> addr option" where
  "deref l p = (case p of None \<Rightarrow> None | Some a \<Rightarrow> if ll_elt l a = None then None else Some a)"

definition get_elt :: "'a llist \<Rightarrow> addr option \<Rightarrow> 'a option" where
  "get_elt l p = do { a \<leftarrow> deref l p; ll_elt l a }"

definition get_next :: "'a llist \<Rightarrow> addr option \<Rightarrow> addr option option" where
  "get_next l p = do { a \<leftarrow> deref l p; Some (ll_nxt l a) }"

definition get_prev :: "'a llist \<Rightarrow> addr option \<Rightarrow> addr option option" where
  "get_prev l p = do { a \<leftarrow> deref l p; Some (ll_prv l a) }"

definition set_next :: "'a llist \<Rightarrow> addr option \<Rightarrow> addr option \<Rightarrow> 'a llist option" where
  "set_next l p q = do { a \<leftarrow> deref l p; Some (l\<lparr>ll_nxt := (ll_nxt l)(a := q)\<rparr>) }"

definition set_prev :: "'a llist \<Rightarrow> addr option \<Rightarrow> addr option \<Rightarrow> 'a llist option" where
  "set_prev l p q = do { a \<leftarrow> deref l p; Some (l\<lparr>ll_prv := (ll_prv l)(a := q)\<rparr>) }"

definition free_node :: "'a llist \<Rightarrow> addr option \<Rightarrow> 'a llist option" where
  "free_node l p = do { a \<leftarrow> deref l p; Some (l\<lparr>ll_elt := (ll_elt l)(a := None)\<rparr>) }"

text \<open>\<^verbatim>\<open>calloc\<close> of a node followed by the assignment of its element.\<close>

definition alloc_node :: "'a llist \<Rightarrow> 'a \<Rightarrow> addr \<times> 'a llist" where
  "alloc_node l x = (ll_brk l,
     l\<lparr>ll_elt := (ll_elt l)(ll_brk l \<mapsto> x), ll_nxt := (ll_nxt l)(ll_brk l := None),
       ll_prv := (ll_prv l)(ll_brk l := None), ll_brk := Suc (ll_brk l)\<rparr>)"

section \<open>The operations\<close>

text \<open>\<^verbatim>\<open>LINKED_LIST_DESTROY\<close>: frees \<open>n\<close> nodes from \<open>cur\<close> on.\<close>

fun ll_destroy_loop :: "'a llist \<Rightarrow> addr option \<Rightarrow> nat \<Rightarrow> 'a llist option" where
  "ll_destroy_loop l cur 0 = Some l"
| "ll_destroy_loop l cur (Suc n) = do {
     nxt \<leftarrow> get_next l cur;
     l1 \<leftarrow> free_node l cur;
     ll_destroy_loop l1 nxt n }"

definition ll_destroy :: "'a llist \<Rightarrow> 'a llist option" where
  "ll_destroy l = ll_destroy_loop l (ll_head l) (ll_len l)"

definition ll_append :: "'a llist \<Rightarrow> 'a \<Rightarrow> 'a llist option" where
  "ll_append l x = (let (a, l) = alloc_node l x in
     if ll_tail l = None then do {
       l \<leftarrow> set_next l (Some a) (Some a);
       l \<leftarrow> set_prev l (Some a) (Some a);
       Some (l\<lparr>ll_head := Some a, ll_tail := Some a, ll_len := ll_len l + 1\<rparr>) }
     else do {
       l \<leftarrow> set_prev l (Some a) (ll_tail l);
       l \<leftarrow> set_next l (Some a) (ll_head l);
       l \<leftarrow> set_next l (ll_tail l) (Some a);
       l \<leftarrow> set_prev l (ll_head l) (Some a);
       Some (l\<lparr>ll_tail := Some a, ll_len := ll_len l + 1\<rparr>) })"

definition ll_push :: "'a llist \<Rightarrow> 'a \<Rightarrow> 'a llist option" where
  "ll_push l x = ll_append l x"

text \<open>The loop that leaves \<open>cur\<close> and \<open>next\<close> at the positions \<open>idx - 1\<close> and \<open>idx\<close>.\<close>

fun ll_seek :: "'a llist \<Rightarrow> nat \<Rightarrow> addr option \<Rightarrow> addr option \<Rightarrow> (addr option \<times> addr option) option" where
  "ll_seek l 0 cur nxt = Some (cur, nxt)"
| "ll_seek l (Suc k) cur nxt = do { n \<leftarrow> get_next l nxt; ll_seek l k nxt n }"

definition ll_insert :: "'a llist \<Rightarrow> 'a \<Rightarrow> nat \<Rightarrow> 'a llist option" where
  "ll_insert l x idx = (let (a, l) = alloc_node l x in
     if ll_len l = 0 \<and> idx = 0 then do {
       l \<leftarrow> set_prev l (Some a) (Some a);
       l \<leftarrow> set_next l (Some a) (Some a);
       Some (l\<lparr>ll_head := Some a, ll_tail := Some a, ll_len := ll_len l + 1\<rparr>) }
     else if idx \<ge> ll_len l then None
     else if idx \<noteq> 0 \<and> idx \<noteq> ll_len l then do {
       (cur, nxt) \<leftarrow> ll_seek l idx (ll_head l) (ll_head l);
       l \<leftarrow> set_next l (Some a) nxt;
       l \<leftarrow> set_prev l (Some a) cur;
       l \<leftarrow> set_next l cur (Some a);
       l \<leftarrow> set_prev l nxt (Some a);
       Some (l\<lparr>ll_len := ll_len l + 1\<rparr>) }
     else do {
       l \<leftarrow> set_prev l (Some a) (ll_tail l);
       l \<leftarrow> set_next l (Some a) (ll_head l);
       l \<leftarrow> set_prev l (ll_head l) (Some a);
       l \<leftarrow> set_next l (ll_tail l) (Some a);
       (if idx = 0 then Some (l\<lparr>ll_head := Some a, ll_len := ll_len l + 1\<rparr>)
        else Some (l\<lparr>ll_tail := Some a, ll_len := ll_len l + 1\<rparr>)) })"

definition ll_remove_internal :: "'a llist \<Rightarrow> nat \<Rightarrow> 'a llist option" where
  "ll_remove_internal l idx =
    (if idx \<ge> ll_len l then None
     else if ll_len l = 1 \<and> idx = 0 then do {
       l \<leftarrow> free_node l (ll_head l);
       Some (l\<lparr>ll_head := None, ll_tail := None, ll_len := ll_len l - 1\<rparr>) }
     else if idx = 0 then do {
       temp \<leftarrow> get_next l (ll_head l);
       l \<leftarrow> free_node l (ll_head l);
       l \<leftarrow> set_prev (l\<lparr>ll_head := temp\<rparr>) temp (ll_tail l);
       Some (l\<lparr>ll_len := ll_len l - 1\<rparr>) }
     else if idx = ll_len l - 1 then do {
       temp \<leftarrow> get_prev l (ll_tail l);
       l \<leftarrow> free_node l (ll_tail l);
       l \<leftarrow> set_next (l\<lparr>ll_tail := temp\<rparr>) temp (ll_head l);
       Some (l\<lparr>ll_len := ll_len l - 1\<rparr>) }
     else do {
       (cur, remove) \<leftarrow> ll_seek l idx (ll_head l) (ll_head l);
       nxt \<leftarrow> get_next l remove;
       l \<leftarrow> set_next l cur nxt;
       l \<leftarrow> set_prev l nxt cur;
       l \<leftarrow> free_node (l\<lparr>ll_len := ll_len l - 1\<rparr>) remove;
       Some l })"

definition ll_remove :: "'a llist \<Rightarrow> nat \<Rightarrow> 'a llist option" where
  "ll_remove l idx = ll_remove_internal l idx"

text \<open>
  \<^verbatim>\<open>LINKED_LIST_INDEX_OF\<close>: \<open>Some (Some i)\<close> is the return value \<open>0\<close> with \<open>*idx = i\<close>,
  \<open>Some None\<close> the return value \<open>-1\<close>.
\<close>

fun ll_index_loop :: "'a llist \<Rightarrow> 'a \<Rightarrow> addr option \<Rightarrow> nat \<Rightarrow> nat \<Rightarrow> nat option option" where
  "ll_index_loop l x cur i 0 = Some None"
| "ll_index_loop l x cur i (Suc n) = do {
     e \<leftarrow> get_elt l cur;
     if ll_eq l e x then Some (Some i)
     else do { nxt \<leftarrow> get_next l cur; ll_index_loop l x nxt (Suc i) n } }"

definition ll_index_of :: "'a llist \<Rightarrow> 'a \<Rightarrow> nat option option" where
  "ll_index_of l x = ll_index_loop l x (ll_head l) 0 (ll_len l)"

definition ll_remove_elem :: "'a llist \<Rightarrow> 'a \<Rightarrow> 'a llist option" where
  "ll_remove_elem l x = do {
     r \<leftarrow> ll_index_of l x;
     case r of None \<Rightarrow> None | Some idx \<Rightarrow> ll_remove_internal l idx }"

definition ll_contains :: "'a llist \<Rightarrow> 'a \<Rightarrow> bool option" where
  "ll_contains l x = do { r \<leftarrow> ll_index_of l x; Some (r \<noteq> None) }"

fun ll_advance :: "'a llist \<Rightarrow> nat \<Rightarrow> addr option \<Rightarrow> addr option option" where
  "ll_advance l 0 cur = Some cur"
| "ll_advance l (Suc k) cur = do { n \<leftarrow> get_next l cur; ll_advance l k n }"

definition ll_get :: "'a llist \<Rightarrow> nat \<Rightarrow> 'a option" where
  "ll_get l idx =
    (if idx \<ge> ll_len l then None
     else do { cur \<leftarrow> ll_advance l idx (ll_head l); get_elt l cur })"

definition ll_take :: "'a llist \<Rightarrow> nat \<Rightarrow> ('a \<times> 'a llist) option" where
  "ll_take l idx = do {
     result \<leftarrow> ll_get l idx;
     l \<leftarrow> ll_remove_internal l idx;
     Some (result, l) }"

definition queue_pop :: "'a llist \<Rightarrow> ('a \<times> 'a llist) option" where
  "queue_pop l = do {
     result \<leftarrow> get_elt l (ll_head l);
     l \<leftarrow> ll_remove_internal l 0;
     Some (result, l) }"

definition stack_pop :: "'a llist \<Rightarrow> ('a \<times> 'a llist) option" where
  "stack_pop l = do {
     result \<leftarrow> get_elt l (ll_tail l);
     l \<leftarrow> ll_remove_internal l (ll_len l - 1);
     Some (result, l) }"

text \<open>
  \<^verbatim>\<open>QUEUE_MOVE_BACK\<close>. The loop walks from the tail towards the head; \<open>i\<close> counts the steps
  from the tail. The branch \<open>i = 0\<close> (the element is at the tail) rotates the list, the branch
  \<open>i = len - 1\<close> (the element is at the head) leaves it alone.
\<close>

definition queue_relink :: "'a llist \<Rightarrow> addr option \<Rightarrow> nat \<Rightarrow> 'a llist option" where
  "queue_relink l cur i =
    (if i \<noteq> ll_len l - 1 then
       if i = 0 then do {
         h \<leftarrow> get_next l (ll_head l);
         Some (l\<lparr>ll_tail := ll_head l, ll_head := h\<rparr>) }
       else do {
         n \<leftarrow> get_next l cur;
         p \<leftarrow> get_prev l cur;
         l \<leftarrow> set_prev l n p;
         p \<leftarrow> get_prev l cur;
         n \<leftarrow> get_next l cur;
         l \<leftarrow> set_next l p n;
         l \<leftarrow> set_next l cur (ll_head l);
         l \<leftarrow> set_prev l cur (ll_tail l);
         l \<leftarrow> set_next l (ll_tail l) cur;
         l \<leftarrow> set_prev l (ll_head l) cur;
         Some (l\<lparr>ll_tail := cur\<rparr>) }
     else Some l)"

fun queue_move_back_loop :: "'a llist \<Rightarrow> 'a \<Rightarrow> addr option \<Rightarrow> nat \<Rightarrow> nat \<Rightarrow> 'a llist option" where
  "queue_move_back_loop l x cur i 0 = ll_append l x"
| "queue_move_back_loop l x cur i (Suc n) = do {
     e \<leftarrow> get_elt l cur;
     if ll_eq l e x then queue_relink l cur i
     else do { p \<leftarrow> get_prev l cur; queue_move_back_loop l x p (Suc i) n } }"

definition queue_move_back :: "'a llist \<Rightarrow> 'a \<Rightarrow> 'a llist option" where
  "queue_move_back l x = queue_move_back_loop l x (ll_tail l) 0 (ll_len l)"


section \<open>Representation\<close>

text \<open>\<open>lseg nx pv ps\<close>: the nodes \<open>ps\<close> are linked in this order, in both directions.\<close>

fun lseg :: "(addr \<Rightarrow> addr option) \<Rightarrow> (addr \<Rightarrow> addr option) \<Rightarrow> addr list \<Rightarrow> bool" where
  "lseg nx pv [] = True"
| "lseg nx pv [a] = True"
| "lseg nx pv (a # b # ps) = (nx a = Some b \<and> pv b = Some a \<and> lseg nx pv (b # ps))"

lemma lseg_append:
  "as \<noteq> [] \<Longrightarrow> bs \<noteq> [] \<Longrightarrow> lseg nx pv (as @ bs) \<longleftrightarrow> lseg nx pv as \<and> lseg nx pv bs \<and>
     nx (last as) = Some (hd bs) \<and> pv (hd bs) = Some (last as)"
proof (induction nx pv as rule: lseg.induct)
  case (2 nx pv a)
  then show ?case by (cases bs) auto
qed auto

lemma lseg_upd_next [simp]:
  "a \<notin> set (butlast ps) \<Longrightarrow> lseg (nx(a := v)) pv ps = lseg nx pv ps"
  by (induction nx pv ps rule: lseg.induct) (auto split: if_splits)

lemma lseg_upd_prev [simp]:
  "a \<notin> set (tl ps) \<Longrightarrow> lseg nx (pv(a := v)) ps = lseg nx pv ps"
  by (induction nx pv ps rule: lseg.induct) (auto split: if_splits)

lemma lseg_nth:
  "lseg nx pv ps \<Longrightarrow> Suc i < length ps \<Longrightarrow>
     nx (ps ! i) = Some (ps ! Suc i) \<and> pv (ps ! Suc i) = Some (ps ! i)"
proof (induction nx pv ps arbitrary: i rule: lseg.induct)
  case (3 nx pv a b ps)
  then show ?case by (cases i) auto
qed auto

text \<open>
  \<open>ll_rep l ps xs\<close>: the list consists of the nodes \<open>ps\<close> and stores the elements \<open>xs\<close>.
  The links from the tail to the head and back are not part of it: \<^verbatim>\<open>remove\<close> at either end
  leaves one of them pointing to the freed node. \<open>ll_circ\<close> says that they are intact.
\<close>

definition ll_rep :: "'a llist \<Rightarrow> addr list \<Rightarrow> 'a list \<Rightarrow> bool" where
  "ll_rep l ps xs \<longleftrightarrow> distinct ps \<and> (\<forall>a \<in> set ps. a < ll_brk l) \<and> dom (ll_elt l) = set ps \<and>
     map (ll_elt l) ps = map Some xs \<and> ll_len l = length ps \<and>
     ll_head l = (if ps = [] then None else Some (hd ps)) \<and>
     ll_tail l = (if ps = [] then None else Some (last ps)) \<and>
     lseg (ll_nxt l) (ll_prv l) ps"

definition circ :: "'a llist \<Rightarrow> addr list \<Rightarrow> bool" where
  "circ l ps \<longleftrightarrow> (ps \<noteq> [] \<longrightarrow> ll_nxt l (last ps) = Some (hd ps) \<and> ll_prv l (hd ps) = Some (last ps))"

definition ll_inv :: "'a llist \<Rightarrow> bool" where
  "ll_inv l \<longleftrightarrow> (\<exists>ps xs. ll_rep l ps xs)"

definition ll_circ :: "'a llist \<Rightarrow> bool" where
  "ll_circ l \<longleftrightarrow> (\<exists>ps xs. ll_rep l ps xs \<and> circ l ps)"

text \<open>The elements, read from the head along \<^verbatim>\<open>next\<close>.\<close>

fun ll_walk :: "'a llist \<Rightarrow> addr option \<Rightarrow> nat \<Rightarrow> 'a list" where
  "ll_walk l cur 0 = []"
| "ll_walk l cur (Suc n) = (case get_elt l cur of None \<Rightarrow> [] | Some e \<Rightarrow>
     e # ll_walk l (case get_next l cur of None \<Rightarrow> None | Some q \<Rightarrow> q) n)"

definition ll_list :: "'a llist \<Rightarrow> 'a list" where
  "ll_list l = ll_walk l (ll_head l) (ll_len l)"

lemmas node_defs = deref_def get_elt_def get_next_def get_prev_def set_next_def set_prev_def
  free_node_def

lemma ll_repD:
  assumes "ll_rep l ps xs"
  shows "distinct ps" "length ps = length xs" "ll_len l = length xs"
    "dom (ll_elt l) = set ps" "lseg (ll_nxt l) (ll_prv l) ps"
  using assms by (auto simp: ll_rep_def dest: map_eq_imp_length_eq)

lemma ll_rep_nth:
  assumes "ll_rep l ps xs" "i < length xs"
  shows "ll_elt l (ps ! i) = Some (xs ! i)"
proof -
  have "map (ll_elt l) ps ! i = map Some xs ! i"
    using assms by (simp add: ll_rep_def)
  then show ?thesis
    using assms ll_repD(2) [OF assms(1)] by simp
qed

lemma ll_rep_head: "ll_rep l ps xs \<Longrightarrow> ll_head l = (if ps = [] then None else Some (ps ! 0))"
  by (simp add: ll_rep_def hd_conv_nth)

lemma ll_rep_tail:
  "ll_rep l ps xs \<Longrightarrow> ll_tail l = (if ps = [] then None else Some (ps ! (length ps - 1)))"
  by (simp add: ll_rep_def last_conv_nth)

text \<open>The accesses at node \<open>i\<close> of a represented list.\<close>

lemma rep_access:
  assumes "ll_rep l ps xs" "i < length xs"
  shows "deref l (Some (ps ! i)) = Some (ps ! i)"
    "get_elt l (Some (ps ! i)) = Some (xs ! i)"
    "get_next l (Some (ps ! i)) = Some (ll_nxt l (ps ! i))"
    "get_prev l (Some (ps ! i)) = Some (ll_prv l (ps ! i))"
  using ll_rep_nth [OF assms] by (simp_all add: node_defs)

lemma rep_links:
  assumes "ll_rep l ps xs" "Suc i < length xs"
  shows "ll_nxt l (ps ! i) = Some (ps ! Suc i)" "ll_prv l (ps ! Suc i) = Some (ps ! i)"
  using lseg_nth [OF ll_repD(5) [OF assms(1)], of i] assms ll_repD(2) [OF assms(1)] by auto

lemma ll_walk_rep:
  assumes "ll_rep l ps xs" "i + n \<le> length xs" "n > 0 \<longrightarrow> cur = Some (ps ! i)"
  shows "ll_walk l cur n = take n (drop i xs)"
  using assms(2,3)
proof (induction n arbitrary: i cur)
  case (Suc n)
  then have i: "i < length xs" and cur: "cur = Some (ps ! i)" by auto
  have "ll_walk l (ll_nxt l (ps ! i)) n = take n (drop (Suc i) xs)"
    using Suc rep_links [OF assms(1), of i] by (intro Suc.IH) auto
  then show ?case
    using i cur rep_access [OF assms(1) i] by (simp add: Cons_nth_drop_Suc [symmetric])
qed simp

lemma ll_rep_list: "ll_rep l ps xs \<Longrightarrow> ll_list l = xs"
  using ll_walk_rep [of l ps xs 0 "length xs"] ll_repD(2,3) [of l ps xs] ll_rep_head [of l ps xs]
  by (auto simp: ll_list_def)

lemma ll_invI: "ll_rep l ps xs \<Longrightarrow> ll_inv l"
  by (auto simp: ll_inv_def)

lemma ll_invE:
  assumes "ll_inv l"
  obtains ps where "ll_rep l ps (ll_list l)"
  using assms ll_rep_list by (auto simp: ll_inv_def)

lemma ll_circE:
  assumes "ll_circ l"
  obtains ps where "ll_rep l ps (ll_list l)" "circ l ps"
  using assms ll_rep_list by (auto simp: ll_circ_def)

lemma ll_circ_inv: "ll_circ l \<Longrightarrow> ll_inv l"
  by (auto simp: ll_circ_def ll_inv_def)


section \<open>What the operations do\<close>

lemma distinct_ends:
  "distinct ps \<Longrightarrow> ps \<noteq> [] \<Longrightarrow> hd ps \<notin> set (tl ps) \<and> last ps \<notin> set (butlast ps)"
proof -
  assume "distinct ps" "ps \<noteq> []"
  then have "hd ps \<notin> set (tl ps)" by (cases ps) auto
  moreover have "last ps \<notin> set (butlast ps)"
    using \<open>distinct ps\<close> \<open>ps \<noteq> []\<close> by (cases ps rule: rev_cases) auto
  ultimately show ?thesis by blast
qed

lemma create_rep: "ll_rep (ll_create eq) [] []"
  by (simp add: ll_rep_def ll_create_def)

lemma rep_ends:
  assumes "ll_rep l ps xs" "ps \<noteq> []"
  shows "ll_head l = Some (hd ps)" "ll_tail l = Some (last ps)"
    "\<exists>x. ll_elt l (hd ps) = Some x" "\<exists>x. ll_elt l (last ps) = Some x"
    "hd ps < ll_brk l" "last ps < ll_brk l"
proof -
  have "hd ps \<in> dom (ll_elt l)" "last ps \<in> dom (ll_elt l)"
    using assms by (auto simp: ll_rep_def)
  then show "\<exists>x. ll_elt l (hd ps) = Some x" "\<exists>x. ll_elt l (last ps) = Some x" by auto
qed (use assms in \<open>auto simp: ll_rep_def\<close>)

lemma append_rep:
  assumes rep: "ll_rep l ps xs"
  shows "\<exists>l'. ll_append l x = Some l' \<and> ll_rep l' (ps @ [ll_brk l]) (xs @ [x]) \<and>
    circ l' (ps @ [ll_brk l]) \<and> ll_eq l' = ll_eq l"
proof (cases "ps = []")
  case True
  with rep show ?thesis
    by (auto simp: ll_append_def alloc_node_def node_defs ll_rep_def circ_def)
next
  case False
  note ends = rep_ends [OF rep False]
  have fresh: "ll_brk l \<notin> set ps" using rep by (auto simp: ll_rep_def)
  then have nfresh: "ll_brk l \<notin> set (butlast ps)" "ll_brk l \<notin> set (tl ps)"
    by (auto dest: in_set_butlastD in_set_tlD)
  have ne: "ll_brk l \<noteq> hd ps" "ll_brk l \<noteq> last ps" using ends(5,6) by auto
  have "distinct ps" using rep by (simp add: ll_rep_def)
  note de = distinct_ends [OF this False]
  have "lseg ((ll_nxt l)(ll_brk l := q, last ps := Some (ll_brk l)))
      ((ll_prv l)(ll_brk l := Some (last ps), hd ps := r)) (ps @ [ll_brk l])" for q r
    using rep False ne nfresh de by (simp add: lseg_append ll_rep_def)
  then show ?thesis
    using rep False ends fresh
    by (auto simp: ll_append_def alloc_node_def node_defs ll_rep_def circ_def map_idI)
qed


lemma seek_seg:
  assumes "lseg (ll_nxt l) (ll_prv l) ps" "set ps \<subseteq> dom (ll_elt l)" "i + k < length ps"
  shows "ll_seek l k cur (Some (ps ! i)) =
    Some (if k = 0 then cur else Some (ps ! (i + k - 1)), Some (ps ! (i + k)))"
  using assms(3)
proof (induction k arbitrary: i cur)
  case (Suc k)
  then have "ps ! i \<in> dom (ll_elt l)" using assms(2) by (meson add_lessD1 nth_mem subsetD)
  with Suc show ?case
    using lseg_nth [OF assms(1), of i] by (auto simp: node_defs)
qed simp

lemma seek_mid:
  assumes "lseg (ll_nxt l) (ll_prv l) (as @ d # bs)" "set (as @ d # bs) \<subseteq> dom (ll_elt l)"
    "as \<noteq> []" "ll_head l = Some (hd (as @ d # bs))"
  shows "ll_seek l (length as) (ll_head l) (ll_head l) = Some (Some (last as), Some d)"
  using seek_seg [OF assms(1,2), of 0 "length as" "ll_head l"] assms(3,4)
  by (auto simp: nth_append last_conv_nth hd_conv_nth)

lemma advance_rep:
  assumes "ll_rep l ps xs" "i + k < length xs"
  shows "ll_advance l k (Some (ps ! i)) = Some (Some (ps ! (i + k)))"
  using assms(2)
proof (induction k arbitrary: i)
  case (Suc k)
  then show ?case
    using rep_access(3) [OF assms(1), of i] rep_links(1) [OF assms(1), of i] by auto
qed simp

lemma get_rep:
  assumes "ll_rep l ps xs"
  shows "ll_get l i = (if i < length xs then Some (xs ! i) else None)"
  using assms advance_rep [OF assms, of 0 i] rep_access(2) [OF assms, of i] ll_repD(2,3) [OF assms]
  by (auto simp: ll_get_def ll_rep_head)

lemma index_loop_rep:
  assumes "ll_rep l ps xs" "i + n = length xs" "n > 0 \<longrightarrow> cur = Some (ps ! i)"
  shows "ll_index_loop l x cur i n = Some (find_index_from (\<lambda>e. ll_eq l e x) i (drop i xs))"
  using assms(2,3)
proof (induction n arbitrary: i cur)
  case (Suc n)
  then have i: "i < length xs" and cur: "cur = Some (ps ! i)" by auto
  have "ll_index_loop l x (ll_nxt l (ps ! i)) (Suc i) n =
      Some (find_index_from (\<lambda>e. ll_eq l e x) (Suc i) (drop (Suc i) xs))"
    using Suc rep_links(1) [OF assms(1), of i] by (intro Suc.IH) auto
  then show ?case
    using i cur rep_access [OF assms(1) i] by (simp add: Cons_nth_drop_Suc [symmetric])
qed simp

lemma index_of_rep:
  "ll_rep l ps xs \<Longrightarrow> ll_index_of l x = Some (find_index (\<lambda>e. ll_eq l e x) xs)"
  using index_loop_rep [of l ps xs 0 "length xs"] ll_repD(2,3) [of l ps xs]
  by (auto simp: ll_index_of_def find_index_def ll_rep_head)

text \<open>\<^verbatim>\<open>LINKED_LIST_REMOVE_INTERNAL\<close> takes the node \<open>d\<close> out, whatever its position.\<close>

lemma remove_rep:
  assumes rep: "ll_rep l (as @ d # bs) (ys @ x # zs)" and len: "length as = length ys"
  shows "\<exists>l'. ll_remove_internal l (length ys) = Some l' \<and> ll_rep l' (as @ bs) (ys @ zs) \<and>
    ll_eq l' = ll_eq l"
proof -
  have d: "distinct (as @ d # bs)" and seg: "lseg (ll_nxt l) (ll_prv l) (as @ d # bs)"
    and dom: "dom (ll_elt l) = set (as @ d # bs)" and brk: "\<forall>a \<in> set (as @ d # bs). a < ll_brk l"
    and elts: "map (ll_elt l) (as @ d # bs) = map Some (ys @ x # zs)"
    using rep by (auto simp: ll_rep_def)
  have allocd: "\<exists>y. ll_elt l a = Some y" if "a \<in> set (as @ d # bs)" for a
    using dom that by (metis domD)
  have elts': "map ((ll_elt l)(d := None)) (as @ bs) = map Some (ys @ zs)"
    using elts len d by (auto simp: map_idI)
  have dom': "dom ((ll_elt l)(d := None)) = set (as @ bs)"
    using dom d by auto
  show ?thesis
  proof (cases "as = []"; cases "bs = []")
    assume "as = []" "bs = []"
    then have "(ll_elt l)(d := None) = Map.empty"
      using dom' by (metis append_Nil dom_eq_empty_conv empty_set)
    with \<open>as = []\<close> \<open>bs = []\<close> show ?thesis
      using rep len by (auto simp: ll_remove_internal_def ll_rep_def node_defs)
  next
    assume c: "as = []" "bs \<noteq> []"
    then have "ll_nxt l d = Some (hd bs)" and seg': "lseg (ll_nxt l) (ll_prv l) bs"
      using seg lseg_append [of "[d]" bs] by auto
    then show ?thesis
      using c rep len allocd d elts' dom' distinct_ends [of bs]
      by (auto simp: ll_remove_internal_def ll_rep_def node_defs)
  next
    assume c: "as \<noteq> []" "bs = []"
    then have "ll_prv l d = Some (last as)" and seg': "lseg (ll_nxt l) (ll_prv l) as"
      using seg lseg_append [of as "[d]"] by auto
    then show ?thesis
      using c rep len allocd d elts' dom' distinct_ends [of as]
      by (auto simp: ll_remove_internal_def ll_rep_def node_defs)
  next
    assume c: "as \<noteq> []" "bs \<noteq> []"
    have links: "ll_nxt l d = Some (hd bs)" "lseg (ll_nxt l) (ll_prv l) as"
        "lseg (ll_nxt l) (ll_prv l) bs"
      using seg c lseg_append [of as "d # bs"] lseg_append [of "[d]" bs] by auto
    have ends: "hd bs \<notin> set (tl as)" "last as \<notin> set (butlast bs)"
      using c d disjoint_hd [of bs "set as"] disjoint_last [of as "set bs"]
      by (auto dest: in_set_tlD in_set_butlastD)
    have "ll_seek l (length ys) (ll_head l) (ll_head l) = Some (Some (last as), Some d)"
      using seek_mid [OF seg] c len dom rep_ends(1) [OF rep] by simp
    then show ?thesis
      using c rep len allocd d elts' dom' links ends distinct_ends [of as] distinct_ends [of bs]
      by (auto simp: ll_remove_internal_def ll_rep_def node_defs lseg_append)
  qed
qed


lemma remove_nth_rep:
  assumes rep: "ll_rep l ps xs" and i: "i < length xs"
  shows "\<exists>l'. ll_remove_internal l i = Some l' \<and>
    ll_rep l' (take i ps @ drop (Suc i) ps) (take i xs @ drop (Suc i) xs) \<and> ll_eq l' = ll_eq l"
proof -
  have "i < length ps" using i ll_repD(2) [OF rep] by simp
  then have "ll_rep l (take i ps @ ps ! i # drop (Suc i) ps) (take i xs @ xs ! i # drop (Suc i) xs)"
    using rep i by (simp add: take_drop_Suc_nth)
  from remove_rep [OF this] show ?thesis using i \<open>i < length ps\<close> by simp
qed

text \<open>\<^verbatim>\<open>LINKED_LIST_INSERT\<close> puts the new node before the node \<open>d\<close>.\<close>

lemma insert_rep:
  assumes rep: "ll_rep l (as @ d # bs) (ys @ z # zs)" and len: "length as = length ys"
  shows "\<exists>l'. ll_insert l x (length ys) = Some l' \<and>
    ll_rep l' (as @ ll_brk l # d # bs) (ys @ x # z # zs) \<and> ll_eq l' = ll_eq l"
proof -
  let ?ps = "as @ d # bs" and ?n = "ll_brk l"
  have d: "distinct ?ps" and seg: "lseg (ll_nxt l) (ll_prv l) ?ps"
    and dom: "dom (ll_elt l) = set ?ps" and brk: "\<forall>a \<in> set ?ps. a < ?n"
    and elts: "map (ll_elt l) ?ps = map Some (ys @ z # zs)"
    using rep by (auto simp: ll_rep_def)
  have fresh: "?n \<notin> set as" "?n \<noteq> d" "?n \<notin> set bs" using brk by auto
  have allocd: "\<exists>y. ll_elt l a = Some y" if "a \<in> set ?ps" for a
    using dom that by (metis domD)
  have elts': "map ((ll_elt l)(?n \<mapsto> x)) (as @ ?n # d # bs) = map Some (ys @ x # z # zs)"
    using elts len fresh by (auto simp: map_idI)
  have dom': "dom ((ll_elt l)(?n \<mapsto> x)) = set (as @ ?n # d # bs)"
    using dom by auto
  have nb: "?n \<notin> set (butlast bs)" "d \<notin> set (tl bs)" "?n \<notin> set (tl bs)" "d \<notin> set (butlast bs)"
    using fresh d by (auto dest: in_set_butlastD in_set_tlD)
  show ?thesis
  proof (cases "as = []")
    case True
    note ends = rep_ends [OF rep]
    have "lseg ((ll_nxt l)(?n := Some d, last (d # bs) := v)) ((ll_prv l)(?n := w, d := Some ?n))
        (?n # d # bs)" for v w
      using seg True fresh nb d distinct_ends [of "d # bs"]
      by (auto simp: lseg_append [of "[?n]" "d # bs", simplified])
    then show ?thesis
      using rep len dom' elts' True fresh ends allocd [of d] allocd [of "last (d # bs)"] brk d
      by (auto simp: ll_insert_def alloc_node_def node_defs ll_rep_def last_ConsR simp del: last.simps)
  next
    case False
    have na: "last as \<noteq> ?n" "last as \<in> set ?ps" "last as \<notin> set (d # bs)"
      using False fresh d disjoint_last [of as "set (d # bs)"] disjoint_last [of as "{?n}"] by auto
    have nb': "?n \<notin> set (butlast as)" "?n \<notin> set (tl as)" "d \<notin> set (tl as)"
      using fresh d False by (auto dest: in_set_butlastD in_set_tlD)
    have nc: "last as \<notin> set (butlast (d # bs))" "?n \<notin> set (butlast (d # bs))"
      using na(3) fresh by (auto dest!: in_set_butlastD)
    have "lseg (ll_nxt l) (ll_prv l) as" "lseg (ll_nxt l) (ll_prv l) (d # bs)"
      using seg False by (auto simp: lseg_append)
    then have "lseg ((ll_nxt l)(?n := Some d, last as := Some ?n))
        ((ll_prv l)(?n := Some (last as), d := Some ?n)) (as @ ?n # d # bs)"
      using False fresh nb nb' na nc d distinct_ends [of as]
      by (auto simp: lseg_append [of as "?n # d # bs"] simp del: butlast.simps)
    moreover have "ll_seek (snd (alloc_node l x)) (length ys) (ll_head l) (ll_head l) =
        Some (Some (last as), Some d)"
    proof -
      have "lseg (ll_nxt (snd (alloc_node l x))) (ll_prv (snd (alloc_node l x))) ?ps"
        using seg fresh nb nb' False nc by (simp add: alloc_node_def butlast_append)
      from seek_mid [OF this] show ?thesis
        using False len dom rep_ends(1) [OF rep] by (auto simp: alloc_node_def)
    qed
    ultimately show ?thesis
      using rep len dom' elts' False fresh allocd [of d] allocd [of "last as"] brk na d
      by (auto simp: ll_insert_def alloc_node_def node_defs ll_rep_def intro: less_SucI)
  qed
qed


lemma destroy_loop_rep:
  assumes "lseg (ll_nxt l) (ll_prv l) ps" "distinct ps" "set ps \<subseteq> dom (ll_elt l)"
    "ps \<noteq> [] \<longrightarrow> cur = Some (hd ps)"
  shows "\<exists>l'. ll_destroy_loop l cur (length ps) = Some l' \<and>
    ll_elt l' = (ll_elt l) |` (- set ps)"
  using assms
proof (induction ps arbitrary: l cur)
  case Nil
  then show ?case by (simp add: restrict_map_def)
next
  case (Cons p ps)
  let ?l1 = "l\<lparr>ll_elt := (ll_elt l)(p := None)\<rparr>"
  have p: "\<exists>y. ll_elt l p = Some y" using Cons.prems(3) by auto
  have seg: "lseg (ll_nxt ?l1) (ll_prv ?l1) ps" and nx: "ps \<noteq> [] \<longrightarrow> ll_nxt l p = Some (hd ps)"
    using Cons.prems(1) by (cases ps; simp)+
  have "distinct ps" "set ps \<subseteq> dom (ll_elt ?l1)" using Cons.prems(2,3) by auto
  then obtain l' where "ll_destroy_loop ?l1 (ll_nxt l p) (length ps) = Some l'"
    "ll_elt l' = (ll_elt ?l1) |` (- set ps)"
    using Cons.IH [OF seg _ _ nx] by blast
  moreover have "(ll_elt ?l1) |` (- set ps) = (ll_elt l) |` (- set (p # ps))"
    by (auto simp: restrict_map_def fun_eq_iff)
  ultimately show ?case using p Cons.prems(4) by (auto simp: node_defs)
qed

lemma destroy_rep:
  assumes "ll_rep l ps xs"
  shows "\<exists>l'. ll_destroy l = Some l' \<and> ll_elt l' = Map.empty"
proof -
  obtain l' where l': "ll_destroy l = Some l'" "ll_elt l' = (ll_elt l) |` (- set ps)"
    using destroy_loop_rep [of l ps "ll_head l"] assms by (auto simp: ll_destroy_def ll_rep_def)
  moreover have "(ll_elt l) |` (- dom (ll_elt l)) = Map.empty"
    by (auto simp: restrict_map_def dom_def fun_eq_iff)
  ultimately show ?thesis using assms by (simp add: ll_rep_def)
qed

section \<open>The queue's move to the back\<close>

text \<open>
  The search runs from the tail: \<open>k\<close> is the number of elements behind the first match. The
  result for a list with intact ends is \<open>move_back_list\<close>: an element between the ends moves to
  the back, an element at the head stays, and for an element at the tail the head moves to the
  back instead.
\<close>

definition move_back_list :: "('a \<Rightarrow> bool) \<Rightarrow> 'a \<Rightarrow> 'a list \<Rightarrow> 'a list" where
  "move_back_list P x xs = (case find_index P (rev xs) of
     None \<Rightarrow> xs @ [x]
   | Some k \<Rightarrow>
       if k = length xs - 1 then xs
       else if k = 0 then rotate1 xs
       else let j = length xs - 1 - k in take j xs @ drop (Suc j) xs @ [xs ! j])"

lemma move_back_search:
  assumes rep: "ll_rep l ps xs" and "i + n = length xs" "n > 0 \<longrightarrow> cur = Some (ps ! (n - 1))"
  shows "queue_move_back_loop l x cur i n =
    (case find_index_from (\<lambda>e. ll_eq l e x) i (rev (take n xs)) of
       None \<Rightarrow> ll_append l x
     | Some k \<Rightarrow> queue_relink l (Some (ps ! (length xs - 1 - k))) k)"
  using assms(2,3)
proof (induction n arbitrary: i cur)
  case (Suc n)
  then have n: "n < length xs" and cur: "cur = Some (ps ! n)" and i: "i = length xs - 1 - n"
    by auto
  note acc = rep_access [OF rep n]
  have "queue_move_back_loop l x (ll_prv l (ps ! n)) (Suc i) n =
      (case find_index_from (\<lambda>e. ll_eq l e x) (Suc i) (rev (take n xs)) of
       None \<Rightarrow> ll_append l x
     | Some k \<Rightarrow> queue_relink l (Some (ps ! (length xs - 1 - k))) k)"
    using Suc n rep_links(2) [OF rep, of "n - 1"] by (intro Suc.IH) auto
  then show ?case
    using cur acc i n by (simp add: take_Suc_conv_app_nth)
qed simp

lemma relink_tail_rep:
  assumes rep: "ll_rep l ps xs" and c: "circ l ps" and len: "length xs > 1"
  shows "\<exists>l'. queue_relink l cur 0 = Some l' \<and> ll_rep l' (rotate1 ps) (rotate1 xs) \<and>
    circ l' (rotate1 ps) \<and> ll_eq l' = ll_eq l"
proof -
  obtain p q rs where ps: "ps = p # q # rs"
    using len ll_repD(2) [OF rep] by (cases ps rule: remdups_adj.cases) auto
  obtain x xs' where xs: "xs = x # xs'" using len by (cases xs) auto
  have "lseg (ll_nxt l) (ll_prv l) ((q # rs) @ [p])"
    by (subst lseg_append) (use rep c in \<open>auto simp: ll_rep_def circ_def ps\<close>)
  then show ?thesis
    using rep c len by (auto simp: queue_relink_def node_defs ll_rep_def circ_def ps xs)
qed

text \<open>A node between the ends moves behind the tail; this also repairs the ends.\<close>

lemma relink_mid_rep:
  assumes rep: "ll_rep l (as @ d # bs) (ys @ z # zs)" and len: "length as = length ys"
    and ne: "as \<noteq> []" "bs \<noteq> []" and k: "k \<noteq> 0" "k \<noteq> ll_len l - 1"
  shows "\<exists>l'. queue_relink l (Some d) k = Some l' \<and>
    ll_rep l' (as @ bs @ [d]) (ys @ zs @ [z]) \<and> circ l' (as @ bs @ [d]) \<and> ll_eq l' = ll_eq l"
proof -
  let ?ps = "as @ d # bs"
  have d: "distinct ?ps" and seg: "lseg (ll_nxt l) (ll_prv l) ?ps"
    and dom: "dom (ll_elt l) = set ?ps" using rep by (auto simp: ll_rep_def)
  have elts: "map (ll_elt l) as = map Some ys" "ll_elt l d = Some z" "map (ll_elt l) bs = map Some zs"
    using rep len by (auto simp: ll_rep_def)
  have allocd: "\<exists>y. ll_elt l a = Some y" if "a \<in> set ?ps" for a
    using dom that by (metis domD)
  have links: "ll_nxt l d = Some (hd bs)" "ll_prv l d = Some (last as)"
      "lseg (ll_nxt l) (ll_prv l) as" "lseg (ll_nxt l) (ll_prv l) bs"
    using seg ne lseg_append [of as "d # bs"] lseg_append [of "[d]" bs] by auto
  have dis: "last as \<notin> set (d # bs)" "hd as \<notin> set (d # bs)" "hd bs \<notin> set (as @ [d])"
      "last bs \<notin> set (as @ [d])"
    using d ne disjoint_last [of as "set (d # bs)"] disjoint_hd [of as "set (d # bs)"]
      disjoint_hd [of bs "set (as @ [d])"] disjoint_last [of bs "set (as @ [d])"] by auto
  have sub: "last as \<notin> set (butlast bs)" "last bs \<notin> set (butlast as)" "d \<notin> set (butlast as)"
      "d \<notin> set (butlast bs)" "hd bs \<notin> set (tl as)" "hd as \<notin> set (tl bs)" "d \<notin> set (tl as)" "d \<notin> set (tl bs)"
    using dis d by (auto dest: in_set_butlastD in_set_tlD)
  have ends: "last as \<noteq> hd bs" "last as \<noteq> last bs" "hd as \<noteq> hd bs" "hd as \<noteq> last bs"
    using dis ne by (metis hd_in_set last_in_set set_ConsD list.set_intros(2))+
  let ?nx = "(ll_nxt l)(last as := Some (hd bs), d := Some (hd as), last bs := Some d)"
  let ?pv = "(ll_prv l)(hd bs := Some (last as), d := Some (last bs), hd as := Some d)"
  have bsd: "lseg ?nx ?pv (bs @ [d])"
    using ne links dis sub ends distinct_ends [of bs] d by (auto simp: lseg_append)
  have "lseg ?nx ?pv (as @ bs @ [d])"
    using ne links dis sub ends distinct_ends [of as] d bsd
    by (auto simp: lseg_append [of as "bs @ [d]"])
  moreover have "queue_relink l (Some d) k =
      Some (l\<lparr>ll_nxt := ?nx, ll_prv := ?pv, ll_tail := Some d\<rparr>)"
    using k links elts dis ne ends allocd [of "last as"] allocd [of "hd as"] allocd [of "last bs"]
      allocd [of "hd bs"] rep_ends(1,2) [OF rep]
    by (auto simp: queue_relink_def node_defs)
  ultimately show ?thesis
    using rep len ne d dom elts by (auto simp: ll_rep_def circ_def)
qed


lemma move_back_rep:
  assumes rep: "ll_rep l ps xs"
    and tail: "circ l ps \<or> length xs \<le> 1 \<or> \<not> ll_eq l (last xs) x"
  shows "\<exists>l' ps'. queue_move_back l x = Some l' \<and>
    ll_rep l' ps' (move_back_list (\<lambda>e. ll_eq l e x) x xs) \<and> (circ l ps \<longrightarrow> circ l' ps') \<and>
    ll_eq l' = ll_eq l"
proof -
  let ?P = "\<lambda>e. ll_eq l e x"
  have len: "ll_len l = length xs" "length ps = length xs" using ll_repD [OF rep] by auto
  have run: "queue_move_back l x = (case find_index ?P (rev xs) of
       None \<Rightarrow> ll_append l x
     | Some k \<Rightarrow> queue_relink l (Some (ps ! (length xs - 1 - k))) k)"
    using move_back_search [OF rep, of 0 "length xs" "ll_tail l" x] ll_rep_tail [OF rep] len
    by (auto simp: queue_move_back_def find_index_def)
  show ?thesis
  proof (cases "find_index ?P (rev xs)")
    case None
    then show ?thesis
      using run append_rep [OF rep, of x] by (auto simp: move_back_list_def)
  next
    case (Some k)
    then have k: "k < length xs" "?P (rev xs ! k)" using find_index_Some [OF Some] by auto
    consider (head) "k = length xs - 1" | (tail) "k \<noteq> length xs - 1" "k = 0"
      | (mid) "k \<noteq> length xs - 1" "k \<noteq> 0" by blast
    then show ?thesis
    proof cases
      case head
      then show ?thesis
        using run Some rep len by (auto simp: queue_relink_def move_back_list_def)
    next
      case tail
      then have "?P (last xs)" using k by (simp add: rev_nth last_conv_nth)
      then have "circ l ps" using assms(2) tail k by auto
      then obtain l' where "queue_relink l (Some (ps ! (length xs - 1))) 0 = Some l'"
        "ll_rep l' (rotate1 ps) (rotate1 xs)" "circ l' (rotate1 ps)" "ll_eq l' = ll_eq l"
        using relink_tail_rep [OF rep] tail k by (metis One_nat_def diff_is_0_eq' not_le_imp_less)
      then show ?thesis
        using run Some tail k by (auto simp: move_back_list_def)
    next
      case mid
      let ?j = "length xs - 1 - k"
      have j: "?j < length xs" "?j < length ps" using k len by auto
      have "ll_rep l (take ?j ps @ ps ! ?j # drop (Suc ?j) ps) (take ?j xs @ xs ! ?j # drop (Suc ?j) xs)"
        using rep j by (simp add: take_drop_Suc_nth)
      moreover have "take ?j ps \<noteq> []" "drop (Suc ?j) ps \<noteq> []" using mid k len by auto
      ultimately obtain l' where "queue_relink l (Some (ps ! ?j)) k = Some l'"
        "ll_rep l' (take ?j ps @ drop (Suc ?j) ps @ [ps ! ?j]) (take ?j xs @ drop (Suc ?j) xs @ [xs ! ?j])"
        "circ l' (take ?j ps @ drop (Suc ?j) ps @ [ps ! ?j])" "ll_eq l' = ll_eq l"
        using relink_mid_rep [of l "take ?j ps" "ps ! ?j" "drop (Suc ?j) ps" "take ?j xs" "xs ! ?j"
            "drop (Suc ?j) xs" k] mid j len by (auto simp: len(1))
      then show ?thesis using run Some mid by (auto simp: move_back_list_def Let_def)
    qed
  qed
qed

section \<open>The interface\<close>

lemma ll_list_length: "ll_inv l \<Longrightarrow> length (ll_list l) = ll_len l"
  by (metis ll_invE ll_repD(3))

lemma ll_append_ok:
  assumes "ll_inv l"
  shows "\<exists>l'. ll_append l x = Some l' \<and> ll_circ l' \<and> ll_list l' = ll_list l @ [x] \<and> ll_eq l' = ll_eq l"
  using assms append_rep ll_rep_list unfolding ll_circ_def by (metis ll_invE)

lemma ll_remove_ok:
  assumes "ll_inv l" "i < length (ll_list l)"
  shows "\<exists>l'. ll_remove l i = Some l' \<and> ll_inv l' \<and>
    ll_list l' = take i (ll_list l) @ drop (Suc i) (ll_list l) \<and> ll_eq l' = ll_eq l"
  using assms remove_nth_rep ll_rep_list unfolding ll_remove_def by (metis ll_invE ll_invI)

lemma ll_remove_exit: "ll_inv l \<Longrightarrow> length (ll_list l) \<le> i \<Longrightarrow> ll_remove l i = None"
  by (simp add: ll_remove_def ll_remove_internal_def ll_list_length)

lemma ll_get_eq:
  "ll_inv l \<Longrightarrow> ll_get l i = (if i < length (ll_list l) then Some (ll_list l ! i) else None)"
  by (metis ll_invE get_rep)

interpretation llist: list_container ll_inv ll_list ll_size ll_append ll_remove ll_get
proof unfold_locales
  fix l :: "'a llist" and x i
  assume inv: "ll_inv l"
  show "ll_size l = length (ll_list l)" using inv by (simp add: ll_size_def ll_list_length)
  show "\<exists>l'. ll_append l x = Some l' \<and> ll_inv l' \<and> ll_list l' = ll_list l @ [x]"
    using ll_append_ok [OF inv, of x] ll_circ_inv by blast
  show "\<exists>l'. ll_remove l i = Some l' \<and> ll_inv l' \<and>
      ll_list l' = take i (ll_list l) @ drop (Suc i) (ll_list l)" if "i < length (ll_list l)"
    using ll_remove_ok [OF inv that] by blast
  show "ll_remove l i = None" if "length (ll_list l) \<le> i"
    using ll_remove_exit [OF inv that] .
  show "ll_get l i = (if i < length (ll_list l) then Some (ll_list l ! i) else None)"
    by (rule ll_get_eq [OF inv])
qed

lemma ll_create_ok [simp]: "ll_circ (ll_create eq)" "ll_list (ll_create eq) = []" "ll_eq (ll_create eq) = eq"
  using create_rep ll_rep_list [OF create_rep] by (auto simp: ll_circ_def circ_def ll_create_def)

lemma ll_append_circ:
  assumes "ll_circ l"
  shows "\<exists>l'. ll_append l x = Some l' \<and> ll_circ l' \<and> ll_list l' = ll_list l @ [x] \<and> ll_eq l' = ll_eq l"
  using assms append_rep ll_rep_list unfolding ll_circ_def by metis

lemma ll_insert_ok:
  assumes "ll_inv l" "i < length (ll_list l)"
  shows "\<exists>l'. ll_insert l x i = Some l' \<and> ll_inv l' \<and>
    ll_list l' = take i (ll_list l) @ x # drop i (ll_list l)"
proof -
  obtain ps where rep: "ll_rep l ps (ll_list l)" using assms(1) by (rule ll_invE)
  have len: "length ps = length (ll_list l)" using ll_repD(2) [OF rep] .
  have "ll_rep l (take i ps @ ps ! i # drop (Suc i) ps)
      (take i (ll_list l) @ ll_list l ! i # drop (Suc i) (ll_list l))"
    using rep assms(2) len by (simp add: take_drop_Suc_nth)
  from insert_rep [OF this, of x] len assms(2) show ?thesis
    by (auto simp: Cons_nth_drop_Suc dest: ll_invI ll_rep_list)
qed

lemma ll_create_inv [simp]: "ll_inv (ll_create eq)"
  by (simp add: ll_circ_inv)

lemma ll_take_ok:
  assumes "ll_inv l" "i < length (ll_list l)"
  shows "\<exists>l'. ll_take l i = Some (ll_list l ! i, l') \<and> ll_inv l' \<and>
    ll_list l' = take i (ll_list l) @ drop (Suc i) (ll_list l) \<and> ll_eq l' = ll_eq l"
  using ll_remove_ok [OF assms] assms by (auto simp: ll_take_def ll_remove_def ll_get_eq)

lemma ll_take_exit: "ll_inv l \<Longrightarrow> length (ll_list l) \<le> i \<Longrightarrow> ll_take l i = None"
  by (simp add: ll_take_def ll_get_eq)

lemma ll_index_of_eq:
  "ll_inv l \<Longrightarrow> ll_index_of l x = Some (find_index (\<lambda>e. ll_eq l e x) (ll_list l))"
  by (metis ll_invE index_of_rep)

lemma ll_contains_eq:
  "ll_inv l \<Longrightarrow> ll_contains l x = Some (\<exists>e \<in> set (ll_list l). ll_eq l e x)"
  using find_index_None [of "\<lambda>e. ll_eq l e x" "ll_list l"]
  by (auto simp: ll_contains_def ll_index_of_eq)

lemma ll_insert_empty:
  assumes "ll_inv l" "ll_list l = []"
  shows "\<exists>l'. ll_insert l x 0 = Some l' \<and> ll_inv l' \<and> ll_list l' = [x]"
proof -
  have rep: "ll_rep l [] []" using assms ll_invE ll_repD(2) by (metis length_0_conv)
  then have "ll_insert l x 0 = ll_append l x"
    by (auto simp: ll_insert_def ll_append_def alloc_node_def node_defs ll_rep_def)
  then show ?thesis using ll_append_ok [OF assms(1), of x] assms(2) ll_circ_inv by auto
qed

lemma ll_insert_exit: "ll_inv l \<Longrightarrow> length (ll_list l) \<le> i \<Longrightarrow> i \<noteq> 0 \<Longrightarrow> ll_insert l x i = None"
  by (simp add: ll_insert_def alloc_node_def ll_list_length)

lemma ll_remove_elem_spec:
  assumes "ll_inv l"
  shows "case find_index (\<lambda>e. ll_eq l e x) (ll_list l) of
       None \<Rightarrow> ll_remove_elem l x = None
     | Some j \<Rightarrow> \<exists>l'. ll_remove_elem l x = Some l' \<and> ll_inv l' \<and>
         ll_list l' = take j (ll_list l) @ drop (Suc j) (ll_list l)"
proof (cases "find_index (\<lambda>e. ll_eq l e x) (ll_list l)")
  case (Some j)
  then show ?thesis
    using find_index_Some [OF Some] ll_remove_ok [OF assms, of j]
    by (auto simp: ll_remove_elem_def ll_index_of_eq [OF assms] ll_remove_def)
qed (simp add: ll_remove_elem_def ll_index_of_eq [OF assms])

lemma queue_pop_ok:
  assumes "ll_inv l" "ll_list l = x # xs"
  shows "\<exists>l'. queue_pop l = Some (x, l') \<and> ll_inv l' \<and> ll_list l' = xs \<and> ll_eq l' = ll_eq l"
proof -
  obtain ps where rep: "ll_rep l ps (x # xs)" using assms ll_invE by metis
  then have "get_elt l (ll_head l) = Some x"
    using rep_access(2) [OF rep, of 0] ll_rep_head [OF rep] ll_repD(2) [OF rep] by auto
  then show ?thesis
    using ll_remove_ok [OF assms(1), of 0] assms(2) by (auto simp: queue_pop_def ll_remove_def)
qed

lemma stack_pop_ok:
  assumes "ll_inv l" "ll_list l = xs @ [x]"
  shows "\<exists>l'. stack_pop l = Some (x, l') \<and> ll_inv l' \<and> ll_list l' = xs \<and> ll_eq l' = ll_eq l"
proof -
  obtain ps where rep: "ll_rep l ps (xs @ [x])" using assms ll_invE by metis
  then have "get_elt l (ll_tail l) = Some x" "ll_len l - 1 = length xs"
    using rep_access(2) [OF rep, of "length xs"] ll_rep_tail [OF rep] ll_repD(2,3) [OF rep] by auto
  then show ?thesis
    using ll_remove_ok [OF assms(1), of "length xs"] assms(2)
    by (auto simp: stack_pop_def ll_remove_def)
qed

lemma pop_empty: "ll_inv l \<Longrightarrow> ll_list l = [] \<Longrightarrow> queue_pop l = None \<and> stack_pop l = None"
  using ll_list_length [of l]
  by (auto simp: queue_pop_def stack_pop_def ll_remove_internal_def bind_eq_None_conv)

lemma queue_move_back_ok:
  assumes "ll_circ l"
  shows "\<exists>l'. queue_move_back l x = Some l' \<and> ll_circ l' \<and>
    ll_list l' = move_back_list (\<lambda>e. ll_eq l e x) x (ll_list l) \<and> ll_eq l' = ll_eq l"
  using assms move_back_rep ll_rep_list unfolding ll_circ_def by metis

section \<open>Properties\<close>

text \<open>
  C10: On a linked list in a well-formed state the operations return without an invalid access, keep
  the state well-formed and act on the stored sequence as their names say. Append and push add at
  the end; index_of finds the first equal element, contains tells whether there is one, and
  remove_elem removes it, ending the program if there is none; insert adds before a valid index or
  into the empty list at index zero, remove and take delete the element at a valid index, get reads
  it, and for all four any other index ends the program; the pops of queues and stacks take the first
  and the last element and fail on the empty list; destroy frees every node. (The queue's
  \<^verbatim>\<open>move_back\<close> is not among them: it needs the stronger state \<open>ll_circ\<close>.)
\<close>
theorem llist_operations:
  assumes "ll_inv l"
  shows "(\<exists>l'. ll_append l x = Some l' \<and> ll_push l x = Some l' \<and> ll_inv l' \<and> ll_list l' = ll_list l @ [x]) \<and>
    ll_size l = length (ll_list l) \<and>
    ll_index_of l x = Some (find_index (\<lambda>e. ll_eq l e x) (ll_list l)) \<and>
    ll_contains l x = Some (\<exists>e \<in> set (ll_list l). ll_eq l e x) \<and>
    (case find_index (\<lambda>e. ll_eq l e x) (ll_list l) of
       None \<Rightarrow> ll_remove_elem l x = None
     | Some j \<Rightarrow> \<exists>l'. ll_remove_elem l x = Some l' \<and> ll_inv l' \<and>
         ll_list l' = take j (ll_list l) @ drop (Suc j) (ll_list l)) \<and>
    (if i < ll_size l \<or> i = 0 then
       \<exists>l'. ll_insert l x i = Some l' \<and> ll_inv l' \<and> ll_list l' = take i (ll_list l) @ x # drop i (ll_list l)
     else ll_insert l x i = None) \<and>
    (if i < ll_size l then
      (\<exists>l'. ll_take l i = Some (ll_list l ! i, l') \<and> ll_remove l i = Some l' \<and> ll_inv l' \<and>
         ll_list l' = take i (ll_list l) @ drop (Suc i) (ll_list l)) \<and>
      ll_get l i = Some (ll_list l ! i)
     else ll_remove l i = None \<and> ll_take l i = None \<and> ll_get l i = None) \<and>
    (if ll_list l = [] then queue_pop l = None \<and> stack_pop l = None
     else (\<exists>l'. queue_pop l = Some (hd (ll_list l), l') \<and> ll_inv l' \<and> ll_list l' = tl (ll_list l)) \<and>
       (\<exists>l'. stack_pop l = Some (last (ll_list l), l') \<and> ll_inv l' \<and> ll_list l' = butlast (ll_list l))) \<and>
    (\<exists>l'. ll_destroy l = Some l' \<and> ll_elt l' = Map.empty)"
proof (intro conjI)
  note size = llist.size_law [OF assms]
  show "\<exists>l'. ll_append l x = Some l' \<and> ll_push l x = Some l' \<and> ll_inv l' \<and> ll_list l' = ll_list l @ [x]"
    using llist.append_law [OF assms, of x] by (simp add: ll_push_def)
  show "ll_size l = length (ll_list l)" by (rule size)
  show "ll_index_of l x = Some (find_index (\<lambda>e. ll_eq l e x) (ll_list l))" by (rule ll_index_of_eq [OF assms])
  show "ll_contains l x = Some (\<exists>e \<in> set (ll_list l). ll_eq l e x)" by (rule ll_contains_eq [OF assms])
  show "case find_index (\<lambda>e. ll_eq l e x) (ll_list l) of
       None \<Rightarrow> ll_remove_elem l x = None
     | Some j \<Rightarrow> \<exists>l'. ll_remove_elem l x = Some l' \<and> ll_inv l' \<and>
         ll_list l' = take j (ll_list l) @ drop (Suc j) (ll_list l)"
    by (rule ll_remove_elem_spec [OF assms])
  show "if i < ll_size l \<or> i = 0 then
       \<exists>l'. ll_insert l x i = Some l' \<and> ll_inv l' \<and> ll_list l' = take i (ll_list l) @ x # drop i (ll_list l)
     else ll_insert l x i = None"
    using ll_insert_ok [OF assms, of i x] ll_insert_empty [OF assms, of x] ll_insert_exit [OF assms, of i x] size
    by (cases "ll_list l = []") auto
  show "if i < ll_size l then
      (\<exists>l'. ll_take l i = Some (ll_list l ! i, l') \<and> ll_remove l i = Some l' \<and> ll_inv l' \<and>
         ll_list l' = take i (ll_list l) @ drop (Suc i) (ll_list l)) \<and>
      ll_get l i = Some (ll_list l ! i)
     else ll_remove l i = None \<and> ll_take l i = None \<and> ll_get l i = None"
    using size ll_remove_ok [OF assms, of i] ll_get_eq [OF assms, of i] ll_remove_exit [OF assms, of i]
      ll_take_exit [OF assms, of i]
    by (auto simp: ll_take_def ll_remove_def)
  show "if ll_list l = [] then queue_pop l = None \<and> stack_pop l = None
     else (\<exists>l'. queue_pop l = Some (hd (ll_list l), l') \<and> ll_inv l' \<and> ll_list l' = tl (ll_list l)) \<and>
       (\<exists>l'. stack_pop l = Some (last (ll_list l), l') \<and> ll_inv l' \<and> ll_list l' = butlast (ll_list l))"
    using pop_empty [OF assms] queue_pop_ok [OF assms, of "hd (ll_list l)" "tl (ll_list l)"]
      stack_pop_ok [OF assms, of "butlast (ll_list l)" "last (ll_list l)"]
    by auto
  show "\<exists>l'. ll_destroy l = Some l' \<and> ll_elt l' = Map.empty" using assms destroy_rep by (metis ll_invE)
qed

theorem llist_operations_witness:
  "\<exists>l'. ll_append ll_ul_create 7 = Some l' \<and> ll_inv l' \<and> ll_list l' = [7]"
  using llist_operations [of ll_ul_create 7 0] by (auto simp: ll_ul_create_def)

text \<open>Popping \<open>n\<close> elements with one of the two pop operations.\<close>

fun pops :: "('a llist \<Rightarrow> ('a \<times> 'a llist) option) \<Rightarrow> nat \<Rightarrow> 'a llist \<Rightarrow> ('a list \<times> 'a llist) option" where
  "pops pop 0 l = Some ([], l)"
| "pops pop (Suc n) l = do { (x, l) \<leftarrow> pop l; (xs, l) \<leftarrow> pops pop n l; Some (x # xs, l) }"

lemma queue_pops:
  "ll_inv l \<Longrightarrow> \<exists>l'. pops queue_pop (length (ll_list l)) l = Some (ll_list l, l') \<and> ll_inv l' \<and> ll_list l' = []"
proof (induction "ll_list l" arbitrary: l)
  case (Cons x xs)
  then obtain l1 where l1: "queue_pop l = Some (x, l1)" "ll_inv l1" "ll_list l1 = xs"
    using queue_pop_ok [of l x xs] by metis
  with Cons.hyps(1) [of l1] show ?case by (auto simp: Cons.hyps(2) [symmetric])
qed auto

lemma stack_pops:
  "ll_inv l \<Longrightarrow> \<exists>l'. pops stack_pop (length (ll_list l)) l = Some (rev (ll_list l), l') \<and> ll_inv l' \<and> ll_list l' = []"
proof (induction "rev (ll_list l)" arbitrary: l)
  case (Cons x xs)
  then have "ll_list l = rev xs @ [x]" by (metis rev.simps(2) rev_rev_ident)
  then obtain l1 where l1: "stack_pop l = Some (x, l1)" "ll_inv l1" "ll_list l1 = rev xs"
    using stack_pop_ok [of l "rev xs" x] Cons.prems by metis
  with Cons.hyps(1) [of l1] \<open>ll_list l = rev xs @ [x]\<close> show ?case by auto
qed auto

text \<open>
  Whatever is pushed into a fresh list comes out again: a queue returns the elements in the
  order in which they were pushed, a stack in the opposite order, and the list is empty afterwards.
\<close>
theorem queue_stack_order:
  "\<exists>l q s. for_each ll_push (ll_create eq) xs = Some l \<and>
     pops queue_pop (length xs) l = Some (xs, q) \<and> ll_size q = 0 \<and>
     pops stack_pop (length xs) l = Some (rev xs, s) \<and> ll_size s = 0"
proof -
  have push: "ll_push = ll_append" by (simp add: fun_eq_iff ll_push_def)
  obtain l where l: "for_each ll_push (ll_create eq) xs = Some l" "ll_inv l" "ll_list l = xs"
    using llist.append_all [OF ll_create_inv, of eq xs] push by (metis append_Nil ll_create_ok(2))
  show ?thesis
    using l queue_pops [OF l(2)] stack_pops [OF l(2)] by (metis list.size(3) llist.size_law)
qed

text \<open>
  C39: \<^verbatim>\<open>QUEUE_MOVE_BACK\<close> on a list of at least two different elements with intact ends moves an element between the ends to the
  back, but has the two ends exchanged: an element at the head, the least recently used one, stays
  where it is, and for an element that is at the back already the head is moved behind it.
\<close>
theorem move_back_ends_exchanged:
  assumes "ll_circ l" "ll_list l = a # ys @ [b]" "distinct (ll_list l)" "ll_eq l = (=)"
  shows "(\<exists>l'. queue_move_back l a = Some l' \<and> ll_list l' = a # ys @ [b]) \<and>
    (\<exists>l'. queue_move_back l b = Some l' \<and> ll_list l' = ys @ [b, a]) \<and>
    (\<forall>y \<in> set ys. \<exists>l'. queue_move_back l y = Some l' \<and> ll_list l' = a # remove1 y ys @ [b, y])"
proof -
  note mb = queue_move_back_ok [OF assms(1)]
  have fi: "find_index (\<lambda>e. e = z) (rev (a # ys @ [b])) = Some k"
    if "k < length ys + 2" "rev (a # ys @ [b]) ! k = z" for z k
  proof -
    have "distinct (rev (a # ys @ [b]))" using assms(2,3) by (metis distinct_rev)
    from find_index_distinct [OF this, of k] that show ?thesis by simp
  qed
  have "\<exists>l'. queue_move_back l a = Some l' \<and> ll_list l' = a # ys @ [b]"
    using mb [of a] fi [of "length ys + 1" a] assms(2,4)
    by (auto simp: move_back_list_def nth_append)
  moreover have "\<exists>l'. queue_move_back l b = Some l' \<and> ll_list l' = ys @ [b, a]"
    using mb [of b] fi [of 0 b] assms(2,4) by (auto simp: move_back_list_def)
  moreover have "\<exists>l'. queue_move_back l y = Some l' \<and> ll_list l' = a # remove1 y ys @ [b, y]"
    if yin: "y \<in> set ys" for y
  proof -
    obtain us vs where ys: "ys = us @ y # vs" "y \<notin> set us" using split_list_first [OF yin] by blast
    have "find_index (\<lambda>e. e = y) (rev (a # ys @ [b])) = Some (Suc (length vs))"
      by (rule fi) (simp_all add: ys nth_append)
    then show ?thesis
      using mb [of y] assms(2,4) ys
      by (auto simp: move_back_list_def Let_def remove1_append nth_append)
  qed
  ultimately show ?thesis by blast
qed

theorem move_back_ends_exchanged_witness:
  "\<exists>l l'. for_each ll_append ll_ul_create [1, 2, 3] = Some l \<and> queue_move_back l 3 = Some l' \<and>
     ll_list l' = [2, 3, 1]"
proof -
  obtain l1 where l1: "ll_append ll_ul_create 1 = Some l1" "ll_circ l1" "ll_list l1 = [1]" "ll_eq l1 = (=)"
    using ll_append_circ [of ll_ul_create 1] by (auto simp: ll_ul_create_def unsigned_long_eq_def fun_eq_iff)
  obtain l2 where l2: "ll_append l1 2 = Some l2" "ll_circ l2" "ll_list l2 = [1, 2]" "ll_eq l2 = (=)"
    using ll_append_circ [OF l1(2), of 2] l1 by auto
  obtain l3 where l3: "ll_append l2 3 = Some l3" "ll_circ l3" "ll_list l3 = 1 # [2] @ [3]" "ll_eq l3 = (=)"
    using ll_append_circ [OF l2(2), of 3] l2 by auto
  show ?thesis
    using move_back_ends_exchanged [OF l3(2,3) _ l3(4)] l1 l2 l3 by auto
qed

text \<open>
  \<^verbatim>\<open>LINKED_LIST_REMOVE_INTERNAL\<close> leaves the link between the ends at the freed node when it
  removes the first element, and \<^verbatim>\<open>QUEUE_MOVE_BACK\<close> of the last element turns that link into
  an inner one: after three pushes, one pop and one move to the back the list has two elements, and
  reading the second one dereferences freed memory.
\<close>
theorem move_back_use_after_free:
  "\<exists>l0 l1 l2. for_each ll_push ll_ul_create [1, 2, 3] = Some l0 \<and> queue_pop l0 = Some (1, l1) \<and>
     queue_move_back l1 3 = Some l2 \<and> ll_size l2 = 2 \<and> ll_get l2 1 = None"
  by (simp add: ll_ul_create_def ll_create_def ll_push_def ll_append_def alloc_node_def set_next_def
      set_prev_def deref_def get_next_def get_prev_def get_elt_def free_node_def queue_pop_def
      ll_remove_internal_def queue_move_back_def queue_relink_def ll_size_def ll_get_def
      unsigned_long_eq_def numeral_2_eq_2 numeral_3_eq_3)

end
