(* ===== verification/Array_List.thy ===== *)
theory Array_List
  imports Container_Specs
begin

text \<open>
  The array lists of \<^verbatim>\<open>include/data-struct/array_list.h\<close>. The element array is a memory block
  of \<open>al_alloced\<close> cells; a cell that was never written is \<open>None\<close>. Reading or writing a cell
  outside the block, or reading an unwritten cell, has no result. The copy callback is
  \<^verbatim>\<open>NULL\<close> in every instance and the free callback releases memory of the element only; neither
  is part of the model.
\<close>

section \<open>The struct and its operations\<close>

record 'a array_list =
  al_elements :: "nat \<Rightarrow> 'a option"
  al_alloced :: nat
  al_len :: nat
  al_leq :: "'a \<Rightarrow> 'a \<Rightarrow> bool"

definition initial_alloc :: nat where
  "initial_alloc = 128"

definition al_create :: "('a \<Rightarrow> 'a \<Rightarrow> bool) \<Rightarrow> 'a array_list" where
  "al_create eq = \<lparr>al_elements = (\<lambda>_. None), al_alloced = initial_alloc, al_len = 0, al_leq = eq\<rparr>"

definition al_size :: "'a array_list \<Rightarrow> nat" where
  "al_size l = al_len l"

definition al_read :: "'a array_list \<Rightarrow> nat \<Rightarrow> 'a option" where
  "al_read l i = (if i < al_alloced l then al_elements l i else None)"

definition al_write :: "'a array_list \<Rightarrow> nat \<Rightarrow> 'a \<Rightarrow> 'a array_list option" where
  "al_write l i v =
     (if i < al_alloced l then Some (l\<lparr>al_elements := (al_elements l)(i \<mapsto> v)\<rparr>) else None)"

text \<open>\<^verbatim>\<open>memmove(elements + dst, elements + src, n)\<close>.\<close>

definition al_memmove :: "'a array_list \<Rightarrow> nat \<Rightarrow> nat \<Rightarrow> nat \<Rightarrow> 'a array_list option" where
  "al_memmove l dst src n =
     (if dst + n \<le> al_alloced l \<and> src + n \<le> al_alloced l then
        Some (l\<lparr>al_elements := (\<lambda>j. if dst \<le> j \<and> j < dst + n then al_elements l (j - dst + src)
                                   else al_elements l j)\<rparr>)
      else None)"

definition al_insert :: "'a array_list \<Rightarrow> 'a \<Rightarrow> nat \<Rightarrow> 'a array_list option" where
  "al_insert l v idx =
    (if idx > al_len l then None
     else do {
       let l = (if al_alloced l = al_len l then l\<lparr>al_alloced := push_bit 2 (al_alloced l)\<rparr> else l);
       l \<leftarrow> (if idx < al_len l then al_memmove l (idx + 1) idx (al_len l - idx) else Some l);
       l \<leftarrow> al_write l idx v;
       Some (l\<lparr>al_len := al_len l + 1\<rparr>) })"

definition al_append :: "'a array_list \<Rightarrow> 'a \<Rightarrow> 'a array_list option" where
  "al_append l v = al_insert l v (al_len l)"

definition al_remove_internal :: "'a array_list \<Rightarrow> nat \<Rightarrow> 'a array_list option" where
  "al_remove_internal l idx =
    (if idx \<ge> al_len l then None
     else do {
       let l = l\<lparr>al_len := al_len l - 1\<rparr>;
       (if idx < al_len l then al_memmove l idx (idx + 1) (al_len l - idx) else Some l) })"

definition al_remove :: "'a array_list \<Rightarrow> nat \<Rightarrow> 'a array_list option" where
  "al_remove l idx = al_remove_internal l idx"

text \<open>\<^verbatim>\<open>ARRAY_LIST_INDEX_OF\<close>: \<open>Some None\<close> is the return value \<open>-1\<close>.\<close>

fun al_index_loop :: "'a array_list \<Rightarrow> 'a \<Rightarrow> nat \<Rightarrow> nat \<Rightarrow> nat option option" where
  "al_index_loop l v i 0 = Some None"
| "al_index_loop l v i (Suc n) = do {
     e \<leftarrow> al_read l i;
     if al_leq l v e then Some (Some i) else al_index_loop l v (Suc i) n }"

definition al_index_of :: "'a array_list \<Rightarrow> 'a \<Rightarrow> nat option option" where
  "al_index_of l v = al_index_loop l v 0 (al_len l)"

definition al_remove_elem :: "'a array_list \<Rightarrow> 'a \<Rightarrow> 'a array_list option" where
  "al_remove_elem l v = do {
     r \<leftarrow> al_index_of l v;
     case r of None \<Rightarrow> None | Some idx \<Rightarrow> al_remove_internal l idx }"

definition al_contains :: "'a array_list \<Rightarrow> 'a \<Rightarrow> bool option" where
  "al_contains l v = do { r \<leftarrow> al_index_of l v; Some (r \<noteq> None) }"

definition al_get :: "'a array_list \<Rightarrow> nat \<Rightarrow> 'a option" where
  "al_get l idx = (if idx \<ge> al_len l then None else al_read l idx)"

definition al_take :: "'a array_list \<Rightarrow> nat \<Rightarrow> ('a \<times> 'a array_list) option" where
  "al_take l idx = do {
     e \<leftarrow> al_get l idx;
     l \<leftarrow> al_remove_internal l idx;
     Some (e, l) }"

definition al_ul_create :: "ulong array_list" where
  "al_ul_create = al_create unsigned_long_eq"

section \<open>Representation and correctness\<close>

definition al_inv :: "'a array_list \<Rightarrow> bool" where
  "al_inv l \<longleftrightarrow> 0 < al_alloced l \<and> al_len l \<le> al_alloced l \<and>
     (\<forall>i < al_len l. al_elements l i \<noteq> None)"

definition al_list :: "'a array_list \<Rightarrow> 'a list" where
  "al_list l = map (\<lambda>i. the (al_elements l i)) [0..<al_len l]"

lemma al_list_length [simp]: "length (al_list l) = al_len l"
  by (simp add: al_list_def)

lemma al_list_nth: "i < al_len l \<Longrightarrow> al_list l ! i = the (al_elements l i)"
  by (simp add: al_list_def)

lemma al_create_ok [simp]: "al_inv (al_create eq)" "al_list (al_create eq) = []"
  by (simp_all add: al_inv_def al_list_def al_create_def initial_alloc_def)

lemma al_insert_ok:
  assumes inv: "al_inv l" and idx: "idx \<le> al_len l"
  shows "\<exists>l'. al_insert l v idx = Some l' \<and> al_inv l' \<and>
    al_list l' = take idx (al_list l) @ v # drop idx (al_list l)"
proof -
  let ?cap = "if al_alloced l = al_len l then push_bit 2 (al_alloced l) else al_alloced l"
  let ?el = "\<lambda>j. if j = idx then Some v else if idx < j \<and> j \<le> al_len l then al_elements l (j - 1)
    else al_elements l j"
  let ?l' = "l\<lparr>al_elements := ?el, al_alloced := ?cap, al_len := al_len l + 1\<rparr>"
  have cap: "al_len l < ?cap" using inv by (auto simp: al_inv_def push_bit_eq_mult)
  have "al_insert l v idx = Some ?l'"
    using idx cap by (cases "al_alloced l = al_len l")
      (auto simp: al_insert_def al_memmove_def al_write_def Let_def fun_eq_iff less_Suc_eq_le)
  moreover have "al_inv ?l'"
    using inv cap idx by (auto simp: al_inv_def less_Suc_eq_le)
  moreover have "al_list ?l' = take idx (al_list l) @ v # drop idx (al_list l)"
    using idx by (intro nth_equalityI) (auto simp: al_list_nth nth_append nth_Cons' nth_drop)
  ultimately show ?thesis by blast
qed

lemma al_insert_exit: "idx > al_len l \<Longrightarrow> al_insert l v idx = None"
  by (simp add: al_insert_def)

lemma al_remove_ok:
  assumes inv: "al_inv l" and idx: "idx < al_len l"
  shows "\<exists>l'. al_remove_internal l idx = Some l' \<and> al_inv l' \<and>
    al_list l' = take idx (al_list l) @ drop (Suc idx) (al_list l)"
proof -
  let ?el = "\<lambda>j. if idx \<le> j \<and> j < al_len l - 1 then al_elements l (Suc j) else al_elements l j"
  let ?l' = "l\<lparr>al_elements := ?el, al_len := al_len l - 1\<rparr>"
  have "al_remove_internal l idx = Some ?l'"
  proof (cases "idx < al_len l - 1")
    case True
    then show ?thesis
      using inv by (auto simp: al_remove_internal_def al_memmove_def Let_def al_inv_def fun_eq_iff)
  next
    case False
    then have "?el = al_elements l" by (auto simp: fun_eq_iff)
    with False idx show ?thesis by (simp add: al_remove_internal_def Let_def)
  qed
  moreover have "al_inv ?l'"
    using inv idx by (auto simp: al_inv_def)
  moreover have "al_list ?l' = take idx (al_list l) @ drop (Suc idx) (al_list l)"
    using idx by (intro nth_equalityI) (auto simp: al_list_nth nth_append nth_drop)
  ultimately show ?thesis by blast
qed

lemma al_get_eq:
  "al_inv l \<Longrightarrow> al_get l i = (if i < length (al_list l) then Some (al_list l ! i) else None)"
  by (auto simp: al_get_def al_read_def al_inv_def al_list_nth)

interpretation alist: list_container al_inv al_list al_size al_append al_remove al_get
proof unfold_locales
  fix l :: "'a array_list" and x i
  assume inv: "al_inv l"
  show "al_size l = length (al_list l)" by (simp add: al_size_def)
  show "\<exists>l'. al_append l x = Some l' \<and> al_inv l' \<and> al_list l' = al_list l @ [x]"
    using al_insert_ok [OF inv, of "al_len l" x] by (simp add: al_append_def)
  show "\<exists>l'. al_remove l i = Some l' \<and> al_inv l' \<and>
      al_list l' = take i (al_list l) @ drop (Suc i) (al_list l)" if "i < length (al_list l)"
    using al_remove_ok [OF inv, of i] that by (simp add: al_remove_def)
  show "al_remove l i = None" if "length (al_list l) \<le> i"
    using that by (simp add: al_remove_def al_remove_internal_def)
  show "al_get l i = (if i < length (al_list l) then Some (al_list l ! i) else None)"
    by (rule al_get_eq [OF inv])
qed

lemma al_index_loop_eq:
  "al_inv l \<Longrightarrow> i + n = al_len l \<Longrightarrow>
     al_index_loop l v i n = Some (find_index_from (al_leq l v) i (drop i (al_list l)))"
proof (induction n arbitrary: i)
  case (Suc n)
  then have i: "i < al_len l" by simp
  with Suc have "al_index_loop l v (Suc i) n =
      Some (find_index_from (al_leq l v) (Suc i) (drop (Suc i) (al_list l)))" by simp
  moreover have "al_read l i = Some (al_list l ! i)"
    using i Suc.prems(1) by (auto simp: al_read_def al_inv_def al_list_nth)
  ultimately show ?case
    using i by (simp add: Cons_nth_drop_Suc [symmetric])
qed simp

lemma al_index_of_eq: "al_inv l \<Longrightarrow> al_index_of l v = Some (find_index (al_leq l v) (al_list l))"
  by (simp add: al_index_of_def al_index_loop_eq find_index_def)

lemma al_contains_eq: "al_inv l \<Longrightarrow> al_contains l v = Some (\<exists>e \<in> set (al_list l). al_leq l v e)"
  using find_index_None [of "al_leq l v" "al_list l"] by (auto simp: al_contains_def al_index_of_eq)

section \<open>Properties\<close>

text \<open>
  C40: Insertion into an array list at any position up to its length stores the element there, moves
  the later elements one place up and keeps the list well-formed, whether or not the element array
  has to be enlarged first; get returns exactly the stored sequence, taking the element out again
  restores the list, and a position beyond the end ends the program.
\<close>
theorem al_insert_take:
  assumes "al_inv l"
  shows "if idx \<le> al_size l then
      \<exists>l' l''. al_insert l v idx = Some l' \<and> al_inv l' \<and>
        (\<forall>j. al_get l' j = (if j < idx then al_get l j else if j = idx then Some v else al_get l (j - 1))) \<and>
        al_take l' idx = Some (v, l'') \<and> al_inv l'' \<and> al_list l'' = al_list l
    else al_insert l v idx = None"
proof (cases "idx \<le> al_len l")
  case True
  obtain l' where l': "al_insert l v idx = Some l'" "al_inv l'"
    "al_list l' = take idx (al_list l) @ v # drop idx (al_list l)"
    using al_insert_ok [OF assms True] by blast
  then have len: "al_len l' = Suc (al_len l)"
    using True al_list_length [of l'] al_list_length [of l] by simp
  have get: "al_get l' j = (if j < idx then al_get l j else if j = idx then Some v else al_get l (j - 1))" for j
    using True len by (auto simp: al_get_eq assms l'(2,3) nth_append nth_Cons')
  obtain l'' where "al_remove_internal l' idx = Some l''" "al_inv l''"
    "al_list l'' = take idx (al_list l') @ drop (Suc idx) (al_list l')"
    using al_remove_ok [OF l'(2), of idx] True len by auto
  then have "al_take l' idx = Some (v, l'') \<and> al_inv l'' \<and> al_list l'' = al_list l"
    using get [of idx] l'(3) True by (simp add: al_take_def)
  with l'(1,2) get True show ?thesis by (auto simp: al_size_def)
qed (simp add: al_insert_exit al_size_def)

theorem al_insert_take_witness:
  "\<exists>l' l''. al_insert al_ul_create 5 0 = Some l' \<and> al_get l' 0 = Some 5 \<and>
     al_take l' 0 = Some (5, l'') \<and> al_list l'' = []"
proof -
  have inv: "al_inv al_ul_create" "al_list al_ul_create = []" by (simp_all add: al_ul_create_def)
  from al_insert_take [OF inv(1), of 0 5] inv(2) show ?thesis by fastforce
qed

end
