(* ===== verification/Htable.thy ===== *)
theory Htable
  imports Container_Specs
begin

text \<open>
  The chained hash tables of \<^verbatim>\<open>include/data-struct/htable.h\<close>, the macros behind
  \<^verbatim>\<open>dict_ul_ul\<close>, \<^verbatim>\<open>dict_ul_int\<close>, \<^verbatim>\<open>dict_ul_d\<close>, \<^verbatim>\<open>dict_ul_node\<close> and
  \<^verbatim>\<open>dict_ul_rel\<close>. The bucket array is a list of chains: the first entry of a chain is the one
  stored in the array itself, the empty chain is a bucket whose \<^verbatim>\<open>is_used\<close> flag is unset. Chains
  are never shared, so a chain is a list. The key and value copy callbacks are \<^verbatim>\<open>NULL\<close> in every
  instance. The seed is the value \<^verbatim>\<open>rand()\<close> returned, an argument of the constructor.
\<close>

section \<open>The struct\<close>

type_synonym ('k, 'v) chain = "('k \<times> 'v) list"

record ('k, 'v) htable =
  ht_hash_fn :: "'k \<Rightarrow> nat \<Rightarrow> nat"
  ht_keq :: "'k \<Rightarrow> 'k \<Rightarrow> bool"
  ht_buckets :: "('k, 'v) chain list"
  ht_num_buckets :: nat
  ht_num_used :: nat
  ht_seed :: nat

definition BUCKET_START :: nat where
  "BUCKET_START = 8"

definition TOO_MANY_BUCKETS_BITS :: nat where
  "TOO_MANY_BUCKETS_BITS = 31"

text \<open>
  \<^verbatim>\<open>(size_t)(num_buckets * REHASH_FILLING_RATIO)\<close>. The float \<^verbatim>\<open>0.6F\<close> is
  \<open>10066330 / 2 ^ 24\<close>; the number of buckets is a power of two, so the product is exact.
\<close>

definition rehash_limit :: "nat \<Rightarrow> nat" where
  "rehash_limit n = n * 10066330 div 2 ^ 24"

definition ht_create :: "('k \<Rightarrow> nat \<Rightarrow> nat) \<Rightarrow> ('k \<Rightarrow> 'k \<Rightarrow> bool) \<Rightarrow> nat \<Rightarrow> ('k, 'v) htable" where
  "ht_create hash eq seed = \<lparr>ht_hash_fn = hash, ht_keq = eq, ht_buckets = replicate BUCKET_START [],
     ht_num_buckets = BUCKET_START, ht_num_used = 0, ht_seed = seed\<rparr>"

definition d_ul_ul_create :: "nat \<Rightarrow> (ulong, 'v) htable" where
  "d_ul_ul_create seed = ht_create fnv_hash_ul unsigned_long_eq seed"

definition ht_size :: "('k, 'v) htable \<Rightarrow> nat" where
  "ht_size ht = ht_num_used ht"

definition bucket_idx :: "('k, 'v) htable \<Rightarrow> 'k \<Rightarrow> nat" where
  "bucket_idx ht key = (if ht_num_buckets ht > 0
     then ht_hash_fn ht key (ht_seed ht) mod ht_num_buckets ht
     else ht_hash_fn ht key (ht_seed ht))"

text \<open>An access to \<^verbatim>\<open>ht->buckets[idx]\<close> is valid inside the array only.\<close>

definition bucket_at :: "('k, 'v) htable \<Rightarrow> nat \<Rightarrow> ('k, 'v) chain option" where
  "bucket_at ht idx = (if idx < length (ht_buckets ht) then Some (ht_buckets ht ! idx) else None)"

section \<open>The operations\<close>

text \<open>
  The walk of \<^verbatim>\<open>HTABLE_ADD_TO_BUCKETS\<close> along a chain: the value of an equal key is overwritten,
  otherwise an entry is added at the end. The flag says whether an entry was added.
\<close>

fun chain_put :: "('k \<Rightarrow> 'k \<Rightarrow> bool) \<Rightarrow> 'k \<Rightarrow> 'v \<Rightarrow> ('k, 'v) chain \<Rightarrow> bool \<times> ('k, 'v) chain" where
  "chain_put eq key val [] = (True, [(key, val)])"
| "chain_put eq key val ((k, v) # c) =
    (if eq key k then (False, (k, val) # c)
     else let (added, c') = chain_put eq key val c in (added, (k, v) # c'))"

definition add_to_bucket :: "('k, 'v) htable \<Rightarrow> 'k \<Rightarrow> 'v \<Rightarrow> bool \<Rightarrow> ('k, 'v) htable option" where
  "add_to_bucket ht key val rehash = do {
     let idx = bucket_idx ht key;
     c \<leftarrow> bucket_at ht idx;
     let (added, c') = chain_put (ht_keq ht) key val c;
     Some (ht\<lparr>ht_buckets := (ht_buckets ht)[idx := c'],
       ht_num_used := (if added \<and> \<not> rehash then ht_num_used ht + 1 else ht_num_used ht)\<rparr>) }"

text \<open>\<^verbatim>\<open>HTABLE_REHASH\<close>: the guard, and the move of every entry into an array of twice the size.\<close>

definition ht_grow :: "('k, 'v) htable \<Rightarrow> ('k, 'v) htable option" where
  "ht_grow ht = for_each (\<lambda>ht (k, v). add_to_bucket ht k v True)
     (ht\<lparr>ht_num_buckets := 2 * ht_num_buckets ht,
         ht_buckets := replicate (2 * ht_num_buckets ht) []\<rparr>)
     (concat (ht_buckets ht))"

definition ht_rehash :: "('k, 'v) htable \<Rightarrow> ('k, 'v) htable option" where
  "ht_rehash ht =
    (if ht_num_used ht + 1 < rehash_limit (ht_num_buckets ht)
        \<or> ht_num_buckets ht \<ge> 2 ^ TOO_MANY_BUCKETS_BITS
     then Some ht else ht_grow ht)"

definition ht_insert :: "('k, 'v) htable \<Rightarrow> 'k \<Rightarrow> 'v \<Rightarrow> ('k, 'v) htable option" where
  "ht_insert ht key val = do { ht \<leftarrow> ht_rehash ht; add_to_bucket ht key val False }"

fun chain_remove :: "('k \<Rightarrow> 'k \<Rightarrow> bool) \<Rightarrow> 'k \<Rightarrow> ('k, 'v) chain \<Rightarrow> ('k, 'v) chain option" where
  "chain_remove eq key [] = None"
| "chain_remove eq key ((k, v) # c) =
    (if eq k key then Some c else do { c' \<leftarrow> chain_remove eq key c; Some ((k, v) # c') })"

definition ht_remove :: "('k, 'v) htable \<Rightarrow> 'k \<Rightarrow> ('k, 'v) htable option" where
  "ht_remove ht key = do {
     let idx = bucket_idx ht key;
     c \<leftarrow> bucket_at ht idx;
     c' \<leftarrow> chain_remove (ht_keq ht) key c;
     Some (ht\<lparr>ht_buckets := (ht_buckets ht)[idx := c'], ht_num_used := ht_num_used ht - 1\<rparr>) }"

fun chain_get :: "('k \<Rightarrow> 'k \<Rightarrow> bool) \<Rightarrow> 'k \<Rightarrow> ('k, 'v) chain \<Rightarrow> 'v option" where
  "chain_get eq key [] = None"
| "chain_get eq key ((k, v) # c) = (if eq k key then Some v else chain_get eq key c)"

text \<open>\<^verbatim>\<open>HTABLE_GET\<close>: \<open>Some None\<close> is the return value \<open>-1\<close>.\<close>

definition ht_get :: "('k, 'v) htable \<Rightarrow> 'k \<Rightarrow> 'v option option" where
  "ht_get ht key = do {
     c \<leftarrow> bucket_at ht (bucket_idx ht key);
     Some (chain_get (ht_keq ht) key c) }"

definition ht_get_direct :: "('k, 'v) htable \<Rightarrow> 'k \<Rightarrow> 'v option" where
  "ht_get_direct ht key = do { r \<leftarrow> ht_get ht key; r }"

definition ht_contains :: "('k, 'v) htable \<Rightarrow> 'k \<Rightarrow> bool option" where
  "ht_contains ht key = do { r \<leftarrow> ht_get ht key; Some (r \<noteq> None) }"

text \<open>
  The iterator: \<open>it_cur\<close> is the rest of the chain at \<^verbatim>\<open>hi->cur\<close> (\<open>[]\<close> for \<^verbatim>\<open>NULL\<close>),
  \<open>it_idx\<close> the next bucket to visit.
\<close>

record ('k, 'v) ht_iterator =
  it_cur :: "('k, 'v) chain"
  it_idx :: nat

definition ht_iterator_create :: "('k, 'v) htable \<Rightarrow> ('k, 'v) ht_iterator" where
  "ht_iterator_create ht = \<lparr>it_cur = [], it_idx = 0\<rparr>"

function next_used :: "('k, 'v) htable \<Rightarrow> nat \<Rightarrow> nat" where
  "next_used ht idx =
    (if idx < ht_num_buckets ht \<and> ht_buckets ht ! idx = [] then next_used ht (idx + 1) else idx)"
  by pat_completeness auto
termination
  by (relation "measure (\<lambda>(ht, idx). ht_num_buckets ht - idx)") auto

declare next_used.simps [simp del]

definition ht_iterator_next ::
    "('k, 'v) htable \<Rightarrow> ('k, 'v) ht_iterator \<Rightarrow> (('k \<times> 'v) \<times> ('k, 'v) ht_iterator) option" where
  "ht_iterator_next ht hi =
    (let hi = (if it_cur hi = [] then
         let idx = next_used ht (it_idx hi) in
         if idx \<ge> ht_num_buckets ht then hi\<lparr>it_idx := idx\<rparr>
         else hi\<lparr>it_cur := ht_buckets ht ! idx, it_idx := idx + 1\<rparr> else hi)
     in case it_cur hi of [] \<Rightarrow> None | e # c \<Rightarrow> Some (e, hi\<lparr>it_cur := c\<rparr>))"


section \<open>Well-formed tables and their maps\<close>

text \<open>
  \<open>ht_ok\<close> is the shape of the bucket array: every entry lies in the bucket of its key, no key
  occurs twice, and the number of buckets is a power of two. \<open>ht_inv\<close> adds that
  \<^verbatim>\<open>num_used\<close> is the number of entries.
\<close>

definition ht_ok :: "('k, 'v) htable \<Rightarrow> bool" where
  "ht_ok ht \<longleftrightarrow> (\<forall>a b. ht_keq ht a b \<longleftrightarrow> a = b) \<and> ht_num_buckets ht = length (ht_buckets ht) \<and>
     (\<exists>n. length (ht_buckets ht) = 2 ^ n) \<and>
     (\<forall>i < length (ht_buckets ht). distinct (map fst (ht_buckets ht ! i)) \<and>
        (\<forall>k \<in> fst ` set (ht_buckets ht ! i). bucket_idx ht k = i))"

definition ht_entries :: "('k, 'v) htable \<Rightarrow> ('k \<times> 'v) list" where
  "ht_entries ht = concat (ht_buckets ht)"

definition ht_inv :: "('k, 'v) htable \<Rightarrow> bool" where
  "ht_inv ht \<longleftrightarrow> ht_ok ht \<and> ht_num_used ht = length (ht_entries ht)"

definition ht_map :: "('k, 'v) htable \<Rightarrow> 'k \<rightharpoonup> 'v" where
  "ht_map ht key = map_of (ht_buckets ht ! bucket_idx ht key) key"

lemma keq_eq: "ht_ok ht \<Longrightarrow> ht_keq ht = (=)"
  by (auto simp: ht_ok_def fun_eq_iff)

lemma ht_ok_buckets: "ht_ok ht \<Longrightarrow> 0 < length (ht_buckets ht)"
  by (auto simp: ht_ok_def)

lemma bucket_idx_less:
  assumes "ht_ok ht"
  shows "bucket_idx ht k < length (ht_buckets ht)"
proof -
  have "ht_num_buckets ht = length (ht_buckets ht)" using assms by (simp add: ht_ok_def)
  then show ?thesis using ht_ok_buckets [OF assms] by (simp add: bucket_idx_def)
qed

lemma bucket_at_ok: "ht_ok ht \<Longrightarrow> bucket_at ht (bucket_idx ht k) = Some (ht_buckets ht ! bucket_idx ht k)"
  by (simp add: bucket_at_def bucket_idx_less)

lemma chain_get_eq: "chain_get (=) k c = map_of c k"
  by (induction c) (auto split: prod.splits)

lemma chain_put_spec:
  assumes "distinct (map fst c)"
  shows "map_of (snd (chain_put (=) k v c)) = (map_of c)(k \<mapsto> v)"
    "fst (chain_put (=) k v c) = (k \<notin> fst ` set c)"
    "map fst (snd (chain_put (=) k v c)) = (if k \<in> fst ` set c then map fst c else map fst c @ [k])"
  using assms
proof (induction c)
  case (Cons e c)
  obtain k0 v0 where e: "e = (k0, v0)" by (cases e)
  obtain b c' where p: "chain_put (=) k v c = (b, c')" by (cases "chain_put (=) k v c")
  case 1
  with Cons e p show ?case by (auto simp: fun_eq_iff)
  case 2
  with Cons e p show ?case by auto
  case 3
  with Cons e p show ?case by auto
qed auto

lemma chain_remove_spec:
  assumes "distinct (map fst c)" "k \<in> fst ` set c"
  shows "\<exists>c'. chain_remove (=) k c = Some c' \<and> map_of c' = (map_of c)(k := None) \<and>
    distinct (map fst c') \<and> fst ` set c' = fst ` set c - {k} \<and> length c = Suc (length c')"
  using assms
proof (induction c)
  case (Cons e c)
  obtain k0 v0 where e: "e = (k0, v0)" by (cases e)
  show ?case
  proof (cases "k0 = k")
    case True
    then have "k \<notin> fst ` set c" using Cons.prems e by auto
    then have "map_of c k = None" by (simp add: map_of_eq_None_iff)
    then have "(map_of (e # c))(k := None) = map_of c" using True e by (auto simp: fun_eq_iff)
    with True Cons.prems e \<open>k \<notin> fst ` set c\<close> show ?thesis by (auto simp del: map_of.simps)
  next
    case False
    then have k: "k \<in> fst ` set c" using Cons.prems e by auto
    have "distinct (map fst c)" using Cons.prems(1) by simp
    then obtain c' where c': "chain_remove (=) k c = Some c'" "map_of c' = (map_of c)(k := None)"
      "distinct (map fst c')" "fst ` set c' = fst ` set c - {k}" "length c = Suc (length c')"
      using Cons.IH [OF _ k] by blast
    have "k0 \<notin> fst ` set c'" using c'(4) Cons.prems e by auto
    with c' False e show ?thesis by (auto simp: fun_eq_iff)
  qed
qed simp

lemma chain_remove_None: "k \<notin> fst ` set c \<Longrightarrow> chain_remove (=) k c = None"
  by (induction c) auto

text \<open>The entries of all buckets together.\<close>

lemma distinct_concat_fst:
  assumes "\<And>i. i < length bs \<Longrightarrow> distinct (map fst (bs ! i)) \<and> (\<forall>k \<in> fst ` set (bs ! i). h k = i + m)"
  shows "distinct (map fst (concat bs))"
  using assms
proof (induction bs arbitrary: m)
  case (Cons b bs)
  have b: "distinct (map fst b)" "\<forall>k \<in> fst ` set b. h k = m" using Cons.prems [of 0] by auto
  have "distinct (map fst (concat bs))"
    using Cons.prems [of "Suc _"] by (intro Cons.IH [of "Suc m"]) auto
  moreover have "h k \<noteq> m" if k: "k \<in> fst ` set (concat bs)" for k
  proof -
    obtain b' where "b' \<in> set bs" "k \<in> fst ` set b'" using k by auto
    then obtain i where "i < length bs" "k \<in> fst ` set (bs ! i)" by (metis in_set_conv_nth)
    then show ?thesis using Cons.prems [of "Suc i"] by auto
  qed
  ultimately show ?case using b by (auto simp: image_Un)
qed simp

lemma entries_distinct: "ht_ok ht \<Longrightarrow> distinct (map fst (ht_entries ht))"
  unfolding ht_entries_def
  by (rule distinct_concat_fst [where h = "bucket_idx ht" and m = 0]) (auto simp: ht_ok_def)

lemma entries_map: "ht_ok ht \<Longrightarrow> map_of (ht_entries ht) = ht_map ht"
proof
  fix k assume ok: "ht_ok ht"
  have mem: "(k, v) \<in> set (ht_entries ht) \<longleftrightarrow> (k, v) \<in> set (ht_buckets ht ! bucket_idx ht k)" for v
  proof
    assume "(k, v) \<in> set (ht_entries ht)"
    then obtain b where "b \<in> set (ht_buckets ht)" "(k, v) \<in> set b"
      by (auto simp: ht_entries_def)
    then obtain i where i: "i < length (ht_buckets ht)" "(k, v) \<in> set (ht_buckets ht ! i)"
      by (metis in_set_conv_nth)
    then have "bucket_idx ht k = i" using ok by (force simp: ht_ok_def)
    with i show "(k, v) \<in> set (ht_buckets ht ! bucket_idx ht k)" by simp
  next
    assume "(k, v) \<in> set (ht_buckets ht ! bucket_idx ht k)"
    then show "(k, v) \<in> set (ht_entries ht)"
      using bucket_idx_less [OF ok, of k] by (auto simp: ht_entries_def)
  qed
  have "distinct (map fst (ht_buckets ht ! bucket_idx ht k))"
    using ok bucket_idx_less [OF ok, of k] by (simp add: ht_ok_def)
  then have "map_of (ht_entries ht) k = Some v \<longleftrightarrow> ht_map ht k = Some v" for v
    using mem entries_distinct [OF ok] by (simp add: ht_map_def)
  then show "map_of (ht_entries ht) k = ht_map ht k" by (metis not_Some_eq)
qed

lemma ht_entries_dom: "ht_ok ht \<Longrightarrow> dom (ht_map ht) = fst ` set (ht_entries ht)"
  by (simp add: entries_map [symmetric] dom_map_of_conv_image_fst)


section \<open>Correctness of the operations\<close>

definition same_cfg :: "('k, 'v) htable \<Rightarrow> ('k, 'v) htable \<Rightarrow> bool" where
  "same_cfg ht ht' \<longleftrightarrow> ht_hash_fn ht' = ht_hash_fn ht \<and> ht_keq ht' = ht_keq ht \<and> ht_seed ht' = ht_seed ht"

text \<open>Replacing the chain in the bucket of \<open>k\<close>, where the new chain differs in \<open>k\<close> only.\<close>

lemma replace_chain:
  fixes n :: nat and ht :: "('k, 'v) htable"
  assumes ok: "ht_ok ht" and d: "distinct (map fst c')"
    and keys: "fst ` set c' \<subseteq> insert k (fst ` set (ht_buckets ht ! bucket_idx ht k))"
    and m: "map_of c' = (map_of (ht_buckets ht ! bucket_idx ht k))(k := r)"
    and ht'_def: "ht' = ht\<lparr>ht_buckets := (ht_buckets ht)[bucket_idx ht k := c'], ht_num_used := n\<rparr>"
  shows "ht_ok ht'" "ht_map ht' = (ht_map ht)(k := r)" "same_cfg ht ht'"
    "length (ht_entries ht') + length (ht_buckets ht ! bucket_idx ht k) =
      length (ht_entries ht) + length c'"
proof -
  have idx: "bucket_idx ht' = bucket_idx ht" by (simp add: ht'_def bucket_idx_def fun_eq_iff)
  note less = bucket_idx_less [OF ok]
  have keys': "bucket_idx ht k' = bucket_idx ht k" if "k' \<in> fst ` set c'" for k'
  proof -
    from that keys have "k' = k \<or> k' \<in> fst ` set (ht_buckets ht ! bucket_idx ht k)" by blast
    then show ?thesis using ok less [of k] unfolding ht_ok_def by metis
  qed
  have "distinct (map fst (ht_buckets ht' ! i)) \<and> (\<forall>k \<in> fst ` set (ht_buckets ht' ! i). bucket_idx ht k = i)"
    if "i < length (ht_buckets ht')" for i
    using that ok d keys' by (cases "i = bucket_idx ht k") (auto simp: ht'_def ht_ok_def)
  then show "ht_ok ht'"
    using ok unfolding ht_ok_def idx by (simp add: ht'_def)
  show "ht_map ht' = (ht_map ht)(k := r)"
  proof
    fix k'
    have b: "ht_buckets ht' = (ht_buckets ht)[bucket_idx ht k := c']" by (simp add: ht'_def)
    show "ht_map ht' k' = ((ht_map ht)(k := r)) k'"
      unfolding ht_map_def idx b
      using m less [of k] by (cases "bucket_idx ht k' = bucket_idx ht k") (auto simp: ht_map_def)
  qed
  show "same_cfg ht ht'" by (simp add: same_cfg_def ht'_def)
  have "ht_buckets ht = take (bucket_idx ht k) (ht_buckets ht) @ ht_buckets ht ! bucket_idx ht k
      # drop (Suc (bucket_idx ht k)) (ht_buckets ht)"
    using less [of k] by (simp add: take_drop_Suc_nth)
  then have "length (ht_entries ht) = length (concat (take (bucket_idx ht k) (ht_buckets ht)))
      + length (ht_buckets ht ! bucket_idx ht k)
      + length (concat (drop (Suc (bucket_idx ht k)) (ht_buckets ht)))"
    unfolding ht_entries_def by (metis (no_types) append.assoc concat.simps(2) concat_append length_append)
  then show "length (ht_entries ht') + length (ht_buckets ht ! bucket_idx ht k) =
      length (ht_entries ht) + length c'"
    using less [of k] by (simp add: ht'_def ht_entries_def upd_conv_take_nth_drop)
qed

lemma add_to_bucket_ok:
  assumes ok: "ht_ok ht"
  shows "\<exists>ht'. add_to_bucket ht k v r = Some ht' \<and> ht_ok ht' \<and> ht_map ht' = (ht_map ht)(k \<mapsto> v) \<and>
    same_cfg ht ht' \<and>
    length (ht_entries ht') = length (ht_entries ht) + (if k \<in> dom (ht_map ht) then 0 else 1) \<and>
    ht_num_used ht' = ht_num_used ht + (if k \<in> dom (ht_map ht) \<or> r then 0 else 1)"
proof -
  let ?c = "ht_buckets ht ! bucket_idx ht k"
  have d: "distinct (map fst ?c)" using ok bucket_idx_less [OF ok, of k] by (simp add: ht_ok_def)
  obtain b c' where p: "chain_put (=) k v ?c = (b, c')" by (cases "chain_put (=) k v ?c")
  note put = chain_put_spec [OF d, of k v, unfolded p fst_conv snd_conv]
  have dom: "k \<in> dom (ht_map ht) \<longleftrightarrow> k \<in> fst ` set ?c"
    by (simp add: ht_map_def domIff map_of_eq_None_iff)
  have len: "length c' = length ?c + (if k \<in> fst ` set ?c then 0 else 1)"
    using arg_cong [OF put(3), of length] by auto
  have fstc: "fst ` set c' \<subseteq> insert k (fst ` set ?c)"
    using arg_cong [OF put(3), of set] by (auto split: if_splits)
  have dc: "distinct (map fst c')" using put(3) d by (auto split: if_splits)
  let ?n = "if b \<and> \<not> r then ht_num_used ht + 1 else ht_num_used ht"
  let ?ht' = "ht\<lparr>ht_buckets := (ht_buckets ht)[bucket_idx ht k := c'], ht_num_used := ?n\<rparr>"
  have "add_to_bucket ht k v r = Some ?ht'"
    by (simp add: add_to_bucket_def bucket_at_ok [OF ok] keq_eq [OF ok] p)
  moreover note replace_chain [OF ok dc fstc put(1) refl, of ?n]
  moreover have "ht_num_used ?ht' = ht_num_used ht + (if k \<in> dom (ht_map ht) \<or> r then 0 else 1)"
    using put(2) dom by simp
  ultimately show ?thesis using len dom by (intro exI [of _ ?ht']) simp
qed

lemma ht_get_eq: "ht_ok ht \<Longrightarrow> ht_get ht k = Some (ht_map ht k)"
  by (simp add: ht_get_def bucket_at_ok keq_eq chain_get_eq ht_map_def)

lemma rehash_loop:
  assumes "ht_ok ht" "distinct (map fst es)" "fst ` set es \<inter> dom (ht_map ht) = {}"
  shows "\<exists>ht'. for_each (\<lambda>ht (k, v). add_to_bucket ht k v True) ht es = Some ht' \<and> ht_ok ht' \<and>
    ht_map ht' = ht_map ht ++ map_of es \<and> same_cfg ht ht' \<and>
    length (ht_entries ht') = length (ht_entries ht) + length es \<and> ht_num_used ht' = ht_num_used ht"
  using assms
proof (induction es arbitrary: ht)
  case Nil
  then show ?case by (simp add: same_cfg_def)
next
  case (Cons e es)
  obtain k v where e: "e = (k, v)" by (cases e)
  have k: "k \<notin> dom (ht_map ht)" using Cons.prems(3) e by auto
  obtain ht1 where h1: "add_to_bucket ht k v True = Some ht1" "ht_ok ht1"
    "ht_map ht1 = (ht_map ht)(k \<mapsto> v)" "same_cfg ht ht1"
    "length (ht_entries ht1) = length (ht_entries ht) + 1" "ht_num_used ht1 = ht_num_used ht"
    using add_to_bucket_ok [OF Cons.prems(1), of k v True] k by auto
  have "fst ` set es \<inter> dom (ht_map ht1) = {}" using Cons.prems(2,3) e h1(3) by auto
  then obtain ht2 where h2: "for_each (\<lambda>ht (k, v). add_to_bucket ht k v True) ht1 es = Some ht2"
    "ht_ok ht2" "ht_map ht2 = ht_map ht1 ++ map_of es" "same_cfg ht1 ht2"
    "length (ht_entries ht2) = length (ht_entries ht1) + length es" "ht_num_used ht2 = ht_num_used ht1"
    using Cons.IH [OF h1(2)] Cons.prems(2) by auto
  have "k \<notin> dom (map_of es)" using Cons.prems(2) e by (auto simp: dom_map_of_conv_image_fst)
  then have "ht_map ht2 = ht_map ht ++ map_of (e # es)"
    using h2(3) h1(3) e by (simp add: map_add_upd_left)
  then show ?case using h1 h2 e by (auto simp: same_cfg_def simp del: map_of.simps)
qed

lemma ht_grow_core:
  assumes ok: "ht_ok ht"
  shows "\<exists>ht'. ht_grow ht = Some ht' \<and> ht_ok ht' \<and> ht_map ht' = ht_map ht \<and> same_cfg ht ht' \<and>
    length (ht_entries ht') = length (ht_entries ht) \<and> ht_num_used ht' = ht_num_used ht"
proof -
  let ?ht0 = "ht\<lparr>ht_num_buckets := 2 * ht_num_buckets ht,
    ht_buckets := replicate (2 * ht_num_buckets ht) []\<rparr>"
  obtain n where "ht_num_buckets ht = 2 ^ n" using ok unfolding ht_ok_def by metis
  then have "2 * ht_num_buckets ht = 2 ^ Suc n" by simp
  then have "\<exists>n. 2 * ht_num_buckets ht = 2 ^ n" ..
  then have ok0: "ht_ok ?ht0" using ok by (simp add: ht_ok_def)
  have map0: "ht_map ?ht0 = Map.empty"
    using bucket_idx_less [OF ok0] by (auto simp: ht_map_def fun_eq_iff)
  have ent0: "ht_entries ?ht0 = []" by (simp add: ht_entries_def)
  obtain ht' where h: "for_each (\<lambda>ht (k, v). add_to_bucket ht k v True) ?ht0 (ht_entries ht) = Some ht'"
    "ht_ok ht'" "ht_map ht' = map_of (ht_entries ht)" "same_cfg ?ht0 ht'"
    "length (ht_entries ht') = length (ht_entries ht)" "ht_num_used ht' = ht_num_used ht"
    using rehash_loop [OF ok0 entries_distinct [OF ok]] map0 ent0 by auto
  then have "ht_grow ht = Some ht'" by (simp add: ht_grow_def ht_entries_def)
  moreover have "same_cfg ht ht'" using h(4) by (simp add: same_cfg_def)
  ultimately show ?thesis using h entries_map [OF ok] by simp
qed

lemma ht_grow_ok:
  "ht_inv ht \<Longrightarrow> \<exists>ht'. ht_grow ht = Some ht' \<and> ht_inv ht' \<and> ht_map ht' = ht_map ht \<and> same_cfg ht ht'"
  using ht_grow_core [of ht] by (auto simp: ht_inv_def)

lemma ht_rehash_ok:
  "ht_inv ht \<Longrightarrow> \<exists>ht'. ht_rehash ht = Some ht' \<and> ht_inv ht' \<and> ht_map ht' = ht_map ht \<and> same_cfg ht ht'"
  using ht_grow_ok [of ht] by (auto simp: ht_rehash_def same_cfg_def)

lemma add_new_ok:
  assumes "ht_inv ht"
  shows "\<exists>ht'. add_to_bucket ht k v False = Some ht' \<and> ht_inv ht' \<and>
    ht_map ht' = (ht_map ht)(k \<mapsto> v) \<and> same_cfg ht ht'"
  using add_to_bucket_ok [of ht k v False] assms by (auto simp: ht_inv_def)

lemma ht_insert_ok:
  assumes "ht_inv ht"
  shows "\<exists>ht'. ht_insert ht k v = Some ht' \<and> ht_inv ht' \<and> ht_map ht' = (ht_map ht)(k \<mapsto> v) \<and>
    same_cfg ht ht'"
proof -
  obtain h1 where h1: "ht_rehash ht = Some h1" "ht_inv h1" "ht_map h1 = ht_map ht" "same_cfg ht h1"
    using ht_rehash_ok [OF assms] by blast
  moreover obtain h2 where "add_to_bucket h1 k v False = Some h2" "ht_inv h2"
    "ht_map h2 = (ht_map h1)(k \<mapsto> v)" "same_cfg h1 h2"
    using add_new_ok [OF h1(2)] by blast
  ultimately show ?thesis by (auto simp: ht_insert_def same_cfg_def)
qed

lemma dom_bucket: "k \<in> dom (ht_map ht) \<longleftrightarrow> k \<in> fst ` set (ht_buckets ht ! bucket_idx ht k)"
  by (simp add: ht_map_def domIff map_of_eq_None_iff)

lemma ht_remove_core:
  assumes ok: "ht_ok ht" and k: "k \<in> dom (ht_map ht)"
  shows "\<exists>ht'. ht_remove ht k = Some ht' \<and> ht_ok ht' \<and> ht_map ht' = (ht_map ht)(k := None) \<and>
    same_cfg ht ht' \<and> length (ht_entries ht) = Suc (length (ht_entries ht')) \<and>
    ht_num_used ht' = ht_num_used ht - 1"
proof -
  let ?c = "ht_buckets ht ! bucket_idx ht k"
  have d: "distinct (map fst ?c)" using ok bucket_idx_less [OF ok, of k] by (simp add: ht_ok_def)
  have kc: "k \<in> fst ` set ?c" using k by (simp add: dom_bucket)
  obtain c' where c': "chain_remove (=) k ?c = Some c'" "map_of c' = (map_of ?c)(k := None)"
    "distinct (map fst c')" "fst ` set c' = fst ` set ?c - {k}" "length ?c = Suc (length c')"
    using chain_remove_spec [OF d kc] by blast
  let ?n = "ht_num_used ht - 1"
  let ?ht' = "ht\<lparr>ht_buckets := (ht_buckets ht)[bucket_idx ht k := c'], ht_num_used := ?n\<rparr>"
  have sub: "fst ` set c' \<subseteq> insert k (fst ` set ?c)" using c'(4) by auto
  have "ht_remove ht k = Some ?ht'"
    by (simp add: ht_remove_def bucket_at_ok [OF ok] keq_eq [OF ok] c'(1))
  moreover note replace_chain [OF ok c'(3) sub c'(2) refl, of ?n]
  ultimately show ?thesis
    using c'(5) by (intro exI [of _ ?ht']) simp
qed

lemma ht_remove_ok:
  "ht_inv ht \<Longrightarrow> k \<in> dom (ht_map ht) \<Longrightarrow>
    \<exists>ht'. ht_remove ht k = Some ht' \<and> ht_inv ht' \<and> ht_map ht' = (ht_map ht)(k := None) \<and> same_cfg ht ht'"
  using ht_remove_core [of ht k] by (auto simp: ht_inv_def)

lemma ht_remove_exit: "ht_ok ht \<Longrightarrow> k \<notin> dom (ht_map ht) \<Longrightarrow> ht_remove ht k = None"
  unfolding dom_bucket
  by (simp add: ht_remove_def bucket_at_ok keq_eq chain_remove_None)

lemma ht_create_ok: "ht_inv (ht_create hash (=) seed)" "ht_map (ht_create hash (=) seed) = Map.empty"
proof -
  have "(8::nat) = 2 ^ 3" by simp
  then have "\<exists>n. (8::nat) = 2 ^ n" by metis
  then show "ht_inv (ht_create hash (=) seed)"
    by (auto simp: ht_create_def ht_inv_def ht_ok_def ht_entries_def BUCKET_START_def)
  show "ht_map (ht_create hash (=) seed) = Map.empty"
    by (auto simp: ht_map_def ht_create_def bucket_idx_def BUCKET_START_def fun_eq_iff)
qed

lemma d_ul_ul_create_ok: "ht_inv (d_ul_ul_create seed)" "ht_map (d_ul_ul_create seed) = Map.empty"
proof -
  have "unsigned_long_eq = (=)" by (simp add: fun_eq_iff unsigned_long_eq_def)
  then show "ht_inv (d_ul_ul_create seed)" "ht_map (d_ul_ul_create seed) = Map.empty"
    by (simp_all add: d_ul_ul_create_def ht_create_ok)
qed

lemma ht_size_eq: "ht_inv ht \<Longrightarrow> ht_size ht = card (dom (ht_map ht))"
proof -
  assume inv: "ht_inv ht"
  then have ok: "ht_ok ht" by (simp add: ht_inv_def)
  have "card (dom (ht_map ht)) = card (set (map fst (ht_entries ht)))" by (simp add: ht_entries_dom [OF ok])
  also have "\<dots> = length (ht_entries ht)" by (simp only: distinct_card [OF entries_distinct [OF ok]] length_map)
  finally show ?thesis using inv by (simp add: ht_size_def ht_inv_def)
qed

interpretation htable: dict ht_inv ht_map ht_size ht_insert ht_remove ht_get ht_entries
proof unfold_locales
  fix d :: "('k, 'v) htable" and k v
  assume inv: "ht_inv d"
  then have ok: "ht_ok d" by (simp add: ht_inv_def)
  show "ht_size d = card (dom (ht_map d))" by (rule ht_size_eq [OF inv])
  show "ht_get d k = Some (ht_map d k)" by (rule ht_get_eq [OF ok])
  show "\<exists>d'. ht_insert d k v = Some d' \<and> ht_inv d' \<and> ht_map d' = (ht_map d)(k \<mapsto> v)"
    using ht_insert_ok [OF inv, of k v] by blast
  show "\<exists>d'. ht_remove d k = Some d' \<and> ht_inv d' \<and> ht_map d' = (ht_map d)(k := None)"
    if "k \<in> dom (ht_map d)"
    using ht_remove_ok [OF inv that] by blast
  show "ht_remove d k = None" if "k \<notin> dom (ht_map d)"
    using ht_remove_exit [OF ok that] .
  show "map_of (ht_entries d) = ht_map d \<and> distinct (map fst (ht_entries d))"
    using entries_map [OF ok] entries_distinct [OF ok] by simp
qed

section \<open>The iterator\<close>

text \<open>
  The loop \<^verbatim>\<open>while (iterator_next(it, &k, &v) > -1)\<close> of the clients: the list of entries it sees.
\<close>

function ht_drain :: "('k, 'v) htable \<Rightarrow> ('k, 'v) ht_iterator \<Rightarrow> ('k \<times> 'v) list" where
  "ht_drain ht hi = (case ht_iterator_next ht hi of None \<Rightarrow> [] | Some (e, hi') \<Rightarrow> e # ht_drain ht hi')"
  by pat_completeness auto

lemma next_used_ge: "idx \<le> next_used ht idx"
proof (induction ht idx rule: next_used.induct)
  case (1 ht idx)
  then show ?case by (subst next_used.simps) auto
qed

termination ht_drain
proof (relation "measures [\<lambda>(ht, hi). ht_num_buckets ht - it_idx hi, \<lambda>(ht, hi). length (it_cur hi)]")
  fix ht :: "('k, 'v) htable" and hi hi' and p :: "('k \<times> 'v) \<times> ('k, 'v) ht_iterator" and e
  assume "ht_iterator_next ht hi = Some p" "(e, hi') = p"
  then have "ht_iterator_next ht hi = Some (e, hi')" by simp
  then show "((ht, hi'), ht, hi) \<in> measures [\<lambda>(ht, hi). ht_num_buckets ht - it_idx hi, \<lambda>(ht, hi). length (it_cur hi)]"
    using next_used_ge [of "it_idx hi" ht]
    by (auto simp: ht_iterator_next_def Let_def split: if_splits list.splits)
qed simp

declare ht_drain.simps [simp del]

lemma next_used_concat:
  assumes "ht_num_buckets ht = length (ht_buckets ht)"
  shows "concat (drop idx (ht_buckets ht)) = (let j = next_used ht idx in
    if j < ht_num_buckets ht then ht_buckets ht ! j @ concat (drop (Suc j) (ht_buckets ht)) else [])"
    "next_used ht idx < ht_num_buckets ht \<Longrightarrow> ht_buckets ht ! next_used ht idx \<noteq> []"
  using assms
proof (induction ht idx rule: next_used.induct)
  case (1 ht idx)
  case 1
  show ?case
  proof (cases "idx < ht_num_buckets ht \<and> ht_buckets ht ! idx = []")
    case True
    then have "concat (drop idx (ht_buckets ht)) = concat (drop (Suc idx) (ht_buckets ht))"
      using 1 by (simp add: Cons_nth_drop_Suc [symmetric])
    with True "1.IH"(1) [OF True 1] show ?thesis by (simp add: next_used.simps [of ht idx])
  next
    case False
    then show ?thesis
      using 1 by (auto simp: next_used.simps [of ht idx] Let_def Cons_nth_drop_Suc [symmetric])
  qed
  case 2
  then show ?case using "1.IH"(2) by (auto simp: next_used.simps [of ht idx] split: if_splits)
qed

lemma ht_drain_eq:
  assumes "ht_num_buckets ht = length (ht_buckets ht)"
  shows "ht_drain ht hi = it_cur hi @ concat (drop (it_idx hi) (ht_buckets ht))"
  using assms
proof (induction ht hi rule: ht_drain.induct)
  case (1 ht hi)
  show ?case
  proof (cases "it_cur hi")
    case (Cons e c)
    then have n: "ht_iterator_next ht hi = Some (e, hi\<lparr>it_cur := c\<rparr>)"
      by (simp add: ht_iterator_next_def)
    with "1.IH" [OF n refl "1.prems"] Cons show ?thesis by (simp add: ht_drain.simps [of ht hi])
  next
    case Nil
    let ?j = "next_used ht (it_idx hi)"
    show ?thesis
    proof (cases "?j < ht_num_buckets ht")
      case True
      then obtain e c where b: "ht_buckets ht ! ?j = e # c"
        using next_used_concat(2) [OF "1.prems"] by (meson list.exhaust)
      then have n: "ht_iterator_next ht hi = Some (e, hi\<lparr>it_cur := c, it_idx := ?j + 1\<rparr>)"
        using Nil True by (simp add: ht_iterator_next_def Let_def)
      from "1.IH" [OF n refl "1.prems"] show ?thesis
        using Nil b n True next_used_concat(1) [OF "1.prems", of "it_idx hi"]
        by (simp add: ht_drain.simps [of ht hi] Let_def)
    next
      case False
      then show ?thesis
        using Nil next_used_concat(1) [OF "1.prems", of "it_idx hi"]
        by (simp add: ht_drain.simps [of ht hi] ht_iterator_next_def Let_def)
    qed
  qed
qed

lemma ht_drain_entries: "ht_ok ht \<Longrightarrow> ht_drain ht (ht_iterator_create ht) = ht_entries ht"
  by (simp add: ht_drain_eq ht_ok_def ht_iterator_create_def ht_entries_def)

section \<open>Properties\<close>

text \<open>
  C11: The hash tables implement finite maps. A fresh table is empty, whatever the seed; insertion
  overwrites or adds one entry, also when it doubles and refills the bucket array first; removal of
  a present key deletes its entry and of an absent key ends the program; lookups, membership and
  size agree with the map; and the iterator meets every entry exactly once.
\<close>
theorem htable_implements_map:
  assumes "ht_inv ht"
  shows "(\<exists>ht'. ht_insert ht k v = Some ht' \<and> ht_inv ht' \<and> ht_map ht' = (ht_map ht)(k \<mapsto> v)) \<and>
    (if k \<in> dom (ht_map ht)
     then \<exists>ht'. ht_remove ht k = Some ht' \<and> ht_inv ht' \<and> ht_map ht' = (ht_map ht)(k := None)
     else ht_remove ht k = None) \<and>
    ht_get ht k = Some (ht_map ht k) \<and> ht_get_direct ht k = ht_map ht k \<and>
    ht_contains ht k = Some (k \<in> dom (ht_map ht)) \<and> ht_size ht = card (dom (ht_map ht)) \<and>
    distinct (map fst (ht_drain ht (ht_iterator_create ht))) \<and>
    map_of (ht_drain ht (ht_iterator_create ht)) = ht_map ht \<and>
    ht_map (d_ul_ul_create seed :: (ulong, ulong) htable) = Map.empty"
  using htable.insert_law [OF assms, of k v] htable.remove_law [OF assms, of k]
    htable.remove_exit [OF assms, of k] htable.get_law [OF assms, of k] htable.size_law [OF assms]
    htable.entries_law [OF assms] ht_drain_entries [of ht] assms d_ul_ul_create_ok(2) [of seed]
  by (auto simp: ht_get_direct_def ht_contains_def ht_inv_def)

theorem htable_implements_map_witness:
  "\<exists>ht' :: (ulong, ulong) htable. ht_insert (d_ul_ul_create 3) 10 20 = Some ht' \<and> ht_map ht' = [10 \<mapsto> 20]"
  using htable_implements_map [OF d_ul_ul_create_ok(1), of 3 10 "20 :: ulong" 0] d_ul_ul_create_ok(2) [of 3, where ?'b = ulong]
  by auto

end
