(* ===== verification/Set_Table.thy ===== *)
theory Set_Table
  imports Htable
begin

text \<open>
  The hash sets of \<^verbatim>\<open>include/data-struct/set.h\<close>, the macros behind \<^verbatim>\<open>set_ul\<close>. The code is the
  hash table of \<^verbatim>\<open>htable.h\<close> without values; the proofs reduce each operation to the one of
  \<open>Htable\<close> with values of type \<open>unit\<close>. The exception is \<^verbatim>\<open>SET_REMOVE\<close>, which
  decrements \<^verbatim>\<open>num_used\<close> only when the element is the first one of its bucket.
\<close>

section \<open>The struct and its operations\<close>

record 'a set_table =
  st_hash_fn :: "'a \<Rightarrow> nat \<Rightarrow> nat"
  st_eq :: "'a \<Rightarrow> 'a \<Rightarrow> bool"
  st_buckets :: "'a list list"
  st_num_buckets :: nat
  st_num_used :: nat
  st_seed :: nat

definition BUCKET_START_S :: nat where
  "BUCKET_START_S = 32"

definition TOO_MANY_BUCKETS_BITS_S :: nat where
  "TOO_MANY_BUCKETS_BITS_S = 31"

text \<open>\<^verbatim>\<open>(size_t)(num_buckets * REHASH_FILLING_RATIO_S)\<close>; the float \<^verbatim>\<open>0.8F\<close> is \<open>13421773 / 2 ^ 24\<close>.\<close>

definition st_rehash_limit :: "nat \<Rightarrow> nat" where
  "st_rehash_limit n = n * 13421773 div 2 ^ 24"

definition st_create :: "('a \<Rightarrow> nat \<Rightarrow> nat) \<Rightarrow> ('a \<Rightarrow> 'a \<Rightarrow> bool) \<Rightarrow> nat \<Rightarrow> 'a set_table" where
  "st_create hash eq seed = \<lparr>st_hash_fn = hash, st_eq = eq, st_buckets = replicate BUCKET_START_S [],
     st_num_buckets = BUCKET_START_S, st_num_used = 0, st_seed = seed\<rparr>"

definition s_ul_create :: "nat \<Rightarrow> ulong set_table" where
  "s_ul_create seed = st_create fnv_hash_ul unsigned_long_eq seed"

definition st_size :: "'a set_table \<Rightarrow> nat" where
  "st_size s = st_num_used s"

definition st_bucket_idx :: "'a set_table \<Rightarrow> 'a \<Rightarrow> nat" where
  "st_bucket_idx s x = (if st_num_buckets s > 0
     then st_hash_fn s x (st_seed s) mod st_num_buckets s
     else st_hash_fn s x (st_seed s))"

definition st_bucket_at :: "'a set_table \<Rightarrow> nat \<Rightarrow> 'a list option" where
  "st_bucket_at s idx = (if idx < length (st_buckets s) then Some (st_buckets s ! idx) else None)"

fun st_chain_put :: "('a \<Rightarrow> 'a \<Rightarrow> bool) \<Rightarrow> 'a \<Rightarrow> 'a list \<Rightarrow> bool \<times> 'a list" where
  "st_chain_put eq x [] = (True, [x])"
| "st_chain_put eq x (y # c) =
    (if eq x y then (False, y # c)
     else let (added, c') = st_chain_put eq x c in (added, y # c'))"

definition st_add_to_bucket :: "'a set_table \<Rightarrow> 'a \<Rightarrow> bool \<Rightarrow> 'a set_table option" where
  "st_add_to_bucket s x rehash = do {
     let idx = st_bucket_idx s x;
     c \<leftarrow> st_bucket_at s idx;
     let (added, c') = st_chain_put (st_eq s) x c;
     Some (s\<lparr>st_buckets := (st_buckets s)[idx := c'],
       st_num_used := (if added \<and> \<not> rehash then st_num_used s + 1 else st_num_used s)\<rparr>) }"

definition st_grow :: "'a set_table \<Rightarrow> 'a set_table option" where
  "st_grow s = for_each (\<lambda>s x. st_add_to_bucket s x True)
     (s\<lparr>st_num_buckets := 2 * st_num_buckets s,
        st_buckets := replicate (2 * st_num_buckets s) []\<rparr>)
     (concat (st_buckets s))"

definition st_rehash :: "'a set_table \<Rightarrow> 'a set_table option" where
  "st_rehash s =
    (if st_num_used s + 1 < st_rehash_limit (st_num_buckets s)
        \<or> st_num_buckets s \<ge> 2 ^ TOO_MANY_BUCKETS_BITS_S
     then Some s else st_grow s)"

definition st_insert :: "'a set_table \<Rightarrow> 'a \<Rightarrow> 'a set_table option" where
  "st_insert s x = do { s \<leftarrow> st_rehash s; st_add_to_bucket s x False }"

text \<open>The loop of \<^verbatim>\<open>SET_REMOVE\<close> over the entries behind the first one.\<close>

fun st_chain_remove :: "('a \<Rightarrow> 'a \<Rightarrow> bool) \<Rightarrow> 'a \<Rightarrow> 'a list \<Rightarrow> 'a list option" where
  "st_chain_remove eq x [] = None"
| "st_chain_remove eq x (y # c) =
    (if eq y x then Some c else do { c' \<leftarrow> st_chain_remove eq x c; Some (y # c') })"

definition st_remove :: "'a set_table \<Rightarrow> 'a \<Rightarrow> 'a set_table option" where
  "st_remove s x = do {
     let idx = st_bucket_idx s x;
     c \<leftarrow> st_bucket_at s idx;
     case c of
       [] \<Rightarrow> None
     | y # c \<Rightarrow>
         if st_eq s y x then
           Some (s\<lparr>st_buckets := (st_buckets s)[idx := c], st_num_used := st_num_used s - 1\<rparr>)
         else do {
           c' \<leftarrow> st_chain_remove (st_eq s) x c;
           Some (s\<lparr>st_buckets := (st_buckets s)[idx := y # c']\<rparr>) } }"

fun st_chain_contains :: "('a \<Rightarrow> 'a \<Rightarrow> bool) \<Rightarrow> 'a \<Rightarrow> 'a list \<Rightarrow> bool" where
  "st_chain_contains eq x [] = False"
| "st_chain_contains eq x (y # c) = (if eq y x then True else st_chain_contains eq x c)"

definition st_contains :: "'a set_table \<Rightarrow> 'a \<Rightarrow> bool option" where
  "st_contains s x = do {
     c \<leftarrow> st_bucket_at s (st_bucket_idx s x);
     Some (st_chain_contains (st_eq s) x c) }"

record 'a set_iterator =
  si_cur :: "'a list"
  si_idx :: nat

definition st_iterator_create :: "'a set_table \<Rightarrow> 'a set_iterator" where
  "st_iterator_create s = \<lparr>si_cur = [], si_idx = 0\<rparr>"

function st_next_used :: "'a set_table \<Rightarrow> nat \<Rightarrow> nat" where
  "st_next_used s idx =
    (if idx < st_num_buckets s \<and> st_buckets s ! idx = [] then st_next_used s (idx + 1) else idx)"
  by pat_completeness auto
termination
  by (relation "measure (\<lambda>(s, idx). st_num_buckets s - idx)") auto

declare st_next_used.simps [simp del]

definition st_iterator_next :: "'a set_table \<Rightarrow> 'a set_iterator \<Rightarrow> ('a \<times> 'a set_iterator) option" where
  "st_iterator_next s hi =
    (let hi = (if si_cur hi = [] then
         let idx = st_next_used s (si_idx hi) in
         if idx \<ge> st_num_buckets s then hi\<lparr>si_idx := idx\<rparr>
         else hi\<lparr>si_cur := st_buckets s ! idx, si_idx := idx + 1\<rparr> else hi)
     in case si_cur hi of [] \<Rightarrow> None | e # c \<Rightarrow> Some (e, hi\<lparr>si_cur := c\<rparr>))"

section \<open>Reduction to the hash table\<close>

definition units :: "'a list \<Rightarrow> ('a \<times> unit) list" where
  "units = map (\<lambda>x. (x, ()))"

definition st_table :: "'a set_table \<Rightarrow> ('a, unit) htable" where
  "st_table s = \<lparr>ht_hash_fn = st_hash_fn s, ht_keq = st_eq s, ht_buckets = map units (st_buckets s),
     ht_num_buckets = st_num_buckets s, ht_num_used = st_num_used s, ht_seed = st_seed s\<rparr>"

definition st_ok :: "'a set_table \<Rightarrow> bool" where
  "st_ok s \<longleftrightarrow> ht_ok (st_table s)"

definition st_set :: "'a set_table \<Rightarrow> 'a set" where
  "st_set s = dom (ht_map (st_table s))"

lemma units_simps [simp]: "units [] = []" "units (x # c) = (x, ()) # units c"
  "units (c @ d) = units c @ units d" "fst ` set (units c) = set c" "length (units c) = length c"
  "map fst (units c) = c"
  by (auto simp: units_def image_image comp_def)

lemma st_table_simps [simp]:
  "ht_hash_fn (st_table s) = st_hash_fn s" "ht_keq (st_table s) = st_eq s"
  "ht_num_buckets (st_table s) = st_num_buckets s" "ht_num_used (st_table s) = st_num_used s"
  "ht_seed (st_table s) = st_seed s" "ht_buckets (st_table s) = map units (st_buckets s)"
  "bucket_idx (st_table s) x = st_bucket_idx s x"
  by (simp_all add: st_table_def bucket_idx_def st_bucket_idx_def)

lemma bucket_at_table [simp]: "bucket_at (st_table s) i = map_option units (st_bucket_at s i)"
  by (simp add: bucket_at_def st_bucket_at_def)

lemma chain_put_units:
  "chain_put eq x () (units c) = (fst (st_chain_put eq x c), units (snd (st_chain_put eq x c)))"
  by (induction eq x c rule: st_chain_put.induct) (auto split: prod.splits)

lemma chain_remove_units:
  "chain_remove eq x (units c) = map_option units (st_chain_remove eq x c)"
  by (induction eq x c rule: st_chain_remove.induct) (auto simp: map_option_case split: option.splits)

lemma chain_contains_units: "st_chain_contains eq x c \<longleftrightarrow> chain_get eq x (units c) \<noteq> None"
  by (induction eq x c rule: st_chain_contains.induct) auto

lemma table_upd [simp]:
  "st_table (s\<lparr>st_buckets := bs, st_num_used := n\<rparr>) =
     st_table s\<lparr>ht_buckets := map units bs, ht_num_used := n\<rparr>"
  "st_table (s\<lparr>st_buckets := bs\<rparr>) = st_table s\<lparr>ht_buckets := map units bs\<rparr>"
  "st_table (s\<lparr>st_num_buckets := n\<rparr>) = st_table s\<lparr>ht_num_buckets := n\<rparr>"
  by (simp_all add: st_table_def)

lemma add_to_bucket_table:
  "add_to_bucket (st_table s) x () r = map_option st_table (st_add_to_bucket s x r)"
  by (cases "st_bucket_at s (st_bucket_idx s x)"; cases "st_chain_put (st_eq s) x (the (st_bucket_at s (st_bucket_idx s x)))")
    (auto simp: add_to_bucket_def st_add_to_bucket_def chain_put_units map_update)

lemma for_each_table:
  "for_each (\<lambda>ht (k, v). add_to_bucket ht k v True) (st_table s) (units xs) =
     map_option st_table (for_each (\<lambda>s x. st_add_to_bucket s x True) s xs)"
proof (induction xs arbitrary: s)
  case (Cons x xs)
  then show ?case
    by (cases "st_add_to_bucket s x True") (simp_all add: add_to_bucket_table)
qed simp

lemma grow_table: "ht_grow (st_table s) = map_option st_table (st_grow s)"
proof -
  have e: "concat (map units bs) = units (concat bs)" for bs :: "'a list list"
    by (induction bs) auto
  show ?thesis
    using for_each_table [of "s\<lparr>st_num_buckets := 2 * st_num_buckets s,
          st_buckets := replicate (2 * st_num_buckets s) []\<rparr>" "concat (st_buckets s)"]
    by (simp add: ht_grow_def st_grow_def e map_replicate_const)
qed

section \<open>Correctness\<close>

lemma st_contains_eq: "st_ok s \<Longrightarrow> st_contains s x = Some (x \<in> st_set s)"
  using ht_get_eq [of "st_table s" x]
  by (cases "st_bucket_at s (st_bucket_idx s x)")
    (auto simp: st_ok_def ht_get_def st_contains_def chain_contains_units st_set_def dom_def)

lemma st_rehash_ok:
  "st_ok s \<Longrightarrow>
    \<exists>s'. st_rehash s = Some s' \<and> st_ok s' \<and> st_set s' = st_set s \<and> st_num_used s' = st_num_used s"
  using ht_grow_core [of "st_table s"]
  by (auto simp: st_ok_def st_rehash_def grow_table st_set_def)

lemma st_insert_ok:
  assumes "st_ok s"
  shows "\<exists>s'. st_insert s x = Some s' \<and> st_ok s' \<and> st_set s' = insert x (st_set s) \<and>
    st_num_used s' = st_num_used s + (if x \<in> st_set s then 0 else 1)"
proof -
  obtain s1 where s1: "st_rehash s = Some s1" "st_ok s1" "st_set s1 = st_set s"
    "st_num_used s1 = st_num_used s"
    using st_rehash_ok [OF assms] by blast
  obtain h where "add_to_bucket (st_table s1) x () False = Some h" "ht_ok h"
    "ht_map h = (ht_map (st_table s1))(x \<mapsto> ())"
    "ht_num_used h = st_num_used s1 + (if x \<in> st_set s1 then 0 else 1)"
    using add_to_bucket_ok [of "st_table s1" x "()" False] s1(2) by (auto simp: st_ok_def st_set_def)
  with s1 show ?thesis
    by (auto simp: add_to_bucket_table st_insert_def st_ok_def st_set_def split: if_splits)
qed

lemma finite_st_set: "st_ok s \<Longrightarrow> finite (st_set s)"
  using ht_entries_dom [of "st_table s"] by (simp add: st_set_def st_ok_def)

lemma s_ul_create_ok: "st_ok (s_ul_create seed)" "st_set (s_ul_create seed) = {}"
  "st_num_used (s_ul_create seed) = 0"
proof -
  have "(32::nat) = 2 ^ 5" by simp
  then have "\<exists>n. (32::nat) = 2 ^ n" by metis
  then show "st_ok (s_ul_create seed)"
    by (auto simp: st_ok_def ht_ok_def s_ul_create_def st_create_def
        BUCKET_START_S_def unsigned_long_eq_def)
  show "st_set (s_ul_create seed) = {}"
    by (auto simp: st_set_def ht_map_def s_ul_create_def st_create_def st_bucket_idx_def
        BUCKET_START_S_def)
  show "st_num_used (s_ul_create seed) = 0" by (simp add: s_ul_create_def st_create_def)
qed

text \<open>
  \<^verbatim>\<open>SET_REMOVE\<close> removes the element; the counter is decremented iff the element was the first
  one of its bucket.
\<close>

definition st_first :: "'a set_table \<Rightarrow> 'a \<Rightarrow> bool" where
  "st_first s x \<longleftrightarrow> (case st_buckets s ! st_bucket_idx s x of [] \<Rightarrow> False | y # _ \<Rightarrow> y = x)"

lemma remove_table:
  assumes "st_ok s"
  shows "ht_remove (st_table s) x = map_option (\<lambda>s'. st_table s'\<lparr>ht_num_used := st_num_used s - 1\<rparr>) (st_remove s x)"
proof (cases "st_bucket_at s (st_bucket_idx s x)")
  case None
  then show ?thesis by (simp add: ht_remove_def st_remove_def)
next
  case (Some c)
  then show ?thesis
    using chain_remove_units [of "st_eq s" x c]
    by (cases c; cases "st_chain_remove (st_eq s) x (tl c)")
      (auto simp: ht_remove_def st_remove_def map_update chain_remove_units)
qed

lemma st_remove_ok:
  assumes ok: "st_ok s" and x: "x \<in> st_set s"
  shows "\<exists>s'. st_remove s x = Some s' \<and> st_ok s' \<and> st_set s' = st_set s - {x} \<and>
    st_num_used s' = (if st_first s x then st_num_used s - 1 else st_num_used s)"
proof -
  have hok: "ht_ok (st_table s)" using ok by (simp add: st_ok_def)
  obtain h where h: "ht_remove (st_table s) x = Some h" "ht_ok h"
    "ht_map h = (ht_map (st_table s))(x := None)"
    using ht_remove_core [OF hok, of x] x by (auto simp: st_set_def)
  then obtain s' where s': "st_remove s x = Some s'" "h = st_table s'\<lparr>ht_num_used := st_num_used s - 1\<rparr>"
    using remove_table [OF ok, of x] by auto
  have idx: "bucket_idx h = bucket_idx (st_table s')" for x by (simp add: s'(2) bucket_idx_def fun_eq_iff)
  have "st_ok s'" using h(2) unfolding ht_ok_def st_ok_def idx by (simp add: s'(2))
  moreover have "st_set s' = st_set s - {x}"
    using h(3) unfolding st_set_def ht_map_def idx
    by (auto simp: s'(2) fun_eq_iff dom_def)
  moreover have "st_bucket_at s (st_bucket_idx s x) = Some (st_buckets s ! st_bucket_idx s x)"
    using bucket_idx_less [OF hok, of x] by (simp add: st_bucket_at_def)
  then have "st_num_used s' = (if st_first s x then st_num_used s - 1 else st_num_used s)"
    using s'(1) keq_eq [OF hok]
    by (auto simp: st_remove_def st_first_def bind_eq_Some_conv split: list.splits if_splits)
  ultimately show ?thesis using s'(1) by blast
qed

lemma st_remove_exit: "st_ok s \<Longrightarrow> x \<notin> st_set s \<Longrightarrow> st_remove s x = None"
  using remove_table [of s x] ht_remove_exit [of "st_table s" x]
  by (simp add: st_ok_def st_set_def)

section \<open>Runs of insertions and removals\<close>

text \<open>
  A run of \<^verbatim>\<open>SET_INSERT\<close> and \<^verbatim>\<open>SET_REMOVE\<close> calls. \<open>set_step\<close> is the same call on the
  set, \<open>uncounted\<close> the number of removals of the run that the counter misses.
\<close>

datatype 'a set_op = Set_Insert 'a | Set_Remove 'a

fun st_step :: "'a set_table \<Rightarrow> 'a set_op \<Rightarrow> 'a set_table option" where
  "st_step s (Set_Insert x) = st_insert s x"
| "st_step s (Set_Remove x) = st_remove s x"

fun set_step :: "'a set \<Rightarrow> 'a set_op \<Rightarrow> 'a set option" where
  "set_step A (Set_Insert x) = Some (insert x A)"
| "set_step A (Set_Remove x) = (if x \<in> A then Some (A - {x}) else None)"

fun uncounted :: "'a set_table \<Rightarrow> 'a set_op list \<Rightarrow> nat" where
  "uncounted s [] = 0"
| "uncounted s (op # ops) =
    (case op of Set_Remove x \<Rightarrow> if st_first s x then 0 else 1 | Set_Insert x \<Rightarrow> 0) +
    (case st_step s op of None \<Rightarrow> 0 | Some s' \<Rightarrow> uncounted s' ops)"

lemma st_step_ok:
  assumes ok: "st_ok s" and k: "st_num_used s = card (st_set s) + k"
  shows "case set_step (st_set s) op of
      None \<Rightarrow> st_step s op = None
    | Some A \<Rightarrow> \<exists>s'. st_step s op = Some s' \<and> st_ok s' \<and> st_set s' = A \<and>
        st_num_used s' = card A + (k + uncounted s [op])"
proof (cases op)
  case (Set_Insert x)
  then show ?thesis
    using st_insert_ok [OF ok, of x] k finite_st_set [OF ok] by (auto simp: card_insert_if)
next
  case (Set_Remove x)
  show ?thesis
  proof (cases "x \<in> st_set s")
    case True
    have "card (st_set s) = Suc (card (st_set s - {x}))"
      by (rule card.remove [OF finite_st_set [OF ok] True])
    then show ?thesis using st_remove_ok [OF ok True] k Set_Remove True by auto
  qed (use st_remove_exit [OF ok] Set_Remove in simp)
qed

lemma st_run_ok:
  assumes "st_ok s" "st_num_used s = card (st_set s) + k"
  shows "case for_each set_step (st_set s) ops of
      None \<Rightarrow> for_each st_step s ops = None
    | Some A \<Rightarrow> \<exists>s'. for_each st_step s ops = Some s' \<and> st_ok s' \<and> st_set s' = A \<and>
        st_num_used s' = card A + (k + uncounted s ops)"
  using assms
proof (induction ops arbitrary: s k)
  case (Cons op ops)
  note step = st_step_ok [OF Cons.prems, of op]
  show ?case
  proof (cases "set_step (st_set s) op")
    case None
    then show ?thesis using step by simp
  next
    case (Some A)
    then obtain s' where s': "st_step s op = Some s'" "st_ok s'" "st_set s' = A"
      "st_num_used s' = card A + (k + uncounted s [op])"
      using step by auto
    then have "uncounted s (op # ops) = uncounted s [op] + uncounted s' ops" by simp
    moreover have "for_each st_step s (op # ops) = for_each st_step s' ops" using s'(1) by simp
    moreover have "for_each set_step (st_set s) (op # ops) = for_each set_step (st_set s') ops"
      using Some s'(3) by simp
    ultimately show ?thesis
      using Cons.IH [OF s'(2), of "k + uncounted s [op]"] s'(3,4)
      by (simp only: add.assoc)
  qed
qed simp

section \<open>Properties\<close>

text \<open>
  C12: The hash sets implement finite sets in every run of insertions and removals, also across
  growths of the bucket array. A run on a new \<^verbatim>\<open>set_ul\<close> ends the program exactly when it removes
  an element that is not in the set; otherwise, membership afterwards is membership in the set that
  the same calls give on sets. The size is the number of elements plus the number of removals that
  met an element behind the first one of its bucket: \<^verbatim>\<open>SET_REMOVE\<close> misses those in
  \<^verbatim>\<open>num_used\<close>.
\<close>
theorem set_implements_set:
  "case for_each set_step {} ops of
     None \<Rightarrow> for_each st_step (s_ul_create seed) ops = None
   | Some A \<Rightarrow> \<exists>s. for_each st_step (s_ul_create seed) ops = Some s \<and> finite A \<and>
       (\<forall>x. st_contains s x = Some (x \<in> A)) \<and>
       st_size s = card A + uncounted (s_ul_create seed) ops"
  using st_run_ok [OF s_ul_create_ok(1), of seed 0 ops] s_ul_create_ok(2,3) [of seed]
  by (auto simp: st_contains_eq finite_st_set st_size_def split: option.splits)

text \<open>
  The counter does go wrong: with the seed \<open>0\<close> the elements \<open>32\<close> and \<open>64\<close> share a bucket of a
  new \<^verbatim>\<open>set_ul\<close>, and the removal of the second one is not counted.
\<close>
lemma uncounted_positive:
  "uncounted (s_ul_create 0) [Set_Insert 32, Set_Insert 64, Set_Remove 64] = 1"
  by (simp add: s_ul_create_def st_create_def st_insert_def st_rehash_def st_rehash_limit_def
      st_add_to_bucket_def st_bucket_at_def st_bucket_idx_def fnv_hash_ul_def ULONG_RANGE_def
      BUCKET_START_S_def TOO_MANY_BUCKETS_BITS_S_def unsigned_long_eq_def st_remove_def st_first_def)

end
