(* ===== verification/Bytes.thy ===== *)
theory Bytes
  imports Goedb_Prelude
begin

text \<open>
  Values inside byte buffers. \<^verbatim>\<open>memcpy\<close> between an \<^verbatim>\<open>unsigned long\<close> or a \<^verbatim>\<open>double\<close> and a
  buffer copies the eight bytes of the value in the order of the machine, least significant byte
  first. A \<^verbatim>\<open>double\<close> is its 64 bit pattern. The lemmas are the round trip, the independence of
  disjoint fields and the bounds.
\<close>

section \<open>Encoding\<close>

fun bytes_ul :: "buffer \<Rightarrow> nat \<Rightarrow> nat \<Rightarrow> nat" where
  "bytes_ul b off 0 = 0"
| "bytes_ul b off (Suc n) = unat (b off) + 256 * bytes_ul b (Suc off) n"

definition get_ulong :: "buffer \<Rightarrow> nat \<Rightarrow> ulong" where
  "get_ulong b off = bytes_ul b off 8"

definition put_ulong :: "buffer \<Rightarrow> nat \<Rightarrow> ulong \<Rightarrow> buffer" where
  "put_ulong b off v =
     (\<lambda>j. if off \<le> j \<and> j < off + 8 then word_of_nat (v div 256 ^ (j - off)) else b j)"

text \<open>\<^verbatim>\<open>memcpy(dst + off, src, n)\<close> and \<^verbatim>\<open>memset(dst, 0, n)\<close>.\<close>

definition memcpy :: "buffer \<Rightarrow> nat \<Rightarrow> buffer \<Rightarrow> nat \<Rightarrow> buffer" where
  "memcpy dst off src n = (\<lambda>j. if off \<le> j \<and> j < off + n then src (j - off) else dst j)"

definition memset0 :: "buffer \<Rightarrow> nat \<Rightarrow> buffer" where
  "memset0 dst n = (\<lambda>j. if j < n then 0 else dst j)"

text \<open>The page in a buffer: its first \<^verbatim>\<open>PAGE_SIZE\<close> bytes.\<close>

definition page_of :: "buffer \<Rightarrow> buffer" where
  "page_of b = (\<lambda>i. if i < PAGE_SIZE then b i else 0)"

section \<open>Lemmas\<close>

lemma unat_byte_less: "unat (w :: byte) < 256"
  using unsigned_less [of w, where ?'a = nat] by simp

lemma bytes_ul_less: "bytes_ul b off n < 256 ^ n"
proof (induction n arbitrary: off)
  case (Suc n)
  have "unat (b off) + 256 * bytes_ul b (Suc off) n < 256 + 256 * bytes_ul b (Suc off) n"
    using unat_byte_less [of "b off"] by simp
  also have "\<dots> = 256 * Suc (bytes_ul b (Suc off) n)" by simp
  also have "\<dots> \<le> 256 * 256 ^ n" using Suc [of "Suc off"] by (simp only: mult_le_mono2 Suc_leI)
  finally show ?case by simp
qed simp

lemma get_ulong_less: "get_ulong b off < ULONG_RANGE"
  using bytes_ul_less [of b off 8] by (simp add: get_ulong_def ULONG_RANGE_def)

lemma bytes_ul_cong: "(\<And>j. off \<le> j \<Longrightarrow> j < off + n \<Longrightarrow> b j = b' j) \<Longrightarrow> bytes_ul b off n = bytes_ul b' off n"
proof (induction n arbitrary: off)
  case (Suc n)
  have "bytes_ul b (Suc off) n = bytes_ul b' (Suc off) n"
    by (rule Suc.IH) (use Suc.prems in auto)
  with Suc.prems [of off] show ?case by simp
qed simp

lemma get_ulong_cong: "(\<And>j. off \<le> j \<Longrightarrow> j < off + 8 \<Longrightarrow> b j = b' j) \<Longrightarrow> get_ulong b off = get_ulong b' off"
  unfolding get_ulong_def by (rule bytes_ul_cong)

lemma bytes_ul_digits:
  "(\<And>j. j < n \<Longrightarrow> unat (b (off + j)) = v div 256 ^ j mod 256) \<Longrightarrow> bytes_ul b off n = v mod 256 ^ n"
proof (induction n arbitrary: off v)
  case (Suc n)
  have "bytes_ul b (Suc off) n = v div 256 mod 256 ^ n"
  proof (rule Suc.IH)
    fix j assume "j < n"
    then show "unat (b (Suc off + j)) = v div 256 div 256 ^ j mod 256"
      using Suc.prems [of "Suc j"] by (simp add: div_mult2_eq)
  qed
  moreover have "unat (b off) = v mod 256" using Suc.prems [of 0] by simp
  ultimately show ?case by (simp add: mod_mult2_eq)
qed simp

lemma get_put_ulong [simp]: "v < ULONG_RANGE \<Longrightarrow> get_ulong (put_ulong b off v) off = v"
proof -
  assume v: "v < ULONG_RANGE"
  have "bytes_ul (put_ulong b off v) off 8 = v mod 256 ^ 8"
    by (rule bytes_ul_digits) (simp add: put_ulong_def unsigned_of_nat take_bit_eq_mod)
  with v show ?thesis by (simp add: get_ulong_def ULONG_RANGE_def)
qed

lemma get_put_ulong_other [simp]:
  "off' + 8 \<le> off \<or> off + 8 \<le> off' \<Longrightarrow> get_ulong (put_ulong b off v) off' = get_ulong b off'"
  by (rule get_ulong_cong) (auto simp: put_ulong_def)

lemma put_ulong_other: "j < off \<or> off + 8 \<le> j \<Longrightarrow> put_ulong b off v j = b j"
  by (auto simp: put_ulong_def)

lemma page_of_idem [simp]: "page_of (page_of b) = page_of b"
  by (simp add: page_of_def fun_eq_iff)

lemma page_of_zero [simp]: "page_of (\<lambda>_. 0) = (\<lambda>_. 0)"
  by (simp add: page_of_def)

lemma page_of_eqI: "(\<And>i. i < PAGE_SIZE \<Longrightarrow> a i = b i) \<Longrightarrow> page_of a = page_of b"
  by (simp add: page_of_def fun_eq_iff)

lemma page_of_eqD: "page_of a = page_of b \<Longrightarrow> i < PAGE_SIZE \<Longrightarrow> a i = b i"
  by (auto simp: page_of_def fun_eq_iff split: if_splits)

lemma page_of_nth [simp]: "i < PAGE_SIZE \<Longrightarrow> page_of b i = b i"
  by (simp add: page_of_def)

lemma page_of_memcpy [simp]: "PAGE_SIZE \<le> n \<Longrightarrow> page_of (memcpy dst 0 src n) = page_of src"
  by (rule page_of_eqI) (simp add: memcpy_def)

lemma page_of_memset0 [simp]: "PAGE_SIZE \<le> n \<Longrightarrow> page_of (memset0 b n) = (\<lambda>_. 0)"
  by (auto simp: page_of_def memset0_def)

lemma get_ulong_page_of [simp]: "off + 8 \<le> PAGE_SIZE \<Longrightarrow> get_ulong (page_of b) off = get_ulong b off"
  by (rule get_ulong_cong) simp

lemma page_of_put_ulong: "page_of (put_ulong (page_of b) off v) = page_of (put_ulong b off v)"
  by (rule page_of_eqI) (simp add: put_ulong_def)

lemma page_of_upd: "page_of ((page_of b)(i := v)) = page_of (b(i := v))"
  by (rule page_of_eqI) simp

end
