(* ===== verification/Disk_File.thy ===== *)
theory Disk_File
  imports Bytes
begin

text \<open>
  The paged files of \<^verbatim>\<open>src/io/disk_file.c\<close>. A file on disk is its bytes and its size; the file
  system maps names to files. An open \<open>disk_file\<close> carries the contents of its stream, which
  \<^verbatim>\<open>fclose\<close> writes back: a database has each file open once. The lines the program logs are
  kept with the name of the log file they went to. \<^verbatim>\<open>disk_file_sync\<close> calls \<^verbatim>\<open>fsync\<close> and
  changes nothing the program can see.
\<close>

section \<open>Files and the struct\<close>

record dfile =
  f_bytes :: buffer
  f_size :: nat

type_synonym filesys = "string \<rightharpoonup> dfile"

datatype df_event =
    Grow_file string nat
  | Shrink_file string nat
  | Write_pages string nat nat
  | Read_pages string nat nat

record disk_file =
  df_file_name :: string
  df_file :: dfile
  df_file_size :: nat
  df_num_pages :: nat
  df_read_count :: "64 word"
  df_write_count :: "64 word"
  df_log_file :: string
  df_trace :: "(string \<times> df_event) list"

definition df_log :: "disk_file \<Rightarrow> bool \<Rightarrow> df_event \<Rightarrow> disk_file" where
  "df_log df log e = (if log then df\<lparr>df_trace := df_trace df @ [(df_log_file df, e)]\<rparr> else df)"

text \<open>\<^verbatim>\<open>fwrite\<close> of \<open>n\<close> bytes at an offset inside the file.\<close>

definition file_write :: "dfile \<Rightarrow> nat \<Rightarrow> buffer \<Rightarrow> nat \<Rightarrow> dfile" where
  "file_write f off data n = f\<lparr>f_bytes := memcpy (f_bytes f) off data n, f_size := max (f_size f) (off + n)\<rparr>"

section \<open>The operations\<close>

definition disk_file_open :: "filesys \<Rightarrow> string \<Rightarrow> string \<Rightarrow> disk_file option" where
  "disk_file_open fs name log_file = do {
     f \<leftarrow> fs name;
     Some \<lparr>df_file_name = name, df_file = f, df_file_size = f_size f,
       df_num_pages = f_size f div PAGE_SIZE, df_read_count = 0, df_write_count = 0,
       df_log_file = log_file, df_trace = []\<rparr> }"

definition disk_file_create :: "filesys \<Rightarrow> string \<Rightarrow> string \<Rightarrow> (disk_file \<times> filesys) option" where
  "disk_file_create fs name log_file = do {
     let fs = fs(name \<mapsto> \<lparr>f_bytes = (\<lambda>_. 0), f_size = 0\<rparr>);
     df \<leftarrow> disk_file_open fs name log_file;
     Some (df, fs) }"

definition disk_file_destroy :: "filesys \<Rightarrow> disk_file \<Rightarrow> filesys" where
  "disk_file_destroy fs df = fs(df_file_name df \<mapsto> df_file df)"

definition disk_file_delete :: "filesys \<Rightarrow> disk_file \<Rightarrow> filesys" where
  "disk_file_delete fs df = fs(df_file_name df := None)"

text \<open>
  \<^verbatim>\<open>disk_file_grow\<close>. The sum of the guard is a \<^verbatim>\<open>size_t\<close>; \<^verbatim>\<open>calloc\<close> fails when the number
  of bytes is none.
\<close>

definition disk_file_grow :: "disk_file \<Rightarrow> nat \<Rightarrow> bool \<Rightarrow> disk_file option" where
  "disk_file_grow df by_num_pages log =
    (if (df_num_pages df + by_num_pages) mod ULONG_RANGE \<ge> MAX_PAGE_NO then None
     else if by_num_pages * PAGE_SIZE \<ge> ULONG_RANGE then None
     else
       let f = file_write (df_file df) (f_size (df_file df)) (\<lambda>_. 0) (by_num_pages * PAGE_SIZE);
           df = df\<lparr>df_file := f, df_file_size := f_size f, df_num_pages := f_size f div PAGE_SIZE\<rparr>;
           df = df_log df log (Grow_file (df_file_name df) by_num_pages)
       in Some (df\<lparr>df_write_count := df_write_count df + 1\<rparr>))"

text \<open>
  \<^verbatim>\<open>disk_file_shrink\<close>. The comparison \<^verbatim>\<open>num_pages - by_num_pages <= 0\<close> is one of unsigned
  numbers; \<^verbatim>\<open>ftruncate\<close> refuses a negative length.
\<close>

definition disk_file_shrink :: "disk_file \<Rightarrow> nat \<Rightarrow> bool \<Rightarrow> disk_file option" where
  "disk_file_shrink df by_num_pages log =
    (if by_num_pages > MAX_PAGE_NO then None
     else if (df_num_pages df + ULONG_RANGE - by_num_pages) mod ULONG_RANGE \<le> 0 then None
     else if df_file_size df < PAGE_SIZE * by_num_pages then None
     else
       let f = (df_file df)\<lparr>f_size := df_file_size df - PAGE_SIZE * by_num_pages\<rparr>;
           df = df\<lparr>df_file := f, df_file_size := f_size f, df_num_pages := f_size f div PAGE_SIZE\<rparr>;
           df = df_log df log (Shrink_file (df_file_name df) by_num_pages)
       in Some (df\<lparr>df_write_count := df_write_count df + 1\<rparr>))"

definition write_pages :: "disk_file \<Rightarrow> nat \<Rightarrow> nat \<Rightarrow> buffer \<Rightarrow> bool \<Rightarrow> disk_file option" where
  "write_pages df fst_page lst_page data log =
    (if fst_page > MAX_PAGE_NO \<or> lst_page > MAX_PAGE_NO then None
     else if fst_page > lst_page then None
     else if lst_page + 1 > df_num_pages df then None
     else
       let offset = PAGE_SIZE * fst_page;
           num_pages_write = 1 + (lst_page - fst_page);
           df = df\<lparr>df_file := file_write (df_file df) offset data (PAGE_SIZE * num_pages_write)\<rparr>;
           df = df_log df log (Write_pages (df_file_name df) fst_page lst_page)
       in Some (df\<lparr>df_write_count := df_write_count df + 1\<rparr>))"

definition write_page :: "disk_file \<Rightarrow> nat \<Rightarrow> buffer \<Rightarrow> bool \<Rightarrow> disk_file option" where
  "write_page df page_no data log = write_pages df page_no page_no data log"

text \<open>The guard admits the page \<^verbatim>\<open>num_pages\<close> itself; \<^verbatim>\<open>fread\<close> then reads too little.\<close>

definition read_pages :: "disk_file \<Rightarrow> nat \<Rightarrow> nat \<Rightarrow> buffer \<Rightarrow> bool \<Rightarrow> (buffer \<times> disk_file) option" where
  "read_pages df fst_page lst_page buf log =
    (if fst_page > MAX_PAGE_NO \<or> lst_page > MAX_PAGE_NO
        \<or> fst_page > df_num_pages df \<or> lst_page > df_num_pages df then None
     else if fst_page > lst_page then None
     else
       let offset = PAGE_SIZE * fst_page;
           num_pages_read = 1 + (lst_page - fst_page) in
       if f_size (df_file df) < offset + PAGE_SIZE * num_pages_read then None
       else
         let buf = memcpy buf 0 (\<lambda>j. f_bytes (df_file df) (offset + j)) (PAGE_SIZE * num_pages_read);
             df = df_log df log (Read_pages (df_file_name df) fst_page lst_page)
         in Some (buf, df\<lparr>df_read_count := df_read_count df + 1\<rparr>))"

definition read_page :: "disk_file \<Rightarrow> nat \<Rightarrow> buffer \<Rightarrow> bool \<Rightarrow> (buffer \<times> disk_file) option" where
  "read_page df page_no buf log = read_pages df page_no page_no buf log"

definition clear_page :: "disk_file \<Rightarrow> nat \<Rightarrow> bool \<Rightarrow> disk_file option" where
  "clear_page df page_no log = write_page df page_no (\<lambda>_. 0) log"

definition disk_file_swap_log_file :: "disk_file \<Rightarrow> string \<Rightarrow> disk_file" where
  "disk_file_swap_log_file df new_log_file = df\<lparr>df_log_file := new_log_file\<rparr>"

section \<open>Well-formed disk files and their pages\<close>

text \<open>
  The bookkeeping fields agree with the file, and the file consists of whole pages, fewer than
  \<^verbatim>\<open>MAX_PAGE_NO\<close> of them.
\<close>

definition df_inv :: "disk_file \<Rightarrow> bool" where
  "df_inv df \<longleftrightarrow> df_file_size df = f_size (df_file df) \<and>
     f_size (df_file df) = PAGE_SIZE * df_num_pages df \<and> df_num_pages df < MAX_PAGE_NO"

definition df_page :: "disk_file \<Rightarrow> nat \<Rightarrow> buffer" where
  "df_page df p = page_of (\<lambda>i. f_bytes (df_file df) (PAGE_SIZE * p + i))"

lemma df_log_simps [simp]:
  "df_file (df_log df log e) = df_file df" "df_file_size (df_log df log e) = df_file_size df"
  "df_num_pages (df_log df log e) = df_num_pages df" "df_file_name (df_log df log e) = df_file_name df"
  "df_log_file (df_log df log e) = df_log_file df" "df_read_count (df_log df log e) = df_read_count df"
  "df_write_count (df_log df log e) = df_write_count df"
  by (simp_all add: df_log_def)

lemma MAX_PAGE_NO_less: "MAX_PAGE_NO * PAGE_SIZE < ULONG_RANGE"
  by (simp add: MAX_PAGE_NO_def LONG_MAX_def PAGE_SIZE_def ULONG_RANGE_def)

lemma page_offset_inj:
  assumes "i < PAGE_SIZE" "j < PAGE_SIZE" "PAGE_SIZE * p + i = PAGE_SIZE * q + j"
  shows "p = q"
proof -
  have "(PAGE_SIZE * p + i) div PAGE_SIZE = p" "(PAGE_SIZE * q + j) div PAGE_SIZE = q"
    using assms(1,2) by simp_all
  with assms(3) show ?thesis by simp
qed

lemma in_page_range:
  assumes "i < PAGE_SIZE"
  shows "PAGE_SIZE * a \<le> PAGE_SIZE * p + i \<and> PAGE_SIZE * p + i < PAGE_SIZE * a + PAGE_SIZE * n
    \<longleftrightarrow> a \<le> p \<and> p < a + n"
proof -
  have "PAGE_SIZE * a \<le> PAGE_SIZE * p + i \<longleftrightarrow> a \<le> p"
  proof
    assume "PAGE_SIZE * a \<le> PAGE_SIZE * p + i"
    then have "(PAGE_SIZE * a) div PAGE_SIZE \<le> (PAGE_SIZE * p + i) div PAGE_SIZE" by (rule div_le_mono)
    then show "a \<le> p" using assms by simp
  next
    assume "a \<le> p"
    then have "PAGE_SIZE * a \<le> PAGE_SIZE * p" by simp
    then show "PAGE_SIZE * a \<le> PAGE_SIZE * p + i" by (rule trans_le_add1)
  qed
  moreover have "PAGE_SIZE * p + i < PAGE_SIZE * (a + n) \<longleftrightarrow> p < a + n"
    using assms by (metis div_less_iff_less_mult div_mult_self4 PAGE_SIZE_pos PAGE_SIZE_neq_0 add.right_neutral div_less mult.commute)
  ultimately show ?thesis by (simp add: distrib_left)
qed

lemma page_range_size:
  assumes "a \<le> b"
  shows "PAGE_SIZE * a + PAGE_SIZE * (1 + (b - a)) = PAGE_SIZE * b + PAGE_SIZE"
proof -
  have "a + (1 + (b - a)) = b + 1" using assms by simp
  then show ?thesis by (metis distrib_left mult.right_neutral)
qed

lemma page_of_df_page [simp]: "page_of (df_page df p) = df_page df p"
  by (simp add: df_page_def)

text \<open>Facts that an operation keeps unless it says otherwise.\<close>

definition df_frame :: "disk_file \<Rightarrow> disk_file \<Rightarrow> bool" where
  "df_frame df df' \<longleftrightarrow> df_file_name df' = df_file_name df \<and> df_log_file df' = df_log_file df"

lemma df_inv_bounds:
  assumes "df_inv df" "p < df_num_pages df"
  shows "p \<le> MAX_PAGE_NO" "PAGE_SIZE * p + PAGE_SIZE \<le> f_size (df_file df)"
proof -
  show "p \<le> MAX_PAGE_NO" using assms by (simp add: df_inv_def)
  have "PAGE_SIZE * (p + 1) \<le> PAGE_SIZE * df_num_pages df" using assms(2) by (intro mult_le_mono) auto
  then show "PAGE_SIZE * p + PAGE_SIZE \<le> f_size (df_file df)" using assms(1) by (simp add: df_inv_def)
qed

lemma write_pages_ok:
  assumes inv: "df_inv df" and ab: "a \<le> b" "b < df_num_pages df"
  shows "\<exists>df'. write_pages df a b data log = Some df' \<and> df_inv df' \<and> df_frame df df' \<and>
    df_num_pages df' = df_num_pages df \<and>
    (\<forall>q. df_page df' q = (if a \<le> q \<and> q \<le> b then page_of (\<lambda>i. data (PAGE_SIZE * (q - a) + i)) else df_page df q))"
proof -
  let ?n = "1 + (b - a)"
  have bound: "b \<le> MAX_PAGE_NO" "PAGE_SIZE * b + PAGE_SIZE \<le> f_size (df_file df)"
    using df_inv_bounds [OF inv ab(2)] by auto
  have size: "PAGE_SIZE * a + PAGE_SIZE * ?n = PAGE_SIZE * b + PAGE_SIZE"
    by (rule page_range_size [OF ab(1)])
  let ?df = "df\<lparr>df_file := file_write (df_file df) (PAGE_SIZE * a) data (PAGE_SIZE * ?n)\<rparr>"
  let ?df' = "(df_log ?df log (Write_pages (df_file_name ?df) a b))\<lparr>df_write_count := df_write_count ?df + 1\<rparr>"
  have run: "write_pages df a b data log = Some ?df'"
    using ab bound(1) by (simp add: write_pages_def Let_def)
  have fs: "f_size (file_write (df_file df) (PAGE_SIZE * a) data (PAGE_SIZE * ?n)) = f_size (df_file df)"
    using bound(2) size by (simp add: file_write_def)
  have page: "df_page ?df' q = (if a \<le> q \<and> q \<le> b then page_of (\<lambda>i. data (PAGE_SIZE * (q - a) + i)) else df_page df q)" for q
  proof -
    have "memcpy (f_bytes (df_file df)) (PAGE_SIZE * a) data (PAGE_SIZE * ?n) (PAGE_SIZE * q + i) =
        (if a \<le> q \<and> q \<le> b then data (PAGE_SIZE * (q - a) + i) else f_bytes (df_file df) (PAGE_SIZE * q + i))"
      if "i < PAGE_SIZE" for i
      using in_page_range [OF that, of a q ?n] ab(1)
      by (auto simp: memcpy_def diff_mult_distrib2)
    then show ?thesis
      by (auto simp: df_page_def file_write_def intro!: page_of_eqI)
  qed
  have "df_inv ?df'" using inv fs by (simp add: df_inv_def)
  with run page show ?thesis by (auto simp: df_frame_def)
qed

lemma write_pages_exit: "df_num_pages df \<le> b \<Longrightarrow> write_pages df a b data log = None"
  by (simp add: write_pages_def)

lemma read_pages_ok:
  assumes inv: "df_inv df" and ab: "a \<le> b" "b < df_num_pages df"
  shows "\<exists>buf' df'. read_pages df a b buf log = Some (buf', df') \<and> df_inv df' \<and> df_frame df df' \<and>
    df_file df' = df_file df \<and> df_num_pages df' = df_num_pages df \<and>
    (\<forall>q. a \<le> q \<and> q \<le> b \<longrightarrow> page_of (\<lambda>i. buf' (PAGE_SIZE * (q - a) + i)) = df_page df q)"
proof -
  let ?n = "1 + (b - a)"
  have bound: "b \<le> MAX_PAGE_NO" "PAGE_SIZE * b + PAGE_SIZE \<le> f_size (df_file df)"
    using df_inv_bounds [OF inv ab(2)] by auto
  have size: "PAGE_SIZE * a + PAGE_SIZE * ?n = PAGE_SIZE * b + PAGE_SIZE"
    by (rule page_range_size [OF ab(1)])
  let ?buf = "memcpy buf 0 (\<lambda>j. f_bytes (df_file df) (PAGE_SIZE * a + j)) (PAGE_SIZE * ?n)"
  let ?df' = "(df_log df log (Read_pages (df_file_name df) a b))\<lparr>df_read_count := df_read_count df + 1\<rparr>"
  have run: "read_pages df a b buf log = Some (?buf, ?df')"
    using ab bound size by (simp add: read_pages_def Let_def)
  have page: "page_of (\<lambda>i. ?buf (PAGE_SIZE * (q - a) + i)) = df_page df q" if q: "a \<le> q" "q \<le> b" for q
  proof -
    have "?buf (PAGE_SIZE * (q - a) + i) = f_bytes (df_file df) (PAGE_SIZE * q + i)" if "i < PAGE_SIZE" for i
    proof -
      have "PAGE_SIZE * (q - a) + i < PAGE_SIZE * ?n"
        using in_page_range [OF that, of 0 "q - a" ?n] q by simp
      moreover have "PAGE_SIZE * a + (PAGE_SIZE * (q - a) + i) = PAGE_SIZE * q + i"
        using q(1) by (metis add.assoc distrib_left le_add_diff_inverse)
      ultimately show ?thesis unfolding memcpy_def by (simp only: diff_zero add_0 zero_le if_True simp_thms)
    qed
    then show ?thesis unfolding df_page_def by (rule page_of_eqI)
  qed
  have "df_inv ?df'" using inv by (simp add: df_inv_def)
  with run page show ?thesis by (auto simp: df_frame_def)
qed

lemma read_pages_exit:
  assumes "df_inv df" "df_num_pages df \<le> b"
  shows "read_pages df a b buf log = None"
proof (cases "a \<le> b \<and> b = df_num_pages df")
  case True
  have "PAGE_SIZE * a + PAGE_SIZE * (1 + (b - a)) = PAGE_SIZE * b + PAGE_SIZE"
    using True page_range_size by blast
  moreover have "f_size (df_file df) < PAGE_SIZE * b + PAGE_SIZE" using True assms(1) by (simp add: df_inv_def)
  ultimately have "f_size (df_file df) < PAGE_SIZE * a + PAGE_SIZE * (1 + (b - a))" by (simp only:)
  then show ?thesis by (simp add: read_pages_def Let_def)
next
  case False
  with assms(2) show ?thesis by (auto simp: read_pages_def)
qed

lemma write_page_ok:
  assumes "df_inv df" "p < df_num_pages df"
  shows "\<exists>df'. write_page df p data log = Some df' \<and> df_inv df' \<and> df_frame df df' \<and>
    df_num_pages df' = df_num_pages df \<and>
    df_page df' = (df_page df)(p := page_of data)"
  using write_pages_ok [OF assms(1) order_refl assms(2), of data log]
  by (auto simp: write_page_def fun_eq_iff)

lemma read_page_ok:
  assumes "df_inv df" "p < df_num_pages df"
  shows "\<exists>buf' df'. read_page df p buf log = Some (buf', df') \<and> df_inv df' \<and> df_frame df df' \<and>
    df_num_pages df' = df_num_pages df \<and> df_page df' = df_page df \<and> page_of buf' = df_page df p"
  using read_pages_ok [OF assms(1) order_refl assms(2), of buf log]
  by (fastforce simp: read_page_def df_page_def)

text \<open>Reading changes the counter and the log only.\<close>

definition df_same :: "disk_file \<Rightarrow> disk_file \<Rightarrow> bool" where
  "df_same df df' \<longleftrightarrow> df_frame df df' \<and> df_file df' = df_file df \<and> df_file_size df' = df_file_size df \<and>
     df_num_pages df' = df_num_pages df"

lemma df_same_refl [simp]: "df_same df df"
  by (simp add: df_same_def df_frame_def)

lemma df_same_trans: "df_same a b \<Longrightarrow> df_same b c \<Longrightarrow> df_same a c"
  by (simp add: df_same_def df_frame_def)

lemma df_sameD: "df_same df df' \<Longrightarrow> df_page df' = df_page df \<and> df_inv df' = df_inv df"
  by (simp add: df_same_def df_page_def df_inv_def fun_eq_iff)

lemma read_page_same: "read_page df p buf log = Some (buf', df') \<Longrightarrow> df_same df df'"
  by (auto simp: read_page_def read_pages_def df_same_def df_frame_def Let_def split: if_splits)

lemma disk_file_grow_ok:
  assumes inv: "df_inv df" and room: "df_num_pages df + n < MAX_PAGE_NO"
  shows "\<exists>df'. disk_file_grow df n log = Some df' \<and> df_inv df' \<and> df_frame df df' \<and>
    df_num_pages df' = df_num_pages df + n \<and>
    (\<forall>q. df_page df' q = (if df_num_pages df \<le> q \<and> q < df_num_pages df + n then (\<lambda>_. 0) else df_page df q))"
proof -
  let ?f = "file_write (df_file df) (f_size (df_file df)) (\<lambda>_. 0) (n * PAGE_SIZE)"
  let ?df = "df\<lparr>df_file := ?f, df_file_size := f_size ?f, df_num_pages := f_size ?f div PAGE_SIZE\<rparr>"
  let ?df' = "(df_log ?df log (Grow_file (df_file_name ?df) n))\<lparr>df_write_count := df_write_count ?df + 1\<rparr>"
  have "n * PAGE_SIZE \<le> MAX_PAGE_NO * PAGE_SIZE" using room by (intro mult_le_mono) auto
  then have "n * PAGE_SIZE < ULONG_RANGE" using MAX_PAGE_NO_less by (rule order_le_less_trans)
  moreover have "df_num_pages df + n < ULONG_RANGE"
    using room MAX_PAGE_NO_less by (simp add: MAX_PAGE_NO_def LONG_MAX_def PAGE_SIZE_def ULONG_RANGE_def)
  ultimately have run: "disk_file_grow df n log = Some ?df'"
    using room by (simp add: disk_file_grow_def Let_def)
  have size: "f_size ?f = PAGE_SIZE * (df_num_pages df + n)"
    using inv by (simp add: file_write_def df_inv_def algebra_simps)
  then have pages: "df_num_pages ?df' = df_num_pages df + n" by simp
  have "df_inv ?df'" using size room by (simp add: df_inv_def)
  moreover have "df_page ?df' q =
      (if df_num_pages df \<le> q \<and> q < df_num_pages df + n then (\<lambda>_. 0) else df_page df q)" for q
  proof -
    have "f_bytes ?f (PAGE_SIZE * q + i) = (if df_num_pages df \<le> q \<and> q < df_num_pages df + n then 0
        else f_bytes (df_file df) (PAGE_SIZE * q + i))" if "i < PAGE_SIZE" for i
      using in_page_range [OF that, of "df_num_pages df" q n] inv
      by (auto simp: file_write_def memcpy_def df_inv_def mult.commute [of n])
    then show ?thesis
      by (auto simp: df_page_def page_of_def)
  qed
  ultimately show ?thesis using run pages by (auto simp: df_frame_def)
qed

lemma disk_file_grow_exit: "df_inv df \<Longrightarrow> MAX_PAGE_NO \<le> df_num_pages df + n \<Longrightarrow> n < MAX_PAGE_NO \<Longrightarrow>
    disk_file_grow df n log = None"
  by (simp add: disk_file_grow_def df_inv_def MAX_PAGE_NO_def LONG_MAX_def PAGE_SIZE_def ULONG_RANGE_def)

lemma disk_file_shrink_ok:
  assumes inv: "df_inv df" and n: "n < df_num_pages df"
  shows "\<exists>df'. disk_file_shrink df n log = Some df' \<and> df_inv df' \<and> df_frame df df' \<and>
    df_num_pages df' = df_num_pages df - n \<and> df_page df' = df_page df"
proof -
  let ?f = "(df_file df)\<lparr>f_size := df_file_size df - PAGE_SIZE * n\<rparr>"
  let ?df = "df\<lparr>df_file := ?f, df_file_size := f_size ?f, df_num_pages := f_size ?f div PAGE_SIZE\<rparr>"
  let ?df' = "(df_log ?df log (Shrink_file (df_file_name ?df) n))\<lparr>df_write_count := df_write_count ?df + 1\<rparr>"
  have le: "df_num_pages df < ULONG_RANGE"
    using inv by (simp add: df_inv_def MAX_PAGE_NO_def LONG_MAX_def PAGE_SIZE_def ULONG_RANGE_def)
  then have "(df_num_pages df + ULONG_RANGE - n) mod ULONG_RANGE = df_num_pages df - n"
    using n by (intro wrap_sub) simp_all
  moreover have "PAGE_SIZE * n \<le> df_file_size df" using inv n by (simp add: df_inv_def)
  ultimately have run: "disk_file_shrink df n log = Some ?df'"
    using inv n by (simp add: disk_file_shrink_def Let_def df_inv_def)
  have size: "f_size ?f = PAGE_SIZE * (df_num_pages df - n)"
    using inv by (simp add: df_inv_def diff_mult_distrib2)
  then have "df_inv ?df'" using inv by (auto simp: df_inv_def)
  with run size show ?thesis by (auto simp: df_frame_def df_page_def)
qed

lemma disk_file_shrink_exit:
  assumes inv: "df_inv df" and n: "df_num_pages df \<le> n"
  shows "disk_file_shrink df n log = None"
proof (cases "n = df_num_pages df")
  case True
  then show ?thesis by (simp add: disk_file_shrink_def)
next
  case False
  then have "PAGE_SIZE * (df_num_pages df + 1) \<le> PAGE_SIZE * n" using n by (intro mult_le_mono) auto
  then have "df_file_size df < PAGE_SIZE * n" using inv False n by (simp add: df_inv_def)
  then show ?thesis by (simp add: disk_file_shrink_def)
qed

lemma disk_file_create_ok:
  "\<exists>df fs'. disk_file_create fs name log = Some (df, fs') \<and> df_inv df \<and> df_num_pages df = 0 \<and>
     df_file_name df = name \<and> df_log_file df = log \<and> dom fs' = insert name (dom fs) \<and>
     (\<forall>n. n \<noteq> name \<longrightarrow> fs' n = fs n)"
  by (simp add: disk_file_create_def disk_file_open_def df_inv_def MAX_PAGE_NO_def LONG_MAX_def
      PAGE_SIZE_def)

lemma disk_file_reopen:
  "df_inv df \<Longrightarrow> disk_file_open (disk_file_destroy fs df) (df_file_name df) log =
     Some \<lparr>df_file_name = df_file_name df, df_file = df_file df, df_file_size = df_file_size df,
       df_num_pages = df_num_pages df, df_read_count = 0, df_write_count = 0,
       df_log_file = log, df_trace = []\<rparr>"
  by (simp add: disk_file_open_def disk_file_destroy_def df_inv_def)

section \<open>Properties\<close>

text \<open>
  C8: Pages written to a file are the pages read back from it: after a write of the pages
  \<open>a\<close> to \<open>b\<close> a read of any range of existing pages returns the data just written for the
  pages in between and the old contents for all others; reads and writes that reach beyond the last
  page end the program, also the read of page \<^verbatim>\<open>num_pages\<close> that the guard lets pass.
\<close>
theorem read_after_write:
  assumes "df_inv df" "a \<le> b" "b < df_num_pages df" "c \<le> d"
  shows "\<exists>df'. write_pages df a b data log = Some df' \<and> df_inv df' \<and>
    df_num_pages df' = df_num_pages df \<and>
    (if d < df_num_pages df then
       \<exists>buf' df''. read_pages df' c d buf log = Some (buf', df'') \<and> df_inv df'' \<and>
         (\<forall>q i. c \<le> q \<and> q \<le> d \<and> i < PAGE_SIZE \<longrightarrow>
            buf' (PAGE_SIZE * (q - c) + i) =
              (if a \<le> q \<and> q \<le> b then data (PAGE_SIZE * (q - a) + i) else df_page df q i))
     else read_pages df' c d buf log = None \<and> write_pages df' c d data log = None)"
proof -
  obtain df' where w: "write_pages df a b data log = Some df'" "df_inv df'"
    "df_num_pages df' = df_num_pages df"
    "\<forall>q. df_page df' q = (if a \<le> q \<and> q \<le> b then page_of (\<lambda>i. data (PAGE_SIZE * (q - a) + i)) else df_page df q)"
    using write_pages_ok [OF assms(1-3), of data log] by blast
  show ?thesis
  proof (cases "d < df_num_pages df")
    case True
    obtain buf' df'' where r: "read_pages df' c d buf log = Some (buf', df'')" "df_inv df''"
      "\<forall>q. c \<le> q \<and> q \<le> d \<longrightarrow> page_of (\<lambda>i. buf' (PAGE_SIZE * (q - c) + i)) = df_page df' q"
      using read_pages_ok [OF w(2) assms(4), of buf log] True w(3) by auto
    have "buf' (PAGE_SIZE * (q - c) + i) =
        (if a \<le> q \<and> q \<le> b then data (PAGE_SIZE * (q - a) + i) else df_page df q i)"
      if "c \<le> q" "q \<le> d" "i < PAGE_SIZE" for q i
    proof -
      have "buf' (PAGE_SIZE * (q - c) + i) = df_page df' q i"
        using r(3) that page_of_nth by metis
      then show ?thesis using w(4) that(3) by simp
    qed
    with w r True show ?thesis by auto
  next
    case False
    then show ?thesis
      using w read_pages_exit [OF w(2), of d c] write_pages_exit [of df' d c] by auto
  qed
qed

text \<open>A file of \<open>n\<close> empty pages, for the examples.\<close>

definition blank_file :: "string \<Rightarrow> nat \<Rightarrow> disk_file" where
  "blank_file name n = \<lparr>df_file_name = name, df_file = \<lparr>f_bytes = (\<lambda>_. 0), f_size = PAGE_SIZE * n\<rparr>,
     df_file_size = PAGE_SIZE * n, df_num_pages = n, df_read_count = 0, df_write_count = 0,
     df_log_file = ''log'', df_trace = []\<rparr>"

lemma blank_file_inv: "n < 1000 \<Longrightarrow> df_inv (blank_file name n)"
  by (simp add: blank_file_def df_inv_def MAX_PAGE_NO_def LONG_MAX_def PAGE_SIZE_def)

theorem read_after_write_witness:
  "\<exists>df' buf' df''. write_pages (blank_file ''f'' 2) 1 1 (\<lambda>_. 7) False = Some df' \<and>
     read_pages df' 0 1 (\<lambda>_. 0) False = Some (buf', df'') \<and> buf' 5 = 0 \<and> buf' (PAGE_SIZE + 5) = 7"
proof -
  have "df_inv (blank_file ''f'' 2)" by (rule blank_file_inv) simp
  from read_after_write [OF this, of 1 1 0 1 "\<lambda>_. 7" False "\<lambda>_. 0"]
  obtain df' buf' df'' where w: "write_pages (blank_file ''f'' 2) 1 1 (\<lambda>_. 7) False = Some df'"
    "read_pages df' 0 1 (\<lambda>_. 0) False = Some (buf', df'')"
    and all: "\<And>q i. q \<le> 1 \<Longrightarrow> i < PAGE_SIZE \<Longrightarrow> buf' (PAGE_SIZE * q + i) =
      (if 1 \<le> q \<and> q \<le> 1 then 7 else df_page (blank_file ''f'' 2) q i)"
    by (auto simp: blank_file_def)
  have "buf' (PAGE_SIZE * 0 + 5) = 0" "buf' (PAGE_SIZE * 1 + 5) = 7"
    by (subst all; simp add: PAGE_SIZE_def df_page_def blank_file_def page_of_def)+
  with w show ?thesis by auto
qed

end
