(* ===== verification/Physical_Database.thy ===== *)
theory Physical_Database
  imports Disk_File
begin

text \<open>
  The five files of a database, \<^verbatim>\<open>src/io/physical_database.c\<close>: the catalogue, which stores the
  number of slots of each record file, and for nodes and for relationships a record file and a
  header file with one bit per slot. The invariant \<open>pd_inv\<close> is the bookkeeping that
  \<^verbatim>\<open>allocate_pages\<close> has to keep: catalogue, header size and \<^verbatim>\<open>remaining_header_bits\<close> agree with
  the size of the record files.
\<close>

section \<open>The structs\<close>

datatype file_type = node_ft | relationship_ft | invalid_ft

datatype file_kind = catalogue | header | records | invalid

fun ft_idx :: "file_type \<Rightarrow> nat" where
  "ft_idx node_ft = 0"
| "ft_idx relationship_ft = 1"
| "ft_idx invalid_ft = 2"

record phy_database =
  pd_catalogue :: disk_file
  pd_header :: "file_type \<Rightarrow> disk_file"
  pd_records :: "file_type \<Rightarrow> disk_file"
  pd_remaining_header_bits :: "file_type \<Rightarrow> nat"
  pd_log_file :: string

text \<open>The values of \<^verbatim>\<open>file_type\<close> that index the arrays.\<close>

definition file_types :: "file_type list" where
  "file_types = [node_ft, relationship_ft]"

section \<open>The operations\<close>

text \<open>
  \<^verbatim>\<open>phy_database_validate_empty_header\<close>: for an empty record file the header has to be one page
  of zeros, or is created as such.
\<close>

definition phy_database_validate_empty_header ::
    "phy_database \<Rightarrow> file_type \<Rightarrow> (bool \<times> phy_database) option" where
  "phy_database_validate_empty_header db ft =
    (if df_file_size (pd_header db ft) \<noteq> 0 then do {
       (buf, cat) \<leftarrow> read_page (pd_catalogue db) 0 (\<lambda>_. 0) False;
       let db = db\<lparr>pd_catalogue := cat\<rparr>;
       let size = get_ulong buf (ft_idx ft * 8);
       if size \<noteq> 0 \<or> df_file_size (pd_header db ft) \<noteq> PAGE_SIZE then Some (False, db)
       else do {
         (buf, hd) \<leftarrow> read_page (pd_header db ft) 0 buf False;
         let db = db\<lparr>pd_header := (pd_header db)(ft := hd)\<rparr>;
         if list_ex (\<lambda>i. buf i \<noteq> 0) [0..<PAGE_SIZE] then Some (False, db)
         else Some (True, db\<lparr>pd_remaining_header_bits :=
             (pd_remaining_header_bits db)(ft := PAGE_SIZE * CHAR_BIT)\<rparr>) } }
     else do {
       hd \<leftarrow> disk_file_grow (pd_header db ft) 1 False;
       Some (True, db\<lparr>pd_header := (pd_header db)(ft := hd), pd_remaining_header_bits :=
           (pd_remaining_header_bits db)(ft := PAGE_SIZE * CHAR_BIT)\<rparr>) })"

definition phy_database_validate_header ::
    "phy_database \<Rightarrow> file_type \<Rightarrow> (bool \<times> phy_database) option" where
  "phy_database_validate_header db ft =
    (if df_file_size (pd_header db ft) = 0 then Some (False, db)
     else do {
       (buf, cat) \<leftarrow> read_page (pd_catalogue db) 0 (\<lambda>_. 0) False;
       let db = db\<lparr>pd_catalogue := cat\<rparr>;
       let size = get_ulong buf (ft_idx ft * 8);
       let n_slots = df_file_size (pd_records db ft) div SLOT_SIZE;
       if size \<noteq> n_slots then Some (False, db)
       else Some (True, db\<lparr>pd_remaining_header_bits := (pd_remaining_header_bits db)
         (ft := (df_file_size (pd_header db ft) * CHAR_BIT + ULONG_RANGE - size) mod ULONG_RANGE)\<rparr>) })"

definition catalogue_name :: "string \<Rightarrow> string" where
  "catalogue_name db_name = db_name @ ''.info''"

fun header_name :: "string \<Rightarrow> file_type \<Rightarrow> string" where
  "header_name db_name ft = db_name @ (if ft = node_ft then ''_nodes.idx'' else ''_relationships.idx'')"

fun records_name :: "string \<Rightarrow> file_type \<Rightarrow> string" where
  "records_name db_name ft = db_name @ (if ft = node_ft then ''_nodes.db'' else ''_relationships.db'')"

text \<open>The branches on \<^verbatim>\<open>open\<close> of \<^verbatim>\<open>phy_database_create_internal\<close>.\<close>

definition open_or_create :: "filesys \<Rightarrow> bool \<Rightarrow> string \<Rightarrow> string \<Rightarrow> (disk_file \<times> filesys) option" where
  "open_or_create fs opn name log_file =
    (if \<not> opn then disk_file_create fs name log_file
     else do { df \<leftarrow> disk_file_open fs name log_file; Some (df, fs) })"

text \<open>The body of the loop that validates the headers.\<close>

definition validate :: "bool \<Rightarrow> phy_database \<Rightarrow> file_type \<Rightarrow> phy_database option" where
  "validate opn db ft = do {
     (valid_header, db) \<leftarrow>
       (if \<not> opn \<or> df_file_size (pd_records db ft) = 0
        then phy_database_validate_empty_header db ft
        else phy_database_validate_header db ft);
     if valid_header then Some db else None }"

definition phy_database_create_internal ::
    "filesys \<Rightarrow> string \<Rightarrow> bool \<Rightarrow> string \<Rightarrow> (phy_database \<times> filesys) option" where
  "phy_database_create_internal fs db_name opn log_file_name = do {
     (cat, fs) \<leftarrow> open_or_create fs opn (catalogue_name db_name) log_file_name;
     cat \<leftarrow> (if \<not> opn then disk_file_grow cat 1 False else Some cat);
     (nh, fs) \<leftarrow> open_or_create fs opn (header_name db_name node_ft) log_file_name;
     (rh, fs) \<leftarrow> open_or_create fs opn (header_name db_name relationship_ft) log_file_name;
     (nr, fs) \<leftarrow> open_or_create fs opn (records_name db_name node_ft) log_file_name;
     (rr, fs) \<leftarrow> open_or_create fs opn (records_name db_name relationship_ft) log_file_name;
     let db = \<lparr>pd_catalogue = cat, pd_header = (\<lambda>ft. if ft = node_ft then nh else rh),
       pd_records = (\<lambda>ft. if ft = node_ft then nr else rr), pd_remaining_header_bits = (\<lambda>_. 0),
       pd_log_file = log_file_name\<rparr>;
     db \<leftarrow> for_each (validate opn) db file_types;
     Some (db, fs) }"

definition phy_database_open :: "filesys \<Rightarrow> string \<Rightarrow> string \<Rightarrow> (phy_database \<times> filesys) option" where
  "phy_database_open fs db_name log_file_name = phy_database_create_internal fs db_name True log_file_name"

definition phy_database_create :: "filesys \<Rightarrow> string \<Rightarrow> string \<Rightarrow> (phy_database \<times> filesys) option" where
  "phy_database_create fs db_name log_file_name = phy_database_create_internal fs db_name False log_file_name"

definition phy_database_close :: "filesys \<Rightarrow> phy_database \<Rightarrow> filesys" where
  "phy_database_close fs db =
     fold (\<lambda>ft fs. disk_file_destroy (disk_file_destroy fs (pd_header db ft)) (pd_records db ft))
       file_types (disk_file_destroy fs (pd_catalogue db))"

definition phy_database_delete :: "filesys \<Rightarrow> phy_database \<Rightarrow> filesys" where
  "phy_database_delete fs db =
     fold (\<lambda>ft fs. disk_file_delete (disk_file_delete fs (pd_header db ft)) (pd_records db ft))
       file_types (disk_file_delete fs (pd_catalogue db))"

text \<open>The adjustment of header file and \<^verbatim>\<open>remaining_header_bits\<close> in \<^verbatim>\<open>allocate_pages\<close>.\<close>

definition allocate_header :: "phy_database \<Rightarrow> file_type \<Rightarrow> nat \<Rightarrow> bool \<Rightarrow> phy_database option" where
  "allocate_header db ft neccessary_bits log =
    (let remaining = pd_remaining_header_bits db ft in
     if remaining < neccessary_bits then do {
       let additional_bits = neccessary_bits - remaining;
       let additional_bytes = additional_bits div CHAR_BIT + (if additional_bits mod CHAR_BIT \<noteq> 0 then 1 else 0);
       let additional_pages = additional_bytes div PAGE_SIZE + (if additional_bytes mod PAGE_SIZE \<noteq> 0 then 1 else 0);
       hd \<leftarrow> disk_file_grow (pd_header db ft) additional_pages log;
       Some (db\<lparr>pd_header := (pd_header db)(ft := hd), pd_remaining_header_bits :=
         (pd_remaining_header_bits db)(ft := additional_pages * PAGE_SIZE * CHAR_BIT - additional_bits)\<rparr>) }
     else Some (db\<lparr>pd_remaining_header_bits :=
         (pd_remaining_header_bits db)(ft := remaining - neccessary_bits)\<rparr>))"

text \<open>The end of \<^verbatim>\<open>allocate_pages\<close>: the new number of slots goes to the catalogue.\<close>

definition catalogue_add :: "disk_file \<Rightarrow> file_type \<Rightarrow> nat \<Rightarrow> bool \<Rightarrow> disk_file option" where
  "catalogue_add cat ft neccessary_bits log = do {
     (catl, cat) \<leftarrow> read_page cat 0 (\<lambda>_. 0) log;
     let bits = get_ulong catl (ft_idx ft * 8) + neccessary_bits;
     write_page cat 0 (put_ulong catl (ft_idx ft * 8) bits) log }"

definition allocate_pages :: "phy_database \<Rightarrow> file_type \<Rightarrow> nat \<Rightarrow> bool \<Rightarrow> phy_database option" where
  "allocate_pages db ft num_pages log =
    (if ft \<noteq> node_ft \<and> ft \<noteq> relationship_ft then None
     else do {
       rec \<leftarrow> disk_file_grow (pd_records db ft) num_pages log;
       let db = db\<lparr>pd_records := (pd_records db)(ft := rec)\<rparr>;
       let neccessary_bits = num_pages * (PAGE_SIZE div SLOT_SIZE);
       db \<leftarrow> allocate_header db ft neccessary_bits log;
       cat \<leftarrow> catalogue_add (pd_catalogue db) ft neccessary_bits log;
       Some (db\<lparr>pd_catalogue := cat\<rparr>) })"

definition phy_database_swap_log_file :: "phy_database \<Rightarrow> string \<Rightarrow> phy_database" where
  "phy_database_swap_log_file db log_file_path =
     db\<lparr>pd_log_file := log_file_path,
       pd_catalogue := disk_file_swap_log_file (pd_catalogue db) log_file_path,
       pd_header := (\<lambda>ft. disk_file_swap_log_file (pd_header db ft) log_file_path),
       pd_records := (\<lambda>ft. disk_file_swap_log_file (pd_records db ft) log_file_path)\<rparr>"

section \<open>The bookkeeping invariant\<close>

definition n_slots :: "phy_database \<Rightarrow> file_type \<Rightarrow> nat" where
  "n_slots db ft = df_num_pages (pd_records db ft) * SLOTS_PER_PAGE"

definition pd_inv :: "phy_database \<Rightarrow> bool" where
  "pd_inv db \<longleftrightarrow> df_inv (pd_catalogue db) \<and> 0 < df_num_pages (pd_catalogue db) \<and>
     (\<forall>ft \<in> set file_types.
        df_inv (pd_header db ft) \<and> df_inv (pd_records db ft) \<and> 0 < df_num_pages (pd_header db ft) \<and>
        pd_remaining_header_bits db ft + n_slots db ft = df_num_pages (pd_header db ft) * PAGE_SIZE * CHAR_BIT \<and>
        pd_remaining_header_bits db ft \<le> PAGE_SIZE * CHAR_BIT \<and>
        get_ulong (df_page (pd_catalogue db) 0) (ft_idx ft * 8) = n_slots db ft)"

lemma file_types_simps [simp]: "node_ft \<in> set file_types" "relationship_ft \<in> set file_types"
  "ft \<in> set file_types \<longleftrightarrow> ft \<noteq> invalid_ft"
  by (cases ft; simp add: file_types_def)+

lemma ft_idx_inj [simp]: "ft_idx a = ft_idx b \<longleftrightarrow> a = b"
  by (cases a; cases b) auto

lemma ft_idx_le: "ft \<in> set file_types \<Longrightarrow> ft_idx ft \<le> 1"
  by (cases ft) (auto simp: file_types_def)

lemma catalogue_fields:
  assumes "a \<noteq> b"
  shows "ft_idx a * 8 + 8 \<le> ft_idx b * 8 \<or> ft_idx b * 8 + 8 \<le> ft_idx a * 8"
  using assms by (cases a; cases b) auto

text \<open>The header pages \<^verbatim>\<open>allocate_pages\<close> adds hold the additional bits.\<close>

lemma ceil_div: "(0::nat) < m \<Longrightarrow> x \<le> (x div m + (if x mod m \<noteq> 0 then 1 else 0)) * m"
proof -
  assume m: "0 < m"
  have "x mod m \<le> (if x mod m \<noteq> 0 then 1 else 0) * m" using mod_less_divisor [OF m, of x] by simp
  then have "x div m * m + x mod m \<le> x div m * m + (if x mod m \<noteq> 0 then 1 else 0) * m" by (rule add_left_mono)
  then show ?thesis by (simp only: div_mult_mod_eq add_mult_distrib)
qed

lemma additional_pages_enough:
  fixes bits :: nat
  defines "bytes \<equiv> bits div CHAR_BIT + (if bits mod CHAR_BIT \<noteq> 0 then 1 else 0)"
  shows "bits \<le> (bytes div PAGE_SIZE + (if bytes mod PAGE_SIZE \<noteq> 0 then 1 else 0)) * PAGE_SIZE * CHAR_BIT"
proof -
  have "bits \<le> bytes * CHAR_BIT" unfolding bytes_def by (rule ceil_div) (simp add: CHAR_BIT_def)
  also have "\<dots> \<le> (bytes div PAGE_SIZE + (if bytes mod PAGE_SIZE \<noteq> 0 then 1 else 0)) * PAGE_SIZE * CHAR_BIT"
    by (intro mult_le_mono ceil_div) auto
  finally show ?thesis .
qed

text \<open>The pages of the record and header files an operation leaves alone.\<close>

definition pd_pages :: "phy_database \<Rightarrow> file_kind \<Rightarrow> file_type \<Rightarrow> nat \<Rightarrow> buffer" where
  "pd_pages db fk ft = (case fk of
     catalogue \<Rightarrow> df_page (pd_catalogue db)
   | header \<Rightarrow> df_page (pd_header db ft)
   | records \<Rightarrow> df_page (pd_records db ft)
   | invalid \<Rightarrow> (\<lambda>_ _. 0))"

lemma additional_pages_le:
  fixes bits :: nat
  defines "bytes \<equiv> bits div CHAR_BIT + (if bits mod CHAR_BIT \<noteq> 0 then 1 else 0)"
  assumes "bits \<le> n * SLOTS_PER_PAGE"
  shows "bytes div PAGE_SIZE + (if bytes mod PAGE_SIZE \<noteq> 0 then 1 else 0) \<le> n"
  using assms(2) unfolding bytes_def size_defs by (auto split: if_splits)

lemma additional_pages_tight:
  fixes bits :: nat
  defines "bytes \<equiv> bits div CHAR_BIT + (if bits mod CHAR_BIT \<noteq> 0 then 1 else 0)"
  shows "(bytes div PAGE_SIZE + (if bytes mod PAGE_SIZE \<noteq> 0 then 1 else 0)) * PAGE_SIZE * CHAR_BIT - bits
    \<le> PAGE_SIZE * CHAR_BIT"
  unfolding bytes_def size_defs using div_times_less_eq_dividend [of bits 32768]
  by (auto simp: div_Suc div_mult2_eq [symmetric] split: if_splits)

text \<open>One file of a pair grows by pages of zeros.\<close>

definition grown :: "disk_file \<Rightarrow> disk_file \<Rightarrow> bool" where
  "grown df df' \<longleftrightarrow> df_num_pages df \<le> df_num_pages df' \<and>
     (\<forall>q. df_page df' q =
        (if df_num_pages df \<le> q \<and> q < df_num_pages df' then (\<lambda>_. 0) else df_page df q))"

lemma grown_refl [simp]: "grown df df"
  by (auto simp: grown_def)

lemma disk_file_grow_grown:
  assumes "df_inv df" "df_num_pages df + n < MAX_PAGE_NO"
  shows "\<exists>df'. disk_file_grow df n log = Some df' \<and> df_inv df' \<and> df_frame df df' \<and> grown df df' \<and>
    df_num_pages df' = df_num_pages df + n"
  using disk_file_grow_ok [OF assms, of log] by (auto simp: grown_def)

lemma allocate_header_ok:
  assumes inv: "df_inv (pd_header db ft)" and room: "df_num_pages (pd_header db ft) + n < MAX_PAGE_NO"
    and bits: "pd_remaining_header_bits db ft + slots = df_num_pages (pd_header db ft) * PAGE_SIZE * CHAR_BIT"
  shows "\<exists>hd rem. allocate_header db ft (n * SLOTS_PER_PAGE) log =
      Some (db\<lparr>pd_header := (pd_header db)(ft := hd),
        pd_remaining_header_bits := (pd_remaining_header_bits db)(ft := rem)\<rparr>) \<and>
    df_inv hd \<and> df_frame (pd_header db ft) hd \<and> grown (pd_header db ft) hd \<and>
    rem + (slots + n * SLOTS_PER_PAGE) = df_num_pages hd * PAGE_SIZE * CHAR_BIT \<and>
    (pd_remaining_header_bits db ft \<le> PAGE_SIZE * CHAR_BIT \<longrightarrow> rem \<le> PAGE_SIZE * CHAR_BIT)"
proof (cases "pd_remaining_header_bits db ft < n * SLOTS_PER_PAGE")
  case True
  let ?add = "n * SLOTS_PER_PAGE - pd_remaining_header_bits db ft"
  let ?by = "?add div CHAR_BIT + (if ?add mod CHAR_BIT \<noteq> 0 then 1 else 0)"
  let ?pg = "?by div PAGE_SIZE + (if ?by mod PAGE_SIZE \<noteq> 0 then 1 else 0)"
  have "?pg \<le> n" by (rule additional_pages_le) simp
  then have "df_num_pages (pd_header db ft) + ?pg < MAX_PAGE_NO" using room by linarith
  then obtain hd where hd: "disk_file_grow (pd_header db ft) ?pg log = Some hd" "df_inv hd"
    "df_frame (pd_header db ft) hd" "grown (pd_header db ft) hd"
    "df_num_pages hd = df_num_pages (pd_header db ft) + ?pg"
    using disk_file_grow_grown [OF inv] by blast
  have "?add \<le> ?pg * PAGE_SIZE * CHAR_BIT" by (rule additional_pages_enough)
  then have "(?pg * PAGE_SIZE * CHAR_BIT - ?add) + (slots + n * SLOTS_PER_PAGE) =
      df_num_pages hd * PAGE_SIZE * CHAR_BIT"
    using bits True by (simp add: hd(5) add_mult_distrib)
  moreover have "allocate_header db ft (n * SLOTS_PER_PAGE) log =
      Some (db\<lparr>pd_header := (pd_header db)(ft := hd), pd_remaining_header_bits :=
        (pd_remaining_header_bits db)(ft := ?pg * PAGE_SIZE * CHAR_BIT - ?add)\<rparr>)"
    using True hd(1) unfolding allocate_header_def Let_def by simp
  moreover have "?pg * PAGE_SIZE * CHAR_BIT - ?add \<le> PAGE_SIZE * CHAR_BIT" by (rule additional_pages_tight)
  ultimately show ?thesis using hd by blast
next
  case False
  then show ?thesis
    using inv bits
    by (intro exI [of _ "pd_header db ft"] exI [of _ "pd_remaining_header_bits db ft - n * SLOTS_PER_PAGE"])
      (auto simp: allocate_header_def df_frame_def)
qed

lemma catalogue_add_ok:
  assumes inv: "df_inv cat" "0 < df_num_pages cat" and ft: "ft \<in> set file_types"
    and less: "get_ulong (df_page cat 0) (ft_idx ft * 8) + k < ULONG_RANGE"
  shows "\<exists>cat'. catalogue_add cat ft k log = Some cat' \<and> df_inv cat' \<and>
    df_num_pages cat' = df_num_pages cat \<and>
    (\<forall>ft' \<in> set file_types. get_ulong (df_page cat' 0) (ft_idx ft' * 8) =
       get_ulong (df_page cat 0) (ft_idx ft' * 8) + (if ft' = ft then k else 0)) \<and>
    (\<forall>q i. q \<noteq> 0 \<or> i < ft_idx ft * 8 \<or> ft_idx ft * 8 + 8 \<le> i \<longrightarrow> df_page cat' q i = df_page cat q i)"
proof -
  have off: "ft_idx ft' * 8 + 8 \<le> PAGE_SIZE" if "ft' \<in> set file_types" for ft'
    using ft_idx_le [OF that] by (simp add: PAGE_SIZE_def)
  obtain catl cat1 where c1: "read_page cat 0 (\<lambda>_. 0) log = Some (catl, cat1)" "df_inv cat1"
    "df_num_pages cat1 = df_num_pages cat" "df_page cat1 = df_page cat" "page_of catl = df_page cat 0"
    using read_page_ok [OF inv, of "\<lambda>_. 0" log] by blast
  have bits: "get_ulong catl (ft_idx ft' * 8) = get_ulong (df_page cat 0) (ft_idx ft' * 8)"
    if "ft' \<in> set file_types" for ft'
    using c1(5) get_ulong_page_of [OF off [OF that], of catl] by simp
  let ?catl = "put_ulong catl (ft_idx ft * 8) (get_ulong catl (ft_idx ft * 8) + k)"
  have "0 < df_num_pages cat1" using inv(2) c1(3) by simp
  then obtain cat2 where c2: "write_page cat1 0 ?catl log = Some cat2" "df_inv cat2"
    "df_num_pages cat2 = df_num_pages cat1" "df_page cat2 = (df_page cat1)(0 := page_of ?catl)"
    using write_page_ok [OF c1(2), of 0 ?catl log] by blast
  have "get_ulong (df_page cat2 0) (ft_idx ft' * 8) =
       get_ulong (df_page cat 0) (ft_idx ft' * 8) + (if ft' = ft then k else 0)"
    if f: "ft' \<in> set file_types" for ft'
  proof (cases "ft' = ft")
    case True
    then show ?thesis using off [OF f] less bits [OF ft] by (simp add: c2(4))
  next
    case False
    have "get_ulong ?catl (ft_idx ft' * 8) = get_ulong catl (ft_idx ft' * 8)"
      by (rule get_put_ulong_other) (use catalogue_fields [OF False] in auto)
    then show ?thesis using off [OF f] False bits [OF f] by (simp add: c2(4))
  qed
  moreover have "df_page cat2 q i = df_page cat q i"
    if "q \<noteq> 0 \<or> i < ft_idx ft * 8 \<or> ft_idx ft * 8 + 8 \<le> i" for q i
    using that fun_cong [OF c1(5), of i]
    by (cases "q = 0") (auto simp: c2(4) c1(4) page_of_def put_ulong_other)
  ultimately show ?thesis using c1 c2 by (auto simp: catalogue_add_def)
qed

lemma slots_less:
  "p < MAX_PAGE_NO \<Longrightarrow> p * SLOTS_PER_PAGE < ULONG_RANGE"
  by (simp add: SLOTS_PER_PAGE_def SLOT_SIZE_def MAX_PAGE_NO_def LONG_MAX_def PAGE_SIZE_def ULONG_RANGE_def)

lemma pd_invD:
  assumes "pd_inv db"
  shows "df_inv (pd_catalogue db)" "0 < df_num_pages (pd_catalogue db)"
    "ft \<in> set file_types \<Longrightarrow> df_inv (pd_header db ft)" "ft \<in> set file_types \<Longrightarrow> df_inv (pd_records db ft)"
    "ft \<in> set file_types \<Longrightarrow> 0 < df_num_pages (pd_header db ft)"
    "ft \<in> set file_types \<Longrightarrow> pd_remaining_header_bits db ft + n_slots db ft =
       df_num_pages (pd_header db ft) * PAGE_SIZE * CHAR_BIT"
    "ft \<in> set file_types \<Longrightarrow> get_ulong (df_page (pd_catalogue db) 0) (ft_idx ft * 8) = n_slots db ft"
    "ft \<in> set file_types \<Longrightarrow> pd_remaining_header_bits db ft \<le> PAGE_SIZE * CHAR_BIT"
  using assms unfolding pd_inv_def by blast+

lemma allocate_pages_ok:
  assumes inv: "pd_inv db" and ft: "ft \<in> set file_types"
    and room: "df_num_pages (pd_records db ft) + n < MAX_PAGE_NO"
      "df_num_pages (pd_header db ft) + n < MAX_PAGE_NO"
  shows "\<exists>db'. allocate_pages db ft n log = Some db' \<and> pd_inv db' \<and>
    df_num_pages (pd_records db' ft) = df_num_pages (pd_records db ft) + n \<and>
    grown (pd_records db ft) (pd_records db' ft) \<and> grown (pd_header db ft) (pd_header db' ft) \<and>
    (\<forall>ft'. ft' \<noteq> ft \<longrightarrow> pd_records db' ft' = pd_records db ft' \<and> pd_header db' ft' = pd_header db ft') \<and>
    (\<forall>q i. q \<noteq> 0 \<or> i < ft_idx ft * 8 \<or> ft_idx ft * 8 + 8 \<le> i \<longrightarrow>
       df_page (pd_catalogue db') q i = df_page (pd_catalogue db) q i)"
proof -
  let ?need = "n * SLOTS_PER_PAGE"
  note invs = pd_invD [OF inv]
  have ftc: "ft = node_ft \<or> ft = relationship_ft" using ft unfolding file_types_def by auto
  obtain rec where rec: "disk_file_grow (pd_records db ft) n log = Some rec" "df_inv rec"
    "df_num_pages rec = df_num_pages (pd_records db ft) + n" "grown (pd_records db ft) rec"
    using disk_file_grow_grown [OF invs(4) [OF ft] room(1), of log] by blast
  let ?db1 = "db\<lparr>pd_records := (pd_records db)(ft := rec)\<rparr>"
  obtain hd rem where h: "allocate_header ?db1 ft ?need log = Some (?db1\<lparr>pd_header := (pd_header db)(ft := hd),
        pd_remaining_header_bits := (pd_remaining_header_bits db)(ft := rem)\<rparr>)" "df_inv hd"
    "grown (pd_header db ft) hd" "rem + (n_slots db ft + ?need) = df_num_pages hd * PAGE_SIZE * CHAR_BIT"
    "rem \<le> PAGE_SIZE * CHAR_BIT"
    using allocate_header_ok [of ?db1 ft n "n_slots db ft" log] invs(3) [OF ft] invs(6) [OF ft]
      invs(8) [OF ft] room(2) by auto
  have slots: "n_slots db ft + ?need = df_num_pages rec * SLOTS_PER_PAGE"
    by (simp add: n_slots_def rec(3) add_mult_distrib)
  then have "get_ulong (df_page (pd_catalogue db) 0) (ft_idx ft * 8) + ?need < ULONG_RANGE"
    using invs(7) [OF ft] slots_less room(1) rec(3) by simp
  then obtain cat where c: "catalogue_add (pd_catalogue db) ft ?need log = Some cat" "df_inv cat"
    "df_num_pages cat = df_num_pages (pd_catalogue db)"
    "\<forall>ft' \<in> set file_types. get_ulong (df_page cat 0) (ft_idx ft' * 8) =
       get_ulong (df_page (pd_catalogue db) 0) (ft_idx ft' * 8) + (if ft' = ft then ?need else 0)"
    "\<forall>q i. q \<noteq> 0 \<or> i < ft_idx ft * 8 \<or> ft_idx ft * 8 + 8 \<le> i \<longrightarrow> df_page cat q i = df_page (pd_catalogue db) q i"
    using catalogue_add_ok [OF invs(1,2) ft, of ?need log] by blast
  let ?db' = "?db1\<lparr>pd_header := (pd_header db)(ft := hd),
        pd_remaining_header_bits := (pd_remaining_header_bits db)(ft := rem), pd_catalogue := cat\<rparr>"
  have run: "allocate_pages db ft n log = Some ?db'"
    using ftc rec(1) h(1) c(1) unfolding allocate_pages_def SLOTS_PER_PAGE_def by auto
  have n: "n_slots ?db' ft' = n_slots db ft' + (if ft' = ft then ?need else 0)" for ft'
    using slots by (simp add: n_slots_def)
  have "0 < df_num_pages hd" using h(3) invs(5) [OF ft] by (simp add: grown_def)
  then have "pd_inv ?db'"
    unfolding pd_inv_def n using c(2-4) h(2,4,5) rec(2) invs by auto
  with run rec h c(5) show ?thesis by (intro exI [of _ ?db']) auto
qed

section \<open>Creating, closing and opening a database\<close>

lemma bytes_ul_zero [simp]: "bytes_ul (\<lambda>_. 0) off n = 0"
  by (induction n arbitrary: off) auto

lemma get_ulong_zero [simp]: "get_ulong (\<lambda>_. 0) off = 0"
  by (simp add: get_ulong_def)

text \<open>A file that was just created.\<close>

definition fresh_file :: "string \<Rightarrow> string \<Rightarrow> disk_file" where
  "fresh_file name log = \<lparr>df_file_name = name, df_file = \<lparr>f_bytes = (\<lambda>_. 0), f_size = 0\<rparr>,
     df_file_size = 0, df_num_pages = 0, df_read_count = 0, df_write_count = 0,
     df_log_file = log, df_trace = []\<rparr>"

lemma disk_file_create_eq:
  "disk_file_create fs name log = Some (fresh_file name log, fs(name \<mapsto> \<lparr>f_bytes = (\<lambda>_. 0), f_size = 0\<rparr>))"
  by (simp add: disk_file_create_def disk_file_open_def fresh_file_def)

lemma fresh_file_grow:
  "\<exists>df. disk_file_grow (fresh_file name log) 1 False = Some df \<and> df_inv df \<and> df_num_pages df = 1 \<and>
     df_page df 0 = (\<lambda>_. 0) \<and> df_file_name df = name \<and> df_log_file df = log"
proof -
  have inv: "df_inv (fresh_file name log)"
    by (simp add: fresh_file_def df_inv_def MAX_PAGE_NO_def LONG_MAX_def PAGE_SIZE_def)
  have "df_num_pages (fresh_file name log) + 1 < MAX_PAGE_NO"
    by (simp add: fresh_file_def MAX_PAGE_NO_def LONG_MAX_def PAGE_SIZE_def)
  from disk_file_grow_ok [OF inv this, of False] show ?thesis
    by (auto simp: fresh_file_def df_frame_def)
qed

lemma fresh_file_simps [simp]: "df_file_size (fresh_file n l) = 0" "df_num_pages (fresh_file n l) = 0"
  "df_file_name (fresh_file n l) = n"
  by (simp_all add: fresh_file_def)

lemma fresh_file_inv [simp]: "df_inv (fresh_file n l)"
  by (simp add: fresh_file_def df_inv_def MAX_PAGE_NO_def LONG_MAX_def PAGE_SIZE_def)

text \<open>The names of the files of an open database.\<close>

definition pd_named :: "string \<Rightarrow> phy_database \<Rightarrow> bool" where
  "pd_named name db \<longleftrightarrow> df_file_name (pd_catalogue db) = catalogue_name name \<and>
     (\<forall>ft \<in> set file_types. df_file_name (pd_header db ft) = header_name name ft \<and>
        df_file_name (pd_records db ft) = records_name name ft)"

lemma phy_database_create_ok:
  "\<exists>db fs'. phy_database_create fs name log = Some (db, fs') \<and> pd_inv db \<and> pd_named name db \<and>
     df_num_pages (pd_catalogue db) = 1 \<and>
     (\<forall>ft \<in> set file_types. df_num_pages (pd_records db ft) = 0 \<and> df_num_pages (pd_header db ft) = 1 \<and>
        df_page (pd_header db ft) 0 = (\<lambda>_. 0))"
proof -
  obtain cat where cat: "disk_file_grow (fresh_file (catalogue_name name) log) 1 False = Some cat"
    "df_inv cat" "df_num_pages cat = 1" "df_page cat 0 = (\<lambda>_. 0)" "df_file_name cat = catalogue_name name"
    using fresh_file_grow by blast
  obtain nh where nh: "disk_file_grow (fresh_file (header_name name node_ft) log) 1 False = Some nh"
    "df_inv nh" "df_num_pages nh = 1" "df_page nh 0 = (\<lambda>_. 0)" "df_file_name nh = header_name name node_ft"
    using fresh_file_grow by blast
  obtain rh where rh: "disk_file_grow (fresh_file (header_name name relationship_ft) log) 1 False = Some rh"
    "df_inv rh" "df_num_pages rh = 1" "df_page rh 0 = (\<lambda>_. 0)" "df_file_name rh = header_name name relationship_ft"
    using fresh_file_grow by blast
  note defs = phy_database_create_def phy_database_create_internal_def open_or_create_def
    disk_file_create_eq phy_database_validate_empty_header_def file_types_def validate_def
  show ?thesis
    using cat nh rh
    by (auto simp: defs Let_def pd_inv_def pd_named_def n_slots_def fun_upd_def)
qed

text \<open>
  A database with the same files; the remaining header bits, the counters and the logs may differ.
\<close>

definition pd_same :: "phy_database \<Rightarrow> phy_database \<Rightarrow> bool" where
  "pd_same db db' \<longleftrightarrow> df_same (pd_catalogue db) (pd_catalogue db') \<and>
     (\<forall>ft. df_same (pd_header db ft) (pd_header db' ft)) \<and>
     (\<forall>ft. df_same (pd_records db ft) (pd_records db' ft))"

text \<open>What opening needs of the files for one type.\<close>

definition pd_valid :: "phy_database \<Rightarrow> file_type \<Rightarrow> bool" where
  "pd_valid db ft \<longleftrightarrow> df_inv (pd_catalogue db) \<and> 0 < df_num_pages (pd_catalogue db) \<and>
     df_inv (pd_header db ft) \<and> df_inv (pd_records db ft) \<and> 0 < df_num_pages (pd_header db ft) \<and>
     n_slots db ft \<le> df_num_pages (pd_header db ft) * PAGE_SIZE * CHAR_BIT \<and>
     df_num_pages (pd_header db ft) * PAGE_SIZE * CHAR_BIT < ULONG_RANGE \<and>
     get_ulong (df_page (pd_catalogue db) 0) (ft_idx ft * 8) = n_slots db ft \<and>
     (df_num_pages (pd_records db ft) = 0 \<longrightarrow>
        df_num_pages (pd_header db ft) = 1 \<and> df_page (pd_header db ft) 0 = (\<lambda>_. 0))"

lemma pd_same_valid: "pd_same db db' \<Longrightarrow> pd_valid db' ft = pd_valid db ft"
proof -
  assume same: "pd_same db db'"
  have d: "df_page b = df_page a \<and> df_inv b = df_inv a \<and> df_num_pages b = df_num_pages a" if "df_same a b" for a b
    using df_sameD [OF that] that by (simp add: df_same_def)
  show ?thesis
    using same d [of "pd_catalogue db" "pd_catalogue db'"] d [of "pd_header db ft" "pd_header db' ft"]
      d [of "pd_records db ft" "pd_records db' ft"]
    by (simp add: pd_same_def pd_valid_def n_slots_def)
qed

lemma pd_sameD:
  assumes "pd_same db db'"
  shows "df_num_pages (pd_header db' ft) = df_num_pages (pd_header db ft)" "n_slots db' ft = n_slots db ft"
    "df_num_pages (pd_records db' ft) = df_num_pages (pd_records db ft)"
    "df_file_name (pd_header db' ft) = df_file_name (pd_header db ft)"
    "df_file_name (pd_records db' ft) = df_file_name (pd_records db ft)"
    "df_file_name (pd_catalogue db') = df_file_name (pd_catalogue db)"
    "pd_pages db' fk ft = pd_pages db fk ft"
proof -
  have d: "df_page b = df_page a" if "df_same a b" for a b using df_sameD [OF that] by simp
  show "pd_pages db' fk ft = pd_pages db fk ft"
    using assms d [of "pd_catalogue db" "pd_catalogue db'"] d [of "pd_header db ft" "pd_header db' ft"]
      d [of "pd_records db ft" "pd_records db' ft"]
    by (simp add: pd_same_def pd_pages_def split: file_kind.splits)
qed (use assms in \<open>simp_all add: pd_same_def df_same_def df_frame_def n_slots_def\<close>)

lemma pd_same_trans: "pd_same a b \<Longrightarrow> pd_same b c \<Longrightarrow> pd_same a c"
  unfolding pd_same_def by (meson df_same_trans)

lemma n_slots_file_size:
  "df_inv (pd_records db ft) \<Longrightarrow> df_file_size (pd_records db ft) div SLOT_SIZE = n_slots db ft"
  by (simp add: df_inv_def n_slots_def size_defs)

lemma validate_ok:
  assumes v: "pd_valid db ft"
  shows "\<exists>db'. validate True db ft = Some db' \<and> pd_same db db' \<and>
    pd_remaining_header_bits db' = (pd_remaining_header_bits db)
      (ft := df_num_pages (pd_header db ft) * PAGE_SIZE * CHAR_BIT - n_slots db ft)"
proof -
  have off: "ft_idx ft * 8 + 8 \<le> PAGE_SIZE" by (cases ft) (simp_all add: PAGE_SIZE_def)
  have inv: "df_inv (pd_catalogue db)" "0 < df_num_pages (pd_catalogue db)" "df_inv (pd_header db ft)"
    "df_inv (pd_records db ft)" "0 < df_num_pages (pd_header db ft)"
    "get_ulong (df_page (pd_catalogue db) 0) (ft_idx ft * 8) = n_slots db ft"
    using v unfolding pd_valid_def by auto
  obtain buf cat where c: "read_page (pd_catalogue db) 0 (\<lambda>_. 0) False = Some (buf, cat)"
    "page_of buf = df_page (pd_catalogue db) 0" using read_page_ok [OF inv(1,2)] by blast
  have cs: "df_same (pd_catalogue db) cat" using read_page_same [OF c(1)] .
  have size: "get_ulong buf (ft_idx ft * 8) = n_slots db ft"
    using inv(6) get_ulong_page_of [OF off, of buf] c(2) by simp
  have hsize: "df_file_size (pd_header db ft) = PAGE_SIZE * df_num_pages (pd_header db ft)"
    using inv(3) by (simp add: df_inv_def)
  show ?thesis
  proof (cases "df_file_size (pd_records db ft) = 0")
    case True
    then have z: "df_num_pages (pd_records db ft) = 0" using inv(4) by (auto simp: df_inv_def)
    then have one: "df_num_pages (pd_header db ft) = 1" "df_page (pd_header db ft) 0 = (\<lambda>_. 0)"
      using v by (simp_all add: pd_valid_def)
    obtain buf' hd where h: "read_page (pd_header db ft) 0 buf False = Some (buf', hd)"
      "page_of buf' = df_page (pd_header db ft) 0" using read_page_ok [OF inv(3,5)] by blast
    have "buf' i = 0" if "i < PAGE_SIZE" for i
      using page_of_nth [OF that, of buf'] by (simp add: h(2) one(2))
    then have "\<not> list_ex (\<lambda>i. buf' i \<noteq> 0) [0..<PAGE_SIZE]" by (simp add: list_ex_iff)
    then show ?thesis
      using True z one c(1) h(1) size hsize cs read_page_same [OF h(1)]
      by (auto simp: validate_def phy_database_validate_empty_header_def n_slots_def pd_same_def)
  next
    case False
    let ?bits = "df_num_pages (pd_header db ft) * PAGE_SIZE * CHAR_BIT"
    have "(?bits + ULONG_RANGE - n_slots db ft) mod ULONG_RANGE = ?bits - n_slots db ft"
      using v by (intro wrap_sub) (simp_all add: pd_valid_def)
    then show ?thesis
      using False c(1) size hsize cs inv(5) n_slots_file_size [OF inv(4)]
      by (auto simp: validate_def phy_database_validate_header_def pd_same_def mult.commute [of PAGE_SIZE])
  qed
qed

lemma pd_inv_valid:
  assumes inv: "pd_inv db" and ft: "ft \<in> set file_types"
    and empty: "df_num_pages (pd_records db ft) = 0 \<longrightarrow> df_page (pd_header db ft) 0 = (\<lambda>_. 0)"
  shows "pd_valid db ft"
proof -
  let ?bits = "df_num_pages (pd_header db ft) * PAGE_SIZE * CHAR_BIT"
  note i = pd_invD [OF inv] pd_invD(3-8) [OF inv ft]
  have bits: "pd_remaining_header_bits db ft + n_slots db ft = ?bits" by (rule i(12))
  have "df_num_pages (pd_records db ft) < MAX_PAGE_NO" using i(10) by (simp add: df_inv_def)
  then have "n_slots db ft + PAGE_SIZE * CHAR_BIT < ULONG_RANGE"
    by (simp add: n_slots_def size_defs MAX_PAGE_NO_def LONG_MAX_def ULONG_RANGE_def)
  then have "?bits < ULONG_RANGE" using bits i(14) by linarith
  moreover have "df_num_pages (pd_header db ft) = 1" if "df_num_pages (pd_records db ft) = 0"
  proof -
    have "?bits \<le> 1 * (PAGE_SIZE * CHAR_BIT)" using bits i(14) that by (simp add: n_slots_def)
    then have "df_num_pages (pd_header db ft) \<le> 1" by (simp add: size_defs)
    then show ?thesis using i(11) by simp
  qed
  ultimately show ?thesis using i bits empty unfolding pd_valid_def by auto
qed

lemma validate_all:
  assumes "\<forall>ft \<in> set fts. pd_valid db ft" "distinct fts"
  shows "\<exists>db'. for_each (validate True) db fts = Some db' \<and> pd_same db db' \<and>
    (\<forall>ft \<in> set fts. pd_remaining_header_bits db' ft =
       df_num_pages (pd_header db ft) * PAGE_SIZE * CHAR_BIT - n_slots db ft) \<and>
    (\<forall>ft. ft \<notin> set fts \<longrightarrow> pd_remaining_header_bits db' ft = pd_remaining_header_bits db ft)"
  using assms
proof (induction fts arbitrary: db)
  case Nil
  then show ?case by (simp add: pd_same_def)
next
  case (Cons ft fts)
  obtain db1 where d1: "validate True db ft = Some db1" "pd_same db db1"
    "pd_remaining_header_bits db1 = (pd_remaining_header_bits db)
      (ft := df_num_pages (pd_header db ft) * PAGE_SIZE * CHAR_BIT - n_slots db ft)"
    using validate_ok [of db ft] Cons.prems(1) by auto
  have same: "df_num_pages (pd_header db1 ft') = df_num_pages (pd_header db ft')"
    "n_slots db1 ft' = n_slots db ft'" for ft'
    using d1(2) by (simp_all add: pd_same_def df_same_def n_slots_def)
  obtain db2 where d2: "for_each (validate True) db1 fts = Some db2" "pd_same db1 db2"
    "\<forall>ft \<in> set fts. pd_remaining_header_bits db2 ft =
       df_num_pages (pd_header db ft) * PAGE_SIZE * CHAR_BIT - n_slots db ft"
    "\<forall>ft. ft \<notin> set fts \<longrightarrow> pd_remaining_header_bits db2 ft = pd_remaining_header_bits db1 ft"
    using Cons.IH [of db1] Cons.prems pd_same_valid [OF d1(2)] by (auto simp: same)
  show ?case
    using d1 d2 Cons.prems(2) pd_same_trans [OF d1(2) d2(2)] by auto
qed

lemma pd_inv_of_valid:
  assumes "\<forall>ft \<in> set file_types. pd_valid db ft \<and>
      pd_remaining_header_bits db ft = df_num_pages (pd_header db ft) * PAGE_SIZE * CHAR_BIT - n_slots db ft \<and>
      pd_remaining_header_bits db ft \<le> PAGE_SIZE * CHAR_BIT"
  shows "pd_inv db"
proof -
  have "pd_valid db node_ft" using assms by simp
  moreover have "pd_remaining_header_bits db ft + n_slots db ft = df_num_pages (pd_header db ft) * PAGE_SIZE * CHAR_BIT"
    if "ft \<in> set file_types" for ft
    using assms that unfolding pd_valid_def by auto
  ultimately show ?thesis using assms unfolding pd_inv_def pd_valid_def by blast
qed

text \<open>The struct that \<^verbatim>\<open>disk_file_open\<close> makes of a file, and the database before its headers are checked.\<close>

definition reopened :: "string \<Rightarrow> disk_file \<Rightarrow> disk_file" where
  "reopened log df = df\<lparr>df_read_count := 0, df_write_count := 0, df_log_file := log, df_trace := []\<rparr>"

definition reopened_db :: "string \<Rightarrow> phy_database \<Rightarrow> phy_database" where
  "reopened_db log db = \<lparr>pd_catalogue = reopened log (pd_catalogue db),
    pd_header = (\<lambda>ft. if ft = node_ft then reopened log (pd_header db node_ft) else reopened log (pd_header db relationship_ft)),
    pd_records = (\<lambda>ft. if ft = node_ft then reopened log (pd_records db node_ft) else reopened log (pd_records db relationship_ft)),
    pd_remaining_header_bits = (\<lambda>_. 0), pd_log_file = log\<rparr>"

lemma reopened_simps [simp]: "df_page (reopened log df) = df_page df" "df_inv (reopened log df) = df_inv df"
  "df_num_pages (reopened log df) = df_num_pages df" "df_file_name (reopened log df) = df_file_name df"
  by (simp_all add: reopened_def df_page_def df_inv_def fun_eq_iff)

lemma reopened_db_simps:
  "pd_catalogue (reopened_db log db) = reopened log (pd_catalogue db)"
  "ft \<in> set file_types \<Longrightarrow> pd_header (reopened_db log db) ft = reopened log (pd_header db ft)"
  "ft \<in> set file_types \<Longrightarrow> pd_records (reopened_db log db) ft = reopened log (pd_records db ft)"
  by (cases ft; simp add: reopened_db_def)+

lemma close_files:
  assumes "pd_named name db"
  shows "phy_database_close fs db (catalogue_name name) = Some (df_file (pd_catalogue db))"
    "ft \<in> set file_types \<Longrightarrow> phy_database_close fs db (header_name name ft) = Some (df_file (pd_header db ft))"
    "ft \<in> set file_types \<Longrightarrow> phy_database_close fs db (records_name name ft) = Some (df_file (pd_records db ft))"
  using assms
  by (auto simp: phy_database_close_def disk_file_destroy_def pd_named_def file_types_def catalogue_name_def)

lemma open_after_close:
  assumes inv: "pd_inv db" and named: "pd_named name db" and fs'_def: "fs' = phy_database_close fs db"
  shows "phy_database_open fs' name log =
    do { db' \<leftarrow> for_each (validate True) (reopened_db log db) file_types; Some (db', fs') }"
proof -
  have open1: "open_or_create fs' True (df_file_name df) log = Some (reopened log df, fs')"
    if "fs' (df_file_name df) = Some (df_file df)" "df_inv df" for df
    using that by (simp add: open_or_create_def disk_file_open_def reopened_def df_inv_def)
  have h: "open_or_create fs' True (header_name name ft) log = Some (reopened log (pd_header db ft), fs')"
    "open_or_create fs' True (records_name name ft) log = Some (reopened log (pd_records db ft), fs')"
    if "ft \<in> set file_types" for ft
    using open1 [of "pd_header db ft"] open1 [of "pd_records db ft"] close_files(2,3) [OF named that, of fs]
      pd_invD(3,4) [OF inv that] named that by (simp_all add: pd_named_def fs'_def)
  have c: "open_or_create fs' True (catalogue_name name) log = Some (reopened log (pd_catalogue db), fs')"
    using open1 [of "pd_catalogue db"] close_files(1) [OF named, of fs] pd_invD(1) [OF inv] named
    by (simp add: pd_named_def fs'_def)
  show ?thesis
    using h [of node_ft] h [of relationship_ft] c
    by (simp add: phy_database_open_def phy_database_create_internal_def reopened_db_def
        del: header_name.simps records_name.simps)
qed

lemma reopen_ok:
  assumes inv: "pd_inv db" and named: "pd_named name db"
    and empty: "\<forall>ft \<in> set file_types. df_num_pages (pd_records db ft) = 0 \<longrightarrow> df_page (pd_header db ft) 0 = (\<lambda>_. 0)"
  shows "\<exists>db'. phy_database_open (phy_database_close fs db) name log = Some (db', phy_database_close fs db) \<and>
    pd_inv db' \<and> pd_named name db' \<and> df_num_pages (pd_catalogue db') = df_num_pages (pd_catalogue db) \<and>
    (\<forall>fk. \<forall>ft \<in> set file_types. pd_pages db' fk ft = pd_pages db fk ft \<and>
       pd_remaining_header_bits db' ft = pd_remaining_header_bits db ft \<and>
       df_num_pages (pd_records db' ft) = df_num_pages (pd_records db ft) \<and>
       df_num_pages (pd_header db' ft) = df_num_pages (pd_header db ft))"
proof -
  let ?db0 = "reopened_db log db"
  note i = pd_invD [OF inv]
  note r = reopened_db_simps [where log = log and db = db]
  have ns: "n_slots ?db0 ft = n_slots db ft" if "ft \<in> set file_types" for ft
    using r(3) [OF that] by (simp add: n_slots_def)
  have valid: "pd_valid ?db0 ft" if "ft \<in> set file_types" for ft
    using pd_inv_valid [OF inv that] empty that r(1) r(2,3) [OF that] ns [OF that] by (simp add: pd_valid_def)
  obtain db' where d: "for_each (validate True) ?db0 file_types = Some db'" "pd_same ?db0 db'"
    "\<forall>ft \<in> set file_types. pd_remaining_header_bits db' ft =
       df_num_pages (pd_header ?db0 ft) * PAGE_SIZE * CHAR_BIT - n_slots ?db0 ft"
    using validate_all [of file_types ?db0] valid by (auto simp: file_types_def)
  note same = pd_sameD [OF d(2)]
  have rem: "pd_remaining_header_bits db' ft = pd_remaining_header_bits db ft" if "ft \<in> set file_types" for ft
    using d(3) that i(6) [OF that] ns [OF that] r(2) [OF that] by auto
  have "pd_inv db'"
  proof (rule pd_inv_of_valid, intro ballI)
    fix ft assume f: "ft \<in> set file_types"
    show "pd_valid db' ft \<and>
      pd_remaining_header_bits db' ft = df_num_pages (pd_header db' ft) * PAGE_SIZE * CHAR_BIT - n_slots db' ft \<and>
      pd_remaining_header_bits db' ft \<le> PAGE_SIZE * CHAR_BIT"
      using pd_same_valid [OF d(2)] valid [OF f] d(3) f rem [OF f] i(8) [OF f] by (simp only: same simp_thms)
  qed
  moreover have "pd_named name db'" using named same r unfolding pd_named_def by simp
  moreover have "df_num_pages (pd_catalogue db') = df_num_pages (pd_catalogue db)"
    using d(2) r(1) by (simp add: pd_same_def df_same_def reopened_def)
  moreover have "pd_pages db' fk ft = pd_pages db fk ft" if "ft \<in> set file_types" for fk ft
    unfolding same(7) using r(1) r(2,3) [OF that] by (cases fk) (simp_all add: pd_pages_def)
  moreover have "df_num_pages (pd_records db' ft) = df_num_pages (pd_records db ft)"
    "df_num_pages (pd_header db' ft) = df_num_pages (pd_header db ft)" if "ft \<in> set file_types" for ft
    unfolding same using r(2,3) [OF that] by simp_all
  ultimately show ?thesis
    using open_after_close [OF inv named refl, of fs log] d(1) rem by auto
qed

section \<open>Properties\<close>

text \<open>
  C7: \<^verbatim>\<open>allocate_pages\<close> keeps the bookkeeping of the database. If the record file and the header file
  of the type can both grow by the given number of pages (they stay below \<^verbatim>\<open>MAX_PAGE_NO\<close>), it returns
  with the record file grown by that many pages of zeros, the header file holds one bit for every
  slot, \<^verbatim>\<open>remaining_header_bits\<close> is the number of header bits without a slot, and the catalogue has
  the new number of slots. No existing page of the two files changes, nothing at all changes in the
  record and header file of the other type, and of the catalogue only the counter of the type.
\<close>
theorem allocate_pages_bookkeeping:
  assumes "pd_inv db" "ft \<in> {node_ft, relationship_ft}"
    and "df_num_pages (pd_records db ft) + n < MAX_PAGE_NO"
    and "df_num_pages (pd_header db ft) + n < MAX_PAGE_NO"
  shows "\<exists>db'. allocate_pages db ft n log = Some db' \<and> pd_inv db' \<and>
    df_num_pages (pd_records db' ft) = df_num_pages (pd_records db ft) + n \<and>
    pd_remaining_header_bits db' ft + df_num_pages (pd_records db' ft) * SLOTS_PER_PAGE =
      df_num_pages (pd_header db' ft) * PAGE_SIZE * CHAR_BIT \<and>
    get_ulong (df_page (pd_catalogue db') 0) (ft_idx ft * 8) = (df_num_pages (pd_records db ft) + n) * SLOTS_PER_PAGE \<and>
    (\<forall>q. df_num_pages (pd_records db ft) \<le> q \<and> q < df_num_pages (pd_records db ft) + n \<longrightarrow>
       df_page (pd_records db' ft) q = (\<lambda>_. 0)) \<and>
    (\<forall>q < df_num_pages (pd_records db ft). df_page (pd_records db' ft) q = df_page (pd_records db ft) q) \<and>
    (\<forall>q < df_num_pages (pd_header db ft). df_page (pd_header db' ft) q = df_page (pd_header db ft) q) \<and>
    (\<forall>ft'. ft' \<noteq> ft \<longrightarrow> pd_records db' ft' = pd_records db ft' \<and> pd_header db' ft' = pd_header db ft') \<and>
    (\<forall>q i. q \<noteq> 0 \<or> i < ft_idx ft * 8 \<or> ft_idx ft * 8 + 8 \<le> i \<longrightarrow>
       df_page (pd_catalogue db') q i = df_page (pd_catalogue db) q i)"
proof -
  have ft: "ft \<in> set file_types" using assms(2) by (auto simp: file_types_def)
  obtain db' where d: "allocate_pages db ft n log = Some db'" "pd_inv db'"
    "df_num_pages (pd_records db' ft) = df_num_pages (pd_records db ft) + n"
    "grown (pd_records db ft) (pd_records db' ft)" "grown (pd_header db ft) (pd_header db' ft)"
    "\<forall>ft'. ft' \<noteq> ft \<longrightarrow> pd_records db' ft' = pd_records db ft' \<and> pd_header db' ft' = pd_header db ft'"
    "\<forall>q i. q \<noteq> 0 \<or> i < ft_idx ft * 8 \<or> ft_idx ft * 8 + 8 \<le> i \<longrightarrow>
       df_page (pd_catalogue db') q i = df_page (pd_catalogue db) q i"
    using allocate_pages_ok [OF assms(1) ft assms(3,4), of log] by blast
  show ?thesis
    using d(1-3,6,7) pd_invD(6,7) [OF d(2) ft] d(4,5)
    by (intro exI [of _ db']) (simp add: n_slots_def grown_def)
qed

theorem allocate_pages_bookkeeping_witness:
  "\<exists>db db' fs. phy_database_create Map.empty ''db'' ''log'' = Some (db, fs) \<and>
     allocate_pages db relationship_ft 130 False = Some db' \<and>
     get_ulong (df_page (pd_catalogue db') 0) 8 = 130 * 256"
proof -
  obtain db fs where d: "phy_database_create Map.empty ''db'' ''log'' = Some (db, fs)" "pd_inv db"
    "df_num_pages (pd_records db relationship_ft) = 0" "df_num_pages (pd_header db relationship_ft) = 1"
    using phy_database_create_ok [of Map.empty "''db''" "''log''"] by auto
  from allocate_pages_bookkeeping [OF d(2), of relationship_ft 130 False] d show ?thesis
    by (auto simp: MAX_PAGE_NO_def LONG_MAX_def PAGE_SIZE_def SLOTS_PER_PAGE_def SLOT_SIZE_def)
qed

text \<open>
  C6: Creating a database always succeeds and gives empty record files with consistent bookkeeping;
  and a consistent database that is closed can be opened again: every header passes the validation,
  all pages of all five files and the remaining header bits are the same as before.
\<close>
theorem create_close_open:
  assumes "pd_inv db" "pd_named name db"
    and "\<forall>ft \<in> set file_types. df_num_pages (pd_records db ft) = 0 \<longrightarrow> df_page (pd_header db ft) 0 = (\<lambda>_. 0)"
  shows "(\<exists>db0 fs0. phy_database_create fs name log = Some (db0, fs0) \<and> pd_inv db0 \<and> pd_named name db0 \<and>
      df_num_pages (pd_records db0 node_ft) = 0 \<and> df_num_pages (pd_records db0 relationship_ft) = 0) \<and>
    (\<exists>db'. phy_database_open (phy_database_close fs db) name log = Some (db', phy_database_close fs db) \<and>
      pd_inv db' \<and>
      (\<forall>fk. \<forall>ft \<in> set file_types. pd_pages db' fk ft = pd_pages db fk ft \<and>
         pd_remaining_header_bits db' ft = pd_remaining_header_bits db ft))"
  using phy_database_create_ok [of fs name log] reopen_ok [OF assms, of fs log] by fastforce

theorem create_close_open_witness:
  "\<exists>db fs db'. phy_database_create Map.empty ''db'' ''log'' = Some (db, fs) \<and>
     phy_database_open (phy_database_close fs db) ''db'' ''log2'' = Some (db', phy_database_close fs db) \<and>
     pd_inv db'"
proof -
  obtain db fs where d: "phy_database_create Map.empty ''db'' ''log'' = Some (db, fs)" "pd_inv db"
    "pd_named ''db'' db"
    "\<forall>ft \<in> set file_types. df_num_pages (pd_records db ft) = 0 \<longrightarrow> df_page (pd_header db ft) 0 = (\<lambda>_. 0)"
    using phy_database_create_ok [of Map.empty "''db''" "''log''"] by auto
  from create_close_open [OF d(2-4), of fs "''log2''"] d(1) show ?thesis by blast
qed

end
