(* ===== verification/Page.thy ===== *)
theory Page
  imports Physical_Database
begin

text \<open>
  A page in a frame of the cache, \<^verbatim>\<open>src/cache/page.c\<close>, with the typed accessors. An accessor
  ends the program when the field does not lie in the page or the page is not pinned.
\<close>

section \<open>The struct and the accessors\<close>

record page =
  pg_fk :: file_kind
  pg_ft :: file_type
  pg_page_no :: nat
  pg_pin_count :: "32 word"
  pg_dirty :: bool
  pg_data :: buffer

definition page_create :: "buffer \<Rightarrow> page" where
  "page_create data = \<lparr>pg_fk = invalid, pg_ft = invalid_ft, pg_page_no = ULONG_MAX, pg_pin_count = 0,
     pg_dirty = False, pg_data = data\<rparr>"

definition page_destroy :: "page \<Rightarrow> unit option" where
  "page_destroy p = (if pg_pin_count p \<noteq> 0 \<or> pg_dirty p then None else Some ())"

definition read_ulong :: "page \<Rightarrow> nat \<Rightarrow> ulong option" where
  "read_ulong p offset =
    (if offset > PAGE_SIZE - 8 \<or> pg_pin_count p < 1 then None else Some (get_ulong (pg_data p) offset))"

definition write_ulong :: "page \<Rightarrow> nat \<Rightarrow> ulong \<Rightarrow> page option" where
  "write_ulong p offset val =
    (if offset > PAGE_SIZE - 8 \<or> pg_pin_count p < 1 then None
     else Some (p\<lparr>pg_data := put_ulong (pg_data p) offset val, pg_dirty := True\<rparr>))"

definition read_uchar :: "page \<Rightarrow> nat \<Rightarrow> byte option" where
  "read_uchar p offset =
    (if offset > PAGE_SIZE - 1 \<or> pg_pin_count p < 1 then None else Some (pg_data p offset))"

definition write_uchar :: "page \<Rightarrow> nat \<Rightarrow> byte \<Rightarrow> page option" where
  "write_uchar p offset val =
    (if offset > PAGE_SIZE - 1 \<or> pg_pin_count p < 1 then None
     else Some (p\<lparr>pg_data := (pg_data p)(offset := val), pg_dirty := True\<rparr>))"

definition read_double :: "page \<Rightarrow> nat \<Rightarrow> double_bits option" where
  "read_double p offset =
    (if offset > PAGE_SIZE - 8 \<or> pg_pin_count p < 1 then None else Some (get_ulong (pg_data p) offset))"

definition write_double :: "page \<Rightarrow> nat \<Rightarrow> double_bits \<Rightarrow> page option" where
  "write_double p offset val =
    (if offset > PAGE_SIZE - 8 \<or> pg_pin_count p < 1 then None
     else Some (p\<lparr>pg_data := put_ulong (pg_data p) offset val, pg_dirty := True\<rparr>))"

text \<open>
  The strings. The difference \<^verbatim>\<open>PAGE_SIZE - len\<close> in the guard is one of unsigned numbers, so a length above the
  page size passes it. The copy then leaves the page, which is undefined: this is the second test here, which is not in the code.
  \<^verbatim>\<open>write_string\<close> reads the last byte of the string before it looks at the pin count. \<^verbatim>\<open>strncpy\<close> copies
  up to the first zero byte and pads with zeros.
\<close>

definition string_guard :: "page \<Rightarrow> nat \<Rightarrow> nat \<Rightarrow> bool" where
  "string_guard p offset len \<longleftrightarrow> \<not> (offset > (PAGE_SIZE + ULONG_RANGE - len) mod ULONG_RANGE \<or> pg_pin_count p < 1)"

definition leaves_page :: "nat \<Rightarrow> nat \<Rightarrow> bool" where
  "leaves_page offset len \<longleftrightarrow> offset + len > PAGE_SIZE"

definition read_string :: "page \<Rightarrow> nat \<Rightarrow> buffer \<Rightarrow> nat \<Rightarrow> buffer option" where
  "read_string p offset buf len =
    (if \<not> string_guard p offset len then None
     else if leaves_page offset len then None
     else Some (memcpy buf 0 (\<lambda>j. pg_data p (offset + j)) len))"

definition strncpy :: "buffer \<Rightarrow> buffer" where
  "strncpy val = (\<lambda>i. if list_ex (\<lambda>j. val j = 0) [0..<i] then 0 else val i)"

definition write_string :: "page \<Rightarrow> nat \<Rightarrow> buffer \<Rightarrow> nat \<Rightarrow> page option" where
  "write_string p offset val len =
    (if len = 0 \<or> \<not> string_guard p offset len \<or> val (len - 1) \<noteq> 0 then None
     else if leaves_page offset len then None
     else Some (p\<lparr>pg_data := memcpy (pg_data p) offset (strncpy val) len, pg_dirty := True\<rparr>))"

section \<open>Round trips\<close>

lemma write_ulong_Some_iff: "write_ulong p off v = Some p' \<longleftrightarrow> off + 8 \<le> PAGE_SIZE \<and> pg_pin_count p \<noteq> 0 \<and>
    p' = p\<lparr>pg_data := put_ulong (pg_data p) off v, pg_dirty := True\<rparr>"
  by (auto simp: write_ulong_def PAGE_SIZE_def not_less)

lemma read_ulong_Some_iff:
  "read_ulong p off = Some v \<longleftrightarrow> off + 8 \<le> PAGE_SIZE \<and> pg_pin_count p \<noteq> 0 \<and> v = get_ulong (pg_data p) off"
  by (auto simp: read_ulong_def PAGE_SIZE_def not_less)

lemma write_double_eq: "write_double = write_ulong"
  by (simp add: fun_eq_iff write_double_def write_ulong_def)

lemma read_double_eq: "read_double = read_ulong"
  by (simp add: fun_eq_iff read_double_def read_ulong_def)

lemma read_uchar_Some_iff:
  "read_uchar p off = Some v \<longleftrightarrow> off < PAGE_SIZE \<and> pg_pin_count p \<noteq> 0 \<and> v = pg_data p off"
  by (auto simp: read_uchar_def PAGE_SIZE_def not_less)

lemma write_uchar_Some_iff: "write_uchar p off v = Some p' \<longleftrightarrow> off < PAGE_SIZE \<and> pg_pin_count p \<noteq> 0 \<and>
    p' = p\<lparr>pg_data := (pg_data p)(off := v), pg_dirty := True\<rparr>"
  by (auto simp: write_uchar_def PAGE_SIZE_def not_less)

lemma strncpy_prefix: "(\<forall>j < i. val j \<noteq> 0) \<Longrightarrow> strncpy val i = val i"
  by (auto simp: strncpy_def list_ex_iff)

lemma string_guard_fits:
  assumes "len < ULONG_RANGE"
  shows "string_guard p off len \<and> \<not> leaves_page off len \<longleftrightarrow> off + len \<le> PAGE_SIZE \<and> pg_pin_count p \<noteq> 0"
  using wrap_sub [of len PAGE_SIZE ULONG_RANGE] assms
  by (auto simp: string_guard_def leaves_page_def not_less PAGE_SIZE_def ULONG_RANGE_def)

text \<open>
  C9: The typed fields of a page. If the field lies in the page and the page is pinned, a value written to it is read back, the page
  becomes dirty, and every byte outside of the field keeps its value, for numbers, doubles, bytes and strings alike; a string comes back up to its
  terminating zero. An access whose field does not lie in the page, or to a page that is not pinned, has no result: the program ends, but for strings longer than
  the page, where the guard wraps around and the copy would leave the page.
\<close>
theorem page_fields:
  assumes "v < ULONG_RANGE" "len < ULONG_RANGE"
  shows "(if off + 8 \<le> PAGE_SIZE \<and> pg_pin_count p \<noteq> 0 then
       (\<exists>p'. write_ulong p off v = Some p' \<and> pg_dirty p' \<and> read_ulong p' off = Some v \<and> (\<forall>j. j < off \<or> off + 8 \<le> j \<longrightarrow> pg_data p' j = pg_data p j)) \<and>
       (\<exists>p'. write_double p off v = Some p' \<and> pg_dirty p' \<and> read_double p' off = Some v \<and> (\<forall>j. j < off \<or> off + 8 \<le> j \<longrightarrow> pg_data p' j = pg_data p j))
     else write_ulong p off v = None \<and> read_ulong p off = None \<and> write_double p off v = None \<and> read_double p off = None) \<and>
    (if off < PAGE_SIZE \<and> pg_pin_count p \<noteq> 0 then
       \<exists>p'. write_uchar p off b = Some p' \<and> pg_dirty p' \<and> read_uchar p' off = Some b \<and> (\<forall>j. j \<noteq> off \<longrightarrow> pg_data p' j = pg_data p j)
     else write_uchar p off b = None \<and> read_uchar p off = None) \<and>
    (if off + len \<le> PAGE_SIZE \<and> pg_pin_count p \<noteq> 0 then
       (\<exists>r. read_string p off buf len = Some r \<and> (\<forall>i. r i = (if i < len then pg_data p (off + i) else buf i))) \<and>
       (if 0 < len \<and> s (len - 1) = 0 then
          \<exists>p'. write_string p off s len = Some p' \<and> pg_dirty p' \<and> (\<forall>i < len. (\<forall>j < i. s j \<noteq> 0) \<longrightarrow> pg_data p' (off + i) = s i) \<and>
            (\<forall>j. j < off \<or> off + len \<le> j \<longrightarrow> pg_data p' j = pg_data p j)
        else write_string p off s len = None)
     else read_string p off buf len = None \<and> write_string p off s len = None)"
proof (intro conjI)
  show "if off + 8 \<le> PAGE_SIZE \<and> pg_pin_count p \<noteq> 0 then
       (\<exists>p'. write_ulong p off v = Some p' \<and> pg_dirty p' \<and> read_ulong p' off = Some v \<and> (\<forall>j. j < off \<or> off + 8 \<le> j \<longrightarrow> pg_data p' j = pg_data p j)) \<and>
       (\<exists>p'. write_double p off v = Some p' \<and> pg_dirty p' \<and> read_double p' off = Some v \<and> (\<forall>j. j < off \<or> off + 8 \<le> j \<longrightarrow> pg_data p' j = pg_data p j))
     else write_ulong p off v = None \<and> read_ulong p off = None \<and> write_double p off v = None \<and> read_double p off = None"
    using assms(1) unfolding write_double_eq read_double_eq
    by (auto simp: write_ulong_def read_ulong_def put_ulong_other PAGE_SIZE_def not_less)
  show "if off < PAGE_SIZE \<and> pg_pin_count p \<noteq> 0 then
       \<exists>p'. write_uchar p off b = Some p' \<and> pg_dirty p' \<and> read_uchar p' off = Some b \<and> (\<forall>j. j \<noteq> off \<longrightarrow> pg_data p' j = pg_data p j)
     else write_uchar p off b = None \<and> read_uchar p off = None"
    by (auto simp: write_uchar_def read_uchar_def PAGE_SIZE_def not_less)
  note g = string_guard_fits [OF assms(2), of p off]
  show "if off + len \<le> PAGE_SIZE \<and> pg_pin_count p \<noteq> 0 then
       (\<exists>r. read_string p off buf len = Some r \<and> (\<forall>i. r i = (if i < len then pg_data p (off + i) else buf i))) \<and>
       (if 0 < len \<and> s (len - 1) = 0 then
          \<exists>p'. write_string p off s len = Some p' \<and> pg_dirty p' \<and> (\<forall>i < len. (\<forall>j < i. s j \<noteq> 0) \<longrightarrow> pg_data p' (off + i) = s i) \<and>
            (\<forall>j. j < off \<or> off + len \<le> j \<longrightarrow> pg_data p' j = pg_data p j)
        else write_string p off s len = None)
     else read_string p off buf len = None \<and> write_string p off s len = None"
  proof (cases "off + len \<le> PAGE_SIZE \<and> pg_pin_count p \<noteq> 0")
    case True
    then have "string_guard p off len" "\<not> leaves_page off len" using g by simp_all
    then show ?thesis using True by (auto simp: read_string_def write_string_def memcpy_def strncpy_prefix)
  next
    case False
    then have "\<not> string_guard p off len \<or> leaves_page off len" using g by blast
    then show ?thesis unfolding if_not_P [OF False] by (auto simp: read_string_def write_string_def)
  qed
qed

theorem page_fields_witness:
  "\<exists>p' p2 p3. write_ulong ((page_create (\<lambda>_. 0))\<lparr>pg_pin_count := 1\<rparr>) 4088 77 = Some p' \<and> read_ulong p' 4088 = Some 77 \<and>
     write_uchar ((page_create (\<lambda>_. 0))\<lparr>pg_pin_count := 1\<rparr>) 4088 9 = Some p2 \<and> read_uchar p2 4088 = Some 9 \<and>
     write_string ((page_create (\<lambda>_. 0))\<lparr>pg_pin_count := 1\<rparr>) 4088 (\<lambda>i. if i < 3 then 65 else 0) 4 = Some p3 \<and> pg_data p3 4090 = 65"
proof -
  let ?s = "\<lambda>i. if i < 3 then 65 else 0"
  note f = page_fields [of 77 4 4088 "(page_create (\<lambda>_. 0))\<lparr>pg_pin_count := 1\<rparr>" 9 "\<lambda>_. 0" ?s]
  obtain p3 where "write_string ((page_create (\<lambda>_. 0))\<lparr>pg_pin_count := 1\<rparr>) 4088 ?s 4 = Some p3"
    "\<forall>i < 4. (\<forall>j < i. ?s j \<noteq> (0 :: byte)) \<longrightarrow> pg_data p3 (4088 + i) = ?s i"
    using f by (auto simp: ULONG_RANGE_def PAGE_SIZE_def)
  moreover from this(2) [THEN spec, of 2] have "pg_data p3 4090 = 65" by simp
  ultimately show ?thesis using f by (auto simp: ULONG_RANGE_def PAGE_SIZE_def)
qed

end
