(* ===== verification/Page_Cache.thy ===== *)
theory Page_Cache
  imports Page Linked_List Htable
begin

text \<open>
  The page cache, \<^verbatim>\<open>src/cache/page_cache.c\<close>: frames that hold pages of the five files, a hash
  table per file from page numbers to frames, the list of free frames and the queue of recently
  unpinned frames from which \<^verbatim>\<open>evict\<close> takes its victims. The lists and tables are the pointer
  and bucket level models of \<open>Linked_List\<close> and \<open>Htable\<close>.

  The contract is that the cache is transparent: \<open>pc_view\<close>, the contents of every page as seen
  through the cache, is changed by writes to pinned pages only. Pinning, unpinning, eviction and
  flushing keep it, whatever the order in which frames are reused. This theory has the model; the
  invariant and the effect of the operations are in \<open>Page_Cache_Inv\<close>, the conditions under which
  they return in \<open>Page_Cache_Live\<close>.
\<close>

section \<open>The struct\<close>

datatype pc_event =
    Pin file_kind file_type nat
  | Unpin file_kind file_type nat
  | Evict file_kind file_type nat
  | Flushed file_kind file_type nat

record page_cache =
  pc_pdb :: phy_database
  pc_n_frames :: nat
  pc_num_pins :: "64 word"
  pc_num_unpins :: "64 word"
  pc_bulk_import :: bool
  pc_log_file :: string
  pc_trace :: "(string \<times> pc_event) list"
  pc_free_frames :: "ulong llist"
  pc_recently_referenced :: "ulong llist"
  pc_page_map :: "file_kind \<Rightarrow> file_type \<Rightarrow> (ulong, ulong) htable"
  pc_frames :: "page list"

definition pc_log :: "page_cache \<Rightarrow> bool \<Rightarrow> pc_event \<Rightarrow> page_cache" where
  "pc_log pc log e = (if log then pc\<lparr>pc_trace := pc_trace pc @ [(pc_log_file pc, e)]\<rparr> else pc)"

text \<open>The files and tables the arrays of the structs have an entry for.\<close>

definition valid_file :: "file_kind \<Rightarrow> file_type \<Rightarrow> bool" where
  "valid_file fk ft \<longleftrightarrow> fk \<noteq> invalid \<and> ft \<noteq> invalid_ft \<and> (fk = catalogue \<longrightarrow> ft = node_ft)"

text \<open>The \<^verbatim>\<open>switch\<close> over the kind of file; the index \<^verbatim>\<open>invalid_ft\<close> lies outside of the arrays.\<close>

definition pdb_file :: "phy_database \<Rightarrow> file_kind \<Rightarrow> file_type \<Rightarrow> disk_file option" where
  "pdb_file db fk ft = (case fk of
     catalogue \<Rightarrow> Some (pd_catalogue db)
   | header \<Rightarrow> if ft = invalid_ft then None else Some (pd_header db ft)
   | records \<Rightarrow> if ft = invalid_ft then None else Some (pd_records db ft)
   | invalid \<Rightarrow> None)"

text \<open>An operation on a file of the database through its pointer.\<close>

definition set_file :: "phy_database \<Rightarrow> file_kind \<Rightarrow> file_type \<Rightarrow> disk_file \<Rightarrow> phy_database" where
  "set_file db fk ft df = (case fk of
     catalogue \<Rightarrow> db\<lparr>pd_catalogue := df\<rparr>
   | header \<Rightarrow> db\<lparr>pd_header := (pd_header db)(ft := df)\<rparr>
   | records \<Rightarrow> db\<lparr>pd_records := (pd_records db)(ft := df)\<rparr>
   | invalid \<Rightarrow> db)"

definition page_map_at :: "page_cache \<Rightarrow> file_kind \<Rightarrow> file_type \<Rightarrow> (ulong, ulong) htable option" where
  "page_map_at pc fk ft = (if valid_file fk ft then Some (pc_page_map pc fk ft) else None)"

definition set_page_map :: "page_cache \<Rightarrow> file_kind \<Rightarrow> file_type \<Rightarrow> (ulong, ulong) htable \<Rightarrow> page_cache" where
  "set_page_map pc fk ft m = pc\<lparr>pc_page_map := (pc_page_map pc)(fk := (pc_page_map pc fk)(ft := m))\<rparr>"

definition frame_at :: "page_cache \<Rightarrow> nat \<Rightarrow> page option" where
  "frame_at pc f = (if f < length (pc_frames pc) then Some (pc_frames pc ! f) else None)"

definition set_frame :: "page_cache \<Rightarrow> nat \<Rightarrow> page \<Rightarrow> page_cache" where
  "set_frame pc f p = pc\<lparr>pc_frames := (pc_frames pc)[f := p]\<rparr>"

section \<open>The operations\<close>

text \<open>
  \<^verbatim>\<open>page_cache_create\<close>. The arguments \<open>seed\<close> are the values of \<^verbatim>\<open>rand()\<close> for the tables.
\<close>

definition fill_free_frames :: "nat \<Rightarrow> ulong llist option" where
  "fill_free_frames n_frames = for_each ll_append ll_ul_create [0..<n_frames]"

definition page_cache_create ::
    "(file_kind \<Rightarrow> file_type \<Rightarrow> nat) \<Rightarrow> phy_database \<Rightarrow> nat \<Rightarrow> string \<Rightarrow> page_cache option" where
  "page_cache_create seed pdb n_frames log_path = do {
     free_frames \<leftarrow> fill_free_frames n_frames;
     Some \<lparr>pc_pdb = pdb, pc_n_frames = n_frames, pc_num_pins = 0, pc_num_unpins = 0,
       pc_bulk_import = False, pc_log_file = log_path, pc_trace = [],
       pc_free_frames = free_frames, pc_recently_referenced = ll_ul_create,
       pc_page_map = (\<lambda>fk ft. d_ul_ul_create (seed fk ft)),
       pc_frames = replicate n_frames (page_create (\<lambda>_. 0))\<rparr> }"

definition flush_page :: "page_cache \<Rightarrow> nat \<Rightarrow> bool \<Rightarrow> page_cache option" where
  "flush_page pc frame_no log = do {
     candidate \<leftarrow> frame_at pc frame_no;
     if pg_pin_count candidate > 0 then None
     else do {
       pc \<leftarrow> (if pg_dirty candidate then do {
           df \<leftarrow> pdb_file (pc_pdb pc) (pg_fk candidate) (pg_ft candidate);
           df \<leftarrow> write_page df (pg_page_no candidate) (pg_data candidate) log;
           let pc = pc\<lparr>pc_pdb := set_file (pc_pdb pc) (pg_fk candidate) (pg_ft candidate) df\<rparr>;
           Some (set_frame pc frame_no (candidate\<lparr>pg_dirty := False\<rparr>)) }
         else Some pc);
       Some (pc_log pc log (Flushed (pg_fk candidate) (pg_ft candidate) (pg_page_no candidate))) } }"

definition flush_all_pages :: "page_cache \<Rightarrow> bool \<Rightarrow> page_cache option" where
  "flush_all_pages pc log = for_each (\<lambda>pc i. flush_page pc i log) pc [0..<pc_n_frames pc]"

text \<open>
  The common part of the loops of \<^verbatim>\<open>evict\<close> and \<^verbatim>\<open>bulk_evict\<close>: the page in an unpinned frame
  is written back, the frame is taken out of the lookup table, cleared and added to the free frames.
\<close>

definition evict_frame :: "page_cache \<Rightarrow> nat \<Rightarrow> bool \<Rightarrow> page_cache option" where
  "evict_frame pc candidate log = do {
     pc \<leftarrow> flush_page pc candidate log;
     p \<leftarrow> frame_at pc candidate;
     let pc = pc_log pc log (Evict (pg_fk p) (pg_ft p) (pg_page_no p));
     m \<leftarrow> page_map_at pc (pg_fk p) (pg_ft p);
     m \<leftarrow> ht_remove m (pg_page_no p);
     let pc = set_page_map pc (pg_fk p) (pg_ft p) m;
     ff \<leftarrow> ll_append (pc_free_frames pc) candidate;
     let pc = pc\<lparr>pc_free_frames := ff\<rparr>;
     Some (set_frame pc candidate (p\<lparr>pg_page_no := ULONG_MAX, pg_fk := invalid, pg_ft := invalid_ft,
       pg_data := memset0 (pg_data p) PAGE_SIZE\<rparr>)) }"

text \<open>
  The first loop of \<^verbatim>\<open>evict\<close>: \<open>i\<close> is the position in the queue, \<open>n\<close> the number of
  positions left, \<open>ev\<close> the array \<^verbatim>\<open>evict_index\<close>.
\<close>

fun evict_loop :: "page_cache \<Rightarrow> bool \<Rightarrow> nat \<Rightarrow> nat \<Rightarrow> nat list \<Rightarrow> (page_cache \<times> nat list) option" where
  "evict_loop pc log i 0 ev = Some (pc, ev)"
| "evict_loop pc log i (Suc n) ev = do {
     candidate \<leftarrow> ll_get (pc_recently_referenced pc) i;
     p \<leftarrow> frame_at pc candidate;
     if pg_pin_count p = 0 then do {
       pc \<leftarrow> evict_frame pc candidate log;
       let ev = ev @ [i];
       if length ev \<ge> EVICT_LRU_K then Some (pc, ev) else evict_loop pc log (Suc i) n ev }
     else evict_loop pc log (Suc i) n ev }"

definition evict :: "page_cache \<Rightarrow> bool \<Rightarrow> page_cache option" where
  "evict pc log = do {
     (pc, ev) \<leftarrow> evict_loop pc log 0 (ll_size (pc_recently_referenced pc)) [];
     rr \<leftarrow> for_each ll_remove (pc_recently_referenced pc) (rev ev);
     let pc = pc\<lparr>pc_recently_referenced := rr\<rparr>;
     if ev = [] then None else Some pc }"

definition bulk_evict :: "page_cache \<Rightarrow> page_cache option" where
  "bulk_evict pc = do {
     (pc, evicted) \<leftarrow> for_each (\<lambda>(pc, evicted) i. do {
         c_page \<leftarrow> frame_at pc i;
         if pg_pin_count c_page = 0 then do {
           pc \<leftarrow> evict_frame pc i False;
           Some (pc, evicted + 1) }
         else Some (pc, evicted) }) (pc, 0::nat) [0..<pc_n_frames pc];
     if evicted = 0 then None else Some pc }"

text \<open>
  The branch of \<^verbatim>\<open>pin_page\<close> for a page that is not in the cache: eviction when there is no free
  frame, then the page is read into the first free frame and entered into the lookup table.
\<close>

definition make_room :: "page_cache \<Rightarrow> bool \<Rightarrow> page_cache option" where
  "make_room pc log =
    (if ll_size (pc_free_frames pc) = 0 then
       if pc_bulk_import pc then bulk_evict pc else evict pc log
     else Some pc)"

definition load_page :: "page_cache \<Rightarrow> nat \<Rightarrow> file_kind \<Rightarrow> file_type \<Rightarrow> bool \<Rightarrow> (nat \<times> page_cache) option" where
  "load_page pc page_no fk ft log = do {
     (frame_no, ff) \<leftarrow> ll_take (pc_free_frames pc) 0;
     let pc = pc\<lparr>pc_free_frames := ff\<rparr>;
     pinned_page \<leftarrow> frame_at pc frame_no;
     df \<leftarrow> pdb_file (pc_pdb pc) fk ft;
     (data, df) \<leftarrow> read_page df page_no (pg_data pinned_page) log;
     let pc = pc\<lparr>pc_pdb := set_file (pc_pdb pc) fk ft df\<rparr>;
     let pc = set_frame pc frame_no (pinned_page\<lparr>pg_fk := fk, pg_ft := ft, pg_page_no := page_no,
       pg_pin_count := 1, pg_dirty := False, pg_data := data\<rparr>);
     m \<leftarrow> page_map_at pc fk ft;
     m \<leftarrow> ht_insert m page_no frame_no;
     Some (frame_no, set_page_map pc fk ft m) }"

text \<open>\<^verbatim>\<open>pin_page\<close> returns a pointer to a frame, in the model the index of the frame.\<close>

definition pin_page :: "page_cache \<Rightarrow> nat \<Rightarrow> file_kind \<Rightarrow> file_type \<Rightarrow> bool \<Rightarrow> (nat \<times> page_cache) option" where
  "pin_page pc page_no fk ft log =
    (if fk = catalogue \<and> ft \<noteq> node_ft then None
     else do {
       df \<leftarrow> pdb_file (pc_pdb pc) fk ft;
       if page_no \<ge> MAX_PAGE_NO \<or> page_no \<ge> df_num_pages df then None
       else do {
         m \<leftarrow> page_map_at pc fk ft;
         cached \<leftarrow> ht_contains m page_no;
         (frame_no, pc) \<leftarrow>
           (if cached then do {
              frame_no \<leftarrow> ht_get_direct m page_no;
              pinned_page \<leftarrow> frame_at pc frame_no;
              Some (frame_no, set_frame pc frame_no
                (pinned_page\<lparr>pg_pin_count := pg_pin_count pinned_page + 1\<rparr>)) }
            else do { pc \<leftarrow> make_room pc log; load_page pc page_no fk ft log });
         let pc = pc\<lparr>pc_num_pins := pc_num_pins pc + 1\<rparr>;
         Some (frame_no, pc_log pc log (Pin fk ft page_no)) } })"

definition requeue :: "page_cache \<Rightarrow> nat \<Rightarrow> page_cache option" where
  "requeue pc frame_no =
    (if \<not> pc_bulk_import pc then do {
       rr \<leftarrow> queue_move_back (pc_recently_referenced pc) frame_no;
       Some (pc\<lparr>pc_recently_referenced := rr\<rparr>) }
     else Some pc)"

definition unpin_page :: "page_cache \<Rightarrow> nat \<Rightarrow> file_kind \<Rightarrow> file_type \<Rightarrow> bool \<Rightarrow> page_cache option" where
  "unpin_page pc page_no fk ft log = do {
     m \<leftarrow> page_map_at pc fk ft;
     cached \<leftarrow> ht_contains m page_no;
     if \<not> cached then None
     else do {
       df \<leftarrow> pdb_file (pc_pdb pc) fk ft;
       if page_no \<ge> MAX_PAGE_NO \<or> page_no \<ge> df_num_pages df then None
       else do {
         frame_no \<leftarrow> ht_get_direct m page_no;
         unpinned_page \<leftarrow> frame_at pc frame_no;
         if pg_pin_count unpinned_page = 0 then None
         else do {
           let pc = set_frame pc frame_no (unpinned_page\<lparr>pg_pin_count := pg_pin_count unpinned_page - 1\<rparr>);
           pc \<leftarrow> requeue pc frame_no;
           let pc = pc\<lparr>pc_num_unpins := pc_num_unpins pc + 1\<rparr>;
           Some (pc_log pc log (Unpin fk ft page_no)) } } } }"

definition new_page :: "page_cache \<Rightarrow> file_type \<Rightarrow> bool \<Rightarrow> (nat \<times> page_cache) option" where
  "new_page pc ft log = do {
     pdb \<leftarrow> allocate_pages (pc_pdb pc) ft 1 log;
     let pc = pc\<lparr>pc_pdb := pdb\<rparr>;
     pin_page pc (df_num_pages (pd_records pdb ft) - 1) records ft log }"

definition page_cache_swap_log_file :: "page_cache \<Rightarrow> string \<Rightarrow> page_cache" where
  "page_cache_swap_log_file pc log_file_path = pc\<lparr>pc_log_file := log_file_path\<rparr>"

text \<open>
  \<^verbatim>\<open>page_cache_destroy\<close>: all pages are flushed before the memory is released. The result is the
  physical database, which outlives the cache.
\<close>

definition page_cache_destroy :: "page_cache \<Rightarrow> phy_database option" where
  "page_cache_destroy pc = do {
     pc \<leftarrow> flush_all_pages pc False;
     _ \<leftarrow> ll_destroy (pc_free_frames pc);
     _ \<leftarrow> ll_destroy (pc_recently_referenced pc);
     if pc_frames pc = [] then None
     else do {
       _ \<leftarrow> for_each (\<lambda>_ p. page_destroy p) () (pc_frames pc);
       Some (pc_pdb pc) } }"

definition page_cache_change_n_frames ::
    "(file_kind \<Rightarrow> file_type \<Rightarrow> nat) \<Rightarrow> page_cache \<Rightarrow> nat \<Rightarrow> page_cache option" where
  "page_cache_change_n_frames seed pc n_frames = do {
     pc \<leftarrow> flush_all_pages pc False;
     if list_ex (\<lambda>p. pg_pin_count p \<noteq> 0) (pc_frames pc) then None
     else if pc_frames pc = [] then None
     else do {
       _ \<leftarrow> for_each (\<lambda>_ p. page_destroy p) () (pc_frames pc);
       _ \<leftarrow> ll_destroy (pc_recently_referenced pc);
       _ \<leftarrow> ll_destroy (pc_free_frames pc);
       free_frames \<leftarrow> fill_free_frames n_frames;
       Some (pc\<lparr>pc_page_map := (\<lambda>fk ft. d_ul_ul_create (seed fk ft)),
         pc_recently_referenced := ll_ul_create, pc_free_frames := free_frames,
         pc_n_frames := n_frames, pc_frames := replicate n_frames (page_create (\<lambda>_. 0))\<rparr>) } }"

text \<open>
  The clients read and write a page through the pointer that \<^verbatim>\<open>pin_page\<close> returned.
\<close>

definition read_frame :: "page_cache \<Rightarrow> nat \<Rightarrow> (page \<Rightarrow> 'a option) \<Rightarrow> 'a option" where
  "read_frame pc f rd = do { p \<leftarrow> frame_at pc f; rd p }"

definition write_frame :: "page_cache \<Rightarrow> nat \<Rightarrow> (page \<Rightarrow> page option) \<Rightarrow> page_cache option" where
  "write_frame pc f wr = do { p \<leftarrow> frame_at pc f; p \<leftarrow> wr p; Some (set_frame pc f p) }"

end
