(* ===== verification/Page_Cache_Inv.thy ===== *)
theory Page_Cache_Inv
  imports Page_Cache
begin

text \<open>
  The invariant of the page cache and what its operations do to the pages as the clients see them.
  Each lemma about an operation has the form: if the operation returns, then the new state is
  well-formed, shows the same pages (or the written one), has the new pin counts, and pages that
  are pinned stay in their frames. The queue of recently referenced frames has no part in this:
  eviction checks the frames themselves.
\<close>

section \<open>The invariant and the view\<close>

definition file_of :: "phy_database \<Rightarrow> file_kind \<Rightarrow> file_type \<Rightarrow> disk_file" where
  "file_of db fk ft = (case fk of catalogue \<Rightarrow> pd_catalogue db | header \<Rightarrow> pd_header db ft | _ \<Rightarrow> pd_records db ft)"

definition pc_lookup :: "page_cache \<Rightarrow> file_kind \<Rightarrow> file_type \<Rightarrow> nat \<rightharpoonup> nat" where
  "pc_lookup pc fk ft = ht_map (pc_page_map pc fk ft)"

definition pc_pages :: "page_cache \<Rightarrow> file_kind \<Rightarrow> file_type \<Rightarrow> nat" where
  "pc_pages pc fk ft = df_num_pages (file_of (pc_pdb pc) fk ft)"

definition frame_key :: "page \<Rightarrow> file_kind \<times> file_type \<times> nat" where
  "frame_key p = (pg_fk p, pg_ft p, pg_page_no p)"

text \<open>A frame is free and clean, or holds a page of a file; a clean one agrees with the file.\<close>

definition frame_ok :: "phy_database \<Rightarrow> page \<Rightarrow> bool" where
  "frame_ok db p \<longleftrightarrow>
     (if pg_fk p = invalid then \<not> pg_dirty p \<and> pg_pin_count p = 0
      else valid_file (pg_fk p) (pg_ft p) \<and> pg_page_no p < df_num_pages (file_of db (pg_fk p) (pg_ft p)) \<and>
        (\<not> pg_dirty p \<longrightarrow> page_of (pg_data p) = df_page (file_of db (pg_fk p) (pg_ft p)) (pg_page_no p)))"

definition files_ok :: "phy_database \<Rightarrow> bool" where
  "files_ok db \<longleftrightarrow> (\<forall>fk ft. valid_file fk ft \<longrightarrow> df_inv (file_of db fk ft))"

definition maps_ok :: "page_cache \<Rightarrow> bool" where
  "maps_ok pc \<longleftrightarrow> (\<forall>fk ft. valid_file fk ft \<longrightarrow> ht_inv (pc_page_map pc fk ft) \<and>
     (\<forall>pn f. pc_lookup pc fk ft pn = Some f \<longleftrightarrow>
        f < length (pc_frames pc) \<and> frame_key (pc_frames pc ! f) = (fk, ft, pn)))"

definition free_ok :: "page_cache \<Rightarrow> bool" where
  "free_ok pc \<longleftrightarrow> ll_inv (pc_free_frames pc) \<and> distinct (ll_list (pc_free_frames pc)) \<and>
     set (ll_list (pc_free_frames pc)) = {f. f < length (pc_frames pc) \<and> pg_fk (pc_frames pc ! f) = invalid}"

definition pc_inv :: "page_cache \<Rightarrow> bool" where
  "pc_inv pc \<longleftrightarrow> length (pc_frames pc) = pc_n_frames pc \<and> files_ok (pc_pdb pc) \<and> maps_ok pc \<and> free_ok pc \<and>
     (\<forall>f < length (pc_frames pc). frame_ok (pc_pdb pc) (pc_frames pc ! f))"

text \<open>The page as the clients of the cache see it.\<close>

definition pc_view :: "page_cache \<Rightarrow> file_kind \<Rightarrow> file_type \<Rightarrow> nat \<Rightarrow> buffer" where
  "pc_view pc fk ft pn =
    (if \<not> valid_file fk ft then (\<lambda>_. 0)
     else case pc_lookup pc fk ft pn of
       Some f \<Rightarrow> page_of (pg_data (pc_frames pc ! f))
     | None \<Rightarrow> df_page (file_of (pc_pdb pc) fk ft) pn)"

subsection \<open>Accesses\<close>

lemma pc_log_simps [simp]:
  "pc_pdb (pc_log pc log e) = pc_pdb pc" "pc_n_frames (pc_log pc log e) = pc_n_frames pc"
  "pc_bulk_import (pc_log pc log e) = pc_bulk_import pc" "pc_free_frames (pc_log pc log e) = pc_free_frames pc"
  "pc_recently_referenced (pc_log pc log e) = pc_recently_referenced pc"
  "pc_page_map (pc_log pc log e) = pc_page_map pc" "pc_frames (pc_log pc log e) = pc_frames pc"
  by (simp_all add: pc_log_def)

lemma set_frame_simps [simp]:
  "pc_pdb (set_frame pc f p) = pc_pdb pc" "pc_n_frames (set_frame pc f p) = pc_n_frames pc"
  "pc_bulk_import (set_frame pc f p) = pc_bulk_import pc" "pc_free_frames (set_frame pc f p) = pc_free_frames pc"
  "pc_recently_referenced (set_frame pc f p) = pc_recently_referenced pc"
  "pc_page_map (set_frame pc f p) = pc_page_map pc" "pc_frames (set_frame pc f p) = (pc_frames pc)[f := p]"
  by (simp_all add: set_frame_def)

lemma set_page_map_simps [simp]:
  "pc_pdb (set_page_map pc fk ft m) = pc_pdb pc" "pc_n_frames (set_page_map pc fk ft m) = pc_n_frames pc"
  "pc_bulk_import (set_page_map pc fk ft m) = pc_bulk_import pc"
  "pc_free_frames (set_page_map pc fk ft m) = pc_free_frames pc"
  "pc_recently_referenced (set_page_map pc fk ft m) = pc_recently_referenced pc"
  "pc_frames (set_page_map pc fk ft m) = pc_frames pc"
  "pc_page_map (set_page_map pc fk ft m) fk' ft' = (if fk' = fk \<and> ft' = ft then m else pc_page_map pc fk' ft')"
  by (auto simp: set_page_map_def)

lemma frame_at_Some [simp]: "frame_at pc f = Some p \<longleftrightarrow> f < length (pc_frames pc) \<and> p = pc_frames pc ! f"
  by (auto simp: frame_at_def)

lemma frame_at_eq [simp]: "f < length (pc_frames pc) \<Longrightarrow> frame_at pc f = Some (pc_frames pc ! f)"
  by (simp add: frame_at_def)

lemma pdb_file_valid: "valid_file fk ft \<Longrightarrow> pdb_file db fk ft = Some (file_of db fk ft)"
  by (auto simp: valid_file_def pdb_file_def file_of_def split: file_kind.splits)

lemma file_of_set_file:
  "valid_file fk ft \<Longrightarrow> valid_file fk' ft' \<Longrightarrow>
     file_of (set_file db fk ft df) fk' ft' = (if fk' = fk \<and> ft' = ft then df else file_of db fk' ft')"
  by (auto simp: valid_file_def set_file_def file_of_def split: file_kind.splits)

lemma page_map_at_Some [simp]: "page_map_at pc fk ft = Some m \<longleftrightarrow> valid_file fk ft \<and> m = pc_page_map pc fk ft"
  by (auto simp: page_map_at_def)

lemma pc_invD:
  assumes "pc_inv pc"
  shows "length (pc_frames pc) = pc_n_frames pc" "valid_file fk ft \<Longrightarrow> df_inv (file_of (pc_pdb pc) fk ft)"
    "valid_file fk ft \<Longrightarrow> ht_inv (pc_page_map pc fk ft)"
    "valid_file fk ft \<Longrightarrow> pc_lookup pc fk ft pn = Some f \<longleftrightarrow>
       f < length (pc_frames pc) \<and> frame_key (pc_frames pc ! f) = (fk, ft, pn)"
    "f < length (pc_frames pc) \<Longrightarrow> frame_ok (pc_pdb pc) (pc_frames pc ! f)"
    "free_ok pc"
  using assms by (auto simp: pc_inv_def files_ok_def maps_ok_def)

lemma frame_okD:
  assumes "frame_ok db p" "pg_fk p \<noteq> invalid"
  shows "valid_file (pg_fk p) (pg_ft p)" "pg_page_no p < df_num_pages (file_of db (pg_fk p) (pg_ft p))"
    "\<not> pg_dirty p \<Longrightarrow> page_of (pg_data p) = df_page (file_of db (pg_fk p) (pg_ft p)) (pg_page_no p)"
  using assms by (auto simp: frame_ok_def)

lemma valid_file_kind: "valid_file fk ft \<Longrightarrow> fk \<noteq> invalid"
  by (simp add: valid_file_def)

text \<open>The page of a used frame, as the clients see it, is the one in the frame.\<close>

lemma lookup_frame:
  assumes "pc_inv pc" "f < length (pc_frames pc)" "pg_fk (pc_frames pc ! f) \<noteq> invalid"
  shows "valid_file (pg_fk (pc_frames pc ! f)) (pg_ft (pc_frames pc ! f))"
    "pc_lookup pc (pg_fk (pc_frames pc ! f)) (pg_ft (pc_frames pc ! f)) (pg_page_no (pc_frames pc ! f)) = Some f"
proof -
  show v: "valid_file (pg_fk (pc_frames pc ! f)) (pg_ft (pc_frames pc ! f))"
    using frame_okD(1) [OF pc_invD(5) [OF assms(1,2)] assms(3)] .
  show "pc_lookup pc (pg_fk (pc_frames pc ! f)) (pg_ft (pc_frames pc ! f)) (pg_page_no (pc_frames pc ! f)) = Some f"
    using pc_invD(4) [OF assms(1) v] assms(2) by (simp add: frame_key_def)
qed

lemma view_cong:
  assumes "\<And>fk ft. valid_file fk ft \<Longrightarrow> pc_lookup pc' fk ft = pc_lookup pc fk ft"
    "\<And>fk ft pn f. valid_file fk ft \<Longrightarrow> pc_lookup pc fk ft pn = Some f \<Longrightarrow>
       page_of (pg_data (pc_frames pc' ! f)) = page_of (pg_data (pc_frames pc ! f))"
    "\<And>fk ft pn. valid_file fk ft \<Longrightarrow> pc_lookup pc fk ft pn = None \<Longrightarrow>
       df_page (file_of (pc_pdb pc') fk ft) pn = df_page (file_of (pc_pdb pc) fk ft) pn"
  shows "pc_view pc' = pc_view pc"
  using assms by (auto simp: pc_view_def fun_eq_iff split: option.splits)

text \<open>The counters, the log and the queue have no part in the invariant.\<close>

lemma same_core:
  assumes "pc_pdb pc' = pc_pdb pc" "pc_n_frames pc' = pc_n_frames pc" "pc_free_frames pc' = pc_free_frames pc"
    "pc_page_map pc' = pc_page_map pc" "pc_frames pc' = pc_frames pc"
  shows "pc_lookup pc' = pc_lookup pc" "pc_pages pc' = pc_pages pc" "pc_inv pc' = pc_inv pc"
    "pc_view pc' = pc_view pc"
proof -
  show l: "pc_lookup pc' = pc_lookup pc" by (simp add: pc_lookup_def fun_eq_iff assms)
  show "pc_pages pc' = pc_pages pc" by (simp add: pc_pages_def fun_eq_iff assms)
  show "pc_inv pc' = pc_inv pc"
    unfolding pc_inv_def maps_ok_def free_ok_def l assms by (rule refl)
  show "pc_view pc' = pc_view pc"
    unfolding pc_view_def [abs_def] l assms by (rule refl)
qed

subsection \<open>What operations of the cache keep\<close>

text \<open>
  \<open>cache_step pc pc'\<close>: the new state is well-formed and shows the same pages, frames that are
  pinned are not touched, and unpinned frames stay unpinned and keep their page or become free.
\<close>

definition cache_step :: "page_cache \<Rightarrow> page_cache \<Rightarrow> bool" where
  "cache_step pc pc' \<longleftrightarrow> pc_inv pc' \<and> pc_view pc' = pc_view pc \<and> pc_n_frames pc' = pc_n_frames pc \<and>
     pc_bulk_import pc' = pc_bulk_import pc \<and>
     (\<forall>fk ft. valid_file fk ft \<longrightarrow> pc_pages pc' fk ft = pc_pages pc fk ft) \<and>
     (\<forall>f < length (pc_frames pc). if pg_pin_count (pc_frames pc ! f) = 0
        then pg_pin_count (pc_frames pc' ! f) = 0 \<and>
          (pg_fk (pc_frames pc' ! f) = invalid \<or> frame_key (pc_frames pc' ! f) = frame_key (pc_frames pc ! f))
        else pc_frames pc' ! f = pc_frames pc ! f)"

lemma cache_step_refl: "pc_inv pc \<Longrightarrow> cache_step pc pc"
  by (simp add: cache_step_def)

lemma cache_step_trans:
  assumes "pc_inv a" "cache_step a b" "cache_step b c"
  shows "cache_step a c"
proof -
  have "length (pc_frames b) = length (pc_frames a)"
    using assms(1,2) pc_invD(1) by (metis cache_step_def)
  then have "if pg_pin_count (pc_frames a ! f) = 0
      then pg_pin_count (pc_frames c ! f) = 0 \<and>
        (pg_fk (pc_frames c ! f) = invalid \<or> frame_key (pc_frames c ! f) = frame_key (pc_frames a ! f))
      else pc_frames c ! f = pc_frames a ! f" if "f < length (pc_frames a)" for f
    using assms(2,3) that unfolding cache_step_def frame_key_def
    by (metis (no_types, lifting) prod.inject)
  with assms(2,3) show ?thesis unfolding cache_step_def by simp
qed

lemma cache_step_inv: "cache_step pc pc' \<Longrightarrow> pc_inv pc'"
  by (simp add: cache_step_def)

subsection \<open>Flushing\<close>

lemma frame_key_inj:
  assumes "pc_inv pc" "f < length (pc_frames pc)" "g < length (pc_frames pc)"
    "frame_key (pc_frames pc ! f) = frame_key (pc_frames pc ! g)" "pg_fk (pc_frames pc ! f) \<noteq> invalid"
  shows "f = g"
proof -
  note v = lookup_frame(1) [OF assms(1,2,5)]
  let ?l = "pc_lookup pc (pg_fk (pc_frames pc ! f)) (pg_ft (pc_frames pc ! f)) (pg_page_no (pc_frames pc ! f))"
  have "?l = Some f" "?l = Some g"
    unfolding pc_invD(4) [OF assms(1) v] using assms(2,3,4) by (simp_all add: frame_key_def)
  then show ?thesis by simp
qed

lemma frame_ok_cong:
  assumes "frame_ok db p" "pg_fk p \<noteq> invalid \<Longrightarrow>
      df_num_pages (file_of db' (pg_fk p) (pg_ft p)) = df_num_pages (file_of db (pg_fk p) (pg_ft p)) \<and>
      df_page (file_of db' (pg_fk p) (pg_ft p)) (pg_page_no p) = df_page (file_of db (pg_fk p) (pg_ft p)) (pg_page_no p)"
  shows "frame_ok db' p"
  using assms by (auto simp: frame_ok_def)

text \<open>
  The frame \<open>f\<close> is replaced by one with the same key, the files change at most in the page of
  that key.
\<close>

lemma update_frame:
  assumes inv: "pc_inv pc" and f: "f < length (pc_frames pc)"
    and key: "frame_key p = frame_key (pc_frames pc ! f)" and ok: "frame_ok db p"
    and files: "files_ok db"
    and frames: "pc_frames pc' = (pc_frames pc)[f := p]" and db: "pc_pdb pc' = db"
    and rest: "pc_page_map pc' = pc_page_map pc" "pc_free_frames pc' = pc_free_frames pc" "pc_n_frames pc' = pc_n_frames pc"
    and pages: "\<And>fk ft. valid_file fk ft \<Longrightarrow> df_num_pages (file_of db fk ft) = pc_pages pc fk ft"
    and other: "\<And>fk ft pn. valid_file fk ft \<Longrightarrow> (fk, ft, pn) \<noteq> frame_key p \<Longrightarrow>
      df_page (file_of db fk ft) pn = df_page (file_of (pc_pdb pc) fk ft) pn"
  shows "pc_inv pc'" "pc_lookup pc' = pc_lookup pc"
    "(fk, ft, pn) \<noteq> frame_key p \<Longrightarrow> pc_view pc' fk ft pn = pc_view pc fk ft pn"
    "pg_fk p \<noteq> invalid \<Longrightarrow> pc_view pc' (pg_fk p) (pg_ft p) (pg_page_no p) = page_of (pg_data p)"
proof -
  have keys: "frame_key (pc_frames pc' ! g) = frame_key (pc_frames pc ! g)" if "g < length (pc_frames pc)" for g
    using that f key by (simp add: frames nth_list_update)
  show look: "pc_lookup pc' = pc_lookup pc" by (simp add: pc_lookup_def rest fun_eq_iff)
  have fks: "pg_fk (pc_frames pc' ! g) = pg_fk (pc_frames pc ! g)" if "g < length (pc_frames pc)" for g
    using keys [OF that] by (simp add: frame_key_def)
  have maps: "maps_ok pc'"
    using inv look keys rest(1) by (auto simp: pc_inv_def maps_ok_def frames)
  have free: "free_ok pc'"
    using pc_invD(6) [OF inv] fks by (auto simp: free_ok_def rest frames)
  have "frame_ok db (pc_frames pc' ! g)" if g: "g < length (pc_frames pc)" for g
  proof (cases "g = f")
    case True
    with ok f show ?thesis by (simp add: frames)
  next
    case False
    then have gp: "pc_frames pc' ! g = pc_frames pc ! g" by (simp add: frames)
    show ?thesis
      unfolding gp
    proof (rule frame_ok_cong [OF pc_invD(5) [OF inv g]])
      assume used: "pg_fk (pc_frames pc ! g) \<noteq> invalid"
      note v = lookup_frame(1) [OF inv g used]
      have "frame_key (pc_frames pc ! g) \<noteq> frame_key p"
        using frame_key_inj [OF inv g f _ used] key False by auto
      then show "df_num_pages (file_of db (pg_fk (pc_frames pc ! g)) (pg_ft (pc_frames pc ! g))) =
          df_num_pages (file_of (pc_pdb pc) (pg_fk (pc_frames pc ! g)) (pg_ft (pc_frames pc ! g))) \<and>
        df_page (file_of db (pg_fk (pc_frames pc ! g)) (pg_ft (pc_frames pc ! g))) (pg_page_no (pc_frames pc ! g)) =
          df_page (file_of (pc_pdb pc) (pg_fk (pc_frames pc ! g)) (pg_ft (pc_frames pc ! g))) (pg_page_no (pc_frames pc ! g))"
        using pages [OF v] other [OF v] by (simp add: pc_pages_def frame_key_def)
    qed
  qed
  with maps free files pc_invD(1) [OF inv] show inv': "pc_inv pc'"
    by (simp add: pc_inv_def db frames rest)
  show "pc_view pc' fk ft pn = pc_view pc fk ft pn" if k: "(fk, ft, pn) \<noteq> frame_key p"
  proof (cases "valid_file fk ft")
    case True
    have "pc_frames pc' ! g = pc_frames pc ! g" if "pc_lookup pc fk ft pn = Some g" for g
      using that pc_invD(4) [OF inv True, of pn g] k key by (cases "g = f") (auto simp: frames)
    with other [OF True k] True show ?thesis
      by (auto simp: pc_view_def look db split: option.splits)
  qed (simp add: pc_view_def)
  show "pc_view pc' (pg_fk p) (pg_ft p) (pg_page_no p) = page_of (pg_data p)" if "pg_fk p \<noteq> invalid"
  proof -
    have p: "pc_frames pc' ! f = p" "f < length (pc_frames pc')" using f by (simp_all add: frames)
    with lookup_frame [OF inv', of f] that show ?thesis by (simp add: pc_view_def)
  qed
qed

lemma flush_page_ok:
  assumes inv: "pc_inv pc" and f: "f < length (pc_frames pc)" and pin: "pg_pin_count (pc_frames pc ! f) = 0"
  shows "\<exists>pc'. flush_page pc f log = Some pc' \<and> cache_step pc pc' \<and>
    pc_frames pc' = (pc_frames pc)[f := (pc_frames pc ! f)\<lparr>pg_dirty := False\<rparr>] \<and>
    pc_page_map pc' = pc_page_map pc \<and> pc_free_frames pc' = pc_free_frames pc \<and>
    pc_recently_referenced pc' = pc_recently_referenced pc"
proof (cases "pg_dirty (pc_frames pc ! f)")
  case False
  let ?p = "pc_frames pc ! f"
  let ?pc' = "pc_log pc log (Flushed (pg_fk ?p) (pg_ft ?p) (pg_page_no ?p))"
  have "flush_page pc f log = Some ?pc'" using False f pin by (simp add: flush_page_def frame_at_def)
  moreover have "?p\<lparr>pg_dirty := False\<rparr> = ?p" using False by simp
  moreover have "cache_step pc ?pc'"
    using inv same_core [of ?pc' pc] by (simp add: cache_step_def)
  ultimately show ?thesis by auto
next
  case True
  let ?p = "pc_frames pc ! f"
  let ?q = "?p\<lparr>pg_dirty := False\<rparr>"
  have used: "pg_fk ?p \<noteq> invalid" using True pc_invD(5) [OF inv f] by (auto simp: frame_ok_def)
  note v = lookup_frame(1) [OF inv f used]
  let ?df = "file_of (pc_pdb pc) (pg_fk ?p) (pg_ft ?p)"
  obtain df' where df': "write_page ?df (pg_page_no ?p) (pg_data ?p) log = Some df'" "df_inv df'"
    "df_num_pages df' = df_num_pages ?df" "df_page df' = (df_page ?df)(pg_page_no ?p := page_of (pg_data ?p))"
    using write_page_ok [OF pc_invD(2) [OF inv v] frame_okD(2) [OF pc_invD(5) [OF inv f] used]] by blast
  let ?db = "set_file (pc_pdb pc) (pg_fk ?p) (pg_ft ?p) df'"
  let ?pc' = "pc_log (set_frame (pc\<lparr>pc_pdb := ?db\<rparr>) f ?q) log (Flushed (pg_fk ?p) (pg_ft ?p) (pg_page_no ?p))"
  have run: "flush_page pc f log = Some ?pc'"
    using True f pin pdb_file_valid [OF v] df'(1) by (simp add: flush_page_def frame_at_def)
  have new: "file_of ?db fk ft = (if fk = pg_fk ?p \<and> ft = pg_ft ?p then df' else file_of (pc_pdb pc) fk ft)"
    if "valid_file fk ft" for fk ft using file_of_set_file [OF v that] .
  have "frame_ok ?db ?q"
    using used v frame_okD(2) [OF pc_invD(5) [OF inv f] used] df' new [OF v] by (simp add: frame_ok_def)
  moreover have "files_ok ?db" using pc_invD(2) [OF inv] df'(2) by (simp add: files_ok_def new)
  moreover have "df_num_pages (file_of ?db fk ft) = pc_pages pc fk ft" if "valid_file fk ft" for fk ft
    using df'(3) new [OF that] by (simp add: pc_pages_def)
  moreover have "df_page (file_of ?db fk ft) pn = df_page (file_of (pc_pdb pc) fk ft) pn"
    if "valid_file fk ft" "(fk, ft, pn) \<noteq> frame_key ?q" for fk ft pn
    using df'(4) new [OF that(1)] that(2) by (auto simp: frame_key_def)
  ultimately have upd: "pc_inv ?pc'" "pc_lookup ?pc' = pc_lookup pc"
    "\<And>fk ft pn. (fk, ft, pn) \<noteq> frame_key ?q \<Longrightarrow> pc_view ?pc' fk ft pn = pc_view pc fk ft pn"
    "pc_view ?pc' (pg_fk ?p) (pg_ft ?p) (pg_page_no ?p) = page_of (pg_data ?p)"
    using update_frame [OF inv f, of ?q ?db ?pc'] used by (auto simp: frame_key_def)
  have "pc_view ?pc' fk ft pn = pc_view pc fk ft pn" for fk ft pn
  proof (cases "(fk, ft, pn) = frame_key ?q")
    case True
    then show ?thesis
      using upd(4) lookup_frame [OF inv f used] by (simp add: pc_view_def frame_key_def)
  qed (rule upd(3))
  then have "cache_step pc ?pc'"
    using upd(1) f pin df'(3) new
    by (auto simp: cache_step_def fun_eq_iff pc_pages_def nth_list_update frame_key_def)
  then show ?thesis using run by auto
qed

lemma flush_page_SomeD:
  "flush_page pc f log = Some pc' \<Longrightarrow> f < length (pc_frames pc) \<and> pg_pin_count (pc_frames pc ! f) = 0"
  by (auto simp: flush_page_def bind_eq_Some_conv word_gt_0 split: if_splits)

subsection \<open>Eviction\<close>

definition cleared :: "page \<Rightarrow> page" where
  "cleared p = p\<lparr>pg_page_no := ULONG_MAX, pg_fk := invalid, pg_ft := invalid_ft,
     pg_data := memset0 (pg_data p) PAGE_SIZE\<rparr>"

text \<open>Taking a clean, unpinned frame out of the table keeps the invariant and the view.\<close>

lemma drop_frame:
  assumes inv: "pc_inv pc" and f: "f < length (pc_frames pc)" and p: "p = pc_frames pc ! f"
    and clean: "\<not> pg_dirty p" "pg_pin_count p = 0" "pg_fk p \<noteq> invalid"
    and m: "ht_inv m" "ht_map m = (pc_lookup pc (pg_fk p) (pg_ft p))(pg_page_no p := None)"
    and ff: "ll_inv ff" "ll_list ff = ll_list (pc_free_frames pc) @ [f]"
    and pc': "pc_frames pc' = (pc_frames pc)[f := cleared p]" "pc_pdb pc' = pc_pdb pc" "pc_free_frames pc' = ff"
      "pc_n_frames pc' = pc_n_frames pc"
      "\<And>fk ft. pc_page_map pc' fk ft = (if fk = pg_fk p \<and> ft = pg_ft p then m else pc_page_map pc fk ft)"
  shows "pc_inv pc'" "pc_view pc' = pc_view pc"
proof -
  note v = lookup_frame(1) [OF inv f, folded p, OF clean(3)] and l = lookup_frame(2) [OF inv f, folded p, OF clean(3)]
  have look: "pc_lookup pc' fk ft pn = (if (fk, ft, pn) = frame_key p then None else pc_lookup pc fk ft pn)" for fk ft pn
    using m(2) by (auto simp: pc_lookup_def pc'(5) frame_key_def)
  have inj: "g = f" if "g < length (pc_frames pc)" "frame_key (pc_frames pc ! g) = frame_key p" for g
    using frame_key_inj [OF inv f that(1)] that(2) clean(3) p by simp
  have clr: "frame_key (cleared p) = (invalid, invalid_ft, ULONG_MAX)" "pg_fk (cleared p) = invalid"
    "\<not> pg_dirty (cleared p)" "pg_pin_count (cleared p) = 0"
    using clean by (simp_all add: cleared_def frame_key_def)
  have maps: "maps_ok pc'"
    unfolding maps_ok_def
  proof (intro allI impI conjI)
    fix fk ft assume vf: "valid_file fk ft"
    show "ht_inv (pc_page_map pc' fk ft)" using m(1) pc_invD(3) [OF inv vf] by (simp add: pc'(5))
    fix pn g
    show "pc_lookup pc' fk ft pn = Some g \<longleftrightarrow>
        g < length (pc_frames pc') \<and> frame_key (pc_frames pc' ! g) = (fk, ft, pn)"
    proof (cases "g = f")
      case True
      have "frame_key (pc_frames pc ! f) = frame_key p" by (simp only: p)
      then have "pc_lookup pc' fk ft pn \<noteq> Some f"
        unfolding look using pc_invD(4) [OF inv vf, of pn f] by simp
      moreover have "frame_key (pc_frames pc' ! f) \<noteq> (fk, ft, pn)"
        using valid_file_kind [OF vf] f clr(1) by (simp add: pc'(1))
      ultimately show ?thesis using True by simp
    next
      case False
      then have "pc_frames pc' ! g = pc_frames pc ! g" "length (pc_frames pc') = length (pc_frames pc)"
        by (simp_all add: pc'(1))
      moreover have "frame_key (pc_frames pc ! g) \<noteq> frame_key p" if "g < length (pc_frames pc)"
        using inj [OF that] False by blast
      ultimately show ?thesis
        unfolding look using pc_invD(4) [OF inv vf, of pn g] by auto
    qed
  qed
  have fo: "ll_inv (pc_free_frames pc)" "distinct (ll_list (pc_free_frames pc))"
    "set (ll_list (pc_free_frames pc)) = {f. f < length (pc_frames pc) \<and> pg_fk (pc_frames pc ! f) = invalid}"
    using pc_invD(6) [OF inv] by (simp_all add: free_ok_def)
  have "free_ok pc'"
    using fo ff f p clean(3) clr(2) by (auto simp: free_ok_def pc' nth_list_update)
  moreover have "frame_ok (pc_pdb pc) (pc_frames pc' ! g)" if "g < length (pc_frames pc)" for g
    using pc_invD(5) [OF inv that] that clr by (cases "g = f") (auto simp: pc'(1) frame_ok_def)
  ultimately show "pc_inv pc'"
    using maps inv by (simp add: pc_inv_def pc')
  show "pc_view pc' = pc_view pc"
  proof (intro ext)
    fix fk ft pn i
    show "pc_view pc' fk ft pn i = pc_view pc fk ft pn i"
    proof (cases "(fk, ft, pn) = frame_key p")
      case True
      then show ?thesis
        using v l p frame_okD(3) [OF pc_invD(5) [OF inv f], folded p, OF clean(3,1)]
        by (simp add: pc_view_def look frame_key_def pc'(2))
    next
      case False
      have "pc_frames pc' ! g = pc_frames pc ! g" if "pc_lookup pc fk ft pn = Some g" "valid_file fk ft" for g
        using that pc_invD(4) [OF inv that(2), of pn g] False p by (cases "g = f") (auto simp: pc'(1))
      then show ?thesis
        by (auto simp: pc_view_def look False pc'(2) split: option.splits)
    qed
  qed
qed

lemma evict_frame_ok:
  assumes inv: "pc_inv pc" and f: "f < length (pc_frames pc)" and pin: "pg_pin_count (pc_frames pc ! f) = 0"
    and used: "pg_fk (pc_frames pc ! f) \<noteq> invalid"
  shows "\<exists>pc' q. evict_frame pc f log = Some pc' \<and> cache_step pc pc' \<and>
    ll_list (pc_free_frames pc') = ll_list (pc_free_frames pc) @ [f] \<and>
    pc_frames pc' = (pc_frames pc)[f := q] \<and> pg_fk q = invalid \<and>
    pc_recently_referenced pc' = pc_recently_referenced pc"
proof -
  let ?p = "(pc_frames pc ! f)\<lparr>pg_dirty := False\<rparr>"
  obtain pc1 where p1: "flush_page pc f log = Some pc1" "cache_step pc pc1"
    "pc_frames pc1 = (pc_frames pc)[f := ?p]" "pc_free_frames pc1 = pc_free_frames pc"
    "pc_recently_referenced pc1 = pc_recently_referenced pc"
    using flush_page_ok [OF inv f pin, of log] by blast
  have inv1: "pc_inv pc1" and f1: "f < length (pc_frames pc1)" and q: "pc_frames pc1 ! f = ?p"
    using p1(2,3) f cache_step_inv by auto
  have l: "valid_file (pg_fk ?p) (pg_ft ?p)" "pc_lookup pc1 (pg_fk ?p) (pg_ft ?p) (pg_page_no ?p) = Some f"
    using lookup_frame [OF inv1 f1] used q by simp_all
  obtain m where m: "ht_remove (pc_page_map pc1 (pg_fk ?p) (pg_ft ?p)) (pg_page_no ?p) = Some m" "ht_inv m"
    "ht_map m = (pc_lookup pc1 (pg_fk ?p) (pg_ft ?p))(pg_page_no ?p := None)"
    using htable.remove_law [OF pc_invD(3) [OF inv1 l(1)], of "pg_page_no ?p"] l(2) by (auto simp: pc_lookup_def)
  obtain ff where ff: "ll_append (pc_free_frames pc1) f = Some ff" "ll_inv ff"
    "ll_list ff = ll_list (pc_free_frames pc1) @ [f]"
    using llist.append_law [of "pc_free_frames pc1" f] pc_invD(6) [OF inv1] by (auto simp: free_ok_def)
  let ?pc2 = "pc_log pc1 log (Evict (pg_fk ?p) (pg_ft ?p) (pg_page_no ?p))"
  let ?pc' = "set_frame ((set_page_map ?pc2 (pg_fk ?p) (pg_ft ?p) m)\<lparr>pc_free_frames := ff\<rparr>) f (cleared ?p)"
  have run: "evict_frame pc f log = Some ?pc'"
    using p1(1) f1 q l(1) m(1) ff(1)
    by (simp add: evict_frame_def frame_at_def page_map_at_def cleared_def)
  note d = drop_frame [OF inv1 f1, of ?p m ff ?pc', OF _ _ _ _ m(2,3) ff(2,3)]
  have d1: "pc_inv ?pc'" "pc_view ?pc' = pc_view pc1"
    using d q pin used by (simp_all add: p1(3))
  have frames: "pc_frames ?pc' = (pc_frames pc)[f := cleared ?p]" by (simp add: p1(3))
  have "cache_step pc ?pc'"
    using p1(2) d1 pin f unfolding cache_step_def frames
    by (auto simp: pc_pages_def nth_list_update p1(3) cleared_def split: if_splits)
  then show ?thesis using run frames ff(3) p1(4,5) by (auto simp: cleared_def)
qed

lemma evict_frame_SomeD:
  assumes "evict_frame pc f log = Some pc'" "pc_inv pc"
  shows "f < length (pc_frames pc)" "pg_pin_count (pc_frames pc ! f) = 0" "pg_fk (pc_frames pc ! f) \<noteq> invalid"
proof -
  obtain pc1 where p1: "flush_page pc f log = Some pc1" using assms(1) by (auto simp: evict_frame_def bind_eq_Some_conv)
  then show f: "f < length (pc_frames pc)" "pg_pin_count (pc_frames pc ! f) = 0"
    using flush_page_SomeD by blast+
  from flush_page_ok [OF assms(2) f, of log] p1 have "pc_frames pc1 ! f = (pc_frames pc ! f)\<lparr>pg_dirty := False\<rparr>"
    using f by auto
  with assms(1) p1 show "pg_fk (pc_frames pc ! f) \<noteq> invalid"
    by (auto simp: evict_frame_def bind_eq_Some_conv valid_file_def Let_def)
qed

lemma evict_frame_step:
  "pc_inv pc \<Longrightarrow> evict_frame pc f log = Some pc' \<Longrightarrow> cache_step pc pc' \<and>
     pc_recently_referenced pc' = pc_recently_referenced pc"
  using evict_frame_SomeD [of pc f log pc'] evict_frame_ok [of pc f log] by auto

lemma evict_loop_step:
  "pc_inv pc \<Longrightarrow> evict_loop pc log i n ev = Some (pc', ev') \<Longrightarrow> cache_step pc pc'"
proof (induction pc log i n ev arbitrary: pc' ev' rule: evict_loop.induct)
  case (1 pc log i ev)
  then show ?case by (auto intro: cache_step_refl)
next
  case (2 pc log i n ev)
  from "2.prems"(2) obtain c where c: "ll_get (pc_recently_referenced pc) i = Some c" "c < length (pc_frames pc)"
    and rest: "(if pg_pin_count (pc_frames pc ! c) = 0 then do {
       pc \<leftarrow> evict_frame pc c log;
       let ev = ev @ [i];
       if length ev \<ge> EVICT_LRU_K then Some (pc, ev) else evict_loop pc log (Suc i) n ev }
     else evict_loop pc log (Suc i) n ev) = Some (pc', ev')"
    by (auto simp: bind_eq_Some_conv)
  have fr: "frame_at pc c = Some (pc_frames pc ! c)" using c(2) by simp
  show ?case
  proof (cases "pg_pin_count (pc_frames pc ! c) = 0")
    case False
    with "2.IH"(2) [OF c(1) fr False "2.prems"(1)] rest show ?thesis by simp
  next
    case True
    with rest obtain pc1 where e: "evict_frame pc c log = Some pc1"
      and r: "(if length (ev @ [i]) \<ge> EVICT_LRU_K then Some (pc1, ev @ [i])
        else evict_loop pc1 log (Suc i) n (ev @ [i])) = Some (pc', ev')"
      by (auto simp: bind_eq_Some_conv Let_def)
    note s1 = conjunct1 [OF evict_frame_step [OF "2.prems"(1) e]]
    show ?thesis
    proof (cases "length (ev @ [i]) \<ge> EVICT_LRU_K")
      case True
      then show ?thesis using r s1 by auto
    next
      case False
      then have "cache_step pc1 pc'"
        using "2.IH"(1) [OF c(1) fr True e refl False cache_step_inv [OF s1]] r by simp
      then show ?thesis using cache_step_trans [OF "2.prems"(1) s1] by blast
    qed
  qed
qed

lemma evict_step:
  assumes inv: "pc_inv pc" and run: "evict pc log = Some pc'"
  shows "cache_step pc pc'"
proof -
  obtain pc1 ev rr where e: "evict_loop pc log 0 (ll_size (pc_recently_referenced pc)) [] = Some (pc1, ev)"
    and pc': "pc' = pc1\<lparr>pc_recently_referenced := rr\<rparr>"
    using run by (auto simp: evict_def bind_eq_Some_conv split: if_splits)
  note s = evict_loop_step [OF inv e]
  have "cache_step pc1 pc'"
    using same_core [of pc' pc1] cache_step_inv [OF s] by (simp add: cache_step_def pc')
  then show ?thesis by (rule cache_step_trans [OF inv s])
qed

lemma bulk_evict_step:
  assumes inv: "pc_inv pc" and run: "bulk_evict pc = Some pc'"
  shows "cache_step pc pc'"
proof -
  let ?body = "\<lambda>(pc, evicted::nat) i. do {
         c_page \<leftarrow> frame_at pc i;
         if pg_pin_count c_page = 0 then do { pc \<leftarrow> evict_frame pc i False; Some (pc, evicted + 1) }
         else Some (pc, evicted) }"
  obtain n where e: "for_each ?body (pc, 0) [0..<pc_n_frames pc] = Some (pc', n)"
    using run by (auto simp: bulk_evict_def bind_eq_Some_conv split: if_splits)
  have "pc_inv (fst (pc', n)) \<and> cache_step pc (fst (pc', n))"
  proof (rule for_each_inv [OF e, of "\<lambda>s. pc_inv (fst s) \<and> cache_step pc (fst s)"])
    show "pc_inv (fst (pc, 0::nat)) \<and> cache_step pc (fst (pc, 0::nat))"
      using inv by (simp add: cache_step_refl)
    fix s i s' assume s: "pc_inv (fst s) \<and> cache_step pc (fst s)" and b: "?body s i = Some s'"
    show "pc_inv (fst s') \<and> cache_step pc (fst s')"
    proof (cases "fst s' = fst s")
      case False
      then have "evict_frame (fst s) i False = Some (fst s')"
        using b by (cases s) (auto simp: bind_eq_Some_conv split: if_splits)
      then have "cache_step (fst s) (fst s')" using evict_frame_step s by blast
      then show ?thesis using cache_step_trans [OF inv] s cache_step_inv by blast
    qed (use s in simp)
  qed
  then show ?thesis by simp
qed

subsection \<open>Pinning\<close>

text \<open>The pin count of a page.\<close>

definition pc_pins :: "page_cache \<Rightarrow> file_kind \<Rightarrow> file_type \<Rightarrow> nat \<Rightarrow> 32 word" where
  "pc_pins pc fk ft pn =
    (if \<not> valid_file fk ft then 0
     else case pc_lookup pc fk ft pn of Some f \<Rightarrow> pg_pin_count (pc_frames pc ! f) | None \<Rightarrow> 0)"

lemma pc_pinsE:
  assumes "pc_pins pc fk ft pn \<noteq> 0"
  obtains f where "valid_file fk ft" "pc_lookup pc fk ft pn = Some f"
    "pg_pin_count (pc_frames pc ! f) = pc_pins pc fk ft pn"
  using assms by (auto simp: pc_pins_def split: if_splits option.splits)

lemma cache_step_keeps_frame:
  assumes inv: "pc_inv pc" and step: "cache_step pc pc'" and v: "valid_file fk ft"
    and f: "pc_lookup pc fk ft pn = Some f" "pg_pin_count (pc_frames pc ! f) \<noteq> 0"
  shows "pc_lookup pc' fk ft pn = Some f" "pc_frames pc' ! f = pc_frames pc ! f"
proof -
  have fl: "f < length (pc_frames pc)" "frame_key (pc_frames pc ! f) = (fk, ft, pn)"
    using pc_invD(4) [OF inv v] f(1) by auto
  show same: "pc_frames pc' ! f = pc_frames pc ! f" using step fl(1) f(2) by (simp add: cache_step_def)
  have "length (pc_frames pc') = length (pc_frames pc)"
    using step pc_invD(1) [OF inv] pc_invD(1) [of pc'] by (simp add: cache_step_def)
  then show "pc_lookup pc' fk ft pn = Some f"
    using pc_invD(4) [OF cache_step_inv [OF step] v] fl same by simp
qed

lemma cache_step_pins:
  assumes inv: "pc_inv pc" and step: "cache_step pc pc'"
  shows "pc_pins pc' = pc_pins pc"
proof (intro ext)
  fix fk ft pn
  have len: "length (pc_frames pc') = length (pc_frames pc)"
    using step pc_invD(1) [OF inv] pc_invD(1) [of pc'] by (simp add: cache_step_def)
  show "pc_pins pc' fk ft pn = pc_pins pc fk ft pn"
  proof (cases "pc_pins pc fk ft pn = 0")
    case False
    then obtain f where f: "valid_file fk ft" "pc_lookup pc fk ft pn = Some f"
      "pg_pin_count (pc_frames pc ! f) = pc_pins pc fk ft pn" by (rule pc_pinsE)
    then show ?thesis using cache_step_keeps_frame [OF inv step f(1,2)] False by (simp add: pc_pins_def)
  next
    case True
    show ?thesis
    proof (rule ccontr)
      assume "pc_pins pc' fk ft pn \<noteq> pc_pins pc fk ft pn"
      then have "pc_pins pc' fk ft pn \<noteq> 0" using True by simp
      then obtain g where g: "valid_file fk ft" "pc_lookup pc' fk ft pn = Some g"
        "pg_pin_count (pc_frames pc' ! g) \<noteq> 0" by (metis pc_pinsE)
      then have gl: "g < length (pc_frames pc)" "frame_key (pc_frames pc' ! g) = (fk, ft, pn)"
        using pc_invD(4) [OF cache_step_inv [OF step] g(1)] len by auto
      then have pin: "pg_pin_count (pc_frames pc ! g) \<noteq> 0" and "pc_frames pc' ! g = pc_frames pc ! g"
        using step g(3) by (auto simp: cache_step_def split: if_splits)
      then have "pc_lookup pc fk ft pn = Some g" using pc_invD(4) [OF inv g(1)] gl by simp
      with pin True g(1) show False by (simp add: pc_pins_def)
    qed
  qed
qed

text \<open>Putting a page that was just read into a free frame.\<close>

lemma add_frame:
  assumes inv: "pc_inv pc" and v: "valid_file fk ft" and pn: "pn < pc_pages pc fk ft"
    and no: "pc_lookup pc fk ft pn = None" and free: "ll_list (pc_free_frames pc) = f # fs"
    and p: "frame_key p = (fk, ft, pn)" "\<not> pg_dirty p" "page_of (pg_data p) = df_page (file_of (pc_pdb pc) fk ft) pn"
    and db: "\<And>fk ft. valid_file fk ft \<Longrightarrow> df_same (file_of (pc_pdb pc) fk ft) (file_of (pc_pdb pc') fk ft)"
    and m: "ht_inv m" "ht_map m = (pc_lookup pc fk ft)(pn \<mapsto> f)" and ff: "ll_inv ff" "ll_list ff = fs"
    and pc': "pc_frames pc' = (pc_frames pc)[f := p]" "pc_free_frames pc' = ff" "pc_n_frames pc' = pc_n_frames pc"
      "\<And>fk' ft'. pc_page_map pc' fk' ft' = (if fk' = fk \<and> ft' = ft then m else pc_page_map pc fk' ft')"
  shows "pc_inv pc'" "pc_view pc' = pc_view pc"
proof -
  have fo: "distinct (f # fs)"
    "insert f (set fs) = {f. f < length (pc_frames pc) \<and> pg_fk (pc_frames pc ! f) = invalid}"
    using pc_invD(6) [OF inv] free by (auto simp: free_ok_def)
  then have f: "f < length (pc_frames pc)" "pg_fk (pc_frames pc ! f) = invalid" by auto
  have fil: "df_page (file_of (pc_pdb pc') fk ft) = df_page (file_of (pc_pdb pc) fk ft)"
    "df_inv (file_of (pc_pdb pc') fk ft) = df_inv (file_of (pc_pdb pc) fk ft)"
    "df_num_pages (file_of (pc_pdb pc') fk ft) = df_num_pages (file_of (pc_pdb pc) fk ft)"
    if "valid_file fk ft" for fk ft using df_sameD [OF db [OF that]] db [OF that] by (simp_all add: df_same_def)
  have look: "pc_lookup pc' fk' ft' pn' = (if (fk', ft', pn') = (fk, ft, pn) then Some f else pc_lookup pc fk' ft' pn')"
    for fk' ft' pn' using m(2) by (auto simp: pc_lookup_def pc'(4))
  have fko: "f \<noteq> g" if "valid_file fk' ft'" "pc_lookup pc fk' ft' pn' = Some g" for fk' ft' pn' g
    using pc_invD(4) [OF inv that(1)] that f(2) by (auto simp: valid_file_def frame_key_def)
  have "maps_ok pc'"
    unfolding maps_ok_def
  proof (intro allI impI conjI)
    fix fk' ft' assume vf: "valid_file fk' ft'"
    show "ht_inv (pc_page_map pc' fk' ft')" using m(1) pc_invD(3) [OF inv vf] by (simp add: pc'(4))
    fix pn' g
    show "pc_lookup pc' fk' ft' pn' = Some g \<longleftrightarrow>
        g < length (pc_frames pc') \<and> frame_key (pc_frames pc' ! g) = (fk', ft', pn')"
    proof (cases "g = f")
      case True
      have "pc_lookup pc fk' ft' pn' \<noteq> Some f" using fko [OF vf] by blast
      with True show ?thesis using look p(1) f(1) by (auto simp: pc'(1))
    next
      case False
      then have "pc_frames pc' ! g = pc_frames pc ! g" "length (pc_frames pc') = length (pc_frames pc)"
        by (simp_all add: pc'(1))
      then show ?thesis using look pc_invD(4) [OF inv vf, of pn' g] no False by auto
    qed
  qed
  moreover have "free_ok pc'"
  proof -
    have "pg_fk p \<noteq> invalid" using p(1) v by (auto simp: frame_key_def valid_file_def)
    then have "{g. g < length (pc_frames pc') \<and> pg_fk (pc_frames pc' ! g) = invalid} =
        {g. g < length (pc_frames pc) \<and> pg_fk (pc_frames pc ! g) = invalid} - {f}"
      using f by (auto simp: pc'(1) nth_list_update split: if_splits)
    also have "\<dots> = set fs" using fo by auto
    finally show ?thesis using fo(1) ff by (simp add: free_ok_def pc'(2))
  qed
  moreover have "frame_ok (pc_pdb pc') (pc_frames pc' ! g)" if g: "g < length (pc_frames pc)" for g
  proof (cases "g = f")
    case True
    have "pg_fk p = fk" "pg_ft p = ft" "pg_page_no p = pn" using p(1) by (simp_all add: frame_key_def)
    then show ?thesis
      using True f(1) v pn p(2,3) fil [OF v] by (auto simp: pc'(1) frame_ok_def valid_file_def pc_pages_def)
  next
    case False
    have "frame_ok (pc_pdb pc') (pc_frames pc ! g)"
      by (rule frame_ok_cong [OF pc_invD(5) [OF inv g]])
        (use lookup_frame(1) [OF inv g] fil in simp)
    then show ?thesis using False by (simp add: pc'(1))
  qed
  moreover have "files_ok (pc_pdb pc')" using pc_invD(2) [OF inv] fil(2) by (simp add: files_ok_def)
  ultimately show "pc_inv pc'" using pc_invD(1) [OF inv] by (simp add: pc_inv_def pc')
  show "pc_view pc' = pc_view pc"
  proof (intro ext)
    fix fk' ft' pn' i
    show "pc_view pc' fk' ft' pn' i = pc_view pc fk' ft' pn' i"
    proof (cases "(fk', ft', pn') = (fk, ft, pn)")
      case True
      then show ?thesis using v no f(1) p(3) look by (simp add: pc_view_def pc'(1))
    next
      case False
      have "pc_frames pc' ! g = pc_frames pc ! g" if "pc_lookup pc fk' ft' pn' = Some g" "valid_file fk' ft'" for g
        using fko [OF that(2,1)] by (simp add: pc'(1))
      then show ?thesis using fil(1) False by (auto simp: pc_view_def look split: option.splits)
    qed
  qed
qed

text \<open>\<open>pin_spec\<close>: what a successful pin of a page does; the other pages keep their frames while pinned.\<close>

definition pin_spec :: "page_cache \<Rightarrow> file_kind \<Rightarrow> file_type \<Rightarrow> nat \<Rightarrow> nat \<Rightarrow> page_cache \<Rightarrow> bool" where
  "pin_spec pc fk ft pn f pc' \<longleftrightarrow> pc_inv pc' \<and> pc_view pc' = pc_view pc \<and> pc_n_frames pc' = pc_n_frames pc \<and>
     pc_bulk_import pc' = pc_bulk_import pc \<and>
     (\<forall>fk ft. valid_file fk ft \<longrightarrow> pc_pages pc' fk ft = pc_pages pc fk ft) \<and>
     valid_file fk ft \<and> pn < pc_pages pc fk ft \<and> pc_lookup pc' fk ft pn = Some f \<and>
     (\<forall>fk' ft' pn'. pc_pins pc' fk' ft' pn' =
        pc_pins pc fk' ft' pn' + (if (fk', ft', pn') = (fk, ft, pn) then 1 else 0)) \<and>
     (\<forall>fk' ft' pn' g. pc_lookup pc fk' ft' pn' = Some g \<and> pc_pins pc fk' ft' pn' \<noteq> 0 \<longrightarrow>
        pc_lookup pc' fk' ft' pn' = Some g)"

lemma take_free:
  assumes "free_ok pc" "ll_list (pc_free_frames pc) = f # fs"
  shows "\<exists>ff. ll_take (pc_free_frames pc) 0 = Some (f, ff) \<and> ll_inv ff \<and> ll_list ff = fs"
  using ll_take_ok [of "pc_free_frames pc" 0] assms by (auto simp: free_ok_def)

lemma load_page_ok:
  assumes inv: "pc_inv pc" and v: "valid_file fk ft" and pn: "pn < pc_pages pc fk ft"
    and no: "pc_lookup pc fk ft pn = None" and free: "ll_list (pc_free_frames pc) = f # fs"
  shows "\<exists>pc'. load_page pc pn fk ft log = Some (f, pc') \<and> pin_spec pc fk ft pn f pc' \<and>
    ll_list (pc_free_frames pc') = fs \<and> pc_recently_referenced pc' = pc_recently_referenced pc \<and>
    (\<forall>g. g \<noteq> f \<longrightarrow> pc_frames pc' ! g = pc_frames pc ! g) \<and> pg_pin_count (pc_frames pc' ! f) = 1"
proof -
  have fo: "f < length (pc_frames pc)" "pg_fk (pc_frames pc ! f) = invalid" "ll_inv (pc_free_frames pc)"
    using pc_invD(6) [OF inv] free by (auto simp: free_ok_def)
  obtain ff where ff: "ll_take (pc_free_frames pc) 0 = Some (f, ff)" "ll_inv ff" "ll_list ff = fs"
    using take_free [OF pc_invD(6) [OF inv] free] by blast
  let ?df = "file_of (pc_pdb pc) fk ft"
  obtain data df where d: "read_page ?df pn (pg_data (pc_frames pc ! f)) log = Some (data, df)"
    "page_of data = df_page ?df pn"
    using read_page_ok [OF pc_invD(2) [OF inv v], of pn "pg_data (pc_frames pc ! f)" log] pn by (auto simp: pc_pages_def)
  obtain m where m: "ht_insert (pc_page_map pc fk ft) pn f = Some m" "ht_inv m"
    "ht_map m = (pc_lookup pc fk ft)(pn \<mapsto> f)"
    using htable.insert_law [OF pc_invD(3) [OF inv v], of pn f] by (auto simp: pc_lookup_def)
  let ?p = "(pc_frames pc ! f)\<lparr>pg_fk := fk, pg_ft := ft, pg_page_no := pn,
       pg_pin_count := 1, pg_dirty := False, pg_data := data\<rparr>"
  let ?pc' = "set_page_map (set_frame (pc\<lparr>pc_free_frames := ff, pc_pdb := set_file (pc_pdb pc) fk ft df\<rparr>) f ?p) fk ft m"
  have run: "load_page pc pn fk ft log = Some (f, ?pc')"
    using ff(1) fo(1) pdb_file_valid [OF v] d(1) v m(1)
    by (simp add: load_page_def frame_at_def page_map_at_def)
  have same: "df_same (file_of (pc_pdb pc) fk' ft') (file_of (pc_pdb ?pc') fk' ft')" if "valid_file fk' ft'" for fk' ft'
    using read_page_same [OF d(1)] file_of_set_file [OF v that] by simp
  have core: "pc_inv ?pc'" "pc_view ?pc' = pc_view pc"
    using add_frame [OF inv v pn no free, of ?p ?pc' m ff] same m(2,3) ff(2,3) d(2) by (simp_all add: frame_key_def)
  have look: "pc_lookup ?pc' fk' ft' pn' = (if (fk', ft', pn') = (fk, ft, pn) then Some f else pc_lookup pc fk' ft' pn')"
    for fk' ft' pn' using m(3) by (auto simp: pc_lookup_def)
  have ne: "g \<noteq> f" if "valid_file fk' ft'" "pc_lookup pc fk' ft' pn' = Some g" for fk' ft' pn' g
    using pc_invD(4) [OF inv that(1)] that fo(2) by (auto simp: valid_file_def frame_key_def)
  have pins: "pc_pins ?pc' fk' ft' pn' = pc_pins pc fk' ft' pn' + (if (fk', ft', pn') = (fk, ft, pn) then 1 else 0)"
    for fk' ft' pn'
  proof (cases "(fk', ft', pn') = (fk, ft, pn)")
    case True
    then show ?thesis using look no v fo(1) by (simp add: pc_pins_def)
  next
    case False
    have "pc_frames ?pc' ! g = pc_frames pc ! g" if "valid_file fk' ft'" "pc_lookup pc fk' ft' pn' = Some g" for g
      using ne [OF that] by simp
    then show ?thesis using look False by (auto simp: pc_pins_def split: option.splits)
  qed
  have "pin_spec pc fk ft pn f ?pc'"
    unfolding pin_spec_def
    using core v pn pins look no same by (auto simp: pc_pages_def df_same_def)
  then show ?thesis using run ff(3) fo(1) by auto
qed

lemma pin_spec_after_step:
  assumes inv: "pc_inv pc" and step: "cache_step pc pc1" and spec: "pin_spec pc1 fk ft pn f pc2"
  shows "pin_spec pc fk ft pn f pc2"
proof -
  have keep: "pc_lookup pc1 fk' ft' pn' = Some g" if "pc_lookup pc fk' ft' pn' = Some g" "pc_pins pc fk' ft' pn' \<noteq> 0" for fk' ft' pn' g
  proof -
    have "valid_file fk' ft'" "pg_pin_count (pc_frames pc ! g) \<noteq> 0"
      using that by (auto simp: pc_pins_def split: if_splits)
    then show ?thesis using cache_step_keeps_frame(1) [OF inv step _ that(1)] by blast
  qed
  have same: "pc_view pc1 = pc_view pc" "pc_n_frames pc1 = pc_n_frames pc" "pc_bulk_import pc1 = pc_bulk_import pc"
    "\<And>fk ft. valid_file fk ft \<Longrightarrow> pc_pages pc1 fk ft = pc_pages pc fk ft"
    using step by (simp_all add: cache_step_def)
  from spec show ?thesis
    unfolding pin_spec_def cache_step_pins [OF inv step] same(1-3) using keep same(4) by auto
qed

lemma cache_step_lookup:
  assumes inv: "pc_inv pc" and step: "cache_step pc pc'" and v: "valid_file fk ft"
    and g: "pc_lookup pc' fk ft pn = Some g"
  shows "pc_lookup pc fk ft pn = Some g"
proof -
  have gl: "g < length (pc_frames pc')" "frame_key (pc_frames pc' ! g) = (fk, ft, pn)"
    using pc_invD(4) [OF cache_step_inv [OF step] v] g by auto
  then have "g < length (pc_frames pc)" "pg_fk (pc_frames pc' ! g) \<noteq> invalid"
    using step pc_invD(1) [OF inv] pc_invD(1) [of pc'] v by (auto simp: cache_step_def frame_key_def valid_file_def)
  then have "frame_key (pc_frames pc ! g) = (fk, ft, pn)"
    using step gl(2) unfolding cache_step_def by (metis (no_types, lifting))
  with pc_invD(4) [OF inv v] \<open>g < length (pc_frames pc)\<close> show ?thesis by simp
qed

lemma make_room_step:
  "pc_inv pc \<Longrightarrow> make_room pc log = Some pc' \<Longrightarrow> cache_step pc pc'"
  using evict_step [of pc log pc'] bulk_evict_step [of pc pc'] cache_step_refl [of pc]
  by (auto simp: make_room_def split: if_splits)

lemma load_page_SomeD:
  assumes "pc_inv pc" "load_page pc pn fk ft log = Some (f, pc')"
  shows "\<exists>fs. ll_list (pc_free_frames pc) = f # fs"
proof (cases "ll_list (pc_free_frames pc)")
  case Nil
  then show ?thesis
    using assms ll_take_exit [of "pc_free_frames pc" 0] pc_invD(6) [OF assms(1)]
    by (simp add: load_page_def free_ok_def)
next
  case (Cons g fs)
  then show ?thesis
    using assms take_free [OF pc_invD(6) [OF assms(1)] Cons]
    by (auto simp: load_page_def bind_eq_Some_conv Let_def)
qed

lemma pin_page_guards:
  assumes "pin_page pc pn fk ft log = Some r"
  shows "valid_file fk ft" "pn < pc_pages pc fk ft"
proof -
  show v: "valid_file fk ft"
    using assms by (auto simp: pin_page_def bind_eq_Some_conv split: if_splits)
  show "pn < pc_pages pc fk ft"
    using assms pdb_file_valid [OF v] by (auto simp: pin_page_def pc_pages_def split: if_splits)
qed

text \<open>Raising the pin count of a cached page.\<close>

lemma pin_cached:
  assumes inv: "pc_inv pc" and v: "valid_file fk ft" and pn: "pn < pc_pages pc fk ft"
    and l: "pc_lookup pc fk ft pn = Some f"
  shows "pin_spec pc fk ft pn f
    (set_frame pc f ((pc_frames pc ! f)\<lparr>pg_pin_count := pg_pin_count (pc_frames pc ! f) + 1\<rparr>))" (is "pin_spec _ _ _ _ _ ?pc'")
proof -
  let ?q = "(pc_frames pc ! f)\<lparr>pg_pin_count := pg_pin_count (pc_frames pc ! f) + 1\<rparr>"
  have f: "f < length (pc_frames pc)" and key: "frame_key (pc_frames pc ! f) = (fk, ft, pn)"
    using pc_invD(4) [OF inv v] l by auto
  then have used: "pg_fk (pc_frames pc ! f) \<noteq> invalid" using v by (auto simp: frame_key_def valid_file_def)
  have ok: "frame_ok (pc_pdb pc) ?q" using pc_invD(5) [OF inv f] used by (simp add: frame_ok_def)
  have files: "files_ok (pc_pdb pc)" using pc_invD(2) [OF inv] by (simp add: files_ok_def)
  have key': "frame_key ?q = frame_key (pc_frames pc ! f)" by (simp add: frame_key_def)
  note u = update_frame [OF inv f key' ok files, of ?pc']
  have look: "pc_lookup ?pc' = pc_lookup pc" and inv': "pc_inv ?pc'" using u by (simp_all add: pc_pages_def)
  have "pc_view ?pc' = pc_view pc"
    by (rule view_cong) (auto simp: look nth_list_update pc_invD(4) [OF inv] f)
  moreover have "pc_pins ?pc' fk' ft' pn' = pc_pins pc fk' ft' pn' + (if (fk', ft', pn') = (fk, ft, pn) then 1 else 0)"
    for fk' ft' pn'
  proof (cases "(fk', ft', pn') = (fk, ft, pn)")
    case True
    then show ?thesis using l f v by (simp add: pc_pins_def look)
  next
    case False
    have "g \<noteq> f" if "valid_file fk' ft'" "pc_lookup pc fk' ft' pn' = Some g" for g
      using pc_invD(4) [OF inv that(1), of pn' g] that(2) key False by auto
    then show ?thesis using False by (auto simp: pc_pins_def look split: option.splits)
  qed
  ultimately show ?thesis using inv' look l v pn by (simp add: pin_spec_def pc_pages_def)
qed

lemma pin_spec_cong:
  assumes "pin_spec pc fk ft pn f pc1"
    "pc_pdb pc' = pc_pdb pc1" "pc_n_frames pc' = pc_n_frames pc1" "pc_free_frames pc' = pc_free_frames pc1"
    "pc_page_map pc' = pc_page_map pc1" "pc_frames pc' = pc_frames pc1" "pc_bulk_import pc' = pc_bulk_import pc1"
  shows "pin_spec pc fk ft pn f pc'"
proof -
  have "pc_pins pc' = pc_pins pc1"
    unfolding pc_pins_def [abs_def] same_core(1) [OF assms(2-6)] assms(6) by (rule refl)
  then show ?thesis using assms(1) unfolding pin_spec_def same_core [OF assms(2-6)] assms by simp
qed

lemma pin_page_step:
  assumes inv: "pc_inv pc" and run: "pin_page pc pn fk ft log = Some (f, pc')"
  shows "pin_spec pc fk ft pn f pc'"
proof -
  note v = pin_page_guards(1) [OF run] and pn = pin_page_guards(2) [OF run]
  have c: "ht_contains (pc_page_map pc fk ft) pn = Some (pc_lookup pc fk ft pn \<noteq> None)"
    "ht_get_direct (pc_page_map pc fk ft) pn = pc_lookup pc fk ft pn"
    using htable.get_law [OF pc_invD(3) [OF inv v], of pn] by (simp_all add: ht_contains_def ht_get_direct_def pc_lookup_def)
  obtain pc1 where r: "(if pc_lookup pc fk ft pn \<noteq> None then do {
        f \<leftarrow> pc_lookup pc fk ft pn; p \<leftarrow> frame_at pc f;
        Some (f, set_frame pc f (p\<lparr>pg_pin_count := pg_pin_count p + 1\<rparr>)) }
      else do { pc \<leftarrow> make_room pc log; load_page pc pn fk ft log }) = Some (f, pc1)"
    and pc': "pc' = pc_log (pc1\<lparr>pc_num_pins := pc_num_pins pc1 + 1\<rparr>) log (Pin fk ft pn)"
    using run v c by (auto simp: pin_page_def bind_eq_Some_conv Let_def split: if_splits)
  have "pin_spec pc fk ft pn f pc1"
  proof (cases "pc_lookup pc fk ft pn")
    case (Some g)
    then have "f = g" "pc1 = set_frame pc f ((pc_frames pc ! f)\<lparr>pg_pin_count := pg_pin_count (pc_frames pc ! f) + 1\<rparr>)"
      using r by (auto simp: bind_eq_Some_conv)
    then show ?thesis using pin_cached [OF inv v pn] Some by simp
  next
    case None
    then obtain pc0 where m: "make_room pc log = Some pc0" and ld: "load_page pc0 pn fk ft log = Some (f, pc1)"
      using r by (auto simp: bind_eq_Some_conv)
    note step = make_room_step [OF inv m]
    note inv0 = cache_step_inv [OF step]
    obtain fs where fs: "ll_list (pc_free_frames pc0) = f # fs" using load_page_SomeD [OF inv0 ld] by blast
    have "pc_lookup pc0 fk ft pn = None"
      using cache_step_lookup [OF inv step v, of pn] None by (metis not_Some_eq)
    moreover have "pn < pc_pages pc0 fk ft" using pn step v by (simp add: cache_step_def)
    ultimately have "pin_spec pc0 fk ft pn f pc1"
      using load_page_ok [OF inv0 v _ _ fs, of pn log] ld by auto
    then show ?thesis by (rule pin_spec_after_step [OF inv step])
  qed
  then show ?thesis by (rule pin_spec_cong) (simp_all add: pc')
qed

subsection \<open>Unpinning and writing\<close>

text \<open>A new data array and dirty flag, or a lower pin count, for the frame of a pinned page.\<close>

lemma change_frame:
  assumes inv: "pc_inv pc" and v: "valid_file fk ft" and l: "pc_lookup pc fk ft pn = Some f"
    and q: "frame_key q = (fk, ft, pn)" "pg_dirty q \<or> (pg_dirty q = pg_dirty (pc_frames pc ! f) \<and> pg_data q = pg_data (pc_frames pc ! f))"
    and frames: "pc_frames pc' = (pc_frames pc)[f := q]" and rest: "pc_pdb pc' = pc_pdb pc"
      "pc_page_map pc' = pc_page_map pc" "pc_free_frames pc' = pc_free_frames pc" "pc_n_frames pc' = pc_n_frames pc"
  shows "pc_inv pc'" "pc_lookup pc' = pc_lookup pc" "pc_pages pc' = pc_pages pc"
    "pc_view pc' fk' ft' pn' = (if (fk', ft', pn') = (fk, ft, pn) then page_of (pg_data q) else pc_view pc fk' ft' pn')"
    "pc_pins pc' fk' ft' pn' = (if (fk', ft', pn') = (fk, ft, pn) then pg_pin_count q else pc_pins pc fk' ft' pn')"
proof -
  have f: "f < length (pc_frames pc)" and key: "frame_key (pc_frames pc ! f) = (fk, ft, pn)"
    using pc_invD(4) [OF inv v] l by auto
  then have used: "pg_fk (pc_frames pc ! f) \<noteq> invalid" using v by (auto simp: frame_key_def valid_file_def)
  have eqs: "pg_fk q = fk" "pg_ft q = ft" "pg_page_no q = pn" "pg_fk (pc_frames pc ! f) = fk"
    "pg_ft (pc_frames pc ! f) = ft" "pg_page_no (pc_frames pc ! f) = pn"
    using q(1) key by (simp_all add: frame_key_def)
  have ok: "frame_ok (pc_pdb pc) q" using pc_invD(5) [OF inv f] used q(2) eqs by (auto simp: frame_ok_def)
  have files: "files_ok (pc_pdb pc)" using pc_invD(2) [OF inv] by (simp add: files_ok_def)
  have key': "frame_key q = frame_key (pc_frames pc ! f)" using q(1) key by simp
  note u = update_frame [OF inv f key' ok files frames rest(1,2,3,4)]
  show "pc_inv pc'" and look: "pc_lookup pc' = pc_lookup pc" using u(1,2) by (simp_all add: pc_pages_def)
  show "pc_pages pc' = pc_pages pc" by (simp add: pc_pages_def rest fun_eq_iff)
  show "pc_view pc' fk' ft' pn' = (if (fk', ft', pn') = (fk, ft, pn) then page_of (pg_data q) else pc_view pc fk' ft' pn')"
    using u(3) [of fk' ft' pn'] u(4) q(1) used eqs by (auto simp: pc_pages_def)
  show "pc_pins pc' fk' ft' pn' = (if (fk', ft', pn') = (fk, ft, pn) then pg_pin_count q else pc_pins pc fk' ft' pn')"
  proof (cases "(fk', ft', pn') = (fk, ft, pn)")
    case True
    then show ?thesis using l f v by (simp add: pc_pins_def look frames)
  next
    case False
    have "g \<noteq> f" if "valid_file fk' ft'" "pc_lookup pc fk' ft' pn' = Some g" for g
      using pc_invD(4) [OF inv that(1), of pn' g] that(2) key False by auto
    then show ?thesis using False by (auto simp: pc_pins_def look frames split: option.splits)
  qed
qed

text \<open>What a successful unpin and a successful write do.\<close>

definition unpin_spec :: "page_cache \<Rightarrow> file_kind \<Rightarrow> file_type \<Rightarrow> nat \<Rightarrow> page_cache \<Rightarrow> bool" where
  "unpin_spec pc fk ft pn pc' \<longleftrightarrow> pc_inv pc' \<and> pc_view pc' = pc_view pc \<and> pc_pages pc' = pc_pages pc \<and>
     pc_lookup pc' = pc_lookup pc \<and> pc_n_frames pc' = pc_n_frames pc \<and> pc_bulk_import pc' = pc_bulk_import pc \<and>
     pc_free_frames pc' = pc_free_frames pc \<and>
     pc_pins pc fk ft pn \<noteq> 0 \<and>
     (\<forall>fk' ft' pn'. pc_pins pc' fk' ft' pn' =
        pc_pins pc fk' ft' pn' - (if (fk', ft', pn') = (fk, ft, pn) then 1 else 0))"

lemma requeue_fields:
  assumes "requeue pc f = Some pc'"
  shows "pc_pdb pc' = pc_pdb pc" "pc_n_frames pc' = pc_n_frames pc" "pc_free_frames pc' = pc_free_frames pc"
    "pc_page_map pc' = pc_page_map pc" "pc_frames pc' = pc_frames pc" "pc_bulk_import pc' = pc_bulk_import pc"
  using assms by (auto simp: requeue_def bind_eq_Some_conv split: if_splits)

lemma unpin_page_step:
  assumes inv: "pc_inv pc" and run: "unpin_page pc pn fk ft log = Some pc'"
  shows "unpin_spec pc fk ft pn pc'"
proof -
  have v: "valid_file fk ft" using run by (auto simp: unpin_page_def bind_eq_Some_conv)
  have c: "ht_contains (pc_page_map pc fk ft) pn = Some (pc_lookup pc fk ft pn \<noteq> None)"
    "ht_get_direct (pc_page_map pc fk ft) pn = pc_lookup pc fk ft pn"
    using htable.get_law [OF pc_invD(3) [OF inv v], of pn] by (simp_all add: ht_contains_def ht_get_direct_def pc_lookup_def)
  obtain f pc1 where f: "pc_lookup pc fk ft pn = Some f" "f < length (pc_frames pc)"
    "pg_pin_count (pc_frames pc ! f) \<noteq> 0"
    and r: "requeue (set_frame pc f ((pc_frames pc ! f)\<lparr>pg_pin_count := pg_pin_count (pc_frames pc ! f) - 1\<rparr>)) f = Some pc1"
    and pc': "pc' = pc_log (pc1\<lparr>pc_num_unpins := pc_num_unpins pc1 + 1\<rparr>) log (Unpin fk ft pn)"
    using run v c by (auto simp: unpin_page_def bind_eq_Some_conv Let_def split: if_splits)
  let ?q = "(pc_frames pc ! f)\<lparr>pg_pin_count := pg_pin_count (pc_frames pc ! f) - 1\<rparr>"
  have key: "frame_key (pc_frames pc ! f) = (fk, ft, pn)" using pc_invD(4) [OF inv v] f(1) by auto
  then have "frame_key ?q = (fk, ft, pn)" by (simp add: frame_key_def)
  note u = change_frame [OF inv v f(1) this, of pc']
  have "pc_view pc fk ft pn = page_of (pg_data (pc_frames pc ! f))" "pc_pins pc fk ft pn = pg_pin_count (pc_frames pc ! f)"
    using f(1) v by (simp_all add: pc_view_def pc_pins_def)
  then show ?thesis using u f(3) requeue_fields [OF r] unfolding unpin_spec_def by (auto simp: pc' fun_eq_iff)
qed

lemma unpin_frames:
  assumes inv: "pc_inv pc" and v: "valid_file fk ft" and l: "pc_lookup pc fk ft pn = Some f"
    and run: "unpin_page pc pn fk ft log = Some pc'"
  shows "pc_frames pc' = (pc_frames pc)[f := (pc_frames pc ! f)\<lparr>pg_pin_count := pg_pin_count (pc_frames pc ! f) - 1\<rparr>]"
proof -
  have "ht_contains (pc_page_map pc fk ft) pn = Some True" "ht_get_direct (pc_page_map pc fk ft) pn = Some f"
    using htable.get_law [OF pc_invD(3) [OF inv v], of pn] l
    by (simp_all add: ht_contains_def ht_get_direct_def pc_lookup_def)
  then show ?thesis
    using run v requeue_fields(5) by (auto simp: unpin_page_def bind_eq_Some_conv Let_def split: if_splits)
qed

definition write_spec :: "page_cache \<Rightarrow> file_kind \<Rightarrow> file_type \<Rightarrow> nat \<Rightarrow> buffer \<Rightarrow> page_cache \<Rightarrow> bool" where
  "write_spec pc fk ft pn b pc' \<longleftrightarrow> pc_inv pc' \<and> pc_pages pc' = pc_pages pc \<and> pc_pins pc' = pc_pins pc \<and>
     pc_lookup pc' = pc_lookup pc \<and> pc_n_frames pc' = pc_n_frames pc \<and> pc_bulk_import pc' = pc_bulk_import pc \<and>
     pc_free_frames pc' = pc_free_frames pc \<and> pc_recently_referenced pc' = pc_recently_referenced pc \<and>
     pc_pdb pc' = pc_pdb pc \<and>
     (\<forall>fk' ft' pn'. pc_view pc' fk' ft' pn' = (if (fk', ft', pn') = (fk, ft, pn) then page_of b else pc_view pc fk' ft' pn'))"

lemma write_frame_step:
  assumes inv: "pc_inv pc" and v: "valid_file fk ft" and l: "pc_lookup pc fk ft pn = Some f"
    and run: "write_frame pc f wr = Some pc'"
    and wr: "\<And>p p'. wr p = Some p' \<Longrightarrow> p' = p\<lparr>pg_data := w (pg_data p), pg_dirty := True\<rparr>"
  shows "write_spec pc fk ft pn (w (pg_data (pc_frames pc ! f))) pc'"
proof -
  let ?q = "(pc_frames pc ! f)\<lparr>pg_data := w (pg_data (pc_frames pc ! f)), pg_dirty := True\<rparr>"
  have pc': "pc' = set_frame pc f ?q"
    using run wr by (auto simp: write_frame_def bind_eq_Some_conv)
  have key: "frame_key (pc_frames pc ! f) = (fk, ft, pn)" using pc_invD(4) [OF inv v] l by auto
  then have "frame_key ?q = (fk, ft, pn)" by (simp add: frame_key_def)
  note u = change_frame [OF inv v l this, of pc']
  have "pc_pins pc fk ft pn = pg_pin_count (pc_frames pc ! f)" using l v by (simp add: pc_pins_def)
  then show ?thesis using u unfolding write_spec_def by (auto simp: pc' fun_eq_iff)
qed

subsection \<open>Flushing all pages\<close>

lemma flush_all_ok:
  assumes inv: "pc_inv pc" and unpinned: "\<forall>f < length (pc_frames pc). pg_pin_count (pc_frames pc ! f) = 0"
  shows "\<exists>pc'. flush_all_pages pc log = Some pc' \<and> cache_step pc pc' \<and>
    (\<forall>f < length (pc_frames pc'). \<not> pg_dirty (pc_frames pc' ! f) \<and> pg_pin_count (pc_frames pc' ! f) = 0) \<and>
    pc_page_map pc' = pc_page_map pc \<and> pc_free_frames pc' = pc_free_frames pc \<and>
    pc_recently_referenced pc' = pc_recently_referenced pc"
proof -
  have "\<exists>pc'. for_each (\<lambda>pc i. flush_page pc i log) pc [0..<n] = Some pc' \<and> cache_step pc pc' \<and>
      length (pc_frames pc') = length (pc_frames pc) \<and>
      (\<forall>f < n. \<not> pg_dirty (pc_frames pc' ! f)) \<and> (\<forall>f < length (pc_frames pc). pg_pin_count (pc_frames pc' ! f) = 0) \<and>
      pc_page_map pc' = pc_page_map pc \<and> pc_free_frames pc' = pc_free_frames pc \<and>
      pc_recently_referenced pc' = pc_recently_referenced pc" if "n \<le> length (pc_frames pc)" for n
    using that
  proof (induction n)
    case 0
    then show ?case using inv unpinned by (simp add: cache_step_refl)
  next
    case (Suc n)
    then obtain pc1 where p1: "for_each (\<lambda>pc i. flush_page pc i log) pc [0..<n] = Some pc1" "cache_step pc pc1"
      "length (pc_frames pc1) = length (pc_frames pc)" "\<forall>f < n. \<not> pg_dirty (pc_frames pc1 ! f)"
      "\<forall>f < length (pc_frames pc). pg_pin_count (pc_frames pc1 ! f) = 0"
      "pc_page_map pc1 = pc_page_map pc" "pc_free_frames pc1 = pc_free_frames pc"
      "pc_recently_referenced pc1 = pc_recently_referenced pc" by auto
    have n: "n < length (pc_frames pc1)" using Suc.prems p1(3) by simp
    obtain pc2 where p2: "flush_page pc1 n log = Some pc2" "cache_step pc1 pc2"
      "pc_frames pc2 = (pc_frames pc1)[n := (pc_frames pc1 ! n)\<lparr>pg_dirty := False\<rparr>]"
      "pc_page_map pc2 = pc_page_map pc1" "pc_free_frames pc2 = pc_free_frames pc1"
      "pc_recently_referenced pc2 = pc_recently_referenced pc1"
      using flush_page_ok [OF cache_step_inv [OF p1(2)] n, of log] p1(3,5) Suc.prems by auto
    have "\<forall>f < Suc n. \<not> pg_dirty (pc_frames pc2 ! f)" using p1(4) n by (auto simp: p2(3) nth_list_update less_Suc_eq)
    moreover have "\<forall>f < length (pc_frames pc). pg_pin_count (pc_frames pc2 ! f) = 0"
      using p1(3,5) n by (auto simp: p2(3) nth_list_update)
    ultimately show ?case
      using p1 p2 cache_step_trans [OF inv p1(2) p2(2)] by (simp add: for_each_append)
  qed
  from this [of "length (pc_frames pc)"] show ?thesis
    using pc_invD(1) [OF inv] by (auto simp: flush_all_pages_def)
qed

text \<open>A pinned page cannot be flushed: the program ends.\<close>

lemma flush_all_pinned:
  assumes inv: "pc_inv pc" and f: "f < length (pc_frames pc)" "pg_pin_count (pc_frames pc ! f) \<noteq> 0"
  shows "flush_all_pages pc log = None"
proof (rule ccontr)
  assume "flush_all_pages pc log \<noteq> None"
  then obtain pc1 pc2 where r: "for_each (\<lambda>pc i. flush_page pc i log) pc [0..<f] = Some pc1" "flush_page pc1 f log = Some pc2"
    using pc_invD(1) [OF inv] f(1) upt_add_eq_append [of 0 f "pc_n_frames pc - f"] upt_conv_Cons [of f "pc_n_frames pc"]
    by (auto simp: flush_all_pages_def for_each_append bind_eq_Some_conv)
  have "cache_step pc pc1"
  proof (rule for_each_inv [OF r(1)])
    fix s x s' assume s: "cache_step pc s" and x: "flush_page s x log = Some s'"
    have "x < length (pc_frames s)" "pg_pin_count (pc_frames s ! x) = 0"
      using flush_page_SomeD [OF x] by simp_all
    then have "cache_step s s'" using flush_page_ok [OF cache_step_inv [OF s], of x log] x by auto
    then show "cache_step pc s'" by (rule cache_step_trans [OF inv s])
  qed (simp add: cache_step_refl inv)
  then have "pc_frames pc1 ! f = pc_frames pc ! f" using f by (simp add: cache_step_def)
  then show False using flush_page_SomeD [OF r(2)] f(2) by simp
qed

lemma clean_view:
  assumes inv: "pc_inv pc" and clean: "\<forall>f < length (pc_frames pc). \<not> pg_dirty (pc_frames pc ! f)" and v: "valid_file fk ft"
  shows "df_page (file_of (pc_pdb pc) fk ft) pn = pc_view pc fk ft pn"
proof (cases "pc_lookup pc fk ft pn")
  case None
  then show ?thesis using v by (simp add: pc_view_def)
next
  case (Some f)
  then have f: "f < length (pc_frames pc)" "frame_key (pc_frames pc ! f) = (fk, ft, pn)"
    using pc_invD(4) [OF inv v] by auto
  then have "pg_fk (pc_frames pc ! f) \<noteq> invalid" using v by (auto simp: frame_key_def valid_file_def)
  from frame_okD(3) [OF pc_invD(5) [OF inv f(1)] this] clean f Some v show ?thesis
    by (simp add: pc_view_def frame_key_def)
qed

end
