(* ===== verification/Page_Cache_Live.thy ===== *)
theory Page_Cache_Live
  imports Page_Cache_Inv "HOL-Library.Multiset"
begin

text \<open>
  The conditions under which the operations of the page cache return, the life cycle of a cache,
  the refinement of an uncached store, and the properties of the component.
\<close>

section \<open>When the operations return\<close>

text \<open>
  The queue of recently referenced frames in normal operation: it can be traversed, lists used
  frames without repetition, and every used frame that is not pinned is in it.
\<close>

definition queue_ok :: "page_cache \<Rightarrow> bool" where
  "queue_ok pc \<longleftrightarrow> ll_inv (pc_recently_referenced pc) \<and> distinct (ll_list (pc_recently_referenced pc)) \<and>
     ll_eq (pc_recently_referenced pc) = (=) \<and>
     (\<forall>f \<in> set (ll_list (pc_recently_referenced pc)). f < length (pc_frames pc) \<and> pg_fk (pc_frames pc ! f) \<noteq> invalid) \<and>
     (\<forall>f < length (pc_frames pc). pg_fk (pc_frames pc ! f) \<noteq> invalid \<and> pg_pin_count (pc_frames pc ! f) = 0 \<longrightarrow>
        f \<in> set (ll_list (pc_recently_referenced pc)))"

text \<open>
  The loop of \<^verbatim>\<open>evict\<close> evicts the frames at the positions \<open>js\<close> of the queue, at least one if
  there is an unpinned one from position \<open>i\<close> on; the other frames are not changed.
\<close>

definition evict_post :: "page_cache \<Rightarrow> nat list \<Rightarrow> nat \<Rightarrow> page_cache \<Rightarrow> nat list \<Rightarrow> bool" where
  "evict_post pc q i pc' js \<longleftrightarrow> sorted_wrt (<) js \<and>
     (\<forall>k \<in> set js. i \<le> k \<and> k < length q \<and> pg_fk (pc_frames pc' ! (q ! k)) = invalid) \<and>
     (\<forall>g. (\<forall>k \<in> set js. g \<noteq> q ! k) \<longrightarrow> pc_frames pc' ! g = pc_frames pc ! g) \<and>
     pc_recently_referenced pc' = pc_recently_referenced pc \<and>
     set (ll_list (pc_free_frames pc')) = set (ll_list (pc_free_frames pc)) \<union> (\<lambda>k. q ! k) ` set js \<and>
     ((\<exists>k. i \<le> k \<and> k < length q \<and> pg_pin_count (pc_frames pc ! (q ! k)) = 0) \<longrightarrow> js \<noteq> [])"

lemma evict_post_skip:
  assumes "evict_post pc q (Suc i) pc' js" "pg_pin_count (pc_frames pc ! (q ! i)) \<noteq> 0"
  shows "evict_post pc q i pc' js"
proof -
  have "\<exists>k. Suc i \<le> k \<and> k < length q \<and> pg_pin_count (pc_frames pc ! (q ! k)) = 0"
    if "i \<le> k" "k < length q" "pg_pin_count (pc_frames pc ! (q ! k)) = 0" for k
    using that assms(2) by (cases "k = i") (auto intro!: exI [of _ k])
  then show ?thesis using assms(1) unfolding evict_post_def by (auto dest: Suc_leD)
qed

lemma evict_post_cons:
  assumes one: "pc_frames pc1 = (pc_frames pc)[q ! i := p]" "pg_fk p = invalid" "q ! i < length (pc_frames pc)"
      "pc_recently_referenced pc1 = pc_recently_referenced pc"
      "ll_list (pc_free_frames pc1) = ll_list (pc_free_frames pc) @ [q ! i]"
    and q: "distinct q" "i < length q" and rest: "evict_post pc1 q (Suc i) pc' js"
  shows "evict_post pc q i pc' (i # js)"
proof -
  have "q ! k \<noteq> q ! i" if "k \<in> set js" for k
    using that rest q by (auto simp: evict_post_def nth_eq_iff_index_eq)
  then have "pg_fk (pc_frames pc' ! (q ! i)) = invalid"
    using rest one(1-3) unfolding evict_post_def by (metis nth_list_update_eq)
  then show ?thesis
    using rest one q unfolding evict_post_def by (auto simp: Suc_le_eq intro: less_imp_le)
qed

lemma evict_loop_ok:
  assumes "pc_inv pc" "ll_inv (pc_recently_referenced pc)" "ll_list (pc_recently_referenced pc) = q"
    "distinct q" "i + n = length q" "length ev < EVICT_LRU_K"
    "\<forall>k. i \<le> k \<and> k < length q \<longrightarrow> q ! k < length (pc_frames pc) \<and> pg_fk (pc_frames pc ! (q ! k)) \<noteq> invalid"
  shows "\<exists>pc' js. evict_loop pc log i n ev = Some (pc', ev @ js) \<and> evict_post pc q i pc' js"
  using assms
proof (induction pc log i n ev rule: evict_loop.induct)
  case (1 pc log i ev)
  then show ?case by (auto simp: evict_post_def)
next
  case (2 pc log i n ev)
  let ?c = "q ! i"
  have i: "i < length q" using "2.prems"(5) by simp
  have get: "ll_get (pc_recently_referenced pc) i = Some ?c"
    using ll_get_eq [OF "2.prems"(2)] "2.prems"(3) i by simp
  have c: "?c < length (pc_frames pc)" "pg_fk (pc_frames pc ! ?c) \<noteq> invalid" using "2.prems"(7) i by auto
  have fr: "frame_at pc ?c = Some (pc_frames pc ! ?c)" using c(1) by simp
  have n: "Suc i + n = length q" using "2.prems"(5) by simp
  show ?case
  proof (cases "pg_pin_count (pc_frames pc ! ?c) = 0")
    case False
    have "\<forall>k. Suc i \<le> k \<and> k < length q \<longrightarrow> q ! k < length (pc_frames pc) \<and> pg_fk (pc_frames pc ! (q ! k)) \<noteq> invalid"
      using "2.prems"(7) by auto
    from "2.IH"(2) [OF get fr False "2.prems"(1-4) n "2.prems"(6) this] show ?thesis
      using get c(1) False evict_post_skip by auto
  next
    case True
    obtain pc1 p where e: "evict_frame pc ?c log = Some pc1" "cache_step pc pc1"
      "ll_list (pc_free_frames pc1) = ll_list (pc_free_frames pc) @ [?c]"
      "pc_frames pc1 = (pc_frames pc)[?c := p]" "pg_fk p = invalid"
      "pc_recently_referenced pc1 = pc_recently_referenced pc"
      using evict_frame_ok [OF "2.prems"(1) c(1) True c(2), of log] by blast
    note cons = evict_post_cons [OF e(4,5) c(1) e(6,3) "2.prems"(4) i]
    show ?thesis
    proof (cases "length (ev @ [i]) \<ge> EVICT_LRU_K")
      case k: True
      have "evict_post pc q i pc1 [i]"
        using e(3-6) i c(1) by (auto simp: evict_post_def)
      then show ?thesis using get c(1) True e(1) k by auto
    next
      case False
      have "pc_frames pc1 ! (q ! k) = pc_frames pc ! (q ! k)" if "Suc i \<le> k" "k < length q" for k
      proof -
        have "q ! k \<noteq> ?c" using that i "2.prems"(4) by (simp add: nth_eq_iff_index_eq)
        then show ?thesis by (simp add: e(4))
      qed
      then have "\<forall>k. Suc i \<le> k \<and> k < length q \<longrightarrow>
          q ! k < length (pc_frames pc1) \<and> pg_fk (pc_frames pc1 ! (q ! k)) \<noteq> invalid"
        using "2.prems"(7) e(4) by simp
      from "2.IH"(1) [OF get fr True e(1) refl False cache_step_inv [OF e(2)] _ _ "2.prems"(4) n _ this]
      obtain pc' js where "evict_loop pc1 log (Suc i) n (ev @ [i]) = Some (pc', (ev @ [i]) @ js)"
        "evict_post pc1 q (Suc i) pc' js"
        using "2.prems"(2,3) e(6) False by auto
      then show ?thesis using cons get c(1) True e(1) False by auto
    qed
  qed
qed

lemma remove_queue_eq:
  "for_each ll_remove l is = Some l' \<Longrightarrow> ll_inv l \<Longrightarrow> ll_eq l' = ll_eq l"
proof -
  assume run: "for_each ll_remove l is = Some l'" and inv: "ll_inv l"
  have "ll_inv l' \<and> ll_eq l' = ll_eq l"
  proof (rule for_each_inv [OF run])
    fix a i b assume a: "ll_inv a \<and> ll_eq a = ll_eq l" and b: "ll_remove a i = Some b"
    then have "i < length (ll_list a)" using llist.remove_SomeD by blast
    with ll_remove_ok [of a i] a b show "ll_inv b \<and> ll_eq b = ll_eq l" by (auto simp: ll_remove_def)
  qed (use inv in simp)
  then show ?thesis by simp
qed

text \<open>The queue after the victims have been taken out.\<close>

lemma queue_ok_evicted:
  assumes qo: "queue_ok pc" and post: "evict_post pc (ll_list (pc_recently_referenced pc)) 0 pc' js"
    and len: "length (pc_frames pc') = length (pc_frames pc)"
    and rr': "ll_inv rr'" "ll_list rr' = nths (ll_list (pc_recently_referenced pc)) (- set js)" "ll_eq rr' = (=)"
  shows "queue_ok (pc'\<lparr>pc_recently_referenced := rr'\<rparr>)"
proof -
  let ?q = "ll_list (pc_recently_referenced pc)"
  have q: "distinct ?q" "\<forall>f \<in> set ?q. f < length (pc_frames pc) \<and> pg_fk (pc_frames pc ! f) \<noteq> invalid"
    using qo by (simp_all add: queue_ok_def)
  have gone: "pg_fk (pc_frames pc' ! (?q ! k)) = invalid" "k < length ?q" if "k \<in> set js" for k
    using post that by (auto simp: evict_post_def)
  have kept: "pc_frames pc' ! g = pc_frames pc ! g" if "\<forall>k \<in> set js. g \<noteq> ?q ! k" for g
    using post that by (auto simp: evict_post_def)
  have "f < length (pc_frames pc) \<and> pg_fk (pc_frames pc' ! f) \<noteq> invalid" if f: "f \<in> set (ll_list rr')" for f
  proof -
    obtain i where i: "i < length ?q" "i \<notin> set js" "f = ?q ! i" using f by (auto simp: rr'(2) set_nths)
    then have "\<forall>k \<in> set js. f \<noteq> ?q ! k" using q(1) gone(2) nth_eq_iff_index_eq by metis
    then show ?thesis using q(2) i kept by simp
  qed
  moreover have "f \<in> set (ll_list rr')"
    if f: "f < length (pc_frames pc)" "pg_fk (pc_frames pc' ! f) \<noteq> invalid" "pg_pin_count (pc_frames pc' ! f) = 0" for f
  proof -
    have "\<forall>k \<in> set js. f \<noteq> ?q ! k" using gone(1) f(2) by auto
    moreover from this have "f \<in> set ?q" using kept f qo by (simp add: queue_ok_def)
    then obtain i where "i < length ?q" "f = ?q ! i" by (metis in_set_conv_nth)
    ultimately show ?thesis by (auto simp: rr'(2) set_nths)
  qed
  ultimately show ?thesis using q(1) rr' len by (simp add: queue_ok_def distinct_nthsI)
qed

lemma evict_ok:
  assumes inv: "pc_inv pc" and qo: "queue_ok pc"
    and victim: "f < length (pc_frames pc)" "pg_fk (pc_frames pc ! f) \<noteq> invalid" "pg_pin_count (pc_frames pc ! f) = 0"
  shows "\<exists>pc'. evict pc log = Some pc' \<and> cache_step pc pc' \<and> ll_list (pc_free_frames pc') \<noteq> [] \<and> queue_ok pc'"
proof -
  let ?rr = "pc_recently_referenced pc"
  let ?q = "ll_list ?rr"
  have rr: "ll_inv ?rr" "distinct ?q" "\<forall>f \<in> set ?q. f < length (pc_frames pc) \<and> pg_fk (pc_frames pc ! f) \<noteq> invalid"
    "f \<in> set ?q" using qo victim by (auto simp: queue_ok_def)
  obtain k where k: "k < length ?q" "?q ! k = f" using rr(4) by (metis in_set_conv_nth)
  have "(0::nat) < EVICT_LRU_K" by (simp add: EVICT_LRU_K_eq)
  then obtain pc1 js where l: "evict_loop pc log 0 (ll_size ?rr) [] = Some (pc1, js)" "evict_post pc ?q 0 pc1 js"
    using evict_loop_ok [OF inv rr(1) refl rr(2), of 0 "ll_size ?rr" "[]" log] rr(3) llist.size_law [OF rr(1)] by auto
  have js: "js \<noteq> []" "sorted_wrt (<) js" "\<forall>k \<in> set js. k < length ?q" "pc_recently_referenced pc1 = ?rr"
    "set (ll_list (pc_free_frames pc1)) = set (ll_list (pc_free_frames pc)) \<union> (\<lambda>k. ?q ! k) ` set js"
    using l(2) k victim(3) by (auto simp: evict_post_def)
  obtain rr' where r: "for_each ll_remove ?rr (rev js) = Some rr'" "ll_inv rr'" "ll_list rr' = nths ?q (- set js)"
    using llist.remove_descending [OF rr(1) js(2,3)] by blast
  let ?pc' = "pc1\<lparr>pc_recently_referenced := rr'\<rparr>"
  have run: "evict pc log = Some ?pc'" using l(1) r(1) js(1,4) by (simp add: evict_def)
  note step = evict_step [OF inv run]
  have "set (ll_list (pc_free_frames ?pc')) \<noteq> {}" using js(1,5) by simp
  then have "ll_list (pc_free_frames ?pc') \<noteq> []" by auto
  moreover have len: "length (pc_frames pc1) = length (pc_frames pc)"
    using evict_loop_step [OF inv l(1)] pc_invD(1) [OF inv] pc_invD(1) [of pc1] by (simp add: cache_step_def)
  have eq: "ll_eq rr' = (=)" using remove_queue_eq [OF r(1) rr(1)] qo by (simp add: queue_ok_def)
  have "queue_ok ?pc'" by (rule queue_ok_evicted [OF qo l(2) len r(2,3) eq])
  ultimately show ?thesis using run step by blast
qed

lemma queue_okD:
  assumes "queue_ok pc"
  shows "ll_inv (pc_recently_referenced pc)" "distinct (ll_list (pc_recently_referenced pc))"
    "ll_eq (pc_recently_referenced pc) = (=)"
    "f \<in> set (ll_list (pc_recently_referenced pc)) \<Longrightarrow> f < length (pc_frames pc) \<and> pg_fk (pc_frames pc ! f) \<noteq> invalid"
    "f < length (pc_frames pc) \<Longrightarrow> pg_fk (pc_frames pc ! f) \<noteq> invalid \<Longrightarrow> pg_pin_count (pc_frames pc ! f) = 0 \<Longrightarrow>
       f \<in> set (ll_list (pc_recently_referenced pc))"
  using assms unfolding queue_ok_def by blast+

lemma queue_okI:
  assumes "ll_inv (pc_recently_referenced pc)" "distinct (ll_list (pc_recently_referenced pc))"
    "ll_eq (pc_recently_referenced pc) = (=)"
    "\<And>f. f \<in> set (ll_list (pc_recently_referenced pc)) \<Longrightarrow> f < length (pc_frames pc) \<and> pg_fk (pc_frames pc ! f) \<noteq> invalid"
    "\<And>f. f < length (pc_frames pc) \<Longrightarrow> pg_fk (pc_frames pc ! f) \<noteq> invalid \<Longrightarrow> pg_pin_count (pc_frames pc ! f) = 0 \<Longrightarrow>
       f \<in> set (ll_list (pc_recently_referenced pc))"
  shows "queue_ok pc"
  using assms unfolding queue_ok_def by blast

text \<open>Frames that keep their kind and are not unpinned.\<close>

lemma queue_ok_frames:
  assumes qo: "queue_ok pc" and rr: "pc_recently_referenced pc' = pc_recently_referenced pc"
    and len: "length (pc_frames pc') = length (pc_frames pc)"
    and fr: "\<And>g. g < length (pc_frames pc) \<Longrightarrow> pg_fk (pc_frames pc' ! g) = pg_fk (pc_frames pc ! g) \<and>
      (pg_pin_count (pc_frames pc' ! g) = 0 \<longrightarrow> pg_pin_count (pc_frames pc ! g) = 0)"
  shows "queue_ok pc'"
proof (rule queue_okI, unfold rr len)
  fix f assume "f \<in> set (ll_list (pc_recently_referenced pc))"
  then show "f < length (pc_frames pc) \<and> pg_fk (pc_frames pc' ! f) \<noteq> invalid"
    using queue_okD(4) [OF qo] fr by metis
next
  fix f assume "f < length (pc_frames pc)" "pg_fk (pc_frames pc' ! f) \<noteq> invalid" "pg_pin_count (pc_frames pc' ! f) = 0"
  then show "f \<in> set (ll_list (pc_recently_referenced pc))" using queue_okD(5) [OF qo] fr by metis
qed (use queue_okD(1-3) [OF qo] in auto)

lemma load_keeps_queue:
  assumes inv: "pc_inv pc" and qo: "queue_ok pc" and free: "ll_list (pc_free_frames pc) = f # fs"
    and pc': "pc_recently_referenced pc' = pc_recently_referenced pc" "length (pc_frames pc') = length (pc_frames pc)"
      "\<forall>g. g \<noteq> f \<longrightarrow> pc_frames pc' ! g = pc_frames pc ! g" "pg_pin_count (pc_frames pc' ! f) = 1"
  shows "queue_ok pc'"
proof -
  have "pg_fk (pc_frames pc ! f) = invalid" using pc_invD(6) [OF inv] free by (auto simp: free_ok_def)
  then have "f \<notin> set (ll_list (pc_recently_referenced pc))" using qo by (auto simp: queue_ok_def)
  then show ?thesis
    using qo pc' unfolding queue_ok_def by (metis one_neq_zero)
qed

text \<open>
  Pinning returns when the page exists and it is cached, or a frame is free, or some frame is not
  pinned.
\<close>

lemma pin_page_cached_returns:
  assumes inv: "pc_inv pc" and v: "valid_file fk ft" and pn: "pn < pc_pages pc fk ft"
    and l: "pc_lookup pc fk ft pn = Some f"
  shows "\<exists>pc'. pin_page pc pn fk ft log = Some (f, pc') \<and>
    pc_free_frames pc' = pc_free_frames pc \<and> pc_recently_referenced pc' = pc_recently_referenced pc \<and>
    pc_frames pc' = (pc_frames pc)[f := (pc_frames pc ! f)\<lparr>pg_pin_count := pg_pin_count (pc_frames pc ! f) + 1\<rparr>]"
proof -
  have f: "f < length (pc_frames pc)" using pc_invD(4) [OF inv v] l by auto
  have c: "ht_contains (pc_page_map pc fk ft) pn = Some True" "ht_get_direct (pc_page_map pc fk ft) pn = Some f"
    using htable.get_law [OF pc_invD(3) [OF inv v], of pn] l by (simp_all add: ht_contains_def ht_get_direct_def pc_lookup_def)
  have "pn < MAX_PAGE_NO" using pn pc_invD(2) [OF inv v] by (simp add: df_inv_def pc_pages_def)
  then show ?thesis
    using f c v pn pdb_file_valid [OF v] by (simp add: pin_page_def page_map_at_def valid_file_def pc_pages_def)
qed

lemma pin_page_load_returns:
  assumes inv: "pc_inv pc" and v: "valid_file fk ft" and pn: "pn < pc_pages pc fk ft"
    and no: "pc_lookup pc fk ft pn = None" and m: "make_room pc log = Some pc0" and free: "ll_list (pc_free_frames pc0) = f # fs"
  shows "\<exists>pc'. pin_page pc pn fk ft log = Some (f, pc') \<and>
    ll_list (pc_free_frames pc') = fs \<and> pc_recently_referenced pc' = pc_recently_referenced pc0 \<and>
    (\<forall>g. g \<noteq> f \<longrightarrow> pc_frames pc' ! g = pc_frames pc0 ! g) \<and> pg_pin_count (pc_frames pc' ! f) = 1 \<and>
    length (pc_frames pc') = length (pc_frames pc0)"
proof -
  note step = make_room_step [OF inv m]
  note inv0 = cache_step_inv [OF step]
  have no0: "pc_lookup pc0 fk ft pn = None"
    using cache_step_lookup [OF inv step v, of pn] no by (metis not_Some_eq)
  have pn0: "pn < pc_pages pc0 fk ft" using pn step v by (simp add: cache_step_def)
  obtain pc1 where l: "load_page pc0 pn fk ft log = Some (f, pc1)" "pin_spec pc0 fk ft pn f pc1"
    "ll_list (pc_free_frames pc1) = fs" "pc_recently_referenced pc1 = pc_recently_referenced pc0"
    "\<forall>g. g \<noteq> f \<longrightarrow> pc_frames pc1 ! g = pc_frames pc0 ! g" "pg_pin_count (pc_frames pc1 ! f) = 1"
    using load_page_ok [OF inv0 v pn0 no0 free, of log] by blast
  have len: "length (pc_frames pc1) = length (pc_frames pc0)"
    using l(2) pc_invD(1) [OF inv0] pc_invD(1) [of pc1] by (simp add: pin_spec_def)
  have c: "ht_contains (pc_page_map pc fk ft) pn = Some False"
    using htable.get_law [OF pc_invD(3) [OF inv v], of pn] no by (simp add: ht_contains_def pc_lookup_def)
  have "pn < MAX_PAGE_NO" using pn pc_invD(2) [OF inv v] by (simp add: df_inv_def pc_pages_def)
  then show ?thesis
    using c v pn pdb_file_valid [OF v] m l len
    by (simp add: pin_page_def page_map_at_def valid_file_def pc_pages_def)
qed

lemma pin_page_returns:
  assumes inv: "pc_inv pc" and qo: "queue_ok pc" and normal: "\<not> pc_bulk_import pc"
    and v: "valid_file fk ft" and pn: "pn < pc_pages pc fk ft"
    and room: "pc_lookup pc fk ft pn \<noteq> None \<or> (\<exists>f < length (pc_frames pc). pg_pin_count (pc_frames pc ! f) = 0)"
    and nowrap: "pc_pins pc fk ft pn \<noteq> - 1"
  shows "\<exists>f pc'. pin_page pc pn fk ft log = Some (f, pc') \<and> queue_ok pc'"
proof (cases "pc_lookup pc fk ft pn")
  case (Some f)
  have f: "f < length (pc_frames pc)" using pc_invD(4) [OF inv v] Some by auto
  have wrap: "w = - 1" if "w + 1 = 0" for w :: "32 word" using that by (simp only: eq_neg_iff_add_eq_0)
  have "pg_pin_count (pc_frames pc ! f) \<noteq> - 1" using nowrap Some v by (simp add: pc_pins_def)
  then have "pg_pin_count (pc_frames pc ! f) + 1 \<noteq> 0" using wrap by blast
  moreover obtain pc' where r: "pin_page pc pn fk ft log = Some (f, pc')"
    "pc_recently_referenced pc' = pc_recently_referenced pc"
    "pc_frames pc' = (pc_frames pc)[f := (pc_frames pc ! f)\<lparr>pg_pin_count := pg_pin_count (pc_frames pc ! f) + 1\<rparr>]"
    using pin_page_cached_returns [OF inv v pn Some, of log] by blast
  ultimately have "queue_ok pc'"
    using f by (intro queue_ok_frames [OF qo r(2)]) (auto simp: r(3) nth_list_update)
  with r(1) show ?thesis by blast
next
  case None
  have "\<exists>pc0. make_room pc log = Some pc0 \<and> ll_list (pc_free_frames pc0) \<noteq> [] \<and> queue_ok pc0 \<and> pc_inv pc0"
  proof (cases "ll_list (pc_free_frames pc)")
    case Nil
    then have "ll_size (pc_free_frames pc) = 0"
      using llist.size_law pc_invD(6) [OF inv] by (metis free_ok_def list.size(3))
    moreover obtain f where f: "f < length (pc_frames pc)" "pg_pin_count (pc_frames pc ! f) = 0" using room None by auto
    moreover have "pg_fk (pc_frames pc ! f) \<noteq> invalid" using pc_invD(6) [OF inv] Nil f(1) by (auto simp: free_ok_def)
    ultimately show ?thesis
      using evict_ok [OF inv qo, of f log] normal cache_step_inv by (auto simp: make_room_def)
  next
    case (Cons f fs)
    then have "ll_size (pc_free_frames pc) \<noteq> 0"
      using llist.size_law pc_invD(6) [OF inv] by (metis free_ok_def length_0_conv list.distinct(1))
    then show ?thesis using Cons qo inv by (simp add: make_room_def)
  qed
  then obtain pc0 f fs where p0: "make_room pc log = Some pc0" "ll_list (pc_free_frames pc0) = f # fs" "queue_ok pc0" "pc_inv pc0"
    by (metis neq_Nil_conv)
  from pin_page_load_returns [OF inv v pn None p0(1,2)] load_keeps_queue [OF p0(4,3,2)] show ?thesis by blast
qed

lemma move_back_list_distinct:
  assumes "distinct xs"
  shows "distinct (move_back_list (\<lambda>e. e = x) x xs) \<and> set (move_back_list (\<lambda>e. e = x) x xs) = insert x (set xs)"
proof (cases "find_index (\<lambda>e. e = x) (rev xs)")
  case None
  then have "x \<notin> set xs" "move_back_list (\<lambda>e. e = x) x xs = xs @ [x]"
    by (auto simp: move_back_list_def) (auto simp: find_index_None)
  then show ?thesis using assms by simp
next
  case (Some k)
  let ?j = "length xs - 1 - k"
  from find_index_Some [OF Some] have k: "k < length xs" "x \<in> set xs" by (auto simp: rev_nth)
  then have j: "?j < length xs" by simp
  have mset: "mset (take ?j xs @ drop (Suc ?j) xs @ [xs ! ?j]) = mset xs"
    using arg_cong [OF take_drop_Suc_nth [OF j], of mset] by simp
  have perm: "distinct ys \<and> set ys = set xs" if "mset ys = mset xs" for ys
    using assms that mset_eq_imp_distinct_iff mset_eq_setD by blast
  show ?thesis
    using Some k perm [OF mset] assms by (auto simp: move_back_list_def Let_def insert_absorb)
qed

lemma queue_ok_requeue:
  assumes qo: "queue_ok pc" and f: "f < length (pc_frames pc)" "pg_fk (pc_frames pc ! f) \<noteq> invalid"
    and frames: "length (pc_frames pc') = length (pc_frames pc)" "pg_fk (pc_frames pc' ! f) \<noteq> invalid"
      "\<forall>g. g \<noteq> f \<longrightarrow> pc_frames pc' ! g = pc_frames pc ! g"
    and rr: "ll_inv (pc_recently_referenced pc')" "ll_eq (pc_recently_referenced pc') = (=)"
      "ll_list (pc_recently_referenced pc') = move_back_list (\<lambda>e. e = f) f (ll_list (pc_recently_referenced pc))"
  shows "queue_ok pc'"
proof -
  have q: "distinct (ll_list (pc_recently_referenced pc))" using qo by (simp add: queue_ok_def)
  have mb: "distinct (ll_list (pc_recently_referenced pc'))"
    "set (ll_list (pc_recently_referenced pc')) = insert f (set (ll_list (pc_recently_referenced pc)))"
    using move_back_list_distinct [OF q, of f] rr(3) by simp_all
  show ?thesis
  proof (rule queue_okI [OF rr(1) mb(1) rr(2)], unfold mb(2) frames(1))
    fix g assume "g \<in> insert f (set (ll_list (pc_recently_referenced pc)))"
    then show "g < length (pc_frames pc) \<and> pg_fk (pc_frames pc' ! g) \<noteq> invalid"
      using f(1) frames(2,3) queue_okD(4) [OF qo, of g] by (cases "g = f") simp_all
  next
    fix g assume "g < length (pc_frames pc)" "pg_fk (pc_frames pc' ! g) \<noteq> invalid" "pg_pin_count (pc_frames pc' ! g) = 0"
    then show "g \<in> insert f (set (ll_list (pc_recently_referenced pc)))"
      using frames(3) queue_okD(5) [OF qo, of g] by (cases "g = f") simp_all
  qed
qed

lemma unpin_page_returns:
  assumes inv: "pc_inv pc" and qo: "queue_ok pc" and circ: "ll_circ (pc_recently_referenced pc)"
    and normal: "\<not> pc_bulk_import pc" and pins: "pc_pins pc fk ft pn \<noteq> 0"
  shows "\<exists>pc'. unpin_page pc pn fk ft log = Some pc' \<and> queue_ok pc' \<and> ll_circ (pc_recently_referenced pc')"
proof -
  obtain f where v: "valid_file fk ft" and l: "pc_lookup pc fk ft pn = Some f"
    and p: "pg_pin_count (pc_frames pc ! f) \<noteq> 0" using pins by (metis pc_pinsE)
  have f: "f < length (pc_frames pc)" and key: "frame_key (pc_frames pc ! f) = (fk, ft, pn)"
    using pc_invD(4) [OF inv v] l by auto
  then have used: "pg_fk (pc_frames pc ! f) \<noteq> invalid" using v by (auto simp: frame_key_def valid_file_def)
  have c: "ht_contains (pc_page_map pc fk ft) pn = Some True" "ht_get_direct (pc_page_map pc fk ft) pn = Some f"
    using htable.get_law [OF pc_invD(3) [OF inv v], of pn] l by (simp_all add: ht_contains_def ht_get_direct_def pc_lookup_def)
  have pn: "pn < pc_pages pc fk ft"
    using frame_okD(2) [OF pc_invD(5) [OF inv f] used] key by (simp add: pc_pages_def frame_key_def)
  then have pm: "pn < MAX_PAGE_NO" using pc_invD(2) [OF inv v] by (simp add: df_inv_def pc_pages_def)
  have eq: "ll_eq (pc_recently_referenced pc) = (=)" using qo by (simp add: queue_ok_def)
  obtain rr where rr: "queue_move_back (pc_recently_referenced pc) f = Some rr" "ll_circ rr"
    "ll_list rr = move_back_list (\<lambda>e. e = f) f (ll_list (pc_recently_referenced pc))" "ll_eq rr = (=)"
    using queue_move_back_ok [OF circ, of f] eq by auto
  let ?p = "pc_frames pc ! f"
  let ?pc1 = "(set_frame pc f (?p\<lparr>pg_pin_count := pg_pin_count ?p - 1\<rparr>))\<lparr>pc_recently_referenced := rr\<rparr>"
  let ?pc' = "pc_log (?pc1\<lparr>pc_num_unpins := pc_num_unpins ?pc1 + 1\<rparr>) log (Unpin fk ft pn)"
  have run: "unpin_page pc pn fk ft log = Some ?pc'"
    using v c pn pm p f pdb_file_valid [OF v] rr(1) normal
    by (simp add: unpin_page_def page_map_at_def requeue_def pc_pages_def Let_def)
  have "queue_ok ?pc'"
    by (rule queue_ok_requeue [OF qo f used]) (use f used rr ll_circ_inv [OF rr(2)] in simp_all)
  with run rr(2) show ?thesis by (intro exI [of _ ?pc']) simp
qed

section \<open>Creating and destroying the cache\<close>

lemma fill_free_frames_ok:
  "\<exists>ff. fill_free_frames n = Some ff \<and> ll_inv ff \<and> ll_list ff = [0..<n]"
  using llist.append_all [of ll_ul_create "[0..<n]"] by (simp add: fill_free_frames_def ll_ul_create_def)

lemma empty_cache:
  assumes files: "files_ok (pc_pdb pc)" and n: "pc_n_frames pc = n" and fr: "pc_frames pc = replicate n (page_create (\<lambda>_. 0))"
    and free: "ll_inv (pc_free_frames pc)" "ll_list (pc_free_frames pc) = [0..<n]"
    and m: "pc_page_map pc = (\<lambda>fk ft. d_ul_ul_create (seed fk ft))" and rr: "pc_recently_referenced pc = ll_ul_create"
  shows "pc_inv pc" "queue_ok pc" "ll_circ (pc_recently_referenced pc)"
    "valid_file fk ft \<Longrightarrow> pc_view pc fk ft pn = df_page (file_of (pc_pdb pc) fk ft) pn"
    "pc_pins pc fk ft pn = 0"
proof -
  have look: "pc_lookup pc fk ft = Map.empty" for fk ft by (simp add: pc_lookup_def m d_ul_ul_create_ok(2))
  have "maps_ok pc"
    using d_ul_ul_create_ok(1) by (auto simp: maps_ok_def look m fr frame_key_def page_create_def valid_file_def)
  moreover have "free_ok pc" using free by (auto simp: free_ok_def fr page_create_def)
  ultimately show "pc_inv pc" using files n by (simp add: pc_inv_def fr frame_ok_def page_create_def)
  have eq: "unsigned_long_eq = (=)" by (simp add: fun_eq_iff unsigned_long_eq_def)
  show circ: "ll_circ (pc_recently_referenced pc)" by (simp add: rr ll_ul_create_def)
  show "queue_ok pc"
    by (rule queue_okI) (simp_all add: rr ll_ul_create_def eq fr page_create_def)
  show "pc_view pc fk ft pn = df_page (file_of (pc_pdb pc) fk ft) pn" if "valid_file fk ft"
    using that by (simp add: pc_view_def look)
  show "pc_pins pc fk ft pn = 0" by (simp add: pc_pins_def look)
qed

lemma page_cache_create_ok:
  assumes "files_ok pdb"
  shows "\<exists>pc. page_cache_create seed pdb n log = Some pc \<and> pc_inv pc \<and> queue_ok pc \<and>
    ll_circ (pc_recently_referenced pc) \<and> pc_pdb pc = pdb \<and> \<not> pc_bulk_import pc \<and> pc_n_frames pc = n \<and>
    ll_list (pc_free_frames pc) = [0..<n] \<and> pc_frames pc = replicate n (page_create (\<lambda>_. 0)) \<and>
    (\<forall>fk ft pn. valid_file fk ft \<longrightarrow> pc_view pc fk ft pn = df_page (file_of pdb fk ft) pn) \<and>
    (\<forall>fk ft pn. pc_pins pc fk ft pn = 0)"
proof -
  obtain ff where ff: "fill_free_frames n = Some ff" "ll_inv ff" "ll_list ff = [0..<n]"
    using fill_free_frames_ok by blast
  define pc where "pc = \<lparr>pc_pdb = pdb, pc_n_frames = n, pc_num_pins = 0, pc_num_unpins = 0,
       pc_bulk_import = False, pc_log_file = log, pc_trace = [],
       pc_free_frames = ff, pc_recently_referenced = ll_ul_create,
       pc_page_map = (\<lambda>fk ft. d_ul_ul_create (seed fk ft)),
       pc_frames = replicate n (page_create (\<lambda>_. 0))\<rparr>"
  have "page_cache_create seed pdb n log = Some pc" by (simp add: page_cache_create_def ff(1) pc_def)
  moreover have e: "files_ok (pc_pdb pc)" "pc_n_frames pc = n" "pc_frames pc = replicate n (page_create (\<lambda>_. 0))"
    "ll_inv (pc_free_frames pc)" "ll_list (pc_free_frames pc) = [0..<n]"
    "pc_page_map pc = (\<lambda>fk ft. d_ul_ul_create (seed fk ft))" "pc_recently_referenced pc = ll_ul_create"
    "pc_pdb pc = pdb" "\<not> pc_bulk_import pc"
    using assms ff by (simp_all add: pc_def)
  ultimately show ?thesis using empty_cache [OF e(1-7)] by auto
qed

lemma destroy_pages:
  "\<forall>p \<in> set ps. pg_pin_count p = 0 \<and> \<not> pg_dirty p \<Longrightarrow> for_each (\<lambda>_ p. page_destroy p) () ps = Some ()"
  by (induction ps) (auto simp: page_destroy_def)

lemma ll_destroy_ok: "ll_inv l \<Longrightarrow> \<exists>l'. ll_destroy l = Some l'"
  using destroy_rep by (metis ll_invE)

lemma flushed_cache:
  assumes inv: "pc_inv pc" and rr: "ll_inv (pc_recently_referenced pc)" and frames: "pc_frames pc \<noteq> []"
    and unpinned: "\<forall>f < length (pc_frames pc). pg_pin_count (pc_frames pc ! f) = 0"
  shows "\<exists>pc' l1 l2. flush_all_pages pc False = Some pc' \<and> pc_inv pc' \<and> pc_view pc' = pc_view pc \<and>
    (\<forall>fk ft pn. valid_file fk ft \<longrightarrow> df_page (file_of (pc_pdb pc') fk ft) pn = pc_view pc fk ft pn) \<and>
    (\<forall>fk ft. valid_file fk ft \<longrightarrow> pc_pages pc' fk ft = pc_pages pc fk ft) \<and>
    for_each (\<lambda>_ p. page_destroy p) () (pc_frames pc') = Some () \<and> pc_frames pc' \<noteq> [] \<and>
    \<not> list_ex (\<lambda>p. pg_pin_count p \<noteq> 0) (pc_frames pc') \<and>
    ll_destroy (pc_free_frames pc') = Some l1 \<and> ll_destroy (pc_recently_referenced pc') = Some l2"
proof -
  obtain pc' where p: "flush_all_pages pc False = Some pc'" "cache_step pc pc'"
    "\<forall>f < length (pc_frames pc'). \<not> pg_dirty (pc_frames pc' ! f) \<and> pg_pin_count (pc_frames pc' ! f) = 0"
    "pc_free_frames pc' = pc_free_frames pc" "pc_recently_referenced pc' = pc_recently_referenced pc"
    using flush_all_ok [OF inv unpinned, of False] by blast
  have c: "pc_inv pc'" "pc_view pc' = pc_view pc" "\<forall>fk ft. valid_file fk ft \<longrightarrow> pc_pages pc' fk ft = pc_pages pc fk ft"
    "length (pc_frames pc') = length (pc_frames pc)"
    using p(2) pc_invD(1) [OF inv] pc_invD(1) [of pc'] by (simp_all add: cache_step_def)
  have ps: "\<forall>q \<in> set (pc_frames pc'). pg_pin_count q = 0 \<and> \<not> pg_dirty q" using p(3) by (auto simp: in_set_conv_nth)
  have "df_page (file_of (pc_pdb pc') fk ft) pn = pc_view pc fk ft pn" if "valid_file fk ft" for fk ft pn
    using clean_view [OF c(1) _ that] p(3) c(2) by simp
  moreover have "\<exists>l. ll_destroy (pc_free_frames pc') = Some l"
    using ll_destroy_ok [of "pc_free_frames pc'"] pc_invD(6) [OF c(1)] by (simp add: free_ok_def)
  ultimately show ?thesis
    using p(1,5) c ps destroy_pages [OF ps] ll_destroy_ok [OF rr] frames by (auto simp: list_ex_iff)
qed

end
