(* ===== verification/Page_Cache_Ready.thy ===== *)
theory Page_Cache_Ready
  imports Page_Cache_Live
begin

text \<open>
  A condition under which pins and unpins return whatever their order: \<open>ready k pc\<close> says that the
  cache is well-formed and that at least \<open>k\<close> more pins may be outstanding. It holds in the two
  modes of operation in which the queue of recently referenced frames does no harm: during a bulk
  import, where the queue is not used, and when all pages of the database fit into the frames, so
  that nothing is ever removed from the queue.
\<close>

section \<open>Outstanding pins\<close>

definition pin_sum :: "page_cache \<Rightarrow> nat" where
  "pin_sum pc = (\<Sum>f < length (pc_frames pc). unat (pg_pin_count (pc_frames pc ! f)))"

definition all_pages :: "page_cache \<Rightarrow> nat" where
  "all_pages pc = pc_pages pc catalogue node_ft + pc_pages pc header node_ft + pc_pages pc header relationship_ft +
     pc_pages pc records node_ft + pc_pages pc records relationship_ft"

definition ready :: "nat \<Rightarrow> page_cache \<Rightarrow> bool" where
  "ready k pc \<longleftrightarrow> pc_inv pc \<and> pin_sum pc + k \<le> pc_n_frames pc \<and> pc_n_frames pc < 2 ^ 32 \<and>
     (pc_bulk_import pc \<or>
      queue_ok pc \<and> ll_circ (pc_recently_referenced pc) \<and> all_pages pc \<le> pc_n_frames pc)"

lemma ready_mono: "ready k pc \<Longrightarrow> j \<le> k \<Longrightarrow> ready j pc"
  by (auto simp: ready_def)

lemma ready_inv: "ready k pc \<Longrightarrow> pc_inv pc"
  by (simp add: ready_def)

lemma sum_one_changed:
  fixes u v :: "nat \<Rightarrow> nat"
  assumes "i < n" "\<And>j. j < n \<Longrightarrow> j \<noteq> i \<Longrightarrow> u j = v j"
  shows "(\<Sum>j < n. u j) + v i = (\<Sum>j < n. v j) + u i"
proof -
  have "(\<Sum>j \<in> {..<n} - {i}. u j) = (\<Sum>j \<in> {..<n} - {i}. v j)" using assms(2) by (intro sum.cong) auto
  then show ?thesis using assms(1) by (simp add: sum.remove [of "{..<n}" i])
qed

lemma pin_sum_one_changed:
  assumes "f < length (pc_frames pc)" "length (pc_frames pc') = length (pc_frames pc)"
    "\<forall>g. g \<noteq> f \<longrightarrow> pc_frames pc' ! g = pc_frames pc ! g"
  shows "pin_sum pc' + unat (pg_pin_count (pc_frames pc ! f)) = pin_sum pc + unat (pg_pin_count (pc_frames pc' ! f))"
  using sum_one_changed [OF assms(1), of "\<lambda>g. unat (pg_pin_count (pc_frames pc' ! g))"
      "\<lambda>g. unat (pg_pin_count (pc_frames pc ! g))"] assms(2,3)
  by (simp add: pin_sum_def)

lemma pin_sum_frame: "f < length (pc_frames pc) \<Longrightarrow> unat (pg_pin_count (pc_frames pc ! f)) \<le> pin_sum pc"
  unfolding pin_sum_def by (rule member_le_sum) auto

lemma pin_sum_step:
  assumes "pc_inv pc" "cache_step pc pc'"
  shows "pin_sum pc' = pin_sum pc"
proof -
  have len: "length (pc_frames pc') = length (pc_frames pc)"
    using assms(2) pc_invD(1) [OF assms(1)] pc_invD(1) [of pc'] by (simp add: cache_step_def)
  have "pg_pin_count (pc_frames pc' ! f) = pg_pin_count (pc_frames pc ! f)" if "f < length (pc_frames pc)" for f
    using assms(2) that by (auto simp: cache_step_def split: if_splits)
  then show ?thesis by (simp add: pin_sum_def len)
qed

lemma unpinned_frame:
  assumes "ready (Suc k) pc"
  shows "\<exists>f < length (pc_frames pc). pg_pin_count (pc_frames pc ! f) = 0"
proof (rule ccontr)
  assume "\<not> ?thesis"
  then have "1 \<le> unat (pg_pin_count (pc_frames pc ! f))" if "f < length (pc_frames pc)" for f
    using that by (simp add: Suc_le_eq unat_gt_0)
  then have "(\<Sum>f < length (pc_frames pc). 1) \<le> pin_sum pc" unfolding pin_sum_def by (intro sum_mono) simp
  then show False using assms pc_invD(1) [of pc] by (simp add: ready_def)
qed

section \<open>A free frame for every page\<close>

lemma page_in_frames:
  assumes inv: "pc_inv pc" and fits: "all_pages pc \<le> pc_n_frames pc" and v: "valid_file fk ft"
    and pn: "pn < pc_pages pc fk ft" and no: "pc_lookup pc fk ft pn = None"
  shows "ll_list (pc_free_frames pc) \<noteq> []"
proof
  assume "ll_list (pc_free_frames pc) = []"
  then have used: "pg_fk (pc_frames pc ! f) \<noteq> invalid" if "f < length (pc_frames pc)" for f
    using pc_invD(6) [OF inv] that by (auto simp: free_ok_def)
  define P where "P = (\<lambda>fk ft. (\<lambda>pn. (fk, ft, pn)) ` {..<pc_pages pc fk ft})"
  define A where "A = P catalogue node_ft \<union> P header node_ft \<union> P header relationship_ft \<union>
     P records node_ft \<union> P records relationship_ft"
  have mem: "(a, b, c) \<in> A" if "valid_file a b" "c < pc_pages pc a b" for a b c
    using that by (cases a; cases b) (auto simp: valid_file_def A_def P_def)
  have "card (P a b) \<le> pc_pages pc a b" "finite (P a b)" for a b
    using card_image_le [of "{..<pc_pages pc a b}" "\<lambda>pn. (a, b, pn)"] by (simp_all add: P_def)
  then have card: "card A \<le> all_pages pc" and fin: "finite A"
    unfolding all_pages_def A_def by (intro order_trans [OF card_Un_le] add_mono, simp_all)
  let ?key = "\<lambda>f. frame_key (pc_frames pc ! f)"
  have inj: "inj_on ?key {..<length (pc_frames pc)}"
    using frame_key_inj [OF inv] used by (auto simp: inj_on_def)
  have key: "?key f \<in> A - {(fk, ft, pn)}" if f: "f < length (pc_frames pc)" for f
    using mem frame_okD(1,2) [OF pc_invD(5) [OF inv f] used [OF f]] pc_invD(4) [OF inv v, of pn f] f no
    by (simp add: frame_key_def pc_pages_def)
  have "card {..<length (pc_frames pc)} \<le> card (A - {(fk, ft, pn)})"
    by (rule card_inj_on_le [OF inj image_subsetI]) (use key fin in simp_all)
  also have "\<dots> < card A" using mem [OF v pn] fin by (intro psubset_card_mono) auto
  finally show False using card fits pc_invD(1) [OF inv] by simp
qed

section \<open>Bulk eviction\<close>

lemma bulk_evict_ok:
  assumes inv: "pc_inv pc" and full: "ll_list (pc_free_frames pc) = []"
    and victim: "f < length (pc_frames pc)" "pg_pin_count (pc_frames pc ! f) = 0"
  shows "\<exists>pc'. bulk_evict pc = Some pc' \<and> ll_list (pc_free_frames pc') \<noteq> []"
proof -
  let ?body = "\<lambda>(pc, evicted) i. do {
         c_page \<leftarrow> frame_at pc i;
         if pg_pin_count c_page = 0 then do { pc \<leftarrow> evict_frame pc i False; Some (pc, evicted + 1) }
         else Some (pc, evicted) }"
  have used: "pg_fk (pc_frames pc ! g) \<noteq> invalid" if "g < length (pc_frames pc)" for g
    using pc_invD(6) [OF inv] full that by (auto simp: free_ok_def)
  have "\<exists>pc' e. for_each ?body (pc, 0::nat) [0..<n] = Some (pc', e) \<and> cache_step pc pc' \<and>
      (\<forall>g. n \<le> g \<longrightarrow> pc_frames pc' ! g = pc_frames pc ! g) \<and> length (pc_frames pc') = length (pc_frames pc) \<and>
      length (ll_list (pc_free_frames pc')) = e \<and> (f < n \<longrightarrow> e \<noteq> 0)" if "n \<le> length (pc_frames pc)" for n
    using that
  proof (induction n)
    case 0
    then show ?case using inv full by (simp add: cache_step_refl)
  next
    case (Suc n)
    then obtain pc1 e where p: "for_each ?body (pc, 0::nat) [0..<n] = Some (pc1, e)" "cache_step pc pc1"
      "\<forall>g. n \<le> g \<longrightarrow> pc_frames pc1 ! g = pc_frames pc ! g" "length (pc_frames pc1) = length (pc_frames pc)"
      "length (ll_list (pc_free_frames pc1)) = e" "f < n \<longrightarrow> e \<noteq> 0" by auto
    have n: "n < length (pc_frames pc1)" "n < length (pc_frames pc)" using Suc.prems p(4) by simp_all
    note inv1 = cache_step_inv [OF p(2)]
    show ?case
    proof (cases "pg_pin_count (pc_frames pc ! n) = 0")
      case True
      then obtain pc2 q where e: "evict_frame pc1 n False = Some pc2" "cache_step pc1 pc2"
        "ll_list (pc_free_frames pc2) = ll_list (pc_free_frames pc1) @ [n]" "pc_frames pc2 = (pc_frames pc1)[n := q]"
        using evict_frame_ok [OF inv1 n(1), of False] p(3) used [OF n(2)] by auto
      then show ?thesis
        using p n True cache_step_trans [OF inv p(2) e(2)] by (simp add: for_each_append)
    next
      case False
      then have "f \<noteq> n" using victim(2) by auto
      then show ?thesis using p n False by (auto simp: for_each_append less_Suc_eq)
    qed
  qed
  from this [of "length (pc_frames pc)"] victim(1) obtain pc' e where
    "for_each ?body (pc, 0::nat) [0..<length (pc_frames pc)] = Some (pc', e)"
    "length (ll_list (pc_free_frames pc')) = e" "e \<noteq> 0" by auto
  then show ?thesis using pc_invD(1) [OF inv] by (auto simp: bulk_evict_def)
qed

section \<open>Pins and unpins return\<close>

lemma pinned_word: "unat (w :: 32 word) < 2 ^ 32 - 1 \<Longrightarrow> unat (w + 1) = unat w + 1"
  by (simp add: unat_word_ariths)

lemma ready_pin:
  assumes rdy: "ready (Suc k) pc" and v: "valid_file fk ft" and pn: "pn < pc_pages pc fk ft"
  shows "\<exists>f pc'. pin_page pc pn fk ft log = Some (f, pc') \<and> ready k pc'"
proof -
  have inv: "pc_inv pc" and sum: "pin_sum pc + Suc k \<le> pc_n_frames pc" "pc_n_frames pc < 2 ^ 32"
    using rdy by (simp_all add: ready_def)
  have "\<exists>f pc'. pin_page pc pn fk ft log = Some (f, pc') \<and> pin_sum pc' = Suc (pin_sum pc) \<and>
      (pc_bulk_import pc \<or> queue_ok pc' \<and> ll_circ (pc_recently_referenced pc'))"
  proof (cases "pc_lookup pc fk ft pn")
    case (Some f)
    then have f: "f < length (pc_frames pc)" using pc_invD(4) [OF inv v] by auto
    then have "unat (pg_pin_count (pc_frames pc ! f)) < 2 ^ 32 - 1" using pin_sum_frame [OF f] sum by linarith
    note up = pinned_word [OF this]
    obtain pc' where r: "pin_page pc pn fk ft log = Some (f, pc')" "pc_recently_referenced pc' = pc_recently_referenced pc"
      "pc_frames pc' = (pc_frames pc)[f := (pc_frames pc ! f)\<lparr>pg_pin_count := pg_pin_count (pc_frames pc ! f) + 1\<rparr>]"
      using pin_page_cached_returns [OF inv v pn Some, of log] by blast
    have "pin_sum pc' = Suc (pin_sum pc)" using pin_sum_one_changed [OF f, of pc'] f up by (simp add: r(3))
    moreover have "queue_ok pc'" if "queue_ok pc"
      using f up by (intro queue_ok_frames [OF that r(2)]) (auto simp: r(3) nth_list_update)
    ultimately show ?thesis using r rdy by (auto simp: ready_def)
  next
    case None
    obtain g where g: "g < length (pc_frames pc)" "pg_pin_count (pc_frames pc ! g) = 0"
      using unpinned_frame [OF rdy] by blast
    have size: "ll_size (pc_free_frames pc) = length (ll_list (pc_free_frames pc))"
      using llist.size_law [of "pc_free_frames pc"] pc_invD(6) [OF inv] by (simp add: free_ok_def)
    have "\<exists>pc0 f fs. make_room pc log = Some pc0 \<and> ll_list (pc_free_frames pc0) = f # fs \<and>
        (pc_bulk_import pc \<or> pc0 = pc)"
      using bulk_evict_ok [OF inv _ g] page_in_frames [OF inv _ v pn None] rdy size
      by (cases "ll_list (pc_free_frames pc)") (auto simp: ready_def make_room_def neq_Nil_conv)
    then obtain pc0 f fs where m: "make_room pc log = Some pc0" "ll_list (pc_free_frames pc0) = f # fs"
      "pc_bulk_import pc \<or> pc0 = pc" by blast
    note step = make_room_step [OF inv m(1)]
    obtain pc' where r: "pin_page pc pn fk ft log = Some (f, pc')" "pc_recently_referenced pc' = pc_recently_referenced pc0"
      "\<forall>g. g \<noteq> f \<longrightarrow> pc_frames pc' ! g = pc_frames pc0 ! g" "pg_pin_count (pc_frames pc' ! f) = 1"
      "length (pc_frames pc') = length (pc_frames pc0)"
      using pin_page_load_returns [OF inv v pn None m(1,2)] by blast
    have "f < length (pc_frames pc0)" "frame_ok (pc_pdb pc0) (pc_frames pc0 ! f)" "pg_fk (pc_frames pc0 ! f) = invalid"
      using pc_invD(6) [OF cache_step_inv [OF step]] m(2) pc_invD(5) [OF cache_step_inv [OF step]] by (auto simp: free_ok_def)
    then have "pin_sum pc' = Suc (pin_sum pc)"
      using pin_sum_one_changed [of f pc0 pc'] r(3-5) pin_sum_step [OF inv step] by (simp add: frame_ok_def)
    moreover have "queue_ok pc' \<and> ll_circ (pc_recently_referenced pc')" if "\<not> pc_bulk_import pc"
      using load_keeps_queue [OF cache_step_inv [OF step] _ m(2) r(2,5,3,4)] that m r(2) rdy by (auto simp: ready_def)
    ultimately show ?thesis using r(1) by blast
  qed
  then obtain f pc' where r: "pin_page pc pn fk ft log = Some (f, pc')" "pin_sum pc' = Suc (pin_sum pc)"
    "pc_bulk_import pc \<or> queue_ok pc' \<and> ll_circ (pc_recently_referenced pc')" by blast
  have "ready k pc'"
    using pin_page_step [OF inv r(1)] r(2,3) rdy
    by (auto simp: ready_def pin_spec_def all_pages_def valid_file_def)
  with r(1) show ?thesis by blast
qed

lemma ready_unpin:
  assumes rdy: "ready k pc" and pins: "pc_pins pc fk ft pn \<noteq> 0"
  shows "\<exists>pc'. unpin_page pc pn fk ft log = Some pc' \<and> ready (Suc k) pc'"
proof -
  have inv: "pc_inv pc" using rdy by (simp add: ready_def)
  obtain f where v: "valid_file fk ft" and l: "pc_lookup pc fk ft pn = Some f"
    and p: "pg_pin_count (pc_frames pc ! f) \<noteq> 0" using pins by (metis pc_pinsE)
  have f: "f < length (pc_frames pc)" using pc_invD(4) [OF inv v] l by auto
  have "\<exists>pc'. unpin_page pc pn fk ft log = Some pc' \<and>
      (pc_bulk_import pc \<or> queue_ok pc' \<and> ll_circ (pc_recently_referenced pc'))"
  proof (cases "pc_bulk_import pc")
    case False
    then show ?thesis using unpin_page_returns [OF inv _ _ False pins, of log] rdy by (auto simp: ready_def)
  next
    case True
    have "frame_key (pc_frames pc ! f) = (fk, ft, pn)" using pc_invD(4) [OF inv v] l by auto
    then have "pn < pc_pages pc fk ft"
      using frame_okD(2) [OF pc_invD(5) [OF inv f]] v by (auto simp: pc_pages_def frame_key_def valid_file_def)
    moreover from this have "pn < MAX_PAGE_NO" using pc_invD(2) [OF inv v] by (simp add: df_inv_def pc_pages_def)
    moreover have "ht_contains (pc_page_map pc fk ft) pn = Some True" "ht_get_direct (pc_page_map pc fk ft) pn = Some f"
      using htable.get_law [OF pc_invD(3) [OF inv v], of pn] l
      by (simp_all add: ht_contains_def ht_get_direct_def pc_lookup_def)
    ultimately show ?thesis
      using v p f pdb_file_valid [OF v] True
      by (simp add: unpin_page_def page_map_at_def requeue_def pc_pages_def Let_def)
  qed
  then obtain pc' where r: "unpin_page pc pn fk ft log = Some pc'"
    "pc_bulk_import pc \<or> queue_ok pc' \<and> ll_circ (pc_recently_referenced pc')" by blast
  note u = unpin_page_step [OF inv r(1)]
  have "pc_frames pc' = (pc_frames pc)[f := (pc_frames pc ! f)\<lparr>pg_pin_count := pg_pin_count (pc_frames pc ! f) - 1\<rparr>]"
    by (rule unpin_frames [OF inv v l r(1)])
  then have "pin_sum pc' + 1 = pin_sum pc"
    using pin_sum_one_changed [OF f, of pc'] f p unat_gt_0 [of "pg_pin_count (pc_frames pc ! f)"]
    by (simp add: unat_minus_one)
  then show ?thesis
    using r u rdy by (intro exI [of _ pc']) (auto simp: ready_def unpin_spec_def all_pages_def)
qed

lemma ready_write:
  assumes rdy: "ready k pc" and v: "valid_file fk ft" and l: "pc_lookup pc fk ft pn = Some f"
    and q: "q = (pc_frames pc ! f)\<lparr>pg_data := d, pg_dirty := True\<rparr>"
  shows "ready k (set_frame pc f q)"
proof -
  have inv: "pc_inv pc" using rdy by (simp add: ready_def)
  have f: "f < length (pc_frames pc)" using pc_invD(4) [OF inv v] l by auto
  have "write_frame pc f (\<lambda>p. Some (p\<lparr>pg_data := d, pg_dirty := True\<rparr>)) = Some (set_frame pc f q)"
    using f q by (simp add: write_frame_def)
  from write_frame_step [OF inv v l this, of "\<lambda>_. d"]
  have w: "write_spec pc fk ft pn d (set_frame pc f q)" by simp
  have "pin_sum (set_frame pc f q) = pin_sum pc"
    unfolding pin_sum_def using f by (intro sum.cong) (auto simp: q nth_list_update)
  moreover have "queue_ok (set_frame pc f q)" if "queue_ok pc"
    using f by (intro queue_ok_frames [OF that]) (auto simp: q nth_list_update)
  ultimately show ?thesis using w rdy by (auto simp: ready_def write_spec_def all_pages_def)
qed

text \<open>A new cache is ready when the database fits, and in any case after \<^verbatim>\<open>bulk_import\<close> is set.\<close>

lemma ready_create:
  assumes "files_ok pdb" "n < 2 ^ 32" "page_cache_create seed pdb n log = Some pc"
  shows "all_pages pc \<le> n \<Longrightarrow> ready n pc" "ready n (pc\<lparr>pc_bulk_import := True\<rparr>)"
proof -
  note c = page_cache_create_ok [OF assms(1), of seed n log]
  have fr: "pin_sum pc = 0" using c assms(3) by (auto simp: pin_sum_def page_create_def)
  then have fr': "pin_sum (pc\<lparr>pc_bulk_import := True\<rparr>) = 0" by (simp add: pin_sum_def)
  show "all_pages pc \<le> n \<Longrightarrow> ready n pc" using c assms fr by (auto simp: ready_def)
  have "pc_inv (pc\<lparr>pc_bulk_import := True\<rparr>)"
    using same_core [of pc "pc\<lparr>pc_bulk_import := True\<rparr>"] c assms(3) by auto
  then show "ready n (pc\<lparr>pc_bulk_import := True\<rparr>)" using c assms fr' by (auto simp: ready_def)
qed

end
