(* ===== verification/Page_Store.thy ===== *)
theory Page_Store
  imports Page_Cache_Ready
begin

text \<open>
  The page cache as its clients use it. The locale \<open>page_store\<close> is the contract: pages have
  contents and pin counts, a pin returns the frame of the page, which stays its frame while the page
  is pinned, and only writes through a frame change contents. \<open>live_store\<close> adds when the operations
  return. The page cache is an interpretation of both.
  The second part states the contract as a refinement: any sequence of pins, unpins, reads and
  writes that a client runs on the cache returns and behaves like the same sequence on an array of
  pages with no cache at all.
\<close>

section \<open>The contract\<close>

type_synonym page_key = "file_kind \<times> file_type \<times> nat"

locale page_store =
  fixes inv :: "'s \<Rightarrow> bool"
    and view :: "'s \<Rightarrow> page_key \<Rightarrow> buffer"
    and pins :: "'s \<Rightarrow> page_key \<Rightarrow> 32 word"
    and frame :: "'s \<Rightarrow> page_key \<Rightarrow> nat option"
    and pin :: "'s \<Rightarrow> page_key \<Rightarrow> (nat \<times> 's) option"
    and unpin :: "'s \<Rightarrow> page_key \<Rightarrow> 's option"
    and deref :: "'s \<Rightarrow> nat \<Rightarrow> page option"
    and put :: "'s \<Rightarrow> nat \<Rightarrow> page \<Rightarrow> 's"
  assumes pin_law: "inv s \<Longrightarrow> pin s k = Some (f, s') \<Longrightarrow> inv s' \<and> view s' = view s \<and>
      pins s' = (pins s)(k := pins s k + 1) \<and> frame s' k = Some f \<and>
      (\<forall>k' g. frame s k' = Some g \<and> pins s k' \<noteq> 0 \<longrightarrow> frame s' k' = Some g)"
    and unpin_law: "inv s \<Longrightarrow> unpin s k = Some s' \<Longrightarrow> inv s' \<and> view s' = view s \<and> pins s k \<noteq> 0 \<and>
      pins s' = (pins s)(k := pins s k - 1) \<and> frame s' = frame s"
    and deref_law: "inv s \<Longrightarrow> frame s k = Some f \<Longrightarrow>
      \<exists>p. deref s f = Some p \<and> page_of (pg_data p) = view s k \<and> pg_pin_count p = pins s k"
    and put_law: "inv s \<Longrightarrow> frame s k = Some f \<Longrightarrow> deref s f = Some p \<Longrightarrow>
      s' = put s f (p\<lparr>pg_data := d, pg_dirty := True\<rparr>) \<Longrightarrow>
      inv s' \<and> view s' = (view s)(k := page_of d) \<and> pins s' = pins s \<and> frame s' = frame s"
    and pinned_frame: "pins s k \<noteq> 0 \<Longrightarrow> frame s k \<noteq> None"
begin

lemma pin_keeps:
  "inv s \<Longrightarrow> pin s k = Some (f, s') \<Longrightarrow> frame s k' = Some g \<Longrightarrow> pins s k' \<noteq> 0 \<Longrightarrow> frame s' k' = Some g"
  using pin_law by blast

text \<open>Two pins of different pages: the first pointer stays good while the second page is fetched.\<close>

lemma two_pins:
  assumes "inv s" "pin s j = Some (f, s1)" "pin s1 k = Some (g, s2)" "pins s j + 1 \<noteq> 0"
  shows "frame s2 j = Some f \<and> frame s2 k = Some g \<and> view s2 = view s"
proof -
  have a: "inv s1" "pins s1 j \<noteq> 0" "frame s1 j = Some f" "view s1 = view s"
    using pin_law [OF assms(1,2)] assms(4) by simp_all
  have "view s2 = view s1" "frame s2 k = Some g" using pin_law [OF a(1) assms(3)] by simp_all
  with pin_keeps [OF a(1) assms(3) a(3,2)] a(4) show ?thesis by simp
qed

end

locale live_store = page_store +
  fixes ready :: "nat \<Rightarrow> 's \<Rightarrow> bool"
    and has :: "'s \<Rightarrow> page_key \<Rightarrow> bool"
  assumes ready_inv: "ready j s \<Longrightarrow> inv s"
    and pin_total: "ready (Suc j) s \<Longrightarrow> has s k \<Longrightarrow>
      \<exists>f s'. pin s k = Some (f, s') \<and> ready j s' \<and> has s' = has s \<and> pins s k + 1 \<noteq> 0"
    and unpin_total: "ready j s \<Longrightarrow> has s k \<Longrightarrow> pins s k \<noteq> 0 \<Longrightarrow>
      \<exists>s'. unpin s k = Some s' \<and> ready (Suc j) s' \<and> has s' = has s"
    and put_ready: "ready j s \<Longrightarrow> has s k \<Longrightarrow> frame s k = Some f \<Longrightarrow> deref s f = Some p \<Longrightarrow>
      s' = put s f (p\<lparr>pg_data := d, pg_dirty := True\<rparr>) \<Longrightarrow> ready j s' \<and> has s' = has s"
begin

text \<open>
  The way the header and record code visits a page: pin it, read or change it through the pointer,
  unpin it. A visit always returns; a read leaves all pages, a write changes that page only, and the
  pin counts are the old ones.
\<close>

lemma read_visit:
  assumes rdy: "ready (Suc j) s" and k: "has s k"
    and rd: "\<And>p. page_of (pg_data p) = view s k \<Longrightarrow> pg_pin_count p \<noteq> 0 \<Longrightarrow> rd p = Some x"
  shows "\<exists>s'. do { (f, s) \<leftarrow> pin s k; p \<leftarrow> deref s f; x \<leftarrow> rd p; s \<leftarrow> unpin s k; Some (x, s) } = Some (x, s') \<and>
    ready (Suc j) s' \<and> view s' = view s \<and> pins s' = pins s \<and> has s' = has s"
proof -
  obtain f s1 where p: "pin s k = Some (f, s1)" "ready j s1" "has s1 = has s" "pins s k + 1 \<noteq> 0"
    using pin_total [OF rdy k] by blast
  have l: "view s1 = view s" "pins s1 = (pins s)(k := pins s k + 1)" "frame s1 k = Some f"
    using pin_law [OF ready_inv [OF rdy] p(1)] by simp_all
  obtain q where q: "deref s1 f = Some q" "page_of (pg_data q) = view s1 k" "pg_pin_count q = pins s1 k"
    using deref_law [OF ready_inv [OF p(2)] l(3)] by blast
  have x: "rd q = Some x" using rd [of q] q l p(4) by simp
  obtain s' where u: "unpin s1 k = Some s'" "ready (Suc j) s'" "has s' = has s1"
    using unpin_total [OF p(2), of k] l(2) p(3,4) k by auto
  have "view s' = view s \<and> pins s' = pins s" using unpin_law [OF ready_inv [OF p(2)] u(1)] l by simp
  then show ?thesis using p(1,3) q(1) x u by simp
qed

lemma write_visit:
  assumes rdy: "ready (Suc j) s" and k: "has s k"
    and wr: "\<And>p. page_of (pg_data p) = view s k \<Longrightarrow> pg_pin_count p \<noteq> 0 \<Longrightarrow>
      \<exists>d. wr p = Some (p\<lparr>pg_data := d, pg_dirty := True\<rparr>) \<and> page_of d = D"
  shows "\<exists>s'. do { (f, s) \<leftarrow> pin s k; p \<leftarrow> deref s f; p \<leftarrow> wr p; unpin (put s f p) k } = Some s' \<and>
    ready (Suc j) s' \<and> view s' = (view s)(k := D) \<and> pins s' = pins s \<and> has s' = has s"
proof -
  obtain f s1 where p: "pin s k = Some (f, s1)" "ready j s1" "has s1 = has s" "pins s k + 1 \<noteq> 0"
    using pin_total [OF rdy k] by blast
  have l: "view s1 = view s" "pins s1 = (pins s)(k := pins s k + 1)" "frame s1 k = Some f"
    using pin_law [OF ready_inv [OF rdy] p(1)] by simp_all
  obtain q where q: "deref s1 f = Some q" "page_of (pg_data q) = view s1 k" "pg_pin_count q = pins s1 k"
    using deref_law [OF ready_inv [OF p(2)] l(3)] by blast
  obtain d where d: "wr q = Some (q\<lparr>pg_data := d, pg_dirty := True\<rparr>)" "page_of d = D"
    using wr [of q] q l p(4) by auto
  define s2 where "s2 = put s1 f (q\<lparr>pg_data := d, pg_dirty := True\<rparr>)"
  have w: "view s2 = (view s1)(k := D)" "pins s2 = pins s1"
    using put_law [OF ready_inv [OF p(2)] l(3) q(1) s2_def] d(2) by simp_all
  have r2: "ready j s2" "has s2 = has s1"
    using put_ready [OF p(2) _ l(3) q(1) s2_def] k p(3) by simp_all
  obtain s' where u: "unpin s2 k = Some s'" "ready (Suc j) s'" "has s' = has s2"
    using unpin_total [OF r2(1), of k] w(2) l(2) p(3,4) k r2(2) by auto
  have "view s' = (view s)(k := D) \<and> pins s' = pins s" using unpin_law [OF ready_inv [OF r2(1)] u(1)] w l by simp
  then show ?thesis using p(1,3) q(1) d(1) u r2(2) by (simp add: s2_def)
qed

end

section \<open>The page cache satisfies it\<close>

definition key_view :: "page_cache \<Rightarrow> page_key \<Rightarrow> buffer" where
  "key_view pc k = (case k of (fk, ft, pn) \<Rightarrow> pc_view pc fk ft pn)"

definition key_pins :: "page_cache \<Rightarrow> page_key \<Rightarrow> 32 word" where
  "key_pins pc k = (case k of (fk, ft, pn) \<Rightarrow> pc_pins pc fk ft pn)"

definition key_frame :: "page_cache \<Rightarrow> page_key \<Rightarrow> nat option" where
  "key_frame pc k = (case k of (fk, ft, pn) \<Rightarrow> if valid_file fk ft then pc_lookup pc fk ft pn else None)"

definition key_pin :: "bool \<Rightarrow> page_cache \<Rightarrow> page_key \<Rightarrow> (nat \<times> page_cache) option" where
  "key_pin log pc k = (case k of (fk, ft, pn) \<Rightarrow> pin_page pc pn fk ft log)"

definition key_unpin :: "bool \<Rightarrow> page_cache \<Rightarrow> page_key \<Rightarrow> page_cache option" where
  "key_unpin log pc k = (case k of (fk, ft, pn) \<Rightarrow> unpin_page pc pn fk ft log)"

lemma page_of_view [simp]: "page_of (pc_view pc fk ft pn) = pc_view pc fk ft pn"
  by (simp add: pc_view_def split: option.splits)

lemma frame_view:
  "key_frame pc (fk, ft, pn) = Some f \<Longrightarrow> pc_view pc fk ft pn = page_of (pg_data (pc_frames pc ! f))"
  by (auto simp: key_frame_def pc_view_def split: if_splits)

lemma key_pins_frame: "key_pins pc k \<noteq> 0 \<Longrightarrow> key_frame pc k \<noteq> None"
  by (cases k) (auto simp: key_pins_def key_frame_def pc_pins_def split: if_splits option.splits)

lemma page_of_key_view [simp]: "page_of (key_view pc k) = key_view pc k"
  by (cases k) (simp add: key_view_def)

interpretation cache: page_store pc_inv key_view key_pins key_frame "key_pin log" "key_unpin log" frame_at set_frame
  for log
proof unfold_locales
  fix s s' :: page_cache and k :: page_key and f :: nat
  obtain fk ft pn where k: "k = (fk, ft, pn)" by (cases k)
  show "key_pins s k \<noteq> 0 \<Longrightarrow> key_frame s k \<noteq> None" by (rule key_pins_frame)
  assume inv: "pc_inv s"
  show "pc_inv s' \<and> key_view s' = key_view s \<and> key_pins s' = (key_pins s)(k := key_pins s k + 1) \<and>
      key_frame s' k = Some f \<and>
      (\<forall>k' g. key_frame s k' = Some g \<and> key_pins s k' \<noteq> 0 \<longrightarrow> key_frame s' k' = Some g)"
    if run: "key_pin log s k = Some (f, s')"
    using pin_page_step [OF inv, of pn fk ft log f s'] run
    by (auto simp: k key_pin_def key_view_def key_pins_def key_frame_def pin_spec_def fun_eq_iff split: if_splits)
  show "pc_inv s' \<and> key_view s' = key_view s \<and> key_pins s k \<noteq> 0 \<and>
      key_pins s' = (key_pins s)(k := key_pins s k - 1) \<and> key_frame s' = key_frame s"
    if run: "key_unpin log s k = Some s'"
    using unpin_page_step [OF inv, of pn fk ft log s'] run
    by (auto simp: k key_unpin_def key_view_def key_pins_def key_frame_def unpin_spec_def fun_eq_iff)
  assume f: "key_frame s k = Some f"
  have v: "valid_file fk ft" "pc_lookup s fk ft pn = Some f" using f by (auto simp: k key_frame_def split: if_splits)
  have fl: "f < length (pc_frames s)" using pc_invD(4) [OF inv v(1)] v(2) by auto
  show "\<exists>p. frame_at s f = Some p \<and> page_of (pg_data p) = key_view s k \<and> pg_pin_count p = key_pins s k"
    using fl v by (simp add: k key_view_def key_pins_def pc_view_def pc_pins_def)
  show "pc_inv s' \<and> key_view s' = (key_view s)(k := page_of d) \<and> key_pins s' = key_pins s \<and> key_frame s' = key_frame s"
    if p: "frame_at s f = Some p" and s': "s' = set_frame s f (p\<lparr>pg_data := d, pg_dirty := True\<rparr>)" for p d
  proof -
    have "write_frame s f (\<lambda>p. Some (p\<lparr>pg_data := d, pg_dirty := True\<rparr>)) = Some s'"
      using p by (simp add: write_frame_def s')
    from write_frame_step [OF inv v this, of "\<lambda>_. d"] show ?thesis
      by (auto simp: k write_spec_def key_view_def key_pins_def key_frame_def fun_eq_iff)
  qed
qed

definition key_has :: "page_cache \<Rightarrow> page_key \<Rightarrow> bool" where
  "key_has pc k = (case k of (fk, ft, pn) \<Rightarrow> valid_file fk ft \<and> pn < pc_pages pc fk ft)"

lemma key_has_eqI:
  "(\<And>fk ft. valid_file fk ft \<Longrightarrow> pc_pages pc' fk ft = pc_pages pc fk ft) \<Longrightarrow> key_has pc' = key_has pc"
  by (auto simp: key_has_def fun_eq_iff)

lemma pinned_has:
  assumes "pc_inv pc" "key_pins pc k \<noteq> 0"
  shows "key_has pc k"
proof -
  obtain fk ft pn where k: "k = (fk, ft, pn)" by (cases k)
  obtain f where f: "valid_file fk ft" "pc_lookup pc fk ft pn = Some f"
    using assms(2) by (auto simp: k key_pins_def elim: pc_pinsE)
  then have "f < length (pc_frames pc)" "frame_key (pc_frames pc ! f) = (fk, ft, pn)"
    using pc_invD(4) [OF assms(1) f(1)] by auto
  then show ?thesis
    using frame_okD(2) [OF pc_invD(5) [OF assms(1)], of f] f(1)
    by (auto simp: k key_has_def frame_key_def pc_pages_def valid_file_def)
qed

lemma pd_inv_files_ok: "pd_inv db \<Longrightarrow> files_ok db"
  by (auto simp: pd_inv_def files_ok_def valid_file_def file_of_def split: file_kind.splits)

lemma ready_nowrap:
  assumes "ready (Suc j) pc"
  shows "pc_pins pc fk ft pn + 1 \<noteq> 0"
proof (cases "pc_pins pc fk ft pn = 0")
  case False
  then obtain f where f: "valid_file fk ft" "pc_lookup pc fk ft pn = Some f"
    "pg_pin_count (pc_frames pc ! f) = pc_pins pc fk ft pn" by (rule pc_pinsE)
  then have "f < length (pc_frames pc)" using pc_invD(4) [OF ready_inv [OF assms] f(1)] by auto
  then have "unat (pc_pins pc fk ft pn) < 2 ^ 32 - 1" using pin_sum_frame [of f pc] f(3) assms by (simp add: ready_def)
  from pinned_word [OF this] show ?thesis by auto
qed simp

interpretation cache: live_store pc_inv key_view key_pins key_frame "key_pin log" "key_unpin log" frame_at set_frame
    ready key_has for log
proof unfold_locales
  fix j and s s' :: page_cache and k :: page_key and f :: nat and p d
  obtain fk ft pn where k: "k = (fk, ft, pn)" by (cases k)
  show "ready j s \<Longrightarrow> pc_inv s" by (rule Page_Cache_Ready.ready_inv)
  show "\<exists>f s'. key_pin log s k = Some (f, s') \<and> ready j s' \<and> key_has s' = key_has s \<and> key_pins s k + 1 \<noteq> 0"
    if rdy: "ready (Suc j) s" and h: "key_has s k"
  proof -
    obtain f s' where r: "pin_page s pn fk ft log = Some (f, s')" "ready j s'"
      using ready_pin [OF rdy, of fk ft pn log] h by (auto simp: key_has_def k)
    have "key_has s' = key_has s"
      using pin_page_step [OF Page_Cache_Ready.ready_inv [OF rdy] r(1)] by (intro key_has_eqI) (simp add: pin_spec_def)
    then show ?thesis using r ready_nowrap [OF rdy] by (simp add: k key_pin_def key_pins_def)
  qed
  show "\<exists>s'. key_unpin log s k = Some s' \<and> ready (Suc j) s' \<and> key_has s' = key_has s"
    if rdy: "ready j s" and h: "key_has s k" and n: "key_pins s k \<noteq> 0"
  proof -
    obtain s' where r: "unpin_page s pn fk ft log = Some s'" "ready (Suc j) s'"
      using ready_unpin [OF rdy, of fk ft pn log] n by (auto simp: key_pins_def k)
    have "key_has s' = key_has s"
      using unpin_page_step [OF Page_Cache_Ready.ready_inv [OF rdy] r(1)] by (intro key_has_eqI) (simp add: unpin_spec_def)
    then show ?thesis using r by (simp add: k key_unpin_def)
  qed
  show "ready j s' \<and> key_has s' = key_has s"
    if rdy: "ready j s" and f: "key_frame s k = Some f" and p: "frame_at s f = Some p"
      and s': "s' = set_frame s f (p\<lparr>pg_data := d, pg_dirty := True\<rparr>)"
  proof -
    have v: "valid_file fk ft" "pc_lookup s fk ft pn = Some f" using f by (auto simp: k key_frame_def split: if_splits)
    have "ready j s'" unfolding s' by (rule ready_write [OF rdy v]) (use p in simp)
    then show ?thesis by (auto simp: s' key_has_def pc_pages_def fun_eq_iff)
  qed
qed

end
