(* ===== verification/Cache_Client.thy ===== *)
theory Cache_Client
  imports Page_Store
begin

text \<open>
  A client of the page cache: a sequence of pins, unpins, reads and writes through the pointers that
  the pins returned. The theory shows that such a sequence on the cache refines the same sequence on
  a plain array of pages, and has the properties of the cache component.
\<close>

section \<open>Refinement of an uncached store\<close>

datatype client_op = CPin page_key | CUnpin page_key | CRead page_key nat | CWrite page_key nat byte

type_synonym client = "page_cache \<times> (page_key \<rightharpoonup> nat)"

fun cache_op :: "bool \<Rightarrow> client \<Rightarrow> client_op \<Rightarrow> (client \<times> byte option) option" where
  "cache_op log (pc, ptr) (CPin k) = do { (f, pc) \<leftarrow> key_pin log pc k; Some ((pc, ptr(k \<mapsto> f)), None) }"
| "cache_op log (pc, ptr) (CUnpin k) = do { pc \<leftarrow> key_unpin log pc k; Some ((pc, ptr), None) }"
| "cache_op log (pc, ptr) (CRead k off) = do {
     f \<leftarrow> ptr k; b \<leftarrow> read_frame pc f (\<lambda>p. read_uchar p off); Some ((pc, ptr), Some b) }"
| "cache_op log (pc, ptr) (CWrite k off b) = do {
     f \<leftarrow> ptr k; pc \<leftarrow> write_frame pc f (\<lambda>p. write_uchar p off b); Some ((pc, ptr), None) }"

text \<open>
  The same operations on contents, pin counts and the number of outstanding pins: pages that exist
  can be pinned while fewer than \<open>cap\<close> pins are outstanding, reading and writing need a pinned page.
\<close>

type_synonym plain = "(page_key \<Rightarrow> buffer) \<times> (page_key \<Rightarrow> 32 word) \<times> nat"

fun plain_op :: "(page_key \<Rightarrow> bool) \<Rightarrow> nat \<Rightarrow> plain \<Rightarrow> client_op \<Rightarrow> (plain \<times> byte option) option" where
  "plain_op has cap (v, n, t) (CPin k) =
    (if has k \<and> t < cap then Some ((v, n(k := n k + 1), t + 1), None) else None)"
| "plain_op has cap (v, n, t) (CUnpin k) = (if n k = 0 then None else Some ((v, n(k := n k - 1), t - 1), None))"
| "plain_op has cap (v, n, t) (CRead k off) =
    (if n k = 0 \<or> PAGE_SIZE \<le> off then None else Some ((v, n, t), Some (v k off)))"
| "plain_op has cap (v, n, t) (CWrite k off b) =
    (if n k = 0 \<or> PAGE_SIZE \<le> off then None else Some ((v(k := (v k)(off := b)), n, t), None))"

fun run_ops :: "('s \<Rightarrow> client_op \<Rightarrow> ('s \<times> byte option) option) \<Rightarrow> 's \<Rightarrow> client_op list \<Rightarrow>
    ('s \<times> byte option list) option" where
  "run_ops f s [] = Some (s, [])"
| "run_ops f s (op # ops) = do { (s, o1) \<leftarrow> f s op; (s, os) \<leftarrow> run_ops f s ops; Some (s, o1 # os) }"

definition client_rel :: "(page_key \<Rightarrow> bool) \<Rightarrow> nat \<Rightarrow> client \<Rightarrow> plain \<Rightarrow> bool" where
  "client_rel has cap c s = (case (c, s) of ((pc, ptr), (v, n, t)) \<Rightarrow>
     ready (cap - t) pc \<and> t \<le> cap \<and> key_has pc = has \<and> key_view pc = v \<and> key_pins pc = n \<and>
     (\<forall>k. n k \<noteq> 0 \<longrightarrow> ptr k = key_frame pc k))"

lemma pinned_page:
  assumes "pc_inv pc" "key_pins pc k \<noteq> 0"
  obtains f p where "key_frame pc k = Some f" "frame_at pc f = Some p" "page_of (pg_data p) = key_view pc k"
    "pg_pin_count p \<noteq> 0"
  using key_pins_frame [OF assms(2)] cache.deref_law [OF assms(1)] assms(2) by (metis not_Some_eq)

lemma page_of_same: "page_of b = b \<Longrightarrow> off < PAGE_SIZE \<Longrightarrow> page_of (b(off := x)) = b(off := x)"
  by (auto simp: page_of_def fun_eq_iff split: if_splits)

lemma client_step:
  assumes rel: "client_rel has cap c s" and plain: "plain_op has cap s op = Some (s', ob)"
  shows "\<exists>c'. cache_op log c op = Some (c', ob) \<and> client_rel has cap c' s'"
proof -
  obtain pc ptr v n t where c: "c = (pc, ptr)" and s: "s = (v, n, t)" by (cases c; cases s)
  have rdy: "ready (cap - t) pc" "t \<le> cap" and h: "key_has pc = has" and v: "key_view pc = v" and n: "key_pins pc = n"
    and ptr: "\<And>k. n k \<noteq> 0 \<Longrightarrow> ptr k = key_frame pc k"
    using rel by (auto simp: client_rel_def c s)
  note inv = ready_inv [OF rdy(1)]
  show ?thesis
  proof (cases op)
    case (CPin k)
    then have k: "has k" "t < cap" and s': "s' = (v, n(k := n k + 1), t + 1)" "ob = None"
      using plain by (auto simp: s split: if_splits)
    have r1: "ready (Suc (cap - (t + 1))) pc" using rdy k(2) by (simp add: Suc_diff_Suc)
    obtain f pc' where r: "key_pin log pc k = Some (f, pc')" "ready (cap - (t + 1)) pc'" "key_has pc' = key_has pc"
      using cache.pin_total [OF r1, of k log] k(1) h by blast
    have l: "key_view pc' = key_view pc" "key_pins pc' = (key_pins pc)(k := key_pins pc k + 1)" "key_frame pc' k = Some f"
      using cache.pin_law [OF inv r(1)] by simp_all
    have "(ptr(k \<mapsto> f)) k' = key_frame pc' k'" if "key_pins pc' k' \<noteq> 0" for k'
    proof (cases "k' = k")
      case False
      then have k': "n k' \<noteq> 0" using that l n by simp
      then obtain g where "key_frame pc k' = Some g" using key_pins_frame [of pc k'] n by blast
      with cache.pin_keeps [OF inv r(1) this] k' n ptr [OF k'] False show ?thesis by simp
    qed (use l in simp)
    then show ?thesis using r l v n h k s' unfolding client_rel_def by (simp add: CPin c)
  next
    case (CUnpin k)
    then have k: "n k \<noteq> 0" and s': "s' = (v, n(k := n k - 1), t - 1)" "ob = None"
      using plain by (auto simp: s split: if_splits)
    obtain pc' where r: "key_unpin log pc k = Some pc'" "ready (Suc (cap - t)) pc'" "key_has pc' = key_has pc"
      using cache.unpin_total [OF rdy(1) pinned_has, of k log] inv k n by blast
    have l: "key_view pc' = key_view pc" "key_pins pc' = (key_pins pc)(k := key_pins pc k - 1)" "key_frame pc' = key_frame pc"
      using cache.unpin_law [OF inv r(1)] by simp_all
    have "ptr k' = key_frame pc' k'" if "key_pins pc' k' \<noteq> 0" for k'
      using l n that ptr [of k'] k by (cases "k' = k") auto
    moreover have "ready (cap - (t - 1)) pc'" by (rule ready_mono [OF r(2)]) simp
    ultimately show ?thesis using r l v n h s' rdy(2) unfolding client_rel_def by (simp add: CUnpin c)
  next
    case (CRead k off)
    then have k: "n k \<noteq> 0" "off < PAGE_SIZE" and s': "s' = s" "ob = Some (v k off)"
      using plain by (auto simp: s split: if_splits)
    obtain f p where f: "key_frame pc k = Some f" "frame_at pc f = Some p" "page_of (pg_data p) = key_view pc k"
      "pg_pin_count p \<noteq> 0" by (rule pinned_page [OF inv, of k]) (use k n in simp_all)
    have "pg_data p off = v k off" using page_of_nth [OF k(2), of "pg_data p"] f(3) v by simp
    then have "read_frame pc f (\<lambda>p. read_uchar p off) = Some (v k off)"
      using k f(2,4) by (simp add: read_frame_def read_uchar_Some_iff del: frame_at_Some)
    then show ?thesis using rel s' ptr [OF k(1)] f(1) by (simp add: CRead c)
  next
    case (CWrite k off b)
    then have k: "n k \<noteq> 0" "off < PAGE_SIZE" and s': "s' = (v(k := (v k)(off := b)), n, t)" "ob = None"
      using plain by (auto simp: s split: if_splits)
    obtain f p where f: "key_frame pc k = Some f" "frame_at pc f = Some p" "page_of (pg_data p) = key_view pc k"
      "pg_pin_count p \<noteq> 0" by (rule pinned_page [OF inv, of k]) (use k n in simp_all)
    define pc' where "pc' = set_frame pc f (p\<lparr>pg_data := (pg_data p)(off := b), pg_dirty := True\<rparr>)"
    have d: "page_of ((pg_data p)(off := b)) = (v k)(off := b)"
      using page_of_upd [of "pg_data p" off b] f(3) v page_of_same [OF page_of_key_view k(2)] by metis
    have l: "key_view pc' = (key_view pc)(k := (v k)(off := b))" "key_pins pc' = key_pins pc" "key_frame pc' = key_frame pc"
      using cache.put_law [OF inv f(1,2) pc'_def] d by simp_all
    have "has k" using pinned_has [OF inv, of k] k n h by simp
    then have "ready (cap - t) pc' \<and> key_has pc' = key_has pc"
      using cache.put_ready [OF rdy(1) _ f(1,2) pc'_def] h by simp
    moreover have "write_uchar p off b = Some (p\<lparr>pg_data := (pg_data p)(off := b), pg_dirty := True\<rparr>)"
      using k f(4) by (simp add: write_uchar_Some_iff)
    then have "write_frame pc f (\<lambda>p. write_uchar p off b) = Some pc'"
      using f(2) by (simp add: write_frame_def pc'_def)
    ultimately show ?thesis using l v n h s' rdy(2) ptr f(1) k(1) unfolding client_rel_def by (simp add: CWrite c)
  qed
qed

lemma client_run:
  "client_rel has cap c s \<Longrightarrow> run_ops (plain_op has cap) s ops = Some (s', os) \<Longrightarrow>
     \<exists>c'. run_ops (cache_op log) c ops = Some (c', os) \<and> client_rel has cap c' s'"
proof (induction ops arbitrary: c s os)
  case (Cons op ops)
  obtain s1 o1 ol where p: "plain_op has cap s op = Some (s1, o1)" "run_ops (plain_op has cap) s1 ops = Some (s', ol)" "os = o1 # ol"
    using Cons.prems(2) by (auto simp: bind_eq_Some_conv)
  obtain c1 where q: "cache_op log c op = Some (c1, o1)" "client_rel has cap c1 s1"
    using client_step [OF Cons.prems(1) p(1), of log] by blast
  from Cons.IH [OF q(2) p(2)] q(1) p(3) show ?case by auto
qed simp

section \<open>Frames used during a bulk import\<close>

text \<open>With no free frame and an empty queue there is nothing to evict, pinned or not.\<close>

lemma stranded_pin:
  assumes inv: "pc_inv pc" and free: "ll_list (pc_free_frames pc) = []" and normal: "\<not> pc_bulk_import pc"
    and rr: "ll_size (pc_recently_referenced pc) = 0" and no: "pc_lookup pc fk ft pn = None"
  shows "pin_page pc pn fk ft log = None"
proof (cases "valid_file fk ft")
  case True
  have "ll_size (pc_free_frames pc) = 0"
    using llist.size_law [of "pc_free_frames pc"] pc_invD(6) [OF inv] free by (simp add: free_ok_def)
  then have "make_room pc log = None" using normal rr by (simp add: make_room_def evict_def)
  moreover have "ht_contains (pc_page_map pc fk ft) pn = Some False"
    using htable.get_law [OF pc_invD(3) [OF inv True], of pn] no by (simp add: ht_contains_def pc_lookup_def)
  ultimately show ?thesis using pdb_file_valid [OF True] True by (simp add: pin_page_def page_map_at_def)
next
  case False
  then show ?thesis by (cases "pdb_file (pc_pdb pc) fk ft") (simp_all add: pin_page_def page_map_at_def)
qed

text \<open>While \<^verbatim>\<open>bulk_import\<close> is set no operation touches the queue of recently referenced frames.\<close>

lemma evict_frame_queue:
  "evict_frame pc f log = Some pc' \<Longrightarrow> pc_recently_referenced pc' = pc_recently_referenced pc"
  by (auto simp: evict_frame_def flush_page_def bind_eq_Some_conv Let_def split: if_splits)

lemma bulk_evict_queue:
  assumes "bulk_evict pc = Some pc'"
  shows "pc_recently_referenced pc' = pc_recently_referenced pc"
proof -
  obtain e where "for_each (\<lambda>(pc, evicted) i. do {
         c_page \<leftarrow> frame_at pc i;
         if pg_pin_count c_page = 0 then do { pc \<leftarrow> evict_frame pc i False; Some (pc, evicted + 1) }
         else Some (pc, evicted) }) (pc, 0::nat) [0..<pc_n_frames pc] = Some (pc', e)"
    using assms by (auto simp: bulk_evict_def bind_eq_Some_conv split: if_splits)
  then have "pc_recently_referenced (fst (pc', e)) = pc_recently_referenced pc"
    by (rule for_each_inv [where P = "\<lambda>s. pc_recently_referenced (fst s) = pc_recently_referenced pc"])
      (auto simp: bind_eq_Some_conv dest!: evict_frame_queue split: if_splits)
  then show ?thesis by simp
qed

lemma pin_bulk_queue:
  assumes "pin_page pc pn fk ft log = Some (f, pc')" "pc_bulk_import pc"
  shows "pc_recently_referenced pc' = pc_recently_referenced pc"
proof -
  have load: "pc_recently_referenced pc2 = pc_recently_referenced pc1"
    if "load_page pc1 pn fk ft log = Some (g, pc2)" for pc1 g pc2
    using that by (auto simp: load_page_def bind_eq_Some_conv Let_def)
  have "pc_recently_referenced pc1 = pc_recently_referenced pc" if "make_room pc log = Some pc1" for pc1
    using that assms(2) bulk_evict_queue by (auto simp: make_room_def split: if_splits)
  then show ?thesis
    using assms(1) by (auto simp: pin_page_def bind_eq_Some_conv Let_def dest!: load split: if_splits)
qed

lemma unpin_bulk_queue:
  "unpin_page pc pn fk ft log = Some pc' \<Longrightarrow> pc_bulk_import pc \<Longrightarrow>
     pc_recently_referenced pc' = pc_recently_referenced pc"
  by (auto simp: unpin_page_def requeue_def bind_eq_Some_conv Let_def split: if_splits)

text \<open>A write through any pointer to a pinned frame keeps the cache well-formed.\<close>

lemma write_pinned_inv:
  assumes inv: "pc_inv pc" and w: "write_frame pc f (\<lambda>p. write_uchar p off b) = Some pc'"
  shows "pc_inv pc'"
proof -
  have f: "f < length (pc_frames pc)" "pg_pin_count (pc_frames pc ! f) \<noteq> 0"
    using w by (auto simp: write_frame_def frame_at_def write_uchar_def bind_eq_Some_conv split: if_splits)
  then have used: "pg_fk (pc_frames pc ! f) \<noteq> invalid" using pc_invD(5) [OF inv f(1)] by (auto simp: frame_ok_def)
  let ?k = "pc_frames pc ! f"
  have v: "valid_file (pg_fk ?k) (pg_ft ?k)" using frame_okD(1) [OF pc_invD(5) [OF inv f(1)] used] .
  have "pc_lookup pc (pg_fk ?k) (pg_ft ?k) (pg_page_no ?k) = Some f"
    using pc_invD(4) [OF inv v] f(1) by (simp add: frame_key_def)
  moreover have "write_frame pc f (\<lambda>p. Some (p\<lparr>pg_data := (pg_data ?k)(off := b), pg_dirty := True\<rparr>)) = Some pc'"
    using w f(1) by (auto simp: write_frame_def frame_at_def write_uchar_def split: if_splits)
  ultimately show ?thesis
    using write_frame_step [OF inv v, of _ f _ pc' "\<lambda>_. (pg_data ?k)(off := b)"] by (auto simp: write_spec_def)
qed

definition importing :: "page_cache \<Rightarrow> bool" where
  "importing pc \<longleftrightarrow> pc_inv pc \<and> pc_bulk_import pc \<and> ll_size (pc_recently_referenced pc) = 0"

lemma importing_step:
  assumes imp: "importing pc" and step: "cache_op log (pc, ptr) op = Some ((pc', ptr'), out)"
  shows "importing pc'"
proof (cases op)
  case (CPin k)
  obtain fk ft pn where k: "k = (fk, ft, pn)" by (cases k)
  obtain f where p: "pin_page pc pn fk ft log = Some (f, pc')" using step by (auto simp: CPin k key_pin_def bind_eq_Some_conv)
  then show ?thesis
    using imp pin_page_step [of pc, OF _ p] pin_bulk_queue [OF p] by (auto simp: importing_def pin_spec_def)
next
  case (CUnpin k)
  obtain fk ft pn where k: "k = (fk, ft, pn)" by (cases k)
  have u: "unpin_page pc pn fk ft log = Some pc'" using step by (auto simp: CUnpin k key_unpin_def bind_eq_Some_conv)
  then show ?thesis
    using imp unpin_page_step [of pc, OF _ u] unpin_bulk_queue [OF u] by (auto simp: importing_def unpin_spec_def)
next
  case (CRead k off)
  then show ?thesis using imp step by (auto simp: bind_eq_Some_conv)
next
  case (CWrite k off b)
  then obtain f where w: "write_frame pc f (\<lambda>p. write_uchar p off b) = Some pc'"
    using step by (auto simp: bind_eq_Some_conv)
  moreover have "pc_bulk_import pc' = pc_bulk_import pc \<and> pc_recently_referenced pc' = pc_recently_referenced pc"
    using w by (auto simp: write_frame_def bind_eq_Some_conv)
  ultimately show ?thesis using imp write_pinned_inv by (auto simp: importing_def)
qed

lemma importing_run:
  "importing pc \<Longrightarrow> run_ops (cache_op log) (pc, ptr) ops = Some ((pc', ptr'), os) \<Longrightarrow> importing pc'"
proof (induction ops arbitrary: pc ptr os)
  case (Cons op ops)
  then obtain pc1 ptr1 o1 os1 where s: "cache_op log (pc, ptr) op = Some ((pc1, ptr1), o1)"
    "run_ops (cache_op log) (pc1, ptr1) ops = Some ((pc', ptr'), os1)"
    by (auto simp: bind_eq_Some_conv)
  show ?case by (rule Cons.IH [OF importing_step [OF Cons.prems(1) s(1)] s(2)])
qed simp

lemma importing_create:
  assumes "files_ok db" "page_cache_create seed db n lp = Some pc"
  shows "importing (pc\<lparr>pc_bulk_import := True\<rparr>)"
proof -
  have "pc_inv pc" "pc_recently_referenced pc = ll_ul_create"
    using page_cache_create_ok [OF assms(1), of seed n lp] assms(2)
    by (auto simp: page_cache_create_def bind_eq_Some_conv)
  then show ?thesis
    using same_core [of pc "pc\<lparr>pc_bulk_import := True\<rparr>"]
    by (simp add: importing_def ll_ul_create_def ll_create_def ll_size_def)
qed

lemma importing_stranded:
  assumes imp: "importing pc" and "ll_size (pc_free_frames pc) = 0" and no: "pc_lookup pc fk ft pn = None"
  shows "pin_page (pc\<lparr>pc_bulk_import := False\<rparr>) pn fk ft log = None"
proof -
  let ?pc = "pc\<lparr>pc_bulk_import := False\<rparr>"
  have core: "pc_inv ?pc" "pc_lookup ?pc = pc_lookup pc"
    using same_core [of ?pc pc] imp by (simp_all add: importing_def)
  have "ll_list (pc_free_frames pc) = []"
    using llist.size_law [of "pc_free_frames pc"] pc_invD(6) [of pc] imp assms(2)
    by (simp add: importing_def free_ok_def)
  then show ?thesis
    using stranded_pin [OF core(1), of fk ft pn log] core(2) no imp by (simp add: importing_def)
qed

lemma pin_first_page:
  assumes files: "files_ok db" and create: "page_cache_create seed db 1 lp = Some pc"
    and v: "valid_file fk ft" and pn: "pn < df_num_pages (file_of db fk ft)"
  shows "\<exists>pc1. pin_page (pc\<lparr>pc_bulk_import := True\<rparr>) pn fk ft log = Some (0, pc1) \<and>
    ll_list (pc_free_frames pc1) = [] \<and> pc_recently_referenced pc1 = ll_ul_create \<and> pc_frames pc1 \<noteq> [] \<and>
    ready 0 pc1 \<and> pc_bulk_import pc1 \<and> (\<forall>q. q \<noteq> pn \<longrightarrow> pc_lookup pc1 fk ft q = None)"
proof -
  let ?pc = "pc\<lparr>pc_bulk_import := True\<rparr>"
  have c: "pc_inv pc" "pc_pdb pc = db" "ll_list (pc_free_frames pc) = [0]" "pc_recently_referenced pc = ll_ul_create"
    "\<And>fk ft pn. pc_lookup pc fk ft pn = None"
    using page_cache_create_ok [OF files, of seed 1 lp] create
    by (auto simp: page_cache_create_def bind_eq_Some_conv pc_lookup_def d_ul_ul_create_ok(2))
  have rdy: "ready (Suc 0) ?pc" using ready_create(2) [OF files _ create] by simp
  note inv = ready_inv [OF rdy]
  have pn': "pn < pc_pages ?pc fk ft" using pn c(2) by (simp add: pc_pages_def)
  have no: "pc_lookup ?pc fk ft pn = None" using c(5) by (simp add: pc_lookup_def)
  have size: "ll_size (pc_free_frames pc) \<noteq> 0"
    using llist.size_law [of "pc_free_frames pc"] pc_invD(6) [OF c(1)] c(3) by (simp add: free_ok_def)
  then have m: "make_room ?pc log = Some ?pc" by (simp add: make_room_def)
  obtain pc1 where p: "pin_page ?pc pn fk ft log = Some (0, pc1)" "ll_list (pc_free_frames pc1) = []"
    "pc_recently_referenced pc1 = pc_recently_referenced ?pc" "length (pc_frames pc1) = length (pc_frames ?pc)"
    using pin_page_load_returns [OF inv v pn' no m, of 0 "[]"] c(3) by auto
  have r1: "ready 0 pc1" using ready_pin [OF rdy v pn', of log] p(1) by auto
  note sp = pin_page_step [OF inv p(1)]
  have l: "length (pc_frames pc1) = 1" "pc_lookup pc1 fk ft pn = Some 0" "pc_bulk_import pc1"
    using sp pc_invD(1) [OF ready_inv [OF r1]] create by (auto simp: pin_spec_def page_cache_create_def bind_eq_Some_conv)
  have "pc_lookup pc1 fk ft q = None" if "q \<noteq> pn" for q
  proof (rule ccontr)
    assume "pc_lookup pc1 fk ft q \<noteq> None"
    then obtain g where "pc_lookup pc1 fk ft q = Some g" by blast
    then have "g = 0" "frame_key (pc_frames pc1 ! g) = (fk, ft, q)"
      using pc_invD(4) [OF ready_inv [OF r1] v] l(1) by auto
    moreover have "frame_key (pc_frames pc1 ! 0) = (fk, ft, pn)" using pc_invD(4) [OF ready_inv [OF r1] v] l(2) by blast
    ultimately show False using that by simp
  qed
  then show ?thesis using p(1-3) r1 l c(4) by auto
qed

lemma one_frame_import:
  assumes files: "files_ok db" and create: "page_cache_create seed db 1 lp = Some pc"
    and v: "valid_file fk ft" and pn: "pn < df_num_pages (file_of db fk ft)" and q: "q \<noteq> pn"
  shows "\<exists>pc' ptr os. run_ops (cache_op log) (pc\<lparr>pc_bulk_import := True\<rparr>, Map.empty)
       [CPin (fk, ft, pn), CUnpin (fk, ft, pn)] = Some ((pc', ptr), os) \<and>
    ll_size (pc_free_frames pc') = 0 \<and> pc_lookup pc' fk ft q = None \<and> (\<forall>k. key_pins pc' k = 0)"
proof -
  obtain pc1 where p1: "pin_page (pc\<lparr>pc_bulk_import := True\<rparr>) pn fk ft log = Some (0, pc1)"
    "ll_list (pc_free_frames pc1) = []" "ready 0 pc1" "\<forall>q. q \<noteq> pn \<longrightarrow> pc_lookup pc1 fk ft q = None"
    using pin_first_page [OF files create v pn, of log] by blast
  have rdy0: "ready (Suc 0) (pc\<lparr>pc_bulk_import := True\<rparr>)"
    using ready_create(2) [OF files _ create] by simp
  have "pc_pins pc1 fk ft pn \<noteq> 0"
    using pin_page_step [OF ready_inv [OF rdy0] p1(1)] ready_nowrap [OF rdy0] by (simp add: pin_spec_def)
  then obtain pc2 where p2: "unpin_page pc1 pn fk ft log = Some pc2" "ready 1 pc2"
    using ready_unpin [OF p1(3), of fk ft pn log] by auto
  note u = unpin_page_step [OF ready_inv [OF p1(3)] p2(1)]
  have "ll_size (pc_free_frames pc2) = 0"
    using llist.size_law [of "pc_free_frames pc2"] pc_invD(6) [OF ready_inv [OF p2(2)]] u p1(2)
    by (simp add: unpin_spec_def free_ok_def)
  moreover have "key_pins pc2 k = 0" for k
  proof (rule ccontr)
    assume k: "key_pins pc2 k \<noteq> 0"
    then obtain f p where "frame_at pc2 f = Some p" "pg_pin_count p \<noteq> 0"
      using pinned_page [OF ready_inv [OF p2(2)]] by metis
    then have f: "f < length (pc_frames pc2)" "pg_pin_count (pc_frames pc2 ! f) \<noteq> 0"
      by (auto simp: frame_at_def split: if_splits)
    have "pc_n_frames pc2 = 1" "pin_sum pc2 = 0"
      using u pin_page_step [OF ready_inv [OF rdy0] p1(1)] create p2(2)
      by (auto simp: unpin_spec_def pin_spec_def page_cache_create_def bind_eq_Some_conv ready_def)
    then show False using pin_sum_frame [OF f(1)] f(2) by (simp add: unat_eq_0)
  qed
  ultimately show ?thesis
    using p1(1,4) p2(1) u q by (simp add: key_pin_def key_unpin_def unpin_spec_def)
qed

section \<open>Properties\<close>

text \<open>
  C3: The page cache is transparent and returns, during a bulk import for any database and in normal
  operation for a database whose pages all fit into the frames, so that \<^verbatim>\<open>evict\<close> is never needed
  (a bulk import does evict, by \<^verbatim>\<open>bulk_evict\<close>). Take any sequence of pins, unpins, byte reads and
  byte writes that is legal on a plain array of pages (only existing pages are pinned, at most as many
  pins as there are frames are outstanding, only pinned pages are accessed or unpinned, accesses lie
  in the page). Run on a new cache of one of these two kinds, through the pointers that the pins
  return, it returns with the same bytes read, and in the end the pages as seen through the cache and
  the pin counts are those of the array.
\<close>
theorem cache_refines_store:
  assumes "pd_inv db" "n_frames < 2 ^ 32" "page_cache_create seed db n_frames log_path = Some pc"
    and "bulk \<or> all_pages pc \<le> n_frames"
    and "run_ops (plain_op (key_has pc) n_frames) (key_view pc, (\<lambda>_. 0), 0) ops = Some ((v, n, t), os)"
  shows "\<exists>pc' ptr. run_ops (cache_op log) (pc\<lparr>pc_bulk_import := bulk\<rparr>, Map.empty) ops = Some ((pc', ptr), os) \<and>
    key_view pc' = v \<and> key_pins pc' = n \<and> key_has pc' = key_has pc \<and> ready (n_frames - t) pc'"
proof -
  note files = pd_inv_files_ok [OF assms(1)]
  let ?pc = "pc\<lparr>pc_bulk_import := bulk\<rparr>"
  have pc: "?pc = pc" if "\<not> bulk"
    using that assms(3) by (auto simp: page_cache_create_def bind_eq_Some_conv)
  have rdy: "ready n_frames ?pc"
    using ready_create [OF files assms(2,3)] assms(4) pc by (cases bulk) auto
  have same: "key_has ?pc = key_has pc" "key_view ?pc = key_view pc" "key_pins ?pc = key_pins pc"
    by (auto simp: key_has_def key_view_def key_pins_def pc_pages_def pc_view_def pc_pins_def pc_lookup_def fun_eq_iff
        split: option.splits)
  have "key_pins pc = (\<lambda>_. 0)"
    using page_cache_create_ok [OF files, of seed n_frames log_path] assms(3) by (auto simp: key_pins_def fun_eq_iff)
  then have "client_rel (key_has pc) n_frames (?pc, Map.empty) (key_view pc, (\<lambda>_. 0), 0)"
    using rdy same by (simp add: client_rel_def)
  from client_run [OF this assms(5), of log] show ?thesis
    unfolding client_rel_def by auto
qed

theorem cache_refines_store_witness:
  "\<exists>db pc fs pc' ptr. phy_database_create Map.empty ''db'' ''log'' = Some (db, fs) \<and>
     page_cache_create (\<lambda>_ _. 7) db 5 ''log'' = Some pc \<and>
     run_ops (cache_op True) (pc\<lparr>pc_bulk_import := True\<rparr>, Map.empty)
       [CPin (header, node_ft, 0), CWrite (header, node_ft, 0) 3 42, CUnpin (header, node_ft, 0),
        CPin (header, node_ft, 0), CRead (header, node_ft, 0) 3] =
       Some ((pc', ptr), [None, None, None, None, Some 42])"
proof -
  obtain db fs where d: "phy_database_create Map.empty ''db'' ''log'' = Some (db, fs)" "pd_inv db"
    "df_num_pages (pd_header db node_ft) = 1"
    using phy_database_create_ok [of Map.empty "''db''" "''log''"] by auto
  obtain pc where p: "page_cache_create (\<lambda>_ _. 7) db 5 ''log'' = Some pc" "pc_pdb pc = db"
    using page_cache_create_ok [OF pd_inv_files_ok [OF d(2)], of "\<lambda>_ _. 7" 5 "''log''"] by blast
  have h: "key_has pc (header, node_ft, 0)" using d(3) p(2) by (simp add: key_has_def valid_file_def pc_pages_def file_of_def)
  obtain v n t where "run_ops (plain_op (key_has pc) 5) (key_view pc, (\<lambda>_. 0), 0)
      [CPin (header, node_ft, 0), CWrite (header, node_ft, 0) 3 42, CUnpin (header, node_ft, 0),
       CPin (header, node_ft, 0), CRead (header, node_ft, 0) 3] = Some ((v, n, t), [None, None, None, None, Some 42])"
    using h by (simp add: PAGE_SIZE_def)
  from cache_refines_store [OF d(2) _ p(1) _ this, of True True] d(1) p(1) show ?thesis by auto
qed

text \<open>
  C4: Nothing is lost when a cache is given up. When no page is pinned, \<^verbatim>\<open>page_cache_destroy\<close> returns
  and leaves a database whose files have every page as it was seen through the cache;
  \<^verbatim>\<open>page_cache_change_n_frames\<close> returns with a well-formed cache of the new size that shows the same
  pages. If a page is pinned, both end the program.
\<close>
theorem cache_gives_back_pages:
  assumes "pc_inv pc" "queue_ok pc" "pc_frames pc \<noteq> []"
  shows "if \<forall>f < length (pc_frames pc). pg_pin_count (pc_frames pc ! f) = 0
    then (\<exists>db. page_cache_destroy pc = Some db \<and>
        (\<forall>fk ft pn. valid_file fk ft \<longrightarrow> df_page (file_of db fk ft) pn = pc_view pc fk ft pn)) \<and>
      (\<exists>pc'. page_cache_change_n_frames seed pc n = Some pc' \<and> pc_inv pc' \<and> queue_ok pc' \<and>
        length (pc_frames pc') = n \<and>
        (\<forall>fk ft pn. valid_file fk ft \<longrightarrow> pc_view pc' fk ft pn = pc_view pc fk ft pn))
    else page_cache_destroy pc = None \<and> page_cache_change_n_frames seed pc n = None"
proof (cases "\<forall>f < length (pc_frames pc). pg_pin_count (pc_frames pc ! f) = 0")
  case True
  obtain pc1 l1 l2 where f: "flush_all_pages pc False = Some pc1" "pc_inv pc1" "pc_view pc1 = pc_view pc"
    "\<forall>fk ft pn. valid_file fk ft \<longrightarrow> df_page (file_of (pc_pdb pc1) fk ft) pn = pc_view pc fk ft pn"
    "for_each (\<lambda>_ p. page_destroy p) () (pc_frames pc1) = Some ()" "pc_frames pc1 \<noteq> []"
    "\<not> list_ex (\<lambda>p. pg_pin_count p \<noteq> 0) (pc_frames pc1)"
    "ll_destroy (pc_free_frames pc1) = Some l1" "ll_destroy (pc_recently_referenced pc1) = Some l2"
    using flushed_cache [OF assms(1) queue_okD(1) [OF assms(2)] assms(3) True] by blast
  obtain ff where ff: "fill_free_frames n = Some ff" "ll_inv ff" "ll_list ff = [0..<n]"
    using fill_free_frames_ok by blast
  define pc' where "pc' = pc1\<lparr>pc_page_map := (\<lambda>fk ft. d_ul_ul_create (seed fk ft)),
         pc_recently_referenced := ll_ul_create, pc_free_frames := ff,
         pc_n_frames := n, pc_frames := replicate n (page_create (\<lambda>_. 0))\<rparr>"
  have e: "files_ok (pc_pdb pc')" "pc_n_frames pc' = n" "pc_frames pc' = replicate n (page_create (\<lambda>_. 0))"
    "ll_inv (pc_free_frames pc')" "ll_list (pc_free_frames pc') = [0..<n]"
    "pc_page_map pc' = (\<lambda>fk ft. d_ul_ul_create (seed fk ft))" "pc_recently_referenced pc' = ll_ul_create"
    using f(2) ff by (simp_all add: pc'_def pc_inv_def)
  note empty = empty_cache [OF e]
  have "page_cache_destroy pc = Some (pc_pdb pc1)" using f by (simp add: page_cache_destroy_def)
  moreover have "page_cache_change_n_frames seed pc n = Some pc'"
    using f ff by (simp add: page_cache_change_n_frames_def pc'_def)
  moreover have "pc_view pc' fk ft pn = pc_view pc fk ft pn" if "valid_file fk ft" for fk ft pn
    using empty(4) [OF that] f(4) that by (simp add: pc'_def)
  ultimately show ?thesis using True f(4) empty(1,2) e(3) by auto
next
  case False
  then obtain f where f: "f < pc_n_frames pc" "pg_pin_count (pc_frames pc ! f) \<noteq> 0" "f < length (pc_frames pc)"
    using pc_invD(1) [OF assms(1)] by auto
  have "flush_all_pages pc False = None"
    by (rule flush_all_pinned [OF assms(1) f(3,2)])
  then show ?thesis using False by (auto simp: page_cache_destroy_def page_cache_change_n_frames_def)
qed

theorem cache_gives_back_pages_witness:
  "\<exists>db pc fs db'. phy_database_create Map.empty ''db'' ''log'' = Some (db, fs) \<and>
     page_cache_create (\<lambda>_ _. 7) db 5 ''log'' = Some pc \<and> page_cache_destroy pc = Some db'"
proof -
  obtain db fs where d: "phy_database_create Map.empty ''db'' ''log'' = Some (db, fs)" "pd_inv db"
    using phy_database_create_ok [of Map.empty "''db''" "''log''"] by auto
  obtain pc where p: "page_cache_create (\<lambda>_ _. 7) db 5 ''log'' = Some pc" "pc_inv pc" "queue_ok pc"
    "pc_frames pc = replicate 5 (page_create (\<lambda>_. 0))"
    using page_cache_create_ok [OF pd_inv_files_ok [OF d(2)], of "\<lambda>_ _. 7" 5 "''log''"] by blast
  from cache_gives_back_pages [OF p(2,3), of "\<lambda>_ _. 7" 3] p d(1) show ?thesis by (auto simp: page_create_def)
qed

text \<open>
  C5: In normal operation (\<^verbatim>\<open>bulk_import\<close> is not set), in a cache whose frames in use are all in the
  queue of recently referenced frames once they are unpinned (\<open>queue_ok\<close>; a bulk import breaks this),
  \<^verbatim>\<open>pin_page\<close> finds room: for a page that exists and whose pin count is not at its maximum it returns
  whenever the page is cached or some frame is not pinned, evicting up to \<^verbatim>\<open>EVICT_LRU_K\<close> unpinned
  pages if it must, and leaves such a cache. The frame it returns holds the page, no contents change and every other pinned page stays in its
  frame. For a page that does not exist it ends the program.
\<close>
theorem pin_page_finds_room:
  assumes "pc_inv pc" "queue_ok pc" "\<not> pc_bulk_import pc" "valid_file fk ft" "pc_pins pc fk ft pn \<noteq> - 1"
    and "pc_lookup pc fk ft pn \<noteq> None \<or> (\<exists>f < length (pc_frames pc). pg_pin_count (pc_frames pc ! f) = 0)"
  shows "if pn < pc_pages pc fk ft
    then \<exists>f pc'. pin_page pc pn fk ft log = Some (f, pc') \<and> pc_inv pc' \<and> queue_ok pc' \<and>
      frame_key (pc_frames pc' ! f) = (fk, ft, pn) \<and>
      page_of (pg_data (pc_frames pc' ! f)) = pc_view pc fk ft pn \<and> pc_view pc' = pc_view pc \<and>
      (\<forall>fk' ft' pn' g. pc_lookup pc fk' ft' pn' = Some g \<and> pc_pins pc fk' ft' pn' \<noteq> 0 \<longrightarrow>
         pc_lookup pc' fk' ft' pn' = Some g)
    else pin_page pc pn fk ft log = None"
proof (cases "pn < pc_pages pc fk ft")
  case True
  obtain f pc' where r: "pin_page pc pn fk ft log = Some (f, pc')" "queue_ok pc'"
    using pin_page_returns [OF assms(1-4) True assms(6,5), of log] by blast
  have sp: "pin_spec pc fk ft pn f pc'" by (rule pin_page_step [OF assms(1) r(1)])
  then have l: "pc_inv pc'" "pc_lookup pc' fk ft pn = Some f" "pc_view pc' = pc_view pc"
    "\<forall>fk' ft' pn' g. pc_lookup pc fk' ft' pn' = Some g \<and> pc_pins pc fk' ft' pn' \<noteq> 0 \<longrightarrow>
         pc_lookup pc' fk' ft' pn' = Some g"
    by (simp_all add: pin_spec_def)
  have "frame_key (pc_frames pc' ! f) = (fk, ft, pn)" using pc_invD(4) [OF l(1) assms(4)] l(2) by auto
  moreover have "page_of (pg_data (pc_frames pc' ! f)) = pc_view pc fk ft pn"
    unfolding l(3) [symmetric] using l(2) assms(4) by (simp add: pc_view_def)
  ultimately show ?thesis using True r l by auto
next
  case False
  then show ?thesis using pin_page_step [OF assms(1), of pn fk ft log] by (cases "pin_page pc pn fk ft log") (auto simp: pin_spec_def)
qed

theorem pin_page_finds_room_witness:
  "\<exists>db pc fs f pc'. phy_database_create Map.empty ''db'' ''log'' = Some (db, fs) \<and>
     page_cache_create (\<lambda>_ _. 7) db 5 ''log'' = Some pc \<and> pin_page pc 0 header relationship_ft True = Some (f, pc') \<and>
     pin_page pc 1 header relationship_ft True = None"
proof -
  obtain db fs where d: "phy_database_create Map.empty ''db'' ''log'' = Some (db, fs)" "pd_inv db"
    "df_num_pages (pd_header db relationship_ft) = 1"
    using phy_database_create_ok [of Map.empty "''db''" "''log''"] by auto
  obtain pc where p: "page_cache_create (\<lambda>_ _. 7) db 5 ''log'' = Some pc" "pc_inv pc" "queue_ok pc"
    "\<not> pc_bulk_import pc" "pc_frames pc = replicate 5 (page_create (\<lambda>_. 0))" "pc_pdb pc = db"
    "\<forall>fk ft pn. pc_pins pc fk ft pn = 0"
    using page_cache_create_ok [OF pd_inv_files_ok [OF d(2)], of "\<lambda>_ _. 7" 5 "''log''"] by blast
  have v: "valid_file header relationship_ft" by (simp add: valid_file_def)
  have n: "pc_pages pc header relationship_ft = 1" using d(3) p(6) by (simp add: pc_pages_def file_of_def)
  have room: "\<exists>f < length (pc_frames pc). pg_pin_count (pc_frames pc ! f) = 0"
    using p(5) by (intro exI [of _ 0]) (simp add: page_create_def)
  have pins: "pc_pins pc header relationship_ft q \<noteq> - 1" for q using p(7) by simp
  show ?thesis
    using pin_page_finds_room [OF p(2-4) v pins disjI2 [OF room], of 0 True]
      pin_page_finds_room [OF p(2-4) v pins disjI2 [OF room], of 1 True] n d(1) p(1) by auto
qed

text \<open>
  C13: Frames used during a bulk import are lost to normal operation. While \<^verbatim>\<open>bulk_import\<close> is set,
  unpinned frames do not enter the queue of recently referenced frames; after it is reset
  \<^verbatim>\<open>evict\<close> looks for its victims in this queue only. So take a new cache of any size and any
  sequence of pins, unpins, reads and writes during a bulk import that leaves no frame free. Whatever
  it left pinned, and also if it left no page pinned at all, the first pin of a page that is not in
  the cache ends the program once \<^verbatim>\<open>bulk_import\<close> is reset.
\<close>
theorem bulk_import_strands_frames:
  assumes "pd_inv db" "page_cache_create seed db n_frames log_path = Some pc"
    and "run_ops (cache_op log) (pc\<lparr>pc_bulk_import := True\<rparr>, Map.empty) ops = Some ((pc', ptr), os)"
    and "ll_size (pc_free_frames pc') = 0" "pc_lookup pc' fk ft pn = None"
  shows "pin_page (pc'\<lparr>pc_bulk_import := False\<rparr>) pn fk ft log' = None"
  by (rule importing_stranded [OF importing_run [OF importing_create assms(3)]])
    (use pd_inv_files_ok [OF assms(1)] assms(2,4,5) in simp_all)

theorem bulk_import_strands_frames_witness:
  "\<exists>db fs db2 pc pc' ptr os. phy_database_create Map.empty ''db'' ''log'' = Some (db, fs) \<and>
     allocate_pages db node_ft 2 False = Some db2 \<and> page_cache_create (\<lambda>_ _. 7) db2 1 ''log'' = Some pc \<and>
     run_ops (cache_op False) (pc\<lparr>pc_bulk_import := True\<rparr>, Map.empty)
       [CPin (records, node_ft, 0), CUnpin (records, node_ft, 0)] = Some ((pc', ptr), os) \<and>
     (\<forall>k. key_pins pc' k = 0) \<and> pin_page (pc'\<lparr>pc_bulk_import := False\<rparr>) 1 records node_ft False = None"
proof -
  obtain db fs where d: "phy_database_create Map.empty ''db'' ''log'' = Some (db, fs)" "pd_inv db"
    "df_num_pages (pd_records db node_ft) = 0" "df_num_pages (pd_header db node_ft) = 1"
    using phy_database_create_ok [of Map.empty "''db''" "''log''"] by auto
  obtain db2 where d2: "allocate_pages db node_ft 2 False = Some db2" "pd_inv db2" "df_num_pages (pd_records db2 node_ft) = 2"
    using allocate_pages_ok [OF d(2), of node_ft 2 False] d(3,4)
    by (auto simp: MAX_PAGE_NO_def LONG_MAX_def PAGE_SIZE_def)
  obtain pc where p: "page_cache_create (\<lambda>_ _. 7) db2 1 ''log'' = Some pc"
    using page_cache_create_ok [OF pd_inv_files_ok [OF d2(2)], of "\<lambda>_ _. 7" 1 "''log''"] by blast
  have "valid_file records node_ft" "0 < df_num_pages (file_of db2 records node_ft)"
    using d2(3) by (simp_all add: valid_file_def file_of_def)
  from one_frame_import [OF pd_inv_files_ok [OF d2(2)] p this, of 1 False] obtain pc' ptr os where r:
    "run_ops (cache_op False) (pc\<lparr>pc_bulk_import := True\<rparr>, Map.empty)
       [CPin (records, node_ft, 0), CUnpin (records, node_ft, 0)] = Some ((pc', ptr), os)"
    "ll_size (pc_free_frames pc') = 0" "pc_lookup pc' records node_ft 1 = None" "\<forall>k. key_pins pc' k = 0" by auto
  from bulk_import_strands_frames [OF d2(2) p r(1-3), of False] r d(1) d2(1) p show ?thesis by metis
qed

end
