(* ===== verification/Db_Cache.thy ===== *)
theory Db_Cache
  imports Page_Store
begin

text \<open>
  The page cache of a database whose bookkeeping is consistent. \<^verbatim>\<open>allocate_pages\<close> writes the
  catalogue directly to its file, which is right as long as no frame of the cache holds the
  catalogue; \<open>books\<close> is this condition together with the bookkeeping of the physical database.
  Every operation of the cache on header and record pages keeps it, so the cache is an instance of the
  page store contract with \<open>books\<close> in its invariant, and \<^verbatim>\<open>new_page\<close> adds a page of zeros to
  the store.
\<close>

section \<open>The catalogue is not cached\<close>

definition nocat :: "page_cache \<Rightarrow> bool" where
  "nocat pc \<longleftrightarrow> (\<forall>p \<in> set (pc_frames pc). pg_fk p \<noteq> catalogue)"

definition books :: "page_cache \<Rightarrow> bool" where
  "books pc \<longleftrightarrow> pd_inv (pc_pdb pc) \<and> nocat pc"

text \<open>The names of the files, which no operation of an open database changes.\<close>

definition pd_names :: "phy_database \<Rightarrow> string \<times> string list \<times> string list" where
  "pd_names db = (df_file_name (pd_catalogue db), map (df_file_name \<circ> pd_header db) file_types,
     map (df_file_name \<circ> pd_records db) file_types)"

definition pd_sig :: "phy_database \<Rightarrow> (file_type \<Rightarrow> nat) \<times> string \<times> string list \<times> string list" where
  "pd_sig db = (pd_remaining_header_bits db, pd_names db)"

lemma file_name_kept:
  "write_page df p b log = Some df' \<Longrightarrow> df_file_name df' = df_file_name df"
  "read_page df p b log = Some (b', df') \<Longrightarrow> df_file_name df' = df_file_name df"
  "disk_file_grow df n log = Some df' \<Longrightarrow> df_file_name df' = df_file_name df"
  by (auto simp: write_page_def write_pages_def read_page_def read_pages_def disk_file_grow_def Let_def
      bind_eq_Some_conv split: if_splits)

lemma set_file_sig:
  "pdb_file db fk ft = Some df \<Longrightarrow> df_file_name df' = df_file_name df \<Longrightarrow> pd_sig (set_file db fk ft df') = pd_sig db"
  by (cases fk) (auto simp: set_file_def pdb_file_def pd_sig_def pd_names_def split: if_splits)

text \<open>Steps that leave the header bookkeeping and the names alone and bring no catalogue page into the cache.\<close>

definition quiet :: "page_cache \<Rightarrow> page_cache \<Rightarrow> bool" where
  "quiet pc pc' \<longleftrightarrow> pd_sig (pc_pdb pc') = pd_sig (pc_pdb pc) \<and> (nocat pc \<longrightarrow> nocat pc')"

lemma quiet_refl [simp]: "quiet pc pc"
  by (simp add: quiet_def)

lemma quiet_trans: "quiet a b \<Longrightarrow> quiet b c \<Longrightarrow> quiet a c"
  by (simp add: quiet_def)

lemma nocat_set_frame: "nocat pc \<Longrightarrow> pg_fk p \<noteq> catalogue \<Longrightarrow> nocat (set_frame pc f p)"
  using set_update_subset_insert [of "pc_frames pc" f p] by (auto simp: nocat_def)

lemma nocat_frame: "nocat pc \<Longrightarrow> f < length (pc_frames pc) \<Longrightarrow> pg_fk (pc_frames pc ! f) \<noteq> catalogue"
  by (simp add: nocat_def)

lemma nocat_cong: "pc_frames pc' = pc_frames pc \<Longrightarrow> nocat pc' = nocat pc"
  by (simp add: nocat_def)

lemma quiet_fields:
  "quiet pc pc' \<Longrightarrow> pc_pdb pc'' = pc_pdb pc' \<Longrightarrow> pc_frames pc'' = pc_frames pc' \<Longrightarrow> quiet pc pc''"
  by (simp add: quiet_def nocat_def)

lemma quiet_set_frame:
  assumes "pd_sig (pc_pdb pc') = pd_sig (pc_pdb pc)"
    "pc_frames pc' = (pc_frames pc)[f := q]" "nocat pc \<Longrightarrow> pg_fk q \<noteq> catalogue"
  shows "quiet pc pc'"
  using assms set_update_subset_insert [of "pc_frames pc" f q] by (auto simp: quiet_def nocat_def)

lemma flush_page_quiet:
  assumes "flush_page pc f log = Some pc'"
  shows "quiet pc pc'"
proof -
  obtain p where p: "frame_at pc f = Some p" using assms by (auto simp: flush_page_def bind_eq_Some_conv)
  show ?thesis
  proof (cases "pg_dirty p")
    case True
    then have "pd_sig (pc_pdb pc') = pd_sig (pc_pdb pc)"
      "pc_frames pc' = (pc_frames pc)[f := p\<lparr>pg_dirty := False\<rparr>]"
      using assms p by (auto simp: flush_page_def bind_eq_Some_conv Let_def set_file_sig file_name_kept(1) split: if_splits)
    then show ?thesis using p nocat_frame [of pc f] by (auto intro!: quiet_set_frame)
  next
    case False
    then have "pc_pdb pc' = pc_pdb pc" "pc_frames pc' = pc_frames pc"
      using assms p by (auto simp: flush_page_def split: if_splits)
    then show ?thesis by (rule quiet_fields [OF quiet_refl])
  qed
qed

lemma evict_frame_quiet:
  assumes "evict_frame pc f log = Some pc'"
  shows "quiet pc pc'"
proof -
  obtain pc1 p where r: "flush_page pc f log = Some pc1" "pd_sig (pc_pdb pc') = pd_sig (pc_pdb pc1)"
    "\<exists>q. pc_frames pc' = (pc_frames pc1)[f := q] \<and> pg_fk q = invalid"
    using assms by (force simp: evict_frame_def bind_eq_Some_conv Let_def)
  then have "quiet pc1 pc'" by (auto intro: quiet_set_frame)
  with flush_page_quiet [OF r(1)] show ?thesis by (rule quiet_trans)
qed

lemma evict_loop_quiet: "evict_loop pc log i n ev = Some (pc', ev') \<Longrightarrow> quiet pc pc'"
proof (induction pc log i n ev rule: evict_loop.induct)
  case (2 pc log i n ev)
  from "2.prems" obtain c p where c: "ll_get (pc_recently_referenced pc) i = Some c" "frame_at pc c = Some p"
    by (auto simp: bind_eq_Some_conv)
  show ?case
  proof (cases "pg_pin_count p = 0")
    case True
    then obtain pc1 where e: "evict_frame pc c log = Some pc1" using "2.prems" c by (auto simp: bind_eq_Some_conv)
    show ?thesis
      using "2.IH"(1) [OF c True e refl] "2.prems" c True e evict_frame_quiet [OF e]
      by (auto simp: Let_def split: if_splits intro: quiet_trans)
  qed (use "2.IH"(2) [OF c] "2.prems" c in simp)
qed auto

lemma make_room_quiet:
  assumes "make_room pc log = Some pc'"
  shows "quiet pc pc'"
proof -
  have "quiet pc pc'" if "evict pc log = Some pc'"
    using that by (auto simp: evict_def bind_eq_Some_conv split: if_splits dest!: evict_loop_quiet elim!: quiet_fields)
  moreover have "quiet pc pc'" if run: "bulk_evict pc = Some pc'"
  proof -
    obtain e where e: "for_each (\<lambda>(pc, evicted) i. do {
         c_page \<leftarrow> frame_at pc i;
         if pg_pin_count c_page = 0 then do { pc \<leftarrow> evict_frame pc i False; Some (pc, evicted + 1) }
         else Some (pc, evicted) }) (pc, 0::nat) [0..<pc_n_frames pc] = Some (pc', e)"
      using run by (auto simp: bulk_evict_def bind_eq_Some_conv split: if_splits)
    have "quiet pc (fst (pc', e))"
    proof (rule for_each_inv [OF e], goal_cases)
      case (2 s x s')
      then show ?case
        by (cases s) (auto simp: bind_eq_Some_conv split: if_splits dest!: evict_frame_quiet intro: quiet_trans)
    qed simp
    then show ?thesis by simp
  qed
  ultimately show ?thesis using assms by (auto simp: make_room_def split: if_splits)
qed

lemma load_page_quiet:
  assumes "load_page pc pn fk ft log = Some (f, pc')" "fk \<noteq> catalogue"
  shows "quiet pc pc'"
proof -
  have "pd_sig (pc_pdb pc') = pd_sig (pc_pdb pc)"
    "\<exists>q. pc_frames pc' = (pc_frames pc)[f := q] \<and> pg_fk q = fk"
    using assms(1) by (force simp: load_page_def bind_eq_Some_conv Let_def set_file_sig file_name_kept(2))+
  with assms(2) show ?thesis by (auto intro: quiet_set_frame)
qed

lemma pin_page_quiet:
  assumes "pin_page pc pn fk ft log = Some (f, pc')" "fk \<noteq> catalogue"
  shows "quiet pc pc'"
proof -
  note v = pin_page_guards(1) [OF assms(1)]
  obtain b where c: "ht_contains (pc_page_map pc fk ft) pn = Some b"
    using assms(1) v by (auto simp: pin_page_def bind_eq_Some_conv split: if_splits)
  show ?thesis
  proof (cases b)
    case True
    then have "f < length (pc_frames pc)" "pc_pdb pc' = pc_pdb pc"
      "pc_frames pc' = (pc_frames pc)[f := (pc_frames pc ! f)\<lparr>pg_pin_count := pg_pin_count (pc_frames pc ! f) + 1\<rparr>]"
      using assms(1) v c by (auto simp: pin_page_def bind_eq_Some_conv Let_def split: if_splits)
    then show ?thesis using nocat_frame [of pc f] by (auto intro!: quiet_set_frame)
  next
    case False
    then obtain pc0 pc1 where r: "make_room pc log = Some pc0" "load_page pc0 pn fk ft log = Some (f, pc1)"
      "pc_pdb pc' = pc_pdb pc1" "pc_frames pc' = pc_frames pc1"
      using assms(1) v c by (auto simp: pin_page_def bind_eq_Some_conv Let_def split: if_splits)
    from quiet_trans [OF make_room_quiet [OF r(1)] load_page_quiet [OF r(2) assms(2)]] r(3,4) show ?thesis
      by (rule quiet_fields)
  qed
qed

lemma unpin_page_quiet:
  assumes "unpin_page pc pn fk ft log = Some pc'"
  shows "quiet pc pc'"
proof -
  obtain f where "f < length (pc_frames pc)" "pc_pdb pc' = pc_pdb pc"
    "pc_frames pc' = (pc_frames pc)[f := (pc_frames pc ! f)\<lparr>pg_pin_count := pg_pin_count (pc_frames pc ! f) - 1\<rparr>]"
    using assms requeue_fields(1,5) by (fastforce simp: unpin_page_def bind_eq_Some_conv Let_def split: if_splits)
  then show ?thesis using nocat_frame [of pc f] by (auto intro!: quiet_set_frame)
qed

text \<open>The bookkeeping is kept by quiet steps that show the same catalogue and the same sizes.\<close>

lemma nocat_catalogue:
  assumes "pc_inv pc" "nocat pc"
  shows "pc_view pc catalogue node_ft pn = df_page (pd_catalogue (pc_pdb pc)) pn"
proof -
  have v: "valid_file catalogue node_ft" by (simp add: valid_file_def)
  have "pc_lookup pc catalogue node_ft pn = None"
  proof (cases "pc_lookup pc catalogue node_ft pn")
    case (Some f)
    then have "f < length (pc_frames pc)" "pg_fk (pc_frames pc ! f) = catalogue"
      using pc_invD(4) [OF assms(1) v] by (auto simp: frame_key_def)
    with nocat_frame [OF assms(2)] show ?thesis by blast
  qed
  then show ?thesis using v by (simp add: pc_view_def file_of_def)
qed

lemma books_step:
  assumes inv: "pc_inv pc" "pc_inv pc'" and b: "books pc" and q: "quiet pc pc'"
    and cat: "pc_view pc' catalogue node_ft 0 = pc_view pc catalogue node_ft 0"
    and pages: "\<And>fk ft. valid_file fk ft \<Longrightarrow> pc_pages pc' fk ft = pc_pages pc fk ft"
  shows "books pc'"
proof -
  have nc: "nocat pc" "nocat pc'" using b q by (simp_all add: books_def quiet_def)
  have files: "df_inv (file_of (pc_pdb pc') fk ft)" if "valid_file fk ft" for fk ft using pc_invD(2) [OF inv(2) that] .
  have n: "df_num_pages (pd_catalogue (pc_pdb pc')) = df_num_pages (pd_catalogue (pc_pdb pc))"
    "ft \<noteq> invalid_ft \<Longrightarrow> df_num_pages (pd_header (pc_pdb pc') ft) = df_num_pages (pd_header (pc_pdb pc) ft)"
    "ft \<noteq> invalid_ft \<Longrightarrow> df_num_pages (pd_records (pc_pdb pc') ft) = df_num_pages (pd_records (pc_pdb pc) ft)" for ft
    using pages [of catalogue node_ft] pages [of header ft] pages [of records ft]
    by (simp_all add: pc_pages_def file_of_def valid_file_def)
  have c: "df_page (pd_catalogue (pc_pdb pc')) 0 = df_page (pd_catalogue (pc_pdb pc)) 0"
    using cat nocat_catalogue [OF inv(1) nc(1)] nocat_catalogue [OF inv(2) nc(2)] by simp
  have "df_inv (pd_catalogue (pc_pdb pc'))" "\<And>ft. ft \<noteq> invalid_ft \<Longrightarrow> df_inv (pd_header (pc_pdb pc') ft)"
    "\<And>ft. ft \<noteq> invalid_ft \<Longrightarrow> df_inv (pd_records (pc_pdb pc') ft)"
    using files [of catalogue node_ft] files [of header] files [of records] by (simp_all add: file_of_def valid_file_def)
  then have "pd_inv (pc_pdb pc')"
    using b q unfolding books_def pd_inv_def quiet_def n_slots_def pd_sig_def
    by (simp add: n c)
  then show ?thesis using nc by (simp add: books_def)
qed

section \<open>The contract\<close>

definition db_ready :: "nat \<Rightarrow> page_cache \<Rightarrow> bool" where
  "db_ready k pc \<longleftrightarrow> ready k pc \<and> books pc"

definition db_has :: "page_cache \<Rightarrow> page_key \<Rightarrow> bool" where
  "db_has pc k \<longleftrightarrow> key_has pc k \<and> fst k \<noteq> catalogue"

interpretation db: live_store pc_inv key_view key_pins key_frame "key_pin log" "key_unpin log" frame_at set_frame
    db_ready db_has for log
proof unfold_locales
  fix j and s s' :: page_cache and k :: page_key and f :: nat and p d
  obtain fk ft pn where k: "k = (fk, ft, pn)" by (cases k)
  show "db_ready j s \<Longrightarrow> pc_inv s" by (simp add: db_ready_def ready_def)
  show "\<exists>f s'. key_pin log s k = Some (f, s') \<and> db_ready j s' \<and> db_has s' = db_has s \<and> key_pins s k + 1 \<noteq> 0"
    if rdy: "db_ready (Suc j) s" and h: "db_has s k"
  proof -
    have r0: "ready (Suc j) s" "books s" "key_has s k" "fk \<noteq> catalogue"
      using rdy h by (simp_all add: db_ready_def db_has_def k)
    obtain f s' where r: "key_pin log s k = Some (f, s')" "ready j s'" "key_has s' = key_has s" "key_pins s k + 1 \<noteq> 0"
      using cache.pin_total [OF r0(1,3)] by blast
    have run: "pin_page s pn fk ft log = Some (f, s')" using r(1) by (simp add: k key_pin_def)
    note sp = pin_page_step [OF ready_inv [OF r0(1)] run]
    have "books s'"
      using sp pin_page_quiet [OF run r0(4)] by (intro books_step [OF ready_inv [OF r0(1)] ready_inv [OF r(2)] r0(2)])
        (simp_all add: pin_spec_def)
    then show ?thesis using r by (auto simp: db_ready_def db_has_def fun_eq_iff)
  qed
  show "\<exists>s'. key_unpin log s k = Some s' \<and> db_ready (Suc j) s' \<and> db_has s' = db_has s"
    if rdy: "db_ready j s" and h: "db_has s k" and n: "key_pins s k \<noteq> 0"
  proof -
    have r0: "ready j s" "books s" "key_has s k" using rdy h by (simp_all add: db_ready_def db_has_def k)
    obtain s' where r: "key_unpin log s k = Some s'" "ready (Suc j) s'" "key_has s' = key_has s"
      using cache.unpin_total [OF r0(1,3) n] by blast
    have run: "unpin_page s pn fk ft log = Some s'" using r(1) by (simp add: k key_unpin_def)
    note sp = unpin_page_step [OF ready_inv [OF r0(1)] run]
    have "books s'"
      using sp unpin_page_quiet [OF run] by (intro books_step [OF ready_inv [OF r0(1)] ready_inv [OF r(2)] r0(2)])
        (simp_all add: unpin_spec_def)
    then show ?thesis using r by (auto simp: db_ready_def db_has_def fun_eq_iff)
  qed
  show "db_ready j s' \<and> db_has s' = db_has s"
    if rdy: "db_ready j s" and h: "db_has s k" and f: "key_frame s k = Some f" and p: "frame_at s f = Some p"
      and s': "s' = set_frame s f (p\<lparr>pg_data := d, pg_dirty := True\<rparr>)"
  proof -
    have r0: "ready j s" "books s" "key_has s k" "fk \<noteq> catalogue" using rdy h by (simp_all add: db_ready_def db_has_def k)
    have r: "ready j s'" "key_has s' = key_has s" using cache.put_ready [OF r0(1,3) f p s'] by simp_all
    have "quiet s s'" using p nocat_frame [of s f] by (auto simp: s' intro!: quiet_set_frame)
    moreover have "key_view s' (catalogue, node_ft, 0) = key_view s (catalogue, node_ft, 0)"
      using cache.put_law [OF ready_inv [OF r0(1)] f p s'] r0(4) by (simp add: k)
    ultimately have "books s'"
      by (intro books_step [OF ready_inv [OF r0(1)] ready_inv [OF r(1)] r0(2)]) (simp_all add: s' pc_pages_def key_view_def)
    then show ?thesis using r by (auto simp: db_ready_def db_has_def fun_eq_iff)
  qed
qed

section \<open>New pages\<close>

text \<open>Files that only grow under the cache.\<close>

definition db_grown :: "phy_database \<Rightarrow> phy_database \<Rightarrow> bool" where
  "db_grown db db' \<longleftrightarrow> (\<forall>fk ft. valid_file fk ft \<and> fk \<noteq> catalogue \<longrightarrow> grown (file_of db fk ft) (file_of db' fk ft))"

lemma grown_files:
  assumes inv: "pc_inv pc" and nc: "nocat pc" and files: "files_ok db'" and g: "db_grown (pc_pdb pc) db'"
    and pc': "pc' = pc\<lparr>pc_pdb := db'\<rparr>"
  shows "pc_inv pc'" "key_pins pc' = key_pins pc"
    "db_has pc k \<Longrightarrow> db_has pc' k \<and> key_view pc' k = key_view pc k"
    "db_has pc' k \<Longrightarrow> \<not> db_has pc k \<Longrightarrow> key_view pc' k = (\<lambda>_. 0)"
proof -
  have gr: "grown (file_of (pc_pdb pc) fk ft) (file_of db' fk ft)" if "valid_file fk ft" "fk \<noteq> catalogue" for fk ft
    using g that by (simp add: db_grown_def)
  have same: "pc_frames pc' = pc_frames pc" "pc_lookup pc' = pc_lookup pc" "pc_page_map pc' = pc_page_map pc"
    "pc_free_frames pc' = pc_free_frames pc" "pc_n_frames pc' = pc_n_frames pc" "pc_pdb pc' = db'"
    by (simp_all add: pc' pc_lookup_def fun_eq_iff)
  have "frame_ok db' (pc_frames pc ! f)" if f: "f < length (pc_frames pc)" for f
  proof (cases "pg_fk (pc_frames pc ! f) = invalid")
    case True
    then show ?thesis using pc_invD(5) [OF inv f] by (simp add: frame_ok_def)
  next
    case False
    note ok = frame_okD [OF pc_invD(5) [OF inv f] False]
    from gr [OF ok(1) nocat_frame [OF nc f]] ok show ?thesis using False by (auto simp: frame_ok_def grown_def)
  qed
  then show "pc_inv pc'"
    using inv files unfolding pc_inv_def maps_ok_def free_ok_def same by simp
  show "key_pins pc' = key_pins pc"
    unfolding key_pins_def pc_pins_def [abs_def] same by (rule refl)
  obtain fk ft pn where k: "k = (fk, ft, pn)" by (cases k)
  show "db_has pc k \<Longrightarrow> db_has pc' k \<and> key_view pc' k = key_view pc k"
    using gr [of fk ft]
    by (auto simp: k db_has_def key_has_def key_view_def pc_view_def pc_pages_def same grown_def split: option.splits)
  assume h: "db_has pc' k" "\<not> db_has pc k"
  then have v: "valid_file fk ft" "fk \<noteq> catalogue" and pn: "pn < df_num_pages (file_of db' fk ft)" "\<not> pn < pc_pages pc fk ft"
    by (auto simp: k db_has_def key_has_def pc_pages_def same)
  have "pc_lookup pc fk ft pn = None"
  proof (cases "pc_lookup pc fk ft pn")
    case (Some f)
    then have f: "f < length (pc_frames pc)" "frame_key (pc_frames pc ! f) = (fk, ft, pn)" using pc_invD(4) [OF inv v(1)] by auto
    then show ?thesis
      using frame_okD(2) [OF pc_invD(5) [OF inv f(1)]] v(1) pn(2) by (auto simp: frame_key_def pc_pages_def valid_file_def)
  qed
  then show "key_view pc' k = (\<lambda>_. 0)"
    using gr [OF v] pn v by (simp add: k key_view_def pc_view_def same grown_def pc_pages_def)
qed

lemma header_growth:
  assumes "h * 32768 = r + n * 256" "r \<le> 32768" "h' * 32768 = r' + (n + 1) * 256" "r' \<le> (32768 :: nat)"
  shows "h' \<le> h + 1"
proof (rule ccontr)
  assume "\<not> h' \<le> h + 1"
  then have "(h + 2) * 32768 \<le> h' * 32768" by (intro mult_le_mono1) simp
  with assms show False by simp
qed

lemma ready_grown:
  assumes rdy: "ready k pc" and nc: "nocat pc" and files: "files_ok db'" and g: "db_grown (pc_pdb pc) db'"
    and fits: "pc_bulk_import pc \<or> all_pages (pc\<lparr>pc_pdb := db'\<rparr>) \<le> pc_n_frames pc"
  shows "ready k (pc\<lparr>pc_pdb := db'\<rparr>)"
  using rdy fits grown_files(1) [OF ready_inv [OF rdy] nc files g refl]
  by (auto simp: ready_def pin_sum_def queue_ok_def)

lemma catalogue_add_pages:
  assumes "catalogue_add cat ft n log = Some cat'"
  shows "df_num_pages cat' = df_num_pages cat"
proof -
  obtain b c v where c: "read_page cat 0 (\<lambda>_. 0) log = Some (b, c)" "write_page c 0 v log = Some cat'"
    using assms by (auto simp: catalogue_add_def bind_eq_Some_conv Let_def)
  have "df_num_pages cat' = df_num_pages c"
    using c(2) by (auto simp: write_page_def write_pages_def Let_def split: if_splits)
  with read_page_same [OF c(1)] show ?thesis by (simp add: df_same_def)
qed

lemma allocate_pages_catalogue:
  assumes "allocate_pages db ft n log = Some db'"
  shows "df_num_pages (pd_catalogue db') = df_num_pages (pd_catalogue db)"
proof -
  obtain r d c where *: "allocate_header (db\<lparr>pd_records := (pd_records db)(ft := r)\<rparr>) ft (n * (PAGE_SIZE div SLOT_SIZE)) log = Some d"
    "catalogue_add (pd_catalogue d) ft (n * (PAGE_SIZE div SLOT_SIZE)) log = Some c" "db' = d\<lparr>pd_catalogue := c\<rparr>"
    using assms by (auto simp: allocate_pages_def bind_eq_Some_conv Let_def split: if_splits)
  have "pd_catalogue d = pd_catalogue db"
    using *(1) by (auto simp: allocate_header_def bind_eq_Some_conv Let_def split: if_splits)
  with catalogue_add_pages [OF *(2)] *(3) show ?thesis by simp
qed

lemma allocate_pages_names:
  assumes "allocate_pages db ft n log = Some db'"
  shows "pd_names db' = pd_names db"
proof -
  obtain r d c where *: "disk_file_grow (pd_records db ft) n log = Some r"
    "allocate_header (db\<lparr>pd_records := (pd_records db)(ft := r)\<rparr>) ft (n * (PAGE_SIZE div SLOT_SIZE)) log = Some d"
    "catalogue_add (pd_catalogue d) ft (n * (PAGE_SIZE div SLOT_SIZE)) log = Some c" "db' = d\<lparr>pd_catalogue := c\<rparr>"
    using assms by (auto simp: allocate_pages_def bind_eq_Some_conv Let_def split: if_splits)
  have "pd_names d = pd_names db"
    using *(1,2) by (auto simp: allocate_header_def bind_eq_Some_conv Let_def pd_names_def file_name_kept(3) split: if_splits)
  moreover have "df_file_name c = df_file_name (pd_catalogue d)"
    using *(3) by (auto simp: catalogue_add_def bind_eq_Some_conv Let_def file_name_kept(1,2))
  ultimately show ?thesis using *(4) by (simp add: pd_names_def)
qed

lemma allocate_page_ok:
  assumes b: "books pc" and ft: "ft \<noteq> invalid_ft"
    and room: "pc_pages pc records ft + 1 < MAX_PAGE_NO" "pc_pages pc header ft + 1 < MAX_PAGE_NO"
  shows "\<exists>db'. allocate_pages (pc_pdb pc) ft 1 log = Some db' \<and> pd_inv db' \<and> db_grown (pc_pdb pc) db' \<and>
    df_num_pages (pd_catalogue db') = df_num_pages (pd_catalogue (pc_pdb pc)) \<and>
    df_num_pages (pd_records db' ft) = pc_pages pc records ft + 1 \<and>
    df_num_pages (pd_header db' ft) \<le> pc_pages pc header ft + 1 \<and>
    (\<forall>ft'. ft' \<noteq> ft \<longrightarrow> pd_records db' ft' = pd_records (pc_pdb pc) ft' \<and> pd_header db' ft' = pd_header (pc_pdb pc) ft')"
proof -
  let ?db = "pc_pdb pc"
  have inv: "pd_inv ?db" using b by (simp add: books_def)
  have m: "ft \<in> set file_types" using ft by simp
  obtain db' where d: "allocate_pages ?db ft 1 log = Some db'" "pd_inv db'"
    "df_num_pages (pd_records db' ft) = df_num_pages (pd_records ?db ft) + 1"
    "grown (pd_records ?db ft) (pd_records db' ft)" "grown (pd_header ?db ft) (pd_header db' ft)"
    "\<forall>ft'. ft' \<noteq> ft \<longrightarrow> pd_records db' ft' = pd_records ?db ft' \<and> pd_header db' ft' = pd_header ?db ft'"
    using allocate_pages_ok [OF inv m, of 1 log] room by (auto simp: pc_pages_def file_of_def)
  have cat: "df_num_pages (pd_catalogue db') = df_num_pages (pd_catalogue ?db)"
    by (rule allocate_pages_catalogue [OF d(1)])
  have "db_grown ?db db'"
    using d(4-6) unfolding db_grown_def by (auto simp: file_of_def split: file_kind.splits; metis grown_refl)
  moreover have "df_num_pages (pd_header db' ft) \<le> df_num_pages (pd_header ?db ft) + 1"
    using header_growth pd_invD(6,8) [OF inv m] pd_invD(6,8) [OF d(2) m] d(3)
    by (simp add: n_slots_def PAGE_SIZE_def CHAR_BIT_def SLOTS_PER_PAGE_eq)
  ultimately show ?thesis using d(1,2,3,6) cat by (intro exI [of _ db']) (simp add: pc_pages_def file_of_def)
qed

text \<open>The store after a page was added to the record file of one type.\<close>

definition store_grown :: "file_type \<Rightarrow> page_cache \<Rightarrow> page_cache \<Rightarrow> bool" where
  "store_grown ft pc pc' \<longleftrightarrow> pc_pages pc' records ft = pc_pages pc records ft + 1 \<and>
     pc_pages pc' header ft \<le> pc_pages pc header ft + 1 \<and>
     (\<forall>fk ft'. valid_file fk ft' \<and> (fk = catalogue \<or> ft' \<noteq> ft) \<longrightarrow> pc_pages pc' fk ft' = pc_pages pc fk ft') \<and>
     pc_bulk_import pc' = pc_bulk_import pc \<and> pc_n_frames pc' = pc_n_frames pc \<and> pd_names (pc_pdb pc') = pd_names (pc_pdb pc) \<and>
     (\<forall>k. db_has pc k \<longrightarrow> db_has pc' k \<and> key_view pc' k = key_view pc k) \<and>
     (\<forall>k. db_has pc' k \<and> \<not> db_has pc k \<longrightarrow> key_view pc' k = (\<lambda>_. 0))"

text \<open>Pages were added to the files, and no other page has changed.\<close>

definition store_ext :: "page_cache \<Rightarrow> page_cache \<Rightarrow> bool" where
  "store_ext pc pc' \<longleftrightarrow> (\<forall>k. db_has pc k \<longrightarrow> db_has pc' k \<and> key_view pc' k = key_view pc k) \<and>
     (\<forall>k. db_has pc' k \<and> \<not> db_has pc k \<longrightarrow> key_view pc' k = (\<lambda>_. 0))"

lemma store_grown_ext: "store_grown ft pc pc' \<Longrightarrow> store_ext pc pc'"
  by (simp add: store_grown_def store_ext_def)

lemma store_ext_pages:
  assumes e: "store_ext pc pc'" and v: "valid_file fk ft" "fk \<noteq> catalogue"
  shows "pc_pages pc fk ft \<le> pc_pages pc' fk ft"
proof (rule ccontr)
  assume "\<not> pc_pages pc fk ft \<le> pc_pages pc' fk ft"
  then have "db_has pc (fk, ft, pc_pages pc' fk ft)" "\<not> db_has pc' (fk, ft, pc_pages pc' fk ft)"
    using v by (simp_all add: db_has_def key_has_def)
  then show False using e by (auto simp: store_ext_def)
qed

lemma new_page_visit:
  assumes rdy: "db_ready (Suc k) pc" and ft: "ft \<noteq> invalid_ft"
    and room: "pc_pages pc records ft + 1 < MAX_PAGE_NO" "pc_pages pc header ft + 1 < MAX_PAGE_NO"
    and fits: "pc_bulk_import pc \<or> all_pages pc + 2 \<le> pc_n_frames pc"
  shows "\<exists>f pc1 p pc2. new_page pc ft log = Some (f, pc1) \<and> frame_at pc1 f = Some p \<and>
    pg_page_no p = pc_pages pc records ft \<and> unpin_page pc1 (pc_pages pc records ft) records ft log = Some pc2 \<and>
    db_ready (Suc k) pc2 \<and> key_pins pc2 = key_pins pc \<and> store_grown ft pc pc2"
proof -
  have r0: "ready (Suc k) pc" "books pc" "nocat pc" using rdy by (simp_all add: db_ready_def books_def)
  obtain db' where d: "allocate_pages (pc_pdb pc) ft 1 log = Some db'" "pd_inv db'" "db_grown (pc_pdb pc) db'"
    "df_num_pages (pd_catalogue db') = df_num_pages (pd_catalogue (pc_pdb pc))"
    "df_num_pages (pd_records db' ft) = pc_pages pc records ft + 1"
    "df_num_pages (pd_header db' ft) \<le> pc_pages pc header ft + 1"
    "\<forall>ft'. ft' \<noteq> ft \<longrightarrow> pd_records db' ft' = pd_records (pc_pdb pc) ft' \<and> pd_header db' ft' = pd_header (pc_pdb pc) ft'"
    using allocate_page_ok [OF r0(2) ft room, of log] by blast
  define pc0 where "pc0 = pc\<lparr>pc_pdb := db'\<rparr>"
  note files = pd_inv_files_ok [OF d(2)]
  note g = grown_files [OF ready_inv [OF r0(1)] r0(3) files d(3) pc0_def]
  have pages: "pc_pages pc0 catalogue node_ft = pc_pages pc catalogue node_ft"
    "pc_pages pc0 records ft = pc_pages pc records ft + 1" "pc_pages pc0 header ft \<le> pc_pages pc header ft + 1"
    "\<And>fk ft'. fk \<noteq> catalogue \<Longrightarrow> ft' \<noteq> ft \<Longrightarrow> pc_pages pc0 fk ft' = pc_pages pc fk ft'"
    using d(4-7) by (auto simp: pc_pages_def pc0_def file_of_def split: file_kind.splits)
  have "all_pages pc0 \<le> all_pages pc + 2"
    using pages ft by (cases ft) (simp_all add: all_pages_def)
  then have rd0: "ready (Suc k) pc0"
    using ready_grown [OF r0(1,3) files d(3)] fits unfolding pc0_def by auto
  have rdy0: "db_ready (Suc k) pc0"
    using rd0 d(2) r0(3) by (simp add: db_ready_def books_def nocat_def pc0_def)
  let ?n = "pc_pages pc records ft" let ?k = "(records, ft, ?n)"
  have h: "db_has pc0 ?k" using pages(2) ft by (simp add: db_has_def key_has_def valid_file_def)
  have no: "key_pins pc ?k = 0"
    using pinned_has [OF ready_inv [OF r0(1)], of ?k] by (auto simp: key_has_def)
  obtain f pc1 where p1: "key_pin log pc0 ?k = Some (f, pc1)" "db_ready k pc1" "db_has pc1 = db_has pc0"
    using db.pin_total [OF rdy0 h] by blast
  have i0: "pc_inv pc0" and i1: "pc_inv pc1" using rdy0 p1(2) by (simp_all add: db_ready_def ready_def)
  have l1: "key_view pc1 = key_view pc0" "key_pins pc1 = (key_pins pc0)(?k := key_pins pc0 ?k + 1)" "key_frame pc1 ?k = Some f"
    using cache.pin_law [OF i0 p1(1)] by simp_all
  have run1: "pin_page pc0 ?n records ft log = Some (f, pc1)" using p1(1) by (simp add: key_pin_def)
  have new: "new_page pc ft log = Some (f, pc1)"
    using d(1,5) run1 by (simp add: new_page_def pc0_def)
  have look: "pc_lookup pc1 records ft ?n = Some f" "valid_file records ft"
    using l1(3) by (auto simp: key_frame_def split: if_splits)
  then have fr: "f < length (pc_frames pc1)" "pg_page_no (pc_frames pc1 ! f) = ?n"
    using pc_invD(4) [OF i1 look(2)] by (auto simp: frame_key_def)
  obtain pc2 where p2: "key_unpin log pc1 ?k = Some pc2" "db_ready (Suc k) pc2" "db_has pc2 = db_has pc1"
    using db.unpin_total [OF p1(2), of ?k log] h p1(3) l1(2) g(2) no by auto
  have l2: "key_view pc2 = key_view pc1" "key_pins pc2 = (key_pins pc1)(?k := key_pins pc1 ?k - 1)"
    using cache.unpin_law [OF i1 p2(1)] by simp_all
  have run2: "unpin_page pc1 ?n records ft log = Some pc2" using p2(1) by (simp add: key_unpin_def)
  note s1 = pin_page_step [OF i0 run1] and s2 = unpin_page_step [OF i1 run2]
  have pg: "pc_pages pc2 fk ft' = pc_pages pc0 fk ft'" if "valid_file fk ft'" for fk ft'
    using s1 s2 that by (simp add: pin_spec_def unpin_spec_def)
  have v: "valid_file header ft" "valid_file records ft" using ft by (simp_all add: valid_file_def)
  have names: "pd_names (pc_pdb pc2) = pd_names (pc_pdb pc)"
    using pin_page_quiet [OF run1] unpin_page_quiet [OF run2] allocate_pages_names [OF d(1)]
    by (simp add: quiet_def pd_sig_def pc0_def)
  have "store_grown ft pc pc2"
    unfolding store_grown_def
  proof (intro conjI allI impI)
    fix fk ft' assume a: "valid_file fk ft' \<and> (fk = catalogue \<or> ft' \<noteq> ft)"
    then show "pc_pages pc2 fk ft' = pc_pages pc fk ft'"
      using pg [of fk ft'] pages(1,4) by (cases "fk = catalogue") (auto simp: valid_file_def)
  next
    fix k assume "db_has pc k"
    then show "db_has pc2 k" "key_view pc2 k = key_view pc k" using g(3) p1(3) p2(3) l1(1) l2(1) by auto
  next
    fix k assume "db_has pc2 k \<and> \<not> db_has pc k"
    then show "key_view pc2 k = (\<lambda>_. 0)" using g(4) p1(3) p2(3) l1(1) l2(1) by auto
  qed (use pg v pages s1 s2 names in \<open>simp_all add: pin_spec_def unpin_spec_def pc0_def\<close>)
  moreover have "key_pins pc2 = key_pins pc" using l2(2) l1(2) g(2) by (auto simp: fun_eq_iff)
  ultimately show ?thesis using new fr run2 p2(2) by auto
qed

end
