(* ===== verification/Header_Page.thy ===== *)
theory Header_Page
  imports Page_Store
begin

text \<open>
  The bits of the header pages, \<^verbatim>\<open>src/access/header_page.c\<close>. A header file has one bit for
  every slot of the record file, most significant bit of a byte first. Arrays of
  \<^verbatim>\<open>unsigned char\<close> are lists of bytes; an access outside of the array has no result. Shifts of the
  promoted values are cut to eight bits when they are assigned.
\<close>

unbundle bit_operations_syntax

section \<open>The operations\<close>

text \<open>The loops of \<^verbatim>\<open>shift_bit_array\<close>: to the right from the first byte, to the left from the last.\<close>

fun shift_right_loop :: "nat \<Rightarrow> byte \<Rightarrow> byte list \<Rightarrow> byte list" where
  "shift_right_loop n carry [] = []"
| "shift_right_loop n carry (b # bs) =
     (push_bit (CHAR_BIT - n) carry OR drop_bit n b) #
     shift_right_loop n (b AND drop_bit (CHAR_BIT - n) (-1)) bs"

fun shift_left_loop :: "nat \<Rightarrow> byte list \<Rightarrow> byte \<times> byte list" where
  "shift_left_loop n [] = (0, [])"
| "shift_left_loop n (b # bs) =
    (let (carry, bs) = shift_left_loop n bs
     in (b AND push_bit (CHAR_BIT - n) (-1), (drop_bit (CHAR_BIT - n) carry OR push_bit n b) # bs))"

definition bits_bytes :: "nat \<Rightarrow> nat" where
  "bits_bytes n = n div CHAR_BIT + (if n mod CHAR_BIT \<noteq> 0 then 1 else 0)"

text \<open>\<^verbatim>\<open>shift_bit_array\<close>: a negative amount means left, a positive one right.\<close>

definition shift_bit_array :: "byte list \<Rightarrow> nat \<Rightarrow> int \<Rightarrow> byte list option" where
  "shift_bit_array ar size_ar n_bits =
    (if nat \<bar>n_bits\<bar> > size_ar \<or> nat \<bar>n_bits\<bar> > CHAR_BIT then None
     else if n_bits = 0 then Some ar
     else if bits_bytes size_ar > length ar then None
     else
       let front = take (bits_bytes size_ar) ar; rest = drop (bits_bytes size_ar) ar in
       if n_bits > 0 then Some (shift_right_loop (nat n_bits) 0 front @ rest)
       else Some (snd (shift_left_loop (nat (- n_bits)) front) @ rest))"

text \<open>
  \<^verbatim>\<open>compare_bits\<close>; the array is the data of a page. The sum in the guard is one of \<^verbatim>\<open>size_t\<close>
  values and wraps around; bits outside of the array that pass the guard for this reason are read
  from memory outside of the array, which has no result.
\<close>

definition compare_bits :: "buffer \<Rightarrow> nat \<Rightarrow> byte \<Rightarrow> nat \<Rightarrow> nat \<Rightarrow> bool option" where
  "compare_bits ar size_ar msk offset n_bits =
    (if (offset + n_bits) mod ULONG_RANGE > size_ar \<or> n_bits > CHAR_BIT then None
     else if offset + n_bits > size_ar then None
     else
       let start_byte = offset div CHAR_BIT;
           bit_offset = offset mod CHAR_BIT;
           msk = msk AND drop_bit (CHAR_BIT - n_bits) (-1) in
       if bit_offset = 0 \<or> bit_offset + n_bits \<le> CHAR_BIT then do {
         m \<leftarrow> shift_bit_array [msk] CHAR_BIT (- int (CHAR_BIT - n_bits) + int bit_offset);
         let data_mask = push_bit (CHAR_BIT - (n_bits + bit_offset)) (-1) AND drop_bit bit_offset (-1);
         Some (ar start_byte AND data_mask = hd m) }
       else do {
         let upper_mask = drop_bit bit_offset (-1);
         let lower_mask = push_bit (CHAR_BIT - n_bits + CHAR_BIT - bit_offset) (-1);
         r \<leftarrow> shift_bit_array [ar start_byte AND upper_mask, ar (start_byte + 1) AND lower_mask]
           (2 * CHAR_BIT) (int CHAR_BIT - int bit_offset - int n_bits);
         Some (hd r = msk) })"

text \<open>
  \<^verbatim>\<open>concat_bit_arrays\<close>. The shifts by \<^verbatim>\<open>n_bits_snd\<close> are shifts of an \<^verbatim>\<open>int\<close>, which have no
  result from 32 on.
\<close>

definition concat_bit_arrays :: "byte list \<Rightarrow> byte list \<Rightarrow> nat \<Rightarrow> nat \<Rightarrow> byte list option" where
  "concat_bit_arrays first second n_bits_fst n_bits_snd =
    (if n_bits_fst > LONG_MAX \<or> n_bits_snd > LONG_MAX then None
     else do {
       let result_size = bits_bytes (n_bits_fst + n_bits_snd);
       let first_size = bits_bytes n_bits_fst;
       let first = take result_size (take first_size first @ replicate (result_size - first_size) 0);
       first \<leftarrow> shift_bit_array first n_bits_fst
         (int (result_size * CHAR_BIT) - int n_bits_fst - int n_bits_snd);
       first \<leftarrow> (if n_bits_fst mod CHAR_BIT \<noteq> 0 then
           if n_bits_snd \<ge> 32 \<or> first_size - 1 \<ge> length first \<or> second = [] then None
           else Some (first[first_size - 1 := (first ! (first_size - 1) AND push_bit n_bits_snd (-1))
             OR (hd second AND drop_bit n_bits_snd (-1))])
         else Some first);
       if length first < result_size \<or> length second < result_size - first_size then None
       else Some (take first_size first @ take (result_size - first_size) second) })"

text \<open>\<^verbatim>\<open>split_bit_array\<close>: the array with the first bits and the one with the others.\<close>

definition split_bit_array :: "byte list \<Rightarrow> nat \<Rightarrow> nat \<Rightarrow> (byte list \<times> byte list) option" where
  "split_bit_array ar size_ar split_at_bit =
    (if bits_bytes split_at_bit > size_ar then None
     else do {
       let first_size = bits_bytes split_at_bit;
       let second_size = size_ar div CHAR_BIT + (if split_at_bit mod CHAR_BIT \<noteq> 0 then 1 else 0) - first_size;
       if first_size > size_ar div CHAR_BIT + (if split_at_bit mod CHAR_BIT \<noteq> 0 then 1 else 0)
         \<or> second_size = 0 \<or> split_at_bit div CHAR_BIT + second_size > length ar then None
       else do {
         let second = take second_size (drop (split_at_bit div CHAR_BIT) ar);
         let second = second[0 := hd second AND drop_bit (split_at_bit mod CHAR_BIT) (-1)];
         ar \<leftarrow> shift_bit_array ar size_ar (int (split_at_bit mod CHAR_BIT));
         Some (take first_size ar, second) } })"

text \<open>The bytes of a page from an offset on; reading past the end of the page has no result.\<close>

definition page_bytes :: "page \<Rightarrow> nat \<Rightarrow> nat \<Rightarrow> byte list option" where
  "page_bytes p off n = (if off + n > PAGE_SIZE then None else Some (map (\<lambda>i. pg_data p (off + i)) [0..<n]))"

text \<open>
  The part of \<^verbatim>\<open>read_bits\<close> that works on the bytes of one page. The bytes are shifted to the right
  with a carry; the first one is dropped when the result has fewer bytes.
\<close>

definition read_bits_in_page :: "page \<Rightarrow> nat \<Rightarrow> nat \<Rightarrow> nat \<Rightarrow> byte list option" where
  "read_bits_in_page p byte_offset_in_page bit_offset_in_byte n_bits = do {
     let n_bytes_result = bits_bytes n_bits;
     let n_bytes_read = bits_bytes (bit_offset_in_byte + n_bits);
     let shift = n_bytes_read * CHAR_BIT - (n_bits + bit_offset_in_byte);
     bs \<leftarrow> page_bytes p byte_offset_in_page n_bytes_read;
     if n_bytes_result = 0 \<or> bs = [] then None
     else do {
       let fst_byte = hd bs AND drop_bit bit_offset_in_byte (-1);
       let rest = shift_right_loop shift (fst_byte AND drop_bit (CHAR_BIT - shift) (-1)) (tl bs);
       Some (if n_bytes_read > n_bytes_result then rest else fst_byte # rest) } }"

text \<open>
  \<^verbatim>\<open>read_bits\<close> on the page in frame \<open>f\<close>. When the bits go on in the next page, that page is
  pinned, the rest is read there, and the parts are concatenated.
\<close>

function read_bits :: "page_cache \<Rightarrow> nat \<Rightarrow> nat \<Rightarrow> nat \<Rightarrow> nat \<Rightarrow> bool \<Rightarrow> (byte list \<times> page_cache) option" where
  "read_bits pc f byte_offset_in_page bit_offset_in_byte n_bits log =
    (if bit_offset_in_byte > CHAR_BIT - 1 \<or> byte_offset_in_page > PAGE_SIZE - 1
        \<or> n_bits > PAGE_SIZE * CHAR_BIT - 1 then None
     else do {
       p \<leftarrow> frame_at pc f;
       let n_bytes_read = bits_bytes (bit_offset_in_byte + n_bits);
       if byte_offset_in_page + n_bytes_read > PAGE_SIZE then do {
         let bits_to_page_boundary = (PAGE_SIZE - byte_offset_in_page) * CHAR_BIT - bit_offset_in_byte;
         let n_bits_split_read = n_bits - bits_to_page_boundary;
         (g, pc) \<leftarrow> pin_page pc (pg_page_no p + 1) (pg_fk p) (pg_ft p) log;
         (second_part, pc) \<leftarrow> read_bits pc g 0 0 n_bits_split_read log;
         pc \<leftarrow> unpin_page pc (pg_page_no p + 1) (pg_fk p) (pg_ft p) log;
         p \<leftarrow> frame_at pc f;
         result \<leftarrow> read_bits_in_page p byte_offset_in_page bit_offset_in_byte bits_to_page_boundary;
         result \<leftarrow> concat_bit_arrays result second_part (bits_bytes bits_to_page_boundary * CHAR_BIT)
           (bits_bytes n_bits_split_read * CHAR_BIT);
         Some (result, pc) }
       else do {
         result \<leftarrow> read_bits_in_page p byte_offset_in_page bit_offset_in_byte n_bits;
         Some (result, pc) } })"
  by pat_completeness auto

termination
proof (relation "measure (\<lambda>(pc, f, bo, bi, n, log). n)", goal_cases)
  case (2 pc f bo bi n log)
  then show ?case by (auto simp: bits_bytes_def PAGE_SIZE_def CHAR_BIT_def split: if_splits)
qed simp

text \<open>
  The part of \<^verbatim>\<open>write_bits\<close> that works on one page: the data is aligned with the bits of the
  page, and a mask keeps the bits of the page around them.
\<close>

definition write_mask :: "nat \<Rightarrow> nat \<Rightarrow> byte list" where
  "write_mask bit_offset_in_byte n_bits =
    (let n_bytes_write = bits_bytes (bit_offset_in_byte + n_bits);
         msk = (replicate n_bytes_write 0)[0 := push_bit (CHAR_BIT - bit_offset_in_byte) (-1)] in
     if (n_bits + bit_offset_in_byte) mod CHAR_BIT \<noteq> 0 then
       msk[n_bytes_write - 1 := msk ! (n_bytes_write - 1) OR drop_bit (n_bits mod CHAR_BIT + bit_offset_in_byte) (-1)]
     else msk)"

definition write_bits_in_page :: "page \<Rightarrow> nat \<Rightarrow> nat \<Rightarrow> nat \<Rightarrow> byte list \<Rightarrow> page option" where
  "write_bits_in_page p byte_offset_in_page bit_offset_in_byte n_bits data = do {
     let n_bytes_write = bits_bytes (bit_offset_in_byte + n_bits);
     let n_bytes_data = bits_bytes n_bits;
     if data = [] \<or> length data < n_bytes_data then None
     else do {
       let data = data[0 := hd data AND drop_bit (n_bytes_data * CHAR_BIT - n_bits) (-1)];
       let shifted_data = (if n_bytes_data < n_bytes_write
         then take n_bytes_data data @ replicate (n_bytes_write - n_bytes_data) 0 else data);
       shifted_data \<leftarrow> shift_bit_array shifted_data (n_bytes_write * CHAR_BIT)
         (- int (n_bytes_data * CHAR_BIT - n_bits) + int bit_offset_in_byte);
       if n_bytes_write = 0 \<or> byte_offset_in_page + n_bytes_write > PAGE_SIZE
         \<or> length shifted_data < n_bytes_write then None
       else
         let msk = write_mask bit_offset_in_byte n_bits in
         Some (p\<lparr>pg_data := (\<lambda>j. if byte_offset_in_page \<le> j \<and> j < byte_offset_in_page + n_bytes_write
             then (pg_data p j AND msk ! (j - byte_offset_in_page)) OR shifted_data ! (j - byte_offset_in_page)
             else pg_data p j), pg_dirty := True\<rparr>) } }"

text \<open>\<^verbatim>\<open>write_bits\<close> on the page in frame \<open>f\<close>; the array \<open>data\<close> is consumed.\<close>

function write_bits :: "page_cache \<Rightarrow> nat \<Rightarrow> nat \<Rightarrow> nat \<Rightarrow> nat \<Rightarrow> byte list \<Rightarrow> bool \<Rightarrow> page_cache option" where
  "write_bits pc f byte_offset_in_page bit_offset_in_byte n_bits data log =
    (if bit_offset_in_byte > CHAR_BIT - 1 \<or> byte_offset_in_page > PAGE_SIZE - 1
        \<or> n_bits > PAGE_SIZE * CHAR_BIT - 1 \<or> n_bits < 1 then None
     else do {
       p \<leftarrow> frame_at pc f;
       if byte_offset_in_page + bits_bytes (bit_offset_in_byte + n_bits) > PAGE_SIZE then do {
         let bits_to_page_boundary = (PAGE_SIZE - byte_offset_in_page) * CHAR_BIT - bit_offset_in_byte;
         let n_bits_split_write = n_bits - bits_to_page_boundary;
         (fst_data, snd_data) \<leftarrow> split_bit_array data (bits_bytes n_bits * CHAR_BIT) n_bits_split_write;
         (g, pc) \<leftarrow> pin_page pc (pg_page_no p + 1) (pg_fk p) (pg_ft p) log;
         pc \<leftarrow> write_bits pc g 0 0 n_bits_split_write snd_data log;
         pc \<leftarrow> unpin_page pc (pg_page_no p + 1) (pg_fk p) (pg_ft p) log;
         p \<leftarrow> frame_at pc f;
         p \<leftarrow> write_bits_in_page p byte_offset_in_page bit_offset_in_byte bits_to_page_boundary fst_data;
         Some (set_frame pc f p) }
       else do {
         p \<leftarrow> write_bits_in_page p byte_offset_in_page bit_offset_in_byte n_bits data;
         Some (set_frame pc f p) } })"
  by pat_completeness auto

termination
proof (relation "measure (\<lambda>(pc, f, bo, bi, n, d, log). n)", goal_cases)
  case (2 pc f bo bi n log)
  then show ?case by (auto simp: bits_bytes_def PAGE_SIZE_def CHAR_BIT_def split: if_splits)
qed simp

declare read_bits.simps [simp del] write_bits.simps [simp del]

section \<open>Bits of a page\<close>

text \<open>The \<open>i\<close>-th bit of a page, the most significant bit of a byte first.\<close>

definition hbit :: "buffer \<Rightarrow> nat \<Rightarrow> bool" where
  "hbit b i = bit (b (i div CHAR_BIT)) (CHAR_BIT - 1 - i mod CHAR_BIT)"

lemma hbit_page_of [simp]: "i < PAGE_SIZE * CHAR_BIT \<Longrightarrow> hbit (page_of b) i = hbit b i"
  by (simp add: hbit_def CHAR_BIT_def div_less_iff_less_mult)

lemma div_mod_within:
  assumes "m mod d + i < (d :: nat)"
  shows "(m + i) div d = m div d" "(m + i) mod d = m mod d + i"
proof -
  have *: "m + i = (m mod d + i) + m div d * d" by simp
  have "0 < d" using assms by simp
  then have "((m mod d + i) + m div d * d) div d = m div d + (m mod d + i) div d" by (simp only: div_mult_self1 neq0_conv)
  then show "(m + i) div d = m div d" unfolding * [symmetric] using assms by simp
  have "((m mod d + i) + m div d * d) mod d = (m mod d + i) mod d" by (rule mod_mult_self1)
  then show "(m + i) mod d = m mod d + i" unfolding * [symmetric] using assms by simp
qed

lemma byte_eqI: "(\<And>j. j < 8 \<Longrightarrow> bit a j \<longleftrightarrow> bit b j) \<Longrightarrow> (a :: byte) = b"
  by (rule bit_eqI) (simp add: possible_bit_word)

lemma byte_eq_iff: "(a :: byte) = b \<longleftrightarrow> (\<forall>j < 8. bit a j \<longleftrightarrow> bit b j)"
  by (auto intro: byte_eqI)

lemma bit_byte_less: "bit (w :: byte) j \<Longrightarrow> j < 8"
  using bit_imp_le_length [of w j] by simp

text \<open>\<^verbatim>\<open>compare_bits\<close> compares the bits of the page with the low bits of the mask.\<close>

lemma hbit_at: "q < 8 \<Longrightarrow> hbit ar (8 * m + q) = bit (ar m) (7 - q)"
  by (simp add: hbit_def CHAR_BIT_def)

lemma all_bits_rev:
  assumes "\<And>j. j < n \<Longrightarrow> hbit ar (offset + (n - 1 - j)) = A j"
  shows "(\<forall>i < n. hbit ar (offset + i) \<longleftrightarrow> bit msk (n - 1 - i)) \<longleftrightarrow> (\<forall>j < n. A j \<longleftrightarrow> bit msk j)"
proof (rule iffI; intro allI impI)
  fix j assume *: "\<forall>i < n. hbit ar (offset + i) \<longleftrightarrow> bit msk (n - 1 - i)" "j < n"
  moreover have "n - 1 - j < n" "n - 1 - (n - 1 - j) = j" using *(2) by simp_all
  ultimately show "A j \<longleftrightarrow> bit msk j" using assms by metis
next
  fix i assume *: "\<forall>j < n. A j \<longleftrightarrow> bit msk j" "i < n"
  moreover have "n - 1 - i < n" "n - 1 - (n - 1 - i) = i" using *(2) by simp_all
  ultimately show "hbit ar (offset + i) \<longleftrightarrow> bit msk (n - 1 - i)" using assms by metis
qed

lemma shift_one_left:
  "s \<le> 8 \<Longrightarrow> shift_bit_array [b] CHAR_BIT (- int s) = Some [push_bit s b]"
  by (auto simp: shift_bit_array_def CHAR_BIT_def bits_bytes_def)

lemma shift_two_left:
  "0 < s \<Longrightarrow> s < 8 \<Longrightarrow> shift_bit_array [a, b] (2 * CHAR_BIT) (- int s) =
     Some [drop_bit (8 - s) (b AND push_bit (8 - s) (-1)) OR push_bit s a, push_bit s b]"
  by (auto simp: shift_bit_array_def CHAR_BIT_def bits_bytes_def numeral_2_eq_2)

lemma wrapped_sum_le: "(a :: nat) \<le> b \<Longrightarrow> a mod m \<le> b"
  using mod_less_eq_dividend [of a m] by linarith

lemma compare_bits_one_byte:
  assumes "offset + n \<le> size_ar" "offset mod 8 + n \<le> 8"
  shows "compare_bits ar size_ar msk offset n = Some (\<forall>i < n. hbit ar (offset + i) \<longleftrightarrow> bit msk (n - 1 - i))"
proof -
  define r where "r = offset mod 8"
  define a where "a = ar (offset div 8)"
  have rn: "r + n \<le> 8" using assms(2) by (simp add: r_def)
  define k where "k = 8 - (n + r)"
  have k: "k + n + r = 8" "8 - (n + r) = k" using rn by (auto simp: k_def)
  have amount: "int n + int r - 8 = - int k" using k(1) by simp
  have "compare_bits ar size_ar msk offset n =
      Some (a AND (push_bit k (-1) AND drop_bit r (-1)) = push_bit k (msk AND drop_bit (8 - n) (-1)))"
    using assms rn k(2) wrapped_sum_le [OF assms(1), of ULONG_RANGE]
      shift_one_left [of k "msk AND drop_bit (8 - n) (-1)"]
    by (simp add: compare_bits_def CHAR_BIT_def r_def [symmetric] a_def [symmetric] algebra_simps amount)
  moreover have "(a AND (push_bit k (-1) AND drop_bit r (-1)) = push_bit k (msk AND drop_bit (8 - n) (-1))) \<longleftrightarrow>
      (\<forall>j < n. bit a (k + j) \<longleftrightarrow> bit msk j)"
  proof -
    have "(a AND (push_bit k (-1) AND drop_bit r (-1)) = push_bit k (msk AND drop_bit (8 - n) (-1))) \<longleftrightarrow>
        (\<forall>j < 8. k \<le> j \<and> j < k + n \<longrightarrow> (bit a j \<longleftrightarrow> bit msk (j - k)))"
      unfolding byte_eq_iff using k(1) by (auto simp: bit_simps)
    also have "\<dots> \<longleftrightarrow> (\<forall>j < n. bit a (k + j) \<longleftrightarrow> bit msk j)"
    proof (rule iffI; intro allI impI)
      fix j assume *: "\<forall>j < 8. k \<le> j \<and> j < k + n \<longrightarrow> (bit a j \<longleftrightarrow> bit msk (j - k))" "j < n"
      from *(1) [THEN spec, of "k + j"] *(2) k(1) show "bit a (k + j) \<longleftrightarrow> bit msk j" by simp
    next
      fix j assume *: "\<forall>j < n. bit a (k + j) \<longleftrightarrow> bit msk j" "j < 8" "k \<le> j \<and> j < k + n"
      from *(1) [THEN spec, of "j - k"] *(3) show "bit a j \<longleftrightarrow> bit msk (j - k)" by (simp add: less_diff_conv2)
    qed
    finally show ?thesis .
  qed
  moreover have "hbit ar (offset + (n - 1 - j)) = bit a (k + j)" if j: "j < n" for j
  proof -
    have "offset + (n - 1 - j) = 8 * (offset div 8) + (7 - (k + j))"
      using j k(1) mult_div_mod_eq [of 8 offset] unfolding r_def by linarith
    moreover have "7 - (7 - (k + j)) = k + j" "7 - (k + j) < 8" using j k(1) by linarith+
    ultimately show ?thesis by (simp only: hbit_at a_def)
  qed
  ultimately show ?thesis using all_bits_rev [of n ar offset "\<lambda>j. bit a (k + j)" msk] by simp
qed

lemma compare_bits_two_bytes:
  assumes "offset + n \<le> size_ar" "8 < offset mod 8 + n" "n \<le> 8"
  shows "compare_bits ar size_ar msk offset n = Some (\<forall>i < n. hbit ar (offset + i) \<longleftrightarrow> bit msk (n - 1 - i))"
proof -
  define r where "r = offset mod 8"
  define w where "w = r + n - 8"
  define m where "m = offset div 8"
  have off: "offset = 8 * m + r" by (simp add: m_def r_def)
  define a b where "a = ar (offset div 8)" and "b = ar (offset div 8 + 1)"
  have k: "r + n = w + 8" "0 < w" "w < 8" "r < 8" "w < n" "16 - n - r = 8 - w" "r \<noteq> 0"
    using assms(2,3) mod_less_divisor [of 8 offset] by (auto simp: w_def r_def)
  let ?res = "drop_bit (8 - w) ((b AND push_bit (8 - w) (-1)) AND push_bit (8 - w) (-1)) OR push_bit w (a AND drop_bit r (-1))"
  have amount: "8 - int r - int n = - int w" using k(1) by simp
  have sh: "shift_bit_array [a AND drop_bit r (-1), b AND push_bit (8 - w) (-1)] (2 * CHAR_BIT) (- int w) =
      Some [?res, push_bit w (b AND push_bit (8 - w) (-1))]"
    by (rule shift_two_left [OF k(2,3)])
  have low: "8 - n + 8 - r = 8 - w" using k assms(3) by simp
  have "compare_bits ar size_ar msk offset n = Some (?res = msk AND drop_bit (8 - n) (-1))"
  proof -
    have g: "\<not> ((offset + n) mod ULONG_RANGE > size_ar \<or> n > 8)" "\<not> (r = 0 \<or> r + n \<le> 8)"
        "\<not> offset + n > size_ar"
      using assms k(7) wrapped_sum_le [OF assms(1), of ULONG_RANGE] by (auto simp: r_def)
    have sh': "shift_bit_array [a AND drop_bit r (-1), b AND push_bit (8 - w) (-1)] (2 * 8) (- int w) =
        Some [?res, push_bit w (b AND push_bit (8 - w) (-1))]" using sh by (simp only: CHAR_BIT_def)
    show ?thesis
      unfolding compare_bits_def Let_def CHAR_BIT_def r_def [symmetric] if_not_P [OF g(1)] if_not_P [OF g(2)]
        if_not_P [OF g(3)] of_nat_numeral amount low a_def [symmetric] b_def [symmetric] sh' Option.bind.simps list.sel by (rule refl)
  qed
  moreover have "(?res = msk AND drop_bit (8 - n) (-1)) \<longleftrightarrow>
      (\<forall>j < n. (if j < w then bit b (8 - w + j) else bit a (j - w)) \<longleftrightarrow> bit msk j)"
  proof -
    have res: "bit ?res j = (if j < w then bit b (8 - w + j) else j < n \<and> bit a (j - w))" if "j < 8" for j
    proof (cases "j < w")
      case True
      moreover have "8 + j - w < 8" "\<not> 8 + j - w < 8 - w" using True k(3) by linarith+
      ultimately show ?thesis using k(2,3) that by (simp add: bit_simps)
    next
      case False
      moreover have "j - w < 8 - r \<longleftrightarrow> j < n" using False k(1,4) by linarith
      moreover have "\<not> 8 - w + j < 8" using False that by linarith
      moreover have "j - w < 8" using that by simp
      ultimately show ?thesis using that by (auto simp: bit_simps)
    qed
    have low: "bit (msk AND drop_bit (8 - n) (-1)) j = (bit msk j \<and> j < n)" for j
      using assms(3) by (auto simp: bit_simps)
    have "(?res = msk AND drop_bit (8 - n) (-1)) \<longleftrightarrow>
        (\<forall>j < 8. (if j < w then bit b (8 - w + j) else j < n \<and> bit a (j - w)) = (bit msk j \<and> j < n))"
      unfolding byte_eq_iff by (intro all_cong1 imp_cong refl) (simp only: res low)
    also have "\<dots> \<longleftrightarrow> (\<forall>j < n. (if j < w then bit b (8 - w + j) else bit a (j - w)) \<longleftrightarrow> bit msk j)"
    proof (rule iffI; intro allI impI)
      fix j assume *: "\<forall>j < 8. (if j < w then bit b (8 - w + j) else j < n \<and> bit a (j - w)) = (bit msk j \<and> j < n)" "j < n"
      from *(1) [THEN spec, of j] *(2) assms(3) show "(if j < w then bit b (8 - w + j) else bit a (j - w)) \<longleftrightarrow> bit msk j" by (cases "j < w") simp_all
    next
      fix j :: nat assume *: "\<forall>j < n. (if j < w then bit b (8 - w + j) else bit a (j - w)) \<longleftrightarrow> bit msk j" "j < 8"
      from *(1) [THEN spec, of j] k(5)
      show "(if j < w then bit b (8 - w + j) else j < n \<and> bit a (j - w)) = (bit msk j \<and> j < n)" by auto
    qed
    finally show ?thesis .
  qed
  moreover have "hbit ar (offset + (n - 1 - j)) = (if j < w then bit b (8 - w + j) else bit a (j - w))" if j: "j < n" for j
  proof (cases "j < w")
    case True
    obtain x where x: "w = Suc (j + x)" using less_imp_Suc_add [OF True] by blast
    then have "r + n = Suc (j + (x + 8))" using k(1) by simp
    then have "r + (n - 1 - j) = x + 8" using j by simp
    then have "offset + (n - 1 - j) = 8 * (m + 1) + (w - 1 - j)" using off x by simp
    moreover have "7 - (w - 1 - j) = 8 - w + j" using True k(3) by linarith
    moreover have "w - 1 - j < 8" using k(3) by simp
    ultimately show ?thesis using True by (simp only: hbit_at b_def m_def if_True)
  next
    case False
    have "offset + (n - 1 - j) = 8 * m + (r + (n - 1 - j))" using off by linarith
    moreover have "7 - (r + (n - 1 - j)) = j - w" "r + (n - 1 - j) < 8" using False j k(1) by linarith+
    ultimately show ?thesis using False by (simp only: hbit_at a_def m_def if_False)
  qed
  ultimately show ?thesis using all_bits_rev [of n ar offset "\<lambda>j. if j < w then bit b (8 - w + j) else bit a (j - w)" msk]
    by simp
qed

text \<open>
  Writing bits that lie in one byte: they are replaced by the low bits of the data, and all other
  bits of the page are kept.
\<close>

lemma bits_bytes_one: "0 < n \<Longrightarrow> n \<le> 8 \<Longrightarrow> bits_bytes n = 1"
  by (cases "n = 8") (auto simp: bits_bytes_def CHAR_BIT_def)

lemma write_bits_in_page_one_byte:
  assumes n: "0 < n" "bi + n \<le> 8" and bo: "bo < PAGE_SIZE"
  shows "write_bits_in_page p bo bi n [v] = Some (p\<lparr>pg_data := (pg_data p)(bo :=
      (pg_data p bo AND (push_bit (8 - bi) (-1) OR (if bi + n = 8 then 0 else drop_bit (n + bi) (-1)))) OR
      push_bit (8 - (bi + n)) (v AND drop_bit (8 - n) (-1))), pg_dirty := True\<rparr>)"
proof -
  have one: "bits_bytes (bi + n) = 1" "bits_bytes n = 1" using n by (simp_all add: bits_bytes_one)
  have sh: "shift_bit_array [v AND mask n] 8 (int n - 8 + int bi) = Some [push_bit (8 - (bi + n)) (v AND mask n)]"
    using shift_one_left [of "8 - (bi + n)" "v AND mask n"] n by (simp add: CHAR_BIT_def algebra_simps)
  have "n mod 8 = (if n = 8 then 0 else n)" "(n + bi) mod 8 = (if n + bi = 8 then 0 else n + bi)" using n by auto
  then have m: "write_mask bi n = [push_bit (8 - bi) (-1) OR (if bi + n = 8 then 0 else drop_bit (n + bi) (-1))]"
    using n one by (auto simp: write_mask_def CHAR_BIT_def Let_def)
  show ?thesis
    using one n bo sh m by (auto simp: write_bits_in_page_def CHAR_BIT_def Let_def fun_eq_iff)
qed

definition set_hbits :: "buffer \<Rightarrow> nat \<Rightarrow> nat \<Rightarrow> byte \<Rightarrow> buffer" where
  "set_hbits b off n v = b(off div 8 :=
      (b (off div 8) AND (push_bit (8 - off mod 8) (-1) OR (if off mod 8 + n = 8 then 0 else drop_bit (n + off mod 8) (-1)))) OR
      push_bit (8 - (off mod 8 + n)) (v AND drop_bit (8 - n) (-1)))"

lemma hbit_set_hbits:
  assumes n: "0 < n" "off mod 8 + n \<le> 8"
  shows "hbit (set_hbits b off n v) i = (if off \<le> i \<and> i < off + n then bit v (n - 1 - (i - off)) else hbit b i)"
proof (cases "i div 8 = off div 8")
  case True
  define r where "r = off mod 8"
  define q where "q = i mod 8"
  have rq: "r + n \<le> 8" "q < 8" "off = 8 * (off div 8) + r" "i = 8 * (off div 8) + q"
    using n True mult_div_mod_eq [of 8 off] mult_div_mod_eq [of 8 i] by (simp_all add: r_def q_def)
  then have between: "off \<le> i \<and> i < off + n \<longleftrightarrow> r \<le> q \<and> q < r + n" "i - off = q - r" by linarith+
  have "n - 1 - (q - r) = 7 - q - (8 - (r + n))" if "r \<le> q" "q < r + n" using that rq(1) by simp
  moreover have "hbit (set_hbits b off n v) i = (if r \<le> q \<and> q < r + n then bit v (7 - q - (8 - (r + n))) else hbit b i)"
    using rq(1,2) n(1) True
    by (auto simp: hbit_def set_hbits_def CHAR_BIT_def r_def [symmetric] q_def [symmetric] bit_simps)
  ultimately show ?thesis using between by simp
next
  case False
  have "\<not> (off \<le> i \<and> i < off + n)"
  proof
    assume "off \<le> i \<and> i < off + n"
    then have "(off + (i - off)) div 8 = off div 8" using n(2) by (intro div_mod_within) linarith
    with False \<open>off \<le> i \<and> i < off + n\<close> show False by simp
  qed
  then show ?thesis using False unfolding hbit_def set_hbits_def CHAR_BIT_def by (simp only: fun_upd_def if_False)
qed

lemma page_of_set_hbits: "off < PAGE_SIZE * 8 \<Longrightarrow> page_of a = b \<Longrightarrow> page_of (set_hbits a off n v) = page_of (set_hbits b off n v)"
  by (rule page_of_eqI) (auto simp: set_hbits_def)

text \<open>The whole operation on the page in a frame, when the bits lie in one byte.\<close>

lemma write_bits_one_byte:
  assumes p: "frame_at pc f = Some p" and n: "0 < n" "off mod 8 + n \<le> 8" and off: "off < PAGE_SIZE * 8"
  shows "write_bits pc f (off div 8) (off mod 8) n [v] log =
    Some (set_frame pc f (p\<lparr>pg_data := set_hbits (pg_data p) off n v, pg_dirty := True\<rparr>))"
proof -
  have bo: "off div 8 < PAGE_SIZE" using off by (simp add: div_less_iff_less_mult)
  have b: "bits_bytes (off mod 8 + n) = 1" using n by (simp add: bits_bytes_one)
  have w: "write_bits_in_page p (off div 8) (off mod 8) n [v] =
      Some (p\<lparr>pg_data := set_hbits (pg_data p) off n v, pg_dirty := True\<rparr>)"
    using write_bits_in_page_one_byte [OF n bo, of p v] by (simp add: set_hbits_def)
  have g: "\<not> (off mod 8 > CHAR_BIT - 1 \<or> off div 8 > PAGE_SIZE - 1 \<or> n > PAGE_SIZE * CHAR_BIT - 1 \<or> n < 1)"
    using n bo by (auto simp: CHAR_BIT_def PAGE_SIZE_def)
  show ?thesis
    unfolding write_bits.simps [of pc f "off div 8"] if_not_P [OF g] p Option.bind.simps b
    using bo w by simp
qed

text \<open>
  Fewer than eight bits that cross into the next byte: the mask of the second byte is empty, as the
  amount it is shifted by is more than eight.
\<close>

lemma write_bits_in_page_two_bytes:
  assumes n: "n < 8" "bi < 8" "8 < bi + n" and bo: "bo + 1 < PAGE_SIZE"
  shows "write_bits_in_page p bo bi n [v] = Some (p\<lparr>pg_data := (pg_data p)(
      bo := (pg_data p bo AND push_bit (8 - bi) (-1)) OR drop_bit (bi + n - 8) (v AND drop_bit (8 - n) (-1)),
      bo + 1 := push_bit (16 - (bi + n)) ((v AND drop_bit (8 - n) (-1)) AND drop_bit (16 - (bi + n)) (-1))),
      pg_dirty := True\<rparr>)"
proof -
  define s where "s = bi + n - 8"
  have s: "bi + n = 8 + s" "0 < s" "s < 8" "16 - (bi + n) = 8 - s" using n by (simp_all add: s_def)
  define w where "w = v AND drop_bit (8 - n) (-1)"
  have bytes: "bits_bytes (bi + n) = 2" "bits_bytes n = 1"
    using n s by (simp_all add: bits_bytes_one, simp add: bits_bytes_def CHAR_BIT_def)
  have amount: "- int (1 * CHAR_BIT - n) + int bi = int s" using n s(1) by (simp add: CHAR_BIT_def)
  have sh: "shift_bit_array [w, 0] (2 * CHAR_BIT) (int s) =
      Some [drop_bit s w, push_bit (8 - s) (w AND drop_bit (8 - s) (-1))]"
    using s(2,3) by (simp add: shift_bit_array_def bits_bytes_def CHAR_BIT_def)
  have z: "drop_bit (n + bi) (-1 :: byte) = 0" using s by (intro byte_eqI) (simp add: bit_simps)
  have m: "write_mask bi n = [push_bit (8 - bi) (-1), 0]"
    unfolding write_mask_def Let_def bytes using n s z by (simp add: CHAR_BIT_def numeral_2_eq_2 add.commute [of n bi])
  have data: "[v][0 := hd [v] AND drop_bit (1 * CHAR_BIT - n) (-1)] = [w]" by (simp add: w_def CHAR_BIT_def)
  have pad: "(if (1::nat) < 2 then take 1 [w] @ replicate (2 - 1) 0 else [w]) = [w, 0]" by simp
  have "write_bits_in_page p bo bi n [v] = Some (p\<lparr>pg_data := (\<lambda>j. if bo \<le> j \<and> j < bo + 2
      then (pg_data p j AND [push_bit (8 - bi) (-1), 0] ! (j - bo)) OR
        [drop_bit s w, push_bit (8 - s) (w AND drop_bit (8 - s) (-1))] ! (j - bo)
      else pg_data p j), pg_dirty := True\<rparr>)"
    unfolding write_bits_in_page_def bytes Let_def data pad amount sh m Option.bind.simps using bo by simp
  moreover have "(\<lambda>j. if bo \<le> j \<and> j < bo + 2 then (pg_data p j AND [x, 0] ! (j - bo)) OR [y, z] ! (j - bo)
      else pg_data p j) = (pg_data p)(bo := (pg_data p bo AND x) OR y, bo + 1 := z)" for x y z
    by (auto simp: fun_eq_iff nth_Cons' less_Suc_eq numeral_2_eq_2)
  ultimately show ?thesis unfolding w_def [symmetric] s(4) s_def [symmetric] by simp
qed

lemma write_bits_two_bytes:
  assumes p: "frame_at pc f = Some p" and n: "n < 8" "8 < off mod 8 + n" and off: "off div 8 + 1 < PAGE_SIZE"
  shows "\<exists>p'. write_bits pc f (off div 8) (off mod 8) n [v] log = Some (set_frame pc f p') \<and>
    (\<forall>i. hbit (pg_data p') i =
       (if off \<le> i \<and> i < off + n then bit v (n - 1 - (i - off))
        else if off + n \<le> i \<and> i < 8 * (off div 8 + 2) then False else hbit (pg_data p) i))"
proof -
  let ?bo = "off div 8" and ?bi = "off mod 8"
  let ?w = "v AND drop_bit (8 - n) (-1) :: byte"
  define d where "d = (pg_data p)(?bo := (pg_data p ?bo AND push_bit (8 - ?bi) (-1)) OR drop_bit (?bi + n - 8) ?w,
      ?bo + 1 := push_bit (16 - (?bi + n)) (?w AND drop_bit (16 - (?bi + n)) (-1)))"
  have b: "bits_bytes (?bi + n) = 2" using n by (auto simp: bits_bytes_def CHAR_BIT_def)
  have g: "\<not> (?bi > CHAR_BIT - 1 \<or> ?bo > PAGE_SIZE - 1 \<or> n > PAGE_SIZE * CHAR_BIT - 1 \<or> n < 1)"
    using n off by (auto simp: CHAR_BIT_def PAGE_SIZE_def)
  have run: "write_bits pc f ?bo ?bi n [v] log = Some (set_frame pc f (p\<lparr>pg_data := d, pg_dirty := True\<rparr>))"
    unfolding write_bits.simps [of pc f ?bo] if_not_P [OF g] p Option.bind.simps b
    using off write_bits_in_page_two_bytes [OF n(1) _ n(2) off, of p v] by (simp add: d_def)
  have "hbit d i = (if off \<le> i \<and> i < off + n then bit v (n - 1 - (i - off))
        else if off + n \<le> i \<and> i < 8 * (?bo + 2) then False else hbit (pg_data p) i)" for i
  proof -
    define m where "m = ?bo"
    define r where "r = ?bi"
    define k where "k = i div 8"
    define q where "q = i mod 8"
    have e: "off = 8 * m + r" "i = 8 * k + q" "r < 8" "q < 8" by (simp_all add: m_def r_def k_def q_def)
    have nr: "n < 8" "8 < r + n" using n by (simp_all add: r_def)
    have h: "hbit b i = bit (b k) (7 - q)" for b by (simp add: hbit_def CHAR_BIT_def k_def q_def)
    consider (one) "k = m" | (two) "k = m + 1" | (other) "k \<noteq> m" "k \<noteq> m + 1" by blast
    then show ?thesis
    proof cases
      case one
      have "n - 1 - (i - off) = 7 - q + (r + n - 8)" if "r \<le> q" using that nr e one by simp
      then show ?thesis
        unfolding h d_def m_def [symmetric] r_def [symmetric] using e nr one by (auto simp: bit_simps)
    next
      case two
      have "n - 1 - (i - off) = 7 - q - (16 - (r + n))" if "q < r + n - 8" using that nr e two by simp
      then show ?thesis
        unfolding h d_def m_def [symmetric] r_def [symmetric] using e nr two by (auto simp: bit_simps)
    next
      case other
      then have "k < m \<or> m + 2 \<le> k" by linarith
      then have "\<not> (off \<le> i \<and> i < 8 * (m + 2))" "\<not> (off \<le> i \<and> i < off + n)" using e nr by auto
      then show ?thesis
        unfolding h d_def m_def [symmetric] r_def [symmetric] using other e nr by auto
    qed
  qed
  then show ?thesis using run by auto
qed

section \<open>Properties\<close>

text \<open>
  C15: \<^verbatim>\<open>compare_bits\<close> is right for every position and up to eight bits, also across a byte boundary:
  it tells whether the given bits of the page, most significant first, are the low bits of the mask. Bits
  outside of the array or more than eight of them end the program.
\<close>
theorem compare_bits_correct:
  "compare_bits ar size_ar msk offset n =
    (if offset + n \<le> size_ar \<and> n \<le> 8
     then Some (map (\<lambda>i. hbit ar (offset + i)) [0..<n] = map (\<lambda>i. bit msk (n - 1 - i)) [0..<n]) else None)"
proof (cases "offset + n \<le> size_ar \<and> n \<le> 8")
  case True
  moreover have "(map (\<lambda>i. hbit ar (offset + i)) [0..<n] = map (\<lambda>i. bit msk (n - 1 - i)) [0..<n]) \<longleftrightarrow>
      (\<forall>i < n. hbit ar (offset + i) \<longleftrightarrow> bit msk (n - 1 - i))"
    by (auto simp: list_eq_iff_nth_eq)
  ultimately show ?thesis
    using compare_bits_one_byte [of offset n size_ar ar msk] compare_bits_two_bytes [of offset n size_ar ar msk]
    by (cases "offset mod 8 + n \<le> 8") simp_all
qed (auto simp: compare_bits_def CHAR_BIT_def)

text \<open>
  C38: \<^verbatim>\<open>write_bits\<close> of bits that lie in one byte returns, sets these bits of the page to the low bits of
  the data, keeps every other bit of the page and marks the page dirty; \<^verbatim>\<open>compare_bits\<close> then finds
  exactly the written bits.
\<close>
theorem write_bits_in_byte:
  assumes "frame_at pc f = Some p" "0 < n" "off mod 8 + n \<le> 8" "off < PAGE_SIZE * 8"
  shows "\<exists>p'. write_bits pc f (off div 8) (off mod 8) n [v] log = Some (set_frame pc f p') \<and> pg_dirty p' \<and>
    (\<forall>i. hbit (pg_data p') i = (if off \<le> i \<and> i < off + n then bit v (n - 1 - (i - off)) else hbit (pg_data p) i)) \<and>
    compare_bits (pg_data p') (PAGE_SIZE * CHAR_BIT) v off n = Some True"
proof -
  have "off div 8 < PAGE_SIZE" using assms(4) by (simp add: div_less_iff_less_mult)
  then have "8 * (off div 8) + 8 \<le> 8 * PAGE_SIZE" by simp
  then have "off + n \<le> PAGE_SIZE * 8" using assms(3) mult_div_mod_eq [of 8 off] by linarith
  then have "compare_bits (set_hbits (pg_data p) off n v) (PAGE_SIZE * CHAR_BIT) v off n = Some True"
    using compare_bits_one_byte [of off n "PAGE_SIZE * CHAR_BIT" "set_hbits (pg_data p) off n v" v]
      assms(3) hbit_set_hbits [OF assms(2,3)] by (simp add: CHAR_BIT_def)
  then show ?thesis using write_bits_one_byte [OF assms, of v log] hbit_set_hbits [OF assms(2,3)] by auto
qed

theorem write_bits_in_byte_witness:
  "\<exists>db fs pc p'. phy_database_create Map.empty ''db'' ''log'' = Some (db, fs) \<and>
     page_cache_create (\<lambda>_ _. 7) db 1 ''log'' = Some pc \<and>
     write_bits pc 0 1 4 4 [0xFF] False = Some (set_frame pc 0 p') \<and>
     compare_bits (pg_data p') (PAGE_SIZE * CHAR_BIT) 0xFF 12 4 = Some True"
proof -
  obtain db fs where d: "phy_database_create Map.empty ''db'' ''log'' = Some (db, fs)" "pd_inv db"
    using phy_database_create_ok [of Map.empty "''db''" "''log''"] by auto
  have "files_ok db"
    using d(2) by (auto simp: pd_inv_def files_ok_def valid_file_def file_of_def split: file_kind.splits)
  then obtain pc where p: "page_cache_create (\<lambda>_ _. 7) db 1 ''log'' = Some pc"
    "pc_frames pc = replicate 1 (page_create (\<lambda>_. 0))"
    using page_cache_create_ok [of db "\<lambda>_ _. 7" 1 "''log''"] by blast
  have "frame_at pc 0 = Some (page_create (\<lambda>_. 0))" using p(2) by (simp add: frame_at_def)
  from write_bits_in_byte [OF this, of 4 12 "0xFF" False] d(1) p(1) show ?thesis by (auto simp: PAGE_SIZE_def)
qed

text \<open>
  C16: \<^verbatim>\<open>write_bits\<close> of fewer than eight bits that cross into the next byte of the page returns and
  sets the bits to the low bits of the data, but clears every bit behind them up to the end of that
  byte; all other bits of the page stay. The mask that should keep the bits of the last byte is shifted
  by \<^verbatim>\<open>n_bits % CHAR_BIT + bit_offset_in_byte\<close>, which is more than eight then.
\<close>
theorem write_bits_clears_neighbours:
  assumes "frame_at pc f = Some p" "n < 8" "8 < off mod 8 + n" "off div 8 + 1 < PAGE_SIZE"
  shows "\<exists>p'. write_bits pc f (off div 8) (off mod 8) n [v] log = Some (set_frame pc f p') \<and>
    (\<forall>i. hbit (pg_data p') i =
       (if off \<le> i \<and> i < off + n then bit v (n - 1 - (i - off))
        else if off + n \<le> i \<and> i < 8 * (off div 8 + 2) then False else hbit (pg_data p) i))"
  by (rule write_bits_two_bytes [OF assms])

theorem write_bits_clears_neighbours_witness:
  "\<exists>pc p'. pc_frames pc = [page_create (\<lambda>_. 0xFF)] \<and>
     write_bits pc 0 0 6 4 [0] False = Some (set_frame pc 0 p') \<and>
     \<not> hbit (pg_data p') 9 \<and> \<not> hbit (pg_data p') 10 \<and> \<not> hbit (pg_data p') 15 \<and> hbit (pg_data p') 16"
proof -
  define pc :: page_cache where "pc = \<lparr>pc_pdb = undefined, pc_n_frames = 1, pc_num_pins = 0, pc_num_unpins = 0,
       pc_bulk_import = False, pc_log_file = [], pc_trace = [], pc_free_frames = ll_ul_create,
       pc_recently_referenced = ll_ul_create, pc_page_map = (\<lambda>fk ft. d_ul_ul_create 0),
       pc_frames = [page_create (\<lambda>_. 0xFF)]\<rparr>"
  have "frame_at pc 0 = Some (page_create (\<lambda>_. 0xFF))" by (simp add: pc_def frame_at_def)
  from write_bits_clears_neighbours [OF this, of 4 6 0 False] obtain p' where
    p': "write_bits pc 0 0 6 4 [0] False = Some (set_frame pc 0 p')"
    "\<forall>i. hbit (pg_data p') i = (if 6 \<le> i \<and> i < 10 then bit 0 (3 - (i - 6))
        else if 10 \<le> i \<and> i < 16 then False else hbit (pg_data (page_create (\<lambda>_. 0xFF))) i)"
    by (auto simp: PAGE_SIZE_def)
  have "hbit (pg_data (page_create (\<lambda>_. 0xFF))) 16" by (simp add: hbit_def CHAR_BIT_def page_create_def)
  then have "\<not> hbit (pg_data p') 9 \<and> \<not> hbit (pg_data p') 10 \<and> \<not> hbit (pg_data p') 15 \<and> hbit (pg_data p') 16"
    using p'(2) by simp
  moreover have "pc_frames pc = [page_create (\<lambda>_. 0xFF)]" by (simp add: pc_def)
  ultimately show ?thesis using p'(1) by blast
qed

text \<open>
  \<^verbatim>\<open>read_bits\<close> does not align the first byte when the bits start in the first byte of the result:
  reading the first six bits of a page returns the byte unshifted with its last two bits still in it, where the
  comment in the code asks for the six bits alone. From offset two on the same six bits are right.
\<close>
theorem read_bits_not_aligned:
  "read_bits_in_page (page_create (\<lambda>_. 0xAB)) 0 0 6 = Some [0xAB] \<and>
   read_bits_in_page (page_create (\<lambda>_. 0xAB)) 0 2 6 = Some [0x2B]"
  by (simp add: read_bits_in_page_def page_bytes_def bits_bytes_def CHAR_BIT_def PAGE_SIZE_def page_create_def Let_def
      mask_eq_exp_minus_1)

end
