(* ===== verification/Records.thy ===== *)
theory Records
  imports Page Array_List
begin

text \<open>
  The records of the heap file, \<^verbatim>\<open>src/access/node.c\<close> and \<^verbatim>\<open>src/access/relationship.c\<close>: their
  structs, the layout in the slots of a page, and the comparison functions. \<open>get_node\<close>, \<open>put_node\<close>,
  \<open>get_rel\<close> and \<open>put_rel\<close> are the layout as functions on the data of a page; the lemmas are
  their round trips and the independence of different slots.
\<close>

section \<open>The structs and constants\<close>

definition ON_DISK_NODE_SIZE :: nat where
  "ON_DISK_NODE_SIZE = 8 + 8"

definition NUM_SLOTS_PER_NODE :: nat where
  "NUM_SLOTS_PER_NODE = ON_DISK_NODE_SIZE div SLOT_SIZE + (if ON_DISK_NODE_SIZE mod SLOT_SIZE \<noteq> 0 then 1 else 0)"

definition ON_DISK_REL_SIZE :: nat where
  "ON_DISK_REL_SIZE = 6 * 8 + 8 + 8"

definition NUM_SLOTS_PER_REL :: nat where
  "NUM_SLOTS_PER_REL = ON_DISK_REL_SIZE div SLOT_SIZE + (if ON_DISK_REL_SIZE mod SLOT_SIZE \<noteq> 0 then 1 else 0)"

record node_t =
  n_id :: ulong
  n_first_relationship :: ulong
  n_label :: ulong

record relationship_t =
  r_id :: ulong
  r_source_node :: ulong
  r_target_node :: ulong
  r_prev_rel_source :: ulong
  r_next_rel_source :: ulong
  r_prev_rel_target :: ulong
  r_next_rel_target :: ulong
  r_weight :: double_bits
  r_label :: ulong

text \<open>The comparison of doubles, given as bit patterns: no number is equal to NaN, and the zeros are equal.\<close>

definition is_nan :: "double_bits \<Rightarrow> bool" where
  "is_nan d \<longleftrightarrow> d div 2 ^ 52 mod 2 ^ 11 = 2 ^ 11 - 1 \<and> d mod 2 ^ 52 \<noteq> 0"

definition double_eq :: "double_bits \<Rightarrow> double_bits \<Rightarrow> bool" where
  "double_eq a b \<longleftrightarrow> \<not> is_nan a \<and> \<not> is_nan b \<and> (a = b \<or> a mod 2 ^ 63 = 0 \<and> b mod 2 ^ 63 = 0)"

section \<open>Nodes\<close>

definition new_node :: node_t where
  "new_node = \<lparr>n_id = UNINITIALIZED_LONG, n_first_relationship = UNINITIALIZED_LONG, n_label = UNINITIALIZED_LONG\<rparr>"

definition node_clear :: "node_t \<Rightarrow> node_t" where
  "node_clear r = r\<lparr>n_id := UNINITIALIZED_LONG, n_first_relationship := UNINITIALIZED_LONG, n_label := UNINITIALIZED_LONG\<rparr>"

definition node_copy :: "node_t \<Rightarrow> node_t" where
  "node_copy original = \<lparr>n_id = n_id original, n_first_relationship = n_first_relationship original, n_label = n_label original\<rparr>"

definition node_equals :: "node_t \<Rightarrow> node_t \<Rightarrow> bool" where
  "node_equals a b \<longleftrightarrow> n_id a = n_id b \<and> n_first_relationship a = n_first_relationship b \<and> n_label a = n_label b"

definition node_read :: "node_t \<Rightarrow> page \<Rightarrow> node_t option" where
  "node_read r p =
    (if pg_pin_count p < 1 then None
     else do {
       let first_slot = (n_id r AND UCHAR_MAX) * SLOT_SIZE;
       first \<leftarrow> read_ulong p first_slot;
       let r = r\<lparr>n_first_relationship := first\<rparr>;
       label \<leftarrow> read_ulong p (first_slot + 8);
       Some (r\<lparr>n_label := label\<rparr>) })"

definition node_write :: "node_t \<Rightarrow> page \<Rightarrow> page option" where
  "node_write r p =
    (if pg_pin_count p < 1 then None
     else do {
       let first_slot = (n_id r AND UCHAR_MAX) * SLOT_SIZE;
       p \<leftarrow> write_ulong p first_slot (n_first_relationship r);
       write_ulong p (first_slot + 8) (n_label r) })"

section \<open>Relationships\<close>

definition new_relationship :: relationship_t where
  "new_relationship = \<lparr>r_id = UNINITIALIZED_LONG, r_source_node = UNINITIALIZED_LONG, r_target_node = UNINITIALIZED_LONG,
     r_prev_rel_source = UNINITIALIZED_LONG, r_next_rel_source = UNINITIALIZED_LONG,
     r_prev_rel_target = UNINITIALIZED_LONG, r_next_rel_target = UNINITIALIZED_LONG,
     r_weight = UNINITIALIZED_WEIGHT, r_label = UNINITIALIZED_LONG\<rparr>"

definition relationship_clear :: "relationship_t \<Rightarrow> relationship_t" where
  "relationship_clear r = r\<lparr>r_id := UNINITIALIZED_LONG, r_source_node := UNINITIALIZED_LONG,
     r_target_node := UNINITIALIZED_LONG, r_prev_rel_source := UNINITIALIZED_LONG,
     r_next_rel_source := UNINITIALIZED_LONG, r_prev_rel_target := UNINITIALIZED_LONG,
     r_next_rel_target := UNINITIALIZED_LONG, r_weight := UNINITIALIZED_WEIGHT, r_label := UNINITIALIZED_LONG\<rparr>"

definition relationship_copy :: "relationship_t \<Rightarrow> relationship_t" where
  "relationship_copy r = \<lparr>r_id = r_id r, r_source_node = r_source_node r, r_target_node = r_target_node r,
     r_prev_rel_source = r_prev_rel_source r, r_next_rel_source = r_next_rel_source r,
     r_prev_rel_target = r_prev_rel_target r, r_next_rel_target = r_next_rel_target r,
     r_weight = r_weight r, r_label = r_label r\<rparr>"

text \<open>The comparison leaves \<^verbatim>\<open>next_rel_target\<close> out.\<close>

definition relationship_equals :: "relationship_t \<Rightarrow> relationship_t \<Rightarrow> bool" where
  "relationship_equals a b \<longleftrightarrow> r_id a = r_id b \<and> r_source_node a = r_source_node b \<and> r_target_node a = r_target_node b \<and>
     r_prev_rel_source a = r_prev_rel_source b \<and> r_next_rel_source a = r_next_rel_source b \<and>
     r_prev_rel_target a = r_prev_rel_target b \<and> double_eq (r_weight a) (r_weight b) \<and> r_label a = r_label b"

definition relationship_read :: "relationship_t \<Rightarrow> page \<Rightarrow> relationship_t option" where
  "relationship_read r p = do {
     let first_slot = (r_id r AND UCHAR_MAX) * SLOT_SIZE;
     v \<leftarrow> read_ulong p first_slot;
     let r = r\<lparr>r_source_node := v\<rparr>;
     v \<leftarrow> read_ulong p (first_slot + 8);
     let r = r\<lparr>r_target_node := v\<rparr>;
     v \<leftarrow> read_ulong p (first_slot + 8 + 8);
     let r = r\<lparr>r_prev_rel_source := v\<rparr>;
     v \<leftarrow> read_ulong p (first_slot + 8 + 8 + 8);
     let r = r\<lparr>r_next_rel_source := v\<rparr>;
     v \<leftarrow> read_ulong p (first_slot + 8 + 8 + 8 + 8);
     let r = r\<lparr>r_prev_rel_target := v\<rparr>;
     v \<leftarrow> read_ulong p (first_slot + 8 + 8 + 8 + 8 + 8);
     let r = r\<lparr>r_next_rel_target := v\<rparr>;
     v \<leftarrow> read_double p (first_slot + 8 + 8 + 8 + 8 + 8 + 8);
     let r = r\<lparr>r_weight := v\<rparr>;
     v \<leftarrow> read_ulong p (first_slot + 8 + 8 + 8 + 8 + 8 + 8 + 8);
     Some (r\<lparr>r_label := v\<rparr>) }"

definition relationship_write :: "relationship_t \<Rightarrow> page \<Rightarrow> page option" where
  "relationship_write r p = do {
     let first_slot = (r_id r AND UCHAR_MAX) * SLOT_SIZE;
     p \<leftarrow> write_ulong p first_slot (r_source_node r);
     p \<leftarrow> write_ulong p (first_slot + 8) (r_target_node r);
     p \<leftarrow> write_ulong p (first_slot + 8 + 8) (r_prev_rel_source r);
     p \<leftarrow> write_ulong p (first_slot + 8 + 8 + 8) (r_next_rel_source r);
     p \<leftarrow> write_ulong p (first_slot + 8 + 8 + 8 + 8) (r_prev_rel_target r);
     p \<leftarrow> write_ulong p (first_slot + 8 + 8 + 8 + 8 + 8) (r_next_rel_target r);
     p \<leftarrow> write_double p (first_slot + 8 + 8 + 8 + 8 + 8 + 8) (r_weight r);
     write_ulong p (first_slot + 8 + 8 + 8 + 8 + 8 + 8 + 8) (r_label r) }"

section \<open>The layout\<close>

definition slot_offset :: "ulong \<Rightarrow> nat" where
  "slot_offset i = i mod 256 * 16"

definition get_node :: "buffer \<Rightarrow> ulong \<Rightarrow> node_t" where
  "get_node b i = \<lparr>n_id = i, n_first_relationship = get_ulong b (slot_offset i), n_label = get_ulong b (slot_offset i + 8)\<rparr>"

definition put_node :: "buffer \<Rightarrow> node_t \<Rightarrow> buffer" where
  "put_node b n = put_ulong (put_ulong b (slot_offset (n_id n)) (n_first_relationship n)) (slot_offset (n_id n) + 8) (n_label n)"

definition get_rel :: "buffer \<Rightarrow> ulong \<Rightarrow> relationship_t" where
  "get_rel b i = (let o' = slot_offset i in \<lparr>r_id = i, r_source_node = get_ulong b o', r_target_node = get_ulong b (o' + 8),
     r_prev_rel_source = get_ulong b (o' + 16), r_next_rel_source = get_ulong b (o' + 24),
     r_prev_rel_target = get_ulong b (o' + 32), r_next_rel_target = get_ulong b (o' + 40),
     r_weight = get_ulong b (o' + 48), r_label = get_ulong b (o' + 56)\<rparr>)"

definition put_rel :: "buffer \<Rightarrow> relationship_t \<Rightarrow> buffer" where
  "put_rel b r = (let o' = slot_offset (r_id r) in
     put_ulong (put_ulong (put_ulong (put_ulong (put_ulong (put_ulong (put_ulong (put_ulong b
       o' (r_source_node r)) (o' + 8) (r_target_node r)) (o' + 16) (r_prev_rel_source r)) (o' + 24) (r_next_rel_source r))
       (o' + 32) (r_prev_rel_target r)) (o' + 40) (r_next_rel_target r)) (o' + 48) (r_weight r)) (o' + 56) (r_label r))"

text \<open>All fields are machine words.\<close>

definition node_ok :: "node_t \<Rightarrow> bool" where
  "node_ok n \<longleftrightarrow> n_first_relationship n < ULONG_RANGE \<and> n_label n < ULONG_RANGE"

definition rel_ok :: "relationship_t \<Rightarrow> bool" where
  "rel_ok r \<longleftrightarrow> r_source_node r < ULONG_RANGE \<and> r_target_node r < ULONG_RANGE \<and> r_prev_rel_source r < ULONG_RANGE \<and>
     r_next_rel_source r < ULONG_RANGE \<and> r_prev_rel_target r < ULONG_RANGE \<and> r_next_rel_target r < ULONG_RANGE \<and>
     r_weight r < ULONG_RANGE \<and> r_label r < ULONG_RANGE"

lemma slots_eq: "NUM_SLOTS_PER_NODE = 1" "NUM_SLOTS_PER_REL = 4"
  by (simp_all add: NUM_SLOTS_PER_NODE_def NUM_SLOTS_PER_REL_def ON_DISK_NODE_SIZE_def ON_DISK_REL_SIZE_def size_defs)

lemma first_slot_eq: "(i AND UCHAR_MAX) * SLOT_SIZE = slot_offset i"
proof -
  have "i AND UCHAR_MAX = i mod 256"
    using take_bit_eq_mask [of 8 i] by (simp add: UCHAR_MAX_def mask_eq_exp_minus_1 take_bit_eq_mod)
  then show ?thesis by (simp add: slot_offset_def size_defs)
qed

lemma slot_offset_bound: "slot_offset i + 16 \<le> PAGE_SIZE"
  using mod_less_divisor [of 256 i] unfolding slot_offset_def PAGE_SIZE_def by linarith

lemma slot_offset_bound_rel: "i mod 4 = 0 \<Longrightarrow> slot_offset i + 64 \<le> PAGE_SIZE"
proof -
  assume "i mod 4 = 0"
  then have "i mod 256 mod 4 = 0" by (simp add: mod_mod_cancel)
  then obtain a where a: "i mod 256 = 4 * a" by (metis mod_0_imp_dvd dvdE)
  moreover have "i mod 256 < 256" by simp
  ultimately have "a \<le> 63" by linarith
  then show ?thesis by (simp add: slot_offset_def PAGE_SIZE_def a)
qed

lemma slot_offset_disjoint:
  "i mod 256 \<noteq> j mod 256 \<Longrightarrow> slot_offset i + 16 \<le> slot_offset j \<or> slot_offset j + 16 \<le> slot_offset i"
  by (auto simp: slot_offset_def neq_iff)

lemma slot_offset_disjoint_rel:
  assumes "i mod 4 = 0" "j mod 4 = 0" "i mod 256 \<noteq> j mod 256"
  shows "slot_offset i + 64 \<le> slot_offset j \<or> slot_offset j + 64 \<le> slot_offset i"
proof -
  have "i mod 256 mod 4 = 0" "j mod 256 mod 4 = 0" using assms(1,2) by (simp_all add: mod_mod_cancel)
  then obtain a b where "i mod 256 = 4 * a" "j mod 256 = 4 * b" by (metis mod_0_imp_dvd dvdE)
  then show ?thesis using assms(3) by (auto simp: slot_offset_def neq_iff)
qed

lemma get_put_node:
  assumes "node_ok n"
  shows "get_node (put_node b n) (n_id n) = n"
  using assms by (simp add: get_node_def put_node_def node_ok_def)

lemma get_put_node_other: "i mod 256 \<noteq> n_id n mod 256 \<Longrightarrow> get_node (put_node b n) i = get_node b i"
  using slot_offset_disjoint [of i "n_id n"] by (auto simp: get_node_def put_node_def)

lemma get_put_rel:
  assumes "rel_ok r"
  shows "get_rel (put_rel b r) (r_id r) = r"
  using assms by (simp add: get_rel_def put_rel_def rel_ok_def Let_def)

lemma get_put_rel_other:
  "i mod 4 = 0 \<Longrightarrow> r_id r mod 4 = 0 \<Longrightarrow> i mod 256 \<noteq> r_id r mod 256 \<Longrightarrow> get_rel (put_rel b r) i = get_rel b i"
  using slot_offset_disjoint_rel [of i "r_id r"] by (auto simp: get_rel_def put_rel_def Let_def)

lemma get_node_ok: "node_ok (get_node b i)"
  by (simp add: node_ok_def get_node_def get_ulong_less)

lemma get_rel_ok: "rel_ok (get_rel b i)"
  by (simp add: rel_ok_def get_rel_def get_ulong_less Let_def)

lemma get_node_page_of [simp]: "get_node (page_of b) i = get_node b i"
  using slot_offset_bound [of i] by (simp add: get_node_def)

lemma get_rel_page_of: "i mod 4 = 0 \<Longrightarrow> get_rel (page_of b) i = get_rel b i"
  using slot_offset_bound_rel [of i] by (simp add: get_rel_def Let_def)

lemma page_of_cong_put: "page_of a = page_of b \<Longrightarrow> page_of (put_ulong a off v) = page_of (put_ulong b off v)"
  by (metis page_of_put_ulong)

lemma page_of_put_node: "page_of a = page_of b \<Longrightarrow> page_of (put_node a n) = page_of (put_node b n)"
  unfolding put_node_def by (intro page_of_cong_put)

lemma page_of_put_rel: "page_of a = page_of b \<Longrightarrow> page_of (put_rel a r) = page_of (put_rel b r)"
  unfolding put_rel_def Let_def by (intro page_of_cong_put)

lemma node_read_eq: "pg_pin_count p \<noteq> 0 \<Longrightarrow> node_read r p = Some (get_node (pg_data p) (n_id r))"
  using slot_offset_bound [of "n_id r"]
  by (cases r) (simp add: node_read_def first_slot_eq get_node_def read_ulong_def PAGE_SIZE_def Let_def)

lemma node_write_eq:
  "pg_pin_count p \<noteq> 0 \<Longrightarrow> node_write r p = Some (p\<lparr>pg_data := put_node (pg_data p) r, pg_dirty := True\<rparr>)"
  using slot_offset_bound [of "n_id r"]
  by (simp add: node_write_def first_slot_eq put_node_def write_ulong_def PAGE_SIZE_def Let_def)

lemma relationship_read_eq:
  "pg_pin_count p \<noteq> 0 \<Longrightarrow> r_id r mod 4 = 0 \<Longrightarrow> relationship_read r p = Some (get_rel (pg_data p) (r_id r))"
  using slot_offset_bound_rel [of "r_id r"]
  by (cases r) (simp add: relationship_read_def first_slot_eq get_rel_def read_ulong_def read_double_def PAGE_SIZE_def Let_def add.commute)

lemma relationship_write_eq:
  "pg_pin_count p \<noteq> 0 \<Longrightarrow> r_id r mod 4 = 0 \<Longrightarrow>
     relationship_write r p = Some (p\<lparr>pg_data := put_rel (pg_data p) r, pg_dirty := True\<rparr>)"
  using slot_offset_bound_rel [of "r_id r"]
  by (simp add: relationship_write_def first_slot_eq put_rel_def write_ulong_def write_double_def PAGE_SIZE_def Let_def add.commute)

section \<open>Properties\<close>

text \<open>
  C14: A record written to its slots of a pinned page is read back as it was, field by field, and no record in
  other slots changes, for nodes and for relationships. A relationship whose slots would leave the page
  ends the program instead of touching the next one.
\<close>
theorem record_round_trip:
  assumes "pg_pin_count p \<noteq> 0" "node_ok n" "rel_ok r" "r_id r mod NUM_SLOTS_PER_REL = 0"
  shows "(\<exists>p'. node_write n p = Some p' \<and> pg_dirty p' \<and> node_read (new_node\<lparr>n_id := n_id n\<rparr>) p' = Some n \<and>
       (\<forall>m. n_id m mod SLOTS_PER_PAGE \<noteq> n_id n mod SLOTS_PER_PAGE \<longrightarrow> node_read m p' = node_read m p)) \<and>
    (\<exists>p'. relationship_write r p = Some p' \<and> pg_dirty p' \<and>
       relationship_read (new_relationship\<lparr>r_id := r_id r\<rparr>) p' = Some r \<and>
       (\<forall>q. r_id q mod NUM_SLOTS_PER_REL = 0 \<and> r_id q mod SLOTS_PER_PAGE \<noteq> r_id r mod SLOTS_PER_PAGE \<longrightarrow>
          relationship_read q p' = relationship_read q p)) \<and>
    relationship_write (r\<lparr>r_id := 253\<rparr>) p = None"
proof (intro conjI)
  let ?p = "p\<lparr>pg_data := put_node (pg_data p) n, pg_dirty := True\<rparr>"
  show "\<exists>p'. node_write n p = Some p' \<and> pg_dirty p' \<and> node_read (new_node\<lparr>n_id := n_id n\<rparr>) p' = Some n \<and>
       (\<forall>m. n_id m mod SLOTS_PER_PAGE \<noteq> n_id n mod SLOTS_PER_PAGE \<longrightarrow> node_read m p' = node_read m p)"
    using assms(1,2)
    by (intro exI [of _ ?p]) (simp add: node_write_eq node_read_eq get_put_node get_put_node_other SLOTS_PER_PAGE_eq)
  let ?q = "p\<lparr>pg_data := put_rel (pg_data p) r, pg_dirty := True\<rparr>"
  show "\<exists>p'. relationship_write r p = Some p' \<and> pg_dirty p' \<and>
       relationship_read (new_relationship\<lparr>r_id := r_id r\<rparr>) p' = Some r \<and>
       (\<forall>q. r_id q mod NUM_SLOTS_PER_REL = 0 \<and> r_id q mod SLOTS_PER_PAGE \<noteq> r_id r mod SLOTS_PER_PAGE \<longrightarrow>
          relationship_read q p' = relationship_read q p)"
    using assms(1,3,4)
    by (intro exI [of _ ?q])
      (simp add: slots_eq relationship_write_eq relationship_read_eq get_put_rel get_put_rel_other SLOTS_PER_PAGE_eq)
  show "relationship_write (r\<lparr>r_id := 253\<rparr>) p = None"
    using assms(1) by (simp add: relationship_write_def first_slot_eq slot_offset_def write_ulong_def write_double_def PAGE_SIZE_def)
qed

theorem record_round_trip_witness:
  "\<exists>p'. relationship_write (new_relationship\<lparr>r_id := 508\<rparr>) ((page_create (\<lambda>_. 0))\<lparr>pg_pin_count := 1\<rparr>) = Some p' \<and>
     relationship_read (new_relationship\<lparr>r_id := 508\<rparr>) p' = Some (new_relationship\<lparr>r_id := 508\<rparr>)"
  using record_round_trip [of "(page_create (\<lambda>_. 0))\<lparr>pg_pin_count := 1\<rparr>" new_node "new_relationship\<lparr>r_id := 508\<rparr>"]
  by (auto simp: node_ok_def rel_ok_def new_node_def new_relationship_def UNINITIALIZED_LONG_def
      UNINITIALIZED_WEIGHT_def ULONG_RANGE_def slots_eq)

text \<open>
  \<^verbatim>\<open>node_equals\<close> decides equality of nodes, but \<^verbatim>\<open>relationship_equals\<close> does not decide equality of
  relationships: it holds for two relationships exactly if they agree in all fields except
  \<^verbatim>\<open>next_rel_target\<close>, with the weights compared as floating point numbers. A relationship whose
  weight is not a number is not even equal to itself.
\<close>
theorem record_equality:
  "(node_equals m n \<longleftrightarrow> m = n) \<and>
   (\<not> is_nan (r_weight r) \<longrightarrow> relationship_equals r (r\<lparr>r_next_rel_target := any\<rparr>)) \<and>
   (relationship_equals r q \<and> r_weight r mod 2 ^ 63 \<noteq> 0 \<longrightarrow> r\<lparr>r_next_rel_target := any\<rparr> = q\<lparr>r_next_rel_target := any\<rparr>) \<and>
   (is_nan (r_weight r) \<longrightarrow> \<not> relationship_equals r r)"
  by (cases m; cases n; cases r; cases q) (auto simp: node_equals_def relationship_equals_def double_eq_def)

theorem record_equality_witness:
  "relationship_equals (new_relationship\<lparr>r_next_rel_target := 4\<rparr>) (new_relationship\<lparr>r_next_rel_target := 8\<rparr>)"
  using record_equality [of new_node new_node "new_relationship\<lparr>r_next_rel_target := 4\<rparr>" 8 new_relationship]
  by (simp add: new_relationship_def is_nan_def UNINITIALIZED_WEIGHT_def)

end
