(* ===== verification/Heap_File.thy ===== *)
theory Heap_File
  imports Db_Cache Header_Page Records
begin

text \<open>
  The heap file, \<^verbatim>\<open>src/access/heap_file.c\<close>: nodes and relationships as records in slots, their
  allocation in the header pages, and the chains of relationships of a node, which are circular
  doubly linked lists threaded through the relationship records. This theory has the model of
  all operations; the relationship structs that an operation holds in memory are cells of a small store, because
  \<^verbatim>\<open>create_relationship\<close> and \<^verbatim>\<open>delete_relationship\<close> let several of their pointers point to one
  struct.
\<close>

section \<open>The struct\<close>

record heap_file =
  hf_cache :: page_cache
  hf_n_nodes :: "64 word"
  hf_n_rels :: "64 word"
  hf_last_alloc_node_id :: ulong
  hf_last_alloc_rel_id :: ulong
  hf_num_reads_nodes :: "64 word"
  hf_num_updates_nodes :: "64 word"
  hf_num_reads_rels :: "64 word"
  hf_num_update_rels :: "64 word"
  hf_log_file :: string
  hf_trace :: "(string \<times> string \<times> ulong \<times> ulong) list"

datatype direction_t = OUTGOING | INCOMING | BOTH

definition hf_log :: "heap_file \<Rightarrow> bool \<Rightarrow> string \<Rightarrow> ulong \<Rightarrow> ulong \<Rightarrow> heap_file" where
  "hf_log hf log event i label = (if log then hf\<lparr>hf_trace := hf_trace hf @ [(hf_log_file hf, event, i, label)]\<rparr> else hf)"

definition rec_ft :: "bool \<Rightarrow> file_type" where
  "rec_ft node = (if node then node_ft else relationship_ft)"

definition rec_slots :: "bool \<Rightarrow> nat" where
  "rec_slots node = (if node then NUM_SLOTS_PER_NODE else NUM_SLOTS_PER_REL)"

definition rec_pages :: "heap_file \<Rightarrow> bool \<Rightarrow> nat" where
  "rec_pages hf node = df_num_pages (pd_records (pc_pdb (hf_cache hf)) (rec_ft node))"

section \<open>Slots\<close>

definition check_record_exists :: "heap_file \<Rightarrow> ulong \<Rightarrow> bool \<Rightarrow> bool \<Rightarrow> (bool \<times> heap_file) option" where
  "check_record_exists hf i node log =
    (if (node \<and> i mod NUM_SLOTS_PER_NODE \<noteq> 0) \<or> (\<not> node \<and> i mod NUM_SLOTS_PER_REL \<noteq> 0) then Some (False, hf)
     else
       let slots = rec_slots node; ft = rec_ft node;
           record_page_id = drop_bit CHAR_BIT i; slot_in_page = i AND UCHAR_MAX in
       if slot_in_page mod SLOTS_PER_PAGE > (slot_in_page + (slots - 1)) mod SLOTS_PER_PAGE then Some (False, hf)
       else do {
         let absolute_slot = record_page_id * SLOTS_PER_PAGE + slot_in_page;
         let header_id = absolute_slot div (PAGE_SIZE * CHAR_BIT);
         let bit_offset = absolute_slot mod (PAGE_SIZE * CHAR_BIT);
         (f, pc) \<leftarrow> pin_page (hf_cache hf) header_id header ft log;
         header_page \<leftarrow> frame_at pc f;
         result \<leftarrow> compare_bits (pg_data header_page) (PAGE_SIZE * CHAR_BIT) (-1) bit_offset slots;
         pc \<leftarrow> unpin_page pc header_id header ft log;
         Some (result, hf\<lparr>hf_cache := pc\<rparr>) })"

text \<open>The next slot, in \<^verbatim>\<open>unsigned char\<close> arithmetic, and its id.\<close>

definition next_slot :: "nat \<Rightarrow> nat \<Rightarrow> nat \<Rightarrow> nat \<times> nat" where
  "next_slot n record_page_id slot_in_page =
    (if (slot_in_page + n) mod SLOTS_PER_PAGE < slot_in_page mod SLOTS_PER_PAGE
     then (record_page_id + 1, 0) else (record_page_id, (slot_in_page + n) mod 256))"

definition slot_id :: "nat \<Rightarrow> nat \<Rightarrow> ulong" where
  "slot_id record_page_id slot_in_page = (push_bit CHAR_BIT record_page_id mod ULONG_RANGE) OR slot_in_page"

text \<open>The search of \<^verbatim>\<open>next_free_slots\<close>.\<close>

partial_function (option) free_slot_loop ::
    "heap_file \<Rightarrow> bool \<Rightarrow> bool \<Rightarrow> ulong \<Rightarrow> nat \<Rightarrow> nat \<Rightarrow> (ulong option \<times> heap_file) option" where
  "free_slot_loop hf node log cur_id record_page_id slot_in_page =
    (if record_page_id < rec_pages hf node then do {
       (used, hf) \<leftarrow> check_record_exists hf cur_id node log;
       if \<not> used \<and> slot_in_page mod SLOTS_PER_PAGE \<le> (slot_in_page + (rec_slots node - 1)) mod SLOTS_PER_PAGE
       then Some (Some cur_id, hf)
       else (case next_slot (rec_slots node) record_page_id slot_in_page of (record_page_id, slot_in_page) \<Rightarrow>
         free_slot_loop hf node log (slot_id record_page_id slot_in_page) record_page_id slot_in_page) }
     else Some (None, hf))"

definition last_alloc :: "heap_file \<Rightarrow> bool \<Rightarrow> ulong" where
  "last_alloc hf node = (if node then hf_last_alloc_node_id hf else hf_last_alloc_rel_id hf)"

definition set_last_alloc :: "heap_file \<Rightarrow> bool \<Rightarrow> ulong \<Rightarrow> heap_file" where
  "set_last_alloc hf node i = (if node then hf\<lparr>hf_last_alloc_node_id := i\<rparr> else hf\<lparr>hf_last_alloc_rel_id := i\<rparr>)"

text \<open>Setting the header bits of a record, at the end of \<^verbatim>\<open>next_free_slots\<close> and of the deletions.\<close>

definition write_header_bits :: "heap_file \<Rightarrow> ulong \<Rightarrow> bool \<Rightarrow> byte \<Rightarrow> bool \<Rightarrow> heap_file option" where
  "write_header_bits hf i node v log = do {
     let record_page_id = drop_bit CHAR_BIT i;
     let slot_in_page = i AND UCHAR_MAX;
     let absolute_slot = record_page_id * SLOTS_PER_PAGE + slot_in_page;
     let header_id = absolute_slot div (PAGE_SIZE * CHAR_BIT);
     let byte_offset = (absolute_slot div CHAR_BIT) mod PAGE_SIZE;
     let bit_offset = absolute_slot mod CHAR_BIT;
     (f, pc) \<leftarrow> pin_page (hf_cache hf) header_id header (rec_ft node) log;
     pc \<leftarrow> write_bits pc f byte_offset bit_offset (rec_slots node) [v] log;
     pc \<leftarrow> unpin_page pc header_id header (rec_ft node) log;
     Some (hf\<lparr>hf_cache := pc\<rparr>) }"

definition next_free_slots :: "heap_file \<Rightarrow> bool \<Rightarrow> bool \<Rightarrow> heap_file option" where
  "next_free_slots hf node log = do {
     let prev = last_alloc hf node;
     (found, hf) \<leftarrow> free_slot_loop hf node log prev (drop_bit CHAR_BIT prev) (prev AND UCHAR_MAX);
     hf \<leftarrow> (case found of
         Some i \<Rightarrow> Some (set_last_alloc hf node i)
       | None \<Rightarrow> do {
           (f, pc) \<leftarrow> new_page (hf_cache hf) (rec_ft node) log;
           np \<leftarrow> frame_at pc f;
           if pg_page_no np > push_bit CHAR_BIT ULONG_MAX mod ULONG_RANGE then None
           else do {
             let hf = set_last_alloc hf node (push_bit CHAR_BIT (pg_page_no np) mod ULONG_RANGE);
             pc \<leftarrow> unpin_page pc (pg_page_no np) records (rec_ft node) log;
             Some (hf\<lparr>hf_cache := pc\<rparr>) } });
     write_header_bits hf (last_alloc hf node) node (-1) log }"

section \<open>Reading and writing records\<close>

definition read_node_internal :: "heap_file \<Rightarrow> ulong \<Rightarrow> bool \<Rightarrow> bool \<Rightarrow> (node_t \<times> heap_file) option" where
  "read_node_internal hf node_id check_exists log =
    (if node_id = UNINITIALIZED_LONG then None
     else do {
       (ok, hf) \<leftarrow> (if check_exists then check_record_exists hf node_id True log else Some (True, hf));
       if \<not> ok then None
       else do {
         let page_id = drop_bit CHAR_BIT node_id;
         (f, pc) \<leftarrow> pin_page (hf_cache hf) page_id records node_ft log;
         node_page \<leftarrow> frame_at pc f;
         node \<leftarrow> node_read (new_node\<lparr>n_id := node_id\<rparr>) node_page;
         pc \<leftarrow> unpin_page pc page_id records node_ft log;
         Some (node, hf\<lparr>hf_cache := pc, hf_num_reads_nodes := hf_num_reads_nodes hf + 1\<rparr>) } })"

definition read_relationship_internal :: "heap_file \<Rightarrow> ulong \<Rightarrow> bool \<Rightarrow> bool \<Rightarrow> (relationship_t \<times> heap_file) option" where
  "read_relationship_internal hf rel_id check_exists log =
    (if rel_id = UNINITIALIZED_LONG then None
     else do {
       (ok, hf) \<leftarrow> (if check_exists then check_record_exists hf rel_id False log else Some (True, hf));
       if \<not> ok then None
       else do {
         let page_id = drop_bit CHAR_BIT rel_id;
         (f, pc) \<leftarrow> pin_page (hf_cache hf) page_id records relationship_ft log;
         rel_page \<leftarrow> frame_at pc f;
         rel \<leftarrow> relationship_read (new_relationship\<lparr>r_id := rel_id\<rparr>) rel_page;
         pc \<leftarrow> unpin_page pc page_id records relationship_ft log;
         Some (rel, hf\<lparr>hf_cache := pc, hf_num_reads_rels := hf_num_reads_rels hf + 1\<rparr>) } })"

definition update_node_internal :: "heap_file \<Rightarrow> node_t \<Rightarrow> bool \<Rightarrow> bool \<Rightarrow> heap_file option" where
  "update_node_internal hf node_to_write check_exists log =
    (if n_id node_to_write = UNINITIALIZED_LONG then None
     else do {
       (ok, hf) \<leftarrow> (if check_exists then check_record_exists hf (n_id node_to_write) True log else Some (True, hf));
       if \<not> ok then None
       else do {
         let page_id = drop_bit CHAR_BIT (n_id node_to_write);
         (f, pc) \<leftarrow> pin_page (hf_cache hf) page_id records node_ft log;
         node_page \<leftarrow> frame_at pc f;
         node_page \<leftarrow> node_write node_to_write node_page;
         pc \<leftarrow> unpin_page (set_frame pc f node_page) page_id records node_ft log;
         Some (hf\<lparr>hf_cache := pc, hf_num_updates_nodes := hf_num_updates_nodes hf + 1\<rparr>) } })"

definition update_relationship_internal :: "heap_file \<Rightarrow> relationship_t \<Rightarrow> bool \<Rightarrow> bool \<Rightarrow> heap_file option" where
  "update_relationship_internal hf rel_to_write check_exists log =
    (if r_id rel_to_write = UNINITIALIZED_LONG \<or> r_source_node rel_to_write = UNINITIALIZED_LONG
        \<or> r_target_node rel_to_write = UNINITIALIZED_LONG \<or> double_eq (r_weight rel_to_write) UNINITIALIZED_WEIGHT then None
     else do {
       (ok, hf) \<leftarrow> (if check_exists then check_record_exists hf (r_id rel_to_write) False log else Some (True, hf));
       if \<not> ok then None
       else do {
         let page_id = drop_bit CHAR_BIT (r_id rel_to_write);
         (f, pc) \<leftarrow> pin_page (hf_cache hf) page_id records relationship_ft log;
         rel_page \<leftarrow> frame_at pc f;
         rel_page \<leftarrow> relationship_write rel_to_write rel_page;
         pc \<leftarrow> unpin_page (set_frame pc f rel_page) page_id records relationship_ft log;
         Some (hf\<lparr>hf_cache := pc, hf_num_update_rels := hf_num_update_rels hf + 1\<rparr>) } })"

definition read_node :: "heap_file \<Rightarrow> ulong \<Rightarrow> bool \<Rightarrow> (node_t \<times> heap_file) option" where
  "read_node hf node_id log = do {
     (node, hf) \<leftarrow> read_node_internal hf node_id True log;
     Some (node, hf_log hf log ''Read_Node'' node_id (n_label node)) }"

definition read_relationship :: "heap_file \<Rightarrow> ulong \<Rightarrow> bool \<Rightarrow> (relationship_t \<times> heap_file) option" where
  "read_relationship hf rel_id log = do {
     (rel, hf) \<leftarrow> read_relationship_internal hf rel_id True log;
     Some (rel, hf_log hf log ''read_rel'' (r_id rel) (r_label rel)) }"

definition update_node :: "heap_file \<Rightarrow> node_t \<Rightarrow> bool \<Rightarrow> heap_file option" where
  "update_node hf node_to_write log = do {
     hf \<leftarrow> update_node_internal hf node_to_write True log;
     Some (hf_log hf log ''update_node'' (n_id node_to_write) (n_label node_to_write)) }"

definition update_relationship :: "heap_file \<Rightarrow> relationship_t \<Rightarrow> bool \<Rightarrow> heap_file option" where
  "update_relationship hf rel_to_write log = do {
     hf \<leftarrow> update_relationship_internal hf rel_to_write True log;
     Some (hf_log hf log ''update_rel'' (r_id rel_to_write) (r_label rel_to_write)) }"

section \<open>Creating records\<close>

definition create_node :: "heap_file \<Rightarrow> ulong \<Rightarrow> bool \<Rightarrow> (ulong \<times> heap_file) option" where
  "create_node hf label log = do {
     hf \<leftarrow> next_free_slots hf True log;
     let node_id = hf_last_alloc_node_id hf;
     let node = new_node\<lparr>n_id := node_id, n_label := label\<rparr>;
     hf \<leftarrow> update_node_internal hf node False log;
     let hf = hf_log hf log ''Create_Node'' node_id (n_label node);
     Some (node_id, hf\<lparr>hf_n_nodes := hf_n_nodes hf + 1\<rparr>) }"

text \<open>
  The relationship structs in memory. A struct is at one of the addresses below, one for every call that
  allocates one; reading a freed struct has no result.
\<close>

type_synonym rel_mem = "addr \<rightharpoonup> relationship_t"

definition upd_rel :: "rel_mem \<Rightarrow> addr \<Rightarrow> (relationship_t \<Rightarrow> relationship_t) \<Rightarrow> rel_mem option" where
  "upd_rel m p g = do { r \<leftarrow> m p; Some (m(p \<mapsto> g r)) }"

definition load_rel :: "heap_file \<Rightarrow> rel_mem \<Rightarrow> addr \<Rightarrow> ulong \<Rightarrow> bool \<Rightarrow> (addr \<times> rel_mem \<times> heap_file) option" where
  "load_rel hf m p rel_id log = do {
     (r, hf) \<leftarrow> read_relationship hf rel_id log;
     Some (p, m(p \<mapsto> r), hf) }"

text \<open>First and last relationship of the chain of the source node: addresses 1 and 2, the new one is at 0.\<close>

definition chain_ends_from ::
    "heap_file \<Rightarrow> rel_mem \<Rightarrow> node_t \<Rightarrow> bool \<Rightarrow> (addr \<times> addr \<times> rel_mem \<times> heap_file) option" where
  "chain_ends_from hf m from_node log =
    (if n_first_relationship from_node = UNINITIALIZED_LONG then Some (0, 0, m, hf)
     else do {
       (first_rel_from, m, hf) \<leftarrow> load_rel hf m 1 (n_first_relationship from_node) log;
       first \<leftarrow> m first_rel_from;
       let temp_id = (if n_id from_node = r_source_node first then r_prev_rel_source first else r_prev_rel_target first);
       (last_rel_from, m, hf) \<leftarrow> (if temp_id = n_first_relationship from_node then Some (first_rel_from, m, hf)
         else load_rel hf m 2 temp_id log);
       Some (first_rel_from, last_rel_from, m, hf) })"

text \<open>The same for the target node, where structs that are in memory already are shared.\<close>

definition chain_ends_to ::
    "heap_file \<Rightarrow> rel_mem \<Rightarrow> addr \<Rightarrow> addr \<Rightarrow> node_t \<Rightarrow> bool \<Rightarrow> (addr \<times> addr \<times> rel_mem \<times> heap_file) option" where
  "chain_ends_to hf m first_rel_from last_rel_from to_node log =
    (if n_first_relationship to_node = UNINITIALIZED_LONG then Some (0, 0, m, hf)
     else do {
       ff \<leftarrow> m first_rel_from;
       lf \<leftarrow> m last_rel_from;
       (first_rel_to, m, hf) \<leftarrow>
         (if n_first_relationship to_node = r_id ff then Some (first_rel_from, m, hf)
          else if n_first_relationship to_node = r_id lf then Some (last_rel_from, m, hf)
          else load_rel hf m 3 (n_first_relationship to_node) log);
       ft \<leftarrow> m first_rel_to;
       let temp_id = (if n_id to_node = r_source_node ft then r_prev_rel_source ft else r_prev_rel_target ft);
       (last_rel_to, m, hf) \<leftarrow>
         (if temp_id = r_id ff then Some (first_rel_from, m, hf)
          else if temp_id = r_id lf then Some (last_rel_from, m, hf)
          else if temp_id = n_first_relationship to_node then Some (first_rel_to, m, hf)
          else load_rel hf m 4 temp_id log);
       Some (first_rel_to, last_rel_to, m, hf) })"

text \<open>Setting the next or previous pointer at the ends of a struct that belong to a node.\<close>

definition set_next :: "ulong \<Rightarrow> ulong \<Rightarrow> relationship_t \<Rightarrow> relationship_t" where
  "set_next node_id v r =
    (let r = (if r_source_node r = node_id then r\<lparr>r_next_rel_source := v\<rparr> else r) in
     if r_target_node r = node_id then r\<lparr>r_next_rel_target := v\<rparr> else r)"

definition set_prev :: "ulong \<Rightarrow> ulong \<Rightarrow> relationship_t \<Rightarrow> relationship_t" where
  "set_prev node_id v r =
    (let r = (if r_source_node r = node_id then r\<lparr>r_prev_rel_source := v\<rparr> else r) in
     if r_target_node r = node_id then r\<lparr>r_prev_rel_target := v\<rparr> else r)"

definition link_rel :: "rel_mem \<Rightarrow> addr \<Rightarrow> addr \<Rightarrow> addr \<Rightarrow> addr \<Rightarrow> ulong \<Rightarrow> ulong \<Rightarrow> rel_mem option" where
  "link_rel m first_rel_from last_rel_from first_rel_to last_rel_to from_node_id to_node_id = do {
     lf \<leftarrow> m last_rel_from; ff \<leftarrow> m first_rel_from; lt \<leftarrow> m last_rel_to; ft \<leftarrow> m first_rel_to;
     m \<leftarrow> upd_rel m 0 (\<lambda>r. r\<lparr>r_prev_rel_source := r_id lf, r_next_rel_source := r_id ff,
       r_prev_rel_target := r_id lt, r_next_rel_target := r_id ft\<rparr>);
     rel \<leftarrow> m 0;
     m \<leftarrow> upd_rel m last_rel_from (set_next from_node_id (r_id rel));
     m \<leftarrow> upd_rel m last_rel_to (set_next to_node_id (r_id rel));
     m \<leftarrow> upd_rel m first_rel_from (set_prev from_node_id (r_id rel));
     upd_rel m first_rel_to (set_prev to_node_id (r_id rel)) }"

text \<open>Writing back and freeing a struct.\<close>

definition write_free :: "heap_file \<Rightarrow> rel_mem \<Rightarrow> addr \<Rightarrow> bool \<Rightarrow> (rel_mem \<times> heap_file) option" where
  "write_free hf m p log = do {
     r \<leftarrow> m p;
     hf \<leftarrow> update_relationship_internal hf r False log;
     Some (m(p := None), hf) }"

definition write_back :: "heap_file \<Rightarrow> rel_mem \<Rightarrow> addr \<Rightarrow> addr \<Rightarrow> addr \<Rightarrow> addr \<Rightarrow> bool \<Rightarrow> (rel_mem \<times> heap_file) option" where
  "write_back hf m a b c d log = do {
     (m, hf) \<leftarrow> (if a \<noteq> 0 \<and> a \<noteq> b \<and> a \<noteq> c \<and> a \<noteq> d then write_free hf m a log else Some (m, hf));
     (m, hf) \<leftarrow> (if b \<noteq> 0 \<and> b \<noteq> c \<and> b \<noteq> d then write_free hf m b log else Some (m, hf));
     (m, hf) \<leftarrow> (if c \<noteq> 0 \<and> c \<noteq> d then write_free hf m c log else Some (m, hf));
     if d \<noteq> 0 then write_free hf m d log else Some (m, hf) }"

definition create_relationship ::
    "heap_file \<Rightarrow> ulong \<Rightarrow> ulong \<Rightarrow> double_bits \<Rightarrow> ulong \<Rightarrow> bool \<Rightarrow> (ulong \<times> heap_file) option" where
  "create_relationship hf from_node_id to_node_id weight label log =
    (if from_node_id = UNINITIALIZED_LONG \<or> to_node_id = UNINITIALIZED_LONG \<or> double_eq weight UNINITIALIZED_WEIGHT
     then None
     else do {
       hf \<leftarrow> next_free_slots hf False log;
       let rel_id = hf_last_alloc_rel_id hf;
       let m = Map.empty(0 \<mapsto> new_relationship\<lparr>r_id := rel_id, r_source_node := from_node_id,
         r_target_node := to_node_id, r_weight := weight, r_label := label\<rparr>);
       (from_node, hf) \<leftarrow> read_node hf from_node_id log;
       (to_node, hf) \<leftarrow> read_node hf to_node_id log;
       (first_rel_from, last_rel_from, m, hf) \<leftarrow> chain_ends_from hf m from_node log;
       (first_rel_to, last_rel_to, m, hf) \<leftarrow> chain_ends_to hf m first_rel_from last_rel_from to_node log;
       m \<leftarrow> link_rel m first_rel_from last_rel_from first_rel_to last_rel_to from_node_id to_node_id;
       hf \<leftarrow> (if n_first_relationship from_node = UNINITIALIZED_LONG
         then update_node hf (from_node\<lparr>n_first_relationship := rel_id\<rparr>) log else Some hf);
       hf \<leftarrow> (if n_first_relationship to_node = UNINITIALIZED_LONG
         then update_node hf (to_node\<lparr>n_first_relationship := rel_id\<rparr>) log else Some hf);
       (m, hf) \<leftarrow> write_back hf m first_rel_from last_rel_from first_rel_to last_rel_to log;
       rel \<leftarrow> m 0;
       hf \<leftarrow> update_relationship_internal hf rel False log;
       let hf = hf_log hf log ''create_rel'' (r_id rel) (r_label rel);
       Some (rel_id, hf\<lparr>hf_n_rels := hf_n_rels hf + 1\<rparr>) })"

section \<open>Deleting records\<close>

text \<open>
  The relinking in \<^verbatim>\<open>delete_relationship\<close>: previous and next relationship in the chain of the source node at
  addresses 1 and 2, in the chain of the target node at 3 and 4, shared where the ids agree.
\<close>

definition unlink_rel :: "heap_file \<Rightarrow> relationship_t \<Rightarrow> bool \<Rightarrow> heap_file option" where
  "unlink_rel hf rel log = do {
     let m = Map.empty(0 \<mapsto> rel);
     (prev_rel_from, m, hf) \<leftarrow> load_rel hf m 1 (r_prev_rel_source rel) log;
     pf \<leftarrow> m prev_rel_from;
     (next_rel_from, m, hf) \<leftarrow> (if r_next_rel_source rel = r_id pf then Some (prev_rel_from, m, hf)
       else load_rel hf m 2 (r_next_rel_source rel) log);
     nf \<leftarrow> m next_rel_from;
     (prev_rel_to, m, hf) \<leftarrow> (if r_prev_rel_target rel = r_id pf then Some (prev_rel_from, m, hf)
       else if r_prev_rel_target rel = r_id nf then Some (next_rel_from, m, hf)
       else load_rel hf m 3 (r_prev_rel_target rel) log);
     pt \<leftarrow> m prev_rel_to;
     (next_rel_to, m, hf) \<leftarrow> (if r_next_rel_target rel = r_id pf then Some (prev_rel_from, m, hf)
       else if r_next_rel_target rel = r_id nf then Some (next_rel_from, m, hf)
       else if r_next_rel_target rel = r_id pt then Some (prev_rel_to, m, hf)
       else load_rel hf m 4 (r_next_rel_target rel) log);
     m \<leftarrow> upd_rel m prev_rel_from (set_next (r_source_node rel) (r_next_rel_source rel));
     m \<leftarrow> upd_rel m next_rel_from (set_prev (r_source_node rel) (r_prev_rel_source rel));
     m \<leftarrow> upd_rel m prev_rel_to (set_next (r_target_node rel) (r_next_rel_target rel));
     m \<leftarrow> upd_rel m next_rel_to (set_prev (r_target_node rel) (r_prev_rel_target rel));
     (m, hf) \<leftarrow> write_back hf m next_rel_from prev_rel_from next_rel_to prev_rel_to log;
     Some hf }"

text \<open>The adjustment of a node whose first relationship is deleted.\<close>

definition unlink_node :: "heap_file \<Rightarrow> ulong \<Rightarrow> ulong \<Rightarrow> ulong \<Rightarrow> bool \<Rightarrow> heap_file option" where
  "unlink_node hf node_id rel_id next_rel log = do {
     (node, hf) \<leftarrow> read_node_internal hf node_id True log;
     if n_first_relationship node = rel_id then
       update_node hf (node\<lparr>n_first_relationship := (if next_rel = rel_id then UNINITIALIZED_LONG else next_rel)\<rparr>) log
     else Some hf }"

definition delete_relationship :: "heap_file \<Rightarrow> ulong \<Rightarrow> bool \<Rightarrow> heap_file option" where
  "delete_relationship hf rel_id log =
    (if rel_id = UNINITIALIZED_LONG then None
     else do {
       (rel, hf) \<leftarrow> read_relationship hf rel_id log;
       hf \<leftarrow> (if rel_id \<noteq> r_prev_rel_source rel then unlink_rel hf rel log else Some hf);
       hf \<leftarrow> unlink_node hf (r_source_node rel) (r_id rel) (r_next_rel_source rel) log;
       hf \<leftarrow> unlink_node hf (r_target_node rel) (r_id rel) (r_next_rel_target rel) log;
       let hf = hf_log hf log ''delete_rel'' rel_id (r_label rel);
       hf \<leftarrow> write_header_bits hf rel_id False 0 log;
       let hf = (if rel_id < hf_last_alloc_rel_id hf then hf\<lparr>hf_last_alloc_rel_id := rel_id\<rparr> else hf);
       Some (hf\<lparr>hf_n_rels := hf_n_rels hf - 1\<rparr>) })"

text \<open>The loop of \<^verbatim>\<open>delete_node\<close> walks the chain backwards.\<close>

partial_function (option) delete_chain_loop :: "heap_file \<Rightarrow> ulong \<Rightarrow> bool \<Rightarrow> ulong \<Rightarrow> ulong \<Rightarrow> heap_file option" where
  "delete_chain_loop hf node_id log prev_rel_id last_id =
    (if prev_rel_id = last_id then Some hf
     else do {
       (rel, hf) \<leftarrow> read_relationship hf prev_rel_id log;
       prev \<leftarrow> (if node_id = r_source_node rel then Some (r_prev_rel_source rel)
         else if node_id = r_target_node rel then Some (r_prev_rel_target rel) else None);
       hf \<leftarrow> delete_relationship hf (r_id rel) log;
       delete_chain_loop hf node_id log prev prev_rel_id })"

definition delete_node :: "heap_file \<Rightarrow> ulong \<Rightarrow> bool \<Rightarrow> heap_file option" where
  "delete_node hf node_id log =
    (if node_id = UNINITIALIZED_LONG then None
     else do {
       (node, hf) \<leftarrow> read_node_internal hf node_id True log;
       hf \<leftarrow> (if n_first_relationship node \<noteq> UNINITIALIZED_LONG then do {
           (rel, hf) \<leftarrow> read_relationship hf (n_first_relationship node) log;
           let prev_rel_id = (if node_id = r_source_node rel then r_prev_rel_source rel else r_prev_rel_target rel);
           delete_chain_loop hf node_id log prev_rel_id UNINITIALIZED_LONG }
         else Some hf);
       let hf = hf_log hf log ''delete_node'' node_id (n_label node);
       hf \<leftarrow> write_header_bits hf node_id True 0 log;
       let hf = (if node_id < hf_last_alloc_node_id hf then hf\<lparr>hf_last_alloc_node_id := node_id\<rparr> else hf);
       Some (hf\<lparr>hf_n_nodes := hf_n_nodes hf - 1\<rparr>) })"

section \<open>Scans\<close>

definition al_node_create :: "node_t array_list" where
  "al_node_create = al_create node_equals"

definition al_rel_create :: "relationship_t array_list" where
  "al_rel_create = al_create relationship_equals"

partial_function (option) get_nodes_loop ::
    "heap_file \<Rightarrow> bool \<Rightarrow> ulong \<Rightarrow> nat \<Rightarrow> nat \<Rightarrow> node_t array_list \<Rightarrow> (node_t array_list \<times> heap_file) option" where
  "get_nodes_loop hf log cur_id record_page_id slot_in_page result = do {
     (used, hf) \<leftarrow> check_record_exists hf cur_id True log;
     (result, hf) \<leftarrow> (if used then do {
         (node, hf) \<leftarrow> read_node_internal hf cur_id False log;
         result \<leftarrow> al_append result node;
         Some (result, hf_log hf log ''read_node'' (n_id node) (n_label node)) }
       else Some (result, hf));
     (case next_slot NUM_SLOTS_PER_NODE record_page_id slot_in_page of (record_page_id, slot_in_page) \<Rightarrow>
       if record_page_id < rec_pages hf True
       then get_nodes_loop hf log (slot_id record_page_id slot_in_page) record_page_id slot_in_page result
       else Some (result, hf)) }"

definition get_nodes :: "heap_file \<Rightarrow> bool \<Rightarrow> (node_t array_list \<times> heap_file) option" where
  "get_nodes hf log = get_nodes_loop hf log 0 0 0 al_node_create"

partial_function (option) get_relationships_loop ::
    "heap_file \<Rightarrow> bool \<Rightarrow> ulong \<Rightarrow> nat \<Rightarrow> nat \<Rightarrow> relationship_t array_list \<Rightarrow>
      (relationship_t array_list \<times> heap_file) option" where
  "get_relationships_loop hf log cur_id record_page_id slot_in_page result = do {
     (used, hf) \<leftarrow> check_record_exists hf cur_id False log;
     (result, hf) \<leftarrow> (if used then do {
         (rel, hf) \<leftarrow> read_relationship_internal hf cur_id False log;
         result \<leftarrow> al_append result rel;
         Some (result, hf_log hf log ''read_rel'' (r_id rel) (r_label rel)) }
       else Some (result, hf));
     (case next_slot NUM_SLOTS_PER_REL record_page_id slot_in_page of (record_page_id, slot_in_page) \<Rightarrow>
       if record_page_id < rec_pages hf False
       then get_relationships_loop hf log (slot_id record_page_id slot_in_page) record_page_id slot_in_page result
       else Some (result, hf)) }"

definition get_relationships :: "heap_file \<Rightarrow> bool \<Rightarrow> (relationship_t array_list \<times> heap_file) option" where
  "get_relationships hf log = get_relationships_loop hf log 0 0 0 al_rel_create"

partial_function (option) find_node_loop ::
    "heap_file \<Rightarrow> ulong \<Rightarrow> bool \<Rightarrow> ulong \<Rightarrow> nat \<Rightarrow> nat \<Rightarrow> (node_t \<times> heap_file) option" where
  "find_node_loop hf label log cur_id record_page_id slot_in_page = do {
     (used, hf) \<leftarrow> check_record_exists hf cur_id True log;
     (found, hf) \<leftarrow> (if used then do {
         (node, hf) \<leftarrow> read_node_internal hf cur_id False log;
         let hf = hf_log hf log ''read_node'' (n_id node) (n_label node);
         Some (if label = n_label node then Some node else None, hf) }
       else Some (None, hf));
     (case found of Some node \<Rightarrow> Some (node, hf)
      | None \<Rightarrow>
        (case next_slot NUM_SLOTS_PER_NODE record_page_id slot_in_page of (record_page_id, slot_in_page) \<Rightarrow>
          if record_page_id < rec_pages hf True
          then find_node_loop hf label log (slot_id record_page_id slot_in_page) record_page_id slot_in_page
          else None)) }"

definition find_node :: "heap_file \<Rightarrow> ulong \<Rightarrow> bool \<Rightarrow> (node_t \<times> heap_file) option" where
  "find_node hf label log = find_node_loop hf label log 0 0 0"

partial_function (option) find_relationships_loop ::
    "heap_file \<Rightarrow> ulong \<Rightarrow> bool \<Rightarrow> ulong \<Rightarrow> nat \<Rightarrow> nat \<Rightarrow> (relationship_t \<times> heap_file) option" where
  "find_relationships_loop hf label log cur_id record_page_id slot_in_page = do {
     (used, hf) \<leftarrow> check_record_exists hf cur_id False log;
     (found, hf) \<leftarrow> (if used then do {
         (rel, hf) \<leftarrow> read_relationship_internal hf cur_id False log;
         let hf = hf_log hf log ''read_rel'' (r_id rel) (r_label rel);
         Some (if label = r_label rel then Some rel else None, hf) }
       else Some (None, hf));
     (case found of Some rel \<Rightarrow> Some (rel, hf)
      | None \<Rightarrow>
        (case next_slot NUM_SLOTS_PER_REL record_page_id slot_in_page of (record_page_id, slot_in_page) \<Rightarrow>
          if record_page_id < rec_pages hf False
          then find_relationships_loop hf label log (slot_id record_page_id slot_in_page) record_page_id slot_in_page
          else None)) }"

definition find_relationships :: "heap_file \<Rightarrow> ulong \<Rightarrow> bool \<Rightarrow> (relationship_t \<times> heap_file) option" where
  "find_relationships hf label log = find_relationships_loop hf label log 0 0 0"

definition heap_file_create :: "page_cache \<Rightarrow> string \<Rightarrow> heap_file option" where
  "heap_file_create pc log_path = do {
     let hf = \<lparr>hf_cache = pc, hf_n_nodes = 0, hf_n_rels = 0, hf_last_alloc_node_id = 0, hf_last_alloc_rel_id = 0,
       hf_num_reads_nodes = 0, hf_num_updates_nodes = 0, hf_num_reads_rels = 0, hf_num_update_rels = 0,
       hf_log_file = log_path, hf_trace = []\<rparr>;
     (nodes, hf) \<leftarrow> get_nodes hf False;
     let hf = hf\<lparr>hf_n_nodes := word_of_nat (al_size nodes)\<rparr>;
     (rels, hf) \<leftarrow> get_relationships hf False;
     Some (hf\<lparr>hf_n_rels := word_of_nat (al_size rels)\<rparr>) }"

definition heap_file_destroy :: "heap_file \<Rightarrow> page_cache" where
  "heap_file_destroy hf = hf_cache hf"

definition heap_file_swap_log_file :: "heap_file \<Rightarrow> string \<Rightarrow> heap_file" where
  "heap_file_swap_log_file hf log_file_path = hf\<lparr>hf_log_file := log_file_path\<rparr>"

section \<open>Chains\<close>

text \<open>The relationship after another one in the chain of a node; a relationship of another node ends the program.\<close>

definition next_at :: "relationship_t \<Rightarrow> ulong \<Rightarrow> ulong option" where
  "next_at rel node_id =
    (if node_id = r_source_node rel then Some (r_next_rel_source rel)
     else if node_id = r_target_node rel then Some (r_next_rel_target rel) else None)"

definition dir_matches :: "relationship_t \<Rightarrow> ulong \<Rightarrow> direction_t \<Rightarrow> bool" where
  "dir_matches rel node_id direction \<longleftrightarrow>
     (r_source_node rel = node_id \<and> direction \<noteq> INCOMING) \<or> (r_target_node rel = node_id \<and> direction \<noteq> OUTGOING)"

partial_function (option) next_relationship_loop ::
    "heap_file \<Rightarrow> ulong \<Rightarrow> ulong \<Rightarrow> direction_t \<Rightarrow> bool \<Rightarrow> ulong \<Rightarrow> (ulong \<times> heap_file) option" where
  "next_relationship_loop hf node_id start_rel_id direction log rel_id = do {
     (rel, hf) \<leftarrow> read_relationship hf rel_id log;
     if rel_id \<noteq> start_rel_id \<and> dir_matches rel node_id direction then Some (r_id rel, hf)
     else do {
       rel_id \<leftarrow> next_at rel node_id;
       if rel_id \<noteq> start_rel_id then next_relationship_loop hf node_id start_rel_id direction log rel_id
       else Some (UNINITIALIZED_LONG, hf) } }"

definition next_relationship_id ::
    "heap_file \<Rightarrow> ulong \<Rightarrow> relationship_t \<Rightarrow> direction_t \<Rightarrow> bool \<Rightarrow> (ulong \<times> heap_file) option" where
  "next_relationship_id hf node_id rel direction log =
    (if node_id = UNINITIALIZED_LONG then None
     else do {
       rel_id \<leftarrow> next_at rel node_id;
       next_relationship_loop hf node_id (r_id rel) direction log rel_id })"

partial_function (option) expand_loop ::
    "heap_file \<Rightarrow> ulong \<Rightarrow> direction_t \<Rightarrow> bool \<Rightarrow> ulong \<Rightarrow> ulong \<Rightarrow> relationship_t array_list \<Rightarrow>
      (relationship_t array_list \<times> heap_file) option" where
  "expand_loop hf node_id direction log start_id rel_id result =
    (if rel_id = UNINITIALIZED_LONG then Some (result, hf)
     else do {
       (rel, hf) \<leftarrow> read_relationship hf rel_id log;
       result \<leftarrow> al_append result rel;
       (rel_id, hf) \<leftarrow> next_relationship_id hf node_id rel direction log;
       if rel_id = start_id then Some (result, hf)
       else expand_loop hf node_id direction log start_id rel_id result })"

definition expand :: "heap_file \<Rightarrow> ulong \<Rightarrow> direction_t \<Rightarrow> bool \<Rightarrow> (relationship_t array_list \<times> heap_file) option" where
  "expand hf node_id direction log = do {
     (node, hf) \<leftarrow> read_node hf node_id log;
     let result = al_rel_create;
     let rel_id = n_first_relationship node;
     if rel_id = UNINITIALIZED_LONG then Some (result, hf)
     else do {
       (rel, hf) \<leftarrow> read_relationship hf rel_id log;
       (rel_id, hf) \<leftarrow> (if dir_matches rel node_id direction then Some (rel_id, hf)
         else next_relationship_id hf node_id rel direction log);
       expand_loop hf node_id direction log rel_id rel_id result } }"

partial_function (option) contains_loop ::
    "heap_file \<Rightarrow> ulong \<Rightarrow> ulong \<Rightarrow> direction_t \<Rightarrow> bool \<Rightarrow> ulong \<Rightarrow> ulong \<Rightarrow> (relationship_t option \<times> heap_file) option" where
  "contains_loop hf node_from node_to direction log start_id next_id = do {
     (rel, hf) \<leftarrow> read_relationship hf next_id log;
     if (direction \<noteq> INCOMING \<and> r_source_node rel = node_from \<and> r_target_node rel = node_to)
        \<or> (direction \<noteq> OUTGOING \<and> r_source_node rel = node_to \<and> r_target_node rel = node_from)
     then Some (Some rel, hf)
     else do {
       (next_id, hf) \<leftarrow> next_relationship_id hf node_from rel direction log;
       if next_id \<noteq> start_id \<and> next_id \<noteq> UNINITIALIZED_LONG
       then contains_loop hf node_from node_to direction log start_id next_id
       else Some (None, hf) } }"

definition contains_relationship_from_to ::
    "heap_file \<Rightarrow> ulong \<Rightarrow> ulong \<Rightarrow> direction_t \<Rightarrow> bool \<Rightarrow> (relationship_t option \<times> heap_file) option" where
  "contains_relationship_from_to hf node_from node_to direction log =
    (if node_from = UNINITIALIZED_LONG \<or> node_to = UNINITIALIZED_LONG then Some (None, hf)
     else do {
       (ex_from, hf) \<leftarrow> check_record_exists hf node_from True log;
       if \<not> ex_from then Some (None, hf)
       else do {
         (ex_to, hf) \<leftarrow> check_record_exists hf node_to True log;
         if \<not> ex_to then Some (None, hf)
         else do {
           (source_node, hf) \<leftarrow> read_node_internal hf node_from False log;
           (target_node, hf) \<leftarrow> read_node_internal hf node_to False log;
           let hf = hf_log hf log ''read_node'' (n_id source_node) (n_label source_node);
           let hf = hf_log hf log ''read_node'' (n_id target_node) (n_label target_node);
           if n_first_relationship source_node = UNINITIALIZED_LONG
              \<or> n_first_relationship target_node = UNINITIALIZED_LONG then Some (None, hf)
           else contains_loop hf node_from node_to direction log
             (n_first_relationship source_node) (n_first_relationship source_node) } } })"

end
