(* ===== verification/Heap_Slots.thy ===== *)
theory Heap_Slots
  imports Heap_File
begin

text \<open>
  The slots of the heap file. A database with its cache shows a map of nodes and a map of relationships, given by
  the header bits and the record pages. The lemmas are the contract of the
  slot level on these maps: when a record exists, reading and writing it, allocating and freeing slots.
  The theories on chains and queries use this contract only.
\<close>

section \<open>The maps a heap file stands for\<close>

definition rec_used :: "page_cache \<Rightarrow> bool \<Rightarrow> ulong \<Rightarrow> bool" where
  "rec_used pc node i \<longleftrightarrow> i mod rec_slots node = 0 \<and> db_has pc (header, rec_ft node, i div 32768) \<and>
     (\<forall>j < rec_slots node. hbit (key_view pc (header, rec_ft node, i div 32768)) (i mod 32768 + j))"

definition hf_nodes :: "heap_file \<Rightarrow> ulong \<rightharpoonup> node_t" where
  "hf_nodes hf i = (if rec_used (hf_cache hf) True i
     then Some (get_node (key_view (hf_cache hf) (records, node_ft, i div 256)) i) else None)"

definition hf_rels :: "heap_file \<Rightarrow> ulong \<rightharpoonup> relationship_t" where
  "hf_rels hf i = (if rec_used (hf_cache hf) False i
     then Some (get_rel (key_view (hf_cache hf) (records, relationship_ft, i div 256)) i) else None)"

text \<open>Header bits of slots that no page has are zero.\<close>

definition header_clean :: "page_cache \<Rightarrow> bool \<Rightarrow> bool" where
  "header_clean pc node \<longleftrightarrow> (\<forall>s. 256 * pc_pages pc records (rec_ft node) \<le> s \<and> db_has pc (header, rec_ft node, s div 32768) \<longrightarrow>
     \<not> hbit (key_view pc (header, rec_ft node, s div 32768)) (s mod 32768))"

text \<open>Between the operations of the heap file no page is pinned.\<close>

definition db_idle :: "page_cache \<Rightarrow> bool" where
  "db_idle pc \<longleftrightarrow> db_ready (pc_n_frames pc) pc \<and> 0 < pc_n_frames pc"

lemma db_ready_mono: "db_ready k pc \<Longrightarrow> j \<le> k \<Longrightarrow> db_ready j pc"
  by (auto simp: db_ready_def intro: ready_mono)

lemma db_idle_ready: "db_idle pc \<Longrightarrow> db_ready (Suc 0) pc"
  by (auto simp: db_idle_def intro: db_ready_mono)

definition hf_inv :: "heap_file \<Rightarrow> bool" where
  "hf_inv hf \<longleftrightarrow> db_idle (hf_cache hf) \<and> header_clean (hf_cache hf) True \<and> header_clean (hf_cache hf) False \<and>
     hf_last_alloc_rel_id hf mod 4 = 0"

text \<open>
  Besides the maps an operation may look at the sizes of the files, the capacity of the cache, the position
  where the search for free slots starts, and the counters of records.
\<close>

type_synonym db_cap = "bool \<times> nat \<times> nat \<times> string \<times> string list \<times> string list"

definition db_cap :: "page_cache \<Rightarrow> db_cap" where
  "db_cap pc = (pc_bulk_import pc, pc_n_frames pc, pc_pages pc catalogue node_ft, pd_names (pc_pdb pc))"

definition hf_frame :: "heap_file \<Rightarrow> db_cap \<times> (page_key \<Rightarrow> bool) \<times> ulong \<times> ulong \<times> 64 word \<times> 64 word" where
  "hf_frame hf = (db_cap (hf_cache hf), db_has (hf_cache hf),
     hf_last_alloc_node_id hf, hf_last_alloc_rel_id hf, hf_n_nodes hf, hf_n_rels hf)"

definition hf_eff :: "(ulong \<rightharpoonup> node_t) \<Rightarrow> (ulong \<rightharpoonup> relationship_t) \<Rightarrow> heap_file \<Rightarrow> heap_file \<Rightarrow> bool" where
  "hf_eff N R hf hf' \<longleftrightarrow> hf_inv hf' \<and> hf_nodes hf' = N \<and> hf_rels hf' = R \<and> hf_frame hf' = hf_frame hf"

abbreviation hf_same :: "heap_file \<Rightarrow> heap_file \<Rightarrow> bool" where
  "hf_same hf hf' \<equiv> hf_eff (hf_nodes hf) (hf_rels hf) hf hf'"

lemma hf_same_refl [simp]: "hf_inv hf \<Longrightarrow> hf_same hf hf"
  by (simp add: hf_eff_def)

lemma hf_eff_trans:
  "hf_eff N R a b \<Longrightarrow> hf_eff N' R' b c \<Longrightarrow> hf_eff N' R' a c"
  by (simp add: hf_eff_def)

lemma hf_same_trans: "hf_same a b \<Longrightarrow> hf_same b c \<Longrightarrow> hf_same a c"
  by (simp add: hf_eff_def)

lemma hf_effD:
  assumes "hf_eff N R hf hf'"
  shows "hf_inv hf'" "hf_nodes hf' = N" "hf_rels hf' = R" "hf_frame hf' = hf_frame hf"
  using assms by (simp_all add: hf_eff_def)

lemma hf_inv_ready: "hf_inv hf \<Longrightarrow> db_idle (hf_cache hf)"
  by (simp add: hf_inv_def)

lemma hf_inv_clean: "hf_inv hf \<Longrightarrow> header_clean (hf_cache hf) node"
  by (cases node) (simp_all add: hf_inv_def)

section \<open>The cache keeps its capacity\<close>

definition db_open :: "db_cap \<Rightarrow> nat \<Rightarrow> page_cache \<Rightarrow> bool" where
  "db_open cap k pc \<longleftrightarrow> db_ready k pc \<and> db_cap pc = cap"

interpretation dbc: live_store pc_inv key_view key_pins key_frame "key_pin log" "key_unpin log" frame_at set_frame
    "db_open cap" db_has for log cap
proof unfold_locales
  fix j and s s' :: page_cache and k :: page_key and f :: nat and p d
  obtain fk ft pn where k: "k = (fk, ft, pn)" by (cases k)
  have vc: "valid_file catalogue node_ft" by (simp add: valid_file_def)
  have inv: "db_ready j s \<Longrightarrow> pc_inv s" for j by (rule db.ready_inv)
  then show "db_open cap j s \<Longrightarrow> pc_inv s" by (auto simp: db_open_def)
  show "\<exists>f s'. key_pin log s k = Some (f, s') \<and> db_open cap j s' \<and> db_has s' = db_has s \<and> key_pins s k + 1 \<noteq> 0"
    if rdy: "db_open cap (Suc j) s" and h: "db_has s k"
  proof -
    have r: "db_ready (Suc j) s" using rdy by (simp add: db_open_def)
    obtain f s' where s': "key_pin log s k = Some (f, s')" "db_ready j s'" "db_has s' = db_has s" "key_pins s k + 1 \<noteq> 0"
      using db.pin_total [OF r h] by blast
    have "pin_page s pn fk ft log = Some (f, s')" using s'(1) by (simp add: k key_pin_def)
    from pin_page_step [OF inv [OF r] this] pin_page_quiet [OF this] have "db_cap s' = db_cap s"
      using vc h by (simp add: pin_spec_def db_cap_def quiet_def pd_sig_def db_has_def k)
    with s' rdy show ?thesis by (simp add: db_open_def)
  qed
  show "\<exists>s'. key_unpin log s k = Some s' \<and> db_open cap (Suc j) s' \<and> db_has s' = db_has s"
    if rdy: "db_open cap j s" and h: "db_has s k" and n: "key_pins s k \<noteq> 0"
  proof -
    have r: "db_ready j s" using rdy by (simp add: db_open_def)
    obtain s' where s': "key_unpin log s k = Some s'" "db_ready (Suc j) s'" "db_has s' = db_has s"
      using db.unpin_total [OF r h n] by blast
    have "unpin_page s pn fk ft log = Some s'" using s'(1) by (simp add: k key_unpin_def)
    from unpin_page_step [OF inv [OF r] this] unpin_page_quiet [OF this] have "db_cap s' = db_cap s"
      using vc by (simp add: unpin_spec_def db_cap_def quiet_def pd_sig_def)
    with s' rdy show ?thesis by (simp add: db_open_def)
  qed
  show "db_open cap j s' \<and> db_has s' = db_has s"
    if rdy: "db_open cap j s" and h: "db_has s k" and f: "key_frame s k = Some f" and p: "frame_at s f = Some p"
      and s': "s' = set_frame s f (p\<lparr>pg_data := d, pg_dirty := True\<rparr>)"
    using db.put_ready [of j s k f p s' d] rdy h f p s' by (simp add: db_open_def db_cap_def pc_pages_def)
qed

text \<open>Visits of a page, as steps of the heap file.\<close>

lemma read_page_visit:
  assumes rdy: "db_idle pc" and h: "db_has pc (fk, ft, pn)"
    and rd: "\<And>p. page_of (pg_data p) = key_view pc (fk, ft, pn) \<Longrightarrow> pg_pin_count p \<noteq> 0 \<Longrightarrow> rd p = Some x"
  obtains f pc1 p pc2 where "pin_page pc pn fk ft log = Some (f, pc1)" "frame_at pc1 f = Some p" "rd p = Some x"
    "unpin_page pc1 pn fk ft log = Some pc2" "db_idle pc2" "key_view pc2 = key_view pc" "db_has pc2 = db_has pc"
    "db_cap pc2 = db_cap pc"
proof -
  obtain j where j: "pc_n_frames pc = Suc j" "db_open (db_cap pc) (Suc j) pc" using rdy by (cases "pc_n_frames pc") (auto simp: db_open_def db_idle_def)
  from dbc.read_visit [OF j(2) h, of rd x log] rd j(1)
  show ?thesis
    by (auto simp: bind_eq_Some_conv key_pin_def key_unpin_def db_open_def db_idle_def db_cap_def intro: that)
qed

lemma write_page_visit:
  assumes rdy: "db_idle pc" and h: "db_has pc (fk, ft, pn)"
    and wr: "\<And>p. page_of (pg_data p) = key_view pc (fk, ft, pn) \<Longrightarrow> pg_pin_count p \<noteq> 0 \<Longrightarrow>
      \<exists>d. wr p = Some (p\<lparr>pg_data := d, pg_dirty := True\<rparr>) \<and> page_of d = D"
  obtains f pc1 p q pc2 where "pin_page pc pn fk ft log = Some (f, pc1)" "frame_at pc1 f = Some p" "wr p = Some q"
    "unpin_page (set_frame pc1 f q) pn fk ft log = Some pc2" "db_idle pc2"
    "key_view pc2 = (key_view pc)((fk, ft, pn) := D)" "db_has pc2 = db_has pc" "db_cap pc2 = db_cap pc"
proof -
  obtain j where j: "pc_n_frames pc = Suc j" "db_open (db_cap pc) (Suc j) pc" using rdy by (cases "pc_n_frames pc") (auto simp: db_open_def db_idle_def)
  from dbc.write_visit [OF j(2) h, of wr D log] wr j(1)
  show ?thesis
    by (auto simp: bind_eq_Some_conv key_pin_def key_unpin_def db_open_def db_idle_def db_cap_def intro: that)
qed

section \<open>Slot numbers\<close>

lemma rec_simps [simp]:
  "rec_slots True = 1" "rec_slots False = 4" "rec_ft True = node_ft" "rec_ft False = relationship_ft"
  by (simp_all add: rec_slots_def rec_ft_def slots_eq)

lemma rec_slots_cases: "rec_slots node = 1 \<or> rec_slots node = 4"
  by (cases node) simp_all

lemma rec_ft_valid [simp]: "rec_ft node \<noteq> invalid_ft"
  by (cases node) simp_all

lemma slot_split: "drop_bit CHAR_BIT i = i div 256" "i AND UCHAR_MAX = i mod 256"
  "(i div 256) * SLOTS_PER_PAGE + i mod 256 = i" for i :: nat
proof -
  show "drop_bit CHAR_BIT i = i div 256" by (simp add: CHAR_BIT_def drop_bit_eq_div)
  show "i AND UCHAR_MAX = i mod 256"
    using take_bit_eq_mask [of 8 i] by (simp add: UCHAR_MAX_def mask_eq_exp_minus_1 take_bit_eq_mod)
  show "(i div 256) * SLOTS_PER_PAGE + i mod 256 = i" unfolding SLOTS_PER_PAGE_eq by (rule div_mult_mod_eq)
qed

lemma bits_per_page: "PAGE_SIZE * CHAR_BIT = 32768" "PAGE_SIZE * 8 = 32768"
  by (simp_all add: PAGE_SIZE_def CHAR_BIT_def)

lemma aligned_slot:
  assumes "i mod rec_slots node = 0" "m mod 4 = 0" "0 < m"
  shows "i mod m + rec_slots node \<le> m"
proof (cases node)
  case False
  have "i mod m mod 4 = 0" using assms(1,2) False by (simp add: mod_mod_cancel mod_0_imp_dvd)
  then obtain a b where a: "i mod m = 4 * a" "m = 4 * b" using assms(2) by (metis mod_0_imp_dvd dvdE)
  moreover have "i mod m < m" using assms(3) by simp
  ultimately show ?thesis using False by simp
qed (use assms(3) mod_less_divisor [of m i] in \<open>simp add: Suc_le_eq\<close>)

lemma aligned_byte: "i mod rec_slots node = 0 \<Longrightarrow> i mod 32768 mod 8 + rec_slots node \<le> 8"
  using aligned_slot [of i node 8] by (simp add: mod_mod_cancel)

lemma aligned_in_page:
  assumes "s mod rec_slots node = 0" "s < 256"
  shows "s mod SLOTS_PER_PAGE \<le> (s + (rec_slots node - 1)) mod SLOTS_PER_PAGE"
proof -
  have "s + rec_slots node \<le> 256" using aligned_slot [OF assms(1), of 256] assms(2) by simp
  then have "s + (rec_slots node - 1) < 256" using rec_slots_cases [of node] by auto
  then show ?thesis using assms(2) by (simp add: SLOTS_PER_PAGE_eq)
qed

lemma mod_slots_page: "i mod 256 mod rec_slots node = i mod rec_slots node"
  by (cases node) (simp_all add: mod_mod_cancel)

lemma check_record_exists_eq:
  "check_record_exists hf i node log =
    (if i mod rec_slots node \<noteq> 0 then Some (False, hf)
     else do {
       (f, pc) \<leftarrow> pin_page (hf_cache hf) (i div 32768) header (rec_ft node) log;
       header_page \<leftarrow> frame_at pc f;
       result \<leftarrow> compare_bits (pg_data header_page) 32768 (-1) (i mod 32768) (rec_slots node);
       pc \<leftarrow> unpin_page pc (i div 32768) header (rec_ft node) log;
       Some (result, hf\<lparr>hf_cache := pc\<rparr>) })"
proof (cases "i mod rec_slots node = 0")
  case True
  have "i mod 256 mod SLOTS_PER_PAGE \<le> (i mod 256 + (rec_slots node - 1)) mod SLOTS_PER_PAGE"
    by (rule aligned_in_page) (simp_all add: mod_slots_page True)
  then show ?thesis using True
    unfolding check_record_exists_def Let_def slot_split bits_per_page by (cases node) (simp_all add: slots_eq)
qed (cases node; simp add: check_record_exists_def slots_eq)

section \<open>Existence\<close>

lemma db_has_pages:
  assumes "db_has a = db_has b" "valid_file fk ft" "fk \<noteq> catalogue"
  shows "pc_pages a fk ft = pc_pages b fk ft"
proof -
  have "p < pc_pages a fk ft \<longleftrightarrow> p < pc_pages b fk ft" for p
    using fun_cong [OF assms(1), of "(fk, ft, p)"] assms(2,3) by (simp add: db_has_def key_has_def)
  then show ?thesis by (metis linorder_neq_iff less_irrefl)
qed

lemma hf_same_cache:
  assumes inv: "hf_inv hf" and pc: "db_idle pc" "key_view pc = key_view (hf_cache hf)" "db_has pc = db_has (hf_cache hf)"
      "db_cap pc = db_cap (hf_cache hf)"
    and hf': "hf_cache hf' = pc" "hf_last_alloc_node_id hf' = hf_last_alloc_node_id hf"
      "hf_last_alloc_rel_id hf' = hf_last_alloc_rel_id hf" "hf_n_nodes hf' = hf_n_nodes hf" "hf_n_rels hf' = hf_n_rels hf"
  shows "hf_same hf hf'"
proof -
  have used: "rec_used (hf_cache hf') node i = rec_used (hf_cache hf) node i" for node i
    by (simp add: rec_used_def hf'(1) pc)
  have "pc_pages (hf_cache hf') records (rec_ft node) = pc_pages (hf_cache hf) records (rec_ft node)" for node
    by (rule db_has_pages) (simp_all add: hf'(1) pc valid_file_def)
  then have "header_clean (hf_cache hf') node = header_clean (hf_cache hf) node" for node
    by (simp add: header_clean_def hf'(1) pc)
  then have "hf_inv hf'" using inv pc(1) hf' by (simp add: hf_inv_def)
  moreover have "hf_nodes hf' = hf_nodes hf"
    by (rule ext, unfold hf_nodes_def used, simp add: hf'(1) pc)
  moreover have "hf_rels hf' = hf_rels hf"
    by (rule ext, unfold hf_rels_def used, simp add: hf'(1) pc)
  ultimately show ?thesis using hf' pc by (simp add: hf_eff_def hf_frame_def)
qed

lemma check_record_exists_ok:
  assumes inv: "hf_inv hf" and h: "db_has (hf_cache hf) (header, rec_ft node, i div 32768)"
  shows "\<exists>hf'. check_record_exists hf i node log = Some (rec_used (hf_cache hf) node i, hf') \<and> hf_same hf hf'"
proof (cases "i mod rec_slots node = 0")
  case True
  define x where "x = rec_used (hf_cache hf) node i"
  have b: "i mod 32768 + rec_slots node \<le> 32768" using True by (rule aligned_slot) simp_all
  have rd: "compare_bits (pg_data p) 32768 (-1) (i mod 32768) (rec_slots node) = Some x"
    if "page_of (pg_data p) = key_view (hf_cache hf) (header, rec_ft node, i div 32768)" for p
  proof -
    have "hbit (key_view (hf_cache hf) (header, rec_ft node, i div 32768)) (i mod 32768 + j) = hbit (pg_data p) (i mod 32768 + j)"
      if "j < rec_slots node" for j
      using that b \<open>page_of _ = _\<close> [symmetric] by (simp add: hbit_page_of bits_per_page)
    then show ?thesis
      using True h b aligned_byte [OF True] compare_bits_one_byte [of "i mod 32768" "rec_slots node" 32768 "pg_data p" "-1"]
      by (auto simp: x_def rec_used_def)
  qed
  obtain f pc1 p pc2 where v: "pin_page (hf_cache hf) (i div 32768) header (rec_ft node) log = Some (f, pc1)"
      "frame_at pc1 f = Some p" "compare_bits (pg_data p) 32768 (-1) (i mod 32768) (rec_slots node) = Some x"
      "unpin_page pc1 (i div 32768) header (rec_ft node) log = Some pc2" "db_idle pc2"
      "key_view pc2 = key_view (hf_cache hf)" "db_has pc2 = db_has (hf_cache hf)" "db_cap pc2 = db_cap (hf_cache hf)"
    by (rule read_page_visit [where rd = "\<lambda>p. compare_bits (pg_data p) 32768 (-1) (i mod 32768) (rec_slots node)" and log = log,
          OF hf_inv_ready [OF inv] h rd])
  then show ?thesis
    using True hf_same_cache [OF inv v(5-8), of "hf\<lparr>hf_cache := pc2\<rparr>"] by (simp add: check_record_exists_eq x_def)
qed (use inv in \<open>simp add: check_record_exists_eq rec_used_def\<close>)

text \<open>A record without a header page for it does not exist either, but asking for it ends the program.\<close>

lemma check_record_exists_exit:
  assumes "i mod rec_slots node = 0" "\<not> db_has (hf_cache hf) (header, rec_ft node, i div 32768)"
  shows "check_record_exists hf i node log = None"
  using assms pin_page_guards [of "hf_cache hf" "i div 32768" header "rec_ft node" log]
  by (cases "pin_page (hf_cache hf) (i div 32768) header (rec_ft node) log")
    (auto simp: check_record_exists_eq db_has_def key_has_def)

lemma check_record_exists_unused:
  assumes inv: "hf_inv hf" and u: "\<not> rec_used (hf_cache hf) node i"
  shows "check_record_exists hf i node log = None \<or> (\<exists>hf'. check_record_exists hf i node log = Some (False, hf') \<and> hf_same hf hf')"
proof (cases "db_has (hf_cache hf) (header, rec_ft node, i div 32768)")
  case True
  with check_record_exists_ok [OF inv this, of log] u show ?thesis by simp
next
  case False
  then show ?thesis
    using inv check_record_exists_exit [OF _ False] by (cases "i mod rec_slots node = 0") (auto simp: check_record_exists_eq)
qed

lemma header_has:
  assumes inv: "hf_inv hf" and i: "i < 256 * rec_pages hf node"
  shows "db_has (hf_cache hf) (header, rec_ft node, i div 32768)"
proof -
  let ?db = "pc_pdb (hf_cache hf)"
  have "pd_inv ?db" using inv by (simp add: hf_inv_def db_idle_def db_ready_def books_def)
  from pd_invD(6) [OF this, of "rec_ft node"]
  have "i < df_num_pages (pd_header ?db (rec_ft node)) * 32768"
    using i by (simp add: n_slots_def rec_pages_def PAGE_SIZE_def CHAR_BIT_def SLOTS_PER_PAGE_eq)
  then show ?thesis
    by (simp add: db_has_def key_has_def valid_file_def pc_pages_def file_of_def div_less_iff_less_mult)
qed

lemma rec_pages_eq: "pc_pages (hf_cache hf) records (rec_ft node) = rec_pages hf node"
  by (simp add: rec_pages_def pc_pages_def file_of_def)

lemma records_has: "db_has (hf_cache hf) (records, rec_ft node, p) \<longleftrightarrow> p < rec_pages hf node"
  by (simp add: db_has_def key_has_def valid_file_def rec_pages_eq)

lemma rec_pages_bound:
  assumes "hf_inv hf"
  shows "256 * rec_pages hf node < UNINITIALIZED_LONG"
proof -
  have "pd_inv (pc_pdb (hf_cache hf))" using assms by (simp add: hf_inv_def db_idle_def db_ready_def books_def)
  from pd_invD(4) [OF this, of "rec_ft node"] show ?thesis
    by (simp add: df_inv_def rec_pages_def MAX_PAGE_NO_def LONG_MAX_def PAGE_SIZE_def UNINITIALIZED_LONG_def)
qed

lemma rec_used_less:
  assumes inv: "hf_inv hf" and u: "rec_used (hf_cache hf) node i"
  shows "i < 256 * rec_pages hf node"
proof (rule ccontr)
  assume "\<not> i < 256 * rec_pages hf node"
  moreover have "db_has (hf_cache hf) (header, rec_ft node, i div 32768)"
    "hbit (key_view (hf_cache hf) (header, rec_ft node, i div 32768)) (i mod 32768)"
    using u rec_slots_cases [of node] unfolding rec_used_def
    by (simp, metis add_0_right zero_less_numeral zero_less_one)
  ultimately show False
    using hf_inv_clean [OF inv, of node] unfolding header_clean_def rec_pages_eq by (metis not_le)
qed

lemma rec_used_record:
  assumes "hf_inv hf" "rec_used (hf_cache hf) node i"
  shows "db_has (hf_cache hf) (records, rec_ft node, i div 256)" "i \<noteq> UNINITIALIZED_LONG" "i mod rec_slots node = 0"
proof -
  note l = rec_used_less [OF assms]
  then show "db_has (hf_cache hf) (records, rec_ft node, i div 256)"
    by (simp add: records_has div_less_iff_less_mult mult.commute)
  show "i \<noteq> UNINITIALIZED_LONG" using l rec_pages_bound [OF assms(1), of node] by auto
  show "i mod rec_slots node = 0" using assms(2) by (simp add: rec_used_def)
qed

section \<open>Reading records\<close>

definition checked :: "heap_file \<Rightarrow> ulong \<Rightarrow> bool \<Rightarrow> bool \<Rightarrow> bool \<Rightarrow> (bool \<times> heap_file) option" where
  "checked hf i node check log = (if check then check_record_exists hf i node log else Some (True, hf))"

lemma checked_ok:
  assumes inv: "hf_inv hf" and u: "rec_used (hf_cache hf) node i"
  obtains hf' where "checked hf i node check log = Some (True, hf')" "hf_same hf hf'"
  using check_record_exists_ok [OF inv header_has [OF inv rec_used_less [OF inv u]], of log] u inv
  by (cases check) (auto simp: checked_def)

lemma hf_nodes_SomeD:
  "hf_nodes hf i = Some n \<Longrightarrow> rec_used (hf_cache hf) True i \<and> n = get_node (key_view (hf_cache hf) (records, node_ft, i div 256)) i"
  by (simp add: hf_nodes_def split: if_splits)

lemma hf_rels_SomeD:
  "hf_rels hf i = Some r \<Longrightarrow> rec_used (hf_cache hf) False i \<and> r = get_rel (key_view (hf_cache hf) (records, relationship_ft, i div 256)) i"
  by (simp add: hf_rels_def split: if_splits)

lemma hf_eff_log [simp]: "hf_eff N R hf (hf_log hf' log e i l) = hf_eff N R hf hf'"
  by (simp add: hf_eff_def hf_log_def hf_inv_def hf_frame_def hf_nodes_def hf_rels_def fun_eq_iff)

lemma read_node_internal_ok:
  assumes inv: "hf_inv hf" and n: "hf_nodes hf i = Some n"
  shows "\<exists>hf'. read_node_internal hf i check log = Some (n, hf') \<and> hf_same hf hf'"
proof -
  have u: "rec_used (hf_cache hf) True i" using hf_nodes_SomeD [OF n] by simp
  obtain hf1 where c: "checked hf i True check log = Some (True, hf1)" "hf_same hf hf1" by (rule checked_ok [OF inv u])
  have i1: "hf_inv hf1" "hf_nodes hf1 i = Some n" using hf_effD [OF c(2)] n by simp_all
  note n1 = hf_nodes_SomeD [OF i1(2)]
  have rd: "node_read (new_node\<lparr>n_id := i\<rparr>) p = Some n"
    if "page_of (pg_data p) = key_view (hf_cache hf1) (records, node_ft, i div 256)" "pg_pin_count p \<noteq> 0" for p
    using that n1 get_node_page_of [of "pg_data p" i] by (simp add: node_read_eq)
  have h: "db_has (hf_cache hf1) (records, node_ft, i div 256)" using rec_used_record(1) [OF i1(1)] n1 by fastforce
  obtain f pc1 p pc2 where v: "pin_page (hf_cache hf1) (i div 256) records node_ft log = Some (f, pc1)"
      "frame_at pc1 f = Some p" "node_read (new_node\<lparr>n_id := i\<rparr>) p = Some n"
      "unpin_page pc1 (i div 256) records node_ft log = Some pc2" "db_idle pc2"
      "key_view pc2 = key_view (hf_cache hf1)" "db_has pc2 = db_has (hf_cache hf1)" "db_cap pc2 = db_cap (hf_cache hf1)"
    by (rule read_page_visit [where log = log, OF hf_inv_ready [OF i1(1)] h rd])
  define hf2 where "hf2 = hf1\<lparr>hf_cache := pc2, hf_num_reads_nodes := hf_num_reads_nodes hf1 + 1\<rparr>"
  have "hf_same hf1 hf2" by (rule hf_same_cache [OF i1(1) v(5-8)]) (simp_all add: hf2_def)
  with c(2) have "hf_same hf hf2" by (simp add: hf_eff_def)
  moreover have "read_node_internal hf i check log = Some (n, hf2)"
    using c(1) v(1-4) rec_used_record(2) [OF inv u] by (simp add: read_node_internal_def slot_split hf2_def checked_def)
  ultimately show ?thesis by blast
qed

lemma read_relationship_internal_ok:
  assumes inv: "hf_inv hf" and r: "hf_rels hf i = Some r"
  shows "\<exists>hf'. read_relationship_internal hf i check log = Some (r, hf') \<and> hf_same hf hf'"
proof -
  have u: "rec_used (hf_cache hf) False i" using hf_rels_SomeD [OF r] by simp
  have al: "i mod 4 = 0" using rec_used_record(3) [OF inv u] by simp
  obtain hf1 where c: "checked hf i False check log = Some (True, hf1)" "hf_same hf hf1" by (rule checked_ok [OF inv u])
  have i1: "hf_inv hf1" "hf_rels hf1 i = Some r" using hf_effD [OF c(2)] r by simp_all
  note r1 = hf_rels_SomeD [OF i1(2)]
  have rd: "relationship_read (new_relationship\<lparr>r_id := i\<rparr>) p = Some r"
    if "page_of (pg_data p) = key_view (hf_cache hf1) (records, relationship_ft, i div 256)" "pg_pin_count p \<noteq> 0" for p
    using that r1 get_rel_page_of [OF al, of "pg_data p"] al by (simp add: relationship_read_eq)
  have h: "db_has (hf_cache hf1) (records, relationship_ft, i div 256)" using rec_used_record(1) [OF i1(1)] r1 by fastforce
  obtain f pc1 p pc2 where v: "pin_page (hf_cache hf1) (i div 256) records relationship_ft log = Some (f, pc1)"
      "frame_at pc1 f = Some p" "relationship_read (new_relationship\<lparr>r_id := i\<rparr>) p = Some r"
      "unpin_page pc1 (i div 256) records relationship_ft log = Some pc2" "db_idle pc2"
      "key_view pc2 = key_view (hf_cache hf1)" "db_has pc2 = db_has (hf_cache hf1)" "db_cap pc2 = db_cap (hf_cache hf1)"
    by (rule read_page_visit [where log = log, OF hf_inv_ready [OF i1(1)] h rd])
  define hf2 where "hf2 = hf1\<lparr>hf_cache := pc2, hf_num_reads_rels := hf_num_reads_rels hf1 + 1\<rparr>"
  have "hf_same hf1 hf2" by (rule hf_same_cache [OF i1(1) v(5-8)]) (simp_all add: hf2_def)
  with c(2) have "hf_same hf hf2" by (simp add: hf_eff_def)
  moreover have "read_relationship_internal hf i check log = Some (r, hf2)"
    using c(1) v(1-4) rec_used_record(2) [OF inv u] by (simp add: read_relationship_internal_def slot_split hf2_def checked_def)
  ultimately show ?thesis by blast
qed

lemma read_internal_exit:
  "hf_inv hf \<Longrightarrow> hf_nodes hf i = None \<Longrightarrow> read_node_internal hf i True log = None"
  "hf_inv hf \<Longrightarrow> hf_rels hf i = None \<Longrightarrow> read_relationship_internal hf i True log = None"
  using check_record_exists_unused [of hf True i log] check_record_exists_unused [of hf False i log]
  by (auto simp: read_node_internal_def read_relationship_internal_def hf_nodes_def hf_rels_def split: if_splits)

lemma read_node_ok: "hf_inv hf \<Longrightarrow> hf_nodes hf i = Some n \<Longrightarrow> \<exists>hf'. read_node hf i log = Some (n, hf') \<and> hf_same hf hf'"
  using read_node_internal_ok [of hf i n True log] by (fastforce simp: read_node_def)

lemma read_relationship_ok:
  "hf_inv hf \<Longrightarrow> hf_rels hf i = Some r \<Longrightarrow> \<exists>hf'. read_relationship hf i log = Some (r, hf') \<and> hf_same hf hf'"
  using read_relationship_internal_ok [of hf i r True log] by (fastforce simp: read_relationship_def)

lemma read_exit:
  "hf_inv hf \<Longrightarrow> hf_nodes hf i = None \<Longrightarrow> read_node hf i log = None"
  "hf_inv hf \<Longrightarrow> hf_rels hf i = None \<Longrightarrow> read_relationship hf i log = None"
  by (simp_all add: read_node_def read_relationship_def read_internal_exit)

section \<open>Writing records\<close>

text \<open>A write to a record page changes the records of that page only.\<close>

lemma record_write:
  assumes inv: "hf_inv hf" and pc: "db_idle pc" "key_view pc = (key_view (hf_cache hf))((records, ft, p) := D)"
      "db_has pc = db_has (hf_cache hf)" "db_cap pc = db_cap (hf_cache hf)"
    and hf': "hf_cache hf' = pc" "hf_last_alloc_node_id hf' = hf_last_alloc_node_id hf"
      "hf_last_alloc_rel_id hf' = hf_last_alloc_rel_id hf" "hf_n_nodes hf' = hf_n_nodes hf" "hf_n_rels hf' = hf_n_rels hf"
  shows "hf_inv hf'" "hf_frame hf' = hf_frame hf" "rec_used (hf_cache hf') = rec_used (hf_cache hf)"
proof -
  show "rec_used (hf_cache hf') = rec_used (hf_cache hf)" by (intro ext) (simp add: rec_used_def hf'(1) pc)
  have "pc_pages (hf_cache hf') records (rec_ft node) = pc_pages (hf_cache hf) records (rec_ft node)" for node
    by (rule db_has_pages) (simp_all add: hf'(1) pc valid_file_def)
  then have "header_clean (hf_cache hf') node = header_clean (hf_cache hf) node" for node
    by (simp add: header_clean_def hf'(1) pc)
  then show "hf_inv hf'" using inv pc(1) hf' by (simp add: hf_inv_def)
  show "hf_frame hf' = hf_frame hf" using hf' pc by (simp add: hf_frame_def)
qed

lemma same_slot: "i div 256 = j div 256 \<Longrightarrow> i mod 256 = j mod 256 \<Longrightarrow> i = (j :: nat)"
  by (metis div_mult_mod_eq)

lemma update_node_internal_ok:
  assumes inv: "hf_inv hf" and u: "hf_nodes hf (n_id n) \<noteq> None" and ok: "node_ok n"
  shows "\<exists>hf'. update_node_internal hf n check log = Some hf' \<and> hf_eff ((hf_nodes hf)(n_id n \<mapsto> n)) (hf_rels hf) hf hf'"
proof -
  let ?i = "n_id n"
  have u: "rec_used (hf_cache hf) True ?i" using u by (auto simp: hf_nodes_def split: if_splits)
  obtain hf1 where c: "checked hf ?i True check log = Some (True, hf1)" "hf_same hf hf1" by (rule checked_ok [OF inv u])
  have i1: "hf_inv hf1" "hf_nodes hf1 = hf_nodes hf" using hf_effD [OF c(2)] by simp_all
  have u1: "rec_used (hf_cache hf1) True ?i" using u fun_cong [OF i1(2), of ?i] by (auto simp: hf_nodes_def split: if_splits)
  have h: "db_has (hf_cache hf1) (records, node_ft, ?i div 256)" using rec_used_record(1) [OF i1(1) u1] by simp
  define D where "D = page_of (put_node (key_view (hf_cache hf1) (records, node_ft, ?i div 256)) n)"
  have wr: "\<exists>d. node_write n p = Some (p\<lparr>pg_data := d, pg_dirty := True\<rparr>) \<and> page_of d = D"
    if "page_of (pg_data p) = key_view (hf_cache hf1) (records, node_ft, ?i div 256)" "pg_pin_count p \<noteq> 0" for p
    using node_write_eq [OF that(2), of n]
      page_of_put_node [of "pg_data p" "key_view (hf_cache hf1) (records, node_ft, ?i div 256)" n] that(1)
    by (intro exI [of _ "put_node (pg_data p) n"]) (simp add: D_def)
  obtain f pc1 p q pc2 where v: "pin_page (hf_cache hf1) (?i div 256) records node_ft log = Some (f, pc1)"
      "frame_at pc1 f = Some p" "node_write n p = Some q"
      "unpin_page (set_frame pc1 f q) (?i div 256) records node_ft log = Some pc2" "db_idle pc2"
      "key_view pc2 = (key_view (hf_cache hf1))((records, node_ft, ?i div 256) := D)"
      "db_has pc2 = db_has (hf_cache hf1)" "db_cap pc2 = db_cap (hf_cache hf1)"
    by (rule write_page_visit [where log = log, OF hf_inv_ready [OF i1(1)] h wr])
  define hf2 where "hf2 = hf1\<lparr>hf_cache := pc2, hf_num_updates_nodes := hf_num_updates_nodes hf1 + 1\<rparr>"
  have w: "hf_inv hf2" "hf_frame hf2 = hf_frame hf1" "rec_used (hf_cache hf2) = rec_used (hf_cache hf1)"
    by (rule record_write [OF i1(1) v(5-8)]; simp add: hf2_def)+
  have "hf_nodes hf2 i = ((hf_nodes hf1)(?i \<mapsto> n)) i" for i
    using u1 get_put_node [OF ok] get_put_node_other [of i n] same_slot [of i ?i]
    by (auto simp: hf_nodes_def w(3) v(6)) (auto simp: hf2_def v(6) D_def)
  moreover have "hf_rels hf2 i = hf_rels hf1 i" for i
    unfolding hf_rels_def w(3) by (simp add: hf2_def v(6))
  ultimately have "hf_nodes hf2 = (hf_nodes hf1)(?i \<mapsto> n)" "hf_rels hf2 = hf_rels hf1" by blast+
  then have "hf_eff ((hf_nodes hf)(?i \<mapsto> n)) (hf_rels hf) hf hf2" using w c(2) by (simp add: hf_eff_def)
  moreover have "update_node_internal hf n check log = Some hf2"
    using c(1) v(1-4) rec_used_record(2) [OF inv u] by (simp add: update_node_internal_def slot_split hf2_def checked_def)
  ultimately show ?thesis by blast
qed

definition rel_valid :: "relationship_t \<Rightarrow> bool" where
  "rel_valid r \<longleftrightarrow> rel_ok r \<and> r_source_node r \<noteq> UNINITIALIZED_LONG \<and> r_target_node r \<noteq> UNINITIALIZED_LONG \<and>
     \<not> double_eq (r_weight r) UNINITIALIZED_WEIGHT"

lemma update_relationship_internal_ok:
  assumes inv: "hf_inv hf" and u: "hf_rels hf (r_id r) \<noteq> None" and ok: "rel_valid r"
  shows "\<exists>hf'. update_relationship_internal hf r check log = Some hf' \<and> hf_eff (hf_nodes hf) ((hf_rels hf)(r_id r \<mapsto> r)) hf hf'"
proof -
  let ?i = "r_id r"
  have u: "rec_used (hf_cache hf) False ?i" using u by (auto simp: hf_rels_def split: if_splits)
  have al: "?i mod 4 = 0" using rec_used_record(3) [OF inv u] by simp
  obtain hf1 where c: "checked hf ?i False check log = Some (True, hf1)" "hf_same hf hf1" by (rule checked_ok [OF inv u])
  have i1: "hf_inv hf1" "hf_rels hf1 = hf_rels hf" using hf_effD [OF c(2)] by simp_all
  have u1: "rec_used (hf_cache hf1) False ?i" using u fun_cong [OF i1(2), of ?i] by (auto simp: hf_rels_def split: if_splits)
  have h: "db_has (hf_cache hf1) (records, relationship_ft, ?i div 256)" using rec_used_record(1) [OF i1(1) u1] by simp
  define D where "D = page_of (put_rel (key_view (hf_cache hf1) (records, relationship_ft, ?i div 256)) r)"
  have wr: "\<exists>d. relationship_write r p = Some (p\<lparr>pg_data := d, pg_dirty := True\<rparr>) \<and> page_of d = D"
    if "page_of (pg_data p) = key_view (hf_cache hf1) (records, relationship_ft, ?i div 256)" "pg_pin_count p \<noteq> 0" for p
    using relationship_write_eq [OF that(2) al]
      page_of_put_rel [of "pg_data p" "key_view (hf_cache hf1) (records, relationship_ft, ?i div 256)" r] that(1)
    by (intro exI [of _ "put_rel (pg_data p) r"]) (simp add: D_def)
  obtain f pc1 p q pc2 where v: "pin_page (hf_cache hf1) (?i div 256) records relationship_ft log = Some (f, pc1)"
      "frame_at pc1 f = Some p" "relationship_write r p = Some q"
      "unpin_page (set_frame pc1 f q) (?i div 256) records relationship_ft log = Some pc2" "db_idle pc2"
      "key_view pc2 = (key_view (hf_cache hf1))((records, relationship_ft, ?i div 256) := D)"
      "db_has pc2 = db_has (hf_cache hf1)" "db_cap pc2 = db_cap (hf_cache hf1)"
    by (rule write_page_visit [where log = log, OF hf_inv_ready [OF i1(1)] h wr])
  define hf2 where "hf2 = hf1\<lparr>hf_cache := pc2, hf_num_update_rels := hf_num_update_rels hf1 + 1\<rparr>"
  have w: "hf_inv hf2" "hf_frame hf2 = hf_frame hf1" "rec_used (hf_cache hf2) = rec_used (hf_cache hf1)"
    by (rule record_write [OF i1(1) v(5-8)]; simp add: hf2_def)+
  have rel_i: "hf_rels hf2 i = ((hf_rels hf1)(?i \<mapsto> r)) i" for i
  proof (cases "rec_used (hf_cache hf1) False i")
    case True
    have "i mod 4 = 0" using True by (simp add: rec_used_def)
    then show ?thesis
      using True al get_put_rel [of r] ok get_put_rel_other [of i r] same_slot [of i ?i] get_rel_page_of [of i]
      by (auto simp: hf_rels_def w(3) rel_valid_def) (auto simp: hf2_def v(6) D_def)
  qed (use u1 in \<open>auto simp: hf_rels_def w(3)\<close>)
  moreover have "hf_nodes hf2 i = hf_nodes hf1 i" for i
    unfolding hf_nodes_def w(3) by (simp add: hf2_def v(6))
  ultimately have "hf_nodes hf2 = hf_nodes hf1" "hf_rels hf2 = (hf_rels hf1)(?i \<mapsto> r)" by blast+
  then have "hf_eff (hf_nodes hf) ((hf_rels hf)(?i \<mapsto> r)) hf hf2" using w c(2) by (simp add: hf_eff_def)
  moreover have "update_relationship_internal hf r check log = Some hf2"
    using c(1) v(1-4) rec_used_record(2) [OF inv u] ok
    by (simp add: update_relationship_internal_def slot_split hf2_def checked_def rel_valid_def)
  ultimately show ?thesis by blast
qed

lemma update_internal_exit:
  "hf_inv hf \<Longrightarrow> hf_nodes hf (n_id n) = None \<Longrightarrow> update_node_internal hf n True log = None"
  "hf_inv hf \<Longrightarrow> hf_rels hf (r_id r) = None \<Longrightarrow> update_relationship_internal hf r True log = None"
  using check_record_exists_unused [of hf True "n_id n" log] check_record_exists_unused [of hf False "r_id r" log]
  by (auto simp: update_node_internal_def update_relationship_internal_def hf_nodes_def hf_rels_def split: if_splits)

lemma update_node_ok:
  "hf_inv hf \<Longrightarrow> hf_nodes hf (n_id n) \<noteq> None \<Longrightarrow> node_ok n \<Longrightarrow>
     \<exists>hf'. update_node hf n log = Some hf' \<and> hf_eff ((hf_nodes hf)(n_id n \<mapsto> n)) (hf_rels hf) hf hf'"
  using update_node_internal_ok [of hf n True log] by (fastforce simp: update_node_def)

lemma update_relationship_ok:
  "hf_inv hf \<Longrightarrow> hf_rels hf (r_id r) \<noteq> None \<Longrightarrow> rel_valid r \<Longrightarrow>
     \<exists>hf'. update_relationship hf r log = Some hf' \<and> hf_eff (hf_nodes hf) ((hf_rels hf)(r_id r \<mapsto> r)) hf hf'"
  using update_relationship_internal_ok [of hf r True log] by (fastforce simp: update_relationship_def)

lemma update_exit:
  "hf_inv hf \<Longrightarrow> hf_nodes hf (n_id n) = None \<Longrightarrow> update_node hf n log = None"
  "hf_inv hf \<Longrightarrow> hf_rels hf (r_id r) = None \<Longrightarrow> update_relationship hf r log = None"
  by (simp_all add: update_node_def update_relationship_def update_internal_exit)

section \<open>Marking slots\<close>

lemma header_offset: "(i div CHAR_BIT) mod PAGE_SIZE = i mod 32768 div 8" "i mod CHAR_BIT = i mod 32768 mod 8" for i :: nat
  using mod_mult2_eq [of i 8 4096] by (simp_all add: CHAR_BIT_def PAGE_SIZE_def mod_mod_cancel)

lemma aligned_disjoint:
  assumes "x mod rec_slots node = 0" "y mod rec_slots node = 0" "x \<noteq> y" "a < rec_slots node"
  shows "\<not> (y \<le> x + a \<and> x + a < y + rec_slots node)"
proof -
  obtain b c where bc: "x = rec_slots node * b" "y = rec_slots node * c" using assms(1,2) by (metis mod_0_imp_dvd dvdE)
  show ?thesis
  proof (cases "b < c")
    case True
    then have "rec_slots node * (b + 1) \<le> rec_slots node * c" by (intro mult_le_mono2) simp
    then show ?thesis using bc assms(4) by simp
  next
    case False
    then have "c < b" using assms(3) bc by (metis linorder_neqE_nat)
    then have "rec_slots node * (c + 1) \<le> rec_slots node * b" by (intro mult_le_mono2) simp
    then show ?thesis using bc by simp
  qed
qed

lemma mod_header_aligned: "i mod rec_slots node = 0 \<Longrightarrow> i mod 32768 mod rec_slots node = 0"
  by (cases node) (simp_all add: mod_mod_cancel)

lemma same_bit: "i div 32768 = j div 32768 \<Longrightarrow> i mod 32768 = j mod 32768 \<Longrightarrow> i = (j :: nat)"
  by (metis div_mult_mod_eq)

lemma bit_of_mark: "bit (if b then - 1 else 0 :: byte) k \<longleftrightarrow> b \<and> k < 8"
  by (simp add: bit_simps)

lemma write_header_bits_visit:
  assumes inv: "hf_inv hf" and i: "i mod rec_slots node = 0" "i < 256 * rec_pages hf node"
  obtains pc where "write_header_bits hf i node v log = Some (hf\<lparr>hf_cache := pc\<rparr>)" "db_idle pc"
    "key_view pc = (key_view (hf_cache hf))((header, rec_ft node, i div 32768) :=
       page_of (set_hbits (key_view (hf_cache hf) (header, rec_ft node, i div 32768)) (i mod 32768) (rec_slots node) v))"
    "db_has pc = db_has (hf_cache hf)" "db_cap pc = db_cap (hf_cache hf)"
proof -
  let ?off = "i mod 32768" and ?n = "rec_slots node" and ?k = "(header, rec_ft node, i div 32768)"
  have n: "0 < ?n" "?off mod 8 + ?n \<le> 8" using rec_slots_cases [of node] aligned_byte [OF i(1)] by auto
  have off: "?off < PAGE_SIZE * 8" by (simp add: bits_per_page)
  define wr where "wr = (\<lambda>p :: page. Some (p\<lparr>pg_data := set_hbits (pg_data p) ?off ?n v, pg_dirty := True\<rparr>))"
  have w: "\<exists>d. wr p = Some (p\<lparr>pg_data := d, pg_dirty := True\<rparr>) \<and> page_of d = page_of (set_hbits (key_view (hf_cache hf) ?k) ?off ?n v)"
    if "page_of (pg_data p) = key_view (hf_cache hf) ?k" for p
    using page_of_set_hbits [OF off that] by (intro exI [of _ "set_hbits (pg_data p) ?off ?n v"]) (simp add: wr_def)
  obtain f pc1 p q pc2 where x: "pin_page (hf_cache hf) (i div 32768) header (rec_ft node) log = Some (f, pc1)"
      "frame_at pc1 f = Some p" "wr p = Some q"
      "unpin_page (set_frame pc1 f q) (i div 32768) header (rec_ft node) log = Some pc2" "db_idle pc2"
      "key_view pc2 = (key_view (hf_cache hf))(?k := page_of (set_hbits (key_view (hf_cache hf) ?k) ?off ?n v))"
      "db_has pc2 = db_has (hf_cache hf)" "db_cap pc2 = db_cap (hf_cache hf)"
    by (rule write_page_visit [where log = log, OF hf_inv_ready [OF inv] header_has [OF inv i(2)] w])
  have "write_header_bits hf i node v log = Some (hf\<lparr>hf_cache := pc2\<rparr>)"
    using x(1-4) write_bits_one_byte [OF x(2) n off, of v log]
    by (simp add: write_header_bits_def slot_split bits_per_page header_offset wr_def Let_def)
  then show ?thesis using x(5-8) by (rule that)
qed

lemma write_header_bits_ok:
  assumes inv: "hf_inv hf" and i: "i mod rec_slots node = 0" "i < 256 * rec_pages hf node"
  obtains hf' where "write_header_bits hf i node (if b then - 1 else 0) log = Some hf'" "hf_inv hf'" "hf_frame hf' = hf_frame hf"
    "\<And>node' j. rec_used (hf_cache hf') node' j = (if node' = node \<and> j = i then b else rec_used (hf_cache hf) node' j)"
    "\<And>ft p. key_view (hf_cache hf') (records, ft, p) = key_view (hf_cache hf) (records, ft, p)"
proof -
  let ?off = "i mod 32768" and ?n = "rec_slots node" and ?k = "(header, rec_ft node, i div 32768)"
  have n: "0 < ?n" "?off mod 8 + ?n \<le> 8" using rec_slots_cases [of node] aligned_byte [OF i(1)] by auto
  obtain pc where x: "write_header_bits hf i node (if b then - 1 else 0) log = Some (hf\<lparr>hf_cache := pc\<rparr>)" "db_idle pc"
    "key_view pc = (key_view (hf_cache hf))(?k :=
       page_of (set_hbits (key_view (hf_cache hf) ?k) ?off ?n (if b then - 1 else 0)))"
    "db_has pc = db_has (hf_cache hf)" "db_cap pc = db_cap (hf_cache hf)"
    by (rule write_header_bits_visit [OF inv i])
  have bit: "hbit (key_view pc ?k) s = (if ?off \<le> s \<and> s < ?off + ?n then b else hbit (key_view (hf_cache hf) ?k) s)"
    if "s < 32768" for s
    using that hbit_set_hbits [OF n] n by (auto simp: x(3) bits_per_page bit_of_mark)
  have other: "key_view pc k = key_view (hf_cache hf) k" if "k \<noteq> ?k" for k using that by (simp add: x(3))
  have used: "rec_used pc node' j = (if node' = node \<and> j = i then b else rec_used (hf_cache hf) node' j)" for node' j
  proof (cases "(header, rec_ft node', j div 32768) = ?k \<and> j mod rec_slots node' = 0")
    case True
    then have nd: "node' = node" "j div 32768 = i div 32768" "j mod ?n = 0" by (auto simp: rec_ft_def split: if_splits)
    have range: "j mod 32768 + a < 32768" if "a < ?n" for a using aligned_slot [OF nd(3), of 32768] that by simp
    show ?thesis
    proof (cases "j = i")
      case True
      then show ?thesis
        using nd bit range n(1) header_has [OF inv i(2)] by (auto simp: rec_used_def x(4))
    next
      case False
      then have ne: "j mod 32768 \<noteq> ?off" using nd(2) same_bit by blast
      have "\<not> (?off \<le> j mod 32768 + a \<and> j mod 32768 + a < ?off + ?n)" if "a < ?n" for a
        by (rule aligned_disjoint [OF mod_header_aligned [OF nd(3)] mod_header_aligned [OF i(1)] ne that])
      then show ?thesis
        using nd bit range False by (auto simp: rec_used_def x(4))
    qed
  next
    case False
    then have "rec_used pc node' j = rec_used (hf_cache hf) node' j"
      using other [of "(header, rec_ft node', j div 32768)"] by (auto simp: rec_used_def x(4))
    then show ?thesis using False i(1) by auto
  qed
  have "pc_pages pc records (rec_ft node') = rec_pages hf node'" for node'
    using db_has_pages [OF x(4), of records "rec_ft node'"] by (simp add: valid_file_def rec_pages_eq)
  moreover have "hbit (key_view pc (header, rec_ft node', s div 32768)) (s mod 32768) =
      hbit (key_view (hf_cache hf) (header, rec_ft node', s div 32768)) (s mod 32768)"
    if s: "256 * rec_pages hf node' \<le> s" for node' s
  proof (cases "(header, rec_ft node', s div 32768) = ?k")
    case True
    then have nd: "node' = node" "s div 32768 = i div 32768" by (auto simp: rec_ft_def split: if_splits)
    have "i + ?n \<le> 256 * rec_pages hf node"
      using aligned_disjoint [of i node "256 * rec_pages hf node" "?n - 1"] i n(1) rec_slots_cases [of node] by auto
    then have "i + ?n \<le> s" using s nd(1) by simp
    then have "?off + ?n \<le> s mod 32768" using nd(2) div_mult_mod_eq [of s 32768] div_mult_mod_eq [of i 32768] by linarith
    then show ?thesis using True bit [of "s mod 32768"] by auto
  qed (simp add: other)
  ultimately have "header_clean pc node'" for node'
    using hf_inv_clean [OF inv, of node'] by (simp add: header_clean_def x(4) rec_pages_eq)
  then have "hf_inv (hf\<lparr>hf_cache := pc\<rparr>)" using inv x(2) by (simp add: hf_inv_def)
  moreover have "hf_frame (hf\<lparr>hf_cache := pc\<rparr>) = hf_frame hf" using x by (simp add: hf_frame_def)
  ultimately show ?thesis using that [OF x(1)] used other by simp
qed

end
