(* ===== verification/Heap_Records.thy ===== *)
theory Heap_Records
  imports Heap_Slots
begin

text \<open>
  The operations of the heap file on single records: the allocation of slots, the creation of
  nodes, the scans over all slots, and opening a heap file. All loops walk the slots of a file in
  order, from one slot number to the next, until the last page is passed.
\<close>

section \<open>The walk over the slots\<close>

lemma next_slot_eq:
  assumes "c mod rec_slots node = 0"
  shows "next_slot (rec_slots node) (c div 256) (c mod 256) = ((c + rec_slots node) div 256, (c + rec_slots node) mod 256)"
proof -
  let ?n = "rec_slots node"
  have le: "c mod 256 + ?n \<le> 256" using aligned_slot [OF assms, of 256] by simp
  show ?thesis
  proof (cases "c mod 256 + ?n = 256")
    case True
    have "c + ?n = c div 256 * 256 + (c mod 256 + ?n)" by (simp add: add.assoc [symmetric])
    then have "c + ?n = (c div 256 + 1) * 256" unfolding True by simp
    then have "(c + ?n) div 256 = c div 256 + 1" "(c + ?n) mod 256 = 0" by simp_all
    moreover have "c mod 256 > 0" using True rec_slots_cases [of node] by auto
    ultimately show ?thesis using True by (simp add: next_slot_def SLOTS_PER_PAGE_eq)
  next
    case False
    then have "c mod 256 + ?n < 256" using le by simp
    moreover from this have "(c + ?n) div 256 = c div 256" "(c + ?n) mod 256 = c mod 256 + ?n"
      using div_mod_within [of c 256 ?n] by simp_all
    ultimately show ?thesis by (simp add: next_slot_def SLOTS_PER_PAGE_eq)
  qed
qed

lemma slot_id_eq:
  assumes "c < ULONG_RANGE"
  shows "slot_id (c div 256) (c mod 256) = c"
proof -
  have "push_bit 8 (drop_bit 8 c) OR take_bit 8 c = c" by (rule bit_eqI) (auto simp: bit_simps)
  then have "push_bit 8 (c div 256) OR c mod 256 = c" by (simp add: drop_bit_eq_div take_bit_eq_mod)
  moreover have "push_bit 8 (c div 256) \<le> c" by (simp add: push_bit_eq_mult mult.commute)
  ultimately show ?thesis using assms by (simp add: slot_id_def CHAR_BIT_def)
qed

text \<open>One step of the walk, as the loops compute it.\<close>

lemma walk_step:
  assumes inv: "hf_inv hf" and c: "c mod rec_slots node = 0" "c < 256 * rec_pages hf node"
  shows "next_slot (rec_slots node) (c div 256) (c mod 256) = ((c + rec_slots node) div 256, (c + rec_slots node) mod 256)"
    "slot_id ((c + rec_slots node) div 256) ((c + rec_slots node) mod 256) = c + rec_slots node"
    "(c + rec_slots node) mod rec_slots node = 0" "c + rec_slots node \<le> 256 * rec_pages hf node"
proof -
  show le: "c + rec_slots node \<le> 256 * rec_pages hf node"
    using aligned_disjoint [of c node "256 * rec_pages hf node" "rec_slots node - 1"] c rec_slots_cases [of node] by auto
  have "256 * rec_pages hf node < ULONG_RANGE"
    using rec_pages_bound [OF inv, of node] by (simp add: UNINITIALIZED_LONG_def ULONG_RANGE_def)
  with le show "slot_id ((c + rec_slots node) div 256) ((c + rec_slots node) mod 256) = c + rec_slots node"
    by (intro slot_id_eq) linarith
qed (use c next_slot_eq [OF c(1)] in simp_all)

lemma page_less_iff: "c div 256 < (n :: nat) \<longleftrightarrow> c < 256 * n"
  by (simp add: div_less_iff_less_mult mult.commute)

lemma hf_same_pages:
  assumes "hf_frame hf' = hf_frame hf"
  shows "rec_pages hf' node = rec_pages hf node"
  using db_has_pages [of "hf_cache hf'" "hf_cache hf" records "rec_ft node"] assms
  by (simp add: hf_frame_def valid_file_def rec_pages_eq)

lemma hf_same_used:
  assumes "hf_same hf hf'"
  shows "rec_used (hf_cache hf') = rec_used (hf_cache hf)"
proof (intro ext)
  fix node i
  show "rec_used (hf_cache hf') node i = rec_used (hf_cache hf) node i"
    using fun_cong [OF hf_effD(2) [OF assms], of i] fun_cong [OF hf_effD(3) [OF assms], of i]
    by (cases node) (auto simp: hf_nodes_def hf_rels_def split: if_splits)
qed

text \<open>The search for a free slot returns the first one at or after its start, if a page has one.\<close>

lemma free_slot_loop_ok:
  assumes "hf_inv hf" "c mod rec_slots node = 0"
  shows "\<exists>r hf'. free_slot_loop hf node log c (c div 256) (c mod 256) = Some (r, hf') \<and> hf_same hf hf' \<and>
    (case r of Some i \<Rightarrow> c \<le> i \<and> i mod rec_slots node = 0 \<and> i < 256 * rec_pages hf node \<and> \<not> rec_used (hf_cache hf) node i \<and>
        (\<forall>j. c \<le> j \<and> j < i \<and> j mod rec_slots node = 0 \<longrightarrow> rec_used (hf_cache hf) node j)
     | None \<Rightarrow> (\<forall>j. c \<le> j \<and> j < 256 * rec_pages hf node \<and> j mod rec_slots node = 0 \<longrightarrow> rec_used (hf_cache hf) node j))"
  using assms
proof (induction "256 * rec_pages hf node - c" arbitrary: hf c rule: less_induct)
  case less
  let ?n = "rec_slots node"
  show ?case
  proof (cases "c < 256 * rec_pages hf node")
    case False
    then show ?thesis
      using less.prems by (subst free_slot_loop.simps) (auto simp: page_less_iff)
  next
    case True
    obtain hf1 where e: "check_record_exists hf c node log = Some (rec_used (hf_cache hf) node c, hf1)" "hf_same hf hf1"
      using check_record_exists_ok [OF less.prems(1) header_has [OF less.prems(1) True]] by blast
    have fit: "c mod 256 mod SLOTS_PER_PAGE \<le> (c mod 256 + (?n - 1)) mod SLOTS_PER_PAGE"
      by (rule aligned_in_page) (use less.prems(2) in \<open>simp_all add: mod_slots_page\<close>)
    show ?thesis
    proof (cases "rec_used (hf_cache hf) node c")
      case False
      then show ?thesis
        using True e fit less.prems(2) by (subst free_slot_loop.simps) (auto simp: page_less_iff)
    next
      case used: True
      note w = walk_step [OF less.prems(1,2) True]
      have same: "rec_pages hf1 node = rec_pages hf node" "rec_used (hf_cache hf1) = rec_used (hf_cache hf)" "hf_inv hf1"
        using e(2) hf_same_pages [OF hf_effD(4) [OF e(2)]] hf_same_used [OF e(2)] by (simp_all add: hf_eff_def)
      have dec: "256 * rec_pages hf1 node - (c + ?n) < 256 * rec_pages hf node - c"
        using True rec_slots_cases [of node] same(1) by auto
      obtain r hf2 where IH: "free_slot_loop hf1 node log (c + ?n) ((c + ?n) div 256) ((c + ?n) mod 256) = Some (r, hf2)"
        "hf_same hf1 hf2"
        "case r of Some i \<Rightarrow> c + ?n \<le> i \<and> i mod ?n = 0 \<and> i < 256 * rec_pages hf node \<and> \<not> rec_used (hf_cache hf) node i \<and>
            (\<forall>j. c + ?n \<le> j \<and> j < i \<and> j mod ?n = 0 \<longrightarrow> rec_used (hf_cache hf) node j)
         | None \<Rightarrow> (\<forall>j. c + ?n \<le> j \<and> j < 256 * rec_pages hf node \<and> j mod ?n = 0 \<longrightarrow> rec_used (hf_cache hf) node j)"
        using less.hyps [OF dec same(3) w(3)] unfolding same by blast
      have run: "free_slot_loop hf node log c (c div 256) (c mod 256) = Some (r, hf2)"
        using True used e(1) IH(1) w(1,2) by (subst free_slot_loop.simps) (simp add: page_less_iff)
      have "hf_same hf hf2" using e(2) IH(2) by (simp add: hf_eff_def)
      moreover have gap: "j = c \<or> c + ?n \<le> j" if "c \<le> j" "j mod ?n = 0" for j
        using aligned_disjoint [OF that(2) less.prems(2), of 0] that(1) rec_slots_cases [of node] by (cases "j = c") auto
      ultimately show ?thesis
        using run IH(3) used by (intro exI [of _ r] exI [of _ hf2]) (cases r; simp; metis gap)
    qed
  qed
qed

section \<open>Allocation\<close>

text \<open>Room for \<open>k\<close> more pages, in the files and in a cache that is not bulk importing.\<close>

definition hf_room :: "nat \<Rightarrow> heap_file \<Rightarrow> bool" where
  "hf_room k hf \<longleftrightarrow> (\<forall>node. rec_pages hf node + k < MAX_PAGE_NO \<and> pc_pages (hf_cache hf) header (rec_ft node) + k < MAX_PAGE_NO) \<and>
     (pc_bulk_import (hf_cache hf) \<or> all_pages (hf_cache hf) + 2 * k \<le> pc_n_frames (hf_cache hf))"

lemma hf_room_mono:
  assumes "hf_room k hf" "j \<le> k"
  shows "hf_room j hf"
proof -
  have m: "x + j < m" if "x + k < m" for x m :: nat using that assms(2) by simp
  show ?thesis using assms by (auto simp: hf_room_def intro: m)
qed

lemma hf_frame_cap:
  assumes "db_has a = db_has b" "db_cap a = db_cap b"
  shows "all_pages a = all_pages b"
  using db_has_pages [OF assms(1), of header node_ft] db_has_pages [OF assms(1), of header relationship_ft]
    db_has_pages [OF assms(1), of records node_ft] db_has_pages [OF assms(1), of records relationship_ft] assms(2)
  by (simp add: all_pages_def valid_file_def db_cap_def)

lemma hf_room_cong:
  assumes f: "db_has (hf_cache hf') = db_has (hf_cache hf)" "db_cap (hf_cache hf') = db_cap (hf_cache hf)"
  shows "hf_room k hf' = hf_room k hf"
proof -
  have "pc_pages (hf_cache hf') fk (rec_ft node) = pc_pages (hf_cache hf) fk (rec_ft node)" if "fk = header \<or> fk = records" for fk node
    using that by (intro db_has_pages [OF f(1)]) (auto simp: valid_file_def)
  then show ?thesis
    using hf_frame_cap [OF f] f(2) by (simp add: hf_room_def db_cap_def rec_pages_eq [symmetric])
qed

lemma hf_frame_room: "hf_frame hf' = hf_frame hf \<Longrightarrow> hf_room k hf' = hf_room k hf"
  by (rule hf_room_cong) (simp_all add: hf_frame_def)

lemma hbit_zero [simp]: "\<not> hbit (\<lambda>_. 0) i"
  by (simp add: hbit_def)

text \<open>A new page changes no record; its slots are free.\<close>

lemma grown_used:
  assumes g: "store_ext pc pc'"
  shows "rec_used pc' node i = rec_used pc node i"
proof (cases "db_has pc (header, rec_ft node, i div 32768)")
  case True
  then show ?thesis using g by (simp add: rec_used_def store_ext_def)
next
  case False
  have "\<not> rec_used pc' node i"
  proof
    assume u: "rec_used pc' node i"
    then have "db_has pc' (header, rec_ft node, i div 32768)" by (simp add: rec_used_def)
    then have "key_view pc' (header, rec_ft node, i div 32768) = (\<lambda>_. 0)" using False g by (simp add: store_ext_def)
    moreover have "0 < rec_slots node" using rec_slots_cases [of node] by auto
    ultimately show False using u by (auto simp: rec_used_def)
  qed
  then show ?thesis using False by (simp add: rec_used_def)
qed

lemma grown_clean:
  assumes g: "store_ext pc pc'" and c: "header_clean pc node"
  shows "header_clean pc' node"
  unfolding header_clean_def
proof (intro allI impI)
  fix s assume s: "256 * pc_pages pc' records (rec_ft node) \<le> s \<and> db_has pc' (header, rec_ft node, s div 32768)"
  have "pc_pages pc records (rec_ft node) \<le> pc_pages pc' records (rec_ft node)"
    by (rule store_ext_pages [OF g]) (simp_all add: valid_file_def)
  then have le: "256 * pc_pages pc records (rec_ft node) \<le> s" using s by linarith
  show "\<not> hbit (key_view pc' (header, rec_ft node, s div 32768)) (s mod 32768)"
  proof (cases "db_has pc (header, rec_ft node, s div 32768)")
    case True
    then show ?thesis using c le g by (simp add: header_clean_def store_ext_def)
  next
    case False
    then have "key_view pc' (header, rec_ft node, s div 32768) = (\<lambda>_. 0)" using s g by (simp add: store_ext_def)
    then show ?thesis by simp
  qed
qed

lemma grown_records:
  assumes inv: "hf_inv hf" and g: "store_ext (hf_cache hf) (hf_cache hf')"
  shows "hf_nodes hf' = hf_nodes hf" "hf_rels hf' = hf_rels hf"
proof -
  have v: "key_view (hf_cache hf') (records, rec_ft node, i div 256) = key_view (hf_cache hf) (records, rec_ft node, i div 256)"
    if "rec_used (hf_cache hf) node i" for node i
    using rec_used_record(1) [OF inv that] g by (simp add: store_ext_def)
  show "hf_nodes hf' = hf_nodes hf"
    by (rule ext) (use v [of True] in \<open>simp add: hf_nodes_def grown_used [OF g]\<close>)
  show "hf_rels hf' = hf_rels hf"
    by (rule ext) (use v [of False] in \<open>simp add: hf_rels_def grown_used [OF g]\<close>)
qed

lemma grown_room:
  assumes r: "hf_room (Suc k) hf" and g: "store_grown (rec_ft node) (hf_cache hf) (hf_cache hf')"
  shows "hf_room k hf'"
proof -
  have cat: "pc_pages (hf_cache hf') catalogue node_ft = pc_pages (hf_cache hf) catalogue node_ft"
    using g by (simp add: store_grown_def valid_file_def)
  have p: "pc_pages (hf_cache hf') records (rec_ft n) \<le> pc_pages (hf_cache hf) records (rec_ft n) + 1"
    "pc_pages (hf_cache hf') header (rec_ft n) \<le> pc_pages (hf_cache hf) header (rec_ft n) + 1"
    "n \<noteq> node \<Longrightarrow> pc_pages (hf_cache hf') records (rec_ft n) = pc_pages (hf_cache hf) records (rec_ft n)"
    "n \<noteq> node \<Longrightarrow> pc_pages (hf_cache hf') header (rec_ft n) = pc_pages (hf_cache hf) header (rec_ft n)" for n
    using g by (cases n; cases node; simp add: store_grown_def valid_file_def)+
  have "all_pages (hf_cache hf') \<le> all_pages (hf_cache hf) + 2"
    using p [of True] p [of False] cat by (cases node) (simp_all add: all_pages_def)
  then have "pc_bulk_import (hf_cache hf') \<or> all_pages (hf_cache hf') + 2 * k \<le> pc_n_frames (hf_cache hf')"
    using r g by (auto simp: hf_room_def store_grown_def)
  moreover have "rec_pages hf' n + k < MAX_PAGE_NO \<and> pc_pages (hf_cache hf') header (rec_ft n) + k < MAX_PAGE_NO" for n
  proof -
    have "rec_pages hf n + Suc k < MAX_PAGE_NO" "pc_pages (hf_cache hf) header (rec_ft n) + Suc k < MAX_PAGE_NO"
      using r by (auto simp: hf_room_def)
    then show ?thesis using p(1,2) [of n] by (simp add: rec_pages_eq)
  qed
  ultimately show ?thesis by (simp add: hf_room_def)
qed

text \<open>Marking a slot as used adds a record with unknown fields.\<close>

text \<open>What no operation of the heap file changes.\<close>

definition hf_fixed :: "heap_file \<Rightarrow> bool \<times> nat \<times> string \<times> string list \<times> string list" where
  "hf_fixed hf = (pc_bulk_import (hf_cache hf), pc_n_frames (hf_cache hf), pd_names (pc_pdb (hf_cache hf)))"

lemma hf_frame_fixed: "hf_frame hf' = hf_frame hf \<Longrightarrow> hf_fixed hf' = hf_fixed hf"
  by (simp add: hf_frame_def db_cap_def hf_fixed_def)

definition hf_marked :: "bool \<Rightarrow> ulong \<Rightarrow> heap_file \<Rightarrow> heap_file \<Rightarrow> bool" where
  "hf_marked node i hf hf' \<longleftrightarrow> hf_inv hf' \<and> hf_fixed hf' = hf_fixed hf \<and>
     (if node then (\<exists>n. hf_nodes hf' = (hf_nodes hf)(i \<mapsto> n)) \<and> hf_rels hf' = hf_rels hf
      else (\<exists>r. hf_rels hf' = (hf_rels hf)(i \<mapsto> r)) \<and> hf_nodes hf' = hf_nodes hf)"

lemma mark_slot:
  assumes inv: "hf_inv hf" and i: "i mod rec_slots node = 0" "i < 256 * rec_pages hf node"
  obtains hf' where "write_header_bits hf i node (- 1) log = Some hf'" "hf_marked node i hf hf'" "hf_frame hf' = hf_frame hf"
proof -
  obtain hf' where w: "write_header_bits hf i node (if True then - 1 else 0) log = Some hf'" "hf_inv hf'" "hf_frame hf' = hf_frame hf"
    "\<And>node' j. rec_used (hf_cache hf') node' j = (if node' = node \<and> j = i then True else rec_used (hf_cache hf) node' j)"
    "\<And>ft p. key_view (hf_cache hf') (records, ft, p) = key_view (hf_cache hf) (records, ft, p)"
    by (rule write_header_bits_ok [OF inv i]) blast
  have "hf_marked node i hf hf'"
  proof (cases node)
    case True
    have "hf_nodes hf' = (hf_nodes hf)(i \<mapsto> get_node (key_view (hf_cache hf) (records, node_ft, i div 256)) i)" "hf_rels hf' = hf_rels hf"
      by (rule ext, simp add: hf_nodes_def hf_rels_def w(4,5) True)+
    then show ?thesis using w(2) hf_frame_fixed [OF w(3)] True by (auto simp: hf_marked_def)
  next
    case False
    have "hf_rels hf' = (hf_rels hf)(i \<mapsto> get_rel (key_view (hf_cache hf) (records, relationship_ft, i div 256)) i)" "hf_nodes hf' = hf_nodes hf"
      by (rule ext, simp add: hf_nodes_def hf_rels_def w(4,5) False)+
    then show ?thesis using w(2) hf_frame_fixed [OF w(3)] False by (auto simp: hf_marked_def)
  qed
  then show ?thesis using that w(1,3) by simp
qed

lemma last_alloc_simps [simp]:
  "last_alloc (set_last_alloc hf node i) node = i"
  "hf_cache (set_last_alloc hf node i) = hf_cache hf"
  "hf_n_nodes (set_last_alloc hf node i) = hf_n_nodes hf" "hf_n_rels (set_last_alloc hf node i) = hf_n_rels hf"
  "last_alloc (hf\<lparr>hf_cache := pc\<rparr>) node = last_alloc hf node"
  by (simp_all add: last_alloc_def set_last_alloc_def)

lemma set_last_alloc_fixed [simp]: "hf_fixed (set_last_alloc hf node i) = hf_fixed hf"
  by (simp add: hf_fixed_def)

lemma last_alloc_other: "node' \<noteq> node \<Longrightarrow> last_alloc (set_last_alloc hf node i) node' = last_alloc hf node'"
  by (cases node) (auto simp: last_alloc_def set_last_alloc_def)

lemma set_last_alloc_inv:
  "hf_inv hf \<Longrightarrow> i mod rec_slots node = 0 \<Longrightarrow> hf_inv (set_last_alloc hf node i)"
  by (cases node) (simp_all add: hf_inv_def set_last_alloc_def)

lemma set_last_alloc_maps [simp]:
  "hf_nodes (set_last_alloc hf node i) = hf_nodes hf" "hf_rels (set_last_alloc hf node i) = hf_rels hf"
  "rec_pages (set_last_alloc hf node i) = rec_pages hf" "hf_room k (set_last_alloc hf node i) = hf_room k hf"
  by (simp_all add: hf_nodes_def hf_rels_def rec_pages_def hf_room_def fun_eq_iff)

lemma last_alloc_aligned: "hf_inv hf \<Longrightarrow> last_alloc hf node mod rec_slots node = 0"
  by (cases node) (simp_all add: hf_inv_def last_alloc_def)

text \<open>The slot that the search of \<^verbatim>\<open>next_free_slots\<close> settles on, before it is marked.\<close>

definition pick_slot :: "heap_file \<Rightarrow> bool \<Rightarrow> bool \<Rightarrow> heap_file option" where
  "pick_slot hf node log = do {
       (found, hf) \<leftarrow> free_slot_loop hf node log (last_alloc hf node) (last_alloc hf node div 256) (last_alloc hf node mod 256);
       (case found of
         Some i \<Rightarrow> Some (set_last_alloc hf node i)
       | None \<Rightarrow> do {
           (f, pc) \<leftarrow> new_page (hf_cache hf) (rec_ft node) log;
           np \<leftarrow> frame_at pc f;
           if pg_page_no np > push_bit CHAR_BIT ULONG_MAX mod ULONG_RANGE then None
           else do {
             let hf = set_last_alloc hf node (push_bit CHAR_BIT (pg_page_no np) mod ULONG_RANGE);
             pc \<leftarrow> unpin_page pc (pg_page_no np) records (rec_ft node) log;
             Some (hf\<lparr>hf_cache := pc\<rparr>) } }) }"

lemma next_free_slots_eq:
  "next_free_slots hf node log = do {
     hf \<leftarrow> pick_slot hf node log;
     write_header_bits hf (last_alloc hf node) node (- 1) log }"
  unfolding next_free_slots_def pick_slot_def slot_split Let_def by (simp add: case_prod_unfold)

lemma new_page_idle:
  assumes idle: "db_idle pc" and ft: "ft \<noteq> invalid_ft"
    and room: "pc_pages pc records ft + 1 < MAX_PAGE_NO" "pc_pages pc header ft + 1 < MAX_PAGE_NO"
      "pc_bulk_import pc \<or> all_pages pc + 2 \<le> pc_n_frames pc"
  obtains f pc1 p pc2 where "new_page pc ft log = Some (f, pc1)" "frame_at pc1 f = Some p"
    "pg_page_no p = pc_pages pc records ft" "unpin_page pc1 (pc_pages pc records ft) records ft log = Some pc2"
    "db_idle pc2" "store_grown ft pc pc2"
proof -
  obtain j where j: "pc_n_frames pc = Suc j" "db_ready (Suc j) pc" using idle by (cases "pc_n_frames pc") (auto simp: db_idle_def)
  from new_page_visit [OF j(2) ft room, of log] j(1) show ?thesis
    by (auto simp: db_idle_def store_grown_def intro: that)
qed

lemma pick_slot_ok:
  assumes inv: "hf_inv hf" and room: "hf_room (Suc k) hf"
  obtains i hf' where "pick_slot hf node log = Some hf'"
    "hf_inv hf'" "last_alloc hf' node = i" "i mod rec_slots node = 0" "i < 256 * rec_pages hf' node" "\<not> rec_used (hf_cache hf) node i"
    "\<And>j. last_alloc hf node \<le> j \<Longrightarrow> j < i \<Longrightarrow> j mod rec_slots node = 0 \<Longrightarrow> rec_used (hf_cache hf) node j"
    "hf_nodes hf' = hf_nodes hf" "hf_rels hf' = hf_rels hf" "hf_room k hf'"
    "hf_n_nodes hf' = hf_n_nodes hf" "hf_n_rels hf' = hf_n_rels hf" "\<And>n. n \<noteq> node \<Longrightarrow> last_alloc hf' n = last_alloc hf n"
    "hf_fixed hf' = hf_fixed hf"
proof -
  let ?n = "rec_slots node" and ?c = "last_alloc hf node"
  obtain r hf1 where l: "free_slot_loop hf node log ?c (?c div 256) (?c mod 256) = Some (r, hf1)" "hf_same hf hf1"
    "case r of Some i \<Rightarrow> ?c \<le> i \<and> i mod ?n = 0 \<and> i < 256 * rec_pages hf node \<and> \<not> rec_used (hf_cache hf) node i \<and>
        (\<forall>j. ?c \<le> j \<and> j < i \<and> j mod ?n = 0 \<longrightarrow> rec_used (hf_cache hf) node j)
     | None \<Rightarrow> (\<forall>j. ?c \<le> j \<and> j < 256 * rec_pages hf node \<and> j mod ?n = 0 \<longrightarrow> rec_used (hf_cache hf) node j)"
    using free_slot_loop_ok [OF inv last_alloc_aligned [OF inv], of node log] by blast
  note e = hf_effD [OF l(2)]
  have same: "rec_pages hf1 node = rec_pages hf node" "rec_used (hf_cache hf1) = rec_used (hf_cache hf)" "hf_room (Suc k) hf1"
    "hf_n_nodes hf1 = hf_n_nodes hf" "hf_n_rels hf1 = hf_n_rels hf" "last_alloc hf1 n = last_alloc hf n"
    "hf_fixed hf1 = hf_fixed hf" for n
    using hf_frame_fixed [OF e(4)] hf_same_pages [OF e(4)] hf_same_used [OF l(2)] hf_frame_room [OF e(4)] room e(4)
    by (simp_all add: hf_frame_def last_alloc_def)
  show ?thesis
  proof (cases r)
    case (Some i)
    show ?thesis
      by (rule that [of "set_last_alloc hf1 node i" i])
        (use l Some e same hf_room_mono [OF same(3), of k] set_last_alloc_inv [OF e(1)] in \<open>auto simp: last_alloc_other pick_slot_def\<close>)
  next
    case None
    have rm: "pc_pages (hf_cache hf1) records (rec_ft node) + 1 < MAX_PAGE_NO" "pc_pages (hf_cache hf1) header (rec_ft node) + 1 < MAX_PAGE_NO"
      "pc_bulk_import (hf_cache hf1) \<or> all_pages (hf_cache hf1) + 2 \<le> pc_n_frames (hf_cache hf1)"
      using hf_room_mono [OF same(3), of 1] by (simp_all add: hf_room_def rec_pages_eq)
    obtain f pc1 p pc2 where v: "new_page (hf_cache hf1) (rec_ft node) log = Some (f, pc1)" "frame_at pc1 f = Some p"
      "pg_page_no p = rec_pages hf node" "unpin_page pc1 (rec_pages hf node) records (rec_ft node) log = Some pc2"
      "db_idle pc2" "store_grown (rec_ft node) (hf_cache hf1) pc2"
      by (rule new_page_idle [OF hf_inv_ready [OF e(1)] rec_ft_valid rm, of log]) (auto simp: rec_pages_eq same(1))
    define i where "i = 256 * rec_pages hf node"
    define hf2 where "hf2 = (set_last_alloc hf1 node i)\<lparr>hf_cache := pc2\<rparr>"
    have b: "rec_pages hf node < MAX_PAGE_NO" using rm(1) by (simp add: rec_pages_eq same(1))
    have id: "push_bit CHAR_BIT (rec_pages hf node) mod ULONG_RANGE = i" "\<not> rec_pages hf node > push_bit CHAR_BIT ULONG_MAX mod ULONG_RANGE"
      using b by (simp_all add: i_def push_bit_eq_mult CHAR_BIT_def ULONG_RANGE_def ULONG_MAX_def MAX_PAGE_NO_def LONG_MAX_def PAGE_SIZE_def)
    have al: "i mod ?n = 0" by (cases node) (simp_all add: i_def)
    have g: "store_grown (rec_ft node) (hf_cache hf1) (hf_cache hf2)" using v(6) by (simp add: hf2_def)
    have clean: "header_clean pc2 nd" for nd by (rule grown_clean [OF store_grown_ext [OF v(6)] hf_inv_clean [OF e(1)]])
    have "hf_inv hf2"
      using set_last_alloc_inv [OF e(1) al] v(5) clean by (simp add: hf_inv_def hf2_def)
    moreover have "rec_pages hf2 node = rec_pages hf node + 1"
      using g rec_pages_eq [of hf2 node] rec_pages_eq [of hf1 node] same(1) by (simp add: store_grown_def)
    moreover have "\<not> rec_used (hf_cache hf) node i"
      using rec_used_less [OF inv, of node i] by (auto simp: i_def)
    moreover have "hf_nodes hf2 = hf_nodes hf" "hf_rels hf2 = hf_rels hf" using grown_records [OF e(1) store_grown_ext [OF g]] e by simp_all
    moreover have "hf_room k hf2" by (rule grown_room [OF same(3) g])
    moreover have "hf_fixed hf2 = hf_fixed hf" using g same(7) by (simp add: store_grown_def hf_fixed_def)
    ultimately show ?thesis
      by (intro that [of hf2 i])
        (use l None v id al same last_alloc_other in \<open>auto simp: i_def [symmetric] hf2_def pick_slot_def\<close>)
  qed
qed

lemma next_free_slots_ok:
  assumes inv: "hf_inv hf" and room: "hf_room (Suc k) hf"
  obtains i hf' where "next_free_slots hf node log = Some hf'" "last_alloc hf' node = i" "hf_marked node i hf hf'"
    "i mod rec_slots node = 0" "i < UNINITIALIZED_LONG" "\<not> rec_used (hf_cache hf) node i"
    "\<And>j. last_alloc hf node \<le> j \<Longrightarrow> j < i \<Longrightarrow> j mod rec_slots node = 0 \<Longrightarrow> rec_used (hf_cache hf) node j"
    "hf_room k hf'" "hf_n_nodes hf' = hf_n_nodes hf" "hf_n_rels hf' = hf_n_rels hf"
    "\<And>n. n \<noteq> node \<Longrightarrow> last_alloc hf' n = last_alloc hf n"
proof (rule pick_slot_ok [OF inv room, where node = node and log = log])
  fix i hf1
  assume s: "pick_slot hf node log = Some hf1"
    "hf_inv hf1" "last_alloc hf1 node = i" "i mod rec_slots node = 0" "i < 256 * rec_pages hf1 node" "\<not> rec_used (hf_cache hf) node i"
    "\<And>j. last_alloc hf node \<le> j \<Longrightarrow> j < i \<Longrightarrow> j mod rec_slots node = 0 \<Longrightarrow> rec_used (hf_cache hf) node j"
    "hf_nodes hf1 = hf_nodes hf" "hf_rels hf1 = hf_rels hf" "hf_room k hf1"
    "hf_n_nodes hf1 = hf_n_nodes hf" "hf_n_rels hf1 = hf_n_rels hf" "\<And>n. n \<noteq> node \<Longrightarrow> last_alloc hf1 n = last_alloc hf n"
    "hf_fixed hf1 = hf_fixed hf"
  obtain hf2 where m: "write_header_bits hf1 i node (- 1) log = Some hf2" "hf_marked node i hf1 hf2" "hf_frame hf2 = hf_frame hf1"
    by (rule mark_slot [OF s(2,4,5)])
  have "next_free_slots hf node log = Some hf2"
    using s(1,3) m(1) by (simp add: next_free_slots_eq)
  moreover have "hf_marked node i hf hf2" using m(2) unfolding hf_marked_def s(8,9,14) .
  moreover have "hf_room k hf2" using hf_frame_room [OF m(3)] s(10) by simp
  moreover have "last_alloc hf2 n = last_alloc hf1 n" "hf_n_nodes hf2 = hf_n_nodes hf1" "hf_n_rels hf2 = hf_n_rels hf1" for n
    using m(3) by (simp_all add: hf_frame_def last_alloc_def)
  moreover have "i < UNINITIALIZED_LONG" using s(5) rec_pages_bound [OF s(2), of node] by linarith
  ultimately show thesis using that [of hf2 i] s(3,4,6,7,11-13) by simp
qed

section \<open>Creating nodes\<close>

lemma hf_maps_update [simp]:
  "hf_nodes (hf\<lparr>hf_n_nodes := a\<rparr>) = hf_nodes hf" "hf_rels (hf\<lparr>hf_n_nodes := a\<rparr>) = hf_rels hf" "hf_inv (hf\<lparr>hf_n_nodes := a\<rparr>) = hf_inv hf"
  "hf_nodes (hf\<lparr>hf_n_rels := a\<rparr>) = hf_nodes hf" "hf_rels (hf\<lparr>hf_n_rels := a\<rparr>) = hf_rels hf" "hf_inv (hf\<lparr>hf_n_rels := a\<rparr>) = hf_inv hf"
  "hf_room k (hf\<lparr>hf_n_nodes := a\<rparr>) = hf_room k hf" "hf_room k (hf\<lparr>hf_n_rels := a\<rparr>) = hf_room k hf"
  "rec_pages (hf\<lparr>hf_n_nodes := a\<rparr>) = rec_pages hf" "rec_pages (hf\<lparr>hf_n_rels := a\<rparr>) = rec_pages hf"
  "hf_fixed (hf\<lparr>hf_n_nodes := a\<rparr>) = hf_fixed hf" "hf_fixed (hf\<lparr>hf_n_rels := a\<rparr>) = hf_fixed hf"
  by (simp_all add: hf_fixed_def hf_nodes_def hf_rels_def hf_inv_def hf_room_def rec_pages_def fun_eq_iff)

lemma create_node_ok:
  assumes inv: "hf_inv hf" and room: "hf_room (Suc k) hf" and l: "label < ULONG_RANGE"
  shows "\<exists>i hf'. create_node hf label log = Some (i, hf') \<and> hf_inv hf' \<and> hf_room k hf' \<and> i < UNINITIALIZED_LONG \<and>
    hf_nodes hf i = None \<and> (\<forall>j. hf_last_alloc_node_id hf \<le> j \<and> j < i \<longrightarrow> hf_nodes hf j \<noteq> None) \<and>
    hf_nodes hf' = (hf_nodes hf)(i \<mapsto> \<lparr>n_id = i, n_first_relationship = UNINITIALIZED_LONG, n_label = label\<rparr>) \<and>
    hf_rels hf' = hf_rels hf \<and> hf_n_nodes hf' = hf_n_nodes hf + 1 \<and> hf_n_rels hf' = hf_n_rels hf \<and>
    hf_fixed hf' = hf_fixed hf"
proof (rule next_free_slots_ok [OF inv room, where node = True and log = log])
  fix i hf1
  assume s: "next_free_slots hf True log = Some hf1" "last_alloc hf1 True = i" "hf_marked True i hf hf1"
    "i mod rec_slots True = 0" "i < UNINITIALIZED_LONG" "\<not> rec_used (hf_cache hf) True i"
    "\<And>j. last_alloc hf True \<le> j \<Longrightarrow> j < i \<Longrightarrow> j mod rec_slots True = 0 \<Longrightarrow> rec_used (hf_cache hf) True j"
    "hf_room k hf1" "hf_n_nodes hf1 = hf_n_nodes hf" "hf_n_rels hf1 = hf_n_rels hf"
    "\<And>n. n \<noteq> True \<Longrightarrow> last_alloc hf1 n = last_alloc hf n"
  define n where "n = new_node\<lparr>n_id := i, n_label := label\<rparr>"
  have n: "n = \<lparr>n_id = i, n_first_relationship = UNINITIALIZED_LONG, n_label = label\<rparr>"
    by (simp add: n_def new_node_def)
  then have ok: "node_ok n" using l by (simp add: node_ok_def UNINITIALIZED_LONG_def ULONG_RANGE_def)
  have m: "hf_inv hf1" "hf_nodes hf1 (n_id n) \<noteq> None" "hf_rels hf1 = hf_rels hf" "hf_fixed hf1 = hf_fixed hf"
    "\<And>x. (hf_nodes hf1)(i \<mapsto> x) = (hf_nodes hf)(i \<mapsto> x)"
    using s(3) by (auto simp: hf_marked_def n)
  obtain hf2 where u: "update_node_internal hf1 n False log = Some hf2" "hf_eff ((hf_nodes hf1)(n_id n \<mapsto> n)) (hf_rels hf1) hf1 hf2"
    using update_node_internal_ok [OF m(1,2) ok] by blast
  note e = hf_effD [OF u(2)]
  define hf3 where "hf3 = hf_log hf2 log ''Create_Node'' i label"
  have e3: "hf_eff ((hf_nodes hf1)(n_id n \<mapsto> n)) (hf_rels hf1) hf1 hf3" using u(2) by (simp add: hf3_def)
  have r: "hf_room k hf3" using hf_frame_room [OF hf_effD(4) [OF e3]] s(8) by simp
  have c: "hf_n_nodes hf3 = hf_n_nodes hf" "hf_n_rels hf3 = hf_n_rels hf" using hf_effD(4) [OF e3] s(9,10) by (simp_all add: hf_frame_def)
  have run: "create_node hf label log = Some (i, hf3\<lparr>hf_n_nodes := hf_n_nodes hf3 + 1\<rparr>)"
    using s(1,2) u(1) unfolding create_node_def by (simp add: last_alloc_def n_def [symmetric] hf3_def) (simp add: n Let_def)
  have f: "hf_nodes hf i = None" "hf_last_alloc_node_id hf \<le> j \<and> j < i \<longrightarrow> hf_nodes hf j \<noteq> None" for j
    using s(6,7) by (auto simp: hf_nodes_def last_alloc_def)
  show ?thesis
    using run r c f s(5) hf_effD [OF e3] hf_frame_fixed [OF hf_effD(4) [OF e3]] m(3-5) by (intro exI [of _ i] exI [of _ "hf3\<lparr>hf_n_nodes := hf_n_nodes hf3 + 1\<rparr>"]) (simp add: n)
qed

section \<open>Scans\<close>

text \<open>A scan visits every slot once; the slots inside of a record hold none.\<close>

definition scan_at :: "heap_file \<Rightarrow> bool \<Rightarrow> ulong \<Rightarrow> bool" where
  "scan_at hf node c \<longleftrightarrow> hf_inv hf \<and> c mod rec_slots node = 0 \<and> (c < 256 * rec_pages hf node \<or> c = 0)"

definition scan_list :: "(ulong \<rightharpoonup> 'a) \<Rightarrow> nat \<Rightarrow> nat \<Rightarrow> 'a list" where
  "scan_list M c e = List.map_filter M [c..<e]"

lemma scan_list_step:
  assumes "\<And>j. c < j \<Longrightarrow> j < c + n \<Longrightarrow> M j = None" "0 < n" "c + n \<le> e"
  shows "scan_list M c e = (case M c of None \<Rightarrow> [] | Some x \<Rightarrow> [x]) @ scan_list M (c + n) e"
proof -
  have "[c..<e] = c # [Suc c..<c + n] @ [c + n..<e]"
    using assms(2) upt_add_eq_append [of "Suc c" "c + n" "e - (c + n)"] upt_conv_Cons [of c e] assms(3) by simp
  moreover have "List.map_filter M [Suc c..<c + n] = []"
    using assms(1) by (auto simp: List.map_filter_def filter_empty_conv)
  ultimately show ?thesis by (simp add: scan_list_def List.map_filter_def split: option.split)
qed

lemma misaligned_None:
  assumes "c mod rec_slots node = 0" "c < j" "j < c + rec_slots node"
  shows "\<not> rec_used pc node j"
  using aligned_disjoint [of j node c 0] assms by (auto simp: rec_used_def)

lemma scan_list_nodes:
  assumes "hf_inv hf" "c mod rec_slots True = 0" "c < 256 * rec_pages hf True"
  shows "scan_list (hf_nodes hf) c (256 * rec_pages hf True) =
    (case hf_nodes hf c of None \<Rightarrow> [] | Some x \<Rightarrow> [x]) @ scan_list (hf_nodes hf) (c + 1) (256 * rec_pages hf True)"
  using assms(3) by (intro scan_list_step) simp_all

lemma scan_list_rels:
  assumes "hf_inv hf" "c mod rec_slots False = 0" "c < 256 * rec_pages hf False"
  shows "scan_list (hf_rels hf) c (256 * rec_pages hf False) =
    (case hf_rels hf c of None \<Rightarrow> [] | Some x \<Rightarrow> [x]) @ scan_list (hf_rels hf) (c + 4) (256 * rec_pages hf False)"
  using misaligned_None [OF assms(2)] walk_step(4) [OF assms]
  by (intro scan_list_step) (simp_all add: hf_rels_def)

lemma scan_check:
  assumes "scan_at hf node c"
  obtains hf' where "check_record_exists hf c node log = Some (rec_used (hf_cache hf) node c, hf')" "hf_same hf hf'"
proof -
  have inv: "hf_inv hf" using assms by (simp add: scan_at_def)
  have "pd_inv (pc_pdb (hf_cache hf))" using inv by (simp add: hf_inv_def db_idle_def db_ready_def books_def)
  from pd_invD(5) [OF this, of "rec_ft node"] have "db_has (hf_cache hf) (header, rec_ft node, 0)"
    by (simp add: db_has_def key_has_def valid_file_def pc_pages_def file_of_def)
  then have "db_has (hf_cache hf) (header, rec_ft node, c div 32768)"
    using assms header_has [OF inv, of c node] by (auto simp: scan_at_def)
  from check_record_exists_ok [OF inv this, of log] show ?thesis using that by blast
qed

lemma scan_next:
  assumes sc: "scan_at hf node c" and same: "hf_same hf hf'"
  shows "(case next_slot (rec_slots node) (c div 256) (c mod 256) of (rp, sp) \<Rightarrow> if rp < rec_pages hf' node then F (slot_id rp sp) rp sp else x) =
    (if c + rec_slots node < 256 * rec_pages hf node
     then F (c + rec_slots node) ((c + rec_slots node) div 256) ((c + rec_slots node) mod 256) else x)"
    "c + rec_slots node < 256 * rec_pages hf node \<Longrightarrow> scan_at hf' node (c + rec_slots node)"
proof -
  have p: "rec_pages hf' node = rec_pages hf node" by (rule hf_same_pages [OF hf_effD(4) [OF same]])
  show "c + rec_slots node < 256 * rec_pages hf node \<Longrightarrow> scan_at hf' node (c + rec_slots node)"
    using sc hf_effD(1) [OF same] p by (simp add: scan_at_def)
  show "(case next_slot (rec_slots node) (c div 256) (c mod 256) of (rp, sp) \<Rightarrow> if rp < rec_pages hf' node then F (slot_id rp sp) rp sp else x) =
    (if c + rec_slots node < 256 * rec_pages hf node
     then F (c + rec_slots node) ((c + rec_slots node) div 256) ((c + rec_slots node) mod 256) else x)"
    using sc walk_step(2) [of hf c node] next_slot_eq [of c node] by (auto simp: scan_at_def p page_less_iff)
qed

lemma get_nodes_loop_ok:
  assumes "scan_at hf True c" "al_inv l"
  shows "\<exists>l' hf'. get_nodes_loop hf log c (c div 256) (c mod 256) l = Some (l', hf') \<and> hf_same hf hf' \<and> al_inv l' \<and>
    al_list l' = al_list l @ scan_list (hf_nodes hf) c (256 * rec_pages hf True)"
  using assms
proof (induction "256 * rec_pages hf True - c" arbitrary: hf c l rule: less_induct)
  case less
  let ?e = "256 * rec_pages hf True"
  have inv: "hf_inv hf" using less.prems by (simp add: scan_at_def)
  obtain hf1 where c: "check_record_exists hf c True log = Some (rec_used (hf_cache hf) True c, hf1)" "hf_same hf hf1"
    by (rule scan_check [OF less.prems(1)])
  obtain l2 hf2 where s: "(if rec_used (hf_cache hf) True c then do {
         (node, hf) \<leftarrow> read_node_internal hf1 c False log;
         result \<leftarrow> al_append l node;
         Some (result, hf_log hf log ''read_node'' (n_id node) (n_label node)) }
       else Some (l, hf1)) = Some (l2, hf2)" "hf_same hf hf2" "al_inv l2"
      "al_list l2 = al_list l @ (case hf_nodes hf c of None \<Rightarrow> [] | Some x \<Rightarrow> [x])"
  proof (cases "hf_nodes hf c")
    case None
    then show ?thesis using that [of l hf1] c(2) less.prems(2) by (auto simp: hf_nodes_def split: if_splits)
  next
    case (Some n)
    then have "hf_nodes hf1 c = Some n" using hf_effD(2) [OF c(2)] by simp
    from read_node_internal_ok [OF hf_effD(1) [OF c(2)] this, of False log]
    obtain hf2 where r: "read_node_internal hf1 c False log = Some (n, hf2)" "hf_same hf1 hf2" by blast
    obtain l2 where "al_append l n = Some l2" "al_inv l2" "al_list l2 = al_list l @ [n]"
      using alist.append_law [OF less.prems(2), of n] by blast
    then show ?thesis
      using that [of l2 "hf_log hf2 log ''read_node'' (n_id n) (n_label n)"] r(1) hf_same_trans [OF c(2) r(2)] Some
        conjunct1 [OF hf_nodes_SomeD [OF Some]] by simp
  qed
  note nx = scan_next [OF less.prems(1) s(2), unfolded rec_simps]
  show ?case
  proof (cases "c + 1 < ?e")
    case True
    have p: "rec_pages hf2 True = rec_pages hf True" by (rule hf_same_pages [OF hf_effD(4) [OF s(2)]])
    obtain l3 hf3 where IH: "get_nodes_loop hf2 log (c + 1) ((c + 1) div 256) ((c + 1) mod 256) l2 = Some (l3, hf3)"
      "hf_same hf2 hf3" "al_inv l3" "al_list l3 = al_list l2 @ scan_list (hf_nodes hf2) (c + 1) ?e"
      using less.hyps [OF _ nx(2) [OF True] s(3)] True unfolding p by fastforce
    have "get_nodes_loop hf log c (c div 256) (c mod 256) l = Some (l3, hf3)"
      using c(1) s(1) IH(1) nx(1) [where F = "\<lambda>i p q. get_nodes_loop hf2 log i p q l2"] True by (subst get_nodes_loop.simps) (simp add: slots_eq)
    then show ?thesis
      using IH s(2,4) scan_list_nodes [OF inv, of c] True by (simp add: hf_eff_def)
  next
    case False
    have "get_nodes_loop hf log c (c div 256) (c mod 256) l = Some (l2, hf2)"
      using c(1) s(1) nx(1) False by (subst get_nodes_loop.simps) (simp add: slots_eq)
    moreover have "scan_list (hf_nodes hf) c ?e = (case hf_nodes hf c of None \<Rightarrow> [] | Some x \<Rightarrow> [x])"
    proof (cases "c < ?e")
      case True
      then show ?thesis using scan_list_nodes [OF inv, of c] False by (simp add: scan_list_def List.map_filter_def)
    next
      case False
      then show ?thesis using rec_used_less [OF inv, of True c] by (auto simp: scan_list_def List.map_filter_def hf_nodes_def)
    qed
    ultimately show ?thesis using s by simp
  qed
qed

lemma get_relationships_loop_ok:
  assumes "scan_at hf False c" "al_inv l"
  shows "\<exists>l' hf'. get_relationships_loop hf log c (c div 256) (c mod 256) l = Some (l', hf') \<and> hf_same hf hf' \<and> al_inv l' \<and>
    al_list l' = al_list l @ scan_list (hf_rels hf) c (256 * rec_pages hf False)"
  using assms
proof (induction "256 * rec_pages hf False - c" arbitrary: hf c l rule: less_induct)
  case less
  let ?e = "256 * rec_pages hf False"
  have inv: "hf_inv hf" and al: "c mod rec_slots False = 0" using less.prems by (simp_all add: scan_at_def)
  obtain hf1 where c: "check_record_exists hf c False log = Some (rec_used (hf_cache hf) False c, hf1)" "hf_same hf hf1"
    by (rule scan_check [OF less.prems(1)])
  obtain l2 hf2 where s: "(if rec_used (hf_cache hf) False c then do {
         (rel, hf) \<leftarrow> read_relationship_internal hf1 c False log;
         result \<leftarrow> al_append l rel;
         Some (result, hf_log hf log ''read_rel'' (r_id rel) (r_label rel)) }
       else Some (l, hf1)) = Some (l2, hf2)" "hf_same hf hf2" "al_inv l2"
      "al_list l2 = al_list l @ (case hf_rels hf c of None \<Rightarrow> [] | Some x \<Rightarrow> [x])"
  proof (cases "hf_rels hf c")
    case None
    then show ?thesis using that [of l hf1] c(2) less.prems(2) by (auto simp: hf_rels_def split: if_splits)
  next
    case (Some n)
    then have "hf_rels hf1 c = Some n" using hf_effD(3) [OF c(2)] by simp
    from read_relationship_internal_ok [OF hf_effD(1) [OF c(2)] this, of False log]
    obtain hf2 where r: "read_relationship_internal hf1 c False log = Some (n, hf2)" "hf_same hf1 hf2" by blast
    obtain l2 where "al_append l n = Some l2" "al_inv l2" "al_list l2 = al_list l @ [n]"
      using alist.append_law [OF less.prems(2), of n] by blast
    then show ?thesis
      using that [of l2 "hf_log hf2 log ''read_rel'' (r_id n) (r_label n)"] r(1) hf_same_trans [OF c(2) r(2)] Some
        conjunct1 [OF hf_rels_SomeD [OF Some]] by simp
  qed
  note nx = scan_next [OF less.prems(1) s(2), unfolded rec_simps]
  show ?case
  proof (cases "c + 4 < ?e")
    case True
    have p: "rec_pages hf2 False = rec_pages hf False" by (rule hf_same_pages [OF hf_effD(4) [OF s(2)]])
    obtain l3 hf3 where IH: "get_relationships_loop hf2 log (c + 4) ((c + 4) div 256) ((c + 4) mod 256) l2 = Some (l3, hf3)"
      "hf_same hf2 hf3" "al_inv l3" "al_list l3 = al_list l2 @ scan_list (hf_rels hf2) (c + 4) ?e"
      using less.hyps [OF _ nx(2) [OF True] s(3)] True unfolding p by fastforce
    have "get_relationships_loop hf log c (c div 256) (c mod 256) l = Some (l3, hf3)"
      using c(1) s(1) IH(1) nx(1) [where F = "\<lambda>i p q. get_relationships_loop hf2 log i p q l2"] True by (subst get_relationships_loop.simps) (simp add: slots_eq)
    then show ?thesis
      using IH s(2,4) scan_list_rels [OF inv al] True by (simp add: hf_eff_def)
  next
    case False
    have "get_relationships_loop hf log c (c div 256) (c mod 256) l = Some (l2, hf2)"
      using c(1) s(1) nx(1) False by (subst get_relationships_loop.simps) (simp add: slots_eq)
    moreover have "scan_list (hf_rels hf) c ?e = (case hf_rels hf c of None \<Rightarrow> [] | Some x \<Rightarrow> [x])"
    proof (cases "c < ?e")
      case True
      then show ?thesis using scan_list_rels [OF inv al] False by (simp add: scan_list_def List.map_filter_def)
    next
      case False
      then show ?thesis using rec_used_less [OF inv, of False c] by (auto simp: scan_list_def List.map_filter_def hf_rels_def)
    qed
    ultimately show ?thesis using s by simp
  qed
qed

lemma find_node_loop_ok:
  assumes "scan_at hf True c"
  shows "case filter (\<lambda>x. n_label x = label) (scan_list (hf_nodes hf) c (256 * rec_pages hf True)) of
      [] \<Rightarrow> find_node_loop hf label log c (c div 256) (c mod 256) = None
    | x # _ \<Rightarrow> \<exists>hf'. find_node_loop hf label log c (c div 256) (c mod 256) = Some (x, hf') \<and> hf_same hf hf'"
  using assms
proof (induction "256 * rec_pages hf True - c" arbitrary: hf c rule: less_induct)
  case less
  let ?e = "256 * rec_pages hf True" and ?P = "\<lambda>x. n_label x = label"
  have inv: "hf_inv hf" and al: "c mod rec_slots True = 0" using less.prems by (simp_all add: scan_at_def)
  obtain hf1 where c: "check_record_exists hf c True log = Some (rec_used (hf_cache hf) True c, hf1)" "hf_same hf hf1"
    by (rule scan_check [OF less.prems(1)])
  obtain hf2 where s: "(if rec_used (hf_cache hf) True c then do {
         (x, hf) \<leftarrow> read_node_internal hf1 c False log;
         let hf = hf_log hf log ''read_node'' (n_id x) (n_label x);
         Some (if label = n_label x then Some x else None, hf) }
       else Some (None, hf1)) = Some (case hf_nodes hf c of None \<Rightarrow> None | Some x \<Rightarrow> if ?P x then Some x else None, hf2)" "hf_same hf hf2"
  proof (cases "hf_nodes hf c")
    case None
    then show ?thesis using that [of hf1] c(2) by (auto simp: hf_nodes_def split: if_splits)
  next
    case (Some n)
    then have "hf_nodes hf1 c = Some n" using hf_effD(2) [OF c(2)] by simp
    from read_node_internal_ok [OF hf_effD(1) [OF c(2)] this, of False log]
    obtain hf2 where r: "read_node_internal hf1 c False log = Some (n, hf2)" "hf_same hf1 hf2" by blast
    then show ?thesis
      using that [of "hf_log hf2 log ''read_node'' (n_id n) (n_label n)"] hf_same_trans [OF c(2) r(2)] Some
        conjunct1 [OF hf_nodes_SomeD [OF Some]] by (auto simp: Let_def)
  qed
  note nx = scan_next [OF less.prems(1) s(2), unfolded rec_simps]
  have step: "find_node_loop hf label log c (c div 256) (c mod 256) =
      (case (case hf_nodes hf c of None \<Rightarrow> None | Some x \<Rightarrow> if ?P x then Some x else None) of Some x \<Rightarrow> Some (x, hf2)
       | None \<Rightarrow> if c + 1 < ?e then find_node_loop hf2 label log (c + 1) ((c + 1) div 256) ((c + 1) mod 256) else None)"
    using c(1) s(1) nx(1) [where F = "\<lambda>i p q. find_node_loop hf2 label log i p q"]
    by (subst find_node_loop.simps) (simp add: slots_eq cong: option.case_cong)
  have list: "scan_list (hf_nodes hf) c ?e = (case hf_nodes hf c of None \<Rightarrow> [] | Some x \<Rightarrow> [x]) @
      (if c + 1 < ?e then scan_list (hf_nodes hf) (c + 1) ?e else [])"
  proof (cases "c < ?e")
    case True
    then show ?thesis using scan_list_nodes [OF inv al] by (simp add: scan_list_def List.map_filter_def)
  next
    case False
    then show ?thesis using rec_used_less [OF inv, of True c] by (auto simp: scan_list_def List.map_filter_def hf_nodes_def)
  qed
  show ?case
  proof (cases "c + 1 < ?e \<and> (\<forall>x. hf_nodes hf c = Some x \<longrightarrow> \<not> ?P x)")
    case True
    have p: "rec_pages hf2 True = rec_pages hf True" by (rule hf_same_pages [OF hf_effD(4) [OF s(2)]])
    have "find_node_loop hf label log c (c div 256) (c mod 256) = find_node_loop hf2 label log (c + 1) ((c + 1) div 256) ((c + 1) mod 256)"
      using step True by (auto split: option.splits)
    moreover have "filter ?P (scan_list (hf_nodes hf) c ?e) = filter ?P (scan_list (hf_nodes hf2) (c + 1) ?e)"
      using list True hf_effD(2) [OF s(2)] by (auto split: option.splits)
    ultimately show ?thesis
      using less.hyps [OF _ nx(2)] True hf_same_trans [OF s(2)] unfolding p by (fastforce split: list.splits)
  next
    case False
    then show ?thesis using step list s(2) by (auto split: option.splits)
  qed
qed

lemma find_relationships_loop_ok:
  assumes "scan_at hf False c"
  shows "case filter (\<lambda>x. r_label x = label) (scan_list (hf_rels hf) c (256 * rec_pages hf False)) of
      [] \<Rightarrow> find_relationships_loop hf label log c (c div 256) (c mod 256) = None
    | x # _ \<Rightarrow> \<exists>hf'. find_relationships_loop hf label log c (c div 256) (c mod 256) = Some (x, hf') \<and> hf_same hf hf'"
  using assms
proof (induction "256 * rec_pages hf False - c" arbitrary: hf c rule: less_induct)
  case less
  let ?e = "256 * rec_pages hf False" and ?P = "\<lambda>x. r_label x = label"
  have inv: "hf_inv hf" and al: "c mod rec_slots False = 0" using less.prems by (simp_all add: scan_at_def)
  obtain hf1 where c: "check_record_exists hf c False log = Some (rec_used (hf_cache hf) False c, hf1)" "hf_same hf hf1"
    by (rule scan_check [OF less.prems(1)])
  obtain hf2 where s: "(if rec_used (hf_cache hf) False c then do {
         (x, hf) \<leftarrow> read_relationship_internal hf1 c False log;
         let hf = hf_log hf log ''read_rel'' (r_id x) (r_label x);
         Some (if label = r_label x then Some x else None, hf) }
       else Some (None, hf1)) = Some (case hf_rels hf c of None \<Rightarrow> None | Some x \<Rightarrow> if ?P x then Some x else None, hf2)" "hf_same hf hf2"
  proof (cases "hf_rels hf c")
    case None
    then show ?thesis using that [of hf1] c(2) by (auto simp: hf_rels_def split: if_splits)
  next
    case (Some n)
    then have "hf_rels hf1 c = Some n" using hf_effD(3) [OF c(2)] by simp
    from read_relationship_internal_ok [OF hf_effD(1) [OF c(2)] this, of False log]
    obtain hf2 where r: "read_relationship_internal hf1 c False log = Some (n, hf2)" "hf_same hf1 hf2" by blast
    then show ?thesis
      using that [of "hf_log hf2 log ''read_rel'' (r_id n) (r_label n)"] hf_same_trans [OF c(2) r(2)] Some
        conjunct1 [OF hf_rels_SomeD [OF Some]] by (auto simp: Let_def)
  qed
  note nx = scan_next [OF less.prems(1) s(2), unfolded rec_simps]
  have step: "find_relationships_loop hf label log c (c div 256) (c mod 256) =
      (case (case hf_rels hf c of None \<Rightarrow> None | Some x \<Rightarrow> if ?P x then Some x else None) of Some x \<Rightarrow> Some (x, hf2)
       | None \<Rightarrow> if c + 4 < ?e then find_relationships_loop hf2 label log (c + 4) ((c + 4) div 256) ((c + 4) mod 256) else None)"
    using c(1) s(1) nx(1) [where F = "\<lambda>i p q. find_relationships_loop hf2 label log i p q"]
    by (subst find_relationships_loop.simps) (simp add: slots_eq cong: option.case_cong)
  have list: "scan_list (hf_rels hf) c ?e = (case hf_rels hf c of None \<Rightarrow> [] | Some x \<Rightarrow> [x]) @
      (if c + 4 < ?e then scan_list (hf_rels hf) (c + 4) ?e else [])"
  proof (cases "c < ?e")
    case True
    then show ?thesis using scan_list_rels [OF inv al] by (simp add: scan_list_def List.map_filter_def)
  next
    case False
    then show ?thesis using rec_used_less [OF inv, of False c] by (auto simp: scan_list_def List.map_filter_def hf_rels_def)
  qed
  show ?case
  proof (cases "c + 4 < ?e \<and> (\<forall>x. hf_rels hf c = Some x \<longrightarrow> \<not> ?P x)")
    case True
    have p: "rec_pages hf2 False = rec_pages hf False" by (rule hf_same_pages [OF hf_effD(4) [OF s(2)]])
    have "find_relationships_loop hf label log c (c div 256) (c mod 256) = find_relationships_loop hf2 label log (c + 4) ((c + 4) div 256) ((c + 4) mod 256)"
      using step True by (auto split: option.splits)
    moreover have "filter ?P (scan_list (hf_rels hf) c ?e) = filter ?P (scan_list (hf_rels hf2) (c + 4) ?e)"
      using list True hf_effD(3) [OF s(2)] by (auto split: option.splits)
    ultimately show ?thesis
      using less.hyps [OF _ nx(2)] True hf_same_trans [OF s(2)] unfolding p by (fastforce split: list.splits)
  next
    case False
    then show ?thesis using step list s(2) by (auto split: option.splits)
  qed
qed

lemma scan_start: "hf_inv hf \<Longrightarrow> scan_at hf node 0"
  by (simp add: scan_at_def)

text \<open>The scan lists every record once, in the order of the slots.\<close>

lemma scan_list_all:
  assumes "dom M \<subseteq> {..<e}"
  shows "set (scan_list M 0 e) = ran M" "length (scan_list M 0 e) = card (dom M)"
proof -
  have l: "scan_list M 0 e = map (\<lambda>i. the (M i)) (filter (\<lambda>i. M i \<noteq> None) [0..<e])"
    by (simp add: scan_list_def List.map_filter_def)
  have f: "set (filter (\<lambda>i. M i \<noteq> None) [0..<e]) = dom M" using assms by (auto simp: dom_def)
  show "set (scan_list M 0 e) = ran M" unfolding l set_map f by (auto simp: ran_def dom_def image_iff) force
  show "length (scan_list M 0 e) = card (dom M)"
    unfolding l length_map f [symmetric] by (rule distinct_card [symmetric]) simp
qed

lemma hf_dom:
  assumes "hf_inv hf"
  shows "dom (hf_nodes hf) \<subseteq> {..<256 * rec_pages hf True}" "dom (hf_rels hf) \<subseteq> {..<256 * rec_pages hf False}"
  using rec_used_less [OF assms] by (auto simp: hf_nodes_def hf_rels_def split: if_splits)

definition hf_node_list :: "heap_file \<Rightarrow> node_t list" where
  "hf_node_list hf = scan_list (hf_nodes hf) 0 (256 * rec_pages hf True)"

definition hf_rel_list :: "heap_file \<Rightarrow> relationship_t list" where
  "hf_rel_list hf = scan_list (hf_rels hf) 0 (256 * rec_pages hf False)"

lemmas scan_defs = hf_node_list_def hf_rel_list_def

lemma get_nodes_ok:
  assumes "hf_inv hf"
  shows "\<exists>l hf'. get_nodes hf log = Some (l, hf') \<and> hf_same hf hf' \<and> al_inv l \<and> al_list l = hf_node_list hf"
  using get_nodes_loop_ok [OF scan_start [OF assms], of al_node_create log]
  by (simp add: get_nodes_def al_node_create_def hf_node_list_def)

lemma get_relationships_ok:
  assumes "hf_inv hf"
  shows "\<exists>l hf'. get_relationships hf log = Some (l, hf') \<and> hf_same hf hf' \<and> al_inv l \<and> al_list l = hf_rel_list hf"
  using get_relationships_loop_ok [OF scan_start [OF assms], of al_rel_create log]
  by (simp add: get_relationships_def al_rel_create_def hf_rel_list_def)

section \<open>Opening a heap file\<close>

definition hf_counts :: "heap_file \<Rightarrow> bool" where
  "hf_counts hf \<longleftrightarrow> hf_n_nodes hf = of_nat (card (dom (hf_nodes hf))) \<and> hf_n_rels hf = of_nat (card (dom (hf_rels hf)))"

definition hf_opened :: "page_cache \<Rightarrow> string \<Rightarrow> heap_file" where
  "hf_opened pc log_path = \<lparr>hf_cache = pc, hf_n_nodes = 0, hf_n_rels = 0, hf_last_alloc_node_id = 0, hf_last_alloc_rel_id = 0,
     hf_num_reads_nodes = 0, hf_num_updates_nodes = 0, hf_num_reads_rels = 0, hf_num_update_rels = 0,
     hf_log_file = log_path, hf_trace = []\<rparr>"

lemma heap_file_create_ok:
  assumes pc: "hf_inv (hf_opened pc log_path)"
  shows "\<exists>hf. heap_file_create pc log_path = Some hf \<and> hf_inv hf \<and> hf_counts hf \<and>
    hf_nodes hf = hf_nodes (hf_opened pc log_path) \<and> hf_rels hf = hf_rels (hf_opened pc log_path) \<and>
    (\<forall>k. hf_room k hf = hf_room k (hf_opened pc log_path)) \<and> hf_last_alloc_node_id hf = 0 \<and> hf_last_alloc_rel_id hf = 0 \<and>
    hf_fixed hf = (pc_bulk_import pc, pc_n_frames pc, pd_names (pc_pdb pc))"
proof -
  let ?hf = "hf_opened pc log_path"
  obtain l hf1 where g: "get_nodes ?hf False = Some (l, hf1)" "hf_same ?hf hf1" "al_list l = hf_node_list ?hf"
    using get_nodes_ok [OF pc] by blast
  define hf2 where "hf2 = hf1\<lparr>hf_n_nodes := word_of_nat (al_size l)\<rparr>"
  have i2: "hf_inv hf2" using hf_effD(1) [OF g(2)] by (simp add: hf2_def)
  obtain r hf3 where h: "get_relationships hf2 False = Some (r, hf3)" "hf_same hf2 hf3" "al_list r = hf_rel_list hf2"
    using get_relationships_ok [OF i2] by blast
  define hf4 where "hf4 = hf3\<lparr>hf_n_rels := word_of_nat (al_size r)\<rparr>"
  have run: "heap_file_create pc log_path = Some hf4"
    using g(1) h(1) by (simp add: heap_file_create_def hf_opened_def hf2_def hf4_def Let_def)
  have m: "hf_nodes hf4 = hf_nodes ?hf" "hf_rels hf4 = hf_rels ?hf" "hf_inv hf4" "hf_n_nodes hf4 = word_of_nat (al_size l)"
    using hf_effD [OF g(2)] hf_effD [OF h(2)] by (simp_all add: hf4_def hf2_def hf_frame_def)
  have fr: "db_has (hf_cache hf4) = db_has pc" "db_cap (hf_cache hf4) = db_cap pc" "hf_last_alloc_node_id hf4 = 0" "hf_last_alloc_rel_id hf4 = 0"
    using hf_effD(4) [OF g(2)] hf_effD(4) [OF h(2)] by (simp_all add: hf4_def hf2_def hf_frame_def hf_opened_def)
  have "al_size l = card (dom (hf_nodes ?hf))"
    using g(3) scan_list_all(2) [OF hf_dom(1) [OF pc]] alist.size_law [of l] by (metis al_list_length al_size_def hf_node_list_def)
  moreover have "al_size r = card (dom (hf_rels hf2))"
    using h(3) scan_list_all(2) [OF hf_dom(2) [OF i2]] by (metis al_list_length al_size_def hf_rel_list_def)
  ultimately have "hf_counts hf4"
    using m hf_effD(3) [OF g(2)] by (simp add: hf_counts_def) (simp add: hf4_def hf2_def)
  moreover have "hf_room k hf4 = hf_room k ?hf" for k by (rule hf_room_cong) (simp_all add: fr hf_opened_def)
  moreover have "hf_fixed hf4 = (pc_bulk_import pc, pc_n_frames pc, pd_names (pc_pdb pc))" using fr(2) by (simp add: db_cap_def hf_fixed_def)
  ultimately show ?thesis using run m fr(3,4) by blast
qed

text \<open>A new database, opened with enough frames, is empty and has room.\<close>

lemma new_database:
  assumes "n < 2 ^ 32" "3 + 2 * k \<le> n" "k < 1000000"
  obtains db fs pc hf where "phy_database_create Map.empty name log = Some (db, fs)" "page_cache_create seed db n log = Some pc"
    "heap_file_create pc log = Some hf" "hf_inv hf" "hf_counts hf" "hf_room k hf" "hf_nodes hf = Map.empty" "hf_rels hf = Map.empty"
    "hf_last_alloc_node_id hf = 0" "hf_last_alloc_rel_id hf = 0" "hf_fixed hf = (False, n, pd_names db)"
proof -
  obtain db fs where d: "phy_database_create Map.empty name log = Some (db, fs)" "pd_inv db" "df_num_pages (pd_catalogue db) = 1"
    "\<And>ft. ft \<noteq> invalid_ft \<Longrightarrow> df_num_pages (pd_records db ft) = 0 \<and> df_num_pages (pd_header db ft) = 1 \<and> df_page (pd_header db ft) 0 = (\<lambda>_. 0)"
    using phy_database_create_ok [of Map.empty name log] by auto
  obtain pc where p: "page_cache_create seed db n log = Some pc" "pc_pdb pc = db" "pc_n_frames pc = n" "pc_frames pc = replicate n (page_create (\<lambda>_. 0))" "\<not> pc_bulk_import pc"
    "\<And>fk ft pn. valid_file fk ft \<Longrightarrow> pc_view pc fk ft pn = df_page (file_of db fk ft) pn"
    using page_cache_create_ok [OF pd_inv_files_ok [OF d(2)], of seed n log] by blast
  have pages: "pc_pages pc catalogue node_ft = 1" "ft \<noteq> invalid_ft \<Longrightarrow> pc_pages pc header ft = 1" "ft \<noteq> invalid_ft \<Longrightarrow> pc_pages pc records ft = 0" for ft
    using d(3,4) p(2) by (simp_all add: pc_pages_def file_of_def)
  then have all: "all_pages pc = 3" by (simp add: all_pages_def)
  have "ready n pc"
    using ready_create(1) [OF pd_inv_files_ok [OF d(2)] assms(1) p(1)] all assms(2) by simp
  moreover have "books pc" using d(2) p(2,4) by (auto simp: books_def nocat_def page_create_def)
  ultimately have rdy: "db_idle pc" using p(3) assms(2) by (simp add: db_ready_def db_idle_def)
  have zero: "key_view pc (header, rec_ft node, s) = (\<lambda>_. 0)" if "db_has pc (header, rec_ft node, s)" for node s
    using that d(4) [of "rec_ft node"] p(6) [of header "rec_ft node"] pages(2) [of "rec_ft node"]
    by (simp add: db_has_def key_has_def key_view_def file_of_def)
  then have clean: "header_clean pc node" for node by (simp add: header_clean_def)
  have inv: "hf_inv (hf_opened pc log)" using rdy clean by (simp add: hf_inv_def hf_opened_def)
  have un: "\<not> rec_used pc node i" for node i
    using zero [of node "i div 32768"] rec_slots_cases [of node] by (auto simp: rec_used_def intro!: exI [of _ 0])
  have empty: "hf_nodes (hf_opened pc log) = Map.empty" "hf_rels (hf_opened pc log) = Map.empty"
    by (simp_all add: hf_nodes_def hf_rels_def hf_opened_def un fun_eq_iff)
  have "hf_room k (hf_opened pc log)"
    using pages all assms(2,3) p(3)
    by (simp add: hf_room_def hf_opened_def rec_pages_eq [symmetric] MAX_PAGE_NO_def LONG_MAX_def PAGE_SIZE_def)
  with heap_file_create_ok [OF inv] obtain hf where "heap_file_create pc log = Some hf" "hf_inv hf" "hf_counts hf" "hf_room k hf"
    "hf_nodes hf = Map.empty" "hf_rels hf = Map.empty" "hf_last_alloc_node_id hf = 0" "hf_last_alloc_rel_id hf = 0"
    "hf_fixed hf = (False, n, pd_names db)"
    using empty p(2,3,5) by auto
  then show ?thesis using that [OF d(1) p(1)] by simp
qed

end
