(* ===== verification/Linked_Rings.thy ===== *)
theory Linked_Rings
  imports Main
begin

text \<open>
  Circular doubly linked lists as lists of distinct elements. \<open>nxt xs\<close> and \<open>prv xs\<close> map every element to
  the one after and before it, the ends being neighbours. Neither depends on where the ring is cut.
  Adding an element at the end or taking one out changes the links of its two neighbours only.
\<close>

definition nxt :: "'a list \<Rightarrow> 'a \<rightharpoonup> 'a" where
  "nxt xs = map_of (zip xs (rotate1 xs))"

definition prv :: "'a list \<Rightarrow> 'a \<rightharpoonup> 'a" where
  "prv xs = map_of (zip (rotate1 xs) xs)"

lemma nxt_middle:
  assumes "distinct (as @ x # bs)"
  shows "nxt (as @ x # bs) x = Some (hd (bs @ as @ [x]))"
proof -
  let ?xs = "as @ x # bs"
  have "(x, hd (bs @ as @ [x])) \<in> set (zip ?xs (rotate1 ?xs))"
  proof (cases bs)
    case Nil
    then show ?thesis by (cases as) (auto simp: zip_append1 in_set_zip nth_append intro!: exI [of _ "length as"])
  next
    case (Cons b bs')
    then show ?thesis
      by (cases as) (auto simp: in_set_zip nth_append nth_Cons' intro!: exI [of _ "length as"])
  qed
  then show ?thesis using assms by (auto simp: nxt_def map_of_eq_Some_iff)
qed

lemma prv_nxt:
  assumes "distinct xs"
  shows "prv xs y = Some x \<longleftrightarrow> nxt xs x = Some y"
proof -
  have "map fst (zip xs (rotate1 xs)) = xs" "map fst (zip (rotate1 xs) xs) = rotate1 xs" by simp_all
  then have "prv xs y = Some x \<longleftrightarrow> (y, x) \<in> set (zip (rotate1 xs) xs)" "nxt xs x = Some y \<longleftrightarrow> (x, y) \<in> set (zip xs (rotate1 xs))"
    using assms unfolding prv_def nxt_def by (auto intro!: map_of_eq_Some_iff)
  then show ?thesis by (auto simp: in_set_zip)
qed

lemma nxt_dom: "dom (nxt xs) = set xs"
  by (simp add: nxt_def)

lemma nxt_SomeD: "nxt xs x = Some y \<Longrightarrow> x \<in> set xs \<and> y \<in> set xs"
  by (auto simp: nxt_def dest!: map_of_SomeD dest: set_zip_leftD set_zip_rightD)

lemma nxt_rotate:
  assumes "distinct (as @ bs)"
  shows "nxt (bs @ as) = nxt (as @ bs)"
proof
  fix x
  show "nxt (bs @ as) x = nxt (as @ bs) x"
  proof (cases "x \<in> set (as @ bs)")
    case False
    then have "x \<notin> dom (nxt (bs @ as))" "x \<notin> dom (nxt (as @ bs))" unfolding nxt_dom by auto
    then show ?thesis by (simp add: domIff)
  next
    case True
    then consider us vs where "as = us @ x # vs" | us vs where "bs = us @ x # vs" by (auto dest!: split_list)
    then show ?thesis
    proof cases
      case 1
      then show ?thesis
        using assms nxt_middle [of "bs @ us" x vs] nxt_middle [of us x "vs @ bs"] by (auto simp: Int_commute)
    next
      case 2
      then show ?thesis
        using assms nxt_middle [of us x "vs @ as"] nxt_middle [of "as @ us" x vs] by (auto simp: Int_commute)
    qed
  qed
qed

lemma nxt_append:
  assumes "distinct (xs @ [y])" "xs \<noteq> []"
  shows "nxt (xs @ [y]) = (nxt xs)(last xs \<mapsto> y, y \<mapsto> hd xs)"
proof
  fix x
  show "nxt (xs @ [y]) x = ((nxt xs)(last xs \<mapsto> y, y \<mapsto> hd xs)) x"
  proof (cases "x \<in> set xs")
    case False
    then have "nxt xs x = None" "x \<noteq> last xs" using nxt_dom [of xs] assms(2) by (auto simp: domIff)
    then show ?thesis
      using False nxt_middle [OF assms(1)] assms nxt_dom [of "xs @ [y]"] by (cases "x = y") (auto simp: domIff)
  next
    case True
    then obtain as bs where s: "xs = as @ x # bs" by (auto dest: split_list)
    have "nxt (xs @ [y]) x = Some (hd (bs @ [y]))" "nxt xs x = Some (hd (bs @ as @ [x]))"
      using nxt_middle [of as x "bs @ [y]"] nxt_middle [of as x bs] assms(1) by (auto simp: s hd_append)
    moreover have "x \<noteq> y" "x = last xs \<longleftrightarrow> bs = []" using assms(1) by (auto simp: s)
    ultimately show ?thesis by (auto simp: hd_append)
  qed
qed

lemma prv_mapI:
  assumes "distinct ys" "\<And>x y. nxt ys x = Some y \<longleftrightarrow> M y = Some x"
  shows "prv ys = M"
proof
  fix y
  have "prv ys y = Some x \<longleftrightarrow> M y = Some x" for x using prv_nxt [OF assms(1)] assms(2) by simp
  then show "prv ys y = M y" by (metis not_None_eq)
qed

lemma nxt_last: "distinct xs \<Longrightarrow> xs \<noteq> [] \<Longrightarrow> nxt xs (last xs) = Some (hd xs)"
  by (cases xs rule: rev_cases) (auto simp: nxt_middle [of _ _ "[]", simplified])

lemma prv_hd: "distinct xs \<Longrightarrow> xs \<noteq> [] \<Longrightarrow> prv xs (hd xs) = Some (last xs)"
  by (simp add: prv_nxt nxt_last)

lemma prv_append:
  assumes d: "distinct (xs @ [y])" and ne: "xs \<noteq> []"
  shows "prv (xs @ [y]) = (prv xs)(hd xs \<mapsto> y, y \<mapsto> last xs)"
proof (rule prv_mapI)
  fix a b
  have x: "distinct xs" "y \<notin> set xs" "hd xs \<in> set xs" "last xs \<in> set xs" using d ne by auto
  have "nxt xs a = Some (hd xs) \<longleftrightarrow> a = last xs" using prv_hd [OF x(1) ne] prv_nxt [OF x(1), of "hd xs" a] by auto
  moreover have "nxt xs a \<noteq> Some y" "nxt xs y \<noteq> Some b" using nxt_SomeD [of xs] x(2) by blast+
  ultimately show "nxt (xs @ [y]) a = Some b \<longleftrightarrow> ((prv xs)(hd xs \<mapsto> y, y \<mapsto> last xs)) b = Some a"
    using x prv_nxt [OF x(1), of b a] nxt_last [OF x(1) ne] unfolding nxt_append [OF d ne] by auto
qed (use d in auto)

text \<open>Taking an element out.\<close>

lemma nxt_remove:
  assumes "distinct (as @ x # bs)" "as @ bs \<noteq> []"
  shows "\<exists>p s. prv (as @ x # bs) x = Some p \<and> nxt (as @ x # bs) x = Some s \<and> p \<in> set (as @ bs) \<and> s \<in> set (as @ bs) \<and>
    nxt (as @ bs) = (nxt (as @ x # bs))(x := None, p \<mapsto> s) \<and> prv (as @ bs) = (prv (as @ x # bs))(x := None, s \<mapsto> p)"
proof -
  let ?ds = "bs @ as"
  have d: "distinct (?ds @ [x])" "?ds \<noteq> []" "distinct ?ds" "x \<notin> set ?ds" using assms by auto
  have ring: "nxt (as @ x # bs) = nxt (?ds @ [x])" "nxt (as @ bs) = nxt ?ds"
    using nxt_rotate [of bs "as @ [x]"] nxt_rotate [of bs as] assms nxt_rotate [of "as @ [x]" bs] by (auto simp: Int_commute)
  have "prv (as @ x # bs) y = Some z \<longleftrightarrow> prv (?ds @ [x]) y = Some z" "prv (as @ bs) y = Some z \<longleftrightarrow> prv ?ds y = Some z" for y z
    using prv_nxt [of "as @ x # bs"] prv_nxt [of "?ds @ [x]"] prv_nxt [of "as @ bs"] prv_nxt [of ?ds] d assms ring by (auto simp: Int_commute)
  then have ring': "prv (as @ x # bs) = prv (?ds @ [x])" "prv (as @ bs) = prv ?ds"
    by (intro ext, metis not_None_eq)+
  have "nxt ?ds x = None" "prv ?ds x = None"
    using nxt_SomeD [of ?ds] d(4) prv_nxt [OF d(3), of x] by (metis not_None_eq)+
  moreover have "hd ?ds \<in> set ?ds" "last ?ds \<in> set ?ds" by (rule hd_in_set [OF d(2)], rule last_in_set [OF d(2)])
  ultimately show ?thesis
    unfolding ring ring' nxt_append [OF d(1,2)] prv_append [OF d(1,2)]
    using nxt_last [OF d(3,2)] prv_hd [OF d(3,2)] d(4) by (intro exI [of _ "last ?ds"] exI [of _ "hd ?ds"]) (auto simp: fun_eq_iff)
qed

end
