(* ===== verification/Heap_Chains.thy ===== *)
theory Heap_Chains
  imports Heap_Records Linked_Rings
begin

text \<open>
  The chains of relationships. Every node has a ring of the relationships it takes part in, linked through the
  fields of the relationship records that belong to that node; a loop at a node
  has two such ends, which agree. \<open>graph_ok N R C\<close> says that the maps of nodes and relationships are linked like this,
  with \<open>C n\<close> the chain of node \<open>n\<close> from its first relationship on. This theory shows what the
  traversals of the heap file return on such a graph.
\<close>

section \<open>Well-linked graphs\<close>

definition touches :: "relationship_t \<Rightarrow> ulong \<Rightarrow> bool" where
  "touches r n \<longleftrightarrow> r_source_node r = n \<or> r_target_node r = n"

definition links_ok :: "ulong \<Rightarrow> ulong list \<Rightarrow> relationship_t \<Rightarrow> bool" where
  "links_ok n cs r \<longleftrightarrow>
     (r_source_node r = n \<longrightarrow> nxt cs (r_id r) = Some (r_next_rel_source r) \<and> prv cs (r_id r) = Some (r_prev_rel_source r)) \<and>
     (r_target_node r = n \<longrightarrow> nxt cs (r_id r) = Some (r_next_rel_target r) \<and> prv cs (r_id r) = Some (r_prev_rel_target r))"

definition first_of :: "ulong list \<Rightarrow> ulong" where
  "first_of cs = (if cs = [] then UNINITIALIZED_LONG else hd cs)"

definition chain_ok :: "(ulong \<rightharpoonup> node_t) \<Rightarrow> (ulong \<rightharpoonup> relationship_t) \<Rightarrow> ulong \<Rightarrow> ulong list \<Rightarrow> bool" where
  "chain_ok N R n cs \<longleftrightarrow> distinct cs \<and> set cs = {i. \<exists>r. R i = Some r \<and> touches r n} \<and>
     (\<forall>nd. N n = Some nd \<longrightarrow> n_first_relationship nd = first_of cs) \<and> (\<forall>i r. R i = Some r \<longrightarrow> links_ok n cs r)"

definition graph_ok :: "(ulong \<rightharpoonup> node_t) \<Rightarrow> (ulong \<rightharpoonup> relationship_t) \<Rightarrow> (ulong \<Rightarrow> ulong list) \<Rightarrow> bool" where
  "graph_ok N R C \<longleftrightarrow> (\<forall>n nd. N n = Some nd \<longrightarrow> n_id nd = n \<and> node_ok nd \<and> n < UNINITIALIZED_LONG \<and> chain_ok N R n (C n)) \<and>
     (\<forall>i r. R i = Some r \<longrightarrow> r_id r = i \<and> rel_valid r \<and> i < UNINITIALIZED_LONG \<and>
        N (r_source_node r) \<noteq> None \<and> N (r_target_node r) \<noteq> None)"

lemma graph_ok_node:
  assumes "graph_ok N R C" "N n = Some nd"
  shows "n_id nd = n" "node_ok nd" "n < UNINITIALIZED_LONG" "chain_ok N R n (C n)" "n_first_relationship nd = first_of (C n)"
  using assms by (auto simp: graph_ok_def chain_ok_def)

lemma graph_ok_rel:
  assumes "graph_ok N R C" "R i = Some r"
  shows "r_id r = i" "rel_valid r" "i < UNINITIALIZED_LONG" "N (r_source_node r) \<noteq> None" "N (r_target_node r) \<noteq> None"
  using assms unfolding graph_ok_def by blast+

lemma chain_okD:
  assumes "chain_ok N R n cs"
  shows "distinct cs" "i \<in> set cs \<longleftrightarrow> (\<exists>r. R i = Some r \<and> touches r n)" "N n = Some nd \<Longrightarrow> n_first_relationship nd = first_of cs"
    "R i = Some r \<Longrightarrow> links_ok n cs r"
  using assms unfolding chain_ok_def by blast+

lemma chain_next:
  assumes g: "graph_ok N R C" and ch: "chain_ok N R n cs" and r: "R i = Some r" "touches r n" and nx: "nxt cs i = Some j"
  shows "next_at r n = Some j"
  using chain_okD(4) [OF ch r(1)] r(2) nx graph_ok_rel(1) [OF g r(1)] by (auto simp: next_at_def links_ok_def touches_def)

section \<open>Traversals\<close>

definition hf_graph :: "heap_file \<Rightarrow> (ulong \<Rightarrow> ulong list) \<Rightarrow> bool" where
  "hf_graph hf C \<longleftrightarrow> hf_inv hf \<and> graph_ok (hf_nodes hf) (hf_rels hf) C"

lemma hf_graph_same: "hf_graph hf C \<Longrightarrow> hf_same hf hf' \<Longrightarrow> hf_graph hf' C"
  by (simp add: hf_graph_def hf_eff_def)

lemma in_chain:
  assumes g: "hf_graph hf C" and n: "hf_nodes hf n \<noteq> None" and i: "i \<in> set (C n)"
  obtains r where "hf_rels hf i = Some r" "touches r n" "r_id r = i" "i < UNINITIALIZED_LONG" "chain_ok (hf_nodes hf) (hf_rels hf) n (C n)"
    "graph_ok (hf_nodes hf) (hf_rels hf) C"
  using assms chain_okD(2) [of "hf_nodes hf" "hf_rels hf" n "C n" i] graph_ok_node(4) [of "hf_nodes hf" "hf_rels hf" C n]
    graph_ok_rel [of "hf_nodes hf" "hf_rels hf" C i] unfolding hf_graph_def by blast

text \<open>The relationship after \<open>i\<close> that points into the given direction: the first one on the way around the ring.\<close>

definition matching :: "heap_file \<Rightarrow> ulong \<Rightarrow> direction_t \<Rightarrow> ulong list \<Rightarrow> ulong list" where
  "matching hf n d is = filter (\<lambda>i. dir_matches (the (hf_rels hf i)) n d) is"

lemma next_relationship_loop_ok:
  assumes g: "hf_graph hf C" and n: "hf_nodes hf n \<noteq> None"
    and cs: "chain_ok (hf_nodes hf) (hf_rels hf) n (C n)" "nxt (C n) = nxt (x # as @ bs)" "distinct (x # as @ bs)" "set (C n) = set (x # as @ bs)"
    and bs: "bs \<noteq> []"
  shows "\<exists>hf'. next_relationship_loop hf n x d log (hd bs) = Some (first_of (matching hf n d bs), hf') \<and> hf_same hf hf'"
  using assms
proof (induction bs arbitrary: as hf)
  case (Cons b bs)
  have "b \<in> set (C n)" using Cons.prems(5,6) by simp
  then obtain r where r: "hf_rels hf b = Some r" "touches r n" "r_id r = b" "graph_ok (hf_nodes hf) (hf_rels hf) C"
    by (rule in_chain [OF Cons.prems(1,2)])
  obtain hf1 where rd: "read_relationship hf b log = Some (r, hf1)" "hf_same hf hf1"
    using read_relationship_ok [OF _ r(1)] Cons.prems(1) by (auto simp: hf_graph_def)
  have bx: "b \<noteq> x" using Cons.prems(5) by auto
  show ?case
  proof (cases "dir_matches r n d")
    case True
    then show ?thesis
      using rd r bx by (subst next_relationship_loop.simps) (simp add: matching_def first_of_def)
  next
    case False
    have "nxt (C n) b = Some (hd (bs @ x # as @ [b]))"
      using nxt_middle [of "x # as" b bs] Cons.prems(4,5) by simp
    then have nx: "next_at r n = Some (hd (bs @ [x]))"
      using chain_next [OF r(4) Cons.prems(3) r(1,2)] by (cases bs) simp_all
    have m: "matching hf n d (b # bs) = matching hf n d bs" using False r(1) by (simp add: matching_def)
    show ?thesis
    proof (cases "bs = []")
      case True
      then show ?thesis
        using rd r bx False nx m by (subst next_relationship_loop.simps) (simp add: matching_def first_of_def)
    next
      case ne: False
      have "hd bs \<noteq> x" using ne Cons.prems(5) by (cases bs) auto
      moreover have "\<exists>hf'. next_relationship_loop hf1 n x d log (hd bs) = Some (first_of (matching hf1 n d bs), hf') \<and> hf_same hf1 hf'"
        by (rule Cons.IH [of _ "as @ [b]"])
          (use Cons.prems ne hf_graph_same [OF Cons.prems(1) rd(2)] hf_effD [OF rd(2)] in auto)
      ultimately show ?thesis
        using rd(1) r bx False nx m ne hf_effD [OF rd(2)] hf_same_trans [OF rd(2)]
        by (subst next_relationship_loop.simps) (auto simp: hd_append matching_def)
    qed
  qed
qed simp

lemma next_relationship_id_ok:
  assumes g: "hf_graph hf C" and n: "hf_nodes hf n \<noteq> None" and c: "C n = us @ i # vs" and r: "hf_rels hf i = Some r"
  shows "\<exists>hf'. next_relationship_id hf n r d log = Some (first_of (matching hf n d (vs @ us)), hf') \<and> hf_same hf hf'"
proof -
  have "i \<in> set (C n)" using c by simp
  then obtain r' where r': "hf_rels hf i = Some r'" "touches r' n" "r_id r' = i" "chain_ok (hf_nodes hf) (hf_rels hf) n (C n)"
      "graph_ok (hf_nodes hf) (hf_rels hf) C" by (rule in_chain [OF g n])
  have rr: "touches r n" "r_id r = i" using r r' by simp_all
  have nu: "n \<noteq> UNINITIALIZED_LONG" using n graph_ok_node(3) [OF r'(5), of n] by auto
  have d: "distinct (us @ i # vs)" using chain_okD(1) [OF r'(4)] c by simp
  have "nxt (C n) i = Some (hd (vs @ us @ [i]))" using nxt_middle [OF d] c by simp
  then have nx: "next_at r n = Some (hd (vs @ us @ [i]))" by (rule chain_next [OF r'(5,4) r rr(1)])
  have ring: "nxt (C n) = nxt (i # [] @ vs @ us)" using nxt_rotate [of us "i # vs"] d c by simp
  show ?thesis
  proof (cases "vs @ us = []")
    case True
    obtain hf1 where rd: "read_relationship hf i log = Some (r, hf1)" "hf_same hf hf1"
      using read_relationship_ok [OF _ r] g by (auto simp: hf_graph_def)
    then show ?thesis
      using nx True rr(2) nu
      by (simp add: next_relationship_id_def) (subst next_relationship_loop.simps, simp add: matching_def first_of_def)
  next
    case False
    then have "hd (vs @ us @ [i]) = hd (vs @ us)" by (simp add: hd_append)
    then show ?thesis
      using next_relationship_loop_ok [OF g n r'(4) ring, of d log] d c False nx rr(2) nu
      by (auto simp: next_relationship_id_def)
  qed
qed

lemma matching_same: "hf_same hf hf' \<Longrightarrow> matching hf' = matching hf"
  by (simp add: matching_def hf_eff_def fun_eq_iff)

lemma matching_append: "matching hf n d (xs @ ys) = matching hf n d xs @ matching hf n d ys"
  by (simp add: matching_def)

lemma matching_split:
  assumes m: "matching hf n d cs = as @ y # bs" and dc: "distinct cs"
  obtains us vs where "cs = us @ y # vs" "as = matching hf n d us" "bs = matching hf n d vs"
proof -
  have "y \<in> set (matching hf n d cs)" by (simp add: m)
  then have y: "y \<in> set cs" "dir_matches (the (hf_rels hf y)) n d" by (auto simp: matching_def)
  from y(1) obtain us vs where c: "cs = us @ y # vs" by (auto dest: split_list)
  then have "as @ y # bs = matching hf n d us @ y # matching hf n d vs" using m y(2) by (simp add: matching_def)
  moreover have "y \<notin> set (matching hf n d us)" "y \<notin> set (matching hf n d vs)" using dc c by (auto simp: matching_def)
  ultimately have "as = matching hf n d us \<and> bs = matching hf n d vs" by (metis append_Cons_eq_iff)
  then show ?thesis using that [OF c] by simp
qed

lemma matching_distinct: "hf_graph hf C \<Longrightarrow> hf_nodes hf n \<noteq> None \<Longrightarrow> distinct (matching hf n d (C n))"
  unfolding matching_def hf_graph_def using graph_ok_node(4) chain_okD(1) by (blast intro: distinct_filter)

lemma expand_step:
  assumes g: "hf_graph hf C" and n: "hf_nodes hf n \<noteq> None" and m: "matching hf n d (C n) = as @ y # bs" and l: "al_inv l"
  obtains r l1 hf1 where "hf_rels hf y = Some r" "hf_same hf hf1" "al_inv l1" "al_list l1 = al_list l @ [r]"
    "\<And>start. expand_loop hf n d log start y l = (if first_of (bs @ as) = start then Some (l1, hf1)
       else expand_loop hf1 n d log start (first_of (bs @ as)) l1)"
proof -
  have dc: "distinct (C n)" using g n graph_ok_node(4) chain_okD(1) unfolding hf_graph_def by blast
  obtain us vs where c: "C n = us @ y # vs" "as = matching hf n d us" "bs = matching hf n d vs" by (rule matching_split [OF m dc])
  have "y \<in> set (C n)" using c(1) by simp
  then obtain r where r: "hf_rels hf y = Some r" "y < UNINITIALIZED_LONG" by (rule in_chain [OF g n])
  obtain hf1 where rd: "read_relationship hf y log = Some (r, hf1)" "hf_same hf hf1"
    using read_relationship_ok [OF _ r(1)] g by (auto simp: hf_graph_def)
  obtain l1 where ap: "al_append l r = Some l1" "al_inv l1" "al_list l1 = al_list l @ [r]" using alist.append_law [OF l] by blast
  note g1 = hf_graph_same [OF g rd(2)]
  obtain hf2 where nx: "next_relationship_id hf1 n r d log = Some (first_of (bs @ as), hf2)" "hf_same hf1 hf2"
    using next_relationship_id_ok [OF g1 _ c(1), of r d log] n r(1) hf_effD(2,3) [OF rd(2)] matching_same [OF rd(2)] c(2,3)
    by (auto simp: matching_append)
  have "expand_loop hf n d log start y l = (if first_of (bs @ as) = start then Some (l1, hf2)
       else expand_loop hf2 n d log start (first_of (bs @ as)) l1)" for start
    using rd(1) ap(1) nx(1) r(2) by (subst expand_loop.simps) simp
  then show ?thesis using that [OF r(1) hf_same_trans [OF rd(2) nx(2)] ap(2,3)] by simp
qed

lemma expand_loop_ok:
  assumes "hf_graph hf C" "hf_nodes hf n \<noteq> None" "matching hf n d (C n) = as @ y # bs" "al_inv l"
  shows "\<exists>l' hf'. expand_loop hf n d log (hd (as @ [y])) y l = Some (l', hf') \<and> hf_same hf hf' \<and> al_inv l' \<and>
    al_list l' = al_list l @ map (\<lambda>i. the (hf_rels hf i)) (y # bs)"
  using assms
proof (induction bs arbitrary: as y l hf)
  case IH: (Cons z bs as y l hf)
  obtain r l1 hf1 where s: "hf_rels hf y = Some r" "hf_same hf hf1" "al_inv l1" "al_list l1 = al_list l @ [r]"
    "expand_loop hf n d log (hd (as @ [y])) y l = (if first_of ((z # bs) @ as) = hd (as @ [y]) then Some (l1, hf1)
       else expand_loop hf1 n d log (hd (as @ [y])) (first_of ((z # bs) @ as)) l1)"
    by (rule expand_step [OF IH.prems(1-3,4), where log = log]) blast
  have "distinct (as @ y # z # bs)" by (metis IH.prems(1-3) matching_distinct)
  then have "z \<noteq> hd (as @ [y])" by (cases as) auto
  moreover have "hd (as @ [y]) = hd ((as @ [y]) @ [z])" by (cases as) simp_all
  moreover have "\<exists>l' hf'. expand_loop hf1 n d log (hd ((as @ [y]) @ [z])) z l1 = Some (l', hf') \<and> hf_same hf1 hf' \<and> al_inv l' \<and>
      al_list l' = al_list l1 @ map (\<lambda>i. the (hf_rels hf1 i)) (z # bs)"
    by (rule IH.IH) (use IH.prems hf_graph_same [OF IH.prems(1) s(2)] hf_effD [OF s(2)] matching_same [OF s(2)] s(3) in auto)
  ultimately show ?case
    using s hf_effD(3) [OF s(2)] hf_same_trans [OF s(2)] by (auto simp: first_of_def)
next
  case (Nil as y l hf)
  obtain r l1 hf1 where s: "hf_rels hf y = Some r" "hf_same hf hf1" "al_inv l1" "al_list l1 = al_list l @ [r]"
    "expand_loop hf n d log (hd (as @ [y])) y l = (if first_of ([] @ as) = hd (as @ [y]) then Some (l1, hf1)
       else expand_loop hf1 n d log (hd (as @ [y])) (first_of ([] @ as)) l1)"
    by (rule expand_step [OF Nil.prems(1-3,4), where log = log]) blast
  have "expand_loop hf n d log (hd (as @ [y])) y l = Some (l1, hf1)"
    using s(5) by (cases as) (simp_all add: first_of_def expand_loop.simps [of hf1])
  then show ?case using s by simp
qed

lemma expand_ok:
  assumes g: "hf_graph hf C" and n: "hf_nodes hf n = Some nd"
  shows "\<exists>l hf'. expand hf n d log = Some (l, hf') \<and> hf_same hf hf' \<and> al_inv l \<and>
    al_list l = map (\<lambda>i. the (hf_rels hf i)) (matching hf n d (C n))"
proof -
  have gr: "hf_inv hf" "graph_ok (hf_nodes hf) (hf_rels hf) C" using g by (simp_all add: hf_graph_def)
  have nn: "hf_nodes hf n \<noteq> None" using n by simp
  have fst_rel: "n_first_relationship nd = first_of (C n)" by (rule graph_ok_node(5) [OF gr(2) n])
  obtain hf1 where r1: "read_node hf n log = Some (nd, hf1)" "hf_same hf hf1" using read_node_ok [OF gr(1) n] by blast
  show ?thesis
  proof (cases "C n")
    case Nil
    then show ?thesis
      using r1 fst_rel by (simp add: expand_def first_of_def matching_def al_rel_create_def)
  next
    case (Cons i cs)
    have "i \<in> set (C n)" using Cons by simp
    then obtain r where r: "hf_rels hf i = Some r" "i < UNINITIALIZED_LONG" by (rule in_chain [OF g nn])
    have e1: "hf_inv hf1" "hf_rels hf1 = hf_rels hf" "hf_nodes hf1 = hf_nodes hf" using hf_effD [OF r1(2)] by simp_all
    obtain hf2 where r2: "read_relationship hf1 i log = Some (r, hf2)" "hf_same hf1 hf2"
      using read_relationship_ok [OF e1(1), of i r] r(1) e1(2) by auto
    note s2 = hf_same_trans [OF r1(2) r2(2)]
    have i0: "first_of (C n) = i" "i \<noteq> UNINITIALIZED_LONG" using Cons r(2) by (auto simp: first_of_def)
    have m: "matching hf n d (C n) = (if dir_matches r n d then [i] else []) @ matching hf n d cs"
      using r(1) Cons by (simp add: matching_def)
    have start: "\<exists>hf3. (if dir_matches r n d then Some (i, hf2) else next_relationship_id hf2 n r d log) =
        Some (first_of (matching hf n d (C n)), hf3) \<and> hf_same hf hf3"
    proof (cases "dir_matches r n d")
      case False
      then show ?thesis
        using next_relationship_id_ok [OF hf_graph_same [OF g s2], of n "[]" i cs r d log] n r(1) Cons hf_effD [OF s2] m
          matching_same [OF s2] hf_same_trans [OF s2] by auto
    qed (use m s2 in \<open>simp add: first_of_def\<close>)
    then obtain hf3 where r3: "(if dir_matches r n d then Some (i, hf2) else next_relationship_id hf2 n r d log) =
        Some (first_of (matching hf n d (C n)), hf3)" "hf_same hf hf3" by blast
    have e3: "hf_graph hf3 C" "hf_nodes hf3 n \<noteq> None" "hf_rels hf3 = hf_rels hf" "matching hf3 = matching hf"
      using hf_graph_same [OF g r3(2)] hf_effD [OF r3(2)] matching_same [OF r3(2)] n by auto
    have run: "expand hf n d log = expand_loop hf3 n d log (first_of (matching hf n d (C n))) (first_of (matching hf n d (C n))) al_rel_create"
      using r1(1) r2(1) r3(1) fst_rel i0 by (simp add: expand_def)
    show ?thesis
    proof (cases "matching hf n d (C n)")
      case Nil
      then show ?thesis using run r3(2) by (simp add: first_of_def expand_loop.simps [of hf3] al_rel_create_def)
    next
      case (Cons y ys)
      then show ?thesis
        using run expand_loop_ok [OF e3(1,2), of d "[]" y ys al_rel_create log] e3(3,4) hf_same_trans [OF r3(2)]
        by (auto simp: first_of_def al_rel_create_def)
    qed
  qed
qed

end
