(* ===== verification/Heap_Links.thy ===== *)
theory Heap_Links
  imports Heap_Chains
begin

text \<open>
  Creating and deleting relationships. \<^verbatim>\<open>create_relationship\<close> and \<^verbatim>\<open>delete_relationship\<close> work on
  copies of relationship records in memory, at most one for a record, and write every copy back once.
  \<open>agree R m S\<close> relates the records on disk \<open>R\<close>, the copies \<open>m\<close> and the records \<open>S\<close> as they will be when all
  copies are written back; with it the pointer manipulations become updates of the map \<open>S\<close>.
\<close>

section \<open>Records on disk and in memory\<close>

definition agree :: "(ulong \<rightharpoonup> relationship_t) \<Rightarrow> rel_mem \<Rightarrow> (ulong \<rightharpoonup> relationship_t) \<Rightarrow> bool" where
  "agree R m S \<longleftrightarrow> (\<forall>p q r s. m p = Some r \<and> m q = Some s \<and> r_id r = r_id s \<longrightarrow> p = q) \<and>
     (\<forall>p r. m p = Some r \<longrightarrow> S (r_id r) = Some r) \<and> (\<forall>i. (\<forall>p r. m p = Some r \<longrightarrow> r_id r \<noteq> i) \<longrightarrow> S i = R i)"

definition in_mem :: "rel_mem \<Rightarrow> ulong \<Rightarrow> bool" where
  "in_mem m i \<longleftrightarrow> (\<exists>p r. m p = Some r \<and> r_id r = i)"

definition at_id :: "(ulong \<rightharpoonup> relationship_t) \<Rightarrow> ulong \<Rightarrow> (relationship_t \<Rightarrow> relationship_t) \<Rightarrow> (ulong \<rightharpoonup> relationship_t)" where
  "at_id S i g = S(i := map_option g (S i))"

lemma at_id_apply: "at_id S i g j = map_option (if j = i then g else id) (S j)"
  by (simp add: at_id_def option.map_id)

lemma agree_empty: "agree R Map.empty S \<longleftrightarrow> S = R"
  by (auto simp: agree_def)

lemma agree_mem: "agree R m S \<Longrightarrow> m p = Some r \<Longrightarrow> S (r_id r) = Some r"
  by (simp add: agree_def)

lemma agree_disk: "agree R m S \<Longrightarrow> \<not> in_mem m i \<Longrightarrow> S i = R i"
  unfolding agree_def in_mem_def by blast

lemma agree_inj: "agree R m S \<Longrightarrow> m p = Some r \<Longrightarrow> m q = Some s \<Longrightarrow> r_id r = r_id s \<Longrightarrow> p = q"
  unfolding agree_def by blast

lemma agreeI:
  assumes "\<And>p q r s. m p = Some r \<Longrightarrow> m q = Some s \<Longrightarrow> r_id r = r_id s \<Longrightarrow> p = q"
    "\<And>p r. m p = Some r \<Longrightarrow> S (r_id r) = Some r" "\<And>i. \<not> in_mem m i \<Longrightarrow> S i = R i"
  shows "agree R m S"
  using assms unfolding agree_def in_mem_def by blast

lemma in_mem_upd: "in_mem (m(p \<mapsto> r)) i \<longleftrightarrow> r_id r = i \<or> in_mem (m(p := None)) i"
  by (auto simp: in_mem_def)

lemma in_mem_del: "m p = Some r \<Longrightarrow> in_mem m i \<longleftrightarrow> r_id r = i \<or> in_mem (m(p := None)) i"
  using in_mem_upd [of m p r i] by (simp add: fun_upd_idem)

lemma agree_load:
  assumes a: "agree R m S" and p: "m p = None" and i: "\<not> in_mem m (r_id r)" "R (r_id r) = Some r"
  shows "agree R (m(p \<mapsto> r)) S"
proof (rule agreeI)
  fix q q' s s' assume "(m(p \<mapsto> r)) q = Some s" "(m(p \<mapsto> r)) q' = Some s'" "r_id s = r_id s'"
  then show "q = q'" using agree_inj [OF a] i(1) by (auto simp: in_mem_def split: if_splits)
next
  fix q s assume "(m(p \<mapsto> r)) q = Some s"
  then show "S (r_id s) = Some s" using agree_mem [OF a] agree_disk [OF a i(1)] i(2) by (auto split: if_splits)
next
  fix i assume "\<not> in_mem (m(p \<mapsto> r)) i"
  then show "S i = R i" using agree_disk [OF a] p by (simp add: in_mem_upd fun_upd_idem)
qed

lemma agree_upd:
  assumes a: "agree R m S" and p: "m p = Some r" and g: "r_id (g r) = r_id r"
  shows "agree R (m(p \<mapsto> g r)) (at_id S (r_id r) g)"
proof -
  have inj: "q = p" if "m q = Some s" "r_id s = r_id r" for q s using agree_inj [OF a that(1) p] that(2) by simp
  have at: "at_id S (r_id r) g = S(r_id r \<mapsto> g r)" using agree_mem [OF a p] by (simp add: at_id_def)
  show ?thesis
    unfolding at
  proof (rule agreeI)
    fix q q' s s' assume "(m(p \<mapsto> g r)) q = Some s" "(m(p \<mapsto> g r)) q' = Some s'" "r_id s = r_id s'"
    then show "q = q'" using inj agree_inj [OF a] g by (auto split: if_splits)
  next
    fix q s assume "(m(p \<mapsto> g r)) q = Some s"
    then show "(S(r_id r \<mapsto> g r)) (r_id s) = Some s" using inj agree_mem [OF a] g by (auto split: if_splits)
  next
    fix i assume "\<not> in_mem (m(p \<mapsto> g r)) i"
    then show "(S(r_id r \<mapsto> g r)) i = R i" using agree_disk [OF a] in_mem_del [of m p r, OF p] g by (auto simp: in_mem_upd)
  qed
qed

lemma agree_store:
  assumes a: "agree R m S" and p: "m p = Some r"
  shows "agree (R(r_id r \<mapsto> r)) (m(p := None)) S"
proof (rule agreeI)
  fix q q' s s' assume "(m(p := None)) q = Some s" "(m(p := None)) q' = Some s'" "r_id s = r_id s'"
  then show "q = q'" using agree_inj [OF a] by (auto split: if_splits)
next
  fix q s assume "(m(p := None)) q = Some s"
  then show "S (r_id s) = Some s" using agree_mem [OF a] by (auto split: if_splits)
next
  fix i assume i: "\<not> in_mem (m(p := None)) i"
  show "S i = (R(r_id r \<mapsto> r)) i"
    using i agree_disk [OF a] agree_mem [OF a p] in_mem_del [of m p r i, OF p] by auto
qed

section \<open>The steps of the operations\<close>

text \<open>\<open>S\<close> is what the file will be, \<open>m\<close> the copies in memory.\<close>

definition linking :: "(ulong \<rightharpoonup> node_t) \<Rightarrow> (ulong \<rightharpoonup> relationship_t) \<Rightarrow> rel_mem \<Rightarrow> heap_file \<Rightarrow> heap_file \<Rightarrow> bool" where
  "linking N S m hf0 hf \<longleftrightarrow> hf_inv hf \<and> hf_nodes hf = N \<and> hf_frame hf = hf_frame hf0 \<and> agree (hf_rels hf) m S \<and>
     dom (hf_rels hf) = dom S \<and> (\<forall>i r. S i = Some r \<longrightarrow> rel_valid r \<and> r_id r = i)"

definition mem_at :: "rel_mem \<Rightarrow> addr \<Rightarrow> ulong \<Rightarrow> bool" where
  "mem_at m p i \<longleftrightarrow> (\<exists>r. m p = Some r \<and> r_id r = i)"

lemma linkingD:
  assumes "linking N S m hf0 hf"
  shows "hf_inv hf" "hf_nodes hf = N" "hf_frame hf = hf_frame hf0" "agree (hf_rels hf) m S" "dom (hf_rels hf) = dom S"
    "S i = Some r \<Longrightarrow> rel_valid r" "S i = Some r \<Longrightarrow> r_id r = i"
  using assms by (auto simp: linking_def)

lemma load_rel_ok:
  assumes l: "linking N S m hf0 hf" and p: "m p = None" and i: "\<not> in_mem m i" "S i = Some r"
  shows "\<exists>hf'. load_rel hf m p i log = Some (p, m(p \<mapsto> r), hf') \<and> linking N S (m(p \<mapsto> r)) hf0 hf'"
proof -
  have r: "hf_rels hf i = Some r" using agree_disk [OF linkingD(4) [OF l] i(1)] i(2) by simp
  obtain hf' where rd: "read_relationship hf i log = Some (r, hf')" "hf_same hf hf'"
    using read_relationship_ok [OF linkingD(1) [OF l] r] by blast
  have "agree (hf_rels hf) (m(p \<mapsto> r)) S"
    by (rule agree_load [OF linkingD(4) [OF l] p]) (use i r linkingD(7) [OF l i(2)] in simp_all)
  then have "linking N S (m(p \<mapsto> r)) hf0 hf'" using l hf_effD [OF rd(2)] by (simp add: linking_def)
  then show ?thesis using rd(1) by (simp add: load_rel_def)
qed

lemma upd_rel_ok:
  assumes l: "linking N S m hf0 hf" and p: "mem_at m p i" and g: "\<And>r. r_id (g r) = r_id r" "\<And>r. rel_valid r \<Longrightarrow> rel_valid (g r)"
  obtains m' where "upd_rel m p g = Some m'" "linking N (at_id S i g) m' hf0 hf" "dom m' = dom m" "mem_at m' = mem_at m"
proof -
  obtain r where r: "m p = Some r" "r_id r = i" using p by (auto simp: mem_at_def)
  have S: "S i = Some r" using agree_mem [OF linkingD(4) [OF l] r(1)] r(2) by simp
  have "linking N (at_id S i g) (m(p \<mapsto> g r)) hf0 hf"
    using l agree_upd [of "hf_rels hf" m S p r g, OF linkingD(4) [OF l] r(1) g(1)] S g r(2)
    by (auto simp: linking_def at_id_def split: if_splits)
  moreover have "mem_at (m(p \<mapsto> g r)) = mem_at m" using r g(1) by (auto simp: mem_at_def fun_eq_iff)
  ultimately show ?thesis using that [of "m(p \<mapsto> g r)"] r(1) by (auto simp: upd_rel_def)
qed

lemma write_free_ok:
  assumes l: "linking N S m hf0 hf" and p: "m p \<noteq> None"
  shows "\<exists>hf'. write_free hf m p log = Some (m(p := None), hf') \<and> linking N S (m(p := None)) hf0 hf'"
proof -
  obtain r where r: "m p = Some r" using p by blast
  have S: "S (r_id r) = Some r" by (rule agree_mem [OF linkingD(4) [OF l] r])
  then have d: "hf_rels hf (r_id r) \<noteq> None" using linkingD(5) [OF l] by blast
  obtain hf' where u: "update_relationship_internal hf r False log = Some hf'" "hf_eff (hf_nodes hf) ((hf_rels hf)(r_id r \<mapsto> r)) hf hf'"
    using update_relationship_internal_ok [OF linkingD(1) [OF l] d linkingD(6) [OF l S]] by blast
  have "linking N S (m(p := None)) hf0 hf'"
    using l hf_effD [OF u(2)] agree_store [OF linkingD(4) [OF l] r] d by (auto simp: linking_def insert_absorb)
  then show ?thesis using u(1) r by (simp add: write_free_def)
qed

lemma write_back_ok:
  assumes l: "linking N S m hf0 hf" and p: "{a, b, c, d} \<subseteq> dom m"
  shows "\<exists>hf'. write_back hf m a b c d log = Some (m |` (- ({a, b, c, d} - {0})), hf') \<and> linking N S (m |` (- ({a, b, c, d} - {0}))) hf0 hf'"
proof -
  have stage: "\<exists>hf'. (if P then write_free hf m p log else Some (m, hf)) = Some (if P then m(p := None) else m, hf') \<and>
      linking N S (if P then m(p := None) else m) hf0 hf'" if "linking N S m hf0 hf" "m p \<noteq> None" for P m p hf
    using write_free_ok [OF that(1), of p log] that by auto
  define m1 where "m1 = (if a \<noteq> 0 \<and> a \<noteq> b \<and> a \<noteq> c \<and> a \<noteq> d then m(a := None) else m)"
  define m2 where "m2 = (if b \<noteq> 0 \<and> b \<noteq> c \<and> b \<noteq> d then m1(b := None) else m1)"
  define m3 where "m3 = (if c \<noteq> 0 \<and> c \<noteq> d then m2(c := None) else m2)"
  define m4 where "m4 = (if d \<noteq> 0 then m3(d := None) else m3)"
  have pt: "m1 x = (if x = a \<and> a \<noteq> 0 \<and> a \<noteq> b \<and> a \<noteq> c \<and> a \<noteq> d then None else m x)"
    "m2 x = (if x = b \<and> b \<noteq> 0 \<and> b \<noteq> c \<and> b \<noteq> d then None else m1 x)"
    "m3 x = (if x = c \<and> c \<noteq> 0 \<and> c \<noteq> d then None else m2 x)" "m4 x = (if x = d \<and> d \<noteq> 0 then None else m3 x)" for x
    by (simp add: m1_def, simp add: m2_def, simp add: m3_def, simp add: m4_def)
  have pd: "m a \<noteq> None" "m b \<noteq> None" "m c \<noteq> None" "m d \<noteq> None" using p by blast+
  obtain h1 where 1: "(if a \<noteq> 0 \<and> a \<noteq> b \<and> a \<noteq> c \<and> a \<noteq> d then write_free hf m a log else Some (m, hf)) = Some (m1, h1)" "linking N S m1 hf0 h1"
    using stage [OF l pd(1), of "a \<noteq> 0 \<and> a \<noteq> b \<and> a \<noteq> c \<and> a \<noteq> d"] unfolding m1_def [symmetric] by (elim exE conjE) (rule that)
  have in2: "m1 b \<noteq> None" using pd by (simp add: pt)
  obtain h2 where 2: "(if b \<noteq> 0 \<and> b \<noteq> c \<and> b \<noteq> d then write_free h1 m1 b log else Some (m1, h1)) = Some (m2, h2)" "linking N S m2 hf0 h2"
    using stage [OF 1(2) in2, of "b \<noteq> 0 \<and> b \<noteq> c \<and> b \<noteq> d"] unfolding m2_def [symmetric] by (elim exE conjE) (rule that)
  have in3: "m2 c \<noteq> None" using pd by (simp add: pt)
  obtain h3 where 3: "(if c \<noteq> 0 \<and> c \<noteq> d then write_free h2 m2 c log else Some (m2, h2)) = Some (m3, h3)" "linking N S m3 hf0 h3"
    using stage [OF 2(2) in3, of "c \<noteq> 0 \<and> c \<noteq> d"] unfolding m3_def [symmetric] by (elim exE conjE) (rule that)
  have in4: "m3 d \<noteq> None" using pd by (simp add: pt)
  obtain h4 where 4: "(if d \<noteq> 0 then write_free h3 m3 d log else Some (m3, h3)) = Some (m4, h4)" "linking N S m4 hf0 h4"
    using stage [OF 3(2) in4, of "d \<noteq> 0"] unfolding m4_def [symmetric] by (elim exE conjE) (rule that)
  have "m4 x = (if x \<noteq> 0 \<and> (x = a \<or> x = b \<or> x = c \<or> x = d) then None else m x)" for x
    unfolding pt(1) [of x] pt(2) [of x] pt(3) [of x] pt(4) [of x] by (cases "x = d"; cases "x = c"; cases "x = b"; cases "a = 0"; cases "x = 0") simp_all
  then have "m4 = m |` (- ({a, b, c, d} - {0}))" by (simp add: fun_eq_iff restrict_map_def)
  then show ?thesis using 4(2) unfolding write_back_def 1(1) 2(1) 3(1) 4(1) Option.bind.simps case_prod_conv by blast
qed

section \<open>The ends of a chain\<close>

text \<open>First and last relationship of a chain, where a new relationship \<open>i\<close> stands for both if there is none.\<close>

definition fid :: "ulong \<Rightarrow> ulong list \<Rightarrow> ulong" where
  "fid i cs = (if cs = [] then i else hd cs)"

definition lid :: "ulong \<Rightarrow> ulong list \<Rightarrow> ulong" where
  "lid i cs = (if cs = [] then i else last cs)"

lemma chain_first:
  assumes g: "graph_ok N R C" and n: "N n = Some nd" and ne: "C n \<noteq> []"
  obtains r l where "R (hd (C n)) = Some r" "R (last (C n)) = Some l" "n_first_relationship nd = hd (C n)" "hd (C n) \<noteq> UNINITIALIZED_LONG"
    "(if n = r_source_node r then r_prev_rel_source r else r_prev_rel_target r) = last (C n)"
proof -
  note ch = graph_ok_node(4) [OF g n]
  have "hd (C n) \<in> set (C n)" "last (C n) \<in> set (C n)" using ne by simp_all
  then obtain r l where r: "R (hd (C n)) = Some r" "touches r n" "R (last (C n)) = Some l" using chain_okD(2) [OF ch] by blast
  have "prv (C n) (hd (C n)) = Some (last (C n))" by (rule prv_hd [OF chain_okD(1) [OF ch] ne])
  then have "(if n = r_source_node r then r_prev_rel_source r else r_prev_rel_target r) = last (C n)"
    using chain_okD(4) [OF ch r(1)] r(2) graph_ok_rel(1) [OF g r(1)] by (auto simp: links_ok_def touches_def)
  then show ?thesis
    using that [OF r(1,3)] graph_ok_node(5) [OF g n] ne graph_ok_rel(3) [OF g r(1)] by (auto simp: first_of_def)
qed

lemma mem_at_in_mem: "mem_at m p i \<Longrightarrow> in_mem m i"
  by (auto simp: mem_at_def in_mem_def)

lemma in_mem_at: "in_mem m i \<longleftrightarrow> (\<exists>p. mem_at m p i)"
  by (auto simp: mem_at_def in_mem_def)

lemma mem_at_load: "mem_at (m(p \<mapsto> r)) q j \<longleftrightarrow> (if q = p then r_id r = j else mem_at m q j)"
  by (auto simp: mem_at_def)

lemma mem_at_keep: "m p = None \<Longrightarrow> mem_at m q j \<Longrightarrow> mem_at (m(p \<mapsto> r)) q j"
  by (auto simp: mem_at_def)

lemma mem_at_get:
  assumes "agree R m S" "mem_at m p x" "S x = Some r"
  shows "m p = Some r"
proof -
  obtain r' where r': "m p = Some r'" "r_id r' = x" using assms(2) by (auto simp: mem_at_def)
  then show ?thesis using agree_mem [OF assms(1) r'(1)] assms(3) by simp
qed

lemma mem_at_dom: "mem_at m p i \<Longrightarrow> p \<in> dom m"
  by (auto simp: mem_at_def)

lemma mem_at_unique: "mem_at m p i \<Longrightarrow> mem_at m p j \<Longrightarrow> i = j"
  by (auto simp: mem_at_def)

lemma chain_ends_from_ok:
  assumes l: "linking N S m hf0 hf" and m: "dom m = {0}" "mem_at m 0 i" and i: "R i = None" "\<And>j. j \<noteq> i \<Longrightarrow> S j = R j"
    and g: "graph_ok N R C" and n: "N a = Some nd"
  obtains ff lf m' hf' where "chain_ends_from hf m nd log = Some (ff, lf, m', hf')" "linking N S m' hf0 hf'"
    "mem_at m' ff (fid i (C a))" "mem_at m' lf (lid i (C a))" "mem_at m' 0 i" "dom m' = {0, ff, lf}" "{ff, lf} \<subseteq> {0, 1, 2}"
proof (cases "C a = []")
  case True
  then have "chain_ends_from hf m nd log = Some (0, 0, m, hf)"
    using graph_ok_node(5) [OF g n] by (simp add: chain_ends_from_def first_of_def)
  then show ?thesis using that [of 0 0 m hf] l m True by (simp add: fid_def lid_def)
next
  case False
  obtain r lr where c: "R (hd (C a)) = Some r" "R (last (C a)) = Some lr" "n_first_relationship nd = hd (C a)" "hd (C a) \<noteq> UNINITIALIZED_LONG"
    "(if a = r_source_node r then r_prev_rel_source r else r_prev_rel_target r) = last (C a)"
    by (rule chain_first [OF g n False])
  have ne: "hd (C a) \<noteq> i" "last (C a) \<noteq> i" using c(1,2) i(1) by auto
  have ids: "r_id r = hd (C a)" "r_id lr = last (C a)" "n_id nd = a" using graph_ok_rel(1) [OF g] c(1,2) graph_ok_node(1) [OF g n] by auto
  have mem: "m 1 = None" "m 2 = None" using m(1) domIff [of 1 m] domIff [of 2 m] by simp_all
  have only: "\<not> in_mem m j" if "j \<noteq> i" for j
    using that m mem_at_unique [OF m(2)] unfolding in_mem_at by (metis mem_at_dom singletonD)
  obtain hf1 where l1: "load_rel hf m 1 (hd (C a)) log = Some (1, m(1 \<mapsto> r), hf1)" "linking N S (m(1 \<mapsto> r)) hf0 hf1"
    using load_rel_ok [OF l mem(1) only [OF ne(1)]] i(2) [OF ne(1)] c(1) by auto
  show ?thesis
  proof (cases "last (C a) = hd (C a)")
    case True
    have "chain_ends_from hf m nd log = Some (1, 1, m(1 \<mapsto> r), hf1)"
      using l1(1) c ids True by (auto simp: chain_ends_from_def)
    then show ?thesis
      using that [of 1 1 "m(1 \<mapsto> r)" hf1] l1(2) m False True ids by (auto simp: mem_at_load fid_def lid_def)
  next
    case other: False
    have "\<not> in_mem (m(1 \<mapsto> r)) (last (C a))" using only [OF ne(2)] other ids(1) mem(1) by (auto simp: in_mem_at mem_at_load split: if_splits)
    then obtain hf2 where l2: "load_rel hf1 (m(1 \<mapsto> r)) 2 (last (C a)) log = Some (2, (m(1 \<mapsto> r))(2 \<mapsto> lr), hf2)"
      "linking N S ((m(1 \<mapsto> r))(2 \<mapsto> lr)) hf0 hf2"
      using load_rel_ok [OF l1(2), of 2 "last (C a)" lr log] i(2) [OF ne(2)] c(2) mem(2) by auto
    have "chain_ends_from hf m nd log = Some (1, 2, (m(1 \<mapsto> r))(2 \<mapsto> lr), hf2)"
      using l1(1) l2(1) c ids other by (auto simp: chain_ends_from_def)
    then show ?thesis
      using that [of 1 2 "(m(1 \<mapsto> r))(2 \<mapsto> lr)" hf2] l2(2) m False ids by (auto simp: mem_at_load fid_def lid_def)
  qed
qed

text \<open>A copy at hand is shared, otherwise the record is loaded.\<close>

lemma share_or_load:
  assumes l: "linking N S m hf0 hf" and ps: "dom m \<subseteq> set (map fst ps)" "\<And>q j. (q, j) \<in> set ps \<Longrightarrow> mem_at m q j" and p: "m p = None"
    and r: "S x = Some r"
  shows "(\<forall>(q, j) \<in> set ps. x \<noteq> j) \<Longrightarrow> \<exists>hf'. load_rel hf m p x log = Some (p, m(p \<mapsto> r), hf') \<and> linking N S (m(p \<mapsto> r)) hf0 hf'"
proof -
  assume ne: "\<forall>(q, j) \<in> set ps. x \<noteq> j"
  have "\<not> in_mem m x"
  proof
    assume "in_mem m x"
    then obtain q where q: "mem_at m q x" by (auto simp: in_mem_at)
    then obtain j where "(q, j) \<in> set ps" using ps(1) mem_at_dom [OF q] by auto
    then show False using ps(2) mem_at_unique [OF q] ne by blast
  qed
  then show ?thesis using load_rel_ok [OF l p] r by blast
qed

lemma chain_ends_to_ok:
  assumes l: "linking N S m hf0 hf" and i: "R i = None" "\<And>j. j \<noteq> i \<Longrightarrow> S j = R j"
    and m: "mem_at m ff x" "mem_at m lf y" "mem_at m 0 i" "dom m = {0, ff, lf}" "{ff, lf} \<subseteq> {0, 1, 2}"
    and g: "graph_ok N R C" and n: "N b = Some nd"
  obtains ft lt m' hf' where "chain_ends_to hf m ff lf nd log = Some (ft, lt, m', hf')" "linking N S m' hf0 hf'"
    "mem_at m' ft (fid i (C b))" "mem_at m' lt (lid i (C b))" "\<forall>q j. mem_at m q j \<longrightarrow> mem_at m' q j" "dom m' = {0, ff, lf, ft, lt}"
proof (cases "C b = []")
  case True
  then have "chain_ends_to hf m ff lf nd log = Some (0, 0, m, hf)"
    using graph_ok_node(5) [OF g n] by (simp add: chain_ends_to_def first_of_def)
  then show ?thesis using that [of 0 0 m hf] l m True by (auto simp: fid_def lid_def)
next
  case False
  obtain r lr where c: "R (hd (C b)) = Some r" "R (last (C b)) = Some lr" "n_first_relationship nd = hd (C b)" "hd (C b) \<noteq> UNINITIALIZED_LONG"
    "(if b = r_source_node r then r_prev_rel_source r else r_prev_rel_target r) = last (C b)"
    by (rule chain_first [OF g n False])
  have ne: "hd (C b) \<noteq> i" "last (C b) \<noteq> i" using c(1,2) i(1) by auto
  have S: "S (hd (C b)) = Some r" "S (last (C b)) = Some lr" using i(2) ne c(1,2) by auto
  have ids: "r_id r = hd (C b)" "r_id lr = last (C b)" "n_id nd = b" using graph_ok_rel(1) [OF g] c(1,2) graph_ok_node(1) [OF g n] by auto
  have "ff \<le> 2" "lf \<le> 2" using m(5) by auto
  then have "3 \<notin> dom m" "4 \<notin> dom m" unfolding m(4) by auto
  then have mem: "m 3 = None" "m 4 = None" unfolding domIff by blast+
  obtain rf rl where rs: "m ff = Some rf" "r_id rf = x" "m lf = Some rl" "r_id rl = y" using m(1,2) by (auto simp: mem_at_def)
  let ?x = "hd (C b)" and ?y = "last (C b)"
  have "\<exists>ft m1 hf1. (if ?x = x then Some (ff, m, hf) else if ?x = y then Some (lf, m, hf) else load_rel hf m 3 ?x log) = Some (ft, m1, hf1) \<and>
      linking N S m1 hf0 hf1 \<and> mem_at m1 ft ?x \<and> (\<forall>q j. mem_at m q j \<longrightarrow> mem_at m1 q j) \<and> dom m1 = {0, ff, lf, ft} \<and> ft \<in> {ff, lf, 3} \<and> m1 4 = None"
  proof (cases "?x = x \<or> ?x = y")
    case True
    then show ?thesis using l m mem by auto
  next
    case False
    then obtain hf1 where "load_rel hf m 3 ?x log = Some (3, m(3 \<mapsto> r), hf1)" "linking N S (m(3 \<mapsto> r)) hf0 hf1"
      using share_or_load [OF l, of "[(0, i), (ff, x), (lf, y)]" 3 ?x r log] m mem(1) S(1) ne(1) by auto
    moreover have "mem_at (m(3 \<mapsto> r)) 3 ?x" by (simp add: mem_at_load ids(1))
    moreover have "dom (m(3 \<mapsto> r)) = {0, ff, lf, 3}" using m(4) by auto
    ultimately show ?thesis using False mem mem_at_keep [of m 3 _ _ r]
      by (intro exI [of _ 3] exI [of _ "m(3 \<mapsto> r)"] exI [of _ hf1]) simp
  qed
  then obtain ft m1 hf1 where 1: "(if ?x = x then Some (ff, m, hf) else if ?x = y then Some (lf, m, hf) else load_rel hf m 3 ?x log) = Some (ft, m1, hf1)"
      "linking N S m1 hf0 hf1" "mem_at m1 ft ?x" "\<forall>q j. mem_at m q j \<longrightarrow> mem_at m1 q j" "dom m1 = {0, ff, lf, ft}" "ft \<in> {ff, lf, 3}" "m1 4 = None"
    by (elim exE conjE) (rule that)
  have "m1 ft = Some r" by (rule mem_at_get [OF linkingD(4) [OF 1(2)] 1(3) S(1)])
  have "\<exists>lt m2 hf2. (if ?y = x then Some (ff, m1, hf1) else if ?y = y then Some (lf, m1, hf1) else if ?y = ?x then Some (ft, m1, hf1)
        else load_rel hf1 m1 4 ?y log) = Some (lt, m2, hf2) \<and>
      linking N S m2 hf0 hf2 \<and> mem_at m2 lt ?y \<and> (\<forall>q j. mem_at m1 q j \<longrightarrow> mem_at m2 q j) \<and> dom m2 = {0, ff, lf, ft, lt}"
  proof (cases "?y = x \<or> ?y = y \<or> ?y = ?x")
    case True
    then show ?thesis using 1(2-5) m(1,2) by auto
  next
    case False
    then obtain hf2 where "load_rel hf1 m1 4 ?y log = Some (4, m1(4 \<mapsto> lr), hf2)" "linking N S (m1(4 \<mapsto> lr)) hf0 hf2"
      using share_or_load [OF 1(2), of "[(0, i), (ff, x), (lf, y), (ft, ?x)]" 4 ?y lr log] m(1-3) 1(3-5,7) S(2) ne(2) by auto
    moreover have "mem_at (m1(4 \<mapsto> lr)) 4 ?y" by (simp add: mem_at_load ids(2))
    moreover have "dom (m1(4 \<mapsto> lr)) = {0, ff, lf, ft, 4}" using 1(5) by auto
    ultimately show ?thesis using False 1(7) mem_at_keep [of m1 4 _ _ lr]
      by (intro exI [of _ 4] exI [of _ "m1(4 \<mapsto> lr)"] exI [of _ hf2]) simp
  qed
  then obtain lt m2 hf2 where 2: "(if ?y = x then Some (ff, m1, hf1) else if ?y = y then Some (lf, m1, hf1) else if ?y = ?x then Some (ft, m1, hf1)
        else load_rel hf1 m1 4 ?y log) = Some (lt, m2, hf2)"
      "linking N S m2 hf0 hf2" "mem_at m2 lt ?y" "\<forall>q j. mem_at m1 q j \<longrightarrow> mem_at m2 q j" "dom m2 = {0, ff, lf, ft, lt}"
    by (elim exE conjE) (rule that)
  have "chain_ends_to hf m ff lf nd log = Some (ft, lt, m2, hf2)"
    unfolding chain_ends_to_def c(3) if_not_P [OF c(4)] rs(1,3) Option.bind.simps rs(2,4) 1(1) case_prod_conv
      \<open>m1 ft = Some r\<close> ids(3) c(5) Let_def 2(1) by simp
  then show ?thesis using that [OF _ 2(2)] 1(3,4) 2(3,4,5) False by (auto simp: fid_def lid_def)
qed

section \<open>Linking a new relationship\<close>

lemma set_next_fields [simp]:
  "r_id (set_next n v r) = r_id r" "r_source_node (set_next n v r) = r_source_node r" "r_target_node (set_next n v r) = r_target_node r"
  "r_prev_rel_source (set_next n v r) = r_prev_rel_source r" "r_prev_rel_target (set_next n v r) = r_prev_rel_target r"
  "r_next_rel_source (set_next n v r) = (if r_source_node r = n then v else r_next_rel_source r)"
  "r_next_rel_target (set_next n v r) = (if r_target_node r = n then v else r_next_rel_target r)"
  "r_weight (set_next n v r) = r_weight r" "r_label (set_next n v r) = r_label r"
  by (simp_all add: set_next_def Let_def)

lemma set_prev_fields [simp]:
  "r_id (set_prev n v r) = r_id r" "r_source_node (set_prev n v r) = r_source_node r" "r_target_node (set_prev n v r) = r_target_node r"
  "r_next_rel_source (set_prev n v r) = r_next_rel_source r" "r_next_rel_target (set_prev n v r) = r_next_rel_target r"
  "r_prev_rel_source (set_prev n v r) = (if r_source_node r = n then v else r_prev_rel_source r)"
  "r_prev_rel_target (set_prev n v r) = (if r_target_node r = n then v else r_prev_rel_target r)"
  "r_weight (set_prev n v r) = r_weight r" "r_label (set_prev n v r) = r_label r"
  by (simp_all add: set_prev_def Let_def)

lemma set_link_valid:
  "v < ULONG_RANGE \<Longrightarrow> rel_valid r \<Longrightarrow> rel_valid (set_next n v r)" "v < ULONG_RANGE \<Longrightarrow> rel_valid r \<Longrightarrow> rel_valid (set_prev n v r)"
  by (simp_all add: rel_valid_def rel_ok_def)

definition set_links :: "ulong \<Rightarrow> ulong \<Rightarrow> ulong \<Rightarrow> ulong \<Rightarrow> relationship_t \<Rightarrow> relationship_t" where
  "set_links ps ns pt nt r = r\<lparr>r_prev_rel_source := ps, r_next_rel_source := ns, r_prev_rel_target := pt, r_next_rel_target := nt\<rparr>"

lemma set_links_fields [simp]:
  "r_id (set_links ps ns pt nt r) = r_id r" "r_source_node (set_links ps ns pt nt r) = r_source_node r"
  "r_target_node (set_links ps ns pt nt r) = r_target_node r" "r_prev_rel_source (set_links ps ns pt nt r) = ps"
  "r_next_rel_source (set_links ps ns pt nt r) = ns" "r_prev_rel_target (set_links ps ns pt nt r) = pt"
  "r_next_rel_target (set_links ps ns pt nt r) = nt" "r_weight (set_links ps ns pt nt r) = r_weight r" "r_label (set_links ps ns pt nt r) = r_label r"
  by (simp_all add: set_links_def)

definition linked :: "(ulong \<rightharpoonup> relationship_t) \<Rightarrow> ulong \<Rightarrow> ulong \<Rightarrow> ulong \<Rightarrow> ulong \<Rightarrow> ulong \<Rightarrow> ulong \<Rightarrow> ulong \<Rightarrow> (ulong \<rightharpoonup> relationship_t)" where
  "linked S a b i fa la fb lb = at_id (at_id (at_id (at_id (at_id S i (set_links la fa lb fb))
     la (set_next a i)) lb (set_next b i)) fa (set_prev a i)) fb (set_prev b i)"

lemma linking_bound:
  assumes "linking N S m hf0 hf" "S i \<noteq> None"
  shows "i < UNINITIALIZED_LONG" "i < ULONG_RANGE"
proof -
  have "i \<in> dom (hf_rels hf)" using assms linkingD(5) [OF assms(1)] by auto
  then show "i < UNINITIALIZED_LONG"
    using hf_dom(2) [OF linkingD(1) [OF assms(1)]] rec_pages_bound [OF linkingD(1) [OF assms(1)], of False] by fastforce
  then show "i < ULONG_RANGE" by (simp add: UNINITIALIZED_LONG_def ULONG_RANGE_def)
qed

lemma mem_at_bound: "linking N S m hf0 hf \<Longrightarrow> mem_at m p i \<Longrightarrow> i < ULONG_RANGE"
  unfolding mem_at_def using agree_mem [OF linkingD(4)] linking_bound(2) by (metis option.distinct(1))

lemma link_rel_ok:
  assumes l: "linking N S m hf0 hf" and p: "mem_at m 0 i" "mem_at m ff fa" "mem_at m lf la" "mem_at m ft fb" "mem_at m lt lb"
  obtains m' where "link_rel m ff lf ft lt a b = Some m'" "linking N (linked S a b i fa la fb lb) m' hf0 hf" "dom m' = dom m"
    "mem_at m' 0 i"
proof -
  have bd: "i < ULONG_RANGE" "fa < ULONG_RANGE" "la < ULONG_RANGE" "fb < ULONG_RANGE" "lb < ULONG_RANGE"
    using mem_at_bound [OF l] p by blast+
  obtain rf rl tf tl where rs: "m ff = Some rf" "r_id rf = fa" "m lf = Some rl" "r_id rl = la" "m ft = Some tf" "r_id tf = fb" "m lt = Some tl" "r_id tl = lb"
    using p by (auto simp: mem_at_def)
  have v: "rel_valid (set_links la fa lb fb r)" if "rel_valid r" for r using that bd by (simp add: rel_valid_def rel_ok_def)
  obtain m1 where 1: "upd_rel m 0 (set_links la fa lb fb) = Some m1" "linking N (at_id S i (set_links la fa lb fb)) m1 hf0 hf"
    "dom m1 = dom m" "mem_at m1 = mem_at m" by (rule upd_rel_ok [OF l p(1) set_links_fields(1) v])
  have k1: "mem_at m1 lf la" "mem_at m1 lt lb" "mem_at m1 ff fa" "mem_at m1 ft fb" "mem_at m1 0 i" using p 1(4) by simp_all
  obtain r0 where r0: "m1 0 = Some r0" "r_id r0 = i" using k1(5) by (auto simp: mem_at_def)
  obtain m2 where 2: "upd_rel m1 lf (set_next a i) = Some m2" "linking N (at_id (at_id S i (set_links la fa lb fb)) la (set_next a i)) m2 hf0 hf"
    "dom m2 = dom m1" "mem_at m2 = mem_at m1" by (rule upd_rel_ok [OF 1(2) k1(1) set_next_fields(1) set_link_valid(1) [OF bd(1)]])
  have k2: "mem_at m2 lt lb" "mem_at m2 ff fa" "mem_at m2 ft fb" "mem_at m2 0 i" using k1 2(4) by simp_all
  obtain m3 where 3: "upd_rel m2 lt (set_next b i) = Some m3"
    "linking N (at_id (at_id (at_id S i (set_links la fa lb fb)) la (set_next a i)) lb (set_next b i)) m3 hf0 hf"
    "dom m3 = dom m2" "mem_at m3 = mem_at m2" by (rule upd_rel_ok [OF 2(2) k2(1) set_next_fields(1) set_link_valid(1) [OF bd(1)]])
  have k3: "mem_at m3 ff fa" "mem_at m3 ft fb" "mem_at m3 0 i" using k2 3(4) by simp_all
  obtain m4 where 4: "upd_rel m3 ff (set_prev a i) = Some m4"
    "linking N (at_id (at_id (at_id (at_id S i (set_links la fa lb fb)) la (set_next a i)) lb (set_next b i)) fa (set_prev a i)) m4 hf0 hf"
    "dom m4 = dom m3" "mem_at m4 = mem_at m3" by (rule upd_rel_ok [OF 3(2) k3(1) set_prev_fields(1) set_link_valid(2) [OF bd(1)]])
  have k4: "mem_at m4 ft fb" "mem_at m4 0 i" using k3 4(4) by simp_all
  obtain m5 where 5: "upd_rel m4 ft (set_prev b i) = Some m5" "linking N (linked S a b i fa la fb lb) m5 hf0 hf"
    "dom m5 = dom m4" "mem_at m5 = mem_at m4"
    unfolding linked_def by (rule upd_rel_ok [OF 4(2) k4(1) set_prev_fields(1) set_link_valid(2) [OF bd(1)]])
  have "link_rel m ff lf ft lt a b = Some m5"
    unfolding link_rel_def rs Option.bind.simps set_links_def [symmetric] 1(1) r0 2(1) 3(1) 4(1) by (rule 5(1))
  then show ?thesis using that 5(2,3,4) 4(3) 3(3) 2(3) 1(3) k4(2) by simp
qed

text \<open>On a well-linked graph the result is well linked again, with the new relationship at the end of both chains.\<close>

definition with_first :: "(ulong \<rightharpoonup> node_t) \<Rightarrow> (ulong \<Rightarrow> ulong list) \<Rightarrow> ulong \<Rightarrow> ulong \<Rightarrow> ulong \<Rightarrow> (ulong \<rightharpoonup> node_t)" where
  "with_first N C a b i n = map_option (\<lambda>nd. if (n = a \<or> n = b) \<and> C n = [] then nd\<lparr>n_first_relationship := i\<rparr> else nd) (N n)"

definition add_at_end :: "(ulong \<Rightarrow> ulong list) \<Rightarrow> ulong \<Rightarrow> ulong \<Rightarrow> ulong \<Rightarrow> ulong \<Rightarrow> ulong list" where
  "add_at_end C a b i n = (if n = a \<or> n = b then C n @ [i] else C n)"

definition new_links :: "(ulong \<rightharpoonup> relationship_t) \<Rightarrow> (ulong \<Rightarrow> ulong list) \<Rightarrow> relationship_t \<Rightarrow> (ulong \<rightharpoonup> relationship_t)" where
  "new_links R C rel = (let a = r_source_node rel; b = r_target_node rel; i = r_id rel in
     linked (R(i \<mapsto> rel)) a b i (fid i (C a)) (lid i (C a)) (fid i (C b)) (lid i (C b)))"

lemma nxt_single [simp]: "nxt [x] = [x \<mapsto> x]" "prv [x] = [x \<mapsto> x]"
  by (simp_all add: nxt_def prv_def)

lemma ring_add:
  assumes "distinct cs" "i \<notin> set cs"
  shows "nxt (cs @ [i]) j = (if j = i then Some (fid i cs) else if cs \<noteq> [] \<and> j = last cs then Some i else nxt cs j)"
    "prv (cs @ [i]) j = (if j = i then Some (lid i cs) else if cs \<noteq> [] \<and> j = hd cs then Some i else prv cs j)"
proof -
  have e: "nxt [] j = None" "prv [] j = None" by (simp_all add: nxt_def prv_def)
  show "nxt (cs @ [i]) j = (if j = i then Some (fid i cs) else if cs \<noteq> [] \<and> j = last cs then Some i else nxt cs j)"
    "prv (cs @ [i]) j = (if j = i then Some (lid i cs) else if cs \<noteq> [] \<and> j = hd cs then Some i else prv cs j)"
    using assms nxt_append [of cs i] prv_append [of cs i] e by (cases "cs = []"; simp add: fid_def lid_def)+
qed

lemma cond_links:
  "r_id ((if P then set_next n v else id) r) = r_id r" "r_id ((if P then set_prev n v else id) r) = r_id r"
  "r_source_node ((if P then set_next n v else id) r) = r_source_node r" "r_source_node ((if P then set_prev n v else id) r) = r_source_node r"
  "r_target_node ((if P then set_next n v else id) r) = r_target_node r" "r_target_node ((if P then set_prev n v else id) r) = r_target_node r"
  "r_weight ((if P then set_next n v else id) r) = r_weight r" "r_weight ((if P then set_prev n v else id) r) = r_weight r"
  "r_label ((if P then set_next n v else id) r) = r_label r" "r_label ((if P then set_prev n v else id) r) = r_label r"
  "r_next_rel_source ((if P then set_next n v else id) r) = (if P \<and> r_source_node r = n then v else r_next_rel_source r)"
  "r_next_rel_target ((if P then set_next n v else id) r) = (if P \<and> r_target_node r = n then v else r_next_rel_target r)"
  "r_prev_rel_source ((if P then set_next n v else id) r) = r_prev_rel_source r"
  "r_prev_rel_target ((if P then set_next n v else id) r) = r_prev_rel_target r"
  "r_next_rel_source ((if P then set_prev n v else id) r) = r_next_rel_source r"
  "r_next_rel_target ((if P then set_prev n v else id) r) = r_next_rel_target r"
  "r_prev_rel_source ((if P then set_prev n v else id) r) = (if P \<and> r_source_node r = n then v else r_prev_rel_source r)"
  "r_prev_rel_target ((if P then set_prev n v else id) r) = (if P \<and> r_target_node r = n then v else r_prev_rel_target r)"
  by simp_all

lemma new_links_at:
  assumes g: "graph_ok N R C" and i: "R (r_id rel) = None" and r: "R j = Some r"
    and ab: "a = r_source_node rel" "b = r_target_node rel" "N a \<noteq> None" "N b \<noteq> None"
  obtains r' where "new_links R C rel j = Some r'" "r_id r' = j" "r_source_node r' = r_source_node r" "r_target_node r' = r_target_node r"
    "r_weight r' = r_weight r" "r_label r' = r_label r"
    "\<And>n. n \<in> {a, b} \<Longrightarrow> r_source_node r = n \<Longrightarrow> r_next_rel_source r' = (if j = last (C n) then r_id rel else r_next_rel_source r) \<and>
       r_prev_rel_source r' = (if j = hd (C n) then r_id rel else r_prev_rel_source r)"
    "\<And>n. n \<in> {a, b} \<Longrightarrow> r_target_node r = n \<Longrightarrow> r_next_rel_target r' = (if j = last (C n) then r_id rel else r_next_rel_target r) \<and>
       r_prev_rel_target r' = (if j = hd (C n) then r_id rel else r_prev_rel_target r)"
    "r_source_node r \<notin> {a, b} \<Longrightarrow> r_next_rel_source r' = r_next_rel_source r \<and> r_prev_rel_source r' = r_prev_rel_source r"
    "r_target_node r \<notin> {a, b} \<Longrightarrow> r_next_rel_target r' = r_next_rel_target r \<and> r_prev_rel_target r' = r_prev_rel_target r"
proof -
  let ?i = "r_id rel"
  have ji: "j \<noteq> ?i" using i r by auto
  have e: "C n \<noteq> []" if "touches r n" "N n \<noteq> None" for n
    using that graph_ok_node(4) [OF g] chain_okD(2) [of N R n "C n" j] r by fastforce
  have f: "fid ?i (C n) = hd (C n)" "lid ?i (C n) = last (C n)" if "touches r n" "N n \<noteq> None" for n
    using e [OF that] by (simp_all add: fid_def lid_def)
  define r' where "r' = (if j = fid ?i (C b) then set_prev b ?i else id) ((if j = fid ?i (C a) then set_prev a ?i else id)
    ((if j = lid ?i (C b) then set_next b ?i else id) ((if j = lid ?i (C a) then set_next a ?i else id) r)))"
  note fields = r'_def cond_links
  have "new_links R C rel j = Some r'"
    unfolding r'_def new_links_def linked_def at_id_apply Let_def ab [symmetric]
    by (simp only: r ji fun_upd_apply if_False option.map id_apply)
  moreover have "r_id r' = j" using graph_ok_rel(1) [OF g r] by (simp only: fields)
  moreover have "r_source_node r' = r_source_node r" "r_target_node r' = r_target_node r" "r_weight r' = r_weight r" "r_label r' = r_label r"
    by (simp_all only: fields)
  moreover have "r_next_rel_source r' = (if j = last (C n) then ?i else r_next_rel_source r) \<and>
       r_prev_rel_source r' = (if j = hd (C n) then ?i else r_prev_rel_source r)" if "n \<in> {a, b}" "r_source_node r = n" for n
    unfolding fields using that f [of n] ab(3,4) by (cases "a = b"; cases "n = a") (simp_all add: touches_def)
  moreover have "r_next_rel_target r' = (if j = last (C n) then ?i else r_next_rel_target r) \<and>
       r_prev_rel_target r' = (if j = hd (C n) then ?i else r_prev_rel_target r)" if "n \<in> {a, b}" "r_target_node r = n" for n
    unfolding fields using that f [of n] ab(3,4) by (cases "a = b"; cases "n = a") (simp_all add: touches_def)
  moreover have "r_next_rel_source r' = r_next_rel_source r \<and> r_prev_rel_source r' = r_prev_rel_source r" if "r_source_node r \<notin> {a, b}"
    unfolding fields using that by simp
  moreover have "r_next_rel_target r' = r_next_rel_target r \<and> r_prev_rel_target r' = r_prev_rel_target r" if "r_target_node r \<notin> {a, b}"
    unfolding fields using that by simp
  ultimately show ?thesis by (rule that)
qed

lemma new_links_new:
  assumes ab: "a = r_source_node rel" "b = r_target_node rel" and new: "r_id rel \<notin> set (C a)" "r_id rel \<notin> set (C b)"
  obtains r' where "new_links R C rel (r_id rel) = Some r'" "r_id r' = r_id rel" "r_source_node r' = a" "r_target_node r' = b"
    "r_weight r' = r_weight rel" "r_label r' = r_label rel"
    "r_next_rel_source r' = fid (r_id rel) (C a)" "r_prev_rel_source r' = lid (r_id rel) (C a)"
    "r_next_rel_target r' = fid (r_id rel) (C b)" "r_prev_rel_target r' = lid (r_id rel) (C b)"
proof -
  let ?i = "r_id rel"
  have ne: "?i = lid ?i (C n) \<longleftrightarrow> C n = []" "?i = fid ?i (C n) \<longleftrightarrow> C n = []" if "n = a \<or> n = b" for n
    using new that hd_in_set [of "C n"] last_in_set [of "C n"] by (auto simp: fid_def lid_def)
  have v: "fid ?i [] = ?i" "lid ?i [] = ?i" by (simp_all add: fid_def lid_def)
  define r' where "r' = (if ?i = fid ?i (C b) then set_prev b ?i else id) ((if ?i = fid ?i (C a) then set_prev a ?i else id)
    ((if ?i = lid ?i (C b) then set_next b ?i else id) ((if ?i = lid ?i (C a) then set_next a ?i else id)
      (set_links (lid ?i (C a)) (fid ?i (C a)) (lid ?i (C b)) (fid ?i (C b)) rel))))"
  note fields = r'_def cond_links set_links_fields
  have "new_links R C rel ?i = Some r'"
    unfolding r'_def new_links_def linked_def at_id_apply Let_def ab [symmetric]
    by (simp only: fun_upd_apply if_True option.map id_apply simp_thms)
  moreover have "r_id r' = ?i" "r_source_node r' = a" "r_target_node r' = b" "r_weight r' = r_weight rel" "r_label r' = r_label rel"
    unfolding fields ab by simp_all
  moreover have "r_next_rel_source r' = fid ?i (C a)" unfolding fields ab [symmetric] by (cases "C a = []"; cases "C b = []") (auto simp: ne v)
  moreover have "r_prev_rel_source r' = lid ?i (C a)" unfolding fields ab [symmetric] by (cases "C a = []"; cases "C b = []") (auto simp: ne v)
  moreover have "r_next_rel_target r' = fid ?i (C b)" unfolding fields ab [symmetric] by (cases "C a = []"; cases "C b = []") (auto simp: ne v)
  moreover have "r_prev_rel_target r' = lid ?i (C b)" unfolding fields ab [symmetric] by (cases "C a = []"; cases "C b = []") (auto simp: ne v)
  ultimately show ?thesis by (rule that)
qed

lemma new_links_dom: "R j = None \<Longrightarrow> j \<noteq> r_id rel \<Longrightarrow> new_links R C rel j = None"
  by (simp add: new_links_def linked_def at_id_apply Let_def)

lemma not_in_chain:
  assumes "graph_ok N R C" "R i = None" "N n \<noteq> None"
  shows "i \<notin> set (C n)"
  using assms graph_ok_node(4) [OF assms(1)] chain_okD(2) by fastforce

lemma new_links_chain:
  assumes g: "graph_ok N R C" and i: "R (r_id rel) = None" "r_source_node rel = a" "r_target_node rel = b" "N a \<noteq> None" "N b \<noteq> None"
    and n: "N n = Some nd"
  shows "chain_ok (with_first N C a b (r_id rel)) (new_links R C rel) n (add_at_end C a b (r_id rel) n)"
proof -
  let ?i = "r_id rel" and ?S = "new_links R C rel" and ?cs = "add_at_end C a b (r_id rel) n"
  note ch = graph_ok_node(4) [OF g n]
  note new = not_in_chain [OF g i(1)]
  obtain ri where ri: "?S ?i = Some ri" "r_id ri = ?i" "r_source_node ri = a" "r_target_node ri = b"
    "r_next_rel_source ri = fid ?i (C a)" "r_prev_rel_source ri = lid ?i (C a)"
    "r_next_rel_target ri = fid ?i (C b)" "r_prev_rel_target ri = lid ?i (C b)"
    by (rule new_links_new [of a rel b C R]) (use i new in auto)
  note dom = new_links_dom [where R = R and C = C and rel = rel]
  have dc: "distinct ?cs" "distinct (C n)" "?i \<notin> set (C n)" using chain_okD(1) [OF ch] new [of n] n by (auto simp: add_at_end_def)
  have touch: "(\<exists>r. ?S j = Some r \<and> touches r n) \<longleftrightarrow> (\<exists>r. R j = Some r \<and> touches r n) \<or> j = ?i \<and> (n = a \<or> n = b)" for j
  proof (cases "j = ?i")
    case True
    then show ?thesis using ri(1-4) i(1) by (auto simp: touches_def)
  next
    case False
    show ?thesis
    proof (cases "R j")
      case None
      then show ?thesis using dom False by simp
    next
      case (Some r)
      show ?thesis by (rule new_links_at [OF g i(1) Some i(2,3) [symmetric] i(4,5)]) (use Some False in \<open>auto simp: touches_def\<close>)
    qed
  qed
  have set: "set ?cs = {j. \<exists>r. ?S j = Some r \<and> touches r n}"
    unfolding touch using chain_okD(2) [OF ch] by (auto simp: add_at_end_def)
  have links: "links_ok n ?cs r" if r: "?S j = Some r" for j r
  proof (cases "j = ?i")
    case True
    then show ?thesis
      using r ri ring_add [OF dc(2,3), of ?i] by (auto simp: links_ok_def add_at_end_def)
  next
    case False
    then obtain r0 where r0: "R j = Some r0" using r dom by fastforce
    note old = chain_okD(4) [OF ch r0] and jd = graph_ok_rel(1) [OF g r0]
    have C: "C n \<noteq> []" if "touches r0 n" using chain_okD(2) [OF ch, of j] r0 that by auto
    obtain r' where r': "?S j = Some r'" "r_id r' = j" "r_source_node r' = r_source_node r0" "r_target_node r' = r_target_node r0"
      "\<And>n. n \<in> {a, b} \<Longrightarrow> r_source_node r0 = n \<Longrightarrow> r_next_rel_source r' = (if j = last (C n) then ?i else r_next_rel_source r0) \<and>
         r_prev_rel_source r' = (if j = hd (C n) then ?i else r_prev_rel_source r0)"
      "\<And>n. n \<in> {a, b} \<Longrightarrow> r_target_node r0 = n \<Longrightarrow> r_next_rel_target r' = (if j = last (C n) then ?i else r_next_rel_target r0) \<and>
         r_prev_rel_target r' = (if j = hd (C n) then ?i else r_prev_rel_target r0)"
      "r_source_node r0 \<notin> {a, b} \<Longrightarrow> r_next_rel_source r' = r_next_rel_source r0 \<and> r_prev_rel_source r' = r_prev_rel_source r0"
      "r_target_node r0 \<notin> {a, b} \<Longrightarrow> r_next_rel_target r' = r_next_rel_target r0 \<and> r_prev_rel_target r' = r_prev_rel_target r0"
      by (rule new_links_at [OF g i(1) r0 i(2,3) [symmetric] i(4,5)]) blast
    show ?thesis
    proof (cases "n \<in> {a, b}")
      case True
      then have cs: "?cs = C n @ [?i]" by (auto simp: add_at_end_def)
      have ring: "nxt ?cs j = (if j = last (C n) then Some ?i else nxt (C n) j)" "prv ?cs j = (if j = hd (C n) then Some ?i else prv (C n) j)"
        if "touches r0 n" unfolding cs ring_add [OF dc(2,3)] using C [OF that] False by simp_all
      show ?thesis
        using r r'(1-4) r'(5,6) [OF True] ring old jd
        by (cases "j = last (C n)"; cases "j = hd (C n)") (auto simp: links_ok_def touches_def)
    next
      case F: False
      then have "?cs = C n" by (simp add: add_at_end_def)
      then show ?thesis using r r'(1-4,7,8) F old jd by (auto simp: links_ok_def)
    qed
  qed
  have "n_first_relationship nd' = first_of ?cs" if "with_first N C a b ?i n = Some nd'" for nd'
    using that n graph_ok_node(5) [OF g n] by (auto simp: with_first_def add_at_end_def first_of_def)
  then show ?thesis unfolding chain_ok_def using dc(1) set links by blast
qed

lemma new_links_graph:
  assumes g: "graph_ok N R C" and i: "R (r_id rel) = None" "r_source_node rel = a" "r_target_node rel = b" "N a \<noteq> None" "N b \<noteq> None"
    and ok: "\<And>j r. new_links R C rel j = Some r \<Longrightarrow> rel_valid r \<and> r_id r = j \<and> j < UNINITIALIZED_LONG" "r_id rel < UNINITIALIZED_LONG"
  shows "graph_ok (with_first N C a b (r_id rel)) (new_links R C rel) (add_at_end C a b (r_id rel))"
proof -
  let ?i = "r_id rel" and ?S = "new_links R C rel" and ?N = "with_first N C a b (r_id rel)"
  have rels: "r_id r = j \<and> rel_valid r \<and> j < UNINITIALIZED_LONG \<and> N (r_source_node r) \<noteq> None \<and> N (r_target_node r) \<noteq> None" if r: "?S j = Some r" for j r
  proof (cases "R j")
    case None
    then have "j = ?i" using r new_links_dom [of R j rel C] by auto
    moreover have "?S ?i = Some r \<Longrightarrow> r_source_node r = a \<and> r_target_node r = b"
      by (rule new_links_new [of a rel b C R]) (use i not_in_chain [OF g i(1)] in auto)
    ultimately show ?thesis using r i(4,5) ok(1) by blast
  next
    case (Some r0)
    have "r_source_node r = r_source_node r0 \<and> r_target_node r = r_target_node r0"
      by (rule new_links_at [OF g i(1) Some i(2,3) [symmetric] i(4,5)]) (use r in auto)
    then show ?thesis using graph_ok_rel(4,5) [OF g Some] ok(1) [OF r] by simp
  qed
  have nodes: "n_id nd = n \<and> node_ok nd \<and> n < UNINITIALIZED_LONG \<and> N n \<noteq> None" if n: "?N n = Some nd" for n nd
  proof -
    obtain nd0 where nd0: "N n = Some nd0" "nd = (if (n = a \<or> n = b) \<and> C n = [] then nd0\<lparr>n_first_relationship := ?i\<rparr> else nd0)"
      using n by (auto simp: with_first_def)
    have "?i < ULONG_RANGE" using ok(2) by (simp add: UNINITIALIZED_LONG_def ULONG_RANGE_def)
    then show ?thesis using nd0 graph_ok_node(1-3) [OF g nd0(1)] by (simp add: node_ok_def)
  qed
  have N: "?N n \<noteq> None \<longleftrightarrow> N n \<noteq> None" for n by (simp add: with_first_def)
  show ?thesis
    unfolding graph_ok_def N
  proof (intro conjI allI impI)
    fix n nd assume n: "?N n = Some nd"
    then show "n_id nd = n" "node_ok nd" "n < UNINITIALIZED_LONG" using nodes by blast+
    show "chain_ok ?N ?S n (add_at_end C a b ?i n)" using nodes [OF n] new_links_chain [OF g i] by blast
  qed (use rels in blast)+
qed

section \<open>Creating a relationship\<close>

lemma linking_same: "linking N S m hf0 hf \<Longrightarrow> hf_same hf hf' \<Longrightarrow> linking N S m hf0 hf'"
  by (simp add: linking_def hf_eff_def)

lemma linking_node:
  assumes l: "linking N S m hf0 hf" and nd: "N (n_id nd) \<noteq> None" "node_ok nd"
  obtains hf' where "update_node hf nd log = Some hf'" "linking (N(n_id nd \<mapsto> nd)) S m hf0 hf'"
proof -
  obtain hf' where u: "update_node hf nd log = Some hf'" "hf_eff ((hf_nodes hf)(n_id nd \<mapsto> nd)) (hf_rels hf) hf hf'"
    using update_node_ok [OF linkingD(1) [OF l], of nd log] nd linkingD(2) [OF l] by auto
  have "linking (N(n_id nd \<mapsto> nd)) S m hf0 hf'" using l hf_effD [OF u(2)] by (simp add: linking_def)
  then show ?thesis using that u(1) by blast
qed

lemma linking_start:
  assumes m: "hf_marked False (r_id rel) hf hf1" and g: "graph_ok (hf_nodes hf) (hf_rels hf) C" and r: "rel_valid rel"
  shows "linking (hf_nodes hf) ((hf_rels hf)(r_id rel \<mapsto> rel)) [0 \<mapsto> rel] hf1 hf1"
proof -
  obtain j where h: "hf_inv hf1" "hf_rels hf1 = (hf_rels hf)(r_id rel \<mapsto> j)" "hf_nodes hf1 = hf_nodes hf"
    using m by (auto simp: hf_marked_def)
  have "agree (hf_rels hf1) [0 \<mapsto> rel] ((hf_rels hf)(r_id rel \<mapsto> rel))"
    unfolding h by (rule agreeI) (auto simp: in_mem_def split: if_splits)
  then show ?thesis
    using h r graph_ok_rel(1,2) [OF g] by (auto simp: linking_def split: if_splits)
qed

text \<open>The nodes that had no relationship get their first one.\<close>

definition first_updates :: "heap_file \<Rightarrow> node_t \<Rightarrow> node_t \<Rightarrow> ulong \<Rightarrow> bool \<Rightarrow> heap_file option" where
  "first_updates hf from_node to_node rel_id log = do {
     hf \<leftarrow> (if n_first_relationship from_node = UNINITIALIZED_LONG
       then update_node hf (from_node\<lparr>n_first_relationship := rel_id\<rparr>) log else Some hf);
     (if n_first_relationship to_node = UNINITIALIZED_LONG
       then update_node hf (to_node\<lparr>n_first_relationship := rel_id\<rparr>) log else Some hf) }"

lemma first_updates_ok:
  assumes l: "linking N S m hf0 hf" and g: "graph_ok N R C" and n: "N a = Some na" "N b = Some nb" and i: "i < ULONG_RANGE"
  obtains hf' where "first_updates hf na nb i log = Some hf'" "linking (with_first N C a b i) S m hf0 hf'"
proof -
  have first: "n_first_relationship nd = UNINITIALIZED_LONG \<longleftrightarrow> C n = []" "n_id nd = n" "node_ok (nd\<lparr>n_first_relationship := i\<rparr>)"
    if nn: "N n = Some nd" for n nd
  proof -
    show "n_id nd = n" "node_ok (nd\<lparr>n_first_relationship := i\<rparr>)" using graph_ok_node(1,2) [OF g nn] i by (simp_all add: node_ok_def)
    show "n_first_relationship nd = UNINITIALIZED_LONG \<longleftrightarrow> C n = []"
    proof (cases "C n = []")
      case True
      then show ?thesis using graph_ok_node(5) [OF g nn] by (simp add: first_of_def)
    next
      case False
      have "n_first_relationship nd \<noteq> UNINITIALIZED_LONG" by (rule chain_first [OF g nn False]) simp
      then show ?thesis using False by simp
    qed
  qed
  define N1 where "N1 = (if C a = [] then N(a \<mapsto> na\<lparr>n_first_relationship := i\<rparr>) else N)"
  define N2 where "N2 = (if C b = [] then N1(b \<mapsto> nb\<lparr>n_first_relationship := i\<rparr>) else N1)"
  obtain hf1 where 1: "(if C a = [] then update_node hf (na\<lparr>n_first_relationship := i\<rparr>) log else Some hf) = Some hf1" "linking N1 S m hf0 hf1"
  proof (cases "C a = []")
    case True
    show ?thesis
      by (rule linking_node [OF l, of "na\<lparr>n_first_relationship := i\<rparr>" log])
        (use that True first [OF n(1)] n in \<open>auto simp: N1_def N2_def\<close>)
  next
    case False
    then show ?thesis using that [of hf] l by (simp add: N1_def)
  qed
  obtain hf2 where 2: "(if C b = [] then update_node hf1 (nb\<lparr>n_first_relationship := i\<rparr>) log else Some hf1) = Some hf2" "linking N2 S m hf0 hf2"
  proof (cases "C b = []")
    case True
    show ?thesis
      by (rule linking_node [OF 1(2), of "nb\<lparr>n_first_relationship := i\<rparr>" log])
        (use that True first [OF n(2)] n in \<open>auto simp: N1_def N2_def\<close>)
  next
    case False
    then show ?thesis using that [of hf1] 1(2) by (simp add: N2_def)
  qed
  have "N2 x = with_first N C a b i x" for x
    using n by (auto simp: N1_def N2_def with_first_def option.map_id [unfolded id_def])
  then have "N2 = with_first N C a b i" by blast
  moreover have "first_updates hf na nb i log = Some hf2"
    unfolding first_updates_def first(1) [OF n(1)] first(1) [OF n(2)] 1(1) Option.bind.simps by (rule 2(1))
  ultimately show ?thesis using that 2(2) by blast
qed

lemma linking_done:
  assumes l: "linking N S m hf0 hf" and m: "dom m = {p}"
  obtains r hf' where "m p = Some r" "S (r_id r) = Some r" "update_relationship_internal hf r False log = Some hf'"
    "hf_inv hf'" "hf_nodes hf' = N" "hf_rels hf' = S" "hf_frame hf' = hf_frame hf0"
proof -
  obtain r where r: "m p = Some r" using m by blast
  have e: "m(p := None) = Map.empty" using m by (auto simp: fun_eq_iff domIff)
  obtain hf' where w: "write_free hf m p log = Some (m(p := None), hf')" "linking N S (m(p := None)) hf0 hf'"
    using write_free_ok [OF l, of p log] r by auto
  then have u: "update_relationship_internal hf r False log = Some hf'" using r by (auto simp: write_free_def bind_eq_Some_conv)
  have "hf_rels hf' = S" using linkingD(4) [OF w(2)] unfolding e agree_empty by simp
  then show ?thesis
    using that [OF r agree_mem [OF linkingD(4) [OF l] r] u] linkingD(1-3) [OF w(2)] by simp
qed

definition link_new :: "heap_file \<Rightarrow> relationship_t \<Rightarrow> node_t \<Rightarrow> node_t \<Rightarrow> ulong \<Rightarrow> ulong \<Rightarrow> ulong \<Rightarrow> bool \<Rightarrow> (relationship_t \<times> heap_file) option" where
  "link_new hf rel from_node to_node a b i log = do {
       (first_rel_from, last_rel_from, m, hf) \<leftarrow> chain_ends_from hf [0 \<mapsto> rel] from_node log;
       (first_rel_to, last_rel_to, m, hf) \<leftarrow> chain_ends_to hf m first_rel_from last_rel_from to_node log;
       m \<leftarrow> link_rel m first_rel_from last_rel_from first_rel_to last_rel_to a b;
       hf \<leftarrow> first_updates hf from_node to_node i log;
       (m, hf) \<leftarrow> write_back hf m first_rel_from last_rel_from first_rel_to last_rel_to log;
       rel \<leftarrow> m 0;
       hf \<leftarrow> update_relationship_internal hf rel False log;
       Some (rel, hf) }"

lemma link_new_ok:
  assumes l: "linking N ((hf_rels hf)(i \<mapsto> rel)) [0 \<mapsto> rel] hf1 hf3" and R: "R = hf_rels hf"
    and g: "graph_ok N R C" and i: "R i = None" "r_id rel = i" "r_source_node rel = a" "r_target_node rel = b" and n: "N a = Some na" "N b = Some nb"
  obtains r hf' where "link_new hf3 rel na nb a b i log = Some (r, hf')"
    "hf_inv hf'" "hf_nodes hf' = with_first N C a b i" "hf_rels hf' = new_links R C rel" "hf_frame hf' = hf_frame hf1"
    "graph_ok (hf_nodes hf') (hf_rels hf') (add_at_end C a b i)"
proof -
  let ?S = "(hf_rels hf)(i \<mapsto> rel)"
  have S: "\<And>j. j \<noteq> i \<Longrightarrow> ?S j = R j" by (simp add: R)
  have m0: "dom [0 \<mapsto> rel] = {0 :: nat}" "mem_at [0 \<mapsto> rel] 0 i" using i(2) by (simp_all add: mem_at_def)
  obtain ff lf m1 h1 where 1: "chain_ends_from hf3 [0 \<mapsto> rel] na log = Some (ff, lf, m1, h1)" "linking N ?S m1 hf1 h1"
    "mem_at m1 ff (fid i (C a))" "mem_at m1 lf (lid i (C a))" "mem_at m1 0 i" "dom m1 = {0, ff, lf}" "{ff, lf} \<subseteq> {0, 1, 2}"
    by (rule chain_ends_from_ok [OF l m0 i(1) S g n(1)])
  obtain ft lt m2 h2 where 2: "chain_ends_to h1 m1 ff lf nb log = Some (ft, lt, m2, h2)" "linking N ?S m2 hf1 h2"
    "mem_at m2 ft (fid i (C b))" "mem_at m2 lt (lid i (C b))" "\<forall>q j. mem_at m1 q j \<longrightarrow> mem_at m2 q j" "dom m2 = {0, ff, lf, ft, lt}"
    by (rule chain_ends_to_ok [OF 1(2) i(1) S 1(3-7) g n(2)])
  obtain m3 where 3: "link_rel m2 ff lf ft lt a b = Some m3"
    "linking N (linked ?S a b i (fid i (C a)) (lid i (C a)) (fid i (C b)) (lid i (C b))) m3 hf1 h2" "dom m3 = dom m2" "mem_at m3 0 i"
    by (rule link_rel_ok [OF 2(2) 2(5) [rule_format, OF 1(5)] 2(5) [rule_format, OF 1(3)] 2(5) [rule_format, OF 1(4)] 2(3,4)])
  have new: "linked ?S a b i (fid i (C a)) (lid i (C a)) (fid i (C b)) (lid i (C b)) = new_links R C rel"
    using i(2-4) by (simp add: new_links_def R)
  have ib: "i < ULONG_RANGE" "i < UNINITIALIZED_LONG" using linking_bound [OF l, of i] by simp_all
  obtain h4 where 4: "first_updates h2 na nb i log = Some h4" "linking (with_first N C a b i) (new_links R C rel) m3 hf1 h4"
    by (rule first_updates_ok [OF 3(2) [unfolded new] g n ib(1)])
  define m4 where "m4 = m3 |` (- ({ff, lf, ft, lt} - {0}))"
  obtain h5 where 5: "write_back h4 m3 ff lf ft lt log = Some (m4, h5)" "linking (with_first N C a b i) (new_links R C rel) m4 hf1 h5"
    using write_back_ok [OF 4(2), of ff lf ft lt log] 3(3) 2(6) unfolding m4_def by auto
  have m4: "dom m4 = {0}" using 3(3) 2(6) by (auto simp: m4_def)
  obtain r hf' where 6: "m4 0 = Some r" "new_links R C rel (r_id r) = Some r" "update_relationship_internal h5 r False log = Some hf'"
    "hf_inv hf'" "hf_nodes hf' = with_first N C a b i" "hf_rels hf' = new_links R C rel" "hf_frame hf' = hf_frame hf1"
    by (rule linking_done [OF 5(2) m4])
  have "graph_ok (with_first N C a b (r_id rel)) (new_links R C rel) (add_at_end C a b (r_id rel))"
  proof (rule new_links_graph [OF g])
    show "new_links R C rel j = Some r \<Longrightarrow> rel_valid r \<and> r_id r = j \<and> j < UNINITIALIZED_LONG" for j r
      using linkingD(6,7) [OF 5(2)] linking_bound(1) [OF 5(2)] by blast
  qed (use i n ib in auto)
  then have gr: "graph_ok (hf_nodes hf') (hf_rels hf') (add_at_end C a b i)" using 6(5,6) i(2) by simp
  show ?thesis
  proof (rule that)
    show "link_new hf3 rel na nb a b i log = Some (r, hf')"
      by (simp only: link_new_def 1(1) 2(1) 3(1) 4(1) 5(1) 6(1,3) Option.bind.simps case_prod_conv)
  qed (use 6 gr in simp_all)
qed

text \<open>The graph without its links: labels of the nodes, and ends, weights and labels of the relationships.\<close>

type_synonym edge = "ulong \<times> ulong \<times> double_bits \<times> ulong"

definition edge_of :: "relationship_t \<Rightarrow> edge" where
  "edge_of r = (r_source_node r, r_target_node r, r_weight r, r_label r)"

definition hf_labels :: "heap_file \<Rightarrow> ulong \<rightharpoonup> ulong" where
  "hf_labels hf = map_option n_label \<circ> hf_nodes hf"

definition hf_edges :: "heap_file \<Rightarrow> ulong \<rightharpoonup> edge" where
  "hf_edges hf = map_option edge_of \<circ> hf_rels hf"

lemma edge_at_id:
  assumes "\<And>r. edge_of (g r) = edge_of r"
  shows "map_option edge_of (at_id S i g j) = map_option edge_of (S j)"
  using assms by (cases "S j") (simp_all add: at_id_apply)

lemma new_links_edges: "map_option edge_of \<circ> new_links R C rel = (map_option edge_of \<circ> R)(r_id rel \<mapsto> edge_of rel)"
  by (rule ext) (simp add: new_links_def linked_def Let_def edge_at_id edge_of_def)

lemma with_first_labels: "map_option n_label \<circ> with_first N C a b i = map_option n_label \<circ> N"
  by (rule ext) (auto simp: with_first_def option.map_comp comp_def intro!: option.map_cong)

lemma create_relationship_eq:
  "create_relationship hf a b weight label log =
    (if a = UNINITIALIZED_LONG \<or> b = UNINITIALIZED_LONG \<or> double_eq weight UNINITIALIZED_WEIGHT then None
     else do {
       hf \<leftarrow> next_free_slots hf False log;
       let rel_id = hf_last_alloc_rel_id hf;
       let rel = new_relationship\<lparr>r_id := rel_id, r_source_node := a, r_target_node := b, r_weight := weight, r_label := label\<rparr>;
       (from_node, hf) \<leftarrow> read_node hf a log;
       (to_node, hf) \<leftarrow> read_node hf b log;
       (rel, hf) \<leftarrow> link_new hf rel from_node to_node a b rel_id log;
       let hf = hf_log hf log ''create_rel'' (r_id rel) (r_label rel);
       Some (rel_id, hf\<lparr>hf_n_rels := hf_n_rels hf + 1\<rparr>) })"
  unfolding create_relationship_def first_updates_def link_new_def Let_def
  by (simp add: case_prod_unfold bind_assoc Option.bind_assoc)

lemma create_relationship_ok:
  assumes g: "hf_graph hf C" and room: "hf_room (Suc k) hf" and n: "hf_nodes hf a \<noteq> None" "hf_nodes hf b \<noteq> None"
    and w: "weight < ULONG_RANGE" "\<not> double_eq weight UNINITIALIZED_WEIGHT" "label < ULONG_RANGE"
  shows "\<exists>i hf'. create_relationship hf a b weight label log = Some (i, hf') \<and> hf_graph hf' (add_at_end C a b i) \<and> hf_room k hf' \<and>
    hf_rels hf i = None \<and> i < UNINITIALIZED_LONG \<and> hf_edges hf' = (hf_edges hf)(i \<mapsto> (a, b, weight, label)) \<and> hf_labels hf' = hf_labels hf \<and>
    hf_n_nodes hf' = hf_n_nodes hf \<and> hf_n_rels hf' = hf_n_rels hf + 1 \<and> hf_fixed hf' = hf_fixed hf"
proof (rule next_free_slots_ok [OF _ room, where node = False and log = log])
  show "hf_inv hf" using g by (simp add: hf_graph_def)
  fix i hf1
  assume s: "next_free_slots hf False log = Some hf1" "last_alloc hf1 False = i" "hf_marked False i hf hf1"
    "i < UNINITIALIZED_LONG" "\<not> rec_used (hf_cache hf) False i" "hf_room k hf1"
    "hf_n_nodes hf1 = hf_n_nodes hf" "hf_n_rels hf1 = hf_n_rels hf"
  let ?N = "hf_nodes hf" and ?R = "hf_rels hf"
  have gr: "graph_ok ?N ?R C" using g by (simp add: hf_graph_def)
  obtain na nb where nd: "?N a = Some na" "?N b = Some nb" using n by blast
  have ab: "a < UNINITIALIZED_LONG" "b < UNINITIALIZED_LONG" using graph_ok_node(3) [OF gr] nd by blast+
  then have abr: "a < ULONG_RANGE" "b < ULONG_RANGE" by (simp_all add: UNINITIALIZED_LONG_def ULONG_RANGE_def)
  have i0: "?R i = None" using s(5) by (simp add: hf_rels_def)
  define rel where "rel = new_relationship\<lparr>r_id := i, r_source_node := a, r_target_node := b, r_weight := weight, r_label := label\<rparr>"
  have rel: "r_id rel = i" "r_source_node rel = a" "r_target_node rel = b" "edge_of rel = (a, b, weight, label)" by (simp_all add: rel_def edge_of_def)
  have rv: "rel_valid rel"
    using ab abr w by (simp add: rel_def new_relationship_def rel_valid_def rel_ok_def UNINITIALIZED_LONG_def ULONG_RANGE_def)
  have l1: "linking ?N (?R(i \<mapsto> rel)) [0 \<mapsto> rel] hf1 hf1" using linking_start [OF s(3) [folded rel(1)] gr rv] rel(1) by simp
  obtain hf2 where r2: "read_node hf1 a log = Some (na, hf2)" "hf_same hf1 hf2"
    using read_node_ok [OF linkingD(1) [OF l1], of a na log] linkingD(2) [OF l1] nd by auto
  note l2 = linking_same [OF l1 r2(2)]
  obtain hf3 where r3: "read_node hf2 b log = Some (nb, hf3)" "hf_same hf2 hf3"
    using read_node_ok [OF linkingD(1) [OF l2], of b nb log] linkingD(2) [OF l2] nd by auto
  note l3 = linking_same [OF l2 r3(2)]
  obtain r hf4 where 4: "link_new hf3 rel na nb a b i log = Some (r, hf4)"
    "hf_inv hf4" "hf_nodes hf4 = with_first ?N C a b i" "hf_rels hf4 = new_links ?R C rel" "hf_frame hf4 = hf_frame hf1"
    "graph_ok (hf_nodes hf4) (hf_rels hf4) (add_at_end C a b i)"
    by (rule link_new_ok [OF l3 refl gr i0 rel(1-3) nd])
  define hf5 where "hf5 = hf_log hf4 log ''create_rel'' (r_id r) (r_label r)"
  have e5: "hf_same hf4 hf5" using 4(2) by (simp add: hf5_def)
  have "create_relationship hf a b weight label log = Some (i, hf5\<lparr>hf_n_rels := hf_n_rels hf5 + 1\<rparr>)"
    unfolding create_relationship_eq Let_def using s(1,2) ab w(2) r2(1) r3(1) 4(1)
    by (simp add: last_alloc_def rel_def [symmetric] hf5_def)
  moreover have "hf_edges hf5 = (hf_edges hf)(i \<mapsto> (a, b, weight, label))" "hf_labels hf5 = hf_labels hf"
    using hf_effD(2,3) [OF e5] 4(3,4) new_links_edges [of ?R C rel] with_first_labels [of ?N C a b i] rel
    by (simp_all add: hf_edges_def hf_labels_def)
  moreover have "hf_graph hf5 (add_at_end C a b i)" using hf_effD [OF e5] 4(6) by (simp add: hf_graph_def)
  moreover have f5: "hf_frame hf5 = hf_frame hf1" using hf_effD(4) [OF e5] 4(5) by simp
  moreover have "hf_room k hf5" "hf_n_nodes hf5 = hf_n_nodes hf" "hf_n_rels hf5 = hf_n_rels hf" "hf_fixed hf5 = hf_fixed hf"
    using hf_frame_room [OF f5] f5 hf_frame_fixed [OF f5] s(3,6-8) by (simp_all add: hf_frame_def hf_marked_def)
  ultimately show ?thesis
    using i0 s(4) by (intro exI [of _ i] exI [of _ "hf5\<lparr>hf_n_rels := hf_n_rels hf5 + 1\<rparr>"]) (simp add: hf_graph_def hf_edges_def hf_labels_def)
qed

end
