(* ===== verification/Heap_Graph.thy ===== *)
theory Heap_Graph
  imports Heap_Links
begin

text \<open>
  The heap file as a property graph. The abstract graph has the labels of the nodes by id and the relationships,
  with source, target, weight and label, in the order of their creation; slots, pages, headers, chains and links are gone.
  Every sequence of operations on a heap file gives the results the abstract graph allows, and ends the
  program exactly when the abstract graph has no such step.
\<close>

section \<open>The abstract graph\<close>

record pgraph =
  g_labels :: "ulong \<rightharpoonup> ulong"
  g_edges :: "(ulong \<times> edge) list"

definition empty_graph :: pgraph where
  "empty_graph = \<lparr>g_labels = Map.empty, g_edges = []\<rparr>"

datatype graph_op = Create_Node ulong | Create_Relationship ulong ulong double_bits ulong
  | Read_Node ulong | Read_Relationship ulong | Get_Nodes | Get_Relationships | Expand ulong direction_t

datatype graph_res = Id ulong | Label ulong | Edge edge | Labels "(ulong \<times> ulong) list" | Edges "(ulong \<times> edge) list"

fun edge_matches :: "ulong \<Rightarrow> direction_t \<Rightarrow> ulong \<times> edge \<Rightarrow> bool" where
  "edge_matches n d (i, a, b, w, l) \<longleftrightarrow> (a = n \<and> d \<noteq> INCOMING) \<or> (b = n \<and> d \<noteq> OUTGOING)"

definition in_id_order :: "(ulong \<rightharpoonup> 'a) \<Rightarrow> (ulong \<times> 'a) list" where
  "in_id_order M = map (\<lambda>i. (i, the (M i))) (sorted_list_of_set (dom M))"

inductive graph_step :: "pgraph \<Rightarrow> graph_op \<Rightarrow> graph_res \<Rightarrow> pgraph \<Rightarrow> bool" where
  create_node: "g_labels G i = None \<Longrightarrow> i < UNINITIALIZED_LONG \<Longrightarrow>
    graph_step G (Create_Node l) (Id i) (G\<lparr>g_labels := (g_labels G)(i \<mapsto> l)\<rparr>)"
| create_relationship: "g_labels G a \<noteq> None \<Longrightarrow> g_labels G b \<noteq> None \<Longrightarrow> \<not> double_eq w UNINITIALIZED_WEIGHT \<Longrightarrow>
    map_of (g_edges G) i = None \<Longrightarrow> i < UNINITIALIZED_LONG \<Longrightarrow>
    graph_step G (Create_Relationship a b w l) (Id i) (G\<lparr>g_edges := g_edges G @ [(i, a, b, w, l)]\<rparr>)"
| read_node: "g_labels G i = Some l \<Longrightarrow> graph_step G (Read_Node i) (Label l) G"
| read_relationship: "map_of (g_edges G) i = Some e \<Longrightarrow> graph_step G (Read_Relationship i) (Edge e) G"
| get_nodes: "graph_step G Get_Nodes (Labels (in_id_order (g_labels G))) G"
| get_relationships: "graph_step G Get_Relationships (Edges (in_id_order (map_of (g_edges G)))) G"
| expand: "g_labels G n \<noteq> None \<Longrightarrow> graph_step G (Expand n d) (Edges (filter (edge_matches n d) (g_edges G))) G"

inductive_simps graph_step_simps [simp]:
  "graph_step G (Create_Node l) r G'"
  "graph_step G (Create_Relationship a b w l) r G'"
  "graph_step G (Read_Node i) r G'"
  "graph_step G (Read_Relationship i) r G'"
  "graph_step G Get_Nodes r G'"
  "graph_step G Get_Relationships r G'"
  "graph_step G (Expand n d) r G'"

text \<open>Runs of the abstract graph: results up to the first operation that has no step, and the graph at the end if there is none.\<close>

inductive graph_run :: "pgraph \<Rightarrow> graph_op list \<Rightarrow> graph_res list \<Rightarrow> pgraph option \<Rightarrow> bool" where
  finish: "graph_run G [] [] (Some G)"
| stuck: "\<forall>r G'. \<not> graph_step G op r G' \<Longrightarrow> graph_run G (op # ops) [] None"
| step: "graph_step G op r G1 \<Longrightarrow> graph_run G1 ops rs s \<Longrightarrow> graph_run G (op # ops) (r # rs) s"

section \<open>Runs of the heap file\<close>

fun heap_step :: "bool \<Rightarrow> heap_file \<Rightarrow> graph_op \<Rightarrow> (graph_res \<times> heap_file) option" where
  "heap_step log hf (Create_Node l) = do { (i, hf) \<leftarrow> create_node hf l log; Some (Id i, hf) }"
| "heap_step log hf (Create_Relationship a b w l) = do { (i, hf) \<leftarrow> create_relationship hf a b w l log; Some (Id i, hf) }"
| "heap_step log hf (Read_Node i) = do { (n, hf) \<leftarrow> read_node hf i log; Some (Label (n_label n), hf) }"
| "heap_step log hf (Read_Relationship i) = do { (r, hf) \<leftarrow> read_relationship hf i log; Some (Edge (edge_of r), hf) }"
| "heap_step log hf Get_Nodes = do { (l, hf) \<leftarrow> get_nodes hf log; Some (Labels (map (\<lambda>n. (n_id n, n_label n)) (al_list l)), hf) }"
| "heap_step log hf Get_Relationships = do { (l, hf) \<leftarrow> get_relationships hf log; Some (Edges (map (\<lambda>r. (r_id r, edge_of r)) (al_list l)), hf) }"
| "heap_step log hf (Expand n d) = do { (l, hf) \<leftarrow> expand hf n d log; Some (Edges (map (\<lambda>r. (r_id r, edge_of r)) (al_list l)), hf) }"

fun heap_run :: "bool \<Rightarrow> heap_file \<Rightarrow> graph_op list \<Rightarrow> graph_res list \<times> heap_file option" where
  "heap_run log hf [] = ([], Some hf)"
| "heap_run log hf (op # ops) = (case heap_step log hf op of None \<Rightarrow> ([], None)
    | Some (r, hf) \<Rightarrow> (case heap_run log hf ops of (rs, s) \<Rightarrow> (r # rs, s)))"

text \<open>Labels and weights are 64 bit values.\<close>

fun op_ok :: "graph_op \<Rightarrow> bool" where
  "op_ok (Create_Node l) \<longleftrightarrow> l < ULONG_RANGE"
| "op_ok (Create_Relationship a b w l) \<longleftrightarrow> w < ULONG_RANGE \<and> l < ULONG_RANGE"
| "op_ok _ \<longleftrightarrow> True"

section \<open>The abstraction relation\<close>

fun edge_touches :: "ulong \<Rightarrow> ulong \<times> edge \<Rightarrow> bool" where
  "edge_touches n (i, a, b, w, l) \<longleftrightarrow> a = n \<or> b = n"

definition chain_at :: "(ulong \<times> edge) list \<Rightarrow> ulong \<Rightarrow> ulong list" where
  "chain_at es n = map fst (filter (edge_touches n) es)"

definition hf_abs :: "heap_file \<Rightarrow> pgraph \<Rightarrow> bool" where
  "hf_abs hf G \<longleftrightarrow> hf_graph hf (chain_at (g_edges G)) \<and> hf_labels hf = g_labels G \<and> hf_edges hf = map_of (g_edges G) \<and>
     distinct (map fst (g_edges G)) \<and> hf_counts hf"

lemma hf_abs_same: "hf_abs hf G \<Longrightarrow> hf_same hf hf' \<Longrightarrow> hf_abs hf' G"
  by (auto simp: hf_abs_def hf_labels_def hf_edges_def hf_counts_def hf_graph_same dest: hf_effD)
     (simp_all add: hf_eff_def hf_frame_def)

lemma hf_abs_node: "hf_abs hf G \<Longrightarrow> hf_nodes hf i = None \<longleftrightarrow> g_labels G i = None"
  by (auto simp: hf_abs_def hf_labels_def dest!: fun_cong [of _ _ i])

lemma hf_abs_rel: "hf_abs hf G \<Longrightarrow> map_option edge_of (hf_rels hf i) = map_of (g_edges G) i"
  by (auto simp: hf_abs_def hf_edges_def dest!: fun_cong [of _ _ i])

lemma hf_abs_inv: "hf_abs hf G \<Longrightarrow> hf_inv hf"
  by (simp add: hf_abs_def hf_graph_def)

section \<open>Single operations\<close>

lemma chain_at_add: "chain_at (es @ [(i, a, b, w, l)]) = add_at_end (chain_at es) a b i"
  by (auto simp: fun_eq_iff chain_at_def add_at_end_def)

lemma graph_ok_add_node:
  assumes g: "graph_ok N R C" and i: "N i = None" "C i = []" and nd: "n_id nd = i" "node_ok nd" "i < UNINITIALIZED_LONG"
    "n_first_relationship nd = UNINITIALIZED_LONG"
  shows "graph_ok (N(i \<mapsto> nd)) R C"
proof -
  have nt: "\<not> touches r i" if "R j = Some r" for j r
    using graph_ok_rel(4,5) [OF g that] i(1) by (auto simp: touches_def)
  have "chain_ok (N(i \<mapsto> nd)) R i []" using nt nd(4) by (auto simp: chain_ok_def first_of_def links_ok_def touches_def)
  moreover have "chain_ok (N(i \<mapsto> nd)) R n (C n)" if "N n = Some x" for n x
    using graph_ok_node(4) [OF g that] that i(1) by (auto simp: chain_ok_def)
  ultimately show ?thesis
    using i nd graph_ok_node(1-3) [OF g] graph_ok_rel [OF g] unfolding graph_ok_def by (auto split: if_splits)
qed

lemma hf_finite: "hf_inv hf \<Longrightarrow> finite (dom (hf_nodes hf))" "hf_inv hf \<Longrightarrow> finite (dom (hf_rels hf))"
  using hf_dom [of hf] by (auto dest: finite_subset)

lemma edge_ends:
  assumes h: "hf_abs hf G" and e: "(i, a, b, w, l) \<in> set (g_edges G)"
  shows "g_labels G a \<noteq> None" "g_labels G b \<noteq> None"
proof -
  have "map_of (g_edges G) i = Some (a, b, w, l)" using h e by (simp add: hf_abs_def)
  then obtain r where r: "hf_rels hf i = Some r" "r_source_node r = a" "r_target_node r = b"
    using hf_abs_rel [OF h, of i] by (auto simp: edge_of_def)
  then show "g_labels G a \<noteq> None" "g_labels G b \<noteq> None"
    using h graph_ok_rel(4,5) [of "hf_nodes hf" "hf_rels hf" _ i r] hf_abs_node [OF h] by (auto simp: hf_abs_def hf_graph_def)
qed

lemma chain_at_fresh: "hf_abs hf G \<Longrightarrow> g_labels G n = None \<Longrightarrow> chain_at (g_edges G) n = []"
  using edge_ends [of hf G] by (force simp: chain_at_def filter_empty_conv)

lemma create_node_step:
  assumes h: "hf_abs hf G" and room: "hf_room (Suc k) hf" and l: "l < ULONG_RANGE"
  shows "\<exists>i hf'. create_node hf l log = Some (i, hf') \<and> hf_room k hf' \<and> g_labels G i = None \<and> i < UNINITIALIZED_LONG \<and>
    hf_abs hf' (G\<lparr>g_labels := (g_labels G)(i \<mapsto> l)\<rparr>) \<and> hf_fixed hf' = hf_fixed hf"
proof -
  let ?nd = "\<lambda>i. \<lparr>n_id = i, n_first_relationship = UNINITIALIZED_LONG, n_label = l\<rparr>"
  obtain i hf' where c: "create_node hf l log = Some (i, hf')" "hf_inv hf'" "hf_room k hf'" "i < UNINITIALIZED_LONG"
    "hf_nodes hf i = None" "hf_nodes hf' = (hf_nodes hf)(i \<mapsto> ?nd i)" "hf_rels hf' = hf_rels hf"
    "hf_n_nodes hf' = hf_n_nodes hf + 1" "hf_n_rels hf' = hf_n_rels hf" "hf_fixed hf' = hf_fixed hf"
    using create_node_ok [OF hf_abs_inv [OF h] room l, of log] by (elim exE conjE)
  have i: "g_labels G i = None" using c(5) hf_abs_node [OF h] by simp
  have nd: "node_ok (?nd i)" using c(4) l by (simp add: node_ok_def UNINITIALIZED_LONG_def ULONG_RANGE_def)
  have "graph_ok (hf_nodes hf') (hf_rels hf') (chain_at (g_edges G))"
    unfolding c(6,7) using h c(4,5) nd chain_at_fresh [OF h i]
    by (intro graph_ok_add_node) (simp_all add: hf_abs_def hf_graph_def)
  moreover have "hf_counts hf'"
    using h hf_finite(1) [OF hf_abs_inv [OF h]] c(5-9) by (simp add: hf_abs_def hf_counts_def domIff)
  moreover have "hf_labels hf' = (g_labels G)(i \<mapsto> l)" "hf_edges hf' = map_of (g_edges G)"
    using h c(6,7) by (auto simp: hf_abs_def hf_labels_def hf_edges_def)
  ultimately have "hf_abs hf' (G\<lparr>g_labels := (g_labels G)(i \<mapsto> l)\<rparr>)"
    using h c(2) by (simp add: hf_abs_def hf_graph_def)
  then show ?thesis using c i by blast
qed

lemma create_relationship_step:
  assumes h: "hf_abs hf G" and room: "hf_room (Suc k) hf" and ab: "g_labels G a \<noteq> None" "g_labels G b \<noteq> None"
    and w: "w < ULONG_RANGE" "\<not> double_eq w UNINITIALIZED_WEIGHT" "l < ULONG_RANGE"
  shows "\<exists>i hf'. create_relationship hf a b w l log = Some (i, hf') \<and> hf_room k hf' \<and> map_of (g_edges G) i = None \<and> i < UNINITIALIZED_LONG \<and>
    hf_abs hf' (G\<lparr>g_edges := g_edges G @ [(i, a, b, w, l)]\<rparr>) \<and> hf_fixed hf' = hf_fixed hf"
proof -
  have g: "hf_graph hf (chain_at (g_edges G))" using h by (simp add: hf_abs_def)
  have n: "hf_nodes hf a \<noteq> None" "hf_nodes hf b \<noteq> None" using ab hf_abs_node [OF h] by simp_all
  obtain i hf' where c: "create_relationship hf a b w l log = Some (i, hf')" "hf_graph hf' (add_at_end (chain_at (g_edges G)) a b i)"
    "hf_room k hf'" "hf_rels hf i = None" "i < UNINITIALIZED_LONG" "hf_edges hf' = (hf_edges hf)(i \<mapsto> (a, b, w, l))"
    "hf_labels hf' = hf_labels hf" "hf_n_nodes hf' = hf_n_nodes hf" "hf_n_rels hf' = hf_n_rels hf + 1" "hf_fixed hf' = hf_fixed hf"
    using create_relationship_ok [OF g room n w, of log] by (elim exE conjE)
  have i: "map_of (g_edges G) i = None" using c(4) hf_abs_rel [OF h, of i] by simp
  have d: "dom (hf_rels hf') = insert i (dom (hf_rels hf))" "dom (hf_nodes hf') = dom (hf_nodes hf)"
    using arg_cong [OF c(6), of dom] arg_cong [OF c(7), of dom] by (simp_all add: hf_edges_def hf_labels_def dom_map_option_comp)
  have "hf_counts hf'"
    using h hf_finite(2) [OF hf_abs_inv [OF h]] c(4,8,9) d by (simp add: hf_abs_def hf_counts_def domIff)
  moreover have "hf_edges hf' = map_of (g_edges G @ [(i, a, b, w, l)])"
    using h c(6) i by (auto simp: hf_abs_def map_add_def fun_eq_iff split: option.splits)
  moreover have "distinct (map fst (g_edges G @ [(i, a, b, w, l)]))" using h i by (simp add: hf_abs_def map_of_eq_None_iff)
  ultimately have "hf_abs hf' (G\<lparr>g_edges := g_edges G @ [(i, a, b, w, l)]\<rparr>)"
    using h c(2,7) by (simp add: hf_abs_def chain_at_add)
  then show ?thesis using c i by blast
qed

lemma create_relationship_exit:
  assumes inv: "hf_inv hf" and room: "hf_room (Suc k) hf"
    and n: "hf_nodes hf a = None \<or> hf_nodes hf b = None \<or> double_eq w UNINITIALIZED_WEIGHT"
  shows "create_relationship hf a b w l log = None"
proof (rule next_free_slots_ok [OF inv room, where node = False and log = log])
  fix i hf1
  assume s: "next_free_slots hf False log = Some hf1" "hf_marked False i hf hf1"
  then have m: "hf_inv hf1" "hf_nodes hf1 = hf_nodes hf" by (simp_all add: hf_marked_def)
  show ?thesis
  proof (cases "hf_nodes hf a")
    case None
    then show ?thesis using s m read_exit(1) [of hf1 a log] by (simp add: create_relationship_def)
  next
    case (Some na)
    then obtain hf2 where r: "read_node hf1 a log = Some (na, hf2)" "hf_same hf1 hf2" using read_node_ok [OF m(1), of a na log] m by auto
    then have "hf_nodes hf b = None \<Longrightarrow> read_node hf2 b log = None" using hf_effD [OF r(2)] m read_exit(1) [of hf2 b log] by simp
    then show ?thesis using s r n Some by (auto simp: create_relationship_def)
  qed
qed

text \<open>The scans list the records by id; expand lists the relationships at a node in the order of their creation.\<close>

lemma scan_list_in_order:
  assumes "dom M \<subseteq> {..<e}" "\<And>i x. M i = Some x \<Longrightarrow> key x = i"
  shows "map (\<lambda>x. (key x, f x)) (scan_list M 0 e) = in_id_order (map_option f \<circ> M)"
proof -
  have s: "sorted_list_of_set (dom M) = filter (\<lambda>i. M i \<noteq> None) [0..<e]"
    using assms(1) by (intro sorted_distinct_set_unique) (auto simp: finite_subset sorted_wrt_filter)
  show ?thesis
    unfolding in_id_order_def dom_map_option_comp s scan_list_def List.map_filter_def
    using assms(2) by (auto simp: comp_def)
qed

lemma matching_edges:
  assumes h: "hf_abs hf G" and n: "g_labels G n \<noteq> None"
  shows "map (\<lambda>r. (r_id r, edge_of r)) (map (\<lambda>i. the (hf_rels hf i)) (matching hf n d (chain_at (g_edges G) n))) =
    filter (edge_matches n d) (g_edges G)"
proof -
  have r: "\<exists>r. hf_rels hf i = Some r \<and> r_id r = i \<and> edge_of r = e" if "(i, e) \<in> set (g_edges G)" for i e
  proof -
    have "map_of (g_edges G) i = Some e" using h that by (simp add: hf_abs_def)
    then obtain r where "hf_rels hf i = Some r" "edge_of r = e" using hf_abs_rel [OF h, of i] by auto
    moreover from this have "r_id r = i" using h graph_ok_rel(1) by (auto simp: hf_abs_def hf_graph_def)
    ultimately show ?thesis by blast
  qed
  have "map (\<lambda>r. (r_id r, edge_of r)) (map (\<lambda>i. the (hf_rels hf i)) (filter (\<lambda>i. dir_matches (the (hf_rels hf i)) n d)
      (map fst (filter (edge_touches n) es)))) = filter (edge_matches n d) es" if "set es \<subseteq> set (g_edges G)" for es
    using that
  proof (induction es)
    case (Cons x es)
    obtain i e where x: "x = (i, e)" by (cases x)
    then have "(i, e) \<in> set (g_edges G)" using Cons.prems by simp
    from r [OF this] obtain r where "hf_rels hf i = Some r" "r_id r = i" "edge_of r = e" by blast
    then show ?case using Cons x by (auto simp: edge_of_def dir_matches_def)
  qed simp
  then show ?thesis unfolding matching_def chain_at_def by simp
qed

section \<open>Refinement\<close>

lemma step_refines:
  assumes h: "hf_abs hf G" and room: "hf_room (Suc k) hf" and ok: "op_ok op"
  shows "(\<exists>r hf' G'. heap_step log hf op = Some (r, hf') \<and> graph_step G op r G' \<and> hf_abs hf' G' \<and> hf_room k hf' \<and>
      hf_fixed hf' = hf_fixed hf) \<or>
    heap_step log hf op = None \<and> (\<forall>r G'. \<not> graph_step G op r G')"
proof -
  have inv: "hf_inv hf" and g: "hf_graph hf (chain_at (g_edges G))" and gr: "graph_ok (hf_nodes hf) (hf_rels hf) (chain_at (g_edges G))"
    using h by (simp_all add: hf_abs_def hf_graph_def)
  have room_same: "hf_room k hf'" if "hf_same hf hf'" for hf'
    using hf_frame_room [OF hf_effD(4) [OF that]] hf_room_mono [OF room, of k] by simp
  have same: ?thesis if "heap_step log hf op = Some (r, hf')" "hf_same hf hf'" "graph_step G op r G" for r hf'
    using that hf_abs_same [OF h that(2)] room_same [OF that(2)] hf_frame_fixed [OF hf_effD(4) [OF that(2)]] by blast
  show ?thesis
  proof (cases op)
    case (Create_Node l)
    then show ?thesis using create_node_step [OF h room, of l log] ok by fastforce
  next
    case (Create_Relationship a b w l)
    show ?thesis
    proof (cases "g_labels G a \<noteq> None \<and> g_labels G b \<noteq> None \<and> \<not> double_eq w UNINITIALIZED_WEIGHT")
      case True
      then show ?thesis using create_relationship_step [OF h room, of a b w l log] ok Create_Relationship by fastforce
    next
      case False
      then have "create_relationship hf a b w l log = None" using hf_abs_node [OF h] by (intro create_relationship_exit [OF inv room]) auto
      then show ?thesis using False Create_Relationship by auto
    qed
  next
    case (Read_Node i)
    show ?thesis
    proof (cases "hf_nodes hf i")
      case None
      then show ?thesis using Read_Node read_exit(1) [OF inv, of i log] hf_abs_node [OF h, of i] by simp
    next
      case (Some n)
      then have "g_labels G i = Some (n_label n)" using h by (auto simp: hf_abs_def hf_labels_def dest: fun_cong [of _ _ i])
      moreover obtain hf' where "read_node hf i log = Some (n, hf')" "hf_same hf hf'" using read_node_ok [OF inv Some] by blast
      ultimately show ?thesis using Read_Node by (intro same) simp_all
    qed
  next
    case (Read_Relationship i)
    show ?thesis
    proof (cases "hf_rels hf i")
      case None
      then show ?thesis using Read_Relationship read_exit(2) [OF inv, of i log] hf_abs_rel [OF h, of i] by simp
    next
      case (Some r)
      obtain hf' where "read_relationship hf i log = Some (r, hf')" "hf_same hf hf'" using read_relationship_ok [OF inv Some] by blast
      then show ?thesis using Read_Relationship Some hf_abs_rel [OF h, of i]
        by (intro same [of "Edge (edge_of r)"]) (simp_all add: graph_step.read_relationship del: graph_step_simps)
    qed
  next
    case Get_Nodes
    have "map (\<lambda>n. (n_id n, n_label n)) (hf_node_list hf) = in_id_order (g_labels G)"
      unfolding hf_node_list_def using scan_list_in_order [OF hf_dom(1) [OF inv], of n_id n_label] graph_ok_node(1) [OF gr] h
      by (simp add: hf_abs_def hf_labels_def)
    moreover obtain l hf' where "get_nodes hf log = Some (l, hf')" "hf_same hf hf'" "al_list l = hf_node_list hf" using get_nodes_ok [OF inv] by blast
    ultimately show ?thesis using Get_Nodes by (intro same) simp_all
  next
    case Get_Relationships
    have "map (\<lambda>r. (r_id r, edge_of r)) (hf_rel_list hf) = in_id_order (map_of (g_edges G))"
      unfolding hf_rel_list_def using scan_list_in_order [OF hf_dom(2) [OF inv], of r_id edge_of] graph_ok_rel(1) [OF gr] h
      by (simp add: hf_abs_def hf_edges_def)
    moreover obtain l hf' where "get_relationships hf log = Some (l, hf')" "hf_same hf hf'" "al_list l = hf_rel_list hf"
      using get_relationships_ok [OF inv] by blast
    ultimately show ?thesis using Get_Relationships by (intro same) simp_all
  next
    case (Expand n d)
    show ?thesis
    proof (cases "hf_nodes hf n")
      case None
      then show ?thesis using Expand read_exit(1) [OF inv, of n log] hf_abs_node [OF h, of n] by (simp add: expand_def)
    next
      case (Some nd)
      then have "g_labels G n \<noteq> None" using hf_abs_node [OF h, of n] by simp
      moreover obtain l hf' where "expand hf n d log = Some (l, hf')" "hf_same hf hf'"
        "al_list l = map (\<lambda>i. the (hf_rels hf i)) (matching hf n d (chain_at (g_edges G) n))" using expand_ok [OF g Some] by blast
      ultimately show ?thesis using Expand matching_edges [OF h, of n d] by (intro same) simp_all
    qed
  qed
qed

text \<open>A state of the heap file after some operations, with room for more.\<close>

definition heap_rep :: "nat \<Rightarrow> heap_file \<Rightarrow> heap_file \<Rightarrow> pgraph \<Rightarrow> bool" where
  "heap_rep k hf0 hf G \<longleftrightarrow> hf_abs hf G \<and> hf_room k hf \<and> hf_fixed hf = hf_fixed hf0"

lemma run_refines:
  assumes "heap_rep (length ops + k) hf0 hf G" "list_all op_ok ops"
  shows "\<exists>s. graph_run G ops (fst (heap_run log hf ops)) s \<and> rel_option (heap_rep k hf0) (snd (heap_run log hf ops)) s"
  using assms
proof (induction ops arbitrary: hf G)
  case (Cons op ops)
  have "hf_abs hf G" "hf_room (Suc (length ops + k)) hf" "op_ok op" "hf_fixed hf = hf_fixed hf0"
    using Cons.prems by (simp_all add: heap_rep_def)
  note h = this
  from step_refines [OF h(1-3), of log] show ?case
  proof (elim disjE exE conjE)
    fix r hf' G'
    assume s: "heap_step log hf op = Some (r, hf')" "graph_step G op r G'" "hf_abs hf' G'" "hf_room (length ops + k) hf'" "hf_fixed hf' = hf_fixed hf"
    then have "heap_rep (length ops + k) hf0 hf' G'" using h(4) by (simp add: heap_rep_def)
    then obtain s' where "graph_run G' ops (fst (heap_run log hf' ops)) s'" "rel_option (heap_rep k hf0) (snd (heap_run log hf' ops)) s'"
      using Cons.IH Cons.prems(2) by fastforce
    then show ?thesis using s by (auto simp: case_prod_unfold intro: graph_run.step)
  qed (auto intro: graph_run.stuck)
qed (auto intro: graph_run.finish)

lemma run_abs:
  assumes "heap_rep (length ops + k) hf0 hf G" "list_all op_ok ops"
  shows "\<exists>s. graph_run G ops (fst (heap_run log hf ops)) s \<and> rel_option hf_abs (snd (heap_run log hf ops)) s"
  using run_refines [OF assms, of log] by (auto simp: heap_rep_def elim!: option.rel_mono_strong)

lemma empty_abs:
  assumes "hf_inv hf" "hf_counts hf" "hf_nodes hf = Map.empty" "hf_rels hf = Map.empty"
  shows "hf_abs hf empty_graph"
  using assms by (simp add: hf_abs_def empty_graph_def hf_graph_def graph_ok_def hf_labels_def hf_edges_def)

text \<open>
  C1: A sequence of operations on the heap file of a newly created database, creating nodes and relationships, reading
  them by id, listing them and expanding nodes in any direction, gives results the abstract property graph allows: new
  ids are fresh, records are read back as created, lists are complete and in order. The program ends early exactly at an
  operation the graph has no step for: a missing node or relationship, or a weight that
  stands for no weight. Afterwards the file still represents the graph.
  The sequence has fewer than a million operations with 64 bit labels and weights, and the cache has three frames for the
  first pages and two for each operation: all pages of the database fit into the cache, so that no page is ever evicted.
\<close>
theorem heap_file_refines_graph:
  assumes "n < 2 ^ 32" "3 + 2 * length ops \<le> n" "length ops < 1000000" "list_all op_ok ops"
  shows "\<exists>db fs pc hf s. phy_database_create Map.empty name log_path = Some (db, fs) \<and> page_cache_create seed db n log_path = Some pc \<and>
    heap_file_create pc log_path = Some hf \<and> graph_run empty_graph ops (fst (heap_run log hf ops)) s \<and>
    rel_option hf_abs (snd (heap_run log hf ops)) s"
proof -
  obtain db fs pc hf where d: "phy_database_create Map.empty name log_path = Some (db, fs)" "page_cache_create seed db n log_path = Some pc"
    "heap_file_create pc log_path = Some hf" "hf_inv hf" "hf_counts hf" "hf_room (length ops) hf" "hf_nodes hf = Map.empty" "hf_rels hf = Map.empty"
    by (rule new_database [OF assms(1-3)])
  show ?thesis using d(1-3) run_abs [of ops 0 hf hf empty_graph log] empty_abs [OF d(4,5,7,8)] d(6) assms(4)
    by (simp add: heap_rep_def)
qed

theorem heap_file_refines_graph_witness:
  "\<exists>db fs pc hf s. phy_database_create Map.empty ''db'' ''log'' = Some (db, fs) \<and> page_cache_create (\<lambda>_ _. 0) db 13 ''log'' = Some pc \<and>
    heap_file_create pc ''log'' = Some hf \<and>
    graph_run empty_graph [Create_Node 1, Create_Node 2, Create_Relationship 0 1 7 3, Expand 0 OUTGOING, Read_Node 5]
      (fst (heap_run True hf [Create_Node 1, Create_Node 2, Create_Relationship 0 1 7 3, Expand 0 OUTGOING, Read_Node 5])) s \<and>
    rel_option hf_abs (snd (heap_run True hf [Create_Node 1, Create_Node 2, Create_Relationship 0 1 7 3, Expand 0 OUTGOING, Read_Node 5])) s"
  by (rule heap_file_refines_graph) (simp_all add: ULONG_RANGE_def)

end
