(* ===== verification/Heap_Reopen.thy ===== *)
theory Heap_Reopen
  imports Heap_Graph
begin

text \<open>
  Persistence. A heap file is closed by flushing and destroying its page cache and closing the files
  of the database; opening the database again, with a cache of any sufficient size, gives a
  heap file with the same nodes and relationships.
\<close>

lemma header_zero:
  assumes "\<And>s. s < 32768 \<Longrightarrow> \<not> hbit b s"
  shows "page_of b = (\<lambda>_. 0)"
proof
  fix i
  show "page_of b i = 0"
  proof (cases "i < PAGE_SIZE")
    case True
    have "\<not> bit (b i) j" if "j < 8" for j
    proof -
      define k where "k = 7 - j"
      have k: "k < 8" "j = 7 - k" using that by (simp_all add: k_def)
      then have "(i * 8 + k) div 8 = i" "(i * 8 + k) mod 8 = k" "i * 8 + k < 32768" using True by (simp_all add: PAGE_SIZE_def)
      then show ?thesis using assms [of "i * 8 + k"] k(2) by (simp add: hbit_def CHAR_BIT_def)
    qed
    then have "b i = 0" by (intro bit_word_eqI) simp
    then show ?thesis by (simp add: page_of_def)
  qed (simp add: page_of_def)
qed

lemma flush_all_quiet: "flush_all_pages pc log = Some pc' \<Longrightarrow> quiet pc pc'"
  unfolding flush_all_pages_def by (erule for_each_inv) (auto intro: quiet_trans flush_page_quiet)

lemma idle_unpinned:
  assumes "db_idle pc" "f < length (pc_frames pc)"
  shows "pg_pin_count (pc_frames pc ! f) = 0"
proof -
  have "pin_sum pc = 0" using assms(1) by (simp add: db_idle_def db_ready_def ready_def)
  then show ?thesis using assms(2) by (simp add: pin_sum_def unat_eq_0)
qed

lemma fixed_named:
  "pd_names db = pd_names db0 \<Longrightarrow> pd_named name db0 \<Longrightarrow> pd_named name db"
  "pd_named name db \<Longrightarrow> pd_named name db0 \<Longrightarrow> pd_names db = pd_names db0"
  unfolding pd_names_def pd_named_def by (auto simp del: file_types_simps(3))

text \<open>Giving up the cache of a heap file leaves a consistent database with the pages as seen through the cache.\<close>

lemma close_cache:
  assumes inv: "hf_inv hf" and b: "\<not> pc_bulk_import (hf_cache hf)"
  obtains db where "page_cache_destroy (heap_file_destroy hf) = Some db" "pd_inv db" "pd_names db = pd_names (pc_pdb (hf_cache hf))"
    "\<forall>fk ft pn. valid_file fk ft \<longrightarrow> df_page (file_of db fk ft) pn = pc_view (hf_cache hf) fk ft pn"
    "\<forall>fk ft. valid_file fk ft \<longrightarrow> df_num_pages (file_of db fk ft) = pc_pages (hf_cache hf) fk ft"
proof -
  let ?pc = "hf_cache hf"
  have idle: "db_idle ?pc" by (rule hf_inv_ready [OF inv])
  then have r: "pc_inv ?pc" "books ?pc" "queue_ok ?pc" "pc_frames ?pc \<noteq> []"
    using b pc_invD(1) [of ?pc] by (auto simp: db_idle_def db_ready_def ready_def)
  obtain pc1 l1 l2 where f: "flush_all_pages ?pc False = Some pc1" "pc_inv pc1" "pc_view pc1 = pc_view ?pc"
    "\<forall>fk ft pn. valid_file fk ft \<longrightarrow> df_page (file_of (pc_pdb pc1) fk ft) pn = pc_view ?pc fk ft pn"
    "\<forall>fk ft. valid_file fk ft \<longrightarrow> pc_pages pc1 fk ft = pc_pages ?pc fk ft"
    "for_each (\<lambda>_ p. page_destroy p) () (pc_frames pc1) = Some ()" "pc_frames pc1 \<noteq> []"
    "\<not> list_ex (\<lambda>p. pg_pin_count p \<noteq> 0) (pc_frames pc1)"
    "ll_destroy (pc_free_frames pc1) = Some l1" "ll_destroy (pc_recently_referenced pc1) = Some l2"
    using flushed_cache [OF r(1) queue_okD(1) [OF r(3)] r(4)] idle_unpinned [OF idle] by blast
  note q = flush_all_quiet [OF f(1)]
  have "books pc1" using f(2,3,5) by (intro books_step [OF r(1) f(2) r(2) q]) simp_all
  then have "pd_inv (pc_pdb pc1)" by (simp add: books_def)
  moreover have "pd_names (pc_pdb pc1) = pd_names (pc_pdb ?pc)" using q by (simp add: quiet_def pd_sig_def)
  moreover have "page_cache_destroy (heap_file_destroy hf) = Some (pc_pdb pc1)"
    using f by (simp add: page_cache_destroy_def heap_file_destroy_def)
  ultimately show ?thesis using f(4,5) by (intro that [of "pc_pdb pc1"]) (simp_all add: pc_pages_def)
qed

text \<open>A cache that shows the same header and record pages has the same records.\<close>

lemma same_pages_records:
  assumes h: "db_has (hf_cache hf') = db_has (hf_cache hf)"
    and v: "\<And>k. db_has (hf_cache hf) k \<Longrightarrow> key_view (hf_cache hf') k = key_view (hf_cache hf) k"
    and p: "\<And>node. rec_pages hf' node = rec_pages hf node" and inv: "hf_inv hf" "db_idle (hf_cache hf')" "hf_last_alloc_rel_id hf' mod 4 = 0"
  shows "hf_inv hf'" "hf_nodes hf' = hf_nodes hf" "hf_rels hf' = hf_rels hf"
proof -
  have u: "rec_used (hf_cache hf') = rec_used (hf_cache hf)"
    by (intro ext) (use v in \<open>auto simp: rec_used_def h\<close>)
  have r: "key_view (hf_cache hf') (records, rec_ft node, i div 256) = key_view (hf_cache hf) (records, rec_ft node, i div 256)"
    if "rec_used (hf_cache hf) node i" for node i
    using rec_used_record(1) [OF inv(1) that] v by simp
  show "hf_nodes hf' = hf_nodes hf" by (rule ext) (use r [of True] in \<open>simp add: hf_nodes_def u\<close>)
  show "hf_rels hf' = hf_rels hf" by (rule ext) (use r [of False] in \<open>simp add: hf_rels_def u\<close>)
  have "header_clean (hf_cache hf') node" for node
    using hf_inv_clean [OF inv(1), of node] v p [of node] by (simp add: header_clean_def h rec_pages_eq [symmetric])
  then show "hf_inv hf'" using inv(2,3) by (simp add: hf_inv_def)
qed

lemma reopen_records:
  assumes inv: "hf_inv hf" and b: "\<not> pc_bulk_import (hf_cache hf)" and named: "pd_named name (pc_pdb (hf_cache hf))"
    and n: "n = pc_n_frames (hf_cache hf)"
  obtains db db' pc' where "page_cache_destroy (heap_file_destroy hf) = Some db"
    "phy_database_open (phy_database_close fs db) name log = Some (db', phy_database_close fs db)"
    "page_cache_create seed db' n log = Some pc'" "hf_inv (hf_opened pc' log)"
    "hf_nodes (hf_opened pc' log) = hf_nodes hf" "hf_rels (hf_opened pc' log) = hf_rels hf"
    "db_has pc' = db_has (hf_cache hf)" "db_cap pc' = db_cap (hf_cache hf)"
proof -
  let ?pc = "hf_cache hf"
  obtain db where d: "page_cache_destroy (heap_file_destroy hf) = Some db" "pd_inv db" "pd_names db = pd_names (pc_pdb ?pc)"
    "\<forall>fk ft pn. valid_file fk ft \<longrightarrow> df_page (file_of db fk ft) pn = pc_view ?pc fk ft pn"
    "\<forall>fk ft. valid_file fk ft \<longrightarrow> df_num_pages (file_of db fk ft) = pc_pages ?pc fk ft"
    by (rule close_cache [OF inv b])
  have zero: "df_page (pd_header db ft) 0 = (\<lambda>_. 0)" if ft: "ft \<in> set file_types" and e: "df_num_pages (pd_records db ft) = 0" for ft
  proof -
    define node where "node \<longleftrightarrow> ft = node_ft"
    have node: "ft = rec_ft node" by (cases ft) (use ft in \<open>simp_all add: node_def\<close>)
    have z: "pc_pages ?pc records ft = 0" "0 < pc_pages ?pc header ft"
      using d(5) [rule_format, of records ft] d(5) [rule_format, of header ft] e pd_invD(5) [OF d(2), of ft] ft by (simp_all add: file_of_def valid_file_def)
    have "\<not> hbit (key_view ?pc (header, ft, 0)) s" if "s < 32768" for s
      using hf_inv_clean [OF inv, of node, unfolded header_clean_def node [symmetric], rule_format, of s] z ft that
      by (simp add: db_has_def key_has_def valid_file_def)
    then have "page_of (key_view ?pc (header, ft, 0)) = (\<lambda>_. 0)" by (rule header_zero)
    moreover have "df_page (pd_header db ft) 0 = key_view ?pc (header, ft, 0)"
      using d(4) [rule_format, of header ft 0] ft by (simp add: key_view_def file_of_def valid_file_def)
    ultimately show ?thesis by (metis df_page_def page_of_idem)
  qed
  obtain db' where o: "phy_database_open (phy_database_close fs db) name log = Some (db', phy_database_close fs db)"
    "pd_inv db'" "pd_named name db'" "df_num_pages (pd_catalogue db') = df_num_pages (pd_catalogue db)"
    "\<forall>fk. \<forall>ft \<in> set file_types. pd_pages db' fk ft = pd_pages db fk ft \<and>
       pd_remaining_header_bits db' ft = pd_remaining_header_bits db ft \<and>
       df_num_pages (pd_records db' ft) = df_num_pages (pd_records db ft) \<and>
       df_num_pages (pd_header db' ft) = df_num_pages (pd_header db ft)"
    using reopen_ok [OF d(2) fixed_named(1) [OF d(3) named], of fs log] zero by blast
  obtain pc' where p: "page_cache_create seed db' n log = Some pc'" "pc_pdb pc' = db'" "pc_n_frames pc' = n"
    "pc_frames pc' = replicate n (page_create (\<lambda>_. 0))" "\<not> pc_bulk_import pc'"
    "\<And>fk ft pn. valid_file fk ft \<Longrightarrow> pc_view pc' fk ft pn = df_page (file_of db' fk ft) pn"
    using page_cache_create_ok [OF pd_inv_files_ok [OF o(2)], of seed n log] by blast
  have pages: "pc_pages pc' fk ft = pc_pages ?pc fk ft" if "valid_file fk ft" for fk ft
    using o(4,5) d(5) [rule_format, OF that] that p(2) by (cases fk) (auto simp: pc_pages_def file_of_def valid_file_def)
  have view: "pc_view pc' fk ft pn = pc_view ?pc fk ft pn" if "valid_file fk ft" for fk ft pn
    using p(6) [OF that] d(4) [rule_format, OF that, of pn] o(5) [rule_format, of ft fk] that
    by (cases fk) (auto simp: file_of_def pd_pages_def valid_file_def)
  have has: "db_has pc' = db_has ?pc"
    using pages by (auto simp: db_has_def key_has_def fun_eq_iff)
  have all: "all_pages pc' = all_pages ?pc" using pages by (simp add: all_pages_def valid_file_def)
  have cap: "db_cap pc' = db_cap ?pc"
    using p(2,3,5) b n pages [of catalogue node_ft] fixed_named(2) [OF o(3) named] by (simp add: db_cap_def valid_file_def)
  have old: "all_pages ?pc \<le> n" "n < 2 ^ 32" "0 < n"
    using hf_inv_ready [OF inv] b n by (auto simp: db_idle_def db_ready_def ready_def)
  have "ready n pc'" using ready_create(1) [OF pd_inv_files_ok [OF o(2)] old(2) p(1)] all old(1) by simp
  moreover have "books pc'" using o(2) p(2,4) by (auto simp: books_def nocat_def page_create_def)
  ultimately have idle: "db_idle pc'" using p(3) old(3) by (simp add: db_idle_def db_ready_def)
  have "hf_inv (hf_opened pc' log)" "hf_nodes (hf_opened pc' log) = hf_nodes hf" "hf_rels (hf_opened pc' log) = hf_rels hf"
    by (rule same_pages_records [of "hf_opened pc' log" hf];
        use has view pages idle inv in \<open>auto simp: hf_opened_def db_has_def key_has_def key_view_def rec_pages_eq [symmetric] valid_file_def\<close>)+
  then show ?thesis by (rule that [OF d(1) o(1) p(1)]) (use has cap in simp_all)
qed

lemma reopen_rep:
  assumes rep: "heap_rep k hf0 hf G" and b: "\<not> pc_bulk_import (hf_cache hf0)" and named: "pd_named name (pc_pdb (hf_cache hf0))"
    and n: "n = pc_n_frames (hf_cache hf0)"
  obtains db db' pc' hf' where "page_cache_destroy (heap_file_destroy hf) = Some db"
    "phy_database_open (phy_database_close fs db) name log = Some (db', phy_database_close fs db)"
    "page_cache_create seed db' n log = Some pc'" "heap_file_create pc' log = Some hf'" "heap_rep k hf' hf' G"
proof -
  have h: "hf_abs hf G" "hf_inv hf" "hf_room k hf" "hf_fixed hf = hf_fixed hf0"
    using rep hf_abs_inv by (auto simp: heap_rep_def)
  have f: "\<not> pc_bulk_import (hf_cache hf)" "pd_named name (pc_pdb (hf_cache hf))" "n = pc_n_frames (hf_cache hf)"
    using h(4) b n fixed_named(1) [OF _ named] by (simp_all add: hf_fixed_def)
  obtain db db' pc' where o: "page_cache_destroy (heap_file_destroy hf) = Some db"
    "phy_database_open (phy_database_close fs db) name log = Some (db', phy_database_close fs db)"
    "page_cache_create seed db' n log = Some pc'" "hf_inv (hf_opened pc' log)"
    "hf_nodes (hf_opened pc' log) = hf_nodes hf" "hf_rels (hf_opened pc' log) = hf_rels hf"
    "db_has pc' = db_has (hf_cache hf)" "db_cap pc' = db_cap (hf_cache hf)"
    by (rule reopen_records [OF h(2) f])
  obtain hf' where c: "heap_file_create pc' log = Some hf'" "hf_inv hf'" "hf_counts hf'" "hf_nodes hf' = hf_nodes hf" "hf_rels hf' = hf_rels hf"
    "hf_room k hf' = hf_room k (hf_opened pc' log)"
    using heap_file_create_ok [OF o(4)] o(5,6) by auto
  have "hf_room k (hf_opened pc' log) = hf_room k hf" by (rule hf_room_cong) (simp_all add: hf_opened_def o(7,8))
  moreover have "hf_abs hf' G" using h(1) c(2-5) by (simp add: hf_abs_def hf_graph_def hf_labels_def hf_edges_def)
  ultimately have "heap_rep k hf' hf' G" using c(6) h(3) by (simp add: heap_rep_def)
  then show ?thesis by (rule that [OF o(1-3) c(1)])
qed

lemma graph_run_append:
  assumes "graph_run G ops rs s" "s = Some G1" "graph_run G1 ops' rs' s'"
  shows "graph_run G (ops @ ops') (rs @ rs') s'"
  using assms by (induction rule: graph_run.induct) (auto intro: graph_run.intros)

lemma created_fixed:
  assumes "phy_database_create Map.empty name log = Some (db, fs)" "page_cache_create seed db n log = Some pc" "heap_file_create pc log = Some hf"
    and "n < 2 ^ 32" "3 + 2 * k \<le> n" "k < 1000000"
  shows "heap_rep k hf hf empty_graph" "\<not> pc_bulk_import (hf_cache hf)" "pd_named name (pc_pdb (hf_cache hf))" "n = pc_n_frames (hf_cache hf)"
proof -
  obtain hf1 where d: "heap_file_create pc log = Some hf1" "hf_inv hf1" "hf_counts hf1" "hf_room k hf1"
    "hf_nodes hf1 = Map.empty" "hf_rels hf1 = Map.empty" "hf_fixed hf1 = (False, n, pd_names db)"
  proof (rule new_database [OF assms(4-6), of name log seed])
    fix db' fs' pc' hf'
    assume n: "phy_database_create Map.empty name log = Some (db', fs')" "page_cache_create seed db' n log = Some pc'"
      "heap_file_create pc' log = Some hf'" "hf_inv hf'" "hf_counts hf'" "hf_room k hf'" "hf_nodes hf' = Map.empty" "hf_rels hf' = Map.empty"
      "hf_fixed hf' = (False, n, pd_names db')"
    then have "db' = db" "pc' = pc" using assms(1,2) by simp_all
    then show thesis using that n by simp
  qed
  then have hf: "hf1 = hf" using assms(3) by simp
  show "heap_rep k hf hf empty_graph" using empty_abs [of hf] d unfolding hf by (simp add: heap_rep_def)
  have "pd_named name db" using phy_database_create_ok [of Map.empty name log] assms(1) by auto
  then show "pd_named name (pc_pdb (hf_cache hf))" "\<not> pc_bulk_import (hf_cache hf)" "n = pc_n_frames (hf_cache hf)"
    using fixed_named(1) [of "pc_pdb (hf_cache hf)" db name] d(7) unfolding hf by (simp_all add: hf_fixed_def)
qed

text \<open>
  C2: Closing and reopening a database is invisible. After operations on the heap file of a new database that did
  not end the program, the cache can be destroyed, the database closed, opened again under its name, and a cache and a
  heap file created on it; all of this succeeds, and further operations give together with the
  first ones results that the abstract graph allows for the whole sequence without
  the interruption, and end the program exactly when it would. The operations before and after are
  together fewer than a million, with 64 bit labels and weights, and both caches have three frames and
  two more for each of the operations: all pages of the database fit into the cache, so that no page is evicted.
\<close>
theorem reopen_is_invisible:
  assumes "phy_database_create Map.empty name log_path = Some (db, fs)" "page_cache_create seed db n log_path = Some pc"
    "heap_file_create pc log_path = Some hf" "heap_run log hf ops = (rs, Some hf1)"
    and "n < 2 ^ 32" "3 + 2 * (length ops + length ops') \<le> n" "length ops + length ops' < 1000000" "list_all op_ok (ops @ ops')"
  shows "\<exists>db1 db2 pc2 hf2 s. page_cache_destroy (heap_file_destroy hf1) = Some db1 \<and>
    phy_database_open (phy_database_close fs1 db1) name log_path2 = Some (db2, phy_database_close fs1 db1) \<and>
    page_cache_create seed2 db2 n log_path2 = Some pc2 \<and> heap_file_create pc2 log_path2 = Some hf2 \<and>
    graph_run empty_graph (ops @ ops') (rs @ fst (heap_run log2 hf2 ops')) s \<and> rel_option hf_abs (snd (heap_run log2 hf2 ops')) s"
proof -
  note c = created_fixed [OF assms(1-3,5-7)]
  have ok: "list_all op_ok ops" "list_all op_ok ops'" using assms(8) by simp_all
  obtain G where g: "graph_run empty_graph ops rs (Some G)" "heap_rep (length ops') hf hf1 G"
    using run_refines [OF c(1) ok(1), of log] assms(4) by (auto simp: option_rel_Some1)
  obtain db1 db2 pc2 hf2 where o: "page_cache_destroy (heap_file_destroy hf1) = Some db1"
    "phy_database_open (phy_database_close fs1 db1) name log_path2 = Some (db2, phy_database_close fs1 db1)"
    "page_cache_create seed2 db2 n log_path2 = Some pc2" "heap_file_create pc2 log_path2 = Some hf2" "heap_rep (length ops') hf2 hf2 G"
    by (rule reopen_rep [OF g(2) c(2-4)])
  have "heap_rep (length ops' + 0) hf2 hf2 G" using o(5) by simp
  from run_abs [OF this ok(2), of log2] obtain s where
    "graph_run G ops' (fst (heap_run log2 hf2 ops')) s" "rel_option hf_abs (snd (heap_run log2 hf2 ops')) s" by blast
  then show ?thesis using o(1-4) graph_run_append [OF g(1) refl] by blast
qed

theorem reopen_is_invisible_witness:
  "\<exists>db fs pc hf rs hf1 db1 db2 pc2 hf2 s. phy_database_create Map.empty ''db'' ''log'' = Some (db, fs) \<and>
    page_cache_create (\<lambda>_ _. 0) db 11 ''log'' = Some pc \<and> heap_file_create pc ''log'' = Some hf \<and>
    heap_run True hf [Create_Node 1] = (rs, Some hf1) \<and> page_cache_destroy (heap_file_destroy hf1) = Some db1 \<and>
    phy_database_open (phy_database_close fs db1) ''db'' ''log'' = Some (db2, phy_database_close fs db1) \<and>
    page_cache_create (\<lambda>_ _. 0) db2 11 ''log'' = Some pc2 \<and> heap_file_create pc2 ''log'' = Some hf2 \<and>
    graph_run empty_graph ([Create_Node 1] @ [Get_Nodes, Read_Node 0, Create_Node 2])
      (rs @ fst (heap_run True hf2 [Get_Nodes, Read_Node 0, Create_Node 2])) s"
proof -
  obtain db fs pc hf where d: "phy_database_create Map.empty ''db'' ''log'' = Some (db, fs)" "page_cache_create (\<lambda>_ _. 0) db 11 ''log'' = Some pc"
    "heap_file_create pc ''log'' = Some hf" "hf_inv hf" "hf_counts hf" "hf_room (Suc 3) hf" "hf_nodes hf = Map.empty" "hf_rels hf = Map.empty"
    by (rule new_database [of 11 "Suc 3" "''db''" "''log''" "\<lambda>_ _. 0"]) auto
  obtain i hf1 where "create_node hf 1 True = Some (i, hf1)"
    using create_node_step [OF empty_abs [OF d(4,5,7,8)] d(6), of 1 True] by (auto simp: ULONG_RANGE_def)
  then have "heap_run True hf [Create_Node 1] = ([Id i], Some hf1)" by simp
  from reopen_is_invisible [OF d(1-3) this, of "[Get_Nodes, Read_Node 0, Create_Node 2]" fs "''log''" "\<lambda>_ _. 0" True] d(1-3) this
  show ?thesis by (simp add: ULONG_RANGE_def) blast
qed

end
