(* ===== verification/Heap_Lookup.thy ===== *)
theory Heap_Lookup
  imports Heap_Graph
begin

text \<open>
  Looking for a relationship between two nodes. \<^verbatim>\<open>contains_relationship_from_to\<close> walks the chain of the
  first node from its first relationship on and stops when it is back there. If that relationship does not point into the
  given direction the walk never comes back to it: with two or more others that do, none of them between the
  nodes, the loop runs forever.
\<close>

definition joins :: "ulong \<Rightarrow> ulong \<Rightarrow> direction_t \<Rightarrow> relationship_t \<Rightarrow> bool" where
  "joins a b d rel \<longleftrightarrow> (d \<noteq> INCOMING \<and> r_source_node rel = a \<and> r_target_node rel = b) \<or>
     (d \<noteq> OUTGOING \<and> r_source_node rel = b \<and> r_target_node rel = a)"

lemma joins_matches: "joins a b d rel \<Longrightarrow> dir_matches rel a d"
  by (auto simp: joins_def dir_matches_def)

lemma contains_reads:
  assumes g: "hf_graph hf C" and n: "hf_nodes hf a \<noteq> None" and c: "C a = us @ y # vs" and r: "hf_rels hf y = Some r"
  obtains hf1 hf2 where "read_relationship hf y log = Some (r, hf1)" "hf_same hf hf1"
    "next_relationship_id hf1 a r d log = Some (first_of (matching hf a d (vs @ us)), hf2)" "hf_same hf hf2"
proof -
  obtain hf1 where rd: "read_relationship hf y log = Some (r, hf1)" "hf_same hf hf1"
    using read_relationship_ok [OF _ r] g by (auto simp: hf_graph_def)
  have r1: "hf_rels hf1 y = Some r" "hf_nodes hf1 a \<noteq> None" using r n hf_effD [OF rd(2)] by simp_all
  obtain hf2 where nx: "next_relationship_id hf1 a r d log = Some (first_of (matching hf a d (vs @ us)), hf2)" "hf_same hf1 hf2"
    using next_relationship_id_ok [OF hf_graph_same [OF g rd(2)] r1(2) c r1(1)] matching_same [OF rd(2)] by auto
  show ?thesis by (rule that [OF rd nx(1) hf_same_trans [OF rd(2) nx(2)]])
qed

lemma contains_step:
  assumes g: "hf_graph hf C" and n: "hf_nodes hf a \<noteq> None" and c: "C a = us @ y # vs" and r: "hf_rels hf y = Some r"
  obtains hf' where "hf_same hf hf'" "contains_loop hf a b d log start y =
    (if joins a b d r then Some (Some r, hf')
     else if first_of (matching hf a d (vs @ us)) \<noteq> start \<and> first_of (matching hf a d (vs @ us)) \<noteq> UNINITIALIZED_LONG
     then contains_loop hf' a b d log start (first_of (matching hf a d (vs @ us))) else Some (None, hf'))"
proof (rule contains_reads [OF assms, where log = log and d = d])
  fix hf1 hf2
  assume q: "read_relationship hf y log = Some (r, hf1)" "hf_same hf hf1"
    "next_relationship_id hf1 a r d log = Some (first_of (matching hf a d (vs @ us)), hf2)" "hf_same hf hf2"
  show ?thesis
    by (rule that [of "if joins a b d r then hf1 else hf2"], use q in simp, subst contains_loop.simps) (use q in \<open>simp add: joins_def\<close>)
qed

lemma matching_SomeD:
  assumes g: "hf_graph hf C" and n: "hf_nodes hf a \<noteq> None" and m: "matching hf a d (C a) = as @ y # bs"
  obtains us vs r where "C a = us @ y # vs" "hf_rels hf y = Some r" "dir_matches r a d" "y \<noteq> UNINITIALIZED_LONG"
    "matching hf a d (vs @ us) = bs @ as"
proof -
  have dc: "distinct (C a)" using g n graph_ok_node(4) chain_okD(1) unfolding hf_graph_def by blast
  obtain us vs where c: "C a = us @ y # vs" "as = matching hf a d us" "bs = matching hf a d vs" by (rule matching_split [OF m dc])
  have "y \<in> set (C a)" using c(1) by simp
  then obtain r where r: "hf_rels hf y = Some r" "y < UNINITIALIZED_LONG" by (rule in_chain [OF g n])
  have "y \<in> set (matching hf a d (C a))" by (simp add: m)
  then have "dir_matches r a d" using r(1) by (simp add: matching_def)
  then show ?thesis using that [OF c(1) r(1)] r(2) c(2,3) by (simp add: matching_append)
qed

text \<open>The relationship that is found: the first one of the chain in the given direction between the nodes.\<close>

definition found :: "heap_file \<Rightarrow> ulong \<Rightarrow> ulong \<Rightarrow> direction_t \<Rightarrow> ulong list \<Rightarrow> relationship_t option" where
  "found hf a b d is = find (joins a b d) (map (\<lambda>i. the (hf_rels hf i)) is)"

lemma found_same: "hf_same hf hf' \<Longrightarrow> found hf' = found hf"
  by (simp add: found_def hf_eff_def fun_eq_iff)

text \<open>The loop over the rest of the chain, when it ends at the end of the list or before.\<close>

lemma contains_loop_ok:
  assumes "hf_graph hf C" "hf_nodes hf a \<noteq> None" "matching hf a d (C a) = as @ y # bs"
    "start \<notin> set (y # bs) \<or> as = [] \<and> start = y"
    "start = hd (as @ [y]) \<or> as @ bs = [] \<or> found hf a b d (y # bs) \<noteq> None"
  shows "\<exists>hf'. contains_loop hf a b d log start y = Some (found hf a b d (y # bs), hf') \<and> hf_same hf hf'"
  using assms
proof (induction bs arbitrary: as y hf)
  case (Nil as y hf)
  obtain us vs r where c: "C a = us @ y # vs" "hf_rels hf y = Some r" "dir_matches r a d" "y \<noteq> UNINITIALIZED_LONG"
    "matching hf a d (vs @ us) = [] @ as" by (rule matching_SomeD [OF Nil.prems(1-3)])
  obtain hf' where s: "hf_same hf hf'" "contains_loop hf a b d log start y =
    (if joins a b d r then Some (Some r, hf')
     else if first_of ([] @ as) \<noteq> start \<and> first_of ([] @ as) \<noteq> UNINITIALIZED_LONG
     then contains_loop hf' a b d log start (first_of ([] @ as)) else Some (None, hf'))"
    by (rule contains_step [OF Nil.prems(1,2) c(1,2), of b d log start]) (simp add: c(5))
  have "joins a b d r \<or> first_of as = start \<or> first_of as = UNINITIALIZED_LONG"
    using Nil.prems(5) c(2) by (cases as) (auto simp: first_of_def found_def split: if_splits)
  then show ?case using s c(2) by (auto simp: found_def)
next
  case IH: (Cons z bs as y hf)
  obtain us vs r where c: "C a = us @ y # vs" "hf_rels hf y = Some r" "dir_matches r a d" "y \<noteq> UNINITIALIZED_LONG"
    "matching hf a d (vs @ us) = (z # bs) @ as" by (rule matching_SomeD [OF IH.prems(1-3)])
  obtain hf' where s: "hf_same hf hf'" "contains_loop hf a b d log start y =
    (if joins a b d r then Some (Some r, hf')
     else if first_of ((z # bs) @ as) \<noteq> start \<and> first_of ((z # bs) @ as) \<noteq> UNINITIALIZED_LONG
     then contains_loop hf' a b d log start (first_of ((z # bs) @ as)) else Some (None, hf'))"
    by (rule contains_step [OF IH.prems(1,2) c(1,2), of b d log start]) (simp add: c(5))
  show ?case
  proof (cases "joins a b d r")
    case True
    then show ?thesis using s c(2) by (simp add: found_def)
  next
    case False
    have m: "matching hf' a d (C a) = (as @ [y]) @ z # bs" using matching_same [OF s(1)] IH.prems(3) by simp
    have g': "hf_graph hf' C" "hf_nodes hf' a \<noteq> None" using hf_graph_same [OF IH.prems(1) s(1)] hf_effD [OF s(1)] IH.prems(2) by simp_all
    have z: "z \<noteq> UNINITIALIZED_LONG" by (rule matching_SomeD [OF g' m])
    have "distinct (as @ y # z # bs)" by (metis IH.prems(1-3) matching_distinct)
    then have st: "start \<notin> set (z # bs)" using IH.prems(4) by auto
    have f: "found hf a b d (y # z # bs) = found hf a b d (z # bs)" using False c(2) by (simp add: found_def)
    have "\<exists>h. contains_loop hf' a b d log start z = Some (found hf' a b d (z # bs), h) \<and> hf_same hf' h"
    proof (rule IH.IH [OF g' m])
      show "start = hd ((as @ [y]) @ [z]) \<or> (as @ [y]) @ bs = [] \<or> found hf' a b d (z # bs) \<noteq> None"
        using IH.prems(5) f found_same [OF s(1)] by (cases as) auto
    qed (use st in simp)
    then show ?thesis using s(2) False st z f found_same [OF s(1)] hf_same_trans [OF s(1)] by (auto simp: first_of_def)
  qed
qed

text \<open>The loop never returns when it does not meet its start again and finds nothing.\<close>

lemma contains_loop_runs:
  assumes "contains_loop hf a b d log start y = Some res"
  shows "\<not> (hf_graph hf C \<and> hf_nodes hf a \<noteq> None \<and> y \<in> set (matching hf a d (C a)) \<and> start \<notin> set (matching hf a d (C a)) \<and>
     2 \<le> length (matching hf a d (C a)) \<and> found hf a b d (matching hf a d (C a)) = None)"
  using assms
proof (rule contains_loop.raw_induct [rotated])
  fix loop :: "heap_file \<Rightarrow> ulong \<Rightarrow> ulong \<Rightarrow> direction_t \<Rightarrow> bool \<Rightarrow> ulong \<Rightarrow> ulong \<Rightarrow> (relationship_t option \<times> heap_file) option"
    and hf a b d log start y res
  let ?stuck = "\<lambda>hf a b d log start y. hf_graph hf C \<and> hf_nodes hf a \<noteq> None \<and> y \<in> set (matching hf a d (C a)) \<and>
     start \<notin> set (matching hf a d (C a)) \<and> 2 \<le> length (matching hf a d (C a)) \<and> found hf a b d (matching hf a d (C a)) = None"
  assume IH: "\<And>hf a b d log start y res. loop hf a b d log start y = Some res \<Longrightarrow> \<not> ?stuck hf a b d log start y"
    and body: "do { (rel, hf) \<leftarrow> read_relationship hf y log;
      if (d \<noteq> INCOMING \<and> r_source_node rel = a \<and> r_target_node rel = b) \<or> (d \<noteq> OUTGOING \<and> r_source_node rel = b \<and> r_target_node rel = a)
      then Some (Some rel, hf)
      else do {
        (next_id, hf) \<leftarrow> next_relationship_id hf a rel d log;
        if next_id \<noteq> start \<and> next_id \<noteq> UNINITIALIZED_LONG then loop hf a b d log start next_id else Some (None, hf) } } = Some res"
  show "\<not> ?stuck hf a b d log start y"
  proof
    assume st: "?stuck hf a b d log start y"
    let ?M = "matching hf a d (C a)"
    have g: "hf_graph hf C" "hf_nodes hf a \<noteq> None" using st by simp_all
    obtain as bs where m: "?M = as @ y # bs" using st by (auto dest: split_list)
    obtain us vs r where c: "C a = us @ y # vs" "hf_rels hf y = Some r" "matching hf a d (vs @ us) = bs @ as"
      by (rule matching_SomeD [OF g m])
    obtain hf1 hf2 where q: "read_relationship hf y log = Some (r, hf1)" "hf_same hf hf1"
      "next_relationship_id hf1 a r d log = Some (first_of (matching hf a d (vs @ us)), hf2)" "hf_same hf hf2"
      by (rule contains_reads [OF g c(1,2)])
    let ?z = "first_of (bs @ as)"
    have "bs @ as \<noteq> []" using st m by auto
    then have z: "?z \<in> set ?M" using m hd_in_set [of "bs @ as"] by (auto simp: first_of_def simp del: hd_append2)
    then obtain as' bs' where m': "?M = as' @ ?z # bs'" by (auto dest: split_list)
    have zu: "?z \<noteq> UNINITIALIZED_LONG" by (rule matching_SomeD [OF g m'])
    have "y \<in> set ?M" using st by simp
    then have "\<not> joins a b d r" using st c(2) by (auto simp: found_def find_None_iff)
    then have "loop hf2 a b d log start ?z = Some res" using body q(1,3) c(3) z zu st by (auto simp: joins_def split: if_splits)
    from IH [OF this] show False
      using st z hf_graph_same [of hf C hf2] matching_same [OF q(4)] found_same [OF q(4)] hf_effD [OF q(4)] q(4) by auto
  qed
qed

section \<open>The whole operation\<close>

lemma contains_start:
  assumes g: "hf_graph hf C" and n: "hf_nodes hf a = Some na" "hf_nodes hf b = Some nb"
  obtains hf' where "hf_same hf hf'" "contains_relationship_from_to hf a b d log =
    (if C a = [] \<or> C b = [] then Some (None, hf') else contains_loop hf' a b d log (hd (C a)) (hd (C a)))"
proof -
  have inv: "hf_inv hf" and gr: "graph_ok (hf_nodes hf) (hf_rels hf) C" using g by (simp_all add: hf_graph_def)
  have ab: "a \<noteq> UNINITIALIZED_LONG" "b \<noteq> UNINITIALIZED_LONG" using graph_ok_node(3) [OF gr n(1)] graph_ok_node(3) [OF gr n(2)] by auto
  have u: "rec_used (hf_cache hf) True a" "rec_used (hf_cache hf) True b" using n by (auto simp: hf_nodes_def split: if_splits)
  obtain hf1 where c1: "check_record_exists hf a True log = Some (True, hf1)" "hf_same hf hf1"
    using check_record_exists_ok [OF inv, of True a log] u by (auto simp: rec_used_def)
  have u1: "rec_used (hf_cache hf1) True b" using u hf_same_used [OF c1(2)] by simp
  obtain hf2 where c2: "check_record_exists hf1 b True log = Some (True, hf2)" "hf_same hf1 hf2"
    using check_record_exists_ok [OF hf_effD(1) [OF c1(2)], of True b log] u1 by (auto simp: rec_used_def)
  note s2 = hf_same_trans [OF c1(2) c2(2)]
  obtain hf3 where c3: "read_node_internal hf2 a False log = Some (na, hf3)" "hf_same hf2 hf3"
    using read_node_internal_ok [OF hf_effD(1) [OF s2], of a na False log] n hf_effD(2) [OF s2] by auto
  note s3 = hf_same_trans [OF s2 c3(2)]
  obtain hf4 where c4: "read_node_internal hf3 b False log = Some (nb, hf4)" "hf_same hf3 hf4"
    using read_node_internal_ok [OF hf_effD(1) [OF s3], of b nb False log] n hf_effD(2) [OF s3] by auto
  note s4 = hf_same_trans [OF s3 c4(2)]
  have f: "n_first_relationship na = first_of (C a)" "n_first_relationship nb = first_of (C b)"
    using graph_ok_node(5) [OF gr] n by simp_all
  have "hd (C x) < UNINITIALIZED_LONG" if "hf_nodes hf x \<noteq> None" "C x \<noteq> []" for x
    by (rule in_chain [OF g that(1) hd_in_set [OF that(2)]])
  then have e: "first_of (C x) = UNINITIALIZED_LONG \<longleftrightarrow> C x = []" if "hf_nodes hf x \<noteq> None" for x
    using that by (auto simp: first_of_def dest: less_imp_neq)
  show ?thesis
    by (rule that [of "hf_log (hf_log hf4 log ''read_node'' (n_id na) (n_label na)) log ''read_node'' (n_id nb) (n_label nb)"])
      (use s4 ab c1(1) c2(1) c3(1) c4(1) f e [of a] e [of b] n in \<open>simp_all add: contains_relationship_from_to_def first_of_def\<close>)
qed

lemma contains_ok:
  fixes C hf a d
  defines "M \<equiv> matching hf a d (C a)"
  assumes g: "hf_graph hf C" and n: "hf_nodes hf a = Some na" "hf_nodes hf b = Some nb"
  shows "if C a = [] \<or> C b = [] \<or> dir_matches (the (hf_rels hf (hd (C a)))) a d \<or> length M < 2 \<or> found hf a b d M \<noteq> None
    then \<exists>hf'. contains_relationship_from_to hf a b d log = Some (found hf a b d M, hf') \<and> hf_same hf hf'
    else contains_relationship_from_to hf a b d log = None"
proof -
  have nn: "hf_nodes hf a \<noteq> None" "hf_nodes hf b \<noteq> None" using n by simp_all
  obtain hf1 where r: "hf_same hf hf1" "contains_relationship_from_to hf a b d log =
    (if C a = [] \<or> C b = [] then Some (None, hf1) else contains_loop hf1 a b d log (hd (C a)) (hd (C a)))"
    by (rule contains_start [OF g n])
  have M1: "matching hf1 a d (C a) = M" "found hf1 = found hf" using matching_same [OF r(1)] found_same [OF r(1)] by (simp_all add: M_def)
  have g1: "hf_graph hf1 C" "hf_nodes hf1 a \<noteq> None" "hf_rels hf1 = hf_rels hf" using hf_graph_same [OF g r(1)] nn hf_effD [OF r(1)] by simp_all
  show ?thesis
  proof (cases "C a = [] \<or> C b = []")
    case True
    have "\<not> joins a b d (the (hf_rels hf i))" if "i \<in> set M" for i
    proof
      assume j: "joins a b d (the (hf_rels hf i))"
      have i: "i \<in> set (C a)" using that by (simp add: M_def matching_def)
      obtain r' where r': "hf_rels hf i = Some r'" by (rule in_chain [OF g nn(1) i])
      have "touches r' b" using j r' by (auto simp: joins_def touches_def)
      then have "i \<in> set (C b)" using g n r' graph_ok_node(4) chain_okD(2) unfolding hf_graph_def by blast
      then show False using True i by auto
    qed
    then have "found hf a b d M = None" by (auto simp: found_def find_None_iff)
    then show ?thesis using True r by auto
  next
    case False
    let ?f = "hd (C a)"
    obtain vs where c: "C a = [] @ ?f # vs" using False by (cases "C a") auto
    have "?f \<in> set (C a)" using False by simp
    then obtain r0 where r0: "hf_rels hf ?f = Some r0" by (rule in_chain [OF g nn(1)])
    then have r1: "hf_rels hf1 ?f = Some r0" using g1(3) by simp
    have run: "contains_relationship_from_to hf a b d log = contains_loop hf1 a b d log ?f ?f" using r(2) False by simp
    show ?thesis
    proof (cases "dir_matches r0 a d")
      case True
      then have "M = [] @ ?f # matching hf a d vs" using arg_cong [OF c, of "matching hf a d"] r0 by (simp add: M_def matching_def)
      note m = this
      have "\<exists>hf'. contains_loop hf1 a b d log ?f ?f = Some (found hf1 a b d (?f # matching hf a d vs), hf') \<and> hf_same hf1 hf'"
        by (rule contains_loop_ok [OF g1(1,2), where as = "[]"]) (use m M1 in simp_all)
      then show ?thesis using True r0 run m M1(2) hf_same_trans [OF r(1)] by auto
    next
      case dm: False
      then have m: "M = matching hf a d vs" using arg_cong [OF c, of "matching hf a d"] r0 by (simp add: M_def matching_def)
      have nj: "\<not> joins a b d r0" using dm joins_matches by blast
      have fM: "?f \<notin> set M" using dm r0 by (auto simp: M_def matching_def)
      obtain hf2 where s: "hf_same hf1 hf2" "contains_loop hf1 a b d log ?f ?f =
        (if joins a b d r0 then Some (Some r0, hf2)
         else if first_of M \<noteq> ?f \<and> first_of M \<noteq> UNINITIALIZED_LONG then contains_loop hf2 a b d log ?f (first_of M) else Some (None, hf2))"
        by (rule contains_step [OF g1(1,2) c r1, of b d log ?f]) (use m matching_same [OF r(1)] in simp)
      have s2: "hf_same hf hf2" by (rule hf_same_trans [OF r(1) s(1)])
      have g2: "hf_graph hf2 C" "hf_nodes hf2 a \<noteq> None" "matching hf2 a d (C a) = M" "found hf2 = found hf"
        using hf_graph_same [OF g s2] nn hf_effD [OF s2] matching_same [OF s2] found_same [OF s2] by (simp_all add: M_def)
      show ?thesis
      proof (cases M)
        case Nil
        then show ?thesis using run s(2) nj s2 by (auto simp: first_of_def found_def)
      next
        case (Cons y ys)
        have m2: "matching hf2 a d (C a) = [] @ y # ys" using g2(3) Cons by simp
        have y: "y \<noteq> UNINITIALIZED_LONG" "y \<noteq> ?f" using fM Cons matching_SomeD [OF g2(1,2) m2] by auto
        then have run2: "contains_relationship_from_to hf a b d log = contains_loop hf2 a b d log ?f y"
          using run s(2) nj Cons by (simp add: first_of_def)
        show ?thesis
        proof (cases "length M < 2 \<or> found hf a b d M \<noteq> None")
          case True
          have "\<exists>hf'. contains_loop hf2 a b d log ?f y = Some (found hf2 a b d (y # ys), hf') \<and> hf_same hf2 hf'"
            by (rule contains_loop_ok [OF g2(1,2) m2]) (use True fM Cons g2(4) in auto)
          then show ?thesis using True run2 Cons g2(4) hf_same_trans [OF s2] by auto
        next
          case no: False
          have "contains_loop hf2 a b d log ?f y \<noteq> Some res" for res
            using contains_loop_runs [of hf2 a b d log ?f y res C] g2 fM Cons no by (auto simp: Suc_le_eq)
          then have "contains_loop hf2 a b d log ?f y = None" by (metis option.exhaust)
          then show ?thesis using no dm r0 run2 False by auto
        qed
      qed
    qed
  qed
qed

section \<open>On the abstract graph\<close>

fun edge_joins :: "ulong \<Rightarrow> ulong \<Rightarrow> direction_t \<Rightarrow> ulong \<times> edge \<Rightarrow> bool" where
  "edge_joins a b d (i, s, t, w, l) \<longleftrightarrow> (d \<noteq> INCOMING \<and> s = a \<and> t = b) \<or> (d \<noteq> OUTGOING \<and> s = b \<and> t = a)"

lemma find_map_option: "(\<And>x. P x = Q (f x)) \<Longrightarrow> map_option f (find P xs) = find Q (map f xs)"
  by (induction xs) auto

lemma abs_edge:
  assumes h: "hf_abs hf G" and e: "(i, e) \<in> set (g_edges G)"
  obtains r where "hf_rels hf i = Some r" "r_id r = i" "edge_of r = e"
proof -
  have "map_of (g_edges G) i = Some e" using h e by (simp add: hf_abs_def)
  then obtain r where "hf_rels hf i = Some r" "edge_of r = e" using hf_abs_rel [OF h, of i] by auto
  moreover from this have "r_id r = i" using h graph_ok_rel(1) by (auto simp: hf_abs_def hf_graph_def)
  ultimately show ?thesis using that by blast
qed

lemma found_edges:
  assumes "hf_abs hf G" "g_labels G a \<noteq> None"
  shows "map_option (\<lambda>r. (r_id r, edge_of r)) (found hf a b d (matching hf a d (chain_at (g_edges G) a))) =
    find (edge_joins a b d) (filter (edge_matches a d) (g_edges G))"
  unfolding found_def matching_edges [OF assms, symmetric]
  by (rule find_map_option) (simp add: joins_def edge_of_def)

lemma first_edge:
  assumes h: "hf_abs hf G" and c: "chain_at (g_edges G) a \<noteq> []"
  shows "dir_matches (the (hf_rels hf (hd (chain_at (g_edges G) a)))) a d = edge_matches a d (hd (filter (edge_touches a) (g_edges G)))"
proof -
  obtain x xs where x: "filter (edge_touches a) (g_edges G) = x # xs" using c by (cases "filter (edge_touches a) (g_edges G)") (auto simp: chain_at_def)
  then have "x \<in> set (filter (edge_touches a) (g_edges G))" by simp
  then have m: "(fst x, snd x) \<in> set (g_edges G)" by simp
  obtain r where "hf_rels hf (fst x) = Some r" "edge_of r = snd x" by (rule abs_edge [OF h m])
  moreover have "edge_matches a d (fst x, edge_of r) = dir_matches r a d" by (simp add: edge_of_def dir_matches_def)
  ultimately show ?thesis by (simp add: chain_at_def x)
qed

text \<open>
  C17: \<^verbatim>\<open>contains_relationship_from_to\<close> on two existing nodes. If one of the nodes has no relationships at all, or the
  oldest relationship at the first node points into the direction asked for, or at most one relationship does, or one of
  them joins the nodes, the function returns, with the oldest relationship that joins the nodes in that direction or with
  nothing when there is none. Otherwise it never returns.
\<close>
theorem contains_relationship_or_hangs:
  assumes h: "hf_abs hf G" and n: "g_labels G a \<noteq> None" "g_labels G b \<noteq> None"
  shows "let at = (\<lambda>n. filter (edge_touches n) (g_edges G)); es = filter (edge_matches a d) (g_edges G) in
    if at a = [] \<or> at b = [] \<or> edge_matches a d (hd (at a)) \<or> length es < 2 \<or> list_ex (edge_joins a b d) es
    then \<exists>r hf'. contains_relationship_from_to hf a b d log = Some (r, hf') \<and> hf_abs hf' G \<and>
      map_option (\<lambda>r. (r_id r, edge_of r)) r = find (edge_joins a b d) es
    else contains_relationship_from_to hf a b d log = None"
proof -
  let ?C = "chain_at (g_edges G)" and ?at = "\<lambda>n. filter (edge_touches n) (g_edges G)" and ?es = "filter (edge_matches a d) (g_edges G)"
  let ?M = "matching hf a d (?C a)"
  have g: "hf_graph hf ?C" using h by (simp add: hf_abs_def)
  obtain na nb where nn: "hf_nodes hf a = Some na" "hf_nodes hf b = Some nb" using n hf_abs_node [OF h] by (metis not_None_eq)
  have c: "?C x = [] \<longleftrightarrow> ?at x = []" for x by (simp add: chain_at_def)
  have len: "length ?M = length ?es" using arg_cong [OF matching_edges [OF h n(1), of d], of length] by simp
  note f = found_edges [OF h n(1), of b d]
  have ex: "found hf a b d ?M \<noteq> None \<longleftrightarrow> list_ex (edge_joins a b d) ?es"
  proof -
    have "find (edge_joins a b d) ?es = None \<longleftrightarrow> \<not> list_ex (edge_joins a b d) ?es" by (simp only: find_None_iff list_ex_iff not_False_eq_True) blast
    then show ?thesis unfolding f [symmetric] by (simp only: map_option_is_None) blast
  qed
  have cond: "(?C a = [] \<or> ?C b = [] \<or> dir_matches (the (hf_rels hf (hd (?C a)))) a d \<or> length ?M < 2 \<or> found hf a b d ?M \<noteq> None) =
      (?at a = [] \<or> ?at b = [] \<or> edge_matches a d (hd (?at a)) \<or> length ?es < 2 \<or> list_ex (edge_joins a b d) ?es)"
    unfolding ex len c using first_edge [OF h, of a d] by (cases "?C a = []") (simp_all add: c)
  show ?thesis
    unfolding Let_def using contains_ok [OF g nn, of d log, unfolded cond] f hf_abs_same [OF h]
    by (cases "?at a = [] \<or> ?at b = [] \<or> edge_matches a d (hd (?at a)) \<or> length ?es < 2 \<or> list_ex (edge_joins a b d) ?es")
      (simp_all only: if_True if_False, blast)
qed

theorem contains_relationship_or_hangs_witness:
  "\<exists>hf G a b. hf_abs hf G \<and> contains_relationship_from_to hf a b OUTGOING True = None \<and>
    (\<exists>r hf'. contains_relationship_from_to hf a b BOTH True = Some (Some r, hf') \<and> edge_of r = (b, a, 7, 1))"
proof -
  obtain db fs pc hf where d: "phy_database_create Map.empty ''db'' ''log'' = Some (db, fs)" "page_cache_create (\<lambda>_ _. 0) db 13 ''log'' = Some pc"
    "heap_file_create pc ''log'' = Some hf" "hf_inv hf" "hf_counts hf" "hf_room (Suc (Suc (Suc (Suc (Suc 0))))) hf" "hf_nodes hf = Map.empty" "hf_rels hf = Map.empty"
    by (rule new_database [of 13 "Suc (Suc (Suc (Suc (Suc 0))))" "''db''" "''log''" "\<lambda>_ _. 0"]) auto
  obtain a h1 where 1: "hf_room (Suc (Suc (Suc (Suc 0)))) h1" "hf_abs h1 (empty_graph\<lparr>g_labels := [a \<mapsto> 1]\<rparr>)"
    using create_node_step [OF empty_abs [OF d(4,5,7,8)] d(6), of 1 True] by (auto simp: ULONG_RANGE_def empty_graph_def)
  obtain b h2 where 2: "hf_room (Suc (Suc (Suc 0))) h2" "hf_abs h2 (empty_graph\<lparr>g_labels := [a \<mapsto> 1, b \<mapsto> 2]\<rparr>)" "a \<noteq> b"
    using create_node_step [OF 1(2,1), of 2 True] by (auto simp: ULONG_RANGE_def split: if_splits)
  obtain i h3 where 3: "hf_room (Suc (Suc 0)) h3" "hf_abs h3 (empty_graph\<lparr>g_labels := [a \<mapsto> 1, b \<mapsto> 2], g_edges := [(i, b, a, 7, 1)]\<rparr>)"
    using create_relationship_step [OF 2(2,1), of b a 7 1 True] 2(3) by (auto simp: ULONG_RANGE_def double_eq_def UNINITIALIZED_WEIGHT_def empty_graph_def)
  obtain j h4 where 4: "hf_room (Suc 0) h4" "hf_abs h4 (empty_graph\<lparr>g_labels := [a \<mapsto> 1, b \<mapsto> 2], g_edges := [(i, b, a, 7, 1), (j, a, a, 7, 1)]\<rparr>)"
    using create_relationship_step [OF 3(2,1), of a a 7 1 True] 2(3) by (auto simp: ULONG_RANGE_def double_eq_def UNINITIALIZED_WEIGHT_def empty_graph_def)
  obtain k h5 where 5: "hf_abs h5 (empty_graph\<lparr>g_labels := [a \<mapsto> 1, b \<mapsto> 2], g_edges := [(i, b, a, 7, 1), (j, a, a, 7, 1), (k, a, a, 7, 1)]\<rparr>)"
    using create_relationship_step [OF 4(2,1), of a a 7 1 True] 2(3) by (auto simp: ULONG_RANGE_def double_eq_def UNINITIALIZED_WEIGHT_def empty_graph_def)
  have "contains_relationship_from_to h5 a b OUTGOING True = None"
    using contains_relationship_or_hangs [OF 5, of a b OUTGOING True] 2(3) by (simp add: Let_def)
  moreover have "\<exists>r hf'. contains_relationship_from_to h5 a b BOTH True = Some (Some r, hf') \<and> edge_of r = (b, a, 7, 1)"
    using contains_relationship_or_hangs [OF 5, of a b BOTH True] 2(3) by (auto simp: Let_def)
  ultimately show ?thesis using 5 by blast
qed

end
