(* ===== verification/Heap_Access.thy ===== *)
theory Heap_Access
  imports Heap_Graph
begin

text \<open>
  The properties of single operations of the heap file: reading and updating records, errors on missing ones,
  the choice of slots for new records, and the search by label.
\<close>

section \<open>Reading and updating\<close>

text \<open>
  C18: A node or relationship that is updated is read back as it was written, and no other record of the heap file
  changes. Nodes are updated as long as their fields are 64 bit values; relationships also need both ends and a weight.
\<close>
theorem update_then_read:
  assumes "hf_inv hf"
  shows "(hf_nodes hf (n_id n) \<noteq> None \<and> node_ok n \<longrightarrow>
      (\<exists>hf1 hf2. update_node hf n log = Some hf1 \<and> read_node hf1 (n_id n) log = Some (n, hf2) \<and>
        hf_nodes hf2 = (hf_nodes hf)(n_id n \<mapsto> n) \<and> hf_rels hf2 = hf_rels hf \<and> hf_inv hf2)) \<and>
    (hf_rels hf (r_id r) \<noteq> None \<and> rel_valid r \<longrightarrow>
      (\<exists>hf1 hf2. update_relationship hf r log = Some hf1 \<and> read_relationship hf1 (r_id r) log = Some (r, hf2) \<and>
        hf_rels hf2 = (hf_rels hf)(r_id r \<mapsto> r) \<and> hf_nodes hf2 = hf_nodes hf \<and> hf_inv hf2))"
proof (intro conjI impI)
  assume n: "hf_nodes hf (n_id n) \<noteq> None \<and> node_ok n"
  obtain hf1 where u: "update_node hf n log = Some hf1" "hf_eff ((hf_nodes hf)(n_id n \<mapsto> n)) (hf_rels hf) hf hf1"
    using update_node_ok [OF assms] n by blast
  note e = hf_effD [OF u(2)]
  obtain hf2 where "read_node hf1 (n_id n) log = Some (n, hf2)" "hf_same hf1 hf2" using read_node_ok [OF e(1), of "n_id n" n log] e(2) by auto
  then show "\<exists>hf1 hf2. update_node hf n log = Some hf1 \<and> read_node hf1 (n_id n) log = Some (n, hf2) \<and>
      hf_nodes hf2 = (hf_nodes hf)(n_id n \<mapsto> n) \<and> hf_rels hf2 = hf_rels hf \<and> hf_inv hf2"
    using u(1) e(2,3) by (intro exI [of _ hf1] exI [of _ hf2]) (simp add: hf_eff_def)
next
  assume r: "hf_rels hf (r_id r) \<noteq> None \<and> rel_valid r"
  obtain hf1 where u: "update_relationship hf r log = Some hf1" "hf_eff (hf_nodes hf) ((hf_rels hf)(r_id r \<mapsto> r)) hf hf1"
    using update_relationship_ok [OF assms] r by blast
  note e = hf_effD [OF u(2)]
  obtain hf2 where "read_relationship hf1 (r_id r) log = Some (r, hf2)" "hf_same hf1 hf2"
    using read_relationship_ok [OF e(1), of "r_id r" r log] e(3) by auto
  then show "\<exists>hf1 hf2. update_relationship hf r log = Some hf1 \<and> read_relationship hf1 (r_id r) log = Some (r, hf2) \<and>
      hf_rels hf2 = (hf_rels hf)(r_id r \<mapsto> r) \<and> hf_nodes hf2 = hf_nodes hf \<and> hf_inv hf2"
    using u(1) e(2,3) by (intro exI [of _ hf1] exI [of _ hf2]) (simp add: hf_eff_def)
qed

text \<open>A heap file with one node that is joined to itself.\<close>

lemma loop_database:
  obtains hf G a i where "heap_rep 3 hf hf G" "g_labels G = [a \<mapsto> 5]" "g_edges G = [(i, a, a, 7, 1)]" "a < UNINITIALIZED_LONG" "i < UNINITIALIZED_LONG"
proof -
  obtain db fs pc hf where d: "phy_database_create Map.empty ''db'' ''log'' = Some (db, fs)" "page_cache_create (\<lambda>_ _. 0) db 13 ''log'' = Some pc"
    "heap_file_create pc ''log'' = Some hf" "hf_inv hf" "hf_counts hf" "hf_room (Suc (Suc 3)) hf" "hf_nodes hf = Map.empty" "hf_rels hf = Map.empty"
    by (rule new_database [of 13 "Suc (Suc 3)" "''db''" "''log''" "\<lambda>_ _. 0"]) auto
  obtain a h1 where 1: "hf_room (Suc 3) h1" "hf_abs h1 (empty_graph\<lparr>g_labels := [a \<mapsto> 5]\<rparr>)" "a < UNINITIALIZED_LONG"
    using create_node_step [OF empty_abs [OF d(4,5,7,8)] d(6), of 5 True] by (auto simp: ULONG_RANGE_def empty_graph_def)
  obtain i h2 where 2: "hf_room 3 h2" "hf_abs h2 (empty_graph\<lparr>g_labels := [a \<mapsto> 5], g_edges := [(i, a, a, 7, 1)]\<rparr>)" "i < UNINITIALIZED_LONG"
    using create_relationship_step [OF 1(2,1), of a a 7 1 True] by (auto simp: ULONG_RANGE_def double_eq_def UNINITIALIZED_WEIGHT_def empty_graph_def)
  show ?thesis by (rule that [of h2 "empty_graph\<lparr>g_labels := [a \<mapsto> 5], g_edges := [(i, a, a, 7, 1)]\<rparr>" a i])
    (use 1(3) 2 in \<open>simp_all add: heap_rep_def\<close>)
qed

text \<open>A heap file with a relationship from one node to another.\<close>

lemma pair_database:
  obtains hf G a b i where "hf_abs hf G" "a \<noteq> b" "g_labels G = [a \<mapsto> 5, b \<mapsto> 6]" "g_edges G = [(i, a, b, 7, 1)]"
proof -
  obtain db fs pc hf where d: "phy_database_create Map.empty ''db'' ''log'' = Some (db, fs)" "page_cache_create (\<lambda>_ _. 0) db 13 ''log'' = Some pc"
    "heap_file_create pc ''log'' = Some hf" "hf_inv hf" "hf_counts hf" "hf_room (Suc (Suc (Suc 0))) hf" "hf_nodes hf = Map.empty" "hf_rels hf = Map.empty"
    by (rule new_database [of 13 "Suc (Suc (Suc 0))" "''db''" "''log''" "\<lambda>_ _. 0"]) auto
  obtain a h1 where 1: "hf_room (Suc (Suc 0)) h1" "hf_abs h1 (empty_graph\<lparr>g_labels := [a \<mapsto> 5]\<rparr>)"
    using create_node_step [OF empty_abs [OF d(4,5,7,8)] d(6), of 5 True] by (auto simp: ULONG_RANGE_def empty_graph_def)
  obtain b h2 where 2: "hf_room (Suc 0) h2" "b \<noteq> a" "hf_abs h2 (empty_graph\<lparr>g_labels := [a \<mapsto> 5, b \<mapsto> 6]\<rparr>)"
    using create_node_step [OF 1(2,1), of 6 True] by (auto simp: ULONG_RANGE_def empty_graph_def split: if_splits)
  obtain i h3 where 3: "hf_abs h3 (empty_graph\<lparr>g_labels := [a \<mapsto> 5, b \<mapsto> 6], g_edges := [(i, a, b, 7, 1)]\<rparr>)"
    using create_relationship_step [OF 2(3,1), of a b 7 1 True] 2(2) by (auto simp: ULONG_RANGE_def double_eq_def UNINITIALIZED_WEIGHT_def empty_graph_def)
  show ?thesis by (rule that [of h3 "empty_graph\<lparr>g_labels := [a \<mapsto> 5, b \<mapsto> 6], g_edges := [(i, a, b, 7, 1)]\<rparr>" a b i]) (use 2(2) 3 in simp_all)
qed

theorem update_then_read_witness:
  "\<exists>hf n r hf1 hf2 hf3 hf4. hf_inv hf \<and> n_label n = 42 \<and> r_label r = 43 \<and> update_node hf n True = Some hf1 \<and> read_node hf1 (n_id n) True = Some (n, hf2) \<and>
    update_relationship hf r True = Some hf3 \<and> read_relationship hf3 (r_id r) True = Some (r, hf4)"
proof -
  obtain hf G a i where g: "heap_rep 3 hf hf G" "g_labels G = [a \<mapsto> 5]" "g_edges G = [(i, a, a, 7, 1)]" by (rule loop_database)
  have h: "hf_abs hf G" "hf_inv hf" "graph_ok (hf_nodes hf) (hf_rels hf) (chain_at (g_edges G))"
    using g(1) by (simp_all add: heap_rep_def hf_abs_def hf_graph_def)
  obtain n where n: "hf_nodes hf a = Some n" using hf_abs_node [OF h(1), of a] g(2) by auto
  obtain r where r: "hf_rels hf i = Some r" using hf_abs_rel [OF h(1), of i] g(3) by auto
  let ?n = "n\<lparr>n_label := 42\<rparr>" and ?r = "r\<lparr>r_label := 43\<rparr>"
  have "node_ok ?n" "n_id ?n = a" "rel_valid ?r" "r_id ?r = i"
    using graph_ok_node(1,2) [OF h(3) n] graph_ok_rel(1,2) [OF h(3) r] by (simp_all add: node_ok_def rel_valid_def rel_ok_def ULONG_RANGE_def)
  then obtain hf1 hf2 hf3 hf4 where "update_node hf ?n True = Some hf1" "read_node hf1 (n_id ?n) True = Some (?n, hf2)"
    "update_relationship hf ?r True = Some hf3" "read_relationship hf3 (r_id ?r) True = Some (?r, hf4)"
    using update_then_read [OF h(2), of ?n True ?r] n r by auto
  then show ?thesis using h(2) by (intro exI [of _ hf] exI [of _ ?n] exI [of _ ?r] exI [of _ hf1] exI [of _ hf2] exI [of _ hf3] exI [of _ hf4]) simp
qed

section \<open>Missing records\<close>

text \<open>
  C19: Every operation on a record that does not exist ends the program: reading, updating, deleting and expanding a missing node,
  creating a relationship from or to one, and reading, updating and deleting a missing relationship.
\<close>
theorem missing_record_exits:
  assumes "hf_inv hf" "hf_room (Suc k) hf" "hf_nodes hf i = None" "hf_rels hf j = None" "n_id n = i" "r_id r = j"
  shows "read_node hf i log = None \<and> update_node hf n log = None \<and> delete_node hf i log = None \<and> expand hf i d log = None \<and>
    create_relationship hf i b w l log = None \<and> create_relationship hf a i w l log = None \<and>
    read_relationship hf j log = None \<and> update_relationship hf r log = None \<and> delete_relationship hf j log = None"
proof (intro conjI)
  show "read_node hf i log = None" "read_relationship hf j log = None" using read_exit assms(1,3,4) by simp_all
  then show "expand hf i d log = None" "delete_relationship hf j log = None" by (simp_all add: expand_def delete_relationship_def)
  show "update_node hf n log = None" "update_relationship hf r log = None" using update_exit assms by simp_all
  show "create_relationship hf i b w l log = None" "create_relationship hf a i w l log = None"
    using create_relationship_exit [OF assms(1,2)] assms(3) by simp_all
  show "delete_node hf i log = None" using read_internal_exit(1) [OF assms(1,3)] by (simp add: delete_node_def)
qed

theorem missing_record_exits_witness:
  "\<exists>hf. hf_inv hf \<and> read_node hf 3 True = None \<and> expand hf 3 BOTH True = None \<and> create_relationship hf 3 3 7 7 True = None \<and> delete_relationship hf 4 True = None"
proof -
  obtain db fs pc hf where d: "hf_inv hf" "hf_room (Suc 0) hf" "hf_nodes hf = Map.empty" "hf_rels hf = Map.empty"
    by (rule new_database [of 13 "Suc 0" "''db''" "''log''" "\<lambda>_ _. 0"]) auto
  from missing_record_exits [OF d(1,2), of 3 4 "new_node\<lparr>n_id := 3\<rparr>" "new_relationship\<lparr>r_id := 4\<rparr>" True BOTH 3 7 7 3] d show ?thesis
    by auto
qed

section \<open>Slots\<close>

text \<open>
  C20: \<^verbatim>\<open>next_free_slots\<close> returns on a consistent heap file with room (\<open>hf_room\<close>): the files can grow by a page
  each, and unless a bulk import is going on, all pages of the database and the new ones fit into the frames of the
  cache. It picks the first free aligned slots at or after the last
  allocated ones, or the first ones of a new page, marks them and no others, and their number is below
  the value that stands for no record.
\<close>
theorem next_free_slots_first_free:
  assumes "hf_inv hf" "hf_room (Suc k) hf"
  shows "\<exists>hf'. next_free_slots hf node log = Some hf' \<and> hf_inv hf' \<and> hf_room k hf' \<and>
    last_alloc hf' node mod rec_slots node = 0 \<and> last_alloc hf' node < UNINITIALIZED_LONG \<and>
    \<not> rec_used (hf_cache hf) node (last_alloc hf' node) \<and>
    (\<forall>j. last_alloc hf node \<le> j \<and> j < last_alloc hf' node \<and> j mod rec_slots node = 0 \<longrightarrow> rec_used (hf_cache hf) node j) \<and>
    dom (hf_nodes hf') = dom (hf_nodes hf) \<union> (if node then {last_alloc hf' node} else {}) \<and>
    dom (hf_rels hf') = dom (hf_rels hf) \<union> (if node then {} else {last_alloc hf' node})"
proof (rule next_free_slots_ok [OF assms, where node = node and log = log])
  fix i hf'
  assume s: "next_free_slots hf node log = Some hf'" "last_alloc hf' node = i" "hf_marked node i hf hf'"
    "i mod rec_slots node = 0" "i < UNINITIALIZED_LONG" "\<not> rec_used (hf_cache hf) node i"
    "\<And>j. last_alloc hf node \<le> j \<Longrightarrow> j < i \<Longrightarrow> j mod rec_slots node = 0 \<Longrightarrow> rec_used (hf_cache hf) node j" "hf_room k hf'"
  have "dom (hf_nodes hf') = dom (hf_nodes hf) \<union> (if node then {i} else {})" "dom (hf_rels hf') = dom (hf_rels hf) \<union> (if node then {} else {i})"
    using s(3) by (auto simp: hf_marked_def split: if_splits)
  then show ?thesis using s hf_marked_def by (intro exI [of _ hf']) auto
qed

theorem next_free_slots_first_free_witness:
  "\<exists>hf hf'. hf_inv hf \<and> next_free_slots hf False True = Some hf' \<and> hf_inv hf' \<and> last_alloc hf' False mod 4 = 0 \<and> last_alloc hf' False < UNINITIALIZED_LONG"
proof -
  obtain db fs pc hf where d: "hf_inv hf" "hf_room (Suc 0) hf"
    by (rule new_database [of 13 "Suc 0" "''db''" "''log''" "\<lambda>_ _. 0"]) auto
  from next_free_slots_first_free [OF d, of False True] d(1) show ?thesis by auto
qed

section \<open>Search by label\<close>

text \<open>
  \<^verbatim>\<open>find_node\<close> and \<^verbatim>\<open>find_relationships\<close> return the record with the smallest id among those with the given label and leave
  the heap file as it was; when there is none they end the program.
\<close>
theorem find_by_label:
  assumes "hf_inv hf"
  shows "(case filter (\<lambda>n. n_label n = label) (hf_node_list hf) of
      [] \<Rightarrow> find_node hf label log = None
    | n # _ \<Rightarrow> \<exists>hf'. find_node hf label log = Some (n, hf') \<and> hf_same hf hf') \<and>
    (case filter (\<lambda>r. r_label r = label) (hf_rel_list hf) of
      [] \<Rightarrow> find_relationships hf label log = None
    | r # _ \<Rightarrow> \<exists>hf'. find_relationships hf label log = Some (r, hf') \<and> hf_same hf hf')"
  unfolding find_node_def find_relationships_def hf_node_list_def hf_rel_list_def
  using find_node_loop_ok [OF scan_start [OF assms], of label log, unfolded div_0 mod_0]
    find_relationships_loop_ok [OF scan_start [OF assms], of label log, unfolded div_0 mod_0] by (rule conjI)

theorem find_by_label_witness:
  "\<exists>hf n hf'. hf_inv hf \<and> find_node hf 5 True = Some (n, hf') \<and> n_label n = 5 \<and> find_node hf 6 True = None"
proof -
  obtain hf G a i where g: "heap_rep 3 hf hf G" "g_labels G = [a \<mapsto> 5]" "g_edges G = [(i, a, a, 7, 1)]" by (rule loop_database)
  have h: "hf_abs hf G" "hf_inv hf" using g(1) by (simp_all add: heap_rep_def hf_abs_def hf_graph_def)
  obtain n where n: "hf_nodes hf a = Some n" using hf_abs_node [OF h(1), of a] g(2) by auto
  have "hf_labels hf = [a \<mapsto> 5]" using h(1) g(2) by (simp add: hf_abs_def)
  then have "map_option n_label (hf_nodes hf x) = (if x = a then Some 5 else None)" for x by (auto simp: hf_labels_def fun_eq_iff)
  then have r: "ran (hf_nodes hf) = {n}" "n_label n = 5" using n by (auto simp: ran_def split: if_splits) (metis map_option_eq_Some option.distinct(1) option.inject)+
  have s: "set (hf_node_list hf) = {n}" unfolding hf_node_list_def scan_list_all(1) [OF hf_dom(1) [OF h(2)]] by (rule r(1))
  then have f: "filter (\<lambda>n. n_label n = 6) (hf_node_list hf) = []" "filter (\<lambda>n. n_label n = 5) (hf_node_list hf) = hf_node_list hf" "hf_node_list hf \<noteq> []"
    using r(2) by (auto simp: filter_empty_conv filter_id_conv)
  then obtain ys where "hf_node_list hf = n # ys" using s by (cases "hf_node_list hf") auto
  then show ?thesis using find_by_label [OF h(2), of 5 True] find_by_label [OF h(2), of 6 True] f h(2) r(2) by auto
qed

end
