(* ===== verification/Doubles.thy ===== *)
theory Doubles
  imports Records
begin

text \<open>
  The arithmetic of IEEE 754 doubles that the queries use, on bit patterns: addition with rounding to the
  nearest value, ties to even, and comparison. A finite double is a multiple of \<open>2\<^sup>-\<^sup>1\<^sup>0\<^sup>7\<^sup>4\<close>, so sums are exact on
  integers before they are rounded. For numbers that are not negative, the order of the values is the
  order of the bit patterns, addition is monotone and does not decrease.
\<close>

section \<open>Values\<close>

definition double_inf :: double_bits where
  "double_inf = 0x7FF0000000000000"

definition DBL_MAX :: double_bits where
  "DBL_MAX = 0x7FEFFFFFFFFFFFFF"

definition double_nan :: double_bits where
  "double_nan = 0x7FF8000000000000"

definition double_neg :: "double_bits \<Rightarrow> bool" where
  "double_neg b \<longleftrightarrow> b div 2 ^ 63 mod 2 = 1"

text \<open>The absolute value in units of the smallest subnormal number.\<close>

definition double_mag :: "double_bits \<Rightarrow> nat" where
  "double_mag b = (let e = b div 2 ^ 52 mod 2 ^ 11; f = b mod 2 ^ 52 in if e = 0 then f else (2 ^ 52 + f) * 2 ^ (e - 1))"

definition double_int :: "double_bits \<Rightarrow> int" where
  "double_int b = (if double_neg b then - int (double_mag b) else int (double_mag b))"

section \<open>Rounding\<close>

fun bit_len :: "nat \<Rightarrow> nat" where
  "bit_len n = (if n = 0 then 0 else Suc (bit_len (n div 2)))"

declare bit_len.simps [simp del]

text \<open>Division by a power of two, rounded to the nearest number, ties to even.\<close>

definition round_div :: "nat \<Rightarrow> nat \<Rightarrow> nat" where
  "round_div n k = n div 2 ^ k + (if 2 ^ k < 2 * (n mod 2 ^ k) \<or> 2 ^ k = 2 * (n mod 2 ^ k) \<and> odd (n div 2 ^ k) then 1 else 0)"

definition round_mag :: "nat \<Rightarrow> double_bits" where
  "round_mag n = (let k = bit_len n - 53 in min double_inf (k * 2 ^ 52 + round_div n k))"

definition double_add :: "double_bits \<Rightarrow> double_bits \<Rightarrow> double_bits" where
  "double_add a b =
    (if is_nan a \<or> is_nan b then double_nan
     else if a mod 2 ^ 63 = double_inf then (if b mod 2 ^ 63 = double_inf \<and> double_neg a \<noteq> double_neg b then double_nan else a)
     else if b mod 2 ^ 63 = double_inf then b
     else let x = double_int a + double_int b in
       if x = 0 then (if double_neg a \<and> double_neg b then 2 ^ 63 else 0)
       else if x < 0 then 2 ^ 63 + round_mag (nat (- x)) else round_mag (nat x))"

text \<open>Comparison: magnitudes are ordered like their patterns.\<close>

definition double_ord :: "double_bits \<Rightarrow> int" where
  "double_ord b = (if double_neg b then - int (b mod 2 ^ 63) else int (b mod 2 ^ 63))"

definition double_less :: "double_bits \<Rightarrow> double_bits \<Rightarrow> bool" where
  "double_less a b \<longleftrightarrow> \<not> is_nan a \<and> \<not> is_nan b \<and> double_ord a < double_ord b"

section \<open>Laws\<close>

lemma bit_len_bounds: "0 < n \<Longrightarrow> 2 ^ (bit_len n - 1) \<le> n \<and> n < 2 ^ bit_len n"
proof (induction n rule: bit_len.induct)
  case (1 n)
  show ?case
  proof (cases "n div 2 = 0")
    case True
    then have "n = 1" using 1 by linarith
    then show ?thesis by (simp add: bit_len.simps)
  next
    case False
    define m where "m = n div 2"
    have m: "0 < m" "2 * m \<le> n" "n < 2 * m + 2" using False by (auto simp: m_def)
    have b: "2 ^ (bit_len m - 1) \<le> m" "m < 2 ^ bit_len m" using 1 m(1) by (auto simp: m_def)
    have l: "bit_len n = Suc (bit_len m)" using m by (simp add: bit_len.simps [of n] m_def)
    have "bit_len m \<noteq> 0" using m(1) by (simp add: bit_len.simps [of m])
    then have "2 ^ bit_len m = 2 * (2 :: nat) ^ (bit_len m - 1)" by (metis power_eq_if)
    then show ?thesis using b m l by simp
  qed
qed

lemma bit_len_mono:
  assumes "a \<le> b"
  shows "bit_len a \<le> bit_len b"
proof (cases "a = 0")
  case False
  then have "2 ^ (bit_len a - 1) \<le> a" "b < 2 ^ bit_len b" using bit_len_bounds [of a] bit_len_bounds [of b] assms by auto
  then have "2 ^ (bit_len a - 1) < (2 :: nat) ^ bit_len b" using assms by linarith
  then have "bit_len a - 1 < bit_len b" by simp
  then show ?thesis by simp
qed (simp add: bit_len.simps)

lemma bit_len_eq: "2 ^ k \<le> n \<Longrightarrow> n < 2 ^ Suc k \<Longrightarrow> bit_len n = Suc k"
proof -
  assume n: "2 ^ k \<le> n" "n < 2 ^ Suc k"
  have p: "0 < n" using n(1) by (metis less_le_trans zero_less_numeral zero_less_power)
  note b = bit_len_bounds [OF p]
  have "2 ^ k < (2 :: nat) ^ bit_len n" "(2 :: nat) ^ (bit_len n - 1) < 2 ^ Suc k" using n b by linarith+
  then have "k < bit_len n" "bit_len n - 1 < Suc k" by (simp_all del: power_Suc)
  then show ?thesis by simp
qed

lemma round_div_bounds: "n div 2 ^ k \<le> round_div n k" "round_div n k \<le> n div 2 ^ k + 1"
  by (simp_all add: round_div_def)

lemma round_div_mono:
  assumes "a \<le> b"
  shows "round_div a k \<le> round_div b k"
proof (cases "a div 2 ^ k = b div 2 ^ k")
  case True
  have "a mod 2 ^ k \<le> b mod 2 ^ k"
    using assms True div_mult_mod_eq [of a "2 ^ k"] div_mult_mod_eq [of b "2 ^ k"] by simp
  then show ?thesis using True by (auto simp: round_div_def)
next
  case False
  then have "a div 2 ^ k + 1 \<le> b div 2 ^ k" using div_le_mono [OF assms, of "2 ^ k"] by simp
  then show ?thesis using round_div_bounds [of a k] round_div_bounds [of b k] by linarith
qed

lemma round_mag_mono:
  assumes "a \<le> b"
  shows "round_mag a \<le> round_mag b"
proof -
  define k where "k = bit_len a - 53"
  define l where "l = bit_len b - 53"
  have kl: "k \<le> l" using bit_len_mono [OF assms] by (simp add: k_def l_def)
  have "k * 2 ^ 52 + round_div a k \<le> l * 2 ^ 52 + round_div b l"
  proof (cases "k = l")
    case True
    then show ?thesis using round_div_mono [OF assms] by simp
  next
    case False
    then have l: "k < l" using kl by simp
    have "a < 2 ^ (k + 53)"
    proof (cases "a = 0")
      case False
      then have "a < 2 ^ bit_len a" using bit_len_bounds by simp
      also have "\<dots> \<le> 2 ^ (k + 53)" by (rule power_increasing) (simp_all add: k_def)
      finally show ?thesis .
    qed simp
    then have "a div 2 ^ k < 2 ^ 53" by (simp add: power_add less_mult_imp_div_less mult.commute)
    then have ra: "round_div a k \<le> 2 ^ 53" using round_div_bounds(2) [of a k] by linarith
    have bl: "bit_len b = l + 53" using l by (simp add: l_def)
    then have "2 ^ (l + 52) \<le> b" using bit_len_bounds [of b] by (cases "b = 0") (simp_all add: bit_len.simps [of 0] add.commute)
    then have "2 ^ (l + 52) div 2 ^ l \<le> b div 2 ^ l" by (rule div_le_mono)
    then have rb: "2 ^ 52 \<le> round_div b l" using round_div_bounds(1) [of b l] by (simp add: power_add)
    have "k * 2 ^ 52 + 2 * 2 ^ 52 \<le> l * 2 ^ 52 + (2 :: nat) ^ 52" using l mult_le_mono1 [of "k + 1" l "2 ^ 52"] by simp
    then show ?thesis using ra rb by simp
  qed
  then show ?thesis by (auto simp: round_mag_def Let_def k_def l_def)
qed

text \<open>Finite doubles that are not negative are patterns below that of infinity; rounding gives them back.\<close>

lemma pattern_split:
  assumes "b < double_inf"
  obtains e f where "b = e * 2 ^ 52 + f" "e < 2047" "f < 2 ^ 52" "b div 2 ^ 52 mod 2 ^ 11 = e" "b mod 2 ^ 52 = f"
proof -
  have "b div 2 ^ 52 < 2047" using assms by (simp add: double_inf_def less_mult_imp_div_less)
  then show ?thesis using that [of "b div 2 ^ 52" "b mod 2 ^ 52"] by simp
qed

lemma round_mag_exact:
  assumes "b < double_inf"
  shows "round_mag (double_mag b) = b"
proof -
  obtain e f where b: "b = e * 2 ^ 52 + f" "e < 2047" "f < 2 ^ 52" "b div 2 ^ 52 mod 2 ^ 11 = e" "b mod 2 ^ 52 = f"
    by (rule pattern_split [OF assms])
  show ?thesis
  proof (cases "e = 0")
    case True
    have "bit_len f \<le> bit_len (2 ^ 52)" using b(3) by (intro bit_len_mono) simp
    also have "bit_len (2 ^ 52) = 53" using bit_len_eq [of 52 "2 ^ 52"] by simp
    finally have "bit_len f - 53 = 0" by simp
    then show ?thesis using b True assms by (simp add: double_mag_def Let_def round_mag_def round_div_def)
  next
    case False
    let ?n = "(2 ^ 52 + f) * 2 ^ (e - 1)"
    have l: "2 ^ (52 + (e - 1)) \<le> ?n" by (simp add: power_add)
    have "2 ^ 52 + f < 2 ^ 53" using b(3) by simp
    then have "?n < 2 ^ 53 * 2 ^ (e - 1)" by (rule mult_strict_right_mono) simp
    then have u: "?n < 2 ^ Suc (52 + (e - 1))" by (simp add: power_add)
    have k: "bit_len ?n - 53 = e - 1" using bit_len_eq [OF l u] by simp
    have "round_div ?n (e - 1) = 2 ^ 52 + f" by (simp add: round_div_def)
    moreover have "(e - 1) * 2 ^ 52 + (2 ^ 52 + f) = b" using b(1) False by (cases e) simp_all
    ultimately show ?thesis using b False assms k by (simp add: double_mag_def Let_def round_mag_def)
  qed
qed

lemma double_mag_mono:
  assumes "a \<le> b" "b < double_inf"
  shows "double_mag a \<le> double_mag b"
proof -
  have ai: "a < double_inf" using assms by simp
  obtain e f where a: "a = e * 2 ^ 52 + f" "f < 2 ^ 52" "a div 2 ^ 52 mod 2 ^ 11 = e" "a mod 2 ^ 52 = f" by (rule pattern_split [OF ai])
  obtain e' f' where b: "b = e' * 2 ^ 52 + f'" "f' < 2 ^ 52" "b div 2 ^ 52 mod 2 ^ 11 = e'" "b mod 2 ^ 52 = f'" by (rule pattern_split [OF assms(2)])
  have "e \<le> e'"
  proof (rule ccontr)
    assume "\<not> e \<le> e'"
    then have "(e' + 1) * 2 ^ 52 \<le> e * 2 ^ 52" by (intro mult_le_mono1) simp
    then show False using assms(1) a(1) b(1,2) by simp
  qed
  show ?thesis
  proof (cases "e = e'")
    case True
    then show ?thesis using assms(1) a b by (auto simp: double_mag_def Let_def)
  next
    case False
    then have e: "e < e'" using \<open>e \<le> e'\<close> by simp
    have up: "double_mag a \<le> 2 ^ 52 * 2 ^ (e' - 1)"
    proof (cases "e = 0")
      case True
      then have "double_mag a = f" unfolding double_mag_def Let_def a(3,4) by simp
      moreover have "2 ^ 52 * 1 \<le> 2 ^ 52 * (2 :: nat) ^ (e' - 1)" by (intro mult_left_mono one_le_power) simp_all
      ultimately show ?thesis using a(2) by linarith
    next
      case ne: False
      have "double_mag a \<le> (2 ^ 52 + 2 ^ 52) * 2 ^ (e - 1)"
        using a(2) ne unfolding double_mag_def Let_def a(3,4) by (simp add: mult_right_mono less_imp_le del: mult_2)
      also have "\<dots> = 2 ^ 52 * 2 ^ e" using ne by (cases e) simp_all
      also have "\<dots> \<le> 2 ^ 52 * 2 ^ (e' - 1)" using e by (intro mult_left_mono power_increasing) simp_all
      finally show ?thesis .
    qed
    have "2 ^ 52 * 2 ^ (e' - 1) \<le> double_mag b" using e unfolding double_mag_def Let_def b(3,4) by simp
    then show ?thesis using up by simp
  qed
qed

lemma nonneg_pattern:
  assumes "a \<le> double_inf"
  shows "\<not> is_nan a" "\<not> double_neg a" "a mod 2 ^ 63 = a" "double_ord a = int a" "double_int a = int (double_mag a)"
proof -
  show n: "\<not> double_neg a" "a mod 2 ^ 63 = a" using assms by (simp_all add: double_neg_def double_inf_def)
  then show "double_ord a = int a" "double_int a = int (double_mag a)" by (simp_all add: double_ord_def double_int_def)
  show "\<not> is_nan a"
  proof (cases "a = double_inf")
    case False
    then have "a div 2 ^ 52 < 2047" using assms by (simp add: double_inf_def less_mult_imp_div_less)
    then show ?thesis by (simp add: is_nan_def)
  qed (simp add: is_nan_def double_inf_def)
qed

lemma double_less_nonneg: "a \<le> double_inf \<Longrightarrow> b \<le> double_inf \<Longrightarrow> double_less a b \<longleftrightarrow> a < b"
  using nonneg_pattern [of a] nonneg_pattern [of b] by (simp add: double_less_def)

lemma double_add_nonneg:
  assumes "a \<le> double_inf" "b \<le> double_inf"
  shows "double_add a b = (if a = double_inf \<or> b = double_inf then double_inf else round_mag (double_mag a + double_mag b))"
proof -
  note p = nonneg_pattern [OF assms(1)] nonneg_pattern [OF assms(2)]
  have "round_mag 0 = 0" by (simp add: round_mag_def round_div_def Let_def bit_len.simps [of 0])
  moreover have "double_int a + double_int b = int (double_mag a + double_mag b)" using p by simp
  ultimately show ?thesis
    unfolding double_add_def Let_def p(3,8) using p(1,2,6,7) nonneg_pattern(2) [OF order_refl] by (simp del: of_nat_add)
qed

lemma double_add_le_inf: "a \<le> double_inf \<Longrightarrow> b \<le> double_inf \<Longrightarrow> double_add a b \<le> double_inf"
  by (simp add: double_add_nonneg round_mag_def Let_def)

lemma double_add_mono:
  assumes "a \<le> a'" "a' \<le> double_inf" "b \<le> double_inf"
  shows "double_add a b \<le> double_add a' b"
proof (cases "a' = double_inf \<or> b = double_inf")
  case True
  then have "double_add a' b = double_inf" using assms by (simp add: double_add_nonneg)
  then show ?thesis using double_add_le_inf assms by (metis order_trans)
next
  case False
  then show ?thesis
    using assms double_mag_mono [of a a'] by (auto simp: double_add_nonneg intro!: round_mag_mono)
qed

lemma double_add_ge:
  assumes "a \<le> double_inf" "b \<le> double_inf"
  shows "a \<le> double_add a b"
proof (cases "a = double_inf \<or> b = double_inf")
  case False
  then have "round_mag (double_mag a) \<le> round_mag (double_mag a + double_mag b)" by (intro round_mag_mono) simp
  then show ?thesis using False assms round_mag_exact [of a] by (simp add: double_add_nonneg)
qed (use assms in \<open>auto simp: double_add_nonneg\<close>)

text \<open>Sums of small numbers: exact, ties that are rounded down and up to even, and cancellation.\<close>

lemmas double_add_eval = double_add_def is_nan_def double_inf_def double_neg_def double_int_def double_mag_def round_mag_def round_div_def Let_def bit_len.simps

lemma double_add_examples:
  "double_add 0x0010000000000000 0x0010000000000000 = 0x0020000000000000"
  "double_add 0x0020000000000000 1 = 0x0020000000000000" "double_add 0x0020000000000000 3 = 0x0020000000000002"
  "double_add 0x0020000000000000 0x8020000000000000 = 0"
  by (simp_all add: double_add_eval)

end
