(* ===== verification/Singles.thy ===== *)
theory Singles
  imports Doubles
begin

text \<open>
  The arithmetic of IEEE 754 singles that the program uses, on bit patterns: the conversion of counters to \<^verbatim>\<open>float\<close>, the quotient of two
  of them and the conversion to \<^verbatim>\<open>double\<close>. The operands are never negative. A finite single is a multiple of \<open>2\<^sup>-\<^sup>1\<^sup>4\<^sup>9\<close>; results are
  rounded to the nearest value, ties to even. \<open>Single_Rounding\<close> has the laws.
\<close>

type_synonym single_bits = nat

section \<open>Values\<close>

definition single_inf :: single_bits where
  "single_inf = 0x7F800000"

definition single_nan :: single_bits where
  "single_nan = 0x7FC00000"

text \<open>The absolute value in units of the smallest subnormal number.\<close>

definition single_mag :: "single_bits \<Rightarrow> nat" where
  "single_mag b = (let e = b div 2 ^ 23 mod 2 ^ 8; f = b mod 2 ^ 23 in if e = 0 then f else (2 ^ 23 + f) * 2 ^ (e - 1))"

section \<open>Rounding\<close>

text \<open>A quotient rounded to the nearest number, ties to even.\<close>

definition round_ratio :: "nat \<Rightarrow> nat \<Rightarrow> nat" where
  "round_ratio a b = a div b + (if b < 2 * (a mod b) \<or> b = 2 * (a mod b) \<and> odd (a div b) then 1 else 0)"

text \<open>The single nearest to \<open>a / b\<close> smallest subnormal numbers.\<close>

definition single_ratio :: "nat \<Rightarrow> nat \<Rightarrow> single_bits" where
  "single_ratio a b = (let k = bit_len (a div b) - 24 in min single_inf (k * 2 ^ 23 + round_ratio a (b * 2 ^ k)))"

definition single_of_nat :: "nat \<Rightarrow> single_bits" where
  "single_of_nat n = single_ratio (n * 2 ^ 149) 1"

text \<open>Division of numbers that are finite and not negative.\<close>

definition single_div :: "single_bits \<Rightarrow> single_bits \<Rightarrow> single_bits" where
  "single_div a b =
    (if single_mag b = 0 then if single_mag a = 0 then single_nan else single_inf
     else single_ratio (single_mag a * 2 ^ 149) (single_mag b))"

text \<open>The conversions to \<^verbatim>\<open>double\<close>; the one of a single is exact.\<close>

definition double_of_nat :: "nat \<Rightarrow> double_bits" where
  "double_of_nat n = round_mag (n * 2 ^ 1074)"

definition double_of_single :: "single_bits \<Rightarrow> double_bits" where
  "double_of_single b =
    (if b > single_inf then double_nan else if b = single_inf then double_inf else round_mag (single_mag b * 2 ^ 925))"

text \<open>A number rounded to \<open>p\<close> significant bits.\<close>

definition round_bits :: "nat \<Rightarrow> nat \<Rightarrow> nat" where
  "round_bits p n = (let k = bit_len n - p in round_div n k * 2 ^ k)"

end
