(* ===== verification/Queries.thy ===== *)
theory Queries
  imports Heap_Lookup Singles
begin

text \<open>
  The queries of \<^verbatim>\<open>src/query\<close> that need no priority queue: breadth and depth first search, degrees, random walks, and paths.
  The log file of a query is a list of entries (query, kind of record, id); the numbers of \<^verbatim>\<open>rand\<close> are a
  function of the number of the call. The seeds are those of the hash tables a query creates.
\<close>

type_synonym dict_ul_ul = "(ulong, ulong) htable"
type_synonym query_log = "(string \<times> string \<times> ulong) list"

definition qlog :: "bool \<Rightarrow> string \<Rightarrow> string \<Rightarrow> ulong \<Rightarrow> query_log \<Rightarrow> query_log" where
  "qlog log query kind i tr = (if log then tr @ [(query, kind, i)] else tr)"

section \<open>Results\<close>

record traversal_result =
  tr_source :: ulong
  tr_traversal_numbers :: dict_ul_ul
  tr_parents :: dict_ul_ul

record path =
  p_source :: ulong
  p_target :: ulong
  p_distance :: double_bits
  p_edges :: "ulong array_list"

definition create_traversal_result :: "ulong \<Rightarrow> dict_ul_ul \<Rightarrow> dict_ul_ul \<Rightarrow> traversal_result" where
  "create_traversal_result source_node traversal_numbers parents =
     \<lparr>tr_source = source_node, tr_traversal_numbers = traversal_numbers, tr_parents = parents\<rparr>"

definition create_path :: "ulong \<Rightarrow> ulong \<Rightarrow> double_bits \<Rightarrow> ulong array_list \<Rightarrow> path option" where
  "create_path source_node_id target_node_id distance edges =
    (if source_node_id = UNINITIALIZED_LONG then None
     else Some \<lparr>p_source = source_node_id, p_target = target_node_id, p_distance = distance, p_edges = edges\<rparr>)"

text \<open>The loop of \<^verbatim>\<open>construct_path\<close> from the target back to the source.\<close>

partial_function (option) construct_loop ::
    "heap_file \<Rightarrow> ulong \<Rightarrow> dict_ul_ul \<Rightarrow> bool \<Rightarrow> ulong \<Rightarrow> ulong array_list \<Rightarrow> double_bits \<Rightarrow>
      (ulong array_list \<times> double_bits \<times> heap_file) option" where
  "construct_loop hf source_node_id parents log node_id edges_reverse distance = do {
     parent_id \<leftarrow> ht_get_direct parents node_id;
     edges_reverse \<leftarrow> al_append edges_reverse parent_id;
     (rel, hf) \<leftarrow> read_relationship hf parent_id log;
     let node_id = (if r_target_node rel = node_id then r_source_node rel else r_target_node rel);
     let distance = double_add distance (r_weight rel);
     if node_id \<noteq> source_node_id then construct_loop hf source_node_id parents log node_id edges_reverse distance
     else Some (edges_reverse, distance, hf) }"

definition construct_path :: "heap_file \<Rightarrow> ulong \<Rightarrow> ulong \<Rightarrow> dict_ul_ul \<Rightarrow> bool \<Rightarrow> (path \<times> heap_file) option" where
  "construct_path hf source_node_id target_node_id parents log =
    (if source_node_id = UNINITIALIZED_LONG \<or> target_node_id = UNINITIALIZED_LONG then None
     else do {
       (edges_reverse, distance, hf) \<leftarrow> construct_loop hf source_node_id parents log target_node_id al_ul_create 0;
       edges \<leftarrow> for_each (\<lambda>edges i. do {
           e \<leftarrow> al_get edges_reverse (al_size edges_reverse - i);
           al_append edges e }) al_ul_create [1..<al_size edges_reverse + 1];
       p \<leftarrow> create_path source_node_id target_node_id distance edges;
       Some (p, hf) })"

definition path_extract_step :: "bool \<Rightarrow> ulong array_list \<times> heap_file \<Rightarrow> ulong \<Rightarrow> (ulong array_list \<times> heap_file) option" where
  "path_extract_step log = (\<lambda>(nodes, hf) e. do {
     (rel, hf) \<leftarrow> read_relationship hf e log;
     prev_node \<leftarrow> al_get nodes (al_size nodes - 1);
     if r_source_node rel = prev_node then do { nodes \<leftarrow> al_append nodes (r_target_node rel); Some (nodes, hf) }
     else if r_target_node rel = prev_node then do { nodes \<leftarrow> al_append nodes (r_source_node rel); Some (nodes, hf) }
     else Some (nodes, hf) })"

definition path_extract_vertices :: "path \<Rightarrow> heap_file \<Rightarrow> bool \<Rightarrow> (ulong array_list \<times> heap_file) option" where
  "path_extract_vertices p hf log = do {
     nodes \<leftarrow> al_append al_ul_create (p_source p);
     for_each (\<lambda>s i. do { e \<leftarrow> al_get (p_edges p) i; path_extract_step log s e }) (nodes, hf) [0..<al_size (p_edges p)] }"

section \<open>Breadth and depth first search\<close>

text \<open>
  The two functions differ in the worklist, a queue or a stack, and in the name in the log. Both mark a node when they put it into the
  worklist.
\<close>

definition other_end :: "ulong \<Rightarrow> relationship_t \<Rightarrow> ulong" where
  "other_end node_id rel = (if node_id = r_source_node rel then r_target_node rel else r_source_node rel)"

definition traverse_rel ::
    "string \<Rightarrow> bool \<Rightarrow> ulong \<Rightarrow> dict_ul_ul \<times> dict_ul_ul \<times> ulong llist \<times> query_log \<Rightarrow> relationship_t \<Rightarrow>
      (dict_ul_ul \<times> dict_ul_ul \<times> ulong llist \<times> query_log) option" where
  "traverse_rel name log node_id = (\<lambda>(numbers, parents, work, tr) current_rel. do {
     let tr = qlog log name ''R'' (r_id current_rel) tr;
     let temp = other_end node_id current_rel;
     n \<leftarrow> ht_get_direct numbers temp;
     if n = ULONG_MAX then do {
       n \<leftarrow> ht_get_direct numbers node_id;
       numbers \<leftarrow> ht_insert numbers temp ((n + 1) mod ULONG_RANGE);
       parents \<leftarrow> ht_insert parents temp (r_id current_rel);
       work \<leftarrow> ll_push work temp;
       Some (numbers, parents, work, tr) }
     else Some (numbers, parents, work, tr) })"

partial_function (option) traverse_loop ::
    "(ulong llist \<Rightarrow> (ulong \<times> ulong llist) option) \<Rightarrow> string \<Rightarrow> direction_t \<Rightarrow> bool \<Rightarrow> heap_file \<Rightarrow>
      dict_ul_ul \<Rightarrow> dict_ul_ul \<Rightarrow> ulong llist \<Rightarrow> query_log \<Rightarrow> (dict_ul_ul \<times> dict_ul_ul \<times> ulong llist \<times> query_log \<times> heap_file) option" where
  "traverse_loop pop name direction log hf numbers parents work tr =
    (if ll_size work > 0 then do {
       (node_id, work) \<leftarrow> pop work;
       (current_rels, hf) \<leftarrow> expand hf node_id direction log;
       let tr = qlog log name ''N'' node_id tr;
       (numbers, parents, work, tr) \<leftarrow> for_each (\<lambda>s i. do { rel \<leftarrow> al_get current_rels i; traverse_rel name log node_id s rel })
         (numbers, parents, work, tr) [0..<al_size current_rels];
       traverse_loop pop name direction log hf numbers parents work tr }
     else Some (numbers, parents, work, tr, hf))"

definition init_numbers :: "heap_file \<Rightarrow> dict_ul_ul \<Rightarrow> bool \<Rightarrow> (dict_ul_ul \<times> heap_file) option" where
  "init_numbers hf numbers log = do {
     (nodes, hf) \<leftarrow> get_nodes hf log;
     numbers \<leftarrow> for_each (\<lambda>numbers i. do { n \<leftarrow> al_get nodes i; ht_insert numbers (n_id n) ULONG_MAX }) numbers [0..<unat (hf_n_nodes hf)];
     Some (numbers, hf) }"

definition traverse ::
    "(ulong llist \<Rightarrow> (ulong \<times> ulong llist) option) \<Rightarrow> string \<Rightarrow> nat \<times> nat \<Rightarrow> heap_file \<Rightarrow> ulong \<Rightarrow> direction_t \<Rightarrow> bool \<Rightarrow> query_log \<Rightarrow>
      (traversal_result \<times> heap_file \<times> query_log) option" where
  "traverse pop name seeds hf source_node_id direction log tr =
    (if source_node_id = UNINITIALIZED_LONG then None
     else do {
       let parents = d_ul_ul_create (fst seeds);
       let numbers = d_ul_ul_create (snd seeds);
       (numbers, hf) \<leftarrow> init_numbers hf numbers log;
       work \<leftarrow> ll_push ll_ul_create source_node_id;
       numbers \<leftarrow> ht_insert numbers source_node_id 0;
       (numbers, parents, work, tr, hf) \<leftarrow> traverse_loop pop name direction log hf numbers parents work tr;
       _ \<leftarrow> ll_destroy work;
       Some (create_traversal_result source_node_id numbers parents, hf, tr) })"

definition bfs :: "nat \<times> nat \<Rightarrow> heap_file \<Rightarrow> ulong \<Rightarrow> direction_t \<Rightarrow> bool \<Rightarrow> query_log \<Rightarrow> (traversal_result \<times> heap_file \<times> query_log) option" where
  "bfs seeds hf source_node_id direction log log_file = traverse queue_pop ''bfs'' seeds hf source_node_id direction log log_file"

definition dfs :: "nat \<times> nat \<Rightarrow> heap_file \<Rightarrow> ulong \<Rightarrow> direction_t \<Rightarrow> bool \<Rightarrow> query_log \<Rightarrow> (traversal_result \<times> heap_file \<times> query_log) option" where
  "dfs seeds hf source_node_id direction log log_file = traverse stack_pop ''dfs'' seeds hf source_node_id direction log log_file"

section \<open>Degrees\<close>

text \<open>
  The degree queries take a log file that may be \<^verbatim>\<open>NULL\<close>, here \<open>None\<close>; then nothing is logged. (The other queries
  do not test the pointer: with \<^verbatim>\<open>log\<close> set their log file has to be open.)
\<close>

type_synonym log_file = "query_log option"

definition flog :: "bool \<Rightarrow> string \<Rightarrow> string \<Rightarrow> ulong \<Rightarrow> log_file \<Rightarrow> log_file" where
  "flog log query kind i log_file = map_option (qlog log query kind i) log_file"

definition log_rels :: "bool \<Rightarrow> string \<Rightarrow> relationship_t array_list \<Rightarrow> log_file \<Rightarrow> log_file option" where
  "log_rels log name rels log_file =
    (if log \<and> log_file \<noteq> None
     then for_each (\<lambda>log_file i. do { r \<leftarrow> al_get rels i; Some (flog log name ''R '' (r_id r) log_file) }) log_file [0..<al_size rels]
     else Some log_file)"

definition get_degree :: "heap_file \<Rightarrow> ulong \<Rightarrow> direction_t \<Rightarrow> bool \<Rightarrow> log_file \<Rightarrow> (nat \<times> heap_file \<times> log_file) option" where
  "get_degree hf node_id direction log log_file =
    (if node_id = UNINITIALIZED_LONG then None
     else do {
       let log_file = flog log ''get_degree'' ''N '' node_id log_file;
       (rels, hf) \<leftarrow> expand hf node_id direction log;
       let degree = al_size rels;
       log_file \<leftarrow> log_rels log ''get_degree'' rels log_file;
       Some (degree, hf, log_file) })"

text \<open>
  The average degree is the quotient of two numbers converted to single precision, the result a bit pattern. The
  log has the position of a node in the list and not its id.
\<close>

definition get_avg_degree :: "heap_file \<Rightarrow> direction_t \<Rightarrow> bool \<Rightarrow> log_file \<Rightarrow> (single_bits \<times> heap_file \<times> log_file) option" where
  "get_avg_degree hf direction log log_file = do {
     (nodes, hf) \<leftarrow> get_nodes hf log;
     let num_nodes = al_size nodes;
     (total_degree, hf, log_file) \<leftarrow> for_each (\<lambda>(total_degree, hf, log_file) i. do {
         n \<leftarrow> al_get nodes i;
         (rels, hf) \<leftarrow> expand hf (n_id n) direction log;
         let total_degree = (total_degree + al_size rels) mod ULONG_RANGE;
         let log_file = flog log ''get_avg_degree'' ''N '' i log_file;
         log_file \<leftarrow> log_rels log ''get_avg_degree'' rels log_file;
         Some (total_degree, hf, log_file) }) (0, hf, log_file) [0..<num_nodes];
     Some (single_div (single_of_nat total_degree) (single_of_nat num_nodes), hf, log_file) }"

definition get_min_degree :: "heap_file \<Rightarrow> direction_t \<Rightarrow> bool \<Rightarrow> log_file \<Rightarrow> (nat \<times> heap_file \<times> log_file) option" where
  "get_min_degree hf direction log log_file = do {
     (nodes, hf) \<leftarrow> get_nodes hf log;
     let num_nodes = al_size nodes;
     for_each (\<lambda>(min_degree, hf, log_file) i. do {
         n \<leftarrow> al_get nodes i;
         (degree, hf, log_file) \<leftarrow> get_degree hf (n_id n) direction log log_file;
         Some (if degree < min_degree then degree else min_degree, hf, log_file) }) (ULONG_MAX, hf, log_file) [0..<num_nodes] }"

definition get_max_degree :: "heap_file \<Rightarrow> direction_t \<Rightarrow> bool \<Rightarrow> log_file \<Rightarrow> (nat \<times> heap_file \<times> log_file) option" where
  "get_max_degree hf direction log log_file = do {
     (nodes, hf) \<leftarrow> get_nodes hf log;
     let num_nodes = al_size nodes;
     for_each (\<lambda>(max_degree, hf, log_file) i. do {
         n \<leftarrow> al_get nodes i;
         (degree, hf, log_file) \<leftarrow> get_degree hf (n_id n) direction log log_file;
         Some (if degree > max_degree then degree else max_degree, hf, log_file) }) (0, hf, log_file) [0..<num_nodes] }"

section \<open>Random walks\<close>

fun random_walk_loop ::
    "(nat \<Rightarrow> nat) \<Rightarrow> direction_t \<Rightarrow> bool \<Rightarrow> nat \<Rightarrow> nat \<Rightarrow> heap_file \<Rightarrow> ulong \<Rightarrow> double_bits \<Rightarrow> ulong array_list \<Rightarrow> query_log \<Rightarrow>
      (ulong \<times> double_bits \<times> ulong array_list \<times> heap_file \<times> query_log) option" where
  "random_walk_loop rand direction log 0 i hf current_node distance visited_rels tr = Some (current_node, distance, visited_rels, hf, tr)"
| "random_walk_loop rand direction log (Suc steps) i hf current_node distance visited_rels tr = do {
     (cur_rels, hf) \<leftarrow> expand hf current_node direction log;
     let tr = qlog log ''random_walk'' ''N'' current_node tr;
     if al_size cur_rels = 0 then Some (current_node, distance, visited_rels, hf, tr)
     else do {
       rel \<leftarrow> al_get cur_rels (rand i mod al_size cur_rels);
       let tr = qlog log ''random_walk'' ''R'' (r_id rel) tr;
       visited_rels \<leftarrow> al_append visited_rels (r_id rel);
       let distance = double_add distance (r_weight rel);
       let current_node = (if r_source_node rel = current_node then r_target_node rel else r_source_node rel);
       random_walk_loop rand direction log steps (Suc i) hf current_node distance visited_rels tr } }"

definition random_walk ::
    "(nat \<Rightarrow> nat) \<Rightarrow> heap_file \<Rightarrow> ulong \<Rightarrow> nat \<Rightarrow> direction_t \<Rightarrow> bool \<Rightarrow> query_log \<Rightarrow> (path \<times> heap_file \<times> query_log) option" where
  "random_walk rand hf node_id num_steps direction log tr =
    (if node_id = UNINITIALIZED_LONG then None
     else do {
       (current_node, distance, visited_rels, hf, tr) \<leftarrow> random_walk_loop rand direction log num_steps 0 hf node_id 0 al_ul_create tr;
       p \<leftarrow> create_path node_id current_node distance visited_rels;
       Some (p, hf, tr) })"

end
