(* ===== verification/Graph_Search.thy ===== *)
theory Graph_Search
  imports Heap_Graph
begin

text \<open>
  Searching an abstract graph. The state of a search has the number of every node, with \<^verbatim>\<open>ULONG_MAX\<close> for those not
  discovered yet, the relationship every discovered node was first reached by, and the worklist. Visiting an edge
  of a node discovers its other end. \<open>search_ok\<close> is what every order of the worklist keeps, \<open>level_ok\<close> what a
  queue keeps in addition: the numbers in the queue are those of two neighbouring levels. At the end the first gives the nodes reachable from
  the source and a tree of walks to them, the second that these walks are shortest ones.
\<close>

type_synonym search = "(ulong \<rightharpoonup> ulong) \<times> (ulong \<rightharpoonup> ulong) \<times> ulong list"

fun edge_other :: "ulong \<Rightarrow> ulong \<times> edge \<Rightarrow> ulong" where
  "edge_other u (i, a, b, w, l) = (if u = a then b else a)"

definition out_edges :: "pgraph \<Rightarrow> direction_t \<Rightarrow> ulong \<Rightarrow> (ulong \<times> edge) list" where
  "out_edges G d u = filter (edge_matches u d) (g_edges G)"

text \<open>Walks along the relationships in a direction, with their length.\<close>

inductive walk :: "pgraph \<Rightarrow> direction_t \<Rightarrow> ulong \<Rightarrow> nat \<Rightarrow> ulong \<Rightarrow> bool" for G d s where
  start: "walk G d s 0 s"
| step: "walk G d s k u \<Longrightarrow> e \<in> set (out_edges G d u) \<Longrightarrow> walk G d s (Suc k) (edge_other u e)"

fun visit :: "ulong \<Rightarrow> ulong \<times> edge \<Rightarrow> search \<Rightarrow> search" where
  "visit u e (D, P, q) = (if D (edge_other u e) = Some ULONG_MAX
     then (D(edge_other u e \<mapsto> the (D u) + 1), P(edge_other u e \<mapsto> fst e), q @ [edge_other u e]) else (D, P, q))"

definition seen :: "(ulong \<rightharpoonup> ulong) \<Rightarrow> ulong set" where
  "seen D = {v. \<exists>k. D v = Some k \<and> k \<noteq> ULONG_MAX}"

definition ends_ok :: "pgraph \<Rightarrow> bool" where
  "ends_ok G \<longleftrightarrow> dom (g_labels G) \<subseteq> {..<UNINITIALIZED_LONG} \<and>
     (\<forall>i a b w l. (i, a, b, w, l) \<in> set (g_edges G) \<longrightarrow> a \<in> dom (g_labels G) \<and> b \<in> dom (g_labels G))"

text \<open>Nodes in \<open>X\<close> may have edges that are not visited yet although the node is not in the worklist.\<close>

fun search_ok :: "pgraph \<Rightarrow> direction_t \<Rightarrow> ulong \<Rightarrow> ulong set \<Rightarrow> search \<Rightarrow> bool" where
  "search_ok G d s X (D, P, q) \<longleftrightarrow> dom D = dom (g_labels G) \<and> D s = Some 0 \<and> dom P = seen D - {s} \<and>
     (\<forall>v i. P v = Some i \<longrightarrow> (\<exists>u \<in> seen D. \<exists>e \<in> set (out_edges G d u). fst e = i \<and> edge_other u e = v \<and> D v = Some (the (D u) + 1))) \<and>
     distinct q \<and> set q \<subseteq> seen D \<and> (\<forall>v \<in> seen D. the (D v) < card (seen D)) \<and>
     (\<forall>u \<in> seen D - set q - X. \<forall>e \<in> set (out_edges G d u). edge_other u e \<in> seen D)"

declare search_ok.simps [simp del] visit.simps [simp del]

lemma search_okD:
  assumes "search_ok G d s X (D, P, q)"
  shows "dom D = dom (g_labels G)" "D s = Some 0" "dom P = seen D - {s}" "distinct q" "set q \<subseteq> seen D"
    "v \<in> seen D \<Longrightarrow> the (D v) < card (seen D)"
    "u \<in> seen D \<Longrightarrow> u \<notin> set q \<Longrightarrow> u \<notin> X \<Longrightarrow> e \<in> set (out_edges G d u) \<Longrightarrow> edge_other u e \<in> seen D"
    "s \<in> seen D" "finite (dom (g_labels G)) \<Longrightarrow> finite (seen D)"
proof -
  show "dom D = dom (g_labels G)" "D s = Some 0" "dom P = seen D - {s}" "distinct q" "set q \<subseteq> seen D"
    "v \<in> seen D \<Longrightarrow> the (D v) < card (seen D)"
    "u \<in> seen D \<Longrightarrow> u \<notin> set q \<Longrightarrow> u \<notin> X \<Longrightarrow> e \<in> set (out_edges G d u) \<Longrightarrow> edge_other u e \<in> seen D"
    using assms unfolding search_ok.simps by blast+
  show "s \<in> seen D" using assms by (simp add: search_ok.simps seen_def ULONG_MAX_def)
  have "seen D \<subseteq> dom (g_labels G)" using assms unfolding search_ok.simps seen_def by blast
  then show "finite (dom (g_labels G)) \<Longrightarrow> finite (seen D)" by (rule finite_subset)
qed

lemma search_parent:
  assumes "search_ok G d s X (D, P, q)" "P v = Some i"
  obtains u e where "u \<in> seen D" "e \<in> set (out_edges G d u)" "fst e = i" "edge_other u e = v" "D v = Some (the (D u) + 1)"
  using assms unfolding search_ok.simps by blast

lemma seen_upd: "D v = Some ULONG_MAX \<Longrightarrow> k \<noteq> ULONG_MAX \<Longrightarrow> seen (D(v \<mapsto> k)) = insert v (seen D)"
  by (auto simp: seen_def)

lemma seen_dom: "seen D \<subseteq> dom D"
  by (auto simp: seen_def)

lemma out_edges_ends:
  assumes "ends_ok G" "e \<in> set (out_edges G d u)"
  shows "edge_other u e \<in> dom (g_labels G)" "u \<in> dom (g_labels G)"
proof -
  obtain i a b w l where e: "e = (i, a, b, w, l)" by (cases e)
  then have m: "(i, a, b, w, l) \<in> set (g_edges G)" "a = u \<or> b = u" using assms(2) by (auto simp: out_edges_def)
  then have "a \<in> dom (g_labels G)" "b \<in> dom (g_labels G)" using assms(1) unfolding ends_ok_def by blast+
  with m(2) show "edge_other u e \<in> dom (g_labels G)" "u \<in> dom (g_labels G)" by (auto simp: e)
qed

lemma finite_labels: "ends_ok G \<Longrightarrow> finite (dom (g_labels G))"
  unfolding ends_ok_def by (meson finite_lessThan finite_subset)

lemma seen_card:
  assumes G: "ends_ok G" and D: "dom D = dom (g_labels G)" and v: "D v = Some ULONG_MAX"
  shows "card (seen D) < UNINITIALIZED_LONG"
proof -
  have "v \<in> dom D" "v \<notin> seen D" using v by (auto simp: seen_def)
  then have "card (seen D) < card (dom D)" using finite_labels [OF G] D seen_dom [of D] by (intro psubset_card_mono) auto
  also have "card (dom D) \<le> card {..<UNINITIALIZED_LONG}" using G D by (intro card_mono) (auto simp: ends_ok_def)
  finally show ?thesis by simp
qed

lemma visit_ok:
  assumes G: "ends_ok G" and inv: "search_ok G d s X (D, P, q)" and u: "u \<in> seen D" "u \<in> X" and e: "e \<in> set (out_edges G d u)"
  shows "search_ok G d s X (visit u e (D, P, q))" "edge_other u e \<in> seen (fst (visit u e (D, P, q)))"
    "seen D \<subseteq> seen (fst (visit u e (D, P, q)))" "\<And>v. v \<in> seen D \<Longrightarrow> fst (visit u e (D, P, q)) v = D v"
proof -
  let ?v = "edge_other u e" let ?k = "the (D u) + 1" let ?D = "D(?v \<mapsto> ?k)"
  note i = search_okD [OF inv]
  have vd: "?v \<in> dom D" using out_edges_ends(1) [OF G e] i(1) by simp
  have "search_ok G d s X (visit u e (D, P, q)) \<and> ?v \<in> seen (fst (visit u e (D, P, q))) \<and>
     seen D \<subseteq> seen (fst (visit u e (D, P, q))) \<and> (\<forall>v \<in> seen D. fst (visit u e (D, P, q)) v = D v)"
  proof (cases "D ?v = Some ULONG_MAX")
    case False
    then have "?v \<in> seen D" using vd by (auto simp: seen_def)
    then show ?thesis using False inv by (simp add: visit.simps)
  next
    case True
    have fin: "finite (seen D)" using i(9) finite_labels [OF G] by simp
    have k: "?k \<le> card (seen D)" using i(6) [OF u(1)] by simp
    have "card (seen D) < UNINITIALIZED_LONG" using seen_card [OF G, of D ?v] True i(1) by simp
    then have km: "?k \<noteq> ULONG_MAX" using k by (simp add: ULONG_MAX_def UNINITIALIZED_LONG_def)
    have V: "seen ?D = insert ?v (seen D)" using seen_upd [of D ?v ?k] True km by blast
    have nv: "?v \<notin> seen D" using True by (auto simp: seen_def)
    then have uv: "u \<noteq> ?v" "s \<noteq> ?v" using u(1) i(8) by metis+
    have "search_ok G d s X (?D, P(?v \<mapsto> fst e), q @ [?v])"
      unfolding search_ok.simps V
    proof (intro conjI)
      show "\<forall>w i. (P(?v \<mapsto> fst e)) w = Some i \<longrightarrow> (\<exists>x \<in> insert ?v (seen D). \<exists>e' \<in> set (out_edges G d x). fst e' = i \<and> edge_other x e' = w \<and> ?D w = Some (the (?D x) + 1))"
      proof (intro allI impI)
        fix w i assume w: "(P(?v \<mapsto> fst e)) w = Some i"
        show "\<exists>x \<in> insert ?v (seen D). \<exists>e' \<in> set (out_edges G d x). fst e' = i \<and> edge_other x e' = w \<and> ?D w = Some (the (?D x) + 1)"
        proof (cases "w = ?v")
          case True
          then show ?thesis using w u(1) e uv(1) by (intro bexI [of _ u] bexI [of _ e]) simp_all
        next
          case False
          then have "P w = Some i" using w by simp
          then obtain x e' where x: "x \<in> seen D" "e' \<in> set (out_edges G d x)" "fst e' = i" "edge_other x e' = w" "D w = Some (the (D x) + 1)"
            by (rule search_parent [OF inv])
          then have "x \<noteq> ?v" using nv by blast
          then show ?thesis using x False by (intro bexI [of _ x] bexI [of _ e']) simp_all
        qed
      qed
      show "\<forall>w \<in> insert ?v (seen D). the (?D w) < card (insert ?v (seen D))"
        using i(6) nv fin k by (auto simp: less_Suc_eq)
      show "\<forall>x \<in> insert ?v (seen D) - set (q @ [?v]) - X. \<forall>e \<in> set (out_edges G d x). edge_other x e \<in> insert ?v (seen D)"
        using i(7) by simp
      show "set (q @ [?v]) \<subseteq> insert ?v (seen D)" "distinct (q @ [?v])" using i(4,5) nv by auto
      show "dom (P(?v \<mapsto> fst e)) = insert ?v (seen D) - {s}" "dom ?D = dom (g_labels G)" "?D s = Some 0" using i(1-3) vd uv(2) by auto
    qed
    moreover have "\<forall>v \<in> seen D. ?D v = D v" using nv by auto
    ultimately show ?thesis using True V by (auto simp: visit.simps)
  qed
  then show "search_ok G d s X (visit u e (D, P, q))" "?v \<in> seen (fst (visit u e (D, P, q)))"
    "seen D \<subseteq> seen (fst (visit u e (D, P, q)))" "\<And>v. v \<in> seen D \<Longrightarrow> fst (visit u e (D, P, q)) v = D v" by blast+
qed

lemma fold_visit_ok:
  assumes G: "ends_ok G" and inv: "search_ok G d s X (D, P, q)" and u: "u \<in> seen D" "u \<in> X" and es: "set es \<subseteq> set (out_edges G d u)"
    and r: "fold (visit u) es (D, P, q) = (D', P', q')"
  shows "search_ok G d s X (D', P', q')" "\<forall>e \<in> set es. edge_other u e \<in> seen D'" "seen D \<subseteq> seen D'" "\<forall>v \<in> seen D. D' v = D v"
proof -
  have "search_ok G d s X (D', P', q') \<and> (\<forall>e \<in> set es. edge_other u e \<in> seen D') \<and> seen D \<subseteq> seen D' \<and> (\<forall>v \<in> seen D. D' v = D v)"
    using inv u(1) es r
  proof (induction es arbitrary: D P q)
    case (Cons e es)
    obtain D1 P1 q1 where v: "visit u e (D, P, q) = (D1, P1, q1)" by (cases "visit u e (D, P, q)")
    have e: "e \<in> set (out_edges G d u)" using Cons.prems(3) by simp
    note s = visit_ok [OF G Cons.prems(1,2) u(2) e, unfolded v fst_conv]
    have "search_ok G d s X (D', P', q') \<and> (\<forall>e \<in> set es. edge_other u e \<in> seen D') \<and> seen D1 \<subseteq> seen D' \<and> (\<forall>v \<in> seen D1. D' v = D1 v)"
      by (rule Cons.IH [OF s(1)]) (use s(3) Cons.prems(2-4) v in auto)
    then show ?case using s(2-4) by (auto simp: subset_iff)
  qed auto
  then show "search_ok G d s X (D', P', q')" "\<forall>e \<in> set es. edge_other u e \<in> seen D'" "seen D \<subseteq> seen D'" "\<forall>v \<in> seen D. D' v = D v"
    by blast+
qed

text \<open>Taking a node out of the worklist and visiting all its edges.\<close>

lemma process_ok:
  assumes G: "ends_ok G" and inv: "search_ok G d s {} (D, P, q)" and q: "mset q = add_mset u (mset q1)"
    and r: "fold (visit u) (out_edges G d u) (D, P, q1) = (D', P', q')"
  shows "search_ok G d s {} (D', P', q')" "u \<in> seen D" "seen D \<subseteq> seen D'" "\<forall>v \<in> seen D. D' v = D v"
    "\<forall>e \<in> set (out_edges G d u). edge_other u e \<in> seen D'"
proof -
  have sq: "set q = insert u (set q1)" "distinct q1" "u \<notin> set q1"
  proof -
    have "mset q = mset (u # q1)" using q by simp
    then have "set q = set (u # q1)" "distinct (u # q1)" using search_okD(4) [OF inv] by (metis set_mset_mset, metis mset_eq_imp_distinct_iff)
    then show "set q = insert u (set q1)" "distinct q1" "u \<notin> set q1" by simp_all
  qed
  show u: "u \<in> seen D" using search_okD(5) [OF inv] sq(1) by auto
  have i: "search_ok G d s {u} (D, P, q1)" using inv sq unfolding search_ok.simps by auto
  note f = fold_visit_ok [OF G i u _ order_refl r]
  show "seen D \<subseteq> seen D'" "\<forall>v \<in> seen D. D' v = D v" "\<forall>e \<in> set (out_edges G d u). edge_other u e \<in> seen D'" using f(2-4) by simp_all
  show "search_ok G d s {} (D', P', q')" using f(1,2) unfolding search_ok.simps by auto
qed

text \<open>What the search has found when the worklist is empty.\<close>

lemma seen_walk:
  assumes inv: "search_ok G d s X (D, P, q)" and v: "v \<in> seen D"
  shows "walk G d s (the (D v)) v"
  using v
proof (induction "the (D v)" arbitrary: v rule: less_induct)
  case less
  show ?case
  proof (cases "v = s")
    case True
    then show ?thesis using search_okD(2) [OF inv] by (simp add: walk.start)
  next
    case False
    then have "v \<in> dom P" using less.prems search_okD(3) [OF inv] by simp
    then obtain i where i: "P v = Some i" by blast
    obtain u e where u: "u \<in> seen D" "e \<in> set (out_edges G d u)" "edge_other u e = v" "D v = Some (the (D u) + 1)"
      by (rule search_parent [OF inv i])
    have "walk G d s (the (D u)) u" using less.hyps [of u] u by simp
    from walk.step [OF this u(2)] show ?thesis using u(3,4) by simp
  qed
qed

lemma walk_seen:
  assumes inv: "search_ok G d s {} (D, P, [])" and w: "walk G d s k v"
  shows "v \<in> seen D"
  using w
proof induction
  case start
  then show ?case by (rule search_okD(8) [OF inv])
qed (use search_okD(7) [OF inv] in auto)

lemma search_reaches:
  assumes inv: "search_ok G d s {} (D, P, [])"
  shows "v \<in> seen D \<longleftrightarrow> (\<exists>k. walk G d s k v)"
  using seen_walk [OF inv] walk_seen [OF inv] by blast

lemma walk_labels: "ends_ok G \<Longrightarrow> s \<in> dom (g_labels G) \<Longrightarrow> walk G d s k v \<Longrightarrow> v \<in> dom (g_labels G)"
  by (erule walk.cases) (auto dest: out_edges_ends(1))

section \<open>Searching with a queue\<close>

text \<open>
  The numbers along the queue grow by at most one, processed nodes are not above the queue, and the ends of their edges are at most
  one level further. While the edges of \<open>u\<close> are visited, \<open>u\<close> itself is the level.
\<close>

fun level_ok :: "pgraph \<Rightarrow> direction_t \<Rightarrow> search \<Rightarrow> bool" where
  "level_ok G d (D, P, q) \<longleftrightarrow> sorted (map (\<lambda>v. the (D v)) q) \<and>
     (\<forall>v \<in> seen D. \<forall>u \<in> set q. the (D v) \<le> the (D u) + 1) \<and>
     (\<forall>u \<in> seen D - set q. (\<forall>v \<in> set q. the (D u) \<le> the (D v)) \<and> (\<forall>e \<in> set (out_edges G d u). the (D (edge_other u e)) \<le> the (D u) + 1))"

fun level_in :: "pgraph \<Rightarrow> direction_t \<Rightarrow> ulong \<Rightarrow> search \<Rightarrow> bool" where
  "level_in G d u (D, P, q) \<longleftrightarrow> sorted (map (\<lambda>v. the (D v)) q) \<and> (\<forall>v \<in> seen D. the (D v) \<le> the (D u) + 1) \<and>
     (\<forall>w \<in> set q. the (D u) \<le> the (D w)) \<and> (\<forall>w \<in> seen D - set q. the (D w) \<le> the (D u)) \<and>
     (\<forall>w \<in> seen D - set q - {u}. \<forall>e \<in> set (out_edges G d w). the (D (edge_other w e)) \<le> the (D w) + 1)"

declare level_ok.simps [simp del] level_in.simps [simp del]

lemma visit_level:
  assumes G: "ends_ok G" and inv: "search_ok G d s {u} (D, P, q)" and u: "u \<in> seen D" "u \<notin> set q" and e: "e \<in> set (out_edges G d u)"
    and l: "level_in G d u (D, P, q)"
  shows "level_in G d u (visit u e (D, P, q))" "u \<notin> set (snd (snd (visit u e (D, P, q))))"
proof -
  let ?v = "edge_other u e" let ?D = "D(?v \<mapsto> the (D u) + 1)"
  have "level_in G d u (visit u e (D, P, q)) \<and> u \<notin> set (snd (snd (visit u e (D, P, q))))"
  proof (cases "D ?v = Some ULONG_MAX")
    case True
    have nv: "?v \<notin> seen D" using True by (auto simp: seen_def)
    then have uv: "u \<noteq> ?v" using u(1) by metis
    have V: "seen ?D = insert ?v (seen D)"
      using visit_ok(2-4) [OF G inv u(1) _ e] True unfolding visit.simps by (auto simp: seen_def split: if_splits)
    have old: "?D w = D w" if "w \<in> seen D" for w using that nv by auto
    have q: "set q \<subseteq> seen D" "?v \<notin> set q" using search_okD(5) [OF inv] nv by auto
    have oe: "edge_other w e' \<in> seen D" if "w \<in> seen D - set q - {u}" "e' \<in> set (out_edges G d w)" for w e'
      using search_okD(7) [OF inv, of w e'] that by simp
    have "level_in G d u (?D, P(?v \<mapsto> fst e), q @ [?v])"
      unfolding level_in.simps V
    proof (intro conjI ballI)
      have m: "map (\<lambda>v. the (?D v)) (q @ [?v]) = map (\<lambda>v. the (D v)) q @ [the (D u) + 1]" using q old by auto
      have "\<forall>w \<in> set q. the (D w) \<le> the (D u) + 1" using l q by (auto simp: level_in.simps)
      then show "sorted (map (\<lambda>v. the (?D v)) (q @ [?v]))" unfolding m using l by (simp add: sorted_append level_in.simps)
    next
      fix w assume "w \<in> insert ?v (seen D)"
      then show "the (?D w) \<le> the (?D u) + 1" using l uv by (auto simp: level_in.simps)
    next
      fix w assume "w \<in> set (q @ [?v])"
      then show "the (?D u) \<le> the (?D w)" using l uv q by (auto simp: level_in.simps)
    next
      fix w assume "w \<in> insert ?v (seen D) - set (q @ [?v])"
      then show "the (?D w) \<le> the (?D u)" using l uv by (auto simp: level_in.simps)
    next
      fix w e' assume w: "w \<in> insert ?v (seen D) - set (q @ [?v]) - {u}" and e': "e' \<in> set (out_edges G d w)"
      then have w': "w \<in> seen D - set q - {u}" by auto
      show "the (?D (edge_other w e')) \<le> the (?D w) + 1"
        using l w' e' oe [OF w' e'] old unfolding level_in.simps by auto
    qed
    then show ?thesis using True uv u(2) by (simp add: visit.simps)
  qed (use l u in \<open>simp add: visit.simps\<close>)
  then show "level_in G d u (visit u e (D, P, q))" "u \<notin> set (snd (snd (visit u e (D, P, q))))" by simp_all
qed

lemma fold_visit_level:
  assumes "ends_ok G" "search_ok G d s {u} (D, P, q)" "u \<in> seen D" "u \<notin> set q" "set es \<subseteq> set (out_edges G d u)" "level_in G d u (D, P, q)"
  shows "level_in G d u (fold (visit u) es (D, P, q))"
  using assms
proof (induction es arbitrary: D P q)
  case (Cons e es)
  obtain D1 P1 q1 where v: "visit u e (D, P, q) = (D1, P1, q1)" by (cases "visit u e (D, P, q)")
  have e: "e \<in> set (out_edges G d u)" using Cons.prems(5) by simp
  note s = visit_ok [OF Cons.prems(1-3) _ e, unfolded v fst_conv, simplified]
  note l = visit_level [OF Cons.prems(1-4) e Cons.prems(6), unfolded v snd_conv]
  have "level_in G d u (fold (visit u) es (D1, P1, q1))"
    by (rule Cons.IH [OF Cons.prems(1) s(1)]) (use s(3) Cons.prems(3,5) l in auto)
  then show ?case by (simp add: v)
qed simp

lemma process_level:
  assumes G: "ends_ok G" and inv: "search_ok G d s {} (D, P, u # q1)" and l: "level_ok G d (D, P, u # q1)"
    and r: "fold (visit u) (out_edges G d u) (D, P, q1) = (D', P', q')"
  shows "level_ok G d (D', P', q')"
proof -
  have q: "u \<notin> set q1" "u \<in> seen D" using search_okD(4,5) [OF inv] by auto
  have i: "search_ok G d s {u} (D, P, q1)" using inv unfolding search_ok.simps by auto
  have "level_in G d u (D, P, q1)" using l q unfolding level_ok.simps level_in.simps by auto
  then have li: "level_in G d u (D', P', q')" using fold_visit_level [OF G i q(2,1) order_refl] r by simp
  note f = fold_visit_ok [OF G i q(2) _ order_refl r, simplified]
  have "the (D' (edge_other u e)) \<le> the (D' u) + 1" if "e \<in> set (out_edges G d u)" for e
    using li f(2) that unfolding level_in.simps by simp
  note ue = this
  show ?thesis
    unfolding level_ok.simps
  proof (intro conjI ballI)
    show "sorted (map (\<lambda>v. the (D' v)) q')" using li unfolding level_in.simps by blast
  next
    fix v w assume "v \<in> seen D'" "w \<in> set q'"
    then have "the (D' v) \<le> the (D' u) + 1" "the (D' u) \<le> the (D' w)" using li unfolding level_in.simps by blast+
    then show "the (D' v) \<le> the (D' w) + 1" by simp
  next
    fix w v assume "w \<in> seen D' - set q'" "v \<in> set q'"
    then have "the (D' w) \<le> the (D' u)" "the (D' u) \<le> the (D' v)" using li unfolding level_in.simps by blast+
    then show "the (D' w) \<le> the (D' v)" by simp
  next
    fix w e assume "w \<in> seen D' - set q'" "e \<in> set (out_edges G d w)"
    then show "the (D' (edge_other w e)) \<le> the (D' w) + 1"
      using li ue unfolding level_in.simps by (cases "w = u") blast+
  qed
qed

text \<open>The numbers at the end are the lengths of shortest walks.\<close>

lemma level_shortest:
  assumes inv: "search_ok G d s {} (D, P, [])" and l: "level_ok G d (D, P, [])" and w: "walk G d s k v"
  shows "the (D v) \<le> k"
  using w
proof induction
  case (step k u e)
  have "u \<in> seen D" using walk_seen [OF inv] step.hyps(1) by blast
  then have "the (D (edge_other u e)) \<le> the (D u) + 1" using l step.hyps(2) unfolding level_ok.simps by simp
  then show ?case using step.IH by simp
qed (use search_okD(2) [OF inv] in simp)

lemma bfs_numbers:
  assumes inv: "search_ok G d s {} (D, P, [])" and l: "level_ok G d (D, P, [])" and w: "walk G d s k v"
  shows "D v = Some (LEAST k. walk G d s k v)"
proof -
  have v: "v \<in> seen D" by (rule walk_seen [OF inv w])
  have "(LEAST k. walk G d s k v) = the (D v)"
    by (rule Least_equality) (use seen_walk [OF inv v] level_shortest [OF inv l] in blast)+
  then show ?thesis using v by (auto simp: seen_def)
qed

text \<open>The start of a search.\<close>

lemma start_ok:
  assumes "dom D = dom (g_labels G)" "D s = Some 0" "\<And>v k. v \<noteq> s \<Longrightarrow> D v = Some k \<Longrightarrow> k = ULONG_MAX"
  shows "search_ok G d s {} (D, Map.empty, [s])" "level_ok G d (D, Map.empty, [s])"
proof -
  have V: "seen D = {s}" using assms(2,3) by (auto simp: seen_def ULONG_MAX_def)
  show "search_ok G d s {} (D, Map.empty, [s])" using assms(1,2) by (simp add: search_ok.simps V)
  show "level_ok G d (D, Map.empty, [s])" by (simp add: level_ok.simps V)
qed

end
