(* ===== verification/Traversals.thy ===== *)
theory Traversals
  imports Queries Graph_Search Heap_Access
begin

text \<open>
  Breadth and depth first search on the heap file refine the searches of abstract graphs. What they share is proved in the
  locale of worklists: whatever the order in which nodes are taken, the loop ends and finds the
  reachable nodes. A queue takes them in the order they were put in, which gives shortest walks.
\<close>

section \<open>Expanding a node\<close>

lemma expand_abs:
  assumes h: "hf_abs hf G" and n: "g_labels G n \<noteq> None"
  shows "\<exists>l hf'. expand hf n d log = Some (l, hf') \<and> hf_same hf hf' \<and> al_inv l \<and>
    map (\<lambda>r. (r_id r, edge_of r)) (al_list l) = out_edges G d n"
proof -
  have g: "hf_graph hf (chain_at (g_edges G))" using h by (simp add: hf_abs_def)
  obtain nd where "hf_nodes hf n = Some nd" using n hf_abs_node [OF h, of n] by auto
  then obtain l hf' where e: "expand hf n d log = Some (l, hf')" "hf_same hf hf'" "al_inv l"
    "al_list l = map (\<lambda>i. the (hf_rels hf i)) (matching hf n d (chain_at (g_edges G) n))"
    using expand_ok [OF g, of n nd d log] by blast
  show ?thesis
    by (intro exI [of _ l] exI [of _ hf'] conjI e(1-3)) (use matching_edges [OF h n, of d] in \<open>simp only: e(4) out_edges_def\<close>)
qed

lemma abs_ends_ok: "hf_abs hf G \<Longrightarrow> ends_ok G"
  unfolding ends_ok_def
proof (intro conjI allI impI)
  assume h: "hf_abs hf G"
  show "dom (g_labels G) \<subseteq> {..<UNINITIALIZED_LONG}"
    using hf_abs_node [OF h] graph_ok_node(3) [of "hf_nodes hf" "hf_rels hf" "chain_at (g_edges G)"] h
    by (force simp: hf_abs_def hf_graph_def)
  fix i a b w l assume "(i, a, b, w, l) \<in> set (g_edges G)"
  from edge_ends [OF h this] show "a \<in> dom (g_labels G)" "b \<in> dom (g_labels G)" by auto
qed

lemma other_end_edge: "other_end u r = edge_other u (r_id r, edge_of r)"
  by (simp add: other_end_def edge_of_def)

text \<open>A loop over the indices of an array list is a loop over its elements.\<close>

lemma for_each_al:
  assumes "al_inv l"
  shows "for_each (\<lambda>s i. do { x \<leftarrow> al_get l i; f s x }) s [0..<al_size l] = for_each f s (al_list l)"
proof -
  have n: "al_size l = length (al_list l)" by (rule alist.size_law [OF assms])
  have "for_each (\<lambda>s i. do { x \<leftarrow> al_get l i; f s x }) s [0..<k] = for_each f s (take k (al_list l))" if "k \<le> length (al_list l)" for k
    using that
  proof (induction k)
    case (Suc k)
    have "take (Suc k) (al_list l) = take k (al_list l) @ [al_list l ! k]" using Suc.prems by (simp add: take_Suc_conv_app_nth)
    then show ?case using Suc alist.get_law [OF assms, of k] by (simp add: for_each_append split: Option.bind_split)
  qed simp
  then show ?thesis by (simp add: n)
qed

section \<open>Visiting the relationships of a node\<close>

definition represents :: "dict_ul_ul \<times> dict_ul_ul \<times> ulong llist \<times> query_log \<Rightarrow> search \<Rightarrow> bool" where
  "represents s t \<longleftrightarrow> (case s of (numbers, parents, work, tr) \<Rightarrow>
     ht_inv numbers \<and> ht_inv parents \<and> ll_inv work \<and> t = (ht_map numbers, ht_map parents, ll_list work))"

lemma ht_get_direct_eq: "ht_inv t \<Longrightarrow> ht_get_direct t k = ht_map t k"
  by (simp add: ht_get_direct_def htable.get_law)

lemma traverse_rel_ok:
  assumes G: "ends_ok G" and rep: "represents s (D, P, q)" and inv: "search_ok G d src X (D, P, q)" and u: "u \<in> seen D" "u \<in> X"
    and e: "(r_id r, edge_of r) \<in> set (out_edges G d u)"
  shows "\<exists>s'. traverse_rel name log u s r = Some s' \<and> represents s' (visit u (r_id r, edge_of r) (D, P, q))"
proof -
  let ?v = "edge_other u (r_id r, edge_of r)"
  obtain nums pars w tr where s: "s = (nums, pars, w, tr)" by (cases s)
  have c: "ht_inv nums" "ht_inv pars" "ll_inv w" "D = ht_map nums" "P = ht_map pars" "q = ll_list w"
    using rep by (auto simp: represents_def s)
  obtain n where n: "D ?v = Some n" using out_edges_ends(1) [OF G e] search_okD(1) [OF inv] by blast
  show ?thesis
  proof (cases "n = ULONG_MAX")
    case True
    obtain k where k: "D u = Some k" using u(1) by (auto simp: seen_def)
    have "k < card (seen D)" using search_okD(6) [OF inv u(1)] k by simp
    then have km: "(k + 1) mod ULONG_RANGE = the (D u) + 1"
      using seen_card [OF G search_okD(1) [OF inv], of ?v] n True k by (simp add: UNINITIALIZED_LONG_def ULONG_RANGE_def)
    obtain n1 where n1: "ht_insert nums ?v (the (D u) + 1) = Some n1" "ht_inv n1" "ht_map n1 = D(?v \<mapsto> the (D u) + 1)"
      using htable.insert_law [OF c(1)] c(4) by blast
    obtain p1 where p1: "ht_insert pars ?v (r_id r) = Some p1" "ht_inv p1" "ht_map p1 = P(?v \<mapsto> r_id r)"
      using htable.insert_law [OF c(2)] c(5) by blast
    obtain w1 where w1: "ll_push w ?v = Some w1" "ll_inv w1" "ll_list w1 = q @ [?v]"
      using llist.append_law [OF c(3), of ?v] c(6) by (auto simp: ll_push_def)
    have "traverse_rel name log u s r = Some (n1, p1, w1, qlog log name ''R'' (r_id r) tr)"
      using c n k True km n1(1) p1(1) w1(1) by (simp add: traverse_rel_def s Let_def other_end_edge ht_get_direct_eq)
    then show ?thesis using n True n1 p1 w1 by (simp add: represents_def visit.simps)
  next
    case False
    then have "traverse_rel name log u s r = Some (nums, pars, w, qlog log name ''R'' (r_id r) tr)"
      using c n by (simp add: traverse_rel_def s Let_def other_end_edge ht_get_direct_eq)
    then show ?thesis using False n c by (simp add: represents_def visit.simps)
  qed
qed

lemma traverse_rels_ok:
  assumes "ends_ok G" "represents s (D, P, q)" "search_ok G d src {u} (D, P, q)" "u \<in> seen D" "set (map (\<lambda>r. (r_id r, edge_of r)) rs) \<subseteq> set (out_edges G d u)"
  shows "\<exists>s'. for_each (traverse_rel name log u) s rs = Some s' \<and> represents s' (fold (visit u) (map (\<lambda>r. (r_id r, edge_of r)) rs) (D, P, q))"
  using assms
proof (induction rs arbitrary: s D P q)
  case (Cons r rs)
  let ?e = "(r_id r, edge_of r)"
  have e: "?e \<in> set (out_edges G d u)" using Cons.prems(5) by simp
  obtain s1 where s1: "traverse_rel name log u s r = Some s1" "represents s1 (visit u ?e (D, P, q))"
    using traverse_rel_ok [OF Cons.prems(1-4) _ e, of name log] by blast
  obtain D1 P1 q1 where v: "visit u ?e (D, P, q) = (D1, P1, q1)" by (cases "visit u ?e (D, P, q)")
  note ok = visit_ok [OF Cons.prems(1,3,4) _ e, unfolded v fst_conv, simplified]
  have "\<exists>s'. for_each (traverse_rel name log u) s1 rs = Some s' \<and> represents s' (fold (visit u) (map (\<lambda>r. (r_id r, edge_of r)) rs) (D1, P1, q1))"
    by (rule Cons.IH [OF Cons.prems(1) _ ok(1)]) (use s1(2) v ok(3) Cons.prems(4,5) in auto)
  then show ?case using s1(1) v by simp
qed simp

text \<open>Only nodes that were not seen before enter the worklist.\<close>

lemma fold_visit_work:
  assumes "fold (visit u) es (D, P, q) = (D', P', q')"
  shows "set q' \<subseteq> set q \<union> - seen D"
  using assms
proof (induction es arbitrary: D P q)
  case (Cons e es)
  show ?case
  proof (cases "D (edge_other u e) = Some ULONG_MAX")
    case True
    then have "set q' \<subseteq> set (q @ [edge_other u e]) \<union> - seen (D(edge_other u e \<mapsto> the (D u) + 1))"
      by (intro Cons.IH [where P = "P(edge_other u e \<mapsto> fst e)"]) (use Cons.prems in \<open>simp add: visit.simps del: fun_upd_apply\<close>)
    moreover have "edge_other u e \<notin> seen D" using True by (auto simp: seen_def)
    moreover have "v \<in> seen (D(edge_other u e \<mapsto> the (D u) + 1))" if "v \<in> seen D" for v
      using that \<open>edge_other u e \<notin> seen D\<close> by (auto simp: seen_def)
    ultimately show ?thesis by auto
  next
    case False
    then show ?thesis using Cons by (simp add: visit.simps)
  qed
qed simp

section \<open>Worklists\<close>

lemma ll_ul_create_ok: "ll_inv ll_ul_create" "ll_list ll_ul_create = []"
  by (simp_all add: ll_ul_create_def ll_circ_inv)

locale worklist =
  fixes pop :: "ulong llist \<Rightarrow> (ulong \<times> ulong llist) option"
  assumes pop_law: "ll_inv l \<Longrightarrow> ll_list l \<noteq> [] \<Longrightarrow>
    \<exists>x l'. pop l = Some (x, l') \<and> ll_inv l' \<and> mset (ll_list l) = add_mset x (mset (ll_list l'))"
begin

lemma step_progress:
  assumes G: "ends_ok G" and inv: "search_ok G d s {} (D, P, q)" and q: "mset q = add_mset u (mset q1)"
    and r: "fold (visit u) (out_edges G d u) (D, P, q1) = (D', P', q')"
  shows "card (dom (g_labels G) - (seen D' - set q')) < card (dom (g_labels G) - (seen D - set q))"
proof (rule psubset_card_mono)
  note p = process_ok [OF G inv q r]
  have "mset q = mset (u # q1)" using q by simp
  then have sq: "set q = insert u (set q1)" "u \<notin> set q1"
    using search_okD(4) [OF inv] mset_eq_setD [of q "u # q1"] mset_eq_imp_distinct_iff [of q "u # q1"] by auto
  have w: "set q' \<subseteq> set q1 \<union> - seen D" by (rule fold_visit_work [OF r])
  then have "u \<in> seen D' - set q'" "seen D - set q \<subseteq> seen D' - set q'" using p(2,3) sq by auto
  moreover have "u \<in> dom (g_labels G)" using p(2) search_okD(1) [OF inv] by (auto simp: seen_def)
  moreover have "u \<in> set q" using sq(1) by simp
  ultimately show "dom (g_labels G) - (seen D' - set q') \<subset> dom (g_labels G) - (seen D - set q)" by blast
  show "finite (dom (g_labels G) - (seen D - set q))" using G finite_subset by (fastforce simp: ends_ok_def)
qed

text \<open>The loop ends, with everything found, and keeps what every step keeps.\<close>

lemma traverse_loop_ok:
  assumes "hf_abs hf G" "represents (nums, pars, work, tr) (D, P, ll_list work)" "search_ok G d s {} (D, P, ll_list work)" "J (D, P, ll_list work)"
    and J: "\<And>D P l u l' D' P' q'. search_ok G d s {} (D, P, ll_list l) \<Longrightarrow> J (D, P, ll_list l) \<Longrightarrow> ll_inv l \<Longrightarrow> ll_list l \<noteq> [] \<Longrightarrow> pop l = Some (u, l') \<Longrightarrow>
      fold (visit u) (out_edges G d u) (D, P, ll_list l') = (D', P', q') \<Longrightarrow> J (D', P', q')"
  shows "\<exists>nums' pars' work' tr' hf' D' P'. traverse_loop pop name d log hf nums pars work tr = Some (nums', pars', work', tr', hf') \<and>
    hf_same hf hf' \<and> represents (nums', pars', work', tr') (D', P', []) \<and> search_ok G d s {} (D', P', []) \<and> J (D', P', [])"
  using assms(1-4)
proof (induction "card (dom (g_labels G) - (seen D - set (ll_list work)))" arbitrary: hf nums pars work tr D P rule: less_induct)
  case less
  note h = less.prems(1) and inv = less.prems(3)
  have G: "ends_ok G" by (rule abs_ends_ok [OF h])
  have c: "ll_inv work" using less.prems(2) by (simp add: represents_def)
  then have sz: "ll_size work = length (ll_list work)" by (rule llist.size_law)
  show ?case
  proof (cases "ll_list work = []")
    case True
    then have "traverse_loop pop name d log hf nums pars work tr = Some (nums, pars, work, tr, hf)" using sz by (simp add: traverse_loop.simps)
    then show ?thesis using less.prems True hf_abs_inv [OF h] by auto
  next
    case False
    obtain u w1 where p: "pop work = Some (u, w1)" "ll_inv w1" "mset (ll_list work) = add_mset u (mset (ll_list w1))"
      using pop_law [OF c False] by blast
    obtain D' P' q' where r: "fold (visit u) (out_edges G d u) (D, P, ll_list w1) = (D', P', q')"
      by (cases "fold (visit u) (out_edges G d u) (D, P, ll_list w1)")
    note ok = process_ok [OF G inv p(3) r]
    have un: "g_labels G u \<noteq> None" using ok(2) search_okD(1) [OF inv] by (auto simp: seen_def)
    obtain rels hf1 where e: "expand hf u d log = Some (rels, hf1)" "hf_same hf hf1" "al_inv rels"
      "map (\<lambda>r. (r_id r, edge_of r)) (al_list rels) = out_edges G d u"
      using expand_abs [OF h un, of d log] by blast
    have "set (ll_list work) = insert u (set (ll_list w1))" "distinct (ll_list w1)"
      using p(3) search_okD(4) [OF inv] mset_eq_setD [of "ll_list work" "u # ll_list w1"]
        mset_eq_imp_distinct_iff [of "ll_list work" "u # ll_list w1"] by auto
    then have i1: "search_ok G d s {u} (D, P, ll_list w1)" using inv unfolding search_ok.simps by auto
    have r1: "represents (nums, pars, w1, qlog log name ''N'' u tr) (D, P, ll_list w1)"
      using less.prems(2) p(2) by (simp add: represents_def)
    obtain nums1 pars1 w2 tr1 where f: "for_each (traverse_rel name log u) (nums, pars, w1, qlog log name ''N'' u tr) (al_list rels) = Some (nums1, pars1, w2, tr1)"
      "represents (nums1, pars1, w2, tr1) (D', P', q')"
      using traverse_rels_ok [OF G r1 i1 ok(2), of "al_list rels" name log] r e(4) by auto
    have q': "q' = ll_list w2" using f(2) by (simp add: represents_def)
    have step: "traverse_loop pop name d log hf nums pars work tr = traverse_loop pop name d log hf1 nums1 pars1 w2 tr1"
      using False sz p(1) e(1) f(1) by (subst traverse_loop.simps) (simp add: for_each_al [OF e(3)])
    have "\<exists>nums' pars' work' tr' hf' D'' P''. traverse_loop pop name d log hf1 nums1 pars1 w2 tr1 = Some (nums', pars', work', tr', hf') \<and>
      hf_same hf1 hf' \<and> represents (nums', pars', work', tr') (D'', P'', []) \<and> search_ok G d s {} (D'', P'', []) \<and> J (D'', P'', [])"
    proof (rule less.hyps)
      show "card (dom (g_labels G) - (seen D' - set (ll_list w2))) < card (dom (g_labels G) - (seen D - set (ll_list work)))"
        using step_progress [OF G inv p(3) r] q' by simp
      show "J (D', P', ll_list w2)" using J [OF inv less.prems(4) c False p(1) r] q' by simp
    qed (use hf_abs_same [OF h e(2)] f(2) ok(1) q' in simp_all)
    then show ?thesis unfolding step using hf_same_trans [OF e(2)] by blast
  qed
qed

end

interpretation queue_work: worklist queue_pop
proof
  fix l :: "ulong llist" assume "ll_inv l" "ll_list l \<noteq> []"
  then show "\<exists>x l'. queue_pop l = Some (x, l') \<and> ll_inv l' \<and> mset (ll_list l) = add_mset x (mset (ll_list l'))"
    using queue_pop_ok [of l "hd (ll_list l)" "tl (ll_list l)"] by (cases "ll_list l") auto
qed

interpretation stack_work: worklist stack_pop
proof
  fix l :: "ulong llist" assume "ll_inv l" "ll_list l \<noteq> []"
  then show "\<exists>x l'. stack_pop l = Some (x, l') \<and> ll_inv l' \<and> mset (ll_list l) = add_mset x (mset (ll_list l'))"
    using stack_pop_ok [of l "butlast (ll_list l)" "last (ll_list l)"] by (cases "ll_list l" rule: rev_cases) auto
qed

section \<open>The start of a traversal\<close>

lemma get_nodes_abs:
  assumes h: "hf_abs hf G"
  obtains l hf' where "get_nodes hf log = Some (l, hf')" "hf_same hf hf'" "al_inv l"
    "map n_id (al_list l) = sorted_list_of_set (dom (g_labels G))" "unat (hf_n_nodes hf') = al_size l"
proof -
  have inv: "hf_inv hf" and gr: "graph_ok (hf_nodes hf) (hf_rels hf) (chain_at (g_edges G))" and lab: "hf_labels hf = g_labels G"
    using h by (simp_all add: hf_abs_def hf_graph_def)
  obtain l hf' where g: "get_nodes hf log = Some (l, hf')" "hf_same hf hf'" "al_inv l" "al_list l = hf_node_list hf"
    using get_nodes_ok [OF inv] by blast
  have "map (\<lambda>n. (n_id n, n_label n)) (hf_node_list hf) = in_id_order (g_labels G)"
    unfolding hf_node_list_def using scan_list_in_order [OF hf_dom(1) [OF inv], of n_id n_label] graph_ok_node(1) [OF gr] lab
    by (simp add: hf_labels_def)
  then have "map fst (map (\<lambda>n. (n_id n, n_label n)) (hf_node_list hf)) = map fst (in_id_order (g_labels G))" by simp
  then have ids: "map n_id (al_list l) = sorted_list_of_set (dom (g_labels G))" by (simp add: g(4) in_id_order_def comp_def)
  have d: "dom (hf_nodes hf') = dom (g_labels G)" using hf_abs_node [OF hf_abs_same [OF h g(2)]] by (auto simp: dom_def)
  have sub: "dom (g_labels G) \<subseteq> {..<UNINITIALIZED_LONG}" using abs_ends_ok [OF h] by (simp add: ends_ok_def)
  then have "card (dom (g_labels G)) \<le> card {..<UNINITIALIZED_LONG}" by (intro card_mono) simp_all
  then have "card (dom (g_labels G)) < 2 ^ 64" by (simp add: UNINITIALIZED_LONG_def)
  then have "unat (hf_n_nodes hf') = card (dom (g_labels G))"
    using hf_abs_same [OF h g(2)] d by (simp add: hf_abs_def hf_counts_def unat_of_nat)
  moreover have "al_size l = card (dom (g_labels G))"
    using alist.size_law [OF g(3)] arg_cong [OF ids, of length] finite_subset [OF sub] by simp
  ultimately show thesis using that g(1-3) ids by simp
qed

lemma fill_nodes:
  fixes t :: "(ulong, 'v) htable"
  assumes h: "hf_abs hf G" and t: "ht_inv t" "ht_map t = Map.empty"
  shows "\<exists>l t' hf'. get_nodes hf log = Some (l, hf') \<and> hf_same hf hf' \<and>
    for_each (\<lambda>t i. do { n \<leftarrow> al_get l i; ht_insert t (n_id n) c }) t [0..<unat (hf_n_nodes hf')] = Some t' \<and> ht_inv t' \<and>
    ht_map t' = (\<lambda>v. if g_labels G v = None then None else Some c)"
proof -
  obtain l hf' where g: "get_nodes hf log = Some (l, hf')" "hf_same hf hf'" "al_inv l"
    "map n_id (al_list l) = sorted_list_of_set (dom (g_labels G))" "unat (hf_n_nodes hf') = al_size l"
    by (rule get_nodes_abs [OF h])
  have "finite (dom (g_labels G))" using abs_ends_ok [OF h] finite_subset by (fastforce simp: ends_ok_def)
  then have ids: "set (map n_id (al_list l)) = dom (g_labels G)" by (simp only: g(4) set_sorted_list_of_set)
  have "\<exists>t'. for_each (\<lambda>t n. ht_insert t (n_id n) c) t ns = Some t' \<and> ht_inv t' \<and>
      ht_map t' = (\<lambda>v. if v \<in> set (map n_id ns) then Some c else ht_map t v)" if "ht_inv t" for ns and t :: "(ulong, 'v) htable"
    using that
  proof (induction ns arbitrary: t)
    case (Cons n ns)
    obtain t1 where t1: "ht_insert t (n_id n) c = Some t1" "ht_inv t1" "ht_map t1 = (ht_map t)(n_id n \<mapsto> c)"
      using htable.insert_law [OF Cons.prems] by blast
    from Cons.IH [OF t1(2)] show ?case using t1 by (auto simp: fun_eq_iff)
  qed simp
  from this [OF t(1), of "al_list l"] obtain t' where "for_each (\<lambda>t n. ht_insert t (n_id n) c) t (al_list l) = Some t'" "ht_inv t'"
    "ht_map t' = (\<lambda>v. if v \<in> dom (g_labels G) then Some c else None)" using ids t(2) by (auto simp: fun_eq_iff)
  then show ?thesis
    using g(1,2,5) for_each_al [OF g(3), of "\<lambda>t n. ht_insert t (n_id n) c" t] by (auto simp: fun_eq_iff)
qed

lemma init_numbers_ok:
  assumes "hf_abs hf G" "ht_inv t" "ht_map t = Map.empty"
  shows "\<exists>t' hf'. init_numbers hf t log = Some (t', hf') \<and> hf_same hf hf' \<and> ht_inv t' \<and>
    ht_map t' = (\<lambda>v. if g_labels G v = None then None else Some ULONG_MAX)"
  using fill_nodes [OF assms, of log ULONG_MAX] by (auto simp: init_numbers_def)

context worklist
begin

lemma traverse_ok:
  assumes h: "hf_abs hf G" and s: "g_labels G s \<noteq> None"
    and J: "\<And>D P l u l' D' P' q'. search_ok G d s {} (D, P, ll_list l) \<Longrightarrow> J (D, P, ll_list l) \<Longrightarrow> ll_inv l \<Longrightarrow> ll_list l \<noteq> [] \<Longrightarrow> pop l = Some (u, l') \<Longrightarrow>
      fold (visit u) (out_edges G d u) (D, P, ll_list l') = (D', P', q') \<Longrightarrow> J (D', P', q')"
    and J0: "\<And>D. level_ok G d (D, Map.empty, [s]) \<Longrightarrow> J (D, Map.empty, [s])"
  shows "\<exists>res hf' tr'. traverse pop name seeds hf s d log tr = Some (res, hf', tr') \<and> hf_same hf hf' \<and> tr_source res = s \<and>
    ht_inv (tr_traversal_numbers res) \<and> ht_inv (tr_parents res) \<and>
    search_ok G d s {} (ht_map (tr_traversal_numbers res), ht_map (tr_parents res), []) \<and>
    J (ht_map (tr_traversal_numbers res), ht_map (tr_parents res), [])"
proof -
  have s': "s \<noteq> UNINITIALIZED_LONG" using abs_ends_ok [OF h] s by (auto simp: ends_ok_def)
  obtain t hf1 where i: "init_numbers hf (d_ul_ul_create (snd seeds)) log = Some (t, hf1)" "hf_same hf hf1" "ht_inv t"
      "ht_map t = (\<lambda>v. if g_labels G v = None then None else Some ULONG_MAX)"
    using init_numbers_ok [OF h d_ul_ul_create_ok, of "snd seeds" log] by blast
  obtain w where w: "ll_push ll_ul_create s = Some w" "ll_inv w" "ll_list w = [s]"
    using llist.append_law [OF ll_ul_create_ok(1), of s] by (auto simp: ll_push_def ll_ul_create_ok)
  obtain t1 where t1: "ht_insert t s 0 = Some t1" "ht_inv t1" "ht_map t1 = (ht_map t)(s \<mapsto> 0)" using htable.insert_law [OF i(3)] by blast
  have D: "dom (ht_map t1) = dom (g_labels G)" "ht_map t1 s = Some 0" "\<And>v k. v \<noteq> s \<Longrightarrow> ht_map t1 v = Some k \<Longrightarrow> k = ULONG_MAX"
    using s by (auto simp: t1(3) i(4) split: if_splits)
  have st: "search_ok G d s {} (ht_map t1, Map.empty, [s])" "level_ok G d (ht_map t1, Map.empty, [s])"
    by (rule start_ok, use D in auto)+
  have rp: "represents (t1, d_ul_ul_create (fst seeds), w, tr) (ht_map t1, Map.empty, ll_list w)"
    by (simp add: represents_def t1 w d_ul_ul_create_ok)
  have "\<exists>nums' pars' work' tr' hf' D' P'. traverse_loop pop name d log hf1 t1 (d_ul_ul_create (fst seeds)) w tr = Some (nums', pars', work', tr', hf') \<and>
      hf_same hf1 hf' \<and> represents (nums', pars', work', tr') (D', P', []) \<and> search_ok G d s {} (D', P', []) \<and> J (D', P', [])"
  proof (rule traverse_loop_ok [where J = J and G = G, OF hf_abs_same [OF h i(2)] rp])
    show "search_ok G d s {} (ht_map t1, Map.empty, ll_list w)" "J (ht_map t1, Map.empty, ll_list w)" using st J0 w(3) by simp_all
  qed (rule J)
  then obtain nums pars work tr' hf' D' P' where l: "traverse_loop pop name d log hf1 t1 (d_ul_ul_create (fst seeds)) w tr = Some (nums, pars, work, tr', hf')"
    "hf_same hf1 hf'" "represents (nums, pars, work, tr') (D', P', [])" "search_ok G d s {} (D', P', [])" "J (D', P', [])" by blast
  have r: "ht_inv nums" "ht_inv pars" "ll_inv work" "D' = ht_map nums" "P' = ht_map pars" using l(3) by (simp_all add: represents_def)
  obtain l' where "ll_destroy work = Some l'" using ll_destroy_ok [OF r(3)] by blast
  then have "traverse pop name seeds hf s d log tr = Some (create_traversal_result s nums pars, hf', tr')"
    using s' i(1) w(1) t1(1) l(1) by (simp add: traverse_def)
  then show ?thesis using hf_same_trans [OF i(2) l(2)] r l(4,5) by (simp add: create_traversal_result_def)
qed

text \<open>A missing source ends the program when it is expanded.\<close>

lemma traverse_exit:
  assumes h: "hf_abs hf G" and s: "g_labels G s = None"
  shows "traverse pop name seeds hf s d log tr = None"
proof (cases "s = UNINITIALIZED_LONG")
  case False
  obtain t hf1 where i: "init_numbers hf (d_ul_ul_create (snd seeds)) log = Some (t, hf1)" "hf_same hf hf1" "ht_inv t"
    using init_numbers_ok [OF h d_ul_ul_create_ok, of "snd seeds" log] by blast
  obtain w where w: "ll_push ll_ul_create s = Some w" "ll_inv w" "ll_list w = [s]"
    using llist.append_law [OF ll_ul_create_ok(1), of s] by (auto simp: ll_push_def ll_ul_create_ok)
  obtain t1 where t1: "ht_insert t s 0 = Some t1" using htable.insert_law [OF i(3)] by blast
  obtain w' where p: "pop w = Some (s, w')" using pop_law [OF w(2)] w(3) by (auto simp: add_eq_conv_ex)
  have "hf_inv hf1" "hf_nodes hf1 s = None" using hf_abs_same [OF h i(2)] hf_abs_node [of hf1 G s] s hf_abs_inv by auto
  then have "expand hf1 s d log = None" using read_exit(1) by (simp add: expand_def)
  then have "traverse_loop pop name d log hf1 t1 (d_ul_ul_create (fst seeds)) w tr = None"
    using llist.size_law [OF w(2)] w(3) p by (subst traverse_loop.simps) simp
  then show ?thesis using False i(1) w(1) t1 by (simp add: traverse_def)
qed (simp add: traverse_def)

end

section \<open>What the traversals find\<close>

text \<open>The relationship a discovered node was reached by leads to it from a node whose number is one less.\<close>

definition parents_ok :: "pgraph \<Rightarrow> direction_t \<Rightarrow> ulong \<Rightarrow> traversal_result \<Rightarrow> bool" where
  "parents_ok G d s res \<longleftrightarrow> dom (ht_map (tr_parents res)) = {v. v \<noteq> s \<and> (\<exists>k. walk G d s k v)} \<and>
     (\<forall>v i. ht_map (tr_parents res) v = Some i \<longrightarrow> (\<exists>u k e. (i, e) \<in> set (out_edges G d u) \<and> edge_other u (i, e) = v \<and>
        ht_map (tr_traversal_numbers res) u = Some k \<and> k \<noteq> ULONG_MAX \<and> ht_map (tr_traversal_numbers res) v = Some (k + 1)))"

lemma search_parents_ok:
  assumes i: "search_ok G d s {} (ht_map (tr_traversal_numbers res), ht_map (tr_parents res), [])"
  shows "parents_ok G d s res"
proof -
  have "\<exists>u k e. (i, e) \<in> set (out_edges G d u) \<and> edge_other u (i, e) = v \<and> ht_map (tr_traversal_numbers res) u = Some k \<and> k \<noteq> ULONG_MAX \<and>
      ht_map (tr_traversal_numbers res) v = Some (k + 1)" if p: "ht_map (tr_parents res) v = Some i" for v i
  proof -
    obtain u e where "u \<in> seen (ht_map (tr_traversal_numbers res))" "e \<in> set (out_edges G d u)" "fst e = i" "edge_other u e = v"
      "ht_map (tr_traversal_numbers res) v = Some (the (ht_map (tr_traversal_numbers res) u) + 1)" by (rule search_parent [OF i p])
    then show ?thesis
      by (intro exI [of _ u] exI [of _ "the (ht_map (tr_traversal_numbers res) u)"] exI [of _ "snd e"]) (auto simp: seen_def simp del: edge_other.simps)
  qed
  moreover have "dom (ht_map (tr_parents res)) = {v. v \<noteq> s \<and> (\<exists>k. walk G d s k v)}"
    using search_okD(3) [OF i] search_reaches [OF i] by auto
  ultimately show ?thesis by (simp add: parents_ok_def)
qed

lemma search_unseen:
  assumes i: "search_ok G d s {} (D, P, [])" and v: "g_labels G v \<noteq> None" "\<nexists>k. walk G d s k v"
  shows "D v = Some ULONG_MAX"
  using search_okD(1) [OF i] search_reaches [OF i, of v] v by (auto simp: seen_def dom_def set_eq_iff)

lemma search_missing:
  assumes i: "search_ok G d s {} (D, P, q)"  and v: "g_labels G v = None"
  shows "D v = None"
  using search_okD(1) [OF i] v by (metis domIff)

lemma queue_level:
  assumes G: "ends_ok G" and i: "search_ok G d s {} (D, P, ll_list l)" and J: "level_ok G d (D, P, ll_list l)" and l: "ll_inv l" "ll_list l \<noteq> []"
    and p: "queue_pop l = Some (u, l')" and f: "fold (visit u) (out_edges G d u) (D, P, ll_list l') = (D', P', q')"
  shows "level_ok G d (D', P', q')"
proof -
  have "ll_list l = u # ll_list l'" using queue_pop_ok [OF l(1), of "hd (ll_list l)" "tl (ll_list l)"] l(2) p by auto
  then show ?thesis using process_level [OF G _ _ f] i J by metis
qed

lemma bfs_ok:
  assumes h: "hf_abs hf G" and s: "g_labels G s \<noteq> None"
  obtains res hf' tr' where "bfs seeds hf s d log tr = Some (res, hf', tr')" "hf_same hf hf'" "tr_source res = s"
    "ht_inv (tr_traversal_numbers res)" "ht_inv (tr_parents res)"
    "search_ok G d s {} (ht_map (tr_traversal_numbers res), ht_map (tr_parents res), [])"
    "level_ok G d (ht_map (tr_traversal_numbers res), ht_map (tr_parents res), [])"
proof -
  have "\<exists>res hf' tr'. traverse queue_pop ''bfs'' seeds hf s d log tr = Some (res, hf', tr') \<and> hf_same hf hf' \<and> tr_source res = s \<and>
    ht_inv (tr_traversal_numbers res) \<and> ht_inv (tr_parents res) \<and>
    search_ok G d s {} (ht_map (tr_traversal_numbers res), ht_map (tr_parents res), []) \<and>
    level_ok G d (ht_map (tr_traversal_numbers res), ht_map (tr_parents res), [])"
    by (rule queue_work.traverse_ok [OF h s]) (use queue_level [OF abs_ends_ok [OF h]] in blast)+
  then show thesis using that unfolding bfs_def by blast
qed

text \<open>
  C21: Breadth first search from a node of the graph returns and leaves the heap file as it was. The number of every node is the
  length of a shortest walk from the source in the given direction, or \<^verbatim>\<open>ULONG_MAX\<close> when there is none, and the
  parents of the reached nodes make a tree of such walks. A search from a node that does not exist ends the program.
\<close>
theorem bfs_shortest:
  assumes "hf_abs hf G"
  shows "if g_labels G s = None then bfs seeds hf s d log tr = None
    else \<exists>res hf' tr'. bfs seeds hf s d log tr = Some (res, hf', tr') \<and> hf_same hf hf' \<and> tr_source res = s \<and> parents_ok G d s res \<and>
      (\<forall>v. ht_get_direct (tr_traversal_numbers res) v = (if g_labels G v = None then None
         else if \<exists>k. walk G d s k v then Some (LEAST k. walk G d s k v) else Some ULONG_MAX))"
proof (cases "g_labels G s = None")
  case False
  obtain res hf' tr' where r: "bfs seeds hf s d log tr = Some (res, hf', tr')" "hf_same hf hf'" "tr_source res = s" "ht_inv (tr_traversal_numbers res)"
    and i: "search_ok G d s {} (ht_map (tr_traversal_numbers res), ht_map (tr_parents res), [])"
    and l: "level_ok G d (ht_map (tr_traversal_numbers res), ht_map (tr_parents res), [])" by (rule bfs_ok [OF assms False])
  have "ht_get_direct (tr_traversal_numbers res) v = (if g_labels G v = None then None
         else if \<exists>k. walk G d s k v then Some (LEAST k. walk G d s k v) else Some ULONG_MAX)" for v
    using search_missing [OF i, of v] search_unseen [OF i, of v] bfs_numbers [OF i l, of _ v] by (auto simp: ht_get_direct_eq [OF r(4)])
  then show ?thesis using False r(1-3) search_parents_ok [OF i] by auto
qed (simp add: bfs_def queue_work.traverse_exit [OF assms])

theorem bfs_shortest_witness:
  "\<exists>hf a b res hf' tr'. bfs (0, 0) hf a OUTGOING True [] = Some (res, hf', tr') \<and> ht_get_direct (tr_traversal_numbers res) a = Some 0 \<and>
    ht_get_direct (tr_traversal_numbers res) b = Some 1 \<and> bfs (0, 0) hf (a + b + 1) BOTH True [] = None"
proof -
  obtain hf G a b i where g: "hf_abs hf G" "a \<noteq> b" "g_labels G = [a \<mapsto> 5, b \<mapsto> 6]" "g_edges G = [(i, a, b, 7, 1)]" by (rule pair_database)
  have la: "g_labels G a \<noteq> None" using g(2,3) by simp
  have w: "walk G OUTGOING a 0 a" "walk G OUTGOING a 1 b" "\<not> walk G OUTGOING a 0 b"
    using walk.step [OF walk.start, of "(i, a, b, 7, 1)" G OUTGOING a] g(2,4) by (auto simp: out_edges_def walk.start elim: walk.cases)
  then have "(LEAST k. walk G OUTGOING a k a) = 0" by (intro Least_equality) simp_all
  moreover have "(LEAST k. walk G OUTGOING a k b) = 1" by (intro Least_equality) (use w in \<open>auto simp: Suc_le_eq intro: gr0I\<close>)
  moreover have "\<exists>k. walk G OUTGOING a k a" "\<exists>k. walk G OUTGOING a k b" using w by blast+
  moreover obtain res hf' tr' where "bfs (0, 0) hf a OUTGOING True [] = Some (res, hf', tr')"
    "\<forall>v. ht_get_direct (tr_traversal_numbers res) v = (if g_labels G v = None then None
         else if \<exists>k. walk G OUTGOING a k v then Some (LEAST k. walk G OUTGOING a k v) else Some ULONG_MAX)"
    using bfs_shortest [OF g(1), of a "(0, 0)" OUTGOING True "[]", unfolded if_not_P [OF la]] by blast
  moreover have "bfs (0, 0) hf (a + b + 1) BOTH True [] = None" using bfs_shortest [OF g(1), of "a + b + 1" "(0, 0)" BOTH True "[]"] g(3) by simp
  ultimately show ?thesis using g(3)
    by (intro exI [of _ hf] exI [of _ a] exI [of _ b] exI [of _ res] exI [of _ hf'] exI [of _ tr']) simp
qed

text \<open>
  C22: Depth first search from a node of the graph returns and leaves the heap file as it was. It reaches the nodes to which there is a
  walk in the given direction, and the number of each of them is the length of the walk along the tree of parents;
  the other nodes keep \<^verbatim>\<open>ULONG_MAX\<close>. A search from a node that does not exist ends the program.
\<close>
theorem dfs_reaches:
  assumes "hf_abs hf G"
  shows "if g_labels G s = None then dfs seeds hf s d log tr = None
    else \<exists>res hf' tr'. dfs seeds hf s d log tr = Some (res, hf', tr') \<and> hf_same hf hf' \<and> tr_source res = s \<and> parents_ok G d s res \<and>
      ht_get_direct (tr_traversal_numbers res) s = Some 0 \<and>
      (\<forall>v. g_labels G v = None \<longrightarrow> ht_get_direct (tr_traversal_numbers res) v = None) \<and>
      (\<forall>v. g_labels G v \<noteq> None \<and> (\<nexists>k. walk G d s k v) \<longrightarrow> ht_get_direct (tr_traversal_numbers res) v = Some ULONG_MAX) \<and>
      (\<forall>v k. walk G d s k v \<longrightarrow> (\<exists>n. ht_get_direct (tr_traversal_numbers res) v = Some n \<and> n < card (dom (g_labels G)) \<and> walk G d s n v))"
proof (cases "g_labels G s = None")
  case False
  obtain res hf' tr' where r: "dfs seeds hf s d log tr = Some (res, hf', tr')" "hf_same hf hf'" "tr_source res = s" "ht_inv (tr_traversal_numbers res)"
    and i: "search_ok G d s {} (ht_map (tr_traversal_numbers res), ht_map (tr_parents res), [])"
    using stack_work.traverse_ok [where J = "\<lambda>_. True" and d = d, OF assms False] unfolding dfs_def by blast
  let ?D = "ht_map (tr_traversal_numbers res)"
  have fin: "finite (dom (g_labels G))" using abs_ends_ok [OF assms] finite_subset by (fastforce simp: ends_ok_def)
  have c: "card (seen ?D) \<le> card (dom (g_labels G))"
    by (rule card_mono [OF fin]) (use search_okD(1) [OF i] in \<open>auto simp: seen_def\<close>)
  have "\<exists>n. ?D v = Some n \<and> n < card (dom (g_labels G)) \<and> walk G d s n v" if "walk G d s k v" for v k
  proof -
    have v: "v \<in> seen ?D" by (rule walk_seen [OF i that])
    then show ?thesis using seen_walk [OF i v] search_okD(6) [OF i v] c by (auto simp: seen_def)
  qed
  note found = this
  have "\<exists>n. ht_get_direct (tr_traversal_numbers res) v = Some n \<and> n < card (dom (g_labels G)) \<and> walk G d s n v" if "walk G d s k v" for v k
    using found [OF that] by (simp add: ht_get_direct_eq [OF r(4)])
  moreover have "ht_get_direct (tr_traversal_numbers res) s = Some 0" "\<forall>v. g_labels G v = None \<longrightarrow> ht_get_direct (tr_traversal_numbers res) v = None"
    "\<forall>v. g_labels G v \<noteq> None \<and> (\<nexists>k. walk G d s k v) \<longrightarrow> ht_get_direct (tr_traversal_numbers res) v = Some ULONG_MAX"
    using search_missing [OF i] search_unseen [OF i] search_okD(2) [OF i] by (simp_all add: ht_get_direct_eq [OF r(4)])
  ultimately show ?thesis unfolding if_not_P [OF False] using r(1-3) search_parents_ok [OF i]
    by (intro exI [of _ res] exI [of _ hf'] exI [of _ tr']) blast
qed (simp add: dfs_def stack_work.traverse_exit [OF assms])

theorem dfs_reaches_witness:
  "\<exists>hf a b res hf' tr'. dfs (0, 0) hf b OUTGOING True [] = Some (res, hf', tr') \<and> ht_get_direct (tr_traversal_numbers res) b = Some 0 \<and>
    ht_get_direct (tr_traversal_numbers res) a = Some ULONG_MAX"
proof -
  obtain hf G a b i where g: "hf_abs hf G" "a \<noteq> b" "g_labels G = [a \<mapsto> 5, b \<mapsto> 6]" "g_edges G = [(i, a, b, 7, 1)]" by (rule pair_database)
  have "v = b" if "walk G OUTGOING b k v" for k v
    using that by induction (use g(2,4) in \<open>auto simp: out_edges_def\<close>)
  then have "\<nexists>k. walk G OUTGOING b k a" using g(2) by blast
  moreover have l: "g_labels G b \<noteq> None" "g_labels G a \<noteq> None" using g(2,3) by simp_all
  ultimately show ?thesis using dfs_reaches [OF g(1), of b "(0, 0)" OUTGOING True "[]", unfolded if_not_P [OF l(1)]] by blast
qed

end
