(* ===== verification/Paths.thy ===== *)
theory Paths
  imports Traversals
begin

text \<open>
  Paths, degrees and random walks. A list of relationships is followed from a node in the abstract graph; a path
  the program returns is such a list. The degrees are the numbers of edges at the nodes.
\<close>

section \<open>Following relationships\<close>

fun follow :: "pgraph \<Rightarrow> direction_t \<Rightarrow> ulong \<Rightarrow> ulong list \<Rightarrow> ulong option" where
  "follow G d u [] = Some u"
| "follow G d u (i # is) = do { e \<leftarrow> map_of (out_edges G d u) i; follow G d (edge_other u (i, e)) is }"

lemma follow_append: "follow G d u (is @ js) = do { v \<leftarrow> follow G d u is; follow G d v js }"
  by (induction "is" arbitrary: u) (simp_all add: Option.bind_assoc)

lemma follow_walk:
  assumes "follow G d u is = Some v"
  shows "walk G d u (length is) v"
  using assms
proof (induction "is" arbitrary: v rule: rev_induct)
  case (snoc i "is")
  then obtain w e where w: "follow G d u is = Some w" "map_of (out_edges G d w) i = Some e" "v = edge_other w (i, e)"
    by (auto simp: follow_append bind_eq_Some_conv)
  from walk.step [OF snoc.IH [OF w(1)] map_of_SomeD [OF w(2)]] show ?case by (simp add: w(3))
qed (simp add: walk.start)

lemma out_edges_map_of:
  assumes "hf_abs hf G" "(i, e) \<in> set (out_edges G d u)"
  shows "map_of (out_edges G d u) i = Some e" "map_of (g_edges G) i = Some e"
proof -
  have d: "distinct (map fst (g_edges G))" using assms(1) by (simp add: hf_abs_def)
  then have "distinct (map fst (out_edges G d u))" unfolding out_edges_def by (rule distinct_map_filter)
  then show "map_of (out_edges G d u) i = Some e" using assms(2) by simp
  show "map_of (g_edges G) i = Some e" using assms(2) d by (simp add: out_edges_def)
qed

lemma read_edge:
  assumes h: "hf_abs hf G" and e: "map_of (g_edges G) i = Some e"
  obtains r hf' where "read_relationship hf i log = Some (r, hf')" "hf_same hf hf'" "r_id r = i" "edge_of r = e"
proof -
  obtain r where r: "hf_rels hf i = Some r" "edge_of r = e" using hf_abs_rel [OF h, of i] e by auto
  moreover have "r_id r = i" using graph_ok_rel(1) [of "hf_nodes hf" "hf_rels hf" _ i r] h r(1) by (auto simp: hf_abs_def hf_graph_def)
  ultimately show thesis using that read_relationship_ok [OF hf_abs_inv [OF h] r(1), of log] by blast
qed

section \<open>The path to a node\<close>

text \<open>The end a relationship came from.\<close>

lemma edge_back:
  assumes "(i, a, b, w, l) \<in> set (out_edges G d u)"
  shows "(if b = edge_other u (i, a, b, w, l) then a else b) = u"
  using assms by (auto simp: out_edges_def)

lemma construct_loop_ok:
  assumes P: "ht_inv parents" and i: "search_ok G d s {} (D, ht_map parents, [])" and "hf_abs hf G" "v \<in> seen D" "v \<noteq> s" "al_inv es"
  shows "\<exists>es' dist' hf' is. construct_loop hf s parents log v es dist = Some (es', dist', hf') \<and> hf_same hf hf' \<and> al_inv es' \<and>
    al_list es' = al_list es @ rev is \<and> follow G d s is = Some v \<and> length is = the (D v)"
  using assms(3-6)
proof (induction "the (D v)" arbitrary: v hf es dist rule: less_induct)
  case less
  obtain j where j: "ht_map parents v = Some j" using search_okD(3) [OF i] less.prems(2,3) by blast
  obtain u e where u: "u \<in> seen D" "e \<in> set (out_edges G d u)" "fst e = j" "edge_other u e = v" "D v = Some (the (D u) + 1)"
    by (rule search_parent [OF i j])
  obtain a b w l where e: "e = (j, a, b, w, l)" using u(3) by (cases e) auto
  note m = out_edges_map_of [OF less.prems(1) u(2) [unfolded e]]
  obtain es1 where es1: "al_append es j = Some es1" "al_inv es1" "al_list es1 = al_list es @ [j]" using alist.append_law [OF less.prems(4)] by blast
  obtain r hf1 where r: "read_relationship hf j log = Some (r, hf1)" "hf_same hf hf1" "edge_of r = (a, b, w, l)" by (rule read_edge [OF less.prems(1) m(2)])
  have bk: "(if r_target_node r = v then r_source_node r else r_target_node r) = u"
    using edge_back [OF u(2) [unfolded e]] r(3) u(4) e by (simp add: edge_of_def split: if_splits)
  have step: "construct_loop hf s parents log v es dist = (if u \<noteq> s then construct_loop hf1 s parents log u es1 (double_add dist (r_weight r))
      else Some (es1, double_add dist (r_weight r), hf1))"
    by (subst construct_loop.simps) (use j es1(1) r(1) bk in \<open>simp add: ht_get_direct_eq [OF P] Let_def\<close>)
  have last: "follow G d u [j] = Some v" using m(1) u(4) e by simp
  show ?case
  proof (cases "u = s")
    case True
    then show ?thesis unfolding step
      by (intro exI [of _ es1] exI [of _ "double_add dist (r_weight r)"] exI [of _ hf1] exI [of _ "[j]"])
        (use last es1 r(2) u(5) search_okD(2) [OF i] in simp)
  next
    case False
    obtain es' dist' hf' "is" where IH: "construct_loop hf1 s parents log u es1 (double_add dist (r_weight r)) = Some (es', dist', hf')" "hf_same hf1 hf'"
      "al_inv es'" "al_list es' = al_list es1 @ rev is" "follow G d s is = Some u" "length is = the (D u)"
      using less.hyps [OF _ hf_abs_same [OF less.prems(1) r(2)] u(1) False es1(2)] u(5) by fastforce
    then show ?thesis unfolding step using hf_same_trans [OF r(2) IH(2)] last es1(3) u(5) False
      by (intro exI [of _ es'] exI [of _ dist'] exI [of _ hf'] exI [of _ "is @ [j]"]) (simp add: follow_append)
  qed
qed

lemma reverse_loop:
  assumes "al_inv es"
  shows "\<exists>l. for_each (\<lambda>edges i. do { e \<leftarrow> al_get es (al_size es - i); al_append edges e }) al_ul_create [1..<al_size es + 1] = Some l \<and>
    al_inv l \<and> al_list l = rev (al_list es)"
proof -
  have n: "al_size es = length (al_list es)" by (rule alist.size_law [OF assms])
  have "\<exists>l. for_each (\<lambda>edges i. do { e \<leftarrow> al_get es (al_size es - i); al_append edges e }) al_ul_create [1..<Suc k] = Some l \<and>
    al_inv l \<and> al_list l = take k (rev (al_list es))" if "k \<le> length (al_list es)" for k
    using that
  proof (induction k)
    case 0
    then show ?case by (simp add: al_ul_create_def)
  next
    case (Suc k)
    then obtain l where l: "for_each (\<lambda>edges i. do { e \<leftarrow> al_get es (al_size es - i); al_append edges e }) al_ul_create [1..<Suc k] = Some l"
      "al_inv l" "al_list l = take k (rev (al_list es))" by auto
    have x: "al_get es (al_size es - Suc k) = Some (rev (al_list es) ! k)"
      using Suc.prems alist.get_law [OF assms, of "length (al_list es) - Suc k"] by (simp add: n rev_nth)
    obtain l' where "al_append l (rev (al_list es) ! k) = Some l'" "al_inv l'" "al_list l' = al_list l @ [rev (al_list es) ! k]"
      using alist.append_law [OF l(2)] by blast
    moreover have "[1..<Suc (Suc k)] = [1..<Suc k] @ [Suc k]" by simp
    ultimately show ?case using l(1,3) x Suc.prems by (simp only: for_each_append) (simp add: take_Suc_conv_app_nth)
  qed
  from this [of "al_size es"] show ?thesis by (simp add: n)
qed

lemma construct_path_ok:
  assumes P: "ht_inv parents" and i: "search_ok G d s {} (D, ht_map parents, [])" and h: "hf_abs hf G" and v: "v \<in> seen D" "v \<noteq> s"
  shows "\<exists>p hf'. construct_path hf s v parents log = Some (p, hf') \<and> hf_same hf hf' \<and> p_source p = s \<and> p_target p = v \<and> al_inv (p_edges p) \<and>
    follow G d s (al_list (p_edges p)) = Some v \<and> length (al_list (p_edges p)) = the (D v)"
proof -
  have "s \<in> seen D" by (rule search_okD(8) [OF i])
  then have "s \<in> dom (g_labels G)" "v \<in> dom (g_labels G)" using search_okD(1) [OF i] v(1) by (auto simp: seen_def)
  then have sv: "s \<noteq> UNINITIALIZED_LONG" "v \<noteq> UNINITIALIZED_LONG" using abs_ends_ok [OF h] by (auto simp: ends_ok_def)
  have e: "al_inv al_ul_create" "al_list al_ul_create = []" by (simp_all add: al_ul_create_def)
  obtain es dist hf' "is" where l: "construct_loop hf s parents log v al_ul_create 0 = Some (es, dist, hf')" "hf_same hf hf'" "al_inv es"
    "al_list es = rev is" "follow G d s is = Some v" "length is = the (D v)"
    using construct_loop_ok [OF P i h v e(1), of log 0] e(2) by auto
  obtain r where r: "for_each (\<lambda>edges i. do { e \<leftarrow> al_get es (al_size es - i); al_append edges e }) al_ul_create [1..<al_size es + 1] = Some r"
    "al_inv r" "al_list r = is" using reverse_loop [OF l(3)] l(4) by auto
  show ?thesis
    by (intro exI [of _ "\<lparr>p_source = s, p_target = v, p_distance = dist, p_edges = r\<rparr>"] exI [of _ hf'])
      (use sv l r in \<open>simp add: construct_path_def create_path_def\<close>)
qed

lemma construct_path_exit:
  assumes "ht_inv parents" "ht_map parents v = None"
  shows "construct_path hf s v parents log = None"
  using assms by (simp add: construct_path_def construct_loop.simps ht_get_direct_eq)

text \<open>
  C23: The path \<^verbatim>\<open>construct_path\<close> reads off the parents of a breadth first search exists for every node that can be reached, other than the source: its
  relationships lead from the source to that node in the direction of the search, and there is no walk with fewer. For the source itself and
  for nodes that cannot be reached the program ends.
\<close>
theorem bfs_path_shortest:
  assumes "hf_abs hf G" "bfs seeds hf s d log tr = Some (res, hf1, tr1)"
  shows "if t \<noteq> s \<and> (\<exists>k. walk G d s k t)
    then \<exists>p hf2. construct_path hf1 s t (tr_parents res) log = Some (p, hf2) \<and> hf_same hf hf2 \<and> p_source p = s \<and> p_target p = t \<and>
      follow G d s (al_list (p_edges p)) = Some t \<and> length (al_list (p_edges p)) = (LEAST k. walk G d s k t)
    else construct_path hf1 s t (tr_parents res) log = None"
proof -
  have s: "g_labels G s \<noteq> None" using assms(2) queue_work.traverse_exit [OF assms(1)] unfolding bfs_def by (metis option.distinct(1))
  obtain res' hf1' tr1' where r: "bfs seeds hf s d log tr = Some (res', hf1', tr1')" "hf_same hf hf1'" "ht_inv (tr_parents res')"
    "search_ok G d s {} (ht_map (tr_traversal_numbers res'), ht_map (tr_parents res'), [])"
    "level_ok G d (ht_map (tr_traversal_numbers res'), ht_map (tr_parents res'), [])" by (rule bfs_ok [OF assms(1) s])
  then have eq: "res' = res" "hf1' = hf1" using assms(2) by simp_all
  note r = r(2-5) [unfolded eq]
  have h1: "hf_abs hf1 G" by (rule hf_abs_same [OF assms(1) r(1)])
  show ?thesis
  proof (cases "t \<noteq> s \<and> (\<exists>k. walk G d s k t)")
    case True
    then obtain k where k: "walk G d s k t" by blast
    have t: "t \<in> seen (ht_map (tr_traversal_numbers res))" by (rule walk_seen [OF r(3) k])
    obtain p hf2 where p: "construct_path hf1 s t (tr_parents res) log = Some (p, hf2)" "hf_same hf1 hf2" "p_source p = s" "p_target p = t"
      "follow G d s (al_list (p_edges p)) = Some t" "length (al_list (p_edges p)) = the (ht_map (tr_traversal_numbers res) t)"
      using construct_path_ok [OF r(2,3) h1 t] True by blast
    then show ?thesis unfolding if_P [OF True] using hf_same_trans [OF r(1) p(2)] bfs_numbers [OF r(3,4) k] by (intro exI [of _ p] exI [of _ hf2]) simp
  next
    case False
    then have "ht_map (tr_parents res) t = None" using search_parents_ok [OF r(3)] by (auto simp: parents_ok_def)
    then show ?thesis unfolding if_not_P [OF False] by (rule construct_path_exit [OF r(2)])
  qed
qed

theorem bfs_path_shortest_witness:
  "\<exists>hf a b i res hf1 tr1 p hf2. bfs (0, 0) hf a OUTGOING True [] = Some (res, hf1, tr1) \<and>
    construct_path hf1 a b (tr_parents res) True = Some (p, hf2) \<and> al_list (p_edges p) = [i] \<and> construct_path hf1 a a (tr_parents res) True = None"
proof -
  obtain hf G a b i where g: "hf_abs hf G" "a \<noteq> b" "g_labels G = [a \<mapsto> 5, b \<mapsto> 6]" "g_edges G = [(i, a, b, 7, 1)]" by (rule pair_database)
  have la: "g_labels G a \<noteq> None" using g(2,3) by simp
  have w: "walk G OUTGOING a 1 b" "\<not> walk G OUTGOING a 0 b"
    using walk.step [OF walk.start, of "(i, a, b, 7, 1)" G OUTGOING a] g(2,4) by (auto simp: out_edges_def elim: walk.cases)
  then have l: "(LEAST k. walk G OUTGOING a k b) = 1" by (intro Least_equality) (use w in \<open>auto simp: Suc_le_eq intro: gr0I\<close>)
  obtain res hf1 tr1 where b: "bfs (0, 0) hf a OUTGOING True [] = Some (res, hf1, tr1)" by (rule bfs_ok [OF g(1) la])
  have c: "b \<noteq> a \<and> (\<exists>k. walk G OUTGOING a k b)" using w g(2) by blast
  obtain p hf2 where p: "construct_path hf1 a b (tr_parents res) True = Some (p, hf2)" "follow G OUTGOING a (al_list (p_edges p)) = Some b"
    "length (al_list (p_edges p)) = 1" using bfs_path_shortest [OF g(1) b, of b, unfolded if_P [OF c]] l by auto
  then obtain j where j: "al_list (p_edges p) = [j]" by (metis One_nat_def length_0_conv length_Suc_conv)
  then have "j = i" using p(2) g(4) by (auto simp: out_edges_def bind_eq_Some_conv split: if_splits)
  moreover have "construct_path hf1 a a (tr_parents res) True = None" using bfs_path_shortest [OF g(1) b, of a] by simp
  ultimately show ?thesis using b p(1) j by blast
qed

section \<open>The nodes of a path\<close>

fun vertices :: "pgraph \<Rightarrow> direction_t \<Rightarrow> ulong \<Rightarrow> ulong list \<Rightarrow> ulong list" where
  "vertices G d u [] = [u]"
| "vertices G d u (i # is) = u # vertices G d (edge_other u (i, the (map_of (out_edges G d u) i))) is"

lemma vertices_ends: "hd (vertices G d u is) = u" "length (vertices G d u is) = length is + 1" "follow G d u is = Some v \<Longrightarrow> last (vertices G d u is) = v"
proof -
  have ne: "vertices G d w js \<noteq> []" for w js by (cases js) simp_all
  show "hd (vertices G d u is) = u" by (cases "is") simp_all
  show "length (vertices G d u is) = length is + 1" by (induction "is" arbitrary: u) simp_all
  show "follow G d u is = Some v \<Longrightarrow> last (vertices G d u is) = v"
    by (induction "is" arbitrary: u) (auto simp: ne bind_eq_Some_conv)
qed

lemma extract_loop:
  fixes nodes :: "ulong array_list"
  assumes "hf_abs hf G" "al_inv nodes" "al_list nodes = ns @ [u]" "follow G d u is \<noteq> None"
  shows "\<exists>nodes' hf'. for_each (path_extract_step log) (nodes, hf) is = Some (nodes', hf') \<and> hf_same hf hf' \<and> al_inv nodes' \<and>
    al_list nodes' = ns @ vertices G d u is"
  using assms
proof (induction "is" arbitrary: hf nodes ns u)
  case Nil
  then show ?case using hf_abs_inv by auto
next
  case (Cons i "is")
  obtain e where e: "map_of (out_edges G d u) i = Some e" "follow G d (edge_other u (i, e)) is \<noteq> None" using Cons.prems(4) by (auto simp: bind_eq_None_conv)
  obtain a b w l where ab: "e = (a, b, w, l)" by (cases e)
  have m: "map_of (g_edges G) i = Some e" by (rule out_edges_map_of(2) [OF Cons.prems(1) map_of_SomeD [OF e(1)]])
  obtain r hf1 where r: "read_relationship hf i log = Some (r, hf1)" "hf_same hf hf1" "edge_of r = e" by (rule read_edge [OF Cons.prems(1) m])
  have prev: "al_get nodes (al_size nodes - 1) = Some u"
    using alist.size_law [OF Cons.prems(2)] alist.get_law [OF Cons.prems(2), of "length ns"] Cons.prems(3) by simp
  have at: "a = u \<or> b = u" using map_of_SomeD [OF e(1)] ab by (auto simp: out_edges_def)
  obtain nodes1 where n1: "al_append nodes (edge_other u (i, e)) = Some nodes1" "al_inv nodes1" "al_list nodes1 = (ns @ [u]) @ [edge_other u (i, e)]"
    using alist.append_law [OF Cons.prems(2)] Cons.prems(3) by metis
  have step: "path_extract_step log (nodes, hf) i = Some (nodes1, hf1)" using r(1,3) prev n1(1) at ab by (auto simp: path_extract_step_def edge_of_def split: if_splits)
  obtain nodes' hf' where IH: "for_each (path_extract_step log) (nodes1, hf1) is = Some (nodes', hf')" "hf_same hf1 hf'" "al_inv nodes'"
    "al_list nodes' = (ns @ [u]) @ vertices G d (edge_other u (i, e)) is"
    using Cons.IH [OF hf_abs_same [OF Cons.prems(1) r(2)] n1(2,3) e(2)] by blast
  show ?case by (intro exI [of _ nodes'] exI [of _ hf'] conjI)
    (use step IH hf_same_trans [OF r(2) IH(2)] e(1) in \<open>simp_all del: edge_other.simps\<close>)
qed

text \<open>
  \<^verbatim>\<open>path_extract_vertices\<close> lists the nodes along a path, one more than it has relationships, from its source to its target.
\<close>
theorem path_vertices:
  assumes "hf_abs hf G" "al_inv (p_edges p)" "follow G d (p_source p) (al_list (p_edges p)) = Some (p_target p)"
  shows "\<exists>nodes hf'. path_extract_vertices p hf log = Some (nodes, hf') \<and> hf_same hf hf' \<and>
    al_list nodes = vertices G d (p_source p) (al_list (p_edges p)) \<and> length (al_list nodes) = length (al_list (p_edges p)) + 1 \<and>
    hd (al_list nodes) = p_source p \<and> last (al_list nodes) = p_target p"
proof -
  obtain l where l: "al_append al_ul_create (p_source p) = Some l" "al_inv l" "al_list l = [] @ [p_source p]"
    using alist.append_law [of al_ul_create "p_source p"] by (auto simp: al_ul_create_def)
  have f: "follow G d (p_source p) (al_list (p_edges p)) \<noteq> None" using assms(3) by simp
  show ?thesis
    using extract_loop [OF assms(1) l(2,3) f, of log] l(1) vertices_ends(1) [of G d "p_source p"] vertices_ends(2) [of G d "p_source p" "al_list (p_edges p)"]
      vertices_ends(3) [OF assms(3)]
    by (auto simp: path_extract_vertices_def for_each_al [OF assms(2)] simp del: al_list_length)
qed

theorem path_vertices_witness:
  "\<exists>hf p a b nodes hf'. a \<noteq> b \<and> p_source p = a \<and> path_extract_vertices p hf True = Some (nodes, hf') \<and> al_list nodes = [a, b]"
proof -
  obtain hf G a b i where g: "hf_abs hf G" "a \<noteq> b" "g_labels G = [a \<mapsto> 5, b \<mapsto> 6]" "g_edges G = [(i, a, b, 7, 1)]" by (rule pair_database)
  obtain l where l: "al_append al_ul_create i = Some l" "al_inv l" "al_list l = [i]"
    using alist.append_law [of al_ul_create i] by (auto simp: al_ul_create_def)
  let ?p = "\<lparr>p_source = a, p_target = b, p_distance = 7, p_edges = l\<rparr>"
  have "vertices G OUTGOING a [i] = [a, b]" using g(4) by (simp add: out_edges_def)
  then show ?thesis using path_vertices [OF g(1), of ?p OUTGOING True] g(2,4) l
    by (intro exI [of _ hf] exI [of _ ?p] exI [of _ a] exI [of _ b]) (auto simp: out_edges_def)
qed

section \<open>Degrees\<close>

definition degree :: "pgraph \<Rightarrow> direction_t \<Rightarrow> ulong \<Rightarrow> nat" where
  "degree G d v = length (out_edges G d v)"

lemma log_rels_ok: "al_inv l \<Longrightarrow> \<exists>tr'. log_rels log name l tr = Some tr'"
proof -
  assume l: "al_inv l"
  have "\<exists>tr'. for_each (\<lambda>tr r. Some (flog b name ''R '' (r_id r) tr)) tr rs = Some tr'" for b rs by (induction rs arbitrary: tr) simp_all
  then show ?thesis by (auto simp: log_rels_def for_each_al [OF l])
qed

lemma expand_degree:
  assumes h: "hf_abs hf G" and v: "g_labels G v \<noteq> None"
  obtains l hf' where "expand hf v d log = Some (l, hf')" "hf_same hf hf'" "al_inv l" "al_size l = degree G d v"
proof -
  obtain l hf' where e: "expand hf v d log = Some (l, hf')" "hf_same hf hf'" "al_inv l" "map (\<lambda>r. (r_id r, edge_of r)) (al_list l) = out_edges G d v"
    using expand_abs [OF h v, of d log] by blast
  have "al_size l = degree G d v" unfolding degree_def alist.size_law [OF e(3)] e(4) [symmetric] length_map by (rule refl)
  then show thesis using that e by blast
qed

lemma get_degree_ok:
  assumes h: "hf_abs hf G" and v: "g_labels G v \<noteq> None"
  shows "\<exists>hf' tr'. get_degree hf v d log tr = Some (degree G d v, hf', tr') \<and> hf_same hf hf'"
proof -
  obtain l hf' where e: "expand hf v d log = Some (l, hf')" "hf_same hf hf'" "al_inv l" "al_size l = degree G d v" by (rule expand_degree [OF h v])
  obtain tr' where "log_rels log ''get_degree'' l (flog log ''get_degree'' ''N '' v tr) = Some tr'" using log_rels_ok [OF e(3)] by blast
  moreover have "v \<noteq> UNINITIALIZED_LONG" using abs_ends_ok [OF h] v by (auto simp: ends_ok_def)
  ultimately show ?thesis using e by (simp add: get_degree_def)
qed

text \<open>A loop that reads the degree of every node and keeps a summary of them.\<close>

lemma degree_loop:
  assumes body: "\<And>acc hf tr n. hf_abs hf G \<Longrightarrow> g_labels G (n_id n) \<noteq> None \<Longrightarrow>
      \<exists>hf' tr'. f (acc, hf, tr) n = Some (c acc (degree G d (n_id n)), hf', tr') \<and> hf_same hf hf'"
    and "hf_abs hf G" "set (map n_id ns) \<subseteq> dom (g_labels G)"
  shows "\<exists>hf' tr'. for_each f (acc, hf, tr) ns = Some (fold (\<lambda>v acc. c acc (degree G d v)) (map n_id ns) acc, hf', tr') \<and> hf_same hf hf'"
  using assms(2,3)
proof (induction ns arbitrary: acc hf tr)
  case Nil
  then show ?case using hf_abs_inv by auto
next
  case (Cons n ns)
  have "g_labels G (n_id n) \<noteq> None" using Cons.prems(2) by auto
  then obtain hf1 tr1 where s: "f (acc, hf, tr) n = Some (c acc (degree G d (n_id n)), hf1, tr1)" "hf_same hf hf1" using body [OF Cons.prems(1)] by blast
  obtain hf2 tr2 where "for_each f (c acc (degree G d (n_id n)), hf1, tr1) ns =
      Some (fold (\<lambda>v acc. c acc (degree G d v)) (map n_id ns) (c acc (degree G d (n_id n))), hf2, tr2)" "hf_same hf1 hf2"
    using Cons.IH [OF hf_abs_same [OF Cons.prems(1) s(2)]] Cons.prems(2) by fastforce
  then show ?case using s hf_same_trans by auto
qed

lemma avg_loop:
  assumes "hf_abs hf G" "al_inv l" "set (map n_id (al_list l)) \<subseteq> dom (g_labels G)"
  shows "\<exists>hf' tr'. for_each (\<lambda>(total_degree, hf, tr) i. do {
         n \<leftarrow> al_get l i;
         (rels, hf) \<leftarrow> expand hf (n_id n) d log;
         let total_degree = (total_degree + al_size rels) mod ULONG_RANGE;
         let tr = flog log ''get_avg_degree'' ''N '' i tr;
         tr \<leftarrow> log_rels log ''get_avg_degree'' rels tr;
         Some (total_degree, hf, tr) }) (0, hf, tr) [0..<al_size l] =
      Some (fold (\<lambda>v m. (m + degree G d v) mod ULONG_RANGE) (map n_id (al_list l)) 0, hf', tr') \<and> hf_same hf hf'"
    (is "\<exists>_ _. for_each ?f _ _ = _ \<and> _")
proof -
  have n: "al_size l = length (al_list l)" by (rule alist.size_law [OF assms(2)])
  have "\<exists>hf' tr'. for_each ?f (0, hf, tr) [0..<k] = Some (fold (\<lambda>v m. (m + degree G d v) mod ULONG_RANGE) (map n_id (take k (al_list l))) 0, hf', tr') \<and>
      hf_same hf hf'" if "k \<le> length (al_list l)" for k
    using that
  proof (induction k)
    case 0
    then show ?case using hf_abs_inv [OF assms(1)] by auto
  next
    case (Suc k)
    then obtain hf1 tr1 where IH: "for_each ?f (0, hf, tr) [0..<k] =
        Some (fold (\<lambda>v m. (m + degree G d v) mod ULONG_RANGE) (map n_id (take k (al_list l))) 0, hf1, tr1)" "hf_same hf hf1" by auto
    have k: "k < length (al_list l)" using Suc.prems by simp
    then have "n_id (al_list l ! k) \<in> dom (g_labels G)" using assms(3) nth_mem [OF k] unfolding set_map by blast
    then have v: "g_labels G (n_id (al_list l ! k)) \<noteq> None" by auto
    obtain rs hf2 where e: "expand hf1 (n_id (al_list l ! k)) d log = Some (rs, hf2)" "hf_same hf1 hf2" "al_inv rs" "al_size rs = degree G d (n_id (al_list l ! k))"
      by (rule expand_degree [OF hf_abs_same [OF assms(1) IH(2)] v])
    obtain tr2 where "log_rels log ''get_avg_degree'' rs (flog log ''get_avg_degree'' ''N '' k tr1) = Some tr2" using log_rels_ok [OF e(3)] by blast
    moreover have "al_get l k = Some (al_list l ! k)" using alist.get_law [OF assms(2), of k] k by simp
    moreover have "take (Suc k) (al_list l) = take k (al_list l) @ [al_list l ! k]" using k by (rule take_Suc_conv_app_nth)
    ultimately show ?case using IH(1) e(1,4) hf_same_trans [OF IH(2) e(2)] by (simp add: for_each_append Let_def)
  qed
  from this [of "length (al_list l)"] show ?thesis by (simp add: n)
qed

lemma fold_min: "fold (\<lambda>v acc. if f v < acc then f v else acc) xs (a :: nat) = Min (insert a (f ` set xs))"
proof (induction xs arbitrary: a)
  case (Cons x xs)
  have "Min (insert a (f ` set (x # xs))) = Min (insert (f x) (insert a (f ` set xs)))" by (simp add: insert_commute)
  also have "\<dots> = min (f x) (Min (insert a (f ` set xs)))" by (rule Min_insert) simp_all
  also have "\<dots> = Min (insert (min (f x) a) (f ` set xs))" by (cases "xs = []") (simp_all add: min.assoc [symmetric])
  also have "\<dots> = fold (\<lambda>v acc. if f v < acc then f v else acc) xs (min (f x) a)" by (rule Cons.IH [symmetric])
  also have "min (f x) a = (if f x < a then f x else a)" by (simp add: min_def)
  finally show ?case by simp
qed simp

lemma fold_max: "fold (\<lambda>v acc. if acc < f v then f v else acc) xs (a :: nat) = Max (insert a (f ` set xs))"
proof (induction xs arbitrary: a)
  case (Cons x xs)
  have "Max (insert a (f ` set (x # xs))) = Max (insert (f x) (insert a (f ` set xs)))" by (simp add: insert_commute)
  also have "\<dots> = max (f x) (Max (insert a (f ` set xs)))" by (rule Max_insert) simp_all
  also have "\<dots> = Max (insert (max (f x) a) (f ` set xs))" by (cases "xs = []") (simp_all add: max.assoc [symmetric])
  also have "\<dots> = fold (\<lambda>v acc. if acc < f v then f v else acc) xs (max (f x) a)" by (rule Cons.IH [symmetric])
  also have "max (f x) a = (if a < f x then f x else a)" by (simp add: max_def)
  finally show ?case by simp
qed simp

lemma fold_sum: "fold (\<lambda>v acc. (acc + f v) mod m) xs (a mod m) = (a + (\<Sum>v \<leftarrow> xs. f v)) mod (m :: nat)"
proof (induction xs arbitrary: a)
  case (Cons x xs)
  from Cons.IH [of "a + f x"] show ?case by (simp add: mod_add_left_eq add.assoc)
qed simp

lemma sum_lengths:
  assumes "finite V" "\<forall>e \<in> set es. f e \<in> V"
  shows "(\<Sum>v \<in> V. length (filter (\<lambda>e. f e = v) es)) = length es"
  using assms(2)
proof (induction es)
  case (Cons e es)
  have "(\<Sum>v \<in> V. length (filter (\<lambda>e. f e = v) (e # es))) = (\<Sum>v \<in> V. (if f e = v then 1 else 0) + length (filter (\<lambda>e. f e = v) es))"
    by (intro sum.cong) simp_all
  also have "\<dots> = 1 + length es" using Cons assms(1) by (simp add: sum.distrib)
  finally show ?case by simp
qed simp

lemma degree_sum:
  assumes h: "hf_abs hf G" and d: "d \<noteq> BOTH"
  shows "(\<Sum>v \<in> dom (g_labels G). degree G d v) = length (g_edges G)"
proof -
  let ?f = "\<lambda>(i, a, b, w, l). if d = OUTGOING then a else b"
  have "degree G d v = length (filter (\<lambda>e. ?f e = v) (g_edges G))" for v
    unfolding degree_def out_edges_def using d
    by (intro arg_cong [of _ _ length] filter_cong refl) (cases d; auto)
  moreover have "\<forall>e \<in> set (g_edges G). ?f e \<in> dom (g_labels G)" using edge_ends [OF h] by (auto split: if_splits)
  moreover have "finite (dom (g_labels G))" using abs_ends_ok [OF h] finite_subset by (fastforce simp: ends_ok_def)
  ultimately show ?thesis by (simp add: sum_lengths)
qed

lemma edges_less: "hf_abs hf G \<Longrightarrow> length (g_edges G) < ULONG_RANGE"
proof -
  assume h: "hf_abs hf G"
  have d: "distinct (map fst (g_edges G))" using h by (simp add: hf_abs_def)
  have "set (map fst (g_edges G)) \<subseteq> {..<UNINITIALIZED_LONG}"
  proof
    fix i assume "i \<in> set (map fst (g_edges G))"
    then obtain e where "map_of (g_edges G) i = Some e" using d by (metis map_of_eq_None_iff option.exhaust set_map)
    then obtain r where "hf_rels hf i = Some r" using hf_abs_rel [OF h, of i] by auto
    then show "i \<in> {..<UNINITIALIZED_LONG}" using h graph_ok_rel(3) by (fastforce simp: hf_abs_def hf_graph_def)
  qed
  then have "card (set (map fst (g_edges G))) \<le> card {..<UNINITIALIZED_LONG}" by (intro card_mono) simp_all
  then show ?thesis using distinct_card [OF d] by (simp add: UNINITIALIZED_LONG_def ULONG_RANGE_def)
qed

lemma all_nodes:
  assumes "hf_abs hf G"
  obtains l hf' where "get_nodes hf log = Some (l, hf')" "hf_same hf hf'" "al_inv l" "set (map n_id (al_list l)) = dom (g_labels G)"
    "distinct (map n_id (al_list l))" "al_size l = card (dom (g_labels G))" "hf_abs hf' G"
proof -
  obtain l hf1 where g: "get_nodes hf log = Some (l, hf1)" "hf_same hf hf1" "al_inv l" "map n_id (al_list l) = sorted_list_of_set (dom (g_labels G))"
    by (rule get_nodes_abs [OF assms])
  have fin: "finite (dom (g_labels G))" using abs_ends_ok [OF assms] finite_subset by (fastforce simp: ends_ok_def)
  show thesis
  proof (rule that [OF g(1-3)])
    show "set (map n_id (al_list l)) = dom (g_labels G)" unfolding g(4) by (rule set_sorted_list_of_set [OF fin])
    show "distinct (map n_id (al_list l))" unfolding g(4) by simp
    show "al_size l = card (dom (g_labels G))"
      unfolding alist.size_law [OF g(3)] using arg_cong [OF g(4), of length] by (simp only: length_map length_sorted_list_of_set)
  qed (rule hf_abs_same [OF assms g(2)])
qed

lemma get_min_degree_ok:
  assumes "hf_abs hf G"
  shows "\<exists>hf' tr'. get_min_degree hf d log tr = Some (Min (insert ULONG_MAX (degree G d ` dom (g_labels G))), hf', tr') \<and> hf_same hf hf'"
proof -
  obtain l hf1 where g: "get_nodes hf log = Some (l, hf1)" "hf_same hf hf1" "al_inv l" and ids: "set (map n_id (al_list l)) = dom (g_labels G)"
    and dist: "distinct (map n_id (al_list l))" and size: "al_size l = card (dom (g_labels G))" and h1: "hf_abs hf1 G"
    by (rule all_nodes [OF assms])
  have "\<exists>hf' tr'. for_each (\<lambda>(m, hf, tr) n. do { (degree, hf, tr) \<leftarrow> get_degree hf (n_id n) d log tr; Some (if degree < m then degree else m, hf, tr) }) (ULONG_MAX, hf1, tr)
      (al_list l) = Some (fold (\<lambda>v m. if degree G d v < m then degree G d v else m) (map n_id (al_list l)) ULONG_MAX, hf', tr') \<and> hf_same hf1 hf'"
  proof (rule degree_loop [where c = "\<lambda>m x. if x < m then x else m", OF _ h1 eq_refl [OF ids]])
    fix m hf tr n assume "hf_abs hf G" "g_labels G (n_id n) \<noteq> None"
    from get_degree_ok [OF this, of d log tr] show "\<exists>hf' tr'. (\<lambda>(m, hf, tr) n. do { (degree, hf, tr) \<leftarrow> get_degree hf (n_id n) d log tr;
        Some (if degree < m then degree else m, hf, tr) }) (m, hf, tr) n = Some (if degree G d (n_id n) < m then degree G d (n_id n) else m, hf', tr') \<and> hf_same hf hf'" by auto
  qed
  then show ?thesis
    using g(1) hf_same_trans [OF g(2)] unfolding fold_min ids
    by (auto simp: get_min_degree_def for_each_al [OF g(3)] case_prod_unfold)
qed

lemma get_max_degree_ok:
  assumes "hf_abs hf G"
  shows "\<exists>hf' tr'. get_max_degree hf d log tr = Some (Max (insert 0 (degree G d ` dom (g_labels G))), hf', tr') \<and> hf_same hf hf'"
proof -
  obtain l hf1 where g: "get_nodes hf log = Some (l, hf1)" "hf_same hf hf1" "al_inv l" and ids: "set (map n_id (al_list l)) = dom (g_labels G)"
    and dist: "distinct (map n_id (al_list l))" and size: "al_size l = card (dom (g_labels G))" and h1: "hf_abs hf1 G"
    by (rule all_nodes [OF assms])
  have "\<exists>hf' tr'. for_each (\<lambda>(m, hf, tr) n. do { (degree, hf, tr) \<leftarrow> get_degree hf (n_id n) d log tr; Some (if m < degree then degree else m, hf, tr) }) (0, hf1, tr)
      (al_list l) = Some (fold (\<lambda>v m. if m < degree G d v then degree G d v else m) (map n_id (al_list l)) 0, hf', tr') \<and> hf_same hf1 hf'"
  proof (rule degree_loop [where c = "\<lambda>m x. if m < x then x else m", OF _ h1 eq_refl [OF ids]])
    fix m hf tr n assume "hf_abs hf G" "g_labels G (n_id n) \<noteq> None"
    from get_degree_ok [OF this, of d log tr] show "\<exists>hf' tr'. (\<lambda>(m, hf, tr) n. do { (degree, hf, tr) \<leftarrow> get_degree hf (n_id n) d log tr;
        Some (if m < degree then degree else m, hf, tr) }) (m, hf, tr) n = Some (if m < degree G d (n_id n) then degree G d (n_id n) else m, hf', tr') \<and> hf_same hf hf'" by auto
  qed
  then show ?thesis
    using g(1) hf_same_trans [OF g(2)] unfolding fold_max ids
    by (auto simp: get_max_degree_def for_each_al [OF g(3)] case_prod_unfold)
qed

lemma get_avg_degree_ok:
  assumes "hf_abs hf G"
  shows "\<exists>hf' tr'. get_avg_degree hf d log tr =
      Some (single_div (single_of_nat ((\<Sum>v \<in> dom (g_labels G). degree G d v) mod ULONG_RANGE)) (single_of_nat (card (dom (g_labels G)))), hf', tr') \<and>
    hf_same hf hf'"
proof -
  obtain l hf1 where g: "get_nodes hf log = Some (l, hf1)" "hf_same hf hf1" "al_inv l" and ids: "set (map n_id (al_list l)) = dom (g_labels G)"
    and dist: "distinct (map n_id (al_list l))" and size: "al_size l = card (dom (g_labels G))" and h1: "hf_abs hf1 G"
    by (rule all_nodes [OF assms])
  obtain hf2 tr2 where "for_each (\<lambda>(total_degree, hf, tr) i. do {
         n \<leftarrow> al_get l i;
         (rels, hf) \<leftarrow> expand hf (n_id n) d log;
         let total_degree = (total_degree + al_size rels) mod ULONG_RANGE;
         let tr = flog log ''get_avg_degree'' ''N '' i tr;
         tr \<leftarrow> log_rels log ''get_avg_degree'' rels tr;
         Some (total_degree, hf, tr) }) (0, hf1, tr) [0..<al_size l] =
      Some (fold (\<lambda>v m. (m + degree G d v) mod ULONG_RANGE) (map n_id (al_list l)) 0, hf2, tr2)" "hf_same hf1 hf2"
    using avg_loop [OF h1 g(3) eq_refl [OF ids]] by blast
  then show ?thesis
    using g(1) hf_same_trans [OF g(2)] fold_sum [of "degree G d" ULONG_RANGE "map n_id (al_list l)" 0]
    sum_list_distinct_conv_sum_set [OF dist, of "degree G d"]
    by (auto simp: get_avg_degree_def size ids simp del: set_map)
qed

lemma nodes_less: "hf_abs hf G \<Longrightarrow> card (dom (g_labels G)) < ULONG_RANGE"
proof -
  assume h: "hf_abs hf G"
  have "dom (g_labels G) \<subseteq> {..<UNINITIALIZED_LONG}" using abs_ends_ok [OF h] by (auto simp: ends_ok_def)
  then have "card (dom (g_labels G)) \<le> card {..<UNINITIALIZED_LONG}" by (intro card_mono) simp_all
  then show ?thesis by (simp add: UNINITIALIZED_LONG_def ULONG_RANGE_def)
qed

section \<open>Random walks\<close>

lemma random_walk_loop_ok:
  assumes "hf_abs hf G" "al_inv vs" "follow G d s (al_list vs) = Some u" "g_labels G s \<noteq> None"
  shows "\<exists>v dist' vs' hf' tr' is. random_walk_loop rand d log steps n hf u dist vs tr = Some (v, dist', vs', hf', tr') \<and> hf_same hf hf' \<and> al_inv vs' \<and>
    al_list vs' = al_list vs @ is \<and> follow G d s (al_list vs') = Some v \<and> length is \<le> steps \<and> (length is < steps \<longrightarrow> out_edges G d v = [])"
  using assms(1-3)
proof (induction steps arbitrary: n hf u dist vs tr)
  case 0
  then show ?case using hf_abs_inv by auto
next
  case (Suc steps)
  have "walk G d s (length (al_list vs)) u" by (rule follow_walk [OF Suc.prems(3)])
  then have "u \<in> dom (g_labels G)" using walk_labels [OF abs_ends_ok [OF Suc.prems(1)]] assms(4) by blast
  then have un: "g_labels G u \<noteq> None" by auto
  obtain rels hf1 where e: "expand hf u d log = Some (rels, hf1)" "hf_same hf hf1" "al_inv rels" "map (\<lambda>r. (r_id r, edge_of r)) (al_list rels) = out_edges G d u"
    using expand_abs [OF Suc.prems(1) un, of d log] by blast
  have size: "al_size rels = length (al_list rels)" by (rule alist.size_law [OF e(3)])
  show ?case
  proof (cases "al_list rels = []")
    case True
    then have "out_edges G d u = []" using e(4) by simp
    then show ?thesis using Suc.prems e(1,2) True size by (auto simp: Let_def)
  next
    case False
    let ?k = "rand n mod al_size rels"
    define r where "r = al_list rels ! ?k"
    have k: "?k < length (al_list rels)" using False unfolding size by (simp del: al_list_length)
    then have get: "al_get rels ?k = Some r" using alist.get_law [OF e(3), of ?k] by (simp add: r_def)
    have re: "(r_id r, edge_of r) \<in> set (out_edges G d u)" unfolding e(4) [symmetric] r_def using nth_mem [OF k] by (force simp: image_iff)
    obtain vs1 where vs1: "al_append vs (r_id r) = Some vs1" "al_inv vs1" "al_list vs1 = al_list vs @ [r_id r]" using alist.append_law [OF Suc.prems(2)] by blast
    let ?v = "edge_other u (r_id r, edge_of r)"
    have f: "follow G d s (al_list vs1) = Some ?v" using Suc.prems(3) out_edges_map_of(1) [OF Suc.prems(1) re] by (simp add: vs1(3) follow_append)
    have nx: "(if r_source_node r = u then r_target_node r else r_source_node r) = ?v" by (simp add: edge_of_def)
    obtain v dist' vs' hf' tr' "is" where IH: "random_walk_loop rand d log steps (Suc n) hf1 ?v (double_add dist (r_weight r)) vs1
        (qlog log ''random_walk'' ''R'' (r_id r) (qlog log ''random_walk'' ''N'' u tr)) = Some (v, dist', vs', hf', tr')" "hf_same hf1 hf'" "al_inv vs'"
      "al_list vs' = al_list vs1 @ is" "follow G d s (al_list vs') = Some v" "length is \<le> steps" "length is < steps \<longrightarrow> out_edges G d v = []"
      using Suc.IH [OF hf_abs_same [OF Suc.prems(1) e(2)] vs1(2) f] by blast
    have "al_size rels \<noteq> 0" using False unfolding size by (simp del: al_list_length)
    then have "random_walk_loop rand d log (Suc steps) n hf u dist vs tr = Some (v, dist', vs', hf', tr')"
      using e(1) get vs1(1) IH(1) nx by (simp add: Let_def)
    then show ?thesis using hf_same_trans [OF e(2) IH(2)] IH(3-7) vs1(3)
      by (intro exI [of _ v] exI [of _ dist'] exI [of _ vs'] exI [of _ hf'] exI [of _ tr'] exI [of _ "r_id r # is"]) simp
  qed
qed

text \<open>
  C25: Whatever numbers \<^verbatim>\<open>rand\<close> returns, a random walk from a node of the graph returns a path along relationships in the given direction, of at most
  as many steps as were asked for, and of fewer only when it ends in a node without relationships to follow. A walk from
  a node that does not exist ends the program, unless no step is asked for.
\<close>
theorem random_walk_bounded:
  assumes "hf_abs hf G"
  shows "if g_labels G s = None then random_walk rand hf s (Suc k) d log tr = None
    else \<exists>p hf' tr'. random_walk rand hf s n d log tr = Some (p, hf', tr') \<and> hf_same hf hf' \<and> p_source p = s \<and>
      follow G d s (al_list (p_edges p)) = Some (p_target p) \<and> length (al_list (p_edges p)) \<le> n \<and>
      (length (al_list (p_edges p)) < n \<longrightarrow> out_edges G d (p_target p) = [])"
proof (cases "g_labels G s = None")
  case True
  have "expand hf s d log = None" using read_exit(1) [OF hf_abs_inv [OF assms]] hf_abs_node [OF assms, of s] True by (simp add: expand_def)
  then show ?thesis using True by (simp add: random_walk_def)
next
  case False
  have s: "s \<noteq> UNINITIALIZED_LONG" using abs_ends_ok [OF assms] False by (auto simp: ends_ok_def)
  have e: "al_inv al_ul_create" "al_list al_ul_create = []" by (simp_all add: al_ul_create_def)
  then have f: "follow G d s (al_list al_ul_create) = Some s" by simp
  obtain v dist vs hf' tr' where l: "random_walk_loop rand d log n 0 hf s 0 al_ul_create tr = Some (v, dist, vs, hf', tr')" "hf_same hf hf'"
    "follow G d s (al_list vs) = Some v" "length (al_list vs) \<le> n" "length (al_list vs) < n \<longrightarrow> out_edges G d v = []"
    using random_walk_loop_ok [OF assms e(1) f False, of rand log n 0 0 tr] unfolding e(2) append_Nil by metis
  let ?p = "\<lparr>p_source = s, p_target = v, p_distance = dist, p_edges = vs\<rparr>"
  have "random_walk rand hf s n d log tr = Some (?p, hf', tr')" using s l(1) by (simp add: random_walk_def create_path_def)
  then show ?thesis unfolding if_not_P [OF False] using l by (intro exI [of _ ?p] exI [of _ hf'] exI [of _ tr']) simp
qed

theorem random_walk_bounded_witness:
  "\<exists>hf a i p hf' tr'. random_walk (\<lambda>i. i * i) hf a 3 OUTGOING True [] = Some (p, hf', tr') \<and> al_list (p_edges p) = [i, i, i]"
proof -
  obtain hf G a i where g: "heap_rep 3 hf hf G" "g_labels G = [a \<mapsto> 5]" "g_edges G = [(i, a, a, 7, 1)]" by (rule loop_database)
  have h: "hf_abs hf G" using g(1) by (simp add: heap_rep_def)
  have l: "g_labels G a \<noteq> None" using g(2) by simp
  obtain p hf' tr' where p: "random_walk (\<lambda>i. i * i) hf a 3 OUTGOING True [] = Some (p, hf', tr')" "follow G OUTGOING a (al_list (p_edges p)) = Some (p_target p)"
    "length (al_list (p_edges p)) \<le> 3" "length (al_list (p_edges p)) < 3 \<longrightarrow> out_edges G OUTGOING (p_target p) = []"
    using random_walk_bounded [OF h, of a "\<lambda>i. i * i" 0 OUTGOING True "[]" 3, unfolded if_not_P [OF l]] by blast
  have f: "t = a \<and> is = replicate (length is) i" if "follow G OUTGOING a is = Some t" for t "is"
    using that by (induction "is") (use g(3) in \<open>auto simp: out_edges_def bind_eq_Some_conv split: if_splits\<close>)
  have "p_target p = a" using f [OF p(2)] by blast
  then have "length (al_list (p_edges p)) = 3" using p(3,4) g(3) by (simp add: out_edges_def)
  then have "al_list (p_edges p) = [i, i, i]" using f [OF p(2)] by (simp add: numeral_3_eq_3)
  then show ?thesis using p(1) by blast
qed

end
