(* ===== verification/Single_Rounding.thy ===== *)
theory Single_Rounding
  imports Complex_Main Singles
begin

text \<open>
  The laws of the arithmetic in \<open>Singles\<close>, over the reals: rounding changes a value by at most \<open>2\<^sup>-\<^sup>2\<^sup>4\<close> of it, and the quotient of two
  counters is accurate to \<open>2\<^sup>-\<^sup>2\<^sup>2\<close>.
\<close>

definition single_val :: "single_bits \<Rightarrow> real" where
  "single_val b = real (single_mag b) / 2 ^ 149"

section \<open>Errors\<close>

lemma round_ratio_error:
  assumes "0 < b"
  shows "\<bar>real (round_ratio a b) - real a / real b\<bar> \<le> 1 / 2"
proof -
  define q where "q = a div b"
  define r where "r = a mod b"
  have a: "real a = real q * real b + real r"
    unfolding q_def r_def by (metis div_mult_mod_eq of_nat_add of_nat_mult)
  have r: "r < b" using assms by (simp add: r_def)
  have e: "real a / real b = real q + real r / real b" using assms by (simp add: a field_simps)
  show ?thesis
  proof (cases "b < 2 * r \<or> b = 2 * r \<and> odd q")
    case True
    then have "real b \<le> 2 * real r" by linarith
    then have "1 / 2 \<le> real r / real b" "real r / real b \<le> 1" using assms r by (simp_all add: field_simps)
    then show ?thesis using True by (simp add: round_ratio_def q_def [symmetric] r_def [symmetric] e)
  next
    case False
    then have "2 * r \<le> b" by linarith
    then have "2 * real r \<le> real b" by linarith
    then have "real r / real b \<le> 1 / 2" "0 \<le> real r / real b" using assms by (simp_all add: field_simps)
    then show ?thesis using False assms by (simp add: round_ratio_def q_def [symmetric] r_def [symmetric] e)
  qed
qed

text \<open>Normal results: the pattern has the exponent \<open>k\<close> and the rounded significand, also when that is rounded up to a power of two.\<close>

lemma single_mag_pattern:
  assumes "2 ^ 23 \<le> s" "s \<le> 2 ^ 24" "k < 253"
  shows "k * 2 ^ 23 + s < single_inf" "single_mag (k * 2 ^ 23 + s) = s * 2 ^ k"
proof -
  show "k * 2 ^ 23 + s < single_inf" using assms by (simp add: single_inf_def)
  show "single_mag (k * 2 ^ 23 + s) = s * 2 ^ k"
  proof (cases "s = 2 ^ 24")
    case True
    then have "k * 2 ^ 23 + s = (k + 2) * 2 ^ 23" by simp
    then have "(k * 2 ^ 23 + s) div 2 ^ 23 mod 2 ^ 8 = k + 2" "(k * 2 ^ 23 + s) mod 2 ^ 23 = 0" using assms(3) by simp_all
    then show ?thesis by (simp add: single_mag_def Let_def True)
  next
    case False
    define f where "f = s - 2 ^ 23"
    have f: "f < 2 ^ 23" "s = 2 ^ 23 + f" using assms False by (simp_all add: f_def)
    then have "k * 2 ^ 23 + s = f + (k + 1) * 2 ^ 23" by simp
    then have "(k * 2 ^ 23 + s) div 2 ^ 23 mod 2 ^ 8 = k + 1" "(k * 2 ^ 23 + s) mod 2 ^ 23 = f"
      using assms(3) f(1) by (simp_all only: div_mult_self1 mod_mult_self1) simp_all
    then show ?thesis by (simp add: single_mag_def Let_def f(2))
  qed
qed

lemma single_ratio_error:
  assumes b: "0 < b" and lo: "2 ^ 23 \<le> a div b" and hi: "a div b < 2 ^ 276"
  shows "single_ratio a b < single_inf" "\<bar>real (single_mag (single_ratio a b)) - real a / real b\<bar> \<le> real a / real b / 2 ^ 24"
proof -
  define k where "k = bit_len (a div b) - 24"
  define c where "c = b * 2 ^ k"
  define s where "s = round_ratio a c"
  have "0 < a div b" using lo by (rule order_less_le_trans [rotated]) simp
  note len = bit_len_bounds [OF this]
  have "23 < bit_len (a div b)"
  proof (rule ccontr)
    assume "\<not> 23 < bit_len (a div b)"
    then have "(2::nat) ^ bit_len (a div b) \<le> 2 ^ 23" by (intro power_increasing) simp_all
    then show False using len lo by linarith
  qed
  then have k: "bit_len (a div b) = k + 24" by (simp add: k_def)
  have bounds: "2 ^ (k + 23) \<le> a div b" "a div b < 2 ^ (k + 24)" using len unfolding k by (simp_all add: add.commute)
  have "(2::nat) ^ (k + 23) < 2 ^ 276" by (rule order_le_less_trans [OF bounds(1) hi])
  then have "k + 23 < 276" by (rule power_less_imp_less_exp [rotated]) simp
  then have k253: "k < 253" by simp
  have c: "0 < c" "a div c = a div b div 2 ^ k" using b by (simp_all add: c_def div_mult2_eq)
  have "2 ^ 23 \<le> a div c" unfolding c(2) using div_le_mono [OF bounds(1), of "2 ^ k"] by (simp add: power_add)
  moreover have "a div c < 2 ^ 24" unfolding c(2) using bounds(2) by (simp add: power_add less_mult_imp_div_less mult.commute)
  ultimately have s: "2 ^ 23 \<le> s" "s \<le> 2 ^ 24" by (simp_all add: s_def round_ratio_def)
  note pat = single_mag_pattern [OF s k253]
  have r: "single_ratio a b = k * 2 ^ 23 + s"
    unfolding single_ratio_def Let_def k_def [symmetric] c_def [symmetric] s_def [symmetric] using pat(1) by simp
  show "single_ratio a b < single_inf" using pat(1) by (simp add: r)
  have e: "real a / real c * 2 ^ k = real a / real b" using b by (simp add: c_def)
  have "real s * 2 ^ k - real a / real b = (real s - real a / real c) * 2 ^ k" by (simp only: left_diff_distrib e)
  then have "\<bar>real s * 2 ^ k - real a / real b\<bar> = \<bar>real s - real a / real c\<bar> * 2 ^ k" by (simp add: abs_mult)
  also have "\<dots> \<le> 1 / 2 * 2 ^ k" unfolding s_def using round_ratio_error [OF c(1), of a] by (intro mult_right_mono) simp_all
  also have "\<dots> = 2 ^ (k + 23) / 2 ^ 24" by (simp add: power_add)
  also have "\<dots> \<le> real a / real b / 2 ^ 24"
  proof (rule divide_right_mono)
    have "b * 2 ^ (k + 23) \<le> a" using mult_le_mono2 [OF bounds(1), of b] times_div_less_eq_dividend [of b a] by linarith
    then have "real b * 2 ^ (k + 23) \<le> real a" using of_nat_mono [of "b * 2 ^ (k + 23)" a, where 'a = real] by simp
    then show "2 ^ (k + 23) \<le> real a / real b" using b by (simp add: field_simps)
  qed simp
  finally show "\<bar>real (single_mag (single_ratio a b)) - real a / real b\<bar> \<le> real a / real b / 2 ^ 24"
    unfolding r pat(2) by simp
qed

lemma abs_diff_scaled: "0 < c \<Longrightarrow> \<bar>x / c - y\<bar> = \<bar>x - y * c\<bar> / (c :: real)"
proof -
  assume c: "0 < c"
  then have "x / c - y = (x - y * c) / c" by (simp add: field_simps)
  then show ?thesis using c by (simp add: abs_divide)
qed

lemma single_of_nat_error:
  assumes "n < 2 ^ 127"
  shows "single_of_nat n < single_inf" "\<bar>single_val (single_of_nat n) - real n\<bar> \<le> real n / 2 ^ 24"
proof -
  have "single_of_nat n < single_inf \<and> \<bar>single_val (single_of_nat n) - real n\<bar> \<le> real n / 2 ^ 24"
  proof (cases "n = 0")
    case True
    then show ?thesis
      by (simp add: single_of_nat_def single_ratio_def bit_len.simps round_ratio_def single_val_def single_mag_def single_inf_def)
  next
    case False
    have d: "n * 2 ^ 149 div 1 = n * (2 ^ 149 :: nat)" by simp
    have "(2::nat) ^ 23 \<le> n * 2 ^ 149" using False by (cases n) simp_all
    moreover have "n * 2 ^ 149 < 2 ^ 127 * (2::nat) ^ 149" using assms by (intro mult_strict_right_mono) simp_all
    then have "n * 2 ^ 149 < (2::nat) ^ 276" by (simp only: power_add [symmetric]) simp
    ultimately have e: "single_of_nat n < single_inf"
      "\<bar>real (single_mag (single_of_nat n)) - real (n * 2 ^ 149) / real 1\<bar> \<le> real (n * 2 ^ 149) / real 1 / 2 ^ 24"
      unfolding single_of_nat_def using single_ratio_error [of 1 "n * 2 ^ 149", unfolded d] by simp_all
    have "\<bar>single_val (single_of_nat n) - real n\<bar> = \<bar>real (single_mag (single_of_nat n)) - real n * 2 ^ 149\<bar> / 2 ^ 149"
      unfolding single_val_def by (rule abs_diff_scaled) simp
    also have "\<dots> \<le> real n * 2 ^ 149 / 2 ^ 24 / 2 ^ 149" using e(2) by (intro divide_right_mono) simp_all
    finally show ?thesis using e(1) by simp
  qed
  then show "single_of_nat n < single_inf" "\<bar>single_val (single_of_nat n) - real n\<bar> \<le> real n / 2 ^ 24" by simp_all
qed

text \<open>The quotient of two counters: three roundings make an error of at most \<open>2\<^sup>-\<^sup>2\<^sup>2\<close> of the value.\<close>

lemma quotient_bounds:
  fixes a b q s n :: real
  assumes n: "0 < n" and s: "0 \<le> s" and a: "\<bar>a - s\<bar> \<le> s / 2 ^ 24" and b: "\<bar>b - n\<bar> \<le> n / 2 ^ 24"
    and q: "\<bar>q - a / b\<bar> \<le> a / b / 2 ^ 24"
  shows "\<bar>q - s / n\<bar> \<le> s / n / 2 ^ 22"
proof -
  define u :: real where "u = 1 / 2 ^ 24"
  have u: "0 < u" "5 * u \<le> 1" "4 * u = 1 / 2 ^ 22" by (simp_all add: u_def)
  have eqs: "x / 2 ^ 24 = x * u" for x by (simp add: u_def)
  have ab: "s * (1 - u) \<le> a" "a \<le> s * (1 + u)" "n * (1 - u) \<le> b" "b \<le> n * (1 + u)"
    using a b unfolding eqs by (simp_all add: abs_le_iff algebra_simps)
  have pos: "0 < n * (1 - u)" "0 < b" "0 \<le> a"
    using n u ab s by (simp_all, smt (verit) mult_pos_pos, smt (verit) mult_nonneg_nonneg)
  have lo: "s * (1 - u) / (n * (1 + u)) \<le> a / b" using ab pos s n u by (intro frac_le) simp_all
  have hi: "a / b \<le> s * (1 + u) / (n * (1 - u))" using ab pos s n u by (intro frac_le) simp_all
  have "t * (1 - u) \<le> q \<and> q \<le> t * (1 + u)" if "\<bar>q - t\<bar> \<le> t * u" for t using that by (simp add: abs_le_iff algebra_simps)
  from this [of "a / b"] q have q': "a / b * (1 - u) \<le> q" "q \<le> a / b * (1 + u)" unfolding eqs by blast+
  have "s / n * (1 - 4 * u) \<le> s / n * ((1 - u) / (1 + u) * (1 - u))"
  proof (intro mult_left_mono)
    have "(1 - 4 * u) * (1 + u) \<le> (1 - u) * (1 - u)" using u(1) by (simp add: algebra_simps)
    then show "1 - 4 * u \<le> (1 - u) / (1 + u) * (1 - u)" using u(1) by (simp add: pos_le_divide_eq)
  qed (use s n in simp)
  also have "\<dots> = s * (1 - u) / (n * (1 + u)) * (1 - u)" by simp
  also have "\<dots> \<le> a / b * (1 - u)" using lo u by (intro mult_right_mono) simp_all
  finally have l: "s / n * (1 - 4 * u) \<le> q" using q'(1) by linarith
  have "a / b * (1 + u) \<le> s * (1 + u) / (n * (1 - u)) * (1 + u)" using hi u by (intro mult_right_mono) simp_all
  also have "\<dots> = s / n * ((1 + u) / (1 - u) * (1 + u))" by simp
  also have "\<dots> \<le> s / n * (1 + 4 * u)"
  proof (intro mult_left_mono)
    have "5 * u * u \<le> 1 * u" using u by (intro mult_right_mono) simp_all
    then have "(1 + u) * (1 + u) \<le> (1 + 4 * u) * (1 - u)" by (simp add: algebra_simps)
    then show "(1 + u) / (1 - u) * (1 + u) \<le> 1 + 4 * u" using u(1,2) by (simp add: pos_divide_le_eq)
  qed (use s n in simp)
  finally have h: "q \<le> s / n * (1 + 4 * u)" using q'(2) by linarith
  show ?thesis using l h unfolding u(3) by (simp add: abs_le_iff algebra_simps)
qed

lemma single_quotient:
  assumes s: "s < 2 ^ 64" and n: "0 < n" "n < 2 ^ 64"
  shows "single_div (single_of_nat s) (single_of_nat n) < single_inf"
    "\<bar>single_val (single_div (single_of_nat s) (single_of_nat n)) - real s / real n\<bar> \<le> real s / real n / 2 ^ 22"
proof -
  let ?a = "single_mag (single_of_nat s)" and ?b = "single_mag (single_of_nat n)"
  have less: "s < 2 ^ 127" "n < 2 ^ 127" using s n by (simp_all add: order_less_le_trans [of _ "2 ^ 64"])
  have val: "\<bar>real (single_mag (single_of_nat m)) - real m * 2 ^ 149\<bar> \<le> real m * 2 ^ 149 / 2 ^ 24" if "m < 2 ^ 127" for m
  proof -
    have "\<bar>real (single_mag (single_of_nat m)) - real m * 2 ^ 149\<bar> / 2 ^ 149 \<le> real m / 2 ^ 24"
      using single_of_nat_error(2) [OF that] unfolding single_val_def by (subst (asm) abs_diff_scaled) simp_all
    then show ?thesis by (simp add: divide_le_eq)
  qed
  have sizes: "real m * 2 ^ 148 \<le> real (single_mag (single_of_nat m))" "real (single_mag (single_of_nat m)) \<le> real m * 2 ^ 150"
    if "m < 2 ^ 127" for m
  proof -
    define y where "y = real m * 2 ^ 149"
    have y: "0 \<le> y" "real m * 2 ^ 148 = y / 2" "real m * 2 ^ 150 = 2 * y" by (simp_all add: y_def)
    have "\<bar>real (single_mag (single_of_nat m)) - y\<bar> \<le> y / 2 ^ 24" using val [OF that] by (simp only: y_def)
    moreover have "y / 2 ^ 24 \<le> y / 2" using y(1) by simp
    ultimately have "\<bar>real (single_mag (single_of_nat m)) - y\<bar> \<le> y / 2" by linarith
    then show "real m * 2 ^ 148 \<le> real (single_mag (single_of_nat m))" "real (single_mag (single_of_nat m)) \<le> real m * 2 ^ 150"
      unfolding y(2,3) using y(1) by linarith+
  qed
  have low: "(2::real) ^ 148 \<le> real (single_mag (single_of_nat m))" if "0 < m" "m < 2 ^ 127" for m
  proof -
    have "1 * (2::real) ^ 148 \<le> real m * 2 ^ 148" using that(1) by (intro mult_right_mono) simp_all
    also note sizes(1) [OF that(2)]
    finally show ?thesis by (simp only: mult_1)
  qed
  note b1 = low [OF n(1) less(2)]
  have "0 < real ?b" by (rule order_less_le_trans [OF _ b1]) simp
  then have b0: "0 < ?b" by (simp only: of_nat_0_less_iff)
  have "single_div (single_of_nat s) (single_of_nat n) < single_inf \<and>
    \<bar>real (single_mag (single_div (single_of_nat s) (single_of_nat n))) - real (?a * 2 ^ 149) / real ?b\<bar> \<le> real (?a * 2 ^ 149) / real ?b / 2 ^ 24"
  proof (cases "s = 0")
    case True
    then have "?a = 0" using sizes(2) [OF less(1)] by simp
    then show ?thesis using b0
      by (simp add: single_div_def single_ratio_def bit_len.simps round_ratio_def single_mag_def single_inf_def)
  next
    case False
    have d: "single_div (single_of_nat s) (single_of_nat n) = single_ratio (?a * 2 ^ 149) ?b" using b0 by (simp add: single_div_def)
    have a1: "(2::real) ^ 148 \<le> real ?a" by (rule low [OF _ less(1)]) (use False in simp)
    have up: "real (single_mag (single_of_nat m)) \<le> 2 ^ 214" if "m < 2 ^ 64" for m
    proof -
      have "m < 2 ^ 127" using that by (rule order_less_le_trans) simp
      note sizes(2) [OF this]
      also have "real m * 2 ^ 150 \<le> 2 ^ 64 * 2 ^ 150" using that by (intro mult_right_mono) simp_all
      finally show ?thesis by simp
    qed
    have au: "?a \<le> 2 ^ 214" and bu: "?b \<le> 2 ^ 214" and al: "2 ^ 148 \<le> ?a" and bl: "2 ^ 148 \<le> ?b"
      using up [OF s] up [OF n(2)] a1 b1 by (simp_all only: numeral_power_le_of_nat_cancel_iff of_nat_le_numeral_power_cancel_iff)
    have "2 ^ 23 * ?b \<le> 2 ^ 23 * 2 ^ 214" using bu by (intro mult_le_mono2)
    also have "\<dots> \<le> 2 ^ 148 * (2 :: nat) ^ 149" by simp
    also have "\<dots> \<le> ?a * 2 ^ 149" using al by (intro mult_le_mono1)
    finally have lo: "2 ^ 23 \<le> ?a * 2 ^ 149 div ?b" using b0 by (simp only: less_eq_div_iff_mult_less_eq)
    have "?a * 2 ^ 149 \<le> 2 ^ 214 * 2 ^ 149" using au by (intro mult_le_mono1)
    also have "\<dots> < 2 ^ 276 * (2 :: nat) ^ 148" by simp
    also have "\<dots> \<le> 2 ^ 276 * ?b" using bl by (intro mult_le_mono2)
    finally have hi: "?a * 2 ^ 149 div ?b < 2 ^ 276" using b0 by (simp only: div_less_iff_less_mult)
    show ?thesis unfolding d using single_ratio_error [OF b0 lo hi] by blast
  qed
  moreover have "\<bar>single_val (single_div (single_of_nat s) (single_of_nat n)) - real s / real n\<bar> \<le> real s / real n / 2 ^ 22"
  proof (rule quotient_bounds)
    show "\<bar>single_val (single_of_nat s) - real s\<bar> \<le> real s / 2 ^ 24" by (rule single_of_nat_error(2) [OF less(1)])
    show "\<bar>single_val (single_of_nat n) - real n\<bar> \<le> real n / 2 ^ 24" by (rule single_of_nat_error(2) [OF less(2)])
    let ?q = "single_mag (single_div (single_of_nat s) (single_of_nat n))"
    have v: "single_val (single_of_nat s) / single_val (single_of_nat n) = real ?a / real ?b" by (simp add: single_val_def)
    have "\<bar>real ?q - real ?a / real ?b * 2 ^ 149\<bar> \<le> real ?a / real ?b / 2 ^ 24 * 2 ^ 149" using calculation by simp
    then have "\<bar>real ?q - real ?a / real ?b * 2 ^ 149\<bar> / 2 ^ 149 \<le> real ?a / real ?b / 2 ^ 24" by (simp only: divide_le_eq) simp
    then show "\<bar>single_val (single_div (single_of_nat s) (single_of_nat n)) - single_val (single_of_nat s) / single_val (single_of_nat n)\<bar>
        \<le> single_val (single_of_nat s) / single_val (single_of_nat n) / 2 ^ 24"
      unfolding v by (subst (1) single_val_def) (simp only: abs_diff_scaled zero_less_power zero_less_numeral)
  qed (use n(1) in simp_all)
  ultimately show "single_div (single_of_nat s) (single_of_nat n) < single_inf"
    "\<bar>single_val (single_div (single_of_nat s) (single_of_nat n)) - real s / real n\<bar> \<le> real s / real n / 2 ^ 22" by blast+
qed

end
