(* ===== verification/Degrees.thy ===== *)
theory Degrees
  imports Paths Single_Rounding
begin

text \<open>
  The degree queries of \<open>Queries\<close> on the graph of a heap file, with the average as a number in single precision.
\<close>

lemma avg_degree_accurate:
  assumes "n < ULONG_RANGE"
  shows "if n = 0 then single_div (single_of_nat 0) (single_of_nat n) = single_nan
    else single_div (single_of_nat (s mod ULONG_RANGE)) (single_of_nat n) < single_inf \<and>
      \<bar>single_val (single_div (single_of_nat (s mod ULONG_RANGE)) (single_of_nat n)) - real (s mod ULONG_RANGE) / real n\<bar>
        \<le> real (s mod ULONG_RANGE) / real n / 2 ^ 22"
proof (cases "n = 0")
  case True
  have "single_of_nat 0 = 0"
    by (simp add: single_of_nat_def single_ratio_def bit_len.simps round_ratio_def single_inf_def)
  then show ?thesis using True by (simp add: single_div_def single_mag_def)
next
  case False
  have s: "s mod ULONG_RANGE < 2 ^ 64" and n: "0 < n" "n < 2 ^ 64" using False assms by (simp_all add: ULONG_RANGE_def)
  show ?thesis unfolding if_not_P [OF False] using single_quotient [OF s n] by blast
qed

text \<open>
  C24: The degree queries return what the graph says and leave the heap file as it was, with or without a log file. The degree of a node is
  the number of its relationships in the given direction, and asking for the degree of a missing node ends the program; the least and the
  greatest degree are over all nodes, with \<^verbatim>\<open>ULONG_MAX\<close> and 0 for a graph without nodes. The average is a NaN for a graph without nodes;
  otherwise it is finite and differs from the sum of the degrees (taken modulo \<open>2\<^sup>6\<^sup>4\<close>) divided by the number of nodes by at most
  \<open>2\<^sup>-\<^sup>2\<^sup>2\<close> of this quotient. For one direction the sum is the number of relationships.
\<close>
theorem degree_queries:
  assumes "hf_abs hf G"
  shows "(if g_labels G v = None then get_degree hf v d lg lf = None
      else \<exists>hf' lf'. get_degree hf v d lg lf = Some (degree G d v, hf', lf') \<and> hf_same hf hf') \<and>
    (\<exists>hf' lf'. get_min_degree hf d lg lf = Some (Min (insert ULONG_MAX (degree G d ` dom (g_labels G))), hf', lf') \<and> hf_same hf hf') \<and>
    (\<exists>hf' lf'. get_max_degree hf d lg lf = Some (Max (insert 0 (degree G d ` dom (g_labels G))), hf', lf') \<and> hf_same hf hf') \<and>
    (\<exists>avg hf' lf'. get_avg_degree hf d lg lf = Some (avg, hf', lf') \<and> hf_same hf hf' \<and>
      (let S = (\<Sum>v \<in> dom (g_labels G). degree G d v) mod ULONG_RANGE; N = card (dom (g_labels G)) in
       if N = 0 then avg = single_nan
       else avg < single_inf \<and> \<bar>single_val avg - real S / real N\<bar> \<le> real S / real N / 2 ^ 22)) \<and>
    (d \<noteq> BOTH \<longrightarrow> (\<Sum>v \<in> dom (g_labels G). degree G d v) mod ULONG_RANGE = length (g_edges G))"
proof (intro conjI)
  have "expand hf v d lg = None" if "g_labels G v = None"
    using read_exit(1) [OF hf_abs_inv [OF assms]] hf_abs_node [OF assms, of v] that by (simp add: expand_def)
  then show "if g_labels G v = None then get_degree hf v d lg lf = None else \<exists>hf' lf'. get_degree hf v d lg lf = Some (degree G d v, hf', lf') \<and> hf_same hf hf'"
    using get_degree_ok [OF assms, of v] by (simp add: get_degree_def)
  show "d \<noteq> BOTH \<longrightarrow> (\<Sum>v \<in> dom (g_labels G). degree G d v) mod ULONG_RANGE = length (g_edges G)"
    using degree_sum [OF assms] edges_less [OF assms] by simp
  let ?S = "\<Sum>v \<in> dom (g_labels G). degree G d v" and ?N = "card (dom (g_labels G))"
  have "?S = 0" if "?N = 0" using that by (cases "finite (dom (g_labels G))") simp_all
  then show "\<exists>avg hf' lf'. get_avg_degree hf d lg lf = Some (avg, hf', lf') \<and> hf_same hf hf' \<and>
      (let S = ?S mod ULONG_RANGE; N = ?N in
       if N = 0 then avg = single_nan
       else avg < single_inf \<and> \<bar>single_val avg - real S / real N\<bar> \<le> real S / real N / 2 ^ 22)"
    using get_avg_degree_ok [OF assms, of d lg lf] avg_degree_accurate [OF nodes_less [OF assms], of ?S]
    unfolding Let_def by (cases "?N = 0") fastforce+
qed (rule get_min_degree_ok [OF assms] get_max_degree_ok [OF assms])+

theorem degree_queries_witness:
  "\<exists>hf a hf' hf2 avg lf2. get_degree hf a OUTGOING True None = Some (1, hf', None) \<and>
    get_avg_degree hf OUTGOING True (Some []) = Some (avg, hf2, lf2) \<and> \<bar>single_val avg - 1 / 2\<bar> \<le> 1 / 2 ^ 23"
proof -
  obtain hf G a b i where g: "hf_abs hf G" "a \<noteq> b" "g_labels G = [a \<mapsto> 5, b \<mapsto> 6]" "g_edges G = [(i, a, b, 7, 1)]" by (rule pair_database)
  have a: "g_labels G a \<noteq> None" "degree G OUTGOING a = 1" "card (dom (g_labels G)) = 2" "length (g_edges G) = 1"
    using g(2-4) by (simp_all add: degree_def out_edges_def)
  note q = degree_queries [OF g(1), of a OUTGOING True, unfolded if_not_P [OF a(1)]]
  have s: "(\<Sum>v \<in> dom (g_labels G). degree G OUTGOING v) mod ULONG_RANGE = 1" using q [of None] a(4) by simp
  obtain hf' lf' where d: "get_degree hf a OUTGOING True None = Some (1, hf', lf')" using q [of None] a(2) by metis
  then have "lf' = None" by (auto simp: get_degree_def log_rels_def flog_def bind_eq_Some_conv split: if_splits)
  moreover obtain avg hf2 lf2 where "get_avg_degree hf OUTGOING True (Some []) = Some (avg, hf2, lf2)" "\<bar>single_val avg - 1 / 2\<bar> \<le> 1 / 2 / 2 ^ 22"
    using q [of "Some []"] unfolding s a(3) Let_def by auto
  ultimately show ?thesis using d by (intro exI [of _ hf] exI [of _ a] exI [of _ hf'] exI [of _ hf2] exI [of _ avg] exI [of _ lf2]) simp
qed

end
