(* ===== verification/Fib_Heap.thy ===== *)
theory Fib_Heap
  imports Container_Specs Singles
begin

text \<open>
  The Fibonacci heaps of \<^verbatim>\<open>include/data-struct/fibonacci_heap.h\<close> with their pointers, for the one instance
  \<^verbatim>\<open>fib_heap_ul\<close>. All heaps share one memory of nodes, split by field; a node is allocated iff it has a key. An access through
  \<^verbatim>\<open>NULL\<close> or to a freed node and an index outside of an array have no result. The counters count allocated nodes and are plain numbers.

  \<^verbatim>\<open>consolidate\<close> sizes its array by a logarithm in single precision; the function \<^verbatim>\<open>logf\<close> of the C library is the parameter \<open>logf\<close>, from
  bit patterns to bit patterns. The exit of \<^verbatim>\<open>extract_min\<close> on a heap without a minimum is a value, since its clients do run into it.
\<close>

section \<open>The memory of nodes\<close>

record fmem =
  fm_key :: "addr \<rightharpoonup> double_bits"
  fm_value :: "addr \<Rightarrow> ulong"
  fm_parent :: "addr \<Rightarrow> addr option"
  fm_child :: "addr \<Rightarrow> addr option"
  fm_left :: "addr \<Rightarrow> addr option"
  fm_right :: "addr \<Rightarrow> addr option"
  fm_degree :: "addr \<Rightarrow> nat"
  fm_mark :: "addr \<Rightarrow> bool"
  fm_brk :: addr

record fheap =
  fh_min :: "addr option"
  fh_num_nodes :: nat

datatype 'a outcome = Exits | Returns 'a

definition fmem_empty :: fmem where
  "fmem_empty = \<lparr>fm_key = Map.empty, fm_value = (\<lambda>_. 0), fm_parent = (\<lambda>_. None), fm_child = (\<lambda>_. None), fm_left = (\<lambda>_. None),
     fm_right = (\<lambda>_. None), fm_degree = (\<lambda>_. 0), fm_mark = (\<lambda>_. False), fm_brk = 0\<rparr>"

definition at :: "fmem \<Rightarrow> addr option \<Rightarrow> addr option" where
  "at m p = (case p of None \<Rightarrow> None | Some a \<Rightarrow> if fm_key m a = None then None else Some a)"

definition get_key :: "fmem \<Rightarrow> addr option \<Rightarrow> double_bits option" where
  "get_key m p = do { a \<leftarrow> at m p; fm_key m a }"

definition get_value :: "fmem \<Rightarrow> addr option \<Rightarrow> ulong option" where
  "get_value m p = do { a \<leftarrow> at m p; Some (fm_value m a) }"

definition get_left :: "fmem \<Rightarrow> addr option \<Rightarrow> addr option option" where
  "get_left m p = do { a \<leftarrow> at m p; Some (fm_left m a) }"

definition get_right :: "fmem \<Rightarrow> addr option \<Rightarrow> addr option option" where
  "get_right m p = do { a \<leftarrow> at m p; Some (fm_right m a) }"

definition get_child :: "fmem \<Rightarrow> addr option \<Rightarrow> addr option option" where
  "get_child m p = do { a \<leftarrow> at m p; Some (fm_child m a) }"

definition get_parent :: "fmem \<Rightarrow> addr option \<Rightarrow> addr option option" where
  "get_parent m p = do { a \<leftarrow> at m p; Some (fm_parent m a) }"

definition get_deg :: "fmem \<Rightarrow> addr option \<Rightarrow> nat option" where
  "get_deg m p = do { a \<leftarrow> at m p; Some (fm_degree m a) }"

definition get_mark :: "fmem \<Rightarrow> addr option \<Rightarrow> bool option" where
  "get_mark m p = do { a \<leftarrow> at m p; Some (fm_mark m a) }"

definition put_key :: "fmem \<Rightarrow> addr option \<Rightarrow> double_bits \<Rightarrow> fmem option" where
  "put_key m p k = do { a \<leftarrow> at m p; Some (m\<lparr>fm_key := (fm_key m)(a \<mapsto> k)\<rparr>) }"

definition put_left :: "fmem \<Rightarrow> addr option \<Rightarrow> addr option \<Rightarrow> fmem option" where
  "put_left m p q = do { a \<leftarrow> at m p; Some (m\<lparr>fm_left := (fm_left m)(a := q)\<rparr>) }"

definition put_right :: "fmem \<Rightarrow> addr option \<Rightarrow> addr option \<Rightarrow> fmem option" where
  "put_right m p q = do { a \<leftarrow> at m p; Some (m\<lparr>fm_right := (fm_right m)(a := q)\<rparr>) }"

definition put_child :: "fmem \<Rightarrow> addr option \<Rightarrow> addr option \<Rightarrow> fmem option" where
  "put_child m p q = do { a \<leftarrow> at m p; Some (m\<lparr>fm_child := (fm_child m)(a := q)\<rparr>) }"

definition put_parent :: "fmem \<Rightarrow> addr option \<Rightarrow> addr option \<Rightarrow> fmem option" where
  "put_parent m p q = do { a \<leftarrow> at m p; Some (m\<lparr>fm_parent := (fm_parent m)(a := q)\<rparr>) }"

definition put_degree :: "fmem \<Rightarrow> addr option \<Rightarrow> nat \<Rightarrow> fmem option" where
  "put_degree m p d = do { a \<leftarrow> at m p; Some (m\<lparr>fm_degree := (fm_degree m)(a := d)\<rparr>) }"

definition put_mark :: "fmem \<Rightarrow> addr option \<Rightarrow> bool \<Rightarrow> fmem option" where
  "put_mark m p b = do { a \<leftarrow> at m p; Some (m\<lparr>fm_mark := (fm_mark m)(a := b)\<rparr>) }"

definition free_node :: "fmem \<Rightarrow> addr option \<Rightarrow> fmem option" where
  "free_node m p = do { a \<leftarrow> at m p; Some (m\<lparr>fm_key := (fm_key m)(a := None)\<rparr>) }"

lemmas fib_access = at_def get_key_def get_value_def get_left_def get_right_def get_child_def get_parent_def get_deg_def get_mark_def
  put_key_def put_left_def put_right_def put_child_def put_parent_def put_degree_def put_mark_def free_node_def

section \<open>Links\<close>

text \<open>
  The two statements that take a node out of its circle, and the four that put one in to the right of another, in the order \<^verbatim>\<open>insert\<close> and
  \<^verbatim>\<open>make_child\<close> have them and in the one \<^verbatim>\<open>consolidate\<close> and \<^verbatim>\<open>cut\<close> have.
\<close>

definition unlink :: "fmem \<Rightarrow> addr option \<Rightarrow> fmem option" where
  "unlink m y = do {
     l \<leftarrow> get_left m y; r \<leftarrow> get_right m y;
     m \<leftarrow> put_right m l r;
     l \<leftarrow> get_left m y; r \<leftarrow> get_right m y;
     put_left m r l }"

definition link_right :: "fmem \<Rightarrow> addr option \<Rightarrow> addr option \<Rightarrow> fmem option" where
  "link_right m x y = do {
     r \<leftarrow> get_right m x;
     m \<leftarrow> put_right m y r;
     r \<leftarrow> get_right m y;
     m \<leftarrow> put_left m r y;
     m \<leftarrow> put_left m y x;
     put_right m x y }"

definition link_root :: "fmem \<Rightarrow> addr option \<Rightarrow> addr option \<Rightarrow> fmem option" where
  "link_root m x y = do {
     r \<leftarrow> get_right m x;
     m \<leftarrow> put_right m y r;
     m \<leftarrow> put_left m y x;
     r \<leftarrow> get_right m x;
     m \<leftarrow> put_left m r y;
     put_right m x y }"

definition self_link :: "fmem \<Rightarrow> addr option \<Rightarrow> fmem option" where
  "self_link m y = do { m \<leftarrow> put_left m y y; put_right m y y }"

section \<open>Operations\<close>

definition fib_heap_create :: fheap where
  "fib_heap_create = \<lparr>fh_min = None, fh_num_nodes = 0\<rparr>"

definition NEG_DBL_MAX :: double_bits where
  "NEG_DBL_MAX = DBL_MAX + 2 ^ 63"

definition fib_heap_insert :: "fmem \<Rightarrow> fheap \<Rightarrow> double_bits \<Rightarrow> ulong \<Rightarrow> (fmem \<times> fheap) option" where
  "fib_heap_insert m fh key v =
    (if double_eq key NEG_DBL_MAX then None
     else do {
       let node = fm_brk m;
       let m = m\<lparr>fm_key := (fm_key m)(node \<mapsto> key), fm_value := (fm_value m)(node := v), fm_parent := (fm_parent m)(node := None),
         fm_child := (fm_child m)(node := None), fm_left := (fm_left m)(node := None), fm_right := (fm_right m)(node := None),
         fm_degree := (fm_degree m)(node := 0), fm_mark := (fm_mark m)(node := False), fm_brk := Suc node\<rparr>;
       (m, mn) \<leftarrow> (case fh_min fh of
           None \<Rightarrow> do { m \<leftarrow> self_link m (Some node); Some (m, Some node) }
         | Some z \<Rightarrow> do {
             m \<leftarrow> link_right m (Some z) (Some node);
             k \<leftarrow> get_key m (Some z);
             Some (m, if double_less key k then Some node else Some z) });
       Some (m, fh\<lparr>fh_min := mn, fh_num_nodes := fh_num_nodes fh + 1\<rparr>) })"

definition fib_heap_min :: "fheap \<Rightarrow> addr outcome" where
  "fib_heap_min fh = (case fh_min fh of None \<Rightarrow> Exits | Some z \<Rightarrow> Returns z)"

definition fib_heap_make_child :: "fmem \<Rightarrow> addr option \<Rightarrow> addr option \<Rightarrow> fmem option" where
  "fib_heap_make_child m x y = do {
     m \<leftarrow> unlink m y;
     m \<leftarrow> put_parent m y x;
     c \<leftarrow> get_child m x;
     m \<leftarrow> (case c of
         Some c \<Rightarrow> link_right m (Some c) y
       | None \<Rightarrow> do { m \<leftarrow> put_child m x y; self_link m y });
     m \<leftarrow> put_mark m y False;
     d \<leftarrow> get_deg m x;
     put_degree m x (d + 1) }"

text \<open>
  The loops of \<^verbatim>\<open>consolidate\<close>: the inner one joins the root \<open>x\<close> with roots of the same degree, the outer one goes round the circle of
  roots, the last one builds the new circle from the array.
\<close>

function join_loop :: "fmem \<Rightarrow> addr option list \<Rightarrow> addr \<Rightarrow> nat \<Rightarrow> addr \<Rightarrow> (fmem \<times> addr option list \<times> addr \<times> nat \<times> addr) option" where
  "join_loop m nodes x d first =
    (if d < length nodes then
       (case nodes ! d of
          None \<Rightarrow> Some (m, nodes, x, d, first)
        | Some y \<Rightarrow>
            if x = y then Some (m, nodes, x, d, first)
            else do {
              ky \<leftarrow> get_key m (Some y); kx \<leftarrow> get_key m (Some x);
              let (x, y) = (if double_less ky kx then (y, x) else (x, y));
              m \<leftarrow> fib_heap_make_child m (Some x) (Some y);
              let first = (if y = first then x else first);
              join_loop m (nodes[d := None]) x (d + 1) first })
     else None)"
  by pat_completeness auto
termination by (relation "measure (\<lambda>(m, nodes, x, d, first). length nodes - d)") auto

declare join_loop.simps [simp del]

partial_function (option) round_loop :: "fmem \<Rightarrow> addr option list \<Rightarrow> addr \<Rightarrow> addr \<Rightarrow> (fmem \<times> addr option list) option" where
  "round_loop m nodes x first = do {
     d \<leftarrow> get_deg m (Some x);
     (m, nodes, x, d, first) \<leftarrow> join_loop m nodes x d first;
     let nodes = nodes[d := Some x];
     r \<leftarrow> get_right m (Some x);
     x \<leftarrow> r;
     if x \<noteq> first then round_loop m nodes x first else Some (m, nodes) }"

definition add_root :: "fmem \<times> addr option \<Rightarrow> addr option \<Rightarrow> (fmem \<times> addr option) option" where
  "add_root = (\<lambda>(m, mn) e. case e of
       None \<Rightarrow> Some (m, mn)
     | Some x \<Rightarrow>
         (case mn of
            None \<Rightarrow> do { m \<leftarrow> self_link m (Some x); Some (m, Some x) }
          | Some z \<Rightarrow> do {
              m \<leftarrow> link_root m (Some z) (Some x);
              kx \<leftarrow> get_key m (Some x); kz \<leftarrow> get_key m (Some z);
              Some (m, if double_less kx kz then Some x else Some z) }))"

text \<open>
  The size of the array, \<^verbatim>\<open>floor(log_golden_ratio_factor * logf((float)fh->num_nodes))\<close>. The constant 2.1 is a double of 53 significant bits in units
  of \<open>2\<^sup>-\<^sup>5\<^sup>1\<close>, the logarithm a single in units of \<open>2\<^sup>-\<^sup>1\<^sup>4\<^sup>9\<close>; their product is rounded to a double. The conversion to
  \<^verbatim>\<open>unsigned int\<close> has no result for a number that is negative, too large or not finite.
\<close>

definition log_golden_ratio_factor :: nat where
  "log_golden_ratio_factor = 0x10CCCCCCCCCCCD"

definition golden_degree :: "(single_bits \<Rightarrow> single_bits) \<Rightarrow> nat \<Rightarrow> nat option" where
  "golden_degree logf num_nodes = (let x = logf (single_of_nat num_nodes) in
     if x = 2 ^ 31 then Some 0
     else if x \<ge> single_inf then None
     else let max_degree = round_bits 53 (log_golden_ratio_factor * single_mag x) div 2 ^ 200 in
       if max_degree < 2 ^ 32 then Some max_degree else None)"

definition fib_heap_consolidate :: "(single_bits \<Rightarrow> single_bits) \<Rightarrow> fmem \<Rightarrow> fheap \<Rightarrow> (fmem \<times> fheap) option" where
  "fib_heap_consolidate logf m fh = do {
     max_degree \<leftarrow> golden_degree logf (fh_num_nodes fh);
     r \<leftarrow> get_right m (fh_min fh);
     first \<leftarrow> r;
     (m, nodes) \<leftarrow> round_loop m (replicate max_degree None) first first;
     (m, mn) \<leftarrow> for_each add_root (m, None) nodes;
     Some (m, fh\<lparr>fh_min := mn\<rparr>) }"

text \<open>The loop of \<^verbatim>\<open>extract_min\<close> that makes the children of the minimum roots.\<close>

partial_function (option) lift_children :: "fmem \<Rightarrow> addr \<Rightarrow> addr option \<Rightarrow> fmem option" where
  "lift_children m z node = (case node of
       None \<Rightarrow> Some m
     | Some c \<Rightarrow> do {
         r \<leftarrow> get_right m (Some c);
         let next = (if r \<noteq> Some c then r else None);
         m \<leftarrow> put_parent m (Some c) None;
         m \<leftarrow> unlink m (Some c);
         m \<leftarrow> put_left m (Some c) (Some z);
         r \<leftarrow> get_right m (Some z);
         m \<leftarrow> put_right m (Some c) r;
         r \<leftarrow> get_right m (Some z);
         m \<leftarrow> put_left m r (Some c);
         m \<leftarrow> put_right m (Some z) (Some c);
         lift_children m z next })"

definition fib_heap_extract_min :: "(single_bits \<Rightarrow> single_bits) \<Rightarrow> fmem \<Rightarrow> fheap \<Rightarrow> (addr \<times> fmem \<times> fheap) outcome option" where
  "fib_heap_extract_min logf m fh = (case fh_min fh of
       None \<Rightarrow> Some Exits
     | Some z \<Rightarrow> do {
         c \<leftarrow> get_child m (Some z);
         m \<leftarrow> lift_children m z c;
         m \<leftarrow> unlink m (Some z);
         r \<leftarrow> get_right m (Some z);
         (m, fh) \<leftarrow> (if r = Some z then Some (m, fh\<lparr>fh_min := None\<rparr>) else fib_heap_consolidate logf m fh);
         Some (Returns (z, m, fh\<lparr>fh_num_nodes := fh_num_nodes fh - 1\<rparr>)) })"

definition fib_heap_union :: "fmem \<Rightarrow> fheap \<Rightarrow> fheap \<Rightarrow> (fmem \<times> fheap) option" where
  "fib_heap_union m fh1 fh2 =
    (if fh_num_nodes fh1 = 0 \<and> fh_num_nodes fh2 = 0 then Some (m, fib_heap_create)
     else do {
       (m, mn) \<leftarrow>
         (if fh_num_nodes fh1 = 0 \<or> fh_num_nodes fh2 = 0 then Some (m, if fh_num_nodes fh1 = 0 then fh_min fh2 else fh_min fh1)
          else do {
            fh1_temp \<leftarrow> get_right m (fh_min fh1);
            fh2_temp \<leftarrow> get_left m (fh_min fh2);
            m \<leftarrow> put_right m (fh_min fh1) (fh_min fh2);
            m \<leftarrow> put_left m (fh_min fh2) (fh_min fh1);
            m \<leftarrow> put_left m fh1_temp fh2_temp;
            m \<leftarrow> put_right m fh2_temp fh1_temp;
            k2 \<leftarrow> get_key m (fh_min fh2); k1 \<leftarrow> get_key m (fh_min fh1);
            Some (m, if double_less k2 k1 then fh_min fh2 else fh_min fh1) });
       Some (m, \<lparr>fh_min = mn, fh_num_nodes = fh_num_nodes fh1 + fh_num_nodes fh2\<rparr>) })"

definition fib_heap_cut :: "fmem \<Rightarrow> fheap \<Rightarrow> addr option \<Rightarrow> addr option \<Rightarrow> fmem option" where
  "fib_heap_cut m fh node parent = do {
     d \<leftarrow> get_deg m parent;
     m \<leftarrow> (if d = 1 then put_child m parent None
       else do {
         r \<leftarrow> get_right m node; l \<leftarrow> get_left m node;
         m \<leftarrow> put_left m r l;
         r \<leftarrow> get_right m node; l \<leftarrow> get_left m node;
         m \<leftarrow> put_right m l r;
         c \<leftarrow> get_child m parent;
         if node = c then do { r \<leftarrow> get_right m node; put_child m parent r } else Some m });
     d \<leftarrow> get_deg m parent;
     m \<leftarrow> put_degree m parent (d - 1);
     m \<leftarrow> put_parent m node None;
     m \<leftarrow> put_mark m node False;
     link_root m (fh_min fh) node }"

partial_function (option) fib_heap_cascading_cut :: "fmem \<Rightarrow> fheap \<Rightarrow> addr option \<Rightarrow> fmem option" where
  "fib_heap_cascading_cut m fh node = do {
     parent \<leftarrow> get_parent m node;
     if parent = None then Some m
     else do {
       b \<leftarrow> get_mark m node;
       if \<not> b then put_mark m node True
       else do {
         m \<leftarrow> fib_heap_cut m fh node parent;
         fib_heap_cascading_cut m fh parent } } }"

definition fib_heap_decrease_key_internal :: "fmem \<Rightarrow> fheap \<Rightarrow> addr option \<Rightarrow> double_bits \<Rightarrow> bool \<Rightarrow> (fmem \<times> fheap) option" where
  "fib_heap_decrease_key_internal m fh node new_key del = do {
     k \<leftarrow> get_key m node;
     if double_less k new_key \<or> \<not> del \<and> double_eq new_key NEG_DBL_MAX then None
     else do {
       m \<leftarrow> put_key m node new_key;
       parent \<leftarrow> get_parent m node;
       m \<leftarrow> (if parent = None then Some m
         else do {
           kp \<leftarrow> get_key m parent;
           if double_less new_key kp then do {
             m \<leftarrow> fib_heap_cut m fh node parent;
             fib_heap_cascading_cut m fh parent }
           else Some m });
       k \<leftarrow> get_key m node; km \<leftarrow> get_key m (fh_min fh);
       Some (m, if double_less k km then fh\<lparr>fh_min := node\<rparr> else fh) } }"

definition fib_heap_decrease_key :: "fmem \<Rightarrow> fheap \<Rightarrow> addr option \<Rightarrow> double_bits \<Rightarrow> (fmem \<times> fheap) option" where
  "fib_heap_decrease_key m fh node new_key = fib_heap_decrease_key_internal m fh node new_key False"

definition fib_heap_delete :: "(single_bits \<Rightarrow> single_bits) \<Rightarrow> fmem \<Rightarrow> fheap \<Rightarrow> addr option \<Rightarrow> (fmem \<times> fheap) outcome option" where
  "fib_heap_delete logf m fh node = do {
     (m, fh) \<leftarrow> fib_heap_decrease_key_internal m fh node NEG_DBL_MAX True;
     e \<leftarrow> fib_heap_extract_min logf m fh;
     (case e of
        Exits \<Rightarrow> Some Exits
      | Returns (z, m, fh) \<Rightarrow> do { m \<leftarrow> free_node m (Some z); Some (Returns (m, fh)) }) }"

text \<open>\<^verbatim>\<open>destroy\<close> frees one leaf in every round, going down along \<^verbatim>\<open>child\<close> as long as the degree is positive.\<close>

partial_function (option) descend :: "fmem \<Rightarrow> addr option \<Rightarrow> addr option option" where
  "descend m node = do {
     d \<leftarrow> get_deg m node;
     if d > 0 then do { c \<leftarrow> get_child m node; descend m c } else Some node }"

fun destroy_loop :: "nat \<Rightarrow> fmem \<Rightarrow> addr option \<Rightarrow> fmem option" where
  "destroy_loop 0 m next = Some m"
| "destroy_loop (Suc n) m next = do {
     node \<leftarrow> descend m next;
     r \<leftarrow> get_right m node;
     p \<leftarrow> get_parent m node;
     if r \<noteq> node then do {
       l \<leftarrow> get_left m node;
       m \<leftarrow> put_left m r l;
       l \<leftarrow> get_left m node; r' \<leftarrow> get_right m node;
       m \<leftarrow> put_right m l r';
       m \<leftarrow> (if p = None then Some m else do { d \<leftarrow> get_deg m p; put_degree m p (d - 1) });
       m \<leftarrow> free_node m node;
       destroy_loop n m r }
     else if p \<noteq> None then do {
       d \<leftarrow> get_deg m p; m \<leftarrow> put_degree m p (d - 1);
       m \<leftarrow> free_node m node;
       destroy_loop n m p }
     else free_node m node }"

definition fib_heap_destroy :: "fmem \<Rightarrow> fheap \<Rightarrow> fmem option" where
  "fib_heap_destroy m fh = (case fh_min fh of
       None \<Rightarrow> Some m
     | Some z \<Rightarrow> do { next \<leftarrow> get_right m (Some z); destroy_loop (fh_num_nodes fh) m next })"

end
