(* ===== verification/Weighted_Queries.thy ===== *)
theory Weighted_Queries
  imports Queries Fib_Heap
begin

text \<open>
  The queries of \<^verbatim>\<open>src/query\<close> that use the Fibonacci heap: \<^verbatim>\<open>dijkstra\<close>, \<^verbatim>\<open>a_star\<close> and \<^verbatim>\<open>alt\<close>. Each call has a heap of its own, so the
  memory of its nodes starts empty. \<open>logf\<close> is the parameter of \<^verbatim>\<open>consolidate\<close>, the function of the C library; the exit of \<^verbatim>\<open>extract_min\<close> is the
  value \<open>Exits\<close>, every other one is no result.
\<close>

type_synonym dict_ul_d = "(ulong, double_bits) htable"

definition d_ul_d_create :: "nat \<Rightarrow> dict_ul_d" where
  "d_ul_d_create seed = ht_create fnv_hash_ul unsigned_long_eq seed"

record sssp_result =
  sssp_source :: ulong
  sssp_distances :: dict_ul_d
  sssp_pred_edges :: dict_ul_ul

definition create_sssp_result :: "ulong \<Rightarrow> dict_ul_d \<Rightarrow> dict_ul_ul \<Rightarrow> sssp_result" where
  "create_sssp_result source_node distances parents = \<lparr>sssp_source = source_node, sssp_distances = distances, sssp_pred_edges = parents\<rparr>"

section \<open>Dijkstra\<close>

definition dijkstra_rel ::
    "bool \<Rightarrow> addr \<Rightarrow> dict_ul_d \<times> dict_ul_ul \<times> fmem \<times> fheap \<times> query_log \<Rightarrow> relationship_t \<Rightarrow>
      (dict_ul_d \<times> dict_ul_ul \<times> fmem \<times> fheap \<times> query_log) option" where
  "dijkstra_rel log fh_node = (\<lambda>(distance, parents, m, prio_queue, tr) current_rel. do {
     let tr = qlog log ''dijkstra'' ''R'' (r_id current_rel) tr;
     value \<leftarrow> get_value m (Some fh_node);
     let temp = other_end value current_rel;
     dist \<leftarrow> ht_get_direct distance value;
     let new_dist = double_add dist (r_weight current_rel);
     old_dist \<leftarrow> ht_get_direct distance temp;
     if double_less new_dist old_dist then do {
       distance \<leftarrow> ht_insert distance temp new_dist;
       parents \<leftarrow> ht_insert parents temp (r_id current_rel);
       (m, prio_queue) \<leftarrow> fib_heap_insert m prio_queue new_dist temp;
       Some (distance, parents, m, prio_queue, tr) }
     else Some (distance, parents, m, prio_queue, tr) })"

partial_function (option) dijkstra_loop ::
    "(single_bits \<Rightarrow> single_bits) \<Rightarrow> direction_t \<Rightarrow> bool \<Rightarrow> heap_file \<Rightarrow> dict_ul_d \<Rightarrow> dict_ul_ul \<Rightarrow> fmem \<Rightarrow> fheap \<Rightarrow> query_log \<Rightarrow>
      (dict_ul_d \<times> dict_ul_ul \<times> fmem \<times> fheap \<times> query_log \<times> heap_file) outcome option" where
  "dijkstra_loop logf direction log hf distance parents m prio_queue tr =
    (if fh_num_nodes prio_queue > 0 then do {
       e \<leftarrow> fib_heap_extract_min logf m prio_queue;
       (case e of
          Exits \<Rightarrow> Some Exits
        | Returns (fh_node, m, prio_queue) \<Rightarrow> do {
            value \<leftarrow> get_value m (Some fh_node);
            (current_rels, hf) \<leftarrow> expand hf value direction log;
            let tr = qlog log ''dijkstra'' ''N'' value tr;
            (distance, parents, m, prio_queue, tr) \<leftarrow> for_each (\<lambda>s i. do { rel \<leftarrow> al_get current_rels i; dijkstra_rel log fh_node s rel })
              (distance, parents, m, prio_queue, tr) [0..<al_size current_rels];
            m \<leftarrow> free_node m (Some fh_node);
            dijkstra_loop logf direction log hf distance parents m prio_queue tr }) }
     else Some (Returns (distance, parents, m, prio_queue, tr, hf)))"

definition init_distances :: "heap_file \<Rightarrow> dict_ul_d \<Rightarrow> bool \<Rightarrow> (dict_ul_d \<times> heap_file) option" where
  "init_distances hf distance log = do {
     (nodes, hf) \<leftarrow> get_nodes hf log;
     distance \<leftarrow> for_each (\<lambda>distance i. do { n \<leftarrow> al_get nodes i; ht_insert distance (n_id n) DBL_MAX }) distance [0..<unat (hf_n_nodes hf)];
     Some (distance, hf) }"

definition dijkstra ::
    "(single_bits \<Rightarrow> single_bits) \<Rightarrow> nat \<times> nat \<Rightarrow> heap_file \<Rightarrow> ulong \<Rightarrow> direction_t \<Rightarrow> bool \<Rightarrow> query_log \<Rightarrow> (sssp_result \<times> heap_file \<times> query_log) outcome option" where
  "dijkstra logf seeds hf source_node_id direction log tr =
    (if source_node_id = UNINITIALIZED_LONG then None
     else do {
       let parents = d_ul_ul_create (fst seeds);
       (distance, hf) \<leftarrow> init_distances hf (d_ul_d_create (snd seeds)) log;
       (m, prio_queue) \<leftarrow> fib_heap_insert fmem_empty fib_heap_create DBL_MAX source_node_id;
       distance \<leftarrow> ht_insert distance source_node_id 0;
       e \<leftarrow> dijkstra_loop logf direction log hf distance parents m prio_queue tr;
       (case e of
          Exits \<Rightarrow> Some Exits
        | Returns (distance, parents, m, prio_queue, tr, hf) \<Rightarrow> do {
            _ \<leftarrow> fib_heap_destroy m prio_queue;
            Some (Returns (create_sssp_result source_node_id distance parents, hf, tr)) }) })"

section \<open>A*\<close>

text \<open>\<^verbatim>\<open>construct_path\<close> gets the log file where it expects whether to log: \<open>has_log_file\<close> is whether that pointer is set.\<close>

definition a_star_rel ::
    "dict_ul_d \<Rightarrow> bool \<Rightarrow> addr \<Rightarrow> dict_ul_d \<times> dict_ul_ul \<times> fmem \<times> fheap \<times> query_log \<Rightarrow> relationship_t \<Rightarrow>
      (dict_ul_d \<times> dict_ul_ul \<times> fmem \<times> fheap \<times> query_log) option" where
  "a_star_rel heuristic log fh_node = (\<lambda>(distance, parents, m, prio_queue, tr) current_rel. do {
     let tr = qlog log ''a-star'' ''R'' (r_id current_rel) tr;
     value \<leftarrow> get_value m (Some fh_node);
     let temp = other_end value current_rel;
     dist \<leftarrow> ht_get_direct distance value;
     h \<leftarrow> ht_get_direct heuristic value;
     let new_dist = double_add (double_add dist (r_weight current_rel)) h;
     known \<leftarrow> ht_contains distance temp;
     better \<leftarrow> (if \<not> known then Some True else do { old_dist \<leftarrow> ht_get_direct distance temp; Some (double_less new_dist old_dist) });
     if better then do {
       distance \<leftarrow> ht_insert distance temp new_dist;
       parents \<leftarrow> ht_insert parents temp (r_id current_rel);
       (m, prio_queue) \<leftarrow> fib_heap_insert m prio_queue new_dist temp;
       Some (distance, parents, m, prio_queue, tr) }
     else Some (distance, parents, m, prio_queue, tr) })"

partial_function (option) a_star_loop ::
    "(single_bits \<Rightarrow> single_bits) \<Rightarrow> dict_ul_d \<Rightarrow> ulong \<Rightarrow> ulong \<Rightarrow> direction_t \<Rightarrow> bool \<Rightarrow> bool \<Rightarrow> heap_file \<Rightarrow> dict_ul_d \<Rightarrow> dict_ul_ul \<Rightarrow> fmem \<Rightarrow> fheap \<Rightarrow> query_log \<Rightarrow>
      (path \<times> heap_file \<times> query_log) outcome option" where
  "a_star_loop logf heuristic source_node_id target_node_id direction log has_log_file hf distance parents m prio_queue tr =
    (if fh_num_nodes prio_queue > 0 then do {
       e \<leftarrow> fib_heap_extract_min logf m prio_queue;
       (case e of
          Exits \<Rightarrow> Some Exits
        | Returns (fh_node, m, prio_queue) \<Rightarrow> do {
            value \<leftarrow> get_value m (Some fh_node);
            if value = target_node_id then do {
              m \<leftarrow> free_node m (Some fh_node);
              _ \<leftarrow> fib_heap_destroy m prio_queue;
              (p, hf) \<leftarrow> construct_path hf source_node_id target_node_id parents has_log_file;
              Some (Returns (p, hf, tr)) }
            else do {
              (current_rels, hf) \<leftarrow> expand hf value direction log;
              let tr = qlog log ''a-star'' ''N'' value tr;
              (distance, parents, m, prio_queue, tr) \<leftarrow> for_each (\<lambda>s i. do { rel \<leftarrow> al_get current_rels i; a_star_rel heuristic log fh_node s rel })
                (distance, parents, m, prio_queue, tr) [0..<al_size current_rels];
              m \<leftarrow> free_node m (Some fh_node);
              a_star_loop logf heuristic source_node_id target_node_id direction log has_log_file hf distance parents m prio_queue tr } }) }
     else do {
       _ \<leftarrow> fib_heap_destroy m prio_queue;
       p \<leftarrow> create_path source_node_id target_node_id DBL_MAX al_ul_create;
       Some (Returns (p, hf, tr)) })"

definition a_star ::
    "(single_bits \<Rightarrow> single_bits) \<Rightarrow> nat \<times> nat \<Rightarrow> heap_file \<Rightarrow> dict_ul_d \<Rightarrow> ulong \<Rightarrow> ulong \<Rightarrow> direction_t \<Rightarrow> bool \<Rightarrow> bool \<Rightarrow> query_log \<Rightarrow>
      (path \<times> heap_file \<times> query_log) outcome option" where
  "a_star logf seeds hf heuristic source_node_id target_node_id direction log has_log_file tr =
    (if source_node_id = UNINITIALIZED_LONG \<or> target_node_id = UNINITIALIZED_LONG then None
     else do {
       let parents = d_ul_ul_create (fst seeds);
       (m, prio_queue) \<leftarrow> fib_heap_insert fmem_empty fib_heap_create DBL_MAX source_node_id;
       distance \<leftarrow> ht_insert (d_ul_d_create (snd seeds)) source_node_id 0;
       a_star_loop logf heuristic source_node_id target_node_id direction log has_log_file hf distance parents m prio_queue tr })"

section \<open>Landmarks\<close>

text \<open>
  \<open>avg\<close> is the average degree as a \<^verbatim>\<open>double\<close>, \<open>i\<close> the number of the next call of \<^verbatim>\<open>rand\<close>. The log file of these functions is open, as they
  write to it without a test.
\<close>

partial_function (option) landmark_loop ::
    "(nat \<Rightarrow> nat) \<Rightarrow> direction_t \<Rightarrow> bool \<Rightarrow> node_t array_list \<Rightarrow> double_bits \<Rightarrow> nat \<Rightarrow> heap_file \<Rightarrow> query_log \<Rightarrow> (ulong \<times> nat \<times> heap_file \<times> query_log) option" where
  "landmark_loop rand direction log nodes avg i hf tr =
    (if unat (hf_n_nodes hf) = 0 then None
     else do {
       n \<leftarrow> al_get nodes (rand i mod unat (hf_n_nodes hf));
       let landmark_id = n_id n;
       let tr = qlog log ''alt_chose_avg_deg_rand_landmark'' ''N'' landmark_id tr;
       (degree, hf, log_file) \<leftarrow> get_degree hf landmark_id direction log (Some tr);
       tr \<leftarrow> log_file;
       if double_less (double_of_nat degree) avg then landmark_loop rand direction log nodes avg (i + 1) hf tr
       else Some (landmark_id, i + 1, hf, tr) })"

definition alt_chose_avg_deg_rand_landmark ::
    "(nat \<Rightarrow> nat) \<Rightarrow> nat \<Rightarrow> heap_file \<Rightarrow> direction_t \<Rightarrow> bool \<Rightarrow> query_log \<Rightarrow> (ulong \<times> nat \<times> heap_file \<times> query_log) option" where
  "alt_chose_avg_deg_rand_landmark rand i hf direction log tr = do {
     (nodes, hf) \<leftarrow> get_nodes hf log;
     (avg, hf, log_file) \<leftarrow> get_avg_degree hf direction log (Some tr);
     tr \<leftarrow> log_file;
     landmark_loop rand direction log nodes (double_of_single avg) i hf tr }"

fun alt_preprocess_loop ::
    "(single_bits \<Rightarrow> single_bits) \<Rightarrow> (nat \<Rightarrow> nat) \<Rightarrow> (nat \<Rightarrow> nat \<times> nat) \<Rightarrow> direction_t \<Rightarrow> bool \<Rightarrow> nat \<Rightarrow> nat \<Rightarrow> heap_file \<Rightarrow> dict_ul_d list \<Rightarrow> query_log \<Rightarrow>
      (dict_ul_d list \<times> heap_file \<times> query_log) outcome option" where
  "alt_preprocess_loop logf rand seeds d log 0 i hf landmark_dists tr = Some (Returns (landmark_dists, hf, tr))"
| "alt_preprocess_loop logf rand seeds d log (Suc n) i hf landmark_dists tr = do {
     (landmark, i, hf, tr) \<leftarrow> alt_chose_avg_deg_rand_landmark rand i hf d log tr;
     e \<leftarrow> dijkstra logf (seeds (length landmark_dists)) hf landmark d log tr;
     (case e of
        Exits \<Rightarrow> Some Exits
      | Returns (result, hf, tr) \<Rightarrow>
          alt_preprocess_loop logf rand seeds d log n i hf (landmark_dists @ [sssp_distances result]) tr) }"

definition alt_preprocess ::
    "(single_bits \<Rightarrow> single_bits) \<Rightarrow> (nat \<Rightarrow> nat) \<Rightarrow> (nat \<Rightarrow> nat \<times> nat) \<Rightarrow> heap_file \<Rightarrow> direction_t \<Rightarrow> nat \<Rightarrow> bool \<Rightarrow> query_log \<Rightarrow>
      (dict_ul_d list \<times> heap_file \<times> query_log) outcome option" where
  "alt_preprocess logf rand seeds hf d num_landmarks log tr = alt_preprocess_loop logf rand seeds d log num_landmarks 0 hf [] tr"

definition double_sub :: "double_bits \<Rightarrow> double_bits \<Rightarrow> double_bits" where
  "double_sub a b = double_add a ((b + 2 ^ 63) mod 2 ^ 64)"

definition double_fabs :: "double_bits \<Rightarrow> double_bits" where
  "double_fabs b = b mod 2 ^ 63"

definition alt_node :: "dict_ul_d \<Rightarrow> ulong \<Rightarrow> bool \<Rightarrow> dict_ul_d \<times> query_log \<Rightarrow> node_t \<Rightarrow> (dict_ul_d \<times> query_log) option" where
  "alt_node landmark_dist target_node_id log = (\<lambda>(heuristic, tr) n. do {
     dn \<leftarrow> ht_get_direct landmark_dist (n_id n);
     dt \<leftarrow> ht_get_direct landmark_dist target_node_id;
     let temp_dist = double_fabs (double_sub dn dt);
     let tr = qlog log ''alt'' ''N'' (n_id n) tr;
     known \<leftarrow> ht_contains heuristic (n_id n);
     better \<leftarrow> (if \<not> known then Some True else do { h \<leftarrow> ht_get_direct heuristic (n_id n); Some (double_less temp_dist h) });
     if better then do { heuristic \<leftarrow> ht_insert heuristic (n_id n) temp_dist; Some (heuristic, tr) }
     else Some (heuristic, tr) })"

definition alt ::
    "(single_bits \<Rightarrow> single_bits) \<Rightarrow> nat \<times> nat \<Rightarrow> nat \<Rightarrow> heap_file \<Rightarrow> dict_ul_d list \<Rightarrow> nat \<Rightarrow> ulong \<Rightarrow> ulong \<Rightarrow> direction_t \<Rightarrow> bool \<Rightarrow> bool \<Rightarrow> query_log \<Rightarrow>
      (path \<times> heap_file \<times> query_log) outcome option" where
  "alt logf seeds seed hf landmark_dists num_landmarks source_node_id target_node_id direction log has_log_file tr = do {
     let heuristic = d_ul_d_create seed;
     (nodes, hf) \<leftarrow> get_nodes hf log;
     (heuristic, tr) \<leftarrow> for_each (\<lambda>s i.
         if i < length landmark_dists then
           for_each (\<lambda>s j. do { n \<leftarrow> al_get nodes j; alt_node (landmark_dists ! i) target_node_id log s n }) s [0..<al_size nodes]
         else None) (heuristic, tr) [0..<num_landmarks];
     a_star logf seeds hf heuristic source_node_id target_node_id direction log has_log_file tr }"

end
