(* ===== verification/Weighted_Search.thy ===== *)
theory Weighted_Search
  imports Graph_Search Doubles "HOL-Library.Multiset"
begin

text \<open>
  Searching an abstract graph with weights. The length of a walk is the sum of its weights in the order of the walk, in the arithmetic of
  doubles. The state of the search has the distance of every node, with \<^verbatim>\<open>DBL_MAX\<close> for those not reached yet, the relationship
  every reached node was last improved by, the entries of the priority queue and its counter.
\<close>

type_synonym wsearch = "(ulong \<rightharpoonup> double_bits) \<times> (ulong \<rightharpoonup> ulong) \<times> (double_bits \<times> ulong) multiset \<times> nat"

fun edge_weight :: "ulong \<times> edge \<Rightarrow> double_bits" where
  "edge_weight (i, a, b, w, l) = w"

inductive wwalk :: "pgraph \<Rightarrow> direction_t \<Rightarrow> ulong \<Rightarrow> double_bits \<Rightarrow> ulong \<Rightarrow> bool" for G d s where
  start: "wwalk G d s 0 s"
| step: "wwalk G d s x u \<Longrightarrow> e \<in> set (out_edges G d u) \<Longrightarrow> wwalk G d s (double_add x (edge_weight e)) (edge_other u e)"

fun relax :: "ulong \<Rightarrow> ulong \<times> edge \<Rightarrow> wsearch \<Rightarrow> wsearch" where
  "relax u e (D, P, Q, n) = (let x = double_add (the (D u)) (edge_weight e); v = edge_other u e in
     if x < the (D v) then (D(v \<mapsto> x), P(v \<mapsto> fst e), add_mset (x, v) Q, n + 1) else (D, P, Q, n))"

declare relax.simps [simp del]

text \<open>The weights are no NaN and not negative.\<close>

definition weights_ok :: "pgraph \<Rightarrow> bool" where
  "weights_ok G \<longleftrightarrow> (\<forall>(i, a, b, w, l) \<in> set (g_edges G). w \<le> double_inf)"

definition reached :: "(ulong \<rightharpoonup> double_bits) \<Rightarrow> ulong set" where
  "reached D = {v. \<exists>x. D v = Some x \<and> x < DBL_MAX}"

text \<open>Distances are lengths of walks, and the relationships of \<open>P\<close> lead to the nodes they are kept for.\<close>

definition dists_ok :: "pgraph \<Rightarrow> direction_t \<Rightarrow> ulong \<Rightarrow> (ulong \<rightharpoonup> double_bits) \<Rightarrow> (ulong \<rightharpoonup> ulong) \<Rightarrow> bool" where
  "dists_ok G d s D P \<longleftrightarrow> dom D = dom (g_labels G) \<and> D s = Some 0 \<and> dom P = reached D - {s} \<and>
     (\<forall>v x. D v = Some x \<longrightarrow> x = DBL_MAX \<or> x < DBL_MAX \<and> wwalk G d s x v) \<and>
     (\<forall>v i. P v = Some i \<longrightarrow> (\<exists>u \<in> reached D. \<exists>e \<in> set (out_edges G d u). fst e = i \<and> edge_other u e = v \<and>
        double_add (the (D u)) (edge_weight e) \<le> the (D v)))"

text \<open>No edge out of a node that is not in \<open>X\<close> improves a distance.\<close>

definition relaxed :: "pgraph \<Rightarrow> direction_t \<Rightarrow> (ulong \<rightharpoonup> double_bits) \<Rightarrow> ulong set \<Rightarrow> bool" where
  "relaxed G d D X \<longleftrightarrow> (\<forall>u \<in> reached D - X. \<forall>e \<in> set (out_edges G d u). the (D (edge_other u e)) \<le> double_add (the (D u)) (edge_weight e))"

definition total :: "pgraph \<Rightarrow> (ulong \<rightharpoonup> double_bits) \<Rightarrow> nat" where
  "total G D = (\<Sum>v \<in> dom (g_labels G). the (D v))"

lemma DBL_MAX_le: "DBL_MAX \<le> double_inf" "0 < DBL_MAX"
  by (simp_all add: DBL_MAX_def double_inf_def)

lemma out_edge_weight: "weights_ok G \<Longrightarrow> e \<in> set (out_edges G d u) \<Longrightarrow> edge_weight e \<le> double_inf"
  by (cases e) (auto simp: weights_ok_def out_edges_def)

lemma dists_okD:
  assumes "dists_ok G d s D P"
  shows "dom D = dom (g_labels G)" "D s = Some 0" "dom P = reached D - {s}" "D v = Some x \<Longrightarrow> x \<le> DBL_MAX" "v \<in> reached D \<Longrightarrow> wwalk G d s (the (D v)) v"
    "v \<in> reached D \<Longrightarrow> the (D v) \<le> double_inf"
proof -
  note a = assms [unfolded dists_ok_def]
  show "dom D = dom (g_labels G)" "D s = Some 0" "dom P = reached D - {s}" using a by blast+
  show "x \<le> DBL_MAX" if "D v = Some x" using that a by (blast intro: less_imp_le eq_imp_le)
  show "wwalk G d s (the (D v)) v" if v: "v \<in> reached D"
  proof -
    obtain x where x: "D v = Some x" "x < DBL_MAX" using v by (auto simp: reached_def)
    then have "x = DBL_MAX \<or> x < DBL_MAX \<and> wwalk G d s x v" using a by blast
    then show ?thesis using x by simp
  qed
  show "the (D v) \<le> double_inf" if "v \<in> reached D" using that DBL_MAX_le(1) by (auto simp: reached_def)
qed

lemma dists_parent:
  assumes "dists_ok G d s D P" "P v = Some i"
  obtains u e where "u \<in> reached D" "e \<in> set (out_edges G d u)" "fst e = i" "edge_other u e = v" "double_add (the (D u)) (edge_weight e) \<le> the (D v)"
  using assms unfolding dists_ok_def by blast

lemma relax_ok:
  assumes G: "ends_ok G" "weights_ok G" and i: "dists_ok G d s D P" and u: "u \<in> reached D" and e: "e \<in> set (out_edges G d u)"
    and r: "relax u e (D, P, Q, n) = (D', P', Q', n')"
  shows "dists_ok G d s D' P'" "D' u = D u" "reached D \<subseteq> reached D'" "\<And>v. the (D' v) \<le> the (D v)"
    "the (D' (edge_other u e)) \<le> double_add (the (D u)) (edge_weight e)"
    "D' = D \<and> P' = P \<and> Q' = Q \<and> n' = n \<or> total G D' < total G D" "n' + size Q = n + size Q'" "Q \<subseteq># Q'" "snd ` set_mset Q \<subseteq> reached D \<Longrightarrow> snd ` set_mset Q' \<subseteq> reached D'"
    "relaxed G d D X \<Longrightarrow> snd ` set_mset Q \<subseteq> X \<Longrightarrow> relaxed G d D' (X \<union> snd ` set_mset Q')"
proof -
  let ?v = "edge_other u e" let ?x = "double_add (the (D u)) (edge_weight e)"
  note D = dists_okD [OF i]
  have w: "the (D u) \<le> double_inf" "edge_weight e \<le> double_inf" using D(6) [OF u] out_edge_weight [OF G(2) e] by simp_all
  have ge: "the (D u) \<le> ?x" by (rule double_add_ge [OF w])
  obtain y where y: "D ?v = Some y" "y \<le> DBL_MAX" using out_edges_ends(1) [OF G(1) e] D(1,4) by blast
  have "dists_ok G d s D' P' \<and> D' u = D u \<and> reached D \<subseteq> reached D' \<and> (\<forall>v. the (D' v) \<le> the (D v)) \<and> the (D' ?v) \<le> ?x \<and>
    (D' = D \<and> P' = P \<and> Q' = Q \<and> n' = n \<or> total G D' < total G D) \<and> n' + size Q = n + size Q' \<and> Q \<subseteq># Q' \<and>
    (snd ` set_mset Q \<subseteq> reached D \<longrightarrow> snd ` set_mset Q' \<subseteq> reached D') \<and>
    (relaxed G d D X \<longrightarrow> snd ` set_mset Q \<subseteq> X \<longrightarrow> relaxed G d D' (X \<union> snd ` set_mset Q'))"
  proof (cases "?x < the (D ?v)")
    case False
    then have "D' = D" "P' = P" "Q' = Q" "n' = n" using r by (simp_all add: relax.simps Let_def)
    then show ?thesis using False i by (auto simp: relaxed_def)
  next
    case True
    then have r': "D' = D(?v \<mapsto> ?x)" "P' = P(?v \<mapsto> fst e)" "Q' = add_mset (?x, ?v) Q" "n' = n + 1"
      using r by (simp_all add: relax.simps Let_def)
    have x: "?x < y" "?x < DBL_MAX" using True y by simp_all
    have vu: "?v \<noteq> u" using True ge by auto
    have vs: "?v \<noteq> s" using True D(2) by auto
    have re: "reached D' = insert ?v (reached D)" using x(2) by (auto simp: r' reached_def)
    have le: "the (D' v) \<le> the (D v)" for v using x y(1) by (simp add: r')
    have "wwalk G d s ?x ?v" using D(5) [OF u] e by (rule wwalk.step)
    then have "\<forall>v z. D' v = Some z \<longrightarrow> z = DBL_MAX \<or> z < DBL_MAX \<and> wwalk G d s z v" using i x(2) by (auto simp: dists_ok_def r')
    moreover have "\<exists>u' \<in> reached D'. \<exists>e' \<in> set (out_edges G d u'). fst e' = j \<and> edge_other u' e' = v \<and> double_add (the (D' u')) (edge_weight e') \<le> the (D' v)"
      if j: "P' v = Some j" for v j
    proof (cases "v = ?v")
      case True
      then show ?thesis using j u e vu re by (intro bexI [of _ u] bexI [of _ e]) (auto simp: r')
    next
      case False
      then have "P v = Some j" using j by (simp add: r')
      then obtain u' e' where p: "u' \<in> reached D" "e' \<in> set (out_edges G d u')" "fst e' = j" "edge_other u' e' = v"
        "double_add (the (D u')) (edge_weight e') \<le> the (D v)" by (rule dists_parent [OF i])
      have "double_add (the (D' u')) (edge_weight e') \<le> double_add (the (D u')) (edge_weight e')"
        by (intro double_add_mono le D(6) [OF p(1)] out_edge_weight [OF G(2) p(2)])
      then show ?thesis using p False re by (intro bexI [of _ u'] bexI [of _ e']) (auto simp: r')
    qed
    moreover have "dom D' = dom (g_labels G)" using D(1) y(1) by (auto simp: r')
    moreover have "dom P' = reached D' - {s}" using D(3) re vs by (auto simp: r')
    ultimately have ok: "dists_ok G d s D' P'" using D(2) vs by (simp add: dists_ok_def r')
    have "total G D' < total G D" unfolding total_def
      using finite_labels [OF G(1)] out_edges_ends(1) [OF G(1) e] le True
      by (intro sum_strict_mono_ex1) (auto simp: r' intro!: bexI [of _ ?v])
    moreover have "relaxed G d D' (X \<union> snd ` set_mset Q')" if "relaxed G d D X" "snd ` set_mset Q \<subseteq> X"
      unfolding relaxed_def
    proof (intro ballI)
      fix a b assume a: "a \<in> reached D' - (X \<union> snd ` set_mset Q')" and b: "b \<in> set (out_edges G d a)"
      then have "a \<in> reached D - X" "a \<noteq> ?v" using re by (auto simp: r')
      then have "the (D (edge_other a b)) \<le> double_add (the (D a)) (edge_weight b)" "D' a = D a"
        using that(1) b by (auto simp: relaxed_def r')
      then show "the (D' (edge_other a b)) \<le> double_add (the (D' a)) (edge_weight b)" using le [of "edge_other a b"] by simp
    qed
    ultimately show ?thesis using ok vu re le by (auto simp: r')
  qed
  then show "dists_ok G d s D' P'" "D' u = D u" "reached D \<subseteq> reached D'" "\<And>v. the (D' v) \<le> the (D v)"
    "the (D' (edge_other u e)) \<le> double_add (the (D u)) (edge_weight e)"
    "D' = D \<and> P' = P \<and> Q' = Q \<and> n' = n \<or> total G D' < total G D" "n' + size Q = n + size Q'" "Q \<subseteq># Q'" "snd ` set_mset Q \<subseteq> reached D \<Longrightarrow> snd ` set_mset Q' \<subseteq> reached D'"
    "relaxed G d D X \<Longrightarrow> snd ` set_mset Q \<subseteq> X \<Longrightarrow> relaxed G d D' (X \<union> snd ` set_mset Q')"
    by blast+
qed

lemma fold_relax_ok:
  assumes "ends_ok G" "weights_ok G" "dists_ok G d s D P" "u \<in> reached D" "set es \<subseteq> set (out_edges G d u)"
    "fold (relax u) es (D, P, Q, n) = (D', P', Q', n')"
  shows "dists_ok G d s D' P' \<and> D' u = D u \<and> reached D \<subseteq> reached D' \<and> (\<forall>v. the (D' v) \<le> the (D v)) \<and>
    (\<forall>e \<in> set es. the (D' (edge_other u e)) \<le> double_add (the (D u)) (edge_weight e)) \<and>
    (D' = D \<and> P' = P \<and> Q' = Q \<and> n' = n \<or> total G D' < total G D) \<and> n' + size Q = n + size Q' \<and> Q \<subseteq># Q' \<and>
    (snd ` set_mset Q \<subseteq> reached D \<longrightarrow> snd ` set_mset Q' \<subseteq> reached D') \<and>
    (\<forall>X. relaxed G d D X \<longrightarrow> snd ` set_mset Q \<subseteq> X \<longrightarrow> relaxed G d D' (X \<union> snd ` set_mset Q'))"
  using assms(3-6)
proof (induction es arbitrary: D P Q n)
  case Nil
  then show ?case by (auto simp: relaxed_def)
next
  case (Cons e es)
  obtain D1 P1 Q1 n1 where 1: "relax u e (D, P, Q, n) = (D1, P1, Q1, n1)" by (cases "relax u e (D, P, Q, n)")
  have e: "e \<in> set (out_edges G d u)" "set es \<subseteq> set (out_edges G d u)" using Cons.prems(3) by simp_all
  note r = relax_ok [OF assms(1,2) Cons.prems(1,2) e(1) 1]
  have u1: "u \<in> reached D1" using r(3) Cons.prems(2) by blast
  have f: "fold (relax u) es (D1, P1, Q1, n1) = (D', P', Q', n')" using Cons.prems(4) 1 by simp
  note ih = Cons.IH [OF r(1) u1 e(2) f, unfolded r(2)]
  have le: "the (D' v) \<le> the (D1 v)" for v using ih by blast
  have "the (D' v) \<le> the (D v)" for v by (rule order_trans [OF le r(4)])
  moreover have "the (D' (edge_other u e)) \<le> double_add (the (D u)) (edge_weight e)" by (rule order_trans [OF le r(5)])
  moreover have "relaxed G d D' (X \<union> snd ` set_mset Q')" if "relaxed G d D X" "snd ` set_mset Q \<subseteq> X" for X
  proof -
    have "relaxed G d D' (X \<union> snd ` set_mset Q1 \<union> snd ` set_mset Q')" using ih r(10) [OF that] by blast
    moreover have "snd ` set_mset Q1 \<subseteq> snd ` set_mset Q'" using ih by (intro image_mono set_mset_mono) blast
    ultimately show ?thesis by (simp add: Un_absorb1 sup_assoc)
  qed
  moreover have "reached D \<subseteq> reached D'" using ih r(3) by blast
  moreover have "Q1 \<subseteq># Q'" using ih by blast
  then have "Q \<subseteq># Q'" by (rule subset_mset.order_trans [OF r(8)])
  moreover have "D' = D \<and> P' = P \<and> Q' = Q \<and> n' = n \<or> total G D' < total G D" using ih r(6) by auto
  ultimately show ?case using ih r(7,9) by auto
qed

lemma fold_relax_count: "fold (relax u) es (D, P, Q, n) = (D', P', Q', n') \<Longrightarrow> n' \<le> n + length es"
proof (induction es arbitrary: D P Q n)
  case (Cons e es)
  obtain D1 P1 Q1 n1 where 1: "relax u e (D, P, Q, n) = (D1, P1, Q1, n1)" by (cases "relax u e (D, P, Q, n)")
  then have "n1 \<le> n + 1" by (auto simp: relax.simps Let_def split: if_splits)
  then show ?case using Cons.IH [of D1 P1 Q1 n1] Cons.prems 1 by simp
qed simp

text \<open>Every entry that is added lowers the sum of the distances, so that sum bounds the number of entries.\<close>

lemma fold_relax_budget:
  assumes "ends_ok G" "weights_ok G" "dists_ok G d s D P" "u \<in> reached D" "set es \<subseteq> set (out_edges G d u)"
    "fold (relax u) es (D, P, Q, n) = (D', P', Q', n')"
  shows "n' + total G D' \<le> n + total G D"
  using assms(3-6)
proof (induction es arbitrary: D P Q n)
  case (Cons e es)
  obtain D1 P1 Q1 n1 where 1: "relax u e (D, P, Q, n) = (D1, P1, Q1, n1)" by (cases "relax u e (D, P, Q, n)")
  have e: "e \<in> set (out_edges G d u)" "set es \<subseteq> set (out_edges G d u)" using Cons.prems(3) by simp_all
  note r = relax_ok [OF assms(1,2) Cons.prems(1,2) e(1) 1]
  have "n1 \<le> n + 1" using 1 by (auto simp: relax.simps Let_def split: if_splits)
  then have "n1 + total G D1 \<le> n + total G D" using r(6) by auto
  moreover have "n' + total G D' \<le> n1 + total G D1"
    using Cons.IH [OF r(1) _ e(2)] r(3) Cons.prems(2,4) 1 by auto
  ultimately show ?case by linarith
qed simp

lemma total_start:
  assumes "ends_ok G" "dists_ok G d s D P"
  shows "1 + total G D < 2 ^ 127"
proof -
  have "dom (g_labels G) \<subseteq> {..<UNINITIALIZED_LONG}" using assms(1) by (auto simp: ends_ok_def)
  then have "card (dom (g_labels G)) \<le> card {..<UNINITIALIZED_LONG}" by (intro card_mono) simp_all
  then have c: "card (dom (g_labels G)) \<le> UNINITIALIZED_LONG" by simp
  have "total G D \<le> of_nat (card (dom (g_labels G))) * DBL_MAX" unfolding total_def
    using dists_okD(1,4) [OF assms(2)] by (intro sum_bounded_above) (metis domD option.sel)
  also have "\<dots> \<le> UNINITIALIZED_LONG * DBL_MAX" using c by simp
  finally show ?thesis by (simp add: UNINITIALIZED_LONG_def DBL_MAX_def)
qed

text \<open>
  One round of the search: the node \<open>u\<close> is taken out of the queue, which may lose more, and all its edges are relaxed. As long as the
  counter is the number of entries, all nodes without an entry are relaxed.
\<close>

definition queue_relaxed :: "pgraph \<Rightarrow> direction_t \<Rightarrow> (ulong \<rightharpoonup> double_bits) \<Rightarrow> (double_bits \<times> ulong) multiset \<Rightarrow> nat \<Rightarrow> bool" where
  "queue_relaxed G d D Q n \<longleftrightarrow> snd ` set_mset Q \<subseteq> reached D \<and> size Q \<le> n \<and> (size Q = n \<longrightarrow> relaxed G d D (snd ` set_mset Q))"

lemma round_ok:
  assumes G: "ends_ok G" "weights_ok G" and i: "dists_ok G d s D P" and q: "queue_relaxed G d D Q n" and u: "(k, u) \<in># Q"
    and Q1: "Q1 \<subseteq># Q - {#(k, u)#}" "size Q1 = n - 1 \<Longrightarrow> size Q = n \<and> Q1 = Q - {#(k, u)#}"
    and f: "fold (relax u) (out_edges G d u) (D, P, Q1, n - 1) = (D', P', Q', n')"
  shows "dists_ok G d s D' P'" "queue_relaxed G d D' Q' n'" "total G D' < total G D \<or> D' = D \<and> n' < n"
proof -
  have sub: "snd ` set_mset Q1 \<subseteq> snd ` set_mset Q" using Q1(1) by (intro image_mono) (meson in_diffD mset_subset_eqD subsetI)
  have ur: "u \<in> reached D" using q u by (force simp: queue_relaxed_def)
  note p = fold_relax_ok [OF G i ur order_refl f]
  show "dists_ok G d s D' P'" using p by blast
  have n: "0 < n" "size Q1 \<le> n - 1"
    using q u size_mset_mono [OF Q1(1)] size_Diff_singleton [OF u] by (auto simp: queue_relaxed_def nonempty_has_size [symmetric] intro!: gr0I)
  show "total G D' < total G D \<or> D' = D \<and> n' < n" using p n(1) by auto
  have "relaxed G d D' (snd ` set_mset Q')" if "size Q' = n'"
  proof -
    have "size Q1 = n - 1" using p that n by linarith
    then have "size Q = n" "Q1 = Q - {#(k, u)#}" using Q1(2) by blast+
    then have "relaxed G d D (insert u (snd ` set_mset Q1))"
      using q insert_DiffM [OF u] unfolding queue_relaxed_def by (metis image_insert set_mset_add_mset_insert snd_conv)
    then have "relaxed G d D' (insert u (snd ` set_mset Q1) \<union> snd ` set_mset Q')" using p by blast
    moreover have "snd ` set_mset Q1 \<subseteq> snd ` set_mset Q'" using p by (intro image_mono set_mset_mono) blast
    ultimately have "relaxed G d D' (insert u (snd ` set_mset Q'))" by (simp add: Un_absorb1)
    moreover have "\<forall>e \<in> set (out_edges G d u). the (D' (edge_other u e)) \<le> double_add (the (D' u)) (edge_weight e)" using p by simp
    ultimately show ?thesis unfolding relaxed_def by blast
  qed
  moreover have "snd ` set_mset Q' \<subseteq> reached D'" using p sub q unfolding queue_relaxed_def by (meson order_trans)
  moreover have "size Q' \<le> n'" using p n by linarith
  ultimately show "queue_relaxed G d D' Q' n'" by (simp add: queue_relaxed_def)
qed

text \<open>In a graph without branches the queue has never more than one entry, so it cannot lose any.\<close>

definition single_edges :: "pgraph \<Rightarrow> direction_t \<Rightarrow> bool" where
  "single_edges G d \<longleftrightarrow> (\<forall>u. length (out_edges G d u) \<le> 1)"

lemma round_single:
  assumes G: "ends_ok G" "weights_ok G" and i: "dists_ok G d s D P" and q: "queue_relaxed G d D Q n" and u: "(k, u) \<in># Q"
    and Q1: "Q1 \<subseteq># Q - {#(k, u)#}" and f: "fold (relax u) (out_edges G d u) (D, P, Q1, n - 1) = (D', P', Q', n')"
    and s: "single_edges G d" "size Q = n" "n \<le> 1"
  shows "size Q' = n' \<and> n' \<le> 1"
proof -
  have ur: "u \<in> reached D" using q u by (force simp: queue_relaxed_def)
  have "size (Q - {#(k, u)#}) = 0" using s(2,3) size_Diff_singleton [OF u] by simp
  then have "size Q1 = 0" using size_mset_mono [OF Q1] by simp
  moreover have "n' + size Q1 = n - 1 + size Q'" using fold_relax_ok [OF G i ur order_refl f] by blast
  moreover have "n' \<le> n - 1 + length (out_edges G d u)" by (rule fold_relax_count [OF f])
  moreover have "length (out_edges G d u) \<le> 1" using s(1) by (simp add: single_edges_def)
  ultimately show ?thesis using s(3) by simp
qed

lemma wwalk_le_inf: "weights_ok G \<Longrightarrow> wwalk G d s x v \<Longrightarrow> x \<le> double_inf"
  by (erule wwalk.induct) (simp_all add: double_add_le_inf out_edge_weight)

text \<open>At the end the distances are the least lengths of walks.\<close>

lemma relaxed_least:
  assumes G: "ends_ok G" "weights_ok G" and i: "dists_ok G d s D P" and r: "relaxed G d D {}" and w: "wwalk G d s x v"
  shows "the (D v) \<le> x"
  using w
proof induction
  case start
  then show ?case using dists_okD(2) [OF i] by simp
next
  case (step x u e)
  note x = wwalk_le_inf [OF G(2) step(1)] and we = out_edge_weight [OF G(2) step(2)]
  obtain y where y: "D (edge_other u e) = Some y" "y \<le> DBL_MAX" using out_edges_ends(1) [OF G(1) step(2)] dists_okD(1,4) [OF i] by blast
  obtain z where z: "D u = Some z" "z \<le> DBL_MAX" using out_edges_ends(2) [OF G(1) step(2)] dists_okD(1,4) [OF i] by blast
  show ?case
  proof (cases "z < DBL_MAX")
    case True
    then have "the (D (edge_other u e)) \<le> double_add (the (D u)) (edge_weight e)" using r step(2) z(1) by (auto simp: relaxed_def reached_def)
    also have "\<dots> \<le> double_add x (edge_weight e)" by (rule double_add_mono [OF step.IH x we])
    finally show ?thesis .
  next
    case False
    then have "DBL_MAX \<le> x" using z step.IH by simp
    then show ?thesis using y double_add_ge [OF x we] by simp
  qed
qed

lemma dists_least:
  assumes "ends_ok G" "weights_ok G" "dists_ok G d s D P" "relaxed G d D {}"
  shows "D v = (if g_labels G v = None then None else if \<exists>x < DBL_MAX. wwalk G d s x v then Some (LEAST x. wwalk G d s x v) else Some DBL_MAX)"
proof (cases "D v")
  case None
  then have "g_labels G v = None" using dists_okD(1) [OF assms(3)] by (metis domIff)
  then show ?thesis using None by simp
next
  case (Some y)
  have l: "g_labels G v \<noteq> None" using Some dists_okD(1) [OF assms(3)] by auto
  show ?thesis
  proof (cases "y < DBL_MAX")
    case True
    then have "wwalk G d s y v" using dists_okD(5) [OF assms(3), of v] Some by (simp add: reached_def)
    moreover have "y \<le> x" if "wwalk G d s x v" for x using relaxed_least [OF assms that] Some by simp
    ultimately have "(LEAST x. wwalk G d s x v) = y" "\<exists>x < DBL_MAX. wwalk G d s x v" using True by (auto intro: Least_equality)
    then show ?thesis using l Some by simp
  next
    case False
    then have "y = DBL_MAX" using dists_okD(4) [OF assms(3) Some] by simp
    then have "\<not> (\<exists>x < DBL_MAX. wwalk G d s x v)" using relaxed_least [OF assms] Some by (metis leD option.sel)
    then show ?thesis using l Some \<open>y = DBL_MAX\<close> by auto
  qed
qed

lemma wsearch_start:
  assumes s: "g_labels G s \<noteq> None" and D: "D = (\<lambda>v. if g_labels G v = None then None else Some DBL_MAX)(s \<mapsto> 0)"
  shows "dists_ok G d s D Map.empty" "queue_relaxed G d D {#(DBL_MAX, s)#} 1"
proof -
  have r: "reached D = {s}" using DBL_MAX_le(2) by (auto simp: reached_def D split: if_splits)
  have "wwalk G d s 0 s" by (rule wwalk.start)
  then show "dists_ok G d s D Map.empty" using s r DBL_MAX_le(2) by (auto simp: dists_ok_def D split: if_splits)
  show "queue_relaxed G d D {#(DBL_MAX, s)#} 1" using r by (simp add: queue_relaxed_def relaxed_def)
qed

end
