(* ===== verification/Fib_Rings.thy ===== *)
theory Fib_Rings
  imports Fib_Heap Linked_Rings "HOL-Library.Disjoint_Sets"
begin

text \<open>
  The circles of a Fibonacci heap: a set of nodes whose links run round a ring. Linking a node in and taking one out, as the
  statements of the code do it, keep the circle; following \<^verbatim>\<open>right\<close> leads from every node of a circle to every other.
\<close>

section \<open>Accesses\<close>

lemma at_Some [simp]: "at m (Some a) = (if a \<in> dom (fm_key m) then Some a else None)"
  by (auto simp: at_def)

lemma access_Some [simp]:
  assumes "a \<in> dom (fm_key m)"
  shows "get_left m (Some a) = Some (fm_left m a)" "get_right m (Some a) = Some (fm_right m a)" "get_child m (Some a) = Some (fm_child m a)"
    "get_parent m (Some a) = Some (fm_parent m a)" "get_deg m (Some a) = Some (fm_degree m a)" "get_mark m (Some a) = Some (fm_mark m a)"
    "get_key m (Some a) = Some (the (fm_key m a))" "get_value m (Some a) = Some (fm_value m a)"
    "put_left m (Some a) q = Some (m\<lparr>fm_left := (fm_left m)(a := q)\<rparr>)" "put_right m (Some a) q = Some (m\<lparr>fm_right := (fm_right m)(a := q)\<rparr>)"
    "put_child m (Some a) q = Some (m\<lparr>fm_child := (fm_child m)(a := q)\<rparr>)" "put_parent m (Some a) q = Some (m\<lparr>fm_parent := (fm_parent m)(a := q)\<rparr>)"
    "put_degree m (Some a) d = Some (m\<lparr>fm_degree := (fm_degree m)(a := d)\<rparr>)" "put_mark m (Some a) b = Some (m\<lparr>fm_mark := (fm_mark m)(a := b)\<rparr>)"
    "free_node m (Some a) = Some (m\<lparr>fm_key := (fm_key m)(a := None)\<rparr>)"
  using assms by (auto simp: get_left_def get_right_def get_child_def get_parent_def get_deg_def get_mark_def get_key_def get_value_def put_left_def put_right_def
      put_child_def put_parent_def put_degree_def put_mark_def free_node_def)

text \<open>The memory after \<open>y\<close> is linked in between \<open>x\<close> and \<open>r\<close>, and after the node between \<open>l\<close> and \<open>r\<close> is taken out.\<close>

definition linked :: "fmem \<Rightarrow> addr \<Rightarrow> addr \<Rightarrow> addr \<Rightarrow> fmem" where
  "linked m x y r = m\<lparr>fm_left := (fm_left m)(y := Some x, r := Some y), fm_right := (fm_right m)(y := Some r, x := Some y)\<rparr>"

definition unlinked :: "fmem \<Rightarrow> addr \<Rightarrow> addr \<Rightarrow> fmem" where
  "unlinked m l r = m\<lparr>fm_left := (fm_left m)(r := Some l), fm_right := (fm_right m)(l := Some r)\<rparr>"

lemma linked_sel [simp]:
  "fm_key (linked m x y r) = fm_key m" "fm_value (linked m x y r) = fm_value m" "fm_parent (linked m x y r) = fm_parent m"
  "fm_child (linked m x y r) = fm_child m" "fm_degree (linked m x y r) = fm_degree m" "fm_brk (linked m x y r) = fm_brk m"
  "fm_left (linked m x y r) = (fm_left m)(y := Some x, r := Some y)" "fm_right (linked m x y r) = (fm_right m)(y := Some r, x := Some y)"
  by (simp_all add: linked_def)

lemma unlinked_sel [simp]:
  "fm_key (unlinked m l r) = fm_key m" "fm_value (unlinked m l r) = fm_value m" "fm_parent (unlinked m l r) = fm_parent m"
  "fm_child (unlinked m l r) = fm_child m" "fm_degree (unlinked m l r) = fm_degree m" "fm_brk (unlinked m l r) = fm_brk m"
  "fm_left (unlinked m l r) = (fm_left m)(r := Some l)" "fm_right (unlinked m l r) = (fm_right m)(l := Some r)"
  by (simp_all add: unlinked_def)

lemma unlink_eq:
  assumes "y \<in> dom (fm_key m)" "l \<in> dom (fm_key m)" "r \<in> dom (fm_key m)" "fm_left m y = Some l" "fm_right m y = Some r"
  shows "unlink m (Some y) = Some (unlinked m l r)"
  using assms by (simp add: unlink_def unlinked_def)

lemma link_eq:
  assumes "x \<in> dom (fm_key m)" "y \<in> dom (fm_key m)" "r \<in> dom (fm_key m)" "fm_right m x = Some r" "x \<noteq> y" "r \<noteq> y"
  shows "link_right m (Some x) (Some y) = Some (linked m x y r)" "link_root m (Some x) (Some y) = Some (linked m x y r)"
  using assms by (simp_all add: link_right_def link_root_def linked_def fun_upd_twist)

lemma self_link_eq:
  assumes "y \<in> dom (fm_key m)"
  shows "self_link m (Some y) = Some (m\<lparr>fm_left := (fm_left m)(y := Some y), fm_right := (fm_right m)(y := Some y)\<rparr>)"
  using assms by (simp add: self_link_def)

section \<open>Rings\<close>

definition ring :: "fmem \<Rightarrow> addr set \<Rightarrow> bool" where
  "ring m S \<longleftrightarrow> (\<exists>cs. distinct cs \<and> set cs = S \<and> (\<forall>a \<in> S. fm_right m a = nxt cs a \<and> fm_left m a = prv cs a))"

lemma ring_cong: "ring m S \<Longrightarrow> (\<And>a. a \<in> S \<Longrightarrow> fm_right m' a = fm_right m a \<and> fm_left m' a = fm_left m a) \<Longrightarrow> ring m' S"
  unfolding ring_def by metis

lemma ring_empty [simp]: "ring m {}"
  by (simp add: ring_def)

lemma ring_self: "fm_right m a = Some a \<Longrightarrow> fm_left m a = Some a \<Longrightarrow> ring m {a}"
  unfolding ring_def by (intro exI [of _ "[a]"]) (simp add: nxt_def prv_def)

lemma ring_finite: "ring m S \<Longrightarrow> finite S"
  by (auto simp: ring_def)

lemma ring_neighbours:
  assumes "ring m S" "a \<in> S"
  obtains l r where "fm_right m a = Some r" "fm_left m a = Some l" "l \<in> S" "r \<in> S" "fm_left m r = Some a" "fm_right m l = Some a"
proof -
  obtain cs where cs: "distinct cs" "set cs = S" "\<forall>a \<in> S. fm_right m a = nxt cs a \<and> fm_left m a = prv cs a" using assms(1) by (auto simp: ring_def)
  obtain r where r: "nxt cs a = Some r" using nxt_dom [of cs] assms(2) cs(2) by (metis domD)
  have "a \<in> ran (nxt cs)"
  proof -
    have "ran (nxt cs) = set (rotate1 cs)" unfolding nxt_def using cs(1) by (subst ran_map_of_zip) simp_all
    then show ?thesis using assms(2) cs(2) by simp
  qed
  then obtain l where l: "nxt cs l = Some a" by (auto simp: ran_def)
  have "l \<in> S" "r \<in> S" using nxt_SomeD [OF l] nxt_SomeD [OF r] cs(2) by auto
  moreover have "prv cs a = Some l" "prv cs r = Some a" using l r prv_nxt [OF cs(1)] by simp_all
  ultimately show thesis using that [of r l] l r cs(3) assms(2) by simp
qed

lemma ring_alone:
  assumes "ring m S" "a \<in> S"
  shows "fm_right m a = Some a \<longleftrightarrow> S = {a}"
proof -
  obtain cs where cs: "distinct cs" "set cs = S" "\<forall>a \<in> S. fm_right m a = nxt cs a \<and> fm_left m a = prv cs a" using assms(1) by (auto simp: ring_def)
  obtain as bs where s: "cs = as @ a # bs" using assms(2) cs(2) by (auto dest: split_list)
  have n: "fm_right m a = Some (hd (bs @ as @ [a]))" using nxt_middle [of as a bs] cs s assms(2) by simp
  have "hd (bs @ as @ [a]) = a \<longleftrightarrow> as = [] \<and> bs = []" using cs(1) s by (cases bs; cases as) auto
  moreover have "S = {a} \<longleftrightarrow> as = [] \<and> bs = []"
  proof
    assume "S = {a}"
    then have "length cs = 1" using distinct_card [OF cs(1)] cs(2) by simp
    then show "as = [] \<and> bs = []" using s by simp
  qed (use cs(2) s in simp)
  ultimately show ?thesis using n by simp
qed

lemma ring_insert:
  assumes "ring m S" "x \<in> S" "y \<notin> S" "fm_right m x = Some r"
  shows "ring (linked m x y r) (insert y S)"
proof -
  obtain cs where cs: "distinct cs" "set cs = S" "\<forall>a \<in> S. fm_right m a = nxt cs a \<and> fm_left m a = prv cs a" using assms(1) by (auto simp: ring_def)
  obtain as bs where s: "cs = as @ x # bs" using assms(2) cs(2) by (auto dest: split_list)
  let ?ds = "bs @ as @ [x]"
  have ds: "distinct ?ds" "?ds \<noteq> []" "set ?ds = S" "distinct (?ds @ [y])" "last ?ds = x" using cs(1,2) s assms(3) by auto
  have ring: "nxt cs = nxt ?ds" using nxt_rotate [of bs "as @ [x]"] ds(1) by (simp add: s)
  have "prv cs b = prv ?ds b" for b
    using prv_nxt [OF cs(1), of b] prv_nxt [OF ds(1), of b] ring by (metis not_None_eq)
  then have ring': "prv cs = prv ?ds" by (rule ext)
  have hm: "hd ?ds \<in> S" using hd_in_set [OF ds(2)] ds(3) by metis
  have r: "r = hd ?ds" using nxt_last [OF ds(1,2)] assms(2,4) cs(3) ring ds(5) by simp
  show ?thesis unfolding ring_def
  proof (intro exI conjI ballI)
    fix a assume a: "a \<in> insert y S"
    show "fm_right (linked m x y r) a = nxt (?ds @ [y]) a" unfolding nxt_append [OF ds(4,2)] using a assms(2,3) cs(3) ring ds(5) r by auto
    show "fm_left (linked m x y r) a = prv (?ds @ [y]) a" unfolding prv_append [OF ds(4,2)] using a assms(2,3) cs(3) ring' ds(5) r hm by auto
  qed (use ds in auto)
qed

lemma ring_remove:
  assumes "ring m S" "y \<in> S" "fm_left m y = Some l" "fm_right m y = Some r"
  shows "ring (unlinked m l r) (S - {y})"
proof (cases "S = {y}")
  case False
  obtain cs where cs: "distinct cs" "set cs = S" "\<forall>a \<in> S. fm_right m a = nxt cs a \<and> fm_left m a = prv cs a" using assms(1) by (auto simp: ring_def)
  obtain as bs where s: "cs = as @ y # bs" using assms(2) cs(2) by (auto dest: split_list)
  have ne: "as @ bs \<noteq> []" using False cs(2) s by auto
  have d: "distinct (as @ y # bs)" using cs(1) s by simp
  obtain p q where p: "prv cs y = Some p" "nxt cs y = Some q" "nxt (as @ bs) = (nxt cs)(y := None, p \<mapsto> q)" "prv (as @ bs) = (prv cs)(y := None, q \<mapsto> p)"
    using nxt_remove [OF d ne] unfolding s by blast
  then have "p = l" "q = r" using assms cs(3) by auto
  then show ?thesis unfolding ring_def
    by (intro exI [of _ "as @ bs"]) (use d cs s p in auto)
qed simp

section \<open>Going round\<close>

fun hop :: "fmem \<Rightarrow> nat \<Rightarrow> addr \<Rightarrow> addr option" where
  "hop m 0 a = Some a"
| "hop m (Suc k) a = do { r \<leftarrow> fm_right m a; hop m k r }"

lemma nxt_nth:
  assumes "distinct cs" "i < length cs"
  shows "nxt cs (cs ! i) = Some (cs ! (Suc i mod length cs))"
proof -
  have "map_of (zip cs (rotate1 cs)) (cs ! i) = Some (rotate1 cs ! i)" by (rule map_of_zip_nth) (use assms in simp_all)
  then show ?thesis using assms(2) by (simp add: nxt_def nth_rotate1)
qed

lemma ring_hop:
  assumes "ring m S" "a \<in> S" "b \<in> S"
  shows "\<exists>k > 0. hop m k a = Some b"
proof -
  obtain cs where cs: "distinct cs" "set cs = S" "\<forall>a \<in> S. fm_right m a = nxt cs a" using assms(1) by (auto simp: ring_def)
  obtain i j where i: "i < length cs" "cs ! i = a" and j: "j < length cs" "cs ! j = b" using assms(2,3) cs(2) by (metis in_set_conv_nth)
  let ?n = "length cs"
  have h: "hop m k (cs ! i) = Some (cs ! ((i + k) mod ?n))" if "i < ?n" for i k
    using that
  proof (induction k arbitrary: i)
    case (Suc k)
    have "fm_right m (cs ! i) = Some (cs ! (Suc i mod ?n))" using nxt_nth [OF cs(1) Suc.prems] cs(2,3) nth_mem [OF Suc.prems] by auto
    moreover have "(Suc i mod ?n + k) mod ?n = (i + Suc k) mod ?n" by (simp add: mod_add_left_eq)
    moreover have "Suc i mod ?n < ?n" using Suc.prems by (intro mod_less_divisor) auto
    ultimately show ?case using Suc.IH [of "Suc i mod ?n"] by simp
  qed simp
  have "hop m (j + ?n - i) a = Some b" using h [OF i(1), of "j + ?n - i"] i j by simp
  moreover have "j + ?n - i > 0" using i(1) by simp
  ultimately show ?thesis by blast
qed

end
