(* ===== verification/Fib_Trees.thy ===== *)
theory Fib_Trees
  imports Main "HOL-Library.Disjoint_Sets"
begin

text \<open>
  The trees of a heap, without its pointers: \<open>K None\<close> are the roots, \<open>K (Some a)\<close> the children of \<open>a\<close>, \<open>T a\<close> the nodes of the tree at \<open>a\<close> and
  \<open>A\<close> all nodes. The lemmas are the changes the operations make: a root becomes a child of another, a child becomes a root, a root without
  children goes away, and some of the roots are kept with their trees.
\<close>

definition tree_at :: "'a set \<Rightarrow> 'a set \<Rightarrow> ('a \<Rightarrow> 'a set) \<Rightarrow> 'a \<Rightarrow> bool" where
  "tree_at S A T a \<longleftrightarrow> T a \<subseteq> A \<and> T a = insert a (\<Union>(T ` S)) \<and> a \<notin> \<Union>(T ` S) \<and> disjoint_family_on T S"

definition trees :: "('a option \<Rightarrow> 'a set) \<Rightarrow> 'a set \<Rightarrow> ('a \<Rightarrow> 'a set) \<Rightarrow> bool" where
  "trees K A T \<longleftrightarrow> (\<forall>a \<in> A. tree_at (K (Some a)) A T a) \<and>
     A = \<Union>(T ` K None) \<and> disjoint_family_on T (K None) \<and> (\<forall>p. K p \<subseteq> A) \<and> (\<forall>p q. p \<noteq> q \<longrightarrow> K p \<inter> K q = {})"

lemma tree_at_cong: "T' a = T a \<Longrightarrow> (\<And>c. c \<in> S \<Longrightarrow> T' c = T c) \<Longrightarrow> tree_at S A T' a \<longleftrightarrow> tree_at S A T a"
  by (simp add: tree_at_def disjoint_family_on_def)

lemma treesI:
  assumes "\<And>a. a \<in> A \<Longrightarrow> tree_at (K (Some a)) A T a" "A = \<Union>(T ` K None)" "disjoint_family_on T (K None)" "\<And>p. K p \<subseteq> A" "\<And>p q. p \<noteq> q \<Longrightarrow> K p \<inter> K q = {}"
  shows "trees K A T"
  unfolding trees_def using assms by (intro conjI ballI allI impI)

lemma treesD:
  assumes "trees K A T"
  shows "a \<in> A \<Longrightarrow> T a \<subseteq> A" "a \<in> A \<Longrightarrow> T a = insert a (\<Union>(T ` K (Some a)))" "a \<in> A \<Longrightarrow> a \<notin> \<Union>(T ` K (Some a))"
    "a \<in> A \<Longrightarrow> disjoint_family_on T (K (Some a))" "A = \<Union>(T ` K None)" "disjoint_family_on T (K None)" "K p \<subseteq> A" "a \<in> K p \<Longrightarrow> a \<in> K q \<Longrightarrow> p = q"
    "a \<in> A \<Longrightarrow> a \<in> T a" "c \<in> K (Some a) \<Longrightarrow> a \<in> A \<Longrightarrow> T c \<subseteq> T a"
    "a \<in> A \<Longrightarrow> tree_at (K (Some a)) A T a"
  using assms unfolding trees_def tree_at_def by blast+

lemma disjoint_onD: "disjoint_family_on T S \<Longrightarrow> a \<in> S \<Longrightarrow> b \<in> S \<Longrightarrow> a \<noteq> b \<Longrightarrow> T a \<inter> T b = {}"
  by (auto simp: disjoint_family_on_def)

lemma trees_sub:
  assumes t: "trees K A T" and fin: "finite A" and a: "a \<in> A" and b: "b \<in> T a"
  shows "b \<in> A" "T b \<subseteq> T a"
proof -
  show "b \<in> A" using treesD(1) [OF t a] b by blast
  have "\<forall>b \<in> T a. T b \<subseteq> T a"
    using a
  proof (induction "card (T a)" arbitrary: a rule: less_induct)
    case less
    show ?case
    proof
      fix b assume "b \<in> T a"
      then consider "b = a" | c where "c \<in> K (Some a)" "b \<in> T c" using treesD(2) [OF t less.prems] by blast
      then show "T b \<subseteq> T a"
      proof cases
        case 2
        have c: "c \<in> A" "T c \<subseteq> T a" using treesD(7,10) [OF t] 2(1) less.prems by blast+
        have "a \<notin> T c" "a \<in> T a" using treesD(3,9) [OF t less.prems] 2(1) by blast+
        then have "card (T c) < card (T a)" using c(2) finite_subset [OF treesD(1) [OF t less.prems] fin] by (intro psubset_card_mono) auto
        then show ?thesis using less.hyps [OF _ c(1)] 2(2) c(2) by blast
      qed simp
    qed
  qed
  then show "T b \<subseteq> T a" using b by blast
qed

lemma trees_join:
  assumes t: "trees K A T" and x: "x \<in> K None" and y: "y \<in> K None" "y \<noteq> x"
  shows "trees (K(None := K None - {y}, Some x := insert y (K (Some x)))) A (T(x := T x \<union> T y))"
proof -
  note d = treesD [OF t]
  have xy: "x \<in> A" "y \<in> A" using d(7) x y(1) by blast+
  have dj: "T x \<inter> T y = {}" using disjoint_onD [OF d(6) x y(1)] y(2) by blast
  have kx: "x \<notin> K (Some a)" "y \<notin> K (Some a)" for a using d(8) [of x None "Some a"] d(8) [of y None "Some a"] x y(1) by auto
  let ?K = "K(None := K None - {y}, Some x := insert y (K (Some x)))" let ?T = "T(x := T x \<union> T y)"
  have "tree_at (?K (Some a)) A ?T a" if a: "a \<in> A" for a
  proof (cases "a = x")
    case True
    have im: "?T ` insert y (K (Some x)) = T ` insert y (K (Some x))" using kx(1) [of x] y(2) by auto
    have "disjoint_family_on ?T (insert y (K (Some x)))"
      unfolding disjoint_family_on_def using d(4) [OF xy(1)] d(10) [OF _ xy(1)] dj kx [of x] y(2) by (auto simp: disjoint_family_on_def) blast+
    moreover have "x \<notin> T y" using d(9) [OF xy(1)] dj by blast
    ultimately show ?thesis using True d(1) [OF xy(1)] d(1) [OF xy(2)] d(2,3) [OF xy(1)] unfolding True fun_upd_same im tree_at_def by auto
  next
    case False
    have "tree_at (K (Some a)) A ?T a \<longleftrightarrow> tree_at (K (Some a)) A T a" by (rule tree_at_cong) (use False kx(1) [of a] in auto)
    then show ?thesis using False d(11) [OF a] by simp
  qed
  moreover have "A = \<Union>(?T ` (K None - {y}))" using d(5) x y by auto
  moreover have "disjoint_family_on ?T (K None - {y})" using d(6) x y by (auto simp: disjoint_family_on_def)
  moreover have "\<forall>p. ?K p \<subseteq> A" using d(7) xy by auto
  moreover have "\<forall>p q. p \<noteq> q \<longrightarrow> ?K p \<inter> ?K q = {}" using d(8) kx(2) y(1) by (auto 4 4)
  ultimately show ?thesis unfolding trees_def by simp
qed

lemma trees_lift:
  assumes t: "trees K A T" and z: "z \<in> K None" and c: "c \<in> K (Some z)"
  shows "trees (K(None := insert c (K None), Some z := K (Some z) - {c})) A (T(z := T z - T c))"
proof -
  note d = treesD [OF t]
  have zc: "z \<in> A" "c \<in> A" "z \<noteq> c" using d(7,8) z c by blast+
  have kz: "z \<notin> K (Some a)" for a using d(8) [of z None "Some a"] z by auto
  let ?K = "K(None := insert c (K None), Some z := K (Some z) - {c})" let ?T = "T(z := T z - T c)"
  have other: "T c \<inter> T a = {}" if "a \<in> K (Some z)" "a \<noteq> c" for a using disjoint_onD [OF d(4) [OF zc(1)] c that(1)] that(2) by blast
  have zn: "z \<notin> T c" using d(3) [OF zc(1)] c by blast
  have "tree_at (?K (Some a)) A ?T a" if a: "a \<in> A" for a
  proof (cases "a = z")
    case True
    have im: "?T ` (K (Some z) - {c}) = T ` (K (Some z) - {c})" using kz [of z] by auto
    have "T z - T c = insert z (\<Union>(T ` (K (Some z) - {c})))" using d(2) [OF zc(1)] zn other by blast
    moreover have "disjoint_family_on ?T (K (Some z) - {c})" using d(4) [OF zc(1)] kz [of z] by (auto simp: disjoint_family_on_def)
    ultimately show ?thesis unfolding True fun_upd_same im tree_at_def using d(1) [OF zc(1)] d(3) [OF zc(1)] by blast
  next
    case False
    have "tree_at (K (Some a)) A ?T a \<longleftrightarrow> tree_at (K (Some a)) A T a" by (rule tree_at_cong) (use False kz [of a] in auto)
    then show ?thesis using False d(11) [OF a] by simp
  qed
  moreover have cz: "T c \<subseteq> T z" by (rule d(10) [OF c zc(1)])
  moreover have "A = \<Union>(?T ` insert c (K None))"
  proof -
    have "\<Union>(?T ` insert c (K None)) = T c \<union> (T z - T c) \<union> \<Union>(T ` (K None - {z}))" using z zc(3) by auto
    also have "\<dots> = \<Union>(T ` K None)" using cz z by auto
    finally show ?thesis using d(5) by simp
  qed
  moreover have "disjoint_family_on ?T (insert c (K None))"
    unfolding disjoint_family_on_def using disjoint_onD [OF d(6) z] disjoint_onD [OF d(6)] cz zc(3) by auto blast+
  moreover have "\<forall>p. ?K p \<subseteq> A" using d(7) zc by auto
  moreover have "\<forall>p q. p \<noteq> q \<longrightarrow> ?K p \<inter> ?K q = {}" using d(8) c by (auto 4 4)
  ultimately show ?thesis unfolding trees_def by simp
qed

lemma trees_drop:
  assumes t: "trees K A T" and fin: "finite A" and z: "z \<in> K None" "K (Some z) = {}"
  shows "trees (\<lambda>p. K p - {z}) (A - {z}) T"
proof -
  note d = treesD [OF t]
  have zA: "z \<in> A" using d(7) z(1) by blast
  have Tz: "T z = {z}" using d(2) [OF zA] z(2) by simp
  have nz: "z \<notin> T r" if "r \<in> K None" "r \<noteq> z" for r using disjoint_onD [OF d(6) z(1) that(1)] that(2) Tz by blast
  have K: "K (Some a) - {z} = K (Some a)" for a using d(8) [of z None "Some a"] z(1) by auto
  have na: "T a \<subseteq> A - {z}" if a: "a \<in> A - {z}" for a
  proof -
    have aA: "a \<in> A" "a \<noteq> z" using a by simp_all
    have "z \<notin> T a"
    proof
      assume "z \<in> T a"
      moreover obtain r where r: "r \<in> K None" "a \<in> T r" using d(5) aA(1) by blast
      moreover have "r \<noteq> z" using r(2) Tz aA(2) by blast
      moreover have "T a \<subseteq> T r" using trees_sub(2) [OF t fin _ r(2)] r(1) d(7) by blast
      ultimately show False using nz [OF r(1)] by blast
    qed
    then show ?thesis using d(1) [OF aA(1)] by blast
  qed
  have "A - {z} = \<Union>(T ` (K None - {z}))" using d(5) Tz nz z(1) by (auto 4 4)
  moreover have "disjoint_family_on T (K None - {z})" using d(6) by (auto simp: disjoint_family_on_def)
  moreover have "tree_at (K (Some a)) (A - {z}) T a" if "a \<in> A - {z}" for a using na [OF that] d(11) [of a] that by (simp add: tree_at_def)
  moreover have "K p - {z} \<subseteq> A - {z}" "p \<noteq> q \<Longrightarrow> (K p - {z}) \<inter> (K q - {z}) = {}" for p q using d(7) [of p] d(8) by blast+
  ultimately show ?thesis by (intro treesI) (simp_all only: K)
qed

lemma trees_keep:
  assumes t: "trees K A T" and fin: "finite A" and R: "R \<subseteq> K None"
  shows "trees (\<lambda>p. K p \<inter> \<Union>(T ` R)) (\<Union>(T ` R)) T" "K None \<inter> \<Union>(T ` R) = R" "\<And>a. a \<in> \<Union>(T ` R) \<Longrightarrow> K (Some a) \<subseteq> \<Union>(T ` R)"
proof -
  note d = treesD [OF t]
  have RA: "R \<subseteq> A" using R d(7) by blast
  have sub: "T a \<subseteq> \<Union>(T ` R)" "a \<in> A" if "a \<in> \<Union>(T ` R)" for a using that trees_sub [OF t fin] RA by blast+
  show ks: "K (Some a) \<subseteq> \<Union>(T ` R)" if a: "a \<in> \<Union>(T ` R)" for a
  proof
    fix c assume c: "c \<in> K (Some a)"
    then have "c \<in> T c" "T c \<subseteq> T a" using d(7,9,10) sub(2) [OF a] by blast+
    then show "c \<in> \<Union>(T ` R)" using sub(1) [OF a] by blast
  qed
  show rs: "K None \<inter> \<Union>(T ` R) = R"
  proof
    show "R \<subseteq> K None \<inter> \<Union>(T ` R)" using R RA d(9) by blast
    show "K None \<inter> \<Union>(T ` R) \<subseteq> R"
    proof
      fix a assume a: "a \<in> K None \<inter> \<Union>(T ` R)"
      then obtain r where r: "r \<in> R" "a \<in> T r" by blast
      have "a \<in> T a" using a d(7,9) by blast
      then show "a \<in> R" using disjoint_onD [OF d(6), of a r] a r R by blast
    qed
  qed
  have K: "K (Some a) \<inter> \<Union>(T ` R) = K (Some a)" if "a \<in> \<Union>(T ` R)" for a using ks [OF that] by blast
  have "disjoint_family_on T R" using d(6) R by (auto simp: disjoint_family_on_def)
  moreover have "\<forall>p q. p \<noteq> q \<longrightarrow> K p \<inter> \<Union>(T ` R) \<inter> (K q \<inter> \<Union>(T ` R)) = {}" using d(8) by blast
  moreover have "tree_at (K (Some a)) (\<Union>(T ` R)) T a" if "a \<in> \<Union>(T ` R)" for a using sub [OF that] d(11) [of a] by (simp add: tree_at_def)
  ultimately show "trees (\<lambda>p. K p \<inter> \<Union>(T ` R)) (\<Union>(T ` R)) T"
    by (intro treesI) (use K rs in simp_all)
qed

lemma trees_add:
  assumes t: "trees K A T" and b: "b \<notin> A" "K (Some b) = {}"
  shows "trees (K(None := insert b (K None))) (insert b A) (T(b := {b}))"
proof -
  note d = treesD [OF t]
  have nb: "b \<notin> K p" for p using d(7) b(1) by blast
  have nbT: "b \<notin> T a" if "a \<in> K None" for a using d(1,7) that b(1) by blast
  show ?thesis
  proof (rule treesI)
    fix a assume a: "a \<in> insert b A"
    show "tree_at ((K(None := insert b (K None))) (Some a)) (insert b A) (T(b := {b})) a"
    proof (cases "a = b")
      case True
      then show ?thesis using b(2) by (simp add: tree_at_def disjoint_family_on_def)
    next
      case False
      then have "a \<in> A" using a by simp
      moreover have "tree_at (K (Some a)) A (T(b := {b})) a \<longleftrightarrow> tree_at (K (Some a)) A T a" by (rule tree_at_cong) (use False nb [of "Some a"] in auto)
      ultimately show ?thesis using d(11) by (auto simp: tree_at_def)
    qed
  next
    have im: "(T(b := {b})) ` K None = T ` K None" using nb [of None] by auto
    then show "insert b A = \<Union>((T(b := {b})) ` (K(None := insert b (K None))) None)" using d(5) by (simp only: fun_upd_same image_insert Union_insert) blast
    show "disjoint_family_on (T(b := {b})) ((K(None := insert b (K None))) None)"
      using d(6) nb [of None] nbT unfolding disjoint_family_on_def by auto
    show "(K(None := insert b (K None))) p \<subseteq> insert b A" for p using d(7) by auto
    show "(K(None := insert b (K None))) p \<inter> (K(None := insert b (K None))) q = {}" if "p \<noteq> q" for p q
      by (cases p; cases q) (use d(8) nb that in auto)
  qed
qed

end
