(* ===== verification/Fib_Heap_Inv.thy ===== *)
theory Fib_Heap_Inv
  imports Fib_Rings Fib_Trees
begin

text \<open>
  The invariant of Fibonacci heaps and the operations of \<open>Fib_Heap\<close> that \<^verbatim>\<open>extract_min\<close> is made of. \<open>A\<close> are the nodes of a heap, \<open>T\<close> their
  trees; nodes in \<open>X\<close> have a \<^verbatim>\<open>child\<close> and a \<^verbatim>\<open>degree\<close> that are out of date. A tree has at least as many nodes as the power of two of its degree.
\<close>

section \<open>The invariant\<close>

definition kids :: "fmem \<Rightarrow> addr set \<Rightarrow> addr option \<Rightarrow> addr set" where
  "kids m A p = {a \<in> A. fm_parent m a = p}"

definition fnode_ok :: "fmem \<Rightarrow> addr set \<Rightarrow> nat \<Rightarrow> addr \<Rightarrow> bool" where
  "fnode_ok m S n a \<longleftrightarrow> fm_degree m a = card S \<and> (case fm_child m a of None \<Rightarrow> S = {} | Some c \<Rightarrow> c \<in> S) \<and> 2 ^ fm_degree m a \<le> n"

definition fib_forest :: "fmem \<Rightarrow> addr set \<Rightarrow> (addr \<Rightarrow> addr set) \<Rightarrow> addr set \<Rightarrow> bool" where
  "fib_forest m A T X \<longleftrightarrow> finite A \<and> A \<subseteq> dom (fm_key m) \<and> dom (fm_key m) \<subseteq> {..<fm_brk m} \<and> (\<forall>a \<in> A. \<not> is_nan (the (fm_key m a))) \<and>
     trees (kids m A) A T \<and>
     (\<forall>a \<in> A. \<forall>p. fm_parent m a = Some p \<longrightarrow> p \<in> A \<and> \<not> double_less (the (fm_key m a)) (the (fm_key m p))) \<and>
     (\<forall>a \<in> A. ring m (kids m A (Some a))) \<and> (\<forall>a \<in> A - X. fnode_ok m (kids m A (Some a)) (card (T a)) a)"

lemma fib_forestD:
  assumes "fib_forest m A T X"
  shows "finite A" "A \<subseteq> dom (fm_key m)" "dom (fm_key m) \<subseteq> {..<fm_brk m}" "a \<in> A \<Longrightarrow> \<not> is_nan (the (fm_key m a))" "trees (kids m A) A T"
    "a \<in> A \<Longrightarrow> fm_parent m a = Some p \<Longrightarrow> p \<in> A" "a \<in> A \<Longrightarrow> fm_parent m a = Some p \<Longrightarrow> \<not> double_less (the (fm_key m a)) (the (fm_key m p))"
    "a \<in> A \<Longrightarrow> ring m (kids m A (Some a))" "a \<in> A \<Longrightarrow> a \<notin> X \<Longrightarrow> fnode_ok m (kids m A (Some a)) (card (T a)) a"
  using assms by (simp_all add: fib_forest_def)

lemma fnode_okD: "fnode_ok m S n a \<Longrightarrow> fm_degree m a = card S" "fnode_ok m S n a \<Longrightarrow> 2 ^ fm_degree m a \<le> n"
  unfolding fnode_ok_def by blast+

lemma fnode_ok_cong: "fm_degree m' a = fm_degree m a \<Longrightarrow> fm_child m' a = fm_child m a \<Longrightarrow> fnode_ok m' S n a \<longleftrightarrow> fnode_ok m S n a"
  by (simp add: fnode_ok_def)

lemma fib_forestI:
  assumes "finite A" "A \<subseteq> dom (fm_key m)" "dom (fm_key m) \<subseteq> {..<fm_brk m}" "\<And>a. a \<in> A \<Longrightarrow> \<not> is_nan (the (fm_key m a))" "trees (kids m A) A T"
    "\<And>a p. a \<in> A \<Longrightarrow> fm_parent m a = Some p \<Longrightarrow> p \<in> A \<and> \<not> double_less (the (fm_key m a)) (the (fm_key m p))"
    "\<And>a. a \<in> A \<Longrightarrow> ring m (kids m A (Some a))" "\<And>a. a \<in> A \<Longrightarrow> a \<notin> X \<Longrightarrow> fnode_ok m (kids m A (Some a)) (card (T a)) a"
  shows "fib_forest m A T X"
  using assms by (simp add: fib_forest_def)

definition fsame :: "fmem \<Rightarrow> fmem \<Rightarrow> bool" where
  "fsame m m' \<longleftrightarrow> fm_key m' = fm_key m \<and> fm_value m' = fm_value m \<and> fm_brk m' = fm_brk m"

lemma fsame_refl [simp]: "fsame m m"
  by (simp add: fsame_def)

lemma fsame_trans: "fsame a b \<Longrightarrow> fsame b c \<Longrightarrow> fsame a c"
  by (simp add: fsame_def)

lemma kids_mem: "a \<in> kids m A p \<longleftrightarrow> a \<in> A \<and> fm_parent m a = p"
  by (simp add: kids_def)

lemma kids_finite: "finite A \<Longrightarrow> finite (kids m A p)"
  by (simp add: kids_def)

text \<open>Keys grow down the trees.\<close>

lemma double_less_trans_not: "\<not> is_nan b \<Longrightarrow> \<not> double_less b a \<Longrightarrow> \<not> double_less c b \<Longrightarrow> \<not> double_less c a"
  by (auto simp: double_less_def)

lemma tree_min:
  assumes f: "fib_forest m A T X" and "r \<in> A" "b \<in> T r"
  shows "\<not> double_less (the (fm_key m b)) (the (fm_key m r))"
  using assms(2,3)
proof (induction "card (T r)" arbitrary: r rule: less_induct)
  case less
  note t = fib_forestD(5) [OF f]
  show ?case
  proof (cases "b = r")
    case False
    then obtain c where c: "c \<in> kids m A (Some r)" "b \<in> T c" using treesD(2) [OF t less.prems(1)] less.prems(2) by blast
    have cA: "c \<in> A" "fm_parent m c = Some r" using c(1) by (simp_all add: kids_mem)
    have "r \<notin> T c" "r \<in> T r" "T c \<subseteq> T r" using treesD(3,9) [OF t less.prems(1)] treesD(10) [OF t c(1) less.prems(1)] c(1) by blast+
    then have "card (T c) < card (T r)"
      using finite_subset [OF treesD(1) [OF t less.prems(1)] fib_forestD(1) [OF f]] by (intro psubset_card_mono) auto
    from less.hyps [OF this cA(1) c(2)] show ?thesis
      using fib_forestD(7) [OF f cA] fib_forestD(4) [OF f cA(1)] double_less_trans_not by blast
  qed (simp add: double_less_def)
qed

lemma parent_in_tree:
  assumes f: "fib_forest m A T X" and "r \<in> A" "b \<in> T r" "b \<noteq> r" "fm_parent m b = Some p"
  shows "p \<in> T r"
  using assms(2-5)
proof (induction "card (T r)" arbitrary: r rule: less_induct)
  case less
  note t = fib_forestD(5) [OF f]
  obtain c where c: "c \<in> kids m A (Some r)" "b \<in> T c" using treesD(2) [OF t less.prems(1)] less.prems(2,3) by blast
  have cA: "c \<in> A" "fm_parent m c = Some r" "T c \<subseteq> T r" "r \<in> T r" using c(1) treesD(9) [OF t] treesD(10) [OF t c(1) less.prems(1)] less.prems(1) by (simp_all add: kids_mem)
  show ?case
  proof (cases "b = c")
    case True
    then show ?thesis using cA(2,4) less.prems(4) by simp
  next
    case False
    have "r \<notin> T c" using treesD(3) [OF t less.prems(1)] c(1) by blast
    then have "card (T c) < card (T r)"
      using finite_subset [OF treesD(1) [OF t less.prems(1)] fib_forestD(1) [OF f]] cA(3,4) by (intro psubset_card_mono) auto
    then show ?thesis using less.hyps [OF _ cA(1) c(2) False less.prems(4)] cA(3) by blast
  qed
qed

section \<open>Making a root a child\<close>

lemma make_child_links:
  assumes f: "fib_forest m A T {}" and rg: "ring m (kids m A None)" and x: "x \<in> kids m A None" and y: "y \<in> kids m A None" "y \<noteq> x"
  obtains m' where "fib_heap_make_child m (Some x) (Some y) = Some m'" "fsame m m'" "fm_parent m' = (fm_parent m)(y := Some x)"
    "fm_degree m' = (fm_degree m)(x := fm_degree m x + 1)" "ring m' (kids m A None - {y})" "ring m' (insert y (kids m A (Some x)))"
    "\<forall>a \<in> A - {x}. ring m' (kids m A (Some a)) \<and> fm_child m' a = fm_child m a" "\<exists>c \<in> insert y (kids m A (Some x)). fm_child m' x = Some c"
proof -
  have xA: "x \<in> A" "y \<in> A" "fm_parent m x = None" "fm_parent m y = None" using x y(1) by (simp_all add: kids_mem)
  have dom: "a \<in> A \<Longrightarrow> a \<in> dom (fm_key m)" for a using fib_forestD(2) [OF f] by blast
  obtain l r where lr: "fm_right m y = Some r" "fm_left m y = Some l" "l \<in> kids m A None" "r \<in> kids m A None" by (rule ring_neighbours [OF rg y(1)])
  let ?m1 = "(unlinked m l r)\<lparr>fm_parent := (fm_parent m)(y := Some x)\<rparr>"
  have lrA: "l \<in> A" "r \<in> A" "fm_parent m l = None" "fm_parent m r = None" using lr(3,4) by (simp_all add: kids_mem)
  have u: "unlink m (Some y) = Some (unlinked m l r)" by (rule unlink_eq) (use dom xA lrA lr in auto)
  have roots: "ring ?m1 (kids m A None - {y})" by (rule ring_cong [OF ring_remove [OF rg y(1) lr(2,1)]]) simp
  have other: "ring ?m1 (kids m A (Some a))" if "a \<in> A" for a
    by (rule ring_cong [OF fib_forestD(8) [OF f that]]) (use lrA in \<open>auto simp: kids_mem\<close>)
  have x': "x \<in> dom (fm_key m)" "y \<in> dom (fm_key m)" using dom xA by blast+
  show thesis
  proof (cases "fm_child m x")
    case None
    then have k: "kids m A (Some x) = {}" using fib_forestD(9) [OF f xA(1)] by (simp add: fnode_ok_def)
    let ?m = "?m1\<lparr>fm_child := (fm_child m)(x := Some y), fm_left := (fm_left ?m1)(y := Some y), fm_right := (fm_right ?m1)(y := Some y),
      fm_mark := (fm_mark m)(y := False), fm_degree := (fm_degree m)(x := fm_degree m x + 1)\<rparr>"
    have mc: "fib_heap_make_child m (Some x) (Some y) = Some ?m"
      using u x' None xA by (simp add: fib_heap_make_child_def self_link_eq unlinked_def)
    show thesis
    proof (rule that [OF mc])
      show "ring ?m (kids m A None - {y})" by (rule ring_cong [OF roots]) simp
      show "ring ?m (insert y (kids m A (Some x)))" unfolding k by (rule ring_self) simp_all
      have "ring ?m (kids m A (Some a))" if "a \<in> A" for a by (rule ring_cong [OF other [OF that]]) (use xA in \<open>auto simp: kids_mem\<close>)
      then show "\<forall>a \<in> A - {x}. ring ?m (kids m A (Some a)) \<and> fm_child ?m a = fm_child m a" by simp
    qed (simp_all add: fsame_def)
  next
    case (Some c)
    then have c: "c \<in> kids m A (Some x)" using fib_forestD(9) [OF f xA(1)] by (simp add: fnode_ok_def)
    obtain l' r' where nb: "fm_right m c = Some r'" "r' \<in> kids m A (Some x)" by (rule ring_neighbours [OF fib_forestD(8) [OF f xA(1)] c])
    have cA: "c \<in> A" "r' \<in> A" "fm_parent m c = Some x" "fm_parent m r' = Some x" using c nb(2) by (simp_all add: kids_mem)
    have ne: "c \<noteq> y" "r' \<noteq> y" "c \<noteq> l" "c \<noteq> r" "r' \<noteq> l" "r' \<noteq> r" using cA xA lrA by auto
    have rc: "fm_right ?m1 c = Some r'" using nb(1) ne by simp
    have lk: "link_right ?m1 (Some c) (Some y) = Some (linked ?m1 c y r')" by (rule link_eq) (use dom cA xA ne rc in auto)
    let ?m = "(linked ?m1 c y r')\<lparr>fm_mark := (fm_mark m)(y := False), fm_degree := (fm_degree m)(x := fm_degree m x + 1)\<rparr>"
    have mc: "fib_heap_make_child m (Some x) (Some y) = Some ?m"
      using u x' Some lk by (simp add: fib_heap_make_child_def linked_def unlinked_def)
    have yk: "y \<notin> kids m A (Some x)" using xA by (simp add: kids_mem)
    show thesis
    proof (rule that [OF mc])
      show "ring ?m (kids m A None - {y})" by (rule ring_cong [OF roots]) (use cA in \<open>auto simp: kids_mem\<close>)
      show "ring ?m (insert y (kids m A (Some x)))" by (rule ring_cong [OF ring_insert [OF other [OF xA(1)] c yk rc]]) simp
      have "ring ?m (kids m A (Some a))" if "a \<in> A" "a \<noteq> x" for a
        by (rule ring_cong [OF other [OF that(1)]]) (use xA cA that(2) in \<open>auto simp: kids_mem\<close>)
      then show "\<forall>a \<in> A - {x}. ring ?m (kids m A (Some a)) \<and> fm_child ?m a = fm_child m a" by simp
    qed (use c Some in \<open>simp_all add: fsame_def\<close>)
  qed
qed

lemma make_child_ok:
  assumes f: "fib_forest m A T {}" and rg: "ring m (kids m A None)" and x: "x \<in> kids m A None" and y: "y \<in> kids m A None" "y \<noteq> x"
    and o: "\<not> double_less (the (fm_key m y)) (the (fm_key m x))" and d: "fm_degree m y = fm_degree m x"
  obtains m' where "fib_heap_make_child m (Some x) (Some y) = Some m'" "fsame m m'" "fib_forest m' A (T(x := T x \<union> T y)) {}" "ring m' (kids m' A None)"
    "kids m' A None = kids m A None - {y}" "fm_degree m' = (fm_degree m)(x := fm_degree m x + 1)"
proof -
  obtain m' where m': "fib_heap_make_child m (Some x) (Some y) = Some m'" "fsame m m'" "fm_parent m' = (fm_parent m)(y := Some x)"
    "fm_degree m' = (fm_degree m)(x := fm_degree m x + 1)" "ring m' (kids m A None - {y})" "ring m' (insert y (kids m A (Some x)))"
    and oth: "\<forall>a \<in> A - {x}. ring m' (kids m A (Some a)) \<and> fm_child m' a = fm_child m a" and ch: "\<exists>c \<in> insert y (kids m A (Some x)). fm_child m' x = Some c" by (rule make_child_links [OF f rg x y])
  note t = fib_forestD(5) [OF f]
  have xA: "x \<in> A" "y \<in> A" "fm_parent m x = None" "fm_parent m y = None" using x y(1) by (simp_all add: kids_mem)
  have K: "kids m' A = (kids m A)(None := kids m A None - {y}, Some x := insert y (kids m A (Some x)))"
    by (rule ext) (use m'(3) xA in \<open>auto simp: kids_def\<close>)
  have fin: "finite (T a)" if "a \<in> A" for a using finite_subset [OF treesD(1) [OF t that] fib_forestD(1) [OF f]] .
  have "T x \<inter> T y = {}" using disjoint_onD [OF treesD(6) [OF t] x y(1)] y(2) by blast
  then have card: "card (T x \<union> T y) = card (T x) + card (T y)" using fin xA by (intro card_Un_disjoint) auto
  have "fnode_ok m' (kids m' A (Some a)) (card ((T(x := T x \<union> T y)) a)) a" if a: "a \<in> A" for a
  proof (cases "a = x")
    case True
    have "2 ^ fm_degree m x \<le> card (T x)" "fm_degree m x = card (kids m A (Some x))" using fnode_okD [OF fib_forestD(9) [OF f xA(1)]] by simp_all
    moreover have "2 ^ fm_degree m y \<le> card (T y)" using fnode_okD(2) [OF fib_forestD(9) [OF f xA(2)]] by simp
    moreover have "y \<notin> kids m A (Some x)" using xA by (simp add: kids_mem)
    ultimately show ?thesis using ch m'(4) True card d kids_finite [OF fib_forestD(1) [OF f]] by (auto simp: fnode_ok_def K)
  next
    case False
    then have "fnode_ok m' (kids m A (Some a)) (card (T a)) a"
      using fib_forestD(9) [OF f a] fnode_ok_cong [of m' a m] oth a m'(4) by simp
    then show ?thesis using False by (simp add: K)
  qed
  moreover have "ring m' (kids m' A (Some a))" if "a \<in> A" for a using oth that m'(6) by (simp add: K)
  moreover have "p \<in> A \<and> \<not> double_less (the (fm_key m' a)) (the (fm_key m' p))" if "a \<in> A" "fm_parent m' a = Some p" for a p
    using that m'(2,3) xA o fib_forestD(6,7) [OF f that(1), of p] by (auto simp: fsame_def split: if_splits)
  ultimately have "fib_forest m' A (T(x := T x \<union> T y)) {}"
    using fib_forestD(1-4) [OF f] trees_join [OF t x y] m'(2) unfolding fib_forest_def K fsame_def by auto
  then show thesis using that m' K by simp
qed

section \<open>Joining roots of the same degree\<close>

text \<open>The array of \<^verbatim>\<open>consolidate\<close>: a root is entered at its degree.\<close>

definition by_degree :: "fmem \<Rightarrow> addr set \<Rightarrow> addr option list \<Rightarrow> bool" where
  "by_degree m R nodes \<longleftrightarrow> (\<forall>i a. i < length nodes \<and> nodes ! i = Some a \<longrightarrow> a \<in> R \<and> fm_degree m a = i)"

text \<open>The array has room for the degrees that trees of fewer than \<open>n\<close> nodes can have.\<close>

definition degrees_fit :: "nat \<Rightarrow> nat \<Rightarrow> bool" where
  "degrees_fit n len \<longleftrightarrow> (\<forall>k. 2 ^ k < n \<longrightarrow> k < len)"

lemma degree_less:
  assumes f: "fib_forest m A T {}" and a: "a \<in> A" and n: "degrees_fit n len" "card A < n"
  shows "fm_degree m a < len"
proof -
  have "2 ^ fm_degree m a \<le> card (T a)" using fnode_okD(2) [OF fib_forestD(9) [OF f a]] by simp
  also have "\<dots> \<le> card A" by (rule card_mono [OF fib_forestD(1) [OF f] treesD(1) [OF fib_forestD(5) [OF f] a]])
  finally show ?thesis using n by (simp add: degrees_fit_def)
qed

text \<open>The array of \<^verbatim>\<open>consolidate\<close> has a size, and it fits.\<close>

definition array_fits :: "(single_bits \<Rightarrow> single_bits) \<Rightarrow> nat \<Rightarrow> bool" where
  "array_fits logf n \<longleftrightarrow> (case golden_degree logf n of None \<Rightarrow> False | Some len \<Rightarrow> degrees_fit n len)"

definition joining :: "fmem \<Rightarrow> addr set \<Rightarrow> addr option list \<Rightarrow> addr \<Rightarrow> addr \<Rightarrow> bool" where
  "joining m A nodes x first \<longleftrightarrow> (\<exists>T. fib_forest m A T {}) \<and> ring m (kids m A None) \<and> by_degree m (kids m A None) nodes \<and>
     x \<in> kids m A None \<and> first \<in> kids m A None"

lemma join_step:
  assumes j: "joining m A nodes x first" and d: "d = fm_degree m x" "d < length nodes" "nodes ! d = Some y" "x \<noteq> y"
  obtains x' first' m' where "join_loop m nodes x d first = join_loop m' (nodes[d := None]) x' (Suc d) first'" "fsame m m'"
    "joining m' A (nodes[d := None]) x' first'" "fm_degree m' x' = Suc d" "card (kids m' A None) < card (kids m A None)"
proof -
  obtain T where f: "fib_forest m A T {}" and rg: "ring m (kids m A None)" and bd: "by_degree m (kids m A None) nodes"
    and x: "x \<in> kids m A None" and fi: "first \<in> kids m A None" using j by (auto simp: joining_def)
  have y: "y \<in> kids m A None" "fm_degree m y = d" using bd d(2,3) by (auto simp: by_degree_def)
  define u v where "u = (if double_less (the (fm_key m y)) (the (fm_key m x)) then y else x)" and "v = (if double_less (the (fm_key m y)) (the (fm_key m x)) then x else y)"
  have uv: "u \<in> kids m A None" "v \<in> kids m A None" "v \<noteq> u" "fm_degree m u = d" "fm_degree m v = d" "{u, v} = {x, y}"
    "\<not> double_less (the (fm_key m v)) (the (fm_key m u))"
    using x y d(1,4) by (auto simp: u_def v_def double_less_def)
  have uvp: "(if double_less (the (fm_key m y)) (the (fm_key m x)) then (y, x) else (x, y)) = (u, v)" by (simp add: u_def v_def)
  obtain m' where m': "fib_heap_make_child m (Some u) (Some v) = Some m'" "fsame m m'" "fib_forest m' A (T(u := T u \<union> T v)) {}" "ring m' (kids m' A None)"
    "kids m' A None = kids m A None - {v}" "fm_degree m' = (fm_degree m)(u := fm_degree m u + 1)"
    by (rule make_child_ok [OF f rg uv(1,2,3,7)]) (use uv(4,5) in simp)
  have dom: "x \<in> dom (fm_key m)" "y \<in> dom (fm_key m)" using fib_forestD(2) [OF f] x y(1) by (auto simp: kids_mem)
  let ?first = "if v = first then u else first"
  have st: "join_loop m nodes x d first = join_loop m' (nodes[d := None]) u (Suc d) ?first"
    using d(2-4) dom m'(1) by (subst join_loop.simps) (simp add: uvp)
  have "a \<in> kids m' A None \<and> fm_degree m' a = i" if i: "i < length nodes" "nodes[d := None] ! i = Some a" for i a
  proof -
    have "i \<noteq> d" "nodes ! i = Some a" using i d(2) by (auto simp: nth_list_update split: if_splits)
    moreover from this have "a \<in> kids m A None" "fm_degree m a = i" using bd i(1) by (auto simp: by_degree_def)
    ultimately show ?thesis using uv(4,5) m'(5,6) by auto
  qed
  then have "joining m' A (nodes[d := None]) u ?first"
    unfolding joining_def by_degree_def using m'(3,4,5) uv(1-3) fi by auto
  moreover have "card (kids m' A None) < card (kids m A None)"
    unfolding m'(5) by (rule card_Diff1_less [OF kids_finite [OF fib_forestD(1) [OF f]] uv(2)])
  ultimately show thesis using that st m'(2,6) uv(4) by simp
qed

lemma join_loop_ok:
  assumes "joining m A nodes x first" "d = fm_degree m x" "degrees_fit n (length nodes)" "card A < n"
  shows "\<exists>m' nodes' x' d' first'. join_loop m nodes x d first = Some (m', nodes', x', d', first') \<and> fsame m m' \<and> joining m' A nodes' x' first' \<and>
    d' = fm_degree m' x' \<and> d' < length nodes' \<and> nodes' ! d' \<in> {None, Some x'} \<and> length nodes' = length nodes \<and>
    ((m', x', first') = (m, x, first) \<or> card (kids m' A None) < card (kids m A None))"
  using assms
proof (induction "length nodes - d" arbitrary: m nodes x d first rule: less_induct)
  case less
  obtain T where f: "fib_forest m A T {}" and x: "x \<in> A" using less.prems(1) by (auto simp: joining_def kids_mem)
  have len: "d < length nodes" using degree_less [OF f x less.prems(3,4)] less.prems(2) by simp
  show ?case
  proof (cases "nodes ! d = None \<or> nodes ! d = Some x")
    case True
    then have "join_loop m nodes x d first = Some (m, nodes, x, d, first)" using len by (subst join_loop.simps) auto
    then show ?thesis using less.prems(1,2) len True by auto
  next
    case False
    then obtain y where y: "nodes ! d = Some y" "x \<noteq> y" by auto
    obtain x1 f1 m1 where s: "join_loop m nodes x d first = join_loop m1 (nodes[d := None]) x1 (Suc d) f1" "fsame m m1"
      "joining m1 A (nodes[d := None]) x1 f1" "fm_degree m1 x1 = Suc d" "card (kids m1 A None) < card (kids m A None)"
      by (rule join_step [OF less.prems(1,2) len y])
    have "\<exists>m' nodes' x' d' first'. join_loop m1 (nodes[d := None]) x1 (Suc d) f1 = Some (m', nodes', x', d', first') \<and> fsame m1 m' \<and> joining m' A nodes' x' first' \<and>
      d' = fm_degree m' x' \<and> d' < length nodes' \<and> nodes' ! d' \<in> {None, Some x'} \<and> length nodes' = length (nodes[d := None]) \<and>
      ((m', x', first') = (m1, x1, f1) \<or> card (kids m' A None) < card (kids m1 A None))"
      by (rule less.hyps) (use s len less.prems(3,4) in simp_all)
    then obtain m' nodes' x' d' first' where IH: "join_loop m1 (nodes[d := None]) x1 (Suc d) f1 = Some (m', nodes', x', d', first')" "fsame m1 m'" "joining m' A nodes' x' first'"
      "d' = fm_degree m' x'" "d' < length nodes'" "nodes' ! d' \<in> {None, Some x'}" "length nodes' = length (nodes[d := None])"
      "(m', x', first') = (m1, x1, f1) \<or> card (kids m' A None) < card (kids m1 A None)" by blast
    have "card (kids m' A None) < card (kids m A None)" using IH(8) s(5) by auto
    then show ?thesis using s(1) IH(1,3-7) fsame_trans [OF s(2) IH(2)] by auto
  qed
qed

section \<open>Round the roots\<close>

definition entered :: "addr option list \<Rightarrow> addr set" where
  "entered nodes = {a. Some a \<in> set nodes}"

lemma round_loop_ok:
  assumes "joining m A nodes x first" "degrees_fit n (length nodes)" "card A < n" "k > 0" "hop m k x = Some first"
  shows "\<exists>m' nodes' T. round_loop m nodes x first = Some (m', nodes') \<and> fsame m m' \<and> fib_forest m' A T {} \<and> by_degree m' (kids m' A None) nodes'"
  using assms
proof (induction "(card (kids m A None), k)" arbitrary: m nodes x first k rule: wf_induct_rule [OF wf_lex_prod [OF wf_less_than wf_less_than]])
  case less: 1
  obtain m1 nodes1 x1 d1 f1 where j: "join_loop m nodes x (fm_degree m x) first = Some (m1, nodes1, x1, d1, f1)" "fsame m m1" "joining m1 A nodes1 x1 f1"
    "d1 = fm_degree m1 x1" "d1 < length nodes1" "nodes1 ! d1 \<in> {None, Some x1}" "length nodes1 = length nodes"
    "(m1, x1, f1) = (m, x, first) \<or> card (kids m1 A None) < card (kids m A None)"
    using join_loop_ok [OF less.prems(1) refl less.prems(2,3)] by blast
  obtain T where f: "fib_forest m1 A T {}" and rg: "ring m1 (kids m1 A None)" and bd: "by_degree m1 (kids m1 A None) nodes1"
    and x1: "x1 \<in> kids m1 A None" and f1: "f1 \<in> kids m1 A None" using j(3) by (auto simp: joining_def)
  obtain T0 where f0: "fib_forest m A T0 {}" "x \<in> A" using less.prems(1) by (auto simp: joining_def kids_mem)
  have dom: "x \<in> dom (fm_key m)" "x1 \<in> dom (fm_key m1)" using fib_forestD(2) [OF f0(1)] fib_forestD(2) [OF f] f0(2) x1 by (auto simp: kids_mem)
  obtain l r where nb: "fm_right m1 x1 = Some r" "r \<in> kids m1 A None" by (rule ring_neighbours [OF rg x1])
  let ?nodes = "nodes1[d1 := Some x1]"
  have bd': "by_degree m1 (kids m1 A None) ?nodes"
    using bd x1 j(4,5) by (auto simp: by_degree_def nth_list_update split: if_splits)
  have step: "round_loop m nodes x first = (if r \<noteq> f1 then round_loop m1 ?nodes r f1 else Some (m1, ?nodes))"
    using dom j(1) nb(1) by (subst round_loop.simps) simp
  show ?case
  proof (cases "r = f1")
    case True
    then show ?thesis using step j(2) f bd' by auto
  next
    case False
    have jn: "joining m1 A ?nodes r f1" unfolding joining_def using f rg bd' nb(2) f1 by blast
    obtain k' where k': "k' > 0" "hop m1 k' r = Some f1" "((card (kids m1 A None), k'), (card (kids m A None), k)) \<in> less_than <*lex*> less_than"
    proof (cases "(m1, x1, f1) = (m, x, first)")
      case True
      obtain k0 where k0: "k = Suc k0" using less.prems(4) by (cases k) auto
      then have h: "hop m1 k0 r = Some f1" using less.prems(5) True nb(1) by simp
      then have "k0 > 0" using False by (cases k0) auto
      then show ?thesis using that [of k0] h k0 True by simp
    next
      case False
      then have "card (kids m1 A None) < card (kids m A None)" using j(8) by blast
      then show ?thesis using ring_hop [OF rg nb(2) f1] that by auto
    qed
    have "\<exists>m' nodes' T. round_loop m1 ?nodes r f1 = Some (m', nodes') \<and> fsame m1 m' \<and> fib_forest m' A T {} \<and> by_degree m' (kids m' A None) nodes'"
      by (rule less.hyps [OF k'(3) jn]) (use less.prems(2,3) j(7) k'(1,2) in simp_all)
    then show ?thesis using step False fsame_trans [OF j(2)] by auto
  qed
qed

section \<open>The new circle of roots\<close>

text \<open>What the last loop of \<^verbatim>\<open>consolidate\<close> has built from the entries \<open>P\<close>; only links of entries change.\<close>

definition gathered :: "fmem \<Rightarrow> addr set \<Rightarrow> fmem \<Rightarrow> addr option \<Rightarrow> bool" where
  "gathered m0 P m mn \<longleftrightarrow> fsame m0 m \<and> fm_parent m = fm_parent m0 \<and> fm_child m = fm_child m0 \<and> fm_degree m = fm_degree m0 \<and>
     (\<forall>a. a \<notin> P \<longrightarrow> fm_left m a = fm_left m0 a \<and> fm_right m a = fm_right m0 a) \<and> ring m P \<and>
     (case mn of None \<Rightarrow> P = {} | Some z \<Rightarrow> z \<in> P \<and> (\<forall>a \<in> P. \<not> double_less (the (fm_key m0 a)) (the (fm_key m0 z))))"

lemma add_root_ok:
  assumes g: "gathered m0 P m mn" and x: "x \<notin> P" "insert x P \<subseteq> dom (fm_key m0)" and nan: "\<forall>a \<in> insert x P. \<not> is_nan (the (fm_key m0 a))"
  shows "\<exists>m' mn'. add_root (m, mn) (Some x) = Some (m', mn') \<and> gathered m0 (insert x P) m' mn'"
proof -
  have key: "fm_key m = fm_key m0" using g by (simp add: gathered_def fsame_def)
  have xd: "x \<in> dom (fm_key m)" using x(2) key by simp
  show ?thesis
  proof (cases mn)
    case None
    then have P: "P = {}" using g by (simp add: gathered_def)
    let ?m = "m\<lparr>fm_left := (fm_left m)(x := Some x), fm_right := (fm_right m)(x := Some x)\<rparr>"
    have "add_root (m, mn) (Some x) = Some (?m, Some x)" using None xd by (simp add: add_root_def self_link_eq)
    moreover have "ring ?m {x}" by (rule ring_self) simp_all
    ultimately show ?thesis using g P by (auto simp: gathered_def fsame_def double_less_def)
  next
    case (Some z)
    then have z: "z \<in> P" "\<forall>a \<in> P. \<not> double_less (the (fm_key m0 a)) (the (fm_key m0 z))" and rg: "ring m P" using g by (simp_all add: gathered_def)
    obtain l r where nb: "fm_right m z = Some r" "r \<in> P" by (rule ring_neighbours [OF rg z(1)])
    have d: "z \<in> dom (fm_key m)" "r \<in> dom (fm_key m)" using x(2) z(1) nb(2) key by auto
    have lk: "link_root m (Some z) (Some x) = Some (linked m z x r)" by (rule link_eq) (use d xd nb x(1) z(1) in auto)
    let ?mn = "if double_less (the (fm_key m0 x)) (the (fm_key m0 z)) then x else z"
    have "add_root (m, mn) (Some x) = Some (linked m z x r, Some ?mn)" using Some lk d xd key by (simp add: add_root_def)
    moreover have "ring (linked m z x r) (insert x P)" by (rule ring_insert [OF rg z(1) x(1) nb(1)])
    moreover have "\<not> double_less (the (fm_key m0 a)) (the (fm_key m0 ?mn))" if "a \<in> insert x P" for a
      using z that nan by (auto simp: double_less_def)
    ultimately show ?thesis using g z(1) nb by (auto simp: gathered_def fsame_def)
  qed
qed

lemma gather_ok:
  assumes "gathered m0 P m mn" "distinct es" "set es \<inter> P = {}" "set es \<union> P \<subseteq> dom (fm_key m0)" "\<forall>a \<in> set es \<union> P. \<not> is_nan (the (fm_key m0 a))"
    "List.map_filter (\<lambda>e. e) nodes = es"
  shows "\<exists>m' mn'. for_each add_root (m, mn) nodes = Some (m', mn') \<and> gathered m0 (set es \<union> P) m' mn'"
  using assms
proof (induction nodes arbitrary: m mn es P)
  case Nil
  then show ?case by (simp add: map_filter_simps)
next
  case (Cons e nodes)
  show ?case
  proof (cases e)
    case None
    then have "for_each add_root (m, mn) (e # nodes) = for_each add_root (m, mn) nodes" by (simp add: add_root_def)
    then show ?thesis using Cons.IH [OF Cons.prems(1-5)] Cons.prems(6) None by (simp add: map_filter_simps)
  next
    case (Some x)
    obtain es1 where es: "es = x # es1" "List.map_filter (\<lambda>e. e) nodes = es1" using Cons.prems(6) Some by (auto simp: map_filter_simps)
    obtain m1 mn1 where 1: "add_root (m, mn) e = Some (m1, mn1)" "gathered m0 (insert x P) m1 mn1"
      using add_root_ok [OF Cons.prems(1), of x] Cons.prems(3-5) es(1) Some by auto
    have "\<exists>m' mn'. for_each add_root (m1, mn1) nodes = Some (m', mn') \<and> gathered m0 (set es1 \<union> insert x P) m' mn'"
      by (rule Cons.IH [OF 1(2)]) (use Cons.prems(2-5) es in auto)
    then show ?thesis using 1(1) es(1) by (auto simp: insert_commute)
  qed
qed

lemma entered_distinct:
  assumes "\<And>i j a. i < length nodes \<Longrightarrow> j < length nodes \<Longrightarrow> nodes ! i = Some a \<Longrightarrow> nodes ! j = Some a \<Longrightarrow> i = j"
  shows "distinct (List.map_filter (\<lambda>e. e) nodes)" "set (List.map_filter (\<lambda>e. e) nodes) = entered nodes"
proof -
  have e: "set (List.map_filter (\<lambda>e. e) ns) = entered ns" for ns :: "addr option list"
    by (auto simp: entered_def List.map_filter_def image_iff) force
  show "set (List.map_filter (\<lambda>e. e) nodes) = entered nodes" by (rule e)
  show "distinct (List.map_filter (\<lambda>e. e) nodes)"
    using assms
  proof (induction nodes)
    case (Cons x nodes)
    have "i = j" if "i < length nodes" "j < length nodes" "nodes ! i = Some a" "nodes ! j = Some a" for i j a
      using Cons.prems [of "Suc i" "Suc j" a] that by simp
    then have d: "distinct (List.map_filter (\<lambda>e. e) nodes)" by (rule Cons.IH)
    have "a \<notin> set (List.map_filter (\<lambda>e. e) nodes)" if "x = Some a" for a
    proof
      assume "a \<in> set (List.map_filter (\<lambda>e. e) nodes)"
      then have "Some a \<in> set nodes" unfolding e by (simp add: entered_def)
      then obtain j where "j < length nodes" "nodes ! j = Some a" by (auto simp: in_set_conv_nth)
      then show False using Cons.prems [of 0 "Suc j" a] that by simp
    qed
    then show ?case using d by (cases x) (simp_all add: map_filter_simps)
  qed (simp add: map_filter_simps)
qed

text \<open>The entries with their trees are a heap.\<close>

lemma gathered_forest:
  assumes f: "fib_forest m A T {}" and R: "R \<subseteq> kids m A None" and g: "gathered m R m' mn"
  shows "fib_forest m' (\<Union>(T ` R)) T {}" "kids m' (\<Union>(T ` R)) None = R" "\<Union>(T ` R) \<subseteq> A"
proof -
  let ?A = "\<Union>(T ` R)"
  note t = fib_forestD(5) [OF f] and fin = fib_forestD(1) [OF f]
  note keep = trees_keep [OF t fin R]
  have gs: "fm_parent m' = fm_parent m" "fm_child m' = fm_child m" "fm_degree m' = fm_degree m" "fm_key m' = fm_key m" "fm_brk m' = fm_brk m"
    "a \<notin> R \<Longrightarrow> fm_left m' a = fm_left m a \<and> fm_right m' a = fm_right m a" for a
    using g by (simp_all add: gathered_def fsame_def)
  have "R \<subseteq> A" using R by (auto simp: kids_mem)
  then show sub: "?A \<subseteq> A" using treesD(1) [OF t] by blast
  have K: "kids m' ?A = (\<lambda>p. kids m A p \<inter> ?A)" using sub gs(1) by (auto simp: kids_def fun_eq_iff)
  show "kids m' ?A None = R" unfolding K by (rule keep(2))
  have Ks: "kids m' ?A (Some a) = kids m A (Some a)" if "a \<in> ?A" for a unfolding K using keep(3) [OF that] by blast
  have "ring m' (kids m' ?A (Some a))" if "a \<in> ?A" for a
    unfolding Ks [OF that]
  proof (rule ring_cong)
    show "ring m (kids m A (Some a))" using fib_forestD(8) [OF f] that sub by blast
    fix b assume "b \<in> kids m A (Some a)"
    then have "b \<notin> R" using R by (auto simp: kids_mem)
    then show "fm_right m' b = fm_right m b \<and> fm_left m' b = fm_left m b" using gs(6) by blast
  qed
  moreover have "fnode_ok m' (kids m' ?A (Some a)) (card (T a)) a" if "a \<in> ?A" for a
    unfolding Ks [OF that] using fib_forestD(9) [OF f, of a] fnode_ok_cong [of m' a m] gs(2,3) that sub by auto
  moreover have "p \<in> ?A \<and> \<not> double_less (the (fm_key m' a)) (the (fm_key m' p))" if ap: "a \<in> ?A" "fm_parent m' a = Some p" for a p
  proof
    have a: "a \<in> A" "fm_parent m a = Some p" using ap sub gs(1) by auto
    show "\<not> double_less (the (fm_key m' a)) (the (fm_key m' p))" using fib_forestD(7) [OF f a] gs(4) by simp
    obtain r where r: "r \<in> R" "a \<in> T r" using ap(1) by blast
    have "r \<in> kids m A None" using R r(1) by blast
    then have "r \<in> A" "a \<noteq> r" using a(2) by (auto simp: kids_mem)
    then have "p \<in> T r" using parent_in_tree [OF f _ r(2) _ a(2)] by blast
    then show "p \<in> ?A" using r(1) by blast
  qed
  ultimately show "fib_forest m' ?A T {}"
    using keep(1) finite_subset [OF sub fin] fib_forestD(2-4) [OF f] sub gs(4,5) unfolding fib_forest_def K by auto
qed

section \<open>Heaps\<close>

definition fib_inv :: "fmem \<Rightarrow> fheap \<Rightarrow> addr set \<Rightarrow> bool" where
  "fib_inv m fh A \<longleftrightarrow> (\<exists>T. fib_forest m A T {}) \<and> ring m (kids m A None) \<and> card A \<le> fh_num_nodes fh \<and>
     (case fh_min fh of None \<Rightarrow> A = {} | Some z \<Rightarrow> z \<in> kids m A None \<and> (\<forall>a \<in> kids m A None. \<not> double_less (the (fm_key m a)) (the (fm_key m z))))"

lemma consolidate_ok:
  assumes f: "fib_forest m A T {}" and rg: "ring m (kids m A None)" and z: "fh_min fh = Some z" "z \<in> dom (fm_key m)" "fm_right m z = Some first"
    and fi: "first \<in> kids m A None" and n: "array_fits logf (fh_num_nodes fh)" "card A < fh_num_nodes fh"
  shows "\<exists>m' mn A'. fib_heap_consolidate logf m fh = Some (m', fh\<lparr>fh_min := mn\<rparr>) \<and> fsame m m' \<and> A' \<subseteq> A \<and> fib_inv m' (fh\<lparr>fh_min := mn\<rparr>) A'"
proof -
  obtain len where len: "golden_degree logf (fh_num_nodes fh) = Some len" "degrees_fit (fh_num_nodes fh) len"
    using n(1) by (auto simp: array_fits_def split: option.splits)
  let ?nodes = "replicate len None"
  have "joining m A ?nodes first first" unfolding joining_def by_degree_def using f rg fi by auto
  moreover obtain k where "k > 0" "hop m k first = Some first" using ring_hop [OF rg fi fi] by blast
  ultimately obtain m1 nodes1 T1 where r: "round_loop m ?nodes first first = Some (m1, nodes1)" "fsame m m1" "fib_forest m1 A T1 {}" "by_degree m1 (kids m1 A None) nodes1"
    using round_loop_ok [of m A ?nodes first first "fh_num_nodes fh" k] n(2) len(2) by auto
  have "i = j" if "i < length nodes1" "j < length nodes1" "nodes1 ! i = Some a" "nodes1 ! j = Some a" for i j a
    using r(4) that unfolding by_degree_def by metis
  note en = entered_distinct [OF this]
  have R: "entered nodes1 \<subseteq> kids m1 A None" using r(4) by (auto simp: entered_def by_degree_def in_set_conv_nth)
  then have RA: "entered nodes1 \<subseteq> A" by (auto simp: kids_mem)
  have g0: "gathered m1 {} m1 None" by (simp add: gathered_def)
  have "\<exists>m' mn'. for_each add_root (m1, None) nodes1 = Some (m', mn') \<and> gathered m1 (set (List.map_filter (\<lambda>e. e) nodes1) \<union> {}) m' mn'"
  proof (rule gather_ok [OF g0 en(1) _ _ _ refl])
    show "set (List.map_filter (\<lambda>e. e) nodes1) \<union> {} \<subseteq> dom (fm_key m1)" using RA fib_forestD(2) [OF r(3)] en(2) by auto
    show "\<forall>a \<in> set (List.map_filter (\<lambda>e. e) nodes1) \<union> {}. \<not> is_nan (the (fm_key m1 a))" using RA fib_forestD(4) [OF r(3)] en(2) by auto
  qed simp_all
  then obtain m2 mn where g: "for_each add_root (m1, None) nodes1 = Some (m2, mn)" "gathered m1 (entered nodes1) m2 mn" using en(2) by auto
  note gf = gathered_forest [OF r(3) R g(2)]
  have key: "fm_key m2 = fm_key m1" "ring m2 (entered nodes1)" using g(2) by (simp_all add: gathered_def fsame_def)
  have "fib_inv m2 (fh\<lparr>fh_min := mn\<rparr>) (\<Union>(T1 ` entered nodes1))"
    unfolding fib_inv_def gf(2) using gf(1) key g(2) n(2) card_mono [OF fib_forestD(1) [OF r(3)] gf(3)]
    by (auto simp: gathered_def split: option.splits)
  moreover have "fib_heap_consolidate logf m fh = Some (m2, fh\<lparr>fh_min := mn\<rparr>)" using z len(1) r(1) g(1) by (simp add: fib_heap_consolidate_def)
  moreover have "fsame m m2" using fsame_trans [OF r(2)] g(2) by (simp add: gathered_def)
  ultimately show ?thesis using gf(3) by blast
qed

section \<open>Children become roots\<close>

lemma lift_step:
  assumes f: "fib_forest m A T {z}" and rg: "ring m (kids m A None)" and z: "z \<in> kids m A None" and c: "c \<in> kids m A (Some z)"
  obtains m' r T' where "fm_right m c = Some r" "lift_children m z (Some c) = lift_children m' z (if r \<noteq> c then Some r else None)" "fsame m m'"
    "fib_forest m' A T' {z}" "ring m' (kids m' A None)" "kids m' A None = insert c (kids m A None)" "kids m' A (Some z) = kids m A (Some z) - {c}"
proof -
  note t = fib_forestD(5) [OF f]
  have zA: "z \<in> A" "fm_parent m z = None" "c \<in> A" "fm_parent m c = Some z" "c \<noteq> z" using z c by (auto simp: kids_mem)
  have dom: "a \<in> A \<Longrightarrow> a \<in> dom (fm_key m)" for a using fib_forestD(2) [OF f] by blast
  obtain l r where lr: "fm_right m c = Some r" "fm_left m c = Some l" "l \<in> kids m A (Some z)" "r \<in> kids m A (Some z)"
    by (rule ring_neighbours [OF fib_forestD(8) [OF f zA(1)] c])
  have lrA: "l \<in> A" "r \<in> A" "fm_parent m l = Some z" "fm_parent m r = Some z" using lr(3,4) by (simp_all add: kids_mem)
  obtain l' q where q: "fm_right m z = Some q" "q \<in> kids m A None" by (rule ring_neighbours [OF rg z])
  have qA: "q \<in> A" "fm_parent m q = None" using q(2) by (simp_all add: kids_mem)
  let ?m0 = "m\<lparr>fm_parent := (fm_parent m)(c := None)\<rparr>" let ?m1 = "unlinked ?m0 l r" let ?m' = "linked ?m1 z c q"
  have u: "unlink ?m0 (Some c) = Some ?m1" by (rule unlink_eq) (use dom zA lrA lr in auto)
  have ne: "z \<noteq> l" "z \<noteq> r" "q \<noteq> l" "q \<noteq> r" "q \<noteq> c" using lrA zA qA by auto
  have zq: "fm_right ?m1 z = Some q" using q(1) ne by simp
  have d: "c \<in> dom (fm_key ?m1)" "z \<in> dom (fm_key ?m1)" "q \<in> dom (fm_key ?m1)" using dom zA qA by auto
  have lc: "lift_children m z (Some c) = lift_children ?m' z (if r \<noteq> c then Some r else None)"
    using u lr(1) zA dom [OF zA(3)] dom [OF zA(1)] dom [OF qA(1)] q(1) ne
    by (subst lift_children.simps) (simp add: linked_def unlinked_def fun_upd_twist)
  have K: "kids ?m' A = (kids m A)(None := insert c (kids m A None), Some z := kids m A (Some z) - {c})"
    by (rule ext) (use zA in \<open>auto simp: kids_def\<close>)
  have rz: "ring ?m1 (kids m A (Some z) - {c})"
    by (rule ring_cong [OF ring_remove [OF fib_forestD(8) [OF f zA(1)] c lr(2,1)]]) simp
  have rz': "ring ?m' (kids m A (Some z) - {c})" by (rule ring_cong [OF rz]) (use zA qA in \<open>auto simp: kids_mem\<close>)
  have r1: "ring ?m1 (kids m A None)" by (rule ring_cong [OF rg]) (use lrA in \<open>auto simp: kids_mem\<close>)
  have cn: "c \<notin> kids m A None" using zA by (simp add: kids_mem)
  have ro: "ring ?m' (insert c (kids m A None))" by (rule ring_insert [OF r1 z cn zq])
  have oth: "ring ?m' (kids m A (Some a))" if "a \<in> A" "a \<noteq> z" for a
    by (rule ring_cong [OF fib_forestD(8) [OF f that(1)]]) (use lrA zA qA that(2) in \<open>auto simp: kids_mem\<close>)
  have "fnode_ok ?m' (kids ?m' A (Some a)) (card ((T(z := T z - T c)) a)) a" if "a \<in> A - {z}" for a
    using fib_forestD(9) [OF f, of a] fnode_ok_cong [of ?m' a m] that by (simp add: K)
  moreover have "ring ?m' (kids ?m' A (Some a))" if "a \<in> A" for a using oth that rz' by (simp add: K)
  moreover have "p \<in> A \<and> \<not> double_less (the (fm_key ?m' a)) (the (fm_key ?m' p))" if "a \<in> A" "fm_parent ?m' a = Some p" for a p
    using that fib_forestD(6,7) [OF f that(1), of p] by (auto split: if_splits)
  ultimately have "fib_forest ?m' A (T(z := T z - T c)) {z}"
    using fib_forestD(1-4) [OF f] trees_lift [OF t z c] unfolding fib_forest_def K by auto
  then show thesis using that [OF lr(1) lc] ro by (simp add: K fsame_def)
qed

lemma lift_children_ok:
  assumes "fib_forest m A T {z}" "ring m (kids m A None)" "z \<in> kids m A None" "node = None \<longleftrightarrow> kids m A (Some z) = {}" "\<And>c. node = Some c \<Longrightarrow> c \<in> kids m A (Some z)"
  shows "\<exists>m' T'. lift_children m z node = Some m' \<and> fsame m m' \<and> fib_forest m' A T' {z} \<and> ring m' (kids m' A None) \<and> z \<in> kids m' A None \<and> kids m' A (Some z) = {}"
  using assms
proof (induction "card (kids m A (Some z))" arbitrary: m T node rule: less_induct)
  case less
  show ?case
  proof (cases node)
    case None
    then show ?thesis using less.prems by (auto simp: lift_children.simps)
  next
    case (Some c)
    have c: "c \<in> kids m A (Some z)" by (rule less.prems(5) [OF Some])
    have zA: "z \<in> A" using less.prems(3) by (simp add: kids_mem)
    obtain m1 r T1 where s: "fm_right m c = Some r" "lift_children m z (Some c) = lift_children m1 z (if r \<noteq> c then Some r else None)" "fsame m m1"
      "fib_forest m1 A T1 {z}" "ring m1 (kids m1 A None)" "kids m1 A None = insert c (kids m A None)" "kids m1 A (Some z) = kids m A (Some z) - {c}"
      by (rule lift_step [OF less.prems(1-3) c])
    note rk = fib_forestD(8) [OF less.prems(1) zA]
    obtain l' r' where "fm_right m c = Some r'" "r' \<in> kids m A (Some z)" by (rule ring_neighbours [OF rk c])
    then have r: "r \<in> kids m A (Some z)" using s(1) by simp
    have e: "r = c \<longleftrightarrow> kids m A (Some z) = {c}" using ring_alone [OF rk c] s(1) by simp
    have "\<exists>m' T'. lift_children m1 z (if r \<noteq> c then Some r else None) = Some m' \<and> fsame m1 m' \<and> fib_forest m' A T' {z} \<and> ring m' (kids m' A None) \<and>
        z \<in> kids m' A None \<and> kids m' A (Some z) = {}"
    proof (rule less.hyps [OF _ s(4,5)])
      show "card (kids m1 A (Some z)) < card (kids m A (Some z))"
        unfolding s(7) by (rule card_Diff1_less [OF kids_finite [OF fib_forestD(1) [OF less.prems(1)]] c])
    qed (use s(6,7) less.prems(3) r e c in \<open>auto split: if_splits\<close>)
    then show ?thesis using Some s(2) fsame_trans [OF s(3)] by auto
  qed
qed

section \<open>Extracting the minimum\<close>

lemma drop_root:
  assumes f: "fib_forest m A T {z}" and rg: "ring m (kids m A None)" and z: "z \<in> kids m A None" "kids m A (Some z) = {}"
  obtains m' r where "unlink m (Some z) = Some m'" "fsame m m'" "fm_right m' z = Some r" "fib_forest m' (A - {z}) T {}" "ring m' (kids m' (A - {z}) None)"
    "r = z \<longleftrightarrow> A = {z}" "r = z \<or> r \<in> kids m' (A - {z}) None"
proof -
  note t = fib_forestD(5) [OF f] and fin = fib_forestD(1) [OF f]
  have dom: "a \<in> A \<Longrightarrow> a \<in> dom (fm_key m)" for a using fib_forestD(2) [OF f] by blast
  obtain l r where lr: "fm_right m z = Some r" "fm_left m z = Some l" "l \<in> kids m A None" "r \<in> kids m A None" by (rule ring_neighbours [OF rg z(1)])
  have A: "z \<in> A" "fm_parent m z = None" "l \<in> A" "r \<in> A" "fm_parent m l = None" "fm_parent m r = None" using z(1) lr(3,4) by (simp_all add: kids_mem)
  let ?m = "unlinked m l r"
  have u: "unlink m (Some z) = Some ?m" by (rule unlink_eq) (use dom A lr in auto)
  have K: "kids ?m (A - {z}) = (\<lambda>p. kids m A p - {z})" by (auto simp: kids_def fun_eq_iff)
  have Ks: "kids m A (Some a) - {z} = kids m A (Some a)" for a using A(2) by (auto simp: kids_mem)
  have ff: "fib_forest ?m (A - {z}) T {}"
  proof (rule fib_forestI)
    show "trees (kids ?m (A - {z})) (A - {z}) T" unfolding K by (rule trees_drop [OF t fin z])
    show "A - {z} \<subseteq> dom (fm_key ?m)" "dom (fm_key ?m) \<subseteq> {..<fm_brk ?m}" using fib_forestD(2,3) [OF f] by auto
  next
    fix a assume a: "a \<in> A - {z}"
    then show "\<not> is_nan (the (fm_key ?m a))" using fib_forestD(4) [OF f] by simp
    show "ring ?m (kids ?m (A - {z}) (Some a))" unfolding K Ks by (rule ring_cong [OF fib_forestD(8) [OF f]]) (use A a in \<open>auto simp: kids_mem\<close>)
    show "fnode_ok ?m (kids ?m (A - {z}) (Some a)) (card (T a)) a" unfolding K Ks using fib_forestD(9) [OF f, of a] fnode_ok_cong [of ?m a m] a by simp
    fix p assume p: "fm_parent ?m a = Some p"
    then have "p \<noteq> z" using z(2) a by (auto simp: kids_def)
    then show "p \<in> A - {z} \<and> \<not> double_less (the (fm_key ?m a)) (the (fm_key ?m p))" using fib_forestD(6,7) [OF f, of a p] a p by simp
  qed (use fin in simp)
  have al: "r = z \<longleftrightarrow> kids m A None = {z}" using ring_alone [OF rg z(1)] lr(1) by auto
  also have "\<dots> \<longleftrightarrow> A = {z}"
  proof
    assume "kids m A None = {z}"
    then have "kids ?m (A - {z}) None = {}" unfolding K by simp
    then have "A - {z} = {}" using treesD(5) [OF fib_forestD(5) [OF ff]] by simp
    then show "A = {z}" using A(1) by blast
  qed (use A in \<open>auto simp: kids_def\<close>)
  finally show thesis using that [OF u] ff ring_remove [OF rg z(1) lr(2,1)] lr(1,4) by (simp add: K fsame_def)
qed

lemma extract_min_ok:
  assumes inv: "fib_inv m fh A" and z: "fh_min fh = Some z" and n: "2 \<le> fh_num_nodes fh \<Longrightarrow> array_fits logf (fh_num_nodes fh)"
  shows "\<exists>m' fh' A'. fib_heap_extract_min logf m fh = Some (Returns (z, m', fh')) \<and> fsame m m' \<and> fib_inv m' fh' A' \<and> A' \<subseteq> A - {z} \<and>
    fh_num_nodes fh' = fh_num_nodes fh - 1 \<and> z \<in> A \<and> (\<forall>a \<in> A. \<not> double_less (the (fm_key m a)) (the (fm_key m z)))"
proof -
  obtain T where f: "fib_forest m A T {}" and rg: "ring m (kids m A None)" and num: "card A \<le> fh_num_nodes fh" and zr: "z \<in> kids m A None"
    and mn: "\<forall>a \<in> kids m A None. \<not> double_less (the (fm_key m a)) (the (fm_key m z))" using inv z by (auto simp: fib_inv_def)
  have zA: "z \<in> A" "z \<in> dom (fm_key m)" using zr fib_forestD(2) [OF f] by (auto simp: kids_mem)
  have least: "\<not> double_less (the (fm_key m a)) (the (fm_key m z))" if a: "a \<in> A" for a
  proof -
    obtain r where r: "r \<in> kids m A None" "a \<in> T r" using treesD(5) [OF fib_forestD(5) [OF f]] a by blast
    then have rA: "r \<in> A" by (simp add: kids_mem)
    show ?thesis using tree_min [OF f rA r(2)] mn r(1) fib_forestD(4) [OF f rA] double_less_trans_not by blast
  qed
  have fz: "fib_forest m A T {z}" using f by (auto simp: fib_forest_def)
  have ch: "fm_child m z = None \<longleftrightarrow> kids m A (Some z) = {}" "\<And>c. fm_child m z = Some c \<Longrightarrow> c \<in> kids m A (Some z)"
    using fib_forestD(9) [OF f zA(1)] by (auto simp: fnode_ok_def split: option.splits)
  obtain m1 T1 where l: "lift_children m z (fm_child m z) = Some m1" "fsame m m1" "fib_forest m1 A T1 {z}" "ring m1 (kids m1 A None)" "z \<in> kids m1 A None" "kids m1 A (Some z) = {}"
    using lift_children_ok [OF fz rg zr ch] by blast
  obtain m2 r where d: "unlink m1 (Some z) = Some m2" "fsame m1 m2" "fm_right m2 z = Some r" "fib_forest m2 (A - {z}) T1 {}" "ring m2 (kids m2 (A - {z}) None)"
    "r = z \<longleftrightarrow> A = {z}" "r = z \<or> r \<in> kids m2 (A - {z}) None" by (rule drop_root [OF l(3-6)])
  have same: "fsame m m2" by (rule fsame_trans [OF l(2) d(2)])
  then have zd: "z \<in> dom (fm_key m2)" using zA(2) by (simp add: fsame_def)
  have fin: "finite A" by (rule fib_forestD(1) [OF f])
  have less: "card (A - {z}) < fh_num_nodes fh" using num card_Diff1_less [OF fin zA(1)] by linarith
  have ex: "fib_heap_extract_min logf m fh = do { (m, fh) \<leftarrow> (if r = z then Some (m2, fh\<lparr>fh_min := None\<rparr>) else fib_heap_consolidate logf m2 fh);
      Some (Returns (z, m, fh\<lparr>fh_num_nodes := fh_num_nodes fh - 1\<rparr>)) }"
    using z zA(2) l(1) d(1,3) zd by (simp add: fib_heap_extract_min_def)
  have "\<exists>m3 mn A'. (if r = z then Some (m2, fh\<lparr>fh_min := None\<rparr>) else fib_heap_consolidate logf m2 fh) = Some (m3, fh\<lparr>fh_min := mn\<rparr>) \<and> fsame m2 m3 \<and> A' \<subseteq> A - {z} \<and>
      fib_inv m3 (fh\<lparr>fh_min := mn\<rparr>) A'"
  proof (cases "r = z")
    case True
    then have "fib_inv m2 (fh\<lparr>fh_min := None\<rparr>) {}" using d(4-6) by (auto simp: fib_inv_def)
    then show ?thesis using True by (intro exI [of _ m2] exI [of _ None] exI [of _ "{}"]) simp
  next
    case False
    then have "r \<in> kids m2 (A - {z}) None" using d(7) by blast
    moreover have "A - {z} \<noteq> {}" using False d(6) zA(1) by blast
    then have "0 < card (A - {z})" using fin by (metis card_gt_0_iff finite_Diff)
    then have "2 \<le> fh_num_nodes fh" using less by simp
    ultimately have "\<exists>m' mn A'. fib_heap_consolidate logf m2 fh = Some (m', fh\<lparr>fh_min := mn\<rparr>) \<and> fsame m2 m' \<and> A' \<subseteq> A - {z} \<and> fib_inv m' (fh\<lparr>fh_min := mn\<rparr>) A'"
      using consolidate_ok [OF d(4,5) z zd d(3) _ n less] by blast
    then show ?thesis using False by simp
  qed
  then obtain m3 mn A' where c: "(if r = z then Some (m2, fh\<lparr>fh_min := None\<rparr>) else fib_heap_consolidate logf m2 fh) = Some (m3, fh\<lparr>fh_min := mn\<rparr>)"
    "fsame m2 m3" "A' \<subseteq> A - {z}" "fib_inv m3 (fh\<lparr>fh_min := mn\<rparr>) A'" by blast
  have "card A' < fh_num_nodes fh" using less card_mono [OF _ c(3)] fin by simp
  then have "fib_inv m3 (fh\<lparr>fh_min := mn, fh_num_nodes := fh_num_nodes fh - 1\<rparr>) A'" using c(4) by (simp add: fib_inv_def)
  then show ?thesis using ex c(1,3) fsame_trans [OF same c(2)] zA(1) least
    by (intro exI [of _ m3] exI [of _ "fh\<lparr>fh_min := mn, fh_num_nodes := fh_num_nodes fh - 1\<rparr>"] exI [of _ A']) simp
qed

section \<open>Inserting\<close>

lemma insert_ok:
  assumes inv: "fib_inv m fh A" and k: "\<not> is_nan k" "\<not> double_eq k NEG_DBL_MAX"
  shows "\<exists>m' fh'. fib_heap_insert m fh k v = Some (m', fh') \<and> fib_inv m' fh' (insert (fm_brk m) A) \<and> fm_brk m \<notin> dom (fm_key m) \<and>
    fm_key m' = (fm_key m)(fm_brk m \<mapsto> k) \<and> fm_value m' = (fm_value m)(fm_brk m := v) \<and> fh_num_nodes fh' = fh_num_nodes fh + 1"
proof -
  let ?b = "fm_brk m"
  obtain T where f: "fib_forest m A T {}" and rg: "ring m (kids m A None)" and num: "card A \<le> fh_num_nodes fh"
    and mn: "case fh_min fh of None \<Rightarrow> A = {} | Some z \<Rightarrow> z \<in> kids m A None \<and> (\<forall>a \<in> kids m A None. \<not> double_less (the (fm_key m a)) (the (fm_key m z)))"
    using inv by (auto simp: fib_inv_def)
  have b: "?b \<notin> dom (fm_key m)" "?b \<notin> A" using fib_forestD(2,3) [OF f] by auto
  let ?m = "m\<lparr>fm_key := (fm_key m)(?b \<mapsto> k), fm_value := (fm_value m)(?b := v), fm_parent := (fm_parent m)(?b := None),
         fm_child := (fm_child m)(?b := None), fm_left := (fm_left m)(?b := None), fm_right := (fm_right m)(?b := None),
         fm_degree := (fm_degree m)(?b := 0), fm_mark := (fm_mark m)(?b := False), fm_brk := Suc ?b\<rparr>"
  have key: "fm_key ?m a = fm_key m a" if "a \<in> A" for a using that b(2) by auto
  have step: "fib_inv m' (fh\<lparr>fh_min := Some z', fh_num_nodes := fh_num_nodes fh + 1\<rparr>) (insert ?b A)"
    if m': "fm_key m' = fm_key ?m" "fm_parent m' = fm_parent ?m" "fm_child m' = fm_child ?m" "fm_degree m' = fm_degree ?m" "fm_brk m' = fm_brk ?m"
      "ring m' (insert ?b (kids m A None))" "\<And>a. fm_parent m a \<noteq> None \<Longrightarrow> a \<noteq> ?b \<Longrightarrow> fm_left m' a = fm_left m a \<and> fm_right m' a = fm_right m a"
      and z': "z' \<in> insert ?b (kids m A None)" "\<forall>a \<in> insert ?b (kids m A None). \<not> double_less (the (fm_key ?m a)) (the (fm_key ?m z'))" for m' z'
  proof -
    have K: "kids m' (insert ?b A) = (kids m A)(None := insert ?b (kids m A None))" by (rule ext) (use m'(2) b(2) in \<open>auto simp: kids_def\<close>)
    have kb: "kids m A (Some ?b) = {}" using fib_forestD(6) [OF f] b(2) by (auto simp: kids_mem)
    have rings: "ring m' (kids m A (Some a))" if "a \<in> A" for a
      by (rule ring_cong [OF fib_forestD(8) [OF f that]]) (use m'(7) b(2) in \<open>auto simp: kids_mem\<close>)
    have "fnode_ok m' (kids m A (Some a)) (card ((T(?b := {?b})) a)) a" if "a \<in> insert ?b A" for a
    proof (cases "a = ?b")
      case True
      then show ?thesis using m'(3,4) kb by (simp add: fnode_ok_def)
    next
      case False
      then show ?thesis using fib_forestD(9) [OF f, of a] fnode_ok_cong [of m' a m] m'(3,4) that by simp
    qed
    then have "fib_forest m' (insert ?b A) (T(?b := {?b})) {}"
      using fib_forestD(1-4,6,7) [OF f] trees_add [OF fib_forestD(5) [OF f] b(2) kb] rings kb m'(1,2,5) k(1) b(2) unfolding fib_forest_def K by (auto simp: less_Suc_eq)
    then show ?thesis using m'(1,6) z' num fib_forestD(1) [OF f] b(2) unfolding fib_inv_def K by (auto simp: card_insert_if)
  qed
  show ?thesis
  proof (cases "fh_min fh")
    case None
    then have A: "A = {}" using mn by simp
    let ?m' = "?m\<lparr>fm_left := (fm_left m)(?b := Some ?b), fm_right := (fm_right m)(?b := Some ?b)\<rparr>"
    have "fib_heap_insert m fh k v = Some (?m', fh\<lparr>fh_min := Some ?b, fh_num_nodes := fh_num_nodes fh + 1\<rparr>)"
      using k(2) None by (simp add: fib_heap_insert_def self_link_eq Let_def)
    moreover have "fib_inv ?m' (fh\<lparr>fh_min := Some ?b, fh_num_nodes := fh_num_nodes fh + 1\<rparr>) (insert ?b A)"
      by (rule step) (use A in \<open>auto simp: kids_def double_less_def intro: ring_self\<close>)
    ultimately show ?thesis using b(1) by auto
  next
    case (Some z)
    then have z: "z \<in> kids m A None" "\<forall>a \<in> kids m A None. \<not> double_less (the (fm_key m a)) (the (fm_key m z))" using mn by simp_all
    obtain l r where nb: "fm_right m z = Some r" "r \<in> kids m A None" by (rule ring_neighbours [OF rg z(1)])
    have zA: "z \<in> A" "r \<in> A" "fm_parent m z = None" "fm_parent m r = None" "z \<noteq> ?b" "r \<noteq> ?b" using z(1) nb(2) b(2) by (auto simp: kids_mem)
    have dom: "z \<in> dom (fm_key m)" "r \<in> dom (fm_key m)" using zA fib_forestD(2) [OF f] by auto
    have lk: "link_right ?m (Some z) (Some ?b) = Some (linked ?m z ?b r)" by (rule link_eq) (use dom zA nb(1) in auto)
    let ?z = "if double_less k (the (fm_key m z)) then ?b else z"
    have "fib_heap_insert m fh k v = Some (linked ?m z ?b r, fh\<lparr>fh_min := Some ?z, fh_num_nodes := fh_num_nodes fh + 1\<rparr>)"
      using k(2) Some lk dom zA by (simp add: fib_heap_insert_def Let_def)
    moreover have "fib_inv (linked ?m z ?b r) (fh\<lparr>fh_min := Some ?z, fh_num_nodes := fh_num_nodes fh + 1\<rparr>) (insert ?b A)"
    proof (rule step)
      have "ring ?m (kids m A None)" by (rule ring_cong [OF rg]) (use b(2) in \<open>auto simp: kids_mem\<close>)
      then show "ring (linked ?m z ?b r) (insert ?b (kids m A None))" by (rule ring_insert) (use z(1) b(2) nb(1) zA in \<open>auto simp: kids_mem\<close>)
      show "\<forall>a \<in> insert ?b (kids m A None). \<not> double_less (the (fm_key ?m a)) (the (fm_key ?m ?z))"
        using z fib_forestD(4) [OF f] b(2) k(1) zA by (auto simp: kids_mem double_less_def)
    qed (use z(1) zA in auto)
    ultimately show ?thesis using b(1) by auto
  qed
qed

lemma create_ok: "fib_inv fmem_empty fib_heap_create {}"
  unfolding fib_inv_def fib_forest_def
  by (intro conjI exI [of _ "\<lambda>_. {}"]) (auto simp: fmem_empty_def fib_heap_create_def kids_def trees_def disjoint_family_on_def)

end
