(* ===== verification/Golden_Degree.thy ===== *)
theory Golden_Degree
  imports Single_Rounding Fib_Heap_Inv
begin

text \<open>
  The array of \<^verbatim>\<open>consolidate\<close> has an entry for every degree that a tree can have, for every \<^verbatim>\<open>logf\<close> that is accurate to three digits
  behind the point: a tree of degree \<open>k\<close> has at least \<open>2\<^sup>k\<close> nodes, and \<open>\<lfloor>2.1 \<cdot> logf n\<rfloor>\<close> is above \<open>k\<close> when \<open>n\<close> is above \<open>2\<^sup>k\<close>, with a margin that
  covers the error of \<^verbatim>\<open>logf\<close> and all roundings.
\<close>

section \<open>The logarithm of the C library\<close>

text \<open>For finite arguments from one on, \<^verbatim>\<open>logf\<close> returns a finite number that is not negative and is close to the natural logarithm.\<close>

definition logf_accurate :: "(single_bits \<Rightarrow> single_bits) \<Rightarrow> bool" where
  "logf_accurate logf \<longleftrightarrow> (\<forall>b < single_inf. 1 \<le> single_val b \<longrightarrow>
     logf b < single_inf \<and> \<bar>single_val (logf b) - ln (single_val b)\<bar> \<le> 1 / 1024)"

lemma ln_error:
  assumes "0 < x" "\<bar>y - x\<bar> \<le> x / 2 ^ 24"
  shows "\<bar>ln y - ln (x :: real)\<bar> \<le> 1 / 2 ^ 23"
proof -
  define t where "t = y / x - 1"
  have y: "y = x * (1 + t)" using assms(1) by (simp add: t_def)
  then have "x * \<bar>t\<bar> \<le> x / 2 ^ 24" using assms by (simp add: algebra_simps abs_mult)
  then have "x * \<bar>t\<bar> \<le> x * (1 / 2 ^ 24)" by simp
  then have t: "\<bar>t\<bar> \<le> 1 / 2 ^ 24" using assms(1) by (rule mult_left_le_imp_le)
  then have half: "\<bar>t\<bar> \<le> 1 / 2" by (rule order_trans) simp
  have "ln y = ln x + ln (1 + t)" unfolding y using assms(1) half by (intro ln_mult_pos) auto
  moreover have "ln (1 + t) \<le> t" using half by (intro ln_add_one_self_le_self2) simp
  moreover have "- 2 * \<bar>t\<bar> \<le> ln (1 + t)"
  proof (cases "0 \<le> t")
    case True
    then have "0 \<le> ln (1 + t)" by simp
    then show ?thesis using abs_ge_zero [of t] by linarith
  next
    case False
    then have "- (- t) - 2 * (- t)\<^sup>2 \<le> ln (1 - (- t))" using half by (intro ln_one_minus_pos_lower_bound) simp_all
    moreover have "(- t)\<^sup>2 \<le> (1 / 2) * (- t)" using False half unfolding power2_eq_square by (intro mult_right_mono) simp_all
    ultimately show ?thesis using False by simp
  qed
  ultimately show ?thesis using t by (simp add: abs_le_iff)
qed

lemma logf_counter:
  assumes acc: "logf_accurate logf" and n: "2 \<le> n" "n < 2 ^ 127"
  shows "logf (single_of_nat n) < single_inf" "\<bar>single_val (logf (single_of_nat n)) - ln (real n)\<bar> \<le> 1 / 1000"
proof -
  let ?b = "single_of_nat n"
  note e = single_of_nat_error [OF n(2)]
  have "real n / 2 ^ 24 \<le> real n / 2" by (intro divide_left_mono) simp_all
  then have "1 \<le> single_val ?b" using e(2) n(1) by linarith
  then have l: "logf ?b < single_inf" "\<bar>single_val (logf ?b) - ln (single_val ?b)\<bar> \<le> 1 / 1024"
    using acc e(1) by (simp_all add: logf_accurate_def)
  have "\<bar>ln (single_val ?b) - ln (real n)\<bar> \<le> 1 / 2 ^ 23" using n(1) e(2) by (intro ln_error) simp_all
  moreover have "(1::real) / 1024 + 1 / 2 ^ 23 \<le> 1 / 1000" by simp
  ultimately show "\<bar>single_val (logf ?b) - ln (real n)\<bar> \<le> 1 / 1000" using l(2) by linarith
  show "logf ?b < single_inf" by (rule l(1))
qed

section \<open>The size of the array\<close>

lemma round_div_ratio: "round_div n k = round_ratio n (2 ^ k)"
  by (simp add: round_div_def round_ratio_def)

lemma round_bits_error: "0 < p \<Longrightarrow> \<bar>real (round_bits p n) - real n\<bar> \<le> real n / 2 ^ p"
proof (cases "bit_len n \<le> p")
  case True
  then show ?thesis by (simp add: round_bits_def round_div_def Let_def)
next
  case False
  assume "0 < p"
  define k where "k = bit_len n - p"
  have n: "0 < n" using False by (cases "n = 0") (simp_all add: bit_len.simps)
  have k: "bit_len n = k + p" "0 < k" using False by (simp_all add: k_def)
  have "(2::nat) ^ (k + p - 1) \<le> n" using bit_len_bounds [OF n] k(1) by simp
  then have le: "(2::real) ^ (k + p - 1) \<le> real n" by (metis of_nat_le_iff of_nat_numeral of_nat_power)
  have eq: "(2::real) ^ (k + p - 1) = 2 ^ k / 2 * 2 ^ p" using k(2) by (cases k) (simp_all add: power_add)
  have "(2::real) ^ k / 2 * 2 ^ p \<le> real n" using le unfolding eq .
  then have half: "(2::real) ^ k / 2 \<le> real n / 2 ^ p" by (simp only: pos_le_divide_eq zero_less_power zero_less_numeral)
  have "real (round_bits p n) - real n = (real (round_ratio n (2 ^ k)) - real n / real (2 ^ k)) * 2 ^ k"
    by (simp add: round_bits_def Let_def k_def [symmetric] round_div_ratio left_diff_distrib)
  then have "\<bar>real (round_bits p n) - real n\<bar> = \<bar>real (round_ratio n (2 ^ k)) - real n / real (2 ^ k)\<bar> * 2 ^ k"
    by (simp add: abs_mult)
  also have "\<dots> \<le> 1 / 2 * 2 ^ k" using round_ratio_error [of "2 ^ k" n] by (intro mult_right_mono) simp_all
  finally show ?thesis using half by linarith
qed

text \<open>The rounded product in units of one.\<close>

lemma product_bounds:
  fixes x :: single_bits
  defines "r \<equiv> real (round_bits 53 (log_golden_ratio_factor * single_mag x)) / 2 ^ 200"
  shows "single_val x * 2.0999 \<le> r" "r \<le> single_val x * 2.1001"
proof -
  let ?m = "log_golden_ratio_factor * single_mag x"
  have v: "real ?m / 2 ^ 200 = single_val x * (real log_golden_ratio_factor / 2 ^ 51)" by (simp add: single_val_def)
  have "\<bar>real (round_bits 53 ?m) - real ?m\<bar> \<le> real ?m / 2 ^ 53" by (rule round_bits_error) simp
  then have "\<bar>real (round_bits 53 ?m) - real ?m\<bar> / 2 ^ 200 \<le> real ?m / 2 ^ 53 / 2 ^ 200" by (rule divide_right_mono) simp
  moreover have "\<bar>real (round_bits 53 ?m) - real ?m\<bar> / 2 ^ 200 = \<bar>r - real ?m / 2 ^ 200\<bar>" unfolding r_def by (simp add: diff_divide_distrib [symmetric] abs_divide)
  ultimately have "\<bar>r - real ?m / 2 ^ 200\<bar> \<le> real ?m / 2 ^ 200 / 2 ^ 53" by simp
  moreover have "t * (1 - u) \<le> r \<and> r \<le> t * (1 + u)" if "\<bar>r - t\<bar> \<le> t * u" for t u using that by (simp add: abs_le_iff algebra_simps)
  from this [of "real ?m / 2 ^ 200" "1 / 2 ^ 53"] have
    "\<bar>r - real ?m / 2 ^ 200\<bar> \<le> real ?m / 2 ^ 200 / 2 ^ 53 \<Longrightarrow> real ?m / 2 ^ 200 * (1 - 1 / 2 ^ 53) \<le> r \<and> r \<le> real ?m / 2 ^ 200 * (1 + 1 / 2 ^ 53)"
    by (simp only: times_divide_eq_right mult_1_right)
  ultimately have "real ?m / 2 ^ 200 * (1 - 1 / 2 ^ 53) \<le> r" "r \<le> real ?m / 2 ^ 200 * (1 + 1 / 2 ^ 53)" by blast+
  moreover have "single_val x * 2.0999 \<le> single_val x * (real log_golden_ratio_factor / 2 ^ 51 * (1 - 1 / 2 ^ 53))"
    "single_val x * (real log_golden_ratio_factor / 2 ^ 51 * (1 + 1 / 2 ^ 53)) \<le> single_val x * 2.1001"
    by (rule mult_left_mono; simp add: log_golden_ratio_factor_def single_val_def)+
  ultimately show "single_val x * 2.0999 \<le> r" "r \<le> single_val x * 2.1001" unfolding v by (simp_all only: mult.assoc)
qed

lemma golden_degree_bounds:
  assumes acc: "logf_accurate logf" and n: "2 \<le> n" "n < 2 ^ 127"
  obtains k where "golden_degree logf n = Some k" "(ln (real n) - 1 / 1000) * 2.0999 < real k + 1" "real k \<le> (ln (real n) + 1 / 1000) * 2.1001"
proof -
  define x where "x = logf (single_of_nat n)"
  have x: "x < single_inf" "\<bar>single_val x - ln (real n)\<bar> \<le> 1 / 1000" unfolding x_def using logf_counter [OF acc n] by simp_all
  define m where "m = round_bits 53 (log_golden_ratio_factor * single_mag x)"
  define k where "k = m div 2 ^ 200"
  have r: "single_val x * 2.0999 \<le> real m / 2 ^ 200" "real m / 2 ^ 200 \<le> single_val x * 2.1001" unfolding m_def by (rule product_bounds)+
  have "real k \<le> real m / 2 ^ 200" unfolding k_def using of_nat_div_le_of_nat [of m "2 ^ 200", where 'a = real] by simp
  moreover have "real m / 2 ^ 200 < real k + 1"
  proof -
    have "m < 2 ^ 200 * (k + 1)" unfolding k_def by (simp add: less_mult_imp_div_less dividend_less_times_div [of "2 ^ 200" m])
    then have "real m < 2 ^ 200 * (real k + 1)" using of_nat_less_iff [of m "2 ^ 200 * (k + 1)", where 'a = real] by simp
    then show ?thesis by (simp add: field_simps)
  qed
  moreover have "single_val x * 2.1001 \<le> (ln (real n) + 1 / 1000) * 2.1001" "(ln (real n) - 1 / 1000) * 2.0999 \<le> single_val x * 2.0999"
    by (rule mult_right_mono, use x(2) in linarith, simp)+
  ultimately have b: "real k \<le> (ln (real n) + 1 / 1000) * 2.1001" "(ln (real n) - 1 / 1000) * 2.0999 < real k + 1" using r by linarith+
  have "real n \<le> 2 ^ 127" using n(2) by (metis less_imp_le of_nat_le_iff of_nat_numeral of_nat_power)
  then have "ln (real n) \<le> ln (2 ^ 127)" using n(1) by simp
  also have "\<dots> = real 127 * ln (2::real)" by (rule ln_realpow)
  also have "\<dots> \<le> real 127 * 1" using ln_2_less_1 by (intro mult_left_mono) simp_all
  finally have "real k < 2 ^ 32" using b(1) by simp
  then have "k < 2 ^ 32" by (metis of_nat_less_iff of_nat_numeral of_nat_power)
  moreover have "x \<noteq> 2 ^ 31" using x(1) by (auto simp: single_inf_def)
  ultimately have "golden_degree logf n = Some k"
    unfolding golden_degree_def Let_def x_def [symmetric] m_def [symmetric] k_def [symmetric] using x(1) by simp
  then show thesis using that b by blast
qed

section \<open>Room for every degree\<close>

lemma ln_power_bound:
  assumes "(3::real) ^ p \<le> x ^ q" "0 < x" "0 < q"
  shows "real p / real q \<le> ln x"
proof -
  have "exp (real p) = exp 1 ^ p" by (simp add: exp_of_nat_mult [symmetric])
  also have "\<dots> \<le> 3 ^ p" by (intro power_mono exp_le) simp
  finally have "exp (real p) \<le> x ^ q" using assms(1) by simp
  then have "real p \<le> ln (x ^ q)" using assms(2) by (simp add: ln_ge_iff)
  then show ?thesis using assms(2,3) by (simp add: ln_realpow field_simps)
qed

lemma ln_margin:
  assumes "2 ^ k < n"
  shows "real (k + 1) / 2.1 + 1 / 100 \<le> ln (real n)"
proof -
  have big: "real (k + 1) / 2.1 + 1 / 100 \<le> ln (real n)" if "real (k + 1) / 2.1 + 1 / 100 \<le> ln x" "x \<le> real n" "0 < x" for x
  proof -
    have "ln x \<le> ln (real n)" using that(2,3) by simp
    then show ?thesis using that(1) by linarith
  qed
  consider "k = 0" | "k = 1" | "k = 2" | "k = 3" | "k \<ge> 4" by linarith
  then show ?thesis
  proof cases
    case 1
    then show ?thesis using assms ln_power_bound [of 10 2 16] by (intro big [of 2]) simp_all
  next
    case 2
    then show ?thesis using assms ln_power_bound [of 1 3 1] by (intro big [of 3]) simp_all
  next
    case 3
    then show ?thesis using assms ln_power_bound [of 36 5 25] by (intro big [of 5]) simp_all
  next
    case 4
    then show ?thesis using assms ln_power_bound [of 2 9 1] by (intro big [of 9]) simp_all
  next
    case 5
    have "5 / 8 \<le> ln (2::real)" using ln_power_bound [of 5 2 8] by simp
    then have "real k * (5 / 8) \<le> real k * ln 2" by (intro mult_left_mono) simp_all
    also have "\<dots> = ln (2 ^ k)" by (simp add: ln_realpow)
    finally have "real k * (5 / 8) \<le> ln (2 ^ k)" .
    moreover have "(j + 1) / 2.1 + 1 / 100 \<le> j * (5 / 8)" if "4 \<le> j" for j :: real using that by (simp add: field_simps)
    from this [of "real k"] 5 have "real (k + 1) / 2.1 + 1 / 100 \<le> real k * (5 / 8)" by (simp add: add.commute)
    ultimately have "real (k + 1) / 2.1 + 1 / 100 \<le> ln (2 ^ k)" by (rule order_trans [rotated])
    moreover have "(2::real) ^ k \<le> real n" using assms by (metis less_imp_le of_nat_le_iff of_nat_numeral of_nat_power)
    ultimately show ?thesis by (rule big) simp
  qed
qed

lemma array_fits_accurate:
  assumes "logf_accurate logf" "2 \<le> n" "n < 2 ^ 127"
  shows "array_fits logf n"
proof -
  obtain v where v: "golden_degree logf n = Some v" "(ln (real n) - 1 / 1000) * 2.0999 < real v + 1"
    by (rule golden_degree_bounds [OF assms])
  have "k < v" if k: "2 ^ k < n" for k
  proof -
    have "(2::nat) ^ k < 2 ^ 127" using k assms(3) by linarith
    then have "k < 127" by (rule power_less_imp_less_exp [rotated]) simp
    then have k': "real (k + 1) \<le> 127" by simp
    have "j \<le> (j / 2.1 + 1 / 100 - 1 / 1000) * 2.0999" if "j \<le> 127" for j :: real using that by (simp add: field_simps)
    from this [OF k'] have "real (k + 1) \<le> (real (k + 1) / 2.1 + 1 / 100 - 1 / 1000) * 2.0999" .
    also have "\<dots> \<le> (ln (real n) - 1 / 1000) * 2.0999"
    proof (rule mult_right_mono)
      show "real (k + 1) / 2.1 + 1 / 100 - 1 / 1000 \<le> ln (real n) - 1 / 1000" using ln_margin [OF k] by linarith
    qed simp
    finally show ?thesis using v(2) by simp
  qed
  then show ?thesis using v(1) by (simp add: array_fits_def degrees_fit_def)
qed

section \<open>An accurate logarithm\<close>

text \<open>The natural logarithm in steps of \<open>2\<^sup>-\<^sup>1\<^sup>1\<close>, an instance of \<^verbatim>\<open>logf\<close> for concrete runs.\<close>

definition ln_steps :: "single_bits \<Rightarrow> single_bits" where
  "ln_steps b = single_ratio (nat \<lfloor>ln (single_val b) * 2 ^ 11\<rfloor> * 2 ^ 138) 1"

lemma single_val_less: "b < single_inf \<Longrightarrow> single_val b \<le> 2 ^ 128"
proof -
  assume "b < single_inf"
  then have e: "b div 2 ^ 23 < 255" by (simp add: single_inf_def div_less_iff_less_mult)
  have f: "b mod 2 ^ 23 < 2 ^ 23" by simp
  have "single_mag b \<le> 2 ^ 24 * 2 ^ 253"
  proof (cases "b div 2 ^ 23 mod 2 ^ 8 = 0")
    case True
    then have "single_mag b < 2 ^ 23" using f by (simp add: single_mag_def)
    then show ?thesis by (rule less_imp_le [OF order_less_le_trans]) simp
  next
    case False
    have "2 ^ 23 + b mod 2 ^ 23 \<le> 2 ^ 24" using f by simp
    moreover have "(2::nat) ^ (b div 2 ^ 23 mod 2 ^ 8 - 1) \<le> 2 ^ 253" using e by (intro power_increasing) simp_all
    ultimately show ?thesis unfolding single_mag_def Let_def if_not_P [OF False] by (rule mult_le_mono)
  qed
  then have "real (single_mag b) \<le> real (2 ^ 24 * 2 ^ 253)" by (simp only: of_nat_le_iff)
  then have "single_val b \<le> real (2 ^ 24 * 2 ^ 253) / 2 ^ 149" unfolding single_val_def by (rule divide_right_mono) simp
  then show ?thesis by simp
qed

lemma ln_steps_accurate: "logf_accurate ln_steps"
  unfolding logf_accurate_def
proof (intro allI impI)
  fix b assume b: "b < single_inf" "1 \<le> single_val b"
  define l where "l = ln (single_val b)"
  define t where "t = nat \<lfloor>l * 2 ^ 11\<rfloor>"
  have "l \<le> ln (2 ^ 128)" unfolding l_def using single_val_less [OF b(1)] b(2) by simp
  also have "\<dots> = real 128 * ln (2::real)" by (rule ln_realpow)
  also have "\<dots> \<le> real 128 * 1" using ln_2_less_1 by (intro mult_left_mono) simp_all
  finally have l: "0 \<le> l" "l \<le> 128" unfolding l_def using b(2) by simp_all
  have "real t = of_int \<lfloor>l * 2 ^ 11\<rfloor>" unfolding t_def using l(1) by simp
  then have t: "real t \<le> l * 2 ^ 11" "l * 2 ^ 11 < real t + 1" by linarith+
  have d: "t * 2 ^ 138 div 1 = t * (2 ^ 138 :: nat)" by simp
  have r: "ln_steps b = single_ratio (t * 2 ^ 138) 1" by (simp only: ln_steps_def l_def t_def)
  have "single_ratio (t * 2 ^ 138) 1 < single_inf \<and> \<bar>real (single_mag (single_ratio (t * 2 ^ 138) 1)) - real t * 2 ^ 138\<bar> \<le> real t * 2 ^ 138 / 2 ^ 24"
  proof (cases "t = 0")
    case True
    then show ?thesis by (simp add: single_ratio_def bit_len.simps round_ratio_def single_mag_def single_inf_def)
  next
    case False
    have "real t \<le> 2 ^ 18" using t(1) l(2) by simp
    then have "t \<le> 2 ^ 18" by (metis of_nat_le_iff of_nat_numeral of_nat_power)
    then have "t * 2 ^ 138 \<le> 2 ^ 18 * (2::nat) ^ 138" by (rule mult_le_mono1)
    then have hi: "t * 2 ^ 138 div 1 < (2::nat) ^ 276" unfolding d by (rule order_le_less_trans) simp
    have "1 * (2::nat) ^ 138 \<le> t * 2 ^ 138" using False by (intro mult_le_mono1) simp
    then have lo: "(2::nat) ^ 23 \<le> t * 2 ^ 138 div 1" unfolding d by (rule order_trans [rotated]) simp
    show ?thesis using single_ratio_error [OF _ lo hi] by simp
  qed
  moreover have "\<bar>single_val (ln_steps b) - l\<bar> \<le> 1 / 1024"
    if e: "\<bar>real (single_mag (single_ratio (t * 2 ^ 138) 1)) - real t * 2 ^ 138\<bar> \<le> real t * 2 ^ 138 / 2 ^ 24"
  proof -
    have q: "real t / 2 ^ 11 * 2 ^ 149 = real t * 2 ^ 138" by simp
    have "\<bar>single_val (ln_steps b) - real t / 2 ^ 11\<bar> = \<bar>real (single_mag (single_ratio (t * 2 ^ 138) 1)) - real t * 2 ^ 138\<bar> / 2 ^ 149"
      unfolding single_val_def r q [symmetric] by (rule abs_diff_scaled) simp
    also have "\<dots> \<le> real t * 2 ^ 138 / 2 ^ 24 / 2 ^ 149" using e by (rule divide_right_mono) simp
    also have "\<dots> = real t / 2 ^ 35" by simp
    also have "\<dots> \<le> 2 ^ 18 / 2 ^ 35" using t(1) l(2) by (intro divide_right_mono) simp_all
    finally have "\<bar>single_val (ln_steps b) - real t / 2 ^ 11\<bar> \<le> 1 / 2 ^ 17" by simp
    moreover have "\<bar>real t / 2 ^ 11 - l\<bar> \<le> 1 / 2 ^ 11" using t by (simp add: abs_le_iff field_simps)
    moreover have "(1::real) / 2 ^ 17 + 1 / 2 ^ 11 \<le> 1 / 1024" by simp
    ultimately show ?thesis by linarith
  qed
  ultimately show "ln_steps b < single_inf \<and> \<bar>single_val (ln_steps b) - ln (single_val b)\<bar> \<le> 1 / 1024"
    unfolding l_def [symmetric] r by blast
qed

section \<open>Small heaps\<close>

text \<open>The sizes of the array for heaps of up to eight nodes.\<close>

lemma exp_1_bounds: "2.7 \<le> exp (1::real)" "exp (1::real) \<le> 2.73"
proof -
  have p: "exp (1::real) = exp (1 / 128) ^ 128" "exp (- 1::real) = exp (- 1 / 128) ^ 128" by (simp_all add: exp_of_nat_mult [symmetric])
  have "(129 / 128) ^ 128 \<le> exp (1 / 128 :: real) ^ 128" using exp_ge_add_one_self [of "1 / 128"] by (intro power_mono) simp_all
  then show "2.7 \<le> exp (1::real)" unfolding p(1) by (rule order_trans [rotated]) (simp add: power_divide)
  have "(127 / 128) ^ 128 \<le> exp (- 1 :: real)" unfolding p(2) using exp_ge_add_one_self [of "- 1 / 128"] by (intro power_mono) simp_all
  then have "1 / 2.73 \<le> exp (- 1 :: real)" by (rule order_trans [rotated]) (simp add: power_divide)
  then show "exp (1::real) \<le> 2.73" by (simp add: exp_minus field_simps)
qed

lemma ln_bounds:
  assumes "0 < x" "0 < q"
  shows "2.73 ^ p \<le> x ^ q \<Longrightarrow> real p / real q \<le> ln x" "x ^ q \<le> 2.7 ^ p \<Longrightarrow> ln x \<le> real p / real q"
proof -
  have e: "exp (real p) = exp 1 ^ p" by (simp add: exp_of_nat_mult [symmetric])
  have l: "ln (x ^ q) = real q * ln x" using assms(1) by (simp add: ln_realpow)
  have "exp 1 ^ p \<le> (2.73::real) ^ p" by (intro power_mono exp_1_bounds(2)) simp
  moreover assume "2.73 ^ p \<le> x ^ q"
  ultimately have "exp (real p) \<le> x ^ q" unfolding e by (rule order_trans)
  then have "real p \<le> ln (x ^ q)" using assms(1) by (simp add: ln_ge_iff)
  then show "real p / real q \<le> ln x" using assms(2) unfolding l by (simp add: field_simps)
next
  have e: "exp (real p) = exp 1 ^ p" by (simp add: exp_of_nat_mult [symmetric])
  have l: "ln (x ^ q) = real q * ln x" using assms(1) by (simp add: ln_realpow)
  assume "x ^ q \<le> 2.7 ^ p"
  also have "(2.7::real) ^ p \<le> exp 1 ^ p" by (intro power_mono exp_1_bounds(1)) simp
  finally have "ln (x ^ q) \<le> ln (exp (real p))" unfolding e using assms(1) by simp
  then show "ln x \<le> real p / real q" using assms(2) unfolding l by (simp add: field_simps)
qed

lemma golden_degree_value:
  assumes acc: "logf_accurate logf" and n: "2 \<le> n" "n < 2 ^ 127" and k: "k \<le> 100"
    and lo: "real k / 2.1 + 1 / 100 \<le> ln (real n)" and hi: "ln (real n) \<le> (real k + 1) / 2.1 - 1 / 100"
  shows "golden_degree logf n = Some k"
proof -
  obtain v where v: "golden_degree logf n = Some v" "(ln (real n) - 1 / 1000) * 2.0999 < real v + 1" "real v \<le> (ln (real n) + 1 / 1000) * 2.1001"
    by (rule golden_degree_bounds [OF acc n])
  have "real k \<le> 100" using k by simp
  moreover have "j \<le> (x - 1 / 1000) * 2.0999 \<and> (x + 1 / 1000) * 2.1001 < j + 1"
    if "j \<le> 100" "j / 2.1 + 1 / 100 \<le> x" "x \<le> (j + 1) / 2.1 - 1 / 100" for j x :: real
    using that by (simp add: field_simps)
  ultimately have "real k \<le> (ln (real n) - 1 / 1000) * 2.0999" "(ln (real n) + 1 / 1000) * 2.1001 < real k + 1" using lo hi by blast+
  then have "real k < real v + 1" "real v < real k + 1" using v by linarith+
  then have "v = k" by linarith
  then show ?thesis using v(1) by simp
qed

lemma golden_degree_values:
  assumes "logf_accurate logf"
  shows "golden_degree logf 2 = Some 1" "golden_degree logf 3 = Some 2" "golden_degree logf 4 = Some 2" "golden_degree logf 5 = Some 3"
    "golden_degree logf 6 = Some 3" "golden_degree logf 7 = Some 4" "golden_degree logf 8 = Some 4"
proof -
  show "golden_degree logf 2 = Some 1" by (rule golden_degree_value [OF assms]) (use ln_bounds [of 2 2 1] ln_bounds [of 2 5 4] in \<open>simp_all add: power_divide\<close>)
  show "golden_degree logf 3 = Some 2" by (rule golden_degree_value [OF assms]) (use ln_bounds [of 3 1 1] ln_bounds [of 3 5 6] in \<open>simp_all add: power_divide\<close>)
  show "golden_degree logf 4 = Some 2" by (rule golden_degree_value [OF assms]) (use ln_bounds [of 4 1 1] ln_bounds [of 4 12 17] in \<open>simp_all add: power_divide\<close>)
  show "golden_degree logf 5 = Some 3" by (rule golden_degree_value [OF assms]) (use ln_bounds [of 5 2 3] ln_bounds [of 5 5 9] in \<open>simp_all add: power_divide\<close>)
  show "golden_degree logf 6 = Some 3" by (rule golden_degree_value [OF assms]) (use ln_bounds [of 6 2 3] ln_bounds [of 6 8 15] in \<open>simp_all add: power_divide\<close>)
  show "golden_degree logf 7 = Some 4" by (rule golden_degree_value [OF assms]) (use ln_bounds [of 7 12 23] ln_bounds [of 7 1 2] in \<open>simp_all add: power_divide\<close>)
  show "golden_degree logf 8 = Some 4" by (rule golden_degree_value [OF assms]) (use ln_bounds [of 8 1 2] ln_bounds [of 8 4 9] in \<open>simp_all add: power_divide\<close>)
qed

end
