(* ===== verification/Fib_Queue.thy ===== *)
theory Fib_Queue
  imports Golden_Degree "HOL-Library.Multiset"
begin

text \<open>
  What the Fibonacci heap promises to its clients, as the interface of a priority queue that may lose entries: what is extracted is least, but
  \<^verbatim>\<open>extract_min\<close> may drop further entries, and its counter tells. The last section has a run in which it does and one in which an index is
  out of range.
\<close>

section \<open>Priority queues that may lose entries\<close>

text \<open>\<open>rep s H Q\<close>: the state \<open>s\<close> stands for the entries \<open>Q\<close>, a multiset of keys and values; \<open>H\<close> are the extracted nodes that are not freed yet, with their values. Extractions are
  safe as long as the counter is below \<open>cap\<close>.\<close>

locale lossy_queue =
  fixes rep :: "'s \<Rightarrow> ('p \<rightharpoonup> ulong) \<Rightarrow> (double_bits \<times> ulong) multiset \<Rightarrow> bool"
    and num :: "'s \<Rightarrow> nat"
    and cap :: nat
    and ins :: "'s \<Rightarrow> double_bits \<Rightarrow> ulong \<Rightarrow> 's option"
    and ext :: "'s \<Rightarrow> ('p \<times> 's) outcome option"
    and val :: "'s \<Rightarrow> 'p \<Rightarrow> ulong option"
    and release :: "'s \<Rightarrow> 'p \<Rightarrow> 's option"
  assumes num_law: "rep s H Q \<Longrightarrow> size Q \<le> num s"
    and insert_law: "rep s H Q \<Longrightarrow> \<not> is_nan k \<Longrightarrow> \<not> double_eq k NEG_DBL_MAX \<Longrightarrow>
      \<exists>s'. ins s k v = Some s' \<and> rep s' H (add_mset (k, v) Q) \<and> num s' = num s + 1"
    and extract_exit: "rep s H {#} \<Longrightarrow> ext s = Some Exits"
    and extract_law: "rep s H Q \<Longrightarrow> Q \<noteq> {#} \<Longrightarrow> num s < cap \<Longrightarrow> \<exists>p k v s' Q'. ext s = Some (Returns (p, s')) \<and> (k, v) \<in># Q \<and>
      (\<forall>(k', v') \<in># Q. \<not> double_less k' k) \<and> Q' \<subseteq># Q - {#(k, v)#} \<and> p \<notin> dom H \<and> rep s' (H(p \<mapsto> v)) Q' \<and> num s' = num s - 1"
    and value_law: "rep s H Q \<Longrightarrow> H p = Some v \<Longrightarrow> val s p = Some v"
    and release_law: "rep s H Q \<Longrightarrow> H p = Some v \<Longrightarrow> \<exists>s'. release s p = Some s' \<and> rep s' (H(p := None)) Q \<and> num s' = num s"
begin

text \<open>When the counter is right after an extraction, it was right before, and only the extracted entry is gone.\<close>

lemma nothing_lost:
  assumes r: "rep s H Q" and q: "(k, v) \<in># Q" "Q' \<subseteq># Q - {#(k, v)#}" and n: "num s' = num s - 1" "size Q' = num s'"
  shows "size Q = num s" "Q' = Q - {#(k, v)#}"
proof -
  have s: "size Q \<le> num s" "0 < size Q" by (rule num_law [OF r]) (use q(1) in \<open>auto simp: nonempty_has_size [symmetric]\<close>)
  have le: "size Q' \<le> size (Q - {#(k, v)#})" by (rule size_mset_mono [OF q(2)])
  moreover have "size (Q - {#(k, v)#}) = size Q - 1" using q(1) by (simp add: size_Diff_singleton)
  ultimately show "size Q = num s" using s n by linarith
  then have "size Q' = size (Q - {#(k, v)#})" using n \<open>size (Q - {#(k, v)#}) = size Q - 1\<close> by simp
  then show "Q' = Q - {#(k, v)#}" using q(2) by (metis mset_subset_size order_less_irrefl subset_mset.le_neq_trans)
qed

end

section \<open>The Fibonacci heap\<close>

definition fib_rep :: "fmem \<times> fheap \<Rightarrow> (addr \<rightharpoonup> ulong) \<Rightarrow> (double_bits \<times> ulong) multiset \<Rightarrow> bool" where
  "fib_rep s H Q \<longleftrightarrow> (\<exists>A. fib_inv (fst s) (snd s) A \<and> Q = image_mset (\<lambda>a. (the (fm_key (fst s) a), fm_value (fst s) a)) (mset_set A) \<and>
     (\<forall>p v. H p = Some v \<longrightarrow> p \<in> dom (fm_key (fst s)) - A \<and> fm_value (fst s) p = v))"

lemma fib_repI:
  "fib_inv m fh A \<Longrightarrow> Q = image_mset (\<lambda>a. (the (fm_key m a), fm_value m a)) (mset_set A) \<Longrightarrow>
    \<forall>p v. H p = Some v \<longrightarrow> p \<in> dom (fm_key m) - A \<and> fm_value m p = v \<Longrightarrow> fib_rep (m, fh) H Q"
  unfolding fib_rep_def fst_conv snd_conv by blast

lemma fib_inv_finite: "fib_inv m fh A \<Longrightarrow> finite A \<and> A \<subseteq> dom (fm_key m)"
  by (auto simp: fib_inv_def fib_forest_def)

lemma fib_rep_insert:
  assumes "fib_rep s H Q" "\<not> is_nan k" "\<not> double_eq k NEG_DBL_MAX"
  shows "\<exists>s'. fib_heap_insert (fst s) (snd s) k v = Some s' \<and> fib_rep s' H (add_mset (k, v) Q) \<and> fh_num_nodes (snd s') = fh_num_nodes (snd s) + 1"
proof -
  obtain m fh where s: "s = (m, fh)" by (cases s)
  obtain A where A: "fib_inv m fh A" "Q = image_mset (\<lambda>a. (the (fm_key m a), fm_value m a)) (mset_set A)"
    "\<forall>p v. H p = Some v \<longrightarrow> p \<in> dom (fm_key m) - A \<and> fm_value m p = v" using assms(1) by (auto simp: fib_rep_def s)
  obtain m' fh' where i: "fib_heap_insert m fh k v = Some (m', fh')" "fib_inv m' fh' (insert (fm_brk m) A)" "fm_brk m \<notin> dom (fm_key m)"
    "fm_key m' = (fm_key m)(fm_brk m \<mapsto> k)" "fm_value m' = (fm_value m)(fm_brk m := v)" "fh_num_nodes fh' = fh_num_nodes fh + 1"
    using insert_ok [OF A(1) assms(2,3), of v] by blast
  have b: "fm_brk m \<notin> A" "finite A" using i(3) fib_inv_finite [OF A(1)] by blast+
  have "image_mset (\<lambda>a. (the (fm_key m' a), fm_value m' a)) (mset_set (insert (fm_brk m) A)) = add_mset (k, v) Q"
    unfolding A(2) using b i(4,5) by (simp) (rule image_mset_cong, auto)
  moreover have "\<forall>p v'. H p = Some v' \<longrightarrow> p \<in> dom (fm_key m') - insert (fm_brk m) A \<and> fm_value m' p = v'" using A(3) i(3-5) by auto
  ultimately have "fib_rep (m', fh') H (add_mset (k, v) Q)" by (intro fib_repI [OF i(2)]) simp_all
  then show ?thesis using i(1,6) by (auto simp: s)
qed

lemma fib_rep_empty: "fib_rep s H {#} \<longleftrightarrow> fib_inv (fst s) (snd s) {} \<and> (\<forall>p v. H p = Some v \<longrightarrow> p \<in> dom (fm_key (fst s)) \<and> fm_value (fst s) p = v)"
  by (auto simp: fib_rep_def mset_set_empty_iff dest: fib_inv_finite)

lemma fib_rep_extract:
  assumes r: "fib_rep s H Q" and ne: "Q \<noteq> {#}" and n: "2 \<le> fh_num_nodes (snd s) \<Longrightarrow> array_fits logf (fh_num_nodes (snd s))"
  shows "\<exists>p k v m' fh' Q'. fib_heap_extract_min logf (fst s) (snd s) = Some (Returns (p, m', fh')) \<and> (k, v) \<in># Q \<and>
      (\<forall>(k', v') \<in># Q. \<not> double_less k' k) \<and> Q' \<subseteq># Q - {#(k, v)#} \<and> p \<notin> dom H \<and> fib_rep (m', fh') (H(p \<mapsto> v)) Q' \<and>
      fh_num_nodes fh' = fh_num_nodes (snd s) - 1"
proof -
  obtain m fh where s: "s = (m, fh)" by (cases s)
  let ?e = "\<lambda>m a. (the (fm_key m a), fm_value m a)"
  obtain A where A: "fib_inv m fh A" "Q = image_mset (?e m) (mset_set A)"
    "\<forall>p v. H p = Some v \<longrightarrow> p \<in> dom (fm_key m) - A \<and> fm_value m p = v" using r by (auto simp: fib_rep_def s)
  have fin: "finite A" "A \<subseteq> dom (fm_key m)" using fib_inv_finite [OF A(1)] by blast+
  obtain z where z: "fh_min fh = Some z" using A(1,2) ne by (cases "fh_min fh") (auto simp: fib_inv_def)
  obtain m' fh' A' where x: "fib_heap_extract_min logf m fh = Some (Returns (z, m', fh'))" "fsame m m'" "fib_inv m' fh' A'" "A' \<subseteq> A - {z}"
    "fh_num_nodes fh' = fh_num_nodes fh - 1" "z \<in> A" "\<forall>a \<in> A. \<not> double_less (the (fm_key m a)) (the (fm_key m z))"
    using extract_min_ok [OF A(1) z n [unfolded s snd_conv]] by blast
  have e: "?e m' = ?e m" using x(2) by (simp add: fsame_def)
  have "image_mset (?e m) (mset_set A') \<subseteq># image_mset (?e m) (mset_set (A - {z}))"
    using fin(1) by (intro image_mset_subseteq_mono subset_imp_msubset_mset_set [OF x(4)]) simp
  also have "\<dots> = Q - {#?e m z#}" unfolding A(2) using fin(1) x(6) by (simp add: mset_set_Diff image_mset_Diff)
  finally have sub: "image_mset (?e m) (mset_set A') \<subseteq># Q - {#?e m z#}" .
  have hz: "z \<notin> dom H" using A(3) x(6) by auto
  have "\<forall>p v. (H(z \<mapsto> fm_value m z)) p = Some v \<longrightarrow> p \<in> dom (fm_key m') - A' \<and> fm_value m' p = v"
    using A(3) x(2,4,6) fin(2) by (auto simp: fsame_def)
  then have "fib_rep (m', fh') (H(z \<mapsto> fm_value m z)) (image_mset (?e m) (mset_set A'))" by (intro fib_repI [OF x(3)]) (simp_all only: e)
  moreover have "?e m z \<in># Q" "\<forall>(k', v') \<in># Q. \<not> double_less k' (the (fm_key m z))" unfolding A(2) using fin(1) x(6,7) by auto
  ultimately show ?thesis using x(1,5) sub hz unfolding s fst_conv snd_conv by blast
qed

lemma fib_rep_release:
  assumes "fib_rep s H Q" "H p = Some v"
  shows "\<exists>m'. free_node (fst s) (Some p) = Some m' \<and> fib_rep (m', snd s) (H(p := None)) Q"
proof -
  obtain m fh where s: "s = (m, fh)" by (cases s)
  obtain A where A: "fib_inv m fh A" "Q = image_mset (\<lambda>a. (the (fm_key m a), fm_value m a)) (mset_set A)"
    "\<forall>p v. H p = Some v \<longrightarrow> p \<in> dom (fm_key m) - A \<and> fm_value m p = v" using assms(1) by (auto simp: fib_rep_def s)
  have p: "p \<in> dom (fm_key m)" "p \<notin> A" using A(3) assms(2) by auto
  let ?m = "m\<lparr>fm_key := (fm_key m)(p := None)\<rparr>"
  have k: "the (fm_key ?m a) = the (fm_key m a)" if "a \<in> A" for a using that p(2) by auto
  obtain T where f: "fib_forest m A T {}" using A(1) by (auto simp: fib_inv_def)
  have K: "kids ?m = kids m" by (auto simp: kids_def fun_eq_iff)
  have R: "ring ?m = ring m" by (simp add: ring_def fun_eq_iff)
  have "fib_forest ?m A T {}"
  proof (rule fib_forestI)
    show "A \<subseteq> dom (fm_key ?m)" "dom (fm_key ?m) \<subseteq> {..<fm_brk ?m}" using fib_forestD(2,3) [OF f] p(2) by auto
  next
    fix a assume a: "a \<in> A"
    show "\<not> is_nan (the (fm_key ?m a))" using fib_forestD(4) [OF f a] k [OF a] by simp
    show "fnode_ok ?m (kids ?m A (Some a)) (card (T a)) a" using fib_forestD(9) [OF f a] fnode_ok_cong [of ?m a m] by (simp add: K)
    fix q assume q: "fm_parent ?m a = Some q"
    then have "q \<in> A" using fib_forestD(6) [OF f a] by simp
    then show "q \<in> A \<and> \<not> double_less (the (fm_key ?m a)) (the (fm_key ?m q))" using fib_forestD(7) [OF f a, of q] q k [OF a] k [of q] by simp
  qed (use fib_forestD(1,5) [OF f] fib_forestD(8) [OF f] K R in simp_all)
  moreover have "p \<notin> kids m A None" using p(2) by (simp add: kids_mem)
  ultimately have "fib_inv ?m fh A" using A(1) unfolding fib_inv_def K R by (auto split: option.splits if_splits)
  moreover have "Q = image_mset (\<lambda>a. (the (fm_key ?m a), fm_value ?m a)) (mset_set A)" unfolding A(2)
    using fib_inv_finite [OF A(1)] k by (intro image_mset_cong) auto
  moreover have "\<forall>q v. (H(p := None)) q = Some v \<longrightarrow> q \<in> dom (fm_key ?m) - A \<and> fm_value ?m q = v" using A(3) by auto
  ultimately have "fib_rep (?m, fh) (H(p := None)) Q" by (intro fib_repI)
  then show ?thesis using p(1) by (simp add: s)
qed

text \<open>
  The heap keeps these laws for an accurate \<^verbatim>\<open>logf\<close>, up to numbers of nodes that no machine can hold: then the array of \<^verbatim>\<open>consolidate\<close> has
  room for the degree of every tree.
\<close>

locale degree_bound =
  fixes logf :: "single_bits \<Rightarrow> single_bits"
  assumes accurate: "logf_accurate logf"

sublocale degree_bound \<subseteq> queue: lossy_queue fib_rep "\<lambda>s. fh_num_nodes (snd s)" "2 ^ 127" "\<lambda>s. fib_heap_insert (fst s) (snd s)"
    "\<lambda>s. fib_heap_extract_min logf (fst s) (snd s)" "\<lambda>s p. get_value (fst s) (Some p)" "\<lambda>s p. map_option (\<lambda>m. (m, snd s)) (free_node (fst s) (Some p))"
proof
  fix s :: "fmem \<times> fheap" and H :: "addr \<rightharpoonup> ulong" and Q :: "(double_bits \<times> ulong) multiset"
  assume r: "fib_rep s H Q"
  show "size Q \<le> fh_num_nodes (snd s)" using r by (auto simp: fib_rep_def fib_inv_def)
  show "\<exists>s'. fib_heap_insert (fst s) (snd s) k v = Some s' \<and> fib_rep s' H (add_mset (k, v) Q) \<and> fh_num_nodes (snd s') = fh_num_nodes (snd s) + 1"
    if "\<not> is_nan k" "\<not> double_eq k NEG_DBL_MAX" for k v by (rule fib_rep_insert [OF r that])
  show "\<exists>p k v s' Q'. fib_heap_extract_min logf (fst s) (snd s) = Some (Returns (p, s')) \<and> (k, v) \<in># Q \<and> (\<forall>(k', v') \<in># Q. \<not> double_less k' k) \<and>
      Q' \<subseteq># Q - {#(k, v)#} \<and> p \<notin> dom H \<and> fib_rep s' (H(p \<mapsto> v)) Q' \<and> fh_num_nodes (snd s') = fh_num_nodes (snd s) - 1" if "Q \<noteq> {#}" "fh_num_nodes (snd s) < 2 ^ 127"
    using fib_rep_extract [OF r that(1) array_fits_accurate [OF accurate _ that(2)]] by fastforce
  fix p v assume h: "H p = Some v"
  show "get_value (fst s) (Some p) = Some v" using r h by (auto simp: fib_rep_def)
  show "\<exists>s'. map_option (\<lambda>m. (m, snd s)) (free_node (fst s) (Some p)) = Some s' \<and> fib_rep s' (H(p := None)) Q \<and> fh_num_nodes (snd s') = fh_num_nodes (snd s)"
    using fib_rep_release [OF r h] by auto
next
  fix s :: "fmem \<times> fheap" and H :: "addr \<rightharpoonup> ulong"
  assume "fib_rep s H {#}"
  then have "fh_min (snd s) = None" by (auto simp: fib_rep_empty fib_inv_def kids_def split: option.splits)
  then show "fib_heap_extract_min logf (fst s) (snd s) = Some Exits" by (simp add: fib_heap_extract_min_def)
qed

interpretation golden: degree_bound ln_steps
  by standard (rule ln_steps_accurate)

section \<open>Sequences of operations\<close>

datatype queue_op = Insert double_bits ulong | Extract

text \<open>
  A client that inserts and extracts; it reads and frees the nodes it extracts. In the specification \<open>queue_run\<close> over the entries
  an extraction may drop further ones when \<open>lossy\<close> is set.
\<close>

fun fib_run :: "(single_bits \<Rightarrow> single_bits) \<Rightarrow> queue_op list \<Rightarrow> fmem \<times> fheap \<Rightarrow> (ulong outcome list \<times> nat) option" where
  "fib_run logf [] s = Some ([], fh_num_nodes (snd s))"
| "fib_run logf (Insert k v # ops) s = do { s \<leftarrow> fib_heap_insert (fst s) (snd s) k v; fib_run logf ops s }"
| "fib_run logf (Extract # ops) s = do {
     e \<leftarrow> fib_heap_extract_min logf (fst s) (snd s);
     (case e of
        Exits \<Rightarrow> Some ([Exits], fh_num_nodes (snd s))
      | Returns (p, s) \<Rightarrow> do {
          v \<leftarrow> get_value (fst s) (Some p);
          m \<leftarrow> free_node (fst s) (Some p);
          (vs, n) \<leftarrow> fib_run logf ops (m, snd s);
          Some (Returns v # vs, n) }) }"

inductive queue_run :: "bool \<Rightarrow> queue_op list \<Rightarrow> (double_bits \<times> ulong) multiset \<Rightarrow> ulong outcome list \<Rightarrow> (double_bits \<times> ulong) multiset \<Rightarrow> bool"
  for lossy :: bool where
  "queue_run lossy [] Q [] Q"
| "queue_run lossy ops (add_mset (k, v) Q) vs R \<Longrightarrow> queue_run lossy (Insert k v # ops) Q vs R"
| "queue_run lossy (Extract # ops) {#} [Exits] {#}"
| "(k, v) \<in># Q \<Longrightarrow> \<forall>(k', v') \<in># Q. \<not> double_less k' k \<Longrightarrow> Q' \<subseteq># Q - {#(k, v)#} \<Longrightarrow> lossy \<or> Q' = Q - {#(k, v)#} \<Longrightarrow>
    queue_run lossy ops Q' vs R \<Longrightarrow> queue_run lossy (Extract # ops) Q (Returns v # vs) R"

definition key_ok :: "queue_op \<Rightarrow> bool" where
  "key_ok = (\<lambda>Insert k v \<Rightarrow> \<not> is_nan k \<and> \<not> double_eq k NEG_DBL_MAX | Extract \<Rightarrow> True)"

context degree_bound
begin

lemma fib_run_spec:
  assumes "list_all key_ok ops" "fib_rep s Map.empty Q" "fh_num_nodes (snd s) + length ops \<le> 2 ^ 127"
  shows "\<exists>vs n R. fib_run logf ops s = Some (vs, n) \<and> size R \<le> n \<and> queue_run (size R < n) ops Q vs R \<and> (size R = n \<longrightarrow> size Q = fh_num_nodes (snd s))"
  using assms
proof (induction ops arbitrary: s Q)
  case Nil
  then show ?case using queue.num_law [OF Nil(2)] by (auto intro: queue_run.intros)
next
  case (Cons op ops)
  show ?case
  proof (cases op)
    case (Insert k v)
    then have k: "\<not> is_nan k" "\<not> double_eq k NEG_DBL_MAX" using Cons.prems(1) by (simp_all add: key_ok_def)
    obtain s' where s': "fib_heap_insert (fst s) (snd s) k v = Some s'" "fib_rep s' Map.empty (add_mset (k, v) Q)"
      "fh_num_nodes (snd s') = fh_num_nodes (snd s) + 1" using queue.insert_law [OF Cons.prems(2) k] by blast
    from Cons.IH [OF _ s'(2)] Cons.prems(1,3) show ?thesis by (auto simp: Insert s'(1,3) intro: queue_run.intros)
  next
    case Extract
    show ?thesis
    proof (cases "Q = {#}")
      case True
      then show ?thesis using queue.extract_exit [of s Map.empty] Cons.prems(2)
        by (auto simp: Extract intro!: exI [of _ "{#}"] queue_run.intros)
    next
      case False
      obtain p k v s' Q' where e: "fib_heap_extract_min logf (fst s) (snd s) = Some (Returns (p, s'))" "(k, v) \<in># Q"
        "\<forall>(k', v') \<in># Q. \<not> double_less k' k" "Q' \<subseteq># Q - {#(k, v)#}" "fib_rep s' (Map.empty(p \<mapsto> v)) Q'"
        "fh_num_nodes (snd s') = fh_num_nodes (snd s) - 1" using queue.extract_law [OF Cons.prems(2) False] Cons.prems(3) by auto
      have g: "get_value (fst s') (Some p) = Some v" using queue.value_law [OF e(5), of p] by simp
      obtain m where m: "free_node (fst s') (Some p) = Some m" "fib_rep (m, snd s') Map.empty Q'"
        using fib_rep_release [OF e(5), of p v] by auto
      have "fh_num_nodes (snd (m, snd s')) + length ops \<le> 2 ^ 127" using Cons.prems(3) e(6) by simp
      then obtain vs n R where r: "fib_run logf ops (m, snd s') = Some (vs, n)" "size R \<le> n" "queue_run (size R < n) ops Q' vs R"
        "size R = n \<longrightarrow> size Q' = fh_num_nodes (snd s')" using Cons.IH [OF _ m(2)] Cons.prems(1) by auto
      have "size Q = fh_num_nodes (snd s) \<and> Q' = Q - {#(k, v)#}" if "size R = n"
        using queue.nothing_lost [OF Cons.prems(2) e(2,4,6)] r(4) that by blast
      then have "queue_run (size R < n) (Extract # ops) Q (Returns v # vs) R" "size R = n \<longrightarrow> size Q = fh_num_nodes (snd s)"
        using queue_run.intros(4) [OF e(2,3,4) _ r(3)] r(2) by force+
      then show ?thesis using r(1,2) e(1) g m(1) by (auto simp: Extract)
    qed
  qed
qed

end

lemma fib_rep_create: "fib_rep (fmem_empty, fib_heap_create) Map.empty {#}"
  using create_ok by (simp add: fib_rep_empty)

text \<open>
  C27: The Fibonacci heap as a priority queue, under fewer than \<open>2\<^sup>1\<^sup>2\<^sup>7\<close> operations, insertions of keys that are no NaN and not the reserved one, and
  extractions, starting with an empty heap, for every \<^verbatim>\<open>logf\<close> that is accurate to \<open>2\<^sup>-\<^sup>1\<^sup>0\<close>. No operation goes wrong, in particular the array of
  \<^verbatim>\<open>consolidate\<close> has an entry for the degree of every tree, and every extraction returns an
  entry with a least key. It may drop further entries, but only when \<^verbatim>\<open>num_nodes\<close> is above the number of entries in the end; otherwise the run is one of a
  priority queue. \<^verbatim>\<open>extract_min\<close> ends the program exactly when no entry is left.
\<close>
theorem fib_heap_is_queue:
  assumes "logf_accurate logf" "list_all key_ok ops" "length ops < 2 ^ 127"
  shows "\<exists>vs n R. fib_run logf ops (fmem_empty, fib_heap_create) = Some (vs, n) \<and> size R \<le> n \<and> queue_run (size R < n) ops {#} vs R"
proof -
  have "degree_bound logf" by standard (rule assms(1))
  from degree_bound.fib_run_spec [OF this assms(2) fib_rep_create] assms(3) show ?thesis by (auto simp: fib_heap_create_def)
qed

theorem fib_heap_is_queue_witness:
  "\<exists>vs n R. fib_run ln_steps [Insert 5 1, Insert 3 2, Extract, Extract] (fmem_empty, fib_heap_create) = Some (vs, n) \<and> size R \<le> n \<and>
    queue_run (size R < n) [Insert 5 1, Insert 3 2, Extract, Extract] {#} vs R"
  by (rule fib_heap_is_queue [OF ln_steps_accurate]) (simp_all add: key_ok_def is_nan_def double_inf_def double_eq_def NEG_DBL_MAX_def DBL_MAX_def)

section \<open>Runs that go wrong\<close>

fun fib_inserts :: "double_bits list \<Rightarrow> fmem \<times> fheap \<Rightarrow> (fmem \<times> fheap) option" where
  "fib_inserts [] s = Some s"
| "fib_inserts (k # ks) s = do { s \<leftarrow> fib_heap_insert (fst s) (snd s) k k; fib_inserts ks s }"

fun fib_extracts :: "(single_bits \<Rightarrow> single_bits) \<Rightarrow> nat \<Rightarrow> fmem \<times> fheap \<Rightarrow> (double_bits list \<times> fmem \<times> fheap) option" where
  "fib_extracts logf 0 s = Some ([], s)"
| "fib_extracts logf (Suc n) s = do {
     e \<leftarrow> fib_heap_extract_min logf (fst s) (snd s);
     (case e of Exits \<Rightarrow> None | Returns (z, m, fh) \<Rightarrow> do { k \<leftarrow> get_key m (Some z); (ks, s) \<leftarrow> fib_extracts logf n (m, fh); Some (k # ks, s) }) }"

lemma golden_degree_Suc:
  assumes "logf_accurate logf"
  shows "golden_degree logf (Suc (Suc 0)) = Some (Suc 0)" "golden_degree logf (Suc (Suc (Suc 0))) = Some (Suc (Suc 0))"
    "golden_degree logf (Suc (Suc (Suc (Suc 0)))) = Some (Suc (Suc 0))"
    "golden_degree logf (Suc (Suc (Suc (Suc (Suc 0))))) = Some (Suc (Suc (Suc 0)))"
    "golden_degree logf (Suc (Suc (Suc (Suc (Suc (Suc 0)))))) = Some (Suc (Suc (Suc 0)))"
    "golden_degree logf (Suc (Suc (Suc (Suc (Suc (Suc (Suc 0))))))) = Some (Suc (Suc (Suc (Suc 0))))"
    "golden_degree logf (Suc (Suc (Suc (Suc (Suc (Suc (Suc (Suc 0)))))))) = Some (Suc (Suc (Suc (Suc 0))))"
  using golden_degree_values [OF assms] by (simp_all add: eval_nat_numeral)

lemma small_keys: "a < 100 \<Longrightarrow> b < 100 \<Longrightarrow> double_less a b \<longleftrightarrow> a < b" "a < 100 \<Longrightarrow> \<not> double_eq a NEG_DBL_MAX"
  by (simp_all add: double_less_nonneg double_inf_def double_eq_def NEG_DBL_MAX_def DBL_MAX_def)

lemmas fib_eval = fib_heap_insert_def fib_heap_extract_min_def fib_heap_consolidate_def fib_heap_make_child_def join_loop.simps round_loop.simps
  lift_children.simps add_root_def link_right_def link_root_def self_link_def unlink_def fib_access fib_heap_create_def fmem_empty_def Let_def
  small_keys fib_heap_decrease_key_def fib_heap_decrease_key_internal_def fib_heap_cut_def fib_heap_cascading_cut.simps

lemma run_numerals: "fib_extracts logf 1 s = fib_extracts logf (Suc 0) s" "fib_extracts logf 7 s = fib_extracts logf (Suc (Suc (Suc (Suc (Suc (Suc (Suc 0))))))) s"
  "fib_heap_decrease_key m fh (Some 4) k = fib_heap_decrease_key m fh (Some (Suc (Suc (Suc (Suc 0))))) k"
  by (simp_all add: eval_nat_numeral del: fib_extracts.simps)

text \<open>
  \<^verbatim>\<open>extract_min\<close> loses nodes. After the keys 7, 9, 4 and 11 and one extraction, the keys 5, 5, 9, 13 and 4 are inserted. Of the eight keys
  in the heap, seven come out; one of the two 5s does not. Then \<^verbatim>\<open>num_nodes\<close> is 1 and \<^verbatim>\<open>extract_min\<close> ends the program. The keys are bit patterns of doubles.
\<close>
lemma extract_min_loses_node:
  assumes "logf_accurate logf"
  shows "\<exists>s0 s1 s2 s3. fib_inserts [7, 9, 4, 11] (fmem_empty, fib_heap_create) = Some s0 \<and> fib_extracts logf 1 s0 = Some ([4], s1) \<and>
    fib_inserts [5, 5, 9, 13, 4] s1 = Some s2 \<and> fib_extracts logf 7 s2 = Some ([4, 5, 7, 9, 9, 11, 13], s3) \<and>
    fh_num_nodes (snd s3) = 1 \<and> fib_heap_extract_min logf (fst s3) (snd s3) = Some Exits"
  by (simp only: run_numerals) (simp add: fib_eval golden_degree_Suc [OF assms])

text \<open>
  After \<^verbatim>\<open>decrease_key\<close> the array of \<^verbatim>\<open>consolidate\<close> can be too small: of five nodes one is extracted, then the key of a grandchild is
  decreased below the minimum, and the next \<^verbatim>\<open>extract_min\<close> has no result: it uses an index out of range.
\<close>
lemma decrease_key_then_overflow:
  assumes "logf_accurate logf"
  shows "\<exists>s0 s1 s2. fib_inserts [1, 2, 3, 4, 5] (fmem_empty, fib_heap_create) = Some s0 \<and> fib_extracts logf 1 s0 = Some ([1], s1) \<and>
    fib_heap_decrease_key (fst s1) (snd s1) (Some 4) 1 = Some s2 \<and> fib_heap_extract_min logf (fst s2) (snd s2) = None"
  by (simp only: run_numerals) (simp add: fib_eval golden_degree_Suc [OF assms])

end
