(* ===== verification/Dijkstra.thy ===== *)
theory Dijkstra
  imports Weighted_Queries Weighted_Search Traversals Fib_Queue
begin

text \<open>
  \<^verbatim>\<open>dijkstra\<close> on the heap file refines the search of \<open>Weighted_Search\<close>. It rests on the laws of the priority queue only. These allow it to
  lose entries; then the counter stays above zero and \<^verbatim>\<open>extract_min\<close> ends the program on the empty heap. So whenever
  \<^verbatim>\<open>dijkstra\<close> returns, nothing was lost and the distances are right.
\<close>

lemma d_ul_d_create_ok: "ht_inv (d_ul_d_create seed)" "ht_map (d_ul_d_create seed) = Map.empty"
  using d_ul_ul_create_ok [of seed] by (simp_all add: d_ul_d_create_def d_ul_ul_create_def)

lemma init_distances_ok:
  assumes "hf_abs hf G"
  shows "\<exists>t hf'. init_distances hf (d_ul_d_create seed) lg = Some (t, hf') \<and> hf_same hf hf' \<and> ht_inv t \<and>
    ht_map t = (\<lambda>v. if g_labels G v = None then None else Some DBL_MAX)"
  using fill_nodes [OF assms d_ul_d_create_ok, of lg DBL_MAX seed] by (auto simp: init_distances_def)

lemma key_nonneg: "k \<le> double_inf \<Longrightarrow> \<not> is_nan k" "k \<le> double_inf \<Longrightarrow> \<not> double_eq k NEG_DBL_MAX"
  using nonneg_pattern(1) [of k] by (auto simp: double_eq_def NEG_DBL_MAX_def DBL_MAX_def double_inf_def)

lemma edge_weight_rel: "edge_weight (r_id r, edge_of r) = r_weight r"
  by (simp add: edge_of_def)

definition wrepresents :: "dict_ul_d \<times> dict_ul_ul \<times> fmem \<times> fheap \<times> query_log \<Rightarrow> (addr \<rightharpoonup> ulong) \<Rightarrow> wsearch \<Rightarrow> bool" where
  "wrepresents s H t \<longleftrightarrow> (case s of (distance, parents, m, fh, tr) \<Rightarrow> \<exists>Q. ht_inv distance \<and> ht_inv parents \<and> fib_rep (m, fh) H Q \<and>
     t = (ht_map distance, ht_map parents, Q, fh_num_nodes fh))"

context degree_bound
begin

lemma dijkstra_rel_ok:
  assumes G: "ends_ok G" "weights_ok G" and rep: "wrepresents s H (D, P, Q, n)" and i: "dists_ok G d src D P" and p: "H p = Some u" and u: "u \<in> reached D"
    and e: "(r_id r, edge_of r) \<in> set (out_edges G d u)"
  shows "\<exists>s'. dijkstra_rel lg p s r = Some s' \<and> wrepresents s' H (relax u (r_id r, edge_of r) (D, P, Q, n))"
proof -
  let ?v = "edge_other u (r_id r, edge_of r)" let ?x = "double_add (the (D u)) (r_weight r)"
  obtain dst pars m fh tr where s: "s = (dst, pars, m, fh, tr)" by (cases s)
  have c: "ht_inv dst" "ht_inv pars" "fib_rep (m, fh) H Q" "D = ht_map dst" "P = ht_map pars" "n = fh_num_nodes fh"
    using rep by (auto simp: wrepresents_def s)
  note g = queue.value_law [OF c(3) p, unfolded fst_conv]
  obtain k where k: "D u = Some k" "k \<le> double_inf" using u dists_okD(6) [OF i u] by (auto simp: reached_def)
  obtain y where y: "D ?v = Some y" "y \<le> DBL_MAX" using out_edges_ends(1) [OF G(1) e] dists_okD(1,4) [OF i] by blast
  have x: "?x \<le> double_inf" using double_add_le_inf [of k "r_weight r"] k out_edge_weight [OF G(2) e] by (simp add: edge_weight_rel)
  have less: "double_less ?x y \<longleftrightarrow> ?x < y" using double_less_nonneg [OF x] y(2) DBL_MAX_le(1) by simp
  show ?thesis
  proof (cases "?x < y")
    case True
    obtain d1 where d1: "ht_insert dst ?v ?x = Some d1" "ht_inv d1" "ht_map d1 = D(?v \<mapsto> ?x)"
      using htable.insert_law [OF c(1)] c(4) by blast
    obtain p1 where p1: "ht_insert pars ?v (r_id r) = Some p1" "ht_inv p1" "ht_map p1 = P(?v \<mapsto> r_id r)"
      using htable.insert_law [OF c(2)] c(5) by blast
    obtain m1 fh1 where q1: "fib_heap_insert m fh ?x ?v = Some (m1, fh1)" "fib_rep (m1, fh1) H (add_mset (?x, ?v) Q)" "fh_num_nodes fh1 = n + 1"
      using queue.insert_law [OF c(3) key_nonneg [OF x], of ?v] c(6) by (auto simp: split_paired_Ex)
    have "dijkstra_rel lg p s r = Some (d1, p1, m1, fh1, qlog lg ''dijkstra'' ''R'' (r_id r) tr)"
      using True c k y g less d1(1) p1(1) q1(1) by (simp add: dijkstra_rel_def s Let_def other_end_edge ht_get_direct_eq)
    then show ?thesis using True y d1 p1 q1 by (simp add: wrepresents_def relax.simps Let_def edge_weight_rel)
  next
    case False
    then have "dijkstra_rel lg p s r = Some (dst, pars, m, fh, qlog lg ''dijkstra'' ''R'' (r_id r) tr)"
      using c k y g less by (simp add: dijkstra_rel_def s Let_def other_end_edge ht_get_direct_eq)
    then show ?thesis using False y c by (simp add: wrepresents_def relax.simps Let_def edge_weight_rel)
  qed
qed

lemma dijkstra_rels_ok:
  assumes "ends_ok G" "weights_ok G" "wrepresents s H (D, P, Q, n)" "dists_ok G d src D P" "H p = Some u" "u \<in> reached D"
    "set (map (\<lambda>r. (r_id r, edge_of r)) rs) \<subseteq> set (out_edges G d u)"
  shows "\<exists>s'. for_each (dijkstra_rel lg p) s rs = Some s' \<and> wrepresents s' H (fold (relax u) (map (\<lambda>r. (r_id r, edge_of r)) rs) (D, P, Q, n))"
  using assms
proof (induction rs arbitrary: s D P Q n)
  case (Cons r rs)
  let ?e = "(r_id r, edge_of r)"
  have e: "?e \<in> set (out_edges G d u)" using Cons.prems(7) by simp
  obtain s1 where s1: "dijkstra_rel lg p s r = Some s1" "wrepresents s1 H (relax u ?e (D, P, Q, n))"
    using dijkstra_rel_ok [OF Cons.prems(1-6) e] by blast
  obtain D1 P1 Q1 n1 where v: "relax u ?e (D, P, Q, n) = (D1, P1, Q1, n1)" by (cases "relax u ?e (D, P, Q, n)")
  note ok = relax_ok [OF Cons.prems(1,2,4,6) e v]
  have "\<exists>s'. for_each (dijkstra_rel lg p) s1 rs = Some s' \<and> wrepresents s' H (fold (relax u) (map (\<lambda>r. (r_id r, edge_of r)) rs) (D1, P1, Q1, n1))"
    by (rule Cons.IH [OF Cons.prems(1,2) _ ok(1) Cons.prems(5)]) (use s1(2) v ok(3) Cons.prems(6,7) in auto)
  then show ?case using s1(1) v by simp
qed simp

lemma dijkstra_loop_ok:
  assumes "hf_abs hf G" "weights_ok G" "wrepresents (dst, pars, m, fh, tr) Map.empty (D, P, Q, n)" "dists_ok G d s D P" "queue_relaxed G d D Q n" "n + total G D < 2 ^ 127"
  shows "dijkstra_loop logf d lg hf dst pars m fh tr = Some Exits \<and> \<not> (single_edges G d \<and> size Q = n \<and> n \<le> 1) \<or>
    (\<exists>dst' pars' m' fh' tr' hf' D' P'. dijkstra_loop logf d lg hf dst pars m fh tr = Some (Returns (dst', pars', m', fh', tr', hf')) \<and>
      hf_same hf hf' \<and> wrepresents (dst', pars', m', fh', tr') Map.empty (D', P', {#}, 0) \<and> dists_ok G d s D' P' \<and> relaxed G d D' {})"
  using assms(1,3-6)
proof (induction "(total G D, n)" arbitrary: hf dst pars m fh tr D P Q n rule: wf_induct_rule [OF wf_lex_prod [OF wf_less_than wf_less_than]])
  case less: 1
  note h = less.prems(1) and i = less.prems(3) and q = less.prems(4)
  have G: "ends_ok G" by (rule abs_ends_ok [OF h])
  have c: "ht_inv dst" "ht_inv pars" "fib_rep (m, fh) Map.empty Q" "n = fh_num_nodes fh" using less.prems(2) by (auto simp: wrepresents_def)
  show ?case
  proof (cases "n = 0")
    case True
    then have Q: "Q = {#}" using q by (simp add: queue_relaxed_def)
    have "dijkstra_loop logf d lg hf dst pars m fh tr = Some (Returns (dst, pars, m, fh, tr, hf))"
      using True c(4) by (subst dijkstra_loop.simps) simp
    then show ?thesis using less.prems hf_abs_inv [OF h] True Q by (auto simp: queue_relaxed_def)
  next
    case False
    show ?thesis
    proof (cases "Q = {#}")
      case True
      then have "dijkstra_loop logf d lg hf dst pars m fh tr = Some Exits"
        using queue.extract_exit [of "(m, fh)" Map.empty] c(3,4) False by (subst dijkstra_loop.simps) simp
      then show ?thesis using True False by simp
    next
      case ne: False
      obtain p k u m1 fh1 Q1 where x: "fib_heap_extract_min logf m fh = Some (Returns (p, m1, fh1))" "(k, u) \<in># Q" "Q1 \<subseteq># Q - {#(k, u)#}"
        "fib_rep (m1, fh1) (Map.empty(p \<mapsto> u)) Q1" "fh_num_nodes fh1 = n - 1"
        using queue.extract_law [OF c(3) ne] less.prems(5) c(4) by (auto simp: split_paired_Ex)
      have ur: "u \<in> reached D" using q x(2) by (force simp: queue_relaxed_def)
      then have un: "g_labels G u \<noteq> None" using dists_okD(1) [OF i] by (auto simp: reached_def)
      obtain rels hf1 where e: "expand hf u d lg = Some (rels, hf1)" "hf_same hf hf1" "al_inv rels"
        "map (\<lambda>r. (r_id r, edge_of r)) (al_list rels) = out_edges G d u"
        using expand_abs [OF h un, of d lg] by blast
      have w1: "wrepresents (dst, pars, m1, fh1, qlog lg ''dijkstra'' ''N'' u tr) (Map.empty(p \<mapsto> u)) (D, P, Q1, n - 1)"
        using less.prems(2) x(4,5) by (auto simp: wrepresents_def)
      obtain D' P' Q' n' where f: "fold (relax u) (out_edges G d u) (D, P, Q1, n - 1) = (D', P', Q', n')"
        by (cases "fold (relax u) (out_edges G d u) (D, P, Q1, n - 1)")
      obtain dist2 pars2 m2 fh2 tr2 where r: "for_each (dijkstra_rel lg p) (dst, pars, m1, fh1, qlog lg ''dijkstra'' ''N'' u tr) (al_list rels) =
          Some (dist2, pars2, m2, fh2, tr2)" "wrepresents (dist2, pars2, m2, fh2, tr2) (Map.empty(p \<mapsto> u)) (D', P', Q', n')"
        using dijkstra_rels_ok [OF G assms(2) w1 i _ ur, of p "al_list rels" lg] f e(4) by auto
      obtain m3 where m3: "free_node m2 (Some p) = Some m3" "wrepresents (dist2, pars2, m3, fh2, tr2) Map.empty (D', P', Q', n')"
        using r(2) fib_rep_release [of "(m2, fh2)" "Map.empty(p \<mapsto> u)" Q' p u] by (auto simp: wrepresents_def)
      have g: "get_value m1 (Some p) = Some u" using queue.value_law [OF x(4), of p u] by simp
      have step: "dijkstra_loop logf d lg hf dst pars m fh tr = dijkstra_loop logf d lg hf1 dist2 pars2 m3 fh2 tr2"
        using False c(4) x(1) e(1) g r(1) m3(1) by (subst dijkstra_loop.simps) (simp add: for_each_al [OF e(3)])
      have "size Q1 = n - 1 \<Longrightarrow> size Q = n \<and> Q1 = Q - {#(k, u)#}"
        using queue.nothing_lost [OF c(3) x(2,3), of "(m1, fh1)"] x(5) c(4) by simp
      note ok = round_ok [OF G assms(2) i q x(2,3) this f]
      have "n' + total G D' \<le> (n - 1) + total G D" by (rule fold_relax_budget [OF G assms(2) i ur order_refl f])
      then have budget: "n' + total G D' < 2 ^ 127" using less.prems(5) by linarith
      have "((total G D', n'), total G D, n) \<in> less_than <*lex*> less_than" using ok(3) by auto
      from less.hyps [OF this hf_abs_same [OF h e(2)] m3(2) ok(1,2) budget] show ?thesis
        unfolding step using hf_same_trans [OF e(2)] round_single [OF G assms(2) i q x(2,3) f] by blast
    qed
  qed
qed

lemma dijkstra_ok:
  assumes h: "hf_abs hf G" and w: "weights_ok G" and s: "g_labels G s \<noteq> None"
  shows "dijkstra logf seeds hf s d lg tr = Some Exits \<and> \<not> single_edges G d \<or>
    (\<exists>res hf' tr'. dijkstra logf seeds hf s d lg tr = Some (Returns (res, hf', tr')) \<and> hf_same hf hf' \<and> sssp_source res = s \<and>
      ht_inv (sssp_distances res) \<and> dists_ok G d s (ht_map (sssp_distances res)) (ht_map (sssp_pred_edges res)) \<and>
      relaxed G d (ht_map (sssp_distances res)) {})"
proof -
  have s': "s \<noteq> UNINITIALIZED_LONG" using abs_ends_ok [OF h] s by (auto simp: ends_ok_def)
  obtain t hf1 where i: "init_distances hf (d_ul_d_create (snd seeds)) lg = Some (t, hf1)" "hf_same hf hf1" "ht_inv t"
      "ht_map t = (\<lambda>v. if g_labels G v = None then None else Some DBL_MAX)" using init_distances_ok [OF h] by blast
  obtain m fh where q: "fib_heap_insert fmem_empty fib_heap_create DBL_MAX s = Some (m, fh)" "fib_rep (m, fh) Map.empty {#(DBL_MAX, s)#}" "fh_num_nodes fh = 1"
    using queue.insert_law [OF fib_rep_create key_nonneg [OF DBL_MAX_le(1)], of s] by (auto simp: split_paired_Ex fib_heap_create_def)
  obtain t1 where t1: "ht_insert t s 0 = Some t1" "ht_inv t1" "ht_map t1 = (ht_map t)(s \<mapsto> 0)" using htable.insert_law [OF i(3)] by blast
  note st = wsearch_start [OF s t1(3) [unfolded i(4)], of d]
  have rp: "wrepresents (t1, d_ul_ul_create (fst seeds), m, fh, tr) Map.empty (ht_map t1, Map.empty, {#(DBL_MAX, s)#}, 1)"
    using t1(2) q(2,3) by (simp add: wrepresents_def d_ul_ul_create_ok)
  consider (exit) "dijkstra_loop logf d lg hf1 t1 (d_ul_ul_create (fst seeds)) m fh tr = Some Exits" "\<not> single_edges G d"
    | (ret) dst' pars' m' fh' tr' hf' D' P' where "dijkstra_loop logf d lg hf1 t1 (d_ul_ul_create (fst seeds)) m fh tr = Some (Returns (dst', pars', m', fh', tr', hf'))"
      "hf_same hf1 hf'" "wrepresents (dst', pars', m', fh', tr') Map.empty (D', P', {#}, 0)" "dists_ok G d s D' P'" "relaxed G d D' {}"
    using dijkstra_loop_ok [OF hf_abs_same [OF h i(2)] w rp st total_start [OF abs_ends_ok [OF h] st(1)], of lg] by auto
  then show ?thesis
  proof cases
    case exit
    then show ?thesis using s' i(1) q(1) t1(1) by (simp add: dijkstra_def)
  next
    case ret
    have r: "ht_inv dst'" "D' = ht_map dst'" "P' = ht_map pars'" "fib_rep (m', fh') Map.empty {#}" using ret(3) by (auto simp: wrepresents_def)
    have "fh_min fh' = None" using r(4) by (auto simp: fib_rep_empty fib_inv_def kids_def split: option.splits)
    then have "dijkstra logf seeds hf s d lg tr = Some (Returns (create_sssp_result s dst' pars', hf', tr'))"
      using s' i(1) q(1) t1(1) ret(1) by (simp add: dijkstra_def fib_heap_destroy_def)
    then show ?thesis using r ret(4,5) hf_same_trans [OF i(2) ret(2)] by (simp add: create_sssp_result_def)
  qed
qed

lemma dijkstra_exit:
  assumes h: "hf_abs hf G" and s: "g_labels G s = None"
  shows "dijkstra logf seeds hf s d lg tr = None"
proof (cases "s = UNINITIALIZED_LONG")
  case False
  obtain t hf1 where i: "init_distances hf (d_ul_d_create (snd seeds)) lg = Some (t, hf1)" "hf_same hf hf1" "ht_inv t" using init_distances_ok [OF h] by blast
  obtain m fh where q: "fib_heap_insert fmem_empty fib_heap_create DBL_MAX s = Some (m, fh)" "fib_rep (m, fh) Map.empty {#(DBL_MAX, s)#}" "fh_num_nodes fh = 1"
    using queue.insert_law [OF fib_rep_create key_nonneg [OF DBL_MAX_le(1)], of s] by (auto simp: split_paired_Ex fib_heap_create_def)
  obtain t1 where t1: "ht_insert t s 0 = Some t1" using htable.insert_law [OF i(3)] by blast
  obtain p m1 fh1 Q1 where x: "fib_heap_extract_min logf m fh = Some (Returns (p, m1, fh1))" "fib_rep (m1, fh1) (Map.empty(p \<mapsto> s)) Q1"
    using queue.extract_law [OF q(2)] q(3) by (auto simp: split_paired_Ex)
  have g: "get_value m1 (Some p) = Some s" using queue.value_law [OF x(2), of p s] by simp
  have "hf_inv hf1" "hf_nodes hf1 s = None" using hf_abs_same [OF h i(2)] hf_abs_node [of hf1 G s] s hf_abs_inv by auto
  then have "expand hf1 s d lg = None" using read_exit(1) by (simp add: expand_def)
  then have "dijkstra_loop logf d lg hf1 t1 (d_ul_ul_create (fst seeds)) m fh tr = None"
    using x(1) g q(3) by (subst dijkstra_loop.simps) simp
  then show ?thesis using False i(1) q(1) t1 by (simp add: dijkstra_def)
qed (simp add: dijkstra_def)

end

section \<open>What Dijkstra finds\<close>

text \<open>The relationship kept for a reached node is the last one of a walk with the length that is found.\<close>

definition preds_ok :: "pgraph \<Rightarrow> direction_t \<Rightarrow> ulong \<Rightarrow> sssp_result \<Rightarrow> bool" where
  "preds_ok G d s res \<longleftrightarrow> dom (ht_map (sssp_pred_edges res)) = {v. v \<noteq> s \<and> (\<exists>x < DBL_MAX. wwalk G d s x v)} \<and>
     (\<forall>v i. ht_map (sssp_pred_edges res) v = Some i \<longrightarrow> (\<exists>u x e. (i, e) \<in> set (out_edges G d u) \<and> edge_other u (i, e) = v \<and>
        ht_map (sssp_distances res) u = Some x \<and> ht_map (sssp_distances res) v = Some (double_add x (edge_weight (i, e)))))"

lemma dists_preds:
  assumes G: "ends_ok G" "weights_ok G" and i: "dists_ok G d s D P" and r: "relaxed G d D {}" and p: "P v = Some j"
  shows "\<exists>u x e. (j, e) \<in> set (out_edges G d u) \<and> edge_other u (j, e) = v \<and> D u = Some x \<and> D v = Some (double_add x (edge_weight (j, e)))"
proof -
  obtain u e where e: "u \<in> reached D" "e \<in> set (out_edges G d u)" "fst e = j" "edge_other u e = v" "double_add (the (D u)) (edge_weight e) \<le> the (D v)"
    by (rule dists_parent [OF i p])
  have "the (D v) \<le> double_add (the (D u)) (edge_weight e)" using r e(1,2,4) by (auto simp: relaxed_def)
  moreover have "D v \<noteq> None" using p dists_okD(3) [OF i] by (auto simp: reached_def)
  ultimately have "D v = Some (double_add (the (D u)) (edge_weight e))" using e(5) by auto
  moreover have "e = (j, snd e)" using e(3) by (cases e) simp
  ultimately show ?thesis using e(1,2,4) by (intro exI [of _ u] exI [of _ "the (D u)"] exI [of _ "snd e"]) (auto simp: reached_def)
qed

lemma dists_reached:
  assumes "ends_ok G" "weights_ok G" "dists_ok G d s D P" "relaxed G d D {}"
  shows "v \<in> reached D \<longleftrightarrow> (\<exists>x < DBL_MAX. wwalk G d s x v)"
proof
  assume v: "v \<in> reached D"
  then have "the (D v) < DBL_MAX" by (auto simp: reached_def)
  then show "\<exists>x < DBL_MAX. wwalk G d s x v" using dists_okD(5) [OF assms(3) v] by blast
next
  assume "\<exists>x < DBL_MAX. wwalk G d s x v"
  then obtain x where x: "x < DBL_MAX" "wwalk G d s x v" by blast
  from x(2) have "v \<in> dom D" using dists_okD(1,2) [OF assms(3)] out_edges_ends(1) [OF assms(1)] by cases auto
  then show "v \<in> reached D" using relaxed_least [OF assms x(2)] x(1) by (auto simp: reached_def)
qed

text \<open>
  C26: When no weight is negative or NaN and \<^verbatim>\<open>logf\<close> is accurate to \<open>2\<^sup>-\<^sup>1\<^sup>0\<close>, \<^verbatim>\<open>dijkstra\<close> from a node of the graph ends. If it returns, the heap file is as it was, the distance of
  every node is the least length of a walk from the source, in the arithmetic of doubles, or \<^verbatim>\<open>DBL_MAX\<close> when there is none
  below that, and the relationships kept for the reached nodes are the last ones of such walks. Otherwise \<^verbatim>\<open>extract_min\<close> ended the program, which it does not
  when no node has more than one relationship in the direction. A search from a node that does not exist ends the program.
\<close>
theorem dijkstra_shortest:
  assumes "hf_abs hf G" "weights_ok G" "logf_accurate logf"
  shows "if g_labels G s = None then dijkstra logf seeds hf s d lg tr = None
    else dijkstra logf seeds hf s d lg tr = Some Exits \<and> \<not> single_edges G d \<or>
      (\<exists>res hf' tr'. dijkstra logf seeds hf s d lg tr = Some (Returns (res, hf', tr')) \<and> hf_same hf hf' \<and> sssp_source res = s \<and> preds_ok G d s res \<and>
        (\<forall>v. ht_get_direct (sssp_distances res) v = (if g_labels G v = None then None
           else if \<exists>x < DBL_MAX. wwalk G d s x v then Some (LEAST x. wwalk G d s x v) else Some DBL_MAX)))"
proof -
  have b: "degree_bound logf" by standard (rule assms(3))
  have G: "ends_ok G" by (rule abs_ends_ok [OF assms(1)])
  show ?thesis
  proof (cases "g_labels G s = None")
    case True
    then show ?thesis using degree_bound.dijkstra_exit [OF b assms(1)] by simp
  next
    case False
    consider (exit) "dijkstra logf seeds hf s d lg tr = Some Exits" "\<not> single_edges G d"
      | (ret) res hf' tr' where "dijkstra logf seeds hf s d lg tr = Some (Returns (res, hf', tr'))" "hf_same hf hf'" "sssp_source res = s"
        "ht_inv (sssp_distances res)" "dists_ok G d s (ht_map (sssp_distances res)) (ht_map (sssp_pred_edges res))" "relaxed G d (ht_map (sssp_distances res)) {}"
      using degree_bound.dijkstra_ok [OF b assms(1,2) False] by blast
    then show ?thesis
    proof cases
      case ret
      note ok = G assms(2) ret(5,6)
      have "preds_ok G d s res" using dists_preds [OF ok] dists_okD(3) [OF ret(5)] dists_reached [OF ok] by (auto simp: preds_ok_def)
      moreover note dists_least [OF ok, folded ht_get_direct_eq [OF ret(4)]]
      ultimately show ?thesis unfolding if_not_P [OF False] using ret(1-3) by blast
    qed (use False in simp)
  qed
qed

theorem dijkstra_shortest_witness:
  "\<exists>hf a b res hf' tr'. dijkstra ln_steps (0, 0) hf a OUTGOING True [] = Some (Returns (res, hf', tr')) \<and>
    ht_get_direct (sssp_distances res) a = Some 0 \<and> ht_get_direct (sssp_distances res) b = Some 7 \<and>
    dijkstra ln_steps (0, 0) hf (a + b + 1) BOTH True [] = None"
proof -
  obtain hf G a b i where g: "hf_abs hf G" "a \<noteq> b" "g_labels G = [a \<mapsto> 5, b \<mapsto> 6]" "g_edges G = [(i, a, b, 7, 1)]" by (rule pair_database)
  have la: "g_labels G a \<noteq> None" using g(2,3) by simp
  have w: "weights_ok G" "single_edges G OUTGOING" using g(4) by (simp_all add: weights_ok_def double_inf_def single_edges_def out_edges_def)
  note f = ln_steps_accurate
  have s7: "double_add 0 7 = 7" by (simp add: double_add_eval)
  have e: "out_edges G OUTGOING a = [(i, a, b, 7, 1)]" "out_edges G OUTGOING b = []" using g(2,4) by (simp_all add: out_edges_def)
  have all: "v = a \<and> x = 0 \<or> v = b \<and> x = 7" if "wwalk G OUTGOING a x v" for x v
    using that by induction (use e g(2) s7 in auto)
  have wb: "wwalk G OUTGOING a 7 b" using wwalk.step [OF wwalk.start, of "(i, a, b, 7, 1)" G OUTGOING a] e(1) s7 by simp
  have m: "7 < DBL_MAX" by (simp add: DBL_MAX_def)
  have "(LEAST x. wwalk G OUTGOING a x a) = 0" by (rule Least_equality) (simp_all add: wwalk.start)
  moreover have "(LEAST x. wwalk G OUTGOING a x b) = 7" by (rule Least_equality) (use wb all g(2) in fastforce)+
  moreover have "\<exists>x < DBL_MAX. wwalk G OUTGOING a x a" "\<exists>x < DBL_MAX. wwalk G OUTGOING a x b" using wb m wwalk.start DBL_MAX_le(2) by blast+
  moreover obtain res hf' tr' where "dijkstra ln_steps (0, 0) hf a OUTGOING True [] = Some (Returns (res, hf', tr'))"
    "\<forall>v. ht_get_direct (sssp_distances res) v = (if g_labels G v = None then None
       else if \<exists>x < DBL_MAX. wwalk G OUTGOING a x v then Some (LEAST x. wwalk G OUTGOING a x v) else Some DBL_MAX)"
    using dijkstra_shortest [OF g(1) w(1) f, of a "(0, 0)" OUTGOING True "[]", unfolded if_not_P [OF la]] w(2) by blast
  moreover have "dijkstra ln_steps (0, 0) hf (a + b + 1) BOTH True [] = None"
    using dijkstra_shortest [OF g(1) w(1) f, of "a + b + 1" "(0, 0)" BOTH True "[]"] g(3) by simp
  ultimately show ?thesis using g(3)
    by (intro exI [of _ hf] exI [of _ a] exI [of _ b] exI [of _ res] exI [of _ hf'] exI [of _ tr']) simp
qed

end
