(* ===== verification/Record_Order.thy ===== *)
theory Record_Order
  imports Queries Set_Table
begin

text \<open>
  Moving records to other slots, \<^verbatim>\<open>src/order/reorder_records.c\<close>, and the orders that ask for it,
  \<^verbatim>\<open>src/order/random_order.c\<close>. An order is a dictionary from the ids of records to the ids they are to have. The
  seeds are those of the tables an operation creates; the numbers of \<^verbatim>\<open>rand\<close> are a function of the number of the call.
\<close>

section \<open>Swapping two records\<close>

text \<open>The checks of the arguments of both swaps.\<close>

definition bad_slot :: "heap_file \<Rightarrow> bool \<Rightarrow> ulong \<Rightarrow> bool" where
  "bad_slot hf node i \<longleftrightarrow> i = UNINITIALIZED_LONG \<or> drop_bit CHAR_BIT i \<ge> rec_pages hf node \<or>
     i mod SLOTS_PER_PAGE > ((i + (rec_slots node - 1)) mod ULONG_RANGE) mod SLOTS_PER_PAGE"

definition swap_id :: "ulong \<Rightarrow> ulong \<Rightarrow> ulong \<Rightarrow> ulong" where
  "swap_id fst_id snd_id i = (if i = fst_id then snd_id else if i = snd_id then fst_id else i)"

definition swap_ends :: "ulong \<Rightarrow> ulong \<Rightarrow> relationship_t \<Rightarrow> relationship_t" where
  "swap_ends fst_id snd_id rel = rel\<lparr>r_source_node := swap_id fst_id snd_id (r_source_node rel), r_target_node := swap_id fst_id snd_id (r_target_node rel)\<rparr>"

text \<open>The header bits follow a record that moves to a free slot.\<close>

definition swap_bits :: "heap_file \<Rightarrow> bool \<Rightarrow> ulong \<Rightarrow> ulong \<Rightarrow> bool \<Rightarrow> bool \<Rightarrow> bool \<Rightarrow> heap_file option" where
  "swap_bits hf node fst_id snd_id fst_exists snd_exists log =
    (if fst_exists \<noteq> snd_exists then do {
       hf \<leftarrow> write_header_bits hf fst_id node (if snd_exists then -1 else 0) log;
       write_header_bits hf snd_id node (if fst_exists then -1 else 0) log }
     else Some hf)"

definition add_rel :: "relationship_t array_list \<Rightarrow> relationship_t \<Rightarrow> relationship_t array_list option" where
  "add_rel rels rel = do {
     c \<leftarrow> al_contains rels rel;
     if c then Some rels else al_append rels (relationship_copy rel) }"

definition read_node_if :: "bool \<Rightarrow> heap_file \<Rightarrow> ulong \<Rightarrow> bool \<Rightarrow> (node_t option \<times> heap_file) option" where
  "read_node_if b hf i log = (if b then do { (n, hf) \<leftarrow> read_node hf i log; Some (Some n, hf) } else Some (None, hf))"

definition move_node :: "heap_file \<Rightarrow> node_t option \<Rightarrow> ulong \<Rightarrow> bool \<Rightarrow> heap_file option" where
  "move_node hf n i log = (case n of None \<Rightarrow> Some hf | Some n \<Rightarrow> update_node hf (n\<lparr>n_id := i\<rparr>) log)"

text \<open>
  The relationships of both nodes get their new ends, if the second node exists. The line that
  \<^verbatim>\<open>swap_nodes\<close> writes to the log has two ids with their labels; here it is an entry for each.
\<close>

definition swap_nodes :: "heap_file \<Rightarrow> ulong \<Rightarrow> ulong \<Rightarrow> bool \<Rightarrow> heap_file option" where
  "swap_nodes hf fst_id snd_id log =
    (if bad_slot hf True fst_id \<or> bad_slot hf True snd_id then None
     else do {
       (fst_exists, hf) \<leftarrow> check_record_exists hf fst_id True log;
       (snd_exists, hf) \<leftarrow> check_record_exists hf snd_id True log;
       if fst_id = snd_id \<or> (\<not> fst_exists \<and> \<not> snd_exists) then Some hf
       else do {
         (rels, hf) \<leftarrow> (if fst_exists then expand hf fst_id BOTH log else Some (al_rel_create, hf));
         hf \<leftarrow> (if snd_exists then do {
             (rels_snd, hf) \<leftarrow> expand hf snd_id BOTH log;
             rels \<leftarrow> for_each (\<lambda>rels i. do { rel \<leftarrow> al_get rels_snd i; add_rel rels rel }) rels [0..<al_size rels_snd];
             for_each (\<lambda>hf i. do { rel \<leftarrow> al_get rels i; update_relationship hf (swap_ends fst_id snd_id rel) log }) hf [0..<al_size rels] }
           else Some hf);
         (fst_node, hf) \<leftarrow> read_node_if fst_exists hf fst_id log;
         (snd_node, hf) \<leftarrow> read_node_if snd_exists hf snd_id log;
         let hf = hf_log hf log ''swap_nodes'' fst_id (case fst_node of Some n \<Rightarrow> n_label n | None \<Rightarrow> UNINITIALIZED_LONG);
         let hf = hf_log hf log ''swap_nodes'' snd_id (case snd_node of Some n \<Rightarrow> n_label n | None \<Rightarrow> UNINITIALIZED_LONG);
         hf \<leftarrow> swap_bits hf True fst_id snd_id fst_exists snd_exists log;
         hf \<leftarrow> move_node hf fst_node snd_id log;
         move_node hf snd_node fst_id log } })"

definition add_id :: "ulong array_list \<Rightarrow> ulong \<Rightarrow> ulong array_list option" where
  "add_id ids i = do { c \<leftarrow> al_contains ids i; if c then Some ids else al_append ids i }"

text \<open>The ends and the neighbours of a relationship are collected; at most once each, also those of the other one.\<close>

definition rel_neighbours :: "relationship_t \<Rightarrow> ulong list" where
  "rel_neighbours rel = [r_prev_rel_source rel, r_prev_rel_target rel, r_next_rel_source rel, r_next_rel_target rel]"

definition collect_rel ::
    "bool \<Rightarrow> heap_file \<Rightarrow> ulong \<Rightarrow> ulong array_list \<Rightarrow> ulong array_list \<Rightarrow> bool \<Rightarrow> (ulong array_list \<times> ulong array_list \<times> heap_file) option" where
  "collect_rel b hf i nodes rels log =
    (if b then do {
       (rel, hf) \<leftarrow> read_relationship hf i log;
       nodes \<leftarrow> for_each add_id nodes [r_source_node rel, r_target_node rel];
       rels \<leftarrow> for_each add_id rels (rel_neighbours rel);
       Some (nodes, rels, hf) }
     else Some (nodes, rels, hf))"

definition swap_links :: "ulong \<Rightarrow> ulong \<Rightarrow> relationship_t \<Rightarrow> relationship_t" where
  "swap_links fst_id snd_id rel = rel\<lparr>r_prev_rel_source := swap_id fst_id snd_id (r_prev_rel_source rel), r_prev_rel_target := swap_id fst_id snd_id (r_prev_rel_target rel),
     r_next_rel_source := swap_id fst_id snd_id (r_next_rel_source rel), r_next_rel_target := swap_id fst_id snd_id (r_next_rel_target rel)\<rparr>"

definition read_rel_if :: "bool \<Rightarrow> heap_file \<Rightarrow> ulong \<Rightarrow> bool \<Rightarrow> (relationship_t option \<times> heap_file) option" where
  "read_rel_if b hf i log = (if b then do { (r, hf) \<leftarrow> read_relationship hf i log; Some (Some r, hf) } else Some (None, hf))"

definition move_rel :: "heap_file \<Rightarrow> relationship_t option \<Rightarrow> ulong \<Rightarrow> bool \<Rightarrow> heap_file option" where
  "move_rel hf r i log = (case r of None \<Rightarrow> Some hf | Some r \<Rightarrow> update_relationship hf (r\<lparr>r_id := i\<rparr>) log)"

definition swap_relationships :: "heap_file \<Rightarrow> ulong \<Rightarrow> ulong \<Rightarrow> bool \<Rightarrow> heap_file option" where
  "swap_relationships hf fst_id snd_id log =
    (if bad_slot hf False fst_id \<or> bad_slot hf False snd_id then None
     else do {
       (fst_exists, hf) \<leftarrow> check_record_exists hf fst_id False log;
       (snd_exists, hf) \<leftarrow> check_record_exists hf snd_id False log;
       if fst_id = snd_id \<or> (\<not> fst_exists \<and> \<not> snd_exists) then Some hf
       else do {
         (nodes, rels, hf) \<leftarrow> collect_rel fst_exists hf fst_id al_ul_create al_ul_create log;
         (nodes, rels, hf) \<leftarrow> collect_rel snd_exists hf snd_id nodes rels log;
         hf \<leftarrow> for_each (\<lambda>hf i. do {
             j \<leftarrow> al_get rels i;
             (rel, hf) \<leftarrow> read_relationship hf j log;
             update_relationship hf (swap_links fst_id snd_id rel) log }) hf [0..<al_size rels];
         hf \<leftarrow> for_each (\<lambda>hf i. do {
             j \<leftarrow> al_get nodes i;
             (node, hf) \<leftarrow> read_node hf j log;
             update_node hf (node\<lparr>n_first_relationship := swap_id fst_id snd_id (n_first_relationship node)\<rparr>) log }) hf [0..<al_size nodes];
         (snd_rel, hf) \<leftarrow> read_rel_if snd_exists hf snd_id log;
         (fst_rel, hf) \<leftarrow> read_rel_if fst_exists hf fst_id log;
         let hf = hf_log hf log ''swap_relationships'' fst_id snd_id;
         hf \<leftarrow> swap_bits hf False fst_id snd_id fst_exists snd_exists log;
         hf \<leftarrow> move_rel hf fst_rel snd_id log;
         move_rel hf snd_rel fst_id log } })"

definition swap_record_pages :: "heap_file \<Rightarrow> nat \<Rightarrow> nat \<Rightarrow> file_type \<Rightarrow> bool \<Rightarrow> heap_file option" where
  "swap_record_pages hf fst_page snd_page ft log =
    (if fst_page \<ge> MAX_PAGE_NO \<or> snd_page > MAX_PAGE_NO then None
     else if fst_page = snd_page then Some hf
     else do {
       let n = (if ft = node_ft then NUM_SLOTS_PER_NODE else NUM_SLOTS_PER_REL);
       hf \<leftarrow> for_each (\<lambda>hf i.
           if ft = node_ft then swap_nodes hf (slot_id fst_page i) (slot_id snd_page i) log
           else swap_relationships hf (slot_id fst_page i) (slot_id snd_page i) log) hf (filter (\<lambda>i. i mod n = 0) [0..<SLOTS_PER_PAGE]);
       Some (hf_log hf log (if ft = node_ft then ''swap_node_pages'' else ''swap_rel_pages'') fst_page snd_page) })"

section \<open>Applying an order\<close>

definition invert :: "nat \<Rightarrow> dict_ul_ul \<Rightarrow> dict_ul_ul option" where
  "invert seed new_ids = for_each (\<lambda>d (old_id, new_id). ht_insert d new_id old_id) (d_ul_ul_create seed)
     (ht_drain new_ids (ht_iterator_create new_ids))"

text \<open>
  What follows a swap in the loop: the record that was at its new place is now at the place the other one left. Only
  \<^verbatim>\<open>reorder_relationships\<close> asserts that both dictionaries have the same size.
\<close>

definition track_swap :: "bool \<Rightarrow> ulong \<Rightarrow> ulong \<Rightarrow> dict_ul_ul \<Rightarrow> dict_ul_ul \<Rightarrow> (dict_ul_ul \<times> dict_ul_ul) option" where
  "track_swap asserts old_id new_id new_ids inverse_new_ids = do {
     new_ids \<leftarrow> ht_remove new_ids old_id;
     inverse_new_ids \<leftarrow> ht_remove inverse_new_ids new_id;
     if old_id \<noteq> new_id then do {
       temp_new \<leftarrow> ht_get_direct new_ids new_id;
       new_ids \<leftarrow> ht_remove new_ids new_id;
       inverse_new_ids \<leftarrow> ht_remove inverse_new_ids temp_new;
       new_ids \<leftarrow> ht_insert new_ids old_id temp_new;
       inverse_new_ids \<leftarrow> ht_insert inverse_new_ids temp_new old_id;
       if asserts \<and> ht_size new_ids \<noteq> ht_size inverse_new_ids then None else Some (new_ids, inverse_new_ids) }
     else Some (new_ids, inverse_new_ids) }"

text \<open>The slots are taken in turn; \<open>n\<close> is the number of slots of a record.\<close>

fun reorder_loop ::
    "(heap_file \<Rightarrow> ulong \<Rightarrow> ulong \<Rightarrow> bool \<Rightarrow> heap_file option) \<Rightarrow> bool \<Rightarrow> nat \<Rightarrow> bool \<Rightarrow> nat \<Rightarrow> nat \<Rightarrow> nat \<Rightarrow>
      heap_file \<Rightarrow> dict_ul_ul \<Rightarrow> dict_ul_ul \<Rightarrow> (dict_ul_ul \<times> heap_file) option" where
  "reorder_loop swap asserts n log 0 cur_page cur_slot hf new_ids inverse_new_ids = Some (new_ids, hf)"
| "reorder_loop swap asserts n log (Suc k) cur_page cur_slot hf new_ids inverse_new_ids = do {
     let new_id = slot_id cur_page cur_slot;
     found \<leftarrow> ht_get inverse_new_ids new_id;
     (new_ids, inverse_new_ids, hf) \<leftarrow> (case found of
         None \<Rightarrow> Some (new_ids, inverse_new_ids, hf)
       | Some old_id \<Rightarrow> do {
           hf \<leftarrow> swap hf old_id new_id log;
           (new_ids, inverse_new_ids) \<leftarrow> track_swap asserts old_id new_id new_ids inverse_new_ids;
           Some (new_ids, inverse_new_ids, hf) });
     if ht_size new_ids = 0 then Some (new_ids, hf)
     else if cur_slot + n \<ge> UCHAR_MAX
     then reorder_loop swap asserts n log k (cur_page + 1) 0 hf new_ids inverse_new_ids
     else reorder_loop swap asserts n log k cur_page (cur_slot + n) hf new_ids inverse_new_ids }"

definition reorder_nodes :: "nat \<Rightarrow> heap_file \<Rightarrow> dict_ul_ul \<Rightarrow> bool \<Rightarrow> (dict_ul_ul \<times> heap_file) option" where
  "reorder_nodes seed hf new_ids log = do {
     inverse_new_ids \<leftarrow> invert seed new_ids;
     reorder_loop swap_nodes False NUM_SLOTS_PER_NODE log (unat (hf_n_nodes hf)) 0 0 hf new_ids inverse_new_ids }"

definition reorder_relationships :: "nat \<Rightarrow> heap_file \<Rightarrow> dict_ul_ul \<Rightarrow> bool \<Rightarrow> (dict_ul_ul \<times> heap_file) option" where
  "reorder_relationships seed hf new_ids log = do {
     inverse_new_ids \<leftarrow> invert seed new_ids;
     reorder_loop swap_relationships True NUM_SLOTS_PER_REL log (unat (hf_n_rels hf)) 0 0 hf new_ids inverse_new_ids }"

section \<open>Orders given by a sequence\<close>

definition arr_get :: "ulong list \<Rightarrow> nat \<Rightarrow> ulong option" where
  "arr_get xs i = (if i < length xs then Some (xs ! i) else None)"

text \<open>The ids that records get in an empty heap file, in the order of the sequence.\<close>

definition assign_ids :: "bool \<Rightarrow> nat \<Rightarrow> ulong list \<Rightarrow> heap_file \<Rightarrow> dict_ul_ul \<Rightarrow> (heap_file \<times> dict_ul_ul) option" where
  "assign_ids node n sequence temp_hf new_ids = for_each (\<lambda>(temp_hf, new_ids) i. do {
       temp_hf \<leftarrow> next_free_slots temp_hf node False;
       s \<leftarrow> arr_get sequence i;
       new_ids \<leftarrow> ht_insert new_ids s (last_alloc temp_hf node);
       Some (temp_hf, new_ids) }) (temp_hf, new_ids) [0..<n]"

definition header_pages :: "64 word \<Rightarrow> 64 word \<Rightarrow> nat \<Rightarrow> nat" where
  "header_pages a b n = unat (a * word_of_nat n) div (PAGE_SIZE * CHAR_BIT) +
     (if unat (b * word_of_nat n) mod (PAGE_SIZE * CHAR_BIT) \<noteq> 0 then 1 else 0)"

definition reorder_nodes_by_sequence ::
    "filesys \<Rightarrow> (file_kind \<Rightarrow> file_type \<Rightarrow> nat) \<Rightarrow> nat \<times> nat \<Rightarrow> heap_file \<Rightarrow> ulong list \<Rightarrow> bool \<Rightarrow> (heap_file \<times> filesys) option" where
  "reorder_nodes_by_sequence fs seed seeds hf sequence log = do {
     let n_pages = header_pages (hf_n_nodes hf) (hf_n_rels hf) NUM_SLOTS_PER_NODE;
     (temp_pdb, fs) \<leftarrow> phy_database_create fs ''reord_temp'' ''temp_log'';
     temp_pc \<leftarrow> page_cache_create seed temp_pdb n_pages ''temp_log'';
     temp_hf \<leftarrow> heap_file_create temp_pc ''temp_log'';
     (temp_hf, new_ids) \<leftarrow> assign_ids True (unat (hf_n_nodes hf)) sequence temp_hf (d_ul_ul_create (fst seeds));
     temp_pdb \<leftarrow> page_cache_destroy (heap_file_destroy temp_hf);
     let fs = phy_database_delete fs temp_pdb;
     (_, hf) \<leftarrow> reorder_nodes (snd seeds) hf new_ids log;
     Some (hf, fs) }"

definition reorder_relationships_by_sequence ::
    "filesys \<Rightarrow> (file_kind \<Rightarrow> file_type \<Rightarrow> nat) \<Rightarrow> nat \<times> nat \<Rightarrow> heap_file \<Rightarrow> ulong list \<Rightarrow> bool \<Rightarrow> (heap_file \<times> filesys) option" where
  "reorder_relationships_by_sequence fs seed seeds hf sequence log = do {
     let n_pages = header_pages (hf_n_rels hf) (hf_n_rels hf) NUM_SLOTS_PER_REL;
     (temp_pdb, fs) \<leftarrow> phy_database_create fs ''reord_temp'' ''temp_log'';
     df \<leftarrow> disk_file_grow (pd_header temp_pdb relationship_ft) n_pages False;
     let temp_pdb = set_file temp_pdb header relationship_ft df;
     temp_pc \<leftarrow> page_cache_create seed temp_pdb n_pages ''temp_log'';
     temp_hf \<leftarrow> heap_file_create temp_pc ''temp_log'';
     (temp_hf, new_ids) \<leftarrow> assign_ids False (unat (hf_n_rels hf)) sequence temp_hf (d_ul_ul_create (fst seeds));
     temp_pdb \<leftarrow> page_cache_destroy (heap_file_destroy temp_hf);
     let fs = phy_database_delete fs temp_pdb;
     (_, hf) \<leftarrow> reorder_relationships (snd seeds) hf new_ids log;
     Some (hf, fs) }"

text \<open>The array of the new order, filled with the relationships that leave the nodes, node by node.\<close>

definition rel_order_step :: "heap_file \<Rightarrow> ulong list \<Rightarrow> nat \<Rightarrow> ulong \<Rightarrow> bool \<Rightarrow> (heap_file \<times> ulong list \<times> nat) option" where
  "rel_order_step hf new_order k node_id log = do {
     (rels, hf) \<leftarrow> expand hf node_id OUTGOING log;
     (new_order, k) \<leftarrow> for_each (\<lambda>(new_order, k) j. do {
         rel \<leftarrow> al_get rels j;
         if k < length new_order then Some (new_order[k := r_id rel], k + 1) else None }) (new_order, k) [0..<al_size rels];
     Some (hf, new_order, k) }"

definition reorder_relationships_by_nodes ::
    "filesys \<Rightarrow> (file_kind \<Rightarrow> file_type \<Rightarrow> nat) \<Rightarrow> nat \<times> nat \<Rightarrow> heap_file \<Rightarrow> bool \<Rightarrow> (heap_file \<times> filesys) option" where
  "reorder_relationships_by_nodes fs seed seeds hf log = do {
     let new_order = replicate (unat (hf_n_rels hf)) 0;
     (nodes, hf) \<leftarrow> get_nodes hf log;
     (hf, new_order, k) \<leftarrow> for_each (\<lambda>(hf, new_order, k) i. do {
         n \<leftarrow> al_get nodes i;
         rel_order_step hf new_order k (n_id n) log }) (hf, new_order, 0) [0..<unat (hf_n_nodes hf)];
     reorder_relationships_by_sequence fs seed seeds hf new_order log }"

section \<open>Sorting the rings\<close>

text \<open>The elements in the order of the iterator, and \<^verbatim>\<open>qsort\<close>.\<close>

partial_function (option) set_elems :: "ulong set_table \<Rightarrow> ulong set_iterator \<Rightarrow> ulong list \<Rightarrow> ulong list option" where
  "set_elems s it es = (case st_iterator_next s it of None \<Rightarrow> Some es | Some (e, it) \<Rightarrow> set_elems s it (es @ [e]))"

fun insert_by :: "('a \<Rightarrow> 'a \<Rightarrow> int) \<Rightarrow> 'a \<Rightarrow> 'a list \<Rightarrow> 'a list" where
  "insert_by cmp x [] = [x]"
| "insert_by cmp x (y # ys) = (if cmp x y \<le> 0 then x # y # ys else y # insert_by cmp x ys)"

definition qsort :: "('a \<Rightarrow> 'a \<Rightarrow> int) \<Rightarrow> 'a list \<Rightarrow> 'a list" where
  "qsort cmp xs = foldr (insert_by cmp) xs []"

definition set_rel_links :: "ulong \<Rightarrow> ulong \<Rightarrow> ulong \<Rightarrow> relationship_t \<Rightarrow> relationship_t" where
  "set_rel_links node_id prev next rel = (if r_source_node rel = node_id
     then rel\<lparr>r_prev_rel_source := prev, r_next_rel_source := next\<rparr>
     else rel\<lparr>r_prev_rel_target := prev, r_next_rel_target := next\<rparr>)"

definition relink :: "ulong list \<Rightarrow> ulong \<Rightarrow> bool \<Rightarrow> heap_file \<Rightarrow> nat \<Rightarrow> nat \<Rightarrow> nat \<Rightarrow> heap_file option" where
  "relink sorted_rel_ids node_id log hf j p q = do {
     i \<leftarrow> arr_get sorted_rel_ids j;
     (rel, hf) \<leftarrow> read_relationship hf i log;
     prev \<leftarrow> arr_get sorted_rel_ids p;
     next \<leftarrow> arr_get sorted_rel_ids q;
     update_relationship hf (set_rel_links node_id prev next rel) log }"

definition sort_incidence_node :: "nat \<Rightarrow> heap_file \<Rightarrow> ulong \<Rightarrow> bool \<Rightarrow> heap_file option" where
  "sort_incidence_node seed hf node_id log = do {
     (rels, hf) \<leftarrow> expand hf node_id BOTH log;
     let rels_size = al_size rels;
     if rels_size < 3 then Some hf
     else do {
       rel_ids \<leftarrow> for_each (\<lambda>s j. do { rel \<leftarrow> al_get rels j; st_insert s (r_id rel) }) (s_ul_create seed) [0..<rels_size];
       es \<leftarrow> set_elems rel_ids (st_iterator_create rel_ids) [];
       if length es > st_size rel_ids then None
       else do {
         let sorted_rel_ids = qsort ul_cmp (es @ replicate (st_size rel_ids - length es) 0);
         hf \<leftarrow> relink sorted_rel_ids node_id log hf 0 (rels_size - 1) 1;
         hf \<leftarrow> for_each (\<lambda>hf j. relink sorted_rel_ids node_id log hf j (j - 1) (j + 1)) hf [1..<rels_size - 1];
         relink sorted_rel_ids node_id log hf (rels_size - 1) (rels_size - 2) 0 } } }"

definition sort_incidence_list :: "(nat \<Rightarrow> nat) \<Rightarrow> heap_file \<Rightarrow> bool \<Rightarrow> heap_file option" where
  "sort_incidence_list seeds hf log = do {
     (nodes, hf) \<leftarrow> get_nodes hf log;
     for_each (\<lambda>hf i. do { n \<leftarrow> al_get nodes i; sort_incidence_node (seeds i) hf (n_id n) log }) hf [0..<unat (hf_n_nodes hf)] }"

section \<open>Identical and random orders\<close>

definition identity_node_order :: "nat \<Rightarrow> heap_file \<Rightarrow> (dict_ul_ul \<times> heap_file) option" where
  "identity_node_order seed hf = do {
     (nodes, hf) \<leftarrow> get_nodes hf False;
     order \<leftarrow> for_each (\<lambda>d i. do { n \<leftarrow> al_get nodes i; ht_insert d (n_id n) (n_id n) }) (d_ul_ul_create seed) [0..<al_size nodes];
     Some (order, hf) }"

definition identity_relationship_order :: "nat \<Rightarrow> heap_file \<Rightarrow> (dict_ul_ul \<times> heap_file) option" where
  "identity_relationship_order seed hf = do {
     (rels, hf) \<leftarrow> get_relationships hf False;
     order \<leftarrow> for_each (\<lambda>d i. do { r \<leftarrow> al_get rels i; ht_insert d (r_id r) (r_id r) }) (d_ul_ul_create seed) [0..<al_size rels];
     Some (order, hf) }"

definition exchange :: "dict_ul_ul \<Rightarrow> ulong \<Rightarrow> ulong \<Rightarrow> dict_ul_ul option" where
  "exchange order cur_id rand_id = do {
     cur_val \<leftarrow> ht_get_direct order cur_id;
     rand_val \<leftarrow> ht_get_direct order rand_id;
     order \<leftarrow> ht_insert order cur_id rand_val;
     ht_insert order rand_id cur_val }"

text \<open>The loops only overwrite entries, so the size that bounds them stays.\<close>

definition random_node_order :: "nat \<Rightarrow> (nat \<Rightarrow> nat) \<Rightarrow> heap_file \<Rightarrow> (dict_ul_ul \<times> heap_file) option" where
  "random_node_order seed rand hf = do {
     (order, hf) \<leftarrow> identity_node_order seed hf;
     (nodes, hf) \<leftarrow> get_nodes hf False;
     order \<leftarrow> for_each (\<lambda>order i.
         if hf_n_nodes hf = 0 then None
         else do {
           m \<leftarrow> al_get nodes (rand i mod unat (hf_n_nodes hf));
           n \<leftarrow> al_get nodes i;
           exchange order (n_id n) (n_id m) }) order [0..<ht_size order];
     Some (order, hf) }"

definition random_relationship_order :: "nat \<Rightarrow> (nat \<Rightarrow> nat) \<Rightarrow> heap_file \<Rightarrow> (dict_ul_ul \<times> heap_file) option" where
  "random_relationship_order seed rand hf = do {
     (order, hf) \<leftarrow> identity_relationship_order seed hf;
     (rels, hf) \<leftarrow> get_relationships hf False;
     order \<leftarrow> for_each (\<lambda>order i.
         if hf_n_rels hf = 0 then None
         else do {
           m \<leftarrow> al_get rels (rand i mod unat (hf_n_rels hf));
           n \<leftarrow> al_get rels i;
           exchange order (r_id n) (r_id m) }) order [0..<ht_size order];
     Some (order, hf) }"

end
