(* ===== verification/Record_Swap.thy ===== *)
theory Record_Swap
  imports Record_Order Traversals
begin

text \<open>
  Swapping two records of the heap file renames the nodes or the relationships of the abstract graph. Both proofs first
  show the maps of nodes and relationships that the updates lead to, and then that these are
  linked like the renamed graph.
\<close>

section \<open>Exchanging two ids\<close>

lemma swap_id_swap_id [simp]: "swap_id a b (swap_id a b i) = i"
  by (simp add: swap_id_def)

lemma swap_id_same [simp]: "swap_id a a i = i"
  by (simp add: swap_id_def)

lemma swap_id_ends [simp]: "swap_id a b a = b" "swap_id a b b = a"
  by (simp_all add: swap_id_def)

lemma swap_id_other: "i \<noteq> a \<Longrightarrow> i \<noteq> b \<Longrightarrow> swap_id a b i = i"
  by (simp add: swap_id_def)

lemma swap_id_eq [simp]: "swap_id a b i = swap_id a b j \<longleftrightarrow> i = j"
  by (metis swap_id_swap_id)

lemma swap_id_eq_iff: "swap_id a b i = j \<longleftrightarrow> i = swap_id a b j"
  by auto

lemma swap_id_less: "a < m \<Longrightarrow> b < m \<Longrightarrow> i < m \<Longrightarrow> swap_id a b i < m"
  by (simp add: swap_id_def)

lemma bij_swap_id: "bij (swap_id a b)"
  by (rule involuntory_imp_bij) simp

section \<open>Slots\<close>

lemma good_slot:
  assumes inv: "hf_inv hf" and al: "i mod rec_slots node = 0" and i: "i < 256 * rec_pages hf node"
  shows "\<not> bad_slot hf node i" "i < UNINITIALIZED_LONG"
proof -
  show u: "i < UNINITIALIZED_LONG" using rec_pages_bound [OF inv, of node] i by simp
  then have "(i + (rec_slots node - 1)) mod ULONG_RANGE = i + (rec_slots node - 1)"
    using rec_slots_cases [of node] by (auto simp: UNINITIALIZED_LONG_def ULONG_RANGE_def)
  moreover have "i mod 256 \<le> (i + (rec_slots node - 1)) mod 256"
  proof (cases node)
    case False
    then have "i mod 4 = 0" using al by simp
    then have "i mod 256 mod 4 = 0" by (simp add: mod_mod_cancel)
    then obtain k where k: "i mod 256 = 4 * k" by (metis mod_0_imp_dvd dvdE)
    moreover have "i mod 256 < 256" by simp
    ultimately have "k < 64" by linarith
    then have "i mod 256 + 3 < 256" using k by linarith
    then have "(i + 3) mod 256 = i mod 256 + 3" using mod_add_left_eq [of i 256 3] mod_less [of "i mod 256 + 3" 256] by simp
    then show ?thesis using False by simp
  qed simp
  moreover have "\<not> rec_pages hf node \<le> i div 256" using i by (simp add: not_le div_less_iff_less_mult mult.commute)
  ultimately show "\<not> bad_slot hf node i" using u by (simp add: bad_slot_def slot_split SLOTS_PER_PAGE_eq)
qed

lemma check_slot:
  assumes inv: "hf_inv hf" and al: "i mod rec_slots node = 0" and i: "i < 256 * rec_pages hf node"
  obtains hf' where "check_record_exists hf i node log = Some (rec_used (hf_cache hf) node i, hf')" "hf_same hf hf'"
  using scan_check [of hf node i log] assms by (auto simp: scan_at_def)

lemma used_maps: "rec_used (hf_cache hf) True i \<longleftrightarrow> hf_nodes hf i \<noteq> None" "rec_used (hf_cache hf) False i \<longleftrightarrow> hf_rels hf i \<noteq> None"
  by (simp_all add: hf_nodes_def hf_rels_def)

lemma hf_same_slots:
  assumes "hf_same hf hf'"
  shows "rec_pages hf' node = rec_pages hf node" "rec_used (hf_cache hf') node = rec_used (hf_cache hf) node"
  using hf_same_pages [OF hf_effD(4) [OF assms]] hf_same_used [OF assms] by auto

text \<open>After both header writes exactly the other slot is used.\<close>

lemma swap_bits_ok:
  assumes inv: "hf_inv hf" and ab: "a \<noteq> b"
    and a: "a mod rec_slots node = 0" "a < 256 * rec_pages hf node" and b: "b mod rec_slots node = 0" "b < 256 * rec_pages hf node"
  obtains hf' where "swap_bits hf node a b (rec_used (hf_cache hf) node a) (rec_used (hf_cache hf) node b) log = Some hf'"
    "hf_inv hf'" "hf_frame hf' = hf_frame hf" "\<And>j. rec_used (hf_cache hf') node j = rec_used (hf_cache hf) node (swap_id a b j)"
    "rec_used (hf_cache hf') (\<not> node) = rec_used (hf_cache hf) (\<not> node)"
    "\<And>ft p. key_view (hf_cache hf') (records, ft, p) = key_view (hf_cache hf) (records, ft, p)"
proof (cases "rec_used (hf_cache hf) node a = rec_used (hf_cache hf) node b")
  case True
  then have "rec_used (hf_cache hf) node j = rec_used (hf_cache hf) node (swap_id a b j)" for j by (simp add: swap_id_def)
  then show ?thesis using True inv by (intro that [of hf]) (simp_all add: swap_bits_def)
next
  case False
  let ?ua = "rec_used (hf_cache hf) node a" and ?ub = "rec_used (hf_cache hf) node b"
  obtain hf1 where 1: "write_header_bits hf a node (if ?ub then - 1 else 0) log = Some hf1" "hf_inv hf1" "hf_frame hf1 = hf_frame hf"
    "\<And>node' j. rec_used (hf_cache hf1) node' j = (if node' = node \<and> j = a then ?ub else rec_used (hf_cache hf) node' j)"
    "\<And>ft p. key_view (hf_cache hf1) (records, ft, p) = key_view (hf_cache hf) (records, ft, p)"
    by (rule write_header_bits_ok [OF inv a, of ?ub log]) blast
  have b1: "b < 256 * rec_pages hf1 node" using b(2) hf_same_pages [OF 1(3)] by simp
  obtain hf2 where 2: "write_header_bits hf1 b node (if ?ua then - 1 else 0) log = Some hf2" "hf_inv hf2" "hf_frame hf2 = hf_frame hf1"
    "\<And>node' j. rec_used (hf_cache hf2) node' j = (if node' = node \<and> j = b then ?ua else rec_used (hf_cache hf1) node' j)"
    "\<And>ft p. key_view (hf_cache hf2) (records, ft, p) = key_view (hf_cache hf1) (records, ft, p)"
    by (rule write_header_bits_ok [OF 1(2) b(1) b1, of ?ua log]) blast
  show ?thesis
    by (rule that [of hf2]) (use False ab 1 2 in \<open>auto simp: swap_bits_def swap_id_def fun_eq_iff\<close>)
qed

section \<open>Loops of updates\<close>

lemma update_rels_ok:
  assumes "hf_inv hf" "\<And>r. r \<in> set rs \<Longrightarrow> hf_rels hf (r_id r) \<noteq> None \<and> rel_valid (g r) \<and> r_id (g r) = r_id r"
  shows "\<exists>hf'. for_each (\<lambda>hf r. update_relationship hf (g r) log) hf rs = Some hf' \<and>
    hf_eff (hf_nodes hf) (hf_rels hf ++ map_of (rev (map (\<lambda>r. (r_id r, g r)) rs))) hf hf'"
  using assms
proof (induction rs arbitrary: hf)
  case (Cons r rs)
  obtain hf1 where 1: "update_relationship hf (g r) log = Some hf1" "hf_eff (hf_nodes hf) ((hf_rels hf)(r_id r \<mapsto> g r)) hf hf1"
    using update_relationship_ok [OF Cons.prems(1), of "g r" log] Cons.prems(2) [of r] by auto
  note e = hf_effD [OF 1(2)]
  have "\<exists>hf'. for_each (\<lambda>hf r. update_relationship hf (g r) log) hf1 rs = Some hf' \<and>
    hf_eff (hf_nodes hf1) (hf_rels hf1 ++ map_of (rev (map (\<lambda>r. (r_id r, g r)) rs))) hf1 hf'"
    by (rule Cons.IH [OF e(1)]) (use Cons.prems(2) e(3) in auto)
  moreover have "(hf_rels hf)(r_id r \<mapsto> g r) ++ map_of (rev (map (\<lambda>r. (r_id r, g r)) rs)) = hf_rels hf ++ map_of (rev (map (\<lambda>r. (r_id r, g r)) (r # rs)))"
    by (rule ext) (auto simp: map_add_def split: option.splits)
  ultimately obtain hf' where "for_each (\<lambda>hf r. update_relationship hf (g r) log) hf1 rs = Some hf'"
    "hf_eff (hf_nodes hf) (hf_rels hf ++ map_of (rev (map (\<lambda>r. (r_id r, g r)) (r # rs)))) hf1 hf'" using e(2,3) by metis
  then show ?case using 1(1) hf_eff_trans [OF 1(2)] by (intro exI [of _ hf']) (simp del: rev.simps list.map)
qed simp

text \<open>If the loop goes over records as they are, all that are listed change and no others.\<close>

lemma updated_rels:
  assumes r: "\<And>r. r \<in> set rs \<Longrightarrow> R (r_id r) = Some r" and rest: "\<And>i r. R i = Some r \<Longrightarrow> i \<notin> r_id ` set rs \<Longrightarrow> g r = r"
  shows "R ++ map_of (rev (map (\<lambda>r. (r_id r, g r)) rs)) = map_option g \<circ> R"
proof
  fix i
  show "(R ++ map_of (rev (map (\<lambda>r. (r_id r, g r)) rs))) i = (map_option g \<circ> R) i"
  proof (cases "map_of (rev (map (\<lambda>r. (r_id r, g r)) rs)) i")
    case None
    then have "i \<notin> r_id ` set rs" by (force simp: map_of_eq_None_iff)
    then show ?thesis using None rest [of i] by (cases "R i") (simp_all add: map_add_def)
  next
    case (Some x)
    then show ?thesis using map_of_SomeD [OF Some] r by auto
  qed
qed

section \<open>The relationships of both nodes\<close>

lemma al_append_leq: "al_append l x = Some l' \<Longrightarrow> al_leq l' = al_leq l"
  by (auto simp: al_append_def al_insert_def al_memmove_def al_write_def Let_def bind_eq_Some_conv split: if_splits)

lemma expand_loop_leq:
  assumes "expand_loop hf n d log s i l = Some y"
  shows "al_leq (fst y) = al_leq l"
proof (rule expand_loop.raw_induct [where P = "\<lambda>hf n d log s i l y. al_leq (fst y) = al_leq l", OF _ assms])
  fix loop hf n d log s i l y
  assume IH: "\<And>hf n d log s i l y. loop hf n d log s i l = Some y \<Longrightarrow> al_leq (fst y) = al_leq l"
    and body: "(if i = UNINITIALIZED_LONG then Some (l, hf)
     else do {
       (rel, hf) \<leftarrow> read_relationship hf i log;
       l \<leftarrow> al_append l rel;
       (i, hf) \<leftarrow> next_relationship_id hf n rel d log;
       if i = s then Some (l, hf) else loop hf n d log s i l }) = Some y"
  then show "al_leq (fst y) = al_leq l"
    by (auto simp: bind_eq_Some_conv split: if_splits dest!: IH al_append_leq)
qed

lemma expand_leq: "expand hf n d log = Some (l, hf') \<Longrightarrow> al_leq l = relationship_equals"
  by (auto simp: expand_def Let_def bind_eq_Some_conv al_rel_create_def al_create_def dest!: expand_loop_leq split: if_splits)

lemma relationship_copy_same [simp]: "relationship_copy r = r"
  by (simp add: relationship_copy_def)

lemma add_rels_ok:
  assumes "al_inv l" "al_leq l = relationship_equals"
  shows "\<exists>l'. for_each add_rel l rs = Some l' \<and> al_inv l' \<and> set (al_list l') \<subseteq> set (al_list l) \<union> set rs \<and>
    r_id ` set (al_list l') = r_id ` (set (al_list l) \<union> set rs)"
  using assms
proof (induction rs arbitrary: l)
  case (Cons r rs)
  have "\<exists>l1. add_rel l r = Some l1 \<and> al_inv l1 \<and> al_leq l1 = relationship_equals \<and> set (al_list l1) \<subseteq> insert r (set (al_list l)) \<and>
    r_id ` set (al_list l1) = r_id ` insert r (set (al_list l))"
  proof (cases "\<exists>e \<in> set (al_list l). relationship_equals r e")
    case True
    then have "r_id r \<in> r_id ` set (al_list l)" by (force simp: relationship_equals_def)
    moreover have "add_rel l r = Some l" using True Cons.prems by (auto simp: add_rel_def al_contains_eq)
    ultimately show ?thesis using Cons.prems by auto
  next
    case False
    obtain l1 where "al_append l r = Some l1" "al_inv l1" "al_list l1 = al_list l @ [r]" using alist.append_law [OF Cons.prems(1)] by blast
    moreover from this(1) have "al_leq l1 = relationship_equals" using al_append_leq Cons.prems(2) by metis
    ultimately show ?thesis using False Cons.prems by (auto simp: add_rel_def al_contains_eq)
  qed
  then obtain l1 where l1: "add_rel l r = Some l1" "al_inv l1" "al_leq l1 = relationship_equals" "set (al_list l1) \<subseteq> insert r (set (al_list l))"
    "r_id ` set (al_list l1) = r_id ` insert r (set (al_list l))" by blast
  from Cons.IH [OF l1(2,3)] obtain l' where "for_each add_rel l1 rs = Some l'" "al_inv l'" "set (al_list l') \<subseteq> set (al_list l1) \<union> set rs"
    "r_id ` set (al_list l') = r_id ` (set (al_list l1) \<union> set rs)" by blast
  then show ?case using l1 by (intro exI [of _ l']) (auto simp: image_Un)
qed auto

section \<open>The records change places\<close>

definition swapped :: "(ulong \<Rightarrow> 'r \<Rightarrow> 'r) \<Rightarrow> ulong \<Rightarrow> ulong \<Rightarrow> (ulong \<rightharpoonup> 'r) \<Rightarrow> (ulong \<rightharpoonup> 'r)" where
  "swapped put a b M i = map_option (put i) (M (swap_id a b i))"

abbreviation put_node :: "ulong \<Rightarrow> node_t \<Rightarrow> node_t" where
  "put_node i n \<equiv> n\<lparr>n_id := i\<rparr>"

abbreviation put_rel :: "ulong \<Rightarrow> relationship_t \<Rightarrow> relationship_t" where
  "put_rel i r \<equiv> r\<lparr>r_id := i\<rparr>"

lemma swapped_eq:
  assumes "\<And>i x. M i = Some x \<Longrightarrow> put i x = x"
    and "\<And>i. i \<noteq> a \<Longrightarrow> i \<noteq> b \<Longrightarrow> M' i = M i" "M' a = map_option (put a) (M b)" "M' b = map_option (put b) (M a)"
  shows "M' = swapped put a b M"
proof
  fix i
  consider "i = a" | "i = b" | "i \<noteq> a" "i \<noteq> b" by blast
  then show "M' i = swapped put a b M i"
    using assms(3,4) assms(1,2) [of i] by cases (simp_all add: swapped_def swap_id_other, cases "M i", simp_all)
qed

lemma swapped_None [simp]: "swapped put a b M i = None \<longleftrightarrow> M (swap_id a b i) = None"
  by (simp add: swapped_def)

lemma dom_swapped: "dom (swapped put a b M) = swap_id a b ` dom M"
  by (auto simp: image_iff dom_def swapped_def) (metis option.simps(9) swap_id_swap_id)

lemma card_dom_swapped: "card (dom (swapped put a b M)) = card (dom M)"
  unfolding dom_swapped by (rule card_image) (simp add: inj_on_def)

lemma move_node_ok:
  assumes "hf_inv hf" "n \<noteq> None \<Longrightarrow> hf_nodes hf i \<noteq> None" "\<And>x. n = Some x \<Longrightarrow> node_ok x"
  shows "\<exists>hf'. move_node hf n i log = Some hf' \<and>
    hf_eff (case n of None \<Rightarrow> hf_nodes hf | Some x \<Rightarrow> (hf_nodes hf)(i \<mapsto> put_node i x)) (hf_rels hf) hf hf'"
proof (cases n)
  case (Some x)
  then show ?thesis using update_node_ok [OF assms(1), of "put_node i x" log] assms(2,3) by (auto simp: move_node_def node_ok_def)
qed (use assms(1) in \<open>simp add: move_node_def\<close>)

lemma move_rel_ok:
  assumes "hf_inv hf" "r \<noteq> None \<Longrightarrow> hf_rels hf i \<noteq> None" "\<And>x. r = Some x \<Longrightarrow> rel_valid x"
  shows "\<exists>hf'. move_rel hf r i log = Some hf' \<and>
    hf_eff (hf_nodes hf) (case r of None \<Rightarrow> hf_rels hf | Some x \<Rightarrow> (hf_rels hf)(i \<mapsto> put_rel i x)) hf hf'"
proof (cases r)
  case (Some x)
  then show ?thesis using update_relationship_ok [OF assms(1), of "put_rel i x" log] assms(2,3) by (auto simp: move_rel_def rel_valid_def rel_ok_def)
qed (use assms(1) in \<open>simp add: move_rel_def\<close>)

lemma place_nodes_ok:
  assumes inv: "hf_inv hf" and ab: "a \<noteq> b" "a < 256 * rec_pages hf True" "b < 256 * rec_pages hf True"
    and ok: "\<And>i n. hf_nodes hf i = Some n \<Longrightarrow> n_id n = i \<and> node_ok n"
  shows "\<exists>hf'. do { hf1 \<leftarrow> swap_bits hf True a b (hf_nodes hf a \<noteq> None) (hf_nodes hf b \<noteq> None) log;
      hf2 \<leftarrow> move_node hf1 (hf_nodes hf a) b log; move_node hf2 (hf_nodes hf b) a log } = Some hf' \<and>
    hf_eff (swapped put_node a b (hf_nodes hf)) (hf_rels hf) hf hf'"
proof -
  obtain hf1 where 1: "swap_bits hf True a b (rec_used (hf_cache hf) True a) (rec_used (hf_cache hf) True b) log = Some hf1"
    "hf_inv hf1" "hf_frame hf1 = hf_frame hf" "\<And>j. rec_used (hf_cache hf1) True j = rec_used (hf_cache hf) True (swap_id a b j)"
    "rec_used (hf_cache hf1) False = rec_used (hf_cache hf) False"
    "\<And>ft p. key_view (hf_cache hf1) (records, ft, p) = key_view (hf_cache hf) (records, ft, p)"
    using swap_bits_ok [OF inv ab(1), of True log] ab by auto
  have N1: "hf_nodes hf1 i = hf_nodes hf i" if "i \<noteq> a" "i \<noteq> b" for i using that by (simp add: hf_nodes_def 1(4,6) swap_id_other)
  have u: "hf_nodes hf1 a \<noteq> None \<longleftrightarrow> hf_nodes hf b \<noteq> None" "hf_nodes hf1 b \<noteq> None \<longleftrightarrow> hf_nodes hf a \<noteq> None" using 1(4) [of a] 1(4) [of b] unfolding used_maps by simp_all
  have R1: "hf_rels hf1 = hf_rels hf" by (rule ext) (simp add: hf_rels_def 1(5,6))
  obtain hf2 where 2: "move_node hf1 (hf_nodes hf a) b log = Some hf2"
    "hf_eff (case hf_nodes hf a of None \<Rightarrow> hf_nodes hf1 | Some x \<Rightarrow> (hf_nodes hf1)(b \<mapsto> put_node b x)) (hf_rels hf1) hf1 hf2"
    using move_node_ok [OF 1(2), of "hf_nodes hf a" b log] u(2) ok by blast
  have "hf_nodes hf2 a \<noteq> None" if "hf_nodes hf b \<noteq> None" using that u(1) hf_effD(2) [OF 2(2)] ab(1) by (auto split: option.splits)
  then obtain hf3 where 3: "move_node hf2 (hf_nodes hf b) a log = Some hf3"
    "hf_eff (case hf_nodes hf b of None \<Rightarrow> hf_nodes hf2 | Some x \<Rightarrow> (hf_nodes hf2)(a \<mapsto> put_node a x)) (hf_rels hf2) hf2 hf3"
    using move_node_ok [OF hf_effD(1) [OF 2(2)], of "hf_nodes hf b" a log] ok by blast
  have "hf_nodes hf3 = swapped put_node a b (hf_nodes hf)"
    by (rule swapped_eq) (use ok hf_effD(2) [OF 2(2)] hf_effD(2) [OF 3(2)] N1 u ab(1) in \<open>auto split: option.splits\<close>)
  moreover have "hf_rels hf3 = hf_rels hf" using hf_effD(3) [OF 3(2)] hf_effD(3) [OF 2(2)] R1 by simp
  moreover have "hf_frame hf3 = hf_frame hf" "hf_inv hf3" using hf_effD(1,4) [OF 3(2)] hf_effD(4) [OF 2(2)] 1(3) by simp_all
  ultimately show ?thesis using 1(1) 2(1) 3(1) by (simp add: used_maps hf_eff_def)
qed

lemma place_rels_ok:
  assumes inv: "hf_inv hf" and ab: "a \<noteq> b" "a < 256 * rec_pages hf False" "b < 256 * rec_pages hf False" "a mod 4 = 0" "b mod 4 = 0"
    and ok: "\<And>i n. hf_rels hf i = Some n \<Longrightarrow> r_id n = i \<and> rel_valid n"
  shows "\<exists>hf'. do { hf1 \<leftarrow> swap_bits hf False a b (hf_rels hf a \<noteq> None) (hf_rels hf b \<noteq> None) log;
      hf2 \<leftarrow> move_rel hf1 (hf_rels hf a) b log; move_rel hf2 (hf_rels hf b) a log } = Some hf' \<and>
    hf_eff (hf_nodes hf) (swapped put_rel a b (hf_rels hf)) hf hf'"
proof -
  obtain hf1 where 1: "swap_bits hf False a b (rec_used (hf_cache hf) False a) (rec_used (hf_cache hf) False b) log = Some hf1"
    "hf_inv hf1" "hf_frame hf1 = hf_frame hf" "\<And>j. rec_used (hf_cache hf1) False j = rec_used (hf_cache hf) False (swap_id a b j)"
    "rec_used (hf_cache hf1) True = rec_used (hf_cache hf) True"
    "\<And>ft p. key_view (hf_cache hf1) (records, ft, p) = key_view (hf_cache hf) (records, ft, p)"
    using swap_bits_ok [OF inv ab(1), of False log] ab by auto
  have N1: "hf_rels hf1 i = hf_rels hf i" if "i \<noteq> a" "i \<noteq> b" for i using that by (simp add: hf_rels_def 1(4,6) swap_id_other)
  have u: "hf_rels hf1 a \<noteq> None \<longleftrightarrow> hf_rels hf b \<noteq> None" "hf_rels hf1 b \<noteq> None \<longleftrightarrow> hf_rels hf a \<noteq> None" using 1(4) [of a] 1(4) [of b] unfolding used_maps by simp_all
  have R1: "hf_nodes hf1 = hf_nodes hf" by (rule ext) (simp add: hf_nodes_def 1(5,6))
  obtain hf2 where 2: "move_rel hf1 (hf_rels hf a) b log = Some hf2"
    "hf_eff (hf_nodes hf1) (case hf_rels hf a of None \<Rightarrow> hf_rels hf1 | Some x \<Rightarrow> (hf_rels hf1)(b \<mapsto> put_rel b x)) hf1 hf2"
    using move_rel_ok [OF 1(2), of "hf_rels hf a" b log] u(2) ok by blast
  have "hf_rels hf2 a \<noteq> None" if "hf_rels hf b \<noteq> None" using that u(1) hf_effD(3) [OF 2(2)] ab(1) by (auto split: option.splits)
  then obtain hf3 where 3: "move_rel hf2 (hf_rels hf b) a log = Some hf3"
    "hf_eff (hf_nodes hf2) (case hf_rels hf b of None \<Rightarrow> hf_rels hf2 | Some x \<Rightarrow> (hf_rels hf2)(a \<mapsto> put_rel a x)) hf2 hf3"
    using move_rel_ok [OF hf_effD(1) [OF 2(2)], of "hf_rels hf b" a log] ok by blast
  have "hf_rels hf3 = swapped put_rel a b (hf_rels hf)"
    by (rule swapped_eq) (use ok hf_effD(3) [OF 2(2)] hf_effD(3) [OF 3(2)] N1 u ab(1) in \<open>auto split: option.splits\<close>)
  moreover have "hf_nodes hf3 = hf_nodes hf" using hf_effD(2) [OF 3(2)] hf_effD(2) [OF 2(2)] R1 by simp
  moreover have "hf_frame hf3 = hf_frame hf" "hf_inv hf3" using hf_effD(1,4) [OF 3(2)] hf_effD(4) [OF 2(2)] 1(3) by simp_all
  ultimately show ?thesis using 1(1) 2(1) 3(1) by (simp add: used_maps hf_eff_def)
qed

section \<open>The relationships of a node\<close>

lemma expand_both:
  assumes g: "hf_graph hf C" and n: "hf_nodes hf n \<noteq> None"
  obtains l hf' where "expand hf n BOTH log = Some (l, hf')" "hf_same hf hf'" "al_inv l" "al_leq l = relationship_equals"
    "set (al_list l) = {r. \<exists>i. hf_rels hf i = Some r \<and> touches r n}"
proof -
  obtain nd where nd: "hf_nodes hf n = Some nd" using n by blast
  obtain l hf' where e: "expand hf n BOTH log = Some (l, hf')" "hf_same hf hf'" "al_inv l"
    "al_list l = map (\<lambda>i. the (hf_rels hf i)) (matching hf n BOTH (C n))" using expand_ok [OF g nd] by blast
  have gr: "graph_ok (hf_nodes hf) (hf_rels hf) C" using g by (simp add: hf_graph_def)
  have m: "matching hf n BOTH (C n) = C n"
    unfolding matching_def
  proof (rule filter_True, rule ballI)
    fix i assume "i \<in> set (C n)"
    then obtain r where "hf_rels hf i = Some r" "touches r n" by (rule in_chain [OF g n])
    then show "dir_matches (the (hf_rels hf i)) n BOTH" by (auto simp: dir_matches_def touches_def)
  qed
  have "set (al_list l) = {r. \<exists>i. hf_rels hf i = Some r \<and> touches r n}"
  proof (intro set_eqI iffI)
    fix r assume "r \<in> set (al_list l)"
    then obtain i where "i \<in> set (C n)" "r = the (hf_rels hf i)" by (auto simp: e(4) m)
    then show "r \<in> {r. \<exists>i. hf_rels hf i = Some r \<and> touches r n}" using chain_okD(2) [OF graph_ok_node(4) [OF gr nd], of i] by auto
  next
    fix r assume "r \<in> {r. \<exists>i. hf_rels hf i = Some r \<and> touches r n}"
    then obtain i where i: "hf_rels hf i = Some r" "touches r n" by blast
    then have "i \<in> set (C n)" using chain_okD(2) [OF graph_ok_node(4) [OF gr nd], of i] by blast
    then show "r \<in> set (al_list l)" using i(1) by (force simp: e(4) m)
  qed
  then show thesis using that e(1-3) expand_leq [OF e(1)] by blast
qed

lemma swap_ends_fields [simp]:
  "r_id (swap_ends a b r) = r_id r" "r_source_node (swap_ends a b r) = swap_id a b (r_source_node r)"
  "r_target_node (swap_ends a b r) = swap_id a b (r_target_node r)" "r_prev_rel_source (swap_ends a b r) = r_prev_rel_source r"
  "r_next_rel_source (swap_ends a b r) = r_next_rel_source r" "r_prev_rel_target (swap_ends a b r) = r_prev_rel_target r"
  "r_next_rel_target (swap_ends a b r) = r_next_rel_target r" "r_weight (swap_ends a b r) = r_weight r" "r_label (swap_ends a b r) = r_label r"
  by (simp_all add: swap_ends_def)

lemma swap_ends_idle: "\<not> touches r a \<Longrightarrow> \<not> touches r b \<Longrightarrow> swap_ends a b r = r"
  by (simp add: swap_ends_def swap_id_other touches_def)

lemma swap_ends_valid: "a < UNINITIALIZED_LONG \<Longrightarrow> b < UNINITIALIZED_LONG \<Longrightarrow> rel_valid r \<Longrightarrow> rel_valid (swap_ends a b r)"
  by (auto simp: rel_valid_def rel_ok_def swap_id_def UNINITIALIZED_LONG_def ULONG_RANGE_def)

text \<open>The relationships at both nodes get new ends.\<close>

lemma swap_ends_loop:
  assumes g: "hf_graph hf C" and ab: "a < UNINITIALIZED_LONG" "b < UNINITIALIZED_LONG" and b: "hf_nodes hf b \<noteq> None"
    and l: "al_inv l" "al_leq l = relationship_equals" "set (al_list l) = {r. \<exists>i. hf_rels hf i = Some r \<and> touches r a}"
  shows "\<exists>hf'. do { (rels_snd, hf) \<leftarrow> expand hf b BOTH log;
       rels \<leftarrow> for_each (\<lambda>rels i. do { rel \<leftarrow> al_get rels_snd i; add_rel rels rel }) l [0..<al_size rels_snd];
       for_each (\<lambda>hf i. do { rel \<leftarrow> al_get rels i; update_relationship hf (swap_ends a b rel) log }) hf [0..<al_size rels] } = Some hf' \<and>
    hf_eff (hf_nodes hf) (map_option (swap_ends a b) \<circ> hf_rels hf) hf hf'"
proof -
  have gr: "graph_ok (hf_nodes hf) (hf_rels hf) C" using g by (simp add: hf_graph_def)
  obtain m hf1 where e: "expand hf b BOTH log = Some (m, hf1)" "hf_same hf hf1" "al_inv m" "set (al_list m) = {r. \<exists>i. hf_rels hf i = Some r \<and> touches r b}"
    by (rule expand_both [OF g b])
  obtain l' where l': "for_each add_rel l (al_list m) = Some l'" "al_inv l'" "set (al_list l') \<subseteq> set (al_list l) \<union> set (al_list m)"
    "r_id ` set (al_list l') = r_id ` (set (al_list l) \<union> set (al_list m))" using add_rels_ok [OF l(1,2)] by blast
  have R: "hf_rels hf (r_id r) = Some r" "rel_valid r" if "r \<in> set (al_list l')" for r
    using that l'(3) l(3) e(4) graph_ok_rel(1,2) [OF gr] by auto
  obtain hf2 where 2: "for_each (\<lambda>hf r. update_relationship hf (swap_ends a b r) log) hf1 (al_list l') = Some hf2"
    "hf_eff (hf_nodes hf1) (hf_rels hf1 ++ map_of (rev (map (\<lambda>r. (r_id r, swap_ends a b r)) (al_list l')))) hf1 hf2"
    using update_rels_ok [OF hf_effD(1) [OF e(2)], of "al_list l'" "swap_ends a b" log] R swap_ends_valid [OF ab] hf_effD(3) [OF e(2)] by auto
  have "hf_rels hf ++ map_of (rev (map (\<lambda>r. (r_id r, swap_ends a b r)) (al_list l'))) = map_option (swap_ends a b) \<circ> hf_rels hf"
  proof (rule updated_rels)
    fix i r assume r: "hf_rels hf i = Some r" "i \<notin> r_id ` set (al_list l')"
    then have "r \<notin> set (al_list l)" "r \<notin> set (al_list m)" using graph_ok_rel(1) [OF gr r(1)] unfolding l'(4) by blast+
    then show "swap_ends a b r = r" using r(1) l(3) e(4) by (intro swap_ends_idle) blast+
  qed (rule R)
  then have "hf_eff (hf_nodes hf) (map_option (swap_ends a b) \<circ> hf_rels hf) hf hf2"
    using hf_eff_trans [OF e(2) 2(2)] hf_effD(2,3) [OF e(2)] by simp
  then show ?thesis using e(1) l'(1) 2(1) for_each_al [OF e(3), of add_rel l] for_each_al [OF l'(2), of "\<lambda>hf r. update_relationship hf (swap_ends a b r) log" hf1]
    by (intro exI [of _ hf2]) simp
qed

section \<open>The maps after a swap of nodes\<close>

lemma read_node_if_ok: "hf_inv hf \<Longrightarrow> \<exists>hf'. read_node_if (hf_nodes hf i \<noteq> None) hf i log = Some (hf_nodes hf i, hf') \<and> hf_same hf hf'"
  using read_node_ok [of hf i _ log] by (cases "hf_nodes hf i") (fastforce simp: read_node_if_def)+

lemma read_rel_if_ok: "hf_inv hf \<Longrightarrow> \<exists>hf'. read_rel_if (hf_rels hf i \<noteq> None) hf i log = Some (hf_rels hf i, hf') \<and> hf_same hf hf'"
  using read_relationship_ok [of hf i _ log] by (cases "hf_rels hf i") (fastforce simp: read_rel_if_def)+

lemma check_both:
  assumes inv: "hf_inv hf" and a: "a mod rec_slots node = 0" "a < 256 * rec_pages hf node" and b: "b mod rec_slots node = 0" "b < 256 * rec_pages hf node"
  obtains hf1 hf2 where "check_record_exists hf a node log = Some (rec_used (hf_cache hf) node a, hf1)"
    "check_record_exists hf1 b node log = Some (rec_used (hf_cache hf) node b, hf2)" "hf_same hf hf2"
proof -
  obtain hf1 where 1: "check_record_exists hf a node log = Some (rec_used (hf_cache hf) node a, hf1)" "hf_same hf hf1" by (rule check_slot [OF inv a])
  have b1: "b < 256 * rec_pages hf1 node" using b(2) hf_same_slots(1) [OF 1(2)] by simp
  obtain hf2 where 2: "check_record_exists hf1 b node log = Some (rec_used (hf_cache hf1) node b, hf2)" "hf_same hf1 hf2"
    by (rule check_slot [OF hf_effD(1) [OF 1(2)] b(1) b1])
  show thesis by (rule that [OF 1(1)]) (use 2 hf_same_slots(2) [OF 1(2)] hf_same_trans [OF 1(2) 2(2)] in simp_all)
qed

lemma expand_if:
  assumes g: "hf_graph hf C"
  obtains l hf' where "(if hf_nodes hf n \<noteq> None then expand hf n BOTH log else Some (al_rel_create, hf)) = Some (l, hf')" "hf_same hf hf'"
    "al_inv l" "al_leq l = relationship_equals" "set (al_list l) = {r. \<exists>i. hf_rels hf i = Some r \<and> touches r n}"
proof (cases "hf_nodes hf n")
  case None
  have "\<not> touches r n" if "hf_rels hf i = Some r" for i r
    using g graph_ok_rel(4,5) [of "hf_nodes hf" "hf_rels hf" C i r] that None by (auto simp: hf_graph_def touches_def)
  then show thesis using None g by (intro that [of al_rel_create hf]) (auto simp: al_rel_create_def hf_graph_def, simp add: al_create_def)
next
  case (Some nd)
  then show thesis using expand_both [OF g, of n log thesis] that by auto
qed

lemma swap_nodes_maps:
  assumes g: "hf_graph hf C" and ab: "a \<noteq> b" "a < 256 * rec_pages hf True" "b < 256 * rec_pages hf True"
    and ex: "hf_nodes hf a \<noteq> None \<or> hf_nodes hf b \<noteq> None"
  shows "\<exists>hf'. swap_nodes hf a b log = Some hf' \<and> hf_eff (swapped put_node a b (hf_nodes hf))
    (if hf_nodes hf b = None then hf_rels hf else map_option (swap_ends a b) \<circ> hf_rels hf) hf hf'"
proof -
  have inv: "hf_inv hf" and gr: "graph_ok (hf_nodes hf) (hf_rels hf) C" using g by (simp_all add: hf_graph_def)
  let ?N = "hf_nodes hf" and ?R = "if hf_nodes hf b = None then hf_rels hf else map_option (swap_ends a b) \<circ> hf_rels hf"
  have u: "a < UNINITIALIZED_LONG" "b < UNINITIALIZED_LONG" "\<not> bad_slot hf True a" "\<not> bad_slot hf True b"
    using good_slot [OF inv, of a True] good_slot [OF inv, of b True] ab by simp_all
  obtain hf1 hf2 where c: "check_record_exists hf a True log = Some (?N a \<noteq> None, hf1)"
    "check_record_exists hf1 b True log = Some (?N b \<noteq> None, hf2)" "hf_same hf hf2"
    using check_both [OF inv, of a True b log] ab(2,3) unfolding used_maps by auto
  note e2 = hf_effD [OF c(3)]
  obtain l hf3 where e: "(if ?N a \<noteq> None then expand hf2 a BOTH log else Some (al_rel_create, hf2)) = Some (l, hf3)" "hf_same hf2 hf3"
    "al_inv l" "al_leq l = relationship_equals" "set (al_list l) = {r. \<exists>i. hf_rels hf i = Some r \<and> touches r a}"
    using expand_if [OF hf_graph_same [OF g c(3)], of a log thesis] unfolding e2(2,3) by blast
  have s3: "hf_same hf hf3" by (rule hf_same_trans [OF c(3) e(2)])
  note e3 = hf_effD [OF s3]
  have "\<exists>hf4. (if ?N b \<noteq> None then do { (rels_snd, hf) \<leftarrow> expand hf3 b BOTH log;
       rels \<leftarrow> for_each (\<lambda>rels i. do { rel \<leftarrow> al_get rels_snd i; add_rel rels rel }) l [0..<al_size rels_snd];
       for_each (\<lambda>hf i. do { rel \<leftarrow> al_get rels i; update_relationship hf (swap_ends a b rel) log }) hf [0..<al_size rels] }
     else Some hf3) = Some hf4 \<and> hf_eff ?N ?R hf3 hf4"
    using swap_ends_loop [OF hf_graph_same [OF g s3] u(1,2) _ e(3,4), of log] e(5) e3 hf_same_refl [OF e3(1)] by auto
  then obtain hf4 where 4: "(if ?N b \<noteq> None then do { (rels_snd, hf) \<leftarrow> expand hf3 b BOTH log;
       rels \<leftarrow> for_each (\<lambda>rels i. do { rel \<leftarrow> al_get rels_snd i; add_rel rels rel }) l [0..<al_size rels_snd];
       for_each (\<lambda>hf i. do { rel \<leftarrow> al_get rels i; update_relationship hf (swap_ends a b rel) log }) hf [0..<al_size rels] }
     else Some hf3) = Some hf4" "hf_eff ?N ?R hf3 hf4" by blast
  note e4 = hf_effD [OF 4(2)]
  obtain hf5 where 5: "read_node_if (?N a \<noteq> None) hf4 a log = Some (?N a, hf5)" "hf_same hf4 hf5"
    using read_node_if_ok [OF e4(1), of a log] unfolding e4(2) by blast
  note e5 = hf_effD [OF 5(2), unfolded e4]
  obtain hf6 where 6: "read_node_if (?N b \<noteq> None) hf5 b log = Some (?N b, hf6)" "hf_same hf5 hf6"
    using read_node_if_ok [OF e5(1), of b log] unfolding e5(2) by blast
  let ?lab = "\<lambda>n. case n of Some n \<Rightarrow> n_label n | None \<Rightarrow> UNINITIALIZED_LONG"
  define hf7 where "hf7 = hf_log (hf_log hf6 log ''swap_nodes'' a (?lab (?N a))) log ''swap_nodes'' b (?lab (?N b))"
  have "hf_same hf5 hf7" using 6(2) by (simp add: hf7_def)
  note e7 = hf_effD [OF this, unfolded e5 e3(4)]
  have p: "rec_pages hf7 True = rec_pages hf True" by (rule hf_same_pages [OF e7(4)])
  obtain hf8 where 8: "do { hf1 \<leftarrow> swap_bits hf7 True a b (?N a \<noteq> None) (?N b \<noteq> None) log; hf2 \<leftarrow> move_node hf1 (?N a) b log; move_node hf2 (?N b) a log } = Some hf8"
    "hf_eff (swapped put_node a b ?N) ?R hf7 hf8"
    using place_nodes_ok [OF e7(1), of a b log] ab graph_ok_node(1,2) [OF gr] unfolding e7(2,3) p by blast
  have "swap_nodes hf a b log = Some hf8"
    using u(3,4) ab(1) ex c(1,2) e(1) 4(1) 5(1) 6(1) 8(1) unfolding swap_nodes_def hf7_def by simp auto
  then show ?thesis using 8(2) e7(4) by (auto simp: hf_eff_def)
qed

section \<open>Swapping nodes renames them\<close>

text \<open>A renaming of the nodes keeps everything else, and the order of the relationships.\<close>

fun rename_ends :: "(ulong \<Rightarrow> ulong) \<Rightarrow> ulong \<times> edge \<Rightarrow> ulong \<times> edge" where
  "rename_ends p (i, a, b, w, l) = (i, p a, p b, w, l)"

definition nodes_renamed :: "(ulong \<Rightarrow> ulong) \<Rightarrow> pgraph \<Rightarrow> pgraph \<Rightarrow> bool" where
  "nodes_renamed p G G' \<longleftrightarrow> bij p \<and> g_labels G' \<circ> p = g_labels G \<and> g_edges G' = map (rename_ends p) (g_edges G)"

lemma fst_rename_ends [simp]: "fst (rename_ends p e) = fst e" "fst \<circ> rename_ends p = fst"
proof -
  show "fst (rename_ends p e) = fst e" for e by (cases e) simp
  then show "fst \<circ> rename_ends p = fst" by (simp add: fun_eq_iff)
qed

lemma rename_ends_comp: "rename_ends q (rename_ends p e) = rename_ends (q \<circ> p) e"
  by (cases e) simp

lemma nodes_renamed_id: "p = id \<Longrightarrow> nodes_renamed p G G"
  by (auto simp: nodes_renamed_def intro!: map_idI [symmetric])

lemma nodes_renamed_comp: "nodes_renamed p G H \<Longrightarrow> nodes_renamed q H K \<Longrightarrow> nodes_renamed (q \<circ> p) G K"
  by (auto simp: nodes_renamed_def bij_comp rename_ends_comp comp_assoc [symmetric])

lemma swap_ends_touches: "touches (swap_ends a b r) n \<longleftrightarrow> touches r (swap_id a b n)"
  by (auto simp: touches_def swap_id_eq_iff)

lemma swap_ends_links: "links_ok n cs (swap_ends a b r) \<longleftrightarrow> links_ok (swap_id a b n) cs r"
  by (simp add: links_ok_def swap_id_eq_iff)

lemma swap_nodes_graph:
  assumes g: "graph_ok N R C" and ab: "a < UNINITIALIZED_LONG" "b < UNINITIALIZED_LONG"
  shows "graph_ok (swapped put_node a b N) (map_option (swap_ends a b) \<circ> R) (C \<circ> swap_id a b)"
  unfolding graph_ok_def
proof (intro conjI allI impI)
  fix n nd assume "swapped put_node a b N n = Some nd"
  then obtain x where x: "N (swap_id a b n) = Some x" "nd = put_node n x" by (auto simp: swapped_def)
  note o = graph_ok_node [OF g x(1)]
  show "n_id nd = n" "node_ok nd" using x(2) o(2) by (simp_all add: node_ok_def)
  show "n < UNINITIALIZED_LONG" using swap_id_less [OF ab o(3)] by simp
  show "chain_ok (swapped put_node a b N) (map_option (swap_ends a b) \<circ> R) n ((C \<circ> swap_id a b) n)"
    using chain_okD [OF o(4)] x unfolding chain_ok_def
    by (auto simp: swap_ends_touches swap_ends_links swapped_def)
next
  fix i r assume "(map_option (swap_ends a b) \<circ> R) i = Some r"
  then obtain q where q: "R i = Some q" "r = swap_ends a b q" by auto
  note o = graph_ok_rel [OF g q(1)]
  show "r_id r = i" "rel_valid r" "i < UNINITIALIZED_LONG" using q(2) o(1,3) swap_ends_valid [OF ab o(2)] by simp_all
  show "swapped put_node a b N (r_source_node r) \<noteq> None" "swapped put_node a b N (r_target_node r) \<noteq> None" using q(2) o(4,5) by simp_all
qed

lemma chain_at_renamed: "bij p \<Longrightarrow> chain_at (map (rename_ends p) es) (p n) = chain_at es n"
proof (induction es)
  case (Cons e es)
  then show ?case by (cases e) (simp add: chain_at_def bij_is_inj inj_eq)
qed (simp add: chain_at_def)

lemma map_of_renamed: "map_of (map (rename_ends p) es) i = map_option (\<lambda>(a, b, w, l). (p a, p b, w, l)) (map_of es i)"
proof (induction es)
  case (Cons e es)
  then show ?case by (cases e) simp
qed simp

lemma swap_nodes_abs:
  assumes h: "hf_abs hf G" and ab: "a < UNINITIALIZED_LONG" "b < UNINITIALIZED_LONG"
    and e: "hf_eff (swapped put_node a b (hf_nodes hf)) (map_option (swap_ends a b) \<circ> hf_rels hf) hf hf'"
  shows "\<exists>G'. hf_abs hf' G' \<and> nodes_renamed (swap_id a b) G G'"
proof -
  let ?p = "swap_id a b" and ?G = "G\<lparr>g_labels := g_labels G \<circ> swap_id a b, g_edges := map (rename_ends (swap_id a b)) (g_edges G)\<rparr>"
  note E = hf_effD [OF e]
  have g: "graph_ok (hf_nodes hf) (hf_rels hf) (chain_at (g_edges G))" using h by (simp add: hf_abs_def hf_graph_def)
  have "chain_at (g_edges ?G) n = chain_at (g_edges G) (?p n)" for n
    using chain_at_renamed [OF bij_swap_id, of a b "g_edges G" "?p n"] by simp
  then have "chain_at (g_edges ?G) = chain_at (g_edges G) \<circ> ?p" by (simp add: fun_eq_iff)
  then have "hf_graph hf' (chain_at (g_edges ?G))" using swap_nodes_graph [OF g ab] E by (simp add: hf_graph_def)
  moreover have "hf_labels hf' = g_labels ?G" using h by (auto simp: hf_abs_def hf_labels_def E(2) swapped_def fun_eq_iff option.map_comp comp_def)
  moreover have "hf_edges hf' i = map_of (g_edges ?G) i" for i
    using hf_abs_rel [OF h, of i, symmetric] by (cases "hf_rels hf i") (simp_all add: hf_edges_def E(3) map_of_renamed edge_of_def)
  moreover have "distinct (map fst (g_edges ?G))" using h unfolding hf_abs_def by simp
  moreover have "dom (hf_rels hf') = dom (hf_rels hf)" by (auto simp: E(3))
  then have "hf_counts hf'" using h E(2,4) by (simp add: hf_abs_def hf_counts_def card_dom_swapped hf_frame_def)
  ultimately have "hf_abs hf' ?G" by (simp add: hf_abs_def fun_eq_iff)
  moreover have "nodes_renamed ?p G ?G" by (simp add: nodes_renamed_def bij_swap_id fun_eq_iff)
  ultimately show ?thesis by blast
qed

lemma node_slot:
  assumes h: "hf_abs hf G" and n: "g_labels G n \<noteq> None"
  shows "n < 256 * rec_pages hf True"
  using hf_dom(1) [OF hf_abs_inv [OF h]] hf_abs_node [OF h, of n] n by blast

lemma swap_nodes_ok:
  assumes h: "hf_abs hf G" and a: "a < 256 * rec_pages hf True" and b: "g_labels G b \<noteq> None"
  shows "\<exists>hf' G'. swap_nodes hf a b log = Some hf' \<and> hf_abs hf' G' \<and> nodes_renamed (swap_id a b) G G' \<and> rec_pages hf' = rec_pages hf"
proof -
  have inv: "hf_inv hf" and g: "hf_graph hf (chain_at (g_edges G))" using h by (simp_all add: hf_abs_def hf_graph_def)
  have b': "b < 256 * rec_pages hf True" "hf_nodes hf b \<noteq> None" using node_slot [OF h b] hf_abs_node [OF h] b by simp_all
  have u: "a < UNINITIALIZED_LONG" "b < UNINITIALIZED_LONG" "\<not> bad_slot hf True a" "\<not> bad_slot hf True b"
    using good_slot [OF inv, of a True] good_slot [OF inv, of b True] a b' by simp_all
  show ?thesis
  proof (cases "a = b")
    case True
    obtain hf1 hf2 where c: "check_record_exists hf a True log = Some (rec_used (hf_cache hf) True a, hf1)"
      "check_record_exists hf1 b True log = Some (rec_used (hf_cache hf) True b, hf2)" "hf_same hf hf2"
      using check_both [OF inv, of a True b log] a b' by auto
    have "nodes_renamed (swap_id a b) G G" using True by (intro nodes_renamed_id) (simp add: fun_eq_iff)
    moreover have "swap_nodes hf a b log = Some hf2" using c(1,2) True u(3) by (simp add: swap_nodes_def)
    ultimately show ?thesis using hf_abs_same [OF h c(3)] hf_same_slots(1) [OF c(3)] by blast
  next
    case False
    obtain hf' where s: "swap_nodes hf a b log = Some hf'"
      "hf_eff (swapped put_node a b (hf_nodes hf)) (map_option (swap_ends a b) \<circ> hf_rels hf) hf hf'"
      using swap_nodes_maps [OF g False a b'(1), of log] b'(2) by auto
    then show ?thesis using swap_nodes_abs [OF h u(1,2) s(2)] hf_same_pages [OF hf_effD(4) [OF s(2)]] by blast
  qed
qed

text \<open>
  C29: Swapping a slot with that of an existing node gives the heap file of the same graph with the two ids exchanged: labels, relationships
  and the order of the relationships stay. The first slot may be used or free.
\<close>
theorem swap_nodes_renames:
  assumes "hf_abs hf G" "a < 256 * rec_pages hf True" "g_labels G b \<noteq> None"
  shows "\<exists>hf' G'. swap_nodes hf a b log = Some hf' \<and> hf_abs hf' G' \<and> nodes_renamed (swap_id a b) G G'"
  using swap_nodes_ok [OF assms] by blast

theorem swap_nodes_renames_witness:
  "\<exists>hf G a b hf' G'. hf_abs hf G \<and> a \<noteq> b \<and> g_labels G = [a \<mapsto> 5, b \<mapsto> 6] \<and> swap_nodes hf a b True = Some hf' \<and> hf_abs hf' G' \<and> g_labels G' b = Some 5"
proof -
  obtain hf G a b i where g: "hf_abs hf G" "a \<noteq> b" "g_labels G = [a \<mapsto> 5, b \<mapsto> 6]" by (rule pair_database)
  obtain hf' G' where s: "swap_nodes hf a b True = Some hf'" "hf_abs hf' G'" "nodes_renamed (swap_id a b) G G'"
    using swap_nodes_renames [OF g(1) node_slot [OF g(1)], of a b True] g(2,3) by auto
  have "g_labels G' (swap_id a b a) = g_labels G a" using s(3) unfolding nodes_renamed_def by (metis comp_apply)
  then show ?thesis using g s(1,2) by (intro exI [of _ hf] exI [of _ G] exI [of _ a] exI [of _ b] exI [of _ hf'] exI [of _ G']) simp
qed

section \<open>Moving a node to a free slot leaves its relationships behind\<close>

text \<open>
  C30: When the second slot is free, \<^verbatim>\<open>swap_nodes\<close> moves the node but does not touch its relationships: a relationship from the node that
  moved still names the old id as its source, and reading a node with that id ends the program.
\<close>
theorem swap_nodes_dangling:
  assumes h: "hf_abs hf G" and e: "(i, a, t, w, l) \<in> set (g_edges G)" and b: "g_labels G b = None" "b < 256 * rec_pages hf True"
  shows "\<exists>hf' r hf''. swap_nodes hf a b log = Some hf' \<and> read_relationship hf' i log = Some (r, hf'') \<and> r_source_node r = a \<and>
    read_node hf'' a log = None"
proof -
  have g: "hf_graph hf (chain_at (g_edges G))" using h by (simp add: hf_abs_def)
  have a: "g_labels G a \<noteq> None" by (rule edge_ends(1) [OF h e])
  have "map_of (g_edges G) i = Some (a, t, w, l)" using h e by (simp add: hf_abs_def)
  then obtain r where r: "hf_rels hf i = Some r" "r_source_node r = a" using hf_abs_rel [OF h, of i] by (auto simp: edge_of_def)
  have ab: "a \<noteq> b" using a b(1) by auto
  obtain hf' where s: "swap_nodes hf a b log = Some hf'" "hf_eff (swapped put_node a b (hf_nodes hf)) (hf_rels hf) hf hf'"
    using swap_nodes_maps [OF g ab node_slot [OF h a] b(2), of log] a b(1) hf_abs_node [OF h] by auto
  note E = hf_effD [OF s(2)]
  obtain hf'' where rd: "read_relationship hf' i log = Some (r, hf'')" "hf_same hf' hf''" using read_relationship_ok [OF E(1), of i r log] r(1) E(3) by auto
  have "hf_nodes hf'' a = None" using hf_effD(2) [OF rd(2)] E(2) b(1) hf_abs_node [OF h] by (simp add: swapped_def)
  then show ?thesis using s(1) rd(1) r(2) read_exit(1) [OF hf_effD(1) [OF rd(2)]] by blast
qed

theorem swap_nodes_dangling_witness:
  "\<exists>hf hf' hf'' i a b r. hf_inv hf \<and> swap_nodes hf a b True = Some hf' \<and> read_relationship hf' i True = Some (r, hf'') \<and> r_source_node r = a \<and>
    read_node hf'' a True = None"
proof -
  obtain hf G a b i where g: "hf_abs hf G" "a \<noteq> b" "g_labels G = [a \<mapsto> 5, b \<mapsto> 6]" "g_edges G = [(i, a, b, 7, 1)]" by (rule pair_database)
  obtain c where c: "c < 3" "c \<noteq> a" "c \<noteq> b" using that [of 0] that [of 1] that [of 2] by fastforce
  have "a < 256 * rec_pages hf True" by (rule node_slot [OF g(1)]) (use g(3) in simp)
  then have "c < 256 * rec_pages hf True" using c(1) by (cases "rec_pages hf True") simp_all
  then obtain hf' r hf'' where "swap_nodes hf a c True = Some hf'" "read_relationship hf' i True = Some (r, hf'')" "r_source_node r = a" "read_node hf'' a True = None"
    using swap_nodes_dangling [OF g(1), of i a b 7 1 c True] c g(3,4) by auto
  then show ?thesis using hf_abs_inv [OF g(1)] by blast
qed

end
