(* ===== verification/Record_Swap_Rels.thy ===== *)
theory Record_Swap_Rels
  imports Record_Swap
begin

text \<open>
  Swapping two relationships. The relationships that point to one of the two are their neighbours in the rings, and
  the nodes that do are among their ends; so updating these, each once, renames every link.
\<close>

section \<open>Collecting ids\<close>

lemma add_ids_ok:
  assumes "al_inv l" "al_leq l = unsigned_long_eq" "distinct (al_list l)"
  shows "\<exists>l'. for_each add_id l xs = Some l' \<and> al_inv l' \<and> al_leq l' = unsigned_long_eq \<and> distinct (al_list l') \<and>
    set (al_list l') = set (al_list l) \<union> set xs"
  using assms
proof (induction xs arbitrary: l)
  case (Cons x xs)
  have c: "al_contains l x = Some (x \<in> set (al_list l))" using al_contains_eq [OF Cons.prems(1), of x] Cons.prems(2) by (simp add: unsigned_long_eq_def)
  show ?case
  proof (cases "x \<in> set (al_list l)")
    case True
    then show ?thesis using Cons.IH [OF Cons.prems] c by (auto simp: add_id_def insert_absorb)
  next
    case False
    obtain l1 where l1: "al_append l x = Some l1" "al_inv l1" "al_list l1 = al_list l @ [x]" using alist.append_law [OF Cons.prems(1)] by blast
    have "al_leq l1 = unsigned_long_eq" using al_append_leq [OF l1(1)] Cons.prems(2) by simp
    from Cons.IH [OF l1(2) this] show ?thesis using False c l1 Cons.prems(3) by (auto simp: add_id_def)
  qed
qed simp

definition nbrs :: "(ulong \<rightharpoonup> relationship_t) \<Rightarrow> ulong \<Rightarrow> ulong set" where
  "nbrs R i = (case R i of None \<Rightarrow> {} | Some r \<Rightarrow> set (rel_neighbours r))"

definition ends_at :: "(ulong \<rightharpoonup> relationship_t) \<Rightarrow> ulong \<Rightarrow> ulong set" where
  "ends_at R i = (case R i of None \<Rightarrow> {} | Some r \<Rightarrow> {r_source_node r, r_target_node r})"

definition id_list :: "ulong array_list \<Rightarrow> ulong set \<Rightarrow> bool" where
  "id_list l X \<longleftrightarrow> al_inv l \<and> al_leq l = unsigned_long_eq \<and> distinct (al_list l) \<and> set (al_list l) = X"

lemma id_list_create: "id_list al_ul_create {}"
  by (simp add: id_list_def al_ul_create_def) (simp add: al_create_def)

lemma id_list_add: "id_list l X \<Longrightarrow> \<exists>l'. for_each add_id l xs = Some l' \<and> id_list l' (X \<union> set xs)"
  using add_ids_ok [of l xs] by (auto simp: id_list_def)

lemma collect_rel_ok:
  assumes inv: "hf_inv hf" and l: "id_list ns X" "id_list rs Y"
  shows "\<exists>ns' rs' hf'. collect_rel (hf_rels hf i \<noteq> None) hf i ns rs log = Some (ns', rs', hf') \<and> hf_same hf hf' \<and>
    id_list ns' (X \<union> ends_at (hf_rels hf) i) \<and> id_list rs' (Y \<union> nbrs (hf_rels hf) i)"
proof (cases "hf_rels hf i")
  case None
  then show ?thesis using assms by (simp add: collect_rel_def ends_at_def nbrs_def)
next
  case (Some r)
  obtain hf' where rd: "read_relationship hf i log = Some (r, hf')" "hf_same hf hf'" using read_relationship_ok [OF inv Some] by blast
  obtain ns' where n: "for_each add_id ns [r_source_node r, r_target_node r] = Some ns'" "id_list ns' (X \<union> set [r_source_node r, r_target_node r])"
    using id_list_add [OF l(1)] by blast
  obtain rs' where m: "for_each add_id rs (rel_neighbours r) = Some rs'" "id_list rs' (Y \<union> set (rel_neighbours r))"
    using id_list_add [OF l(2)] by blast
  have "collect_rel (hf_rels hf i \<noteq> None) hf i ns rs log = Some (ns', rs', hf')"
    using Some rd(1) n(1) m(1) unfolding collect_rel_def by (simp del: for_each.simps)
  then show ?thesis using Some rd(2) n(2) m(2) by (auto simp: ends_at_def nbrs_def)
qed

section \<open>Loops that read and update\<close>

lemma reread_rels_ok:
  assumes "hf_inv hf" "distinct is" "\<And>i. i \<in> set is \<Longrightarrow> \<exists>r. hf_rels hf i = Some r \<and> rel_valid (g r) \<and> r_id (g r) = i"
  shows "\<exists>hf'. for_each (\<lambda>hf i. do { (rel, hf) \<leftarrow> read_relationship hf i log; update_relationship hf (g rel) log }) hf is = Some hf' \<and>
    hf_eff (hf_nodes hf) (\<lambda>i. if i \<in> set is then map_option g (hf_rels hf i) else hf_rels hf i) hf hf'"
  using assms
proof (induction "is" arbitrary: hf)
  case (Cons i "is")
  obtain r where r: "hf_rels hf i = Some r" "rel_valid (g r)" "r_id (g r) = i" using Cons.prems(3) by fastforce
  obtain hf1 where 1: "read_relationship hf i log = Some (r, hf1)" "hf_same hf hf1" using read_relationship_ok [OF Cons.prems(1) r(1)] by blast
  note e1 = hf_effD [OF 1(2)]
  obtain hf2 where 2: "update_relationship hf1 (g r) log = Some hf2" "hf_eff (hf_nodes hf) ((hf_rels hf)(i \<mapsto> g r)) hf1 hf2"
    using update_relationship_ok [OF e1(1), of "g r" log] r e1 by auto
  note e2 = hf_effD [OF 2(2)]
  have "\<exists>hf'. for_each (\<lambda>hf i. do { (rel, hf) \<leftarrow> read_relationship hf i log; update_relationship hf (g rel) log }) hf2 is = Some hf' \<and>
    hf_eff (hf_nodes hf2) (\<lambda>i. if i \<in> set is then map_option g (hf_rels hf2 i) else hf_rels hf2 i) hf2 hf'"
    by (rule Cons.IH [OF e2(1)]) (use Cons.prems(2,3) e2(3) in auto)
  moreover have "(\<lambda>j. if j \<in> set is then map_option g (hf_rels hf2 j) else hf_rels hf2 j) =
      (\<lambda>j. if j \<in> set (i # is) then map_option g (hf_rels hf j) else hf_rels hf j)"
    using Cons.prems(2) r(1) by (auto simp: e2(3) fun_eq_iff)
  ultimately show ?case using 1(1) 2(1) e1(4) e2(2,4) by (auto simp: hf_eff_def)
qed simp

lemma reread_nodes_ok:
  assumes "hf_inv hf" "distinct is" "\<And>i. i \<in> set is \<Longrightarrow> \<exists>n. hf_nodes hf i = Some n \<and> node_ok (g n) \<and> n_id (g n) = i"
  shows "\<exists>hf'. for_each (\<lambda>hf i. do { (n, hf) \<leftarrow> read_node hf i log; update_node hf (g n) log }) hf is = Some hf' \<and>
    hf_eff (\<lambda>i. if i \<in> set is then map_option g (hf_nodes hf i) else hf_nodes hf i) (hf_rels hf) hf hf'"
  using assms
proof (induction "is" arbitrary: hf)
  case (Cons i "is")
  obtain n where n: "hf_nodes hf i = Some n" "node_ok (g n)" "n_id (g n) = i" using Cons.prems(3) by fastforce
  obtain hf1 where 1: "read_node hf i log = Some (n, hf1)" "hf_same hf hf1" using read_node_ok [OF Cons.prems(1) n(1)] by blast
  note e1 = hf_effD [OF 1(2)]
  obtain hf2 where 2: "update_node hf1 (g n) log = Some hf2" "hf_eff ((hf_nodes hf)(i \<mapsto> g n)) (hf_rels hf) hf1 hf2"
    using update_node_ok [OF e1(1), of "g n" log] n e1 by auto
  note e2 = hf_effD [OF 2(2)]
  have "\<exists>hf'. for_each (\<lambda>hf i. do { (n, hf) \<leftarrow> read_node hf i log; update_node hf (g n) log }) hf2 is = Some hf' \<and>
    hf_eff (\<lambda>i. if i \<in> set is then map_option g (hf_nodes hf2 i) else hf_nodes hf2 i) (hf_rels hf2) hf2 hf'"
    by (rule Cons.IH [OF e2(1)]) (use Cons.prems(2,3) e2(2) in auto)
  moreover have "(\<lambda>j. if j \<in> set is then map_option g (hf_nodes hf2 j) else hf_nodes hf2 j) =
      (\<lambda>j. if j \<in> set (i # is) then map_option g (hf_nodes hf j) else hf_nodes hf j)"
    using Cons.prems(2) n(1) by (auto simp: e2(2) fun_eq_iff)
  ultimately show ?case using 1(1) 2(1) e1(4) e2(3,4) by (auto simp: hf_eff_def)
qed simp

section \<open>Who points to a relationship\<close>

definition swap_first :: "ulong \<Rightarrow> ulong \<Rightarrow> node_t \<Rightarrow> node_t" where
  "swap_first a b n = n\<lparr>n_first_relationship := swap_id a b (n_first_relationship n)\<rparr>"

text \<open>The relationship before or after \<open>i\<close> in a ring has \<open>i\<close> as its neighbour.\<close>

lemma ring_neighbour:
  assumes g: "graph_ok N R C" and n: "N n \<noteq> None" and x: "nxt (C n) i = Some x \<or> prv (C n) i = Some x"
  shows "R x \<noteq> None" "i \<in> nbrs R x"
proof -
  obtain nd where nd: "N n = Some nd" using n by blast
  note c = chain_okD [OF graph_ok_node(4) [OF g nd]]
  have ex: "nxt (C n) x = Some i \<or> prv (C n) x = Some i" "x \<in> set (C n)"
    using x prv_nxt [OF c(1)] nxt_SomeD [of "C n"] by auto
  then obtain q where q: "R x = Some q" "touches q n" using c(2) by blast
  then show "R x \<noteq> None" by simp
  show "i \<in> nbrs R x" using ex(1) c(4) [OF q(1)] q graph_ok_rel(1) [OF g q(1)]
    by (auto simp: links_ok_def touches_def nbrs_def rel_neighbours_def)
qed

lemma rel_links:
  assumes g: "graph_ok N R C" and r: "R i = Some r" and x: "x \<in> set (rel_neighbours r)"
  obtains n where "N n \<noteq> None" "nxt (C n) i = Some x \<or> prv (C n) i = Some x"
proof -
  note o = graph_ok_rel [OF g r]
  obtain s t where st: "N (r_source_node r) = Some s" "N (r_target_node r) = Some t" using o(4,5) by blast
  have "links_ok (r_source_node r) (C (r_source_node r)) r" "links_ok (r_target_node r) (C (r_target_node r)) r"
    using chain_okD(4) [OF graph_ok_node(4) [OF g st(1)] r] chain_okD(4) [OF graph_ok_node(4) [OF g st(2)] r] by simp_all
  then show thesis using x o(1,4,5) that [of "r_source_node r"] that [of "r_target_node r"] by (auto simp: rel_neighbours_def links_ok_def)
qed

lemma nbrs_exist:
  assumes g: "graph_ok N R C" and y: "y \<in> nbrs R x"
  shows "R y \<noteq> None"
proof -
  obtain r where r: "R x = Some r" "y \<in> set (rel_neighbours r)" using y by (auto simp: nbrs_def split: option.splits)
  obtain n where "N n \<noteq> None" "nxt (C n) x = Some y \<or> prv (C n) x = Some y" by (rule rel_links [OF g r])
  then show ?thesis by (rule ring_neighbour(1) [OF g])
qed

lemma links_idle:
  assumes g: "graph_ok N R C" and r: "R i = Some r" and i: "i \<notin> nbrs R a" "i \<notin> nbrs R b"
  shows "swap_links a b r = r"
proof -
  have "x \<noteq> a" "x \<noteq> b" if "x \<in> set (rel_neighbours r)" for x
    using rel_links [OF g r that] ring_neighbour(2) [OF g] i by metis+
  then show ?thesis by (simp add: swap_links_def rel_neighbours_def swap_id_other)
qed

lemma first_idle:
  assumes g: "graph_ok N R C" and n: "N n = Some nd" and i: "n \<notin> ends_at R a" "n \<notin> ends_at R b" and ab: "a < UNINITIALIZED_LONG" "b < UNINITIALIZED_LONG"
  shows "swap_first a b nd = nd"
proof -
  note o = graph_ok_node [OF g n]
  have "n_first_relationship nd \<noteq> a" "n_first_relationship nd \<noteq> b"
  proof -
    have "x \<noteq> n_first_relationship nd" if x: "n \<notin> ends_at R x" "x < UNINITIALIZED_LONG" for x
    proof
      assume "x = n_first_relationship nd"
      then have "x \<in> set (C n)" using o(5) x(2) by (auto simp: first_of_def split: if_splits)
      then show False using chain_okD(2) [OF o(4), of x] x(1) by (auto simp: ends_at_def touches_def)
    qed
    then show "n_first_relationship nd \<noteq> a" "n_first_relationship nd \<noteq> b" using i ab by blast+
  qed
  then show ?thesis by (simp add: swap_first_def swap_id_other)
qed

section \<open>The maps after a swap of relationships\<close>

lemma swap_links_fields [simp]:
  "r_id (swap_links a b r) = r_id r" "r_source_node (swap_links a b r) = r_source_node r" "r_target_node (swap_links a b r) = r_target_node r"
  "r_prev_rel_source (swap_links a b r) = swap_id a b (r_prev_rel_source r)" "r_next_rel_source (swap_links a b r) = swap_id a b (r_next_rel_source r)"
  "r_prev_rel_target (swap_links a b r) = swap_id a b (r_prev_rel_target r)" "r_next_rel_target (swap_links a b r) = swap_id a b (r_next_rel_target r)"
  "r_weight (swap_links a b r) = r_weight r" "r_label (swap_links a b r) = r_label r"
  by (simp_all add: swap_links_def)

lemma swap_links_valid: "a < UNINITIALIZED_LONG \<Longrightarrow> b < UNINITIALIZED_LONG \<Longrightarrow> rel_valid r \<Longrightarrow> rel_valid (swap_links a b r)"
  by (auto simp: rel_valid_def rel_ok_def swap_id_def UNINITIALIZED_LONG_def ULONG_RANGE_def)

lemma swap_first_ok: "a < UNINITIALIZED_LONG \<Longrightarrow> b < UNINITIALIZED_LONG \<Longrightarrow> node_ok n \<Longrightarrow> node_ok (swap_first a b n)"
  by (auto simp: node_ok_def swap_first_def swap_id_def UNINITIALIZED_LONG_def ULONG_RANGE_def)

lemma swap_links_loop:
  assumes g: "hf_graph hf C" and ab: "a < UNINITIALIZED_LONG" "b < UNINITIALIZED_LONG"
    and l: "id_list l (nbrs (hf_rels hf) a \<union> nbrs (hf_rels hf) b)"
  shows "\<exists>hf'. for_each (\<lambda>hf i. do { j \<leftarrow> al_get l i; (rel, hf) \<leftarrow> read_relationship hf j log; update_relationship hf (swap_links a b rel) log }) hf [0..<al_size l] = Some hf' \<and>
    hf_eff (hf_nodes hf) (map_option (swap_links a b) \<circ> hf_rels hf) hf hf'"
proof -
  have inv: "hf_inv hf" and gr: "graph_ok (hf_nodes hf) (hf_rels hf) C" using g by (simp_all add: hf_graph_def)
  have L: "al_inv l" "distinct (al_list l)" "set (al_list l) = nbrs (hf_rels hf) a \<union> nbrs (hf_rels hf) b" using l by (simp_all add: id_list_def)
  have "\<exists>r. hf_rels hf i = Some r \<and> rel_valid (swap_links a b r) \<and> r_id (swap_links a b r) = i" if "i \<in> set (al_list l)" for i
    using nbrs_exist [OF gr, of i] graph_ok_rel(1,2) [OF gr, of i] swap_links_valid [OF ab] that L(3) by fastforce
  from reread_rels_ok [OF inv L(2) this, of log] obtain hf' where
    "for_each (\<lambda>hf i. do { (rel, hf) \<leftarrow> read_relationship hf i log; update_relationship hf (swap_links a b rel) log }) hf (al_list l) = Some hf'"
    "hf_eff (hf_nodes hf) (\<lambda>i. if i \<in> set (al_list l) then map_option (swap_links a b) (hf_rels hf i) else hf_rels hf i) hf hf'" by blast
  moreover have "(\<lambda>i. if i \<in> set (al_list l) then map_option (swap_links a b) (hf_rels hf i) else hf_rels hf i) = map_option (swap_links a b) \<circ> hf_rels hf"
  proof
    fix i show "(if i \<in> set (al_list l) then map_option (swap_links a b) (hf_rels hf i) else hf_rels hf i) = (map_option (swap_links a b) \<circ> hf_rels hf) i"
      using links_idle [OF gr, of i _ a b] L(3) by (cases "hf_rels hf i") auto
  qed
  ultimately show ?thesis
    using for_each_al [OF L(1), of "\<lambda>hf i. do { (rel, hf) \<leftarrow> read_relationship hf i log; update_relationship hf (swap_links a b rel) log }" hf] by simp
qed

lemma swap_first_loop:
  assumes g: "graph_ok (hf_nodes hf) R C" and inv: "hf_inv hf" and ab: "a < UNINITIALIZED_LONG" "b < UNINITIALIZED_LONG"
    and l: "id_list l (ends_at R a \<union> ends_at R b)"
  shows "\<exists>hf'. for_each (\<lambda>hf i. do { j \<leftarrow> al_get l i; (node, hf) \<leftarrow> read_node hf j log;
      update_node hf (node\<lparr>n_first_relationship := swap_id a b (n_first_relationship node)\<rparr>) log }) hf [0..<al_size l] = Some hf' \<and>
    hf_eff (map_option (swap_first a b) \<circ> hf_nodes hf) (hf_rels hf) hf hf'"
proof -
  have L: "al_inv l" "distinct (al_list l)" "set (al_list l) = ends_at R a \<union> ends_at R b" using l by (simp_all add: id_list_def)
  have "\<exists>n. hf_nodes hf i = Some n \<and> node_ok (swap_first a b n) \<and> n_id (swap_first a b n) = i" if i: "i \<in> set (al_list l)" for i
  proof -
    have "hf_nodes hf i \<noteq> None" using i L(3) graph_ok_rel(4,5) [OF g] by (auto simp: ends_at_def split: option.splits)
    then obtain n where n: "hf_nodes hf i = Some n" by blast
    then show ?thesis using graph_ok_node(1,2) [OF g n] swap_first_ok [OF ab] by (simp add: swap_first_def)
  qed
  from reread_nodes_ok [OF inv L(2) this, of log] obtain hf' where
    "for_each (\<lambda>hf i. do { (n, hf) \<leftarrow> read_node hf i log; update_node hf (swap_first a b n) log }) hf (al_list l) = Some hf'"
    "hf_eff (\<lambda>i. if i \<in> set (al_list l) then map_option (swap_first a b) (hf_nodes hf i) else hf_nodes hf i) (hf_rels hf) hf hf'" by blast
  moreover have "(\<lambda>i. if i \<in> set (al_list l) then map_option (swap_first a b) (hf_nodes hf i) else hf_nodes hf i) = map_option (swap_first a b) \<circ> hf_nodes hf"
  proof
    fix i show "(if i \<in> set (al_list l) then map_option (swap_first a b) (hf_nodes hf i) else hf_nodes hf i) = (map_option (swap_first a b) \<circ> hf_nodes hf) i"
      using first_idle [OF g, of i _ a b] ab L(3) by (cases "hf_nodes hf i") auto
  qed
  ultimately show ?thesis
    using for_each_al [OF L(1), of "\<lambda>hf i. do { (n, hf) \<leftarrow> read_node hf i log; update_node hf (swap_first a b n) log }" hf] by (simp add: swap_first_def)
qed

lemma swap_relationships_maps:
  assumes g: "hf_graph hf C" and ab: "a \<noteq> b" "a < 256 * rec_pages hf False" "b < 256 * rec_pages hf False" "a mod 4 = 0" "b mod 4 = 0"
    and ex: "hf_rels hf a \<noteq> None \<or> hf_rels hf b \<noteq> None"
  shows "\<exists>hf'. swap_relationships hf a b log = Some hf' \<and> hf_eff (map_option (swap_first a b) \<circ> hf_nodes hf)
    (swapped put_rel a b (map_option (swap_links a b) \<circ> hf_rels hf)) hf hf'"
proof -
  have inv: "hf_inv hf" and gr: "graph_ok (hf_nodes hf) (hf_rels hf) C" using g by (simp_all add: hf_graph_def)
  let ?R = "hf_rels hf" and ?N' = "map_option (swap_first a b) \<circ> hf_nodes hf" and ?R' = "map_option (swap_links a b) \<circ> hf_rels hf"
  have u: "a < UNINITIALIZED_LONG" "b < UNINITIALIZED_LONG" "\<not> bad_slot hf False a" "\<not> bad_slot hf False b"
    using good_slot [OF inv, of a False] good_slot [OF inv, of b False] ab by simp_all
  obtain hf1 hf2 where c: "check_record_exists hf a False log = Some (?R a \<noteq> None, hf1)"
    "check_record_exists hf1 b False log = Some (?R b \<noteq> None, hf2)" "hf_same hf hf2"
    using check_both [OF inv, of a False b log] ab unfolding used_maps by auto
  note e2 = hf_effD [OF c(3)]
  obtain ns rs hf3 where 3: "collect_rel (?R a \<noteq> None) hf2 a al_ul_create al_ul_create log = Some (ns, rs, hf3)" "hf_same hf2 hf3"
    "id_list ns (ends_at ?R a)" "id_list rs (nbrs ?R a)"
    using collect_rel_ok [OF e2(1) id_list_create id_list_create, of a log] unfolding e2(3) by auto
  note e3 = hf_effD [OF hf_same_trans [OF c(3) 3(2)]]
  obtain ns' rs' hf4 where 4: "collect_rel (?R b \<noteq> None) hf3 b ns rs log = Some (ns', rs', hf4)" "hf_same hf3 hf4"
    "id_list ns' (ends_at ?R a \<union> ends_at ?R b)" "id_list rs' (nbrs ?R a \<union> nbrs ?R b)"
    using collect_rel_ok [OF e3(1) 3(3,4), of b log] unfolding e3(3) by auto
  have s4: "hf_same hf hf4" by (rule hf_same_trans [OF hf_same_trans [OF c(3) 3(2)] 4(2)])
  note e4 = hf_effD [OF s4]
  obtain hf5 where 5: "for_each (\<lambda>hf i. do { j \<leftarrow> al_get rs' i; (rel, hf) \<leftarrow> read_relationship hf j log; update_relationship hf (swap_links a b rel) log }) hf4 [0..<al_size rs'] = Some hf5"
    "hf_eff (hf_nodes hf) ?R' hf4 hf5"
    using swap_links_loop [OF hf_graph_same [OF g s4] u(1,2), of rs' log] 4(4) unfolding e4(2,3) by blast
  note e5 = hf_effD [OF 5(2)]
  obtain hf6 where 6: "for_each (\<lambda>hf i. do { j \<leftarrow> al_get ns' i; (node, hf) \<leftarrow> read_node hf j log;
      update_node hf (node\<lparr>n_first_relationship := swap_id a b (n_first_relationship node)\<rparr>) log }) hf5 [0..<al_size ns'] = Some hf6"
    "hf_eff ?N' ?R' hf5 hf6"
    using swap_first_loop [OF _ e5(1) u(1,2) 4(3), of C log] gr unfolding e5(2,3) by blast
  note e6 = hf_effD [OF 6(2)]
  have x: "?R' i \<noteq> None \<longleftrightarrow> ?R i \<noteq> None" for i by simp
  obtain hf7 where 7: "read_rel_if (?R b \<noteq> None) hf6 b log = Some (?R' b, hf7)" "hf_same hf6 hf7"
    using read_rel_if_ok [OF e6(1), of b log] unfolding e6(3) x by blast
  note e7 = hf_effD [OF 7(2), unfolded e6]
  obtain hf8 where 8: "read_rel_if (?R a \<noteq> None) hf7 a log = Some (?R' a, hf8)" "hf_same hf7 hf8"
    using read_rel_if_ok [OF e7(1), of a log] unfolding e7(3) x by blast
  define hf9 where "hf9 = hf_log hf8 log ''swap_relationships'' a b"
  have "hf_same hf7 hf9" using 8(2) by (simp add: hf9_def)
  note e9 = hf_effD [OF this, unfolded e7 e5(4) e4(4)]
  have p: "rec_pages hf9 False = rec_pages hf False" by (rule hf_same_pages [OF e9(4)])
  have ok: "r_id n = i \<and> rel_valid n" if "?R' i = Some n" for i n
    using that graph_ok_rel(1,2) [OF gr] swap_links_valid [OF u(1,2)] by auto
  obtain hf' where r: "do { hf1 \<leftarrow> swap_bits hf9 False a b (?R a \<noteq> None) (?R b \<noteq> None) log; hf2 \<leftarrow> move_rel hf1 (?R' a) b log; move_rel hf2 (?R' b) a log } = Some hf'"
    "hf_eff ?N' (swapped put_rel a b ?R') hf9 hf'"
    using place_rels_ok [OF e9(1), of a b log] ab ok unfolding e9(2,3) p x by blast
  have "swap_relationships hf a b log = Some hf'"
    using u(3,4) ab(1) ex c(1,2) 3(1) 4(1) 5(1) 6(1) 7(1) 8(1) r(1) unfolding swap_relationships_def hf9_def by simp auto
  then show ?thesis using r(2) e9(4) by (auto simp: hf_eff_def)
qed

section \<open>Swapping relationships renames them\<close>

lemma map_of_inj: "inj f \<Longrightarrow> map_of (map (\<lambda>(k, v). (f k, h v)) xs) (f x) = map_option h (map_of xs x)"
  by (induction xs) (auto simp: inj_eq)

lemma nxt_map: "inj f \<Longrightarrow> nxt (map f xs) (f x) = map_option f (nxt xs x)"
  using map_of_inj [of f f "zip xs (rotate1 xs)" x] by (simp add: nxt_def rotate1_map zip_map_map)

lemma prv_map: "inj f \<Longrightarrow> prv (map f xs) (f x) = map_option f (prv xs x)"
  using map_of_inj [of f f "zip (rotate1 xs) xs" x] by (simp add: prv_def rotate1_map zip_map_map)

lemma inj_swap_id: "inj (swap_id a b)"
  by (rule bij_is_inj [OF bij_swap_id])

definition rels_renamed :: "(ulong \<Rightarrow> ulong) \<Rightarrow> pgraph \<Rightarrow> pgraph \<Rightarrow> bool" where
  "rels_renamed p G G' \<longleftrightarrow> bij p \<and> g_labels G' = g_labels G \<and> g_edges G' = map (\<lambda>(i, e). (p i, e)) (g_edges G)"

lemma rels_renamed_id: "p = id \<Longrightarrow> rels_renamed p G G"
  by (simp add: rels_renamed_def)

lemma rels_renamed_comp: "rels_renamed p G H \<Longrightarrow> rels_renamed q H K \<Longrightarrow> rels_renamed (q \<circ> p) G K"
  by (auto simp: rels_renamed_def bij_comp)

lemma swap_links_ok:
  assumes "links_ok n cs q"
  shows "links_ok n (map (swap_id a b) cs) (put_rel (swap_id a b (r_id q)) (swap_links a b q))"
  using assms by (simp add: links_ok_def nxt_map [OF inj_swap_id] prv_map [OF inj_swap_id])

lemma swap_rels_graph:
  assumes g: "graph_ok N R C" and ab: "a < UNINITIALIZED_LONG" "b < UNINITIALIZED_LONG"
  shows "graph_ok (map_option (swap_first a b) \<circ> N) (swapped put_rel a b (map_option (swap_links a b) \<circ> R)) (\<lambda>n. map (swap_id a b) (C n))"
  unfolding graph_ok_def
proof (intro conjI allI impI)
  let ?R = "swapped put_rel a b (map_option (swap_links a b) \<circ> R)" and ?p = "swap_id a b"
  have R: "?R i = Some r \<longleftrightarrow> (\<exists>q. R (?p i) = Some q \<and> r = put_rel i (swap_links a b q))" for i r by (auto simp: swapped_def)
  { fix n nd assume "(map_option (swap_first a b) \<circ> N) n = Some nd"
    then obtain x where x: "N n = Some x" "nd = swap_first a b x" by auto
    note o = graph_ok_node [OF g x(1)] and c = chain_okD [OF graph_ok_node(4) [OF g x(1)]]
    show "n_id nd = n" "node_ok nd" "n < UNINITIALIZED_LONG" using x(2) o(1,3) swap_first_ok [OF ab o(2)] by (simp_all add: swap_first_def)
    have "distinct (map ?p (C n))" using c(1) by (simp add: distinct_map inj_on_def)
    moreover have "i \<in> set (map ?p (C n)) \<longleftrightarrow> (\<exists>r. ?R i = Some r \<and> touches r n)" for i
    proof -
      have "i \<in> set (map ?p (C n)) \<longleftrightarrow> ?p i \<in> set (C n)" by (auto intro: rev_image_eqI)
      then show ?thesis using c(2) [of "?p i"] unfolding R by (auto simp: touches_def)
    qed
    moreover have "n_first_relationship nd = first_of (map ?p (C n))"
      using o(5) x(2) ab by (auto simp: first_of_def swap_first_def hd_map swap_id_other)
    moreover have "links_ok n (map ?p (C n)) r" if r: "?R i = Some r" for i r
    proof -
      obtain q where q: "R (?p i) = Some q" "r = put_rel i (swap_links a b q)" using r unfolding R by blast
      show ?thesis using swap_links_ok [OF c(4) [OF q(1)], of a b] graph_ok_rel(1) [OF g q(1)] q(2) by simp
    qed
    ultimately show "chain_ok (map_option (swap_first a b) \<circ> N) ?R n (map ?p (C n))" using x by (auto simp: chain_ok_def) }
  fix i r assume "?R i = Some r"
  then obtain q where q: "R (?p i) = Some q" "r = put_rel i (swap_links a b q)" unfolding R by blast
  note o = graph_ok_rel [OF g q(1)]
  show "r_id r = i" "i < UNINITIALIZED_LONG" using q(2) swap_id_less [OF ab o(3)] by simp_all
  show "rel_valid r" using swap_links_valid [OF ab o(2)] q(2) by (simp add: rel_valid_def rel_ok_def)
  show "(map_option (swap_first a b) \<circ> N) (r_source_node r) \<noteq> None" "(map_option (swap_first a b) \<circ> N) (r_target_node r) \<noteq> None"
    using q(2) o(4,5) by simp_all
qed

lemma swap_rels_abs:
  assumes h: "hf_abs hf G" and ab: "a < UNINITIALIZED_LONG" "b < UNINITIALIZED_LONG"
    and e: "hf_eff (map_option (swap_first a b) \<circ> hf_nodes hf) (swapped put_rel a b (map_option (swap_links a b) \<circ> hf_rels hf)) hf hf'"
  shows "\<exists>G'. hf_abs hf' G' \<and> rels_renamed (swap_id a b) G G'"
proof -
  let ?p = "swap_id a b" and ?G = "G\<lparr>g_edges := map (\<lambda>(i, e). (swap_id a b i, e)) (g_edges G)\<rparr>"
  note E = hf_effD [OF e]
  have g: "graph_ok (hf_nodes hf) (hf_rels hf) (chain_at (g_edges G))" using h by (simp add: hf_abs_def hf_graph_def)
  have "chain_at (map (\<lambda>(i, e). (?p i, e)) es) n = map ?p (chain_at es n)" for es n by (induction es) (auto simp: chain_at_def)
  then have "chain_at (g_edges ?G) = (\<lambda>n. map ?p (chain_at (g_edges G) n))" by (simp add: fun_eq_iff)
  then have "hf_graph hf' (chain_at (g_edges ?G))" using swap_rels_graph [OF g ab] E by (simp add: hf_graph_def)
  moreover have "hf_labels hf' = g_labels ?G"
    using h by (auto simp: hf_abs_def hf_labels_def E(2) swap_first_def fun_eq_iff option.map_comp comp_def)
  moreover have "hf_edges hf' i = map_of (g_edges ?G) i" for i
  proof -
    have "map_of (g_edges ?G) i = map_of (g_edges G) (?p i)"
      using map_of_inj [OF inj_swap_id, of a b "\<lambda>e. e" "g_edges G" "?p i"] by (simp add: option.map_ident)
    then show ?thesis using hf_abs_rel [OF h, of "?p i", symmetric] by (cases "hf_rels hf (?p i)") (simp_all add: hf_edges_def E(3) swapped_def edge_of_def)
  qed
  moreover have "distinct (map fst (g_edges G))" using h by (simp add: hf_abs_def)
  then have "distinct (map ?p (map fst (g_edges G)))" unfolding distinct_map [of ?p] by (simp add: inj_on_def)
  then have "distinct (map fst (g_edges ?G))" by (simp add: comp_def case_prod_unfold)
  moreover have "hf_counts hf'"
  proof -
    have "dom (hf_nodes hf') = dom (hf_nodes hf)" "dom (map_option (swap_links a b) \<circ> hf_rels hf) = dom (hf_rels hf)" by (auto simp: E(2))
    then show ?thesis using h E(3,4) by (simp add: hf_abs_def hf_counts_def card_dom_swapped hf_frame_def)
  qed
  ultimately have "hf_abs hf' ?G" by (simp add: hf_abs_def fun_eq_iff)
  moreover have "rels_renamed ?p G ?G" by (simp add: rels_renamed_def bij_swap_id)
  ultimately show ?thesis by blast
qed

lemma rel_slot:
  assumes h: "hf_abs hf G" and i: "map_of (g_edges G) i \<noteq> None"
  shows "i < 256 * rec_pages hf False" "i mod 4 = 0"
proof -
  have i: "hf_rels hf i \<noteq> None" using hf_abs_rel [OF h, of i] i by auto
  then show "i < 256 * rec_pages hf False" using hf_dom(2) [OF hf_abs_inv [OF h]] by blast
  show "i mod 4 = 0" using rec_used_record(3) [OF hf_abs_inv [OF h], of False i] i by (simp add: used_maps)
qed

lemma swap_relationships_ok:
  assumes h: "hf_abs hf G" and ab: "a < 256 * rec_pages hf False" "b < 256 * rec_pages hf False" "a mod 4 = 0" "b mod 4 = 0"
  shows "\<exists>hf' G'. swap_relationships hf a b log = Some hf' \<and> hf_abs hf' G' \<and> rels_renamed (swap_id a b) G G' \<and> rec_pages hf' = rec_pages hf"
proof -
  have inv: "hf_inv hf" and g: "hf_graph hf (chain_at (g_edges G))" using h by (simp_all add: hf_abs_def hf_graph_def)
  have u: "a < UNINITIALIZED_LONG" "b < UNINITIALIZED_LONG" "\<not> bad_slot hf False a" "\<not> bad_slot hf False b"
    using good_slot [OF inv, of a False] good_slot [OF inv, of b False] ab by simp_all
  show ?thesis
  proof (cases "a = b \<or> (hf_rels hf a = None \<and> hf_rels hf b = None)")
    case True
    obtain hf1 hf2 where c: "check_record_exists hf a False log = Some (rec_used (hf_cache hf) False a, hf1)"
      "check_record_exists hf1 b False log = Some (rec_used (hf_cache hf) False b, hf2)" "hf_same hf hf2"
      using check_both [OF inv, of a False b log] ab by auto
    have "swap_id a b i = i" if "(i, e) \<in> set (g_edges G)" for i e
      using True hf_abs_rel [OF h, of i] map_of_eq_None_iff [of "g_edges G" i] that by (cases "i = a \<or> i = b") (force simp: swap_id_other)+
    then have "rels_renamed (swap_id a b) G G" by (auto simp: rels_renamed_def bij_swap_id intro!: map_idI [symmetric])
    moreover have "swap_relationships hf a b log = Some hf2" using c(1,2) True u(3,4) by (auto simp: swap_relationships_def used_maps)
    ultimately show ?thesis using hf_abs_same [OF h c(3)] hf_same_slots(1) [OF c(3)] by blast
  next
    case False
    then obtain hf' where s: "swap_relationships hf a b log = Some hf'"
      "hf_eff (map_option (swap_first a b) \<circ> hf_nodes hf) (swapped put_rel a b (map_option (swap_links a b) \<circ> hf_rels hf)) hf hf'"
      using swap_relationships_maps [OF g _ ab, of log] by blast
    then show ?thesis using swap_rels_abs [OF h u(1,2) s(2)] hf_same_pages [OF hf_effD(4) [OF s(2)]] by blast
  qed
qed

text \<open>
  C31: Swapping two slots of the relationship file gives the heap file of the same graph with the two ids exchanged, whichever of the
  slots are used; no link in the rings is lost, also if the two are neighbours or loops.
\<close>
theorem swap_relationships_renames:
  assumes "hf_abs hf G" "a < 256 * rec_pages hf False" "b < 256 * rec_pages hf False" "a mod 4 = 0" "b mod 4 = 0"
  shows "\<exists>hf' G'. swap_relationships hf a b log = Some hf' \<and> hf_abs hf' G' \<and> rels_renamed (swap_id a b) G G'"
  using swap_relationships_ok [OF assms] by blast

theorem swap_relationships_renames_witness:
  "\<exists>hf i hf' G'. hf_inv hf \<and> swap_relationships hf i (if i = 0 then 4 else 0) True = Some hf' \<and> hf_abs hf' G' \<and>
     map fst (g_edges G') = [if i = 0 then 4 else 0]"
proof -
  obtain hf G a b i where g: "hf_abs hf G" "g_edges G = [(i, a, b, 7, 1)]" by (rule pair_database)
  have i: "i < 256 * rec_pages hf False" "i mod 4 = 0" using rel_slot [OF g(1), of i] g(2) by simp_all
  let ?j = "if i = 0 then 4 else 0"
  have "?j < 256 * rec_pages hf False" using i(1) by (cases "rec_pages hf False") simp_all
  then obtain hf' G' where s: "swap_relationships hf i ?j True = Some hf'" "hf_abs hf' G'" "rels_renamed (swap_id i ?j) G G'"
    using swap_relationships_renames [OF g(1) i(1) _ i(2), of ?j True] by auto
  have e: "map fst (g_edges G') = [?j]" using s(3) g(2) by (simp add: rels_renamed_def)
  show ?thesis by (intro exI conjI, rule hf_abs_inv [OF g(1)], rule s(1), rule s(2), rule e)
qed

end
