(* ===== verification/Record_Reorder.thy ===== *)
theory Record_Reorder
  imports Record_Swap_Rels
begin

text \<open>
  Applying an order to the records, and random orders. The loop of \<^verbatim>\<open>reorder_nodes\<close> and \<^verbatim>\<open>reorder_relationships\<close> is verified
  once, in a locale over what a swap of records promises, and interpreted for both kinds of records.
\<close>

section \<open>Orders\<close>

text \<open>An order permutes the ids it mentions; all others stay.\<close>

definition is_order :: "(ulong \<rightharpoonup> ulong) \<Rightarrow> bool" where
  "is_order M \<longleftrightarrow> finite (dom M) \<and> ran M = dom M \<and> inj_on M (dom M)"

definition order_of :: "(ulong \<rightharpoonup> ulong) \<Rightarrow> ulong \<Rightarrow> ulong" where
  "order_of M v = (case M v of None \<Rightarrow> v | Some w \<Rightarrow> w)"

definition inverse_maps :: "(ulong \<rightharpoonup> ulong) \<Rightarrow> (ulong \<rightharpoonup> ulong) \<Rightarrow> bool" where
  "inverse_maps M I \<longleftrightarrow> (\<forall>v w. M v = Some w \<longleftrightarrow> I w = Some v) \<and> dom M = dom I"

lemma inverse_mapsD:
  assumes "inverse_maps M I"
  shows "M v = Some w \<longleftrightarrow> I w = Some v" "dom M = dom I" "M v = Some w \<Longrightarrow> M u = Some w \<Longrightarrow> u = v"
  using assms by (auto simp: inverse_maps_def)

lemma order_empty: "order_of Map.empty = id"
  by (simp add: order_of_def fun_eq_iff)

text \<open>What remains of an order after one record has moved from \<open>v\<close> to its place \<open>x\<close>.\<close>

definition after_swap :: "(ulong \<rightharpoonup> ulong) \<Rightarrow> ulong \<Rightarrow> ulong \<Rightarrow> (ulong \<rightharpoonup> ulong)" where
  "after_swap M v x = (if v = x then M(x := None) else M(x := None, v := M x))"

lemma after_swap_ok:
  assumes i: "inverse_maps M I" and x: "I x = Some v"
  shows "inverse_maps (after_swap M v x) (if v = x then I(x := None) else I(x := None, the (M x) \<mapsto> v))" "dom (after_swap M v x) = dom M - {x}"
    "order_of M = order_of (after_swap M v x) \<circ> swap_id v x" "M v = Some x" "x \<in> dom M" "v \<in> dom M"
proof -
  note d = inverse_mapsD [OF i]
  show Mv: "M v = Some x" using d(1) x by blast
  then show "v \<in> dom M" by blast
  show xd: "x \<in> dom M" using d(2) x by blast
  then obtain t where t: "M x = Some t" "I t = Some x" using d(1) by blast
  have tx: "v \<noteq> x \<Longrightarrow> t \<noteq> x" using t Mv x by auto
  show dm: "dom (after_swap M v x) = dom M - {x}" using t Mv by (auto simp: after_swap_def)
  show "order_of M = order_of (after_swap M v x) \<circ> swap_id v x"
  proof
    fix u
    consider "u = v" | "u \<noteq> v" "u = x" | "u \<noteq> v" "u \<noteq> x" by blast
    then show "order_of M u = (order_of (after_swap M v x) \<circ> swap_id v x) u"
      using Mv t(1) by cases (auto simp: order_of_def after_swap_def swap_id_other)
  qed
  show "inverse_maps (after_swap M v x) (if v = x then I(x := None) else I(x := None, the (M x) \<mapsto> v))"
    unfolding inverse_maps_def
  proof (intro conjI allI)
    show "dom (after_swap M v x) = dom (if v = x then I(x := None) else I(x := None, the (M x) \<mapsto> v))"
      using dm d(2) t tx by auto
    fix u w
    show "after_swap M v x u = Some w \<longleftrightarrow> (if v = x then I(x := None) else I(x := None, the (M x) \<mapsto> v)) w = Some u"
    proof (cases "v = x")
      case True
      then show ?thesis using d(1) [of u w] d(1) [of x w] d(1) [of u x] Mv x by (auto simp: after_swap_def)
    next
      case False
      consider "u = v" | "u = x" "u \<noteq> v" | "u \<noteq> x" "u \<noteq> v" by blast
      then show ?thesis
      proof cases
        case 1
        then show ?thesis using False d(1) [of v w] Mv t tx by (auto simp: after_swap_def)
      next
        case 2
        then show ?thesis using False d(1) [of x w] t by (auto simp: after_swap_def)
      next
        case 3
        then show ?thesis using False d(1) [of u w] d(1) [of u x] d(1) [of u t] t x by (auto simp: after_swap_def)
      qed
    qed
  qed
qed

section \<open>Dictionaries of orders\<close>

lemma for_each_map: "for_each f s (map g xs) = for_each (\<lambda>s x. f s (g x)) s xs"
  by (induction xs arbitrary: s) (auto split: Option.bind_splits)

lemma invert_ok:
  assumes inv: "ht_inv t" and o: "is_order (ht_map t)"
  obtains t' where "invert seed t = Some t'" "ht_inv t'" "inverse_maps (ht_map t) (ht_map t')"
proof -
  have ok: "ht_ok t" using inv by (simp add: ht_inv_def)
  let ?es = "ht_entries t"
  have es: "map_of ?es = ht_map t" "distinct (map fst ?es)" using entries_map [OF ok] entries_distinct [OF ok] by simp_all
  have drain: "ht_drain t (ht_iterator_create t) = ?es" by (rule ht_drain_entries [OF ok])
  obtain t' where t': "for_each (\<lambda>d (k, v). ht_insert d k v) (d_ul_ul_create seed) (map prod.swap ?es) = Some t'" "ht_inv t'"
    "ht_map t' = ht_map (d_ul_ul_create seed) ++ map_of (rev (map prod.swap ?es))"
    using htable.insert_all [OF d_ul_ul_create_ok(1)] by blast
  have mem: "ht_map t v = Some w \<longleftrightarrow> (v, w) \<in> set ?es" for v w using es map_of_eq_Some_iff by metis
  have "distinct (map snd ?es)"
  proof -
    have "inj_on snd (set ?es)"
    proof (rule inj_onI)
      fix p q assume pq: "p \<in> set ?es" "q \<in> set ?es" "snd p = snd q"
      then have "ht_map t (fst p) = ht_map t (fst q)" "fst p \<in> dom (ht_map t)" "fst q \<in> dom (ht_map t)"
        using mem [of "fst p" "snd p", unfolded prod.collapse] mem [of "fst q" "snd q", unfolded prod.collapse] by auto
      then have "fst p = fst q" using o by (auto simp: is_order_def dest: inj_onD)
      then show "p = q" using pq(3) by (simp add: prod_eq_iff)
    qed
    then show ?thesis using es(2) by (simp add: distinct_map)
  qed
  then have "map_of (rev (map prod.swap ?es)) w = Some v \<longleftrightarrow> (v, w) \<in> set ?es" for v w
    by (subst map_of_eq_Some_iff) (auto simp: comp_def rev_map [symmetric])
  then have "ht_map t v = Some w \<longleftrightarrow> ht_map t' w = Some v" for v w using mem by (simp add: t'(3) d_ul_ul_create_ok(2))
  moreover from this have "dom (ht_map t) = dom (ht_map t')" using o by (auto simp: is_order_def ran_def dom_def)
  ultimately show thesis
    using that [of t'] t'(1,2) for_each_map [of "\<lambda>d (k, v). ht_insert d k v" "d_ul_ul_create seed" prod.swap ?es]
    by (simp add: invert_def drain inverse_maps_def case_prod_unfold)
qed

lemma track_swap_ok:
  assumes inv: "ht_inv t" "ht_inv s" and i: "inverse_maps (ht_map t) (ht_map s)" and x: "ht_map s x = Some v"
  obtains t' s' where "track_swap asserts v x t s = Some (t', s')" "ht_inv t'" "ht_inv s'" "ht_map t' = after_swap (ht_map t) v x"
    "inverse_maps (ht_map t') (ht_map s')"
proof -
  note a = after_swap_ok [OF i x]
  obtain t1 where t1: "ht_remove t v = Some t1" "ht_inv t1" "ht_map t1 = (ht_map t)(v := None)" using htable.remove_law [OF inv(1) a(6)] by blast
  have "x \<in> dom (ht_map s)" using x by blast
  then obtain s1 where s1: "ht_remove s x = Some s1" "ht_inv s1" "ht_map s1 = (ht_map s)(x := None)" using htable.remove_law [OF inv(2)] by blast
  show thesis
  proof (cases "v = x")
    case True
    then show thesis
      by (intro that [of t1 s1]) (use t1 s1 a(1) in \<open>simp_all add: track_swap_def after_swap_def\<close>)
  next
    case False
    obtain y where y: "ht_map t x = Some y" "ht_map s y = Some x" using a(5) inverse_mapsD(1) [OF i] by blast
    have "y \<noteq> x" using y(2) x False by auto
    have "x \<in> dom (ht_map t1)" "y \<in> dom (ht_map s1)" using t1(3) s1(3) y False \<open>y \<noteq> x\<close> by auto
    then obtain t2 s2 where 2: "ht_remove t1 x = Some t2" "ht_inv t2" "ht_map t2 = (ht_map t1)(x := None)"
      "ht_remove s1 y = Some s2" "ht_inv s2" "ht_map s2 = (ht_map s1)(y := None)"
      using htable.remove_law [OF t1(2)] htable.remove_law [OF s1(2)] by blast
    obtain t3 s3 where 3: "ht_insert t2 v y = Some t3" "ht_inv t3" "ht_map t3 = (ht_map t2)(v \<mapsto> y)"
      "ht_insert s2 y v = Some s3" "ht_inv s3" "ht_map s3 = (ht_map s2)(y \<mapsto> v)"
      using htable.insert_law [OF 2(2)] htable.insert_law [OF 2(5)] by blast
    have m: "ht_map t3 = after_swap (ht_map t) v x" "ht_map s3 = (ht_map s)(x := None, the (ht_map t x) \<mapsto> v)"
      using False y(1) by (simp_all add: 3(3,6) 2(3,6) t1(3) s1(3) after_swap_def fun_upd_twist)
    have i3: "inverse_maps (ht_map t3) (ht_map s3)" using a(1) False m by simp
    then have "ht_size t3 = ht_size s3" using ht_size_eq [OF 3(2)] ht_size_eq [OF 3(5)] inverse_mapsD(2) by metis
    moreover have "ht_get_direct t1 x = Some y" using ht_get_direct_eq [OF t1(2)] t1(3) y(1) False by simp
    ultimately show thesis
      by (intro that [of t3 s3]) (use t1(1) s1(1) 2(1,4) 3 False m i3 in \<open>simp_all add: track_swap_def\<close>)
  qed
qed

section \<open>The slots that the loop visits\<close>

definition next_pos :: "nat \<Rightarrow> nat \<times> nat \<Rightarrow> nat \<times> nat" where
  "next_pos n = (\<lambda>(page, slot). if slot + n \<ge> UCHAR_MAX then (page + 1, 0) else (page, slot + n))"

definition visited :: "nat \<Rightarrow> nat \<Rightarrow> ulong" where
  "visited n j = (case (next_pos n ^^ j) (0, 0) of (page, slot) \<Rightarrow> slot_id page slot)"

text \<open>Nodes take one slot, and the last slot of every page is left out.\<close>

lemma node_positions: "(next_pos 1 ^^ j) (0, 0) = (j div 255, j mod 255)"
proof (induction j)
  case (Suc j)
  show ?case
  proof (cases "j mod 255 = 254")
    case True
    then show ?thesis using Suc div_Suc [of j 255] mod_Suc [of j 255] by (simp add: next_pos_def UCHAR_MAX_def)
  next
    case False
    moreover have "j mod 255 < 255" by simp
    ultimately have "j mod 255 + 1 < 255" by linarith
    then show ?thesis using Suc div_Suc [of j 255] mod_Suc [of j 255] by (simp add: next_pos_def UCHAR_MAX_def)
  qed
qed simp

text \<open>Relationships take four slots, and all of them are visited.\<close>

lemma rel_positions: "(next_pos 4 ^^ j) (0, 0) = (j div 64, 4 * (j mod 64))"
proof (induction j)
  case (Suc j)
  show ?case
  proof (cases "j mod 64 = 63")
    case True
    then show ?thesis using Suc div_Suc [of j 64] mod_Suc [of j 64] by (simp add: next_pos_def UCHAR_MAX_def)
  next
    case False
    moreover have "j mod 64 < 64" by simp
    ultimately have "j mod 64 + 1 < 64" by linarith
    then show ?thesis using Suc div_Suc [of j 64] mod_Suc [of j 64] by (simp add: next_pos_def UCHAR_MAX_def)
  qed
qed simp

lemma visited_node:
  assumes "i mod 256 \<noteq> 255" "i < ULONG_RANGE"
  shows "visited 1 (255 * (i div 256) + i mod 256) = i"
proof -
  have "i mod 256 < 256" by simp
  then have "i mod 256 < 255" using assms(1) by linarith
  then show ?thesis unfolding visited_def node_positions using slot_id_eq [OF assms(2)] by simp
qed

lemma visited_rel:
  assumes "i mod 4 = 0" "i < ULONG_RANGE"
  shows "visited 4 (i div 4) = i"
proof -
  have "4 * (i div 4 mod 64) = i mod 256" using mod_mult2_eq [of i 4 64] unfolding assms(1) by simp
  moreover have "i div 4 div 64 = i div 256" by (simp add: div_mult2_eq [symmetric])
  ultimately show ?thesis unfolding visited_def rel_positions using slot_id_eq [OF assms(2)] by simp
qed

lemma visited_not_last: "visited 1 j mod 256 \<noteq> 255"
proof -
  have "take_bit 8 (slot_id p x) = take_bit 8 x" for p x
    unfolding slot_id_def CHAR_BIT_def ULONG_RANGE_def take_bit_eq_mod [of 64, symmetric] by (rule bit_eqI) (auto simp: bit_simps)
  then have "slot_id p x mod 256 = x mod 256" for p x by (simp add: take_bit_eq_mod)
  moreover have "j mod 255 < 255" by simp
  ultimately show ?thesis unfolding visited_def node_positions by simp
qed

lemma visited_rest: "visited n ` {j..<j + Suc k} - {visited n j} \<subseteq> visited n ` {Suc j..<Suc j + k}"
proof
  fix v assume "v \<in> visited n ` {j..<j + Suc k} - {visited n j}"
  then obtain l where "v = visited n l" "j \<le> l" "l < j + Suc k" "l \<noteq> j" by fastforce
  then show "v \<in> visited n ` {Suc j..<Suc j + k}" by auto
qed

section \<open>The loop\<close>

text \<open>One round: the record that belongs into the slot \<open>x\<close>, if there is one, is moved there.\<close>

definition round_at ::
    "(heap_file \<Rightarrow> ulong \<Rightarrow> ulong \<Rightarrow> bool \<Rightarrow> heap_file option) \<Rightarrow> bool \<Rightarrow> bool \<Rightarrow> ulong \<Rightarrow> heap_file \<Rightarrow> dict_ul_ul \<Rightarrow> dict_ul_ul \<Rightarrow> (dict_ul_ul \<times> dict_ul_ul \<times> heap_file) option" where
  "round_at swap asserts log x hf t s = (case ht_map s x of None \<Rightarrow> Some (t, s, hf)
     | Some v \<Rightarrow> do { hf \<leftarrow> swap hf v x log; (t, s) \<leftarrow> track_swap asserts v x t s; Some (t, s, hf) })"

lemma loop_round:
  assumes "ht_inv s"
  shows "reorder_loop swap asserts n log (Suc k) page slot hf t s = do {
     (t, s, hf) \<leftarrow> round_at swap asserts log (slot_id page slot) hf t s;
     if ht_size t = 0 then Some (t, hf)
     else (case next_pos n (page, slot) of (page, slot) \<Rightarrow> reorder_loop swap asserts n log k page slot hf t s) }"
  by (simp add: round_at_def next_pos_def Let_def htable.get_law [OF assms] if_distrib [of "case_prod _"] cong: if_cong option.case_cong)

locale record_swap =
  fixes swap :: "heap_file \<Rightarrow> ulong \<Rightarrow> ulong \<Rightarrow> bool \<Rightarrow> heap_file option"
    and ids :: "pgraph \<Rightarrow> ulong set"
    and renamed :: "(ulong \<Rightarrow> ulong) \<Rightarrow> pgraph \<Rightarrow> pgraph \<Rightarrow> bool"
  assumes swap_law: "hf_abs hf G \<Longrightarrow> a \<in> ids G \<Longrightarrow> b \<in> ids G \<Longrightarrow>
      \<exists>hf' G'. swap hf a b log = Some hf' \<and> hf_abs hf' G' \<and> renamed (swap_id a b) G G'"
    and ids_law: "renamed p G G' \<Longrightarrow> ids G' = p ` ids G"
    and id_law: "p = id \<Longrightarrow> renamed p G G"
    and comp_law: "renamed p G H \<Longrightarrow> renamed q H K \<Longrightarrow> renamed (q \<circ> p) G K"
begin

lemma swap_round_ok:
  assumes h: "hf_abs hf G" and inv: "ht_inv t" "ht_inv s" "inverse_maps (ht_map t) (ht_map s)" and sub: "dom (ht_map t) \<subseteq> ids G"
  obtains t1 s1 hf1 G1 p where "round_at swap asserts log x hf t s = Some (t1, s1, hf1)" "hf_abs hf1 G1" "ht_inv t1" "ht_inv s1"
    "inverse_maps (ht_map t1) (ht_map s1)" "dom (ht_map t1) = dom (ht_map t) - {x}" "dom (ht_map t1) \<subseteq> ids G1" "renamed p G G1"
    "order_of (ht_map t) = order_of (ht_map t1) \<circ> p"
proof (cases "ht_map s x")
  case None
  then have "x \<notin> dom (ht_map t)" using inverse_mapsD(2) [OF inv(3)] by auto
  then show thesis using None assms id_law [OF refl, of G] by (intro that [of t s hf G id]) (simp_all add: round_at_def)
next
  case (Some v)
  note a = after_swap_ok [OF inv(3) Some]
  obtain hf1 G1 where sw: "swap hf v x log = Some hf1" "hf_abs hf1 G1" "renamed (swap_id v x) G G1"
    using swap_law [OF h, of v x log] a(5,6) sub by blast
  obtain t1 s1 where tr: "track_swap asserts v x t s = Some (t1, s1)" "ht_inv t1" "ht_inv s1" "ht_map t1 = after_swap (ht_map t) v x"
    "inverse_maps (ht_map t1) (ht_map s1)" by (rule track_swap_ok [OF inv Some])
  have "ids G1 = ids G" using ids_law [OF sw(3)] a(5,6) sub by (auto simp: swap_id_def image_iff)
  then have "dom (ht_map t1) = dom (ht_map t) - {x}" "dom (ht_map t1) \<subseteq> ids G1" "order_of (ht_map t) = order_of (ht_map t1) \<circ> swap_id v x"
    using a(2,3) sub unfolding tr(4) by blast+
  then show thesis using that [OF _ sw(2) tr(2,3,5) _ _ sw(3)] Some sw(1) tr(1) by (simp add: round_at_def)
qed

lemma swap_loop_ok:
  assumes "hf_abs hf G" "ht_inv t" "ht_inv s" "inverse_maps (ht_map t) (ht_map s)" "dom (ht_map t) \<subseteq> ids G"
    "dom (ht_map t) \<subseteq> visited n ` {j..<j + k}" "(next_pos n ^^ j) (0, 0) = (page, slot)"
  shows "\<exists>t' hf' G'. reorder_loop swap asserts n log k page slot hf t s = Some (t', hf') \<and> hf_abs hf' G' \<and>
    renamed (order_of (ht_map t)) G G'"
  using assms
proof (induction k arbitrary: j page slot hf t s G)
  case 0
  then have "order_of (ht_map t) = id" by (simp add: order_empty)
  then have "renamed (order_of (ht_map t)) G G" by (rule id_law)
  then show ?case using 0(1) by (intro exI [of _ t] exI [of _ hf] exI [of _ G]) simp
next
  case (Suc k)
  let ?x = "slot_id page slot"
  have x: "visited n j = ?x" using Suc.prems(7) by (simp add: visited_def)
  obtain page' slot' where nx: "next_pos n (page, slot) = (page', slot')" by (cases "next_pos n (page, slot)")
  then have nx': "(next_pos n ^^ Suc j) (0, 0) = (page', slot')" using Suc.prems(7) by simp
  obtain t1 s1 hf1 G1 p where 1: "round_at swap asserts log ?x hf t s = Some (t1, s1, hf1)" "hf_abs hf1 G1" "ht_inv t1" "ht_inv s1"
    "inverse_maps (ht_map t1) (ht_map s1)" "dom (ht_map t1) = dom (ht_map t) - {?x}" "dom (ht_map t1) \<subseteq> ids G1" "renamed p G G1"
    "order_of (ht_map t) = order_of (ht_map t1) \<circ> p" by (rule swap_round_ok [OF Suc.prems(1-5)])
  note step = loop_round [OF Suc.prems(3), of swap asserts n log k page slot hf t, unfolded 1(1) nx]
  show ?case
  proof (cases "ht_size t1 = 0")
    case True
    have "finite (dom (ht_map t1))" using finite_subset [OF Suc.prems(6)] 1(6) by simp
    then have "ht_map t1 = Map.empty" using True ht_size_eq [OF 1(3)] by simp
    then have "order_of (ht_map t) = p" using 1(9) by (simp add: order_empty)
    then show ?thesis using True step 1(2,8) by (intro exI [of _ t1] exI [of _ hf1] exI [of _ G1]) simp
  next
    case False
    have "dom (ht_map t1) \<subseteq> visited n ` {Suc j..<Suc j + k}"
      unfolding 1(6) x [symmetric] using Suc.prems(6) visited_rest [of n j k] by auto
    from Suc.IH [OF 1(2-5,7) this nx'] obtain t2 hf2 G2 where 2: "reorder_loop swap asserts n log k page' slot' hf1 t1 s1 = Some (t2, hf2)" "hf_abs hf2 G2"
      "renamed (order_of (ht_map t1)) G1 G2" by blast
    have "renamed (order_of (ht_map t)) G G2" unfolding 1(9) by (rule comp_law [OF 1(8) 2(3)])
    moreover have "reorder_loop swap asserts n log (Suc k) page slot hf t s = Some (t2, hf2)" unfolding step using False 2(1) by simp
    ultimately show ?thesis using 2(2) by blast
  qed
qed

end

interpretation node_swap: record_swap swap_nodes "\<lambda>G. dom (g_labels G)" nodes_renamed
proof
  fix hf G a b log assume h: "hf_abs hf G" and a: "a \<in> dom (g_labels G)" and b: "b \<in> dom (g_labels G)"
  then show "\<exists>hf' G'. swap_nodes hf a b log = Some hf' \<and> hf_abs hf' G' \<and> nodes_renamed (swap_id a b) G G'"
    using swap_nodes_ok [OF h node_slot [OF h], of a b log] by blast
next
  fix p G G' assume "nodes_renamed p G G'"
  then have p: "bij p" "\<And>n. g_labels G' (p n) = g_labels G n" by (auto simp: nodes_renamed_def fun_eq_iff)
  show "dom (g_labels G') = p ` dom (g_labels G)"
  proof (intro set_eqI iffI)
    fix n assume "n \<in> dom (g_labels G')"
    moreover obtain m where "n = p m" using p(1) by (metis bij_pointE)
    ultimately show "n \<in> p ` dom (g_labels G)" using p(2) [of m] by (auto simp: domIff intro!: image_eqI [of _ _ m])
  qed (use p(2) in auto)
qed (rule nodes_renamed_id, assumption, rule nodes_renamed_comp)

interpretation rel_swap: record_swap swap_relationships "\<lambda>G. fst ` set (g_edges G)" rels_renamed
proof
  fix hf G a b log assume h: "hf_abs hf G" and a: "a \<in> fst ` set (g_edges G)" and b: "b \<in> fst ` set (g_edges G)"
  then have "map_of (g_edges G) a \<noteq> None" "map_of (g_edges G) b \<noteq> None" by (simp_all add: map_of_eq_None_iff)
  then show "\<exists>hf' G'. swap_relationships hf a b log = Some hf' \<and> hf_abs hf' G' \<and> rels_renamed (swap_id a b) G G'"
    using swap_relationships_ok [OF h] rel_slot [OF h] by metis
next
  fix p G G' assume "rels_renamed p G G'"
  then show "fst ` set (g_edges G') = p ` fst ` set (g_edges G)" by (simp add: rels_renamed_def image_image case_prod_unfold)
qed (rule rels_renamed_id, assumption, rule rels_renamed_comp)

section \<open>Reordering renames the records\<close>

text \<open>Databases and orders to try this on: two nodes in the first two slots, two relationships in the first ones.\<close>

lemma packed_pair:
  obtains hf G where "hf_abs hf G" "g_labels G = [0 \<mapsto> 5, 1 \<mapsto> 6]"
proof -
  obtain hf G a b i where g: "hf_abs hf G" "a \<noteq> b" "g_labels G = [a \<mapsto> 5, b \<mapsto> 6]" by (rule pair_database)
  have lab: "g_labels G2 n = g_labels G1 (swap_id c d n)" if "nodes_renamed (swap_id c d) G1 G2" for c d G1 G2 n
    using that by (auto simp: nodes_renamed_def fun_eq_iff) (metis swap_id_swap_id)
  have a: "a < 256 * rec_pages hf True" by (rule node_slot [OF g(1)]) (use g(3) in simp)
  then have p: "0 < rec_pages hf True" by (cases "rec_pages hf True") simp_all
  have "g_labels G a \<noteq> None" using g(3) by simp
  then obtain hf1 G1 where 1: "hf_abs hf1 G1" "nodes_renamed (swap_id 0 a) G G1" "rec_pages hf1 = rec_pages hf"
    using swap_nodes_ok [OF g(1), of 0 a True] p by auto
  let ?b = "swap_id 0 a b"
  have b: "?b \<noteq> 0" "g_labels G1 ?b = Some 6" using g(2,3) by (auto simp: swap_id_def lab [OF 1(2)])
  obtain hf2 G2 where 2: "hf_abs hf2 G2" "nodes_renamed (swap_id 1 ?b) G1 G2"
    using swap_nodes_ok [OF 1(1), of 1 ?b True] p b(2) 1(3) by auto
  have "g_labels G2 = [0 \<mapsto> 5, 1 \<mapsto> 6]"
  proof
    fix n
    have "g_labels G2 n = g_labels G (swap_id 0 a (swap_id 1 ?b n))" by (simp add: lab [OF 2(2)] lab [OF 1(2)])
    moreover have "swap_id 0 a (swap_id 1 ?b n) = x \<longleftrightarrow> n = swap_id 1 ?b (swap_id 0 a x)" for x by (metis swap_id_swap_id)
    then have "swap_id 0 a (swap_id 1 ?b n) = a \<longleftrightarrow> n = 0" "swap_id 0 a (swap_id 1 ?b n) = b \<longleftrightarrow> n = 1"
      using b(1) swap_id_other [of 0 1 ?b] by simp_all
    ultimately show "g_labels G2 n = [0 \<mapsto> 5, 1 \<mapsto> 6] n" using g(2,3) by auto
  qed
  then show thesis using that 2(1) by blast
qed

lemma packed_rels:
  obtains hf G where "hf_abs hf G" "map fst (g_edges G) = [0, 4]"
proof -
  obtain hf G a i where g: "heap_rep 3 hf hf G" "g_labels G = [a \<mapsto> 5]" "g_edges G = [(i, a, a, 7, 1)]" by (rule loop_database)
  have h: "hf_abs hf G" "hf_room (Suc 2) hf" using g(1) by (simp_all add: heap_rep_def numeral_3_eq_3)
  obtain j hf1 where 1: "map_of (g_edges G) j = None" "hf_abs hf1 (G\<lparr>g_edges := g_edges G @ [(j, a, a, 7, 1)]\<rparr>)"
    using create_relationship_step [OF h, of a a 7 1 True] g(2) by (auto simp: ULONG_RANGE_def double_eq_def UNINITIALIZED_WEIGHT_def)
  define G1 where "G1 = G\<lparr>g_edges := g_edges G @ [(j, a, a, 7, 1)]\<rparr>"
  have ids: "map fst (g_edges G2) = map (swap_id c d) (map fst (g_edges G1))" if "rels_renamed (swap_id c d) G1 G2" for c d G1 G2
    using that by (simp add: rels_renamed_def comp_def case_prod_unfold)
  have ij: "map fst (g_edges G1) = [i, j]" "i \<noteq> j" "hf_abs hf1 G1" using 1 g(3) by (auto simp: G1_def)
  have i: "i < 256 * rec_pages hf1 False" "i mod 4 = 0" using rel_slot [OF ij(3), of i] g(3) by (simp_all add: G1_def)
  then have p: "0 < rec_pages hf1 False" by (cases "rec_pages hf1 False") simp_all
  obtain hf2 G2 where 2: "hf_abs hf2 G2" "rels_renamed (swap_id i 0) G1 G2" "rec_pages hf2 = rec_pages hf1"
    using swap_relationships_ok [OF ij(3) i(1), of 0 True] p i(2) by auto
  let ?j = "swap_id i 0 j"
  have e2: "map fst (g_edges G2) = [0, ?j]" "?j \<noteq> 0" using ids [OF 2(2)] ij(1,2) by (auto simp: swap_id_eq_iff)
  have "?j \<in> fst ` set (g_edges G2)" using arg_cong [OF e2(1), of set] by simp
  then have j: "?j < 256 * rec_pages hf2 False" "?j mod 4 = 0" using rel_slot [OF 2(1), of ?j] by (simp_all add: map_of_eq_None_iff)
  obtain hf3 G3 where 3: "hf_abs hf3 G3" "rels_renamed (swap_id ?j 4) G2 G3"
    using swap_relationships_ok [OF 2(1) j(1), of 4 True] p j(2) 2(3) by auto
  have "map fst (g_edges G3) = [0, 4]" using ids [OF 3(2)] e2 by (simp add: swap_id_other)
  then show thesis by (rule that [OF 3(1)])
qed

lemma swap_order:
  assumes "a \<noteq> b"
  obtains t :: dict_ul_ul where "ht_inv t" "ht_map t = [a \<mapsto> b, b \<mapsto> a]" "is_order (ht_map t)" "order_of (ht_map t) = swap_id a b"
proof -
  obtain t1 :: dict_ul_ul where t1: "ht_insert (d_ul_ul_create 0) a b = Some t1" "ht_inv t1" "ht_map t1 = [a \<mapsto> b]"
    using htable.insert_law [OF d_ul_ul_create_ok(1), of 0 a b] by (auto simp: d_ul_ul_create_ok(2))
  obtain t where t: "ht_inv t" "ht_map t = [a \<mapsto> b, b \<mapsto> a]" using htable.insert_law [OF t1(2), of b a] t1(3) by auto
  have "is_order (ht_map t)" unfolding t(2) is_order_def using assms by (auto simp: ran_def inj_on_def split: if_splits)
  moreover have "order_of (ht_map t) = swap_id a b" using assms by (auto simp: fun_eq_iff order_of_def t(2) swap_id_def)
  ultimately show thesis using that t by blast
qed

text \<open>
  C32: Applying an order to the nodes gives the heap file of the graph renamed by that order, if it permutes nodes of the graph that the loop gets to: it looks at
  as many slots as there are nodes, and at all of a page but the last one.
\<close>
theorem reorder_nodes_renames:
  assumes h: "hf_abs hf G" and t: "ht_inv t" "is_order (ht_map t)" "dom (ht_map t) \<subseteq> dom (g_labels G)"
    and pos: "\<And>i. i \<in> dom (ht_map t) \<Longrightarrow> i mod 256 \<noteq> 255 \<and> 255 * (i div 256) + i mod 256 < unat (hf_n_nodes hf)"
  shows "\<exists>t' hf' G'. reorder_nodes seed hf t log = Some (t', hf') \<and> hf_abs hf' G' \<and> nodes_renamed (order_of (ht_map t)) G G'"
proof -
  obtain s where s: "invert seed t = Some s" "ht_inv s" "inverse_maps (ht_map t) (ht_map s)" by (rule invert_ok [OF t(1,2)])
  have "dom (ht_map t) \<subseteq> visited 1 ` {0..<0 + unat (hf_n_nodes hf)}"
  proof
    fix i assume i: "i \<in> dom (ht_map t)"
    then have "i < UNINITIALIZED_LONG" using t(3) abs_ends_ok [OF h] unfolding ends_ok_def by blast
    then have "i < ULONG_RANGE" by (simp add: UNINITIALIZED_LONG_def ULONG_RANGE_def)
    then show "i \<in> visited 1 ` {0..<0 + unat (hf_n_nodes hf)}" using visited_node [of i] pos [OF i] by (metis add_0 atLeastLessThan_iff image_eqI le0)
  qed
  from node_swap.swap_loop_ok [OF h t(1) s(2,3) t(3) this, of 0 0 False log] show ?thesis using s(1) by (simp add: reorder_nodes_def slots_eq)
qed

theorem reorder_nodes_renames_witness:
  "\<exists>hf G t t' hf' G'. hf_abs hf G \<and> g_labels G = [0 \<mapsto> 5, 1 \<mapsto> 6] \<and> ht_map t = [0 \<mapsto> 1, 1 \<mapsto> 0] \<and>
     reorder_nodes 0 hf t True = Some (t', hf') \<and> hf_abs hf' G' \<and> g_labels G' 0 = Some 6 \<and> g_labels G' 1 = Some 5"
proof -
  obtain hf G where g: "hf_abs hf G" "g_labels G = [0 \<mapsto> 5, 1 \<mapsto> 6]" by (rule packed_pair)
  obtain t where t: "ht_inv t" "ht_map t = [0 \<mapsto> 1, 1 \<mapsto> 0]" "is_order (ht_map t)" "order_of (ht_map t) = swap_id 0 1" by (rule swap_order [of 0 1]) simp
  have "dom (hf_nodes hf) = {0, 1}" using hf_abs_node [OF g(1)] g(2) by (auto simp: dom_def split: if_splits)
  then have n: "unat (hf_n_nodes hf) = 2" using g(1) by (simp add: hf_abs_def hf_counts_def)
  have pos: "i mod 256 \<noteq> 255 \<and> 255 * (i div 256) + i mod 256 < unat (hf_n_nodes hf)" if "i \<in> dom (ht_map t)" for i
    using that t(2) n by (auto split: if_splits)
  obtain t' hf' G' where r: "reorder_nodes 0 hf t True = Some (t', hf')" "hf_abs hf' G'" "nodes_renamed (swap_id 0 1) G G'"
    using reorder_nodes_renames [OF g(1) t(1,3) _ pos, of 0 True] t(2,4) g(2) by auto
  have "g_labels G' (swap_id 0 1 i) = g_labels G i" for i using r(3) by (simp add: nodes_renamed_def fun_eq_iff)
  from this [of 0] this [of 1] have "g_labels G' 0 = Some 6" "g_labels G' 1 = Some 5" using g(2) by simp_all
  then show ?thesis using g t(2) r(1,2) by blast
qed

text \<open>
  The last slot of every page is never looked at by \<^verbatim>\<open>reorder_nodes\<close>: an order on nodes in such slots has no effect at all, however many nodes there are.
\<close>
theorem reorder_nodes_skips_last_slots:
  assumes t: "ht_inv t" "is_order (ht_map t)" and last: "\<And>i. i \<in> dom (ht_map t) \<Longrightarrow> i mod 256 = 255"
  shows "reorder_nodes seed hf t log = Some (t, hf)"
proof -
  obtain s where s: "invert seed t = Some s" "ht_inv s" "inverse_maps (ht_map t) (ht_map s)" by (rule invert_ok [OF t])
  have miss: "ht_get s (visited 1 j) = Some None" for j
    using visited_not_last [of j] last inverse_mapsD(2) [OF s(3)] htable.get_law [OF s(2), of "visited 1 j"] by (cases "ht_map s (visited 1 j)") auto
  have "(next_pos 1 ^^ j) (0, 0) = (page, slot) \<Longrightarrow> reorder_loop swap_nodes False 1 log k page slot hf t s = Some (t, hf)" for j k page slot
  proof (induction k arbitrary: j page slot)
    case (Suc k)
    have x: "slot_id page slot = visited 1 j" using Suc.prems by (simp add: visited_def)
    have "(next_pos 1 ^^ Suc j) (0, 0) = (if slot + 1 \<ge> UCHAR_MAX then (page + 1, 0) else (page, slot + 1))" using Suc.prems by (simp add: next_pos_def)
    then show ?case using Suc.IH [of "Suc j"] miss [of j] by (auto simp: Let_def x)
  qed simp
  from this [of 0 0 0] show ?thesis using s(1) by (simp add: reorder_nodes_def slots_eq)
qed

theorem reorder_nodes_skips_last_slots_witness:
  "\<exists>hf t. hf_inv hf \<and> ht_map t = [255 \<mapsto> 511, 511 \<mapsto> 255] \<and> reorder_nodes 0 hf t True = Some (t, hf)"
proof -
  obtain hf G where g: "hf_abs hf G" by (rule packed_pair)
  obtain t where t: "ht_inv t" "ht_map t = [255 \<mapsto> 511, 511 \<mapsto> 255]" "is_order (ht_map t)" by (rule swap_order [of 255 511]) simp
  have "reorder_nodes 0 hf t True = Some (t, hf)" by (rule reorder_nodes_skips_last_slots [OF t(1,3)]) (use t(2) in \<open>auto split: if_splits\<close>)
  then show ?thesis using hf_abs_inv [OF g] t(2) by blast
qed

text \<open>
  C33: Applying an order to the relationships gives the heap file of the graph with the ids of its relationships renamed by that order, if it permutes relationships
  in the first slots, as many as there are.
\<close>
theorem reorder_relationships_renames:
  assumes h: "hf_abs hf G" and t: "ht_inv t" "is_order (ht_map t)" "dom (ht_map t) \<subseteq> fst ` set (g_edges G)"
    and pos: "\<And>i. i \<in> dom (ht_map t) \<Longrightarrow> i div 4 < unat (hf_n_rels hf)"
  shows "\<exists>t' hf' G'. reorder_relationships seed hf t log = Some (t', hf') \<and> hf_abs hf' G' \<and> rels_renamed (order_of (ht_map t)) G G'"
proof -
  obtain s where s: "invert seed t = Some s" "ht_inv s" "inverse_maps (ht_map t) (ht_map s)" by (rule invert_ok [OF t(1,2)])
  have "dom (ht_map t) \<subseteq> visited 4 ` {0..<0 + unat (hf_n_rels hf)}"
  proof
    fix i assume i: "i \<in> dom (ht_map t)"
    then have "map_of (g_edges G) i \<noteq> None" using t(3) by (auto simp: map_of_eq_None_iff)
    then have "i mod 4 = 0" "i < ULONG_RANGE"
      using rel_slot [OF h, of i] rec_pages_bound [OF hf_abs_inv [OF h], of False] by (simp_all add: UNINITIALIZED_LONG_def ULONG_RANGE_def)
    then show "i \<in> visited 4 ` {0..<0 + unat (hf_n_rels hf)}" using visited_rel [of i] pos [OF i] by (metis add_0 atLeastLessThan_iff image_eqI le0)
  qed
  from rel_swap.swap_loop_ok [OF h t(1) s(2,3) t(3) this, of 0 0 True log] show ?thesis using s(1) by (simp add: reorder_relationships_def slots_eq)
qed

theorem reorder_relationships_renames_witness:
  "\<exists>hf G t t' hf' G'. hf_abs hf G \<and> map fst (g_edges G) = [0, 4] \<and> ht_map t = [0 \<mapsto> 4, 4 \<mapsto> 0] \<and>
     reorder_relationships 0 hf t True = Some (t', hf') \<and> hf_abs hf' G' \<and> map fst (g_edges G') = [4, 0]"
proof -
  obtain hf G where g: "hf_abs hf G" "map fst (g_edges G) = [0, 4]" by (rule packed_rels)
  obtain t where t: "ht_inv t" "ht_map t = [0 \<mapsto> 4, 4 \<mapsto> 0]" "is_order (ht_map t)" "order_of (ht_map t) = swap_id 0 4" by (rule swap_order [of 0 4]) simp
  have ids: "fst ` set (g_edges G) = {0, 4}" using arg_cong [OF g(2), of set] by simp
  have "map_of (g_edges G) i = None \<longleftrightarrow> hf_rels hf i = None" for i using hf_abs_rel [OF g(1), of i, symmetric] by simp
  then have "hf_rels hf i = None \<longleftrightarrow> i \<notin> {0, 4}" for i using map_of_eq_None_iff [of "g_edges G" i] ids by metis
  then have "dom (hf_rels hf) = {0, 4}" unfolding dom_def by (simp only: not_not Collect_mem_eq)
  then have n: "unat (hf_n_rels hf) = 2" using g(1) by (simp add: hf_abs_def hf_counts_def)
  have pos: "i div 4 < unat (hf_n_rels hf)" if "i \<in> dom (ht_map t)" for i using that t(2) n by (auto split: if_splits)
  obtain t' hf' G' where r: "reorder_relationships 0 hf t True = Some (t', hf')" "hf_abs hf' G'" "rels_renamed (swap_id 0 4) G G'"
    using reorder_relationships_renames [OF g(1) t(1,3) _ pos, of 0 True] t(2,4) ids by auto
  have "map fst (g_edges G') = map (swap_id 0 4) (map fst (g_edges G))" using r(3) by (simp add: rels_renamed_def comp_def case_prod_unfold)
  then have e: "map fst (g_edges G') = [4, 0]" using g(2) by simp
  show ?thesis by (intro exI conjI, rule g(1), rule g(2), rule t(2), rule r(1), rule r(2), rule e)
qed

section \<open>Random orders\<close>

lemma insert_ids_ok:
  "ht_inv t \<Longrightarrow> \<exists>t'. for_each (\<lambda>t x. ht_insert t (f x) (f x)) t xs = Some t' \<and> ht_inv t' \<and>
    ht_map t' = (\<lambda>v. if v \<in> f ` set xs then Some v else ht_map t v)"
proof (induction xs arbitrary: t)
  case (Cons x xs)
  obtain t1 where t1: "ht_insert t (f x) (f x) = Some t1" "ht_inv t1" "ht_map t1 = (ht_map t)(f x \<mapsto> f x)" using htable.insert_law [OF Cons.prems] by blast
  from Cons.IH [OF t1(2)] t1 show ?case by (auto simp: fun_eq_iff)
qed simp

definition id_on :: "ulong set \<Rightarrow> ulong \<rightharpoonup> ulong" where
  "id_on X v = (if v \<in> X then Some v else None)"

lemma id_on_order: "finite X \<Longrightarrow> is_order (id_on X)" "dom (id_on X) = X"
  by (auto simp: is_order_def id_on_def dom_def ran_def inj_on_def split: if_splits)

lemma is_order_swap:
  assumes "is_order M" "a \<in> dom M" "b \<in> dom M"
  shows "is_order (M \<circ> swap_id a b)" "dom (M \<circ> swap_id a b) = dom M"
proof -
  have d: "swap_id a b v \<in> dom M \<longleftrightarrow> v \<in> dom M" for v using assms(2,3) by (simp add: swap_id_def)
  then show dm: "dom (M \<circ> swap_id a b) = dom M" by (auto simp: dom_def)
  have "ran (M \<circ> swap_id a b) = ran M" by (auto simp: ran_def) (metis swap_id_swap_id)
  moreover have "inj_on (M \<circ> swap_id a b) (dom M)"
    using assms(1) d unfolding is_order_def by (intro inj_onI) (auto dest!: inj_onD)
  ultimately show "is_order (M \<circ> swap_id a b)" using assms(1) unfolding is_order_def dm by simp
qed

lemma exchange_ok:
  assumes inv: "ht_inv t" and ab: "a \<in> dom (ht_map t)" "b \<in> dom (ht_map t)"
  shows "\<exists>t'. exchange t a b = Some t' \<and> ht_inv t' \<and> ht_map t' = ht_map t \<circ> swap_id a b"
proof -
  obtain x y where xy: "ht_map t a = Some x" "ht_map t b = Some y" using ab by blast
  obtain t1 where t1: "ht_insert t a y = Some t1" "ht_inv t1" "ht_map t1 = (ht_map t)(a \<mapsto> y)" using htable.insert_law [OF inv] by blast
  obtain t2 where t2: "ht_insert t1 b x = Some t2" "ht_inv t2" "ht_map t2 = (ht_map t1)(b \<mapsto> x)" using htable.insert_law [OF t1(2)] by blast
  have "ht_map t2 = ht_map t \<circ> swap_id a b" using xy by (auto simp: t2(3) t1(3) fun_eq_iff swap_id_def)
  then show ?thesis using xy t1(1) t2(1,2) ht_get_direct_eq [OF inv] by (simp add: exchange_def)
qed

lemma random_loop_ok:
  assumes l: "al_inv l" "f ` set (al_list l) \<subseteq> X" "unat n = al_size l"
  shows "ht_inv t \<Longrightarrow> is_order (ht_map t) \<Longrightarrow> dom (ht_map t) = X \<Longrightarrow> set is \<subseteq> {..<al_size l} \<Longrightarrow>
    \<exists>t'. for_each (\<lambda>order i. if n = 0 then None else do { m \<leftarrow> al_get l (rand i mod unat n); x \<leftarrow> al_get l i; exchange order (f x) (f m) }) t is = Some t' \<and>
      ht_inv t' \<and> is_order (ht_map t') \<and> dom (ht_map t') = X"
proof (induction "is" arbitrary: t)
  case (Cons i "is")
  have sz: "al_size l = length (al_list l)" by (rule alist.size_law [OF l(1)])
  have i: "i < length (al_list l)" using Cons.prems(4) sz by simp
  then have n: "n \<noteq> 0" "rand i mod unat n < length (al_list l)" using l(3) sz by (auto simp: unat_0_iff [symmetric])
  let ?x = "f (al_list l ! i)" and ?m = "f (al_list l ! (rand i mod unat n))"
  have d: "?x \<in> dom (ht_map t)" "?m \<in> dom (ht_map t)" using nth_mem [OF i] nth_mem [OF n(2)] l(2) Cons.prems(3) by blast+
  obtain t1 where t1: "exchange t ?x ?m = Some t1" "ht_inv t1" "ht_map t1 = ht_map t \<circ> swap_id ?x ?m" using exchange_ok [OF Cons.prems(1) d] by blast
  have "is_order (ht_map t1)" "dom (ht_map t1) = X" using is_order_swap [OF Cons.prems(2) d] Cons.prems(3) by (simp_all only: t1(3))
  from Cons.IH [OF t1(2) this] show ?case using t1(1) n i Cons.prems(4) alist.get_law [OF l(1)] by auto
qed simp

lemma identity_node_order_ok:
  assumes h: "hf_abs hf G"
  shows "\<exists>t hf'. identity_node_order seed hf = Some (t, hf') \<and> hf_same hf hf' \<and> ht_inv t \<and> ht_map t = id_on (dom (g_labels G))"
proof -
  obtain l hf' where g: "get_nodes hf False = Some (l, hf')" "hf_same hf hf'" "al_inv l" "map n_id (al_list l) = sorted_list_of_set (dom (g_labels G))"
    by (rule get_nodes_abs [OF h])
  have "finite (dom (g_labels G))" using abs_ends_ok [OF h] finite_subset by (fastforce simp: ends_ok_def)
  then have ids: "n_id ` set (al_list l) = dom (g_labels G)" using arg_cong [OF g(4), of set] by simp
  obtain t where "for_each (\<lambda>t n. ht_insert t (n_id n) (n_id n)) (d_ul_ul_create seed) (al_list l) = Some t" "ht_inv t"
    "ht_map t = (\<lambda>v. if v \<in> n_id ` set (al_list l) then Some v else ht_map (d_ul_ul_create seed) v)"
    using insert_ids_ok [OF d_ul_ul_create_ok(1)] by blast
  then show ?thesis using g(1,2) for_each_al [OF g(3), of "\<lambda>t n. ht_insert t (n_id n) (n_id n)" "d_ul_ul_create seed"]
    by (auto simp: identity_node_order_def ids id_on_def d_ul_ul_create_ok(2) fun_eq_iff)
qed

text \<open>
  C34: A random order of the nodes permutes exactly the ids of all nodes, whatever numbers \<^verbatim>\<open>rand\<close> returns, and the heap file stays the one of the same graph.
\<close>
theorem random_node_order_permutes:
  assumes h: "hf_abs hf G"
  shows "\<exists>t hf'. random_node_order seed rand hf = Some (t, hf') \<and> hf_abs hf' G \<and> ht_inv t \<and> is_order (ht_map t) \<and> dom (ht_map t) = dom (g_labels G)"
proof -
  have fin: "finite (dom (g_labels G))" using abs_ends_ok [OF h] finite_subset by (fastforce simp: ends_ok_def)
  obtain t hf1 where i: "identity_node_order seed hf = Some (t, hf1)" "hf_same hf hf1" "ht_inv t" "ht_map t = id_on (dom (g_labels G))"
    using identity_node_order_ok [OF h] by blast
  obtain l hf2 where g: "get_nodes hf1 False = Some (l, hf2)" "hf_same hf1 hf2" "al_inv l" "map n_id (al_list l) = sorted_list_of_set (dom (g_labels G))"
    "unat (hf_n_nodes hf2) = al_size l" by (rule get_nodes_abs [OF hf_abs_same [OF h i(2)]])
  have ids: "n_id ` set (al_list l) = dom (g_labels G)" using arg_cong [OF g(4), of set] fin by simp
  have "ht_size t = al_size l" using ht_size_eq [OF i(3)] arg_cong [OF g(4), of length] alist.size_law [OF g(3)] by (simp add: i(4) id_on_order(2))
  then have "\<exists>t'. for_each (\<lambda>order i. if hf_n_nodes hf2 = 0 then None else do { m \<leftarrow> al_get l (rand i mod unat (hf_n_nodes hf2)); x \<leftarrow> al_get l i; exchange order (n_id x) (n_id m) }) t
      [0..<ht_size t] = Some t' \<and> ht_inv t' \<and> is_order (ht_map t') \<and> dom (ht_map t') = dom (g_labels G)"
    by (intro random_loop_ok [OF g(3) _ g(5)]) (use ids i(3,4) id_on_order(1) [OF fin] id_on_order(2) in auto)
  then show ?thesis using i(1) g(1) hf_abs_same [OF hf_abs_same [OF h i(2)] g(2)] by (auto simp: random_node_order_def)
qed

theorem random_node_order_permutes_witness:
  "\<exists>hf t hf' a b. a \<noteq> b \<and> random_node_order 3 (\<lambda>i. 7 * i) hf = Some (t, hf') \<and> is_order (ht_map t) \<and> dom (ht_map t) = {a, b}"
proof -
  obtain hf G a b i where g: "hf_abs hf G" "a \<noteq> b" "g_labels G = [a \<mapsto> 5, b \<mapsto> 6]" by (rule pair_database)
  from random_node_order_permutes [OF g(1), of 3 "\<lambda>i. 7 * i"] obtain t hf' where "random_node_order 3 (\<lambda>i. 7 * i) hf = Some (t, hf')"
    "is_order (ht_map t)" "dom (ht_map t) = dom (g_labels G)" by blast
  then show ?thesis using g(2,3) by (intro exI [of _ hf] exI [of _ t] exI [of _ hf'] exI [of _ a] exI [of _ b]) auto
qed

text \<open>The same for relationships.\<close>

lemma get_rels_abs:
  assumes h: "hf_abs hf G"
  obtains l hf' where "get_relationships hf log = Some (l, hf')" "hf_same hf hf'" "al_inv l" "r_id ` set (al_list l) = fst ` set (g_edges G)"
    "al_size l = card (fst ` set (g_edges G))" "unat (hf_n_rels hf') = al_size l"
proof -
  have inv: "hf_inv hf" and gr: "graph_ok (hf_nodes hf) (hf_rels hf) (chain_at (g_edges G))" using h by (simp_all add: hf_abs_def hf_graph_def)
  obtain l hf' where g: "get_relationships hf log = Some (l, hf')" "hf_same hf hf'" "al_inv l" "al_list l = hf_rel_list hf"
    using get_relationships_ok [OF inv] by blast
  have "map_of (g_edges G) i = None \<longleftrightarrow> hf_rels hf i = None" for i using hf_abs_rel [OF h, of i, symmetric] by simp
  then have "dom (map_of (g_edges G)) = dom (hf_rels hf)" unfolding dom_def by (simp only:)
  then have d: "dom (hf_rels hf) = fst ` set (g_edges G)" by (simp add: dom_map_of_conv_image_fst)
  note sc = scan_list_all [OF hf_dom(2) [OF inv]]
  have "r_id ` ran (hf_rels hf) = dom (hf_rels hf)" using graph_ok_rel(1) [OF gr] by (force simp: ran_def dom_def image_iff)
  then have ids: "r_id ` set (al_list l) = fst ` set (g_edges G)" using sc(1) d by (simp add: g(4) hf_rel_list_def)
  have sz: "al_size l = card (fst ` set (g_edges G))" using alist.size_law [OF g(3)] sc(2) d by (simp add: g(4) hf_rel_list_def)
  have "card (dom (hf_rels hf)) \<le> card {..<256 * rec_pages hf False}" by (intro card_mono hf_dom(2) [OF inv]) simp
  then have "card (dom (hf_rels hf)) < 2 ^ 64" using rec_pages_bound [OF inv, of False] by (simp add: UNINITIALIZED_LONG_def)
  moreover have "hf_n_rels hf' = word_of_nat (card (dom (hf_rels hf)))" using hf_abs_same [OF h g(2)] hf_effD(3) [OF g(2)] by (simp add: hf_abs_def hf_counts_def)
  ultimately have "unat (hf_n_rels hf') = al_size l" using sz d by (simp add: unat_of_nat)
  then show thesis using that g(1-3) ids sz by blast
qed

lemma random_relationship_order_ok:
  assumes h: "hf_abs hf G"
  shows "\<exists>t hf'. random_relationship_order seed rand hf = Some (t, hf') \<and> hf_abs hf' G \<and> ht_inv t \<and> is_order (ht_map t) \<and> dom (ht_map t) = fst ` set (g_edges G)"
proof -
  let ?X = "fst ` set (g_edges G)"
  obtain l1 hf1 where 1: "get_relationships hf False = Some (l1, hf1)" "hf_same hf hf1" "al_inv l1" "r_id ` set (al_list l1) = ?X" by (rule get_rels_abs [OF h])
  obtain t where t: "for_each (\<lambda>t r. ht_insert t (r_id r) (r_id r)) (d_ul_ul_create seed) (al_list l1) = Some t" "ht_inv t"
    "ht_map t = (\<lambda>v. if v \<in> r_id ` set (al_list l1) then Some v else ht_map (d_ul_ul_create seed) v)"
    using insert_ids_ok [OF d_ul_ul_create_ok(1)] by blast
  have i: "identity_relationship_order seed hf = Some (t, hf1)"
    using 1(1) t(1) for_each_al [OF 1(3), of "\<lambda>t r. ht_insert t (r_id r) (r_id r)" "d_ul_ul_create seed"] by (simp add: identity_relationship_order_def)
  have m: "ht_map t = id_on ?X" by (auto simp: t(3) 1(4) id_on_def d_ul_ul_create_ok(2) fun_eq_iff)
  obtain l hf2 where g: "get_relationships hf1 False = Some (l, hf2)" "hf_same hf1 hf2" "al_inv l" "r_id ` set (al_list l) = ?X" "al_size l = card ?X"
    "unat (hf_n_rels hf2) = al_size l" by (rule get_rels_abs [OF hf_abs_same [OF h 1(2)]])
  have "ht_size t = al_size l" using ht_size_eq [OF t(2)] g(5) by (simp add: m id_on_order(2))
  then have "\<exists>t'. for_each (\<lambda>order i. if hf_n_rels hf2 = 0 then None else do { m \<leftarrow> al_get l (rand i mod unat (hf_n_rels hf2)); x \<leftarrow> al_get l i; exchange order (r_id x) (r_id m) }) t
      [0..<ht_size t] = Some t' \<and> ht_inv t' \<and> is_order (ht_map t') \<and> dom (ht_map t') = ?X"
    by (intro random_loop_ok [OF g(3) _ g(6)]) (use g(4) t(2) m id_on_order(1) [of ?X] id_on_order(2) in auto)
  then show ?thesis using i g(1) hf_abs_same [OF hf_abs_same [OF h 1(2)] g(2)] by (auto simp: random_relationship_order_def)
qed

section \<open>The comparator of the sort\<close>

text \<open>With \<^verbatim>\<open>ul_cmp\<close>, \<^verbatim>\<open>qsort\<close> sorts the ids of the relationships at a node upwards.\<close>

lemma insert_by_ul_cmp: "insert_by ul_cmp x ys = insort x ys"
  by (induction ys) (auto simp: ul_cmp_def)

lemma qsort_ul_cmp: "qsort ul_cmp xs = sort xs"
  by (induction xs) (simp_all add: qsort_def insert_by_ul_cmp)

end
