(* ===== verification/In_Memory_Graph.thy ===== *)
theory In_Memory_Graph
  imports Heap_File
begin

text \<open>
  The graph of \<^verbatim>\<open>access/in_memory_graph.c\<close>. Its hash tables have pointers to node and relationship structs, which are shared and changed in
  place: the model has a store of structs by address, and the tables map ids to addresses. The lists that the functions return have addresses, too.
\<close>

record in_memory_graph =
  inm_cache_nodes :: "(ulong, addr) htable"
  inm_cache_rels :: "(ulong, addr) htable"
  inm_n_nodes :: "64 word"
  inm_n_rels :: "64 word"
  inm_node_at :: "addr \<rightharpoonup> node_t"
  inm_rel_at :: "addr \<rightharpoonup> relationship_t"
  inm_brk :: addr

definition d_ul_node_create :: "nat \<Rightarrow> (ulong, addr) htable" where
  "d_ul_node_create seed = ht_create fnv_hash_ul unsigned_long_eq seed"

definition d_ul_rel_create :: "nat \<Rightarrow> (ulong, addr) htable" where
  "d_ul_rel_create seed = ht_create fnv_hash_ul unsigned_long_eq seed"

text \<open>The lists of pointers compare the structs they point to.\<close>

definition inmal_node_create :: "(addr \<rightharpoonup> node_t) \<Rightarrow> addr array_list" where
  "inmal_node_create node_at = al_create (\<lambda>p q. case (node_at p, node_at q) of (Some m, Some n) \<Rightarrow> node_equals m n | _ \<Rightarrow> False)"

definition inmal_rel_create :: "(addr \<rightharpoonup> relationship_t) \<Rightarrow> addr array_list" where
  "inmal_rel_create rel_at = al_create (\<lambda>p q. case (rel_at p, rel_at q) of (Some r, Some s) \<Rightarrow> relationship_equals r s | _ \<Rightarrow> False)"

definition in_memory_graph_create :: "nat \<times> nat \<Rightarrow> in_memory_graph" where
  "in_memory_graph_create seeds = \<lparr>inm_cache_nodes = d_ul_node_create (fst seeds), inm_cache_rels = d_ul_rel_create (snd seeds),
     inm_n_nodes = 0, inm_n_rels = 0, inm_node_at = Map.empty, inm_rel_at = Map.empty, inm_brk = 0\<rparr>"

text \<open>Freeing the structs of a table, in the order of its entries; freeing one twice has no result.\<close>

definition free_values :: "(addr \<rightharpoonup> 'a) \<Rightarrow> (ulong, addr) htable \<Rightarrow> (addr \<rightharpoonup> 'a) option" where
  "free_values objs ht = for_each (\<lambda>objs (k, p). if objs p = None then None else Some (objs(p := None))) objs (ht_drain ht (ht_iterator_create ht))"

definition in_memory_graph_destroy :: "in_memory_graph \<Rightarrow> ((addr \<rightharpoonup> node_t) \<times> (addr \<rightharpoonup> relationship_t)) option" where
  "in_memory_graph_destroy db = do {
     nodes \<leftarrow> free_values (inm_node_at db) (inm_cache_nodes db);
     rels \<leftarrow> free_values (inm_rel_at db) (inm_cache_rels db);
     Some (nodes, rels) }"

section \<open>Nodes\<close>

definition in_memory_create_node :: "in_memory_graph \<Rightarrow> ulong \<Rightarrow> (ulong \<times> in_memory_graph) option" where
  "in_memory_create_node db label = do {
     let p = inm_brk db;
     let node = new_node\<lparr>n_id := unat (inm_n_nodes db), n_label := label\<rparr>;
     let db = db\<lparr>inm_n_nodes := inm_n_nodes db + 1, inm_node_at := (inm_node_at db)(p \<mapsto> node), inm_brk := p + 1\<rparr>;
     cache \<leftarrow> ht_insert (inm_cache_nodes db) (n_id node) p;
     Some (n_id node, db\<lparr>inm_cache_nodes := cache\<rparr>) }"

definition in_memory_get_node :: "in_memory_graph \<Rightarrow> ulong \<Rightarrow> addr option" where
  "in_memory_get_node db i = (if i = UNINITIALIZED_LONG then None else ht_get_direct (inm_cache_nodes db) i)"

definition in_memory_get_nodes :: "in_memory_graph \<Rightarrow> addr array_list option" where
  "in_memory_get_nodes db = for_each (\<lambda>nodes (i, p). al_append nodes p) (inmal_node_create (inm_node_at db))
     (ht_drain (inm_cache_nodes db) (ht_iterator_create (inm_cache_nodes db)))"

section \<open>Relationships\<close>

definition in_memory_get_relationship :: "in_memory_graph \<Rightarrow> ulong \<Rightarrow> addr option" where
  "in_memory_get_relationship db i = (if i = UNINITIALIZED_LONG then None else ht_get_direct (inm_cache_rels db) i)"

definition in_memory_get_relationships :: "in_memory_graph \<Rightarrow> addr array_list option" where
  "in_memory_get_relationships db = for_each (\<lambda>rels (i, p). al_append rels p) (inmal_rel_create (inm_rel_at db))
     (ht_drain (inm_cache_rels db) (ht_iterator_create (inm_cache_rels db)))"

text \<open>Assignments to the fields of a struct, through a pointer to it.\<close>

definition upd_node_at :: "in_memory_graph \<Rightarrow> addr \<Rightarrow> (node_t \<Rightarrow> node_t) \<Rightarrow> in_memory_graph option" where
  "upd_node_at db p f = do { n \<leftarrow> inm_node_at db p; Some (db\<lparr>inm_node_at := (inm_node_at db)(p \<mapsto> f n)\<rparr>) }"

definition upd_rel_at :: "in_memory_graph \<Rightarrow> addr \<Rightarrow> (relationship_t \<Rightarrow> relationship_t) \<Rightarrow> in_memory_graph option" where
  "upd_rel_at db p f = do { r \<leftarrow> inm_rel_at db p; Some (db\<lparr>inm_rel_at := (inm_rel_at db)(p \<mapsto> f r)\<rparr>) }"

text \<open>The first and the last relationship in the chain of a node; both are the new one, at \<open>rel\<close>, if there is none.\<close>

definition inm_chain_ends :: "in_memory_graph \<Rightarrow> node_t \<Rightarrow> addr \<Rightarrow> (addr \<times> addr) option" where
  "inm_chain_ends db node rel =
    (if n_first_relationship node = UNINITIALIZED_LONG then Some (rel, rel)
     else do {
       first \<leftarrow> in_memory_get_relationship db (n_first_relationship node);
       r \<leftarrow> inm_rel_at db first;
       let temp_id = (if n_id node = r_source_node r then r_prev_rel_source r else r_prev_rel_target r);
       last \<leftarrow> in_memory_get_relationship db temp_id;
       Some (first, last) })"

definition inm_link_rel :: "in_memory_graph \<Rightarrow> addr \<Rightarrow> addr \<times> addr \<Rightarrow> addr \<times> addr \<Rightarrow> ulong \<Rightarrow> ulong \<Rightarrow> ulong \<Rightarrow> in_memory_graph option" where
  "inm_link_rel db rel = (\<lambda>(first_source, last_source) (first_target, last_target) rel_id node_from node_to. do {
     ls \<leftarrow> inm_rel_at db last_source; fs \<leftarrow> inm_rel_at db first_source;
     lt \<leftarrow> inm_rel_at db last_target; ft \<leftarrow> inm_rel_at db first_target;
     db \<leftarrow> upd_rel_at db rel (\<lambda>r. r\<lparr>r_prev_rel_source := r_id ls, r_next_rel_source := r_id fs,
       r_prev_rel_target := r_id lt, r_next_rel_target := r_id ft\<rparr>);
     db \<leftarrow> upd_rel_at db last_source (set_next node_from rel_id);
     db \<leftarrow> upd_rel_at db last_target (set_next node_to rel_id);
     db \<leftarrow> upd_rel_at db first_source (set_prev node_from rel_id);
     upd_rel_at db first_target (set_prev node_to rel_id) })"

definition inm_set_first :: "in_memory_graph \<Rightarrow> addr \<Rightarrow> ulong \<Rightarrow> in_memory_graph option" where
  "inm_set_first db p rel_id =
     upd_node_at db p (\<lambda>n. if n_first_relationship n = UNINITIALIZED_LONG then n\<lparr>n_first_relationship := rel_id\<rparr> else n)"

definition in_memory_create_relationship_weighted ::
    "in_memory_graph \<Rightarrow> ulong \<Rightarrow> ulong \<Rightarrow> double_bits \<Rightarrow> ulong \<Rightarrow> (ulong \<times> in_memory_graph) option" where
  "in_memory_create_relationship_weighted db node_from node_to weight label =
    (if node_from = UNINITIALIZED_LONG \<or> node_to = UNINITIALIZED_LONG \<or> double_eq weight UNINITIALIZED_WEIGHT then None
     else do {
       source_node \<leftarrow> ht_get_direct (inm_cache_nodes db) node_from;
       target_node \<leftarrow> ht_get_direct (inm_cache_nodes db) node_to;
       let rel = inm_brk db;
       let rel_id = unat (inm_n_rels db);
       let db = db\<lparr>inm_n_rels := inm_n_rels db + 1, inm_brk := rel + 1, inm_rel_at := (inm_rel_at db)(rel \<mapsto>
         new_relationship\<lparr>r_id := rel_id, r_source_node := node_from, r_target_node := node_to, r_weight := weight, r_label := label\<rparr>)\<rparr>;
       source \<leftarrow> inm_node_at db source_node;
       ends_source \<leftarrow> inm_chain_ends db source rel;
       target \<leftarrow> inm_node_at db target_node;
       ends_target \<leftarrow> inm_chain_ends db target rel;
       db \<leftarrow> inm_link_rel db rel ends_source ends_target rel_id node_from node_to;
       db \<leftarrow> inm_set_first db source_node rel_id;
       db \<leftarrow> inm_set_first db target_node rel_id;
       cache \<leftarrow> ht_insert (inm_cache_rels db) rel_id rel;
       Some (rel_id, db\<lparr>inm_cache_rels := cache\<rparr>) })"

text \<open>The weight is the double 1.0.\<close>

definition in_memory_create_relationship :: "in_memory_graph \<Rightarrow> ulong \<Rightarrow> ulong \<Rightarrow> ulong \<Rightarrow> (ulong \<times> in_memory_graph) option" where
  "in_memory_create_relationship db node_from node_to label =
     in_memory_create_relationship_weighted db node_from node_to 0x3FF0000000000000 label"

section \<open>Chains\<close>

partial_function (option) inm_next_loop :: "in_memory_graph \<Rightarrow> ulong \<Rightarrow> ulong \<Rightarrow> direction_t \<Rightarrow> ulong \<Rightarrow> ulong option" where
  "inm_next_loop db node_id start_rel_id direction rel_id = do {
     p \<leftarrow> ht_get_direct (inm_cache_rels db) rel_id;
     rel \<leftarrow> inm_rel_at db p;
     if rel_id \<noteq> start_rel_id \<and> dir_matches rel node_id direction then Some (r_id rel)
     else do {
       let rel_id = (if node_id = r_source_node rel then r_next_rel_source rel else r_next_rel_target rel);
       if rel_id \<noteq> start_rel_id then inm_next_loop db node_id start_rel_id direction rel_id else Some UNINITIALIZED_LONG } }"

definition in_memory_next_relationship_id :: "in_memory_graph \<Rightarrow> ulong \<Rightarrow> addr \<Rightarrow> direction_t \<Rightarrow> ulong option" where
  "in_memory_next_relationship_id db node_id p direction =
    (if node_id = UNINITIALIZED_LONG then None
     else do {
       rel \<leftarrow> inm_rel_at db p;
       inm_next_loop db node_id (r_id rel) direction (if node_id = r_source_node rel then r_next_rel_source rel else r_next_rel_target rel) })"

partial_function (option) inm_expand_loop ::
    "in_memory_graph \<Rightarrow> node_t \<Rightarrow> direction_t \<Rightarrow> ulong \<Rightarrow> ulong \<Rightarrow> addr array_list \<Rightarrow> addr array_list option" where
  "inm_expand_loop db node direction start_id rel_id result =
    (if rel_id \<noteq> UNINITIALIZED_LONG then do {
       rel \<leftarrow> ht_get_direct (inm_cache_rels db) rel_id;
       result \<leftarrow> al_append result rel;
       rel_id \<leftarrow> in_memory_next_relationship_id db (n_id node) rel direction;
       if rel_id = start_id then Some result else inm_expand_loop db node direction start_id rel_id result }
     else Some result)"

definition in_memory_expand :: "in_memory_graph \<Rightarrow> ulong \<Rightarrow> direction_t \<Rightarrow> addr array_list option" where
  "in_memory_expand db node_id direction = do {
     p \<leftarrow> ht_get_direct (inm_cache_nodes db) node_id;
     node \<leftarrow> inm_node_at db p;
     let rel_id = n_first_relationship node;
     if rel_id = UNINITIALIZED_LONG then Some (inmal_rel_create (inm_rel_at db))
     else do {
       q \<leftarrow> in_memory_get_relationship db rel_id;
       rel \<leftarrow> inm_rel_at db q;
       rel_id \<leftarrow> (if dir_matches rel node_id direction then Some rel_id else in_memory_next_relationship_id db node_id q direction);
       inm_expand_loop db node direction rel_id rel_id (inmal_rel_create (inm_rel_at db)) } }"

text \<open>The result of a search for a relationship is a pointer that may be \<^verbatim>\<open>NULL\<close>.\<close>

partial_function (option) inm_contains_loop ::
    "in_memory_graph \<Rightarrow> node_t \<Rightarrow> ulong \<Rightarrow> ulong \<Rightarrow> direction_t \<Rightarrow> ulong \<Rightarrow> ulong \<Rightarrow> addr option option" where
  "inm_contains_loop db source_node node_from node_to direction start_id next_id = do {
     p \<leftarrow> ht_get_direct (inm_cache_rels db) next_id;
     rel \<leftarrow> inm_rel_at db p;
     if (direction \<noteq> INCOMING \<and> r_source_node rel = node_from \<and> r_target_node rel = node_to)
       \<or> (direction \<noteq> OUTGOING \<and> r_source_node rel = node_to \<and> r_target_node rel = node_from) then Some (Some p)
     else do {
       next_id \<leftarrow> in_memory_next_relationship_id db (n_id source_node) p direction;
       if next_id \<noteq> start_id \<and> next_id \<noteq> UNINITIALIZED_LONG then inm_contains_loop db source_node node_from node_to direction start_id next_id
       else Some None } }"

definition in_memory_contains_relationship_from_to :: "in_memory_graph \<Rightarrow> ulong \<Rightarrow> ulong \<Rightarrow> direction_t \<Rightarrow> addr option option" where
  "in_memory_contains_relationship_from_to db node_from node_to direction =
    (if node_from = UNINITIALIZED_LONG \<or> node_to = UNINITIALIZED_LONG then Some None
     else do {
       p \<leftarrow> ht_get_direct (inm_cache_nodes db) node_from;
       q \<leftarrow> ht_get_direct (inm_cache_nodes db) node_to;
       source_node \<leftarrow> inm_node_at db p;
       target_node \<leftarrow> inm_node_at db q;
       if n_first_relationship source_node = UNINITIALIZED_LONG \<or> n_first_relationship target_node = UNINITIALIZED_LONG then Some None
       else inm_contains_loop db source_node node_from node_to direction (n_first_relationship source_node) (n_first_relationship source_node) })"

end
