(* ===== verification/In_Memory_Refines.thy ===== *)
theory In_Memory_Refines
  imports In_Memory_Graph Heap_Graph
begin

text \<open>
  The in-memory graph is the property graph the heap file is: every sequence of operations gives results the abstract graph allows. The
  structs at their addresses are the records by id of the heap file, and the chains are the same, so the facts about well-linked
  maps carry over.
\<close>

section \<open>Structs by id\<close>

definition via :: "(ulong \<rightharpoonup> addr) \<Rightarrow> (addr \<rightharpoonup> 'a) \<Rightarrow> ulong \<rightharpoonup> 'a" where
  "via c objs i = Option.bind (c i) objs"

definition refs_ok :: "(ulong \<rightharpoonup> addr) \<Rightarrow> (addr \<rightharpoonup> 'a) \<Rightarrow> addr \<Rightarrow> bool" where
  "refs_ok c objs brk \<longleftrightarrow> inj_on c (dom c) \<and> ran c \<subseteq> dom objs \<and> dom objs \<subseteq> {..<brk}"

lemma refs_okD:
  assumes r: "refs_ok c objs brk" and i: "c i = Some p"
  shows "objs p \<noteq> None \<and> p < brk" "c j = Some p \<Longrightarrow> i = j"
proof -
  have "p \<in> ran c" using i by (rule ranI)
  then show "objs p \<noteq> None \<and> p < brk" using r unfolding refs_ok_def by blast
  show "i = j" if "c j = Some p"
    by (rule inj_onD [of c "dom c"]) (use r i that in \<open>auto simp: refs_ok_def\<close>)
qed

lemma via_None: "refs_ok c objs brk \<Longrightarrow> via c objs i = None \<longleftrightarrow> c i = None"
  using refs_okD(1) [of c objs brk i] by (cases "c i") (auto simp: via_def)

lemma via_Some: "via c objs i = Some x \<longleftrightarrow> (\<exists>p. c i = Some p \<and> objs p = Some x)"
  by (cases "c i") (auto simp: via_def)

lemma via_dom: "refs_ok c objs brk \<Longrightarrow> dom (via c objs) = dom c"
  by (auto simp: dom_def via_None simp flip: not_None_eq)

lemma via_upd:
  assumes "refs_ok c objs brk" "c i = Some p"
  shows "via c (objs(p \<mapsto> x)) = (via c objs)(i \<mapsto> x)" "refs_ok c (objs(p \<mapsto> x)) brk"
proof -
  show "via c (objs(p \<mapsto> x)) = (via c objs)(i \<mapsto> x)"
  proof
    fix j
    show "via c (objs(p \<mapsto> x)) j = ((via c objs)(i \<mapsto> x)) j"
      using refs_okD(2) [OF assms, of j] assms(2) by (cases "c j") (auto simp: via_def)
  qed
  show "refs_ok c (objs(p \<mapsto> x)) brk" using assms refs_okD(1) [OF assms] by (auto simp: refs_ok_def)
qed

lemma via_new:
  assumes r: "refs_ok c objs brk" and i: "c i = None"
  shows "via (c(i \<mapsto> brk)) (objs(brk \<mapsto> x)) = (via c objs)(i \<mapsto> x)" "refs_ok (c(i \<mapsto> brk)) (objs(brk \<mapsto> x)) (brk + 1)"
    "refs_ok c (objs(brk \<mapsto> x)) (brk + 1)"
proof -
  have b: "objs brk = None" "brk \<notin> ran c" using r by (auto simp: refs_ok_def)
  have cb: "c j \<noteq> Some brk" for j using b(2) by (auto simp: ran_def)
  show "via (c(i \<mapsto> brk)) (objs(brk \<mapsto> x)) = (via c objs)(i \<mapsto> x)"
  proof
    fix j
    show "via (c(i \<mapsto> brk)) (objs(brk \<mapsto> x)) j = ((via c objs)(i \<mapsto> x)) j" using cb [of j] by (cases "c j") (auto simp: via_def)
  qed
  have "inj_on (c(i \<mapsto> brk)) (dom (c(i \<mapsto> brk)))" using r cb by (auto simp: refs_ok_def inj_on_def)
  then show "refs_ok (c(i \<mapsto> brk)) (objs(brk \<mapsto> x)) (brk + 1)" using r i by (force simp: refs_ok_def)
  show "refs_ok c (objs(brk \<mapsto> x)) (brk + 1)" using r by (force simp: refs_ok_def)
qed

definition inm_nodes :: "in_memory_graph \<Rightarrow> ulong \<rightharpoonup> node_t" where
  "inm_nodes db = via (ht_map (inm_cache_nodes db)) (inm_node_at db)"

definition inm_rels :: "in_memory_graph \<Rightarrow> ulong \<rightharpoonup> relationship_t" where
  "inm_rels db = via (ht_map (inm_cache_rels db)) (inm_rel_at db)"

definition inm_inv :: "in_memory_graph \<Rightarrow> bool" where
  "inm_inv db \<longleftrightarrow> ht_inv (inm_cache_nodes db) \<and> ht_inv (inm_cache_rels db) \<and>
     refs_ok (ht_map (inm_cache_nodes db)) (inm_node_at db) (inm_brk db) \<and> refs_ok (ht_map (inm_cache_rels db)) (inm_rel_at db) (inm_brk db) \<and>
     dom (inm_nodes db) = {..<unat (inm_n_nodes db)} \<and> dom (inm_rels db) = {..<unat (inm_n_rels db)}"

lemma inm_get_node:
  assumes "inm_inv db"
  shows "inm_nodes db i = None \<Longrightarrow> ht_get_direct (inm_cache_nodes db) i = None"
    "inm_nodes db i = Some n \<Longrightarrow> \<exists>p. ht_get_direct (inm_cache_nodes db) i = Some p \<and> inm_node_at db p = Some n"
  using assms via_None [of "ht_map (inm_cache_nodes db)" "inm_node_at db" "inm_brk db" i]
  by (auto simp: inm_inv_def inm_nodes_def ht_get_direct_def htable.get_law via_Some)

lemma inm_get_rel:
  assumes "inm_inv db"
  shows "inm_rels db i = None \<Longrightarrow> ht_get_direct (inm_cache_rels db) i = None"
    "inm_rels db i = Some r \<Longrightarrow> \<exists>p. ht_get_direct (inm_cache_rels db) i = Some p \<and> inm_rel_at db p = Some r"
  using assms via_None [of "ht_map (inm_cache_rels db)" "inm_rel_at db" "inm_brk db" i]
  by (auto simp: inm_inv_def inm_rels_def ht_get_direct_def htable.get_law via_Some)

section \<open>Walking along a chain\<close>

definition dir_filter :: "(ulong \<rightharpoonup> relationship_t) \<Rightarrow> ulong \<Rightarrow> direction_t \<Rightarrow> ulong list \<Rightarrow> ulong list" where
  "dir_filter R n d is = filter (\<lambda>i. dir_matches (the (R i)) n d) is"

lemma next_at_if: "touches r n \<Longrightarrow> next_at r n = Some j \<Longrightarrow> (if n = r_source_node r then r_next_rel_source r else r_next_rel_target r) = j"
  by (auto simp: next_at_def touches_def split: if_splits)

lemma inm_next_loop_ok:
  assumes inv: "inm_inv db" and g: "graph_ok (inm_nodes db) (inm_rels db) C" and n: "inm_nodes db n \<noteq> None"
    and cs: "nxt (C n) = nxt (x # as @ bs)" "distinct (x # as @ bs)" "set (C n) = set (x # as @ bs)" and bs: "bs \<noteq> []"
  shows "inm_next_loop db n x d (hd bs) = Some (first_of (dir_filter (inm_rels db) n d bs))"
  using cs bs
proof (induction bs arbitrary: as)
  case (Cons b bs)
  have ch: "chain_ok (inm_nodes db) (inm_rels db) n (C n)" using graph_ok_node(4) [OF g] n by blast
  obtain r where r: "inm_rels db b = Some r" "touches r n" using chain_okD(2) [OF ch, of b] Cons.prems(3) by auto
  have rid: "r_id r = b" by (rule graph_ok_rel(1) [OF g r(1)])
  obtain p where p: "ht_get_direct (inm_cache_rels db) b = Some p" "inm_rel_at db p = Some r" using inm_get_rel(2) [OF inv r(1)] by blast
  have bx: "b \<noteq> x" using Cons.prems(2) by auto
  show ?case
  proof (cases "dir_matches r n d")
    case True
    then show ?thesis using p bx rid r(1) by (subst inm_next_loop.simps) (simp add: dir_filter_def first_of_def)
  next
    case False
    have "nxt (C n) b = Some (hd (bs @ x # as @ [b]))" using nxt_middle [of "x # as" b bs] Cons.prems(1,2) by simp
    then have "next_at r n = Some (hd (bs @ [x]))" using chain_next [OF g ch r] by (cases bs) simp_all
    then have nx: "(if n = r_source_node r then r_next_rel_source r else r_next_rel_target r) = hd (bs @ [x])" by (rule next_at_if [OF r(2)])
    have m: "dir_filter (inm_rels db) n d (b # bs) = dir_filter (inm_rels db) n d bs" using False r(1) by (simp add: dir_filter_def)
    show ?thesis
    proof (cases "bs = []")
      case True
      then show ?thesis using p False nx m unfolding list.sel(1)
        by (subst inm_next_loop.simps) (simp add: dir_filter_def first_of_def)
    next
      case ne: False
      have "hd bs \<noteq> x" using ne Cons.prems(2) by (cases bs) auto
      moreover have "inm_next_loop db n x d (hd bs) = Some (first_of (dir_filter (inm_rels db) n d bs))"
        by (rule Cons.IH [of "as @ [b]"]) (use Cons.prems ne in auto)
      ultimately show ?thesis using p False nx m ne unfolding list.sel(1) by (subst inm_next_loop.simps) (simp add: hd_append)
    qed
  qed
qed simp

lemma inm_next_ok:
  assumes inv: "inm_inv db" and g: "graph_ok (inm_nodes db) (inm_rels db) C" and n: "inm_nodes db n \<noteq> None"
    and c: "C n = us @ i # vs" and p: "ht_get_direct (inm_cache_rels db) i = Some p"
  shows "in_memory_next_relationship_id db n p d = Some (first_of (dir_filter (inm_rels db) n d (vs @ us)))"
proof -
  have ch: "chain_ok (inm_nodes db) (inm_rels db) n (C n)" using graph_ok_node(4) [OF g] n by blast
  obtain r where r: "inm_rels db i = Some r" "touches r n" using chain_okD(2) [OF ch, of i] c by auto
  have rid: "r_id r = i" by (rule graph_ok_rel(1) [OF g r(1)])
  have pr: "inm_rel_at db p = Some r" using inm_get_rel(2) [OF inv r(1)] p by simp
  have nu: "n \<noteq> UNINITIALIZED_LONG" using n graph_ok_node(3) [OF g, of n] by auto
  have d: "distinct (us @ i # vs)" using chain_okD(1) [OF ch] c by simp
  have "nxt (C n) i = Some (hd (vs @ us @ [i]))" using nxt_middle [OF d] c by simp
  then have "next_at r n = Some (hd (vs @ us @ [i]))" by (rule chain_next [OF g ch r])
  then have nx: "(if n = r_source_node r then r_next_rel_source r else r_next_rel_target r) = hd (vs @ us @ [i])" by (rule next_at_if [OF r(2)])
  have step: "in_memory_next_relationship_id db n p d = inm_next_loop db n i d (hd (vs @ us @ [i]))"
    using nu pr rid nx by (simp add: in_memory_next_relationship_id_def)
  show ?thesis
  proof (cases "vs @ us = []")
    case True
    then show ?thesis using p pr nx unfolding step by (subst inm_next_loop.simps) (simp add: dir_filter_def first_of_def)
  next
    case False
    have "nxt (C n) = nxt (i # [] @ vs @ us)" using nxt_rotate [of us "i # vs"] d c by simp
    moreover have "hd (vs @ us @ [i]) = hd (vs @ us)" using False by (simp add: hd_append)
    ultimately show ?thesis unfolding step using inm_next_loop_ok [OF inv g n, of i "[]" "vs @ us" d] d c False by auto
  qed
qed

lemma filter_split:
  assumes "filter P cs = as @ y # bs" "distinct cs"
  obtains us vs where "cs = us @ y # vs" "as = filter P us" "bs = filter P vs"
proof -
  have "y \<in> set (filter P cs)" by (simp add: assms(1))
  then have y: "y \<in> set cs" "P y" by simp_all
  from y(1) obtain us vs where c: "cs = us @ y # vs" by (auto dest: split_list)
  then have "as @ y # bs = filter P us @ y # filter P vs" using assms(1) y(2) by simp
  moreover have "y \<notin> set (filter P us)" "y \<notin> set (filter P vs)" using assms(2) c by auto
  ultimately have "as = filter P us \<and> bs = filter P vs" by (metis append_Cons_eq_iff)
  then show ?thesis using that [OF c] by simp
qed

lemma inm_expand_step:
  assumes inv: "inm_inv db" and g: "graph_ok (inm_nodes db) (inm_rels db) C" and n: "inm_nodes db n = Some nd"
    and m: "dir_filter (inm_rels db) n d (C n) = as @ y # bs" and l: "al_inv l"
  obtains l1 where "al_inv l1" "map (inm_rel_at db) (al_list l1) = map (inm_rel_at db) (al_list l) @ [inm_rels db y]"
    "\<And>start. inm_expand_loop db nd d start y l = (if first_of (bs @ as) = start then Some l1 else inm_expand_loop db nd d start (first_of (bs @ as)) l1)"
proof -
  have ch: "chain_ok (inm_nodes db) (inm_rels db) n (C n)" by (rule graph_ok_node(4) [OF g n])
  obtain us vs where c: "C n = us @ y # vs" "as = dir_filter (inm_rels db) n d us" "bs = dir_filter (inm_rels db) n d vs"
    using filter_split [OF m [unfolded dir_filter_def] chain_okD(1) [OF ch]] unfolding dir_filter_def by metis
  obtain r where r: "inm_rels db y = Some r" using chain_okD(2) [OF ch, of y] c(1) by auto
  obtain p where p: "ht_get_direct (inm_cache_rels db) y = Some p" "inm_rel_at db p = Some r" using inm_get_rel(2) [OF inv r] by blast
  obtain l1 where l1: "al_append l p = Some l1" "al_inv l1" "al_list l1 = al_list l @ [p]" using alist.append_law [OF l] by blast
  have nn: "inm_nodes db n \<noteq> None" using n by simp
  have nx: "in_memory_next_relationship_id db (n_id nd) p d = Some (first_of (bs @ as))"
    using inm_next_ok [OF inv g nn c(1) p(1), of d] graph_ok_node(1) [OF g n] c(2,3) by (simp add: dir_filter_def)
  have "inm_expand_loop db nd d start y l = (if first_of (bs @ as) = start then Some l1 else inm_expand_loop db nd d start (first_of (bs @ as)) l1)" for start
    using p(1) l1(1) nx graph_ok_rel(3) [OF g r] by (subst inm_expand_loop.simps) simp
  then show ?thesis using that [OF l1(2)] l1(3) p(2) r by simp
qed

lemma inm_expand_loop_ok:
  assumes inv: "inm_inv db" and g: "graph_ok (inm_nodes db) (inm_rels db) C" and n: "inm_nodes db n = Some nd"
    and m: "dir_filter (inm_rels db) n d (C n) = as @ y # bs" and l: "al_inv l"
  shows "\<exists>l'. inm_expand_loop db nd d (hd (as @ [y])) y l = Some l' \<and> al_inv l' \<and>
    map (inm_rel_at db) (al_list l') = map (inm_rel_at db) (al_list l) @ map (inm_rels db) (y # bs)"
  using m l
proof (induction bs arbitrary: as y l)
  case IH: (Cons z bs as y l)
  obtain l1 where s: "al_inv l1" "map (inm_rel_at db) (al_list l1) = map (inm_rel_at db) (al_list l) @ [inm_rels db y]"
    "inm_expand_loop db nd d (hd (as @ [y])) y l = (if first_of ((z # bs) @ as) = hd (as @ [y]) then Some l1
       else inm_expand_loop db nd d (hd (as @ [y])) (first_of ((z # bs) @ as)) l1)"
    by (rule inm_expand_step [OF inv g n IH.prems]) blast
  have "distinct (dir_filter (inm_rels db) n d (C n))"
    using chain_okD(1) [OF graph_ok_node(4) [OF g n]] by (simp add: dir_filter_def)
  then have "distinct (as @ y # z # bs)" using IH.prems(1) by simp
  then have "z \<noteq> hd (as @ [y])" by (cases as) auto
  moreover have "hd (as @ [y]) = hd ((as @ [y]) @ [z])" by (cases as) simp_all
  moreover have "\<exists>l'. inm_expand_loop db nd d (hd ((as @ [y]) @ [z])) z l1 = Some l' \<and> al_inv l' \<and>
      map (inm_rel_at db) (al_list l') = map (inm_rel_at db) (al_list l1) @ map (inm_rels db) (z # bs)"
    by (rule IH.IH) (use IH.prems s(1) in auto)
  ultimately show ?case using s by (auto simp: first_of_def)
next
  case (Nil as y l)
  obtain l1 where s: "al_inv l1" "map (inm_rel_at db) (al_list l1) = map (inm_rel_at db) (al_list l) @ [inm_rels db y]"
    "inm_expand_loop db nd d (hd (as @ [y])) y l = (if first_of ([] @ as) = hd (as @ [y]) then Some l1
       else inm_expand_loop db nd d (hd (as @ [y])) (first_of ([] @ as)) l1)"
    by (rule inm_expand_step [OF inv g n Nil.prems]) blast
  have "inm_expand_loop db nd d (hd (as @ [y])) y l = Some l1"
    using s(3) by (cases as) (simp_all add: first_of_def inm_expand_loop.simps [of db nd d _ UNINITIALIZED_LONG])
  then show ?case using s by simp
qed

lemma inm_expand_ok:
  assumes inv: "inm_inv db" and g: "graph_ok (inm_nodes db) (inm_rels db) C" and n: "inm_nodes db n = Some nd"
  shows "\<exists>l. in_memory_expand db n d = Some l \<and> map (inm_rel_at db) (al_list l) = map (inm_rels db) (dir_filter (inm_rels db) n d (C n))"
proof -
  have nn: "inm_nodes db n \<noteq> None" using n by simp
  have fst_rel: "n_first_relationship nd = first_of (C n)" by (rule graph_ok_node(5) [OF g n])
  obtain q where q: "ht_get_direct (inm_cache_nodes db) n = Some q" "inm_node_at db q = Some nd" using inm_get_node(2) [OF inv n] by blast
  have e: "al_inv (inmal_rel_create s)" "al_list (inmal_rel_create s) = []" for s by (simp_all add: inmal_rel_create_def)
  show ?thesis
  proof (cases "C n")
    case Nil
    then show ?thesis using q fst_rel e by (simp add: in_memory_expand_def first_of_def dir_filter_def)
  next
    case (Cons i cs)
    have "i \<in> set (C n)" using Cons by simp
    then obtain r where r: "inm_rels db i = Some r" using chain_okD(2) [OF graph_ok_node(4) [OF g n], of i] by blast
    have iu: "i \<noteq> UNINITIALIZED_LONG" using graph_ok_rel(3) [OF g r] by simp
    obtain p where p: "ht_get_direct (inm_cache_rels db) i = Some p" "inm_rel_at db p = Some r" using inm_get_rel(2) [OF inv r] by blast
    let ?m = "dir_filter (inm_rels db) n d (C n)"
    have m: "?m = (if dir_matches r n d then [i] else []) @ dir_filter (inm_rels db) n d cs" using r Cons by (simp add: dir_filter_def)
    have "in_memory_next_relationship_id db n p d = Some (first_of (dir_filter (inm_rels db) n d cs))"
      using inm_next_ok [OF inv g nn, of "[]" i cs p d] Cons p(1) by simp
    then have "(if dir_matches r n d then Some i else in_memory_next_relationship_id db n p d) = Some (first_of ?m)"
      using m by (simp add: first_of_def)
    then have run: "in_memory_expand db n d = inm_expand_loop db nd d (first_of ?m) (first_of ?m) (inmal_rel_create (inm_rel_at db))"
      using q fst_rel Cons iu p by (simp add: in_memory_expand_def first_of_def in_memory_get_relationship_def)
    show ?thesis
    proof (cases ?m)
      case Nil
      then show ?thesis using run e by (simp add: first_of_def inm_expand_loop.simps [of db nd d])
    next
      case (Cons y ys)
      then show ?thesis using run inm_expand_loop_ok [OF inv g n, of d "[]" y ys "inmal_rel_create (inm_rel_at db)"] e by (auto simp: first_of_def)
    qed
  qed
qed

section \<open>Creating relationships\<close>

lemma refs_ok_mono: "refs_ok c objs b \<Longrightarrow> b \<le> b' \<Longrightarrow> refs_ok c objs b'"
  by (auto simp: refs_ok_def)

lemma via_at:
  assumes "refs_ok c objs b" "c i = Some p" "objs p = Some x"
  shows "via c (objs(p \<mapsto> f x)) j = map_option (if j = i then f else id) (via c objs j)"
  unfolding via_upd(1) [OF assms(1,2)] using assms(2,3) by (simp add: via_def option.map_id)

lemma upd_rel_at_ok:
  assumes r: "refs_ok c (inm_rel_at db) k" and i: "c i = Some p"
  shows "\<exists>objs. upd_rel_at db p f = Some (db\<lparr>inm_rel_at := objs\<rparr>) \<and> via c objs = at_id (via c (inm_rel_at db)) i f \<and> refs_ok c objs k"
proof -
  obtain x where x: "inm_rel_at db p = Some x" using refs_okD(1) [OF r i] by blast
  have "via c ((inm_rel_at db)(p \<mapsto> f x)) = at_id (via c (inm_rel_at db)) i f"
    using via_at [OF r i x, of f] by (simp add: fun_eq_iff at_id_apply)
  then show ?thesis using x via_upd(2) [OF r i, of "f x"]
    by (intro exI [of _ "(inm_rel_at db)(p \<mapsto> f x)"]) (simp add: upd_rel_at_def)
qed

lemma inm_link_rel_ok:
  assumes r: "refs_ok c (inm_rel_at db) k" and ids: "\<And>j x. via c (inm_rel_at db) j = Some x \<Longrightarrow> r_id x = j"
    and p: "c i = Some q" "c fa = Some pfa" "c la = Some pla" "c fb = Some pfb" "c lb = Some plb"
  shows "\<exists>objs. inm_link_rel db q (pfa, pla) (pfb, plb) i a b = Some (db\<lparr>inm_rel_at := objs\<rparr>) \<and>
    via c objs = linked (via c (inm_rel_at db)) a b i fa la fb lb \<and> refs_ok c objs k"
proof -
  have at: "\<exists>x. inm_rel_at db y = Some x \<and> r_id x = j" if "c j = Some y" for j y
    using refs_okD(1) [OF r that] ids [of j] that by (auto simp: via_def)
  obtain rf rl tf tl where rs: "inm_rel_at db pfa = Some rf" "r_id rf = fa" "inm_rel_at db pla = Some rl" "r_id rl = la"
    "inm_rel_at db pfb = Some tf" "r_id tf = fb" "inm_rel_at db plb = Some tl" "r_id tl = lb"
    using at [OF p(2)] at [OF p(3)] at [OF p(4)] at [OF p(5)] by blast
  obtain o1 where 1: "upd_rel_at db q (set_links la fa lb fb) = Some (db\<lparr>inm_rel_at := o1\<rparr>)"
    "via c o1 = at_id (via c (inm_rel_at db)) i (set_links la fa lb fb)" "refs_ok c o1 k" using upd_rel_at_ok [OF r p(1)] by blast
  obtain o2 where 2: "upd_rel_at (db\<lparr>inm_rel_at := o1\<rparr>) pla (set_next a i) = Some (db\<lparr>inm_rel_at := o2\<rparr>)"
    "via c o2 = at_id (via c o1) la (set_next a i)" "refs_ok c o2 k" using upd_rel_at_ok [of c "db\<lparr>inm_rel_at := o1\<rparr>" k la pla] 1(3) p(3) by auto
  obtain o3 where 3: "upd_rel_at (db\<lparr>inm_rel_at := o2\<rparr>) plb (set_next b i) = Some (db\<lparr>inm_rel_at := o3\<rparr>)"
    "via c o3 = at_id (via c o2) lb (set_next b i)" "refs_ok c o3 k" using upd_rel_at_ok [of c "db\<lparr>inm_rel_at := o2\<rparr>" k lb plb] 2(3) p(5) by auto
  obtain o4 where 4: "upd_rel_at (db\<lparr>inm_rel_at := o3\<rparr>) pfa (set_prev a i) = Some (db\<lparr>inm_rel_at := o4\<rparr>)"
    "via c o4 = at_id (via c o3) fa (set_prev a i)" "refs_ok c o4 k" using upd_rel_at_ok [of c "db\<lparr>inm_rel_at := o3\<rparr>" k fa pfa] 3(3) p(2) by auto
  obtain o5 where 5: "upd_rel_at (db\<lparr>inm_rel_at := o4\<rparr>) pfb (set_prev b i) = Some (db\<lparr>inm_rel_at := o5\<rparr>)"
    "via c o5 = at_id (via c o4) fb (set_prev b i)" "refs_ok c o5 k" using upd_rel_at_ok [of c "db\<lparr>inm_rel_at := o4\<rparr>" k fb pfb] 4(3) p(4) by auto
  have "inm_link_rel db q (pfa, pla) (pfb, plb) i a b = Some (db\<lparr>inm_rel_at := o5\<rparr>)"
    unfolding inm_link_rel_def prod.case rs Option.bind.simps set_links_def [symmetric] 1(1) 2(1) 3(1) 4(1) by (rule 5(1))
  then show ?thesis using 5(2,3) 4(2) 3(2) 2(2) 1(2) by (intro exI [of _ o5]) (simp add: linked_def)
qed

lemma inm_chain_ends_ok:
  assumes inv: "inm_inv db" and g: "graph_ok (inm_nodes db) (inm_rels db) C" and n: "inm_nodes db n = Some nd" and i: "inm_rels db i = None"
    and db1: "inm_cache_rels db1 = inm_cache_rels db" "inm_rel_at db1 = (inm_rel_at db)(inm_brk db \<mapsto> x)"
  shows "\<exists>p q. inm_chain_ends db1 nd (inm_brk db) = Some (p, q) \<and> ((ht_map (inm_cache_rels db))(i \<mapsto> inm_brk db)) (fid i (C n)) = Some p \<and>
    ((ht_map (inm_cache_rels db))(i \<mapsto> inm_brk db)) (lid i (C n)) = Some q"
proof (cases "C n = []")
  case True
  then show ?thesis using graph_ok_node(5) [OF g n] by (simp add: inm_chain_ends_def first_of_def fid_def lid_def)
next
  case False
  obtain r l where c: "inm_rels db (hd (C n)) = Some r" "inm_rels db (last (C n)) = Some l" "n_first_relationship nd = hd (C n)"
    "hd (C n) \<noteq> UNINITIALIZED_LONG" "(if n = r_source_node r then r_prev_rel_source r else r_prev_rel_target r) = last (C n)"
    by (rule chain_first [OF g n False])
  obtain p where p: "ht_get_direct (inm_cache_rels db) (hd (C n)) = Some p" "inm_rel_at db p = Some r" using inm_get_rel(2) [OF inv c(1)] by blast
  obtain q where q: "ht_get_direct (inm_cache_rels db) (last (C n)) = Some q" using inm_get_rel(2) [OF inv c(2)] by blast
  have h: "ht_inv (inm_cache_rels db)" using inv by (simp add: inm_inv_def)
  have pm: "ht_map (inm_cache_rels db) (hd (C n)) = Some p" "ht_map (inm_cache_rels db) (last (C n)) = Some q"
    using p(1) q h by (simp_all add: ht_get_direct_def htable.get_law)
  have "p < inm_brk db" using refs_okD(1) [of _ _ _ "hd (C n)" p] pm(1) inv by (auto simp: inm_inv_def)
  moreover have "hd (C n) \<noteq> i" "last (C n) \<noteq> i" using c(1,2) i by auto
  ultimately show ?thesis
    using c(3-5) p q pm False graph_ok_node(1) [OF g n] graph_ok_rel(3) [OF g c(2)] db1
    by (simp add: inm_chain_ends_def in_memory_get_relationship_def fid_def lid_def)
qed

lemma inm_set_first_ok:
  assumes r: "refs_ok c (inm_node_at db) k" and n: "c n = Some p"
  shows "\<exists>objs. inm_set_first db p i = Some (db\<lparr>inm_node_at := objs\<rparr>) \<and> refs_ok c objs k \<and>
    (\<forall>m. via c objs m = map_option (\<lambda>nd. if m = n \<and> n_first_relationship nd = UNINITIALIZED_LONG then nd\<lparr>n_first_relationship := i\<rparr> else nd) (via c (inm_node_at db) m))"
proof -
  obtain x where x: "inm_node_at db p = Some x" using refs_okD(1) [OF r n] by blast
  let ?f = "\<lambda>nd. if n_first_relationship nd = UNINITIALIZED_LONG then nd\<lparr>n_first_relationship := i\<rparr> else nd"
  have "via c ((inm_node_at db)(p \<mapsto> ?f x)) m = map_option (\<lambda>nd. if m = n \<and> n_first_relationship nd = UNINITIALIZED_LONG then nd\<lparr>n_first_relationship := i\<rparr> else nd)
      (via c (inm_node_at db) m)" for m
    unfolding via_at [OF r n x, of ?f] by (cases "m = n") (simp_all add: option.map_id [unfolded id_def] id_def)
  then show ?thesis using x via_upd(2) [OF r n, of "?f x"] by (intro exI [of _ "(inm_node_at db)(p \<mapsto> ?f x)"]) (simp add: inm_set_first_def upd_node_at_def)
qed

lemma first_unset:
  assumes g: "graph_ok N R C" and n: "N n = Some nd"
  shows "n_first_relationship nd = UNINITIALIZED_LONG \<longleftrightarrow> C n = []"
proof (cases "C n = []")
  case False
  show ?thesis by (rule chain_first [OF g n False]) (use False in auto)
qed (simp add: graph_ok_node(5) [OF g n] first_of_def)

lemma at_id_all:
  assumes "\<forall>j r. S j = Some r \<longrightarrow> P j r" "\<And>j r. P j r \<Longrightarrow> P j (f r)"
  shows "\<forall>j r. at_id S i f j = Some r \<longrightarrow> P j r"
  using assms by (auto simp: at_id_apply split: if_splits)

lemma new_links_valid:
  assumes g: "graph_ok N R C" and rel: "rel_valid rel" "r_id rel = i" "i < UNINITIALIZED_LONG" and n: "N (r_source_node rel) \<noteq> None" "N (r_target_node rel) \<noteq> None"
    and s: "new_links R C rel j = Some r"
  shows "rel_valid r \<and> r_id r = j \<and> j < UNINITIALIZED_LONG"
proof -
  let ?P = "\<lambda>j r. rel_valid r \<and> r_id r = j \<and> j < UNINITIALIZED_LONG"
  have R: "?P j r" if "R j = Some r" for j r using graph_ok_rel(1-3) [OF g that] by blast
  have b: "hd (C m) < UNINITIALIZED_LONG" "last (C m) < UNINITIALIZED_LONG" if "N m \<noteq> None" "C m \<noteq> []" for m
  proof -
    have "\<exists>r. R (hd (C m)) = Some r" "\<exists>r. R (last (C m)) = Some r"
      using that chain_okD(2) [OF graph_ok_node(4) [OF g], of m _ "hd (C m)"] chain_okD(2) [OF graph_ok_node(4) [OF g], of m _ "last (C m)"] by auto
    then show "hd (C m) < UNINITIALIZED_LONG" "last (C m) < UNINITIALIZED_LONG" using R by blast+
  qed
  have e: "fid i (C m) < ULONG_RANGE" "lid i (C m) < ULONG_RANGE" "i < ULONG_RANGE" if "N m \<noteq> None" for m
    using b [OF that] rel(3) by (auto simp: fid_def lid_def UNINITIALIZED_LONG_def ULONG_RANGE_def)
  note fa = e [OF n(1)] and fb = e [OF n(2)]
  have 0: "\<forall>j r. (R(i \<mapsto> rel)) j = Some r \<longrightarrow> ?P j r" using R rel by (auto split: if_splits)
  have v: "?P j (set_next m i r)" "?P j (set_prev m i r)" if "?P j r" for j m r using that set_link_valid [OF fa(3)] by simp_all
  have l: "?P j (set_links (lid i (C (r_source_node rel))) (fid i (C (r_source_node rel))) (lid i (C (r_target_node rel))) (fid i (C (r_target_node rel))) r)"
    if "?P j r" for j r using that fa fb by (simp add: rel_valid_def rel_ok_def)
  have "\<forall>j r. new_links R C rel j = Some r \<longrightarrow> ?P j r"
    unfolding new_links_def linked_def Let_def rel(2) by (intro at_id_all [where P = ?P] 0 v l)
  then show ?thesis using s by blast
qed

definition inm_abs :: "in_memory_graph \<Rightarrow> pgraph \<Rightarrow> bool" where
  "inm_abs db G \<longleftrightarrow> inm_inv db \<and> graph_ok (inm_nodes db) (inm_rels db) (chain_at (g_edges G)) \<and>
     map_option n_label \<circ> inm_nodes db = g_labels G \<and> map_option edge_of \<circ> inm_rels db = map_of (g_edges G) \<and> distinct (map fst (g_edges G))"

lemma inm_absD:
  assumes "inm_abs db G"
  shows "inm_inv db" "graph_ok (inm_nodes db) (inm_rels db) (chain_at (g_edges G))" "map_option n_label (inm_nodes db i) = g_labels G i"
    "map_option edge_of (inm_rels db i) = map_of (g_edges G) i" "distinct (map fst (g_edges G))" "inm_nodes db i = None \<longleftrightarrow> g_labels G i = None"
    "inm_rels db i = None \<longleftrightarrow> map_of (g_edges G) i = None"
proof -
  show "inm_inv db" "graph_ok (inm_nodes db) (inm_rels db) (chain_at (g_edges G))" "distinct (map fst (g_edges G))" using assms by (simp_all add: inm_abs_def)
  have "map_option n_label \<circ> inm_nodes db = g_labels G" "map_option edge_of \<circ> inm_rels db = map_of (g_edges G)" using assms by (simp_all add: inm_abs_def)
  from fun_cong [OF this(1), of i] fun_cong [OF this(2), of i]
  show "map_option n_label (inm_nodes db i) = g_labels G i" "map_option edge_of (inm_rels db i) = map_of (g_edges G) i" by simp_all
  then show "inm_nodes db i = None \<longleftrightarrow> g_labels G i = None" "inm_rels db i = None \<longleftrightarrow> map_of (g_edges G) i = None" by (metis None_eq_map_option_iff)+
qed

lemma unat_suc64: "unat w + 1 < UNINITIALIZED_LONG \<Longrightarrow> unat (w + 1) = unat w + 1" for w :: "64 word"
  using unat_add_lem [of w 1] by (simp add: UNINITIALIZED_LONG_def)

lemma inm_create_node_ok:
  assumes h: "inm_abs db G" and room: "unat (inm_n_nodes db) + 1 < UNINITIALIZED_LONG" and l: "l < ULONG_RANGE"
  shows "\<exists>db'. in_memory_create_node db l = Some (unat (inm_n_nodes db), db') \<and> inm_n_rels db' = inm_n_rels db \<and>
    unat (inm_n_nodes db') = unat (inm_n_nodes db) + 1 \<and> inm_abs db' (G\<lparr>g_labels := (g_labels G)(unat (inm_n_nodes db) \<mapsto> l)\<rparr>) \<and>
    g_labels G (unat (inm_n_nodes db)) = None"
proof -
  let ?i = "unat (inm_n_nodes db)"
  let ?nd = "new_node\<lparr>n_id := ?i, n_label := l\<rparr>"
  note H = inm_absD [OF h]
  have inv: "ht_inv (inm_cache_nodes db)" "refs_ok (ht_map (inm_cache_nodes db)) (inm_node_at db) (inm_brk db)"
    "refs_ok (ht_map (inm_cache_rels db)) (inm_rel_at db) (inm_brk db)" "dom (inm_nodes db) = {..<?i}" using H(1) by (simp_all add: inm_inv_def)
  have i: "inm_nodes db ?i = None" using inv(4) by auto
  then have ci: "ht_map (inm_cache_nodes db) ?i = None" using via_None [OF inv(2)] by (simp add: inm_nodes_def)
  obtain c where c: "ht_insert (inm_cache_nodes db) ?i (inm_brk db) = Some c" "ht_inv c" "ht_map c = (ht_map (inm_cache_nodes db))(?i \<mapsto> inm_brk db)"
    using htable.insert_law [OF inv(1)] by blast
  let ?db = "db\<lparr>inm_n_nodes := inm_n_nodes db + 1, inm_node_at := (inm_node_at db)(inm_brk db \<mapsto> ?nd), inm_brk := inm_brk db + 1, inm_cache_nodes := c\<rparr>"
  have u: "unat (inm_n_nodes db + 1) = ?i + 1" using room by (intro unat_suc64)
  note v = via_new [OF inv(2) ci, of ?nd]
  have N: "inm_nodes ?db = (inm_nodes db)(?i \<mapsto> ?nd)" "inm_rels ?db = inm_rels db" using v(1) c(3) by (simp_all add: inm_nodes_def inm_rels_def)
  have "inm_inv ?db" using H(1) c v(2) u N refs_ok_mono [OF inv(3)] by (auto simp: inm_inv_def)
  moreover have fr: "g_labels G ?i = None" using i H(6) by simp
  have "chain_at (g_edges G) ?i = []"
  proof (rule ccontr)
    assume "chain_at (g_edges G) ?i \<noteq> []"
    then obtain j a b w k where e: "(j, a, b, w, k) \<in> set (g_edges G)" "a = ?i \<or> b = ?i" by (auto simp: chain_at_def filter_empty_conv)
    then have "map_of (g_edges G) j = Some (a, b, w, k)" using H(5) by simp
    then obtain r where r: "inm_rels db j = Some r" "edge_of r = (a, b, w, k)" using H(4) [of j] by auto
    then show False using graph_ok_rel(4,5) [OF H(2) r(1)] i e(2) by (auto simp: edge_of_def)
  qed
  then have "graph_ok (inm_nodes ?db) (inm_rels ?db) (chain_at (g_edges G))" unfolding N
    using H(2) i room l by (intro graph_ok_add_node) (simp_all add: new_node_def node_ok_def UNINITIALIZED_LONG_def ULONG_RANGE_def)
  moreover have "map_option n_label \<circ> inm_nodes ?db = (g_labels G)(?i \<mapsto> l)" unfolding N using H(3) by (simp add: fun_eq_iff)
  moreover have "map_option edge_of \<circ> inm_rels ?db = map_of (g_edges G)" unfolding N using H(4) by (simp add: fun_eq_iff)
  ultimately have "inm_abs ?db (G\<lparr>g_labels := (g_labels G)(?i \<mapsto> l)\<rparr>)" using H(5) by (simp add: inm_abs_def)
  moreover have "in_memory_create_node db l = Some (?i, ?db)" using c(1) by (simp add: in_memory_create_node_def Let_def)
  ultimately show ?thesis using u fr by simp
qed

lemma inm_create_relationship_ok:
  assumes h: "inm_abs db G" and room: "unat (inm_n_rels db) + 1 < UNINITIALIZED_LONG" and ab: "g_labels G a \<noteq> None" "g_labels G b \<noteq> None"
    and w: "w < ULONG_RANGE" "\<not> double_eq w UNINITIALIZED_WEIGHT" "l < ULONG_RANGE"
  shows "\<exists>db'. in_memory_create_relationship_weighted db a b w l = Some (unat (inm_n_rels db), db') \<and> inm_n_nodes db' = inm_n_nodes db \<and>
    unat (inm_n_rels db') = unat (inm_n_rels db) + 1 \<and> inm_abs db' (G\<lparr>g_edges := g_edges G @ [(unat (inm_n_rels db), a, b, w, l)]\<rparr>) \<and>
    map_of (g_edges G) (unat (inm_n_rels db)) = None"
proof -
  let ?i = "unat (inm_n_rels db)" and ?C = "chain_at (g_edges G)" and ?c = "ht_map (inm_cache_rels db)" and ?n = "ht_map (inm_cache_nodes db)"
  define rel where "rel = new_relationship\<lparr>r_id := ?i, r_source_node := a, r_target_node := b, r_weight := w, r_label := l\<rparr>"
  have rel: "r_id rel = ?i" "r_source_node rel = a" "r_target_node rel = b" "edge_of rel = (a, b, w, l)" by (simp_all add: rel_def edge_of_def)
  note H = inm_absD [OF h]
  have inv: "ht_inv (inm_cache_rels db)" "refs_ok ?n (inm_node_at db) (inm_brk db)" "refs_ok ?c (inm_rel_at db) (inm_brk db)" "dom (inm_rels db) = {..<?i}"
    using H(1) by (simp_all add: inm_inv_def)
  have i: "inm_rels db ?i = None" using inv(4) by auto
  then have ci: "?c ?i = None" using via_None [OF inv(3)] by (simp add: inm_rels_def)
  obtain na nb where nd: "inm_nodes db a = Some na" "inm_nodes db b = Some nb" using ab H(6) by (metis not_None_eq)
  have abu: "a < UNINITIALIZED_LONG" "b < UNINITIALIZED_LONG" using graph_ok_node(3) [OF H(2)] nd by blast+
  have rv: "rel_valid rel"
    using abu w by (simp add: rel_def new_relationship_def rel_valid_def rel_ok_def UNINITIALIZED_LONG_def ULONG_RANGE_def)
  obtain pa pb where p: "ht_get_direct (inm_cache_nodes db) a = Some pa" "inm_node_at db pa = Some na" "ht_get_direct (inm_cache_nodes db) b = Some pb"
    "inm_node_at db pb = Some nb" using inm_get_node(2) [OF H(1)] nd by meson
  have pn: "?n a = Some pa" "?n b = Some pb" using p H(1) by (simp_all add: ht_get_direct_def htable.get_law inm_inv_def)
  let ?c' = "?c(?i \<mapsto> inm_brk db)"
  let ?db1 = "db\<lparr>inm_n_rels := inm_n_rels db + 1, inm_brk := inm_brk db + 1, inm_rel_at := (inm_rel_at db)(inm_brk db \<mapsto> rel)\<rparr>"
  note v = via_new [OF inv(3) ci, of rel]
  obtain fa la where ea: "inm_chain_ends ?db1 na (inm_brk db) = Some (fa, la)" "?c' (fid ?i (?C a)) = Some fa" "?c' (lid ?i (?C a)) = Some la"
    using inm_chain_ends_ok [OF H(1,2) nd(1) i, of ?db1 rel] by auto
  obtain fb lb where eb: "inm_chain_ends ?db1 nb (inm_brk db) = Some (fb, lb)" "?c' (fid ?i (?C b)) = Some fb" "?c' (lid ?i (?C b)) = Some lb"
    using inm_chain_ends_ok [OF H(1,2) nd(2) i, of ?db1 rel] by auto
  have v1: "via ?c' (inm_rel_at ?db1) = (inm_rels db)(?i \<mapsto> rel)" using v(1) by (simp add: inm_rels_def)
  have ids: "r_id x = j" if "via ?c' (inm_rel_at ?db1) j = Some x" for j x
    using that rel(1) graph_ok_rel(1) [OF H(2)] unfolding v1 by (auto split: if_splits)
  have r1: "refs_ok ?c' (inm_rel_at ?db1) (inm_brk db + 1)" using v(2) by simp
  have pi: "?c' ?i = Some (inm_brk db)" by simp
  obtain objs where o: "inm_link_rel ?db1 (inm_brk db) (fa, la) (fb, lb) ?i a b = Some (?db1\<lparr>inm_rel_at := objs\<rparr>)"
    "via ?c' objs = linked ((inm_rels db)(?i \<mapsto> rel)) a b ?i (fid ?i (?C a)) (lid ?i (?C a)) (fid ?i (?C b)) (lid ?i (?C b))" "refs_ok ?c' objs (inm_brk db + 1)"
    using inm_link_rel_ok [where db = ?db1 and i = ?i and q = "inm_brk db" and a = a and b = b, OF r1 ids pi ea(2,3) eb(2,3)] unfolding v1
    by (simp del: fun_upd_apply) blast
  have S: "via ?c' objs = new_links (inm_rels db) ?C rel" unfolding o(2) new_links_def Let_def rel by simp
  let ?db2 = "?db1\<lparr>inm_rel_at := objs\<rparr>"
  obtain n1 where n1: "inm_set_first ?db2 pa ?i = Some (?db2\<lparr>inm_node_at := n1\<rparr>)" "refs_ok ?n n1 (inm_brk db + 1)"
    "\<forall>m. via ?n n1 m = map_option (\<lambda>nd. if m = a \<and> n_first_relationship nd = UNINITIALIZED_LONG then nd\<lparr>n_first_relationship := ?i\<rparr> else nd) (inm_nodes db m)"
    using inm_set_first_ok [of ?n ?db2 "inm_brk db + 1" a pa ?i] refs_ok_mono [OF inv(2)] pn(1) by (auto simp: inm_nodes_def)
  obtain n2 where n2: "inm_set_first (?db2\<lparr>inm_node_at := n1\<rparr>) pb ?i = Some (?db2\<lparr>inm_node_at := n2\<rparr>)" "refs_ok ?n n2 (inm_brk db + 1)"
    "\<forall>m. via ?n n2 m = map_option (\<lambda>nd. if m = b \<and> n_first_relationship nd = UNINITIALIZED_LONG then nd\<lparr>n_first_relationship := ?i\<rparr> else nd) (via ?n n1 m)"
    using inm_set_first_ok [of ?n "?db2\<lparr>inm_node_at := n1\<rparr>" "inm_brk db + 1" b pb ?i] n1(2) pn(2) by auto
  have iu: "?i < UNINITIALIZED_LONG" using room by simp
  have N: "via ?n n2 = with_first (inm_nodes db) ?C a b ?i"
  proof
    fix m
    show "via ?n n2 m = with_first (inm_nodes db) ?C a b ?i m"
      using first_unset [OF H(2), of m] iu unfolding n2(3) [rule_format] n1(3) [rule_format] with_first_def by (cases "inm_nodes db m") auto
  qed
  obtain c where c: "ht_insert (inm_cache_rels db) ?i (inm_brk db) = Some c" "ht_inv c" "ht_map c = ?c'" using htable.insert_law [OF inv(1)] by blast
  let ?db = "?db2\<lparr>inm_node_at := n2, inm_cache_rels := c\<rparr>"
  have run: "in_memory_create_relationship_weighted db a b w l = Some (?i, ?db)"
    using abu w(2) p ea(1) eb(1) o(1) n1(1) n2(1) c(1)
    by (simp add: in_memory_create_relationship_weighted_def rel_def [symmetric])
  have u: "unat (inm_n_rels db + 1) = ?i + 1" by (rule unat_suc64 [OF room])
  have nr: "inm_nodes ?db = with_first (inm_nodes db) ?C a b ?i" "inm_rels ?db = new_links (inm_rels db) ?C rel"
    using N S c(3) by (simp_all add: inm_nodes_def inm_rels_def)
  have lab: "map_option n_label \<circ> inm_nodes ?db = g_labels G" unfolding nr with_first_labels using H(3) by (simp add: fun_eq_iff)
  have edg: "map_option edge_of \<circ> inm_rels ?db = (map_of (g_edges G))(?i \<mapsto> (a, b, w, l))"
    unfolding nr new_links_edges rel using H(4) by (simp add: fun_eq_iff)
  have ie: "map_of (g_edges G) ?i = None" using i H(7) by simp
  have dm: "dom (inm_rels db) = dom (map_of (g_edges G))" "dom (inm_nodes db) = dom (g_labels G)" by (simp_all add: dom_def H(6,7) del: not_None_eq)
  have "dom (inm_rels ?db) = insert ?i (dom (inm_rels db))" "dom (inm_nodes ?db) = dom (inm_nodes db)"
    using arg_cong [OF edg, of dom] arg_cong [OF lab, of dom] unfolding dom_map_option_comp dm by simp_all
  then have "inm_inv ?db" using H(1) c o(3) n2(2) u inv(4) by (auto simp: inm_inv_def)
  moreover have "graph_ok (inm_nodes ?db) (inm_rels ?db) (chain_at (g_edges G @ [(?i, a, b, w, l)]))"
    unfolding nr chain_at_add using new_links_graph [OF H(2), of rel a b] new_links_valid [OF H(2) rv rel(1) iu] i nd iu rel by simp
  moreover have "map_option edge_of \<circ> inm_rels ?db = map_of (g_edges G @ [(?i, a, b, w, l)])"
    unfolding edg using ie by (auto simp: map_add_def fun_eq_iff split: option.splits)
  moreover have "distinct (map fst (g_edges G @ [(?i, a, b, w, l)]))" using H(5) ie by (simp add: map_of_eq_None_iff)
  ultimately have "inm_abs ?db (G\<lparr>g_edges := g_edges G @ [(?i, a, b, w, l)]\<rparr>)" using lab by (simp add: inm_abs_def)
  then show ?thesis using run u ie by simp
qed

section \<open>Listing and expanding\<close>

lemma append_values:
  assumes "al_inv l"
  shows "\<exists>l'. for_each (\<lambda>l (i, p). al_append l p) l es = Some l' \<and> al_inv l' \<and> al_list l' = al_list l @ map snd es"
  using assms
proof (induction es arbitrary: l)
  case (Cons e es)
  obtain l1 where l1: "al_append l (snd e) = Some l1" "al_inv l1" "al_list l1 = al_list l @ [snd e]" using alist.append_law [OF Cons.prems] by blast
  from Cons.IH [OF l1(2)] show ?case using l1 by (auto simp: case_prod_unfold)
qed simp

lemma sort_in_id_order:
  assumes "distinct (map fst xs)"
  shows "sort_key fst xs = in_id_order (map_of xs)"
proof (rule map_sorted_distinct_set_unique [where f = fst])
  have s: "set (in_id_order (map_of xs)) = set xs"
    using assms by (force simp: in_id_order_def dom_map_of_conv_image_fst)
  then show "set (sort_key fst xs) = set (in_id_order (map_of xs))" by simp
  show "inj_on fst (set (sort_key fst xs) \<union> set (in_id_order (map_of xs)))" using s assms by (simp add: distinct_map)
  have "map fst (in_id_order (map_of xs)) = sorted_list_of_set (dom (map_of xs))" by (simp add: in_id_order_def comp_def)
  then show "sorted (map fst (in_id_order (map_of xs)))" "distinct (map fst (in_id_order (map_of xs)))" by simp_all
  have "mset (map fst (sort_key fst xs)) = mset (map fst xs)" by simp
  then show "distinct (map fst (sort_key fst xs))" using assms by (metis mset_eq_imp_distinct_iff)
qed simp

text \<open>The entries of a table, read through their pointers, in the order of the ids.\<close>

lemma entries_in_id_order:
  assumes h: "ht_inv c" and r: "refs_ok (ht_map c) objs k" and key: "\<And>i x. via (ht_map c) objs i = Some x \<Longrightarrow> key x = i"
  shows "sort_key fst (map (\<lambda>p. (key (the (objs p)), f (the (objs p)))) (map snd (ht_drain c (ht_iterator_create c)))) = in_id_order (map_option f \<circ> via (ht_map c) objs)"
proof -
  let ?es = "ht_drain c (ht_iterator_create c)"
  have es: "map_of ?es = ht_map c" "distinct (map fst ?es)" using htable.entries_law [OF h] ht_drain_entries [of c] h by (auto simp: ht_inv_def)
  have e: "via (ht_map c) objs i = objs p \<and> objs p \<noteq> None \<and> key (the (objs p)) = i" if "(i, p) \<in> set ?es" for i p
  proof -
    have ip: "ht_map c i = Some p" using that es by (metis map_of_eq_Some_iff)
    then have "via (ht_map c) objs i = objs p" by (simp add: via_def)
    then show ?thesis using refs_okD(1) [OF r ip] key [of i] by fastforce
  qed
  have m: "map (\<lambda>p. (key (the (objs p)), f (the (objs p)))) (map snd ?es) = map (\<lambda>(i, p). (i, f (the (objs p)))) ?es"
    using e by (auto simp: comp_def)
  have "map_of (map (\<lambda>(i, p). (i, f (the (objs p)))) ?es) = map_option f \<circ> via (ht_map c) objs"
  proof
    fix i
    have "map_of (map (\<lambda>(i, p). (i, f (the (objs p)))) ?es) i = map_option (\<lambda>p. f (the (objs p))) (map_of ?es i)" by (simp add: map_of_map comp_def)
    then show "map_of (map (\<lambda>(i, p). (i, f (the (objs p)))) ?es) i = (map_option f \<circ> via (ht_map c) objs) i"
      using refs_okD(1) [OF r, of i] unfolding es(1) by (cases "ht_map c i") (auto simp: via_def)
  qed
  moreover have "distinct (map fst (map (\<lambda>(i, p). (i, f (the (objs p)))) ?es))" using es(2) by (simp add: comp_def case_prod_unfold)
  ultimately show ?thesis unfolding m using sort_in_id_order by fastforce
qed

lemma dir_filter_edges:
  assumes h: "inm_abs db G"
  shows "map (\<lambda>r. (r_id (the r), edge_of (the r))) (map (inm_rels db) (dir_filter (inm_rels db) n d (chain_at (g_edges G) n))) = filter (edge_matches n d) (g_edges G)"
proof -
  note H = inm_absD [OF h]
  have r: "\<exists>r. inm_rels db i = Some r \<and> r_id r = i \<and> edge_of r = e" if "(i, e) \<in> set (g_edges G)" for i e
  proof -
    have "map_of (g_edges G) i = Some e" using H(5) that by simp
    then obtain r where "inm_rels db i = Some r" "edge_of r = e" using H(4) [of i] by auto
    then show ?thesis using graph_ok_rel(1) [OF H(2)] by blast
  qed
  have "map (\<lambda>r. (r_id (the r), edge_of (the r))) (map (inm_rels db) (filter (\<lambda>i. dir_matches (the (inm_rels db i)) n d)
      (map fst (filter (edge_touches n) es)))) = filter (edge_matches n d) es" if "set es \<subseteq> set (g_edges G)" for es
    using that
  proof (induction es)
    case (Cons x es)
    obtain i e where x: "x = (i, e)" by (cases x)
    then have "(i, e) \<in> set (g_edges G)" using Cons.prems by simp
    from r [OF this] obtain r where "inm_rels db i = Some r" "r_id r = i" "edge_of r = e" by blast
    then show ?case using Cons x by (auto simp: edge_of_def dir_matches_def)
  qed simp
  then show ?thesis unfolding dir_filter_def chain_at_def by simp
qed

section \<open>Refinement\<close>

text \<open>The lists of all nodes and relationships are in the order of the hash table; here they are sorted by id.\<close>

fun inm_step :: "in_memory_graph \<Rightarrow> graph_op \<Rightarrow> (graph_res \<times> in_memory_graph) option" where
  "inm_step db (Create_Node l) = do { (i, db) \<leftarrow> in_memory_create_node db l; Some (Id i, db) }"
| "inm_step db (Create_Relationship a b w l) = do { (i, db) \<leftarrow> in_memory_create_relationship_weighted db a b w l; Some (Id i, db) }"
| "inm_step db (Read_Node i) = do { p \<leftarrow> in_memory_get_node db i; n \<leftarrow> inm_node_at db p; Some (Label (n_label n), db) }"
| "inm_step db (Read_Relationship i) = do { p \<leftarrow> in_memory_get_relationship db i; r \<leftarrow> inm_rel_at db p; Some (Edge (edge_of r), db) }"
| "inm_step db Get_Nodes = do { l \<leftarrow> in_memory_get_nodes db;
     Some (Labels (sort_key fst (map (\<lambda>p. (n_id (the (inm_node_at db p)), n_label (the (inm_node_at db p)))) (al_list l))), db) }"
| "inm_step db Get_Relationships = do { l \<leftarrow> in_memory_get_relationships db;
     Some (Edges (sort_key fst (map (\<lambda>p. (r_id (the (inm_rel_at db p)), edge_of (the (inm_rel_at db p)))) (al_list l))), db) }"
| "inm_step db (Expand n d) = do { l \<leftarrow> in_memory_expand db n d;
     Some (Edges (map (\<lambda>r. (r_id (the r), edge_of (the r))) (map (inm_rel_at db) (al_list l))), db) }"

fun inm_run :: "in_memory_graph \<Rightarrow> graph_op list \<Rightarrow> graph_res list \<times> in_memory_graph option" where
  "inm_run db [] = ([], Some db)"
| "inm_run db (op # ops) = (case inm_step db op of None \<Rightarrow> ([], None)
    | Some (r, db) \<Rightarrow> (case inm_run db ops of (rs, s) \<Rightarrow> (r # rs, s)))"

definition inm_room :: "nat \<Rightarrow> in_memory_graph \<Rightarrow> bool" where
  "inm_room k db \<longleftrightarrow> unat (inm_n_nodes db) + k < UNINITIALIZED_LONG \<and> unat (inm_n_rels db) + k < UNINITIALIZED_LONG"

lemma inm_create_relationship_exit:
  assumes h: "inm_abs db G" and x: "g_labels G a = None \<or> g_labels G b = None \<or> double_eq w UNINITIALIZED_WEIGHT"
  shows "in_memory_create_relationship_weighted db a b w l = None"
  using x inm_get_node(1) [OF inm_absD(1) [OF h], of a] inm_get_node(1) [OF inm_absD(1) [OF h], of b] inm_absD(6) [OF h]
  by (auto simp: in_memory_create_relationship_weighted_def split: Option.bind_split)

lemma inm_step_refines:
  assumes h: "inm_abs db G" and room: "inm_room (Suc k) db" and ok: "op_ok op"
  shows "(\<exists>r db' G'. inm_step db op = Some (r, db') \<and> graph_step G op r G' \<and> inm_abs db' G' \<and> inm_room k db') \<or>
    inm_step db op = None \<and> (\<forall>r G'. \<not> graph_step G op r G')"
proof -
  note H = inm_absD [OF h]
  have inv: "ht_inv (inm_cache_nodes db)" "ht_inv (inm_cache_rels db)" "refs_ok (ht_map (inm_cache_nodes db)) (inm_node_at db) (inm_brk db)"
    "refs_ok (ht_map (inm_cache_rels db)) (inm_rel_at db) (inm_brk db)" using H(1) by (simp_all add: inm_inv_def)
  have same: ?thesis if "inm_step db op = Some (r, db)" "graph_step G op r G" for r
    using that h room by (auto simp: inm_room_def)
  show ?thesis
  proof (cases op)
    case (Create_Node l)
    then show ?thesis using inm_create_node_ok [OF h, of l] room ok by (fastforce simp: inm_room_def)
  next
    case (Create_Relationship a b w l)
    show ?thesis
    proof (cases "g_labels G a \<noteq> None \<and> g_labels G b \<noteq> None \<and> \<not> double_eq w UNINITIALIZED_WEIGHT")
      case True
      then show ?thesis using inm_create_relationship_ok [OF h, of a b w l] room ok Create_Relationship by (fastforce simp: inm_room_def)
    next
      case False
      then show ?thesis using inm_create_relationship_exit [OF h, of a b w l] Create_Relationship by auto
    qed
  next
    case (Read_Node i)
    show ?thesis
    proof (cases "inm_nodes db i")
      case None
      then show ?thesis using Read_Node inm_get_node(1) [OF H(1) None] H(6) [of i] by (simp add: in_memory_get_node_def)
    next
      case (Some n)
      then have "inm_step db op = Some (Label (n_label n), db)"
        using Read_Node inm_get_node(2) [OF H(1) Some] graph_ok_node(3) [OF H(2) Some] by (auto simp: in_memory_get_node_def)
      moreover have "g_labels G i = Some (n_label n)" using H(3) [of i] Some by simp
      ultimately show ?thesis using Read_Node by (intro same) simp_all
    qed
  next
    case (Read_Relationship i)
    show ?thesis
    proof (cases "inm_rels db i")
      case None
      then show ?thesis using Read_Relationship inm_get_rel(1) [OF H(1) None] H(7) [of i] by (simp add: in_memory_get_relationship_def)
    next
      case (Some r)
      then have "inm_step db op = Some (Edge (edge_of r), db)"
        using Read_Relationship inm_get_rel(2) [OF H(1) Some] graph_ok_rel(3) [OF H(2) Some] by (auto simp: in_memory_get_relationship_def)
      moreover have "map_of (g_edges G) i = Some (edge_of r)" using H(4) [of i] Some by simp
      ultimately show ?thesis using Read_Relationship
        by (intro same [of "Edge (edge_of r)"]) (simp_all add: graph_step.read_relationship del: graph_step_simps)
    qed
  next
    case Get_Nodes
    obtain l where "in_memory_get_nodes db = Some l" "al_list l = map snd (ht_drain (inm_cache_nodes db) (ht_iterator_create (inm_cache_nodes db)))"
      using append_values [of "inmal_node_create (inm_node_at db)"] by (auto simp: in_memory_get_nodes_def inmal_node_create_def)
    moreover have "map_option n_label \<circ> inm_nodes db = g_labels G" using H(3) by (simp add: fun_eq_iff)
    ultimately have "inm_step db Get_Nodes = Some (Labels (in_id_order (g_labels G)), db)"
      using entries_in_id_order [OF inv(1,3), of n_id n_label] graph_ok_node(1) [OF H(2)] by (simp add: inm_nodes_def)
    then show ?thesis using Get_Nodes by (intro same) simp_all
  next
    case Get_Relationships
    obtain l where "in_memory_get_relationships db = Some l" "al_list l = map snd (ht_drain (inm_cache_rels db) (ht_iterator_create (inm_cache_rels db)))"
      using append_values [of "inmal_rel_create (inm_rel_at db)"] by (auto simp: in_memory_get_relationships_def inmal_rel_create_def)
    moreover have "map_option edge_of \<circ> inm_rels db = map_of (g_edges G)" using H(4) by (simp add: fun_eq_iff)
    ultimately have "inm_step db Get_Relationships = Some (Edges (in_id_order (map_of (g_edges G))), db)"
      using entries_in_id_order [OF inv(2,4), of r_id edge_of] graph_ok_rel(1) [OF H(2)] by (simp add: inm_rels_def)
    then show ?thesis using Get_Relationships by (intro same) simp_all
  next
    case (Expand n d)
    show ?thesis
    proof (cases "inm_nodes db n")
      case None
      then show ?thesis using Expand inm_get_node(1) [OF H(1) None] H(6) [of n] by (simp add: in_memory_expand_def)
    next
      case (Some nd)
      obtain l where "in_memory_expand db n d = Some l" "map (inm_rel_at db) (al_list l) = map (inm_rels db) (dir_filter (inm_rels db) n d (chain_at (g_edges G) n))"
        using inm_expand_ok [OF H(1,2) Some] by blast
      then have "inm_step db op = Some (Edges (filter (edge_matches n d) (g_edges G)), db)" using Expand dir_filter_edges [OF h, of n d] by (simp del: map_map)
      then show ?thesis using Expand Some H(6) [of n] by (intro same) simp_all
    qed
  qed
qed

lemma inm_run_refines:
  assumes "inm_abs db G" "inm_room (length ops) db" "list_all op_ok ops"
  shows "\<exists>s. graph_run G ops (fst (inm_run db ops)) s \<and> rel_option inm_abs (snd (inm_run db ops)) s"
  using assms
proof (induction ops arbitrary: db G)
  case (Cons op ops)
  have "inm_room (Suc (length ops)) db" "op_ok op" using Cons.prems by simp_all
  from inm_step_refines [OF Cons.prems(1) this] show ?case
  proof (elim disjE exE conjE)
    fix r db' G'
    assume s: "inm_step db op = Some (r, db')" "graph_step G op r G'" "inm_abs db' G'" "inm_room (length ops) db'"
    then obtain s' where "graph_run G' ops (fst (inm_run db' ops)) s'" "rel_option inm_abs (snd (inm_run db' ops)) s'"
      using Cons.IH Cons.prems(3) by fastforce
    then show ?thesis using s by (auto simp: case_prod_unfold intro: graph_run.step)
  qed (auto intro: graph_run.stuck)
qed (auto intro: graph_run.finish)

lemma in_memory_graph_create_abs: "inm_abs (in_memory_graph_create seeds) empty_graph"
proof -
  let ?db = "in_memory_graph_create seeds"
  have c: "ht_inv (inm_cache_nodes ?db)" "ht_map (inm_cache_nodes ?db) = Map.empty" "ht_inv (inm_cache_rels ?db)" "ht_map (inm_cache_rels ?db) = Map.empty"
    using d_ul_ul_create_ok [of "fst seeds"] d_ul_ul_create_ok [of "snd seeds"]
    by (simp_all add: in_memory_graph_create_def d_ul_node_create_def d_ul_rel_create_def d_ul_ul_create_def)
  then have "inm_nodes ?db = Map.empty" "inm_rels ?db = Map.empty" by (simp_all add: inm_nodes_def inm_rels_def via_def fun_eq_iff)
  then show ?thesis
    using c by (simp add: inm_abs_def inm_inv_def empty_graph_def graph_ok_def refs_ok_def in_memory_graph_create_def)
qed

text \<open>
  C28: The in-memory graph refines the same abstract property graph as the heap file: any sequence of operations on a new one gives results the
  graph allows, with the lists of all nodes and relationships up to their order, and the program ends early exactly at an operation the graph has no
  step for. Afterwards the structs and their links still represent the graph.
\<close>
theorem in_memory_refines_graph:
  assumes "length ops < UNINITIALIZED_LONG" "list_all op_ok ops"
  shows "\<exists>s. graph_run empty_graph ops (fst (inm_run (in_memory_graph_create seeds) ops)) s \<and>
    rel_option inm_abs (snd (inm_run (in_memory_graph_create seeds) ops)) s"
proof (rule inm_run_refines)
  show "inm_abs (in_memory_graph_create seeds) empty_graph" by (rule in_memory_graph_create_abs)
  show "inm_room (length ops) (in_memory_graph_create seeds)" using assms(1) by (simp add: inm_room_def in_memory_graph_create_def)
qed (rule assms(2))

theorem in_memory_refines_graph_witness:
  "\<exists>s. graph_run empty_graph [Create_Node 1, Create_Node 2, Create_Relationship 0 1 7 3, Expand 0 OUTGOING, Read_Node 5]
      (fst (inm_run (in_memory_graph_create (0, 0)) [Create_Node 1, Create_Node 2, Create_Relationship 0 1 7 3, Expand 0 OUTGOING, Read_Node 5])) s \<and>
    rel_option inm_abs (snd (inm_run (in_memory_graph_create (0, 0)) [Create_Node 1, Create_Node 2, Create_Relationship 0 1 7 3, Expand 0 OUTGOING, Read_Node 5])) s"
  by (rule in_memory_refines_graph) (simp_all add: ULONG_RANGE_def UNINITIALIZED_LONG_def)

end
