(* ===== verification/Snap_Import.thy ===== *)
theory Snap_Import
  imports In_Memory_Refines
begin

text \<open>
  The import of edge lists, \<^verbatim>\<open>query/snap_importer.c\<close>. The text is read with \<^verbatim>\<open>fgets\<close> and \<^verbatim>\<open>sscanf\<close>, every line is one relationship, and two
  dictionaries remember the ids that the nodes and the lines of the text got. \<^verbatim>\<open>import_from_txt\<close> and \<^verbatim>\<open>in_memory_import_from_txt\<close> have the same loop on different
  graphs; here it is one definition with the operations of the graph as arguments. The library calls to curl and zlib are parameters; the progress messages are left out.
\<close>

section \<open>Data sets\<close>

datatype dataset_t = C_ELEGANS | EMAIL_EU_CORE | DBLP | AMAZON | YOUTUBE | WIKIPEDIA | LIVE_JOURNAL | ORKUT | FRIENDSTER

fun get_url :: "dataset_t \<Rightarrow> string" where
  "get_url C_ELEGANS = ''https://snap.stanford.edu/data/C-elegans-frontal.txt.gz''"
| "get_url EMAIL_EU_CORE = ''https://snap.stanford.edu/data/email-Eu-core.txt.gz''"
| "get_url DBLP = ''https://snap.stanford.edu/data/bigdata/communities/com-dblp.ungraph.txt.gz''"
| "get_url AMAZON = ''https://snap.stanford.edu/data/bigdata/communities/com-amazon.ungraph.txt.gz''"
| "get_url YOUTUBE = ''https://snap.stanford.edu/data/bigdata/communities/com-youtube.ungraph.txt.gz''"
| "get_url WIKIPEDIA = ''https://snap.stanford.edu/data/wiki-topcats.txt.gz''"
| "get_url LIVE_JOURNAL = ''https://snap.stanford.edu/data/bigdata/communities/com-lj.ungraph.txt.gz''"
| "get_url ORKUT = ''https://snap.stanford.edu/data/bigdata/communities/com-orkut.ungraph.txt.gz''"
| "get_url FRIENDSTER = ''https://snap.stanford.edu/data/bigdata/communities/com-friendster.ungraph.txt.gz''"

fun get_no_nodes :: "dataset_t \<Rightarrow> ulong" where
  "get_no_nodes C_ELEGANS = 131"
| "get_no_nodes EMAIL_EU_CORE = 1005"
| "get_no_nodes DBLP = 317080"
| "get_no_nodes AMAZON = 334863"
| "get_no_nodes YOUTUBE = 1134890"
| "get_no_nodes WIKIPEDIA = 1791489"
| "get_no_nodes LIVE_JOURNAL = 3997962"
| "get_no_nodes ORKUT = 3072441"
| "get_no_nodes FRIENDSTER = 65608366"

fun get_no_rels :: "dataset_t \<Rightarrow> ulong" where
  "get_no_rels C_ELEGANS = 764"
| "get_no_rels EMAIL_EU_CORE = 25571"
| "get_no_rels DBLP = 1049866"
| "get_no_rels AMAZON = 925872"
| "get_no_rels YOUTUBE = 2987624"
| "get_no_rels WIKIPEDIA = 28511807"
| "get_no_rels LIVE_JOURNAL = 34681189"
| "get_no_rels ORKUT = 117185083"
| "get_no_rels FRIENDSTER = 1806067135"

section \<open>Downloading and unpacking\<close>

definition CHUNK :: nat where
  "CHUNK = 524288"

text \<open>
  \<open>curl\<close> is what a transfer from a URL hands to \<^verbatim>\<open>write_data\<close>, the pieces in their order, or \<open>None\<close> if it fails. The result is the return value with
  the contents of the file that was written.
\<close>

definition write_data :: "byte list \<Rightarrow> byte list \<Rightarrow> byte list" where
  "write_data ptr stream = stream @ ptr"

definition download_dataset :: "(string \<Rightarrow> byte list list option) \<Rightarrow> dataset_t \<Rightarrow> int \<times> byte list" where
  "download_dataset curl data = (case curl (get_url data) of None \<Rightarrow> (- 1, []) | Some pieces \<Rightarrow> (0, fold write_data pieces []))"

text \<open>
  \<open>inflate z next_in avail_out\<close> is a call of zlib on the stream \<open>z\<close>: the return code, the stream afterwards, and the output, which has at most \<open>avail_out\<close>
  bytes. The return value of \<^verbatim>\<open>uncompress_dataset\<close> comes with the contents of the output file; a call that never returns is \<open>None\<close>, as is the failed assertion.
\<close>

datatype z_ret = Z_OK | Z_STREAM_END | Z_NEED_DICT | Z_DATA_ERROR | Z_MEM_ERROR | Z_BUF_ERROR | Z_STREAM_ERROR

type_synonym 'z inflate = "'z \<Rightarrow> byte list \<Rightarrow> nat \<Rightarrow> z_ret \<times> 'z \<times> byte list \<times> byte list"

partial_function (option) inflate_chunk ::
    "'z inflate \<Rightarrow> 'z \<Rightarrow> byte list \<Rightarrow> byte list \<Rightarrow> (z_ret \<times> 'z \<times> byte list) option" where
  "inflate_chunk inflate z next_in out_file = (case inflate z next_in CHUNK of (ret, z, next_in, have) \<Rightarrow>
     if ret = Z_STREAM_ERROR then None
     else if ret = Z_NEED_DICT \<or> ret = Z_DATA_ERROR \<or> ret = Z_MEM_ERROR then Some (ret, z, out_file)
     else if length have = CHUNK then inflate_chunk inflate z next_in (out_file @ have)
     else Some (ret, z, out_file @ have))"

partial_function (option) inflate_file :: "'z inflate \<Rightarrow> 'z \<Rightarrow> byte list \<Rightarrow> byte list \<Rightarrow> (int \<times> byte list) option" where
  "inflate_file inflate z in_file out_file = do {
     (ret, z, out_file) \<leftarrow> inflate_chunk inflate z (take CHUNK in_file) out_file;
     if ret = Z_NEED_DICT \<or> ret = Z_DATA_ERROR \<or> ret = Z_MEM_ERROR then Some (- 1, out_file)
     else if ret \<noteq> Z_STREAM_END then inflate_file inflate z (drop CHUNK in_file) out_file
     else Some (0, out_file) }"

definition uncompress_dataset :: "'z inflate \<Rightarrow> 'z \<Rightarrow> byte list \<Rightarrow> (int \<times> byte list) option" where
  "uncompress_dataset inflate init in_gz_file = inflate_file inflate init in_gz_file []"

section \<open>Reading text\<close>

text \<open>\<^verbatim>\<open>fgets\<close> reads up to and including a newline, and at most \<open>n - 1\<close> characters; \<open>file_lines\<close> has what the calls return until the file ends.\<close>

fun fgets_loop :: "nat \<Rightarrow> string \<Rightarrow> string \<times> string" where
  "fgets_loop n [] = ([], [])"
| "fgets_loop n (c # cs) =
    (if n = 0 then ([], c # cs)
     else if c = CHR 0x0A then ([c], cs)
     else (case fgets_loop (n - 1) cs of (buf, rest) \<Rightarrow> (c # buf, rest)))"

definition fgets :: "nat \<Rightarrow> string \<Rightarrow> (string \<times> string) option" where
  "fgets n stream = (if stream = [] then None else Some (fgets_loop (n - 1) stream))"

lemma fgets_loop_rest: "length (snd (fgets_loop n cs)) \<le> length cs"
  by (induction n cs rule: fgets_loop.induct) (auto split: prod.split)

lemma fgets_shorter: "fgets CHUNK stream = Some (buf, rest) \<Longrightarrow> length rest < length stream"
  using fgets_loop_rest [of "CHUNK - 1 - 1" "tl stream"]
  by (cases stream) (auto simp: fgets_def CHUNK_def split: if_splits prod.splits)

function file_lines :: "string \<Rightarrow> string list" where
  "file_lines stream = (case fgets CHUNK stream of None \<Rightarrow> [] | Some (buf, rest) \<Rightarrow> buf # file_lines rest)"
  by pat_completeness auto
termination
  by (relation "measure length") (auto dest: fgets_shorter)

declare file_lines.simps [simp del]

definition isspace :: "char \<Rightarrow> bool" where
  "isspace c \<longleftrightarrow> c \<in> {CHR 0x20, CHR 0x09, CHR 0x0A, CHR 0x0B, CHR 0x0C, CHR 0x0D}"

definition isdigit :: "char \<Rightarrow> bool" where
  "isdigit c \<longleftrightarrow> 48 \<le> (of_char c :: nat) \<and> (of_char c :: nat) \<le> 57"

definition digits_value :: "string \<Rightarrow> nat" where
  "digits_value = foldl (\<lambda>n c. 10 * n + (of_char c - 48)) 0"

text \<open>
  \<^verbatim>\<open>%lu\<close>: white space, a sign, digits. A minus sign negates in \<^verbatim>\<open>unsigned long\<close>. Digits whose value has no 64 bits are undefined behaviour in C; here they have no
  result, as has text that does not match.
\<close>

definition scan_lu :: "string \<Rightarrow> (ulong \<times> string) option" where
  "scan_lu s =
    (let s = dropWhile isspace s;
         neg = (s \<noteq> [] \<and> hd s = CHR ''-'');
         s = (if s \<noteq> [] \<and> (hd s = CHR ''-'' \<or> hd s = CHR ''+'') then tl s else s);
         digits = takeWhile isdigit s;
         n = digits_value digits in
     if digits = [] \<or> ULONG_RANGE \<le> n then None
     else Some (if neg then (ULONG_RANGE - n) mod ULONG_RANGE else n, dropWhile isdigit s))"

text \<open>
  The two calls of \<^verbatim>\<open>sscanf\<close>. A string ends at its first \<^verbatim>\<open>NUL\<close>. The conversion \<^verbatim>\<open>%lf\<close> is an argument; no result depends on the values it has, since a weighted import
  has no result at any line that is no comment.
\<close>

definition sscanf_fields :: "(string \<Rightarrow> double_bits option) \<Rightarrow> bool \<Rightarrow> string \<Rightarrow> (ulong list \<times> double_bits option) option" where
  "sscanf_fields scan_lf weighted buf = do {
     let s = takeWhile (\<lambda>c. c \<noteq> CHR 0x00) buf;
     (a, s) \<leftarrow> scan_lu s;
     (b, s) \<leftarrow> scan_lu (dropWhile isspace s);
     if weighted then do { w \<leftarrow> scan_lf (dropWhile isspace s); Some ([a, b], Some w) }
     else Some ([a, b], None) }"

section \<open>The loop over the lines\<close>

text \<open>The array \<^verbatim>\<open>from_to\<close> has two elements; an access to another one has no result.\<close>

definition import_field :: "('s \<Rightarrow> ulong \<Rightarrow> (ulong \<times> 's) option) \<Rightarrow> 's \<times> (ulong, ulong) htable \<times> ulong list \<Rightarrow> nat \<Rightarrow>
    ('s \<times> (ulong, ulong) htable \<times> ulong list) option" where
  "import_field mk_node = (\<lambda>(s, txt_to_db_id_n, from_to) i.
    (if i < length from_to then do {
       known \<leftarrow> ht_contains txt_to_db_id_n (from_to ! i);
       if known then do {
         db_id \<leftarrow> ht_get_direct txt_to_db_id_n (from_to ! i);
         Some (s, txt_to_db_id_n, from_to[i := db_id]) }
       else do {
         (db_id, s) \<leftarrow> mk_node s (from_to ! i);
         txt_to_db_id_n \<leftarrow> ht_insert txt_to_db_id_n (from_to ! i) db_id;
         Some (s, txt_to_db_id_n, from_to[i := db_id]) } }
     else None))"

record 's importing =
  im_graph :: 's
  im_nodes :: "(ulong, ulong) htable"
  im_rels :: "(ulong, ulong) htable"
  im_lines :: ulong

definition factor_percent :: ulong where
  "factor_percent = 100"

definition import_line :: "('s \<Rightarrow> ulong \<Rightarrow> (ulong \<times> 's) option) \<Rightarrow> ('s \<Rightarrow> ulong \<Rightarrow> ulong \<Rightarrow> double_bits option \<Rightarrow> ulong \<Rightarrow> (ulong \<times> 's) option) \<Rightarrow>
    (string \<Rightarrow> double_bits option) \<Rightarrow> bool \<Rightarrow> dataset_t \<Rightarrow> 's importing \<Rightarrow> string \<Rightarrow> 's importing option" where
  "import_line mk_node mk_rel scan_lf weighted dataset st buf =
    (if get_no_rels dataset div factor_percent = 0 then None
     else if buf \<noteq> [] \<and> hd buf = CHR ''#'' then Some st
     else do {
       (from_to, weight) \<leftarrow> sscanf_fields scan_lf weighted buf;
       (s, txt_to_db_id_n, from_to) \<leftarrow> for_each (import_field mk_node) (im_graph st, im_nodes st, from_to) [0..<(if weighted then 3 else 2)];
       (db_id, s) \<leftarrow> mk_rel s (from_to ! 0) (from_to ! 1) weight (im_lines st);
       txt_to_db_id_r \<leftarrow> ht_insert (im_rels st) (im_lines st) db_id;
       Some \<lparr>im_graph = s, im_nodes = txt_to_db_id_n, im_rels = txt_to_db_id_r, im_lines = (im_lines st + 1) mod ULONG_RANGE\<rparr> })"

definition import_start :: "nat \<times> nat \<Rightarrow> 's \<Rightarrow> 's importing" where
  "import_start seeds s = \<lparr>im_graph = s, im_nodes = d_ul_ul_create (fst seeds), im_rels = d_ul_ul_create (snd seeds), im_lines = 0\<rparr>"

section \<open>The heap file\<close>

definition set_bulk :: "heap_file \<Rightarrow> bool \<Rightarrow> heap_file" where
  "set_bulk hf b = hf\<lparr>hf_cache := (hf_cache hf)\<lparr>pc_bulk_import := b\<rparr>\<rparr>"

definition set_pdb :: "heap_file \<Rightarrow> phy_database \<Rightarrow> heap_file" where
  "set_pdb hf db = hf\<lparr>hf_cache := (hf_cache hf)\<lparr>pc_pdb := db\<rparr>\<rparr>"

definition num_pages :: "ulong \<Rightarrow> nat \<Rightarrow> ulong" where
  "num_pages n slots = n * slots div SLOTS_PER_PAGE + (if n * slots mod SLOTS_PER_PAGE \<noteq> 0 then 1 else 0)"

text \<open>The weight of a relationship of an import without weights is the double 1.0.\<close>

definition import_create_relationship :: "heap_file \<Rightarrow> ulong \<Rightarrow> ulong \<Rightarrow> double_bits option \<Rightarrow> ulong \<Rightarrow> (ulong \<times> heap_file) option" where
  "import_create_relationship hf from_node to_node weight label =
     create_relationship hf from_node to_node (case weight of Some w \<Rightarrow> w | None \<Rightarrow> 0x3FF0000000000000) label False"

text \<open>The file is \<open>None\<close> if it cannot be opened.\<close>

definition import_from_txt :: "(string \<Rightarrow> double_bits option) \<Rightarrow> nat \<times> nat \<Rightarrow> heap_file \<Rightarrow> string option \<Rightarrow> bool \<Rightarrow> dataset_t \<Rightarrow>
    (((ulong, ulong) htable \<times> (ulong, ulong) htable) \<times> heap_file) option" where
  "import_from_txt scan_lf seeds hf path weighted dataset = do {
     in_file \<leftarrow> path;
     let hf = set_bulk hf True;
     db \<leftarrow> allocate_pages (pc_pdb (hf_cache hf)) node_ft (num_pages (get_no_nodes dataset) NUM_SLOTS_PER_NODE) False;
     db \<leftarrow> allocate_pages db relationship_ft (num_pages (get_no_rels dataset) NUM_SLOTS_PER_REL) False;
     st \<leftarrow> for_each (import_line (\<lambda>hf l. create_node hf l False) import_create_relationship scan_lf weighted dataset)
       (import_start seeds (set_pdb hf db)) (file_lines in_file);
     Some ((im_nodes st, im_rels st), set_bulk (im_graph st) False) }"

text \<open>The temporary files of \<^verbatim>\<open>import\<close> are written and read back; the bytes of the unpacked one are the characters of the text.\<close>

definition import :: "(string \<Rightarrow> byte list list option) \<Rightarrow> 'z inflate \<Rightarrow> 'z \<Rightarrow> (string \<Rightarrow> double_bits option) \<Rightarrow> nat \<times> nat \<Rightarrow> heap_file \<Rightarrow> bool \<Rightarrow> dataset_t \<Rightarrow>
    heap_file option" where
  "import curl inflate init scan_lf seeds hf weighted dataset =
    (case download_dataset curl dataset of (result, gz) \<Rightarrow>
     if result \<noteq> 0 then None
     else do {
       (result, txt) \<leftarrow> uncompress_dataset inflate init gz;
       if result \<noteq> 0 then None
       else do {
         (dicts, hf) \<leftarrow> import_from_txt scan_lf seeds hf (Some (map (\<lambda>b. char_of (unat b)) txt)) weighted dataset;
         Some hf } })"

section \<open>The in-memory graph\<close>

definition in_memory_import_relationship :: "in_memory_graph \<Rightarrow> ulong \<Rightarrow> ulong \<Rightarrow> double_bits option \<Rightarrow> ulong \<Rightarrow> (ulong \<times> in_memory_graph) option" where
  "in_memory_import_relationship g from_node to_node weight label =
    (case weight of Some w \<Rightarrow> in_memory_create_relationship_weighted g from_node to_node w label
     | None \<Rightarrow> in_memory_create_relationship g from_node to_node label)"

definition in_memory_import_from_txt :: "(string \<Rightarrow> double_bits option) \<Rightarrow> nat \<times> nat \<Rightarrow> in_memory_graph \<Rightarrow> string option \<Rightarrow> bool \<Rightarrow> dataset_t \<Rightarrow>
    (((ulong, ulong) htable \<times> (ulong, ulong) htable) \<times> in_memory_graph) option" where
  "in_memory_import_from_txt scan_lf seeds g path weighted dataset = do {
     in_file \<leftarrow> path;
     st \<leftarrow> for_each (import_line in_memory_create_node in_memory_import_relationship scan_lf weighted dataset) (import_start seeds g) (file_lines in_file);
     Some ((im_nodes st, im_rels st), im_graph st) }"

end
