(* ===== verification/Edge_Text.thy ===== *)
theory Edge_Text
  imports Snap_Import
begin

text \<open>
  The edges that the importer reads from a text: lines as \<^verbatim>\<open>fgets\<close> splits them, comments left out, two numbers on each line. Reading a printed edge list gives the list back.
\<close>

section \<open>The edges of a text\<close>

definition is_comment :: "string \<Rightarrow> bool" where
  "is_comment buf \<longleftrightarrow> buf \<noteq> [] \<and> hd buf = CHR ''#''"

definition line_edge :: "string \<Rightarrow> (ulong \<times> ulong) option" where
  "line_edge buf = do {
     (a, s) \<leftarrow> scan_lu (takeWhile (\<lambda>c. c \<noteq> CHR 0x00) buf);
     (b, s) \<leftarrow> scan_lu (dropWhile isspace s);
     Some (a, b) }"

definition text_edges :: "string \<Rightarrow> (ulong \<times> ulong) list option" where
  "text_edges t = those (map line_edge (filter (\<lambda>l. \<not> is_comment l) (file_lines t)))"

lemma sscanf_edge: "sscanf_fields scan_lf False buf = map_option (\<lambda>(a, b). ([a, b], None)) (line_edge buf)"
  by (cases "scan_lu (takeWhile (\<lambda>c. c \<noteq> CHR 0x00) buf)") (auto simp: sscanf_fields_def line_edge_def split: Option.bind_split)

lemma scan_lu_range: "scan_lu s = Some (n, s') \<Longrightarrow> n < ULONG_RANGE"
  by (auto simp: scan_lu_def Let_def ULONG_RANGE_def split: if_splits)

lemma line_edge_range: "line_edge buf = Some (a, b) \<Longrightarrow> a < ULONG_RANGE \<and> b < ULONG_RANGE"
  by (auto simp: line_edge_def runs dest: scan_lu_range)

section \<open>Texts of edges\<close>

fun decimal :: "nat \<Rightarrow> string" where
  "decimal n = (if n < 10 then [char_of (48 + n)] else decimal (n div 10) @ [char_of (48 + n mod 10)])"

declare decimal.simps [simp del]

definition edge_line :: "char \<Rightarrow> ulong \<times> ulong \<Rightarrow> string" where
  "edge_line sep e = decimal (fst e) @ sep # decimal (snd e) @ [CHR 0x0A]"

definition edge_text :: "string list \<Rightarrow> char \<Rightarrow> (ulong \<times> ulong) list \<Rightarrow> string" where
  "edge_text cs sep es = concat (map (\<lambda>c. CHR ''#'' # c @ [CHR 0x0A]) cs) @ concat (map (edge_line sep) es)"

lemma digit_char: "d < 10 \<Longrightarrow> of_char (char_of (48 + d) :: char) = 48 + d" for d :: nat
  by simp

lemma decimal_digits: "\<forall>c \<in> set (decimal n). isdigit c" "decimal n \<noteq> []" "digits_value (decimal n) = n"
proof (induction n rule: decimal.induct)
  case (1 n)
  { case 1 then show ?case using "1.IH"(1) by (subst decimal.simps) (auto simp: isdigit_def) }
  { case 2 then show ?case by (subst decimal.simps) simp }
  { case 3 then show ?case using "1.IH"(3) by (subst decimal.simps) (auto simp: digits_value_def) }
qed

lemma decimal_length: "n < 10 ^ k \<Longrightarrow> 0 < k \<Longrightarrow> length (decimal n) \<le> k"
proof (induction k arbitrary: n)
  case (Suc k)
  show ?case
  proof (cases "n < 10")
    case False
    then have "0 < k" "n div 10 < 10 ^ k" using Suc.prems(1) by (cases k; simp)+
    then show ?thesis using Suc.IH [of "n div 10"] False by (subst decimal.simps) simp
  qed (subst decimal.simps, simp)
qed simp

lemma digit_plain: "isdigit c \<Longrightarrow> \<not> isspace c \<and> c \<noteq> CHR ''-'' \<and> c \<noteq> CHR ''+'' \<and> c \<noteq> CHR ''#'' \<and> c \<noteq> CHR 0x0A \<and> c \<noteq> CHR 0x00"
  by (auto simp: isdigit_def isspace_def)

lemma scan_decimal:
  assumes n: "n < ULONG_RANGE" and r: "rest \<noteq> [] \<Longrightarrow> \<not> isdigit (hd rest)"
  shows "scan_lu (decimal n @ rest) = Some (n, rest)"
proof -
  obtain d ds where d: "decimal n = d # ds" using decimal_digits(2) [of n] by (cases "decimal n") auto
  have dg: "isdigit d" "\<forall>c \<in> set ds. isdigit c" using decimal_digits(1) [of n] d by simp_all
  have "takeWhile isdigit (decimal n @ rest) = decimal n" "dropWhile isdigit (decimal n @ rest) = rest"
    using decimal_digits(1) [of n] r by (cases rest; simp add: takeWhile_append2 dropWhile_append2)+
  moreover have "dropWhile isspace (decimal n @ rest) = decimal n @ rest" "hd (decimal n @ rest) = d" using digit_plain [OF dg(1)] by (simp_all add: d)
  ultimately show ?thesis using digit_plain [OF dg(1)] n decimal_digits(2,3) [of n] by (simp add: scan_lu_def Let_def)
qed

lemma line_edge_line:
  assumes e: "fst e < ULONG_RANGE" "snd e < ULONG_RANGE" and sep: "sep = CHR 0x20 \<or> sep = CHR 0x09"
  shows "line_edge (edge_line sep e) = Some e" "\<not> is_comment (edge_line sep e)"
proof -
  have sp: "isspace sep" "\<not> isdigit sep" "sep \<noteq> CHR 0x00" using sep by (auto simp: isspace_def isdigit_def)
  have "\<forall>c \<in> set (edge_line sep e). c \<noteq> CHR 0x00" using decimal_digits(1) [of "fst e"] decimal_digits(1) [of "snd e"] digit_plain sp(3) by (auto simp: edge_line_def)
  then have z: "takeWhile (\<lambda>c. c \<noteq> CHR 0x00) (edge_line sep e) = edge_line sep e" by (simp add: takeWhile_eq_all_conv)
  have nl: "\<not> isdigit (CHR 0x0A)" by (simp add: isdigit_def)
  obtain d ds where d: "decimal (snd e) = d # ds" using decimal_digits(2) [of "snd e"] by (cases "decimal (snd e)") auto
  then have "\<not> isspace d" using decimal_digits(1) [of "snd e"] digit_plain by auto
  then have "dropWhile isspace (sep # decimal (snd e) @ [CHR 0x0A]) = decimal (snd e) @ [CHR 0x0A]" using sp(1) d by simp
  then show "line_edge (edge_line sep e) = Some e"
    unfolding line_edge_def z unfolding edge_line_def using scan_decimal [OF e(1), of "sep # decimal (snd e) @ [CHR 0x0A]"] scan_decimal [OF e(2), of "[CHR 0x0A]"] sp nl by simp
  obtain c cs where c: "decimal (fst e) = c # cs" using decimal_digits(2) [of "fst e"] by (cases "decimal (fst e)") auto
  then show "\<not> is_comment (edge_line sep e)" using decimal_digits(1) [of "fst e"] digit_plain [of c] by (simp add: is_comment_def edge_line_def)
qed

lemma fgets_loop_line: "CHR 0x0A \<notin> set l \<Longrightarrow> length l < n \<Longrightarrow> fgets_loop n (l @ CHR 0x0A # rest) = (l @ [CHR 0x0A], rest)"
  by (induction l arbitrary: n) auto

lemma file_lines_line:
  assumes "CHR 0x0A \<notin> set l" "length l < CHUNK - 1"
  shows "file_lines (l @ CHR 0x0A # rest) = (l @ [CHR 0x0A]) # file_lines rest"
  using fgets_loop_line [OF assms] by (subst file_lines.simps) (simp add: fgets_def)

lemma file_lines_empty [simp]: "file_lines [] = []"
  by (subst file_lines.simps) (simp add: fgets_def)

lemma file_lines_length: "length (file_lines t) \<le> length t"
proof (induction t rule: file_lines.induct)
  case (1 t)
  then show ?case using fgets_shorter [of t] by (subst file_lines.simps) (fastforce split: option.split)
qed

lemma file_lines_edge:
  assumes e: "fst e < ULONG_RANGE" "snd e < ULONG_RANGE" and sep: "sep = CHR 0x20 \<or> sep = CHR 0x09"
  shows "file_lines (edge_line sep e @ rest) = edge_line sep e # file_lines rest"
proof -
  have "length (decimal n) \<le> 20" if "n < ULONG_RANGE" for n using decimal_length [of n 20] that by (simp add: ULONG_RANGE_def)
  from this [OF e(1)] this [OF e(2)] have "length (decimal (fst e) @ sep # decimal (snd e)) < CHUNK - 1" by (simp add: CHUNK_def)
  moreover have "CHR 0x0A \<notin> set (decimal (fst e) @ sep # decimal (snd e))"
    using decimal_digits(1) [of "fst e"] decimal_digits(1) [of "snd e"] digit_plain sep by auto
  ultimately show ?thesis using file_lines_line [of "decimal (fst e) @ sep # decimal (snd e)" rest] by (simp add: edge_line_def)
qed

lemma text_edges_text:
  assumes cs: "\<forall>c \<in> set cs. CHR 0x0A \<notin> set c \<and> length c + 2 < CHUNK" and es: "\<forall>e \<in> set es. fst e < ULONG_RANGE \<and> snd e < ULONG_RANGE"
    and sep: "sep = CHR 0x20 \<or> sep = CHR 0x09"
  shows "text_edges (edge_text cs sep es) = Some es"
proof -
  have "file_lines (concat (map (edge_line sep) es)) = map (edge_line sep) es"
    using es file_lines_edge [OF _ _ sep] by (induction es) simp_all
  moreover have "file_lines (concat (map (\<lambda>c. CHR ''#'' # c @ [CHR 0x0A]) cs) @ rest) = map (\<lambda>c. CHR ''#'' # c @ [CHR 0x0A]) cs @ file_lines rest" for rest
    using cs
  proof (induction cs)
    case (Cons c cs)
    then have "length (CHR ''#'' # c) < CHUNK - 1" by (simp add: less_diff_conv)
    then show ?case using Cons file_lines_line [of "CHR ''#'' # c"] by simp
  qed simp
  ultimately have "filter (\<lambda>l. \<not> is_comment l) (file_lines (edge_text cs sep es)) = map (edge_line sep) es"
    using es line_edge_line(2) [OF _ _ sep] by (simp add: edge_text_def filter_map comp_def is_comment_def [of "_ # _"])
  moreover have "those (map line_edge (map (edge_line sep) es)) = Some es"
    using es line_edge_line(1) [OF _ _ sep] by (induction es) simp_all
  ultimately show ?thesis by (simp add: text_edges_def)
qed

end
