(* ===== verification/Import_Faithful.thy ===== *)
theory Import_Faithful
  imports Edge_Text
begin

text \<open>
  Imports copy edge lists. \<open>graph_target\<close> is what the loop over the lines needs of the graph that it fills; heap file and in-memory graph interpret it.
\<close>

section \<open>The graph of an edge list\<close>

text \<open>
  The graph of an edge list, with the dictionaries of the import: \<open>n\<close> maps the nodes of the text to the nodes of the graph one to one, and these have the nodes of the text as
  labels; \<open>r\<close> maps the number of a line to its relationship, whose label is the number.
\<close>

definition edge_at :: "(ulong \<times> ulong) list \<Rightarrow> (ulong \<rightharpoonup> ulong) \<Rightarrow> (ulong \<rightharpoonup> ulong) \<Rightarrow> nat \<Rightarrow> ulong \<times> edge" where
  "edge_at es n r k = (the (r k), the (n (fst (es ! k))), the (n (snd (es ! k))), 0x3FF0000000000000, k)"

definition imported :: "(ulong \<times> ulong) list \<Rightarrow> (ulong \<rightharpoonup> ulong) \<Rightarrow> (ulong \<rightharpoonup> ulong) \<Rightarrow> pgraph \<Rightarrow> bool" where
  "imported es n r G \<longleftrightarrow> dom n = fst ` set es \<union> snd ` set es \<and> (\<forall>i x. g_labels G i = Some x \<longleftrightarrow> n x = Some i) \<and>
     dom r = {..<length es} \<and> inj_on r {..<length es} \<and> g_edges G = map (edge_at es n r) [0..<length es]"

lemma imported_empty: "imported [] Map.empty Map.empty empty_graph"
  by (simp add: imported_def empty_graph_def)

definition copies :: "('s \<Rightarrow> pgraph \<Rightarrow> bool) \<Rightarrow> (ulong \<times> ulong) list \<Rightarrow> 's importing \<Rightarrow> bool" where
  "copies rep es st \<longleftrightarrow> ht_inv (im_nodes st) \<and> ht_inv (im_rels st) \<and> im_lines st = length es \<and>
     (\<exists>G. rep (im_graph st) G \<and> imported es (ht_map (im_nodes st)) (ht_map (im_rels st)) G)"

text \<open>A text with a line that is neither a comment nor an edge is not imported.\<close>

lemma loop_exit:
  "for_each (import_line mk_node mk_rel scan_lf False ds) st ls = Some st' \<Longrightarrow> those (map line_edge (filter (\<lambda>l. \<not> is_comment l) ls)) \<noteq> None"
  by (induction ls arbitrary: st) (auto simp: import_line_def is_comment_def sscanf_edge runs split: if_splits option.splits)

section \<open>Filling a graph\<close>

locale graph_target =
  fixes rep :: "'s \<Rightarrow> pgraph \<Rightarrow> bool"
    and room :: "nat \<Rightarrow> 's \<Rightarrow> bool"
    and mk_node :: "'s \<Rightarrow> ulong \<Rightarrow> (ulong \<times> 's) option"
    and mk_rel :: "'s \<Rightarrow> ulong \<Rightarrow> ulong \<Rightarrow> double_bits option \<Rightarrow> ulong \<Rightarrow> (ulong \<times> 's) option"
  assumes node_law: "rep s G \<Longrightarrow> room (Suc k) s \<Longrightarrow> l < ULONG_RANGE \<Longrightarrow>
      \<exists>i s'. mk_node s l = Some (i, s') \<and> room k s' \<and> g_labels G i = None \<and> rep s' (G\<lparr>g_labels := (g_labels G)(i \<mapsto> l)\<rparr>)"
    and rel_law: "rep s G \<Longrightarrow> room (Suc k) s \<Longrightarrow> g_labels G a \<noteq> None \<Longrightarrow> g_labels G b \<noteq> None \<Longrightarrow> l < ULONG_RANGE \<Longrightarrow>
      \<exists>i s'. mk_rel s a b None l = Some (i, s') \<and> room k s' \<and> map_of (g_edges G) i = None \<and>
        rep s' (G\<lparr>g_edges := g_edges G @ [(i, a, b, 0x3FF0000000000000, l)]\<rparr>)"
    and room_mono: "room k s \<Longrightarrow> j \<le> k \<Longrightarrow> room j s"
begin

text \<open>A field of a line becomes the id of its node, which is created if the dictionary does not have it.\<close>

lemma field_step:
  assumes a: "rep s G" "room (Suc k) s" and d: "ht_inv d" "\<forall>i x. g_labels G i = Some x \<longleftrightarrow> ht_map d x = Some i"
    and i: "i < length ft" "ft ! i < ULONG_RANGE"
  shows "\<exists>s' d' G' j. import_field mk_node (s, d, ft) i = Some (s', d', ft[i := j]) \<and> rep s' G' \<and> room k s' \<and> ht_inv d' \<and>
    (\<forall>i x. g_labels G' i = Some x \<longleftrightarrow> ht_map d' x = Some i) \<and> g_edges G' = g_edges G \<and> ht_map d' (ft ! i) = Some j \<and>
    ht_map d \<subseteq>\<^sub>m ht_map d' \<and> dom (ht_map d') = insert (ft ! i) (dom (ht_map d))"
proof (cases "ht_map d (ft ! i)")
  case (Some j)
  then have "import_field mk_node (s, d, ft) i = Some (s, d, ft[i := j])"
    using i d(1) by (simp add: import_field_def ht_contains_def ht_get_direct_def htable.get_law)
  then show ?thesis using Some a d room_mono [OF a(2), of k] by (intro exI conjI) auto
next
  case None
  obtain j s' where n: "mk_node s (ft ! i) = Some (j, s')" "room k s'" "g_labels G j = None" "rep s' (G\<lparr>g_labels := (g_labels G)(j \<mapsto> ft ! i)\<rparr>)"
    using node_law [OF a i(2)] by blast
  obtain d' where d': "ht_insert d (ft ! i) j = Some d'" "ht_inv d'" "ht_map d' = (ht_map d)(ft ! i \<mapsto> j)" using htable.insert_law [OF d(1)] by blast
  have "import_field mk_node (s, d, ft) i = Some (s', d', ft[i := j])"
    using i None d(1) n(1) d'(1) by (simp add: import_field_def ht_contains_def htable.get_law)
  moreover have "ht_map d x \<noteq> Some j" for x using d(2) n(3) by (metis option.distinct(1))
  then have "\<forall>k x. ((g_labels G)(j \<mapsto> ft ! i)) k = Some x \<longleftrightarrow> ht_map d' x = Some k" using d(2) n(3) None d'(3) by auto
  ultimately show ?thesis using n(2,4) d'(2,3) None
    by (intro exI [of _ s'] exI [of _ d'] exI [of _ "G\<lparr>g_labels := (g_labels G)(j \<mapsto> ft ! i)\<rparr>"] exI [of _ j]) (auto simp: map_le_def)
qed

lemma line_step:
  assumes c: "copies rep es st" and room: "room (Suc (Suc (Suc k))) (im_graph st)" and l: "\<not> is_comment buf" "line_edge buf = Some e"
    and n: "length es < ULONG_RANGE - 1" and ds: "get_no_rels ds div factor_percent \<noteq> 0"
  shows "\<exists>st'. import_line mk_node mk_rel scan_lf False ds st buf = Some st' \<and> copies rep (es @ [e]) st' \<and> room k (im_graph st')"
proof -
  obtain a b where e: "e = (a, b)" by (cases e)
  have ab: "a < ULONG_RANGE" "b < ULONG_RANGE" using line_edge_range [of buf a b] l e by simp_all
  obtain G where G: "rep (im_graph st) G" "imported es (ht_map (im_nodes st)) (ht_map (im_rels st)) G"
    and h: "ht_inv (im_nodes st)" "ht_inv (im_rels st)" "im_lines st = length es" using c by (auto simp: copies_def)
  let ?n = "ht_map (im_nodes st)" and ?r = "ht_map (im_rels st)" and ?k = "length es"
  have I: "dom ?n = fst ` set es \<union> snd ` set es" "\<forall>i x. g_labels G i = Some x \<longleftrightarrow> ?n x = Some i" "dom ?r = {..<?k}" "inj_on ?r {..<?k}"
    "g_edges G = map (edge_at es ?n ?r) [0..<?k]" using G(2) by (simp_all add: imported_def)
  obtain s1 d1 G1 i where 1: "import_field mk_node (im_graph st, im_nodes st, [a, b]) 0 = Some (s1, d1, [i, b])" "rep s1 G1" "room (Suc (Suc k)) s1" "ht_inv d1"
    "\<forall>i x. g_labels G1 i = Some x \<longleftrightarrow> ht_map d1 x = Some i" "g_edges G1 = g_edges G" "ht_map d1 a = Some i" "?n \<subseteq>\<^sub>m ht_map d1"
    "dom (ht_map d1) = insert a (dom ?n)" using field_step [OF G(1) room h(1) I(2), of 0 "[a, b]"] ab by auto
  obtain s2 d2 G2 j where 2: "import_field mk_node (s1, d1, [i, b]) 1 = Some (s2, d2, [i, j])" "rep s2 G2" "room (Suc k) s2" "ht_inv d2"
    "\<forall>i x. g_labels G2 i = Some x \<longleftrightarrow> ht_map d2 x = Some i" "g_edges G2 = g_edges G" "ht_map d2 b = Some j" "ht_map d1 \<subseteq>\<^sub>m ht_map d2"
    "dom (ht_map d2) = insert b (dom (ht_map d1))" using field_step [OF 1(2-5), of 1 "[i, b]"] ab 1(6) by auto
  have ij: "ht_map d2 a = Some i" "?n \<subseteq>\<^sub>m ht_map d2" using 1(7,8) 2(8) by (auto simp: map_le_def dom_def)
  then have lab: "g_labels G2 i \<noteq> None" "g_labels G2 j \<noteq> None" using 2(5,7) by auto
  have kr: "?k < ULONG_RANGE" using n by simp
  obtain q s3 where 3: "mk_rel s2 i j None ?k = Some (q, s3)" "room k s3" "map_of (g_edges G) q = None"
    "rep s3 (G2\<lparr>g_edges := g_edges G @ [(q, i, j, 0x3FF0000000000000, ?k)]\<rparr>)" using rel_law [OF 2(2,3) lab kr] 2(6) by auto
  obtain d3 where 4: "ht_insert (im_rels st) ?k q = Some d3" "ht_inv d3" "ht_map d3 = ?r(?k \<mapsto> q)" using htable.insert_law [OF h(2)] by blast
  define st' where "st' = \<lparr>im_graph = s3, im_nodes = d2, im_rels = d3, im_lines = ?k + 1\<rparr>"
  have k1: "(?k + 1) mod ULONG_RANGE = ?k + 1" using n by simp
  have ix: "[0..<2] = [0, 1]" by (simp add: upt_conv_Cons)
  have run: "import_line mk_node mk_rel scan_lf False ds st buf = Some st'"
    using ds l e 1(1) 2(1) 3(1) 4(1) h(3) k1 by (auto simp: import_line_def is_comment_def sscanf_edge ix st'_def)
  have q: "?r x \<noteq> Some q" if "x < ?k" for x
  proof -
    have "the (?r x) \<in> fst ` set (g_edges G)" using that I(5) by (force simp: edge_at_def)
    then have "the (?r x) \<noteq> q" using 3(3) by (metis map_of_eq_None_iff)
    then show ?thesis by auto
  qed
  have old: "edge_at (es @ [e]) (ht_map d2) (ht_map d3) x = edge_at es ?n ?r x" if x: "x < ?k" for x
  proof -
    have "es ! x \<in> set es" using x by simp
    then have "fst (es ! x) \<in> dom ?n" "snd (es ! x) \<in> dom ?n" using I(1) by auto
    then have "ht_map d2 (fst (es ! x)) = ?n (fst (es ! x))" "ht_map d2 (snd (es ! x)) = ?n (snd (es ! x))" using ij(2) by (simp_all add: map_le_def)
    then show ?thesis using x 4(3) by (simp add: edge_at_def nth_append)
  qed
  have "g_edges G @ [(q, i, j, 0x3FF0000000000000, ?k)] = map (edge_at (es @ [e]) (ht_map d2) (ht_map d3)) [0..<length (es @ [e])]"
  proof -
    have "edge_at (es @ [e]) (ht_map d2) (ht_map d3) ?k = (q, i, j, 0x3FF0000000000000, ?k)" using ij(1) 2(7) 4(3) e by (simp add: edge_at_def)
    then show ?thesis using old I(5) by simp
  qed
  moreover have "inj_on (ht_map d3) {..<length (es @ [e])}" using I(4) q 4(3) by (auto simp: inj_on_def less_Suc_eq; metis)
  moreover have "dom (ht_map d3) = {..<length (es @ [e])}" using I(3) 4(3) by auto
  moreover have "dom (ht_map d2) = fst ` set (es @ [e]) \<union> snd ` set (es @ [e])" using I(1) 1(9) 2(9) e by auto
  ultimately have "imported (es @ [e]) (ht_map d2) (ht_map d3) (G2\<lparr>g_edges := g_edges G @ [(q, i, j, 0x3FF0000000000000, ?k)]\<rparr>)"
    using 2(5) by (simp add: imported_def)
  then have "copies rep (es @ [e]) st'" using 3(4) 2(4) 4(2) by (auto simp: copies_def st'_def)
  then show ?thesis using run 3(2) by (auto simp: st'_def)
qed

lemma loop_copies:
  assumes "copies rep es st" "room (3 * length es') (im_graph st)" "those (map line_edge (filter (\<lambda>l. \<not> is_comment l) ls)) = Some es'"
    "length es + length es' < ULONG_RANGE" "get_no_rels ds div factor_percent \<noteq> 0"
  shows "\<exists>st'. for_each (import_line mk_node mk_rel scan_lf False ds) st ls = Some st' \<and> copies rep (es @ es') st' \<and> room 0 (im_graph st')"
  using assms
proof (induction ls arbitrary: es es' st)
  case Nil
  then show ?case by simp
next
  case (Cons l ls)
  show ?case
  proof (cases "is_comment l")
    case True
    then have "import_line mk_node mk_rel scan_lf False ds st l = Some st" using Cons.prems(5) by (simp add: import_line_def is_comment_def)
    then show ?thesis using Cons.IH [OF Cons.prems(1,2) _ Cons.prems(4,5)] Cons.prems(3) True by simp
  next
    case False
    then obtain e es1 where e: "line_edge l = Some e" "those (map line_edge (filter (\<lambda>l. \<not> is_comment l) ls)) = Some es1" "es' = e # es1"
      using Cons.prems(3) by (auto split: option.splits)
    have r: "room (Suc (Suc (Suc (3 * length es1)))) (im_graph st)" using Cons.prems(2) e(3) by (simp add: eval_nat_numeral)
    have n: "length es < ULONG_RANGE - 1" using Cons.prems(4) e(3) by simp
    obtain st1 where st1: "import_line mk_node mk_rel scan_lf False ds st l = Some st1" "copies rep (es @ [e]) st1" "room (3 * length es1) (im_graph st1)"
      using line_step [OF Cons.prems(1) r False e(1) n Cons.prems(5)] by blast
    show ?thesis using Cons.IH [OF st1(2,3) e(2) _ Cons.prems(5)] Cons.prems(4) e(3) st1(1) by auto
  qed
qed

end

lemma start_copies: "rep s empty_graph \<Longrightarrow> copies rep [] (import_start seeds s)"
  using imported_empty by (auto simp: copies_def import_start_def d_ul_ul_create_ok)

lemma percent_pos [simp]: "get_no_rels ds div factor_percent \<noteq> 0"
  by (cases ds) (simp_all add: factor_percent_def)

lemma one_weight: "0x3FF0000000000000 < ULONG_RANGE" "\<not> double_eq 0x3FF0000000000000 UNINITIALIZED_WEIGHT"
  by (simp_all add: ULONG_RANGE_def double_eq_def UNINITIALIZED_WEIGHT_def)

section \<open>The in-memory graph\<close>

interpretation inm_target: graph_target inm_abs inm_room in_memory_create_node in_memory_import_relationship
proof
  fix db G k l
  assume "inm_abs db G" "inm_room (Suc k) db" "l < ULONG_RANGE"
  then show "\<exists>i db'. in_memory_create_node db l = Some (i, db') \<and> inm_room k db' \<and> g_labels G i = None \<and> inm_abs db' (G\<lparr>g_labels := (g_labels G)(i \<mapsto> l)\<rparr>)"
    using inm_create_node_ok [of db G l] by (fastforce simp: inm_room_def)
next
  fix db G k a b l
  assume "inm_abs db G" "inm_room (Suc k) db" "g_labels G a \<noteq> None" "g_labels G b \<noteq> None" "l < ULONG_RANGE"
  then show "\<exists>i db'. in_memory_import_relationship db a b None l = Some (i, db') \<and> inm_room k db' \<and> map_of (g_edges G) i = None \<and>
      inm_abs db' (G\<lparr>g_edges := g_edges G @ [(i, a, b, 0x3FF0000000000000, l)]\<rparr>)"
    using inm_create_relationship_ok [of db G a b "0x3FF0000000000000" l] one_weight
    by (fastforce simp: inm_room_def in_memory_import_relationship_def in_memory_create_relationship_def)
qed (auto simp: inm_room_def)

section \<open>The heap file\<close>

text \<open>A heap file while it imports.\<close>

definition bulk_abs :: "heap_file \<Rightarrow> pgraph \<Rightarrow> bool" where
  "bulk_abs hf G \<longleftrightarrow> hf_abs hf G \<and> pc_bulk_import (hf_cache hf)"

lemma hf_fixed_bulk: "hf_fixed hf' = hf_fixed hf \<Longrightarrow> pc_bulk_import (hf_cache hf') = pc_bulk_import (hf_cache hf)"
  by (simp add: hf_fixed_def)

interpretation heap_target: graph_target bulk_abs hf_room "\<lambda>hf l. create_node hf l False" import_create_relationship
proof
  fix hf G k l
  assume "bulk_abs hf G" "hf_room (Suc k) hf" "l < ULONG_RANGE"
  then show "\<exists>i hf'. create_node hf l False = Some (i, hf') \<and> hf_room k hf' \<and> g_labels G i = None \<and> bulk_abs hf' (G\<lparr>g_labels := (g_labels G)(i \<mapsto> l)\<rparr>)"
    using create_node_step [of hf G k l False] by (auto simp: bulk_abs_def dest: hf_fixed_bulk)
next
  fix hf G k a b l
  assume "bulk_abs hf G" "hf_room (Suc k) hf" "g_labels G a \<noteq> None" "g_labels G b \<noteq> None" "l < ULONG_RANGE"
  then show "\<exists>i hf'. import_create_relationship hf a b None l = Some (i, hf') \<and> hf_room k hf' \<and> map_of (g_edges G) i = None \<and>
      bulk_abs hf' (G\<lparr>g_edges := g_edges G @ [(i, a, b, 0x3FF0000000000000, l)]\<rparr>)"
    using create_relationship_step [of hf G k a b "0x3FF0000000000000" l False] one_weight
    by (auto simp: bulk_abs_def import_create_relationship_def dest: hf_fixed_bulk)
qed (rule hf_room_mono)

text \<open>Setting the flag keeps everything; allocating pages adds free slots only.\<close>

lemma set_bulk_abs: "hf_abs hf G \<Longrightarrow> bulk_abs (set_bulk hf True) G"
proof -
  let ?pc = "(hf_cache hf)\<lparr>pc_bulk_import := True\<rparr>"
  assume h: "hf_abs hf G"
  have core: "pc_pages ?pc = pc_pages (hf_cache hf)" "pc_inv ?pc = pc_inv (hf_cache hf)" "pc_view ?pc = pc_view (hf_cache hf)"
    using same_core [of ?pc "hf_cache hf"] by simp_all
  have v: "key_view ?pc = key_view (hf_cache hf)" "db_has ?pc = db_has (hf_cache hf)"
    by (rule ext; simp add: core key_view_def db_has_def key_has_def split: prod.split)+
  have m: "hf_nodes (set_bulk hf True) = hf_nodes hf" "hf_rels (set_bulk hf True) = hf_rels hf"
    by (rule ext; simp add: hf_nodes_def hf_rels_def rec_used_def set_bulk_def v)+
  have "db_idle ?pc" if "db_idle (hf_cache hf)"
    using that core(2) by (auto simp: db_idle_def db_ready_def ready_def books_def nocat_def pin_sum_def)
  then have "hf_inv (set_bulk hf True)" using hf_abs_inv [OF h] core(1) v by (simp add: hf_inv_def header_clean_def set_bulk_def)
  then show ?thesis using h m by (simp add: bulk_abs_def hf_abs_def hf_graph_def hf_labels_def hf_edges_def hf_counts_def) (simp add: set_bulk_def)
qed

lemma header_pages: "pd_inv db \<Longrightarrow> ft \<noteq> invalid_ft \<Longrightarrow> df_num_pages (pd_header db ft) \<le> df_num_pages (pd_records db ft) + 1"
  using pd_invD(6,8) [of db ft] by (simp add: n_slots_def PAGE_SIZE_def CHAR_BIT_def SLOTS_PER_PAGE_eq)

lemma bulk_room:
  assumes "bulk_abs hf G" "\<And>node. rec_pages hf node + k + 1 < MAX_PAGE_NO"
  shows "hf_room k hf"
proof -
  have "pd_inv (pc_pdb (hf_cache hf))" using hf_abs_inv assms(1) by (auto simp: bulk_abs_def hf_inv_def db_idle_def db_ready_def books_def)
  from header_pages [OF this] have hp: "pc_pages (hf_cache hf) header (rec_ft node) \<le> rec_pages hf node + 1" for node
    by (simp add: pc_pages_def file_of_def rec_pages_def)
  then have "pc_pages (hf_cache hf) header (rec_ft node) + k < MAX_PAGE_NO \<and> rec_pages hf node + k < MAX_PAGE_NO" for node
    using assms(2) [of node] hp [of node] by linarith
  then show ?thesis using assms(1) by (simp add: hf_room_def bulk_abs_def)
qed

lemma bulk_allocate:
  assumes b: "bulk_abs hf G" and room: "rec_pages hf node + n + 1 < MAX_PAGE_NO"
  shows "\<exists>db'. allocate_pages (pc_pdb (hf_cache hf)) (rec_ft node) n log = Some db' \<and> bulk_abs (set_pdb hf db') G \<and>
    rec_pages (set_pdb hf db') node = rec_pages hf node + n \<and> (\<forall>nd. nd \<noteq> node \<longrightarrow> rec_pages (set_pdb hf db') nd = rec_pages hf nd)"
proof -
  let ?pc = "hf_cache hf" and ?ft = "rec_ft node"
  have h: "hf_abs hf G" "hf_inv hf" "pc_bulk_import ?pc" using b hf_abs_inv by (auto simp: bulk_abs_def)
  then have r: "ready (pc_n_frames ?pc) ?pc" "books ?pc" "nocat ?pc" "pd_inv (pc_pdb ?pc)" by (simp_all add: hf_inv_def db_idle_def db_ready_def books_def)
  have ft: "?ft \<noteq> invalid_ft" "?ft \<in> set file_types" by simp_all
  obtain db' where d: "allocate_pages (pc_pdb ?pc) ?ft n log = Some db'" "pd_inv db'" "df_num_pages (pd_records db' ?ft) = df_num_pages (pd_records (pc_pdb ?pc) ?ft) + n"
    "grown (pd_records (pc_pdb ?pc) ?ft) (pd_records db' ?ft)" "grown (pd_header (pc_pdb ?pc) ?ft) (pd_header db' ?ft)"
    "\<forall>ft'. ft' \<noteq> ?ft \<longrightarrow> pd_records db' ft' = pd_records (pc_pdb ?pc) ft' \<and> pd_header db' ft' = pd_header (pc_pdb ?pc) ft'"
    using allocate_pages_ok [OF r(4) ft(2), of n log] header_pages [OF r(4) ft(1)] room by (auto simp: rec_pages_def)
  have g: "db_grown (pc_pdb ?pc) db'" using d(4-6) unfolding db_grown_def by (auto simp: file_of_def split: file_kind.splits; metis grown_refl)
  let ?pc' = "?pc\<lparr>pc_pdb := db'\<rparr>"
  note gf = grown_files [OF ready_inv [OF r(1)] r(3) pd_inv_files_ok [OF d(2)] g refl]
  have e: "store_ext ?pc ?pc'" using gf(3,4) by (auto simp: store_ext_def)
  have "ready (pc_n_frames ?pc) ?pc'" using ready_grown [OF r(1,3) pd_inv_files_ok [OF d(2)] g] h(3) by simp
  then have "db_idle ?pc'" using h(2) d(2) r(3) by (simp add: hf_inv_def db_idle_def db_ready_def books_def nocat_def)
  moreover have "header_clean ?pc' nd" for nd by (rule grown_clean [OF e hf_inv_clean [OF h(2)]])
  ultimately have inv: "hf_inv (set_pdb hf db')" using h(2) by (simp add: hf_inv_def set_pdb_def)
  have m: "hf_nodes (set_pdb hf db') = hf_nodes hf" "hf_rels (set_pdb hf db') = hf_rels hf"
    using grown_records [OF h(2), of "set_pdb hf db'"] e by (simp_all add: set_pdb_def)
  have "bulk_abs (set_pdb hf db') G"
    using h(1,3) inv m by (simp add: bulk_abs_def hf_abs_def hf_graph_def hf_labels_def hf_edges_def hf_counts_def) (simp add: set_pdb_def)
  moreover have "rec_ft nd \<noteq> ?ft" if "nd \<noteq> node" for nd using that by (cases nd; cases node) simp_all
  ultimately show ?thesis using d(1,3,6) by (auto simp: rec_pages_def set_pdb_def)
qed

section \<open>Imports\<close>

lemma those_length: "those xs = Some ys \<Longrightarrow> length ys = length xs"
  by (induction xs arbitrary: ys) (auto split: option.splits)

lemma text_edges_length: "text_edges t = Some es \<Longrightarrow> length es \<le> length (file_lines t)"
  by (auto simp: text_edges_def dest!: those_length)

lemma rec_pages_bulk [simp]: "rec_pages (set_bulk hf b) = rec_pages hf" "set_pdb (set_pdb hf db) db' = set_pdb hf db'" "pc_pdb (hf_cache (set_pdb hf db)) = db"
  by (simp_all add: rec_pages_def fun_eq_iff set_bulk_def set_pdb_def)

lemma set_bulk_back: "bulk_abs hf G \<Longrightarrow> set_bulk (set_bulk hf False) True = hf"
  by (simp add: bulk_abs_def set_bulk_def)

text \<open>
  C35: Importing a text without weights into an empty heap file copies its edges. If every line is a comment or has two numbers, the import returns, the
  nodes of the heap file are those of the text one to one and have them as labels, its relationships are the lines of the text in order, from and to the
  nodes of the line, with weight 1 and the number of the line as label, and the two dictionaries say which is which. Any other text ends the program. The file has to have room for the
  pages that are allocated for the data set and for the lines. The heap file is consistent up to the flag \<^verbatim>\<open>bulk_import\<close>, which is reset at the end although
  the cache has queued no frame for eviction meanwhile.
\<close>
theorem import_copies_edges:
  assumes "hf_abs hf empty_graph"
    and "rec_pages hf True + num_pages (get_no_nodes ds) NUM_SLOTS_PER_NODE + 3 * length (file_lines t) + 1 < MAX_PAGE_NO"
    and "rec_pages hf False + num_pages (get_no_rels ds) NUM_SLOTS_PER_REL + 3 * length (file_lines t) + 1 < MAX_PAGE_NO"
  shows "case text_edges t of None \<Rightarrow> import_from_txt scan_lf seeds hf (Some t) False ds = None
    | Some es \<Rightarrow> \<exists>n r hf' G. import_from_txt scan_lf seeds hf (Some t) False ds = Some ((n, r), hf') \<and> \<not> pc_bulk_import (hf_cache hf') \<and>
        hf_abs (set_bulk hf' True) G \<and> imported es (ht_map n) (ht_map r) G"
proof (cases "text_edges t")
  case None
  then show ?thesis unfolding import_from_txt_def Let_def by (auto simp: text_edges_def split: Option.bind_split dest: loop_exit)
next
  case (Some es)
  let ?hf = "set_bulk hf True" and ?pn = "num_pages (get_no_nodes ds) NUM_SLOTS_PER_NODE" and ?pr = "num_pages (get_no_rels ds) NUM_SLOTS_PER_REL"
  note len = text_edges_length [OF Some]
  obtain db1 where 1: "allocate_pages (pc_pdb (hf_cache ?hf)) node_ft ?pn False = Some db1" "bulk_abs (set_pdb ?hf db1) empty_graph"
    "rec_pages (set_pdb ?hf db1) True = rec_pages hf True + ?pn" "rec_pages (set_pdb ?hf db1) False = rec_pages hf False"
    using bulk_allocate [OF set_bulk_abs [OF assms(1)], of True ?pn False] assms(2) by auto
  obtain db2 where 2: "allocate_pages db1 relationship_ft ?pr False = Some db2" "bulk_abs (set_pdb ?hf db2) empty_graph"
    "rec_pages (set_pdb ?hf db2) False = rec_pages hf False + ?pr" "rec_pages (set_pdb ?hf db2) True = rec_pages hf True + ?pn"
    using bulk_allocate [OF 1(2), of False ?pr False] assms(3) 1(3,4) by auto
  have "rec_pages (set_pdb ?hf db2) node + 3 * length es + 1 < MAX_PAGE_NO" for node
    using 2(3,4) assms(2,3) len by (cases node) simp_all
  from bulk_room [OF 2(2) this] have room: "hf_room (3 * length es) (im_graph (import_start seeds (set_pdb ?hf db2)))" by (simp add: import_start_def)
  have "length es < ULONG_RANGE" using assms(2) len by (simp add: MAX_PAGE_NO_def LONG_MAX_def PAGE_SIZE_def ULONG_RANGE_def)
  then obtain st where st: "for_each (import_line (\<lambda>hf l. create_node hf l False) import_create_relationship scan_lf False ds)
      (import_start seeds (set_pdb ?hf db2)) (file_lines t) = Some st" "copies bulk_abs es st"
    using heap_target.loop_copies [OF start_copies [of bulk_abs, OF 2(2)] room _ _ percent_pos, where ls = "file_lines t"] Some by (auto simp: text_edges_def)
  then obtain G where "bulk_abs (im_graph st) G" "imported es (ht_map (im_nodes st)) (ht_map (im_rels st)) G" by (auto simp: copies_def)
  then show ?thesis using Some st(1) 1(1) 2(1) set_bulk_back by (auto simp: import_from_txt_def bulk_abs_def) (simp add: set_bulk_def)
qed

theorem import_copies_edges_witness:
  "\<exists>hf n r hf' G. hf_abs hf empty_graph \<and>
    import_from_txt (\<lambda>_. None) (1, 2) hf (Some (edge_text ['' Nodes: 2''] (CHR 0x09) [(5, 7), (7, 5)])) False C_ELEGANS = Some ((n, r), hf') \<and>
    hf_abs (set_bulk hf' True) G \<and> imported [(5, 7), (7, 5)] (ht_map n) (ht_map r) G"
proof -
  let ?t = "edge_text ['' Nodes: 2''] (CHR 0x09) [(5, 7), (7, 5)]"
  obtain db fs pc hf where d: "hf_inv hf" "hf_counts hf" "hf_room 300 hf" "hf_nodes hf = Map.empty" "hf_rels hf = Map.empty"
    by (rule new_database [of 1000 300 "''db''" "''log''" "\<lambda>_ _. 0"]) auto
  have e: "text_edges ?t = Some [(5, 7), (7, 5)]" by (rule text_edges_text) (simp_all add: CHUNK_def ULONG_RANGE_def)
  have "length ?t = 19" by (simp add: edge_text_def edge_line_def decimal.simps)
  then have l: "length (file_lines ?t) \<le> 19" using file_lines_length [of ?t] by simp
  have r: "rec_pages hf node + 300 < MAX_PAGE_NO" for node using d(3) by (simp add: hf_room_def)
  have p: "num_pages (get_no_nodes C_ELEGANS) NUM_SLOTS_PER_NODE = 1" "num_pages (get_no_rels C_ELEGANS) NUM_SLOTS_PER_REL = 12"
    by (simp_all add: num_pages_def SLOTS_PER_PAGE_eq slots_eq)
  note a = empty_abs [OF d(1,2,4,5)]
  from import_copies_edges [OF a, of C_ELEGANS ?t "\<lambda>_. None" "(1, 2)"] r [of True] r [of False] l show ?thesis
    unfolding p using a by (intro exI [of _ hf]) (auto simp: e)
qed

text \<open>
  C36: The in-memory import reads what is printed. The text of an edge list, with any comments before it, blanks or tabs between the numbers of a line and
  numbers below \<open>2 ^ 64\<close>, is imported into a new in-memory graph without an error, and the graph is that of the list.
\<close>
theorem in_memory_import_roundtrip:
  assumes "\<forall>c \<in> set cs. CHR 0x0A \<notin> set c \<and> length c + 2 < CHUNK" "\<forall>e \<in> set es. fst e < ULONG_RANGE \<and> snd e < ULONG_RANGE"
    and "sep = CHR 0x20 \<or> sep = CHR 0x09" "3 * length es < UNINITIALIZED_LONG"
  shows "\<exists>n r db G. in_memory_import_from_txt scan_lf seeds (in_memory_graph_create g_seeds) (Some (edge_text cs sep es)) False ds = Some ((n, r), db) \<and>
    inm_abs db G \<and> imported es (ht_map n) (ht_map r) G"
proof -
  let ?db = "in_memory_graph_create g_seeds"
  have room: "inm_room (3 * length es) (im_graph (import_start seeds ?db))"
    using assms(4) by (simp add: inm_room_def in_memory_graph_create_def import_start_def)
  have "length es < ULONG_RANGE" using assms(4) by (simp add: UNINITIALIZED_LONG_def ULONG_RANGE_def)
  then obtain st where st: "for_each (import_line in_memory_create_node in_memory_import_relationship scan_lf False ds) (import_start seeds ?db)
      (file_lines (edge_text cs sep es)) = Some st" "copies inm_abs es st"
    using inm_target.loop_copies [OF start_copies [of inm_abs, OF in_memory_graph_create_abs] room _ _ percent_pos, where ls = "file_lines (edge_text cs sep es)"]
      text_edges_text [OF assms(1-3)] by (auto simp: text_edges_def)
  then show ?thesis by (auto simp: in_memory_import_from_txt_def copies_def)
qed

theorem in_memory_import_roundtrip_witness:
  "\<exists>n r db G. in_memory_import_from_txt (\<lambda>_. None) (1, 2) (in_memory_graph_create (3, 4)) (Some (edge_text ['' comment''] (CHR 0x20) [(5, 70), (70, 5), (5, 5)])) False
      EMAIL_EU_CORE = Some ((n, r), db) \<and> inm_abs db G \<and> imported [(5, 70), (70, 5), (5, 5)] (ht_map n) (ht_map r) G"
  by (rule in_memory_import_roundtrip) (simp_all add: CHUNK_def ULONG_RANGE_def UNINITIALIZED_LONG_def)

lemma import_field_length: "import_field mk_node st i = Some st' \<Longrightarrow> i < length (snd (snd st)) \<and> length (snd (snd st')) = length (snd (snd st))"
  by (cases st) (auto simp: import_field_def runs split: if_splits)

lemma import_line_weighted: "\<not> is_comment buf \<Longrightarrow> import_line mk_node mk_rel scan_lf True ds st buf = None"
proof (rule ccontr)
  assume c: "\<not> is_comment buf" "import_line mk_node mk_rel scan_lf True ds st buf \<noteq> None"
  then obtain ft w st1 where ft: "sscanf_fields scan_lf True buf = Some (ft, w)" "for_each (import_field mk_node) (im_graph st, im_nodes st, ft) [0..<3] = Some st1"
    by (auto simp: import_line_def is_comment_def runs split: if_splits)
  have "[0..<3] = [0, 1, 2]" by (simp add: upt_conv_Cons)
  with ft(2) have "2 < length ft" by (auto simp: runs dest!: import_field_length)
  moreover have "length ft = 2" using ft(1) by (auto simp: sscanf_fields_def runs)
  ultimately show False by simp
qed

lemma for_each_stuck: "x \<in> set xs \<Longrightarrow> (\<And>s. f s x = None) \<Longrightarrow> for_each f s xs = None"
  by (induction xs arbitrary: s) (auto split: Option.bind_split)

lemma weighted_stuck:
  assumes "\<exists>l \<in> set (file_lines t). \<not> is_comment l"
  shows "for_each (import_line mk_node mk_rel scan_lf True ds) st (file_lines t) = None"
proof -
  from assms obtain l where l: "l \<in> set (file_lines t)" "\<not> is_comment l" by blast
  show ?thesis by (rule for_each_stuck [OF l(1)]) (rule import_line_weighted [OF l(2)])
qed

text \<open>
  C37: No import with weights returns. For three fields on a line the loop also looks up \<^verbatim>\<open>from_to[2]\<close>, beyond the end of the array, whatever the line has and
  however its weight is read; both importers have a result only for texts of comments.
\<close>
theorem weighted_import_fails:
  assumes "\<exists>l \<in> set (file_lines t). \<not> is_comment l"
  shows "import_from_txt scan_lf seeds hf (Some t) True ds = None \<and> in_memory_import_from_txt scan_lf seeds g (Some t) True ds = None"
  unfolding import_from_txt_def in_memory_import_from_txt_def Let_def by (auto simp: weighted_stuck [OF assms] split: Option.bind_split)

theorem weighted_import_fails_witness:
  "\<forall>hf. import_from_txt (\<lambda>_. Some 0x3FE0000000000000) (1, 2) hf (Some ''1 2 0.5'') True C_ELEGANS = None \<and>
    in_memory_import_from_txt (\<lambda>_. Some 0x3FE0000000000000) (1, 2) (in_memory_graph_create (3, 4)) (Some ''1 2 0.5'') True C_ELEGANS = None"
proof -
  have "file_lines ''1 2 0.5'' = [''1 2 0.5'']" by (simp add: file_lines.simps [of "_ # _"] fgets_def CHUNK_def)
  then show ?thesis by (intro allI weighted_import_fails) (simp add: is_comment_def)
qed

section \<open>Unpacking and the whole import\<close>

text \<open>
  An archive that is cut off keeps \<^verbatim>\<open>uncompress_dataset\<close> in its loop: at the end of the input zlib returns \<^verbatim>\<open>Z_BUF_ERROR\<close>, since no progress is possible, which the
  code neither takes for an error nor for the end of the stream. An archive of one chunk that is complete is unpacked.
\<close>

lemma inflate_chunk_last:
  assumes "inflate z i CHUNK = (ret, z', i', out)" "length out \<noteq> CHUNK" "ret = Z_OK \<or> ret = Z_BUF_ERROR \<or> ret = Z_STREAM_END"
  shows "inflate_chunk inflate z i f = Some (ret, z', f @ out)"
  using assms by (subst inflate_chunk.simps) auto

lemma inflate_file_starved:
  assumes s: "inflate z [] CHUNK = (Z_BUF_ERROR, z, [], [])"
  shows "inflate_file inflate z [] out \<noteq> Some r"
proof
  have "CHUNK \<noteq> 0" by (simp add: CHUNK_def)
  then have c: "inflate_chunk inflate z [] f = Some (Z_BUF_ERROR, z, f)" for f using inflate_chunk_last [of inflate z, OF s] by simp
  assume "inflate_file inflate z [] out = Some r"
  then have "(inflate, z, []) \<noteq> (inflate, z, ([] :: byte list))"
  proof (rule inflate_file.raw_induct [rotated, where P = "\<lambda>i z' f out r. (i, z', f) \<noteq> (inflate, z, [])"])
    fix step i z' f out r
    assume IH: "\<And>i z' f out r. step i z' f out = Some r \<Longrightarrow> (i, z', f) \<noteq> (inflate, z, [])"
      and run: "(inflate_chunk i z' (take CHUNK f) out \<bind> (\<lambda>(ret, z, out_file).
        if ret = Z_NEED_DICT \<or> ret = Z_DATA_ERROR \<or> ret = Z_MEM_ERROR then Some (- 1, out_file)
        else if ret \<noteq> Z_STREAM_END then step i z (drop CHUNK f) out_file else Some (0, out_file))) = Some r"
    show "(i, z', f) \<noteq> (inflate, z, [])"
    proof
      assume "(i, z', f) = (inflate, z, [])"
      then have "step inflate z [] out = Some r" using run c by simp
      then show False using IH by blast
    qed
  qed
  then show False by simp
qed

theorem uncompress_hangs_on_truncated:
  assumes "length gz \<le> CHUNK" "inflate init gz CHUNK = (Z_OK, z, [], out)" "length out \<noteq> CHUNK" "inflate z [] CHUNK = (Z_BUF_ERROR, z, [], [])"
  shows "uncompress_dataset inflate init gz = None"
proof -
  have "uncompress_dataset inflate init gz = inflate_file inflate z [] out"
    using assms(1) inflate_chunk_last [of inflate init, OF assms(2,3), of "[]"] by (simp add: uncompress_dataset_def inflate_file.simps [of inflate init])
  then show ?thesis using inflate_file_starved [of inflate z, OF assms(4)] by (cases "inflate_file inflate z [] out") auto
qed

theorem uncompress_one_chunk:
  assumes "length gz \<le> CHUNK" "inflate init gz CHUNK = (Z_STREAM_END, z, rest, out)" "length out \<noteq> CHUNK"
  shows "uncompress_dataset inflate init gz = Some (0, out)"
  using assms(1) inflate_chunk_last [of inflate init, OF assms(2,3), of "[]"] by (simp add: uncompress_dataset_def inflate_file.simps [of inflate init])

lemma written: "fold write_data pieces stream = stream @ concat pieces"
  by (induction pieces arbitrary: stream) (simp_all add: write_data_def)

theorem import_is_import_from_txt:
  assumes "curl (get_url ds) = Some pieces" "uncompress_dataset inflate init (concat pieces) = Some (0, map (\<lambda>c. of_nat (of_char c)) t)"
  shows "import curl inflate init scan_lf seeds hf weighted ds = map_option snd (import_from_txt scan_lf seeds hf (Some t) weighted ds)"
proof -
  have "char_of (unat (of_nat (of_char c) :: byte)) = c" for c :: char by (simp add: unat_of_nat)
  then have "map ((\<lambda>b. char_of (unat b)) \<circ> (\<lambda>c. of_nat (of_char c) :: byte)) t = t" by (simp add: comp_def)
  then show ?thesis using assms by (auto simp: import_def download_dataset_def written split: Option.bind_split)
qed

end
