(* ===== verification/Spec2Isabelle.thy ===== *)
theory Spec2Isabelle
  imports Linked_List Array_List Htable Set_Table Cache_Client Heap_Reopen Heap_Lookup Heap_Access Degrees Dijkstra Record_Reorder Import_Faithful
begin

text \<open>
  A verification development for goedb, a graph database in C that keeps nodes and relationships in slotted pages on disk. File names are relative
  to \<^verbatim>\<open>src\<close> of the repository.

  \<^bold>\<open>The program.\<close> \<^verbatim>\<open>io/disk_file.c\<close> reads and writes files page by page. \<^verbatim>\<open>io/physical_database.c\<close> keeps a database in five of
  them: a catalogue, and a file of records and one of header bits for nodes and for relationships each. \<^verbatim>\<open>cache/page_cache.c\<close> holds pages
  in frames, \<^verbatim>\<open>cache/page.c\<close> gives typed access to a pinned page. \<^verbatim>\<open>access/header_page.c\<close> handles ranges of header bits, \<^verbatim>\<open>access/node.c\<close> and
  \<^verbatim>\<open>access/relationship.c\<close> are the records, and \<^verbatim>\<open>access/heap_file.c\<close> is the graph: it allocates slots and links the relationships of every
  node in a ring. \<^verbatim>\<open>query\<close> has the queries on top of it, \<^verbatim>\<open>order\<close> moves records to other slots. \<^verbatim>\<open>access/in_memory_graph.c\<close> is the same graph on hash tables.
  \<^verbatim>\<open>query/snap_importer.c\<close> fills either graph from edge lists. The containers are the macros of \<^verbatim>\<open>include/data-struct\<close>: linked lists with queues and stacks, array lists, hash tables, hash sets and Fibonacci heaps.

  \<^bold>\<open>Conventions.\<close> A run that ends the program (\<^verbatim>\<open>exit\<close>), uses invalid memory or never ends has the result \<open>None\<close>; operations are written
  in the monad of options and pass their state along. Loops over a counter are \<open>for_each\<close>, loops that need not end are defined by
  \<open>partial_function (option)\<close>, so that a theorem with a result \<open>Some\<close> is one about termination; there is no fuel. \<^verbatim>\<open>unsigned long\<close> is \<open>ulong\<close>, a natural
  number with the reduction modulo \<open>ULONG_RANGE\<close> written where an operation can overflow; bytes, pin counts and record counters are words of their width; doubles and floats are bit patterns with the
  rounding of IEEE 754. Files are maps from names to contents, logs are lists of entries, the numbers of \<^verbatim>\<open>rand\<close>, the seeds of the hash functions and \<^verbatim>\<open>logf\<close> of the C library are parameters. A page has 4096 bytes, which is what \<^verbatim>\<open>sysconf\<close> gives on the usual platforms.
  Allocation does not fail.

  \<^bold>\<open>The theories.\<close>
  \<^item> \<open>Goedb_Prelude\<close>: types, constants of \<^verbatim>\<open>include/constants.h\<close>, callbacks of \<^verbatim>\<open>data-struct/cbs.c\<close>, \<open>for_each\<close>. \<open>Container_Specs\<close>: the
    contracts of sequences and maps as locales, with what clients derive from them.
  \<^item> \<open>Linked_List\<close>, \<open>Array_List\<close>, \<open>Htable\<close>, \<open>Set_Table\<close>: the macros of the same names, at the level of pointers, blocks and buckets. Each interprets
    its contract; the properties are the refinements of sequences, maps and sets (for sets over runs, with the removals that \<^verbatim>\<open>SET_REMOVE\<close> does not count), and what \<^verbatim>\<open>queue_move_back\<close> does at the ends of a queue.
  \<^item> \<open>Bytes\<close>, \<open>Disk_File\<close>, \<open>Physical_Database\<close>, \<open>Page\<close>: buffers, files, the database with its catalogue and headers, and typed access. The properties are
    round trips, also over closing and opening, and the bookkeeping of \<^verbatim>\<open>allocate_pages\<close>.
  \<^item> \<open>Page_Cache\<close> is \<^verbatim>\<open>page_cache.c\<close>; \<open>Page_Cache_Inv\<close> has its invariant, \<open>Page_Cache_Live\<close> and \<open>Page_Cache_Ready\<close> when its operations return, \<open>Page_Store\<close> the
    locale \<open>page_store\<close> of a plain array of pages, and \<open>Cache_Client\<close> the refinement of that array by the cache for arbitrary clients.
  \<^item> \<open>Header_Page\<close>: ranges of bits over bytes and pages. \<open>Records\<close>: nodes and relationships and their layout.
  \<^item> \<open>Db_Cache\<close> is the cache of a consistent database. \<open>Heap_File\<close> is \<^verbatim>\<open>heap_file.c\<close>; \<open>Heap_Slots\<close> gives the maps of nodes and relationships a database shows and
    the contract of the slot level on them, \<open>Heap_Records\<close> allocation, creation and scans, \<open>Linked_Rings\<close> and \<open>Heap_Chains\<close> the rings of relationships and the
    traversals along them, \<open>Heap_Links\<close> the linking of new ones. \<open>Heap_Graph\<close> has the abstract property graph and the refinement; \<open>Heap_Reopen\<close> adds persistence,
    \<open>Heap_Lookup\<close> the search for a relationship between two nodes, \<open>Heap_Access\<close> single operations and their errors.
  \<^item> \<open>Queries\<close> has searches, degrees, random walks and paths of \<^verbatim>\<open>query\<close>. \<open>Graph_Search\<close> is searching on abstract graphs, \<open>Traversals\<close> that \<^verbatim>\<open>bfs\<close> and \<^verbatim>\<open>dfs\<close> refine it,
    over a locale of worklists that queue and stack interpret; \<open>Paths\<close> has paths and random walks, \<open>Degrees\<close> the degree queries. Their log file may be a null pointer.
  \<^item> \<open>Doubles\<close>: addition and order of doubles; \<open>Singles\<close>: conversion and division of floats, with error bounds in \<open>Single_Rounding\<close>. \<open>Fib_Heap\<close> is \<^verbatim>\<open>fibonacci_heap.h\<close> with its pointers;
    \<open>Fib_Rings\<close>, \<open>Fib_Trees\<close> and \<open>Fib_Heap_Inv\<close> prove its invariant, and \<open>Fib_Queue\<close> the interface of a priority queue that may lose entries, with runs in which it does. The array of
    \<^verbatim>\<open>consolidate\<close> has the size \<open>golden_degree logf n\<close>, the formula \<open>\<lfloor>2.1 \<cdot> logf n\<rfloor>\<close> of the code with its roundings; \<open>Golden_Degree\<close> shows that it has room for all degrees if \<^verbatim>\<open>logf\<close> is
    accurate to \<open>2\<^sup>-\<^sup>1\<^sup>0\<close> (\<open>logf_accurate\<close>), and that \<open>ln_steps\<close> is.
  \<^item> \<open>Weighted_Queries\<close> has \<^verbatim>\<open>dijkstra\<close>, \<^verbatim>\<open>a_star\<close> and \<^verbatim>\<open>alt\<close>; \<open>Weighted_Search\<close> and \<open>Dijkstra\<close> prove the first one.
  \<^item> \<open>Record_Order\<close> is \<^verbatim>\<open>order\<close>: swaps of records and pages, orders given by dictionaries and sequences, sorted rings, random orders. \<open>Record_Swap\<close> and
    \<open>Record_Swap_Rels\<close> show that swaps rename nodes and relationships of the abstract graph, and the case in which \<^verbatim>\<open>swap_nodes\<close> leaves relationships behind;
    \<open>Record_Reorder\<close> has the locale \<open>record_swap\<close> of what a swap promises, the loops that apply an order on top of it for both kinds of records, and that random orders are
    permutations. Sequences and sorted rings are modelled without properties but that of the comparator.
  \<^item> \<open>In_Memory_Graph\<close> is \<^verbatim>\<open>in_memory_graph.c\<close> with a store of structs; \<open>In_Memory_Refines\<close> refines the graph of the heap file with it.
  \<^item> \<open>Snap_Import\<close> is \<^verbatim>\<open>snap_importer.c\<close>, with \<^verbatim>\<open>fgets\<close> and the conversion \<^verbatim>\<open>%lu\<close> of \<^verbatim>\<open>sscanf\<close>; the calls of curl and zlib and the conversion \<^verbatim>\<open>%lf\<close> are parameters.
    \<open>Edge_Text\<close> reads printed edge lists back. \<open>Import_Faithful\<close> has the locale \<open>graph_target\<close> of what an import needs of a graph, interpreted by heap file and in-memory graph,
    and shows that imports copy the edges of a text, that imports with weights have no result, and that \<^verbatim>\<open>uncompress_dataset\<close> does not end on an archive that is cut off.

  \<^bold>\<open>How they fit together.\<close> The containers carry the page cache; the cache and the database give a store of pages; header bits and records on that store
  give maps of nodes and relationships; rings over these maps give the abstract graph \<open>pgraph\<close>, and the queries are correct with respect to that graph only. So a
  statement such as the one on breadth first search holds of the bytes on disk, with the conditions of all levels discharged.

  \<^bold>\<open>Bounds.\<close> Outside of bulk imports, all pages of the database have to fit into the frames of the cache: \<open>ready\<close> says so, and through \<open>db_idle\<close> the consistency of a heap file (\<open>hf_inv\<close>,
  \<open>hf_abs\<close>) contains it. For operations that allocate, \<open>hf_room\<close> asks the same of the pages they may add, two for each operation, and that the files stay below \<^verbatim>\<open>MAX_PAGE_NO\<close>; for a new database this becomes
  three frames and two more for each operation, with fewer than a million operations. So \<^verbatim>\<open>evict\<close> runs in no statement about the heap file, the queries or the orders, nor in the refinement of the array of pages;
  \<^verbatim>\<open>bulk_evict\<close> does run in bulk imports, where any number of frames that holds the pinned pages is enough. The restriction is one of the code: removing a frame from the queue of recently referenced frames leaves a link to freed memory at its ends,
  which \<^verbatim>\<open>queue_move_back\<close> can follow later (\<open>move_back_use_after_free\<close>), so that no refinement across evictions holds. \<^verbatim>\<open>evict\<close> itself is covered by the invariant of the cache, which it keeps, and by
  \<open>pin_page_finds_room\<close>, for caches whose queue is in order (\<open>queue_ok\<close>). The in-memory graph assumes fewer operations than there are ids, and an import needs room for three records a line. Weights in \<open>dijkstra\<close> are not negative and no NaN;
  runs of the Fibonacci heap have fewer than \<open>2\<^sup>1\<^sup>2\<^sup>7\<close> operations. Reading a number of \<open>2\<^sup>6\<^sup>4\<close> or more with \<^verbatim>\<open>%lu\<close>, which C leaves undefined, has no result.

  \<^bold>\<open>Not modelled.\<close> Printing and stack traces are output only. \<^verbatim>\<open>main.c\<close> drives experiments; benchmarks and tests are not part of the program. Failing allocations and I/O errors of the operating system are left out, as is concurrency, which the
  program does not have.
\<close>

end
